(* ===== verification/Prelude.thy ===== *)
theory Prelude
  imports Main "HOL-Library.Word"
begin

text \<open>
  Shared ground of the development.

  A \<open>std::string\<close> of the sources is a sequence of bytes: it is a \<^typ>\<open>string\<close> here, and
  a \<open>char\<close> is an 8-bit \<^typ>\<open>char\<close>.  A position that the sources return as \<open>size_t\<close> with
  \<open>npos\<close> for "none" is a \<^typ>\<open>nat option\<close>.  The theory holds the character classes of
  \<open><cctype>\<close> in the C locale, the members of \<open>std::string\<close> the sources call, decimal
  numerals (\<open>std::to_string\<close>, \<open>std::stoi\<close>), the exceptions of the C++ library as a sum
  type with its sequencing combinators, and the generic list lemmas that the components
  share.
\<close>

named_theorems cxx_string \<open>unfolding rules for the members of std::string\<close>
named_theorems cxx_len \<open>length bounds of the pieces a string operation returns\<close>

section \<open>Exceptions as values\<close>

text \<open>
  The standard exceptions by name, a \<open>throw\<close> of a C string with its text, an operation
  whose result the language leaves undefined, and \<open>NoReturn\<close> for a recursion that its fuel
  did not carry to a result.
\<close>

datatype cxx_error = InvalidArgument | OutOfRange | Thrown string | UndefinedBehaviour | NoReturn

type_synonym 'a cxx = "cxx_error + 'a"

definition ebind :: "'e + 'a \<Rightarrow> ('a \<Rightarrow> 'e + 'b) \<Rightarrow> 'e + 'b" where
  "ebind m f = (case m of Inl e \<Rightarrow> Inl e | Inr x \<Rightarrow> f x)"

lemma ebind_simps [simp]: "ebind (Inl e) f = Inl e" "ebind (Inr x) f = f x"
  by (simp_all add: ebind_def)

lemma ebind_cong [fundef_cong]:
  "m = m' \<Longrightarrow> (\<And>x. m' = Inr x \<Longrightarrow> f x = g x) \<Longrightarrow> ebind m f = ebind m' g"
  by (auto simp: ebind_def split: sum.split)

lemma ebind_eq_Inr: "ebind m f = Inr y \<longleftrightarrow> (\<exists>x. m = Inr x \<and> f x = Inr y)"
  by (cases m) auto

fun traverse :: "('a \<Rightarrow> 'e + 'b) \<Rightarrow> 'a list \<Rightarrow> 'e + 'b list" where
  "traverse f [] = Inr []"
| "traverse f (x # xs) = ebind (f x) (\<lambda>y. ebind (traverse f xs) (\<lambda>ys. Inr (y # ys)))"

lemma traverse_cong [fundef_cong]:
  assumes "xs = ys" and "\<And>x. x \<in> set ys \<Longrightarrow> f x = g x"
  shows "traverse f xs = traverse g ys"
  unfolding assms(1) using assms(2) by (induction ys) (auto simp: ebind_def split: sum.split)

lemma traverse_Inr: "(\<And>x. x \<in> set xs \<Longrightarrow> f x = Inr (g x)) \<Longrightarrow> traverse f xs = Inr (map g xs)"
  by (induction xs) auto

lemma traverse_append:
  "traverse f (xs @ ys)
     = ebind (traverse f xs) (\<lambda>us. ebind (traverse f ys) (\<lambda>vs. Inr (us @ vs)))"
  by (induction xs) (auto simp: ebind_def split: sum.split)

lemma traverse_InrD: "traverse f xs = Inr ys \<Longrightarrow> list_all2 (\<lambda>x y. f x = Inr y) xs ys"
  by (induction xs arbitrary: ys) (auto simp: ebind_eq_Inr)

lemma distinct_snd_inject:
  "distinct (map snd xs) \<Longrightarrow> (a, c) \<in> set xs \<Longrightarrow> (b, c) \<in> set xs \<Longrightarrow> a = b"
  by (induction xs) (auto simp: image_iff intro: rev_image_eqI)

section \<open>Character classes of the C locale\<close>

abbreviation byte :: "char \<Rightarrow> nat" where
  "byte c \<equiv> of_char c"

definition isdigit :: "char \<Rightarrow> bool" where
  "isdigit c \<longleftrightarrow> 48 \<le> byte c \<and> byte c \<le> 57"

definition isupper :: "char \<Rightarrow> bool" where
  "isupper c \<longleftrightarrow> 65 \<le> byte c \<and> byte c \<le> 90"

definition islower :: "char \<Rightarrow> bool" where
  "islower c \<longleftrightarrow> 97 \<le> byte c \<and> byte c \<le> 122"

definition isalpha :: "char \<Rightarrow> bool" where
  "isalpha c \<longleftrightarrow> isupper c \<or> islower c"

definition isalnum :: "char \<Rightarrow> bool" where
  "isalnum c \<longleftrightarrow> isalpha c \<or> isdigit c"

definition isxdigit :: "char \<Rightarrow> bool" where
  "isxdigit c \<longleftrightarrow> isdigit c \<or> 97 \<le> byte c \<and> byte c \<le> 102 \<or> 65 \<le> byte c \<and> byte c \<le> 70"

definition isspace :: "char \<Rightarrow> bool" where
  "isspace c \<longleftrightarrow> byte c = 32 \<or> 9 \<le> byte c \<and> byte c \<le> 13"

lemmas ctype_defs = isdigit_def isupper_def islower_def isalpha_def isalnum_def isxdigit_def
  isspace_def

lemma byte_less: "byte c < 256"
  using of_char_of [where ?'a = nat, of "byte c"] by (metis char_of_eq_iff of_char_mod_256 mod_less_divisor zero_less_numeral)

lemma char_eq_byte: "c = d \<longleftrightarrow> byte c = byte d"
  by simp

section \<open>Members of std::string\<close>

subsection \<open>Prefixes, suffixes, substrings\<close>

definition starts_at :: "string \<Rightarrow> nat \<Rightarrow> string \<Rightarrow> bool" where
  "starts_at s pos p \<longleftrightarrow> take (length p) (drop pos s) = p"

definition has_prefix :: "string \<Rightarrow> string \<Rightarrow> bool" where
  "has_prefix p s \<longleftrightarrow> take (length p) s = p"

definition has_suffix :: "string \<Rightarrow> string \<Rightarrow> bool" where
  "has_suffix p s \<longleftrightarrow> length p \<le> length s \<and> drop (length s - length p) s = p"

definition substr :: "string \<Rightarrow> nat \<Rightarrow> nat \<Rightarrow> string" where
  "substr s pos n = take n (drop pos s)"

lemma has_prefix_iff: "has_prefix p s \<longleftrightarrow> (\<exists>r. s = p @ r)"
  unfolding has_prefix_def by (metis append_eq_conv_conj append_take_drop_id)

lemma has_suffix_iff: "has_suffix p s \<longleftrightarrow> (\<exists>r. s = r @ p)"
  unfolding has_suffix_def by (auto intro: exI [of _ "take (length s - length p) s"] simp: append_take_drop_id)
    (metis append_take_drop_id)

lemma has_suffix_append [simp]: "has_suffix p (r @ p)"
  by (auto simp: has_suffix_iff)

lemma has_suffix_Nil [simp]: "has_suffix p [] \<longleftrightarrow> p = []"
  by (auto simp: has_suffix_def)

lemma has_suffix_last: "has_suffix p s \<Longrightarrow> p \<noteq> [] \<Longrightarrow> s \<noteq> [] \<and> last s = last p"
  by (auto simp: has_suffix_iff)

lemma length_substr [cxx_len]: "length (substr s pos n) \<le> length s - pos"
  by (simp add: substr_def)

subsection \<open>Searching\<close>

fun find_at :: "string \<Rightarrow> string \<Rightarrow> nat \<Rightarrow> nat option" where
  "find_at p [] i = (if p = [] then Some i else None)"
| "find_at p (c # cs) i = (if has_prefix p (c # cs) then Some i else find_at p cs (Suc i))"

definition str_find :: "string \<Rightarrow> string \<Rightarrow> nat \<Rightarrow> nat option" where
  "str_find s p pos = (if length s < pos then None else find_at p (drop pos s) pos)"

fun char_find_at :: "(char \<Rightarrow> bool) \<Rightarrow> string \<Rightarrow> nat \<Rightarrow> nat option" where
  "char_find_at P [] i = None"
| "char_find_at P (c # cs) i = (if P c then Some i else char_find_at P cs (Suc i))"

definition find_char :: "string \<Rightarrow> char \<Rightarrow> nat \<Rightarrow> nat option" where
  "find_char s c pos = char_find_at (\<lambda>x. x = c) (drop pos s) pos"

fun last_index_of :: "(char \<Rightarrow> bool) \<Rightarrow> string \<Rightarrow> nat option" where
  "last_index_of P [] = None"
| "last_index_of P (c # cs) =
     (case last_index_of P cs of Some i \<Rightarrow> Some (Suc i) | None \<Rightarrow> if P c then Some 0 else None)"

definition rfind_char :: "string \<Rightarrow> char \<Rightarrow> nat option" where
  "rfind_char s c = last_index_of (\<lambda>x. x = c) s"

definition rfind_char_upto :: "string \<Rightarrow> char \<Rightarrow> nat \<Rightarrow> nat option" where
  "rfind_char_upto s c pos = last_index_of (\<lambda>x. x = c) (take (Suc pos) s)"

definition find_first_not_of :: "string \<Rightarrow> (char \<Rightarrow> bool) \<Rightarrow> nat option" where
  "find_first_not_of s P = char_find_at (\<lambda>c. \<not> P c) s 0"

definition find_last_not_of :: "string \<Rightarrow> (char \<Rightarrow> bool) \<Rightarrow> nat option" where
  "find_last_not_of s P = last_index_of (\<lambda>c. \<not> P c) s"

lemmas str_search_defs = str_find_def find_char_def rfind_char_def rfind_char_upto_def
  find_first_not_of_def find_last_not_of_def

lemma find_at_Some:
  "find_at p s i = Some k \<Longrightarrow> i \<le> k \<and> k \<le> i + length s \<and> has_prefix p (drop (k - i) s)"
proof (induction p s i rule: find_at.induct)
  case (1 p i)
  then show ?case by (auto simp: has_prefix_def split: if_splits)
next
  case (2 p c cs i)
  show ?case
  proof (cases "has_prefix p (c # cs)")
    case True
    with "2.prems" show ?thesis by simp
  next
    case False
    with 2 have "Suc i \<le> k \<and> k \<le> Suc i + length cs \<and> has_prefix p (drop (k - Suc i) cs)"
      by simp
    then show ?thesis by (cases k) (auto simp: Suc_diff_le)
  qed
qed

lemma find_at_first:
  "find_at p s i = Some k \<Longrightarrow> i \<le> j \<Longrightarrow> j < k \<Longrightarrow> \<not> has_prefix p (drop (j - i) s)"
proof (induction p s i arbitrary: j rule: find_at.induct)
  case (2 p c cs i)
  then show ?case by (cases "j = i") (auto simp: drop_Cons' split: if_splits)
qed (auto split: if_splits)

lemma find_at_None:
  "find_at p s i = None \<longleftrightarrow> (\<forall>j \<le> length s. \<not> has_prefix p (drop j s))"
proof (induction p s i rule: find_at.induct)
  case (2 p c cs i)
  have all: "(\<forall>j \<le> length (c # cs). \<not> has_prefix p (drop j (c # cs)))
     \<longleftrightarrow> \<not> has_prefix p (c # cs) \<and> (\<forall>j \<le> length cs. \<not> has_prefix p (drop j cs))"
    by (auto simp: All_less_Suc2 less_Suc_eq_le [symmetric])
  show ?case unfolding all using 2 by simp
qed (simp add: has_prefix_def)

lemma char_find_at_eq:
  "char_find_at P s i =
     (if \<exists>c \<in> set s. P c then Some (i + length (takeWhile (\<lambda>c. \<not> P c) s)) else None)"
  by (induction P s i rule: char_find_at.induct) auto

lemma char_find_at_None: "char_find_at P s i = None \<longleftrightarrow> (\<forall>c \<in> set s. \<not> P c)"
  by (induction P s i rule: char_find_at.induct) auto

lemma last_index_of_None: "last_index_of P s = None \<longleftrightarrow> (\<forall>c \<in> set s. \<not> P c)"
  by (induction s) (auto split: option.splits)

lemma last_index_of_less: "last_index_of P s = Some i \<Longrightarrow> i < length s"
  by (induction s arbitrary: i) (auto split: option.splits if_splits)

lemma last_index_of_nth: "last_index_of P s = Some i \<Longrightarrow> P (s ! i)"
  by (induction s arbitrary: i) (auto split: option.splits if_splits)

lemma last_index_of_tail: "last_index_of P s = Some i \<Longrightarrow> \<forall>c \<in> set (drop (Suc i) s). \<not> P c"
  by (induction s arbitrary: i) (auto simp: last_index_of_None split: option.splits if_splits)

section \<open>Trimming\<close>

definition trim_with :: "(char \<Rightarrow> bool) \<Rightarrow> string \<Rightarrow> string" where
  "trim_with P s =
     (case find_first_not_of s P of
        None \<Rightarrow> ''''
      | Some a \<Rightarrow> (case find_last_not_of s P of None \<Rightarrow> '''' | Some b \<Rightarrow> substr s a (b - a + 1)))"

definition strip :: "(char \<Rightarrow> bool) \<Rightarrow> string \<Rightarrow> string" where
  "strip P s = rev (dropWhile P (rev (dropWhile P s)))"

lemma last_index_of_append:
  "last_index_of P (xs @ ys) =
     (case last_index_of P ys of Some i \<Rightarrow> Some (length xs + i) | None \<Rightarrow> last_index_of P xs)"
  by (induction xs) (auto split: option.splits)

lemma last_index_of_eq:
  "\<exists>c \<in> set s. P c \<Longrightarrow> last_index_of P s = Some (length (dropWhile (\<lambda>c. \<not> P c) (rev s)) - 1)"
  by (induction s rule: rev_induct) (auto simp: last_index_of_append)

lemma strip_decomp: "\<exists>u v. s = u @ strip P s @ v \<and> (\<forall>c \<in> set u. P c) \<and> (\<forall>c \<in> set v. P c)"
proof -
  let ?m = "dropWhile P s"
  have "s = takeWhile P s @ ?m" by simp
  moreover have "?m = strip P s @ rev (takeWhile P (rev ?m))"
    by (metis strip_def rev_append rev_rev_ident takeWhile_dropWhile_id)
  ultimately have "s = takeWhile P s @ strip P s @ rev (takeWhile P (rev ?m))" by metis
  then show ?thesis by (metis set_rev set_takeWhileD)
qed

lemma trim_with_strip: "trim_with P s = strip P s"
proof (cases "\<exists>c \<in> set s. \<not> P c")
  case False
  then show ?thesis
    by (auto simp: trim_with_def find_first_not_of_def char_find_at_eq strip_def
        dest: set_dropWhileD)
next
  case True
  let ?u = "takeWhile P s" and ?m = "dropWhile P s"
  have s: "s = ?u @ ?m" by simp
  from True have m: "\<exists>c \<in> set ?m. \<not> P c"
    by (metis Un_iff s set_append set_takeWhileD)
  have "last_index_of (\<lambda>c. \<not> P c) s = Some (length ?u + (length (dropWhile P (rev ?m)) - 1))"
    by (subst s, subst last_index_of_append) (simp add: last_index_of_eq [OF m])
  moreover have "dropWhile P (rev ?m) \<noteq> []"
    using m by (simp add: dropWhile_eq_Nil_conv)
  ultimately have "trim_with P s = take (length (dropWhile P (rev ?m))) ?m"
    using True
    by (auto simp: trim_with_def find_first_not_of_def find_last_not_of_def char_find_at_eq
        substr_def dropWhile_eq_drop [symmetric])
  also have "\<dots> = strip P s"
    unfolding strip_def
    by (metis append_eq_conv_conj length_rev rev_append rev_rev_ident takeWhile_dropWhile_id)
  finally show ?thesis .
qed

lemma length_strip [cxx_len]: "length (strip P s) \<le> length s"
  by (metis strip_decomp le_add1 le_add2 le_trans length_append)

lemma strip_Nil [simp]: "strip P [] = []"
  by (simp add: strip_def)

lemma strip_id: "s = [] \<or> \<not> P (hd s) \<and> \<not> P (last s) \<Longrightarrow> strip P s = s"
  by (cases s) (auto simp: strip_def hd_rev [symmetric] dropWhile_eq_self_iff)

lemma strip_hd_last: "strip P s \<noteq> [] \<Longrightarrow> \<not> P (hd (strip P s)) \<and> \<not> P (last (strip P s))"
proof -
  assume ne: "strip P s \<noteq> []"
  let ?d = "dropWhile P (rev (dropWhile P s))"
  have d: "?d \<noteq> []" using ne by (simp add: strip_def)
  then have l: "\<not> P (last (strip P s))"
    unfolding strip_def by (simp add: last_rev hd_dropWhile del: dropWhile_eq_Nil_conv)
  have ne': "dropWhile P s \<noteq> []" using d by (metis dropWhile.simps(1) rev.simps(1))
  have "hd (strip P s) = last ?d" by (simp add: strip_def hd_rev)
  also have "\<dots> = last (rev (dropWhile P s))"
    by (metis d last_appendR takeWhile_dropWhile_id)
  also have "\<dots> = hd (dropWhile P s)" using ne' by (simp add: last_rev)
  finally show ?thesis using l ne' hd_dropWhile [of P s] by auto
qed

lemma strip_strip [simp]: "strip P (strip P s) = strip P s"
  by (rule strip_id) (use strip_hd_last in blast)

lemma set_strip: "set (strip P s) \<subseteq> set s"
  by (auto simp: strip_def dest!: set_dropWhileD)

lemma strip_empty_iff: "strip P s = [] \<longleftrightarrow> (\<forall>c \<in> set s. P c)"
  by (auto simp: strip_def dest: set_dropWhileD) (metis Un_iff set_append set_takeWhileD takeWhile_dropWhile_id)

lemma strip_append_ws:
  assumes w: "\<forall>c \<in> set w. P c"
  shows "strip P (s @ w) = strip P s"
proof (cases "\<forall>c \<in> set s. P c")
  case True
  with w have "strip P (s @ w) = []" and "strip P s = []"
    by (auto simp: strip_empty_iff)
  then show ?thesis by simp
next
  case False
  then obtain x where x: "x \<in> set s" "\<not> P x" by blast
  have "dropWhile P (rev w @ r) = dropWhile P r" for r
    by (rule dropWhile_append2) (use w in auto)
  then show ?thesis by (simp add: strip_def dropWhile_append1 [of x s P, OF x])
qed

section \<open>Decimal numerals\<close>

definition digit_char :: "nat \<Rightarrow> char" where
  "digit_char d = char_of (48 + d)"

fun to_string :: "nat \<Rightarrow> string" where
  "to_string n = (if n < 10 then [digit_char n] else to_string (n div 10) @ [digit_char (n mod 10)])"

declare to_string.simps [simp del]

definition digit_val :: "char \<Rightarrow> nat" where
  "digit_val c = byte c - 48"

definition digits_val :: "nat \<Rightarrow> string \<Rightarrow> nat" where
  "digits_val acc s = foldl (\<lambda>a c. a * 10 + digit_val c) acc s"

text \<open>\<open>std::stoi\<close> in base ten: leading white space, a sign, the longest run of digits.\<close>

definition stoi :: "string \<Rightarrow> int cxx" where
  "stoi s =
     (let s1 = dropWhile isspace s;
          neg = (s1 \<noteq> [] \<and> hd s1 = CHR ''-'');
          s2 = (if s1 \<noteq> [] \<and> (hd s1 = CHR ''-'' \<or> hd s1 = CHR ''+'') then tl s1 else s1);
          ds = takeWhile isdigit s2;
          v = (if neg then - int (digits_val 0 ds) else int (digits_val 0 ds))
      in if ds = [] then Inl InvalidArgument
         else if v < - (2 ^ 31) \<or> 2 ^ 31 \<le> v then Inl OutOfRange
         else Inr v)"

lemma byte_digit_char: "d < 10 \<Longrightarrow> byte (digit_char d) = 48 + d"
  by (simp add: digit_char_def of_char_of)

lemma digit_char_props: "d < 10 \<Longrightarrow> isdigit (digit_char d) \<and> digit_val (digit_char d) = d"
  by (simp add: isdigit_def digit_val_def byte_digit_char)

lemma to_string_digits: "\<forall>c \<in> set (to_string n). isdigit c"
  by (induction n rule: to_string.induct) (subst to_string.simps, auto simp: digit_char_props)

lemma to_string_nonempty: "to_string n \<noteq> []"
  by (subst to_string.simps) simp

lemma digits_val_append: "digits_val acc (s @ t) = digits_val (digits_val acc s) t"
  by (simp add: digits_val_def)

lemma digits_val_to_string: "digits_val 0 (to_string n) = n"
proof (induction n rule: to_string.induct)
  case (1 n)
  show ?case
  proof (cases "n < 10")
    case True
    then show ?thesis by (subst to_string.simps) (simp add: digits_val_def digit_char_props)
  next
    case False
    with 1 have IH: "digits_val 0 (to_string (n div 10)) = n div 10" by simp
    have "to_string n = to_string (n div 10) @ [digit_char (n mod 10)]"
      using False by (subst to_string.simps) simp
    then have "digits_val 0 (to_string n) = (n div 10) * 10 + n mod 10"
      by (simp add: digits_val_append IH) (simp add: digits_val_def digit_char_props)
    then show ?thesis by simp
  qed
qed

lemma to_string_inject: "to_string m = to_string n \<longleftrightarrow> m = n"
  by (metis digits_val_to_string)

end
