(* ===== verification/SpellingDelim.thy ===== *)
theory SpellingDelim
  imports Prelude
begin

text \<open>
  The character-level balanced-delimiter tracker for C++ type spellings, from
  \<^verbatim>\<open>include/spelling_delim.h\<close>: the depth record and its update, the splits of a spelling
  at top-level \<open>::\<close>, at top-level commas and into a template-id's head and arguments, and
  the reading of a parameter's reference declarator.

  A loop of the source that keeps a start index and pushes \<open>s.substr(start, i - start)\<close> is
  a recursion that carries that substring as the accumulator \<open>cur\<close>.  The depth counters
  are C++ \<open>int\<close>s that the code never lets fall below zero and that count characters of the
  spelling, so they are natural numbers.
\<close>

section \<open>The depth tracker\<close>

record delim_depth =
  paren :: nat
  square :: nat
  brace :: nat
  angle :: nat
  prev :: char

definition delim_start :: delim_depth where
  "delim_start = \<lparr>paren = 0, square = 0, brace = 0, angle = 0, prev = CHR 0x00\<rparr>"

definition name_char :: "char \<Rightarrow> bool" where
  "name_char c \<longleftrightarrow> isalnum c \<or> c = CHR ''_''"

definition delim_top :: "delim_depth \<Rightarrow> bool" where
  "delim_top d \<longleftrightarrow> paren d = 0 \<and> square d = 0 \<and> brace d = 0 \<and> angle d = 0"

definition delim_update :: "delim_depth \<Rightarrow> char \<Rightarrow> delim_depth" where
  "delim_update d c =
     (let d1 =
        (if c = CHR ''('' then d\<lparr>paren := paren d + 1\<rparr>
         else if c = CHR '')'' then (if 0 < paren d then d\<lparr>paren := paren d - 1\<rparr> else d)
         else if c = CHR ''['' then d\<lparr>square := square d + 1\<rparr>
         else if c = CHR '']'' then (if 0 < square d then d\<lparr>square := square d - 1\<rparr> else d)
         else if c = CHR ''{'' then d\<lparr>brace := brace d + 1\<rparr>
         else if c = CHR ''}'' then (if 0 < brace d then d\<lparr>brace := brace d - 1\<rparr> else d)
         else if c = CHR ''<'' then
           (if paren d = 0 \<and> square d = 0 \<and> brace d = 0
               \<and> (prev d = CHR 0x00 \<or> name_char (prev d))
            then d\<lparr>angle := angle d + 1\<rparr> else d)
         else if c = CHR ''>'' then
           (if 0 < angle d \<and> paren d = 0 \<and> square d = 0 \<and> brace d = 0
            then d\<lparr>angle := angle d - 1\<rparr> else d)
         else d)
      in if c \<noteq> CHR '' '' then d1\<lparr>prev := c\<rparr> else d1)"

definition blank_tab :: "char \<Rightarrow> bool" where
  "blank_tab c \<longleftrightarrow> c = CHR '' '' \<or> c = CHR 0x09"

definition spelling_trim :: "string \<Rightarrow> string" where
  "spelling_trim s = trim_with blank_tab s"

section \<open>Splitting a template-id\<close>

datatype spelling_tail = Reject | Ignore

text \<open>The first loop: the index of the \<open><\<close> that opens the first argument list.\<close>

fun find_open_angle :: "delim_depth \<Rightarrow> nat \<Rightarrow> string \<Rightarrow> nat option" where
  "find_open_angle d i [] = None"
| "find_open_angle d i (c # cs) =
     (let d' = delim_update d c
      in if c = CHR ''<'' \<and> angle d' = 1 then Some i else find_open_angle d' (Suc i) cs)"

text \<open>
  The second loop, from the character after that \<open><\<close>: the arguments pushed, and the text
  after the closing \<open>>\<close> (\<open>None\<close> when the list is not terminated).
\<close>

fun scan_template_args :: "delim_depth \<Rightarrow> string \<Rightarrow> string \<Rightarrow> string list \<times> string option" where
  "scan_template_args a cur [] = ([], None)"
| "scan_template_args a cur (c # cs) =
     (let a' = delim_update a c
      in if c = CHR ''>'' \<and> angle a = 1 \<and> angle a' = 0 then ([spelling_trim cur], Some cs)
         else if c = CHR '','' \<and> angle a' = 1 \<and> paren a' = 0 \<and> square a' = 0 \<and> brace a' = 0
         then (case scan_template_args a' [] cs of
                 (args, rest) \<Rightarrow> (spelling_trim cur # args, rest))
         else scan_template_args a' (cur @ [c]) cs)"

text \<open>
  \<open>split_template_id_parts\<close> with its two out-parameters: the returned flag, \<open>head\<close> and
  the arguments pushed to \<open>args\<close> (which every caller passes in empty).
\<close>

definition split_template_id_parts ::
    "string \<Rightarrow> spelling_tail \<Rightarrow> bool \<times> string \<times> string list" where
  "split_template_id_parts s tail =
     (case find_open_angle delim_start 0 s of
        None \<Rightarrow> (False, spelling_trim s, [])
      | Some lt \<Rightarrow>
          (let head = spelling_trim (substr s 0 lt);
               a = foldl delim_update delim_start (take (lt + 1) s)
           in (case scan_template_args a [] (drop (lt + 1) s) of
                 (args, None) \<Rightarrow> (False, head, args)
               | (args, Some rest) \<Rightarrow>
                   (if tail = Reject \<and> spelling_trim rest \<noteq> [] then (False, head, args)
                    else (True, head, args)))))"

section \<open>Splitting at top-level scope operators and commas\<close>

fun split_scope_go :: "delim_depth \<Rightarrow> string \<Rightarrow> string \<Rightarrow> string list" where
  "split_scope_go d cur [] = [cur]"
| "split_scope_go d cur [c] = [cur @ [c]]"
| "split_scope_go d cur (c # c' # cs) =
     (let d' = delim_update d c
      in if c = CHR '':'' \<and> c' = CHR '':'' \<and> delim_top d'
         then cur # split_scope_go (delim_update d' c') [] cs
         else split_scope_go d' (cur @ [c]) (c' # cs))"

definition split_scope_spelling :: "string \<Rightarrow> string list" where
  "split_scope_spelling s = split_scope_go delim_start [] s"

fun split_args_go :: "delim_depth \<Rightarrow> string \<Rightarrow> string \<Rightarrow> string list" where
  "split_args_go d cur [] =
     (let last = spelling_trim cur in if last \<noteq> [] then [last] else [])"
| "split_args_go d cur (c # cs) =
     (let d' = delim_update d c
      in if c = CHR '','' \<and> delim_top d' then spelling_trim cur # split_args_go d' [] cs
         else split_args_go d' (cur @ [c]) cs)"

definition split_template_args_spelling :: "string \<Rightarrow> string list" where
  "split_template_args_spelling s = split_args_go delim_start [] s"

section \<open>Reference declarators\<close>

record spelled_ref =
  is_ref :: bool
  rvalue :: bool
  referent_const :: bool
  referent :: string

definition no_reference :: spelled_ref where
  "no_reference = \<lparr>is_ref = False, rvalue = False, referent_const = False, referent = ''''\<rparr>"

definition drop_trailing_spaces :: "string \<Rightarrow> string" where
  "drop_trailing_spaces s = rev (dropWhile (\<lambda>c. c = CHR '' '') (rev s))"

text \<open>The index just after the last \<open>*\<close> that stands at top level, \<open>0\<close> without one.\<close>

fun last_top_star :: "delim_depth \<Rightarrow> nat \<Rightarrow> nat \<Rightarrow> string \<Rightarrow> nat" where
  "last_top_star d i from [] = from"
| "last_top_star d i from (c # cs) =
     last_top_star (delim_update d c) (Suc i)
       (if delim_top d \<and> c = CHR ''*'' then i + 1 else from) cs"

text \<open>
  Is there a whole word \<open>const\<close> at top level, at an index not before \<open>from\<close>?  The third
  argument is the text before the cursor, read for the character in front of the word.
\<close>

fun top_const_from :: "nat \<Rightarrow> delim_depth \<Rightarrow> string \<Rightarrow> string \<Rightarrow> bool" where
  "top_const_from from d before [] = False"
| "top_const_from from d before (c # cs) =
     (if \<not> (length before < from \<or> \<not> delim_top d \<or> take 5 (c # cs) \<noteq> ''const'')
         \<and> (before = [] \<or> \<not> name_char (last before))
         \<and> (length (c # cs) \<le> 5 \<or> \<not> name_char ((c # cs) ! 5))
      then True
      else top_const_from from (delim_update d c) (before @ [c]) cs)"

definition spelled_reference :: "string \<Rightarrow> spelled_ref" where
  "spelled_reference sp =
     (let s1 = drop_trailing_spaces sp;
          s2 = (if has_suffix ''...'' s1
                then drop_trailing_spaces (take (length s1 - 3) s1) else s1)
      in if s2 = [] \<or> last s2 \<noteq> CHR ''&'' then no_reference
         else
           (let s3 = butlast s2;
                rv = (s3 \<noteq> [] \<and> last s3 = CHR ''&'');
                s4 = (if rv then butlast s3 else s3);
                t = spelling_trim s4;
                from = last_top_star delim_start 0 0 t
            in \<lparr>is_ref = True, rvalue = rv,
                referent_const = top_const_from from delim_start [] t,
                referent = t\<rparr>))"

definition spelling_is_forwarding_reference :: "string \<Rightarrow> string list \<Rightarrow> bool" where
  "spelling_is_forwarding_reference sp typeparams =
     (let r = spelled_reference sp
      in if \<not> rvalue r \<or> referent_const r then False else referent r \<in> set typeparams)"

section \<open>Lossless splitting\<close>

fun join :: "string \<Rightarrow> string list \<Rightarrow> string" where
  "join sep [] = ''''"
| "join sep [x] = x"
| "join sep (x # y # zs) = x @ sep @ join sep (y # zs)"

lemma join_Cons: "xs \<noteq> [] \<Longrightarrow> join sep (x # xs) = x @ sep @ join sep xs"
  by (cases xs) auto

lemma split_scope_go_nonempty [simp]: "split_scope_go d cur s \<noteq> []"
  by (induction d cur s rule: split_scope_go.induct) (auto simp: Let_def)

lemma join_split_scope_go: "join ''::'' (split_scope_go d cur s) = cur @ s"
  by (induction d cur s rule: split_scope_go.induct) (auto simp: Let_def join_Cons)

lemma spelling_trim_strip: "spelling_trim s = strip blank_tab s"
  by (simp add: spelling_trim_def trim_with_strip)

lemma length_spelling_trim [cxx_len]: "length (spelling_trim s) \<le> length s"
  by (simp add: spelling_trim_strip length_strip)

text \<open>Length bounds of the pieces: what makes recursion over them terminate.\<close>

lemma split_scope_go_len:
  "x \<in> set (split_scope_go d cur s) \<Longrightarrow> length x \<le> length cur + length s"
  by (induction d cur s rule: split_scope_go.induct) (auto simp: Let_def split: if_splits)

lemma split_args_go_len:
  "x \<in> set (split_args_go d cur s) \<Longrightarrow> length x \<le> length cur + length s"
proof (induction d cur s rule: split_args_go.induct)
  case (1 d cur)
  then show ?case using length_spelling_trim [of cur] by (auto simp: Let_def split: if_splits)
next
  case (2 d cur c cs)
  then show ?case using length_spelling_trim [of cur] by (fastforce simp: Let_def split: if_splits)
qed

lemma scan_template_args_len:
  "x \<in> set (fst (scan_template_args a cur s)) \<Longrightarrow> length x \<le> length cur + length s"
proof (induction a cur s rule: scan_template_args.induct)
  case (1 a cur)
  then show ?case by simp
next
  case (2 a cur c cs)
  then show ?case
    using length_spelling_trim [of cur]
    by (fastforce simp: Let_def split: if_splits prod.splits)
qed

lemma find_open_angle_bounds:
  "find_open_angle d i s = Some k \<Longrightarrow> i \<le> k \<and> k < i + length s"
  by (induction d i s rule: find_open_angle.induct) (fastforce simp: Let_def split: if_splits)+

lemma split_scope_len [cxx_len]:
  "x \<in> set (split_scope_spelling s) \<Longrightarrow> length x \<le> length s"
  using split_scope_go_len [of x delim_start "[]" s] by (simp add: split_scope_spelling_def)

lemma split_args_len [cxx_len]:
  "x \<in> set (split_template_args_spelling s) \<Longrightarrow> length x \<le> length s"
  using split_args_go_len [of x delim_start "[]" s] by (simp add: split_template_args_spelling_def)

lemma split_template_id_len [cxx_len]:
  assumes "split_template_id_parts s tail = (b, head, args)" and "x \<in> set args"
  shows "length x < length s"
proof (cases "find_open_angle delim_start 0 s")
  case None
  with assms show ?thesis by (auto simp: split_template_id_parts_def)
next
  case (Some lt)
  let ?a = "foldl delim_update delim_start (take (lt + 1) s)"
  from Some assms have "x \<in> set (fst (scan_template_args ?a [] (drop (lt + 1) s)))"
    by (auto simp: split_template_id_parts_def Let_def split: prod.splits option.splits if_splits)
  then have "length x \<le> length (drop (lt + 1) s)"
    using scan_template_args_len by fastforce
  moreover have "lt < length s" using find_open_angle_bounds [OF Some] by simp
  ultimately show ?thesis by simp
qed

text \<open>The pieces hold no character the spelling does not have.\<close>

lemma set_spelling_trim: "set (spelling_trim s) \<subseteq> set s"
  by (simp add: spelling_trim_strip set_strip)

lemma split_scope_go_set: "x \<in> set (split_scope_go d cur s) \<Longrightarrow> set x \<subseteq> set cur \<union> set s"
  by (induction d cur s rule: split_scope_go.induct) (fastforce simp: Let_def split: if_splits)+

lemma split_args_go_set: "x \<in> set (split_args_go d cur s) \<Longrightarrow> set x \<subseteq> set cur \<union> set s"
proof (induction d cur s rule: split_args_go.induct)
  case (1 d cur)
  then show ?case using set_spelling_trim [of cur] by (auto simp: Let_def split: if_splits)
next
  case (2 d cur c cs)
  then show ?case using set_spelling_trim [of cur] by (fastforce simp: Let_def split: if_splits)
qed

lemma scan_template_args_set:
  "x \<in> set (fst (scan_template_args a cur s)) \<Longrightarrow> set x \<subseteq> set cur \<union> set s"
proof (induction a cur s rule: scan_template_args.induct)
  case (2 a cur c cs)
  then show ?case
    using set_spelling_trim [of cur] by (fastforce simp: Let_def split: if_splits prod.splits)
qed simp

lemma split_scope_set: "x \<in> set (split_scope_spelling s) \<Longrightarrow> set x \<subseteq> set s"
  using split_scope_go_set [of x delim_start "[]" s] by (simp add: split_scope_spelling_def)

lemma split_args_set: "x \<in> set (split_template_args_spelling s) \<Longrightarrow> set x \<subseteq> set s"
  using split_args_go_set [of x delim_start "[]" s] by (simp add: split_template_args_spelling_def)

lemma split_template_id_set:
  assumes "split_template_id_parts s tail = (b, head, args)" and "x \<in> set args"
  shows "set x \<subseteq> set s"
proof (cases "find_open_angle delim_start 0 s")
  case None
  with assms show ?thesis by (auto simp: split_template_id_parts_def)
next
  case (Some lt)
  let ?a = "foldl delim_update delim_start (take (lt + 1) s)"
  from Some assms have "x \<in> set (fst (scan_template_args ?a [] (drop (lt + 1) s)))"
    by (auto simp: split_template_id_parts_def Let_def split: prod.splits option.splits if_splits)
  then have "set x \<subseteq> set (drop (lt + 1) s)"
    using scan_template_args_set by fastforce
  then show ?thesis using set_drop_subset [of "lt + 1" s] by blast
qed

end
