(* ===== verification/MangleParse.thy ===== *)
theory MangleParse
  imports SpellingDelim
begin

text \<open>
  The front half of the Itanium mangler, \<^verbatim>\<open>src/madc_mangle.cpp\<close>: the code tables of builtin
  types and operators, the tree a type spelling is parsed into (\<open>TypeNode\<close> and
  \<open>NameComponent\<close>), and the parser of spellings.

  \<open>parse_type\<close> calls itself on pieces of its input.  Its body is \<open>parse_type_body\<close>, with the
  recursive call as a parameter; \<open>parse_type_fuel n\<close> unfolds it \<open>n\<close> times and is
  \<^const>\<open>NoReturn\<close> beyond that; \<open>parse_type\<close> takes one more unit of fuel than the spelling
  has characters, which is enough whenever some amount is (\<open>parse_type_fuel_enough\<close>):
  every recursive call is on a strictly shorter spelling, except the one the array branch
  makes on a spelling that ends in an unmatched bracket, which is on the spelling itself.
\<close>

section \<open>Code tables\<close>

datatype data_model = LP64 | LLP64

definition source_name :: "string \<Rightarrow> string" where
  "source_name name = to_string (length name) @ name"

definition nontype_literal_code :: "string \<Rightarrow> string" where
  "nontype_literal_code t =
     (if t = ''false'' then ''Lb0E'' else if t = ''true'' then ''Lb1E'' else [])"

definition builtin_rows :: "(string \<times> string) list" where
  "builtin_rows =
     [
      (''void'', ''v''), (''bool'', ''b''), (''char'', ''c''), (''signed char'', ''a''),
      (''unsigned char'', ''h''), (''short'', ''s''), (''short int'', ''s''), (''unsigned short'', ''t''),
      (''unsigned short int'', ''t''), (''int'', ''i''), (''unsigned int'', ''j''), (''unsigned'', ''j''),
      (''long'', ''l''), (''long int'', ''l''), (''unsigned long'', ''m''), (''unsigned long int'', ''m''),
      (''long long'', ''x''), (''long long int'', ''x''), (''unsigned long long'', ''y''), (''float'', ''f''),
      (''double'', ''d''), (''long double'', ''e''), (''wchar_t'', ''w''), (''char16_t'', ''Ds''),
      (''char32_t'', ''Di''), (''...'', ''z''), (''int8_t'', ''a''), (''uint8_t'', ''h''),
      (''int16_t'', ''s''), (''uint16_t'', ''t''), (''int32_t'', ''i''), (''uint32_t'', ''j'')]"

text \<open>The rows whose letter follows the target data model: (spelling, LP64, LLP64).\<close>

definition builtin_model_rows :: "(string \<times> string \<times> string) list" where
  "builtin_model_rows =
     [(''int64_t'', ''l'', ''x''), (''uint64_t'', ''m'', ''y''), (''size_t'', ''m'', ''y''),
      (''std::size_t'', ''m'', ''y''), (''ssize_t'', ''l'', ''x''), (''ptrdiff_t'', ''l'', ''x''),
      (''std::ptrdiff_t'', ''l'', ''x'')]"

definition builtin_code :: "data_model \<Rightarrow> string \<Rightarrow> string" where
  "builtin_code m t =
     (case map_of builtin_rows t of
        Some code \<Rightarrow> code
      | None \<Rightarrow>
          (case map_of builtin_model_rows t of
             Some (lp, llp) \<Rightarrow> (if m = LLP64 then llp else lp)
           | None \<Rightarrow> []))"

definition unary_rows :: "(string \<times> string) list" where
  "unary_rows = [(''+'', ''ps''), (''-'', ''ng''), (''*'', ''de''), (''&'', ''ad'')]"

definition operator_rows :: "(string \<times> string) list" where
  "operator_rows =
     [
      (''==='', ''v23eq3''), (''!=='', ''v23ne3''), (''=='', ''eq''), (''!='', ''ne''), (''<'', ''lt''),
      (''>'', ''gt''), (''<='', ''le''), (''>='', ''ge''), (''<=>'', ''ss''), (''+'', ''pl''),
      (''-'', ''mi''), (''*'', ''ml''), (''/'', ''dv''), (''%'', ''rm''), (''='', ''aS''),
      (''+='', ''pL''), (''-='', ''mI''), (''*='', ''mL''), (''/='', ''dV''), (''%='', ''rM''),
      (''&='', ''aN''), (''|='', ''oR''), (''^='', ''eO''), (''<<='', ''lS''), (''>>='', ''rS''),
      (''<<'', ''ls''), (''>>'', ''rs''), (''[]'', ''ix''), (''()'', ''cl''), (''++'', ''pp''),
      (''--'', ''mm''), (''!'', ''nt''), (''~'', ''co''), (''&'', ''an''), (''|'', ''or''),
      (''^'', ''eo''), (''&&'', ''aa''), (''||'', ''oo''), ('','', ''cm''), (''->'', ''pt''),
      (''->*'', ''pm''), (''new'', ''nw''), (''new[]'', ''na''), (''delete'', ''dl''), (''delete[]'', ''da'')]"

definition operator_code :: "string \<Rightarrow> bool \<Rightarrow> string" where
  "operator_code op unary =
     (case (if unary then map_of unary_rows op else None) of
        Some code \<Rightarrow> code
      | None \<Rightarrow> (case map_of operator_rows op of Some code \<Rightarrow> code | None \<Rightarrow> []))"

section \<open>ABI tags\<close>

text \<open>
  \<open>ob\<close> is a position or \<open>npos\<close>; the source adds one to it, and \<open>npos + 1\<close> is \<open>0\<close>.
\<close>

definition abi_tag_group :: "string \<Rightarrow> nat option \<Rightarrow> bool" where
  "abi_tag_group s ob = (substr s (case ob of None \<Rightarrow> 0 | Some k \<Rightarrow> k + 1) 4 = ''abi:'')"

definition ends_in_array_dims :: "string \<Rightarrow> bool" where
  "ends_in_array_dims s \<longleftrightarrow>
     s \<noteq> [] \<and> last s = CHR '']'' \<and> \<not> abi_tag_group s (rfind_char s (CHR ''[''))"

function untagged_from :: "string \<Rightarrow> nat \<Rightarrow> nat" where
  "untagged_from ident e =
     (if e \<noteq> 0 \<and> ident ! (e - 1) = CHR '']'' then
        (case rfind_char_upto ident (CHR ''['') (e - 1) of
           None \<Rightarrow> e
         | Some ob \<Rightarrow>
             (if abi_tag_group ident (Some ob)
              then untagged_from ident
                     (length (rev (dropWhile blank_tab (rev (take ob ident)))))
              else e))
      else e)"
  by pat_completeness auto
termination
proof (relation "measure snd", simp)
  fix ident :: string and e ob
  assume e: "e \<noteq> 0 \<and> ident ! (e - 1) = CHR '']''"
    and ob: "rfind_char_upto ident (CHR ''['') (e - 1) = Some ob"
  have "ob < length (take (Suc (e - 1)) ident)"
    using ob unfolding rfind_char_upto_def by (rule last_index_of_less)
  moreover have "length (dropWhile blank_tab (rev (take ob ident))) \<le> ob"
    by (metis length_dropWhile_le length_rev length_take min.cobounded2 le_trans)
  ultimately show "((ident, length (rev (dropWhile blank_tab (rev (take ob ident))))), ident, e)
      \<in> measure snd" using e by simp
qed

declare untagged_from.simps [simp del]

definition untagged_length :: "string \<Rightarrow> nat" where
  "untagged_length ident = untagged_from ident (length ident)"

text \<open>
  The tags from \<open>pos\<close> on, each \<open>B\<close> and a length-prefixed name.  The loop starts at
  \<open>untagged_length\<close>, after which every \<open>[\<close> opens a tag group.
\<close>

lemma find_char_bounds: "find_char s c pos = Some k \<Longrightarrow> pos \<le> k \<and> k < length s"
proof -
  assume a: "find_char s c pos = Some k"
  let ?d = "drop pos s"
  from a have ex: "\<exists>x \<in> set ?d. x = c" and k: "k = pos + length (takeWhile (\<lambda>x. x \<noteq> c) ?d)"
    by (auto simp: find_char_def char_find_at_eq split: if_splits)
  have "takeWhile (\<lambda>x. x \<noteq> c) ?d \<noteq> ?d" using ex by (auto simp: takeWhile_eq_all_conv)
  then have "length (takeWhile (\<lambda>x. x \<noteq> c) ?d) < length ?d"
    by (metis length_append length_greater_0_conv less_add_same_cancel1 takeWhile_dropWhile_id
        append_Nil2)
  then show ?thesis using k by simp
qed

function abi_tags_from :: "string \<Rightarrow> nat \<Rightarrow> string" where
  "abi_tags_from ident pos =
     (case find_char ident (CHR ''['') pos of
        None \<Rightarrow> []
      | Some ob \<Rightarrow>
          (let tag = (case find_char ident (CHR '']'') ob of
                        None \<Rightarrow> drop (ob + 5) ident
                      | Some cb \<Rightarrow> substr ident (ob + 5) (cb - ob - 5))
           in ''B'' @ to_string (length tag) @ tag @ abi_tags_from ident (ob + 1)))"
  by pat_completeness auto
termination
  by (relation "measure (\<lambda>(ident, pos). length ident - pos)")
    (auto dest!: find_char_bounds)

declare abi_tags_from.simps [simp del]

definition component_source_name :: "string \<Rightarrow> string" where
  "component_source_name ident =
     (if ident = [] \<or> last ident \<noteq> CHR '']'' then source_name ident
      else
        (let len = untagged_length ident
         in source_name (take len ident) @ abi_tags_from ident len))"

section \<open>The tree of a type\<close>

datatype type_node =
  TypeNode (tn_decos: "string list") (tn_is_builtin: bool) (tn_builtin: string) (tn_tparam: int)
    (tn_is_funcptr: bool) (tn_fp_ret: "type_node list") (tn_fp_params: "type_node list")
    (tn_name: "name_component list") (tn_invalid: bool)
and name_component =
  NameComponent (nc_ident: string) (nc_is_template: bool) (nc_targs: "type_node list")

text \<open>The nodes \<open>parse_type\<close> returns, each from the default-initialised \<open>TypeNode\<close>.\<close>

abbreviation tparam_node :: "string list \<Rightarrow> int \<Rightarrow> type_node" where
  "tparam_node ds n \<equiv> TypeNode ds False [] n False [] [] [] False"

abbreviation funcptr_node :: "string list \<Rightarrow> type_node \<Rightarrow> type_node list \<Rightarrow> type_node" where
  "funcptr_node ds r ps \<equiv> TypeNode ds False [] (- 1) True [r] ps [] False"

abbreviation builtin_node :: "string list \<Rightarrow> string \<Rightarrow> type_node" where
  "builtin_node ds code \<equiv> TypeNode ds True code (- 1) False [] [] [] False"

abbreviation named_node :: "string list \<Rightarrow> name_component list \<Rightarrow> bool \<Rightarrow> type_node" where
  "named_node ds ch bad \<equiv> TypeNode ds False [] (- 1) False [] [] ch bad"

definition with_outer_decos :: "string list \<Rightarrow> type_node \<Rightarrow> type_node" where
  "with_outer_decos ds t =
     TypeNode (ds @ tn_decos t) (tn_is_builtin t) (tn_builtin t) (tn_tparam t)
       (tn_is_funcptr t) (tn_fp_ret t) (tn_fp_params t) (tn_name t) (tn_invalid t)"

definition mstrip :: "string \<Rightarrow> string" where
  "mstrip s = trim_with blank_tab s"

definition split_targs :: "string \<Rightarrow> string list" where
  "split_targs s = split_template_args_spelling s"

definition split_scope :: "string \<Rightarrow> string list" where
  "split_scope s = split_scope_spelling s"

section \<open>Parsing a spelling\<close>

text \<open>
  The cv-qualifiers of one level: the two bits of \<open>level_cv\<close>, const and volatile, and the
  decoration \<open>flush_cv\<close> pushes for them.
\<close>

definition flush_cv :: "bool \<Rightarrow> bool \<Rightarrow> string list" where
  "flush_cv kc kv =
     (if \<not> kc \<and> \<not> kv then [] else [(if kv then ''V'' else []) @ (if kc then ''K'' else [])])"

text \<open>
  The loop that peels trailing decorations, outermost first: the remaining spelling, the
  pending cv bits and the decorations pushed.
\<close>

function peel_decos ::
    "string \<Rightarrow> bool \<Rightarrow> bool \<Rightarrow> string list \<Rightarrow> string \<times> bool \<times> bool \<times> string list" where
  "peel_decos s0 kc kv ds =
     (let s = mstrip s0 in
      if s \<noteq> [] \<and> last s = CHR ''*''
      then peel_decos (take (length s - 1) s) False False (ds @ flush_cv kc kv @ [''P''])
      else if has_suffix ''&&'' s
      then peel_decos (take (length s - 2) s) False False (ds @ flush_cv kc kv @ [''O''])
      else if s \<noteq> [] \<and> last s = CHR ''&''
      then peel_decos (take (length s - 1) s) False False (ds @ flush_cv kc kv @ [''R''])
      else if has_suffix '' const'' s then peel_decos (take (length s - 6) s) True kv ds
      else if has_suffix '' volatile'' s then peel_decos (take (length s - 9) s) kc True ds
      else (s, kc, kv, ds))"
  by pat_completeness auto

lemma length_mstrip [cxx_len]: "length (mstrip s) \<le> length s"
  by (simp add: mstrip_def trim_with_strip length_strip)

lemma peel_step_less: "mstrip s0 \<noteq> [] \<Longrightarrow> 0 < k \<Longrightarrow> length (mstrip s0) - k < length s0"
  using length_mstrip [of s0] by (cases "mstrip s0") auto

lemma suffix_nonempty: "has_suffix (x # xs) s \<Longrightarrow> s \<noteq> []"
  by auto

termination peel_decos
  by (relation "measure (\<lambda>(s, kc, kv, ds). length s)")
    (auto intro!: peel_step_less dest!: suffix_nonempty)

declare peel_decos.simps [simp del]

text \<open>The loop over the core's leading words.\<close>

function leading_words :: "string \<Rightarrow> bool \<Rightarrow> bool \<Rightarrow> string \<times> bool \<times> bool" where
  "leading_words s kc kv =
     (if has_prefix ''const '' s then leading_words (mstrip (drop 6 s)) True kv
      else if has_prefix ''volatile '' s then leading_words (mstrip (drop 9 s)) kc True
      else if has_prefix ''typename '' s then leading_words (mstrip (drop 9 s)) kc kv
      else (s, kc, kv))"
  by pat_completeness auto

lemma mstrip_drop_less: "0 < k \<Longrightarrow> s \<noteq> [] \<Longrightarrow> length (mstrip (drop k s)) < length s"
  using length_mstrip [of "drop k s"] by (cases s) auto

termination leading_words
  by (relation "measure (\<lambda>(s, kc, kv). length s)")
    (auto simp: has_prefix_def intro!: mstrip_drop_less)

declare leading_words.simps [simp del]

text \<open>The loop over trailing \<open>[N]\<close> groups: the dimensions and the text before them.\<close>

function array_dims :: "string list \<Rightarrow> string \<Rightarrow> string list \<times> string" where
  "array_dims dims rest =
     (if rest \<noteq> [] \<and> last rest = CHR '']'' then
        (case rfind_char rest (CHR ''['') of
           None \<Rightarrow> (dims, rest)
         | Some ob \<Rightarrow>
             (if \<not> abi_tag_group rest (Some ob)
              then array_dims (mstrip (substr rest (ob + 1) (length rest - ob - 2)) # dims)
                     (mstrip (take ob rest))
              else (dims, rest)))
      else (dims, rest))"
  by pat_completeness auto

lemma rfind_char_less: "rfind_char s c = Some k \<Longrightarrow> k < length s"
  by (simp add: rfind_char_def last_index_of_less)

lemma mstrip_take_less: "k < length s \<Longrightarrow> length (mstrip (take k s)) < length s"
  using length_mstrip [of "take k s"] by simp

termination array_dims
  by (relation "measure (\<lambda>(dims, rest). length rest)")
    (auto dest: rfind_char_less intro: mstrip_take_less)

declare array_dims.simps [simp del]

text \<open>\<open>parse_component\<close> and the whole of \<open>parse_type\<close>, over the recursive call \<open>rec\<close>.\<close>

definition parse_component_by ::
    "(string \<Rightarrow> type_node cxx) \<Rightarrow> string \<Rightarrow> name_component cxx" where
  "parse_component_by rec raw =
     (case split_template_id_parts (mstrip raw) Ignore of
        (False, head, args) \<Rightarrow> Inr (NameComponent head False [])
      | (True, head, args) \<Rightarrow>
          ebind (traverse rec args) (\<lambda>ts. Inr (NameComponent head True ts)))"

definition is_source_identifier :: "string \<Rightarrow> bool" where
  "is_source_identifier s \<longleftrightarrow>
     (let len = untagged_length s
      in len \<noteq> 0 \<and> (\<forall>c \<in> set (take len s). isalnum c \<or> c = CHR ''_''))"

definition parse_core ::
    "data_model \<Rightarrow> (string \<Rightarrow> type_node cxx) \<Rightarrow> string list \<Rightarrow> string \<Rightarrow> type_node cxx" where
  "parse_core m rec ds s =
     (if 3 \<le> length s \<and> s ! 0 = CHR ''$'' \<and> s ! 1 = CHR ''T'' then
        ebind (stoi (drop 2 s)) (\<lambda>n. Inr (tparam_node ds n))
      else
        (let fp_star = str_find s ''(*)('' 0;
             (fp, fn_deco) = (if fp_star = None then (str_find s ''(&)('' 0, ''R'')
                              else (fp_star, ''P''))
         in case fp of
              Some k \<Rightarrow>
                ebind (rec (mstrip (take k s))) (\<lambda>r.
                  let pend = the (rfind_char s (CHR '')''));
                      ps = (if pend < k + 4 then drop (k + 4) s
                            else substr s (k + 4) (pend - (k + 4)))
                  in ebind (traverse rec (filter (\<lambda>a. a \<noteq> [] \<and> a \<noteq> ''void'') (split_targs ps)))
                       (\<lambda>params. Inr (funcptr_node (ds @ [fn_deco]) r params)))
            | None \<Rightarrow>
                (if ends_in_array_dims s then
                   (let (dims, rest) = array_dims [] s;
                        star = has_suffix ''(*)'' rest;
                        rest1 = (if star then mstrip (take (length rest - 3) rest) else rest);
                        ds1 = ds @ (if star then [''P''] else [])
                              @ map (\<lambda>d. ''A'' @ d @ ''_'') dims
                    in ebind (rec rest1) (\<lambda>inner. Inr (with_outer_decos ds1 inner)))
                 else if nontype_literal_code s \<noteq> []
                 then Inr (builtin_node ds (nontype_literal_code s))
                 else if builtin_code m s \<noteq> [] then Inr (builtin_node ds (builtin_code m s))
                 else
                   ebind (traverse (parse_component_by rec) (split_scope s)) (\<lambda>chain.
                     Inr (named_node ds chain
                            (\<exists>nc \<in> set chain. \<not> is_source_identifier (nc_ident nc)))))))"

definition parse_type_body ::
    "data_model \<Rightarrow> (string \<Rightarrow> type_node cxx) \<Rightarrow> string \<Rightarrow> type_node cxx" where
  "parse_type_body m rec raw =
     (case peel_decos (mstrip raw) False False [] of
        (s, kc, kv, ds) \<Rightarrow>
          (let composite = (str_find s ''(*)'' 0 \<noteq> None \<or> str_find s ''(&)'' 0 \<noteq> None
                            \<or> ends_in_array_dims s)
           in case (if composite then (s, kc, kv) else leading_words s kc kv) of
                (s1, kc1, kv1) \<Rightarrow> parse_core m rec (ds @ flush_cv kc1 kv1) s1))"

primrec parse_type_fuel :: "nat \<Rightarrow> data_model \<Rightarrow> string \<Rightarrow> type_node cxx" where
  "parse_type_fuel 0 m raw = Inl NoReturn"
| "parse_type_fuel (Suc n) m raw = parse_type_body m (parse_type_fuel n m) raw"

definition parse_type :: "data_model \<Rightarrow> string \<Rightarrow> type_node cxx" where
  "parse_type m raw = parse_type_fuel (Suc (length raw)) m raw"

definition parse_component :: "data_model \<Rightarrow> string \<Rightarrow> name_component cxx" where
  "parse_component m raw = parse_component_by (parse_type m) raw"

definition drop_top_cv :: "type_node \<Rightarrow> type_node" where
  "drop_top_cv t =
     (case tn_decos t of
        [] \<Rightarrow> t
      | d # ds \<Rightarrow>
          (if \<forall>c \<in> set d. c = CHR ''V'' \<or> c = CHR ''K''
           then TypeNode ds (tn_is_builtin t) (tn_builtin t) (tn_tparam t) (tn_is_funcptr t)
                  (tn_fp_ret t) (tn_fp_params t) (tn_name t) (tn_invalid t)
           else t))"

definition parse_param_type :: "data_model \<Rightarrow> string \<Rightarrow> type_node cxx" where
  "parse_param_type m raw = ebind (parse_type m raw) (\<lambda>t. Inr (drop_top_cv t))"

end
