(* ===== verification/MangleParseProps.thy ===== *)
theory MangleParseProps
  imports MangleParse
begin

text \<open>
  Properties of the type parser: how much fuel its recursion needs and on which spellings
  it never returns, and that the cv-qualifiers of a parameter's own level never reach the
  parsed parameter type.
\<close>

section \<open>Shape of the peeled spelling\<close>

lemma mstrip_strip: "mstrip s = strip blank_tab s"
  by (simp add: mstrip_def trim_with_strip)

lemma mstrip_mstrip [simp]: "mstrip (mstrip s) = mstrip s"
  by (simp add: mstrip_strip)

lemma mstrip_Nil [simp]: "mstrip [] = []"
  using length_mstrip [of "[]"] by simp

lemma peel_decos_mstrip: "peel_decos (mstrip s) kc kv ds = peel_decos s kc kv ds"
  by (subst (1 2) peel_decos.simps) (simp add: Let_def)

lemma peel_decos_result:
  "peel_decos s kc kv ds = (s', kc', kv', ds') \<Longrightarrow> mstrip s' = s' \<and> length s' \<le> length s"
proof (induction s kc kv ds rule: peel_decos.induct)
  case (1 s0 kc kv ds)
  have len: "length (mstrip s0) \<le> length s0" by (rule length_mstrip)
  have tk: "length (take (length (mstrip s0) - k) (mstrip s0)) \<le> length s0" for k
    using len by simp
  from "1.prems" show ?case
    by (subst (asm) peel_decos.simps)
      (use len tk "1.IH" in \<open>auto simp: Let_def split: if_splits intro: order_trans\<close>)
qed

lemma leading_words_len: "leading_words s kc kv = (s', kc', kv') \<Longrightarrow> length s' \<le> length s"
proof (induction s kc kv rule: leading_words.induct)
  case (1 s kc kv)
  have d: "length (mstrip (drop k s)) \<le> length s" for k
    using length_mstrip [of "drop k s"] by simp
  from "1.prems" show ?case
    by (subst (asm) leading_words.simps)
      (use d "1.IH" in \<open>auto split: if_splits intro: order_trans\<close>)
qed

lemma leading_words_mstrip:
  "leading_words s kc kv = (s', kc', kv') \<Longrightarrow> mstrip s = s \<Longrightarrow> mstrip s' = s'"
proof (induction s kc kv rule: leading_words.induct)
  case (1 s kc kv)
  from "1.prems"(1) show ?case
    by (subst (asm) leading_words.simps) (use "1.prems"(2) "1.IH" in \<open>auto split: if_splits\<close>)
qed

lemma array_dims_rest:
  "array_dims dims s = (dims', rest) \<Longrightarrow>
     length rest < length s \<or> rest = s \<and> dims' = dims \<and>
       (s = [] \<or> last s \<noteq> CHR '']'' \<or> rfind_char s (CHR ''['') = None
        \<or> abi_tag_group s (rfind_char s (CHR ''['')))"
proof (induction dims s rule: array_dims.induct)
  case (1 dims s)
  show ?case
  proof (cases "s \<noteq> [] \<and> last s = CHR '']''")
    case False
    with "1.prems" show ?thesis by (subst (asm) array_dims.simps) auto
  next
    case True
    show ?thesis
    proof (cases "rfind_char s (CHR ''['')")
      case None
      with "1.prems" True show ?thesis by (subst (asm) array_dims.simps) auto
    next
      case (Some ob)
      show ?thesis
      proof (cases "abi_tag_group s (Some ob)")
        case True
        with "1.prems" Some show ?thesis by (subst (asm) array_dims.simps) (auto split: if_splits)
      next
        case False
        have "length (mstrip (take ob s)) < length s"
          using rfind_char_less [OF Some] by (rule mstrip_take_less)
        moreover have "array_dims (mstrip (substr s (ob + 1) (length s - ob - 2)) # dims)
            (mstrip (take ob s)) = (dims', rest)"
          using "1.prems" True Some False \<open>s \<noteq> [] \<and> last s = CHR '']''\<close>
          by (subst (asm) array_dims.simps) simp
        ultimately show ?thesis
          using "1.IH" [OF \<open>s \<noteq> [] \<and> last s = CHR '']''\<close> Some False] by fastforce
      qed
    qed
  qed
qed

lemma str_find_le:
  assumes "str_find s p 0 = Some k"
  shows "k + length p \<le> length s"
proof -
  have "k \<le> length s" and "has_prefix p (drop k s)"
    using find_at_Some [of p s 0 k] assms by (auto simp: str_find_def)
  then have "length (take (length p) (drop k s)) = length p" by (simp add: has_prefix_def)
  then show ?thesis using \<open>k \<le> length s\<close> by auto
qed

section \<open>Fuel\<close>

text \<open>
  A spelling on which the array branch calls \<open>parse_type\<close> on the same spelling: it ends in
  a bracket that nothing opens, and is no function pointer, template parameter or tag.
\<close>

definition stray_bracket :: "string \<Rightarrow> bool" where
  "stray_bracket s \<longleftrightarrow>
     mstrip s = s \<and> s \<noteq> [] \<and> last s = CHR '']'' \<and> CHR ''['' \<notin> set s
     \<and> \<not> abi_tag_group s None
     \<and> str_find s ''(*)('' 0 = None \<and> str_find s ''(&)('' 0 = None
     \<and> \<not> (3 \<le> length s \<and> s ! 0 = CHR ''$'' \<and> s ! 1 = CHR ''T'')"

lemma rfind_char_None: "rfind_char s c = None \<longleftrightarrow> c \<notin> set s"
  by (auto simp: rfind_char_def last_index_of_None)

lemma stray_bracket_dims:
  assumes "stray_bracket s"
  shows "ends_in_array_dims s" and "array_dims [] s = ([], s)" and "\<not> has_suffix ''(*)'' s"
proof -
  have n: "rfind_char s (CHR ''['') = None"
    using assms by (simp add: stray_bracket_def rfind_char_None)
  then show "ends_in_array_dims s" using assms by (simp add: stray_bracket_def ends_in_array_dims_def)
  show "array_dims [] s = ([], s)" by (subst array_dims.simps) (simp add: n)
  show "\<not> has_suffix ''(*)'' s"
    using assms has_suffix_last [of "''(*)''" s] by (auto simp: stray_bracket_def)
qed

lemma stray_bracket_peel:
  assumes "stray_bracket s"
  shows "peel_decos s kc kv ds = (s, kc, kv, ds)"
proof -
  have l: "mstrip s = s" "last s = CHR '']''" using assms by (simp_all add: stray_bracket_def)
  have "\<not> has_suffix p s" if "p \<in> {''&&'', '' const'', '' volatile''}" for p
    using that has_suffix_last [of p s] l(2) by auto
  then show ?thesis using l by (subst peel_decos.simps) simp
qed

lemma stray_bracket_body:
  assumes "stray_bracket s"
  shows "parse_type_body m rec s = ebind (rec s) (\<lambda>t. Inr (with_outer_decos [] t))"
proof -
  have ms: "mstrip s = s" using assms by (simp add: stray_bracket_def)
  show ?thesis
    using assms stray_bracket_dims [OF assms] stray_bracket_peel [OF assms, of False False "[]"]
    by (auto simp: parse_type_body_def ms parse_core_def flush_cv_def stray_bracket_def Let_def)
qed

lemma stray_bracket_never_returns: "stray_bracket s \<Longrightarrow> parse_type_fuel n m s = Inl NoReturn"
  by (induction n) (simp_all add: stray_bracket_body)

lemma traverse_eq: "(\<And>x. x \<in> set xs \<Longrightarrow> f x = g x) \<Longrightarrow> traverse f xs = traverse g xs"
  by (rule traverse_cong) auto

lemma parse_component_by_cong:
  assumes "\<And>a. length a < length raw \<Longrightarrow> r1 a = r2 a"
  shows "parse_component_by r1 raw = parse_component_by r2 raw"
proof -
  obtain b head args where p: "split_template_id_parts (mstrip raw) Ignore = (b, head, args)"
    by (cases "split_template_id_parts (mstrip raw) Ignore")
  have "length a < length raw" if "a \<in> set args" for a
    using split_template_id_len [OF p that] length_mstrip [of raw] by simp
  then have "traverse r1 args = traverse r2 args" using assms by (intro traverse_eq) blast
  then show ?thesis by (simp add: parse_component_by_def p split: bool.split)
qed

lemma parse_core_cong:
  assumes short: "\<And>a. length a < length s \<Longrightarrow> r1 a = r2 a"
    and stray: "stray_bracket s \<Longrightarrow> r1 s = r2 s" and ms: "mstrip s = s"
  shows "parse_core m r1 ds s = parse_core m r2 ds s"
proof -
  have comp: "traverse (parse_component_by r1) (split_scope s)
      = traverse (parse_component_by r2) (split_scope s)"
  proof (rule traverse_eq)
    fix c assume "c \<in> set (split_scope s)"
    then have "length c \<le> length s" by (simp add: split_scope_def split_scope_len)
    then show "parse_component_by r1 c = parse_component_by r2 c"
      by (intro parse_component_by_cong short) simp
  qed
  have fn: "r1 (mstrip (take k s)) = r2 (mstrip (take k s))
     \<and> traverse r1 (filter P (split_targs (drop (k + 4) s)))
       = traverse r2 (filter P (split_targs (drop (k + 4) s)))
     \<and> traverse r1 (filter P (split_targs (substr s (k + 4) j)))
       = traverse r2 (filter P (split_targs (substr s (k + 4) j)))"
    if "str_find s p 0 = Some k" "length p = 4" for k p P j
  proof -
    have k: "k + 4 \<le> length s" using str_find_le [OF that(1)] that(2) by simp
    have "length x < length s" if "x \<in> set (split_targs u)" "length u \<le> length s - (k + 4)" for x u
      using that k split_args_len [of x u] by (auto simp: split_targs_def)
    then show ?thesis
      using k by (auto intro!: short traverse_eq mstrip_take_less simp: substr_def)
  qed
  have arr: "r1 rest1 = r2 rest1"
    if "ends_in_array_dims s" "array_dims [] s = (dims, rest)"
      "\<not> (3 \<le> length s \<and> s ! 0 = CHR ''$'' \<and> s ! 1 = CHR ''T'')"
      "str_find s ''(*)('' 0 = None" "str_find s ''(&)('' 0 = None"
      "rest1 = (if has_suffix ''(*)'' rest then mstrip (take (length rest - 3) rest) else rest)"
    for dims rest rest1
  proof (cases "length rest < length s")
    case True
    then show ?thesis
      using that(6) length_mstrip [of "take (length rest - 3) rest"] by (intro short) auto
  next
    case False
    with array_dims_rest [OF that(2)] that(1)
    have "rest = s" and n: "rfind_char s (CHR ''['') = None"
      by (auto simp: ends_in_array_dims_def)
    have "s \<noteq> []" "last s = CHR '']''" "\<not> abi_tag_group s None"
      using that(1) by (simp_all add: ends_in_array_dims_def n)
    then have "stray_bracket s"
      using that(3-5) ms n unfolding stray_bracket_def rfind_char_None by blast
    then show ?thesis
      using stray that(6) stray_bracket_dims(3) \<open>rest = s\<close> by auto
  qed
  show ?thesis
  proof (cases "3 \<le> length s \<and> s ! 0 = CHR ''$'' \<and> s ! 1 = CHR ''T''")
    case True
    then show ?thesis by (simp add: parse_core_def)
  next
    case F: False
    show ?thesis
    proof (cases "str_find s ''(*)('' 0")
      case (Some k)
      with F fn [OF Some] show ?thesis
        by (auto simp: parse_core_def Let_def intro!: ebind_cong)
    next
      case N1: None
      show ?thesis
      proof (cases "str_find s ''(&)('' 0")
        case (Some k)
        with F N1 fn [OF Some] show ?thesis
          by (auto simp: parse_core_def Let_def intro!: ebind_cong)
      next
        case None
        with F N1 arr comp show ?thesis
          by (auto simp: parse_core_def Let_def split: prod.splits)
      qed
    qed
  qed
qed


lemma parse_type_body_cong:
  assumes short: "\<And>a. length a < length raw \<Longrightarrow> r1 a = r2 a"
    and stray: "\<And>a. length a \<le> length raw \<Longrightarrow> stray_bracket a \<Longrightarrow> r1 a = r2 a"
  shows "parse_type_body m r1 raw = parse_type_body m r2 raw"
proof -
  obtain s kc kv ds where p: "peel_decos (mstrip raw) False False [] = (s, kc, kv, ds)"
    by (cases "peel_decos (mstrip raw) False False []")
  note ps = peel_decos_result [OF p]
  obtain s1 kc1 kv1 where l: "leading_words s kc kv = (s1, kc1, kv1)"
    by (cases "leading_words s kc kv")
  have core: "parse_core m r1 d u = parse_core m r2 d u"
    if "length u \<le> length raw" "mstrip u = u" for d u
    using that by (intro parse_core_cong) (auto intro: short stray)
  have "length s \<le> length raw" "length s1 \<le> length raw" "mstrip s1 = s1"
    using ps length_mstrip [of raw] leading_words_len [OF l] leading_words_mstrip [OF l] by auto
  then show ?thesis
    using ps by (auto simp: parse_type_body_def p l Let_def intro!: core)
qed

lemma parse_type_fuel_mono:
  "length raw < n \<Longrightarrow> length raw < n' \<Longrightarrow> parse_type_fuel n m raw = parse_type_fuel n' m raw"
proof (induction n arbitrary: n' raw)
  case (Suc k)
  then obtain k' where k': "n' = Suc k'" by (cases n') auto
  have "parse_type_body m (parse_type_fuel k m) raw = parse_type_body m (parse_type_fuel k' m) raw"
  proof (rule parse_type_body_cong)
    fix a :: string assume "length a < length raw"
    then show "parse_type_fuel k m a = parse_type_fuel k' m a"
      using Suc.prems k' by (intro Suc.IH) auto
  qed (simp add: stray_bracket_never_returns)
  then show ?case by (simp add: k')
qed simp

lemma parse_type_fuel_enough: "length raw < n \<Longrightarrow> parse_type_fuel n m raw = parse_type m raw"
  unfolding parse_type_def by (rule parse_type_fuel_mono) simp_all

lemma parse_type_unfold: "parse_type m raw = parse_type_body m (parse_type m) raw"
proof -
  have "parse_type m raw = parse_type_body m (parse_type_fuel (length raw) m) raw"
    by (simp add: parse_type_def)
  also have "\<dots> = parse_type_body m (parse_type m) raw"
  proof (rule parse_type_body_cong)
    fix a :: string assume "stray_bracket a"
    then show "parse_type_fuel (length raw) m a = parse_type m a"
      unfolding parse_type_def by (simp only: stray_bracket_never_returns)
  qed (rule parse_type_fuel_enough)
  finally show ?thesis .
qed


section \<open>The parser returns\<close>

text \<open>Without a closing bracket no spelling reaches the array branch, and the parser returns.\<close>

lemma set_mstrip: "set (mstrip s) \<subseteq> set s"
  by (simp add: mstrip_strip set_strip)

lemma stoi_returns: "stoi s \<noteq> Inl NoReturn"
  by (auto simp: stoi_def Let_def)

lemma ebind_eq_Inl: "ebind m f = Inl e \<longleftrightarrow> m = Inl e \<or> (\<exists>x. m = Inr x \<and> f x = Inl e)"
  by (cases m) auto

lemma traverse_returns:
  "(\<And>x. x \<in> set xs \<Longrightarrow> f x \<noteq> Inl NoReturn) \<Longrightarrow> traverse f xs \<noteq> Inl NoReturn"
  by (induction xs) (auto simp: ebind_eq_Inl)

lemma parse_component_by_returns:
  assumes "\<And>a. set a \<subseteq> set raw \<Longrightarrow> length a < length raw \<Longrightarrow> rec a \<noteq> Inl NoReturn"
  shows "parse_component_by rec raw \<noteq> Inl NoReturn"
proof -
  obtain b head args where p: "split_template_id_parts (mstrip raw) Ignore = (b, head, args)"
    by (cases "split_template_id_parts (mstrip raw) Ignore")
  have "set a \<subseteq> set raw \<and> length a < length raw" if "a \<in> set args" for a
    using split_template_id_len [OF p that] split_template_id_set [OF p that]
      length_mstrip [of raw] set_mstrip [of raw] by auto
  then have "traverse rec args \<noteq> Inl NoReturn" by (intro traverse_returns assms) auto
  then show ?thesis by (simp add: parse_component_by_def p ebind_eq_Inl split: bool.split)
qed

lemma parse_core_returns:
  assumes nb: "CHR '']'' \<notin> set s"
    and rec: "\<And>a. set a \<subseteq> set s \<Longrightarrow> length a < length s \<Longrightarrow> rec a \<noteq> Inl NoReturn"
  shows "parse_core m rec ds s \<noteq> Inl NoReturn"
proof -
  have noarr: "\<not> ends_in_array_dims s"
  proof
    assume "ends_in_array_dims s"
    then have "s \<noteq> []" "last s = CHR '']''" by (auto simp: ends_in_array_dims_def)
    then show False using nb last_in_set [of s] by simp
  qed
  have comp: "traverse (parse_component_by rec) (split_scope s) \<noteq> Inl NoReturn"
  proof (intro traverse_returns parse_component_by_returns rec)
    fix c a assume c: "c \<in> set (split_scope s)" and a: "set a \<subseteq> set c" "length a < length c"
    show "set a \<subseteq> set s" using split_scope_set [of c s] c a by (auto simp: split_scope_def)
    show "length a < length s" using split_scope_len [of c s] c a by (simp add: split_scope_def)
  qed
  have sub: "set (drop i s) \<subseteq> set s" "set (substr s i j) \<subseteq> set s" for i j
    using set_drop_subset [of i s] set_take_subset [of j "drop i s"] by (auto simp: substr_def)
  have args: "traverse rec (filter P (split_targs u)) \<noteq> Inl NoReturn"
    if "set u \<subseteq> set s" "length u < length s" for P u
    using that split_args_len [of _ u] split_args_set [of _ u]
    by (intro traverse_returns rec) (fastforce simp: split_targs_def)+
  have fn: "rec (mstrip (take k s)) \<noteq> Inl NoReturn
      \<and> traverse rec (filter P (split_targs (drop (k + 4) s))) \<noteq> Inl NoReturn
      \<and> traverse rec (filter P (split_targs (substr s (k + 4) j))) \<noteq> Inl NoReturn"
    if f: "str_find s p 0 = Some k" "length p = 4" for k p P j
  proof -
    have k: "k + 4 \<le> length s" using str_find_le [OF f(1)] f(2) by simp
    have "set (mstrip (take k s)) \<subseteq> set s"
      using set_mstrip [of "take k s"] set_take_subset [of k s] by blast
    moreover have "length (substr s (k + 4) j) < length s"
      using length_substr [of s "k + 4" j] k by linarith
    ultimately show ?thesis
      using k sub by (intro conjI args rec mstrip_take_less) simp_all
  qed
  note fns = fn [of "''(*)(''"] fn [of "''(&)(''"]
  show ?thesis
    unfolding parse_core_def Let_def
    using comp fns noarr by (auto split: option.split simp: ebind_eq_Inl stoi_returns)
qed

lemma peel_decos_set: "peel_decos s kc kv ds = (s', kc', kv', ds') \<Longrightarrow> set s' \<subseteq> set s"
proof (induction s kc kv ds rule: peel_decos.induct)
  case (1 s0 kc kv ds)
  have tk: "set (take k (mstrip s0)) \<subseteq> set s0" for k
    using set_take_subset [of k "mstrip s0"] set_mstrip [of s0] by blast
  from "1.prems" show ?case
    by (subst (asm) peel_decos.simps)
      (use set_mstrip [of s0] tk "1.IH" in \<open>auto simp: Let_def split: if_splits intro: subset_trans\<close>)
qed

lemma leading_words_set: "leading_words s kc kv = (s', kc', kv') \<Longrightarrow> set s' \<subseteq> set s"
proof (induction s kc kv rule: leading_words.induct)
  case (1 s kc kv)
  have d: "set (mstrip (drop k s)) \<subseteq> set s" for k
    using set_mstrip [of "drop k s"] set_drop_subset [of k s] by blast
  from "1.prems" show ?case
    by (subst (asm) leading_words.simps)
      (use d "1.IH" in \<open>auto split: if_splits intro: subset_trans\<close>)
qed

lemma parse_type_returns: "CHR '']'' \<notin> set raw \<Longrightarrow> parse_type m raw \<noteq> Inl NoReturn"
proof (induction "length raw" arbitrary: raw rule: less_induct)
  case less
  obtain s kc kv ds where p: "peel_decos (mstrip raw) False False [] = (s, kc, kv, ds)"
    by (cases "peel_decos (mstrip raw) False False []")
  obtain s1 kc1 kv1 where l: "leading_words s kc kv = (s1, kc1, kv1)"
    by (cases "leading_words s kc kv")
  have core: "parse_core m (parse_type m) d u \<noteq> Inl NoReturn"
    if "length u \<le> length raw" "set u \<subseteq> set raw" for d u
    using that less.prems by (intro parse_core_returns less.hyps) auto
  have "length s \<le> length raw" "length s1 \<le> length raw"
    using peel_decos_result [OF p] length_mstrip [of raw] leading_words_len [OF l] by auto
  moreover have "set s \<subseteq> set raw" "set s1 \<subseteq> set raw"
    using peel_decos_set [OF p] set_mstrip [of raw] leading_words_set [OF l] by auto
  ultimately show ?case
    by (subst parse_type_unfold) (auto simp: parse_type_body_def p l Let_def core)
qed

section \<open>The cv-qualifiers of a parameter's own level\<close>

text \<open>
  The cv bits the peeling loop starts with either survive to its end (\<open>cv_survives\<close>), or
  become one decoration in front of the first pointer or reference (\<open>cv_flushed\<close>).
\<close>

definition cv_survives :: "string \<Rightarrow> bool" where
  "cv_survives s \<longleftrightarrow> (\<exists>s' a b. \<forall>kc kv ds. peel_decos s kc kv ds = (s', kc \<or> a, kv \<or> b, ds))"

definition cv_flushed :: "string \<Rightarrow> bool" where
  "cv_flushed s \<longleftrightarrow>
     (\<exists>s' kc' kv' a b x ds'. x \<in> {''P'', ''O'', ''R''} \<and>
        (\<forall>kc kv ds. peel_decos s kc kv ds
           = (s', kc', kv', ds @ flush_cv (kc \<or> a) (kv \<or> b) @ x # ds')))"

lemma cv_flushed_push:
  assumes "cv_survives u \<or> cv_flushed u" and x: "x \<in> {''P'', ''O'', ''R''}"
    and eq: "\<And>kc kv ds. peel_decos s kc kv ds
                = peel_decos u False False (ds @ flush_cv kc kv @ [x])"
  shows "cv_flushed s"
  using assms(1)
proof
  assume "cv_survives u"
  then obtain s' a b where "\<And>kc kv ds. peel_decos u kc kv ds = (s', kc \<or> a, kv \<or> b, ds)"
    unfolding cv_survives_def by blast
  then have "peel_decos s kc kv ds = (s', a, b, ds @ flush_cv (kc \<or> False) (kv \<or> False) @ x # [])"
    for kc kv ds by (simp add: eq)
  with x show ?thesis unfolding cv_flushed_def by blast
next
  assume "cv_flushed u"
  then obtain s' kc' kv' a b y ds' where
    "\<And>kc kv ds. peel_decos u kc kv ds = (s', kc', kv', ds @ flush_cv (kc \<or> a) (kv \<or> b) @ y # ds')"
    unfolding cv_flushed_def by blast
  then have "peel_decos s kc kv ds
      = (s', kc', kv', ds @ flush_cv (kc \<or> False) (kv \<or> False) @ x # (flush_cv a b @ y # ds'))"
    for kc kv ds by (simp add: eq)
  with x show ?thesis unfolding cv_flushed_def by blast
qed

lemma cv_word:
  assumes "cv_survives u \<or> cv_flushed u"
    and eq: "\<And>kc kv ds. peel_decos s kc kv ds = peel_decos u (kc \<or> c) (kv \<or> v) ds"
  shows "cv_survives s \<or> cv_flushed s"
  using assms(1)
proof
  assume "cv_survives u"
  then obtain s' a b where "\<And>kc kv ds. peel_decos u kc kv ds = (s', kc \<or> a, kv \<or> b, ds)"
    unfolding cv_survives_def by blast
  then have "peel_decos s kc kv ds = (s', kc \<or> (c \<or> a), kv \<or> (v \<or> b), ds)" for kc kv ds
    by (simp add: eq disj_assoc)
  then show ?thesis unfolding cv_survives_def by blast
next
  assume "cv_flushed u"
  then obtain s' kc' kv' a b y ds' where y: "y \<in> {''P'', ''O'', ''R''}" and
    "\<And>kc kv ds. peel_decos u kc kv ds = (s', kc', kv', ds @ flush_cv (kc \<or> a) (kv \<or> b) @ y # ds')"
    unfolding cv_flushed_def by blast
  then have "peel_decos s kc kv ds
      = (s', kc', kv', ds @ flush_cv (kc \<or> (c \<or> a)) (kv \<or> (v \<or> b)) @ y # ds')" for kc kv ds
    by (simp add: eq disj_assoc)
  with y show ?thesis unfolding cv_flushed_def by blast
qed

lemma peel_decos_flags: "cv_survives s \<or> cv_flushed s"
proof (induction "length s" arbitrary: s rule: less_induct)
  case less
  let ?m = "mstrip s"
  have u: "cv_survives (take (length ?m - k) ?m) \<or> cv_flushed (take (length ?m - k) ?m)"
    if "?m \<noteq> []" "0 < k" for k
    using less peel_step_less [OF that] length_mstrip [of s] that by (simp add: min_def)
  note eq = peel_decos.simps [of s, unfolded Let_def]
  consider (star) "?m \<noteq> []" "last ?m = CHR ''*''"
    | (rref) "has_suffix ''&&'' ?m"
    | (lref) "?m \<noteq> []" "last ?m = CHR ''&''" "\<not> has_suffix ''&&'' ?m"
    | (k) "has_suffix '' const'' ?m"
    | (v) "has_suffix '' volatile'' ?m"
    | (none) "\<not> has_suffix '' volatile'' ?m" "\<not> has_suffix '' const'' ?m" "\<not> has_suffix ''&&'' ?m"
        "\<not> (?m \<noteq> [] \<and> (last ?m = CHR ''*'' \<or> last ?m = CHR ''&''))"
    by blast
  then show ?case
  proof cases
    case star
    then show ?thesis by (intro disjI2 cv_flushed_push [OF u [of 1]]) (simp_all add: eq)
  next
    case rref
    then have "?m \<noteq> []" "last ?m = CHR ''&''"
      using has_suffix_last [of "''&&''" ?m] by auto
    with rref show ?thesis by (intro disjI2 cv_flushed_push [OF u [of 2], of "''O''"]) (auto simp: eq)
  next
    case lref
    then show ?thesis by (intro disjI2 cv_flushed_push [OF u [of 1], of "''R''"]) (simp_all add: eq)
  next
    case k
    then have "?m \<noteq> []" "last ?m = CHR ''t''" "\<not> has_suffix ''&&'' ?m"
      using has_suffix_last [of "'' const''" ?m] has_suffix_last [of "''&&''" ?m] by auto
    with k show ?thesis by (intro cv_word [OF u [of 6], of s True False]) (auto simp: eq)
  next
    case v
    then have "?m \<noteq> []" "last ?m = CHR ''e''" "\<not> has_suffix ''&&'' ?m" "\<not> has_suffix '' const'' ?m"
      using has_suffix_last [of "'' volatile''" ?m] has_suffix_last [of "''&&''" ?m]
        has_suffix_last [of "'' const''" ?m] by auto
    with v show ?thesis by (intro cv_word [OF u [of 9], of s False True]) (auto simp: eq)
  next
    case none
    then have "peel_decos s kc kv ds = (?m, kc \<or> False, kv \<or> False, ds)" for kc kv ds
      by (auto simp: eq)
    then show ?thesis unfolding cv_survives_def by blast
  qed
qed

lemma leading_words_flags:
  "\<exists>s' a b. \<forall>kc kv. leading_words s kc kv = (s', kc \<or> a, kv \<or> b)"
proof (induction "length s" arbitrary: s rule: less_induct)
  case less
  have step: ?case
    if "has_prefix p s" "0 < k" "p \<noteq> []"
      and eq: "\<And>kc kv. leading_words s kc kv = leading_words (mstrip (drop k s)) (kc \<or> c) (kv \<or> v)"
    for p k c v
  proof -
    have "length (mstrip (drop k s)) < length s"
      using that by (intro mstrip_drop_less) (auto simp: has_prefix_def)
    then obtain s' a b where "\<forall>kc kv. leading_words (mstrip (drop k s)) kc kv = (s', kc \<or> a, kv \<or> b)"
      using less by blast
    then have "\<forall>kc kv. leading_words s kc kv = (s', kc \<or> (c \<or> a), kv \<or> (v \<or> b))"
      by (simp add: eq disj_assoc)
    then show ?thesis by blast
  qed
  note eq = leading_words.simps [of s]
  have ex: "\<not> (has_prefix p s \<and> has_prefix q s)" if "hd p \<noteq> hd q" "p \<noteq> []" "q \<noteq> []" for p q
    using that by (auto simp: has_prefix_iff append_eq_append_conv2 neq_Nil_conv)
  consider "has_prefix ''const '' s" | "has_prefix ''volatile '' s" | "has_prefix ''typename '' s"
    | "\<not> has_prefix ''const '' s" "\<not> has_prefix ''volatile '' s" "\<not> has_prefix ''typename '' s"
    by blast
  then show ?case
  proof cases
    case 1 then show ?thesis by (intro step [of "''const ''" 6 True False]) (simp_all add: eq)
  next
    case 2
    then show ?thesis
      using ex [of "''const ''" "''volatile ''"]
      by (intro step [of "''volatile ''" 9 False True]) (simp_all add: eq)
  next
    case 3
    then show ?thesis
      using ex [of "''const ''" "''typename ''"] ex [of "''volatile ''" "''typename ''"]
      by (intro step [of "''typename ''" 9 False False]) (simp_all add: eq)
  next
    case 4
    then have "\<forall>kc kv. leading_words s kc kv = (s, kc \<or> False, kv \<or> False)" by (simp add: eq)
    then show ?thesis by blast
  qed
qed

text \<open>The core carries the decorations in front of its own, and its own do not start with cv.\<close>

lemma with_outer_decos_append:
  "with_outer_decos (ds @ es) t = with_outer_decos ds (with_outer_decos es t)"
  by (simp add: with_outer_decos_def)

lemma parse_core_decos:
  "parse_core m rec ds s = ebind (parse_core m rec [] s) (\<lambda>t. Inr (with_outer_decos ds t))"
proof -
  have assoc: "ebind (ebind x f) g = ebind x (\<lambda>y. ebind (f y) g)" for x f g
    by (cases x) auto
  show ?thesis
    by (simp add: parse_core_def assoc Let_def with_outer_decos_append split: option.split prod.split)
      (simp add: with_outer_decos_def)
qed

definition cv_deco :: "string \<Rightarrow> bool" where
  "cv_deco d \<longleftrightarrow> (\<forall>c \<in> set d. c = CHR ''V'' \<or> c = CHR ''K'')"

lemma pointer_not_cv [simp]: "\<not> cv_deco ''P''" "\<not> cv_deco ''O''" "\<not> cv_deco ''R''"
  by (simp_all add: cv_deco_def)

lemma drop_top_cv_flush:
  assumes "tn_decos t = [] \<or> \<not> cv_deco (hd (tn_decos t))"
  shows "drop_top_cv (with_outer_decos (flush_cv kc kv) t) = t"
  using assms by (cases t; cases "tn_decos t")
    (auto simp: drop_top_cv_def with_outer_decos_def flush_cv_def cv_deco_def)

lemma array_dims_some: "array_dims dims s = (dims', rest) \<Longrightarrow> rest = s \<or> dims' \<noteq> []"
proof (induction dims s rule: array_dims.induct)
  case (1 dims s)
  have keep: "array_dims ds u = (ds', u') \<Longrightarrow> ds \<noteq> [] \<Longrightarrow> ds' \<noteq> []" for ds u ds' u'
  proof (induction ds u rule: array_dims.induct)
    case (1 ds u)
    from "1.prems"(1) show ?case
      by (subst (asm) array_dims.simps)
        (use "1.prems"(2) "1.IH" in \<open>auto split: if_splits option.splits\<close>)
  qed
  from "1.prems" show ?case
    by (subst (asm) array_dims.simps) (auto split: if_splits option.splits dest: keep)
qed

lemma parse_core_no_array_decos:
  assumes ok: "parse_core m rec [] s = Inr t" and na: "\<not> ends_in_array_dims s
    \<or> (3 \<le> length s \<and> s ! 0 = CHR ''$'' \<and> s ! 1 = CHR ''T'')
    \<or> str_find s ''(*)('' 0 \<noteq> None \<or> str_find s ''(&)('' 0 \<noteq> None"
  shows "tn_decos t = [] \<or> \<not> cv_deco (hd (tn_decos t))"
proof (cases "3 \<le> length s \<and> s ! 0 = CHR ''$'' \<and> s ! 1 = CHR ''T''")
  case True
  with ok show ?thesis by (auto simp: parse_core_def ebind_eq_Inr)
next
  case F: False
  show ?thesis
  proof (cases "str_find s ''(*)('' 0 = None \<and> str_find s ''(&)('' 0 = None")
    case True
    with F ok na have "tn_decos t = []"
      by (simp add: parse_core_def ebind_eq_Inr split: if_splits) auto
    then show ?thesis ..
  next
    case False
    with F ok have "tn_decos t \<in> {[''P''], [''R'']}"
      by (cases "str_find s ''(*)('' 0") (auto simp: parse_core_def ebind_eq_Inr Let_def)
    then show ?thesis by (elim insertE emptyE) simp_all
  qed
qed

lemma parse_core_own_decos:
  assumes ok: "parse_core m (parse_type m) [] s = Inr t" and ms: "mstrip s = s"
  shows "tn_decos t = [] \<or> \<not> cv_deco (hd (tn_decos t))"
proof (cases "\<not> ends_in_array_dims s \<or> (3 \<le> length s \<and> s ! 0 = CHR ''$'' \<and> s ! 1 = CHR ''T'')
    \<or> str_find s ''(*)('' 0 \<noteq> None \<or> str_find s ''(&)('' 0 \<noteq> None")
  case True
  with ok show ?thesis by (rule parse_core_no_array_decos)
next
  case False
  obtain dims rest where d: "array_dims [] s = (dims, rest)" by (cases "array_dims [] s")
  have "dims \<noteq> []"
  proof
    assume "dims = []"
    then have "rest = s" using array_dims_some [OF d] by simp
    then have n: "rfind_char s (CHR ''['') = None"
      using array_dims_rest [OF d] False by (auto simp: ends_in_array_dims_def)
    have "s \<noteq> []" "last s = CHR '']''" "\<not> abi_tag_group s None"
      using False by (simp_all add: ends_in_array_dims_def n)
    then have "stray_bracket s"
      using False ms n unfolding stray_bracket_def rfind_char_None by blast
    then have "parse_type m s = Inl NoReturn" and "\<not> has_suffix ''(*)'' s"
      unfolding parse_type_def by (rule stray_bracket_never_returns, rule stray_bracket_dims)
    then have "parse_core m (parse_type m) [] s = Inl NoReturn"
      using False d \<open>rest = s\<close> by (auto simp: parse_core_def Let_def)
    with ok show False by simp
  qed
  then obtain c dims' where dims: "dims = c # dims'" by (cases dims) auto
  define ds1 where "ds1 = (if has_suffix ''(*)'' rest then [''P''] else [])
    @ map (\<lambda>d. ''A'' @ d @ ''_'') dims"
  have ds1: "ds1 \<noteq> [] \<and> \<not> cv_deco (hd ds1)" by (simp add: ds1_def dims cv_deco_def)
  have "\<exists>r. parse_core m (parse_type m) [] s
      = ebind (parse_type m r) (\<lambda>inner. Inr (with_outer_decos ds1 inner))"
    using False d by (auto simp: parse_core_def Let_def ds1_def)
  then obtain r where "ebind (parse_type m r) (\<lambda>inner. Inr (with_outer_decos ds1 inner)) = Inr t"
    using ok by auto
  then obtain u where "t = with_outer_decos ds1 u" by (auto simp: ebind_eq_Inr)
  then show ?thesis using ds1 by (simp add: with_outer_decos_def)
qed

lemma mstrip_append_word:
  assumes "mstrip s \<noteq> []" and "w \<noteq> []" and "\<not> blank_tab (last w)"
  shows "mstrip (s @ w) = dropWhile blank_tab s @ w"
proof -
  obtain x where "x \<in> set s" "\<not> blank_tab x"
    using assms(1) by (auto simp: mstrip_strip strip_empty_iff)
  then have "dropWhile blank_tab (s @ w) = dropWhile blank_tab s @ w" by (rule dropWhile_append1)
  moreover have "dropWhile blank_tab (rev (u @ w)) = rev (u @ w)" for u
    using assms(2,3) by (cases w rule: rev_cases) auto
  ultimately show ?thesis by (simp add: mstrip_strip strip_def)
qed

lemma mstrip_dropWhile: "mstrip (dropWhile blank_tab s) = mstrip s"
  by (simp add: mstrip_strip strip_def)

lemma peel_decos_cv_word:
  assumes ne: "mstrip s \<noteq> []"
  shows "peel_decos (mstrip (s @ '' const'')) False False [] = peel_decos (mstrip s) True False []"
    and "peel_decos (mstrip (s @ '' volatile'')) False False [] = peel_decos (mstrip s) False True []"
proof -
  let ?d = "dropWhile blank_tab s"
  have w: "mstrip (s @ '' const'') = ?d @ '' const''" "mstrip (s @ '' volatile'') = ?d @ '' volatile''"
    using ne by (auto intro!: mstrip_append_word simp: blank_tab_def)
  have nosuf: "\<not> has_suffix p (?d @ q)" if "p \<noteq> []" "q \<noteq> []" "last p \<noteq> last q" for p q
    using has_suffix_last [of p "?d @ q"] that by auto
  have ms: "mstrip (?d @ '' const'') = ?d @ '' const''" "mstrip (?d @ '' volatile'') = ?d @ '' volatile''"
    using mstrip_mstrip [of "s @ '' const''"] mstrip_mstrip [of "s @ '' volatile''"] by (simp_all only: w)
  have "peel_decos (?d @ '' const'') False False [] = peel_decos ?d True False []"
    using nosuf [of "''&&''" "'' const''"]
    by (subst peel_decos.simps) (simp add: ms Let_def)
  then show "peel_decos (mstrip (s @ '' const'')) False False [] = peel_decos (mstrip s) True False []"
    using peel_decos_mstrip [of ?d] peel_decos_mstrip [of s] mstrip_dropWhile [of s] by (simp add: w)
  have "peel_decos (?d @ '' volatile'') False False [] = peel_decos ?d False True []"
    using nosuf [of "''&&''" "'' volatile''"] nosuf [of "'' const''" "'' volatile''"]
    by (subst peel_decos.simps) (simp add: ms Let_def)
  then show "peel_decos (mstrip (s @ '' volatile'')) False False [] = peel_decos (mstrip s) False True []"
    using peel_decos_mstrip [of ?d] peel_decos_mstrip [of s] mstrip_dropWhile [of s] by (simp add: w)
qed

text \<open>The parse after peeling, as a function of the cv bits the peeling starts with.\<close>

definition parse_from_flags :: "data_model \<Rightarrow> string \<Rightarrow> bool \<Rightarrow> bool \<Rightarrow> type_node cxx" where
  "parse_from_flags m s kc0 kv0 =
     (case peel_decos (mstrip s) kc0 kv0 [] of
        (s, kc, kv, ds) \<Rightarrow>
          (let composite = (str_find s ''(*)'' 0 \<noteq> None \<or> str_find s ''(&)'' 0 \<noteq> None
                            \<or> ends_in_array_dims s)
           in case (if composite then (s, kc, kv) else leading_words s kc kv) of
                (s1, kc1, kv1) \<Rightarrow> parse_core m (parse_type m) (ds @ flush_cv kc1 kv1) s1))"

lemma parse_type_flags: "parse_type m s = parse_from_flags m s False False"
  by (subst parse_type_unfold) (simp add: parse_type_body_def parse_from_flags_def)

lemma parse_type_cv_word:
  assumes "mstrip s \<noteq> []"
  shows "parse_type m (s @ '' const'') = parse_from_flags m s True False"
    and "parse_type m (s @ '' volatile'') = parse_from_flags m s False True"
  by (subst parse_type_unfold, simp add: parse_type_body_def parse_from_flags_def
        peel_decos_cv_word [OF assms])+

lemma parse_core_flush_drop:
  assumes "mstrip s = s"
  shows "ebind (parse_core m (parse_type m) (flush_cv kc kv) s) (\<lambda>t. Inr (drop_top_cv t))
     = parse_core m (parse_type m) [] s"
proof (cases "parse_core m (parse_type m) [] s")
  case (Inl e)
  then show ?thesis by (subst parse_core_decos) simp
next
  case (Inr t)
  then show ?thesis
    by (subst parse_core_decos) (simp add: drop_top_cv_flush [OF parse_core_own_decos [OF Inr assms]])
qed

lemma parse_core_flush_pointer:
  assumes "x \<in> {''P'', ''O'', ''R''}"
  shows "ebind (parse_core m rec (flush_cv kc kv @ x # ds) s) (\<lambda>t. Inr (drop_top_cv t))
     = parse_core m rec (x # ds) s"
proof -
  have "drop_top_cv (with_outer_decos (flush_cv kc kv @ x # ds) t) = with_outer_decos (x # ds) t" for t
    unfolding with_outer_decos_append
    using assms by (intro drop_top_cv_flush, elim insertE emptyE) (simp_all add: with_outer_decos_def)
  then show ?thesis
    by (subst (1 2) parse_core_decos) (cases "parse_core m rec [] s"; simp)
qed

lemma parse_from_flags_drop:
  "ebind (parse_from_flags m s kc kv) (\<lambda>t. Inr (drop_top_cv t)) = parse_param_type m s"
proof -
  have "ebind (parse_from_flags m s kc kv) (\<lambda>t. Inr (drop_top_cv t))
      = ebind (parse_from_flags m s False False) (\<lambda>t. Inr (drop_top_cv t))"
    using peel_decos_flags [of "mstrip s"]
  proof
    assume "cv_survives (mstrip s)"
    then obtain u a b where u: "\<And>kc kv. peel_decos (mstrip s) kc kv [] = (u, kc \<or> a, kv \<or> b, [])"
      unfolding cv_survives_def by blast
    obtain v c d where v: "\<And>kc kv. leading_words u kc kv = (v, kc \<or> c, kv \<or> d)"
      using leading_words_flags [of u] by blast
    have "mstrip u = u" using peel_decos_result [OF u] by simp
    moreover from this have "mstrip v = v" by (rule leading_words_mstrip [OF v])
    ultimately show ?thesis by (simp add: parse_from_flags_def u v Let_def parse_core_flush_drop)
  next
    assume "cv_flushed (mstrip s)"
    then obtain u kc' kv' a b x ds where x: "x \<in> {''P'', ''O'', ''R''}"
      and u: "\<And>kc kv. peel_decos (mstrip s) kc kv []
                = (u, kc', kv', flush_cv (kc \<or> a) (kv \<or> b) @ x # ds)"
      unfolding cv_flushed_def by (metis append_Nil)
    show ?thesis
      by (simp add: parse_from_flags_def u Let_def parse_core_flush_pointer [OF x]
          split: prod.split)
  qed
  then show ?thesis by (simp add: parse_param_type_def parse_type_flags)
qed

section \<open>Properties\<close>

text \<open>
  C4: the top-level \<open>const\<close> or \<open>volatile\<close> of a parameter is not part of a function's type.
  Writing it after the parameter's spelling changes neither what the parameter parses to
  nor how the parse fails.
\<close>

theorem parse_param_type_ignores_own_cv:
  assumes "mstrip s \<noteq> []" and "w \<in> {'' const'', '' volatile''}"
  shows "parse_param_type m (s @ w) = parse_param_type m s"
  using assms(2) parse_type_cv_word [OF assms(1), of m] parse_from_flags_drop [of m s]
  by (auto simp: parse_param_type_def)

theorem parse_param_type_ignores_own_cv_witness:
  "parse_param_type LP64 (''const char *'' @ '' const'') = parse_param_type LP64 ''const char *''"
  by (rule parse_param_type_ignores_own_cv) (code_simp, simp)

text \<open>
  The parser's recursion.  The fuel of the definition never matters: the parser
  satisfies the recursive equation of the source on every spelling, and every amount of
  fuel above the length of the spelling gives the same result.
\<close>

theorem parse_type_recursion:
  "parse_type m raw = parse_type_body m (parse_type m) raw
   \<and> parse_type_fuel (Suc (length raw) + n) m raw = parse_type m raw"
  using parse_type_unfold [of m raw] parse_type_fuel_enough [of raw "Suc (length raw) + n" m] by simp

text \<open>
  C5: the parser returns, with a node or an exception of \<open>std::stoi\<close>, on every spelling
  without a closing bracket.
\<close>

theorem parse_type_terminates:
  assumes "CHR '']'' \<notin> set raw"
  shows "(\<exists>t. parse_type m raw = Inr t) \<or> (\<exists>e. parse_type m raw = Inl e \<and> e \<noteq> NoReturn)"
  using parse_type_returns [OF assms, of m] by (cases "parse_type m raw") auto

theorem parse_type_terminates_witness:
  "(\<exists>t. parse_type LP64 ''$Tx'' = Inr t) \<or> (\<exists>e. parse_type LP64 ''$Tx'' = Inl e \<and> e \<noteq> NoReturn)"
  by (rule parse_type_terminates) simp

text \<open>
  On a spelling that ends in a bracket nothing opens, the array branch calls the parser
  on the very same spelling, so the call never returns.
\<close>

theorem parse_type_stray_bracket:
  assumes "stray_bracket s"
  shows "parse_type m s = Inl NoReturn \<and> parse_type_fuel n m s = Inl NoReturn"
  unfolding parse_type_def using stray_bracket_never_returns [OF assms] by blast

theorem parse_type_stray_bracket_witness: "parse_type LP64 ''x]'' = Inl NoReturn"
proof -
  have "stray_bracket ''x]''" by code_simp
  from parse_type_stray_bracket [OF this] show ?thesis by simp
qed

end
