(* ===== verification/MangleEncode.thy ===== *)
theory MangleEncode
  imports MangleParse
begin

text \<open>
  The back half of the mangler, \<^verbatim>\<open>src/madc_mangle.cpp\<close>: class \<open>ItaniumMangler\<close> with its
  ordered table of substitution candidates, the encoder of types and names, the symbol
  shapes built on it, and the public entry points.

  The mangler's two members are the record \<open>mangler\<close>; a method that reads or extends the
  table takes it and returns it.  The stdlib flavour that decides the scope of a \<open>std\<close>
  entity is the record \<open>std_flavor\<close>, passed in.  A parse that throws ends the entry point
  with that exception, so an entry point is a \<^typ>\<open>string cxx\<close>.
\<close>

section \<open>The substitution table\<close>

record mangler =
  keys :: "string list"
  refused :: bool

definition mangler_reset :: mangler where
  "mangler_reset = \<lparr>keys = [], refused = False\<rparr>"

definition settled :: "mangler \<Rightarrow> string \<Rightarrow> string" where
  "settled st symbol = (if refused st then [] else symbol)"

definition base36_digits :: string where
  "base36_digits = ''0123456789ABCDEFGHIJKLMNOPQRSTUVWXYZ''"

fun base36 :: "nat \<Rightarrow> string" where
  "base36 v = (if v = 0 then [] else base36 (v div 36) @ [base36_digits ! (v mod 36)])"

declare base36.simps [simp del]

definition seq_digits :: "nat \<Rightarrow> string" where
  "seq_digits v = (if v = 0 then ''0'' else base36 v)"

definition subref :: "nat \<Rightarrow> string" where
  "subref n = (if n = 0 then ''S_'' else ''S'' @ seq_digits (n - 1) @ ''_'')"

definition tparam_ref :: "nat \<Rightarrow> string" where
  "tparam_ref n = (if n = 0 then ''T_'' else ''T'' @ seq_digits (n - 1) @ ''_'')"

fun index_of :: "string list \<Rightarrow> string \<Rightarrow> nat \<Rightarrow> nat option" where
  "index_of [] k i = None"
| "index_of (x # xs) k i = (if x = k then Some i else index_of xs k (Suc i))"

definition find_sub :: "mangler \<Rightarrow> string \<Rightarrow> string" where
  "find_sub st k = (case index_of (keys st) k 0 of Some i \<Rightarrow> subref i | None \<Rightarrow> [])"

definition add_sub :: "string \<Rightarrow> mangler \<Rightarrow> mangler" where
  "add_sub k st = (if k \<in> set (keys st) then st else st\<lparr>keys := keys st @ [k]\<rparr>)"

section \<open>Canonical keys\<close>

fun canon_type :: "type_node \<Rightarrow> string"
and canon_component :: "name_component \<Rightarrow> string" where
  "canon_type (TypeNode ds isb b tp isf ret ps ch bad) =
     concat ds @
     (if 0 \<le> tp then ''$T'' @ to_string (nat tp)
      else if isf then
        ''F'' @ (case ret of r # _ \<Rightarrow> canon_type r | [] \<Rightarrow> []) @ concat (map canon_type ps) @ ''E''
      else if isb then ''#'' @ b
      else join ''::'' (map canon_component ch))"
| "canon_component (NameComponent i tmpl args) =
     (if tmpl then i @ ''<'' @ join '','' (map canon_type args) @ ''>'' else i)"

definition canon_name_prefix :: "name_component list \<Rightarrow> string" where
  "canon_name_prefix chain = join ''::'' (map canon_component chain)"

definition canon_type_core :: "type_node \<Rightarrow> string" where
  "canon_type_core t =
     canon_type (TypeNode [] (tn_is_builtin t) (tn_builtin t) (tn_tparam t) (tn_is_funcptr t)
                   (tn_fp_ret t) (tn_fp_params t) (tn_name t) (tn_invalid t))"

definition scoped_prefix_noargs :: "name_component list \<Rightarrow> string" where
  "scoped_prefix_noargs chain = join ''::'' (map nc_ident chain)"

section \<open>Standard abbreviations\<close>

definition std_abbrev :: "string \<Rightarrow> string" where
  "std_abbrev sc =
     (if sc = ''std'' then ''St''
      else if sc = ''std::allocator'' then ''Sa''
      else if sc = ''std::basic_string'' then ''Sb''
      else [])"

text \<open>
  The abbreviation of a complete specialisation; the argument is the name chain up to and
  including the component asked about.
\<close>

definition std_complete_abbrev :: "name_component list \<Rightarrow> string" where
  "std_complete_abbrev chain =
     (let nc = last chain; a = nc_targs nc; sc = scoped_prefix_noargs chain;
          ct = (2 \<le> length a \<and> canon_type (a ! 0) = ''#c''
                \<and> canon_type (a ! 1) = ''std::char_traits<#c>'')
      in if \<not> nc_is_template nc then []
         else if sc = ''std::basic_istream'' \<and> length a = 2 \<and> ct then ''Si''
         else if sc = ''std::basic_ostream'' \<and> length a = 2 \<and> ct then ''So''
         else if sc = ''std::basic_iostream'' \<and> length a = 2 \<and> ct then ''Sd''
         else if sc = ''std::basic_string'' \<and> length a = 3 \<and> ct
                 \<and> canon_type (a ! 2) = ''std::allocator<#c>'' then ''Ss''
         else [])"

section \<open>The encoder\<close>

text \<open>The locals of \<open>encode_name\<close>'s loop.\<close>

record name_acc =
  encoded :: string
  src_name_count :: nat
  ref_prefixed :: bool
  bare_ref :: bool

definition name_acc_start :: name_acc where
  "name_acc_start = \<lparr>encoded = [], src_name_count = 0, ref_prefixed = False, bare_ref = False\<rparr>"

text \<open>\<open>if (bareRef) { refPrefixed = true; bareRef = false; }\<close>\<close>

definition ref_to_prefix :: "name_acc \<Rightarrow> name_acc" where
  "ref_to_prefix acc =
     (if bare_ref acc then acc\<lparr>ref_prefixed := True, bare_ref := False\<rparr> else acc)"

text \<open>One step of the loop for a component without template arguments.\<close>

definition encode_plain ::
    "name_component list \<Rightarrow> name_acc \<Rightarrow> mangler \<Rightarrow> name_acc \<times> mangler" where
  "encode_plain ncs acc st =
     (let key = canon_name_prefix ncs;
          ref = find_sub st key;
          abbr = std_abbrev (scoped_prefix_noargs ncs)
      in if ref \<noteq> [] then (acc\<lparr>encoded := ref, ref_prefixed := False, bare_ref := True\<rparr>, st)
         else if abbr \<noteq> [] then (acc\<lparr>encoded := abbr, bare_ref := False\<rparr>, st)
         else
           (let acc1 = ref_to_prefix acc
            in (acc1\<lparr>encoded := encoded acc1 @ component_source_name (nc_ident (last ncs)),
                     src_name_count := src_name_count acc1 + 1\<rparr>,
                add_sub key st)))"

text \<open>
  The template-prefix of a template-id: its spelling, whether it is a back-reference, and
  the state after.
\<close>

definition encode_template_prefix ::
    "name_component list \<Rightarrow> name_acc \<Rightarrow> mangler \<Rightarrow> string \<times> bool \<times> name_acc \<times> mangler" where
  "encode_template_prefix ncs acc st =
     (let key = scoped_prefix_noargs ncs;
          pref = find_sub st key;
          pabbr = std_abbrev key
      in if pref \<noteq> [] then (pref, True, acc, st)
         else if pabbr \<noteq> [] then (pabbr, False, acc, st)
         else
           (let acc1 = ref_to_prefix acc
            in (encoded acc1 @ component_source_name (nc_ident (last ncs)), False,
                acc1\<lparr>src_name_count := src_name_count acc1 + 1\<rparr>,
                add_sub key st)))"

text \<open>The whole template-id, once its arguments are encoded.\<close>

definition encode_template_id ::
    "name_component list \<Rightarrow> string \<Rightarrow> bool \<Rightarrow> string \<Rightarrow> name_acc \<Rightarrow> mangler \<Rightarrow> name_acc \<times> mangler"
    where
  "encode_template_id ncs tprefix isref args acc st =
     (let key = canon_name_prefix ncs;
          ref = find_sub st key
      in if ref \<noteq> [] then (acc\<lparr>encoded := ref, ref_prefixed := False, bare_ref := True\<rparr>, st)
         else (acc\<lparr>encoded := tprefix @ ''I'' @ args @ ''E'',
                   ref_prefixed := (if isref then True else ref_prefixed acc),
                   bare_ref := False\<rparr>,
               add_sub key st))"

definition wrap_name :: "bool \<Rightarrow> name_acc \<Rightarrow> string" where
  "wrap_name standalone acc =
     (if standalone \<and> (2 \<le> src_name_count acc \<or> ref_prefixed acc)
      then ''N'' @ encoded acc @ ''E'' else encoded acc)"

text \<open>The loop over the decorations, innermost first (the list is reversed).\<close>

fun apply_decos :: "string list \<Rightarrow> string \<Rightarrow> string \<Rightarrow> mangler \<Rightarrow> string \<times> mangler" where
  "apply_decos [] canon enc st = (enc, st)"
| "apply_decos (d # ds) canon enc st =
     (let canon' = d @ canon; ref = find_sub st canon'
      in if ref \<noteq> [] then apply_decos ds canon' ref st
         else apply_decos ds canon' (d @ enc) (add_sub canon' st))"

text \<open>
  \<open>encode_type\<close>, its loop over several types, and the loop of \<open>encode_name\<close>: \<open>pre\<close> holds
  the components already done, so \<open>pre @ [nc]\<close> is the chain up to the current index.

  A \<open>$T\<close> with a negative index is outside the model's reach: the node has neither a parameter
  number nor a name, \<open>canon_type_core\<close> then reads before an empty chain, which is undefined, and
  the key and the encoding here are empty.  \<open>itanium_substitute_tparams\<close>, which writes the
  placeholders, numbers them from 0.
\<close>

fun encode_type :: "type_node \<Rightarrow> mangler \<Rightarrow> string \<times> mangler"
and encode_types :: "type_node list \<Rightarrow> mangler \<Rightarrow> string \<times> mangler"
and encode_chain :: "name_component list \<Rightarrow> name_component list \<Rightarrow> name_acc \<Rightarrow> mangler
      \<Rightarrow> name_acc \<times> mangler" where
  "encode_type (TypeNode ds isb b tp isf ret ps ch bad) st =
     (let st0 = (if bad then st\<lparr>refused := True\<rparr> else st);
          canon = canon_type (TypeNode [] isb b tp isf ret ps ch bad);
          ref = find_sub st0 canon
      in case (if 0 \<le> tp then
                 (if ref \<noteq> [] then (ref, st0) else (tparam_ref (nat tp), add_sub canon st0))
               else if isf then
                 (if ref \<noteq> [] then (ref, st0)
                  else
                    (case (case ret of r # _ \<Rightarrow> encode_type r st0 | [] \<Rightarrow> ([], st0)) of
                       (r_enc, st1) \<Rightarrow>
                         (case (if ps = [] then (''v'', st1) else encode_types ps st1) of
                            (ps_enc, st2) \<Rightarrow>
                              (''F'' @ r_enc @ ps_enc @ ''E'', add_sub canon st2))))
               else if isb then (b, st0)
               else
                 (case encode_chain [] ch name_acc_start st0 of
                    (acc, st1) \<Rightarrow> (wrap_name True acc, st1))) of
           (enc, st3) \<Rightarrow> apply_decos (rev ds) canon enc st3)"
| "encode_types [] st = ([], st)"
| "encode_types (t # ts) st =
     (case encode_type t st of
        (e, st1) \<Rightarrow> (case encode_types ts st1 of (es, st2) \<Rightarrow> (e @ es, st2)))"
| "encode_chain pre [] acc st = (acc, st)"
| "encode_chain pre (NameComponent i tmpl args # rest) acc st =
     (let nc = NameComponent i tmpl args; ncs = pre @ [nc]
      in if \<not> tmpl then
           (case encode_plain ncs acc st of (acc1, st1) \<Rightarrow> encode_chain ncs rest acc1 st1)
         else if std_complete_abbrev ncs \<noteq> [] then
           encode_chain ncs rest
             (acc\<lparr>encoded := std_complete_abbrev ncs, ref_prefixed := False, bare_ref := False\<rparr>)
             st
         else
           (case encode_template_prefix ncs acc st of
              (tprefix, isref, acc1, st1) \<Rightarrow>
                (case encode_types args st1 of
                   (args_enc, st2) \<Rightarrow>
                     (case encode_template_id ncs tprefix isref args_enc acc1 st2 of
                        (acc3, st3) \<Rightarrow> encode_chain ncs rest acc3 st3))))"

definition encode_name :: "name_component list \<Rightarrow> bool \<Rightarrow> mangler \<Rightarrow> string \<times> mangler" where
  "encode_name chain standalone st =
     (case encode_chain [] chain name_acc_start st of
        (acc, st1) \<Rightarrow> (wrap_name standalone acc, st1))"

section \<open>Symbol shapes\<close>

datatype mangle_stdlib = MstdlibGnu | MstdlibLlvm

record std_flavor =
  std_stdlib :: mangle_stdlib
  std_abi_ns :: string
  std_abi_gen :: "32 word"

definition std_entity_inline_ns :: "'a std_flavor_scheme \<Rightarrow> string" where
  "std_entity_inline_ns g = (if std_stdlib g = MstdlibLlvm then std_abi_ns g else [])"

definition std_entity_scope :: "'a std_flavor_scheme \<Rightarrow> mangler \<Rightarrow> string \<times> bool \<times> mangler" where
  "std_entity_scope g st =
     (let ins = std_entity_inline_ns g
      in if ins = [] then (''St'', False, st)
         else (''St'' @ source_name ins, True, add_sub (''std::'' @ ins) st))"

definition member_prefix :: "data_model \<Rightarrow> string \<Rightarrow> nat \<Rightarrow> (string \<times> mangler) cxx" where
  "member_prefix m qualified_class method_cv =
     ebind (parse_type m qualified_class) (\<lambda>cls.
       case encode_name (tn_name cls) False mangler_reset of
         (n, st) \<Rightarrow>
           Inr (''_ZN'' @ (if odd (method_cv div 2) then ''V'' else [])
                @ (if odd method_cv then ''K'' else []) @ n, st))"

definition params_enc :: "data_model \<Rightarrow> string list \<Rightarrow> mangler \<Rightarrow> (string \<times> mangler) cxx" where
  "params_enc m params st =
     (if params = [] then Inr (''v'', st)
      else ebind (traverse (parse_param_type m) params) (\<lambda>ts. Inr (encode_types ts st)))"

definition mangle_member ::
    "data_model \<Rightarrow> string \<Rightarrow> string \<Rightarrow> string \<Rightarrow> string list \<Rightarrow> nat \<Rightarrow> string cxx" where
  "mangle_member m qualified_class unqualified special params method_cv =
     ebind (member_prefix m qualified_class method_cv) (\<lambda>(out, st).
     ebind (params_enc m params st) (\<lambda>(ps, st1).
       Inr (settled st1
         (out @ (if special = [] then source_name unqualified else special) @ ''E'' @ ps))))"

definition mangle_conversion :: "data_model \<Rightarrow> string \<Rightarrow> string \<Rightarrow> nat \<Rightarrow> string cxx" where
  "mangle_conversion m qualified_class target_type method_cv =
     ebind (member_prefix m qualified_class method_cv) (\<lambda>(out, st).
     ebind (parse_type m target_type) (\<lambda>t.
       case encode_type t st of
         (e, st1) \<Rightarrow> Inr (settled st1 (out @ ''cv'' @ e @ ''Ev''))))"

definition mangle_member_template ::
    "data_model \<Rightarrow> string \<Rightarrow> string \<Rightarrow> string list \<Rightarrow> string \<Rightarrow> string list \<Rightarrow> nat \<Rightarrow> string cxx"
    where
  "mangle_member_template m qualified_class unqualified ta ret params method_cv =
     ebind (member_prefix m qualified_class method_cv) (\<lambda>(out, st).
     let st0 = add_sub (''@member-template:'' @ qualified_class @ ''::'' @ unqualified) st in
     ebind (traverse (parse_type m) ta) (\<lambda>ts.
     case encode_types ts st0 of (as, st1) \<Rightarrow>
     ebind (parse_type m ret) (\<lambda>r.
     case encode_type r st1 of (re, st2) \<Rightarrow>
     ebind (params_enc m params st2) (\<lambda>(ps, st3).
       Inr (settled st3
         (out @ source_name unqualified @ ''I'' @ as @ ''E'' @ ''E'' @ re @ ps))))))"

definition function_template_tail ::
    "data_model \<Rightarrow> string \<Rightarrow> bool \<Rightarrow> string \<Rightarrow> string list \<Rightarrow> string \<Rightarrow> string list \<Rightarrow> mangler
      \<Rightarrow> string cxx" where
  "function_template_tail m scope nested op_or_name ta ret params st =
     (let st0 = add_sub (''@fn:'' @ op_or_name) st in
      ebind (traverse (parse_type m) ta) (\<lambda>ts.
      case encode_types ts st0 of (as, st1) \<Rightarrow>
      ebind (parse_type m ret) (\<lambda>r.
      case encode_type r st1 of (re, st2) \<Rightarrow>
      ebind (params_enc m params st2) (\<lambda>(ps, st3).
        Inr (settled st3
          ((if nested then ''_ZN'' else ''_Z'') @ scope @ op_or_name @ ''I'' @ as @ ''E''
           @ (if nested then ''E'' else []) @ re @ ps))))))"

definition mangle_std_free_template ::
    "data_model \<Rightarrow> 'a std_flavor_scheme \<Rightarrow> string \<Rightarrow> string list \<Rightarrow> string \<Rightarrow> string list \<Rightarrow> string cxx"
    where
  "mangle_std_free_template m g op_or_name ta ret params =
     (case std_entity_scope g mangler_reset of
        (scope, nested, st) \<Rightarrow> function_template_tail m scope nested op_or_name ta ret params st)"

definition mangle_function_template ::
    "data_model \<Rightarrow> string list \<Rightarrow> string \<Rightarrow> string list \<Rightarrow> string \<Rightarrow> string list \<Rightarrow> string cxx" where
  "mangle_function_template m qualifiers op_or_name ta ret params =
     (if qualifiers = [] then
        function_template_tail m [] False op_or_name ta ret params mangler_reset
      else if qualifiers = [''std''] then
        function_template_tail m ''St'' False op_or_name ta ret params mangler_reset
      else
        ebind (traverse (parse_component m) qualifiers) (\<lambda>chain.
          case encode_name chain False mangler_reset of
            (scope, st) \<Rightarrow> function_template_tail m scope True op_or_name ta ret params st))"

definition mangle_std_var :: "'a std_flavor_scheme \<Rightarrow> string \<Rightarrow> string" where
  "mangle_std_var g vname =
     (case std_entity_scope g mangler_reset of
        (scope, nested, st) \<Rightarrow>
          settled st ((if nested then ''_ZN'' else ''_Z'') @ scope @ source_name vname
            @ (if nested then ''E'' else [])))"

definition unqualified_name :: "string \<Rightarrow> nat \<Rightarrow> bool \<Rightarrow> string" where
  "unqualified_name fname n_params internal_linkage =
     (let opcode = (if has_prefix ''operator'' fname
                    then operator_code (drop 8 fname) (n_params = 1) else [])
      in if opcode \<noteq> [] then opcode
         else if internal_linkage then ''L'' @ source_name fname
         else source_name fname)"

definition mangle_nested_function ::
    "data_model \<Rightarrow> string list \<Rightarrow> string \<Rightarrow> string list \<Rightarrow> bool \<Rightarrow> string cxx" where
  "mangle_nested_function m qualifiers fname params internal_linkage =
     (let uname = unqualified_name fname (length params) internal_linkage
      in if qualifiers = [] then
           ebind (params_enc m params mangler_reset) (\<lambda>(ps, st).
             Inr (settled st (''_Z'' @ uname @ ps)))
         else if qualifiers = [''std''] then
           ebind (params_enc m params mangler_reset) (\<lambda>(ps, st).
             Inr (settled st (''_ZSt'' @ uname @ ps)))
         else
           ebind (traverse (parse_component m) qualifiers) (\<lambda>chain.
             case encode_name chain False mangler_reset of
               (n, st) \<Rightarrow>
                 ebind (params_enc m params st) (\<lambda>(ps, st1).
                   Inr (settled st1 (''_ZN'' @ n @ uname @ ''E'' @ ps)))))"

definition mangle_nested_variable :: "data_model \<Rightarrow> string list \<Rightarrow> string \<Rightarrow> string cxx" where
  "mangle_nested_variable m qualifiers vname =
     ebind (traverse (parse_component m) (qualifiers @ [vname])) (\<lambda>chain.
       case encode_name chain True mangler_reset of (n, st) \<Rightarrow> Inr (settled st (''_Z'' @ n)))"

section \<open>Public entry points\<close>

text \<open>\<open>itanium_encode_type_sub\<close> without its memo (which is the theory \<open>MangleState\<close>).\<close>

definition encode_type_text :: "data_model \<Rightarrow> string \<Rightarrow> string cxx" where
  "encode_type_text m cpp_type =
     ebind (parse_type m cpp_type) (\<lambda>t.
       case encode_type t mangler_reset of (e, st) \<Rightarrow> Inr (settled st e))"

definition itanium_mangle_member_sub ::
    "data_model \<Rightarrow> string \<Rightarrow> string \<Rightarrow> string list \<Rightarrow> nat \<Rightarrow> string cxx" where
  "itanium_mangle_member_sub m qualified_class member param_types method_cv =
     mangle_member m qualified_class member [] param_types method_cv"

definition itanium_mangle_member_template_sub ::
    "data_model \<Rightarrow> string \<Rightarrow> string \<Rightarrow> string list \<Rightarrow> string \<Rightarrow> string list \<Rightarrow> nat \<Rightarrow> string cxx"
    where
  "itanium_mangle_member_template_sub m qualified_class member ta ret param_types method_cv =
     mangle_member_template m qualified_class member ta ret param_types method_cv"

definition itanium_mangle_ctor_sub ::
    "data_model \<Rightarrow> string \<Rightarrow> string list \<Rightarrow> string \<Rightarrow> string cxx" where
  "itanium_mangle_ctor_sub m qualified_class param_types flavor =
     mangle_member m qualified_class [] flavor param_types 0"

definition itanium_mangle_dtor_sub :: "data_model \<Rightarrow> string \<Rightarrow> string \<Rightarrow> string cxx" where
  "itanium_mangle_dtor_sub m qualified_class flavor =
     mangle_member m qualified_class [] flavor [] 0"

definition itanium_mangle_operator_sub ::
    "data_model \<Rightarrow> string \<Rightarrow> string \<Rightarrow> string list \<Rightarrow> nat \<Rightarrow> string cxx" where
  "itanium_mangle_operator_sub m qualified_class op param_types method_cv =
     (let code = operator_code op (param_types = [])
      in if code = [] then Inr []
         else mangle_member m qualified_class [] code param_types method_cv)"

definition itanium_mangle_conversion_sub ::
    "data_model \<Rightarrow> string \<Rightarrow> string \<Rightarrow> nat \<Rightarrow> string cxx" where
  "itanium_mangle_conversion_sub m qualified_class target_type method_cv =
     mangle_conversion m qualified_class target_type method_cv"

definition itanium_mangle_std_free_template ::
    "data_model \<Rightarrow> 'a std_flavor_scheme \<Rightarrow> string \<Rightarrow> string list \<Rightarrow> string \<Rightarrow> string list \<Rightarrow> string cxx"
    where
  "itanium_mangle_std_free_template m g fname ta ret params =
     (let code = operator_code fname (length params = 1)
      in mangle_std_free_template m g (if code = [] then source_name fname else code) ta ret params)"

definition itanium_mangle_function_template_sub ::
    "data_model \<Rightarrow> string list \<Rightarrow> string \<Rightarrow> string list \<Rightarrow> string \<Rightarrow> string list \<Rightarrow> string cxx" where
  "itanium_mangle_function_template_sub m qualifiers fname ta ret params =
     mangle_function_template m qualifiers (unqualified_name fname (length params) False)
       ta ret params"

definition itanium_mangle_nested_sub ::
    "data_model \<Rightarrow> string list \<Rightarrow> string \<Rightarrow> string list \<Rightarrow> bool \<Rightarrow> string cxx" where
  "itanium_mangle_nested_sub m qualifiers fname param_types internal_linkage =
     mangle_nested_function m qualifiers fname param_types internal_linkage"

definition itanium_mangle_nested_var :: "data_model \<Rightarrow> string list \<Rightarrow> string \<Rightarrow> string cxx" where
  "itanium_mangle_nested_var m qualifiers vname = mangle_nested_variable m qualifiers vname"

definition itanium_mangle_std_var :: "'a std_flavor_scheme \<Rightarrow> string \<Rightarrow> string" where
  "itanium_mangle_std_var g vname = mangle_std_var g vname"

end
