(* ===== verification/MangleNames.thy ===== *)
theory MangleNames
  imports MangleEncode
begin

text \<open>
  \<open>itanium_function_name\<close> of \<^verbatim>\<open>src/madc_mangle.cpp\<close>, the decoder of a namespace-scope
  function's symbol, and the proof that it undoes the encoder: the symbol that
  \<open>itanium_mangle_nested_sub\<close> makes for a function at a scope of plain identifiers decodes
  to that scope and that function's name.

  The decoder walks a C string with a pointer.  The model's pointer is the text that is
  left, cut at the terminator; reading at its end gives the terminator.
\<close>

section \<open>The decoder\<close>

definition decoder_ops :: "string list" where
  "decoder_ops =
     [
      ''==='', ''!=='', ''=='', ''!='', ''<'', ''>'', ''<='', ''>='', ''<=>'', ''+'',
      ''-'', ''*'', ''/'', ''%'', ''='', ''+='', ''-='', ''*='', ''/='', ''%='',
      ''&='', ''|='', ''^='', ''<<='', ''>>='', ''<<'', ''>>'', ''[]'', ''()'', ''++'',
      ''--'', ''!'', ''~'', ''&'', ''|'', ''^'', ''&&'', ''||'', '','', ''->'',
      ''->*'', ''new'', ''new[]'', ''delete'', ''delete[]'']"

definition cur :: "string \<Rightarrow> char" where
  "cur p = (case p of [] \<Rightarrow> CHR 0x00 | c # _ \<Rightarrow> c)"

text \<open>The \<open>size_t\<close> value of a run of digits.\<close>

definition size_t_val :: "string \<Rightarrow> nat" where
  "size_t_val ds = unat (foldl (\<lambda>a c. a * 10 + of_nat (digit_val c)) (0 :: 64 word) ds)"

definition op_of_code :: "string \<Rightarrow> string option" where
  "op_of_code code =
     find (\<lambda>op. operator_code op False = code \<or> operator_code op True = code) decoder_ops"

text \<open>One unqualified name: its text, whether it is an operator, and what follows it.\<close>

definition unqualified :: "string \<Rightarrow> (string \<times> bool \<times> string) option" where
  "unqualified p0 =
     (let p = (if cur p0 = CHR ''L'' \<and> isdigit (cur (tl p0)) then tl p0 else p0)
      in if isdigit (cur p) then
           (let len = size_t_val (takeWhile isdigit p); r = dropWhile isdigit p
            in if len = 0 \<or> length r < len then None else Some (take len r, False, drop len r))
         else if length p < 2 then None
         else (case op_of_code (take 2 p) of
                 None \<Rightarrow> None
               | Some op \<Rightarrow> Some (''operator'' @ op, True, drop 2 p)))"

lemma unqualified_shorter: "unqualified p = Some (out, b, r) \<Longrightarrow> length r < length p"
proof -
  assume a: "unqualified p = Some (out, b, r)"
  define q where "q = (if cur p = CHR ''L'' \<and> isdigit (cur (tl p)) then tl p else p)"
  have q: "length q \<le> length p" by (simp add: q_def)
  have dw: "length (dropWhile isdigit q) \<le> length q" by (rule length_dropWhile_le)
  show ?thesis
  proof (cases "isdigit (cur q)")
    case True
    let ?n = "size_t_val (takeWhile isdigit q)"
    from a True have "?n \<noteq> 0" and "?n \<le> length (dropWhile isdigit q)"
      and "r = drop ?n (dropWhile isdigit q)"
      by (auto simp: unqualified_def Let_def q_def [symmetric] split: if_splits)
    then show ?thesis using q dw by simp
  next
    case False
    with a have "2 \<le> length q" and "r = drop 2 q"
      by (auto simp: unqualified_def Let_def q_def [symmetric] split: if_splits option.splits)
    then show ?thesis using q by simp
  qed
qed

text \<open>The loop over a nested name: the parts and what follows them.\<close>

function nested_parts :: "bool \<Rightarrow> string \<Rightarrow> (string list \<times> string) option" where
  "nested_parts is_operator p =
     (if p = [] \<or> cur p = CHR ''E'' then Some ([], p)
      else if is_operator then None
      else (case unqualified p of
              None \<Rightarrow> None
            | Some (part, op, r) \<Rightarrow>
                (case nested_parts op r of
                   None \<Rightarrow> None
                 | Some (parts, rest) \<Rightarrow> Some (part # parts, rest))))"
  by pat_completeness auto
termination
  by (relation "measure (\<lambda>(b, p). length p)") (auto dest: unqualified_shorter)

declare nested_parts.simps [simp del]

definition itanium_function_name :: "string option \<Rightarrow> (string \<times> string) option" where
  "itanium_function_name symbol =
     (case symbol of
        None \<Rightarrow> None
      | Some s0 \<Rightarrow>
          (let s = takeWhile (\<lambda>c. c \<noteq> CHR 0x00) s0
           in if \<not> has_prefix ''_Z'' s then None
              else
                (let p0 = drop 2 s; p = (if cur p0 = CHR ''L'' then tl p0 else p0)
                 in if cur p = CHR ''N'' then
                      (case nested_parts False (tl p) of
                         None \<Rightarrow> None
                       | Some (parts, rest) \<Rightarrow>
                           (if cur rest \<noteq> CHR ''E'' \<or> length parts < 2 then None
                            else Some (join ''::'' (butlast parts), last parts)))
                    else
                      (case unqualified p of
                         None \<Rightarrow> None
                       | Some (part, op, r) \<Rightarrow> Some ([], part)))))"

section \<open>Operator codes are unambiguous\<close>

lemma decoder_ops_rows: "decoder_ops = map fst operator_rows"
  by (simp add: decoder_ops_def operator_rows_def)

lemma operator_codes_distinct: "distinct (map snd (operator_rows @ unary_rows))"
  by (simp add: operator_rows_def unary_rows_def)

lemma operator_code_row:
  assumes "op \<in> set decoder_ops"
  shows "(op, operator_code op u) \<in> set (operator_rows @ unary_rows)"
proof (cases "if u then map_of unary_rows op else None")
  case (Some code)
  then have "map_of unary_rows op = Some code" by (simp split: if_splits)
  then show ?thesis
    using Some by (auto simp: operator_code_def dest: map_of_SomeD)
next
  case None
  from assms have "op \<in> fst ` set operator_rows" by (simp add: decoder_ops_rows)
  then obtain code where "map_of operator_rows op = Some code"
    by (metis domD dom_map_of_conv_image_fst)
  then show ?thesis using None by (auto simp: operator_code_def dest: map_of_SomeD)
qed

lemma op_of_code_operator_code:
  assumes op: "op \<in> set decoder_ops"
  shows "op_of_code (operator_code op u) = Some op"
proof -
  let ?P = "\<lambda>x. operator_code x False = operator_code op u \<or> operator_code x True = operator_code op u"
  have inj: "x = op" if "x \<in> set decoder_ops" "?P x" for x
  proof -
    from that obtain v where "operator_code x v = operator_code op u" by blast
    then have "(x, operator_code op u) \<in> set (operator_rows @ unary_rows)"
      using operator_code_row [OF that(1), of v] by simp
    then show "x = op"
      using operator_code_row [OF op, of u] operator_codes_distinct
      by (blast intro: distinct_snd_inject)
  qed
  have "?P op" by (cases u) simp_all
  with op have "\<exists>x \<in> set decoder_ops. ?P x" by blast
  then have "find ?P decoder_ops \<noteq> None" unfolding find_None_iff by blast
  then obtain y where y: "find ?P decoder_ops = Some y" by blast
  then have "y \<in> set decoder_ops \<and> ?P y"
    unfolding find_Some_iff by (metis nth_mem)
  then show ?thesis using y inj by (auto simp: op_of_code_def)
qed

section \<open>Reading back a length-prefixed name\<close>

lemma size_t_val_digits_gen:
  "unat (foldl (\<lambda>a c. a * 10 + of_nat (digit_val c)) (of_nat n :: 64 word) ds)
     = digits_val n ds mod 2 ^ 64"
proof (induction ds arbitrary: n)
  case Nil
  then show ?case by (simp add: digits_val_def unat_of_nat)
next
  case (Cons c cs)
  have "(of_nat n * 10 + of_nat (digit_val c) :: 64 word) = of_nat (n * 10 + digit_val c)"
    by simp
  then show ?case using Cons [of "n * 10 + digit_val c"] by (simp add: digits_val_def)
qed

lemma size_t_val_to_string: "n < 2 ^ 64 \<Longrightarrow> size_t_val (to_string n) = n"
  using size_t_val_digits_gen [of 0 "to_string n"] digits_val_to_string [of n]
  by (simp add: size_t_val_def)

definition cxx_identifier :: "string \<Rightarrow> bool" where
  "cxx_identifier s \<longleftrightarrow>
     s \<noteq> [] \<and> \<not> isdigit (hd s) \<and> (\<forall>c \<in> set s. isalnum c \<or> c = CHR ''_'') \<and> length s < 2 ^ 64"

lemma takeWhile_to_string:
  assumes "s = [] \<or> \<not> isdigit (hd s)"
  shows "takeWhile isdigit (to_string n @ s) = to_string n"
    and "dropWhile isdigit (to_string n @ s) = s"
proof -
  have "takeWhile isdigit s = []" and "dropWhile isdigit s = s"
    using assms by (cases s; auto)+
  then show "takeWhile isdigit (to_string n @ s) = to_string n"
    and "dropWhile isdigit (to_string n @ s) = s"
    using to_string_digits [of n] by (auto simp: takeWhile_append2 dropWhile_append2)
qed

lemma cur_to_string: "isdigit (cur (to_string n @ s))"
  using to_string_digits [of n] to_string_nonempty [of n]
  by (cases "to_string n") (auto simp: cur_def)

lemma not_digit_letters: "\<not> isdigit (CHR ''L'')" "\<not> isdigit (CHR ''N'')" "\<not> isdigit (CHR ''E'')"
  by (auto simp: isdigit_def)

lemma cur_source_name:
  "cur (source_name s @ r) \<noteq> CHR ''L''" "cur (source_name s @ r) \<noteq> CHR ''N''"
  "cur (source_name s @ r) \<noteq> CHR ''E''"
  using cur_to_string [of "length s" "s @ r"] not_digit_letters
  by (auto simp: source_name_def)

lemma unqualified_source_name:
  assumes "cxx_identifier s"
  shows "unqualified (source_name s @ r) = Some (s, False, r)"
proof -
  have nd: "s @ r = [] \<or> \<not> isdigit (hd (s @ r))"
    using assms by (auto simp: cxx_identifier_def)
  note tw = takeWhile_to_string [OF nd, of "length s"]
  have "size_t_val (to_string (length s)) = length s"
    using assms by (intro size_t_val_to_string) (simp add: cxx_identifier_def)
  moreover have "length s \<noteq> 0" using assms by (simp add: cxx_identifier_def)
  ultimately show ?thesis
    using cur_source_name(1) [of s r] cur_to_string [of "length s" "s @ r"] tw
    by (auto simp: unqualified_def Let_def source_name_def)
qed

lemma unqualified_L_source_name:
  assumes "cxx_identifier s"
  shows "unqualified (CHR ''L'' # source_name s @ r) = Some (s, False, r)"
proof -
  have "unqualified (CHR ''L'' # source_name s @ r) = unqualified (source_name s @ r)"
    using cur_source_name(1) [of s r] cur_to_string [of "length s" "s @ r"]
    by (simp add: unqualified_def cur_def [of "CHR ''L'' # _"] source_name_def)
  then show ?thesis using unqualified_source_name [OF assms] by simp
qed

text \<open>The operator names the decoder reads back: those whose code is two letters.\<close>

definition decodable_op :: "string \<Rightarrow> bool" where
  "decodable_op op \<longleftrightarrow> op \<in> set decoder_ops \<and> op \<noteq> ''==='' \<and> op \<noteq> ''!==''"

lemma operator_code_shape:
  assumes "decodable_op op"
  shows "length (operator_code op u) = 2 \<and> islower (hd (operator_code op u))"
proof -
  have "\<forall>(x, code) \<in> set (operator_rows @ unary_rows).
          x \<noteq> ''==='' \<and> x \<noteq> ''!=='' \<longrightarrow> length code = 2 \<and> islower (hd code)"
    by (simp add: operator_rows_def unary_rows_def islower_def)
  then show ?thesis using operator_code_row [of op u] assms by (auto simp: decodable_op_def)
qed

lemma unqualified_operator:
  assumes "decodable_op op"
  shows "unqualified (operator_code op u @ r) = Some (''operator'' @ op, True, r)"
proof -
  obtain a b where ab: "operator_code op u = [a, b]" and low: "islower a"
    using operator_code_shape [OF assms, of u]
    by (cases "operator_code op u" rule: list.exhaust; cases "tl (operator_code op u)") auto
  have "op_of_code [a, b] = Some op"
    using op_of_code_operator_code [of op u] assms ab by (simp add: decodable_op_def)
  moreover have "a \<noteq> CHR ''L''" and "\<not> isdigit a"
    using low by (auto simp: islower_def isdigit_def)
  ultimately show ?thesis by (simp add: unqualified_def ab cur_def)
qed

definition decodable_name :: "string \<Rightarrow> bool" where
  "decodable_name fname \<longleftrightarrow>
     cxx_identifier fname \<or> has_prefix ''operator'' fname \<and> decodable_op (drop 8 fname)"

lemma operator_code_nonempty: "operator_code op u \<noteq> [] \<Longrightarrow> op \<in> set decoder_ops"
proof -
  assume ne: "operator_code op u \<noteq> []"
  have "set (map fst unary_rows) \<subseteq> set (map fst operator_rows)"
    by (simp add: unary_rows_def operator_rows_def)
  then show ?thesis
    using ne
    by (auto simp: operator_code_def decoder_ops_rows split: option.splits if_splits
        dest!: map_of_SomeD) (metis fst_conv image_eqI set_map subsetD)+
qed

lemma identifier_not_long_op:
  "cxx_identifier fname \<Longrightarrow> has_prefix ''operator'' fname \<Longrightarrow> drop 8 fname \<noteq> ''===''
     \<and> drop 8 fname \<noteq> ''!==''"
proof -
  assume id: "cxx_identifier fname" and "has_prefix ''operator'' fname"
  have "set (drop 8 fname) \<subseteq> set fname" by (rule set_drop_subset)
  moreover have "CHR ''='' \<notin> set fname"
  proof
    assume "CHR ''='' \<in> set fname"
    then have "isalnum (CHR ''='') \<or> CHR ''='' = CHR ''_''"
      using id unfolding cxx_identifier_def by blast
    then show False by (simp add: ctype_defs)
  qed
  ultimately show ?thesis by (metis list.set_intros(1) list.set_intros(2) subsetD)
qed

lemma unqualified_unqualified_name:
  assumes "decodable_name fname"
  shows "\<exists>op. unqualified (unqualified_name fname n il @ r) = Some (fname, op, r)"
proof (cases "has_prefix ''operator'' fname \<and> operator_code (drop 8 fname) (n = 1) \<noteq> []")
  case True
  then have "fname = ''operator'' @ drop 8 fname"
    by (auto simp: has_prefix_iff)
  moreover have "decodable_op (drop 8 fname)"
    using assms True operator_code_nonempty identifier_not_long_op
    by (auto simp: decodable_name_def decodable_op_def)
  moreover have "unqualified_name fname n il = operator_code (drop 8 fname) (n = 1)"
    using True by (simp add: unqualified_name_def)
  ultimately show ?thesis using unqualified_operator by metis
next
  case False
  have "cxx_identifier fname"
    using assms False operator_code_shape [of "drop 8 fname" "n = 1"]
    by (auto simp: decodable_name_def)
  then show ?thesis
    using False unqualified_source_name unqualified_L_source_name
    by (auto simp: unqualified_name_def)
qed

lemma cur_unqualified_name:
  assumes "decodable_name fname"
  shows "let c = cur (unqualified_name fname n il @ r)
         in islower c \<or> isdigit c \<or> c = CHR ''L'' \<and> cxx_identifier fname \<and> il"
proof (cases "has_prefix ''operator'' fname \<and> operator_code (drop 8 fname) (n = 1) \<noteq> []")
  case True
  then have "decodable_op (drop 8 fname)"
    using assms operator_code_nonempty identifier_not_long_op
    by (auto simp: decodable_name_def decodable_op_def)
  from operator_code_shape [OF this, of "n = 1"] True show ?thesis
    by (cases "operator_code (drop 8 fname) (n = 1)") (auto simp: unqualified_name_def cur_def)
next
  case False
  have "cxx_identifier fname"
    using assms False operator_code_shape [of "drop 8 fname" "n = 1"]
    by (auto simp: decodable_name_def)
  then show ?thesis
    using False cur_to_string [of "length fname" "fname @ r"]
    by (auto simp: unqualified_name_def source_name_def cur_def [of "CHR ''L'' # _"])
qed

section \<open>Encoding a scope of plain identifiers\<close>

abbreviation plain_component :: "string \<Rightarrow> name_component" where
  "plain_component q \<equiv> NameComponent q False []"

lemma cxx_identifier_chars:
  assumes "cxx_identifier s"
  shows "CHR ''<'' \<notin> set s" "CHR '':'' \<notin> set s" "CHR 0x00 \<notin> set s" "CHR '']'' \<notin> set s"
    "\<not> blank_tab (hd s)" "\<not> blank_tab (last s)" "s \<noteq> []"
proof -
  have ok: "c \<in> set s \<Longrightarrow> isalnum c \<or> c = CHR ''_''" for c
    using assms by (auto simp: cxx_identifier_def)
  have bad: "\<not> (isalnum c \<or> c = CHR ''_'')"
    if "c \<in> {CHR ''<'', CHR '':'', CHR 0x00, CHR '']'', CHR '' '', CHR 0x09}" for c
    using that by (auto simp: ctype_defs)
  show "CHR ''<'' \<notin> set s" "CHR '':'' \<notin> set s" "CHR 0x00 \<notin> set s" "CHR '']'' \<notin> set s"
    using ok bad by blast+
  show ne: "s \<noteq> []" using assms by (simp add: cxx_identifier_def)
  show "\<not> blank_tab (hd s)" "\<not> blank_tab (last s)"
    using ok [of "hd s"] ok [of "last s"] ne bad [of "CHR '' ''"] bad [of "CHR 0x09"]
    by (auto simp: blank_tab_def)
qed

lemma find_open_angle_None: "CHR ''<'' \<notin> set s \<Longrightarrow> find_open_angle d i s = None"
  by (induction d i s rule: find_open_angle.induct) (auto simp: Let_def)

lemma parse_component_identifier:
  assumes "cxx_identifier q"
  shows "parse_component_by rec q = Inr (plain_component q)"
proof -
  have strip: "mstrip q = q" "spelling_trim q = q"
    using cxx_identifier_chars [OF assms]
    by (auto simp: mstrip_def spelling_trim_def trim_with_strip intro!: strip_id)
  then show ?thesis
    using cxx_identifier_chars(1) [OF assms]
    by (simp add: parse_component_by_def split_template_id_parts_def find_open_angle_None)
qed

lemma length_join_snoc:
  "x \<noteq> [] \<Longrightarrow> length (join ''::'' xs) < length (join ''::'' (xs @ [x]))"
  by (induction xs rule: induct_list012) (auto simp: join_Cons)

lemma takeWhile_join:
  "CHR '':'' \<notin> set x \<Longrightarrow> takeWhile (\<lambda>c. c \<noteq> CHR '':'') (join ''::'' (x # xs)) = x"
  by (cases xs) (auto simp: takeWhile_append takeWhile_eq_all_conv)

lemma std_abbrev_None:
  assumes "cxx_identifier q" and "q \<noteq> ''std''"
  shows "std_abbrev (join ''::'' (q # qs)) = []"
proof -
  have tw: "takeWhile (\<lambda>c. c \<noteq> CHR '':'') (join ''::'' (q # qs)) = q"
    using cxx_identifier_chars(2) [OF assms(1)] by (rule takeWhile_join)
  have "join ''::'' (q # qs) \<notin> {''std'', ''std::allocator'', ''std::basic_string''}"
  proof
    assume "join ''::'' (q # qs) \<in> {''std'', ''std::allocator'', ''std::basic_string''}"
    then have "takeWhile (\<lambda>c. c \<noteq> CHR '':'') (join ''::'' (q # qs)) = ''std''"
      by (elim insertE emptyE) simp_all
    with tw assms(2) show False by simp
  qed
  then show ?thesis by (simp add: std_abbrev_def)
qed

lemma find_sub_fresh: "k \<notin> set (keys st) \<Longrightarrow> find_sub st k = []"
proof -
  have "k \<notin> set xs \<Longrightarrow> index_of xs k i = None" for xs i
    by (induction xs arbitrary: i) auto
  then show "k \<notin> set (keys st) \<Longrightarrow> find_sub st k = []" by (simp add: find_sub_def)
qed

lemma canon_plain: "canon_name_prefix (map plain_component qs) = join ''::'' qs"
  by (simp add: canon_name_prefix_def comp_def)

lemma scoped_plain: "scoped_prefix_noargs (map plain_component qs) = join ''::'' qs"
  by (simp add: scoped_prefix_noargs_def comp_def)

lemma encode_chain_plain:
  assumes "\<forall>q \<in> set (done @ todo). cxx_identifier q"
    and "hd (done @ todo) \<noteq> ''std''"
    and "\<not> bare_ref acc"
    and "\<forall>k \<in> set (keys st). length k \<le> length (join ''::'' done)"
  shows "\<exists>acc' st'. encode_chain (map plain_component done) (map plain_component todo) acc st = (acc', st')
           \<and> encoded acc' = encoded acc @ concat (map source_name todo)
           \<and> refused st' = refused st"
  using assms
proof (induction todo arbitrary: "done" acc st)
  case Nil
  then show ?case by simp
next
  case (Cons q qs)
  let ?ncs = "done @ [q]"
  have q: "cxx_identifier q" using Cons.prems(1) by simp
  have long: "length (join ''::'' done) < length (join ''::'' ?ncs)"
    using cxx_identifier_chars(7) [OF q] by (rule length_join_snoc)
  then have fresh: "find_sub st (join ''::'' ?ncs) = []"
    using Cons.prems(4) by (intro find_sub_fresh) auto
  have "std_abbrev (join ''::'' ?ncs) = []"
    using Cons.prems(1,2) std_abbrev_None [of q "[]"] std_abbrev_None [of "hd done" "tl done @ [q]"]
    by (cases "done") auto
  moreover have "last q \<noteq> CHR '']''"
    using cxx_identifier_chars(4,7) [OF q] by (metis last_in_set)
  then have "component_source_name q = source_name q"
    by (simp add: component_source_name_def)
  ultimately have step: "encode_plain (map plain_component ?ncs) acc st =
      (acc\<lparr>encoded := encoded acc @ source_name q, src_name_count := src_name_count acc + 1\<rparr>,
       add_sub (join ''::'' ?ncs) st)"
    using fresh Cons.prems(3)
    by (simp add: encode_plain_def canon_plain scoped_plain ref_to_prefix_def Let_def
        del: map_append) simp
  let ?acc = "acc\<lparr>encoded := encoded acc @ source_name q, src_name_count := src_name_count acc + 1\<rparr>"
  let ?st = "add_sub (join ''::'' ?ncs) st"
  have "\<exists>acc' st'. encode_chain (map plain_component ?ncs) (map plain_component qs) ?acc ?st = (acc', st')
           \<and> encoded acc' = encoded ?acc @ concat (map source_name qs) \<and> refused st' = refused ?st"
    using Cons.prems long
    by (intro Cons.IH) (auto simp: add_sub_def intro: order_trans less_imp_le)
  then show ?case using step by (auto simp: add_sub_def split: if_splits)
qed

lemma encode_name_plain:
  assumes "\<forall>q \<in> set qs. cxx_identifier q" and "hd qs \<noteq> ''std''"
  shows "\<exists>st. encode_name (map plain_component qs) False mangler_reset
           = (concat (map source_name qs), st)"
  using encode_chain_plain [of "[]" qs name_acc_start mangler_reset] assms
  by (auto simp: encode_name_def wrap_name_def name_acc_start_def mangler_reset_def)

section \<open>Decoding an encoded function name\<close>

lemma nested_parts_chain:
  assumes "\<forall>q \<in> set qs. cxx_identifier q" and "decodable_name fname"
  shows "nested_parts False (concat (map source_name qs) @ unqualified_name fname n il @ ''E'' @ r)
           = Some (qs @ [fname], CHR ''E'' # r)"
  using assms(1)
proof (induction qs)
  case Nil
  obtain op where u: "unqualified (unqualified_name fname n il @ ''E'' @ r) = Some (fname, op, ''E'' @ r)"
    using unqualified_unqualified_name [OF assms(2)] by blast
  have notE: "cur (unqualified_name fname n il @ ''E'' @ r) \<noteq> CHR ''E''"
    using cur_unqualified_name [OF assms(2), of n il "''E'' @ r"]
    by (auto simp: Let_def islower_def isdigit_def)
  then show ?case
    using u
    by (subst nested_parts.simps) (auto simp: cur_def nested_parts.simps [of _ "CHR ''E'' # r"])
next
  case (Cons q qs)
  have "source_name q \<noteq> []" by (simp add: source_name_def to_string_nonempty)
  with Cons show ?case
    using unqualified_source_name [of q] cur_source_name(3) [of q]
    by (subst nested_parts.simps) auto
qed

lemma source_name_no_NUL: "cxx_identifier q \<Longrightarrow> CHR 0x00 \<notin> set (source_name q)"
  using to_string_digits [of "length q"] cxx_identifier_chars(3) [of q]
  by (auto simp: source_name_def isdigit_def)

lemma operator_rows_no_NUL: "\<forall>(x, code) \<in> set (operator_rows @ unary_rows). CHR 0x00 \<notin> set code"
  by (simp add: operator_rows_def unary_rows_def)

lemma unqualified_name_no_NUL:
  assumes "decodable_name fname"
  shows "CHR 0x00 \<notin> set (unqualified_name fname n il)"
proof (cases "has_prefix ''operator'' fname \<and> operator_code (drop 8 fname) (n = 1) \<noteq> []")
  case True
  then have "drop 8 fname \<in> set decoder_ops" using operator_code_nonempty by blast
  from operator_code_row [OF this, of "n = 1"] operator_rows_no_NUL True show ?thesis
    by (auto simp: unqualified_name_def)
next
  case False
  have "cxx_identifier fname"
    using assms False operator_code_shape [of "drop 8 fname" "n = 1"]
    by (auto simp: decodable_name_def)
  then show ?thesis
    using False source_name_no_NUL [of fname] by (auto simp: unqualified_name_def)
qed

text \<open>
  A terminator inside the parameter part of a symbol would cut it before the decoder sees
  the whole, but the decoder never reads past the name.
\<close>

lemma takeWhile_cut:
  "CHR 0x00 \<notin> set s \<Longrightarrow>
     takeWhile (\<lambda>c. c \<noteq> CHR 0x00) (s @ r) = s @ takeWhile (\<lambda>c. c \<noteq> CHR 0x00) r"
  by (rule takeWhile_append2) auto

lemma decode_global:
  assumes "decodable_name fname"
  shows "itanium_function_name (Some (''_Z'' @ unqualified_name fname n il @ r)) = Some ([], fname)"
proof -
  let ?u = "unqualified_name fname n il" and ?r = "takeWhile (\<lambda>c. c \<noteq> CHR 0x00) r"
  have cut: "takeWhile (\<lambda>c. c \<noteq> CHR 0x00) (?u @ r) = ?u @ ?r"
    by (rule takeWhile_cut [OF unqualified_name_no_NUL [OF assms]])
  obtain op where u: "unqualified (?u @ ?r) = Some (fname, op, ?r)"
    using unqualified_unqualified_name [OF assms] by blast
  show ?thesis
  proof (cases "cur (?u @ ?r) = CHR ''L''")
    case True
    with cur_unqualified_name [OF assms, of n il ?r]
    have id: "cxx_identifier fname" and il: "il"
      by (auto simp: Let_def islower_def isdigit_def)
    have nop: "\<not> (has_prefix ''operator'' fname \<and> operator_code (drop 8 fname) (n = 1) \<noteq> [])"
    proof
      assume a: "has_prefix ''operator'' fname \<and> operator_code (drop 8 fname) (n = 1) \<noteq> []"
      then have "decodable_op (drop 8 fname)"
        using operator_code_nonempty identifier_not_long_op [OF id]
        by (auto simp: decodable_op_def)
      from operator_code_shape [OF this, of "n = 1"] True a show False
        by (cases "operator_code (drop 8 fname) (n = 1)")
          (auto simp: unqualified_name_def cur_def islower_def)
    qed
    then have "?u = CHR ''L'' # source_name fname" using il by (auto simp: unqualified_name_def)
    then show ?thesis
      using unqualified_source_name [OF id, of ?r] cur_source_name(2) [of fname ?r]
        takeWhile_cut [OF source_name_no_NUL [OF id], of r]
      by (simp add: itanium_function_name_def has_prefix_def cur_def [of "CHR ''L'' # _"])
  next
    case False
    moreover have "cur (?u @ ?r) \<noteq> CHR ''N''"
      using cur_unqualified_name [OF assms, of n il ?r]
      by (auto simp: Let_def islower_def isdigit_def)
    ultimately show ?thesis
      using u by (simp add: itanium_function_name_def cut has_prefix_def)
  qed
qed

lemma decode_nested:
  assumes "\<forall>q \<in> set qs. cxx_identifier q" and "qs \<noteq> []" and "decodable_name fname"
  shows "itanium_function_name
           (Some (''_ZN'' @ concat (map source_name qs) @ unqualified_name fname n il @ ''E'' @ r))
         = Some (join ''::'' qs, fname)"
proof -
  let ?s = "''_ZN'' @ concat (map source_name qs) @ unqualified_name fname n il @ ''E''"
  let ?r = "takeWhile (\<lambda>c. c \<noteq> CHR 0x00) r"
  have "CHR 0x00 \<notin> set ?s"
    using assms(1) source_name_no_NUL unqualified_name_no_NUL [OF assms(3)] by auto
  from takeWhile_cut [OF this, of r]
  have cut: "takeWhile (\<lambda>c. c \<noteq> CHR 0x00)
      (''_ZN'' @ concat (map source_name qs) @ unqualified_name fname n il @ ''E'' @ r) =
      ''_ZN'' @ concat (map source_name qs) @ unqualified_name fname n il @ ''E'' @ ?r"
    by simp
  show ?thesis
    using nested_parts_chain [OF assms(1,3), of n il ?r] assms(2)
    by (simp add: itanium_function_name_def cut [simplified] has_prefix_def cur_def Suc_le_eq)
qed

end
