(* ===== verification/MangleSubst.thy ===== *)
theory MangleSubst
  imports MangleEncode
begin

text \<open>
  The substitution table of the mangler (\<open>find_sub\<close>, \<open>add_sub\<close> and \<open>subref\<close> of
  \<^verbatim>\<open>src/madc_mangle.cpp\<close>) as an interface, its implementation by an ordered list of keys,
  and what the encoder does to it: a reference, once handed out, keeps its meaning to the
  end of the symbol, and a compound type met a second time is written as the reference to
  its own entry.
\<close>

section \<open>The interface\<close>

text \<open>
  A table maps keys to references.  The laws are those the ABI asks of the numbering: an
  inserted key can be referred to, references already handed out do not move, and no
  reference stands for two keys.
\<close>

locale reference_table =
  fixes valid :: "'t \<Rightarrow> bool"
    and lookup :: "'t \<Rightarrow> 'k \<Rightarrow> 'r option"
    and add :: "'k \<Rightarrow> 't \<Rightarrow> 't"
  assumes valid_add: "valid t \<Longrightarrow> valid (add k t)"
    and lookup_add_same: "valid t \<Longrightarrow> lookup (add k t) k \<noteq> None"
    and lookup_add_stable: "valid t \<Longrightarrow> lookup t k = Some r \<Longrightarrow> lookup (add k' t) k = Some r"
    and lookup_inject: "valid t \<Longrightarrow> lookup t k = Some r \<Longrightarrow> lookup t k' = Some r \<Longrightarrow> k = k'"
begin

lemma valid_fold: "valid t \<Longrightarrow> valid (fold add ks t)"
  by (induction ks arbitrary: t) (auto simp: valid_add)

lemma lookup_fold_stable:
  "valid t \<Longrightarrow> lookup t k = Some r \<Longrightarrow> lookup (fold add ks t) k = Some r"
  by (induction ks arbitrary: t) (auto simp: valid_add lookup_add_stable)

lemma lookup_fold_mem:
  "valid t \<Longrightarrow> k \<in> set ks \<Longrightarrow> lookup (fold add ks t) k \<noteq> None"
proof (induction ks arbitrary: t)
  case (Cons x ks)
  show ?case
  proof (cases "x = k")
    case True
    then obtain r where "lookup (add x t) k = Some r" using lookup_add_same [OF Cons.prems(1)] by blast
    then show ?thesis using lookup_fold_stable [OF valid_add [OF Cons.prems(1)]] by auto
  next
    case False
    with Cons.prems have "k \<in> set ks" by simp
    then show ?thesis using Cons.IH [OF valid_add [OF Cons.prems(1)]] by simp
  qed
qed simp

text \<open>A reference read at one point of a run names the same key at every later point.\<close>

lemma reference_means_one_key:
  "valid t \<Longrightarrow> lookup t k = Some r \<Longrightarrow> lookup (fold add ks t) k' = Some r \<Longrightarrow> k' = k"
  using lookup_fold_stable lookup_inject valid_fold by metis

end

section \<open>References as written in a symbol\<close>

lemma base36_digits_inject: "i < 36 \<Longrightarrow> j < 36 \<Longrightarrow> base36_digits ! i = base36_digits ! j \<Longrightarrow> i = j"
proof -
  have "distinct base36_digits" "length base36_digits = 36" by (simp_all add: base36_digits_def)
  then show "i < 36 \<Longrightarrow> j < 36 \<Longrightarrow> base36_digits ! i = base36_digits ! j \<Longrightarrow> i = j"
    by (simp add: nth_eq_iff_index_eq)
qed

lemma base36_inject: "base36 m = base36 n \<Longrightarrow> m = n"
proof (induction m arbitrary: n rule: less_induct)
  case (less m)
  show ?case
  proof (cases "m = 0 \<or> n = 0")
    case True
    with less.prems show ?thesis
      by (subst (asm) (1 2) base36.simps) (auto split: if_splits)
  next
    case False
    then have "base36 (m div 36) @ [base36_digits ! (m mod 36)]
        = base36 (n div 36) @ [base36_digits ! (n mod 36)]"
      using less.prems base36.simps [of m] base36.simps [of n] by simp
    then have d: "base36 (m div 36) = base36 (n div 36)"
      and r: "base36_digits ! (m mod 36) = base36_digits ! (n mod 36)" by auto
    have "m div 36 = n div 36" using less.IH [OF _ d] False by simp
    moreover have "m mod 36 = n mod 36" using base36_digits_inject [OF _ _ r] by simp
    ultimately show ?thesis by (metis div_mult_mod_eq)
  qed
qed

lemma base36_one: "base36 v = ''0'' \<longleftrightarrow> False"
proof
  assume a: "base36 v = ''0''"
  have v: "v \<noteq> 0"
  proof
    assume "v = 0"
    then show False using a base36.simps [of 0] by simp
  qed
  then have "base36 (v div 36) = []" and d: "base36_digits ! (v mod 36) = CHR ''0''"
    using a base36.simps [of v] by (auto simp: append_eq_Cons_conv)
  then have "v div 36 = 0" by (metis base36.simps append_is_Nil_conv not_Cons_self2)
  moreover have "v mod 36 = 0"
    using base36_digits_inject [of "v mod 36" 0] d by (simp add: base36_digits_def)
  ultimately show False using v by (metis add.right_neutral div_mult_mod_eq mult_0)
qed simp

lemma seq_digits_inject: "seq_digits m = seq_digits n \<Longrightarrow> m = n"
  by (auto simp: seq_digits_def base36_one eq_commute [of "''0''"] dest: base36_inject
      split: if_splits)

lemma subref_nonempty [simp]: "subref n \<noteq> []"
  by (simp add: subref_def)

lemma seq_digits_nonempty: "seq_digits n \<noteq> []"
  by (subst seq_digits_def, subst base36.simps) simp

lemma subref_inject: "subref m = subref n \<longleftrightarrow> m = n"
proof
  assume a: "subref m = subref n"
  show "m = n"
  proof (cases "m = 0 \<or> n = 0")
    case True
    with a seq_digits_nonempty [of "m - 1"] seq_digits_nonempty [of "n - 1"] show ?thesis
      by (auto simp: subref_def neq_Nil_conv split: if_splits)
  next
    case False
    with a have "seq_digits (m - 1) = seq_digits (n - 1)" by (simp add: subref_def)
    then have "m - 1 = n - 1" by (rule seq_digits_inject)
    with False show ?thesis by linarith
  qed
qed simp

section \<open>The list of keys implements the interface\<close>

definition keys_ok :: "mangler \<Rightarrow> bool" where
  "keys_ok st \<longleftrightarrow> distinct (keys st)"

lemma index_of_Some: "index_of xs k i = Some j \<Longrightarrow> i \<le> j \<and> j < i + length xs \<and> xs ! (j - i) = k"
  by (induction xs k i rule: index_of.induct) (auto simp: nth_Cons' split: if_splits)

lemma index_of_None: "index_of xs k i = None \<longleftrightarrow> k \<notin> set xs"
  by (induction xs k i rule: index_of.induct) auto

lemma index_of_append: "index_of xs k i = Some j \<Longrightarrow> index_of (xs @ ys) k i = Some j"
  by (induction xs k i rule: index_of.induct) (auto split: if_splits)

lemma find_sub_None: "find_sub st k = [] \<longleftrightarrow> k \<notin> set (keys st)"
  using index_of_None [of "keys st" k 0] by (auto simp: find_sub_def split: option.splits)

lemma find_sub_Some:
  assumes "k \<in> set (keys st)"
  obtains i where "i < length (keys st)" "keys st ! i = k" "find_sub st k = subref i"
proof -
  obtain i where "index_of (keys st) k 0 = Some i"
    using assms index_of_None [of "keys st" k 0] by auto
  with index_of_Some [OF this] show ?thesis using that [of i] by (simp add: find_sub_def)
qed

definition find_ref :: "mangler \<Rightarrow> string \<Rightarrow> string option" where
  "find_ref st k = (if find_sub st k = [] then None else Some (find_sub st k))"

lemma find_ref_add_sub: "find_ref st k = Some r \<Longrightarrow> find_ref (add_sub k' st) k = Some r"
  by (auto simp: find_ref_def find_sub_def add_sub_def index_of_append split: option.splits if_splits)

lemma find_ref_inject:
  assumes "find_ref st k = Some r" and "find_ref st k' = Some r"
  shows "k = k'"
proof -
  have "k \<in> set (keys st)" "k' \<in> set (keys st)"
    using assms by (auto simp: find_ref_def find_sub_None split: if_splits)
  then obtain i j where "keys st ! i = k" "find_sub st k = subref i" "keys st ! j = k'"
    "find_sub st k' = subref j"
    using find_sub_Some by metis
  with assms show ?thesis by (auto simp: find_ref_def subref_inject split: if_splits)
qed

interpretation sub: reference_table keys_ok find_ref add_sub
proof
  show "keys_ok t \<Longrightarrow> keys_ok (add_sub k t)" for t k
    by (simp add: keys_ok_def add_sub_def)
  show "keys_ok t \<Longrightarrow> find_ref (add_sub k t) k \<noteq> None" for t k
    by (auto simp: find_ref_def find_sub_None add_sub_def)
qed (auto intro: find_ref_add_sub find_ref_inject)

section \<open>What the encoder does to the table\<close>

text \<open>Every table a piece of the encoder returns is the one it got, extended by \<open>add_sub\<close>.\<close>

definition grows :: "mangler \<Rightarrow> mangler \<Rightarrow> bool" where
  "grows st st' \<longleftrightarrow> (\<exists>ks. keys st' = keys (fold add_sub ks st)) \<and> (refused st \<longrightarrow> refused st')"

lemma keys_add_sub_cong: "keys st = keys st' \<Longrightarrow> keys (add_sub k st) = keys (add_sub k st')"
  by (simp add: add_sub_def)

lemma keys_fold_cong:
  "keys st = keys st' \<Longrightarrow> keys (fold add_sub ks st) = keys (fold add_sub ks st')"
proof (induction ks arbitrary: st st')
  case (Cons k ks)
  show ?case using Cons.IH [OF keys_add_sub_cong [OF Cons.prems], of k] by simp
qed simp

lemma grows_refl [simp]: "grows st st"
  unfolding grows_def by (rule conjI, rule exI [of _ "[]"]) simp_all

lemma grows_trans: "grows a b \<Longrightarrow> grows b c \<Longrightarrow> grows a c"
proof -
  assume ab: "grows a b" and bc: "grows b c"
  then obtain ks ks' where "keys b = keys (fold add_sub ks a)" "keys c = keys (fold add_sub ks' b)"
    unfolding grows_def by blast
  then have "keys c = keys (fold add_sub (ks @ ks') a)"
    using keys_fold_cong [of b "fold add_sub ks a" ks'] by simp
  with ab bc show ?thesis unfolding grows_def by blast
qed

lemma grows_add_sub [simp]: "grows st (add_sub k st)"
  unfolding grows_def by (rule conjI, rule exI [of _ "[k]"]) (simp_all add: add_sub_def)

lemma grows_refuse [simp]: "grows st (st\<lparr>refused := True\<rparr>)"
  unfolding grows_def by (rule conjI, rule exI [of _ "[]"]) simp_all

lemma grows_encode_plain: "encode_plain ncs acc st = (acc', st') \<Longrightarrow> grows st st'"
  by (auto simp: encode_plain_def Let_def split: if_splits)

lemma grows_template_prefix: "encode_template_prefix ncs acc st = (p, b, acc', st') \<Longrightarrow> grows st st'"
  by (auto simp: encode_template_prefix_def Let_def split: if_splits)

lemma grows_template_id: "encode_template_id ncs p b args acc st = (acc', st') \<Longrightarrow> grows st st'"
  by (auto simp: encode_template_id_def Let_def split: if_splits)

lemma grows_apply_decos: "apply_decos ds canon enc st = (e, st') \<Longrightarrow> grows st st'"
proof (induction ds canon enc st rule: apply_decos.induct)
  case (2 d ds canon enc st)
  then show ?case
    using grows_trans [OF grows_add_sub [of st "d @ canon"]] by (auto simp: Let_def split: if_splits)
qed simp

text \<open>\<open>encode_type\<close> before its decorations.\<close>

definition refuse_if :: "bool \<Rightarrow> mangler \<Rightarrow> mangler" where
  "refuse_if bad st = (if bad then st\<lparr>refused := True\<rparr> else st)"

definition encode_fn :: "type_node list \<Rightarrow> type_node list \<Rightarrow> mangler \<Rightarrow> string \<times> mangler" where
  "encode_fn ret ps st0 =
     (case (case ret of r # _ \<Rightarrow> encode_type r st0 | [] \<Rightarrow> ([], st0)) of
        (r_enc, st1) \<Rightarrow>
          (case (if ps = [] then (''v'', st1) else encode_types ps st1) of
             (ps_enc, st2) \<Rightarrow> (''F'' @ r_enc @ ps_enc @ ''E'', st2)))"

definition encode_core ::
    "string \<Rightarrow> bool \<Rightarrow> string \<Rightarrow> int \<Rightarrow> bool \<Rightarrow> type_node list \<Rightarrow> type_node list
      \<Rightarrow> name_component list \<Rightarrow> mangler \<Rightarrow> string \<times> mangler" where
  "encode_core canon isb b tp isf ret ps ch st0 =
     (if 0 \<le> tp \<or> isf then
        (if find_sub st0 canon \<noteq> [] then (find_sub st0 canon, st0)
         else if 0 \<le> tp then (tparam_ref (nat tp), add_sub canon st0)
         else (case encode_fn ret ps st0 of (e, st2) \<Rightarrow> (e, add_sub canon st2)))
      else if isb then (b, st0)
      else (case encode_chain [] ch name_acc_start st0 of (acc, st1) \<Rightarrow> (wrap_name True acc, st1)))"

lemma encode_type_core:
  "encode_type (TypeNode ds isb b tp isf ret ps ch bad) st =
     (let canon = canon_type (TypeNode [] isb b tp isf ret ps ch bad)
      in case encode_core canon isb b tp isf ret ps ch (refuse_if bad st) of
           (enc, st3) \<Rightarrow> apply_decos (rev ds) canon enc st3)"
  by (simp add: encode_core_def encode_fn_def refuse_if_def Let_def split: prod.split list.split
      del: canon_type.simps)

lemma grows_refuse_if [simp]: "grows st (refuse_if bad st)"
  by (simp add: refuse_if_def)

text \<open>Induction over a type node: its return type, parameters and template arguments.\<close>

lemma node_induct [case_names TypeNode]:
  assumes "\<And>ds isb b tp isf ret ps ch bad.
      (\<And>r. r \<in> set ret \<Longrightarrow> P r) \<Longrightarrow> (\<And>p. p \<in> set ps \<Longrightarrow> P p)
      \<Longrightarrow> (\<And>nc a. nc \<in> set ch \<Longrightarrow> a \<in> set (nc_targs nc) \<Longrightarrow> P a)
      \<Longrightarrow> P (TypeNode ds isb b tp isf ret ps ch bad)"
  shows "P t"
proof (induction "size t" arbitrary: t rule: less_induct)
  case less
  obtain ds isb b tp isf ret ps ch bad where t: "t = TypeNode ds isb b tp isf ret ps ch bad"
    by (cases t)
  have "size x < size t" if "x \<in> set ret \<union> set ps" for x
    using that by (auto simp: t dest!: size_list_estimation' [where f = size, OF _ order_refl])
  moreover have "size a < size t" if "nc \<in> set ch" "a \<in> set (nc_targs nc)" for nc a
  proof -
    have "size nc < size t"
      using that(1) by (auto simp: t dest!: size_list_estimation' [where f = size, OF _ order_refl])
    moreover have "size a < size nc"
      using that(2) by (cases nc) (auto dest!: size_list_estimation' [where f = size, OF _ order_refl])
    ultimately show ?thesis by simp
  qed
  ultimately show ?case unfolding t by (intro assms less) (auto simp: t)
qed

lemma chain_cases:
  assumes "encode_chain pre (nc # rest) acc st = (acc', st')"
  obtains acc1 st1 where
    "\<not> nc_is_template nc" "encode_plain (pre @ [nc]) acc st = (acc1, st1)"
    "encode_chain (pre @ [nc]) rest acc1 st1 = (acc', st')"
  | acc1 where
    "nc_is_template nc" "std_complete_abbrev (pre @ [nc]) \<noteq> []"
    "encode_chain (pre @ [nc]) rest acc1 st = (acc', st')"
  | p b acc1 st1 es st2 acc3 st3 where
    "nc_is_template nc" "std_complete_abbrev (pre @ [nc]) = []"
    "encode_template_prefix (pre @ [nc]) acc st = (p, b, acc1, st1)"
    "encode_types (nc_targs nc) st1 = (es, st2)"
    "encode_template_id (pre @ [nc]) p b es acc1 st2 = (acc3, st3)"
    "encode_chain (pre @ [nc]) rest acc3 st3 = (acc', st')"
  using assms by (cases nc) (auto simp: Let_def split: if_splits prod.splits)


definition grows_type :: "type_node \<Rightarrow> bool" where
  "grows_type t \<longleftrightarrow> (\<forall>st e st'. encode_type t st = (e, st') \<longrightarrow> grows st st')"

lemma grows_encode_types:
  "(\<And>t. t \<in> set ts \<Longrightarrow> grows_type t) \<Longrightarrow> encode_types ts st = (es, st') \<Longrightarrow> grows st st'"
proof (induction ts arbitrary: st es st')
  case (Cons t ts)
  obtain e st1 where e: "encode_type t st = (e, st1)" by (cases "encode_type t st")
  obtain es' st2 where es: "encode_types ts st1 = (es', st2)" by (cases "encode_types ts st1")
  have "grows st st1" using Cons.prems(1) [of t] e by (auto simp: grows_type_def)
  moreover have "grows st1 st2" using Cons.IH [OF _ es] Cons.prems by (auto simp: e es)
  ultimately show ?case using Cons.prems(2) by (auto simp: e es intro: grows_trans)
qed simp

lemma grows_encode_chain:
  "(\<And>nc a. nc \<in> set ch \<Longrightarrow> a \<in> set (nc_targs nc) \<Longrightarrow> grows_type a) \<Longrightarrow>
   encode_chain pre ch acc st = (acc', st') \<Longrightarrow> grows st st'"
proof (induction ch arbitrary: pre acc st)
  case (Cons nc ch)
  have ih: "grows s st'" if "encode_chain p ch a s = (acc', st')" for p a s
    using Cons.IH [OF _ that] Cons.prems(1) by auto
  from Cons.prems(2) show ?case
  proof (cases rule: chain_cases)
    case (1 acc1 st1)
    then show ?thesis using ih grows_encode_plain by (blast intro: grows_trans)
  next
    case (2 acc1)
    then show ?thesis using ih by blast
  next
    case (3 p b acc1 st1 es st2 acc3 st3)
    have "grows st1 st2" using grows_encode_types [OF _ 3(4)] Cons.prems(1) by auto
    from grows_trans [OF grows_template_prefix [OF 3(3)] this]
    have "grows st st3" by (rule grows_trans [OF _ grows_template_id [OF 3(5)]])
    then show ?thesis by (rule grows_trans [OF _ ih [OF 3(6)]])
  qed
qed simp

lemma grows_encode_fn:
  assumes "\<And>r. r \<in> set ret \<Longrightarrow> grows_type r" and "\<And>p. p \<in> set ps \<Longrightarrow> grows_type p"
    and "encode_fn ret ps st = (e, st')"
  shows "grows st st'"
proof -
  obtain r st1 where r: "(case ret of r # _ \<Rightarrow> encode_type r st | [] \<Rightarrow> ([], st)) = (r, st1)"
    by (cases "case ret of r # _ \<Rightarrow> encode_type r st | [] \<Rightarrow> ([], st)")
  have "grows st st1"
    using r assms(1) by (auto simp: grows_type_def split: list.splits)
  moreover have "grows st1 st'"
    using assms(3) grows_encode_types [OF assms(2)]
    by (auto simp: encode_fn_def r split: if_splits prod.splits)
  ultimately show ?thesis by (rule grows_trans)
qed

lemma grows_encode_core:
  assumes "\<And>r. r \<in> set ret \<Longrightarrow> grows_type r" and "\<And>p. p \<in> set ps \<Longrightarrow> grows_type p"
    and "\<And>nc a. nc \<in> set ch \<Longrightarrow> a \<in> set (nc_targs nc) \<Longrightarrow> grows_type a"
    and "encode_core canon isb b tp isf ret ps ch st = (e, st')"
  shows "grows st st'"
proof -
  have "grows s (add_sub canon s')" if "encode_fn ret ps s = (x, s')" for s x s'
    using grows_encode_fn [OF assms(1,2) that] by (blast intro: grows_trans grows_add_sub)
  moreover have "grows s s'" if "encode_chain [] ch a s = (x, s')" for a s x s'
    using that by (rule grows_encode_chain [rotated]) (rule assms(3))
  ultimately show ?thesis
    using assms(4) by (auto simp: encode_core_def split: if_splits prod.splits)
qed

lemma grows_encode_type: "grows_type t"
proof (induction t rule: node_induct)
  case (TypeNode ds isb b tp isf ret ps ch bad)
  show ?case unfolding grows_type_def
  proof (intro allI impI)
    fix st e st' assume a: "encode_type (TypeNode ds isb b tp isf ret ps ch bad) st = (e, st')"
    let ?c = "canon_type (TypeNode [] isb b tp isf ret ps ch bad)"
    obtain enc st3 where c: "encode_core ?c isb b tp isf ret ps ch (refuse_if bad st) = (enc, st3)"
      by (cases "encode_core ?c isb b tp isf ret ps ch (refuse_if bad st)")
    have "grows st3 st'"
      using a c grows_apply_decos
      by (simp add: encode_type_core Let_def del: canon_type.simps encode_type.simps)
    moreover have "grows (refuse_if bad st) st3" using grows_encode_core [OF TypeNode c] .
    ultimately show "grows st st'" by (blast intro: grows_trans grows_refuse_if)
  qed
qed

lemmas grows_type = grows_encode_type [unfolded grows_type_def, rule_format]
lemmas grows_types = grows_encode_types [OF grows_encode_type]
lemmas grows_chain = grows_encode_chain [OF grows_encode_type]

text \<open>Hence the interface's guarantees hold along a whole encoding.\<close>

lemma find_ref_keys: "keys st = keys st' \<Longrightarrow> find_ref st k = find_ref st' k"
  by (simp add: find_ref_def find_sub_def)

lemma grows_keys_ok: "grows st st' \<Longrightarrow> keys_ok st \<Longrightarrow> keys_ok st'"
  unfolding grows_def keys_ok_def using sub.valid_fold [unfolded keys_ok_def] by metis

lemma grows_subset: "grows st st' \<Longrightarrow> set (keys st) \<subseteq> set (keys st')"
proof -
  have "set (keys s) \<subseteq> set (keys (fold add_sub ks s))" for ks s
    by (induction ks arbitrary: s) (auto simp: add_sub_def subset_iff)
  then show "grows st st' \<Longrightarrow> ?thesis" unfolding grows_def by metis
qed

lemma grows_find_ref:
  assumes "grows st st'" and "keys_ok st" and "find_ref st k = Some r"
  shows "find_ref st' k' = Some r \<longleftrightarrow> k' = k"
proof -
  obtain ks where ks: "keys st' = keys (fold add_sub ks st)" using assms(1) by (auto simp: grows_def)
  have "find_ref (fold add_sub ks st) k' = Some r \<longleftrightarrow> k' = k"
    using sub.reference_means_one_key sub.lookup_fold_stable assms(2,3) by blast
  then show ?thesis using find_ref_keys [OF ks] by simp
qed

section \<open>A type met again\<close>

text \<open>
  \<open>adds_nothing f S\<close>: over any table that has at least the keys \<open>S\<close>, the step \<open>f\<close> adds no
  key.  Encoding a type leaves a table over which encoding it again adds nothing.
\<close>

definition adds_nothing :: "(mangler \<Rightarrow> 'a \<times> mangler) \<Rightarrow> string set \<Rightarrow> bool" where
  "adds_nothing f S \<longleftrightarrow> (\<forall>st. S \<subseteq> set (keys st) \<longrightarrow> keys (snd (f st)) = keys st)"

definition settles :: "type_node \<Rightarrow> bool" where
  "settles t \<longleftrightarrow> (\<forall>st. adds_nothing (encode_type t) (set (keys (snd (encode_type t st)))))"

lemma adds_nothing_mono: "adds_nothing f S \<Longrightarrow> S \<subseteq> S' \<Longrightarrow> adds_nothing f S'"
  by (auto simp: adds_nothing_def)

lemma key_added: "find_sub st k = [] \<Longrightarrow> k \<in> set (keys (add_sub k st))"
  by (simp add: add_sub_def)

lemma key_found: "k \<in> set (keys st) \<Longrightarrow> find_sub st k \<noteq> []"
  by (simp add: find_sub_None)

lemma settles_types:
  assumes "\<And>t. t \<in> set ts \<Longrightarrow> settles t" and "encode_types ts st = (es, st')"
  shows "adds_nothing (encode_types ts) (set (keys st'))"
  using assms
proof (induction ts arbitrary: st es st')
  case Nil
  then show ?case by (simp add: adds_nothing_def)
next
  case (Cons t ts)
  obtain e st1 where e: "encode_type t st = (e, st1)" by (cases "encode_type t st")
  obtain es' st2 where es: "encode_types ts st1 = (es', st2)" by (cases "encode_types ts st1")
  have st': "st' = st2" using Cons.prems(2) by (simp add: e es)
  have "adds_nothing (encode_type t) (set (keys st1))"
    using Cons.prems(1) [of t] e unfolding settles_def by (metis list.set_intros(1) snd_conv)
  then have "adds_nothing (encode_type t) (set (keys st'))"
    unfolding st' by (rule adds_nothing_mono) (rule grows_subset [OF grows_types [OF es]])
  moreover have "adds_nothing (encode_types ts) (set (keys st'))"
    unfolding st' by (rule Cons.IH [OF _ es]) (use Cons.prems(1) in auto)
  ultimately show ?case
    by (auto simp: adds_nothing_def split: prod.splits) (metis snd_conv)
qed

text \<open>The parts of the chain loop, over any accumulator.\<close>

lemma settles_plain:
  "encode_plain ncs acc st = (acc', st') \<Longrightarrow> set (keys st') \<subseteq> set (keys s) \<Longrightarrow>
     snd (encode_plain ncs acc1 s) = s"
  using key_added [of st "canon_name_prefix ncs"] key_found [of "canon_name_prefix ncs" s]
  by (auto simp: encode_plain_def Let_def find_sub_None split: if_splits)

lemma settles_template_prefix:
  "encode_template_prefix ncs acc st = (p, b, acc', st') \<Longrightarrow> set (keys st') \<subseteq> set (keys s) \<Longrightarrow>
     snd (snd (snd (encode_template_prefix ncs acc1 s))) = s"
  using key_added [of st "scoped_prefix_noargs ncs"] key_found [of "scoped_prefix_noargs ncs" s]
  by (auto simp: encode_template_prefix_def Let_def find_sub_None split: if_splits)

lemma settles_template_id:
  "encode_template_id ncs p b es acc st = (acc', st') \<Longrightarrow> set (keys st') \<subseteq> set (keys s) \<Longrightarrow>
     snd (encode_template_id ncs p1 b1 es1 acc1 s) = s"
  using key_added [of st "canon_name_prefix ncs"] key_found [of "canon_name_prefix ncs" s]
  by (auto simp: encode_template_id_def Let_def find_sub_None split: if_splits)

lemma settles_decos:
  "apply_decos ds canon enc st = (e, st') \<Longrightarrow> set (keys st') \<subseteq> set (keys s) \<Longrightarrow>
     snd (apply_decos ds canon enc1 s) = s \<and>
     (ds \<noteq> [] \<longrightarrow> concat (rev ds) @ canon \<in> set (keys st')
        \<and> fst (apply_decos ds canon enc1 s) = find_sub s (concat (rev ds) @ canon))"
proof (induction ds canon enc st arbitrary: enc1 rule: apply_decos.induct)
  case (2 d ds canon enc st)
  let ?k = "d @ canon"
  obtain enc2 st2 where r: "apply_decos ds ?k enc2 st2 = (e, st')" and k2: "?k \<in> set (keys st2)"
    using "2.prems"(1) key_added [of st ?k]
    by (auto simp: Let_def find_sub_None split: if_splits)
  have ih: "snd (apply_decos ds ?k x s) = s \<and>
     (ds \<noteq> [] \<longrightarrow> concat (rev ds) @ ?k \<in> set (keys st')
        \<and> fst (apply_decos ds ?k x s) = find_sub s (concat (rev ds) @ ?k))" for x
    using "2.IH" "2.prems" by (auto simp: Let_def split: if_splits)
  have "?k \<in> set (keys st')" using grows_subset [OF grows_apply_decos [OF r]] k2 by auto
  then have "find_sub s ?k \<noteq> []" using "2.prems"(2) key_found by blast
  then show ?case
    using ih \<open>?k \<in> set (keys st')\<close> by (cases "ds = []") (auto simp: Let_def)
qed simp

lemma settles_chain:
  assumes "\<And>nc a. nc \<in> set ch \<Longrightarrow> a \<in> set (nc_targs nc) \<Longrightarrow> settles a"
    and "encode_chain pre ch acc st = (acc', st')" and "set (keys st') \<subseteq> set (keys s)"
  shows "keys (snd (encode_chain pre ch acc1 s)) = keys s"
  using assms
proof (induction ch arbitrary: pre acc st acc1 s)
  case (Cons nc ch)
  let ?p = "pre @ [nc]"
  have ih: "keys (snd (encode_chain ?p ch a2 s2)) = keys s"
    if "encode_chain ?p ch a1 s1 = (acc', st')" "keys s2 = keys s" for a1 a2 s1 s2
  proof -
    have sub: "set (keys st') \<subseteq> set (keys s2)" using Cons.prems(3) that(2) by simp
    have "keys (snd (encode_chain ?p ch a2 s2)) = keys s2"
      by (rule Cons.IH [OF _ that(1) sub]) (use Cons.prems(1) in auto)
    then show ?thesis by (simp add: that(2))
  qed
  obtain i tm args where nc: "nc = NameComponent i tm args" by (cases nc)
  from Cons.prems(2) show ?case
  proof (cases rule: chain_cases)
    case (1 acc2 st1)
    have "set (keys st1) \<subseteq> set (keys s)"
      using grows_subset [OF grows_chain [OF 1(3)]] Cons.prems(3) by auto
    then have "snd (encode_plain ?p acc1 s) = s" by (rule settles_plain [OF 1(2)])
    then show ?thesis using 1(1) ih [OF 1(3)] by (auto simp: nc Let_def split: prod.splits)
  next
    case (2 acc2)
    then show ?thesis using ih [OF 2(3)] by (simp add: nc Let_def)
  next
    case (3 p b acc2 st1 es st2 acc3 st3)
    have sub3: "set (keys st3) \<subseteq> set (keys s)"
      using grows_subset [OF grows_chain [OF 3(6)]] Cons.prems(3) by auto
    then have sub2: "set (keys st2) \<subseteq> set (keys s)"
      using grows_subset [OF grows_template_id [OF 3(5)]] by auto
    then have sub1: "set (keys st1) \<subseteq> set (keys s)"
      using grows_subset [OF grows_types [OF 3(4)]] by auto
    obtain p' b' a1 where p': "encode_template_prefix ?p acc1 s = (p', b', a1, s)"
      using settles_template_prefix [OF 3(3) sub1] by (metis prod.collapse)
    obtain es' s2 where es': "encode_types (nc_targs nc) s = (es', s2)" by fastforce
    have "adds_nothing (encode_types (nc_targs nc)) (set (keys st2))"
      using settles_types [OF _ 3(4)] Cons.prems(1) by auto
    then have k2: "keys s2 = keys s" using sub2 es' unfolding adds_nothing_def by (metis snd_conv)
    have "snd (encode_template_id ?p p' b' es' a1 s2) = s2"
      by (rule settles_template_id [OF 3(5)]) (simp add: k2 sub3)
    then show ?thesis
      using 3(1,2) p' es' ih [OF 3(6) k2] by (auto simp: nc Let_def split: prod.splits)
  qed
qed simp

lemma settles_core:
  assumes "\<And>nc a. nc \<in> set ch \<Longrightarrow> a \<in> set (nc_targs nc) \<Longrightarrow> settles a"
    and "encode_core canon isb b tp isf ret ps ch st = (e, st')" and "set (keys st') \<subseteq> set (keys s)"
  shows "keys (snd (encode_core canon isb b tp isf ret ps ch s)) = keys s"
proof (cases "0 \<le> tp \<or> isf")
  case True
  with assms(2) have "canon \<in> set (keys st')"
    by (auto simp: encode_core_def find_sub_None add_sub_def split: if_splits prod.splits)
  then have "find_sub s canon \<noteq> []" using assms(3) key_found by blast
  with True show ?thesis by (simp add: encode_core_def)
next
  case False
  show ?thesis
  proof (cases isb)
    case True
    with False show ?thesis by (simp add: encode_core_def)
  next
    case nb: False
    obtain acc where "encode_chain [] ch name_acc_start st = (acc, st')"
      using assms(2) False nb by (auto simp: encode_core_def split: prod.splits)
    then have "keys (snd (encode_chain [] ch name_acc_start s)) = keys s"
      by (rule settles_chain [OF _ _ assms(3), rotated]) (rule assms(1))
    then show ?thesis
      using False nb by (auto simp: encode_core_def split: prod.splits)
  qed
qed

lemma keys_refuse_if [simp]: "keys (refuse_if bad st) = keys st"
  by (simp add: refuse_if_def)

lemma settles_type: "settles t"
proof (induction t rule: node_induct)
  case (TypeNode ds isb b tp isf ret ps ch bad)
  let ?t = "TypeNode ds isb b tp isf ret ps ch bad"
  let ?c = "canon_type (TypeNode [] isb b tp isf ret ps ch bad)"
  show ?case unfolding settles_def adds_nothing_def
  proof (intro allI impI)
    fix st s :: mangler
    assume sub: "set (keys (snd (encode_type ?t st))) \<subseteq> set (keys s)"
    obtain enc st3 where c: "encode_core ?c isb b tp isf ret ps ch (refuse_if bad st) = (enc, st3)"
      by fastforce
    obtain e st' where d: "apply_decos (rev ds) ?c enc st3 = (e, st')" by fastforce
    have sub': "set (keys st') \<subseteq> set (keys s)"
      using sub c d by (simp add: encode_type_core Let_def del: canon_type.simps encode_type.simps)
    then have sub3: "set (keys st3) \<subseteq> set (keys (refuse_if bad s))"
      using grows_subset [OF grows_apply_decos [OF d]] by auto
    obtain enc2 s3 where c2: "encode_core ?c isb b tp isf ret ps ch (refuse_if bad s) = (enc2, s3)"
      by fastforce
    have "keys (snd (encode_core ?c isb b tp isf ret ps ch (refuse_if bad s))) = keys (refuse_if bad s)"
      using c sub3 by (rule settles_core [rotated]) (rule TypeNode(3))
    then have k3: "keys s3 = keys s" by (simp only: c2 snd_conv keys_refuse_if)
    have "snd (apply_decos (rev ds) ?c enc2 s3) = s3"
      using settles_decos [OF d, of s3] sub' k3 by (simp del: canon_type.simps)
    then show "keys (snd (encode_type ?t s)) = keys s"
      by (simp add: encode_type_core Let_def c2 k3 del: canon_type.simps encode_type.simps)
  qed
qed

lemma find_sub_keys: "keys st = keys st' \<Longrightarrow> find_sub st k = find_sub st' k"
  by (simp add: find_sub_def)

lemma canon_type_decos:
  "canon_type (TypeNode ds isb b tp isf ret ps ch bad)
     = concat ds @ canon_type (TypeNode [] isb b tp isf ret ps ch bad)"
  by simp

lemma encode_type_again:
  assumes "tn_decos t \<noteq> [] \<or> 0 \<le> tn_tparam t \<or> tn_is_funcptr t"
    and "encode_type t st = (e, st1)" and "encode_type t st1 = (e2, st2)"
  shows "keys st2 = keys st1 \<and> canon_type t \<in> set (keys st1) \<and> e2 = find_sub st1 (canon_type t)"
proof -
  have k: "keys st2 = keys st1"
    using settles_type [of t] assms(2,3) unfolding settles_def adds_nothing_def
    by (metis order_refl snd_conv)
  obtain ds isb b tp isf ret ps ch bad where t: "t = TypeNode ds isb b tp isf ret ps ch bad"
    by (cases t)
  let ?c = "canon_type (TypeNode [] isb b tp isf ret ps ch bad)"
  note core = encode_type_core [of ds isb b tp isf ret ps ch bad, folded t, unfolded Let_def]
  obtain enc st3 where c: "encode_core ?c isb b tp isf ret ps ch (refuse_if bad st) = (enc, st3)"
    by fastforce
  have d: "apply_decos (rev ds) ?c enc st3 = (e, st1)" using core [of st] c assms(2) by simp
  obtain enc2 s3 where c2: "encode_core ?c isb b tp isf ret ps ch (refuse_if bad st1) = (enc2, s3)"
    by fastforce
  have d2: "apply_decos (rev ds) ?c enc2 s3 = (e2, st2)" using core [of st1] c2 assms(3) by simp
  have "set (keys (refuse_if bad st1)) \<subseteq> set (keys s3)" "set (keys s3) \<subseteq> set (keys st2)"
    using grows_subset [OF grows_apply_decos [OF d2]] grows_subset [OF grows_encode_core [OF _ _ _ c2]]
      grows_encode_type by auto
  then have k3: "set (keys s3) = set (keys st1)" using k by auto
  show ?thesis
  proof (cases "ds = []")
    case False
    with settles_decos [OF d, of s3 enc2] d2 k3 have "snd (apply_decos (rev ds) ?c enc2 s3) = s3"
      "concat ds @ ?c \<in> set (keys st1)" "e2 = find_sub s3 (concat ds @ ?c)" by auto
    then show ?thesis
      using d2 k find_sub_keys [of s3 st1] canon_type_decos [of ds] by (auto simp: t)
  next
    case True
    then have f: "0 \<le> tp \<or> isf" using assms(1) by (auto simp: t)
    have e: "enc = e" "st3 = st1" using d True by auto
    have in1: "?c \<in> set (keys st1)"
      using c f e by (auto simp: encode_core_def find_sub_None add_sub_def split: if_splits prod.splits)
    have "e2 = find_sub (refuse_if bad st1) ?c"
      using c2 d2 f True key_found [of ?c "refuse_if bad st1"] in1
      by (auto simp: encode_core_def split: if_splits)
    then show ?thesis using True k in1 find_sub_keys [of "refuse_if bad st1" st1 ?c] by (simp add: t)
  qed
qed

section \<open>Refused spellings\<close>

lemma encode_type_refuses:
  assumes "encode_type t st = (e, st')" and "tn_invalid t \<or> refused st"
  shows "refused st'"
proof -
  obtain ds isb b tp isf ret ps ch bad where t: "t = TypeNode ds isb b tp isf ret ps ch bad"
    by (cases t)
  let ?c = "canon_type (TypeNode [] isb b tp isf ret ps ch bad)"
  obtain enc st3 where c: "encode_core ?c isb b tp isf ret ps ch (refuse_if bad st) = (enc, st3)"
    by fastforce
  have d: "apply_decos (rev ds) ?c enc st3 = (e, st')"
    using encode_type_core [of ds isb b tp isf ret ps ch bad st] c assms(1) by (simp add: t Let_def)
  have "refused (refuse_if bad st)" using assms(2) by (auto simp: refuse_if_def t)
  moreover have "grows (refuse_if bad st) st'"
    using grows_encode_core [OF _ _ _ c] grows_encode_type grows_apply_decos [OF d]
    by (blast intro: grows_trans)
  ultimately show ?thesis by (simp add: grows_def)
qed

lemma encode_types_refuses:
  "encode_types ts st = (es, st') \<Longrightarrow> (\<exists>t \<in> set ts. tn_invalid t) \<or> refused st \<Longrightarrow> refused st'"
proof (induction ts arbitrary: st es)
  case (Cons t ts)
  obtain e st1 where e: "encode_type t st = (e, st1)" by fastforce
  obtain es' where es: "encode_types ts st1 = (es', st')"
    using Cons.prems(1) e by (auto split: prod.splits)
  have "(\<exists>t \<in> set ts. tn_invalid t) \<or> refused st1"
    using Cons.prems(2) encode_type_refuses [OF e] by auto
  then show ?case by (rule Cons.IH [OF es])
qed simp

lemma params_enc_refuses:
  assumes "params_enc m params st = Inr (ps, st')" and "p \<in> set params"
    and "parse_param_type m p = Inr t" and "tn_invalid t"
  shows "refused st'"
proof -
  obtain ts where ts: "traverse (parse_param_type m) params = Inr ts" "encode_types ts st = (ps, st')"
    using assms(1,2) by (auto simp: params_enc_def ebind_eq_Inr split: if_splits)
  obtain i where "i < length params" "params ! i = p" using assms(2) by (auto simp: in_set_conv_nth)
  moreover note traverse_InrD [OF ts(1)]
  ultimately have "ts ! i = t" "ts ! i \<in> set ts"
    using assms(3) by (auto simp: list_all2_conv_all_nth)
  then show ?thesis using encode_types_refuses [OF ts(2)] assms(4) by auto
qed

section \<open>Properties\<close>

text \<open>
  C3: a substitution reference keeps its meaning.  Whatever is encoded after a reference
  was handed out for the key \<open>k\<close>, in the table the encoding leaves that reference stands
  for \<open>k\<close> and for no other key.
\<close>

theorem encode_type_references_stable:
  assumes "encode_type t st = (e, st')" and "distinct (keys st)" and "k \<in> set (keys st)"
  shows "distinct (keys st') \<and> (find_sub st' k' = find_sub st k \<longleftrightarrow> k' = k)"
proof -
  have g: "grows st st'" using assms(1) by (rule grows_type)
  have ok: "keys_ok st" using assms(2) by (simp add: keys_ok_def)
  have "find_ref st k = Some (find_sub st k)" using assms(3) by (simp add: find_ref_def find_sub_None)
  from grows_find_ref [OF g ok this, of k'] show ?thesis
    using grows_keys_ok [OF g ok] assms(3) find_sub_None [of st k] find_sub_None [of st' k']
    by (auto simp: find_ref_def keys_ok_def split: if_splits)
qed

theorem encode_type_references_stable_witness:
  "find_sub (snd (encode_type (builtin_node [''P'', ''P''] ''c'') \<lparr>keys = [''P#c''], refused = False\<rparr>))
     ''PP#c'' \<noteq> find_sub \<lparr>keys = [''P#c''], refused = False\<rparr> ''P#c''"
  using encode_type_references_stable
    [of "builtin_node [''P'', ''P''] ''c''" "\<lparr>keys = [''P#c''], refused = False\<rparr>"
        "fst (encode_type (builtin_node [''P'', ''P''] ''c'') \<lparr>keys = [''P#c''], refused = False\<rparr>)"
        "snd (encode_type (builtin_node [''P'', ''P''] ''c'') \<lparr>keys = [''P#c''], refused = False\<rparr>)"
        "''P#c''" "''PP#c''"]
  by simp

text \<open>
  C2: the second occurrence of a compound type.  Once a pointer, reference, qualified type,
  template parameter or function type has been encoded, encoding it again writes exactly
  the reference to the table entry of its own canonical key and adds nothing to the table.
\<close>

theorem encode_type_second_occurrence:
  assumes "encode_type t st = (e, st1)" and "encode_type t st1 = (e2, st2)"
    and "tn_decos t \<noteq> [] \<or> 0 \<le> tn_tparam t \<or> tn_is_funcptr t"
  shows "keys st2 = keys st1 \<and> (\<exists>i < length (keys st1). keys st1 ! i = canon_type t \<and> e2 = subref i)"
  using encode_type_again [OF assms(3,1,2)] find_sub_Some by metis

theorem encode_type_second_occurrence_witness:
  "\<exists>i < 2. [''P#c'', ''PP#c''] ! i = canon_type (builtin_node [''P'', ''P''] ''c'') \<and> ''S0_'' = subref i"
proof -
  let ?t = "builtin_node [''P'', ''P''] ''c''"
  have e: "encode_type ?t mangler_reset = (''PPc'', \<lparr>keys = [''P#c'', ''PP#c''], refused = False\<rparr>)"
    "encode_type ?t \<lparr>keys = [''P#c'', ''PP#c''], refused = False\<rparr>
       = (''S0_'', \<lparr>keys = [''P#c'', ''PP#c''], refused = False\<rparr>)" by code_simp+
  from encode_type_second_occurrence [OF e] show ?thesis
    by (simp add: numeral_2_eq_2 del: canon_type.simps)
qed

text \<open>
  C7: no symbol is made from a spelling that is no type.  When a parameter of a function or
  of a member parses to a node the parser marked invalid, the entry points that return at
  all return the empty symbol.
\<close>

theorem mangle_refuses_invalid_parameter:
  assumes "p \<in> set params" and "parse_param_type m p = Inr t" and "tn_invalid t"
  shows "(itanium_mangle_nested_sub m quals fname params il = Inr s \<longrightarrow> s = [])
    \<and> (itanium_mangle_member_sub m cls fname params cv = Inr s \<longrightarrow> s = [])"
proof -
  have r: "refused (snd r)" if "params_enc m params st = Inr r" for st r
    using that params_enc_refuses [OF _ assms] by (cases r) simp
  then show ?thesis
    using assms(1)
    by (auto simp: itanium_mangle_nested_sub_def mangle_nested_function_def ebind_eq_Inr settled_def
        itanium_mangle_member_sub_def mangle_member_def Let_def case_prod_beta split: if_splits)
qed

theorem mangle_refuses_invalid_parameter_witness:
  "itanium_mangle_nested_sub LP64 [] ''f'' [''int'', ''a b''] False = Inr []"
proof -
  have p: "parse_param_type LP64 ''a b'' = Inr (named_node [] [NameComponent ''a b'' False []] True)"
    by code_simp
  have "\<not> isl (itanium_mangle_nested_sub LP64 [] ''f'' [''int'', ''a b''] False)" by code_simp
  then obtain s where s: "itanium_mangle_nested_sub LP64 [] ''f'' [''int'', ''a b''] False = Inr s"
    by (auto simp: isl_def split: sum.splits) (metis sum.exhaust)
  have "s = []"
    using mangle_refuses_invalid_parameter [OF _ p, of "[''int'', ''a b'']"] s by simp
  with s show ?thesis by simp
qed

end
