(* ===== verification/MangleState.thy ===== *)
theory MangleState
  imports MangleSubst
begin

text \<open>
  The process-wide state of \<^verbatim>\<open>src/madc_mangle.cpp\<close>: the stdlib flavour with its generation
  counter, the memo of \<open>itanium_encode_type_sub\<close>, the cached text carrier of
  \<open>DataDef::marshals_value_text\<close>, the scope guard that switches to the host's flavour, and
  the spellings and symbols derived from them.

  The three groups of globals and function-local statics form one record that extends
  \<open>std_flavor\<close>.  \<open>g_std_abi_gen\<close> and the two stamps are C++ \<open>unsigned\<close>s, so they are
  32-bit words and \<open>++\<close> wraps.
\<close>

section \<open>The flavour\<close>

record mangle_state = std_flavor +
  target_data_model :: data_model
  memo_gen :: "32 word"
  memo_model :: data_model
  memo :: "(string, string) map"
  carrier_gen :: "32 word"
  text_carrier :: string

definition mangle_init :: "data_model \<Rightarrow> mangle_state" where
  "mangle_init m =
     \<lparr>std_stdlib = MstdlibGnu, std_abi_ns = ''__cxx11'', std_abi_gen = 0,
      target_data_model = m, memo_gen = - 1, memo_model = m, memo = Map.empty,
      carrier_gen = - 1, text_carrier = []\<rparr>"

definition madc_mangle_set_stdlib_gnu ::
    "bool \<Rightarrow> 'a std_flavor_scheme \<Rightarrow> 'a std_flavor_scheme" where
  "madc_mangle_set_stdlib_gnu cxx11_abi g =
     (let ns = (if cxx11_abi then ''__cxx11'' else [])
      in if std_stdlib g = MstdlibGnu \<and> std_abi_ns g = ns then g
         else g\<lparr>std_stdlib := MstdlibGnu, std_abi_ns := ns, std_abi_gen := std_abi_gen g + 1\<rparr>)"

definition madc_mangle_set_stdlib_llvm ::
    "string \<Rightarrow> 'a std_flavor_scheme \<Rightarrow> 'a std_flavor_scheme" where
  "madc_mangle_set_stdlib_llvm abi_ns g =
     (if std_stdlib g = MstdlibLlvm \<and> std_abi_ns g = abi_ns then g
      else g\<lparr>std_stdlib := MstdlibLlvm, std_abi_ns := abi_ns, std_abi_gen := std_abi_gen g + 1\<rparr>)"

definition madc_mangle_active_stdlib :: "'a std_flavor_scheme \<Rightarrow> mangle_stdlib" where
  "madc_mangle_active_stdlib g = std_stdlib g"

text \<open>The host's flavour is a macro of the host build: the argument \<open>libcpp\<close>.\<close>

definition madc_mangle_host_stdlib :: "bool \<Rightarrow> mangle_stdlib" where
  "madc_mangle_host_stdlib libcpp = (if libcpp then MstdlibLlvm else MstdlibGnu)"

definition madc_mangle_flavor_differs :: "bool \<Rightarrow> 'a std_flavor_scheme \<Rightarrow> bool" where
  "madc_mangle_flavor_differs libcpp g \<longleftrightarrow> std_stdlib g \<noteq> madc_mangle_host_stdlib libcpp"

record host_flavor_scope =
  saved_stdlib :: mangle_stdlib
  saved_abi_ns :: string

definition host_flavor_scope_ctor ::
    "'a std_flavor_scheme \<Rightarrow> host_flavor_scope \<times> 'a std_flavor_scheme" where
  "host_flavor_scope_ctor g =
     (\<lparr>saved_stdlib = std_stdlib g, saved_abi_ns = std_abi_ns g\<rparr>, madc_mangle_set_stdlib_gnu True g)"

definition host_flavor_scope_dtor ::
    "host_flavor_scope \<Rightarrow> 'a std_flavor_scheme \<Rightarrow> 'a std_flavor_scheme" where
  "host_flavor_scope_dtor h g =
     (if saved_stdlib h = MstdlibLlvm then madc_mangle_set_stdlib_llvm (saved_abi_ns h) g
      else madc_mangle_set_stdlib_gnu (saved_abi_ns h = ''__cxx11'') g)"

section \<open>Spellings of std types\<close>

definition std_prefix_tagged :: "'a std_flavor_scheme \<Rightarrow> string" where
  "std_prefix_tagged g =
     (if std_abi_ns g = [] then ''std::'' else ''std::'' @ std_abi_ns g @ ''::'')"

definition std_prefix_untagged :: "'a std_flavor_scheme \<Rightarrow> string" where
  "std_prefix_untagged g = (if std_stdlib g = MstdlibLlvm then std_prefix_tagged g else ''std::'')"

definition std_string_type :: "'a std_flavor_scheme \<Rightarrow> string" where
  "std_string_type g =
     std_prefix_tagged g @ ''basic_string<char,'' @ std_prefix_untagged g @ ''char_traits<char>,''
     @ std_prefix_untagged g @ ''allocator<char>>''"

definition std_stringstream_type :: "'a std_flavor_scheme \<Rightarrow> string" where
  "std_stringstream_type g =
     std_prefix_tagged g @ ''basic_stringstream<char,'' @ std_prefix_untagged g
     @ ''char_traits<char>,'' @ std_prefix_untagged g @ ''allocator<char>>''"

definition std_vector_type :: "'a std_flavor_scheme \<Rightarrow> string \<Rightarrow> string" where
  "std_vector_type g elem =
     (let ns = std_prefix_untagged g
      in ns @ ''vector<'' @ elem @ '','' @ ns @ ''allocator<'' @ elem @ ''>>'')"

definition std_set_type :: "'a std_flavor_scheme \<Rightarrow> string \<Rightarrow> string" where
  "std_set_type g elem =
     (let ns = std_prefix_untagged g
      in ns @ ''set<'' @ elem @ '','' @ ns @ ''less<'' @ elem @ ''>,'' @ ns @ ''allocator<''
         @ elem @ ''>>'')"

definition std_map_type :: "'a std_flavor_scheme \<Rightarrow> string \<Rightarrow> string \<Rightarrow> string" where
  "std_map_type g key val =
     (let ns = std_prefix_untagged g
      in ns @ ''map<'' @ key @ '','' @ val @ '','' @ ns @ ''less<'' @ key @ ''>,''
         @ ns @ ''allocator<'' @ ns @ ''pair<const '' @ key @ '','' @ val @ ''>>>'')"

datatype data_type =
  DtVOID | DtBOOL | DtUINT8 | DtINT8 | DtUINT16 | DtINT16 | DtUINT24 | DtINT24
  | DtUINT32 | DtINT32 | DtUINT64 | DtINT64 | DtFLOAT | DtDOUBLE | DtLDOUBLE | DtSIMD
  | DtINT128 | DtUINT128 | DtRESERVED | DtMUTEX | DtTHREAD | DtTHISTHREAD | DtARRAY

definition target_scalar_spelling :: "data_model \<Rightarrow> data_type \<Rightarrow> string" where
  "target_scalar_spelling m rawtype =
     (case rawtype of
        DtBOOL \<Rightarrow> ''bool''
      | DtUINT8 \<Rightarrow> ''unsigned char''
      | DtINT16 \<Rightarrow> ''short''
      | DtUINT16 \<Rightarrow> ''unsigned short''
      | DtINT32 \<Rightarrow> ''int''
      | DtUINT32 \<Rightarrow> ''unsigned int''
      | DtINT64 \<Rightarrow> (if m = LLP64 then ''long long'' else ''long'')
      | DtUINT64 \<Rightarrow> (if m = LLP64 then ''unsigned long long'' else ''unsigned long'')
      | DtFLOAT \<Rightarrow> ''float''
      | DtDOUBLE \<Rightarrow> ''double''
      | DtLDOUBLE \<Rightarrow> ''long double''
      | _ \<Rightarrow> [])"

text \<open>
  The guard of \<open>mangle_scalar_spelling\<close>: \<open>exact\<close> says that the object is an exact \<open>DataDef\<close>,
  \<open>simple\<close> that its base type is \<open>btSimple\<close>.
\<close>

definition mangle_scalar_spelling :: "data_model \<Rightarrow> bool \<Rightarrow> bool \<Rightarrow> data_type \<Rightarrow> string" where
  "mangle_scalar_spelling m exact simple rawtype =
     (if \<not> exact then [] else if \<not> simple then [] else target_scalar_spelling m rawtype)"

text \<open>\<open>canonical_cpp_spelling().empty() ? name : canonical_cpp_spelling()\<close>\<close>

definition datadef_spelling :: "string \<Rightarrow> string \<Rightarrow> string" where
  "datadef_spelling canonical dname = (if canonical = [] then dname else canonical)"

definition is_std_initializer_list :: "'a std_flavor_scheme \<Rightarrow> string \<Rightarrow> string \<Rightarrow> bool" where
  "is_std_initializer_list g canonical dname =
     (let spelling = datadef_spelling canonical dname
      in if spelling = [] then False
         else if has_prefix ''std::initializer_list<'' spelling then True
         else has_prefix (std_prefix_tagged g @ ''initializer_list<'') spelling)"

section \<open>The memo and the carrier cache\<close>

text \<open>The head of \<open>itanium_encode_type_sub\<close>: a stale memo is emptied and stamped.\<close>

definition memo_refresh :: "mangle_state \<Rightarrow> mangle_state" where
  "memo_refresh s =
     (if memo_gen s \<noteq> std_abi_gen s \<or> memo_model s \<noteq> target_data_model s
      then s\<lparr>memo := Map.empty, memo_gen := std_abi_gen s, memo_model := target_data_model s\<rparr>
      else s)"

definition itanium_encode_type_sub :: "string \<Rightarrow> mangle_state \<Rightarrow> string cxx \<times> mangle_state" where
  "itanium_encode_type_sub cpp_type s0 =
     (let s = memo_refresh s0
      in case memo s cpp_type of
           Some hit \<Rightarrow> (Inr hit, s)
         | None \<Rightarrow>
             (case encode_type_text (target_data_model s) cpp_type of
                Inl e \<Rightarrow> (Inl e, s)
              | Inr e \<Rightarrow> (Inr e, s\<lparr>memo := (memo s)(cpp_type \<mapsto> e)\<rparr>)))"

definition refresh_carrier :: "mangle_state \<Rightarrow> unit cxx \<times> mangle_state" where
  "refresh_carrier s =
     (if carrier_gen s \<noteq> std_abi_gen s
      then (case itanium_encode_type_sub (std_string_type s) s of
              (Inl e, s1) \<Rightarrow> (Inl e, s1)
            | (Inr t, s1) \<Rightarrow> (Inr (), s1\<lparr>text_carrier := t, carrier_gen := std_abi_gen s1\<rparr>))
      else (Inr (), s))"

definition marshals_value_text ::
    "string \<Rightarrow> string \<Rightarrow> mangle_state \<Rightarrow> bool cxx \<times> mangle_state" where
  "marshals_value_text canonical dname s =
     (let spelling = datadef_spelling canonical dname
      in if spelling = [] then (Inr False, s)
         else (case refresh_carrier s of
                 (Inl e, s1) \<Rightarrow> (Inl e, s1)
               | (Inr _, s1) \<Rightarrow>
                   (case itanium_encode_type_sub spelling s1 of
                      (Inl e, s2) \<Rightarrow> (Inl e, s2)
                    | (Inr t, s2) \<Rightarrow> (Inr (t = text_carrier s2), s2))))"

section \<open>Run-time type information symbols\<close>

definition prefixed_encoding ::
    "string \<Rightarrow> string \<Rightarrow> mangle_state \<Rightarrow> string cxx \<times> mangle_state" where
  "prefixed_encoding pre cpp_spelling s =
     (case itanium_encode_type_sub cpp_spelling s of
        (r, s1) \<Rightarrow> (ebind r (\<lambda>e. Inr (pre @ e)), s1))"

definition itanium_vtable_sym_cpp :: "string \<Rightarrow> mangle_state \<Rightarrow> string cxx \<times> mangle_state" where
  "itanium_vtable_sym_cpp = prefixed_encoding ''_ZTV''"

definition itanium_typeinfo_sym_cpp :: "string \<Rightarrow> mangle_state \<Rightarrow> string cxx \<times> mangle_state" where
  "itanium_typeinfo_sym_cpp = prefixed_encoding ''_ZTI''"

definition itanium_typeinfo_name_sym_cpp ::
    "string \<Rightarrow> mangle_state \<Rightarrow> string cxx \<times> mangle_state" where
  "itanium_typeinfo_name_sym_cpp = prefixed_encoding ''_ZTS''"

definition itanium_typeinfo_name_string_cpp ::
    "string \<Rightarrow> mangle_state \<Rightarrow> string cxx \<times> mangle_state" where
  "itanium_typeinfo_name_string_cpp = itanium_encode_type_sub"

definition itanium_typeinfo_name_sym :: "string \<Rightarrow> string" where
  "itanium_typeinfo_name_sym class_name = ''_ZTS'' @ source_name class_name"

definition itanium_typeinfo_name_string :: "string \<Rightarrow> string" where
  "itanium_typeinfo_name_string class_name = source_name class_name"

section \<open>Template parameters in a spelling\<close>

fun tparam_index :: "string list \<Rightarrow> string \<Rightarrow> nat \<Rightarrow> nat option" where
  "tparam_index [] word k = None"
| "tparam_index (t # ts) word k = (if t = word then Some k else tparam_index ts word (Suc k))"

definition tparam_word :: "string list \<Rightarrow> string \<Rightarrow> string" where
  "tparam_word tparams word =
     (case tparam_index tparams word 0 of Some k \<Rightarrow> ''$T'' @ to_string k | None \<Rightarrow> word)"

function itanium_substitute_tparams :: "string \<Rightarrow> string list \<Rightarrow> string" where
  "itanium_substitute_tparams [] tparams = []"
| "itanium_substitute_tparams (c # cs) tparams =
     (if isalpha c \<or> c = CHR ''_'' then
        tparam_word tparams (c # takeWhile (\<lambda>d. isalnum d \<or> d = CHR ''_'') cs)
        @ itanium_substitute_tparams (dropWhile (\<lambda>d. isalnum d \<or> d = CHR ''_'') cs) tparams
      else c # itanium_substitute_tparams cs tparams)"
  by pat_completeness auto
termination
  by (relation "measure (\<lambda>(s, t). length s)") (auto simp: less_Suc_eq_le length_dropWhile_le)

section \<open>Reachable states\<close>

text \<open>
  The states after \<open>n\<close> calls: the two setters, a change of the target's data model, and the
  two functions that read and fill the caches.  The scope guard is made of setters.
\<close>

inductive reach :: "nat \<Rightarrow> mangle_state \<Rightarrow> bool" where
  init: "reach 0 (mangle_init m)"
| gnu: "reach n s \<Longrightarrow> reach (Suc n) (madc_mangle_set_stdlib_gnu b s)"
| llvm: "reach n s \<Longrightarrow> reach (Suc n) (madc_mangle_set_stdlib_llvm ns s)"
| model: "reach n s \<Longrightarrow> reach (Suc n) (s\<lparr>target_data_model := m\<rparr>)"
| encode: "reach n s \<Longrightarrow> reach (Suc n) (snd (itanium_encode_type_sub t s))"
| marshals: "reach n s \<Longrightarrow> reach (Suc n) (snd (marshals_value_text c d s))"

definition memo_valid :: "mangle_state \<Rightarrow> bool" where
  "memo_valid s \<longleftrightarrow> (\<forall>k v. memo s k = Some v \<longrightarrow> encode_type_text (memo_model s) k = Inr v)"

definition flavor_ok :: "'a std_flavor_scheme \<Rightarrow> bool" where
  "flavor_ok g \<longleftrightarrow> std_stdlib g = MstdlibLlvm \<or> std_abi_ns g \<in> {''__cxx11'', []}"

lemmas setter_defs = madc_mangle_set_stdlib_gnu_def madc_mangle_set_stdlib_llvm_def Let_def

lemma memo_refresh_simps [simp]:
  "std_stdlib (memo_refresh s) = std_stdlib s" "std_abi_ns (memo_refresh s) = std_abi_ns s"
  "std_abi_gen (memo_refresh s) = std_abi_gen s" "carrier_gen (memo_refresh s) = carrier_gen s"
  "text_carrier (memo_refresh s) = text_carrier s"
  "target_data_model (memo_refresh s) = target_data_model s"
  "memo_model (memo_refresh s) = target_data_model s"
  by (simp_all add: memo_refresh_def)

lemma memo_valid_refresh: "memo_valid s \<Longrightarrow> memo_valid (memo_refresh s)"
  by (auto simp: memo_valid_def memo_refresh_def)

lemma encode_type_sub_result:
  assumes "memo_valid s"
  shows "fst (itanium_encode_type_sub t s) = encode_type_text (target_data_model s) t"
  using memo_valid_refresh [OF assms]
  by (auto simp: itanium_encode_type_sub_def Let_def memo_valid_def split: option.split sum.split)

text \<open>What the readers of the state leave alone: flavour, generation, data model, a valid memo.\<close>

definition reads_only :: "mangle_state \<Rightarrow> mangle_state \<Rightarrow> bool" where
  "reads_only s s' \<longleftrightarrow>
     std_stdlib s' = std_stdlib s \<and> std_abi_ns s' = std_abi_ns s \<and> std_abi_gen s' = std_abi_gen s
     \<and> target_data_model s' = target_data_model s \<and> (memo_valid s \<longrightarrow> memo_valid s')"

lemma reads_only_trans: "reads_only a b \<Longrightarrow> reads_only b c \<Longrightarrow> reads_only a c"
  by (simp add: reads_only_def)

lemma encode_type_sub_reads:
  assumes "itanium_encode_type_sub t s = (r, s')"
  shows "reads_only s s' \<and> carrier_gen s' = carrier_gen s \<and> text_carrier s' = text_carrier s"
proof (cases "memo (memo_refresh s) t")
  case (Some hit)
  with assms memo_valid_refresh [of s] show ?thesis
    by (auto simp: itanium_encode_type_sub_def reads_only_def)
next
  case None
  show ?thesis
  proof (cases "encode_type_text (target_data_model s) t")
    case (Inl e)
    with None assms memo_valid_refresh [of s] show ?thesis
      by (auto simp: itanium_encode_type_sub_def reads_only_def)
  next
    case (Inr v)
    with None assms have s': "s' = (memo_refresh s)\<lparr>memo := (memo (memo_refresh s))(t \<mapsto> v)\<rparr>"
      by (simp add: itanium_encode_type_sub_def Let_def)
    have "memo_valid s \<Longrightarrow> memo_valid s'"
      using memo_valid_refresh [of s] Inr by (simp add: s' memo_valid_def)
    then show ?thesis by (simp add: s' reads_only_def)
  qed
qed

lemma refresh_carrier_reads:
  assumes "refresh_carrier s = (r, s')"
  shows "reads_only s s'"
proof (cases "carrier_gen s = std_abi_gen s")
  case True
  with assms show ?thesis by (simp add: refresh_carrier_def reads_only_def)
next
  case False
  obtain r1 s1 where e: "itanium_encode_type_sub (std_string_type s) s = (r1, s1)" by fastforce
  have "reads_only s s1" using encode_type_sub_reads [OF e] by simp
  moreover have "reads_only s1 s'"
    using assms False
    by (cases r1) (auto simp: refresh_carrier_def e reads_only_def memo_valid_def)
  ultimately show ?thesis by (rule reads_only_trans)
qed

lemma marshals_reads:
  assumes "marshals_value_text c d s = (r, s')"
  shows "reads_only s s' \<and> (s' = s \<or> (carrier_gen s' = carrier_gen (snd (refresh_carrier s))
    \<and> text_carrier s' = text_carrier (snd (refresh_carrier s))))"
proof (cases "datadef_spelling c d = []")
  case True
  with assms show ?thesis by (simp add: marshals_value_text_def reads_only_def)
next
  case False
  obtain r1 s1 where c: "refresh_carrier s = (r1, s1)" by fastforce
  obtain r2 s2 where e: "itanium_encode_type_sub (datadef_spelling c d) s1 = (r2, s2)" by fastforce
  have "s' = s1 \<or> s' = s2"
    using assms False by (auto simp: marshals_value_text_def c e split: sum.splits)
  then show ?thesis
    using refresh_carrier_reads [OF c] encode_type_sub_reads [OF e]
    by (auto simp: c intro: reads_only_trans)
qed

lemma reach_memo_valid: "reach n s \<Longrightarrow> memo_valid s"
proof (induction rule: reach.induct)
  case (encode n s t)
  then show ?case
    using encode_type_sub_reads [OF prod.collapse [symmetric]] by (simp add: reads_only_def)
next
  case (marshals n s c d)
  then show ?case using marshals_reads [OF prod.collapse [symmetric]] by (simp add: reads_only_def)
qed (auto simp: memo_valid_def mangle_init_def setter_defs)

lemma reach_flavor_ok: "reach n s \<Longrightarrow> flavor_ok s"
proof (induction rule: reach.induct)
  case (encode n s t)
  then show ?case
    using encode_type_sub_reads [OF prod.collapse [symmetric]]
    by (simp add: reads_only_def flavor_ok_def)
next
  case (marshals n s c d)
  then show ?case
    using marshals_reads [OF prod.collapse [symmetric]] by (simp add: reads_only_def flavor_ok_def)
qed (auto simp: flavor_ok_def mangle_init_def setter_defs)

text \<open>
  The carrier cache.  \<open>stamped j s\<close>: the flavour has changed \<open>j\<close> times; unless the cache was
  never filled, its stamp is the count \<open>i\<close> at which it was filled, and if the flavour did
  not change since, it holds the encoding of the flavour's string type.
\<close>

definition stamped :: "nat \<Rightarrow> mangle_state \<Rightarrow> bool" where
  "stamped j s \<longleftrightarrow> std_abi_gen s = of_nat j \<and>
     (carrier_gen s = - 1 \<or>
      (\<exists>i \<le> j. carrier_gen s = of_nat i \<and>
         (i = j \<longrightarrow> (\<exists>m. encode_type_text m (std_string_type s) = Inr (text_carrier s)))))"

lemma std_string_type_cong:
  "std_stdlib s' = std_stdlib s \<Longrightarrow> std_abi_ns s' = std_abi_ns s \<Longrightarrow> std_string_type s' = std_string_type s"
  by (simp add: std_string_type_def std_prefix_tagged_def std_prefix_untagged_def)

lemma stamped_cong:
  "stamped j s \<Longrightarrow> std_stdlib s' = std_stdlib s \<Longrightarrow> std_abi_ns s' = std_abi_ns s \<Longrightarrow>
     std_abi_gen s' = std_abi_gen s \<Longrightarrow> carrier_gen s' = carrier_gen s \<Longrightarrow>
     text_carrier s' = text_carrier s \<Longrightarrow> stamped j s'"
  using std_string_type_cong [of s' s] by (simp add: stamped_def)

lemma stamped_reads:
  "stamped j s \<Longrightarrow> reads_only s s' \<Longrightarrow> carrier_gen s' = carrier_gen s \<Longrightarrow>
     text_carrier s' = text_carrier s \<Longrightarrow> stamped j s'"
  by (rule stamped_cong) (simp_all add: reads_only_def)

lemma setter_bumps:
  "madc_mangle_set_stdlib_gnu b s = s
   \<or> std_abi_gen (madc_mangle_set_stdlib_gnu b s) = std_abi_gen s + 1"
  "madc_mangle_set_stdlib_llvm ns s = s
   \<or> std_abi_gen (madc_mangle_set_stdlib_llvm ns s) = std_abi_gen s + 1"
  by (simp_all add: setter_defs)

lemma setter_carrier [simp]:
  "carrier_gen (madc_mangle_set_stdlib_gnu b s) = carrier_gen s"
  "carrier_gen (madc_mangle_set_stdlib_llvm ns s) = carrier_gen s"
  by (simp_all add: setter_defs)

lemma stamped_bump:
  assumes "stamped j s" and "std_abi_gen s' = std_abi_gen s + 1" and "carrier_gen s' = carrier_gen s"
  shows "stamped (Suc j) s'"
  using assms unfolding stamped_def by (metis Suc_n_not_le_n add.commute le_SucI of_nat_Suc)

lemma stamped_refresh_carrier:
  assumes "stamped j s" and "memo_valid s" and "refresh_carrier s = (r, s')"
  shows "stamped j s'"
proof (cases "carrier_gen s = std_abi_gen s")
  case True
  with assms show ?thesis by (simp add: refresh_carrier_def)
next
  case False
  obtain r1 s1 where e: "itanium_encode_type_sub (std_string_type s) s = (r1, s1)" by fastforce
  note rd = encode_type_sub_reads [OF e]
  have s1: "stamped j s1" using assms(1) rd by (blast intro: stamped_reads)
  show ?thesis
  proof (cases r1)
    case (Inl x)
    with assms(3) False e s1 show ?thesis by (simp add: refresh_carrier_def)
  next
    case (Inr v)
    then have s': "s' = s1\<lparr>text_carrier := v, carrier_gen := std_abi_gen s1\<rparr>"
      using assms(3) False e by (simp add: refresh_carrier_def)
    have "encode_type_text (target_data_model s) (std_string_type s) = Inr v"
      using encode_type_sub_result [OF assms(2), of "std_string_type s"] e Inr by simp
    moreover have "std_string_type s' = std_string_type s"
      using rd by (intro std_string_type_cong) (simp_all add: s' reads_only_def)
    ultimately have "\<exists>m. encode_type_text m (std_string_type s') = Inr (text_carrier s')"
      by (auto simp: s')
    then show ?thesis using s1 by (auto simp: stamped_def s')
  qed
qed

lemma reach_stamped: "reach n s \<Longrightarrow> \<exists>j \<le> n. stamped j s"
proof (induction rule: reach.induct)
  case (init m)
  show ?case by (simp add: stamped_def mangle_init_def)
next
  case (gnu n s b)
  then obtain j where j: "j \<le> n" "stamped j s" by blast
  from setter_bumps(1) [of b s] show ?case
    using j stamped_bump [OF j(2)] by (metis Suc_le_mono le_SucI setter_carrier(1))
next
  case (llvm n s ns)
  then obtain j where j: "j \<le> n" "stamped j s" by blast
  from setter_bumps(2) [of ns s] show ?case
    using j stamped_bump [OF j(2)] by (metis Suc_le_mono le_SucI setter_carrier(2))
next
  case (model n s m)
  then obtain j where "j \<le> n" "stamped j s" by blast
  moreover from this(2) have "stamped j (s\<lparr>target_data_model := m\<rparr>)" by (rule stamped_cong) simp_all
  ultimately show ?case by (auto intro: le_SucI)
next
  case (encode n s t)
  then obtain j where j: "j \<le> n" "stamped j s" by blast
  then have "stamped j (snd (itanium_encode_type_sub t s))"
    using encode_type_sub_reads [of t s, OF prod.collapse [symmetric]] by (blast intro: stamped_reads)
  with j show ?case by (auto intro: le_SucI)
next
  case (marshals n s c d)
  then obtain j where j: "j \<le> n" "stamped j s" by blast
  let ?s1 = "snd (refresh_carrier s)" and ?s2 = "snd (marshals_value_text c d s)"
  have s1: "stamped j ?s1"
    using stamped_refresh_carrier [OF j(2) reach_memo_valid [OF marshals.hyps] prod.collapse [symmetric]] .
  have "?s2 = s \<or> stamped j ?s2"
    using s1 refresh_carrier_reads [of s, OF prod.collapse [symmetric]]
      marshals_reads [of c d s, OF prod.collapse [symmetric]]
    by (auto simp: reads_only_def intro!: stamped_cong [OF s1])
  then have "stamped j ?s2" using j(2) by auto
  with j show ?case by (auto intro: le_SucI)
qed

lemma of_nat_stamp:
  assumes "i \<le> j" and "j < 2 ^ 32 - 1"
  shows "(of_nat i = (of_nat j :: 32 word)) = (i = j)" and "(of_nat j :: 32 word) \<noteq> - 1"
proof -
  have u: "unat (of_nat k :: 32 word) = k" if "k \<le> j" for k
    using that assms(2) by (simp add: unat_of_nat)
  show "(of_nat i = (of_nat j :: 32 word)) = (i = j)"
    using u [OF assms(1)] u [OF order_refl] by metis
  have "unat (- 1 :: 32 word) = 2 ^ 32 - 1" by (simp add: unsigned_minus_1_eq_mask mask_eq_exp_minus_1)
  then have "unat (of_nat j :: 32 word) \<noteq> unat (- 1 :: 32 word)"
    using u [OF order_refl] assms(2) by linarith
  then show "(of_nat j :: 32 word) \<noteq> - 1" by metis
qed

lemma reach_carrier_current:
  assumes "reach n s" and "n < 2 ^ 32 - 1" and "carrier_gen s = std_abi_gen s"
  shows "\<exists>m. encode_type_text m (std_string_type s) = Inr (text_carrier s)"
proof -
  obtain j where j: "j \<le> n" "stamped j s" using reach_stamped [OF assms(1)] by blast
  then have b: "j < 2 ^ 32 - 1" using assms(2) by simp
  have "std_abi_gen s = of_nat j" using j(2) by (simp add: stamped_def)
  then obtain i where "i \<le> j" "(of_nat i :: 32 word) = of_nat j"
    "i = j \<longrightarrow> (\<exists>m. encode_type_text m (std_string_type s) = Inr (text_carrier s))"
    using j(2) assms(3) of_nat_stamp(2) [OF order_refl b] by (auto simp: stamped_def)
  then show ?thesis using of_nat_stamp(1) [OF _ b, of i] by blast
qed

section \<open>Substituted parameters parse as parameters\<close>

lemma tparam_index_nth:
  "distinct ts \<Longrightarrow> j < length ts \<Longrightarrow> tparam_index ts (ts ! j) k = Some (k + j)"
proof (induction ts arbitrary: j k)
  case (Cons t ts)
  then show ?case by (cases j) auto
qed simp

lemma substitute_word:
  assumes "w \<noteq> []" "isalpha (hd w) \<or> hd w = CHR ''_''" "\<forall>c \<in> set w. isalnum c \<or> c = CHR ''_''"
    and "r = [] \<or> \<not> (isalnum (hd r) \<or> hd r = CHR ''_'')"
  shows "itanium_substitute_tparams (w @ r) ts = tparam_word ts w @ itanium_substitute_tparams r ts"
proof -
  obtain c cs where w: "w = c # cs" using assms(1) by (cases w) auto
  let ?P = "\<lambda>d. isalnum d \<or> d = CHR ''_''"
  have r: "takeWhile ?P r = []" "dropWhile ?P r = r" using assms(4) by (cases r; auto)+
  have "takeWhile ?P (cs @ r) = cs" "dropWhile ?P (cs @ r) = r"
    using assms(3) r by (auto simp: w takeWhile_append2 dropWhile_append2)
  then show ?thesis using assms(2) by (simp add: w)
qed

lemma last_to_string_digit: "isdigit (last (to_string k))"
  using to_string_digits [of k] to_string_nonempty [of k] last_in_set by blast

lemma digit_not: "isdigit c \<Longrightarrow> \<not> isspace c \<and> c \<noteq> CHR ''-'' \<and> c \<noteq> CHR ''+'' \<and> c \<noteq> CHR ''*''
    \<and> c \<noteq> CHR ''&'' \<and> c \<noteq> CHR ''t'' \<and> c \<noteq> CHR ''e'' \<and> c \<noteq> CHR '']'' \<and> c \<noteq> CHR ''('' \<and> c \<noteq> CHR '' ''
    \<and> c \<noteq> CHR 0x09"
  by (auto simp: isdigit_def isspace_def)

lemma stoi_to_string:
  assumes "k < 2 ^ 31"
  shows "stoi (to_string k) = Inr (int k)"
proof -
  obtain c cs where s: "to_string k = c # cs" using to_string_nonempty [of k] by (cases "to_string k") auto
  have c: "isdigit c" using to_string_digits [of k] by (simp add: s)
  have d: "takeWhile isdigit (to_string k) = to_string k"
    using to_string_digits [of k] by (auto simp: takeWhile_eq_all_conv)
  have "dropWhile isspace (to_string k) = to_string k" using digit_not [OF c] by (simp add: s)
  then show ?thesis
    using digit_not [OF c] d digits_val_to_string [of k] assms by (simp add: stoi_def Let_def s)
qed

lemma parse_type_tparam_word:
  assumes "k < 2 ^ 31"
  shows "parse_type m (''$T'' @ to_string k) = Inr (tparam_node [] (int k))"
proof -
  let ?s = "''$T'' @ to_string k"
  note d = digit_not [OF last_to_string_digit [of k]]
  have ne: "to_string k \<noteq> []" by (rule to_string_nonempty)
  then have last: "last ?s = last (to_string k)" "?s \<noteq> []" by simp_all
  have ms: "mstrip ?s = ?s"
    unfolding mstrip_def trim_with_strip using d last by (intro strip_id) (simp add: blank_tab_def)
  have nosuf: "\<not> has_suffix p ?s" if "p \<noteq> []" "last p \<in> {CHR ''&'', CHR ''t'', CHR ''e''}" for p
    using has_suffix_last [of p ?s] that d last by auto
  have peel: "peel_decos ?s False False [] = (?s, False, False, [])"
    using nosuf [of "''&&''"] nosuf [of "'' const''"] nosuf [of "'' volatile''"] d last ms
    by (subst peel_decos.simps) (simp add: Let_def del: append_Cons)
  have lead: "leading_words ?s False False = (?s, False, False)"
    by (subst leading_words.simps) (simp add: has_prefix_def)
  have len: "3 \<le> length ?s" using ne by (cases "to_string k") auto
  have core: "parse_core m rec [] ?s = Inr (tparam_node [] (int k))" for rec
    using len stoi_to_string [OF assms] by (simp add: parse_core_def)
  show ?thesis
    by (simp add: parse_type_def parse_type_body_def ms peel lead core flush_cv_def Let_def del: append_Cons)
qed

section \<open>Properties\<close>

text \<open>
  C6: the memo of \<open>itanium_encode_type_sub\<close> is transparent.  In every state that calls can
  reach, flavour switches and data-model switches included, it returns what encoding the
  type afresh under the current data model returns.
\<close>

theorem memo_transparent:
  assumes "reach n s"
  shows "fst (itanium_encode_type_sub t s) = encode_type_text (target_data_model s) t"
  using encode_type_sub_result [OF reach_memo_valid [OF assms]] .

theorem memo_transparent_witness:
  "fst (itanium_encode_type_sub ''size_t''
     ((snd (itanium_encode_type_sub ''size_t'' (mangle_init LP64)))\<lparr>target_data_model := LLP64\<rparr>))
   = Inr ''y''"
proof -
  let ?s = "(snd (itanium_encode_type_sub ''size_t'' (mangle_init LP64)))\<lparr>target_data_model := LLP64\<rparr>"
  have "reach 2 ?s"
    using reach.model [OF reach.encode [OF reach.init]] by (simp add: numeral_2_eq_2)
  moreover have "encode_type_text LLP64 ''size_t'' = Inr ''y''" by code_simp
  ultimately show ?thesis using memo_transparent [of 2 ?s] by simp
qed

text \<open>
  \<open>marshals_value_text\<close> answers by the flavour that is active now.  In a state reached
  by fewer than \<open>2^32 - 1\<close> calls (so that the 32-bit generation has not come round to a
  stale stamp), if the flavour's string type encodes to \<open>c\<close> under both data models, the
  answer is whether the type's spelling encodes to \<open>c\<close>, whatever the cache held before.
\<close>

theorem marshals_value_text_current:
  assumes "reach n s" and "n < 2 ^ 32 - 1"
    and "\<forall>m. encode_type_text m (std_string_type s) = Inr c"
  shows "fst (marshals_value_text canonical dname s) =
    (if datadef_spelling canonical dname = [] then Inr False
     else ebind (encode_type_text (target_data_model s) (datadef_spelling canonical dname))
            (\<lambda>t. Inr (t = c)))"
proof (cases "datadef_spelling canonical dname = []")
  case True
  then show ?thesis by (simp add: marshals_value_text_def)
next
  case False
  have mv: "memo_valid s" by (rule reach_memo_valid [OF assms(1)])
  obtain r1 s1 where rc: "refresh_carrier s = (r1, s1)" by fastforce
  have "r1 = Inr () \<and> text_carrier s1 = c"
  proof (cases "carrier_gen s = std_abi_gen s")
    case True
    with reach_carrier_current [OF assms(1,2)] assms(3) rc show ?thesis
      by (auto simp: refresh_carrier_def)
  next
    case False
    have "fst (itanium_encode_type_sub (std_string_type s) s) = Inr c"
      using encode_type_sub_result [OF mv] assms(3) by simp
    with False rc show ?thesis by (auto simp: refresh_carrier_def split: prod.splits)
  qed
  moreover have rd: "reads_only s s1" by (rule refresh_carrier_reads [OF rc])
  moreover obtain r2 s2 where e: "itanium_encode_type_sub (datadef_spelling canonical dname) s1 = (r2, s2)"
    by fastforce
  moreover have "r2 = encode_type_text (target_data_model s) (datadef_spelling canonical dname)"
    using encode_type_sub_result [of s1] rd mv e unfolding reads_only_def by (metis fst_conv)
  moreover have "text_carrier s2 = text_carrier s1" using encode_type_sub_reads [OF e] by simp
  ultimately show ?thesis
    using False
    by (cases "encode_type_text (target_data_model s) (datadef_spelling canonical dname)")
      (simp_all add: marshals_value_text_def rc)
qed

theorem marshals_value_text_current_witness:
  "fst (marshals_value_text [] ''int'' (mangle_init LP64)) = Inr False"
proof -
  let ?c = "''NSt7__cxx1112basic_stringIcSt11char_traitsIcESaIcEEE''"
  have "encode_type_text LP64 (std_string_type (mangle_init LP64)) = Inr ?c"
    and "encode_type_text LLP64 (std_string_type (mangle_init LP64)) = Inr ?c"
    and i: "encode_type_text LP64 ''int'' = Inr ''i''" by code_simp+
  then have "\<forall>m. encode_type_text m (std_string_type (mangle_init LP64)) = Inr ?c"
    by (metis data_model.exhaust)
  from marshals_value_text_current [OF reach.init _ this, of "[]" "''int''"] i show ?thesis
    by (simp add: datadef_spelling_def mangle_init_def)
qed

text \<open>
  The scope guard restores the flavour.  Whatever the state is when the guard is
  destroyed, the flavour is again the one that was active when it was constructed, for
  every flavour the setters can produce; between the two it starts as GNU with the cxx11 ABI.
\<close>

theorem host_flavor_scope_restores:
  assumes "reach n s" and "host_flavor_scope_ctor s = (h, s1)"
  shows "std_stdlib s1 = MstdlibGnu \<and> std_abi_ns s1 = ''__cxx11''
    \<and> std_stdlib (host_flavor_scope_dtor h s2) = std_stdlib s
    \<and> std_abi_ns (host_flavor_scope_dtor h s2) = std_abi_ns s"
proof -
  have h: "h = \<lparr>saved_stdlib = std_stdlib s, saved_abi_ns = std_abi_ns s\<rparr>"
    and s1: "s1 = madc_mangle_set_stdlib_gnu True s"
    using assms(2) by (simp_all add: host_flavor_scope_ctor_def)
  have "std_stdlib (host_flavor_scope_dtor h s2) = std_stdlib s
      \<and> std_abi_ns (host_flavor_scope_dtor h s2) = std_abi_ns s"
    using reach_flavor_ok [OF assms(1)]
    by (cases "std_stdlib s") (auto simp: h host_flavor_scope_dtor_def setter_defs flavor_ok_def)
  then show ?thesis by (simp add: s1 setter_defs)
qed

theorem host_flavor_scope_restores_witness:
  "std_abi_ns (host_flavor_scope_dtor \<lparr>saved_stdlib = MstdlibLlvm, saved_abi_ns = ''__1''\<rparr>
     (mangle_init LP64)) = ''__1''"
proof -
  let ?s = "madc_mangle_set_stdlib_llvm ''__1'' (mangle_init LP64)"
  have "reach 1 ?s" using reach.llvm [OF reach.init] by simp
  moreover have "host_flavor_scope_ctor ?s
      = (\<lparr>saved_stdlib = MstdlibLlvm, saved_abi_ns = ''__1''\<rparr>, madc_mangle_set_stdlib_gnu True ?s)"
    by (simp add: host_flavor_scope_ctor_def setter_defs mangle_init_def)
  ultimately have "std_abi_ns (host_flavor_scope_dtor
      \<lparr>saved_stdlib = MstdlibLlvm, saved_abi_ns = ''__1''\<rparr> (mangle_init LP64)) = std_abi_ns ?s"
    using host_flavor_scope_restores by blast
  then show ?thesis by (simp add: setter_defs mangle_init_def)
qed

text \<open>
  A template parameter named in a signature reaches the encoder as that parameter.
  The substitution rewrites a parameter's name exactly where it stands as a whole word, to
  a marker that the type parser reads as the parameter of that index.
\<close>

theorem substitute_tparams_parses:
  assumes "distinct tparams" and "k < length tparams" and "k < 2 ^ 31"
    and "tparams ! k = w" and "w \<noteq> []" and "isalpha (hd w) \<or> hd w = CHR ''_''"
    and "\<forall>c \<in> set w. isalnum c \<or> c = CHR ''_''"
    and "r = [] \<or> \<not> (isalnum (hd r) \<or> hd r = CHR ''_'')"
  shows "\<exists>t. itanium_substitute_tparams (w @ r) tparams = t @ itanium_substitute_tparams r tparams
    \<and> parse_type m t = Inr (tparam_node [] (int k))"
  using substitute_word [OF assms(5-8)] tparam_index_nth [OF assms(1,2), of 0]
    parse_type_tparam_word [OF assms(3)] assms(4)
  by (auto simp: tparam_word_def)

theorem substitute_tparams_parses_witness:
  "\<exists>t. itanium_substitute_tparams (''B'' @ '' &'') [''A'', ''B''] = t @ itanium_substitute_tparams '' &'' [''A'', ''B'']
    \<and> parse_type LP64 t = Inr (tparam_node [] 1)"
  using substitute_tparams_parses [of "[''A'', ''B'']" 1 "''B''" "'' &''" LP64]
  by (simp add: ctype_defs)

end
