(* ===== verification/SourceBuffer.thy ===== *)
theory SourceBuffer
  imports Prelude
begin

text \<open>
  Class \<open>Source\<close> of \<^verbatim>\<open>include/madc.h\<close>: the flat buffer with its cursor, the pushback stack
  that macro expansion and lookahead write to, the frames that carry each stretch's paint
  (which macro names stay hidden in it), the line and column counters, and the folding of
  line splices.

  The record has the members the operations read or write.  \<open>int\<close> results of \<open>get\<close> and
  \<open>peek\<close> are an optional character, \<open>None\<close> for \<open>-1\<close>.  The pushback text is stored
  reversed, as in the code: its last character is read next.  \<open>refused_at_end\<close> says that
  \<open>refusal_cause\<close> is \<open>end_of_input\<close>.
\<close>

section \<open>State\<close>

record pushback_frame =
  frame_remaining :: nat
  frame_macro :: string
  frame_paint :: "string set"
  frame_recount :: bool
  frame_synth :: bool
  frame_id :: nat

record source =
  src_buf :: string
  gpos :: nat
  pushback :: string
  frames :: "pushback_frame list"
  inherited_disabled :: "string set"
  expanded_names :: "string set"
  served_paint :: "string set"
  synth_gets :: nat
  frame_ids :: nat
  union_frame :: nat
  lf :: int
  cr :: int
  column :: int
  last_token_line :: int
  deferred_refusal :: "(string \<times> int \<times> int) option"
  refused_at_end :: bool

definition source_start :: source where
  "source_start =
     \<lparr>src_buf = [], gpos = 0, pushback = [], frames = [], inherited_disabled = {},
      expanded_names = {}, served_paint = {}, synth_gets = 0, frame_ids = 0, union_frame = 0,
      lf = 0, cr = 0, column = 0, last_token_line = 0, deferred_refusal = None,
      refused_at_end = False\<rparr>"

definition source_str :: "string \<Rightarrow> source \<Rightarrow> source" where
  "source_str s src = src\<lparr>src_buf := s, gpos := 0\<rparr>"

definition start_unit :: "string \<Rightarrow> source \<Rightarrow> source" where
  "start_unit s src = (source_str s src)\<lparr>lf := 0, cr := 0, column := 0, last_token_line := 0\<rparr>"

section \<open>Line splices\<close>

definition splice_blank :: "char \<Rightarrow> bool" where
  "splice_blank c \<longleftrightarrow> c = CHR '' '' \<or> c = CHR 0x09"

definition splice_length_at :: "string \<Rightarrow> nat \<Rightarrow> nat" where
  "splice_length_at b pos =
     (case drop pos b of
        [] \<Rightarrow> 0
      | c # t \<Rightarrow>
          (if c \<noteq> CHR 0x5C then 0
           else
             (let k = length (takeWhile splice_blank t)
              in case dropWhile splice_blank t of
                   [] \<Rightarrow> 0
                 | d # v \<Rightarrow>
                     (if d = CHR 0x0A then k + 2
                      else if d = CHR 0x0D then
                        (if v \<noteq> [] \<and> hd v = CHR 0x0A then k + 3 else k + 2)
                      else 0))))"

definition ends_in_line_splice :: "source \<Rightarrow> bool" where
  "ends_in_line_splice src =
     (case rfind_char (src_buf src) (CHR 0x5C) of
        None \<Rightarrow> False
      | Some bs \<Rightarrow> splice_length_at (src_buf src) bs = length (src_buf src) - bs)"

lemma splice_length_le: "splice_length_at b pos \<le> length b - pos"
proof (cases "drop pos b")
  case Nil
  then show ?thesis by (simp add: splice_length_at_def)
next
  case (Cons c t)
  have "length (takeWhile splice_blank t) + length (dropWhile splice_blank t) = length t"
    by (metis length_append takeWhile_dropWhile_id)
  moreover have "length b - pos = Suc (length t)" using arg_cong [OF Cons, of length] by simp
  ultimately show ?thesis
    by (auto simp: splice_length_at_def Cons Let_def neq_Nil_conv split: list.split)
qed

section \<open>Reading\<close>

definition source_good :: "source \<Rightarrow> bool" where
  "source_good src \<longleftrightarrow> pushback src \<noteq> [] \<or> gpos src < length (src_buf src)"

definition source_eof :: "source \<Rightarrow> bool" where
  "source_eof src \<longleftrightarrow> pushback src = [] \<and> length (src_buf src) \<le> gpos src"

definition source_line :: "source \<Rightarrow> int" where
  "source_line src = (if cr src < lf src then lf src + 1 else cr src + 1)"

definition source_column :: "source \<Rightarrow> int" where
  "source_column src = (if column src \<noteq> 0 then column src else 1)"

definition setpos :: "int \<Rightarrow> int \<Rightarrow> source \<Rightarrow> source" where
  "setpos row col src = src\<lparr>lf := row - 1, cr := row - 1, column := col\<rparr>"

text \<open>The frame loop of \<open>get_slow\<close>: frames drained on an earlier read are dropped now.\<close>

fun drop_drained :: "pushback_frame list \<Rightarrow> pushback_frame list" where
  "drop_drained [] = []"
| "drop_drained (f # fs) = (if frame_remaining f = 0 then drop_drained fs else f # fs)"

definition join_served_paint :: "pushback_frame \<Rightarrow> source \<Rightarrow> source" where
  "join_served_paint f src =
     (if frame_id f \<noteq> union_frame src
      then src\<lparr>union_frame := frame_id f, served_paint := served_paint src \<union> frame_paint f\<rparr>
      else src)"

definition count_column :: "bool \<Rightarrow> bool \<Rightarrow> source \<Rightarrow> source" where
  "count_column synthesized recount src =
     (if synthesized then src\<lparr>synth_gets := synth_gets src + 1\<rparr>
      else if recount then src\<lparr>column := column src + 1\<rparr>
      else src)"

definition get_pushback :: "source \<Rightarrow> char option \<times> source" where
  "get_pushback src0 =
     (let src = src0\<lparr>frames := drop_drained (frames src0),
                     pushback := butlast (pushback src0)\<rparr>
      in (Some (last (pushback src0)),
          (case frames src of
             [] \<Rightarrow> count_column False True src
           | f # fs \<Rightarrow>
               count_column (frame_synth f) (frame_recount f)
                 ((join_served_paint f src)
                    \<lparr>frames := f\<lparr>frame_remaining := frame_remaining f - 1\<rparr> # fs\<rparr>))))"

text \<open>One ordinary byte of the buffer.\<close>

definition get_byte :: "source \<Rightarrow> char option \<times> source" where
  "get_byte src =
     (let ch = src_buf src ! gpos src; src1 = src\<lparr>gpos := gpos src + 1\<rparr>
      in (Some ch,
          if ch = CHR 0x0A then src1\<lparr>lf := lf src1 + 1, column := 0\<rparr>
          else if ch = CHR 0x0D then src1\<lparr>cr := cr src1 + 1, column := 0\<rparr>
          else src1\<lparr>column := column src1 + 1\<rparr>))"

definition take_splice :: "source \<Rightarrow> source" where
  "take_splice src =
     src\<lparr>gpos := gpos src + splice_length_at (src_buf src) (gpos src), lf := lf src + 1, column := 0\<rparr>"

text \<open>\<open>get\<close> with its inline path for an ordinary byte, and \<open>get_slow\<close>.\<close>

function source_get :: "source \<Rightarrow> char option \<times> source" where
  "source_get src =
     (if pushback src = [] \<and> frames src = [] \<and> gpos src < length (src_buf src)
         \<and> src_buf src ! gpos src \<notin> {CHR 0x5C, CHR 0x0A, CHR 0x0D}
      then (Some (src_buf src ! gpos src),
            src\<lparr>gpos := gpos src + 1, column := column src + 1\<rparr>)
      else if pushback src \<noteq> [] then get_pushback src
      else
        (let src1 = src\<lparr>frames := []\<rparr>
         in if length (src_buf src1) \<le> gpos src1 then (None, src1)
            else if splice_length_at (src_buf src1) (gpos src1) \<noteq> 0
            then source_get (take_splice src1)
            else get_byte src1))"
  by pat_completeness auto
termination
  by (relation "measure (\<lambda>src. length (src_buf src) - gpos src)")
    (auto simp: take_splice_def)

declare source_get.simps [simp del]

definition source_peek :: "source \<Rightarrow> char option \<times> source" where
  "source_peek src =
     (if pushback src = [] \<and> gpos src < length (src_buf src)
         \<and> src_buf src ! gpos src \<noteq> CHR 0x5C
      then (Some (src_buf src ! gpos src), src)
      else if pushback src \<noteq> [] then (Some (last (pushback src)), src)
      else if length (src_buf src) \<le> gpos src then (None, src)
      else if splice_length_at (src_buf src) (gpos src) \<noteq> 0 then
        (let src1 = take_splice src
         in ((if gpos src1 < length (src_buf src1) then Some (src_buf src1 ! gpos src1) else None),
             src1))
      else (Some (src_buf src ! gpos src), src))"

section \<open>Pushing text back\<close>

definition push_front_text :: "string \<Rightarrow> source \<Rightarrow> source" where
  "push_front_text s src = src\<lparr>pushback := pushback src @ rev s\<rparr>"

definition add_pushback_frame_len ::
    "nat \<Rightarrow> string \<Rightarrow> bool \<Rightarrow> bool \<Rightarrow> string set \<Rightarrow> source \<Rightarrow> source" where
  "add_pushback_frame_len len disabled recount synthesized paint src =
     (if len = 0 then src
      else src\<lparr>frame_ids := frame_ids src + 1,
               frames := \<lparr>frame_remaining = len, frame_macro = disabled, frame_paint = paint,
                          frame_recount = recount, frame_synth = synthesized,
                          frame_id = frame_ids src + 1\<rparr> # frames src\<rparr>)"

definition source_pushback :: "string \<Rightarrow> source \<Rightarrow> source" where
  "source_pushback s src =
     add_pushback_frame_len (length s) [] True False {} (push_front_text s src)"

definition pushback_reread :: "string \<Rightarrow> source \<Rightarrow> source" where
  "pushback_reread s src =
     (if CHR 0x0A \<notin> set s \<and> CHR 0x0D \<notin> set s \<and> int (length s) \<le> column src
      then add_pushback_frame_len (length s) [] True False {}
             (push_front_text s (src\<lparr>column := column src - int (length s)\<rparr>))
      else add_pushback_frame_len (length s) [] False False {} (push_front_text s src))"

text \<open>\<open>pushback_macro\<close>; \<open>None\<close> is the null pointer for \<open>arg_disabled\<close>.\<close>

definition pushback_macro ::
    "string \<Rightarrow> string \<Rightarrow> string set option \<Rightarrow> source \<Rightarrow> source" where
  "pushback_macro s disabled_macro arg_disabled src =
     (let paint = (case arg_disabled of None \<Rightarrow> {} | Some p \<Rightarrow> p);
          names = (if disabled_macro \<noteq> [] then {disabled_macro} else {}) \<union> paint;
          src1 = push_front_text s src
      in add_pushback_frame_len (length s) disabled_macro True True paint
           (src1\<lparr>expanded_names := expanded_names src1 \<union> names\<rparr>))"

text \<open>A stretch of a macro argument: where it starts and its paint.\<close>

type_synonym paint_seg = "nat \<times> string set"

text \<open>The frames of \<open>pushback_painted_text\<close>, one per stretch, the last pushed first.\<close>

fun push_painted :: "nat \<Rightarrow> bool \<Rightarrow> paint_seg list \<Rightarrow> source \<Rightarrow> source" where
  "push_painted sz first [] src = src"
| "push_painted sz first ((off, paint) # segs) src =
     (let from = (if first then 0 else off);
          to = (case segs of [] \<Rightarrow> sz | (off', _) # _ \<Rightarrow> off');
          src1 = push_painted sz False segs src
      in if from < to then add_pushback_frame_len (to - from) [] True True paint src1 else src1)"

definition pushback_painted_text :: "string \<Rightarrow> paint_seg list \<Rightarrow> source \<Rightarrow> source" where
  "pushback_painted_text s segs src = push_painted (length s) True segs (push_front_text s src)"

text \<open>A character range that came from substituting an argument.\<close>

record arg_span =
  span_off :: nat
  span_len :: nat
  span_param :: string

text \<open>The segments of \<open>pushback_macro_spans\<close> from \<open>pos\<close> on: lengths and paint.\<close>

fun macro_segments ::
    "nat \<Rightarrow> (string \<Rightarrow> string set option) \<Rightarrow> arg_span list \<Rightarrow> nat \<Rightarrow> (nat \<times> string set) list" where
  "macro_segments sz param_paint [] pos = (if pos < sz then [(sz - pos, {})] else [])"
| "macro_segments sz param_paint (sp # sps) pos =
     (if span_off sp < pos \<or> span_len sp = 0 \<or> sz < span_off sp + span_len sp
      then macro_segments sz param_paint sps pos
      else (if pos < span_off sp then [(span_off sp - pos, {})] else [])
           @ (span_len sp, (case param_paint (span_param sp) of None \<Rightarrow> {} | Some p \<Rightarrow> p))
           # macro_segments sz param_paint sps (span_off sp + span_len sp))"

definition pushback_macro_spans ::
    "string \<Rightarrow> string \<Rightarrow> arg_span list \<Rightarrow> (string \<times> string set) list \<Rightarrow> source \<Rightarrow> source" where
  "pushback_macro_spans s disabled_macro spans param_paint src =
     (let src1 = push_front_text s src;
          names = (if disabled_macro \<noteq> [] then {disabled_macro} else {})
                  \<union> \<Union> (set (map snd param_paint));
          src2 = src1\<lparr>expanded_names := expanded_names src1 \<union> names\<rparr>
      in foldr (\<lambda>(len, paint). add_pushback_frame_len len disabled_macro True True paint)
           (macro_segments (length s) (map_of param_paint) spans 0) src2)"

section \<open>Hidden macro names\<close>

definition macro_disabled :: "string \<Rightarrow> source \<Rightarrow> bool" where
  "macro_disabled mname src \<longleftrightarrow>
     mname \<in> inherited_disabled src
     \<or> (\<exists>f \<in> set (frames src). frame_macro f = mname)
     \<or> (case frames src of [] \<Rightarrow> False | f # _ \<Rightarrow> mname \<in> frame_paint f)"

definition inherit_macro_disables ::
    "source \<Rightarrow> string \<Rightarrow> string set option \<Rightarrow> source \<Rightarrow> source" where
  "inherit_macro_disables other current extra src =
     src\<lparr>inherited_disabled :=
           inherited_disabled other
           \<union> set (filter (\<lambda>n. n \<noteq> []) (map frame_macro (frames other)))
           \<union> (case extra of None \<Rightarrow> {} | Some p \<Rightarrow> p)
           \<union> (if current \<noteq> [] then {current} else {})\<rparr>"

definition reset_served_arg_paint :: "source \<Rightarrow> source" where
  "reset_served_arg_paint src = src\<lparr>served_paint := {}, union_frame := 0\<rparr>"

definition current_arg_paint :: "source \<Rightarrow> string set" where
  "current_arg_paint src = (case frames src of [] \<Rightarrow> {} | f # _ \<Rightarrow> frame_paint f)"

definition serving_frame :: "source \<Rightarrow> nat" where
  "serving_frame src = (case frames src of [] \<Rightarrow> 0 | f # _ \<Rightarrow> frame_id f)"

section \<open>Spans, lines and comments\<close>

definition fast_span :: "(char \<Rightarrow> bool) \<Rightarrow> source \<Rightarrow> (string \<times> source) option" where
  "fast_span keep src =
     (if pushback src \<noteq> [] then None
      else
        (let run = takeWhile keep (drop (gpos src) (src_buf src))
         in Some (run, src\<lparr>gpos := gpos src + length run,
                          column := column src + int (length run)\<rparr>)))"

text \<open>\<open>raw_line_ahead\<close> and \<open>raw_offset\<close>: the unread raw text of the line, the cursor's offset.\<close>

definition raw_line_ahead :: "source \<Rightarrow> string option" where
  "raw_line_ahead src =
     (if pushback src \<noteq> [] then None
      else Some (takeWhile (\<lambda>c. c \<noteq> CHR 0x0A \<and> c \<noteq> CHR 0x0D) (drop (gpos src) (src_buf src))))"

definition raw_offset :: "source \<Rightarrow> nat option" where
  "raw_offset src = (if pushback src \<noteq> [] then None else Some (gpos src))"

text \<open>
  How much input a source still has, in characters of the two stores: every call of \<open>get\<close>
  that returns a character lowers it, so loops over \<open>get\<close> end.
\<close>

definition unread :: "source \<Rightarrow> nat" where
  "unread src = length (pushback src) + (length (src_buf src) - gpos src)"

text \<open>\<open>skip_line_rest\<close>; \<open>n\<close> bounds the rounds of the loop, \<open>unread\<close> rounds are enough.\<close>

definition plain_byte :: "char \<Rightarrow> bool" where
  "plain_byte c \<longleftrightarrow> c \<noteq> CHR 0x0A \<and> c \<noteq> CHR 0x0D \<and> c \<noteq> CHR 0x5C"

primrec skip_line_go :: "nat \<Rightarrow> source \<Rightarrow> source" where
  "skip_line_go 0 src = src"
| "skip_line_go (Suc n) src =
     (if \<not> source_good src then src
      else
        (let by_get = (\<lambda>s. case source_peek s of
                             (c, s1) \<Rightarrow> (if c = Some (CHR 0x0A) \<or> c = Some (CHR 0x0D) then s1
                                         else skip_line_go n (snd (source_get s1))))
         in case fast_span plain_byte src of
              Some (run, s1) \<Rightarrow> (if run \<noteq> [] then skip_line_go n s1 else by_get s1)
            | None \<Rightarrow> by_get src))"

definition skip_line_rest :: "source \<Rightarrow> source" where
  "skip_line_rest src = skip_line_go (unread src) src"

definition source_getline :: "source \<Rightarrow> string \<times> source" where
  "source_getline src =
     (let rest = drop (gpos src) (src_buf src);
          s = takeWhile (\<lambda>c. c \<noteq> CHR 0x0D \<and> c \<noteq> CHR 0x0A) rest;
          src1 = src\<lparr>gpos := gpos src + length s\<rparr>
      in if length (src_buf src) \<le> gpos src1 then (s, src1)
         else
           (let ch = src_buf src ! gpos src1;
                src2 = src1\<lparr>gpos := gpos src1 + 1, column := 0\<rparr>;
                src3 = (if ch = CHR 0x0A then src2\<lparr>lf := lf src2 + 1\<rparr>
                        else src2\<lparr>cr := cr src2 + 1\<rparr>)
            in (s, if gpos src3 < length (src_buf src3) \<and> src_buf src3 ! gpos src3 = CHR 0x0A
                   then src3\<lparr>gpos := gpos src3 + 1, lf := lf src3 + 1\<rparr>
                   else src3)))"

text \<open>The loop of \<open>line_text\<close>, which starts over from the head of the buffer.\<close>

primrec line_text_go :: "nat \<Rightarrow> int \<Rightarrow> string \<Rightarrow> source \<Rightarrow> string" where
  "line_text_go 0 row ln src = ln"
| "line_text_go (Suc n) row ln src =
     (case source_peek src of
        (None, src1) \<Rightarrow> ln
      | (Some c, src1) \<Rightarrow>
          (case source_getline src1 of
             (ln', src2) \<Rightarrow>
               (if row \<le> source_line src2 - 1 then ln' else line_text_go n row ln' src2)))"

definition line_text :: "int \<Rightarrow> source \<Rightarrow> string" where
  "line_text row src =
     line_text_go (Suc (length (src_buf src))) row [] (src\<lparr>gpos := 0, lf := 0, cr := 0\<rparr>)"

text \<open>
  The loop of \<open>consume_block_comment\<close>: the previous character, the text kept so far; the
  result says whether the comment was closed.
\<close>

primrec comment_go :: "nat \<Rightarrow> char option \<Rightarrow> string \<Rightarrow> source \<Rightarrow> bool \<times> string \<times> source" where
  "comment_go 0 prev keep src = (False, keep, src)"
| "comment_go (Suc n) prev keep src =
     (if \<not> (source_good src \<and> \<not> source_eof src) then (False, keep, src)
      else
        (case source_get src of
           (c, src1) \<Rightarrow>
             (let keep1 = keep @ [case c of None \<Rightarrow> CHR 0xFF | Some ch \<Rightarrow> ch]
              in if prev = Some (CHR ''*'') \<and> c = Some (CHR ''/'') then (True, keep1, src1)
                 else comment_go n c keep1 src1)))"

definition consume_block_comment ::
    "int \<Rightarrow> int \<Rightarrow> bool \<Rightarrow> source \<Rightarrow> (bool \<times> string) cxx \<times> source" where
  "consume_block_comment row col defer src =
     (case comment_go (unread src) None [] src of
        (True, keep, src1) \<Rightarrow> (Inr (True, keep), src1)
      | (False, keep, src1) \<Rightarrow>
          (if defer then
             (Inr (False, keep), src1\<lparr>deferred_refusal := Some (''unterminated comment'', row, col)\<rparr>)
           else (Inl (Thrown ''unterminated comment''), (setpos row col src1)\<lparr>refused_at_end := True\<rparr>)))"

definition raise_deferred_refusal :: "source \<Rightarrow> unit cxx \<times> source" where
  "raise_deferred_refusal src =
     (case deferred_refusal src of
        None \<Rightarrow> (Inr (), src)
      | Some (message, row, col) \<Rightarrow>
          (Inl (Thrown message), (setpos row col (src\<lparr>deferred_refusal := None\<rparr>))\<lparr>refused_at_end := True\<rparr>))"

section \<open>Trigraphs\<close>

definition trigraph_rows :: "(char \<times> char) list" where
  "trigraph_rows =
     zip [CHR ''='', CHR ''('', CHR ''/'', CHR '')'', CHR 0x27, CHR ''<'', CHR ''!'', CHR ''>'', CHR ''-'']
         [CHR ''#'', CHR ''['', CHR 0x5C, CHR '']'', CHR ''^'', CHR ''{'', CHR ''|'', CHR ''}'', CHR ''~'']"

fun trigraph_text :: "string \<Rightarrow> string" where
  "trigraph_text (c # d # e # rest) =
     (if c = CHR ''?'' \<and> d = CHR ''?'' \<and> map_of trigraph_rows e \<noteq> None
      then the (map_of trigraph_rows e) # trigraph_text rest
      else c # trigraph_text (d # e # rest))"
| "trigraph_text s = s"

definition replace_trigraphs :: "source \<Rightarrow> source" where
  "replace_trigraphs src = src\<lparr>src_buf := trigraph_text (src_buf src)\<rparr>"

end
