(* ===== verification/Reader.thy ===== *)
theory Reader
  imports Prelude
begin

text \<open>
  The reader interface that the literal readers of \<^verbatim>\<open>src/lexer.cpp\<close> are templates over
  (\<open>template <class Reader>\<close>): an object with \<open>good\<close>, \<open>peek\<close> and \<open>get\<close>.  Two classes
  provide it, \<open>Source\<close> and \<open>CapturedTextReader\<close>; \<open>rd_left\<close> is not in the code, it bounds the
  characters left and serves as the fuel of the loops.  The locale states what a literal reader
  relies on; what follows from it holds for both.
\<close>

section \<open>The interface\<close>

record 's reader =
  rd_good :: "'s \<Rightarrow> bool"
  rd_peek :: "'s \<Rightarrow> char option \<times> 's"
  rd_get :: "'s \<Rightarrow> char option \<times> 's"
  rd_left :: "'s \<Rightarrow> nat"

definition first_char :: "string \<Rightarrow> char option" where
  "first_char t = (case t of [] \<Rightarrow> None | c # _ \<Rightarrow> Some c)"

lemma first_char_simps [simp]: "first_char [] = None" "first_char (c # t) = Some c"
  by (simp_all add: first_char_def)

text \<open>
  \<open>rest s\<close> is the text still to be read.  \<open>good\<close> may also hold when nothing but a splice is
  left, so only one direction is promised.
\<close>

locale reader_laws =
  fixes R :: "'s reader" and valid :: "'s \<Rightarrow> bool" and rest :: "'s \<Rightarrow> string"
  assumes good_rest: "valid s \<Longrightarrow> rest s \<noteq> [] \<Longrightarrow> rd_good R s"
    and peek_first: "valid s \<Longrightarrow> rest s \<noteq> [] \<Longrightarrow> fst (rd_peek R s) = first_char (rest s)"
    and peek_rest: "valid s \<Longrightarrow> rd_good R s \<Longrightarrow> rest (snd (rd_peek R s)) = rest s"
    and peek_valid: "valid s \<Longrightarrow> rd_good R s \<Longrightarrow> valid (snd (rd_peek R s))"
    and peek_end: "valid s \<Longrightarrow> rd_good R s \<Longrightarrow> rest s = [] \<Longrightarrow> fst (rd_peek R s) = None"
    and get_first: "valid s \<Longrightarrow> rest s \<noteq> [] \<Longrightarrow> fst (rd_get R s) = first_char (rest s)"
    and get_rest: "valid s \<Longrightarrow> rest s \<noteq> [] \<Longrightarrow> rest (snd (rd_get R s)) = tl (rest s)"
    and get_valid: "valid s \<Longrightarrow> rest s \<noteq> [] \<Longrightarrow> valid (snd (rd_get R s))"
    and left_rest: "valid s \<Longrightarrow> length (rest s) \<le> rd_left R s"
begin

lemma get_Cons:
  assumes "valid s" and "rest s = c # cs"
  obtains s' where "rd_get R s = (Some c, s')" "valid s'" "rest s' = cs"
  using assms get_first [of s] get_rest [of s] get_valid [of s] that
  by (cases "rd_get R s") auto

lemma peek_Cons:
  assumes "valid s" and "rest s = c # cs"
  obtains s' where "rd_peek R s = (Some c, s')" "valid s'" "rest s' = c # cs" "rd_good R s"
  using assms peek_first [of s] peek_rest [of s] peek_valid [of s] good_rest [of s] that
  by (cases "rd_peek R s") auto

lemma peek_Nil:
  assumes "valid s" and "rest s = []" and "rd_good R s"
  obtains s' where "rd_peek R s = (None, s')" "valid s'" "rest s' = []"
  using assms peek_end [of s] peek_rest [of s] peek_valid [of s] that
  by (cases "rd_peek R s") auto

end

section \<open>Captured text\<close>

text \<open>\<open>CapturedTextReader\<close>: text and position; it is read only while \<open>good\<close> holds.\<close>

record captured =
  cap_text :: string
  cap_pos :: nat

definition captured_good :: "captured \<Rightarrow> bool" where
  "captured_good s \<longleftrightarrow> cap_pos s < length (cap_text s)"

definition captured_at :: "captured \<Rightarrow> char option" where
  "captured_at s = (if captured_good s then Some (cap_text s ! cap_pos s) else None)"

definition captured_reader :: "captured reader" where
  "captured_reader =
     \<lparr>rd_good = captured_good, rd_peek = (\<lambda>s. (captured_at s, s)),
      rd_get = (\<lambda>s. (captured_at s, s\<lparr>cap_pos := cap_pos s + 1\<rparr>)),
      rd_left = (\<lambda>s. length (cap_text s) - cap_pos s)\<rparr>"

definition captured_rest :: "captured \<Rightarrow> string" where
  "captured_rest s = drop (cap_pos s) (cap_text s)"

lemma captured_rest_Cons:
  "captured_rest s \<noteq> [] \<longleftrightarrow> captured_good s"
  "captured_good s \<Longrightarrow> captured_rest s = cap_text s ! cap_pos s # drop (Suc (cap_pos s)) (cap_text s)"
  by (auto simp: captured_rest_def captured_good_def Cons_nth_drop_Suc)

interpretation captured: reader_laws captured_reader "\<lambda>_. True" captured_rest
proof
  show "rd_good captured_reader s \<Longrightarrow> captured_rest s = [] \<Longrightarrow> fst (rd_peek captured_reader s) = None" for s
    using captured_rest_Cons(1) [of s] by (simp add: captured_reader_def)
  show "captured_rest s \<noteq> [] \<Longrightarrow> captured_rest (snd (rd_get captured_reader s)) = tl (captured_rest s)" for s
    by (simp add: captured_rest_Cons captured_reader_def) (simp add: captured_rest_def)
  show "length (captured_rest s) \<le> rd_left captured_reader s" for s
    by (simp add: captured_rest_def captured_reader_def)
qed (simp_all add: captured_reader_def captured_rest_Cons captured_at_def)

end
