(* ===== verification/SourceProps.thy ===== *)
theory SourceProps
  imports SourceBuffer Reader
begin

text \<open>
  What a \<open>Source\<close> promises its readers.  The abstract value of a source is the text still to
  be read: the pushback, then the rest of the buffer with its line splices folded away.
  \<open>get\<close> returns that text character by character, \<open>peek\<close> agrees with it unless two splices
  stand next to each other, pushed-back text is read first, a macro's name stays hidden
  exactly while its expansion is being read, and the line number counts the new-lines of
  the buffer whatever was pushed back.
\<close>

section \<open>The text still to be read\<close>

definition splice_len :: "string \<Rightarrow> nat" where
  "splice_len t = splice_length_at t 0"

lemma splice_len_drop: "splice_length_at b pos = splice_len (drop pos b)"
  by (simp add: splice_len_def splice_length_at_def)

lemma splice_len_le: "splice_len t \<le> length t"
  using splice_length_le [of t 0] by (simp add: splice_len_def)

lemma splice_len_Nil [simp]: "splice_len [] = 0"
  by (simp add: splice_len_def splice_length_at_def)

lemma splice_len_head: "splice_len (c # t) \<noteq> 0 \<Longrightarrow> c = CHR 0x5C"
  by (auto simp: splice_len_def splice_length_at_def split: if_splits)

text \<open>
  Phase 2 of the translation, by itself: a backslash, spaces and tabs, and a line end (line feed,
  carriage return, or the two together) disappear.  \<open>continued\<close> is the text after such a line end.
\<close>

fun continued :: "string \<Rightarrow> string option" where
  "continued [] = None"
| "continued (c # t) =
     (if c = CHR '' '' \<or> c = CHR 0x09 then continued t
      else if c = CHR 0x0A then Some t
      else if c = CHR 0x0D then Some (if t \<noteq> [] \<and> hd t = CHR 0x0A then tl t else t)
      else None)"

lemma continued_shorter: "continued t = Some u \<Longrightarrow> length u < length t"
proof (induction t)
  case (Cons c t)
  show ?case
  proof (cases "c = CHR 0x0D")
    case True
    then show ?thesis using Cons.prems by (cases t) (auto split: if_splits)
  next
    case False
    then show ?thesis using Cons by (auto split: if_splits)
  qed
qed simp

function unsplice :: "string \<Rightarrow> string" where
  "unsplice [] = []"
| "unsplice (c # t) =
     (case if c = CHR 0x5C then continued t else None of
        Some u \<Rightarrow> unsplice u
      | None \<Rightarrow> c # unsplice t)"
  by pat_completeness auto
termination
  by (relation "measure length") (auto dest: continued_shorter split: if_splits)

definition remaining :: "source \<Rightarrow> string" where
  "remaining src = rev (pushback src) @ unsplice (drop (gpos src) (src_buf src))"

text \<open>The splices of the code are those of phase 2.\<close>

lemma continued_blanks: "\<forall>c \<in> set u. splice_blank c \<Longrightarrow> continued (u @ t) = continued t"
  by (induction u) (auto simp: splice_blank_def)

lemma splice_len_continued:
  "splice_len (c # t) =
     (case if c = CHR 0x5C then continued t else None of None \<Rightarrow> 0 | Some u \<Rightarrow> length (c # t) - length u)"
proof -
  let ?w = "takeWhile splice_blank t" and ?d = "dropWhile splice_blank t"
  have t: "t = ?w @ ?d" by simp
  have l: "length t = length ?w + length ?d" by (metis length_append t)
  have c: "continued t = continued ?d"
    using continued_blanks [of ?w ?d] set_takeWhileD by (metis t)
  show ?thesis
  proof (cases ?d)
    case Nil
    show ?thesis by (simp add: splice_len_def splice_length_at_def c Nil)
  next
    case (Cons d v)
    have "\<not> splice_blank d" using Cons hd_dropWhile [of splice_blank t] by (metis list.distinct(1) list.sel(1))
    then show ?thesis using c l Cons
      by (cases v) (auto simp: splice_len_def splice_length_at_def splice_blank_def)
  qed
qed

lemma continued_suffix: "continued t = Some u \<Longrightarrow> drop (length t - length u) t = u"
proof (induction t)
  case (Cons c t)
  show ?case
  proof (cases "c = CHR '' '' \<or> c = CHR 0x09")
    case True
    then have "continued t = Some u" using Cons.prems by simp
    then show ?thesis using Cons.IH continued_shorter [of t u] by (simp add: Suc_diff_le)
  next
    case False
    then show ?thesis using Cons.prems by (cases t) (auto split: if_splits)
  qed
qed simp

lemma unsplice_splice:
  assumes "splice_len t \<noteq> 0"
  shows "unsplice t = unsplice (drop (splice_len t) t)"
proof -
  obtain c v where t: "t = c # v" using assms by (cases t) auto
  then obtain u where u: "c = CHR 0x5C" "continued v = Some u"
    using assms by (auto simp: splice_len_continued split: option.splits if_splits)
  then have "drop (splice_len t) t = u"
    using continued_suffix [OF u(2)] continued_shorter [OF u(2)] by (simp add: t splice_len_continued Suc_diff_le)
  then show ?thesis using t u by simp
qed

lemma splice_len_None: "splice_len (c # t) = 0 \<Longrightarrow> (if c = CHR 0x5C then continued t else None) = None"
  using continued_shorter [of t] by (auto simp: splice_len_continued split: option.splits if_splits)

lemma unsplice_byte:
  "pos < length b \<Longrightarrow> splice_len (drop pos b) = 0 \<Longrightarrow>
     unsplice (drop pos b) = b ! pos # unsplice (drop (Suc pos) b)"
  using splice_len_None [of "b ! pos" "drop (Suc pos) b"] by (simp add: Cons_nth_drop_Suc [symmetric] del: if_splits)

lemma count_column_simps [simp]:
  "src_buf (count_column a b s) = src_buf s" "gpos (count_column a b s) = gpos s"
  "pushback (count_column a b s) = pushback s" "frames (count_column a b s) = frames s"
  "lf (count_column a b s) = lf s" "cr (count_column a b s) = cr s"
  "inherited_disabled (count_column a b s) = inherited_disabled s"
  by (simp_all add: count_column_def)

lemma join_served_simps [simp]:
  "src_buf (join_served_paint f s) = src_buf s" "gpos (join_served_paint f s) = gpos s"
  "pushback (join_served_paint f s) = pushback s" "lf (join_served_paint f s) = lf s"
  "cr (join_served_paint f s) = cr s" "column (join_served_paint f s) = column s"
  "inherited_disabled (join_served_paint f s) = inherited_disabled s"
  by (simp_all add: join_served_paint_def)

lemma get_pushback_simps [simp]:
  "fst (get_pushback s) = Some (last (pushback s))"
  "src_buf (snd (get_pushback s)) = src_buf s" "gpos (snd (get_pushback s)) = gpos s"
  "pushback (snd (get_pushback s)) = butlast (pushback s)"
  "lf (snd (get_pushback s)) = lf s" "cr (snd (get_pushback s)) = cr s"
  "inherited_disabled (snd (get_pushback s)) = inherited_disabled s"
  by (simp_all add: get_pushback_def Let_def split: list.split)

lemma get_byte_simps [simp]:
  "fst (get_byte s) = Some (src_buf s ! gpos s)"
  "src_buf (snd (get_byte s)) = src_buf s" "gpos (snd (get_byte s)) = gpos s + 1"
  "pushback (snd (get_byte s)) = pushback s" "frames (snd (get_byte s)) = frames s"
  "inherited_disabled (snd (get_byte s)) = inherited_disabled s"
  by (simp_all add: get_byte_def Let_def)

lemma take_splice_simps [simp]:
  "src_buf (take_splice s) = src_buf s" "pushback (take_splice s) = pushback s"
  "frames (take_splice s) = frames s"
  "gpos (take_splice s) = gpos s + splice_length_at (src_buf s) (gpos s)"
  "lf (take_splice s) = lf s + 1" "cr (take_splice s) = cr s"
  "inherited_disabled (take_splice s) = inherited_disabled s"
  by (simp_all add: take_splice_def)

lemma no_splice_plain:
  "gpos s < length (src_buf s) \<Longrightarrow> src_buf s ! gpos s \<noteq> CHR 0x5C \<Longrightarrow>
     splice_len (drop (gpos s) (src_buf s)) = 0"
  using splice_len_head [of "src_buf s ! gpos s" "drop (Suc (gpos s)) (src_buf s)"]
  by (auto simp: Cons_nth_drop_Suc)

lemma remaining_take_splice:
  "pushback s = [] \<Longrightarrow> splice_length_at (src_buf s) (gpos s) \<noteq> 0 \<Longrightarrow>
     remaining (take_splice s) = remaining s"
  using unsplice_splice [of "drop (gpos s) (src_buf s)"]
  by (simp add: remaining_def splice_len_drop add.commute)

text \<open>\<open>get\<close> takes the first character of the remaining text.\<close>

lemma source_get_remaining:
  "fst (source_get s) = first_char (remaining s) \<and> remaining (snd (source_get s)) = tl (remaining s)"
proof (induction s rule: source_get.induct)
  case (1 s)
  have byte: "remaining s = src_buf s ! gpos s # unsplice (drop (Suc (gpos s)) (src_buf s))"
    if "pushback s = []" "gpos s < length (src_buf s)" "splice_length_at (src_buf s) (gpos s) = 0"
    using that unsplice_byte [of "gpos s" "src_buf s"] by (simp add: remaining_def splice_len_drop)
  consider (fast) "pushback s = []" "frames s = []" "gpos s < length (src_buf s)"
      "src_buf s ! gpos s \<notin> {CHR 0x5C, CHR 0x0A, CHR 0x0D}"
    | (pushed) "pushback s \<noteq> []"
    | (slow) "pushback s = []"
      "\<not> (frames s = [] \<and> gpos s < length (src_buf s)
          \<and> src_buf s ! gpos s \<notin> {CHR 0x5C, CHR 0x0A, CHR 0x0D})"
    by blast
  then show ?case
  proof cases
    case fast
    then have "splice_length_at (src_buf s) (gpos s) = 0"
      using no_splice_plain [of s] by (simp add: splice_len_drop)
    with fast byte show ?thesis
      by (subst (1 2) source_get.simps) (simp add: remaining_def)
  next
    case pushed
    then show ?thesis
      by (subst (1 2) source_get.simps)
        (cases "pushback s" rule: rev_cases; simp add: remaining_def)
  next
    case slow
    let ?s = "s\<lparr>frames := []\<rparr>"
    have eq: "source_get s =
        (if length (src_buf s) \<le> gpos s then (None, ?s)
         else if splice_length_at (src_buf s) (gpos s) \<noteq> 0 then source_get (take_splice ?s)
         else get_byte ?s)"
      using slow by (subst source_get.simps) (auto simp: Let_def)
    have rs: "remaining ?s = remaining s" by (simp add: remaining_def)
    show ?thesis
    proof (cases "gpos s < length (src_buf s)")
      case False
      with slow(1) show ?thesis by (simp add: eq remaining_def)
    next
      case True
      show ?thesis
      proof (cases "splice_length_at (src_buf s) (gpos s) = 0")
        case True
        with \<open>gpos s < length (src_buf s)\<close> slow(1) byte show ?thesis
          by (simp add: eq) (simp add: remaining_def)
      next
        case False
        have "remaining (take_splice ?s) = remaining s"
          using remaining_take_splice [of ?s] slow(1) False rs by simp
        moreover have "fst (source_get (take_splice ?s)) = first_char (remaining (take_splice ?s))
            \<and> remaining (snd (source_get (take_splice ?s))) = tl (remaining (take_splice ?s))"
          using slow(2) slow(1) True False by (intro "1.IH") simp_all
        ultimately show ?thesis using True False by (simp add: eq)
      qed
    qed
  qed
qed

text \<open>\<open>peek\<close> leaves the remaining text alone, and agrees with \<open>get\<close> unless two splices meet.\<close>

definition double_splice :: "source \<Rightarrow> bool" where
  "double_splice s \<longleftrightarrow>
     pushback s = [] \<and> splice_length_at (src_buf s) (gpos s) \<noteq> 0
     \<and> splice_length_at (src_buf s) (gpos s + splice_length_at (src_buf s) (gpos s)) \<noteq> 0"

lemma remaining_byte:
  assumes "pushback s = []" "splice_length_at (src_buf s) (gpos s) = 0"
  shows "first_char (remaining s) = (if gpos s < length (src_buf s) then Some (src_buf s ! gpos s) else None)"
  using assms unsplice_byte [of "gpos s" "src_buf s"] by (simp add: remaining_def splice_len_drop)

lemma source_peek_remaining: "remaining (snd (source_peek s)) = remaining s"
  using remaining_take_splice [of s] by (simp add: source_peek_def Let_def)

lemma source_peek_head:
  assumes "\<not> double_splice s"
  shows "fst (source_peek s) = first_char (remaining s)"
proof (cases "pushback s = []")
  case False
  then show ?thesis
    by (cases "pushback s" rule: rev_cases) (simp_all add: source_peek_def remaining_def)
next
  case True
  show ?thesis
  proof (cases "splice_length_at (src_buf s) (gpos s) = 0")
    case z: True
    with True remaining_byte [of s] show ?thesis by (auto simp: source_peek_def)
  next
    case False
    have "gpos s < length (src_buf s)"
      using False splice_length_le [of "src_buf s" "gpos s"] by simp
    moreover from this have "src_buf s ! gpos s = CHR 0x5C"
      using False no_splice_plain [of s] by (auto simp: splice_len_drop)
    moreover have "splice_length_at (src_buf (take_splice s)) (gpos (take_splice s)) = 0"
      using assms True False by (simp add: double_splice_def)
    ultimately show ?thesis
      using remaining_byte [of "take_splice s"] remaining_take_splice [of s] True False
      by (auto simp: source_peek_def Let_def)
  qed
qed

lemma source_peek_double:
  assumes "double_splice s"
  shows "fst (source_peek s) = Some (CHR 0x5C)"
proof -
  let ?p = "gpos s + splice_length_at (src_buf s) (gpos s)"
  have l: "gpos s < length (src_buf s)" "?p < length (src_buf s)"
    using assms splice_length_le [of "src_buf s" "gpos s"] splice_length_le [of "src_buf s" ?p]
    by (auto simp: double_splice_def)
  have b: "src_buf s ! gpos s = CHR 0x5C" "src_buf s ! ?p = CHR 0x5C"
    using assms l no_splice_plain [of s] no_splice_plain [of "s\<lparr>gpos := ?p\<rparr>"]
    by (auto simp: double_splice_def splice_len_drop)
  show ?thesis
    using assms l b by (simp add: source_peek_def Let_def double_splice_def take_splice_def)
qed

section \<open>Reading several characters\<close>

primrec source_reads :: "nat \<Rightarrow> source \<Rightarrow> char option list \<times> source" where
  "source_reads 0 s = ([], s)"
| "source_reads (Suc n) s =
     (case source_get s of (c, s1) \<Rightarrow> (case source_reads n s1 of (cs, s2) \<Rightarrow> (c # cs, s2)))"

lemma source_reads_Suc:
  "snd (source_reads (Suc n) s) = snd (source_reads n (snd (source_get s)))"
  "fst (source_reads (Suc n) s) = fst (source_get s) # fst (source_reads n (snd (source_get s)))"
  by (simp_all split: prod.split)

lemma source_reads_add:
  "snd (source_reads (m + n) s) = snd (source_reads n (snd (source_reads m s)))"
  by (induction m arbitrary: s) (simp_all add: source_reads_Suc del: source_reads.simps(2))

lemma source_reads_remaining:
  "n \<le> length (remaining s) \<Longrightarrow>
     fst (source_reads n s) = map Some (take n (remaining s))
     \<and> remaining (snd (source_reads n s)) = drop n (remaining s)"
proof (induction n arbitrary: s)
  case (Suc n)
  then obtain c cs where r: "remaining s = c # cs" by (cases "remaining s") auto
  have g: "fst (source_get s) = Some c" "remaining (snd (source_get s)) = cs"
    using source_get_remaining [of s] by (simp_all add: r)
  show ?case
    using Suc.IH [of "snd (source_get s)"] Suc.prems
    by (simp add: source_reads_Suc g r del: source_reads.simps(2))
qed simp

lemma remaining_push_front [simp]: "remaining (push_front_text t s) = t @ remaining s"
  by (simp add: push_front_text_def remaining_def)

lemma remaining_add_frame [simp]:
  "remaining (add_pushback_frame_len n d a b p s) = remaining s"
  by (simp add: add_pushback_frame_len_def remaining_def)

lemma remaining_update [simp]:
  "remaining (s\<lparr>expanded_names := x\<rparr>) = remaining s" "remaining (s\<lparr>column := i\<rparr>) = remaining s"
  by (simp_all add: remaining_def)

lemma remaining_push_painted: "remaining (push_painted n b segs s) = remaining s"
  by (induction n b segs s rule: push_painted.induct) (auto simp: Let_def split: list.splits)

lemma remaining_pushbacks:
  "remaining (source_pushback t s) = t @ remaining s"
  "remaining (pushback_reread t s) = t @ remaining s"
  "remaining (pushback_macro t mname p s) = t @ remaining s"
  "remaining (pushback_painted_text t segs s) = t @ remaining s"
  "remaining (pushback_macro_spans t mname spans pp s) = t @ remaining s"
proof -
  have "remaining (foldr (\<lambda>(len, paint). add_pushback_frame_len len d a b paint) xs s') = remaining s'"
    for xs d a b s' by (induction xs) (auto split: prod.split)
  then show "remaining (pushback_macro_spans t mname spans pp s) = t @ remaining s"
    by (simp add: pushback_macro_spans_def Let_def)
qed (simp_all add: source_pushback_def pushback_reread_def pushback_macro_def Let_def
      pushback_painted_text_def remaining_push_painted)

section \<open>A macro hidden while its expansion is read\<close>

text \<open>
  A source whose cursor is inside a frame \<open>f\<close> laid over the source \<open>base\<close>, with the text
  \<open>t\<close> of \<open>f\<close> still unread.
\<close>

definition serving :: "string \<Rightarrow> string \<Rightarrow> source \<Rightarrow> source \<Rightarrow> bool" where
  "serving mname t base s \<longleftrightarrow>
     (\<exists>f. frames s = f # frames base \<and> frame_macro f = mname \<and> frame_remaining f = length t)
     \<and> pushback s = pushback base @ rev t \<and> src_buf s = src_buf base \<and> gpos s = gpos base"

lemma serving_disabled: "serving mname t base s \<Longrightarrow> macro_disabled mname s"
  by (auto simp: serving_def macro_disabled_def)

lemma serving_get:
  assumes "serving mname (c # t) base s"
  shows "fst (source_get s) = Some c" and "serving mname t base (snd (source_get s))"
proof -
  have ne: "pushback s \<noteq> []" using assms by (simp add: serving_def)
  have g: "source_get s = get_pushback s" using ne by (subst source_get.simps) simp
  show "fst (source_get s) = Some c" using assms by (simp add: g serving_def)
  show "serving mname t base (snd (source_get s))"
    using assms by (auto simp: g serving_def get_pushback_def Let_def butlast_append)
qed

lemma serving_reads:
  "serving mname t base s \<Longrightarrow> k \<le> length t \<Longrightarrow>
     fst (source_reads k s) = map Some (take k t)
     \<and> serving mname (drop k t) base (snd (source_reads k s))"
proof (induction k arbitrary: t s)
  case (Suc k)
  then obtain c cs where t: "t = c # cs" by (cases t) auto
  note g = serving_get [OF Suc.prems(1) [unfolded t]]
  show ?case
    using Suc.IH [OF g(2)] Suc.prems(2)
    by (simp add: source_reads_Suc g(1) t del: source_reads.simps(2))
qed simp

lemma get_frames_empty: "pushback s = [] \<Longrightarrow> frames (snd (source_get s)) = []"
proof (induction s rule: source_get.induct)
  case (1 s)
  show ?case
  proof (cases "frames s = [] \<and> gpos s < length (src_buf s)
      \<and> src_buf s ! gpos s \<notin> {CHR 0x5C, CHR 0x0A, CHR 0x0D}")
    case True
    with "1.prems" show ?thesis by (subst source_get.simps) simp
  next
    case False
    let ?s = "s\<lparr>frames := []\<rparr>"
    have eq: "source_get s =
        (if length (src_buf s) \<le> gpos s then (None, ?s)
         else if splice_length_at (src_buf s) (gpos s) \<noteq> 0 then source_get (take_splice ?s)
         else get_byte ?s)"
      using False "1.prems" by (subst source_get.simps) (auto simp: Let_def)
    show ?thesis
    proof (cases "gpos s < length (src_buf s) \<and> splice_length_at (src_buf s) (gpos s) \<noteq> 0")
      case True
      then have "frames (snd (source_get (take_splice ?s))) = []"
        using "1.prems" False by (intro "1.IH") auto
      with True show ?thesis by (simp add: eq)
    next
      case False
      then show ?thesis by (auto simp: eq)
    qed
  qed
qed

text \<open>Reading on after the expansion drops its frame: the frames are those of the source below.\<close>

lemma serving_drained:
  assumes "serving mname [] base s"
  shows "frames (snd (source_get s)) = frames (snd (source_get base))"
proof (cases "pushback base = []")
  case True
  then show ?thesis using assms get_frames_empty [of s] get_frames_empty [of base]
    by (simp add: serving_def)
next
  case False
  have g: "source_get s = get_pushback s" "source_get base = get_pushback base"
    using assms False by (subst source_get.simps; simp add: serving_def)+
  have "drop_drained (frames s) = drop_drained (frames base)"
    using assms by (auto simp: serving_def)
  then show ?thesis
    by (simp add: g get_pushback_def Let_def split: list.split)
qed

lemma serving_pushback_macro:
  assumes "t \<noteq> []"
  shows "serving mname t s (pushback_macro t mname p s)"
  using assms
  by (simp add: serving_def pushback_macro_def Let_def push_front_text_def add_pushback_frame_len_def)

section \<open>Line numbers\<close>

definition newlines :: "string \<Rightarrow> int" where
  "newlines t = int (length (filter (\<lambda>c. c = CHR 0x0A) t))"

lemma newlines_simps [simp]:
  "newlines [] = 0" "newlines (c # t) = (if c = CHR 0x0A then 1 + newlines t else newlines t)"
  "newlines (t @ u) = newlines t + newlines u"
  by (simp_all add: newlines_def)

lemma newlines_blank: "\<forall>c \<in> set t. splice_blank c \<Longrightarrow> newlines t = 0"
  by (induction t) (auto simp: splice_blank_def)

lemma newlines_splice:
  assumes "splice_len t \<noteq> 0" and "CHR 0x0D \<notin> set t"
  shows "newlines (take (splice_len t) t) = 1"
proof -
  obtain c u where t: "t = c # u" using assms(1) by (cases t) auto
  have c: "c = CHR 0x5C" using assms(1) splice_len_head by (simp add: t)
  let ?w = "takeWhile splice_blank u"
  obtain d v where d: "dropWhile splice_blank u = d # v"
    using assms(1) by (auto simp: splice_len_def splice_length_at_def t Let_def split: list.splits if_splits)
  have u: "u = ?w @ d # v" using takeWhile_dropWhile_id [of splice_blank u] by (simp add: d)
  have "d \<in> set u" by (subst u) simp
  then have "d \<noteq> CHR 0x0D" using assms(2) by (auto simp: t)
  then have dn: "d = CHR 0x0A" and l: "splice_len t = length ?w + 2"
    using assms(1) by (auto simp: splice_len_def splice_length_at_def t c d Let_def split: if_splits)
  have "take (splice_len t) t = c # ?w @ [d]"
    using arg_cong [OF u, of "take (length ?w + 1)"] by (simp add: l t [symmetric]) (simp add: t)
  moreover have "newlines ?w = 0"
    by (rule newlines_blank) (blast dest: set_takeWhileD)
  ultimately show ?thesis by (simp add: c dn)
qed

text \<open>The counter is right when it counts the new-lines in front of the cursor.\<close>

definition line_ok :: "source \<Rightarrow> bool" where
  "line_ok s \<longleftrightarrow> cr s = 0 \<and> lf s = newlines (take (gpos s) (src_buf s)) \<and> CHR 0x0D \<notin> set (src_buf s)"

lemma line_ok_splice:
  assumes "line_ok s" and "splice_length_at (src_buf s) (gpos s) \<noteq> 0"
  shows "line_ok (take_splice s)"
proof -
  let ?k = "splice_length_at (src_buf s) (gpos s)"
  have "CHR 0x0D \<notin> set (drop (gpos s) (src_buf s))"
    using assms(1) set_drop_subset [of "gpos s" "src_buf s"] by (auto simp: line_ok_def)
  then have "newlines (take ?k (drop (gpos s) (src_buf s))) = 1"
    using assms(2) newlines_splice [of "drop (gpos s) (src_buf s)"] by (simp add: splice_len_drop)
  then show ?thesis using assms(1) by (simp add: line_ok_def take_add)
qed

lemma line_ok_byte:
  assumes "line_ok s" and "gpos s < length (src_buf s)"
  shows "line_ok (snd (get_byte s))"
proof -
  have "src_buf s ! gpos s \<noteq> CHR 0x0D" using assms nth_mem by (force simp: line_ok_def)
  then show ?thesis
    using assms by (auto simp: line_ok_def get_byte_def Let_def take_Suc_conv_app_nth)
qed

lemma line_ok_cong:
  "line_ok s \<Longrightarrow> src_buf s' = src_buf s \<Longrightarrow> gpos s' = gpos s \<Longrightarrow> lf s' = lf s \<Longrightarrow> cr s' = cr s \<Longrightarrow> line_ok s'"
  by (simp add: line_ok_def)

lemma line_ok_get: "line_ok s \<Longrightarrow> line_ok (snd (source_get s))"
proof (induction s rule: source_get.induct)
  case (1 s)
  let ?s = "s\<lparr>frames := []\<rparr>"
  have ok: "line_ok ?s" using "1.prems" by (rule line_ok_cong) simp_all
  show ?case
  proof (cases "pushback s = [] \<and> \<not> (frames s = [] \<and> gpos s < length (src_buf s)
      \<and> src_buf s ! gpos s \<notin> {CHR 0x5C, CHR 0x0A, CHR 0x0D})")
    case False
    then show ?thesis
    proof (cases "pushback s = []")
      case True
      with False "1.prems" show ?thesis
        by (subst source_get.simps) (simp add: line_ok_def take_Suc_conv_app_nth)
    next
      case p: False
      then have "source_get s = get_pushback s" by (subst source_get.simps) simp
      then show ?thesis using "1.prems" by (simp add: line_ok_def)
    qed
  next
    case True
    then have eq: "source_get s =
        (if length (src_buf s) \<le> gpos s then (None, ?s)
         else if splice_length_at (src_buf s) (gpos s) \<noteq> 0 then source_get (take_splice ?s)
         else get_byte ?s)"
      by (subst source_get.simps) (auto simp: Let_def)
    show ?thesis
    proof (cases "gpos s < length (src_buf s) \<and> splice_length_at (src_buf s) (gpos s) \<noteq> 0")
      case t: True
      then have "line_ok (snd (source_get (take_splice ?s)))"
        using True line_ok_splice [OF ok] by (intro "1.IH") auto
      with t show ?thesis by (simp add: eq)
    next
      case False
      then show ?thesis using ok line_ok_byte [OF ok] by (auto simp: eq)
    qed
  qed
qed

section \<open>A source as a reader\<close>

text \<open>No two splices of the text meet: the condition under which \<open>peek\<close> tells the truth.\<close>

definition splices_apart :: "string \<Rightarrow> bool" where
  "splices_apart t \<longleftrightarrow>
     (\<forall>i \<le> length t. splice_len (drop i t) \<noteq> 0 \<longrightarrow> splice_len (drop (i + splice_len (drop i t)) t) = 0)"

definition source_valid :: "source \<Rightarrow> bool" where
  "source_valid s \<longleftrightarrow> splices_apart (drop (gpos s) (src_buf s))"

definition source_reader :: "source reader" where
  "source_reader = \<lparr>rd_good = source_good, rd_peek = source_peek, rd_get = source_get, rd_left = unread\<rparr>"

lemma splices_apart_drop:
  assumes "splices_apart t"
  shows "splices_apart (drop k t)"
  unfolding splices_apart_def
proof (intro allI impI)
  fix i assume i: "i \<le> length (drop k t)" "splice_len (drop i (drop k t)) \<noteq> 0"
  then have "i + k \<le> length t" by (cases "k \<le> length t") auto
  then have "splice_len (drop (i + k + splice_len (drop (i + k) t)) t) = 0"
    using assms i(2) unfolding splices_apart_def by (simp add: add.commute)
  then show "splice_len (drop (i + splice_len (drop i (drop k t))) (drop k t)) = 0"
    by (simp add: ac_simps)
qed

lemma source_valid_later:
  assumes "source_valid s" and "src_buf s' = src_buf s" and "gpos s \<le> gpos s'"
  shows "source_valid s'"
proof -
  have "drop (gpos s') (src_buf s') = drop (gpos s' - gpos s) (drop (gpos s) (src_buf s))"
    using assms(2,3) by simp
  then show ?thesis using assms(1) splices_apart_drop unfolding source_valid_def by metis
qed

lemma source_valid_not_double: "source_valid s \<Longrightarrow> \<not> double_splice s"
  by (auto simp: source_valid_def splices_apart_def double_splice_def splice_len_drop add.commute
      dest: spec [of _ 0])

lemma get_advances: "src_buf (snd (source_get s)) = src_buf s \<and> gpos s \<le> gpos (snd (source_get s))"
proof (induction s rule: source_get.induct)
  case (1 s)
  let ?s = "s\<lparr>frames := []\<rparr>"
  show ?case
  proof (cases "pushback s = [] \<and> \<not> (frames s = [] \<and> gpos s < length (src_buf s)
      \<and> src_buf s ! gpos s \<notin> {CHR 0x5C, CHR 0x0A, CHR 0x0D})")
    case False
    then show ?thesis by (subst (1 2) source_get.simps) auto
  next
    case True
    then have eq: "source_get s =
        (if length (src_buf s) \<le> gpos s then (None, ?s)
         else if splice_length_at (src_buf s) (gpos s) \<noteq> 0 then source_get (take_splice ?s)
         else get_byte ?s)"
      by (subst source_get.simps) (auto simp: Let_def)
    show ?thesis
    proof (cases "gpos s < length (src_buf s) \<and> splice_length_at (src_buf s) (gpos s) \<noteq> 0")
      case t: True
      then have "src_buf (snd (source_get (take_splice ?s))) = src_buf (take_splice ?s)
          \<and> gpos (take_splice ?s) \<le> gpos (snd (source_get (take_splice ?s)))"
        using True by (intro "1.IH") auto
      with t show ?thesis by (simp add: eq)
    next
      case False
      then show ?thesis by (auto simp: eq)
    qed
  qed
qed

lemma peek_advances: "src_buf (snd (source_peek s)) = src_buf s \<and> gpos s \<le> gpos (snd (source_peek s))"
  by (simp add: source_peek_def Let_def)

lemma remaining_good: "remaining s \<noteq> [] \<Longrightarrow> source_good s"
  by (cases "gpos s < length (src_buf s)") (auto simp: remaining_def source_good_def)

lemma length_unsplice: "length (unsplice t) \<le> length t"
proof (induction t rule: unsplice.induct)
  case (2 c t)
  then show ?case using continued_shorter [of t] by (fastforce split: option.splits if_splits)
qed simp

interpretation source: reader_laws source_reader source_valid remaining
proof
  show "source_valid s \<Longrightarrow> rd_good source_reader s \<Longrightarrow> source_valid (snd (rd_peek source_reader s))" for s
    using source_valid_later peek_advances by (auto simp: source_reader_def)
  show "source_valid s \<Longrightarrow> remaining s \<noteq> [] \<Longrightarrow> source_valid (snd (rd_get source_reader s))" for s
    using source_valid_later get_advances by (auto simp: source_reader_def)
  show "source_valid s \<Longrightarrow> remaining s \<noteq> [] \<Longrightarrow> fst (rd_peek source_reader s) = first_char (remaining s)" for s
    using source_peek_head source_valid_not_double by (simp add: source_reader_def)
  show "source_valid s \<Longrightarrow> rd_good source_reader s \<Longrightarrow> remaining s = [] \<Longrightarrow>
      fst (rd_peek source_reader s) = None" for s
    using source_peek_head [of s] source_valid_not_double by (simp add: source_reader_def)
  show "source_valid s \<Longrightarrow> remaining s \<noteq> [] \<Longrightarrow> fst (rd_get source_reader s) = first_char (remaining s)" for s
    using source_get_remaining [of s] by (simp add: source_reader_def)
  show "source_valid s \<Longrightarrow> length (remaining s) \<le> rd_left source_reader s" for s
    using length_unsplice [of "drop (gpos s) (src_buf s)"]
    by (simp add: source_reader_def remaining_def unread_def)
qed (auto simp: source_reader_def remaining_good source_peek_remaining source_get_remaining)

section \<open>Skipping a line\<close>

lemma unread_get: "unread (snd (source_get s)) < unread s \<or> unread (snd (source_get s)) = 0"
proof (induction s rule: source_get.induct)
  case (1 s)
  let ?s = "s\<lparr>frames := []\<rparr>"
  show ?case
  proof (cases "pushback s = [] \<and> \<not> (frames s = [] \<and> gpos s < length (src_buf s)
      \<and> src_buf s ! gpos s \<notin> {CHR 0x5C, CHR 0x0A, CHR 0x0D})")
    case False
    then show ?thesis
      by (subst (1 2) source_get.simps) (auto simp: unread_def neq_Nil_conv)
  next
    case True
    then have eq: "source_get s =
        (if length (src_buf s) \<le> gpos s then (None, ?s)
         else if splice_length_at (src_buf s) (gpos s) \<noteq> 0 then source_get (take_splice ?s)
         else get_byte ?s)"
      by (subst source_get.simps) (auto simp: Let_def)
    show ?thesis
    proof (cases "gpos s < length (src_buf s) \<and> splice_length_at (src_buf s) (gpos s) \<noteq> 0")
      case t: True
      then have "unread (snd (source_get (take_splice ?s))) < unread (take_splice ?s)
          \<or> unread (snd (source_get (take_splice ?s))) = 0"
        using True by (intro "1.IH") auto
      with t True show ?thesis by (auto simp: eq unread_def)
    next
      case False
      with True show ?thesis by (auto simp: eq unread_def)
    qed
  qed
qed

lemma unread_peek: "unread (snd (source_peek s)) \<le> unread s"
  by (auto simp: source_peek_def unread_def Let_def)

lemma unread_remaining: "unread s = 0 \<Longrightarrow> remaining s = []"
  by (simp add: unread_def remaining_def)

definition line_char :: "char \<Rightarrow> bool" where
  "line_char c \<longleftrightarrow> c \<noteq> CHR 0x0A \<and> c \<noteq> CHR 0x0D"

lemma unsplice_plain_run:
  "\<forall>c \<in> set run. c \<noteq> CHR 0x5C \<Longrightarrow> unsplice (run @ t) = run @ unsplice t"
proof (induction run)
  case (Cons c run)
  then have "splice_len (c # run @ t) = 0" using splice_len_head [of c "run @ t"] by auto
  with Cons show ?case by simp
qed simp

lemma remaining_fast_span:
  assumes "fast_span plain_byte s = Some (run, s1)"
  shows "remaining s = run @ remaining s1" and "\<forall>c \<in> set run. line_char c"
    and "unread s = length run + unread s1" and "source_valid s \<Longrightarrow> source_valid s1"
proof -
  let ?t = "drop (gpos s) (src_buf s)"
  have p: "pushback s = []" and run: "run = takeWhile plain_byte ?t"
    and s1: "s1 = s\<lparr>gpos := gpos s + length run, column := column s + int (length run)\<rparr>"
    using assms by (auto simp: fast_span_def Let_def split: if_splits)
  have t: "?t = run @ drop (length run) ?t"
    using takeWhile_eq_take [of plain_byte ?t] append_take_drop_id [of "length run" ?t] by (simp add: run)
  have plain: "\<forall>c \<in> set run. plain_byte c" by (auto simp: run dest: set_takeWhileD)
  then show "\<forall>c \<in> set run. line_char c" by (simp add: plain_byte_def line_char_def)
  have "unsplice ?t = run @ unsplice (drop (length run) ?t)"
    using unsplice_plain_run [of run "drop (length run) ?t"] plain t by (auto simp: plain_byte_def)
  then show "remaining s = run @ remaining s1" by (simp add: remaining_def p s1 add.commute)
  have "length run \<le> length ?t" by (metis append_eq_conv_conj t length_take min.cobounded1 nat_le_linear take_all)
  then show "unread s = length run + unread s1" by (cases "gpos s < length (src_buf s)") (auto simp: unread_def p s1)
  show "source_valid s \<Longrightarrow> source_valid s1" by (erule source_valid_later) (simp_all add: s1)
qed

lemma skip_line_go_remaining:
  "source_valid s \<Longrightarrow> unread s \<le> n \<Longrightarrow>
     remaining (skip_line_go n s) = dropWhile line_char (remaining s)"
proof (induction n arbitrary: s)
  case 0
  then show ?case using unread_remaining by simp
next
  case (Suc n)
  show ?case
  proof (cases "source_good s")
    case False
    then have "remaining s = []" using remaining_good [of s] by blast
    with False show ?thesis by simp
  next
    case good: True
    obtain c s1 where pk: "source_peek s = (c, s1)" by fastforce
    have c: "c = first_char (remaining s)"
      using source_peek_head [OF source_valid_not_double [OF Suc.prems(1)]] pk by simp
    have r1: "remaining s1 = remaining s" using source_peek_remaining [of s] pk by simp
    have v1: "source_valid s1" using source_valid_later [OF Suc.prems(1)] peek_advances [of s] pk by simp
    have by_get: "remaining (if c = Some (CHR 0x0A) \<or> c = Some (CHR 0x0D) then s1
        else skip_line_go n (snd (source_get s1))) = dropWhile line_char (remaining s)"
    proof (cases "c = Some (CHR 0x0A) \<or> c = Some (CHR 0x0D)")
      case True
      then show ?thesis using c r1 by (cases "remaining s") (auto simp: line_char_def)
    next
      case False
      have "unread (snd (source_get s1)) \<le> n"
        using unread_get [of s1] unread_peek [of s] Suc.prems(2) pk by auto
      moreover have "source_valid (snd (source_get s1))"
        using source_valid_later [OF v1] get_advances [of s1] by simp
      ultimately have "remaining (skip_line_go n (snd (source_get s1))) = dropWhile line_char (tl (remaining s))"
        using Suc.IH source_get_remaining [of s1] r1 by simp
      then show ?thesis using False c by (cases "remaining s") (auto simp: line_char_def)
    qed
    show ?thesis
    proof (cases "fast_span plain_byte s")
      case None
      with good by_get pk show ?thesis by (simp add: Let_def)
    next
      case (Some p)
      obtain run s2 where p: "p = (run, s2)" by fastforce
      note fs = remaining_fast_span [OF Some [unfolded p]]
      show ?thesis
      proof (cases "run = []")
        case True
        have "s2 = s" using Some True by (auto simp: p fast_span_def Let_def split: if_splits)
        with good by_get pk Some True show ?thesis by (simp add: p Let_def)
      next
        case False
        then have "unread s2 \<le> n" using fs(3) Suc.prems(2) by (cases run) auto
        then have "remaining (skip_line_go n s2) = dropWhile line_char (remaining s2)"
          using Suc.IH fs(4) Suc.prems(1) by blast
        then show ?thesis using good Some False fs(1,2) by (simp add: p Let_def dropWhile_append)
      qed
    qed
  qed
qed

section \<open>Block comments\<close>

lemma not_good_remaining: "\<not> source_good s \<Longrightarrow> remaining s = []"
  using remaining_good [of s] by blast

lemma find_close_step:
  "find_at ''*/'' (p # c # t) i = (if p = CHR ''*'' \<and> c = CHR ''/'' then Some i else find_at ''*/'' (c # t) (Suc i))"
  by (simp add: has_prefix_def)

lemma find_at_shift: "find_at p s (Suc i) = map_option Suc (find_at p s i)"
  by (induction p s i rule: find_at.induct) auto

text \<open>The loop closes at the first \<open>*/\<close> of the previous character followed by the text.\<close>

lemma comment_go_find:
  "unread s \<le> n \<Longrightarrow> (case prev of None \<Rightarrow> p \<noteq> CHR ''*'' | Some q \<Rightarrow> q = p) \<Longrightarrow>
     (case find_at ''*/'' (p # remaining s) 0 of
        None \<Rightarrow> fst (comment_go n prev keep s) = False
      | Some k \<Rightarrow> fst (comment_go n prev keep s) = True
          \<and> fst (snd (comment_go n prev keep s)) = keep @ take (Suc k) (remaining s)
          \<and> remaining (snd (snd (comment_go n prev keep s))) = drop (Suc k) (remaining s))"
proof (induction n arbitrary: s prev p keep)
  case 0
  then show ?case using unread_remaining [of s] by (simp add: has_prefix_def)
next
  case (Suc n)
  show ?case
  proof (cases "source_good s \<and> \<not> source_eof s")
    case False
    then have "remaining s = []"
      using not_good_remaining [of s] by (auto simp: source_eof_def source_good_def)
    with False show ?thesis by (auto simp: has_prefix_def)
  next
    case True
    obtain c s1 where g: "source_get s = (c, s1)" by fastforce
    have c: "c = first_char (remaining s)" and r: "remaining s1 = tl (remaining s)"
      using source_get_remaining [of s] by (simp_all add: g)
    have u: "unread s1 \<le> n" using unread_get [of s] Suc.prems(1) by (auto simp: g)
    show ?thesis
    proof (cases "remaining s")
      case Nil
      have "fst (comment_go n None k s1) = False" for k
        using Suc.IH [OF u, of "CHR 0x00" None k] r by (simp add: Nil has_prefix_def)
      with True g c Nil show ?thesis by (simp add: has_prefix_def)
    next
      case (Cons d ds)
      have step: "comment_go (Suc n) prev keep s =
          (if prev = Some (CHR ''*'') \<and> d = CHR ''/'' then (True, keep @ [d], s1)
           else comment_go n (Some d) (keep @ [d]) s1)"
        using True g c by (simp add: Cons Let_def)
      have rd: "remaining s1 = ds" by (simp add: r Cons)
      have ih: "case find_at ''*/'' (d # ds) 0 of
        None \<Rightarrow> fst (comment_go n (Some d) (keep @ [d]) s1) = False
      | Some k \<Rightarrow> fst (comment_go n (Some d) (keep @ [d]) s1) = True
          \<and> fst (snd (comment_go n (Some d) (keep @ [d]) s1)) = (keep @ [d]) @ take (Suc k) ds
          \<and> remaining (snd (snd (comment_go n (Some d) (keep @ [d]) s1))) = drop (Suc k) ds"
        using Suc.IH [OF u, of d "Some d" "keep @ [d]"] unfolding rd by simp
      have pv: "prev = Some (CHR ''*'') \<longleftrightarrow> p = CHR ''*''"
        using Suc.prems(2) by (cases prev) auto
      show ?thesis
      proof (cases "p = CHR ''*'' \<and> d = CHR ''/''")
        case True
        then show ?thesis
          unfolding step Cons find_close_step using pv r by (simp add: Cons)
      next
        case False
        then show ?thesis
          unfolding step Cons find_close_step find_at_shift using pv ih
          by (auto split: option.splits simp del: find_at.simps)
      qed
    qed
  qed
qed

lemma comment_go_start:
  "case str_find (remaining s) ''*/'' 0 of
     None \<Rightarrow> fst (comment_go (unread s) None [] s) = False
   | Some k \<Rightarrow> fst (comment_go (unread s) None [] s) = True
       \<and> fst (snd (comment_go (unread s) None [] s)) = take (k + 2) (remaining s)
       \<and> remaining (snd (snd (comment_go (unread s) None [] s))) = drop (k + 2) (remaining s)"
proof -
  have z: "find_at ''*/'' (CHR 0x00 # remaining s) 0 = map_option Suc (find_at ''*/'' (remaining s) 0)"
    by (simp add: has_prefix_def find_at_shift)
  show ?thesis
    using comment_go_find [of s "unread s" "CHR 0x00" None "[]"] unfolding z
    by (auto simp: str_find_def split: option.splits simp del: find_at.simps)
qed

section \<open>Reading again what was read\<close>

definition rereading :: "bool \<Rightarrow> string \<Rightarrow> source \<Rightarrow> bool" where
  "rereading rc t s \<longleftrightarrow>
     (\<exists>f fs u. frames s = f # fs \<and> frame_remaining f = length t \<and> frame_recount f = rc
        \<and> \<not> frame_synth f \<and> pushback s = u @ rev t)"

lemma rereading_get:
  assumes "rereading rc (c # t) s"
  shows "rereading rc t (snd (source_get s))"
    and "column (snd (source_get s)) = column s + (if rc then 1 else 0)"
proof -
  have ne: "pushback s \<noteq> []" using assms by (auto simp: rereading_def)
  have g: "source_get s = get_pushback s" using ne by (subst source_get.simps) simp
  show "rereading rc t (snd (source_get s))"
    using assms by (auto simp: g rereading_def get_pushback_def Let_def butlast_append)
  show "column (snd (source_get s)) = column s + (if rc then 1 else 0)"
    using assms by (auto simp: g rereading_def get_pushback_def Let_def count_column_def)
qed

lemma rereading_reads:
  "rereading rc t s \<Longrightarrow>
     column (snd (source_reads (length t) s)) = column s + (if rc then int (length t) else 0)"
proof (induction t arbitrary: s)
  case (Cons c t)
  note g = rereading_get [OF Cons.prems]
  show ?case using Cons.IH [OF g(1)] g(2) by (simp add: source_reads_Suc del: source_reads.simps(2))
qed simp

section \<open>Properties\<close>

text \<open>
  C8: \<open>get\<close> refines taking the head of the remaining text.  Whatever is in the pushback and
  the buffer, splices folded, \<open>get\<close> returns the first remaining character and leaves the
  others; text pushed back by any of the five operations is read before everything else.  What a
  splice is, \<open>continued\<close> says by itself: a backslash, blanks, and a line end.
\<close>

theorem source_get_refines:
  "fst (source_get s) = first_char (remaining s)
   \<and> remaining (snd (source_get s)) = tl (remaining s)
   \<and> remaining (source_pushback t s) = t @ remaining s
   \<and> remaining (pushback_reread t s) = t @ remaining s
   \<and> remaining (pushback_macro t mname p s) = t @ remaining s
   \<and> remaining (pushback_painted_text t segs s) = t @ remaining s
   \<and> remaining (pushback_macro_spans t mname spans pp s) = t @ remaining s"
  using source_get_remaining [of s] remaining_pushbacks by auto

text \<open>
  C9: a macro is hidden exactly while its expansion is read.  After \<open>pushback_macro\<close> its name
  is disabled before and after every read of the replacement text, up to and including the
  read of its last character; the next read drops the frame, so the frames are those a read
  of the source below would have left.
\<close>

theorem macro_hidden_while_read:
  assumes "t \<noteq> []" and "k \<le> length t"
  shows "fst (source_reads k (pushback_macro t mname p s)) = map Some (take k t)
    \<and> macro_disabled mname (snd (source_reads k (pushback_macro t mname p s)))
    \<and> frames (snd (source_reads (Suc (length t)) (pushback_macro t mname p s)))
        = frames (snd (source_get s))"
proof -
  note sv = serving_pushback_macro [OF assms(1), of mname s p]
  have "serving mname [] s (snd (source_reads (length t) (pushback_macro t mname p s)))"
    using serving_reads [OF sv order_refl] by simp
  from serving_drained [OF this] show ?thesis
    using serving_reads [OF sv assms(2)] serving_disabled
      source_reads_add [of "length t" 1 "pushback_macro t mname p s"]
    by (auto simp: source_reads_Suc simp del: source_reads.simps(2))
qed

theorem macro_hidden_while_read_witness:
  "macro_disabled ''A'' (snd (source_reads 1 (pushback_macro ''A'' ''A'' None source_start)))"
  using macro_hidden_while_read [of "''A''" 1 "''A''" None source_start] by simp

text \<open>
  Line numbers.  On a text without carriage returns, from a position where the line
  number is one more than the number of new-lines in front of the cursor, it stays so
  however many characters are read and whatever macro expansions are pushed back.
\<close>

theorem line_number_counts_newlines:
  assumes "CHR 0x0D \<notin> set text"
  shows "source_line (snd (source_reads n (pushback_macro t mname p
            (snd (source_reads m (start_unit text source_start))))))
    = 1 + newlines (take (gpos (snd (source_reads n (pushback_macro t mname p
            (snd (source_reads m (start_unit text source_start))))))) text)"
proof -
  have reads: "line_ok (snd (source_reads k s)) \<and> src_buf (snd (source_reads k s)) = src_buf s"
    if "line_ok s" for k s
    using that
  proof (induction k arbitrary: s)
    case (Suc k)
    then show ?case
      using line_ok_get [of s] get_advances [of s]
      by (simp add: source_reads_Suc del: source_reads.simps(2))
  qed simp
  let ?s0 = "start_unit text source_start" and ?s1 = "snd (source_reads m (start_unit text source_start))"
  have "line_ok ?s0" using assms by (simp add: line_ok_def start_unit_def source_str_def source_start_def)
  then have s1: "line_ok ?s1 \<and> src_buf ?s1 = text"
    using reads [of ?s0 m] by (simp add: start_unit_def source_str_def)
  then have "line_ok (pushback_macro t mname p ?s1) \<and> src_buf (pushback_macro t mname p ?s1) = text"
    by (auto simp: line_ok_def pushback_macro_def Let_def push_front_text_def add_pushback_frame_len_def)
  then have "line_ok (snd (source_reads n (pushback_macro t mname p ?s1)))
      \<and> src_buf (snd (source_reads n (pushback_macro t mname p ?s1))) = text"
    using reads by auto
  then show ?thesis by (auto simp: line_ok_def source_line_def newlines_def)
qed

theorem line_number_counts_newlines_witness:
  "source_line (snd (source_reads 2 (pushback_macro ''x'' ''A'' None
      (snd (source_reads 2 (start_unit [CHR ''A'', CHR 0x0A, CHR ''b''] source_start)))))) = 2"
proof -
  let ?t = "[CHR ''A'', CHR 0x0A, CHR ''b'']"
  have "gpos (snd (source_reads 2 (pushback_macro ''x'' ''A'' None
      (snd (source_reads 2 (start_unit ?t source_start)))))) = 3" by code_simp
  then show ?thesis
    using line_number_counts_newlines [of ?t 2 "''x''" "''A''" None 2] by simp
qed

text \<open>
  \<open>skip_line_rest\<close> stops at the line's end.  On a text in which no two splices meet it
  reads exactly the characters up to the next new-line or carriage return.
\<close>

theorem skip_line_rest_stops_at_line_end:
  assumes "source_valid s"
  shows "remaining (skip_line_rest s) = dropWhile line_char (remaining s)"
  unfolding skip_line_rest_def by (rule skip_line_go_remaining [OF assms order_refl])

theorem skip_line_rest_stops_at_line_end_witness:
  "remaining (skip_line_rest (source_str [CHR ''a'', CHR 0x5C, CHR 0x0A, CHR ''b'', CHR 0x0A, CHR ''c''] source_start))
   = [CHR 0x0A, CHR ''c'']"
proof -
  let ?s = "source_str [CHR ''a'', CHR 0x5C, CHR 0x0A, CHR ''b'', CHR 0x0A, CHR ''c''] source_start"
  have "list_all (\<lambda>i. splice_len (drop i (src_buf ?s)) \<noteq> 0 \<longrightarrow>
      splice_len (drop (i + splice_len (drop i (src_buf ?s))) (src_buf ?s)) = 0) [0..<7]" by code_simp
  then have "source_valid ?s"
    unfolding source_valid_def splices_apart_def list_all_iff
    by (auto simp: source_str_def source_start_def)
  moreover have "dropWhile line_char (remaining ?s) = [CHR 0x0A, CHR ''c'']" by code_simp
  ultimately show ?thesis using skip_line_rest_stops_at_line_end by simp
qed

text \<open>
  Where two splices meet, \<open>peek\<close> does not return the character the next \<open>get\<close> returns:
  it answers the backslash of the second splice.
\<close>

theorem peek_between_splices:
  assumes "double_splice s"
  shows "fst (source_peek s) = Some (CHR 0x5C) \<and> fst (source_get s) = first_char (remaining s)"
  using source_peek_double [OF assms] source_get_remaining [of s] by simp

theorem peek_between_splices_witness:
  "fst (source_peek (source_str [CHR 0x5C, CHR 0x0A, CHR 0x5C, CHR 0x0A, CHR 0x0A] source_start)) = Some (CHR 0x5C)
   \<and> fst (source_get (source_str [CHR 0x5C, CHR 0x0A, CHR 0x5C, CHR 0x0A, CHR 0x0A] source_start)) = Some (CHR 0x0A)"
proof -
  let ?s = "source_str [CHR 0x5C, CHR 0x0A, CHR 0x5C, CHR 0x0A, CHR 0x0A] source_start"
  have "double_splice ?s" and "first_char (remaining ?s) = Some (CHR 0x0A)" by code_simp+
  then show ?thesis using peek_between_splices [of ?s] by simp
qed

text \<open>
  A block comment ends at its first \<open>*/\<close>.  When the remaining text has one, the reader
  consumes and keeps the text through it and nothing more; when it has none, the call
  throws, with the position put back to the row and column of the opening, or leaves that
  refusal for the token reader where it is to be deferred.
\<close>

theorem consume_block_comment_first_close:
  "case str_find (remaining s) ''*/'' 0 of
     Some k \<Rightarrow> (\<exists>s'. consume_block_comment row col defer s = (Inr (True, take (k + 2) (remaining s)), s')
                 \<and> remaining s' = drop (k + 2) (remaining s))
   | None \<Rightarrow>
       (if defer
        then (\<exists>keep s'. consume_block_comment row col defer s = (Inr (False, keep), s')
                \<and> deferred_refusal s' = Some (''unterminated comment'', row, col))
        else (\<exists>s'. consume_block_comment row col defer s = (Inl (Thrown ''unterminated comment''), s')
                \<and> source_line s' = row \<and> column s' = col \<and> refused_at_end s'))"
proof -
  obtain b keep s1 where g: "comment_go (unread s) None [] s = (b, keep, s1)"
    by (cases "comment_go (unread s) None [] s") auto
  show ?thesis
    using comment_go_start [of s]
    by (cases "str_find (remaining s) ''*/'' 0")
      (auto simp: consume_block_comment_def g setpos_def source_line_def)
qed

text \<open>
  Looking ahead leaves no trace in the column.  Text pushed back by \<open>pushback_reread\<close> and
  read again brings the column back to where it was.
\<close>

theorem pushback_reread_column:
  "column (snd (source_reads (length t) (pushback_reread t s))) = column s
   \<and> remaining (snd (source_reads (length t) (pushback_reread t s))) = remaining s"
proof -
  have rem: "remaining (snd (source_reads (length t) (pushback_reread t s))) = remaining s"
    using source_reads_remaining [of "length t" "pushback_reread t s"] remaining_pushbacks(2) [of t s] by simp
  have "column (snd (source_reads (length t) (pushback_reread t s))) = column s"
  proof (cases "t = []")
    case True
    then show ?thesis by (simp add: pushback_reread_def add_pushback_frame_len_def push_front_text_def)
  next
    case False
    let ?same = "CHR 0x0A \<notin> set t \<and> CHR 0x0D \<notin> set t \<and> int (length t) \<le> column s"
    have "rereading ?same t (pushback_reread t s)"
      using False
      by (auto simp: rereading_def pushback_reread_def add_pushback_frame_len_def push_front_text_def)
    moreover have "column (pushback_reread t s) = column s - (if ?same then int (length t) else 0)"
      using False by (simp add: pushback_reread_def add_pushback_frame_len_def push_front_text_def)
    ultimately show ?thesis using rereading_reads by auto
  qed
  with rem show ?thesis by simp
qed

end
