(* ===== verification/Literals.thy ===== *)
theory Literals
  imports Reader "HOL-Library.Word"
begin

unbundle bit_operations_syntax

text \<open>
  The literal readers of \<^verbatim>\<open>src/lexer.cpp\<close>: UTF-8 in and out, the escape reader every
  literal kind shares, the value of a narrow character constant, string and character
  literals with and without an encoding prefix, and the digit loops of integer literals.

  They are definitions over a \<open>reader\<close>, as in the code.  A C++ \<open>uint32_t\<close>, \<open>uint64_t\<close> or
  \<open>unsigned __int128\<close> is a word of that width.  A warning that the code reports is returned
  beside the result; \<open>throw\<close> is \<open>Inl (Thrown message)\<close>.
\<close>

section \<open>UTF-8\<close>

text \<open>A character or \<open>-1\<close> as \<open>unsigned char\<close>, widened.\<close>

definition uchar :: "char option \<Rightarrow> 32 word" where
  "uchar c = (case c of None \<Rightarrow> 0xFF | Some ch \<Rightarrow> of_nat (byte ch))"

definition to_char :: "'a::len word \<Rightarrow> char" where
  "to_char w = char_of (unat w)"

primrec utf8_tail ::
    "nat \<Rightarrow> 's reader \<Rightarrow> 32 word \<Rightarrow> 32 word \<Rightarrow> 's \<Rightarrow> 32 word \<times> 's" where
  "utf8_tail 0 R lead cp s = (cp, s)"
| "utf8_tail (Suc need) R lead cp s =
     (if \<not> rd_good R s then (lead, s)
      else
        (case rd_peek R s of
           (c, s1) \<Rightarrow>
             (if uchar c AND 0xC0 \<noteq> 0x80 then (lead, s1)
              else utf8_tail need R lead (push_bit 6 cp OR (uchar c AND 0x3F)) (snd (rd_get R s1)))))"

definition read_utf8_codepoint :: "'s reader \<Rightarrow> 32 word \<Rightarrow> 's \<Rightarrow> 32 word \<times> 's" where
  "read_utf8_codepoint R lead s =
     (if lead < 0x80 then (lead, s)
      else if lead AND 0xE0 = 0xC0 then utf8_tail 1 R lead (lead AND 0x1F) s
      else if lead AND 0xF0 = 0xE0 then utf8_tail 2 R lead (lead AND 0x0F) s
      else if lead AND 0xF8 = 0xF0 then utf8_tail 3 R lead (lead AND 0x07) s
      else (lead, s))"

definition append_utf8_codepoint :: "string \<Rightarrow> 32 word \<Rightarrow> string" where
  "append_utf8_codepoint out cp =
     (if cp < 0x80 then out @ [to_char cp]
      else if cp < 0x800 then
        out @ [to_char (0xC0 OR drop_bit 6 cp), to_char (0x80 OR (cp AND 0x3F))]
      else if cp < 0x10000 then
        out @ [to_char (0xE0 OR drop_bit 12 cp), to_char (0x80 OR (drop_bit 6 cp AND 0x3F)),
               to_char (0x80 OR (cp AND 0x3F))]
      else
        out @ [to_char (0xF0 OR drop_bit 18 cp), to_char (0x80 OR (drop_bit 12 cp AND 0x3F)),
               to_char (0x80 OR (drop_bit 6 cp AND 0x3F)), to_char (0x80 OR (cp AND 0x3F))])"

definition append_wide_codepoint :: "string \<Rightarrow> 32 word \<Rightarrow> string" where
  "append_wide_codepoint out cp =
     out @ [to_char (cp AND 0xFF), to_char (drop_bit 8 cp AND 0xFF),
            to_char (drop_bit 16 cp AND 0xFF), to_char (drop_bit 24 cp AND 0xFF)]"

definition narrow_string_as_wide :: "string \<Rightarrow> string" where
  "narrow_string_as_wide narrow =
     foldl (\<lambda>out c. append_wide_codepoint out (of_nat (byte c))) [] narrow"

section \<open>Escapes\<close>

datatype escape_kind = EscSimple | EscOctal | EscHex | EscUcn

record literal_escape =
  esc_kind :: escape_kind
  esc_value :: "32 word"

definition hex_digit :: "char option \<Rightarrow> int" where
  "hex_digit c =
     (case c of
        None \<Rightarrow> - 1
      | Some ch \<Rightarrow>
          (if isdigit ch then int (byte ch) - 48
           else if 97 \<le> byte ch \<and> byte ch \<le> 102 then int (byte ch) - 97 + 10
           else if 65 \<le> byte ch \<and> byte ch \<le> 70 then int (byte ch) - 65 + 10
           else - 1))"

text \<open>The loop of a hex escape: the value so far, the digits read, whether it went over.\<close>

primrec hex_escape_digits ::
    "nat \<Rightarrow> 's reader \<Rightarrow> 32 word \<Rightarrow> 64 word \<Rightarrow> nat \<Rightarrow> bool \<Rightarrow> 's \<Rightarrow> (64 word \<times> nat \<times> bool) \<times> 's"
    where
  "hex_escape_digits 0 R unit_max val dig over s = ((val, dig, over), s)"
| "hex_escape_digits (Suc n) R unit_max val dig over s =
     (if \<not> rd_good R s then ((val, dig, over), s)
      else
        (case rd_peek R s of
           (c, s1) \<Rightarrow>
             (if hex_digit c < 0 then ((val, dig, over), s1)
              else
                (case rd_get R s1 of
                   (d, s2) \<Rightarrow>
                     (let val' = push_bit 4 val OR word_of_int (hex_digit d)
                      in hex_escape_digits n R unit_max val' (dig + 1)
                           (if ucast unit_max < val' then True else over) s2)))))"

primrec ucn_digits :: "nat \<Rightarrow> 's reader \<Rightarrow> 32 word \<Rightarrow> 's \<Rightarrow> 32 word cxx \<times> 's" where
  "ucn_digits 0 R val s = (Inr val, s)"
| "ucn_digits (Suc need) R val s =
     (if \<not> rd_good R s then (Inl (Thrown ''incomplete universal character name''), s)
      else
        (case rd_peek R s of
           (c, s1) \<Rightarrow>
             (if hex_digit c < 0 then (Inl (Thrown ''incomplete universal character name''), s1)
              else
                (case rd_get R s1 of
                   (d, s2) \<Rightarrow> ucn_digits need R (push_bit 4 val OR word_of_int (hex_digit d)) s2))))"

definition octal_char :: "char option \<Rightarrow> bool" where
  "octal_char c \<longleftrightarrow> (case c of None \<Rightarrow> False | Some ch \<Rightarrow> 48 \<le> byte ch \<and> byte ch \<le> 55)"

text \<open>\<open>in.get() - '0'\<close>, where \<open>get\<close> may return \<open>-1\<close>.\<close>

definition minus_zero :: "char option \<Rightarrow> int" where
  "minus_zero c = (case c of None \<Rightarrow> - 49 | Some ch \<Rightarrow> int (byte ch) - 48)"

primrec octal_escape_digits :: "nat \<Rightarrow> 's reader \<Rightarrow> 32 word \<Rightarrow> 's \<Rightarrow> 32 word \<times> 's" where
  "octal_escape_digits 0 R val s = (val, s)"
| "octal_escape_digits (Suc n) R val s =
     (if \<not> rd_good R s then (val, s)
      else
        (case rd_peek R s of
           (c, s1) \<Rightarrow>
             (if \<not> octal_char c then (val, s1)
              else
                (case rd_get R s1 of
                   (d, s2) \<Rightarrow>
                     octal_escape_digits n R (push_bit 3 val OR word_of_int (minus_zero d)) s2))))"

definition simple_escape_rows :: "(char \<times> 32 word) list" where
  "simple_escape_rows =
     [(CHR ''n'', 10), (CHR ''t'', 9), (CHR ''r'', 13), (CHR ''a'', 7), (CHR ''b'', 8),
      (CHR ''f'', 12), (CHR ''v'', 11), (CHR ''e'', 0x1B), (CHR ''E'', 0x1B),
      (CHR 0x5C, 0x5C), (CHR 0x22, 0x22), (CHR 0x27, 0x27), (CHR ''?'', 0x3F)]"

text \<open>The result of \<open>read_literal_escape\<close> is paired with whether it warned.\<close>

definition read_literal_escape ::
    "'s reader \<Rightarrow> char \<Rightarrow> 32 word \<Rightarrow> 's \<Rightarrow> (literal_escape \<times> bool) cxx \<times> 's" where
  "read_literal_escape R esc unit_max s =
     (case map_of simple_escape_rows esc of
        Some v \<Rightarrow> (Inr (\<lparr>esc_kind = EscSimple, esc_value = v\<rparr>, False), s)
      | None \<Rightarrow>
          (if esc = CHR ''x'' then
             (case hex_escape_digits (rd_left R s) R unit_max 0 0 False s of
                ((val, dig, over), s1) \<Rightarrow>
                  (if dig = 0 then (Inl (Thrown (CHR 0x5C # ''x used with no following hex digits'')), s1)
                   else if over then (Inl (Thrown ''hex escape sequence out of range''), s1)
                   else (Inr (\<lparr>esc_kind = EscHex, esc_value = ucast val\<rparr>, False), s1)))
           else if esc = CHR ''u'' \<or> esc = CHR ''U'' then
             (case ucn_digits (if esc = CHR ''u'' then 4 else 8) R 0 s of
                (r, s1) \<Rightarrow>
                  (ebind r (\<lambda>v. Inr (\<lparr>esc_kind = EscUcn, esc_value = v\<rparr>, False)), s1))
           else if octal_char (Some esc) then
             (case octal_escape_digits 2 R (word_of_int (minus_zero (Some esc))) s of
                (val, s1) \<Rightarrow>
                  (if unit_max < val
                   then (Inl (Thrown ''octal escape sequence out of range''), s1)
                   else (Inr (\<lparr>esc_kind = EscOctal, esc_value = val\<rparr>, False), s1)))
           else (Inr (\<lparr>esc_kind = EscSimple, esc_value = of_nat (byte esc)\<rparr>, True), s)))"

definition append_byte_escape :: "string \<Rightarrow> literal_escape \<Rightarrow> string" where
  "append_byte_escape out e =
     (if esc_kind e = EscUcn then append_utf8_codepoint out (esc_value e)
      else out @ [to_char (esc_value e)])"

section \<open>Character constants\<close>

datatype char_warning = WarnNone | WarnMulti | WarnTooLong

text \<open>
  \<open>narrow_char_constant_value\<close>; \<open>unsigned_char\<close> is \<open>ddCHAR.is_unsigned()\<close>.  The \<open>int32_t\<close>
  result is the word with that bit pattern.
\<close>

definition narrow_char_constant_value ::
    "bool \<Rightarrow> string \<Rightarrow> (32 word \<times> char_warning) cxx" where
  "narrow_char_constant_value unsigned_char bytes =
     (if bytes = [] then Inl (Thrown ''empty character constant'')
      else
        (let v = foldl (\<lambda>v b. push_bit 8 v OR of_nat (byte b)) 0 bytes
         in if length bytes = 1
            then Inr (if unsigned_char then take_bit 8 v else signed_take_bit 7 v, WarnNone)
            else Inr (v, if 4 < length bytes then WarnTooLong else WarnMulti)))"

definition prefixed_literal_unit_max :: "string \<Rightarrow> bool \<Rightarrow> 32 word" where
  "prefixed_literal_unit_max prefix llp64 =
     (if prefix = ''u8'' then 0xFF
      else if prefix = ''u'' \<or> prefix = ''L'' \<and> llp64 then 0xFFFF
      else 0xFFFFFFFF)"

end
