(* ===== verification/SourceLiterals.thy ===== *)
theory SourceLiterals
  imports SourceProps Literals
begin

text \<open>
  The literal tokens of \<^verbatim>\<open>src/lexer.cpp\<close> read from the live source: narrow string and
  character literals, encoding-prefixed ones (\<open>read_wide_literal\<close>), the user-defined suffix,
  and the digit loops of integer literals.

  A token is the record of what the code stores in it; interning and token allocation are
  left out.  A loop that reads characters carries its number of rounds as fuel; one more
  than \<open>unread\<close> is enough, every round but the last reads a character.
\<close>

section \<open>Terminated bodies\<close>

definition get_char :: "char option \<Rightarrow> char" where
  "get_char c = (case c of None \<Rightarrow> CHR 0xFF | Some ch \<Rightarrow> ch)"

definition refuse_unterminated_literal :: "source \<Rightarrow> char \<Rightarrow> int \<Rightarrow> int \<Rightarrow> 'a cxx \<times> source" where
  "refuse_unterminated_literal src quote row col =
     (Inl (Thrown (if quote = CHR 0x22 then ''missing terminating '' @ [CHR 0x22] @ '' character''
                   else ''missing terminating '' @ [CHR 0x27] @ '' character'')),
      setpos row col src)"

definition literal_body_continues :: "source \<Rightarrow> char \<Rightarrow> int \<Rightarrow> int \<Rightarrow> bool cxx \<times> source" where
  "literal_body_continues src quote row col =
     (if \<not> source_good src then refuse_unterminated_literal src quote row col
      else
        (case source_peek src of
           (c, src1) \<Rightarrow>
             (if c = Some (CHR 0x0A) \<or> c = Some (CHR 0x0D)
              then refuse_unterminated_literal src1 quote row col
              else (Inr (c \<noteq> Some quote), src1))))"

text \<open>The loop of a narrow string or character literal: its bytes and the warnings given.\<close>

primrec narrow_body ::
    "nat \<Rightarrow> char \<Rightarrow> int \<Rightarrow> int \<Rightarrow> string \<Rightarrow> nat \<Rightarrow> source \<Rightarrow> (string \<times> nat) cxx \<times> source" where
  "narrow_body 0 quote row col word warns src = (Inl NoReturn, src)"
| "narrow_body (Suc n) quote row col word warns src =
     (case literal_body_continues src quote row col of
        (Inl e, src1) \<Rightarrow> (Inl e, src1)
      | (Inr cont, src1) \<Rightarrow>
          (if \<not> cont then (Inr (word, warns), src1)
           else
             (case source_peek src1 of
                (c, src2) \<Rightarrow>
                  (if c = Some (CHR 0x5C) then
                     (let src3 = snd (source_get src2)
                      in if \<not> source_good src3 then (Inr (word, warns), src3)
                         else
                           (case source_get src3 of
                              (esc, src4) \<Rightarrow>
                                (case read_literal_escape source_reader (get_char esc) 0xFF src4 of
                                   (Inl e, src5) \<Rightarrow> (Inl e, src5)
                                 | (Inr (e, w), src5) \<Rightarrow>
                                     narrow_body n quote row col (append_byte_escape word e)
                                       (if w then warns + 1 else warns) src5)))
                   else
                     (case source_get src2 of
                        (d, src3) \<Rightarrow> narrow_body n quote row col (word @ [get_char d]) warns src3)))))"

text \<open>The body and its closing quote.\<close>

definition close_literal ::
    "char \<Rightarrow> int \<Rightarrow> int \<Rightarrow> 'a cxx \<times> source \<Rightarrow> 'a cxx \<times> source" where
  "close_literal quote row col r =
     (case r of
        (Inl e, src) \<Rightarrow> (Inl e, src)
      | (Inr x, src) \<Rightarrow>
          (if \<not> source_good src then refuse_unterminated_literal src quote row col
           else (Inr x, snd (source_get src))))"

definition read_narrow ::
    "char \<Rightarrow> int \<Rightarrow> int \<Rightarrow> source \<Rightarrow> (string \<times> nat) cxx \<times> source" where
  "read_narrow quote row col src =
     close_literal quote row col (narrow_body (Suc (unread src)) quote row col [] 0 src)"

section \<open>User-defined suffixes\<close>

definition suffix_char :: "char option \<Rightarrow> bool" where
  "suffix_char c \<longleftrightarrow> (case c of None \<Rightarrow> False | Some ch \<Rightarrow> ch = CHR ''_'' \<or> isalnum ch)"

primrec ud_suffix_go :: "nat \<Rightarrow> string \<Rightarrow> source \<Rightarrow> string \<times> source" where
  "ud_suffix_go 0 sfx src = (sfx, src)"
| "ud_suffix_go (Suc n) sfx src =
     (if \<not> source_good src then (sfx, src)
      else
        (case source_peek src of
           (c, src1) \<Rightarrow>
             (if \<not> suffix_char c then (sfx, src1)
              else
                (case source_get src1 of
                   (d, src2) \<Rightarrow> ud_suffix_go n (sfx @ [get_char d]) src2))))"

text \<open>\<open>cpp11\<close> is \<open>cpp_keyword_active(STD_CPP11)\<close>; the result is empty without a suffix.\<close>

definition lex_ud_suffix :: "bool \<Rightarrow> source \<Rightarrow> string \<times> source" where
  "lex_ud_suffix cpp11 src =
     (if \<not> cpp11 \<or> \<not> source_good src then ([], src)
      else
        (case source_peek src of
           (c, src1) \<Rightarrow>
             (if c \<noteq> Some (CHR ''_'') \<and> \<not> (case c of None \<Rightarrow> False | Some ch \<Rightarrow> isalpha ch)
              then ([], src1)
              else ud_suffix_go (unread src1) [] src1)))"

section \<open>String and character tokens\<close>

record str_token =
  str_bytes :: string
  str_wide :: bool
  str_suffix :: string
  str_piece :: "(int \<times> int \<times> int) option"
  str_warnings :: nat

text \<open>The token reader's case for a double quote, the quote itself already read.\<close>

definition read_string_token :: "bool \<Rightarrow> source \<Rightarrow> str_token cxx \<times> source" where
  "read_string_token cpp11 src =
     (let row = source_line src; col = source_column src
      in case read_narrow (CHR 0x22) row col src of
           (Inl e, src1) \<Rightarrow> (Inl e, src1)
         | (Inr (word, warns), src1) \<Rightarrow>
             (case lex_ud_suffix cpp11 src1 of
                (sfx, src2) \<Rightarrow>
                  (Inr \<lparr>str_bytes = word, str_wide = False, str_suffix = sfx,
                        str_piece = (if source_line src2 = row
                                     then Some (row, col - 1, source_column src2 - (col - 1))
                                     else None),
                        str_warnings = warns\<rparr>, src2)))"

datatype int_token_type = TypeChar | TypeInt32 | TypeChar32 | TypeChar16 | TypeUint8 | TypeWchar

record int_token =
  int_value :: "64 word"
  int_type :: int_token_type
  int_suffix :: string
  int_warning :: char_warning

text \<open>The case for a single quote.\<close>

definition read_char_token :: "bool \<Rightarrow> bool \<Rightarrow> source \<Rightarrow> int_token cxx \<times> source" where
  "read_char_token cpp11 unsigned_char src =
     (let row = source_line src; col = source_column src
      in case read_narrow (CHR 0x27) row col src of
           (Inl e, src1) \<Rightarrow> (Inl e, src1)
         | (Inr (word, warns), src1) \<Rightarrow>
             (case narrow_char_constant_value unsigned_char word of
                Inl e \<Rightarrow> (Inl e, setpos row col src1)
              | Inr (cval, w) \<Rightarrow>
                  (case lex_ud_suffix cpp11 src1 of
                     (sfx, src2) \<Rightarrow>
                       (Inr \<lparr>int_value = scast cval,
                             int_type = (if length word = 1 then TypeChar else TypeInt32),
                             int_suffix = sfx, int_warning = w\<rparr>, src2))))"

text \<open>
  The two loops of \<open>read_wide_literal\<close>.  The string loop appends to the payload, the
  character loop keeps the last code point.
\<close>

primrec wide_body ::
    "nat \<Rightarrow> string \<Rightarrow> 32 word \<Rightarrow> int \<Rightarrow> int \<Rightarrow> string \<Rightarrow> nat \<Rightarrow> source \<Rightarrow> (string \<times> nat) cxx \<times> source" where
  "wide_body 0 prefix unit_max row col bytes warns src = (Inl NoReturn, src)"
| "wide_body (Suc n) prefix unit_max row col bytes warns src =
     (case literal_body_continues src (CHR 0x22) row col of
        (Inl e, src1) \<Rightarrow> (Inl e, src1)
      | (Inr cont, src1) \<Rightarrow>
          (if \<not> cont then (Inr (bytes, warns), src1)
           else
             (let append = (\<lambda>cp. if prefix = ''u8'' then append_utf8_codepoint bytes cp
                                 else append_wide_codepoint bytes cp)
              in case source_peek src1 of
                   (c, src2) \<Rightarrow>
                     (if c = Some (CHR 0x5C) then
                        (let src3 = snd (source_get src2)
                         in if \<not> source_good src3 then (Inr (bytes, warns), src3)
                            else
                              (case source_get src3 of
                                 (esc, src4) \<Rightarrow>
                                   (case read_literal_escape source_reader (get_char esc) unit_max src4 of
                                      (Inl e, src5) \<Rightarrow> (Inl e, src5)
                                    | (Inr (e, w), src5) \<Rightarrow>
                                        wide_body n prefix unit_max row col
                                          (if prefix = ''u8'' then append_byte_escape bytes e
                                           else append (esc_value e))
                                          (if w then warns + 1 else warns) src5)))
                      else
                        (case source_get src2 of
                           (d, src3) \<Rightarrow>
                             (case read_utf8_codepoint source_reader (uchar d) src3 of
                                (cp, src4) \<Rightarrow>
                                  wide_body n prefix unit_max row col (append cp) warns src4))))))"

primrec wide_char_body ::
    "nat \<Rightarrow> 32 word \<Rightarrow> int \<Rightarrow> int \<Rightarrow> 32 word \<Rightarrow> source \<Rightarrow> 32 word cxx \<times> source" where
  "wide_char_body 0 unit_max row col cp src = (Inl NoReturn, src)"
| "wide_char_body (Suc n) unit_max row col cp src =
     (case literal_body_continues src (CHR 0x27) row col of
        (Inl e, src1) \<Rightarrow> (Inl e, src1)
      | (Inr cont, src1) \<Rightarrow>
          (if \<not> cont then (Inr cp, src1)
           else
             (case source_peek src1 of
                (c, src2) \<Rightarrow>
                  (if c = Some (CHR 0x5C) then
                     (let src3 = snd (source_get src2)
                      in if \<not> source_good src3 then (Inr cp, src3)
                         else
                           (case source_get src3 of
                              (esc, src4) \<Rightarrow>
                                (case read_literal_escape source_reader (get_char esc) unit_max src4 of
                                   (Inl e, src5) \<Rightarrow> (Inl e, src5)
                                 | (Inr (e, w), src5) \<Rightarrow>
                                     wide_char_body n unit_max row col (esc_value e) src5)))
                   else
                     (case source_get src2 of
                        (d, src3) \<Rightarrow>
                          (case read_utf8_codepoint source_reader (uchar d) src3 of
                             (cp', src4) \<Rightarrow> wide_char_body n unit_max row col cp' src4))))))"

datatype wide_token = WideStr str_token | WideInt int_token

definition wide_int_type :: "string \<Rightarrow> int_token_type" where
  "wide_int_type prefix =
     (if prefix = ''U'' then TypeChar32 else if prefix = ''u'' then TypeChar16
      else if prefix = ''u8'' then TypeUint8 else TypeWchar)"

definition read_wide_string ::
    "bool \<Rightarrow> bool \<Rightarrow> string \<Rightarrow> int \<Rightarrow> int \<Rightarrow> source \<Rightarrow> wide_token cxx \<times> source" where
  "read_wide_string cpp11 llp64 prefix row col src =
     (if prefix = ''u'' then (Inl (Thrown (''UTF-16 string literals (u'' @ [CHR 0x22] @ ''...'' @ [CHR 0x22] @ '') are not supported'')), src)
      else if prefix = ''U'' \<and> llp64 then (Inl (Thrown (''char32_t string literals (U'' @ [CHR 0x22] @ ''...'' @ [CHR 0x22] @ '') are not supported on the LLP64 target'')), src)
      else
        (case close_literal (CHR 0x22) row col
                (wide_body (Suc (unread src)) prefix (prefixed_literal_unit_max prefix llp64) row col [] 0 src) of
           (Inl e, src1) \<Rightarrow> (Inl e, src1)
         | (Inr (bytes, warns), src1) \<Rightarrow>
             (case lex_ud_suffix cpp11 src1 of
                (sfx, src2) \<Rightarrow>
                  (let pc = col - 1 - int (length prefix)
                   in (Inr (WideStr
                         \<lparr>str_bytes = bytes, str_wide = (prefix \<noteq> ''u8''), str_suffix = sfx,
                          str_piece = (if source_line src2 = row
                                       then Some (row, pc, source_column src2 - pc) else None),
                          str_warnings = warns\<rparr>), src2)))))"

definition read_wide_literal ::
    "bool \<Rightarrow> bool \<Rightarrow> string \<Rightarrow> source \<Rightarrow> wide_token cxx \<times> source" where
  "read_wide_literal cpp11 llp64 prefix src0 =
     (case source_get src0 of
        (quote, src) \<Rightarrow>
          (let row = source_line src; col = source_column src
           in if quote = Some (CHR 0x22) then read_wide_string cpp11 llp64 prefix row col src
              else
                (case close_literal (CHR 0x27) row col
                        (wide_char_body (Suc (unread src)) (prefixed_literal_unit_max prefix llp64)
                           row col 0 src) of
                   (Inl e, src1) \<Rightarrow> (Inl e, src1)
                 | (Inr cp, src1) \<Rightarrow>
                     (case lex_ud_suffix cpp11 src1 of
                        (sfx, src2) \<Rightarrow>
                          (Inr (WideInt \<lparr>int_value = ucast cp, int_type = wide_int_type prefix,
                                         int_suffix = sfx, int_warning = WarnNone\<rparr>), src2)))))"

section \<open>Digits of integer literals\<close>

definition is_digit_separator :: "char option \<Rightarrow> bool" where
  "is_digit_separator c \<longleftrightarrow> c = Some (CHR 0x27)"

text \<open>
  The four digit loops share their shape: separators are skipped, another character that is
  no digit of the base ends them, and a digit updates the 128-bit value and the overflow
  flag.
\<close>

primrec digit_loop ::
    "nat \<Rightarrow> (char \<Rightarrow> bool) \<Rightarrow> (128 word \<Rightarrow> char \<Rightarrow> bool) \<Rightarrow> (128 word \<Rightarrow> char \<Rightarrow> 128 word)
      \<Rightarrow> 128 word \<Rightarrow> bool \<Rightarrow> string \<Rightarrow> source \<Rightarrow> (128 word \<times> bool \<times> string) \<times> source" where
  "digit_loop 0 isdig over upd v ovf lit src = ((v, ovf, lit), src)"
| "digit_loop (Suc n) isdig over upd v ovf lit src =
     (if \<not> source_good src then ((v, ovf, lit), src)
      else
        (case source_peek src of
           (c, src1) \<Rightarrow>
             (if is_digit_separator c
              then digit_loop n isdig over upd v ovf lit (snd (source_get src1))
              else if \<not> (case c of None \<Rightarrow> False | Some ch \<Rightarrow> isdig ch) then ((v, ovf, lit), src1)
              else
                (case source_get src1 of
                   (d, src2) \<Rightarrow>
                     (let ch = get_char d
                      in digit_loop n isdig over upd (upd v ch) (ovf \<or> over v ch) (lit @ [ch]) src2)))))"

definition low_nibble :: "char \<Rightarrow> 128 word" where
  "low_nibble c = of_nat (byte c) AND 0xF"

text \<open>\<open>read_binary_literal\<close>, the cursor on the \<open>b\<close>.\<close>

definition read_binary_literal :: "source \<Rightarrow> (128 word \<times> bool) \<times> source" where
  "read_binary_literal src =
     (let src1 = snd (source_get src)
      in case digit_loop (unread src1) (\<lambda>c. c = CHR ''0'' \<or> c = CHR ''1'')
                (\<lambda>v c. drop_bit 127 v \<noteq> 0)
                (\<lambda>v c. push_bit 1 v + word_of_int (minus_zero (Some c))) 0 False [] src1 of
           ((v, ovf, lit), src2) \<Rightarrow> ((v, ovf), src2))"

definition hex_value :: "char \<Rightarrow> 128 word" where
  "hex_value c = word_of_int (hex_digit (Some c))"

text \<open>The digits after \<open>0x\<close>.\<close>

definition read_hex_digits :: "string \<Rightarrow> source \<Rightarrow> (128 word \<times> bool \<times> string) \<times> source" where
  "read_hex_digits lit src =
     digit_loop (unread src) isxdigit (\<lambda>v c. drop_bit 124 v \<noteq> 0)
       (\<lambda>v c. v * 16 + hex_value c) 0 False lit src"

definition read_octal_digits ::
    "128 word \<Rightarrow> string \<Rightarrow> source \<Rightarrow> (128 word \<times> bool \<times> string) \<times> source" where
  "read_octal_digits v lit src =
     digit_loop (unread src) (\<lambda>c. octal_char (Some c)) (\<lambda>v c. drop_bit 125 v \<noteq> 0)
       (\<lambda>v c. v * 8 + low_nibble c) v False lit src"

definition dec_limit :: "128 word" where
  "dec_limit = (- 1) div 10"

definition read_decimal_digits ::
    "128 word \<Rightarrow> string \<Rightarrow> source \<Rightarrow> (128 word \<times> bool \<times> string) \<times> source" where
  "read_decimal_digits v lit src =
     digit_loop (unread src) isdigit
       (\<lambda>v c. dec_limit < v \<or> v = dec_limit \<and> 5 < low_nibble c)
       (\<lambda>v c. v * 10 + low_nibble c) v False lit src"

end
