(* ===== verification/LiteralProps.thy ===== *)
theory LiteralProps
  imports SourceLiterals
begin

text \<open>
  Correctness of the literal readers: UTF-8 encoding and decoding are inverse, an escaped
  byte string read as a literal gives the bytes back, and the integer digit loops compute
  the value modulo \<open>2 ^ 128\<close> and flag exactly the values that do not fit.
\<close>

section \<open>Bits\<close>

lemma word32_eqI: "(\<And>n. n < 32 \<Longrightarrow> bit v n = bit w n) \<Longrightarrow> v = (w :: 32 word)"
  by (rule bit_word_eqI) simp

lemma below_32: "set [0..<32] = {0, 1, 2, 3, 4, 5, 6, 7, 8, 9, 10, 11, 12, 13, 14, 15, 16, 17, 18, 19, 20, 21, 22, 23, 24, 25, 26, 27, 28, 29, 30, 31}"
  by code_simp

lemma word32_bits: "v = (w :: 32 word) \<longleftrightarrow> (\<forall>n \<in> {0, 1, 2, 3, 4, 5, 6, 7, 8, 9, 10, 11, 12, 13, 14, 15, 16, 17, 18, 19, 20, 21, 22, 23, 24, 25, 26, 27, 28, 29, 30, 31}. bit v n = bit w n)"
  unfolding below_32 [symmetric] by (auto intro: word32_eqI)

lemma high_bits:
  fixes cp :: "'a::len word"
  assumes "unat cp < 2 ^ k" and "k \<le> n"
  shows "\<not> bit cp n"
proof
  assume b: "bit cp n"
  then have "bit (unat cp) n" by (simp add: bit_unsigned_iff)
  moreover have "take_bit k (unat cp) = unat cp" using assms(1) by (simp add: take_bit_nat_eq_self)
  ultimately show False using assms(2) by (metis bit_take_bit_iff leD)
qed

lemma uchar_to_char: "uchar (Some (to_char (w :: 32 word))) = take_bit 8 w"
proof -
  have "uchar (Some (to_char w)) = word_of_nat (unat w mod 2 ^ 8)" by (simp add: uchar_def to_char_def)
  also have "\<dots> = take_bit 8 (word_of_nat (unat w))"
    by (simp only: take_bit_of_nat take_bit_eq_mod [of 8 "unat w"])
  finally show ?thesis by simp
qed

text \<open>The bytes \<open>append_utf8_codepoint\<close> writes, as the reader sees them.\<close>

abbreviation cont_byte :: "32 word \<Rightarrow> 32 word" where
  "cont_byte x \<equiv> 0x80 OR (x AND 0x3F)"

lemma cont_byte_seen: "uchar (Some (to_char (cont_byte x))) AND 0xC0 = 0x80" "uchar (Some (to_char (cont_byte x))) AND 0x3F = x AND 0x3F"
  unfolding word32_bits by (simp_all add: bit_simps uchar_to_char)

lemma lead_not_ascii: "bit w 7 \<Longrightarrow> \<not> (w :: 32 word) < 0x80"
  using high_bits [of w 7 7] by (auto simp: word_less_nat_alt)

lemma utf8_lead_two:
  assumes "cp < (0x800 :: 32 word)"
  shows "\<not> uchar (Some (to_char (0xC0 OR drop_bit 6 cp))) < 0x80"
    and "uchar (Some (to_char (0xC0 OR drop_bit 6 cp))) AND 0xE0 = 0xC0"
    and "push_bit 6 (uchar (Some (to_char (0xC0 OR drop_bit 6 cp))) AND 0x1F) OR (cp AND 0x3F) = cp"
proof -
  have h: "\<not> bit cp n" if "11 \<le> n" for n
    using that assms by (intro high_bits [of cp 11]) (simp_all add: word_less_nat_alt)
  show "\<not> uchar (Some (to_char (0xC0 OR drop_bit 6 cp))) < 0x80"
    by (rule lead_not_ascii) (simp add: bit_simps uchar_to_char)
  show "uchar (Some (to_char (0xC0 OR drop_bit 6 cp))) AND 0xE0 = 0xC0"
    unfolding word32_bits using h by (simp add: bit_simps uchar_to_char)
  show "push_bit 6 (uchar (Some (to_char (0xC0 OR drop_bit 6 cp))) AND 0x1F) OR (cp AND 0x3F) = cp"
    unfolding word32_bits using h by (simp add: bit_simps uchar_to_char)
qed

lemma word32_neq: "bit v n \<noteq> bit w n \<Longrightarrow> v \<noteq> (w :: 32 word)"
  by auto

lemma utf8_lead_three:
  assumes "cp < (0x10000 :: 32 word)"
  shows "\<not> uchar (Some (to_char (0xE0 OR drop_bit 12 cp))) < 0x80"
    and "uchar (Some (to_char (0xE0 OR drop_bit 12 cp))) AND 0xE0 \<noteq> 0xC0"
    and "uchar (Some (to_char (0xE0 OR drop_bit 12 cp))) AND 0xF0 = 0xE0"
    and "push_bit 6 (push_bit 6 (uchar (Some (to_char (0xE0 OR drop_bit 12 cp))) AND 0x0F)
           OR (drop_bit 6 cp AND 0x3F)) OR (cp AND 0x3F) = cp"
proof -
  have h: "\<not> bit cp n" if "16 \<le> n" for n
    using that assms by (intro high_bits [of cp 16]) (simp_all add: word_less_nat_alt)
  show "\<not> uchar (Some (to_char (0xE0 OR drop_bit 12 cp))) < 0x80"
    by (rule lead_not_ascii) (simp add: bit_simps uchar_to_char)
  show "uchar (Some (to_char (0xE0 OR drop_bit 12 cp))) AND 0xE0 \<noteq> 0xC0"
    by (rule word32_neq [of _ 5]) (simp add: bit_simps uchar_to_char)
  show "uchar (Some (to_char (0xE0 OR drop_bit 12 cp))) AND 0xF0 = 0xE0"
    unfolding word32_bits using h by (simp add: bit_simps uchar_to_char)
  show "push_bit 6 (push_bit 6 (uchar (Some (to_char (0xE0 OR drop_bit 12 cp))) AND 0x0F)
           OR (drop_bit 6 cp AND 0x3F)) OR (cp AND 0x3F) = cp"
    unfolding word32_bits using h by (simp add: bit_simps uchar_to_char)
qed

lemma utf8_lead_four:
  assumes "cp < (0x200000 :: 32 word)"
  shows "\<not> uchar (Some (to_char (0xF0 OR drop_bit 18 cp))) < 0x80"
    and "uchar (Some (to_char (0xF0 OR drop_bit 18 cp))) AND 0xE0 \<noteq> 0xC0"
    and "uchar (Some (to_char (0xF0 OR drop_bit 18 cp))) AND 0xF0 \<noteq> 0xE0"
    and "uchar (Some (to_char (0xF0 OR drop_bit 18 cp))) AND 0xF8 = 0xF0"
    and "push_bit 6 (push_bit 6 (push_bit 6 (uchar (Some (to_char (0xF0 OR drop_bit 18 cp))) AND 0x07)
           OR (drop_bit 12 cp AND 0x3F)) OR (drop_bit 6 cp AND 0x3F)) OR (cp AND 0x3F) = cp"
proof -
  have h: "\<not> bit cp n" if "21 \<le> n" for n
    using that assms by (intro high_bits [of cp 21]) (simp_all add: word_less_nat_alt)
  show "\<not> uchar (Some (to_char (0xF0 OR drop_bit 18 cp))) < 0x80"
    by (rule lead_not_ascii) (simp add: bit_simps uchar_to_char)
  show "uchar (Some (to_char (0xF0 OR drop_bit 18 cp))) AND 0xE0 \<noteq> 0xC0"
    by (rule word32_neq [of _ 5]) (simp add: bit_simps uchar_to_char)
  show "uchar (Some (to_char (0xF0 OR drop_bit 18 cp))) AND 0xF0 \<noteq> 0xE0"
    by (rule word32_neq [of _ 4]) (simp add: bit_simps uchar_to_char)
  show "uchar (Some (to_char (0xF0 OR drop_bit 18 cp))) AND 0xF8 = 0xF0"
    unfolding word32_bits using h by (simp add: bit_simps uchar_to_char)
  show "push_bit 6 (push_bit 6 (push_bit 6 (uchar (Some (to_char (0xF0 OR drop_bit 18 cp))) AND 0x07)
           OR (drop_bit 12 cp AND 0x3F)) OR (drop_bit 6 cp AND 0x3F)) OR (cp AND 0x3F) = cp"
    unfolding word32_bits using h by (simp add: bit_simps uchar_to_char)
qed

lemma uchar_ascii: "cp < (0x80 :: 32 word) \<Longrightarrow> uchar (Some (to_char cp)) = cp"
proof -
  assume "cp < 0x80"
  then have h: "\<not> bit cp n" if "7 \<le> n" for n
    using that by (intro high_bits [of cp 7]) (simp_all add: word_less_nat_alt)
  then show ?thesis unfolding word32_bits by (simp add: bit_simps uchar_to_char)
qed

section \<open>Reading through the interface\<close>

context reader_laws
begin

lemma utf8_tail_cont:
  assumes "valid s" and "rest s = to_char (cont_byte x) # r"
  obtains s' where "valid s'" "rest s' = r"
    "\<And>n lead cp. utf8_tail (Suc n) R lead cp s = utf8_tail n R lead (push_bit 6 cp OR (x AND 0x3F)) s'"
proof -
  obtain s1 where p: "rd_peek R s = (Some (to_char (cont_byte x)), s1)" "valid s1"
    "rest s1 = to_char (cont_byte x) # r" "rd_good R s"
    using peek_Cons [OF assms] .
  obtain s2 where g: "rd_get R s1 = (Some (to_char (cont_byte x)), s2)" "valid s2" "rest s2 = r"
    using get_Cons [OF p(2,3)] .
  show ?thesis
    by (rule that [OF g(2,3)]) (simp add: p(1,4) g(1) cont_byte_seen)
qed

lemma utf8_read_append:
  assumes cp: "cp < 0x200000" and v: "valid s"
    and enc: "append_utf8_codepoint [] cp = c # cs" and r: "rest s = cs @ t"
  shows "\<exists>s'. read_utf8_codepoint R (uchar (Some c)) s = (cp, s') \<and> valid s' \<and> rest s' = t"
proof -
  consider "cp < 0x80" | "\<not> cp < 0x80" "cp < 0x800" | "\<not> cp < 0x80" "\<not> cp < 0x800" "cp < 0x10000"
    | "\<not> cp < 0x80" "\<not> cp < 0x800" "\<not> cp < 0x10000" by blast
  then show ?thesis
  proof cases
    case 1
    then show ?thesis
      using enc r v by (auto simp: append_utf8_codepoint_def read_utf8_codepoint_def
          uchar_ascii)
  next
    case 2
    then have c: "c = to_char (0xC0 OR drop_bit 6 cp)" "cs = [to_char (cont_byte cp)]"
      using enc by (auto simp: append_utf8_codepoint_def)
    obtain s1 where s1: "valid s1" "rest s1 = t" "\<And>n lead q. utf8_tail (Suc n) R lead q s
        = utf8_tail n R lead (push_bit 6 q OR (cp AND 0x3F)) s1"
      using utf8_tail_cont [OF v, of cp t] r by (auto simp: c)
    show ?thesis
      using utf8_lead_two [OF 2(2)] s1(3) [of 0] s1(1,2)
      by (simp add: read_utf8_codepoint_def c(1))
  next
    case 3
    then have c: "c = to_char (0xE0 OR drop_bit 12 cp)"
      "cs = [to_char (cont_byte (drop_bit 6 cp)), to_char (cont_byte cp)]"
      using enc by (auto simp: append_utf8_codepoint_def)
    obtain s1 where s1: "valid s1" "rest s1 = to_char (cont_byte cp) # t"
      "\<And>n lead q. utf8_tail (Suc n) R lead q s = utf8_tail n R lead (push_bit 6 q OR (drop_bit 6 cp AND 0x3F)) s1"
      using utf8_tail_cont [OF v, of "drop_bit 6 cp" "to_char (cont_byte cp) # t"] r by (auto simp: c)
    obtain s2 where s2: "valid s2" "rest s2 = t"
      "\<And>n lead q. utf8_tail (Suc n) R lead q s1 = utf8_tail n R lead (push_bit 6 q OR (cp AND 0x3F)) s2"
      using utf8_tail_cont [OF s1(1,2)] by blast
    show ?thesis
      using utf8_lead_three [OF 3(3)] s1(3) [of 1] s2(3) [of 0] s2(1,2)
      by (simp add: read_utf8_codepoint_def c(1) numeral_2_eq_2)
  next
    case 4
    then have c: "c = to_char (0xF0 OR drop_bit 18 cp)"
      "cs = [to_char (cont_byte (drop_bit 12 cp)), to_char (cont_byte (drop_bit 6 cp)), to_char (cont_byte cp)]"
      using enc by (auto simp: append_utf8_codepoint_def)
    obtain s1 where s1: "valid s1"
      "rest s1 = to_char (cont_byte (drop_bit 6 cp)) # to_char (cont_byte cp) # t"
      "\<And>n lead q. utf8_tail (Suc n) R lead q s = utf8_tail n R lead (push_bit 6 q OR (drop_bit 12 cp AND 0x3F)) s1"
      using utf8_tail_cont [OF v, of "drop_bit 12 cp"
          "to_char (cont_byte (drop_bit 6 cp)) # to_char (cont_byte cp) # t"] r by (auto simp: c)
    obtain s2 where s2: "valid s2" "rest s2 = to_char (cont_byte cp) # t"
      "\<And>n lead q. utf8_tail (Suc n) R lead q s1 = utf8_tail n R lead (push_bit 6 q OR (drop_bit 6 cp AND 0x3F)) s2"
      using utf8_tail_cont [OF s1(1,2)] by blast
    obtain s3 where s3: "valid s3" "rest s3 = t"
      "\<And>n lead q. utf8_tail (Suc n) R lead q s2 = utf8_tail n R lead (push_bit 6 q OR (cp AND 0x3F)) s3"
      using utf8_tail_cont [OF s2(1,2)] by blast
    show ?thesis
      using utf8_lead_four [OF cp] s1(3) [of 2] s2(3) [of 1] s3(3) [of 0] s3(1,2)
      by (simp add: read_utf8_codepoint_def c(1) numeral_2_eq_2 numeral_3_eq_3)
  qed
qed

text \<open>A byte written as three octal digits.\<close>

lemma octal_escape_read:
  assumes v: "valid s" and r: "rest s = digit_char (b div 8 mod 8) # digit_char (b mod 8) # t" and b: "b < 256"
  shows "\<exists>s'. octal_escape_digits 2 R (of_nat (b div 64)) s
           = (push_bit 3 (push_bit 3 (of_nat (b div 64)) OR of_nat (b div 8 mod 8)) OR of_nat (b mod 8), s')
         \<and> valid s' \<and> rest s' = t"
proof -
  have oc: "octal_char (Some (digit_char d)) \<and> word_of_int (minus_zero (Some (digit_char d))) = (of_nat d :: 32 word)"
    if "d < 8" for d
    using that by (simp add: octal_char_def minus_zero_def byte_digit_char)
  obtain s1 where p1: "rd_peek R s = (Some (digit_char (b div 8 mod 8)), s1)" "valid s1"
    "rest s1 = digit_char (b div 8 mod 8) # digit_char (b mod 8) # t" "rd_good R s"
    using peek_Cons [OF v r] by blast
  obtain s2 where g1: "rd_get R s1 = (Some (digit_char (b div 8 mod 8)), s2)" "valid s2"
    "rest s2 = digit_char (b mod 8) # t"
    using get_Cons [OF p1(2,3)] by blast
  obtain s3 where p2: "rd_peek R s2 = (Some (digit_char (b mod 8)), s3)" "valid s3"
    "rest s3 = digit_char (b mod 8) # t" "rd_good R s2"
    using peek_Cons [OF g1(2,3)] by blast
  obtain s4 where g2: "rd_get R s3 = (Some (digit_char (b mod 8)), s4)" "valid s4" "rest s4 = t"
    using get_Cons [OF p2(2,3)] by blast
  show ?thesis
    using oc [of "b div 8 mod 8"] oc [of "b mod 8"]
    by (simp add: numeral_2_eq_2 p1 g1 p2 g2)
qed

end

lemma octal_value:
  assumes "b < 256"
  shows "push_bit 3 (push_bit 3 (of_nat (b div 64)) OR of_nat (b div 8 mod 8)) OR of_nat (b mod 8) = (of_nat b :: 32 word)"
proof -
  have "list_all (\<lambda>b. push_bit 3 (push_bit 3 (of_nat (b div 64)) OR of_nat (b div 8 mod 8)) OR of_nat (b mod 8)
      = (of_nat b :: 32 word)) [0..<256]" by code_simp
  then show ?thesis using assms by (simp add: list_all_iff)
qed

lemma octal_escape_start:
  assumes "d < 8"
  shows "read_literal_escape R (digit_char d) m s =
    (case octal_escape_digits 2 R (of_nat d) s of
       (val, s1) \<Rightarrow> (if m < val then (Inl (Thrown ''octal escape sequence out of range''), s1)
                     else (Inr (\<lparr>esc_kind = EscOctal, esc_value = val\<rparr>, False), s1)))"
proof -
  have "d \<in> {0, 1, 2, 3, 4, 5, 6, 7}" using assms by auto
  then show ?thesis
    by (elim insertE emptyE)
      (simp_all add: read_literal_escape_def simple_escape_rows_def digit_char_def octal_char_def
         minus_zero_def char_eq_byte)
qed

section \<open>Escaped text read as a literal\<close>

text \<open>A byte as a literal may spell it: itself, or three octal digits where it must not stand.\<close>

definition octal_spelling :: "nat \<Rightarrow> string" where
  "octal_spelling b = [CHR 0x5C, digit_char (b div 64), digit_char (b div 8 mod 8), digit_char (b mod 8)]"

definition c_escape :: "char \<Rightarrow> string" where
  "c_escape c =
     (if c \<in> {CHR 0x22, CHR 0x27, CHR 0x5C, CHR 0x0A, CHR 0x0D} then octal_spelling (byte c) else [c])"

lemma source_read_step:
  assumes "source_valid s" and "remaining s = c # t"
  obtains s' where "source_get s = (Some c, s')" "source_valid s'" "remaining s' = t"
  using source.get_Cons [OF assms] by (auto simp: source_reader_def)

lemma source_peek_step:
  assumes "source_valid s" and "remaining s = c # t"
  obtains s' where "source_peek s = (Some c, s')" "source_valid s'" "remaining s' = c # t" "source_good s"
  using source.peek_Cons [OF assms] by (auto simp: source_reader_def)

lemma body_continues:
  assumes "source_valid s" and "remaining s = c # t" and "c \<notin> {CHR 0x0A, CHR 0x0D}"
  obtains s' where "literal_body_continues s q row col = (Inr (c \<noteq> q), s')" "source_valid s'" "remaining s' = c # t"
proof -
  obtain s1 where "source_peek s = (Some c, s1)" "source_valid s1" "remaining s1 = c # t" "source_good s"
    using source_peek_step [OF assms(1,2)] by blast
  then show ?thesis using that [of s1] assms(3) by (simp add: literal_body_continues_def)
qed

lemma octal_escape_source:
  assumes "source_valid s" and "remaining s = digit_char (b div 8 mod 8) # digit_char (b mod 8) # t" and "b < 256"
  shows "\<exists>s'. read_literal_escape source_reader (digit_char (b div 64)) 0xFF s
           = (Inr (\<lparr>esc_kind = EscOctal, esc_value = of_nat b\<rparr>, False), s') \<and> source_valid s' \<and> remaining s' = t"
proof -
  have d: "b div 64 < 8" using assms(3) by simp
  have "\<not> (0xFF :: 32 word) < of_nat b" using assms(3) by (simp add: word_less_nat_alt unat_of_nat)
  then show ?thesis
    using source.octal_escape_read [OF assms] octal_value [OF assms(3)]
    by (auto simp: octal_escape_start [OF d])
qed

lemma to_char_byte: "to_char (of_nat (byte c) :: 32 word) = c"
proof -
  have "byte c mod 2 ^ 32 = byte c" by (rule mod_less, rule less_le_trans [OF byte_less]) simp
  then show ?thesis by (simp add: to_char_def unat_of_nat)
qed

lemma narrow_body_char:
  assumes v: "source_valid s" and r: "remaining s = c_escape c @ t" and q: "q \<in> {CHR 0x22, CHR 0x27}"
  obtains s' where "narrow_body (Suc n) q row col w k s = narrow_body n q row col (w @ [c]) k s'"
    "source_valid s'" "remaining s' = t"
proof (cases "c \<in> {CHR 0x22, CHR 0x27, CHR 0x5C, CHR 0x0A, CHR 0x0D}")
  case False
  then have r1: "remaining s = c # t" using r by (simp add: c_escape_def)
  obtain s1 where s1: "literal_body_continues s q row col = (Inr (c \<noteq> q), s1)" "source_valid s1"
    "remaining s1 = c # t" using body_continues [OF v r1] False by blast
  obtain s2 where s2: "source_peek s1 = (Some c, s2)" "source_valid s2" "remaining s2 = c # t"
    using source_peek_step [OF s1(2,3)] by blast
  obtain s3 where s3: "source_get s2 = (Some c, s3)" "source_valid s3" "remaining s3 = t"
    using source_read_step [OF s2(2,3)] by blast
  have "c \<noteq> q" using False q by auto
  then show ?thesis using that [OF _ s3(2,3)] False by (simp add: s1 s2 s3 get_char_def)
next
  case True
  define b where "b = byte c"
  have b: "b < 256" unfolding b_def by (rule byte_less)
  have r1: "remaining s = CHR 0x5C # digit_char (b div 64) # digit_char (b div 8 mod 8) # digit_char (b mod 8) # t"
    using r True by (simp add: c_escape_def octal_spelling_def b_def)
  obtain s1 where s1: "literal_body_continues s q row col = (Inr (CHR 0x5C \<noteq> q), s1)" "source_valid s1"
    "remaining s1 = CHR 0x5C # digit_char (b div 64) # digit_char (b div 8 mod 8) # digit_char (b mod 8) # t"
    using body_continues [OF v r1, of q row col] by auto
  obtain s2 where s2: "source_peek s1 = (Some (CHR 0x5C), s2)" "source_valid s2"
    "remaining s2 = CHR 0x5C # digit_char (b div 64) # digit_char (b div 8 mod 8) # digit_char (b mod 8) # t"
    using source_peek_step [OF s1(2,3)] by blast
  obtain s3 where s3: "source_get s2 = (Some (CHR 0x5C), s3)" "source_valid s3"
    "remaining s3 = digit_char (b div 64) # digit_char (b div 8 mod 8) # digit_char (b mod 8) # t"
    using source_read_step [OF s2(2,3)] by blast
  obtain s4 where s4: "source_get s3 = (Some (digit_char (b div 64)), s4)" "source_valid s4"
    "remaining s4 = digit_char (b div 8 mod 8) # digit_char (b mod 8) # t"
    using source_read_step [OF s3(2,3)] by blast
  obtain s5 where s5: "read_literal_escape source_reader (digit_char (b div 64)) 0xFF s4
      = (Inr (\<lparr>esc_kind = EscOctal, esc_value = of_nat b\<rparr>, False), s5)" "source_valid s5" "remaining s5 = t"
    using octal_escape_source [OF s4(2,3) b] by blast
  have tc: "to_char (of_nat b :: 32 word) = c" by (simp add: b_def to_char_byte)
  have "source_good s3" by (rule remaining_good) (simp add: s3(3))
  then have "narrow_body (Suc n) q row col w k s = narrow_body n q row col (w @ [c]) k s5"
    using q tc by (auto simp: s1 s2 s3(1) s4(1) s5(1) get_char_def Let_def append_byte_escape_def)
  then show ?thesis using that s5(2,3) by blast
qed

lemma narrow_body_text:
  "source_valid s \<Longrightarrow> remaining s = concat (map c_escape u) @ q # t \<Longrightarrow> q \<in> {CHR 0x22, CHR 0x27} \<Longrightarrow>
   length u < n \<Longrightarrow>
   \<exists>s'. narrow_body n q row col w k s = (Inr (w @ u, k), s') \<and> source_valid s' \<and> remaining s' = q # t"
proof (induction u arbitrary: n w s)
  case Nil
  then obtain m where n: "n = Suc m" by (cases n) auto
  have r: "remaining s = q # t" using Nil.prems(2) by simp
  have nq: "q \<notin> {CHR 0x0A, CHR 0x0D}" using Nil.prems(3) by auto
  obtain s1 where "literal_body_continues s q row col = (Inr (q \<noteq> q), s1)" "source_valid s1" "remaining s1 = q # t"
    using body_continues [OF Nil.prems(1) r nq] by blast
  then show ?case by (simp add: n)
next
  case (Cons c u)
  then obtain m where n: "n = Suc m" "length u < m" by (cases n) auto
  have r: "remaining s = c_escape c @ (concat (map c_escape u) @ q # t)" using Cons.prems(2) by simp
  obtain s1 where s1: "narrow_body (Suc m) q row col w k s = narrow_body m q row col (w @ [c]) k s1"
    "source_valid s1" "remaining s1 = concat (map c_escape u) @ q # t"
    using narrow_body_char [OF Cons.prems(1) r Cons.prems(3)] by blast
  show ?case unfolding n(1) s1(1) using Cons.IH [OF s1(2,3) Cons.prems(3) n(2), of "w @ [c]"] by simp
qed

lemma c_escape_nonempty: "length u \<le> length (concat (map c_escape u))"
  by (induction u) (auto simp: c_escape_def octal_spelling_def)

lemma read_narrow_text:
  assumes v: "source_valid s" and r: "remaining s = concat (map c_escape u) @ q # t"
    and q: "q \<in> {CHR 0x22, CHR 0x27}"
  obtains s' where "read_narrow q row col s = (Inr (u, 0), s')" "source_valid s'" "remaining s' = t"
proof -
  have "length (remaining s) \<le> unread s"
    using source.left_rest [OF v] by (simp add: source_reader_def)
  then have "length u < Suc (unread s)" using c_escape_nonempty [of u] by (simp add: r)
  then obtain s1 where s1: "narrow_body (Suc (unread s)) q row col [] 0 s = (Inr (u, 0), s1)"
    "source_valid s1" "remaining s1 = q # t"
    using narrow_body_text [OF v r q] by (metis append_Nil)
  obtain s2 where s2: "source_get s1 = (Some q, s2)" "source_valid s2" "remaining s2 = t"
    using source_read_step [OF s1(2,3)] by blast
  have "source_good s1" by (rule remaining_good) (simp add: s1(3))
  then show ?thesis using that s2 
    by (simp add: read_narrow_def close_literal_def s1(1) del: narrow_body.simps)
qed

lemma no_suffix:
  assumes "source_valid s" and "r = [] \<or> \<not> (hd r = CHR ''_'' \<or> isalpha (hd r))" and "remaining s = r"
  obtains s' where "lex_ud_suffix cpp11 s = ([], s')" "source_valid s'" "remaining s' = r"
proof (cases "cpp11 \<and> source_good s")
  case False
  then show ?thesis using assms that by (auto simp: lex_ud_suffix_def)
next
  case True
  obtain c s1 where p: "source_peek s = (c, s1)" by fastforce
  have "c = first_char r" "remaining s1 = r" "source_valid s1"
    using source_peek_head [OF source_valid_not_double [OF assms(1)]] source_peek_remaining [of s]
      source_valid_later [OF assms(1)] peek_advances [of s] assms(3) by (simp_all add: p)
  then show ?thesis using True assms(2) that
    by (cases r) (auto simp: lex_ud_suffix_def p)
qed

section \<open>Digit loops\<close>

text \<open>The digits of a text with separators.\<close>

definition digits_of :: "string \<Rightarrow> string" where
  "digits_of t = filter (\<lambda>c. c \<noteq> CHR 0x27) t"

lemma digits_of_simps [simp]:
  "digits_of [] = []" "digits_of (c # t) = (if c = CHR 0x27 then digits_of t else c # digits_of t)"
  by (simp_all add: digits_of_def)

definition loop_result ::
    "(128 word \<Rightarrow> char \<Rightarrow> bool) \<Rightarrow> (128 word \<Rightarrow> char \<Rightarrow> 128 word) \<Rightarrow> 128 word \<times> bool \<Rightarrow> string
      \<Rightarrow> 128 word \<times> bool" where
  "loop_result over upd vo ds = foldl (\<lambda>(v, o1) c. (upd v c, o1 \<or> over v c)) vo ds"

lemma digit_loop_text:
  "source_valid s \<Longrightarrow> remaining s = t @ r \<Longrightarrow> \<forall>c \<in> set t. isdig c \<or> c = CHR 0x27 \<Longrightarrow>
   \<not> isdig (CHR 0x27) \<Longrightarrow> r = [] \<or> \<not> isdig (hd r) \<and> hd r \<noteq> CHR 0x27 \<Longrightarrow> length t \<le> n \<Longrightarrow>
   \<exists>s'. digit_loop n isdig over upd v ov lit s
          = ((fst (loop_result over upd (v, ov) (digits_of t)),
              snd (loop_result over upd (v, ov) (digits_of t)), lit @ digits_of t), s')
        \<and> remaining s' = r"
proof (induction t arbitrary: n v ov lit s)
  case Nil
  show ?case
  proof (cases n)
    case 0
    then show ?thesis using Nil by (simp add: loop_result_def)
  next
    case (Suc m)
    obtain c s1 where p: "source_peek s = (c, s1)" by fastforce
    have "c = first_char r" "remaining s1 = r"
      using source_peek_head [OF source_valid_not_double [OF Nil.prems(1)]] source_peek_remaining [of s]
        Nil.prems(2) by (simp_all add: p)
    then show ?thesis using Nil.prems(2,5)
      by (cases r) (auto simp: Suc p loop_result_def is_digit_separator_def)
  qed
next
  case (Cons c t)
  then obtain m where n: "n = Suc m" by (cases n) auto
  have r: "remaining s = c # (t @ r)" using Cons.prems(2) by simp
  obtain s1 where s1: "source_peek s = (Some c, s1)" "source_valid s1" "remaining s1 = c # (t @ r)" "source_good s"
    using source_peek_step [OF Cons.prems(1) r] by blast
  obtain s2 where s2: "source_get s1 = (Some c, s2)" "source_valid s2" "remaining s2 = t @ r"
    using source_read_step [OF s1(2,3)] by blast
  note ih = Cons.IH [OF s2(2,3)]
  show ?case
  proof (cases "c = CHR 0x27")
    case True
    then show ?thesis
      using ih [of m v ov lit] Cons.prems s1(4) by (simp add: n s1(1) s2(1) is_digit_separator_def)
  next
    case False
    then show ?thesis
      using ih [of m "upd v c" "ov \<or> over v c" "lit @ [c]"] Cons.prems s1(4)
      by (simp add: n s1(1) s2(1) is_digit_separator_def get_char_def loop_result_def Let_def)
  qed
qed

lemma low_nibble_digit: "isdigit c \<Longrightarrow> low_nibble c = of_nat (digit_val c) \<and> digit_val c < 10"
proof -
  assume "isdigit c"
  then have "digit_val c < 10" and b: "byte c = 48 + digit_val c" by (auto simp: isdigit_def digit_val_def)
  moreover have "list_all (\<lambda>d. (of_nat (48 + d) AND 0xF :: 128 word) = of_nat d) [0..<10]" by code_simp
  then have "(of_nat (48 + digit_val c) AND 0xF :: 128 word) = of_nat (digit_val c)"
    using \<open>digit_val c < 10\<close> unfolding list_all_iff by simp
  ultimately show ?thesis by (simp add: low_nibble_def)
qed

lemma unat_dec_limit: "unat dec_limit = (2 ^ 128 - 1) div 10"
  by (simp add: dec_limit_def)

lemma decimal_step:
  fixes v :: "128 word"
  assumes "unat v = N" and "d < 10"
  shows "(dec_limit < v \<or> v = dec_limit \<and> 5 < (of_nat d :: 128 word)) \<longleftrightarrow> 2 ^ 128 \<le> N * 10 + d"
proof -
  have "(5 < (of_nat d :: 128 word)) \<longleftrightarrow> 5 < d"
    using assms(2) by (simp add: word_less_nat_alt unat_of_nat)
  moreover have "dec_limit < v \<longleftrightarrow> (2 ^ 128 - 1) div 10 < N" "v = dec_limit \<longleftrightarrow> N = (2 ^ 128 - 1) div 10"
    using assms(1) unat_dec_limit by (auto simp: word_less_nat_alt word_unat_eq_iff)
  ultimately show ?thesis using assms(2) by simp arith
qed

lemma decimal_loop:
  "\<forall>c \<in> set ds. isdigit c \<Longrightarrow> v = of_nat N \<Longrightarrow> (ov \<longleftrightarrow> 2 ^ 128 \<le> N) \<Longrightarrow>
   loop_result (\<lambda>v c. dec_limit < v \<or> v = dec_limit \<and> 5 < low_nibble c) (\<lambda>v c. v * 10 + low_nibble c) (v, ov) ds
     = (of_nat (digits_val N ds), 2 ^ 128 \<le> digits_val N ds)"
proof (induction ds arbitrary: v N ov)
  case Nil
  then show ?case by (simp add: loop_result_def digits_val_def)
next
  case (Cons c ds)
  have d: "low_nibble c = of_nat (digit_val c)" "digit_val c < 10"
    using low_nibble_digit [of c] Cons.prems(1) by auto
  have ov: "(ov \<or> dec_limit < v \<or> v = dec_limit \<and> 5 < low_nibble c) \<longleftrightarrow> 2 ^ 128 \<le> N * 10 + digit_val c"
  proof (cases ov)
    case True
    then show ?thesis using Cons.prems(3) by auto
  next
    case False
    then have "N < 2 ^ 128" using Cons.prems(3) by simp
    then have "unat v = N" using Cons.prems(2) by (simp add: unat_of_nat)
    from decimal_step [OF this d(2)] show ?thesis using False by (simp add: d(1))
  qed
  have "v * 10 + low_nibble c = of_nat (N * 10 + digit_val c)" using Cons.prems(2) by (simp add: d(1))
  from Cons.IH [OF _ this ov [THEN sym, THEN sym]] show ?case
    using Cons.prems(1) by (simp add: loop_result_def digits_val_def)
qed

section \<open>Character constants\<close>

lemma narrow_char_value:
  "\<exists>v. narrow_char_constant_value unsigned_char [c] = Inr (v, WarnNone)
     \<and> sint (scast v :: 64 word) = (if unsigned_char \<or> byte c < 128 then int (byte c) else int (byte c) - 256)"
proof -
  have "list_all (\<lambda>b. sint (scast (take_bit 8 (of_nat b :: 32 word)) :: 64 word) = int b
      \<and> sint (scast (signed_take_bit 7 (of_nat b :: 32 word)) :: 64 word) = (if b < 128 then int b else int b - 256)) [0..<256]"
    by code_simp
  then have "\<forall>b<256. sint (scast (take_bit 8 (of_nat b :: 32 word)) :: 64 word) = int b
      \<and> sint (scast (signed_take_bit 7 (of_nat b :: 32 word)) :: 64 word) = (if b < 128 then int b else int b - 256)"
    unfolding list_all_iff by simp
  then show ?thesis using byte_less [of c] by (auto simp: narrow_char_constant_value_def Let_def)
qed

section \<open>Concrete sources\<close>

lemma source_valid_plain:
  assumes "CHR 0x5C \<notin> set t"
  shows "source_valid (source_str t source_start)" and "remaining (source_str t source_start) = t"
proof -
  have h: "splice_len (drop i t) = 0" for i
  proof (rule ccontr)
    assume n: "splice_len (drop i t) \<noteq> 0"
    then obtain c u where "drop i t = c # u" by (cases "drop i t") auto
    with n have "CHR 0x5C \<in> set (drop i t)" using splice_len_head by fastforce
    then show False using assms in_set_dropD by metis
  qed
  have "unsplice u = u" if "CHR 0x5C \<notin> set u" for u
    using that
  proof (induction u)
    case (Cons c u)
    then have "c \<noteq> CHR 0x5C" "unsplice u = u" by auto
    then show ?case by simp
  qed simp
  then show "remaining (source_str t source_start) = t"
    using assms by (simp add: remaining_def source_str_def source_start_def)
  show "source_valid (source_str t source_start)"
    by (simp add: source_valid_def splices_apart_def source_str_def source_start_def h)
qed

lemma source_valid_exec:
  assumes "list_all (\<lambda>i. splice_len (drop i t) \<noteq> 0 \<longrightarrow> splice_len (drop (i + splice_len (drop i t)) t) = 0)
    [0..<Suc (length t)]"
  shows "source_valid (source_str t source_start)"
  using assms unfolding source_valid_def splices_apart_def list_all_iff
  by (auto simp: source_str_def source_start_def simp del: upt_Suc)

section \<open>Properties\<close>

text \<open>
  UTF-8 round trip.  The bytes \<open>append_utf8_codepoint\<close> writes for a code point below
  \<open>2 ^ 21\<close>, the first one already read, are read back by \<open>read_utf8_codepoint\<close> as that code
  point, and nothing after them is consumed.
\<close>

theorem utf8_codepoint_roundtrip:
  assumes "cp < 0x200000" and "append_utf8_codepoint out cp = out @ c # cs"
    and "source_valid s" and "remaining s = cs @ t"
  shows "\<exists>s'. read_utf8_codepoint source_reader (uchar (Some c)) s = (cp, s') \<and> remaining s' = t"
proof -
  have "append_utf8_codepoint [] cp = c # cs"
    using assms(2) by (auto simp: append_utf8_codepoint_def split: if_splits)
  then show ?thesis using source.utf8_read_append [OF assms(1,3) _ assms(4)] by blast
qed

theorem utf8_codepoint_roundtrip_witness:
  "\<exists>s'. read_utf8_codepoint source_reader 0xE2 (source_str [CHR 0x82, CHR 0xAC, CHR ''x''] source_start)
     = (0x20AC, s') \<and> remaining s' = ''x''"
proof -
  have a: "append_utf8_codepoint [] 0x20AC = [] @ CHR 0xE2 # [CHR 0x82, CHR 0xAC]" by code_simp
  have "uchar (Some (CHR 0xE2)) = 0xE2" by code_simp
  then show ?thesis
    using utf8_codepoint_roundtrip [OF _ a source_valid_plain(1), of "[CHR 0x82, CHR 0xAC, CHR ''x'']" "''x''"]
      source_valid_plain(2) [of "[CHR 0x82, CHR 0xAC, CHR ''x'']"] by simp
qed

text \<open>
  C10: round trip of string literals.  Any bytes, written between double quotes with the
  quotes, backslashes and line ends among them as three-digit octal escapes, are read back by
  the string-literal reader exactly; the cursor stands after the closing quote.
\<close>

theorem string_literal_roundtrip:
  assumes "source_valid s" and "remaining s = concat (map c_escape w) @ CHR 0x22 # r"
    and "r = [] \<or> \<not> (hd r = CHR ''_'' \<or> isalpha (hd r))"
  shows "\<exists>tok s'. read_string_token cpp11 s = (Inr tok, s') \<and> str_bytes tok = w \<and> str_suffix tok = []
           \<and> str_warnings tok = 0 \<and> remaining s' = r"
proof -
  obtain s1 where s1: "read_narrow (CHR 0x22) (source_line s) (source_column s) s = (Inr (w, 0), s1)"
    "source_valid s1" "remaining s1 = r"
    using read_narrow_text [OF assms(1,2)] by blast
  obtain s2 where "lex_ud_suffix cpp11 s1 = ([], s2)" "remaining s2 = r"
    using no_suffix [OF s1(2) assms(3) s1(3)] by metis
  then show ?thesis by (simp add: read_string_token_def Let_def s1(1))
qed

theorem string_literal_roundtrip_witness:
  "\<exists>tok s'. read_string_token True (source_str (concat (map c_escape [CHR ''a'', CHR 0x22, CHR 0x0A]) @ [CHR 0x22, CHR '';'']) source_start)
     = (Inr tok, s') \<and> str_bytes tok = [CHR ''a'', CHR 0x22, CHR 0x0A] \<and> remaining s' = '';''"
proof -
  let ?t = "concat (map c_escape [CHR ''a'', CHR 0x22, CHR 0x0A]) @ [CHR 0x22, CHR '';'']"
  have v: "source_valid (source_str ?t source_start)"
    by (rule source_valid_exec) code_simp
  have r: "remaining (source_str ?t source_start) = ?t" by code_simp
  have "\<not> (hd '';'' = CHR ''_'' \<or> isalpha (hd '';''))" by code_simp
  then show ?thesis
    using string_literal_roundtrip [OF v, of "[CHR ''a'', CHR 0x22, CHR 0x0A]" "'';''" True] r by auto
qed

text \<open>
  Single-character constants.  A byte between single quotes, escaped where it must be, is
  the integer token of type \<open>char\<close> whose value is the byte, as an unsigned or as a signed
  8-bit number by the target's plain \<open>char\<close>.
\<close>

theorem char_constant_value:
  assumes "source_valid s" and "remaining s = c_escape c @ CHR 0x27 # r"
    and "r = [] \<or> \<not> (hd r = CHR ''_'' \<or> isalpha (hd r))"
  shows "\<exists>tok s'. read_char_token cpp11 unsigned_char s = (Inr tok, s') \<and> remaining s' = r
      \<and> int_type tok = TypeChar
      \<and> sint (int_value tok) = (if unsigned_char \<or> byte c < 128 then int (byte c) else int (byte c) - 256)"
proof -
  obtain s1 where s1: "read_narrow (CHR 0x27) (source_line s) (source_column s) s = (Inr ([c], 0), s1)"
    "source_valid s1" "remaining s1 = r"
    using read_narrow_text [OF assms(1), of "[c]" "CHR 0x27" r] assms(2) by auto
  obtain s2 where s2: "lex_ud_suffix cpp11 s1 = ([], s2)" "remaining s2 = r"
    using no_suffix [OF s1(2) assms(3) s1(3)] by metis
  obtain v where v: "narrow_char_constant_value unsigned_char [c] = Inr (v, WarnNone)"
    "sint (scast v :: 64 word) = (if unsigned_char \<or> byte c < 128 then int (byte c) else int (byte c) - 256)"
    using narrow_char_value [of unsigned_char c] by blast
  show ?thesis using v by (simp add: read_char_token_def Let_def s1(1) s2)
qed

theorem char_constant_value_witness:
  "\<exists>tok s'. read_char_token True False (source_str [CHR 0xFF, CHR 0x27] source_start) = (Inr tok, s')
     \<and> sint (int_value tok) = - 1"
proof -
  have e: "c_escape (CHR 0xFF) = [CHR 0xFF]" by code_simp
  have b: "byte (CHR 0xFF) = 255" by code_simp
  show ?thesis
    using char_constant_value [OF source_valid_plain(1), of "[CHR 0xFF, CHR 0x27]" "CHR 0xFF" "[]" True False]
      source_valid_plain(2) [of "[CHR 0xFF, CHR 0x27]"] e b by auto
qed

text \<open>
  Decimal digits.  The digit loop of a decimal literal, started on the value of the digits
  already read, reads the whole run of digits and separators and computes its value modulo
  \<open>2 ^ 128\<close>; its flag is set exactly when the value does not fit.
\<close>

theorem decimal_digits_value:
  assumes "source_valid s" and "remaining s = t @ r" and "\<forall>c \<in> set t. isdigit c \<or> c = CHR 0x27"
    and "r = [] \<or> \<not> isdigit (hd r) \<and> hd r \<noteq> CHR 0x27" and "n < 2 ^ 128"
  shows "\<exists>s'. read_decimal_digits (of_nat n) lit s =
      ((of_nat (digits_val n (digits_of t)), 2 ^ 128 \<le> digits_val n (digits_of t), lit @ digits_of t), s')
      \<and> remaining s' = r"
proof -
  have "length t \<le> unread s"
    using source.left_rest [OF assms(1)] by (simp add: source_reader_def assms(2))
  moreover have q: "\<not> isdigit (CHR 0x27)" by code_simp
  ultimately obtain s' where s': "read_decimal_digits (of_nat n) lit s =
      ((fst (loop_result (\<lambda>v c. dec_limit < v \<or> v = dec_limit \<and> 5 < low_nibble c)
               (\<lambda>v c. v * 10 + low_nibble c) (of_nat n, False) (digits_of t)),
        snd (loop_result (\<lambda>v c. dec_limit < v \<or> v = dec_limit \<and> 5 < low_nibble c)
               (\<lambda>v c. v * 10 + low_nibble c) (of_nat n, False) (digits_of t)), lit @ digits_of t), s')"
    "remaining s' = r"
    unfolding read_decimal_digits_def using digit_loop_text [OF assms(1-3) q assms(4)] by blast
  have ds: "\<forall>c \<in> set (digits_of t). isdigit c" using assms(3) by (auto simp: digits_of_def)
  have nf: "False \<longleftrightarrow> 2 ^ 128 \<le> n" using assms(5) by (metis not_le)
  show ?thesis
    by (rule exI [of _ s']) (simp only: s' decimal_loop [OF ds refl nf] fst_conv snd_conv)
qed

theorem decimal_digits_value_witness:
  "\<exists>s'. read_decimal_digits 1 ''1'' (source_str [CHR ''0'', CHR 0x27, CHR ''2'', CHR '';''] source_start) =
      ((102, False, ''102''), s') \<and> remaining s' = '';''"
proof -
  let ?t = "[CHR ''0'', CHR 0x27, CHR ''2'']" and ?s = "source_str [CHR ''0'', CHR 0x27, CHR ''2'', CHR '';''] source_start"
  have "list_all (\<lambda>c. isdigit c \<or> c = CHR 0x27) ?t" by code_simp
  then have t: "\<forall>c \<in> set ?t. isdigit c \<or> c = CHR 0x27" by (simp only: list_all_iff)
  have e: "'';'' = [] \<or> \<not> isdigit (hd '';'') \<and> hd '';'' \<noteq> CHR 0x27" by code_simp
  have d: "digits_of ?t = ''02''" "digits_val 1 ''02'' = 102" by code_simp+
  have s: "source_valid ?s" and r: "remaining ?s = ?t @ '';''"
    using source_valid_plain [of "?t @ '';''"] by simp_all
  have n: "(1::nat) < 2 ^ 128" by simp
  have "of_nat 1 = (1 :: 128 word)" "of_nat 102 = (102 :: 128 word)" "2 ^ 128 \<le> (102 :: nat) \<longleftrightarrow> False" by simp_all
  then show ?thesis
    using decimal_digits_value [OF s r t e n, of "''1''"] unfolding d by (simp only: append_Cons append_Nil)
qed

end
