(* ===== verification/PpGroup.thy ===== *)
theory PpGroup
  imports SourceLiterals SpellingDelim
begin

text \<open>
  Preprocessing groups, from \<^verbatim>\<open>src/lexer.cpp\<close>: the opening of a macro call, the shield that
  keeps quotes and comments from counting as delimiters, the scan of one parenthesised group
  (over the live source and over captured text), and the table of GNU attribute names.
\<close>

section \<open>Opening a macro call\<close>

definition call_space :: "char \<Rightarrow> bool" where
  "call_space c \<longleftrightarrow> c = CHR '' '' \<or> c = CHR 0x09 \<or> c = CHR 0x0A \<or> c = CHR 0x0D"

primrec call_spacing :: "nat \<Rightarrow> string \<Rightarrow> source \<Rightarrow> string \<times> source" where
  "call_spacing 0 spacing src = (spacing, src)"
| "call_spacing (Suc n) spacing src =
     (if \<not> source_good src then (spacing, src)
      else
        (case source_peek src of
           (c, src1) \<Rightarrow>
             (if \<not> (case c of None \<Rightarrow> False | Some ch \<Rightarrow> call_space ch) then (spacing, src1)
              else
                (case source_get src1 of
                   (d, src2) \<Rightarrow> call_spacing n (spacing @ [get_char d]) src2))))"

definition consume_macro_call_open :: "source \<Rightarrow> bool \<times> source" where
  "consume_macro_call_open src =
     (case call_spacing (unread src) [] src of
        (spacing, src1) \<Rightarrow>
          (case (if source_good src1 then source_peek src1 else (None, src1)) of
             (c, src2) \<Rightarrow>
               (if c = Some (CHR ''('') then (True, snd (source_get src2))
                else if spacing \<noteq> [] then (False, source_pushback spacing src2)
                else (False, src2))))"

section \<open>The lexical shield\<close>

datatype shield_mode =
  ShieldCode | ShieldString | ShieldCharacter | ShieldLineComment | ShieldBlockComment
  | ShieldBlockCommentClose

record shield =
  sh_mode :: shield_mode
  sh_escaped :: bool

definition shield_start :: shield where
  "shield_start = \<lparr>sh_mode = ShieldCode, sh_escaped = False\<rparr>"

text \<open>\<open>structural\<close>: whether the character is code, and the shield after it.\<close>

definition structural :: "shield \<Rightarrow> char \<Rightarrow> char \<Rightarrow> bool \<times> shield" where
  "structural sh c nxt =
     (case sh_mode sh of
        ShieldLineComment \<Rightarrow>
          (False, if c = CHR 0x0A \<or> c = CHR 0x0D then sh\<lparr>sh_mode := ShieldCode\<rparr> else sh)
      | ShieldBlockComment \<Rightarrow>
          (False, if c = CHR ''*'' \<and> nxt = CHR ''/'' then sh\<lparr>sh_mode := ShieldBlockCommentClose\<rparr> else sh)
      | ShieldBlockCommentClose \<Rightarrow> (False, sh\<lparr>sh_mode := ShieldCode\<rparr>)
      | ShieldCode \<Rightarrow>
          (if c = CHR 0x22 then (False, sh\<lparr>sh_mode := ShieldString\<rparr>)
           else if c = CHR 0x27 then (False, sh\<lparr>sh_mode := ShieldCharacter\<rparr>)
           else if c = CHR ''/'' \<and> nxt = CHR ''/'' then (False, sh\<lparr>sh_mode := ShieldLineComment\<rparr>)
           else if c = CHR ''/'' \<and> nxt = CHR ''*'' then (False, sh\<lparr>sh_mode := ShieldBlockComment\<rparr>)
           else (True, sh))
      | _ \<Rightarrow>
          (if sh_escaped sh then (False, sh\<lparr>sh_escaped := False\<rparr>)
           else if c = CHR 0x5C then (False, sh\<lparr>sh_escaped := True\<rparr>)
           else if sh_mode sh = ShieldString \<and> c = CHR 0x22
                   \<or> sh_mode sh = ShieldCharacter \<and> c = CHR 0x27
           then (False, sh\<lparr>sh_mode := ShieldCode\<rparr>)
           else (False, sh)))"

section \<open>The scan of a group\<close>

record group_scan =
  gs_depth :: delim_depth
  gs_shield :: shield
  gs_started :: bool
  gs_finished :: bool

definition group_start :: group_scan where
  "group_start =
     \<lparr>gs_depth = delim_start, gs_shield = shield_start, gs_started = False, gs_finished = False\<rparr>"

definition group_step :: "group_scan \<Rightarrow> char \<Rightarrow> char \<Rightarrow> bool \<times> group_scan" where
  "group_step g c nxt =
     (case structural (gs_shield g) c nxt of
        (False, sh) \<Rightarrow> (False, g\<lparr>gs_shield := sh\<rparr>)
      | (True, sh) \<Rightarrow>
          (let depth_before = paren (gs_depth g);
               d = delim_update (gs_depth g) c;
               started = gs_started g \<or> c = CHR ''('' \<and> paren d = 1;
               finished = gs_finished g \<or> started \<and> c = CHR '')'' \<and> depth_before = 1 \<and> paren d = 0
           in (True, g\<lparr>gs_shield := sh, gs_depth := d, gs_started := started, gs_finished := finished\<rparr>)))"

definition at_argument_level :: "group_scan \<Rightarrow> bool" where
  "at_argument_level g \<longleftrightarrow> gs_started g \<and> paren (gs_depth g) = 1"

text \<open>The loop of \<open>consume_pp_group\<close> over the live source; the text is what \<open>copy\<close> receives.\<close>

primrec consume_group_go ::
    "nat \<Rightarrow> group_scan \<Rightarrow> string \<Rightarrow> source \<Rightarrow> (bool \<times> string) \<times> source" where
  "consume_group_go 0 g copy src = ((False, copy), src)"
| "consume_group_go (Suc n) g copy src =
     (if \<not> source_good src then ((False, copy), src)
      else
        (case source_get src of
           (d, src1) \<Rightarrow>
             (let c = get_char d
              in case (if source_good src1
                       then (case source_peek src1 of (p, src2) \<Rightarrow> (get_char p, src2))
                       else (CHR 0x00, src1)) of
                   (nxt, src2) \<Rightarrow>
                     (let g' = snd (group_step g c nxt)
                      in if gs_finished g' then ((True, copy @ [c]), src2)
                         else consume_group_go n g' (copy @ [c]) src2))))"

definition consume_pp_group :: "source \<Rightarrow> (bool \<times> string) \<times> source" where
  "consume_pp_group src =
     (if \<not> source_good src then ((False, []), src)
      else
        (case source_peek src of
           (c, src1) \<Rightarrow>
             (if c \<noteq> Some (CHR ''('') then ((False, []), src1)
              else consume_group_go (unread src1) group_start [] src1)))"

text \<open>The same scan over captured text: the index after the group's last byte.\<close>

definition next_byte :: "string \<Rightarrow> char" where
  "next_byte t = (case t of [] \<Rightarrow> CHR 0x00 | c # _ \<Rightarrow> c)"

fun group_end_go :: "group_scan \<Rightarrow> nat \<Rightarrow> string \<Rightarrow> nat option" where
  "group_end_go g i [] = None"
| "group_end_go g i (c # t) =
     (let g' = snd (group_step g c (next_byte t))
      in if gs_finished g' then Some (i + 1) else group_end_go g' (i + 1) t)"

definition pp_group_end :: "string \<Rightarrow> nat \<Rightarrow> nat option" where
  "pp_group_end text open =
     (if length text \<le> open \<or> text ! open \<noteq> CHR ''('' then None
      else group_end_go group_start open (drop open text))"

section \<open>Identifier spellings and GNU attributes\<close>

definition is_identifier_spelling :: "string \<Rightarrow> bool" where
  "is_identifier_spelling s =
     (case s of
        [] \<Rightarrow> False
      | c # t \<Rightarrow> (c = CHR ''_'' \<or> isalpha c) \<and> list_all (\<lambda>d. d = CHR ''_'' \<or> isalnum d) t)"

definition madc_gnu_attribute_introducer :: "string \<Rightarrow> bool" where
  "madc_gnu_attribute_introducer word \<longleftrightarrow>
     word = ''__attribute__'' \<or> word = ''__attribute'' \<or> word = ''__mirc_attribute__''"

definition madc_gnu_attribute_word_is :: "string \<Rightarrow> string \<Rightarrow> bool" where
  "madc_gnu_attribute_word_is ident word =
     (let n = length word
      in if length ident = n then ident = word
         else length ident = n + 4 \<and> take 2 ident = ''__'' \<and> take n (drop 2 ident) = word
              \<and> take 2 (drop (n + 2) ident) = ''__'')"

datatype gnu_attribute_kind =
  AttrUnsupported | AttrPacked | AttrAligned | AttrMode | AttrScalarStorageOrder | AttrVectorSize
  | AttrAlias | AttrNoInstrumentFunction | AttrOptimize | AttrUsingIfExists | AttrWeak
  | AttrCleanup | AttrNoInline

definition gnu_attribute_rows :: "(string \<times> gnu_attribute_kind) list" where
  "gnu_attribute_rows =
     [(''packed'', AttrPacked), (''aligned'', AttrAligned), (''mode'', AttrMode),
      (''scalar_storage_order'', AttrScalarStorageOrder), (''vector_size'', AttrVectorSize),
      (''alias'', AttrAlias), (''no_instrument_function'', AttrNoInstrumentFunction),
      (''optimize'', AttrOptimize), (''using_if_exists'', AttrUsingIfExists),
      (''weak'', AttrWeak), (''cleanup'', AttrCleanup), (''noinline'', AttrNoInline)]"

definition madc_gnu_attribute_kind :: "string \<Rightarrow> gnu_attribute_kind" where
  "madc_gnu_attribute_kind name =
     (case find (\<lambda>(word, _). madc_gnu_attribute_word_is name word) gnu_attribute_rows of
        None \<Rightarrow> AttrUnsupported
      | Some (_, kind) \<Rightarrow> kind)"

text \<open>The rest of a quoted run, the quote itself read.\<close>

fun after_quoted :: "char \<Rightarrow> string \<Rightarrow> string" where
  "after_quoted q [] = []"
| "after_quoted q (c # t) =
     (if c = CHR 0x5C \<and> t \<noteq> [] then after_quoted q (tl t)
      else if c = q then t else after_quoted q t)"

lemma after_quoted_len: "length (after_quoted q t) \<le> length t"
proof (induction q t rule: after_quoted.induct)
  case (2 q c t)
  then show ?case
    by (cases t; cases "c = CHR 0x5C") (auto intro: le_SucI)
qed simp

definition word_byte_c :: "char \<Rightarrow> bool" where
  "word_byte_c c \<longleftrightarrow> c = CHR ''_'' \<or> isalnum c"

function gnu_attribute_text_has_supported_name :: "string \<Rightarrow> bool" where
  "gnu_attribute_text_has_supported_name text =
     (case text of
        [] \<Rightarrow> False
      | c # t \<Rightarrow>
          (if c = CHR 0x22 \<or> c = CHR 0x27 then gnu_attribute_text_has_supported_name (after_quoted c t)
           else if \<not> (c = CHR ''_'' \<or> isalpha c) then gnu_attribute_text_has_supported_name t
           else madc_gnu_attribute_kind (c # takeWhile word_byte_c t) \<noteq> AttrUnsupported
                \<or> gnu_attribute_text_has_supported_name (dropWhile word_byte_c t)))"
  by pat_completeness auto
termination
  by (relation "measure length")
    (auto simp: le_imp_less_Suc after_quoted_len length_dropWhile_le)

declare gnu_attribute_text_has_supported_name.simps [simp del]

end
