(* ===== verification/MacroSpelling.thy ===== *)
theory MacroSpelling
  imports PpGroup
begin

text \<open>
  Macro replacement text, from \<^verbatim>\<open>src/lexer.cpp\<close> and \<^verbatim>\<open>include/ident_char.h\<close>: the
  preprocessing-token spelling scanner, the names a source text spells, argument trimming
  with its paint stretches, the \<open>#\<close> operator, and the substitution of a function-like
  macro's body with \<open>#\<close> and \<open>##\<close>.

  A scanner that walks an index \<open>i\<close> over \<open>text\<close> is a function of the text from \<open>i\<close> on; the
  offsets it stores are carried along.  The identifier a token caches is its text, so the
  token record keeps kind and offsets only.
\<close>

section \<open>Identifier characters\<close>

definition is_ascii_letter :: "char \<Rightarrow> bool" where
  "is_ascii_letter c \<longleftrightarrow> ((of_nat (byte c) OR 0x20) - 97 :: 8 word) < 26"

definition is_ident_start :: "char \<Rightarrow> bool" where
  "is_ident_start c \<longleftrightarrow> c = CHR ''_'' \<or> is_ascii_letter c"

definition is_ident_char :: "char \<Rightarrow> bool" where
  "is_ident_char c \<longleftrightarrow> is_ident_start c \<or> (of_nat (byte c) - 48 :: 8 word) < 10"

section \<open>Replacement tokens\<close>

datatype repl_kind =
  RtWhitespace | RtComment | RtIdentifier | RtPpNumber | RtLiteral | RtHash | RtPaste | RtPunct

record repl_token =
  rt_kind :: repl_kind
  rt_begin :: nat
  rt_end :: nat

definition macro_body_space :: "char \<Rightarrow> bool" where
  "macro_body_space c \<longleftrightarrow> c = CHR '' '' \<or> c = CHR 0x09 \<or> c = CHR 0x0A \<or> c = CHR 0x0D"

definition line_end_char :: "char \<Rightarrow> bool" where
  "line_end_char c \<longleftrightarrow> c = CHR 0x0A \<or> c = CHR 0x0D"

text \<open>\<open>pp_literal_start\<close>: the offset of the quote and whether the literal is raw.\<close>

definition pp_literal_start :: "string \<Rightarrow> (nat \<times> bool) option" where
  "pp_literal_start s =
     (let p = (case s of
                 [] \<Rightarrow> 0
               | c # t \<Rightarrow>
                   (if c = CHR ''u'' then (if t \<noteq> [] \<and> hd t = CHR ''8'' then 2 else 1)
                    else if c = CHR ''U'' \<or> c = CHR ''L'' then 1 else 0));
          r = (p < length s \<and> s ! p = CHR ''R'');
          q = (if r then p + 1 else p)
      in if length s \<le> q \<or> s ! q \<noteq> CHR 0x22 \<and> (r \<or> s ! q \<noteq> CHR 0x27) then None
         else Some (q, r))"

text \<open>The end of a block comment from the character after its opening.\<close>

fun block_comment_len :: "char \<Rightarrow> string \<Rightarrow> nat" where
  "block_comment_len p [] = 0"
| "block_comment_len p (c # t) =
     (if p = CHR ''*'' \<and> c = CHR ''/'' then 1 else Suc (block_comment_len c t))"

text \<open>The rest of an ordinary literal, its opening quote \<open>q\<close> read.\<close>

fun literal_len :: "char \<Rightarrow> bool \<Rightarrow> string \<Rightarrow> nat" where
  "literal_len q escaped [] = 0"
| "literal_len q escaped (c # t) =
     (if \<not> escaped \<and> line_end_char c then 0
      else if escaped then Suc (literal_len q False t)
      else if c = CHR 0x5C then Suc (literal_len q True t)
      else if c = q then 1
      else Suc (literal_len q False t))"

text \<open>
  Characters that end a raw string's delimiter.  \<open>strchr\<close> finds the terminating zero too.
\<close>

definition raw_delim_stop :: "char \<Rightarrow> bool" where
  "raw_delim_stop c \<longleftrightarrow>
     c \<in> {CHR '' '', CHR 0x09, CHR 0x0B, CHR 0x0C, CHR 0x0A, CHR 0x0D, CHR 0x22, CHR 0x5C,
           CHR '')'', CHR 0x00}"

definition raw_literal :: "string \<Rightarrow> nat \<Rightarrow> repl_kind \<times> nat" where
  "raw_literal s quote =
     (let t = drop (quote + 1) s;
          k = length (takeWhile (\<lambda>c. c \<noteq> CHR ''('' \<and> \<not> raw_delim_stop c) (take 17 t))
      in if length t \<le> k \<or> t ! k \<noteq> CHR ''('' \<or> 16 < k then (RtIdentifier, quote)
         else
           (let close = CHR '')'' # take k t @ [CHR 0x22]
            in case str_find s close (quote + 1 + k + 1) of
                 None \<Rightarrow> (RtLiteral, length s)
               | Some e \<Rightarrow> (RtLiteral, e + length close)))"

fun pp_number_len :: "char \<Rightarrow> string \<Rightarrow> nat" where
  "pp_number_len p [] = 0"
| "pp_number_len p (c # t) =
     (if c = CHR ''.'' \<or> c = CHR 0x27 \<or> is_ident_char c
         \<or> (c = CHR ''+'' \<or> c = CHR ''-'')
           \<and> (p = CHR ''e'' \<or> p = CHR ''E'' \<or> p = CHR ''p'' \<or> p = CHR ''P'')
      then Suc (pp_number_len c t) else 0)"

text \<open>One token at the head of a non-empty text: its kind and length.\<close>

definition scan_token :: "char \<Rightarrow> string \<Rightarrow> repl_kind \<times> nat" where
  "scan_token c t =
     (if macro_body_space c then (RtWhitespace, Suc (length (takeWhile macro_body_space t)))
      else if c = CHR ''/'' \<and> t \<noteq> [] \<and> hd t = CHR ''/''
      then (RtComment, 2 + length (takeWhile (\<lambda>d. \<not> line_end_char d) (tl t)))
      else if c = CHR ''/'' \<and> t \<noteq> [] \<and> hd t = CHR ''*''
      then (RtComment, 2 + block_comment_len (CHR ''*'') (tl t))
      else
        (case pp_literal_start (c # t) of
           Some (quote, raw) \<Rightarrow>
             (if raw then raw_literal (c # t) quote
              else (RtLiteral,
                    quote + 1 + literal_len ((c # t) ! quote) False (drop (quote + 1) (c # t))))
         | None \<Rightarrow>
             (if is_ident_start c then (RtIdentifier, Suc (length (takeWhile is_ident_char t)))
              else if isdigit c \<or> c = CHR ''.'' \<and> t \<noteq> [] \<and> isdigit (hd t)
              then (RtPpNumber, Suc (pp_number_len c t))
              else if c = CHR ''#''
              then (if t \<noteq> [] \<and> hd t = CHR ''#'' then (RtPaste, 2) else (RtHash, 1))
              else (RtPunct, 1))))"

lemma raw_needs_prefix: "pp_literal_start s = Some (q, True) \<Longrightarrow> 0 < q"
  by (auto simp: pp_literal_start_def Let_def split: if_splits)

lemma scan_token_pos: "0 < snd (scan_token c t)"
proof (cases "pp_literal_start (c # t)")
  case (Some a)
  then obtain q r where a: "pp_literal_start (c # t) = Some (q, r)" by (cases a) auto
  have "0 < snd (raw_literal (c # t) q)" if r
    using raw_needs_prefix [of "c # t" q] a that
    by (auto simp: raw_literal_def Let_def split: option.split)
  then show ?thesis using a by (auto simp: scan_token_def)
qed (simp add: scan_token_def)

function tokenize_from :: "nat \<Rightarrow> string \<Rightarrow> repl_token list" where
  "tokenize_from i [] = []"
| "tokenize_from i (c # t) =
     (case scan_token c t of
        (k, n) \<Rightarrow> \<lparr>rt_kind = k, rt_begin = i, rt_end = i + n\<rparr> # tokenize_from (i + n) (drop n (c # t)))"
  by pat_completeness auto
termination
  by (relation "measure (\<lambda>(i, s). length s)") (auto, metis scan_token_pos diff_less snd_conv zero_less_Suc)


definition tokenize_macro_spelling :: "string \<Rightarrow> repl_token list" where
  "tokenize_macro_spelling text = tokenize_from 0 text"

definition macro_token_space :: "repl_token \<Rightarrow> bool" where
  "macro_token_space t \<longleftrightarrow> rt_kind t = RtWhitespace \<or> rt_kind t = RtComment"

definition macro_token_text :: "string \<Rightarrow> repl_token \<Rightarrow> string" where
  "macro_token_text text t = substr text (rt_begin t) (rt_end t - rt_begin t)"

section \<open>The names a text spells\<close>

datatype pp_directive_word =
  DirOther | DirIf | DirIfdef | DirIfndef | DirElif | DirElse | DirEndif | DirDefine | DirInclude

definition directive_rows :: "(string \<times> pp_directive_word) list" where
  "directive_rows =
     [(''if'', DirIf), (''else'', DirElse), (''elif'', DirElif), (''ifdef'', DirIfdef),
      (''endif'', DirEndif), (''ifndef'', DirIfndef), (''define'', DirDefine),
      (''import'', DirInclude), (''include'', DirInclude), (''include_next'', DirInclude)]"

definition pp_directive_word :: "string \<Rightarrow> pp_directive_word" where
  "pp_directive_word w = (case map_of directive_rows w of None \<Rightarrow> DirOther | Some d \<Rightarrow> d)"

datatype spelled_at =
  AtText | AtDirectiveWord | AtDirective | AtDefineName | AtDefineParams | AtDefineBody
  | AtIncludeOperand

record spelled_state =
  ss_at :: spelled_at
  ss_params :: "string list"
  ss_bol :: bool
  ss_continued :: bool
  ss_has_paste :: bool
  ss_names :: "string set"
  ss_content :: "string set"

definition spelled_start :: spelled_state where
  "spelled_start =
     \<lparr>ss_at = AtText, ss_params = [], ss_bol = True, ss_continued = False, ss_has_paste = False,
      ss_names = {}, ss_content = {}\<rparr>"

text \<open>
  An identifier where neither a directive word nor the line's hash stands: the state after
  it and whether the token after it, an opening parenthesis, is stepped over too.
\<close>

definition spelled_identifier ::
    "string \<Rightarrow> string \<Rightarrow> repl_token list \<Rightarrow> spelled_state \<Rightarrow> spelled_state \<times> bool" where
  "spelled_identifier text name rest st0 =
     (let st = st0\<lparr>ss_names := insert name (ss_names st0)\<rparr>
      in if ss_at st = AtDefineName then
           (let opens = (rest \<noteq> [] \<and> rt_kind (hd rest) = RtPunct \<and> text ! rt_begin (hd rest) = CHR ''('')
            in (st\<lparr>ss_params := [], ss_at := (if opens then AtDefineParams else AtDefineBody)\<rparr>, opens))
         else if ss_at st = AtDefineParams then (st\<lparr>ss_params := ss_params st @ [name]\<rparr>, False)
         else if ss_at st = AtText \<or> ss_at st = AtDefineBody \<and> name \<notin> set (ss_params st)
         then (st\<lparr>ss_content := insert name (ss_content st)\<rparr>, False)
         else (st, False))"

definition spelled_step ::
    "string \<Rightarrow> repl_token \<Rightarrow> repl_token list \<Rightarrow> spelled_state \<Rightarrow> spelled_state \<times> bool" where
  "spelled_step text t rest st =
     (let w = macro_token_text text t
      in if rt_kind t = RtWhitespace then
           (let st1 = (if CHR 0x0A \<in> set w \<and> \<not> ss_continued st
                       then st\<lparr>ss_at := AtText, ss_bol := True\<rparr> else st)
            in (st1\<lparr>ss_continued := False\<rparr>, False))
         else if rt_kind t = RtComment then (st, False)
         else if rt_kind t = RtPunct \<and> w = [CHR 0x5C] then (st\<lparr>ss_continued := True\<rparr>, False)
         else if ss_bol st \<and> rt_kind t = RtHash
         then (st\<lparr>ss_continued := False, ss_at := AtDirectiveWord, ss_bol := False\<rparr>, False)
         else
           (let st1 = st\<lparr>ss_continued := False, ss_bol := False,
                         ss_has_paste := ss_has_paste st \<or> rt_kind t = RtPaste\<rparr>
            in if ss_at st1 = AtDirectiveWord then
                 (let word = (if rt_kind t = RtIdentifier then pp_directive_word w else DirOther)
                  in (st1\<lparr>ss_at := (if word = DirDefine then AtDefineName
                                     else if word = DirInclude then AtIncludeOperand else AtDirective),
                         ss_names := (if rt_kind t = RtIdentifier then insert w (ss_names st1)
                                      else ss_names st1)\<rparr>, False))
               else
                 (let st2 = (if ss_at st1 = AtIncludeOperand
                             then st1\<lparr>ss_at := (if rt_kind t = RtPunct \<and> hd w = CHR ''<''
                                                   \<or> rt_kind t = RtLiteral
                                                then AtDirective else AtDefineBody)\<rparr>
                             else st1)
                  in if ss_at st2 = AtDefineParams \<and> rt_kind t = RtPunct \<and> hd w = CHR '')''
                     then (st2\<lparr>ss_at := AtDefineBody\<rparr>, False)
                     else if rt_kind t \<noteq> RtIdentifier
                     then (st2\<lparr>ss_at := (if ss_at st2 = AtDefineName then AtDefineBody else ss_at st2)\<rparr>,
                           False)
                     else spelled_identifier text w rest st2)))"

fun spelled_go :: "string \<Rightarrow> repl_token list \<Rightarrow> spelled_state \<Rightarrow> spelled_state" where
  "spelled_go text [] st = st"
| "spelled_go text (t # rest) st =
     (case spelled_step text t rest st of
        (st', True) \<Rightarrow> (case rest of [] \<Rightarrow> st' | _ # rest' \<Rightarrow> spelled_go text rest' st')
      | (st', False) \<Rightarrow> spelled_go text rest st')"

text \<open>The names, the content names and whether a \<open>##\<close> was seen.\<close>

definition source_spelled_names :: "string \<Rightarrow> string set \<times> string set \<times> bool" where
  "source_spelled_names text =
     (let st = spelled_go text (tokenize_macro_spelling text) spelled_start
      in (ss_names st, ss_content st, ss_has_paste st))"

end
