(* ===== verification/MacroExpand.thy ===== *)
theory MacroExpand
  imports MacroSpelling
begin

text \<open>
  Function-like macros, from \<^verbatim>\<open>src/lexer.cpp\<close>: the definition record, argument trimming and
  the paint stretches of an argument, the \<open>#\<close> operator, the substitution of a body with its
  \<open>#\<close> and \<open>##\<close>, and the reading of a body from the source.

  The token cache of \<open>MacroDef\<close> holds the tokens of the body whenever it is read, so the
  model tokenizes the body.
\<close>

section \<open>Definitions and parameters\<close>

record macro_def =
  md_params :: "string list"
  md_variadic :: bool
  md_variadic_param :: string
  md_body :: string

definition macro_replacement_tokens :: "macro_def \<Rightarrow> repl_token list" where
  "macro_replacement_tokens m = tokenize_macro_spelling (md_body m)"

definition macro_fixed_param_count :: "macro_def \<Rightarrow> nat" where
  "macro_fixed_param_count m =
     (if md_variadic m \<and> md_variadic_param m \<noteq> [] \<and> md_params m \<noteq> []
      then length (md_params m) - 1 else length (md_params m))"

text \<open>The index of the first token from \<open>i\<close> on that is no space.\<close>

definition skip_space :: "repl_token list \<Rightarrow> nat \<Rightarrow> nat" where
  "skip_space toks i = i + length (takeWhile macro_token_space (drop i toks))"

definition macro_param_use_is_raw :: "repl_token list \<Rightarrow> nat \<Rightarrow> bool" where
  "macro_param_use_is_raw toks i =
     ((case dropWhile macro_token_space (rev (take i toks)) of
         [] \<Rightarrow> False
       | t # _ \<Rightarrow> rt_kind t = RtHash \<or> rt_kind t = RtPaste)
      \<or> (let right = skip_space toks (i + 1)
         in right < length toks \<and> rt_kind (toks ! right) = RtPaste))"

definition macro_param_has_expanded_use :: "macro_def \<Rightarrow> string \<Rightarrow> bool" where
  "macro_param_has_expanded_use m param =
     (let toks = macro_replacement_tokens m
      in list_ex (\<lambda>i. rt_kind (toks ! i) = RtIdentifier \<and> macro_token_text (md_body m) (toks ! i) = param
                      \<and> \<not> macro_param_use_is_raw toks i) [0..<length toks])"

section \<open>Trimming an argument\<close>

definition trim_macro_argument :: "string \<Rightarrow> string" where
  "trim_macro_argument s = strip macro_body_space s"

fun trim_stretches :: "nat \<Rightarrow> nat \<Rightarrow> paint_seg list \<Rightarrow> paint_seg list \<Rightarrow> paint_seg list" where
  "trim_stretches lead n kept [] = kept"
| "trim_stretches lead n kept ((o0, paint) # segs) =
     (let off = (if lead < o0 then o0 - lead else 0)
      in if n \<le> off then kept
         else
           (let kept1 = (if kept \<noteq> [] \<and> fst (last kept) = off then butlast kept else kept)
            in if kept1 \<noteq> [] \<and> snd (last kept1) = paint
               then trim_stretches lead n kept1 segs
               else trim_stretches lead n (kept1 @ [(off, paint)]) segs))"

definition trim_macro_argument_segs ::
    "string \<Rightarrow> paint_seg list \<Rightarrow> string \<times> paint_seg list" where
  "trim_macro_argument_segs s segs =
     (let s' = trim_macro_argument s
      in if length segs \<le> 1
         then (s', (case segs of [] \<Rightarrow> [] | (_, paint) # rest \<Rightarrow> (0, paint) # rest))
         else if s' = [] then (s', [])
         else (s', trim_stretches (the (str_find s s' 0)) (length s') [] segs))"

record arg_stretches =
  as_first :: paint_seg
  as_segs :: "paint_seg list"
  as_started :: bool

definition stretches_start :: arg_stretches where
  "stretches_start = \<lparr>as_first = (0, {}), as_segs = [], as_started = False\<rparr>"

definition stretches_paint :: "arg_stretches \<Rightarrow> string set" where
  "stretches_paint st = (if as_segs st = [] then snd (as_first st) else snd (last (as_segs st)))"

definition stretches_note :: "nat \<Rightarrow> string set \<Rightarrow> arg_stretches \<Rightarrow> arg_stretches" where
  "stretches_note off paint st =
     (if as_started st \<and> paint = {} \<and> stretches_paint st = {} then st
      else if \<not> as_started st then st\<lparr>as_first := (off, paint), as_started := True\<rparr>
      else if stretches_paint st = paint then st
      else st\<lparr>as_segs := (if as_segs st = [] then [as_first st] else as_segs st) @ [(off, paint)]\<rparr>)"

text \<open>\<open>finish\<close>: the trimmed argument, its stretches when there is more than one, the state.\<close>

definition stretches_finish ::
    "string \<Rightarrow> arg_stretches \<Rightarrow> (string \<times> paint_seg list option) \<times> arg_stretches" where
  "stretches_finish arg st =
     (if as_segs st = [] then ((trim_macro_argument arg, None), st\<lparr>as_started := False\<rparr>)
      else
        (case trim_macro_argument_segs arg (as_segs st) of
           (arg', segs) \<Rightarrow>
             ((arg', if 1 < length segs then Some segs else None),
              st\<lparr>as_started := False, as_segs := []\<rparr>)))"

section \<open>The stringify operator\<close>

definition escape_literal :: "string \<Rightarrow> string" where
  "escape_literal w = concat (map (\<lambda>c. if c = CHR 0x22 \<or> c = CHR 0x5C then [CHR 0x5C, c] else [c]) w)"

text \<open>The pieces after the opening quote; \<open>pending\<close> and \<open>wrote\<close> as in the code.\<close>

fun stringify_go :: "string \<Rightarrow> bool \<Rightarrow> bool \<Rightarrow> repl_token list \<Rightarrow> string" where
  "stringify_go raw pending wrote [] = []"
| "stringify_go raw pending wrote (t # ts) =
     (if macro_token_space t then stringify_go raw (pending \<or> wrote) wrote ts
      else
        (if pending then '' '' else [])
        @ (let w = macro_token_text raw t in if rt_kind t = RtLiteral then escape_literal w else w)
        @ stringify_go raw False True ts)"

definition stringify_macro_arg :: "string \<Rightarrow> string" where
  "stringify_macro_arg raw =
     CHR 0x22 # stringify_go raw False False (tokenize_macro_spelling raw) @ [CHR 0x22]"

section \<open>Substituting a body\<close>

definition param_of :: "macro_def \<Rightarrow> string \<Rightarrow> nat option" where
  "param_of m name =
     (case find (\<lambda>k. md_params m ! k = name) [0..<macro_fixed_param_count m] of
        Some k \<Rightarrow> Some k
      | None \<Rightarrow>
          (if md_variadic m
              \<and> (name = ''__VA_ARGS__'' \<or> md_variadic_param m \<noteq> [] \<and> name = md_variadic_param m)
           then Some (macro_fixed_param_count m) else None))"

definition raw_varargs :: "macro_def \<Rightarrow> string list \<Rightarrow> string" where
  "raw_varargs m raw_args =
     (if md_variadic m then join '', '' (drop (macro_fixed_param_count m) raw_args) else [])"

definition expanded_varargs :: "macro_def \<Rightarrow> string list \<Rightarrow> string list \<Rightarrow> string" where
  "expanded_varargs m raw_args expanded_args =
     (if md_variadic m
      then join '', '' (map (\<lambda>i. if i < length expanded_args then expanded_args ! i else raw_args ! i)
                          [macro_fixed_param_count m..<length raw_args])
      else [])"

definition raw_text :: "macro_def \<Rightarrow> string list \<Rightarrow> nat \<Rightarrow> string" where
  "raw_text m raw_args k =
     (if md_variadic m \<and> k = macro_fixed_param_count m then raw_varargs m raw_args
      else if k < length raw_args then raw_args ! k else [])"

definition expanded_text :: "macro_def \<Rightarrow> string list \<Rightarrow> string list \<Rightarrow> nat \<Rightarrow> string" where
  "expanded_text m raw_args expanded_args k =
     (if md_variadic m \<and> k = macro_fixed_param_count m
      then expanded_varargs m raw_args expanded_args
      else if k < length expanded_args then expanded_args ! k else [])"

definition drop_trailing_blank :: "string \<Rightarrow> string" where
  "drop_trailing_blank s = rev (dropWhile macro_body_space (rev s))"

text \<open>The index after a \<open>#\<close> and its parameter, with the parameter's position.\<close>

definition hash_operand :: "macro_def \<Rightarrow> repl_token list \<Rightarrow> nat \<Rightarrow> (nat \<times> nat) option" where
  "hash_operand m toks i =
     (let p = skip_space toks (i + 1)
      in if rt_kind (toks ! i) = RtHash \<and> p < length toks \<and> rt_kind (toks ! p) = RtIdentifier
         then map_option (\<lambda>k. (p + 1, k)) (param_of m (macro_token_text (md_body m) (toks ! p)))
         else None)"

lemma hash_operand_forward: "hash_operand m toks i = Some (j, k) \<Longrightarrow> i < j"
  by (auto simp: hash_operand_def Let_def skip_space_def split: if_splits)

definition name_operand :: "macro_def \<Rightarrow> repl_token \<Rightarrow> nat option" where
  "name_operand m t =
     (if rt_kind t = RtIdentifier then param_of m (macro_token_text (md_body m) t) else None)"

text \<open>
  The loop of \<open>expand_function_macro_body\<close>: the text so far, whether a \<open>##\<close> was just
  consumed, and the spans of substituted arguments.
\<close>

function expand_body_go ::
    "macro_def \<Rightarrow> string list \<Rightarrow> string list \<Rightarrow> repl_token list \<Rightarrow> nat \<Rightarrow> bool \<Rightarrow> string
      \<Rightarrow> arg_span list \<Rightarrow> string \<times> arg_span list" where
  "expand_body_go m raw expd toks i after_paste acc spans =
     (if length toks \<le> i then (acc, spans)
      else
        (let t = toks ! i
         in case hash_operand m toks i of
              Some (j, k) \<Rightarrow>
                expand_body_go m raw expd toks j after_paste
                  (acc @ stringify_macro_arg (raw_text m raw k)) spans
            | None \<Rightarrow>
                (if rt_kind t = RtPaste
                 then expand_body_go m raw expd toks (skip_space toks (i + 1)) True
                        (drop_trailing_blank acc) spans
                 else
                   (case name_operand m t of
                      Some k \<Rightarrow>
                        (let raw_use = macro_param_use_is_raw toks i;
                             sub = (if raw_use then raw_text m raw k else expanded_text m raw expd k)
                         in expand_body_go m raw expd toks (i + 1) False
                              (acc @ sub @ (if after_paste \<and> sub = [] then '' '' else []))
                              (if \<not> raw_use \<and> sub \<noteq> []
                               then spans @ [\<lparr>span_off = length acc, span_len = length sub,
                                              span_param = macro_token_text (md_body m) t\<rparr>]
                               else spans))
                    | None \<Rightarrow>
                        expand_body_go m raw expd toks (i + 1) False
                          (acc @ (if rt_kind t = RtComment then '' '' else macro_token_text (md_body m) t))
                          spans))))"
  by pat_completeness auto
termination
  by (relation "measure (\<lambda>(m, raw, expd, toks, i, after_paste, acc, spans). length toks - i)")
    (auto simp: skip_space_def dest: hash_operand_forward)

declare expand_body_go.simps [simp del]

definition expand_function_macro_body ::
    "macro_def \<Rightarrow> string list \<Rightarrow> string list \<Rightarrow> string \<times> arg_span list" where
  "expand_function_macro_body m raw_args expanded_args =
     expand_body_go m raw_args expanded_args (macro_replacement_tokens m) 0 False [] []"

section \<open>Reading a body\<close>

datatype literal_mode = LmNone | LmString | LmCharacter

text \<open>Reading on to the line's end, after a line comment's opening.\<close>

primrec skip_to_line_end :: "nat \<Rightarrow> source \<Rightarrow> source" where
  "skip_to_line_end 0 src = src"
| "skip_to_line_end (Suc n) src =
     (if \<not> (source_good src \<and> \<not> source_eof src) then src
      else
        (case source_peek src of
           (c, src1) \<Rightarrow>
             (if c = Some (CHR 0x0A) \<or> c = Some (CHR 0x0D) then src1
              else skip_to_line_end n (snd (source_get src1)))))"

text \<open>A slash of the body: a comment of either kind, or itself.\<close>

definition body_slash :: "string \<Rightarrow> source \<Rightarrow> (bool \<times> string) cxx \<times> source" where
  "body_slash body src =
     (let row = source_line src;
          src1 = snd (source_get src);
          col = source_column src1
      in case source_peek src1 of
           (c, src2) \<Rightarrow>
             (if c = Some (CHR ''/'') then
                (let src3 = snd (source_get src2) in (Inr (False, body), skip_to_line_end (unread src3) src3))
              else if c = Some (CHR ''*'') then
                (case consume_block_comment row col False (snd (source_get src2)) of
                   (Inl e, src3) \<Rightarrow> (Inl e, src3)
                 | (Inr _, src3) \<Rightarrow>
                     (Inr (True, if body \<noteq> [] \<and> \<not> blank_tab (last body) then body @ '' '' else body), src3))
              else (Inr (True, body @ ''/''), src2)))"

primrec read_body_go ::
    "nat \<Rightarrow> string \<Rightarrow> literal_mode \<Rightarrow> bool \<Rightarrow> source \<Rightarrow> string cxx \<times> source" where
  "read_body_go 0 body lit escaped src = (Inr body, src)"
| "read_body_go (Suc n) body lit escaped src =
     (if \<not> (source_good src \<and> \<not> source_eof src) then (Inr body, src)
      else
        (case source_peek src of
           (p, src1) \<Rightarrow>
             (let ch = get_char p
              in if line_end_char ch then (Inr body, src1)
                 else if ch = CHR 0x5C then
                   (case source_peek (snd (source_get src1)) of
                      (nx, src2) \<Rightarrow>
                        (if line_end_char (get_char nx) then
                           (case source_peek (snd (source_get src2)) of
                              (n2, src3) \<Rightarrow>
                                read_body_go n body lit escaped
                                  (if n2 = Some (CHR 0x0A) then snd (source_get src3) else src3))
                         else read_body_go n (body @ [CHR 0x5C]) lit
                                (if lit \<noteq> LmNone then \<not> escaped else escaped) src2))
                 else if lit \<noteq> LmNone then
                   (case source_get src1 of
                      (d, src2) \<Rightarrow>
                        read_body_go n (body @ [get_char d])
                          (if \<not> escaped \<and> (lit = LmString \<and> ch = CHR 0x22 \<or> lit = LmCharacter \<and> ch = CHR 0x27)
                           then LmNone else lit)
                          False src2)
                 else if ch = CHR 0x22 \<or> ch = CHR 0x27 then
                   (case source_get src1 of
                      (d, src2) \<Rightarrow>
                        read_body_go n (body @ [get_char d])
                          (if ch = CHR 0x22 then LmString else LmCharacter) False src2)
                 else if ch = CHR ''/'' then
                   (case body_slash body src1 of
                      (Inl e, src2) \<Rightarrow> (Inl e, src2)
                    | (Inr (False, b), src2) \<Rightarrow> (Inr b, src2)
                    | (Inr (True, b), src2) \<Rightarrow> read_body_go n b lit escaped src2)
                 else
                   (case source_get src1 of
                      (d, src2) \<Rightarrow> read_body_go n (body @ [get_char d]) lit escaped src2))))"

definition read_macro_body :: "source \<Rightarrow> string cxx \<times> source" where
  "read_macro_body src =
     (case read_body_go (unread src) [] LmNone False src of
        (Inl e, src1) \<Rightarrow> (Inl e, src1)
      | (Inr body, src1) \<Rightarrow> (Inr (rev (dropWhile blank_tab (rev body))), src1))"

end
