(* ===== verification/IfCondition.thy ===== *)
theory IfCondition
  imports MacroExpand "HOL-Library.Signed_Division"
begin

text \<open>
  The condition of \<open>#if\<close> and \<open>#elif\<close>, from \<^verbatim>\<open>src/lexer.cpp\<close>: reading its raw text, expanding
  the macros in it, the \<open>__has_*\<close> queries and the evaluator.

  The evaluator's lambdas share \<open>expr\<close> and \<open>pos\<close>; here each takes the text from \<open>pos\<close> on and
  returns its value with the text that is left.  Values are \<open>int64_t\<close>: an operation whose
  result does not fit is \<open>Inl UndefinedBehaviour\<close> (the sources are compiled as C++11).
  Warnings of the escape reader are left out.
\<close>

section \<open>The macro environment\<close>

text \<open>
  What of \<open>Program\<close> a condition consults.  \<open>pp_header\<close> answers \<open>__has_include\<close> and
  \<open>__has_include_next\<close> (the flag) for a header name written in angle brackets or quotes:
  it stands for the search through the embedded and precompiled headers and the file
  system.  The last six fields are the texts of the predefined macros.
\<close>

record pp_env =
  pp_defines :: "string \<Rightarrow> string option"
  pp_macros :: "string \<Rightarrow> macro_def option"
  pp_header :: "bool \<Rightarrow> bool \<Rightarrow> string \<Rightarrow> bool"
  pp_unsigned_char :: bool
  pp_line :: nat
  pp_file :: string
  pp_file_base :: string
  pp_date :: string
  pp_time :: string
  pp_timestamp :: string

definition quote_name :: "string \<Rightarrow> string" where
  "quote_name path =
     CHR 0x22 # concat (map (\<lambda>c. if c = CHR 0x5C \<or> c = CHR 0x22 then [CHR 0x5C, c] else [c]) path)
     @ [CHR 0x22]"

definition builtin_macro_text :: "pp_env \<Rightarrow> string \<Rightarrow> string option" where
  "builtin_macro_text env name =
     (if \<not> has_prefix ''__'' name then None
      else if name = ''__LINE__'' then Some (to_string (pp_line env))
      else if name = ''__TIMESTAMP__'' then Some (pp_timestamp env)
      else if name = ''__DATE__'' then Some (pp_date env)
      else if name = ''__TIME__'' then Some (pp_time env)
      else if name = ''__FILE_NAME__'' then Some (quote_name (pp_file_base env))
      else if name = ''__FILE__'' then Some (quote_name (pp_file env))
      else None)"

text \<open>The names of \<open>type_trait_of\<close>'s table in \<^verbatim>\<open>src/parser.cpp\<close>, with its length and prefix filter.\<close>

definition type_trait_names :: "string list" where
  "type_trait_names =
     [''__is_same'', ''__is_base_of'', ''__is_assignable'', ''__is_convertible_to'',
      ''__is_convertible'', ''__is_class'', ''__is_union'', ''__is_enum'', ''__is_empty'',
      ''__is_final'', ''__has_trivial_destructor'', ''__is_trivial'', ''__is_trivially_copyable'',
      ''__is_standard_layout'', ''__is_pod'', ''__is_destructible'', ''__is_polymorphic'',
      ''__is_abstract'', ''__has_virtual_destructor'', ''__is_constructible'',
      ''__is_nothrow_constructible'']"

definition is_type_trait_builtin :: "string \<Rightarrow> bool" where
  "is_type_trait_builtin name \<longleftrightarrow>
     \<not> (list_all (\<lambda>r. 3 \<le> length r \<and> take 2 r = ''__'') type_trait_names
        \<and> (length name < Min (set (map length type_trait_names)) \<or> take 2 name \<noteq> ''__''
           \<or> name ! 2 \<notin> set (map (\<lambda>r. r ! 2) type_trait_names)))
     \<and> name \<in> set type_trait_names"

definition has_builtin :: "pp_env \<Rightarrow> string \<Rightarrow> bool" where
  "has_builtin env name \<longleftrightarrow>
     is_type_trait_builtin name \<or> name = ''__make_integer_seq'' \<or> name = ''__type_pack_element''
     \<or> has_prefix ''__builtin_'' name \<and> (pp_defines env name \<noteq> None \<or> pp_macros env name \<noteq> None)"

definition has_query_operator_implemented :: "string \<Rightarrow> bool" where
  "has_query_operator_implemented op \<longleftrightarrow>
     op = ''__has_builtin'' \<or> op = ''__has_attribute'' \<or> op = ''__has_include''
     \<or> op = ''__has_include_next''"

definition macro_name_defined :: "pp_env \<Rightarrow> string \<Rightarrow> bool" where
  "macro_name_defined env name \<longleftrightarrow>
     pp_defines env name \<noteq> None \<or> pp_macros env name \<noteq> None
     \<or> has_query_operator_implemented name \<or> builtin_macro_text env name \<noteq> None"

section \<open>Queries\<close>

text \<open>A header name, or nothing when it is not one.\<close>

definition has_include_answer :: "pp_env \<Rightarrow> string \<Rightarrow> string \<Rightarrow> bool" where
  "has_include_answer env op arg =
     (let is_system = (hd arg = CHR ''<'');
          file = take (length arg - 2) (tl arg)
      in if is_system \<and> last arg \<noteq> CHR ''>''
            \<or> \<not> is_system \<and> (hd arg \<noteq> CHR 0x22 \<or> last arg \<noteq> CHR 0x22)
         then False
         else file \<noteq> [] \<and> pp_header env (op = ''__has_include_next'') is_system file)"

definition query_answer :: "pp_env \<Rightarrow> string \<Rightarrow> string \<Rightarrow> bool" where
  "query_answer env op arg =
     (if arg = [] then False
      else if op = ''__has_builtin'' then has_builtin env arg
      else if op = ''__has_attribute''
      then madc_gnu_attribute_kind arg \<in> {AttrUsingIfExists, AttrCleanup, AttrNoInline}
      else has_include_answer env op arg)"

definition skip_ws :: "string \<Rightarrow> string" where
  "skip_ws s = dropWhile blank_tab s"

text \<open>The text after the operator's name; the answer and the text left.\<close>

definition evaluateHasQuery :: "pp_env \<Rightarrow> string \<Rightarrow> string \<Rightarrow> bool \<times> string" where
  "evaluateHasQuery env op s =
     (if \<not> has_query_operator_implemented op then (False, s)
      else
        (let s1 = skip_ws s
         in if s1 = [] \<or> hd s1 \<noteq> CHR ''('' then (False, s1)
            else
              (case pp_group_end s1 0 of
                 None \<Rightarrow> (False, s1)
               | Some e \<Rightarrow> (query_answer env op (strip blank_tab (substr s1 1 (e - 2))), drop e s1))))"

section \<open>64-bit arithmetic\<close>

definition i64 :: "int \<Rightarrow> int cxx" where
  "i64 v = (if - (2 ^ 63) \<le> v \<and> v < 2 ^ 63 then Inr v else Inl UndefinedBehaviour)"

definition of_bool_int :: "bool \<Rightarrow> int" where
  "of_bool_int b = (if b then 1 else 0)"

definition i64_div :: "int \<Rightarrow> int \<Rightarrow> int cxx" where
  "i64_div a b = (if b = 0 then Inr 0 else i64 (a sdiv b))"

definition i64_mod :: "int \<Rightarrow> int \<Rightarrow> int cxx" where
  "i64_mod a b =
     (if b = 0 then Inr 0 else ebind (i64 (a sdiv b)) (\<lambda>_. Inr (a smod b)))"

text \<open>
  A left shift must leave a value that \<open>uint64_t\<close> represents; the conversion back wraps.
\<close>

definition i64_shl :: "int \<Rightarrow> int \<Rightarrow> int cxx" where
  "i64_shl a k =
     (if k < 0 \<or> 64 \<le> k \<or> a < 0 \<or> 2 ^ 64 \<le> a * 2 ^ nat k then Inl UndefinedBehaviour
      else Inr (if 2 ^ 63 \<le> a * 2 ^ nat k then a * 2 ^ nat k - 2 ^ 64 else a * 2 ^ nat k))"

definition i64_shr :: "int \<Rightarrow> int \<Rightarrow> int cxx" where
  "i64_shr a k = (if k < 0 \<or> 64 \<le> k then Inl UndefinedBehaviour else Inr (drop_bit (nat k) a))"

section \<open>Primary expressions\<close>

type_synonym eval_result = "(int \<times> string) cxx"

definition is_suffix_letter :: "char \<Rightarrow> bool" where
  "is_suffix_letter c \<longleftrightarrow> c = CHR ''u'' \<or> c = CHR ''U'' \<or> c = CHR ''l'' \<or> c = CHR ''L''"

fun fold_hex :: "int \<Rightarrow> string \<Rightarrow> int cxx" where
  "fold_hex v [] = Inr v"
| "fold_hex v (c # t) =
     ebind (i64_shl v 4) (\<lambda>v1. ebind (i64 (v1 + hex_digit (Some c))) (\<lambda>v2. fold_hex v2 t))"

fun fold_dec :: "int \<Rightarrow> string \<Rightarrow> int cxx" where
  "fold_dec v [] = Inr v"
| "fold_dec v (c # t) =
     ebind (i64 (v * 10)) (\<lambda>v1. ebind (i64 (v1 + (int (byte c) - 48))) (\<lambda>v2. fold_dec v2 t))"

text \<open>Digits of a class, their value, an integer suffix.\<close>

definition number_primary ::
    "(char \<Rightarrow> bool) \<Rightarrow> (string \<Rightarrow> int cxx) \<Rightarrow> string \<Rightarrow> eval_result" where
  "number_primary isd val s =
     ebind (val (takeWhile isd s)) (\<lambda>v. Inr (v, dropWhile is_suffix_letter (dropWhile isd s)))"

text \<open>
  The body of a character literal after its opening quote: the last value, the bytes and
  the text at the closing quote (or the end).
\<close>

primrec char_literal_go ::
    "nat \<Rightarrow> bool \<Rightarrow> int \<Rightarrow> string \<Rightarrow> string \<Rightarrow> (int \<times> string \<times> string) cxx" where
  "char_literal_go 0 wide v bytes s = Inr (v, bytes, s)"
| "char_literal_go (Suc n) wide v bytes s =
     (case s of
        [] \<Rightarrow> Inr (v, bytes, [])
      | c # t \<Rightarrow>
          (if c = CHR 0x27 then Inr (v, bytes, s)
           else if c = CHR 0x5C \<and> t \<noteq> [] then
             (case read_literal_escape captured_reader (hd t) (if wide then 0xFFFFFFFF else 0xFF)
                     \<lparr>cap_text = tl t, cap_pos = 0\<rparr> of
                (Inl e, _) \<Rightarrow> Inl e
              | (Inr (e, _), r) \<Rightarrow>
                  char_literal_go n wide (uint (esc_value e)) (append_byte_escape bytes e) (captured_rest r))
           else char_literal_go n wide (int (byte c)) (bytes @ [c]) t))"

definition read_char_literal :: "bool \<Rightarrow> bool \<Rightarrow> string \<Rightarrow> eval_result" where
  "read_char_literal unsigned_char wide s0 =
     (let s = (if wide then tl s0 else s0)
      in if s = [] \<or> hd s \<noteq> CHR 0x27 then Inr (0, s)
         else
           ebind (char_literal_go (length s) wide 0 [] (tl s)) (\<lambda>(v, bytes, r).
             (let r' = (if r \<noteq> [] \<and> hd r = CHR 0x27 then tl r else r)
              in if wide then Inr (v, r')
                 else ebind (narrow_char_constant_value unsigned_char bytes) (\<lambda>(w, _). Inr (sint w, r')))))"

text \<open>\<open>strtoll\<close> with base 0: blanks, a sign, a base prefix, digits; the result saturates.\<close>

definition clamp_i64 :: "int \<Rightarrow> int" where
  "clamp_i64 v = (if v < - (2 ^ 63) then - (2 ^ 63) else if 2 ^ 63 \<le> v then 2 ^ 63 - 1 else v)"

definition digits_base :: "int \<Rightarrow> string \<Rightarrow> int" where
  "digits_base b t = foldl (\<lambda>v c. v * b + hex_digit (Some c)) 0 t"

definition strtoll0 :: "string \<Rightarrow> int" where
  "strtoll0 s =
     (let t = dropWhile isspace s;
          neg = (t \<noteq> [] \<and> hd t = CHR ''-'');
          u = (if t \<noteq> [] \<and> (hd t = CHR ''-'' \<or> hd t = CHR ''+'') then tl t else t);
          v = (if 3 \<le> length u \<and> hd u = CHR ''0'' \<and> (u ! 1 = CHR ''x'' \<or> u ! 1 = CHR ''X'') \<and> isxdigit (u ! 2)
               then digits_base 16 (takeWhile isxdigit (drop 2 u))
               else if u \<noteq> [] \<and> hd u = CHR ''0'' then digits_base 8 (takeWhile (\<lambda>c. octal_char (Some c)) u)
               else digits_base 10 (takeWhile isdigit u))
      in clamp_i64 (if neg then - v else v))"

text \<open>After the word \<open>defined\<close>.\<close>

definition defined_primary :: "pp_env \<Rightarrow> string \<Rightarrow> eval_result" where
  "defined_primary env s =
     (let s1 = skip_ws s;
          has_paren = (s1 \<noteq> [] \<and> hd s1 = CHR ''('');
          s2 = (if has_paren then skip_ws (tl s1) else s1);
          s3 = skip_ws (dropWhile word_byte_c s2)
      in Inr (of_bool_int (macro_name_defined env (takeWhile word_byte_c s2)),
              if has_paren \<and> s3 \<noteq> [] \<and> hd s3 = CHR '')'' then tl s3 else s3))"

definition word_primary :: "pp_env \<Rightarrow> string \<Rightarrow> string \<Rightarrow> eval_result" where
  "word_primary env word s =
     (if word = ''defined'' then defined_primary env s
      else if has_prefix ''__has_'' word
      then (case evaluateHasQuery env word s of (b, r) \<Rightarrow> Inr (of_bool_int b, r))
      else
        (case pp_defines env word of
           Some t \<Rightarrow> Inr (if t \<noteq> [] then strtoll0 t else 1, s)
         | None \<Rightarrow> Inr (of_bool_int (pp_macros env word \<noteq> None), s)))"

definition parse_primary_by :: "(string \<Rightarrow> eval_result) \<Rightarrow> pp_env \<Rightarrow> string \<Rightarrow> eval_result" where
  "parse_primary_by cond env s0 =
     (case skip_ws s0 of
        [] \<Rightarrow> Inr (0, [])
      | c # t \<Rightarrow>
          (if c = CHR ''('' then
             ebind (cond t) (\<lambda>(v, r).
               (let r1 = skip_ws r in Inr (v, if r1 \<noteq> [] \<and> hd r1 = CHR '')'' then tl r1 else r1)))
           else if c = CHR ''L'' \<and> t \<noteq> [] \<and> hd t = CHR 0x27
           then read_char_literal (pp_unsigned_char env) True (c # t)
           else if c = CHR 0x27 then read_char_literal (pp_unsigned_char env) False (c # t)
           else if c = CHR ''0'' \<and> t \<noteq> [] \<and> (hd t = CHR ''x'' \<or> hd t = CHR ''X'')
           then number_primary isxdigit (fold_hex 0) (tl t)
           else if isdigit c then number_primary isdigit (fold_dec 0) (c # t)
           else if isalpha c \<or> c = CHR ''_''
           then word_primary env (takeWhile word_byte_c (c # t)) (dropWhile word_byte_c (c # t))
           else Inr (0, t)))"

section \<open>Operators\<close>

lemma skip_ws_less: "skip_ws s = c # t \<Longrightarrow> length t < length s"
  unfolding skip_ws_def using length_dropWhile_le [of blank_tab s] by simp

text \<open>A unary minus is read only in front of a digit, an opening parenthesis or a letter.\<close>

function parse_unary_by :: "(string \<Rightarrow> eval_result) \<Rightarrow> pp_env \<Rightarrow> string \<Rightarrow> eval_result" where
  "parse_unary_by cond env s =
     (case skip_ws s of
        [] \<Rightarrow> parse_primary_by cond env []
      | c # t \<Rightarrow>
          (if c = CHR ''!'' then ebind (parse_unary_by cond env t) (\<lambda>(v, r). Inr (of_bool_int (v = 0), r))
           else if c = CHR ''~'' then ebind (parse_unary_by cond env t) (\<lambda>(v, r). Inr (NOT v, r))
           else if c = CHR ''-'' \<and> t \<noteq> [] \<and> (isdigit (hd t) \<or> hd t = CHR ''('' \<or> isalpha (hd t))
           then ebind (parse_unary_by cond env t) (\<lambda>(v, r). ebind (i64 (- v)) (\<lambda>v'. Inr (v', r)))
           else parse_primary_by cond env (c # t)))"
  by pat_completeness auto
termination
  by (relation "measure (\<lambda>(cond, env, s). length s)") (auto dest: skip_ws_less)

declare parse_unary_by.simps [simp del]

text \<open>An operator in front of the text: what it does to the two values, and the text after it.\<close>

type_synonym op_reader = "string \<Rightarrow> ((int \<Rightarrow> int \<Rightarrow> int cxx) \<times> string) option"

definition mul_ops :: op_reader where
  "mul_ops s =
     (case s of
        [] \<Rightarrow> None
      | c # t \<Rightarrow>
          (if c = CHR ''*'' then Some (\<lambda>a b. i64 (a * b), t)
           else if c = CHR ''/'' then Some (i64_div, t)
           else if c = CHR ''%'' then Some (i64_mod, t) else None))"

definition add_ops :: op_reader where
  "add_ops s =
     (case s of
        [] \<Rightarrow> None
      | c # t \<Rightarrow>
          (if c = CHR ''+'' then Some (\<lambda>a b. i64 (a + b), t)
           else if c = CHR ''-'' then Some (\<lambda>a b. i64 (a - b), t) else None))"

definition shift_ops :: op_reader where
  "shift_ops s =
     (if take 2 s = ''<<'' then Some (i64_shl, drop 2 s)
      else if take 2 s = ''>>'' then Some (i64_shr, drop 2 s) else None)"

definition truth :: "(int \<Rightarrow> int \<Rightarrow> bool) \<Rightarrow> int \<Rightarrow> int \<Rightarrow> int cxx" where
  "truth p = (\<lambda>a b. Inr (of_bool_int (p a b)))"

definition cmp_ops :: op_reader where
  "cmp_ops s =
     (if take 2 s = ''=='' then Some (truth (=), drop 2 s)
      else if take 2 s = ''!='' then Some (truth (\<noteq>), drop 2 s)
      else if take 2 s = ''<='' then Some (truth (\<le>), drop 2 s)
      else if take 2 s = ''>='' then Some (truth (\<ge>), drop 2 s)
      else
        (case s of
           [] \<Rightarrow> None
         | c # t \<Rightarrow>
             (if c = CHR ''<'' \<and> (t = [] \<or> hd t \<noteq> CHR ''<'') then Some (truth (<), t)
              else if c = CHR ''>'' \<and> (t = [] \<or> hd t \<noteq> CHR ''>'') then Some (truth (>), t)
              else None)))"

definition single_op :: "char \<Rightarrow> bool \<Rightarrow> (int \<Rightarrow> int \<Rightarrow> int) \<Rightarrow> op_reader" where
  "single_op ch not_doubled f s =
     (case s of
        [] \<Rightarrow> None
      | c # t \<Rightarrow>
          (if c = ch \<and> (not_doubled \<longrightarrow> t = [] \<or> hd t \<noteq> ch) then Some (\<lambda>a b. Inr (f a b), t) else None))"

definition double_op :: "char \<Rightarrow> (int \<Rightarrow> int \<Rightarrow> bool) \<Rightarrow> op_reader" where
  "double_op ch p s = (if take 2 s = [ch, ch] then Some (truth p, drop 2 s) else None)"

text \<open>The loop every level shares.  Each round reads an operator, so the text's length bounds it.\<close>

primrec level_loop ::
    "nat \<Rightarrow> op_reader \<Rightarrow> (string \<Rightarrow> eval_result) \<Rightarrow> int \<Rightarrow> string \<Rightarrow> eval_result" where
  "level_loop 0 ops operand v s = Inl NoReturn"
| "level_loop (Suc n) ops operand v s =
     (case ops (skip_ws s) of
        None \<Rightarrow> Inr (v, skip_ws s)
      | Some (f, t) \<Rightarrow>
          ebind (operand t) (\<lambda>(rhs, r). ebind (f v rhs) (\<lambda>v'. level_loop n ops operand v' r)))"

definition parse_level ::
    "op_reader \<Rightarrow> (string \<Rightarrow> eval_result) \<Rightarrow> (string \<Rightarrow> eval_result) \<Rightarrow> string \<Rightarrow> eval_result" where
  "parse_level ops first operand s =
     ebind (first s) (\<lambda>(v, r). level_loop (Suc (length r)) ops operand v r)"

definition parse_mul_by :: "(string \<Rightarrow> eval_result) \<Rightarrow> pp_env \<Rightarrow> string \<Rightarrow> eval_result" where
  "parse_mul_by cond env = parse_level mul_ops (parse_unary_by cond env) (parse_unary_by cond env)"

definition parse_add_by :: "(string \<Rightarrow> eval_result) \<Rightarrow> pp_env \<Rightarrow> string \<Rightarrow> eval_result" where
  "parse_add_by cond env = parse_level add_ops (parse_mul_by cond env) (parse_mul_by cond env)"

definition parse_shift_by :: "(string \<Rightarrow> eval_result) \<Rightarrow> pp_env \<Rightarrow> string \<Rightarrow> eval_result" where
  "parse_shift_by cond env = parse_level shift_ops (parse_add_by cond env) (parse_unary_by cond env)"

definition parse_comparison_by :: "(string \<Rightarrow> eval_result) \<Rightarrow> pp_env \<Rightarrow> string \<Rightarrow> eval_result" where
  "parse_comparison_by cond env = parse_level cmp_ops (parse_shift_by cond env) (parse_shift_by cond env)"

definition parse_bitand_by :: "(string \<Rightarrow> eval_result) \<Rightarrow> pp_env \<Rightarrow> string \<Rightarrow> eval_result" where
  "parse_bitand_by cond env =
     parse_level (single_op (CHR ''&'') True (AND)) (parse_comparison_by cond env) (parse_comparison_by cond env)"

definition parse_bitxor_by :: "(string \<Rightarrow> eval_result) \<Rightarrow> pp_env \<Rightarrow> string \<Rightarrow> eval_result" where
  "parse_bitxor_by cond env =
     parse_level (single_op (CHR ''^'') False (XOR)) (parse_bitand_by cond env) (parse_bitand_by cond env)"

definition parse_bitor_by :: "(string \<Rightarrow> eval_result) \<Rightarrow> pp_env \<Rightarrow> string \<Rightarrow> eval_result" where
  "parse_bitor_by cond env =
     parse_level (single_op (CHR ''|'') True (OR)) (parse_bitxor_by cond env) (parse_bitxor_by cond env)"

definition parse_and_by :: "(string \<Rightarrow> eval_result) \<Rightarrow> pp_env \<Rightarrow> string \<Rightarrow> eval_result" where
  "parse_and_by cond env =
     parse_level (double_op (CHR ''&'') (\<lambda>a b. a \<noteq> 0 \<and> b \<noteq> 0)) (parse_bitor_by cond env) (parse_bitor_by cond env)"

definition parse_or_by :: "(string \<Rightarrow> eval_result) \<Rightarrow> pp_env \<Rightarrow> string \<Rightarrow> eval_result" where
  "parse_or_by cond env =
     parse_level (double_op (CHR ''|'') (\<lambda>a b. a \<noteq> 0 \<or> b \<noteq> 0)) (parse_and_by cond env) (parse_and_by cond env)"

definition parse_cond_body :: "pp_env \<Rightarrow> (string \<Rightarrow> eval_result) \<Rightarrow> string \<Rightarrow> eval_result" where
  "parse_cond_body env cond s =
     ebind (parse_or_by cond env s) (\<lambda>(c, r).
       (let r1 = skip_ws r
        in if r1 \<noteq> [] \<and> hd r1 = CHR ''?'' then
             ebind (cond (tl r1)) (\<lambda>(then_v, r2).
               (let r3 = skip_ws r2
                in ebind (cond (if r3 \<noteq> [] \<and> hd r3 = CHR '':'' then tl r3 else r3)) (\<lambda>(else_v, r4).
                     Inr (if c \<noteq> 0 then then_v else else_v, r4))))
           else Inr (c, r1)))"

text \<open>\<open>parse_cond\<close> calls itself behind a parenthesis or a question mark: each call has read one.\<close>

primrec parse_cond_fuel :: "pp_env \<Rightarrow> nat \<Rightarrow> string \<Rightarrow> eval_result" where
  "parse_cond_fuel env 0 s = Inl NoReturn"
| "parse_cond_fuel env (Suc n) s = parse_cond_body env (parse_cond_fuel env n) s"

definition parse_cond :: "pp_env \<Rightarrow> string \<Rightarrow> eval_result" where
  "parse_cond env s = parse_cond_fuel env (Suc (length s)) s"

text \<open>The evaluator proper: \<open>parse_cond() != 0\<close> on the expanded text.\<close>

definition evaluate_expanded :: "pp_env \<Rightarrow> string \<Rightarrow> bool cxx" where
  "evaluate_expanded env expr = ebind (parse_cond env expr) (\<lambda>(v, _). Inr (v \<noteq> 0))"

section \<open>Macro expansion of the condition\<close>

text \<open>
  The arguments of a call from the character after its parenthesis: the complete ones, the
  one being collected, and the index after the closing parenthesis (or the end).
\<close>

fun collect_args ::
    "group_scan \<Rightarrow> string list \<Rightarrow> string \<Rightarrow> nat \<Rightarrow> string \<Rightarrow> string list \<times> string \<times> nat" where
  "collect_args g margs marg j [] = (margs, marg, j)"
| "collect_args g margs marg j (c # t) =
     (case group_step g c (next_byte t) of
        (st, g') \<Rightarrow>
          (if st \<and> gs_finished g' then (margs, marg, j + 1)
           else if st \<and> c = CHR '','' \<and> at_argument_level g'
           then collect_args g' (margs @ [marg]) [] (j + 1) t
           else collect_args g' margs (marg @ [c]) (j + 1) t))"

definition macro_call_args :: "string \<Rightarrow> nat \<Rightarrow> string list \<times> nat" where
  "macro_call_args expr open =
     (let t = drop (open + 1) expr;
          g = snd (group_step group_start (CHR ''('') (next_byte t))
      in case collect_args g [] [] (open + 1) t of
           (margs, marg, j) \<Rightarrow>
             (map trim_macro_argument (if marg \<noteq> [] \<or> margs \<noteq> [] then margs @ [marg] else margs), j))"

text \<open>The parameter that argument \<open>ai\<close> belongs to; empty when there is none.\<close>

definition arg_param :: "macro_def \<Rightarrow> nat \<Rightarrow> string" where
  "arg_param m ai =
     (if ai < macro_fixed_param_count m then md_params m ! ai
      else if md_variadic m
      then (if md_variadic_param m = [] then ''__VA_ARGS__'' else md_variadic_param m)
      else [])"

definition expand_args ::
    "(string \<Rightarrow> string cxx) \<Rightarrow> macro_def \<Rightarrow> string list \<Rightarrow> string list cxx" where
  "expand_args again m margs =
     traverse (\<lambda>ai. let param = arg_param m ai
                    in if param \<noteq> [] \<and> macro_param_has_expanded_use m param
                       then again (margs ! ai) else Inr (margs ! ai)) [0..<length margs]"

text \<open>The opening parenthesis a call needs: the token's position, blanks skipped.\<close>

definition call_group :: "string \<Rightarrow> repl_token list \<Rightarrow> nat \<Rightarrow> nat option" where
  "call_group expr toks ti =
     (let g = skip_space toks (ti + 1)
      in if g < length toks \<and> rt_kind (toks ! g) = RtPunct \<and> macro_token_text expr (toks ! g) = ''(''
         then Some (rt_begin (toks ! g)) else None)"

definition tokens_before :: "repl_token list \<Rightarrow> nat \<Rightarrow> nat \<Rightarrow> nat" where
  "tokens_before toks ti j = ti + length (takeWhile (\<lambda>t. rt_begin t < j) (drop ti toks))"

text \<open>
  What the identifier at \<open>ti\<close> contributes: the text appended, whether it counts as a change,
  whether the next identifier is an operand of \<open>defined\<close>, and where to go on.  The token at
  \<open>ti\<close> begins before the group does, so the maximum is the index the code's loop reaches.
\<close>

definition if_identifier ::
    "(string \<Rightarrow> string cxx) \<Rightarrow> pp_env \<Rightarrow> string \<Rightarrow> repl_token list \<Rightarrow> nat \<Rightarrow> bool
      \<Rightarrow> (string \<times> bool \<times> bool \<times> nat) cxx" where
  "if_identifier again env expr toks ti preserve =
     (let t = toks ! ti; word = macro_token_text expr t
      in if word = ''defined'' then Inr (word, False, True, ti + 1)
         else if 6 < length word \<and> has_prefix ''__has_'' word then
           (case (case call_group expr toks ti of None \<Rightarrow> None | Some b \<Rightarrow> pp_group_end expr b) of
              None \<Rightarrow> Inr (word, False, preserve, ti + 1)
            | Some e \<Rightarrow>
                Inr (word @ substr expr (rt_end t) (e - rt_end t), False, preserve,
                     max (ti + 1) (tokens_before toks ti e)))
         else if preserve then Inr (word, False, False, ti + 1)
         else
           (case pp_defines env word of
              Some v \<Rightarrow> Inr (if v = [] then ''1'' else v, True, False, ti + 1)
            | None \<Rightarrow>
                (case pp_macros env word of
                   Some m \<Rightarrow>
                     (case call_group expr toks ti of
                        None \<Rightarrow> Inr (word, False, False, ti + 1)
                      | Some b \<Rightarrow>
                          (case macro_call_args expr b of
                             (margs, j) \<Rightarrow>
                               ebind (expand_args again m margs) (\<lambda>eargs.
                                 Inr (''('' @ fst (expand_function_macro_body m margs eargs) @ '')'', True, False,
                                      max (ti + 1) (tokens_before toks ti j)))))
                 | None \<Rightarrow>
                     (case builtin_macro_text env word of
                        Some v \<Rightarrow> Inr (v, True, False, ti + 1)
                      | None \<Rightarrow> Inr (word, False, False, ti + 1)))))"

lemma if_identifier_forward:
  "if_identifier again env expr toks ti preserve = Inr (w, ch, p, ti') \<Longrightarrow> ti < ti'"
  by (auto simp: if_identifier_def Let_def ebind_eq_Inr split: if_splits option.splits prod.splits)

text \<open>One pass over the tokens: the text so far and whether anything changed.\<close>

function expand_pass ::
    "(string \<Rightarrow> string cxx) \<Rightarrow> pp_env \<Rightarrow> string \<Rightarrow> repl_token list \<Rightarrow> nat \<Rightarrow> bool \<Rightarrow> string \<Rightarrow> bool
      \<Rightarrow> (string \<times> bool) cxx" where
  "expand_pass again env expr toks ti preserve out changed =
     (if length toks \<le> ti then Inr (out, changed)
      else if rt_kind (toks ! ti) \<noteq> RtIdentifier
      then expand_pass again env expr toks (ti + 1) preserve
             (out @ (if rt_kind (toks ! ti) = RtComment then '' '' else macro_token_text expr (toks ! ti)))
             changed
      else
        (case if_identifier again env expr toks ti preserve of
           Inl e \<Rightarrow> Inl e
         | Inr (w, ch, p, ti') \<Rightarrow> expand_pass again env expr toks ti' p (out @ w) (changed \<or> ch)))"
  by pat_completeness auto
termination
  by (relation "measure (\<lambda>(again, env, expr, toks, ti, preserve, out, changed). length toks - ti)")
    (auto dest!: sym [of "Inr _"] if_identifier_forward)

declare expand_pass.simps [simp del]

primrec expand_rounds :: "nat \<Rightarrow> (string \<Rightarrow> string cxx) \<Rightarrow> pp_env \<Rightarrow> string \<Rightarrow> string cxx" where
  "expand_rounds 0 again env expr = Inr expr"
| "expand_rounds (Suc n) again env expr =
     ebind (expand_pass again env expr (tokenize_macro_spelling expr) 0 False [] False)
       (\<lambda>(out, changed). if changed then expand_rounds n again env out else Inr out)"

text \<open>
  \<open>expandIfMacros\<close> calls itself on the arguments of a macro call, to no bounded depth: the
  fuel is the depth allowed.
\<close>

primrec expandIfMacros :: "nat \<Rightarrow> pp_env \<Rightarrow> string \<Rightarrow> string cxx" where
  "expandIfMacros 0 env raw = Inl NoReturn"
| "expandIfMacros (Suc n) env raw = expand_rounds 32 (expandIfMacros n env) env raw"

definition evaluate_if_text :: "nat \<Rightarrow> pp_env \<Rightarrow> string \<Rightarrow> bool cxx" where
  "evaluate_if_text n env raw = ebind (expandIfMacros n env raw) (evaluate_expanded env)"

section \<open>Reading the condition's text\<close>

definition cond_plain :: "bool \<Rightarrow> bool \<Rightarrow> char \<Rightarrow> bool" where
  "cond_plain in_str in_chr c \<longleftrightarrow>
     \<not> (line_end_char c \<or> c = CHR 0x5C)
     \<and> (if in_str then c \<noteq> CHR 0x22
        else if in_chr then c \<noteq> CHR 0x27
        else c \<noteq> CHR ''/'' \<and> c \<noteq> CHR 0x22 \<and> c \<noteq> CHR 0x27)"

text \<open>A slash outside literals: whether reading goes on, and the text.\<close>

definition cond_slash :: "string \<Rightarrow> source \<Rightarrow> (bool \<times> string) cxx \<times> source" where
  "cond_slash raw src =
     (let row = source_line src;
          src1 = snd (source_get src);
          col = source_column src1
      in case source_peek src1 of
           (nx, src2) \<Rightarrow>
             (if nx = Some (CHR ''*'') then
                (case consume_block_comment row col False (snd (source_get src2)) of
                   (Inl e, src3) \<Rightarrow> (Inl e, src3)
                 | (Inr _, src3) \<Rightarrow> (Inr (True, raw @ '' ''), src3))
              else if nx = Some (CHR ''/'') then (Inr (False, raw), skip_to_line_end (unread src2) src2)
              else (Inr (True, raw @ ''/''), src2)))"

text \<open>
  A backslash inside a literal is appended and the character after it read, unless the line
  ends there: the text, the character to append and the source.
\<close>

definition cond_escape :: "string \<Rightarrow> char \<Rightarrow> source \<Rightarrow> bool \<times> string \<times> char \<times> source" where
  "cond_escape raw ch src =
     (if ch = CHR 0x5C \<and> source_good src \<and> \<not> source_eof src then
        (case source_peek src of
           (p, src1) \<Rightarrow>
             (if p = Some (CHR 0x0A) \<or> p = Some (CHR 0x0D) then (False, raw, ch, src1)
              else
                (case source_get src1 of
                   (d, src2) \<Rightarrow> (True, raw @ [ch], get_char d, src2))))
      else (False, raw, ch, src))"

definition cond_char ::
    "bool \<Rightarrow> bool \<Rightarrow> string \<Rightarrow> char \<Rightarrow> source \<Rightarrow> bool \<times> bool \<times> string \<times> source" where
  "cond_char in_str in_chr raw ch src =
     (if in_str then
        (case cond_escape raw ch src of
           (esc, raw1, ch1, src1) \<Rightarrow> (esc \<or> ch \<noteq> CHR 0x22, in_chr, raw1 @ [ch1], src1))
      else if in_chr then
        (case cond_escape raw ch src of
           (esc, raw1, ch1, src1) \<Rightarrow> (in_str, esc \<or> ch \<noteq> CHR 0x27, raw1 @ [ch1], src1))
      else (ch = CHR 0x22, ch = CHR 0x27, raw @ [ch], src))"

primrec read_cond_go :: "nat \<Rightarrow> bool \<Rightarrow> bool \<Rightarrow> string \<Rightarrow> source \<Rightarrow> string cxx \<times> source" where
  "read_cond_go 0 in_str in_chr raw src = (Inr raw, src)"
| "read_cond_go (Suc n) in_str in_chr raw src =
     (if \<not> (source_good src \<and> \<not> source_eof src) then (Inr raw, src)
      else
        (let by_char = (\<lambda>s.
               case source_peek s of
                 (p, s1) \<Rightarrow>
                   (let ch = get_char p
                    in if line_end_char ch then (Inr raw, s1)
                       else if \<not> in_str \<and> \<not> in_chr \<and> ch = CHR ''/'' then
                         (case cond_slash raw s1 of
                            (Inl e, s2) \<Rightarrow> (Inl e, s2)
                          | (Inr (False, r), s2) \<Rightarrow> (Inr r, s2)
                          | (Inr (True, r), s2) \<Rightarrow> read_cond_go n in_str in_chr r s2)
                       else
                         (case cond_char in_str in_chr raw ch (snd (source_get s1)) of
                            (str, chr, r, s2) \<Rightarrow> read_cond_go n str chr r s2)))
         in case fast_span (cond_plain in_str in_chr) src of
              Some (run, s1) \<Rightarrow> (if run \<noteq> [] then read_cond_go n in_str in_chr (raw @ run) s1 else by_char s1)
            | None \<Rightarrow> by_char src))"

definition read_if_condition_text :: "source \<Rightarrow> string cxx \<times> source" where
  "read_if_condition_text src = read_cond_go (unread src) False False [] src"

definition evaluateIfCondition :: "nat \<Rightarrow> pp_env \<Rightarrow> source \<Rightarrow> bool cxx \<times> source" where
  "evaluateIfCondition n env src =
     (case read_if_condition_text src of
        (r, src1) \<Rightarrow> (ebind r (evaluate_if_text n env), src1))"

end
