(* ===== verification/IfProps.thy ===== *)
theory IfProps
  imports IfCondition
begin

text \<open>
  Correctness of the \<open>#if\<close> evaluator: its fuel never runs out, it satisfies the recursive
  equations of the source, and on an expression written out with the parentheses its
  grammar needs it computes the expression's value.
\<close>

section \<open>Parsers that read forward\<close>

definition shrinks :: "(string \<Rightarrow> eval_result) \<Rightarrow> bool" where
  "shrinks p \<longleftrightarrow> (\<forall>t v r. p t = Inr (v, r) \<longrightarrow> length r \<le> length t)"

text \<open>
  A parser built from \<open>parse_cond\<close>: it shrinks when \<open>parse_cond\<close> does, it depends on
  \<open>parse_cond\<close> at shorter texts only, and it returns when \<open>parse_cond\<close> returns there.
\<close>

definition below :: "string \<Rightarrow> (string \<Rightarrow> bool) \<Rightarrow> bool" where
  "below t p \<longleftrightarrow> (\<forall>u. length u < length t \<longrightarrow> p u)"

definition forward :: "((string \<Rightarrow> eval_result) \<Rightarrow> string \<Rightarrow> eval_result) \<Rightarrow> bool" where
  "forward P \<longleftrightarrow> (\<forall>c. shrinks c \<longrightarrow> shrinks (P c)
     \<and> (\<forall>d t. below t (\<lambda>u. c u = d u) \<longrightarrow> P c t = P d t)
     \<and> (\<forall>t. below t (\<lambda>u. c u \<noteq> Inl NoReturn) \<longrightarrow> P c t \<noteq> Inl NoReturn))"

lemma forwardI:
  assumes "\<And>c t v r. shrinks c \<Longrightarrow> P c t = Inr (v, r) \<Longrightarrow> length r \<le> length t"
    and "\<And>c d t. shrinks c \<Longrightarrow> below t (\<lambda>u. c u = d u) \<Longrightarrow> P c t = P d t"
    and "\<And>c t. shrinks c \<Longrightarrow> below t (\<lambda>u. c u \<noteq> Inl NoReturn) \<Longrightarrow> P c t \<noteq> Inl NoReturn"
  shows "forward P"
  unfolding forward_def
proof (intro allI impI conjI)
  show "shrinks (P c)" if "shrinks c" for c
    unfolding shrinks_def using assms(1) [OF that] by blast
qed (use assms(2,3) in blast)+

lemma forwardD:
  assumes "forward P" and "shrinks c"
  shows "shrinks (P c)"
    and "below t (\<lambda>u. c u = d u) \<Longrightarrow> P c t = P d t"
    and "below t (\<lambda>u. c u \<noteq> Inl NoReturn) \<Longrightarrow> P c t \<noteq> Inl NoReturn"
  using assms unfolding forward_def by auto

lemma below_shorter: "below t p \<Longrightarrow> length u \<le> length t \<Longrightarrow> below u p"
  by (auto simp: below_def)

lemma belowD: "below t p \<Longrightarrow> length u < length t \<Longrightarrow> p u"
  by (simp add: below_def)

lemma shrinksD: "shrinks p \<Longrightarrow> p t = Inr (v, r) \<Longrightarrow> length r \<le> length t"
  by (auto simp: shrinks_def)

lemma length_skip_ws: "length (skip_ws s) \<le> length s"
  unfolding skip_ws_def by (rule length_dropWhile_le)

lemma skip_ws_idem [simp]: "skip_ws (skip_ws s) = skip_ws s"
  by (simp add: skip_ws_def)

section \<open>Levels\<close>

definition consumes :: "op_reader \<Rightarrow> bool" where
  "consumes ops \<longleftrightarrow> (\<forall>s f t. ops s = Some (f, t) \<longrightarrow> length t < length s)
     \<and> (\<forall>s f t a b. ops s = Some (f, t) \<longrightarrow> f a b \<noteq> Inl NoReturn)"

lemma consumesD:
  assumes "consumes ops" and "ops (skip_ws s) = Some (f, t)"
  shows "length t < length s" and "f a b \<noteq> Inl NoReturn"
  using assms length_skip_ws [of s] unfolding consumes_def by (meson less_le_trans, blast)

lemma ebind_NoReturn: "ebind m f = Inl NoReturn \<longleftrightarrow> m = Inl NoReturn \<or> (\<exists>x. m = Inr x \<and> f x = Inl NoReturn)"
  by (cases m) auto

lemma level_loop_forward:
  assumes G: "forward G" and c: "shrinks c" and ops: "consumes ops" and n: "length s < n"
  shows "level_loop n ops (G c) v s = Inr (w, r) \<Longrightarrow> length r \<le> length s"
    and "below s (\<lambda>u. c u = d u) \<Longrightarrow> level_loop n ops (G c) v s = level_loop n ops (G d) v s"
    and "below s (\<lambda>u. c u \<noteq> Inl NoReturn) \<Longrightarrow> level_loop n ops (G c) v s \<noteq> Inl NoReturn"
  using n
proof (atomize (full), induction n arbitrary: s v)
  case (Suc n)
  show ?case
  proof (cases "ops (skip_ws s)")
    case None
    then show ?thesis using length_skip_ws [of s] by auto
  next
    case (Some a)
    obtain f t where f: "ops (skip_ws s) = Some (f, t)" using Some by (cases a) auto
    have t: "length t < length s" using consumesD(1) [OF ops f] .
    have same: "G c t = G d t" if "below s (\<lambda>u. c u = d u)"
      using forwardD(2) [OF G c] below_shorter [OF that, of t] t by simp
    show ?thesis
    proof (cases "G c t")
      case (Inl e)
      have "G c t \<noteq> Inl NoReturn" if "below s (\<lambda>u. c u \<noteq> Inl NoReturn)"
        using forwardD(3) [OF G c] below_shorter [OF that, of t] t by simp
      moreover have "G d t = Inl e" if "below s (\<lambda>u. c u = d u)" using same [OF that] Inl by simp
      ultimately show ?thesis by (auto simp: f Inl)
    next
      case (Inr b)
      obtain rhs q where b: "G c t = Inr (rhs, q)" using Inr by (cases b) auto
      have q: "length q < n" "length q \<le> length s"
        using shrinksD [OF forwardD(1) [OF G c] b] t Suc.prems by simp_all
      note ih = Suc.IH [rule_format, OF q(1)]
      have same': "G d t = Inr (rhs, q)" if "below s (\<lambda>u. c u = d u)" using same [OF that] b by simp
      show ?thesis
      proof (cases "f v rhs")
        case (Inl e)
        then show ?thesis using same' b consumesD(2) [OF ops f, of v rhs] by (auto simp: f)
      next
        case (Inr v')
        then show ?thesis
          using ih [of v'] same' b q below_shorter [of s _ q] by (auto simp: f dest: le_trans)
      qed
    qed
  qed
qed simp

lemma forward_level:
  assumes F: "forward F" and G: "forward G" and ops: "consumes ops"
  shows "forward (\<lambda>c. parse_level ops (F c) (G c))"
proof (rule forwardI)
  fix c :: "string \<Rightarrow> eval_result" and t v r
  assume c: "shrinks c"
  note loop = level_loop_forward [OF G c ops lessI]
  note F' = forwardD [OF F c] and Fs = shrinksD [OF forwardD(1) [OF F c]]
  show "parse_level ops (F c) (G c) t = Inr (v, r) \<Longrightarrow> length r \<le> length t"
    by (auto simp: parse_level_def ebind_eq_Inr simp del: level_loop.simps dest!: loop(1) Fs)
  show "parse_level ops (F c) (G c) t = parse_level ops (F d) (G d) t" if b: "below t (\<lambda>u. c u = d u)" for d
    unfolding parse_level_def
  proof (rule ebind_cong [OF F'(2) [OF b]])
    fix x
    assume x: "F d t = Inr x"
    obtain v r where vr: "x = (v, r)" by (cases x)
    then have "length r \<le> length t" using Fs F'(2) [OF b] x by simp
    from loop(2) [OF below_shorter [OF b this]]
    show "(case x of (v, r) \<Rightarrow> level_loop (Suc (length r)) ops (G c) v r)
        = (case x of (v, r) \<Rightarrow> level_loop (Suc (length r)) ops (G d) v r)"
      by (simp add: vr del: level_loop.simps)
  qed
  show "parse_level ops (F c) (G c) t \<noteq> Inl NoReturn" if b: "below t (\<lambda>u. c u \<noteq> Inl NoReturn)"
    using F'(3) [OF b] loop(3) below_shorter [OF b] Fs [of t]
    by (auto simp: parse_level_def ebind_NoReturn simp del: level_loop.simps)
qed

lemma i64_returns [simp]: "i64 v \<noteq> Inl NoReturn" "i64_shl a k \<noteq> Inl NoReturn" "i64_shr a k \<noteq> Inl NoReturn"
    "i64_div a k \<noteq> Inl NoReturn" "i64_mod a k \<noteq> Inl NoReturn" "truth p a b \<noteq> Inl NoReturn"
  by (auto simp: i64_def i64_shl_def i64_shr_def i64_div_def i64_mod_def truth_def ebind_NoReturn)

lemma consumes_ops [simp, intro]:
  "consumes mul_ops" "consumes add_ops" "consumes shift_ops" "consumes cmp_ops"
  "consumes (single_op ch nd g)" "consumes (double_op ch p)"
proof -
  have two: "take 2 s = [a, b] \<Longrightarrow> length (drop 2 s) < length s" for s and a b :: char
    by (cases s) (auto simp: numeral_2_eq_2)
  show "consumes mul_ops" "consumes add_ops" "consumes (single_op ch nd g)"
    by (auto simp: consumes_def mul_ops_def add_ops_def single_op_def split: list.splits if_splits)
  show "consumes shift_ops" "consumes (double_op ch p)"
    using two by (auto simp: consumes_def shift_ops_def double_op_def split: if_splits)
  show "consumes cmp_ops"
    using two by (auto simp: consumes_def cmp_ops_def split: list.splits if_splits)
qed

section \<open>Primaries\<close>

definition cap_moved :: "captured \<Rightarrow> captured \<Rightarrow> bool" where
  "cap_moved s s' \<longleftrightarrow> cap_text s' = cap_text s \<and> cap_pos s \<le> cap_pos s'"

lemma cap_moved_refl [simp]: "cap_moved s s" by (simp add: cap_moved_def)

lemma cap_moved_get: "cap_moved (s\<lparr>cap_pos := Suc (cap_pos s)\<rparr>) t \<Longrightarrow> cap_moved s t"
  by (auto simp: cap_moved_def)

lemma cap_moved_rest: "cap_moved s s' \<Longrightarrow> length (captured_rest s') \<le> length (captured_rest s)"
  by (auto simp: cap_moved_def captured_rest_def)

lemma escape_digits_moved:
  "cap_moved s (snd (hex_escape_digits n captured_reader m v k o1 s))"
  "cap_moved s (snd (ucn_digits n captured_reader w s))"
  "cap_moved s (snd (octal_escape_digits n captured_reader w s))"
  by (induction n arbitrary: s v k o1 w)
    (auto simp: captured_reader_def Let_def intro: cap_moved_get)

lemma ucn_digits_returns: "fst (ucn_digits n R w s) \<noteq> Inl NoReturn"
  by (induction n arbitrary: s w) (auto split: prod.split)

lemma read_literal_escape_captured:
  "cap_moved s (snd (read_literal_escape captured_reader c m s))"
  "fst (read_literal_escape captured_reader c m s) \<noteq> Inl NoReturn"
proof -
  show "cap_moved s (snd (read_literal_escape captured_reader c m s))"
    using escape_digits_moved [of s]
    unfolding read_literal_escape_def
    by (auto split: option.splits prod.splits if_splits simp: prod_eq_iff dest: arg_cong [of _ _ snd])
  show "fst (read_literal_escape captured_reader c m s) \<noteq> Inl NoReturn"
    unfolding read_literal_escape_def
    by (simp add: case_prod_unfold ucn_digits_returns ebind_NoReturn split: option.split)
qed

lemma char_literal_go_props:
  "char_literal_go n wide v b s = Inr (v', b', r) \<Longrightarrow> length r \<le> length s"
  "char_literal_go n wide v b s \<noteq> Inl NoReturn"
proof (atomize (full), induction n arbitrary: s v b)
  case (Suc n)
  show ?case
  proof (cases "s \<noteq> [] \<and> hd s = CHR 0x5C \<and> tl s \<noteq> []")
    case True
    define u where "u = (\<lparr>cap_text = tl (tl s), cap_pos = 0\<rparr> :: captured)"
    obtain res u' where e: "read_literal_escape captured_reader (hd (tl s)) (if wide then 0xFFFFFFFF else 0xFF) u = (res, u')"
      by fastforce
    have m: "length (captured_rest u') \<le> length (tl (tl s))" "res \<noteq> Inl NoReturn"
      using cap_moved_rest [OF read_literal_escape_captured(1) [of u "hd (tl s)" "if wide then 0xFFFFFFFF else 0xFF"]]
        read_literal_escape_captured(2) [of "hd (tl s)" "if wide then 0xFFFFFFFF else 0xFF" u]
      by (simp_all add: e) (simp add: u_def captured_rest_def)
    show ?thesis
    proof (cases res)
      case (Inr a)
      obtain x w where a: "a = (x, w)" by (cases a)
      show ?thesis
        using Suc.IH [of "uint (esc_value x)" "append_byte_escape b x" "captured_rest u'"] True m e
        by (auto simp: Inr a u_def split: list.splits)
    qed (use True m e in \<open>auto simp: u_def split: list.splits\<close>)
  next
    case False
    then show ?thesis
      using Suc.IH [of "int (byte (hd s))" "b @ [hd s]" "tl s"] by (cases s) auto
  qed
qed simp

lemma narrow_returns: "narrow_char_constant_value u b \<noteq> Inl NoReturn"
  by (simp add: narrow_char_constant_value_def Let_def)

lemma read_char_literal_props:
  "read_char_literal u wide s = Inr (v, r) \<Longrightarrow> length r \<le> length s"
  "read_char_literal u wide s \<noteq> Inl NoReturn"
proof -
  define s1 where "s1 = (if wide then tl s else s)"
  have s1: "length s1 \<le> length s" by (simp add: s1_def)
  show "read_char_literal u wide s = Inr (v, r) \<Longrightarrow> length r \<le> length s"
    using s1 unfolding read_char_literal_def s1_def [symmetric]
    by (auto simp: ebind_eq_Inr Let_def split: if_splits dest!: char_literal_go_props(1))
  show "read_char_literal u wide s \<noteq> Inl NoReturn"
    unfolding read_char_literal_def
    by (auto simp: ebind_NoReturn Let_def char_literal_go_props(2) narrow_returns)
qed

lemma fold_returns: "fold_hex v t \<noteq> Inl NoReturn" "fold_dec v t \<noteq> Inl NoReturn"
  by (induction t arbitrary: v) (auto simp: ebind_NoReturn)

lemma number_primary_props:
  "number_primary isd val s = Inr (v, r) \<Longrightarrow> length r \<le> length s"
  "(\<And>t. val t \<noteq> Inl NoReturn) \<Longrightarrow> number_primary isd val s \<noteq> Inl NoReturn"
  using length_dropWhile_le [of isd s] length_dropWhile_le [of is_suffix_letter "dropWhile isd s"]
  by (auto simp: number_primary_def ebind_eq_Inr ebind_NoReturn)

lemma evaluateHasQuery_shorter: "length (snd (evaluateHasQuery env op s)) \<le> length s"
  using length_skip_ws [of s] by (auto simp: evaluateHasQuery_def Let_def split: option.split)

lemma word_primary_props:
  "word_primary env w s = Inr (v, r) \<Longrightarrow> length r \<le> length s"
  "word_primary env w s \<noteq> Inl NoReturn"
proof -
  have d: "length r \<le> length s" if "defined_primary env s = Inr (v, r)"
    using that length_skip_ws [of s] length_skip_ws [of "tl (skip_ws s)"]
      length_skip_ws [of "dropWhile word_byte_c (skip_ws s)"]
      length_skip_ws [of "dropWhile word_byte_c (skip_ws (tl (skip_ws s)))"]
      length_dropWhile_le [of word_byte_c "skip_ws s"]
      length_dropWhile_le [of word_byte_c "skip_ws (tl (skip_ws s))"]
    by (auto simp: defined_primary_def Let_def split: if_splits)
  show "word_primary env w s = Inr (v, r) \<Longrightarrow> length r \<le> length s"
    using d evaluateHasQuery_shorter [of env w s]
    by (auto simp: word_primary_def split: if_splits option.splits prod.splits)
  show "word_primary env w s \<noteq> Inl NoReturn"
    by (auto simp: word_primary_def defined_primary_def Let_def split: if_splits option.splits prod.splits)
qed

section \<open>The whole parser\<close>

lemma skip_ws_le: "length r \<le> n \<Longrightarrow> length (skip_ws r) \<le> n" "length r \<le> n \<Longrightarrow> length (skip_ws r) - Suc 0 \<le> n"
  using length_skip_ws [of r] by simp_all

lemma forward_primary: "forward (\<lambda>c. parse_primary_by c env)"
proof (rule forwardI)
  fix c :: "string \<Rightarrow> eval_result" and t v r
  assume c: "shrinks c"
  have short: "length u < length t" if "skip_ws t = x # u" for x u using skip_ws_less that by blast
  have word: "length (dropWhile word_byte_c t) \<le> length t" for t by (rule length_dropWhile_le)
  show "length r \<le> length t" if "parse_primary_by c env t = Inr (v, r)"
  proof (cases "skip_ws t")
    case (Cons x u)
    have u: "length u < length t" using short [OF Cons] .
    have cond: "length r' \<le> length t" if "c u = Inr (v', r')" for v' r' using shrinksD [OF c that] u by simp
    have char: "length r' \<le> length t" if "read_char_literal b w (x # u) = Inr (v', r')" for b w v' r'
      using read_char_literal_props(1) [OF that] u by simp
    have num: "length r' \<le> length t"
      if "number_primary isd val y = Inr (v', r')" "length y \<le> Suc (length u)" for isd val y v' r'
      using number_primary_props(1) [OF that(1)] that(2) u by simp
    have wrd: "length r' \<le> length t" if "word_primary env w (dropWhile word_byte_c (x # u)) = Inr (v', r')" for w v' r'
      using word_primary_props(1) [OF that] length_dropWhile_le [of word_byte_c "x # u"] u by simp
    consider "x = CHR ''(''" | "x \<noteq> CHR ''(''" "parse_primary_by c env t \<in> {Inr (0, u)}
        \<union> range (\<lambda>w. read_char_literal (pp_unsigned_char env) w (x # u))
        \<union> {number_primary isxdigit (fold_hex 0) (tl u), number_primary isdigit (fold_dec 0) (x # u)}
        \<union> range (\<lambda>w. word_primary env w (dropWhile word_byte_c (x # u)))"
      by (cases "x = CHR ''(''") (auto simp: parse_primary_by_def Cons simp del: dropWhile.simps takeWhile.simps)
    then show ?thesis
    proof cases
      case 1
      with that show ?thesis
        by (auto simp: parse_primary_by_def Cons ebind_eq_Inr Let_def split: if_splits dest!: cond dest: skip_ws_le)
    next
      case 2
      with that u show ?thesis by (auto simp del: dropWhile.simps dest!: sym [of "Inr (v, r)"] dest: char num wrd)
    qed
  qed (use that in \<open>simp add: parse_primary_by_def\<close>)
  show "parse_primary_by c env t = parse_primary_by d env t" if "below t (\<lambda>u. c u = d u)" for d
    using belowD [OF that] short by (cases "skip_ws t") (auto simp: parse_primary_by_def)
  show "parse_primary_by c env t \<noteq> Inl NoReturn" if "below t (\<lambda>u. c u \<noteq> Inl NoReturn)"
    using belowD [OF that] short
    by (cases "skip_ws t")
      (auto simp: parse_primary_by_def ebind_NoReturn Let_def read_char_literal_props(2)
         number_primary_props(2) fold_returns word_primary_props(2))
qed

text \<open>The three cases of a unary expression.\<close>

lemma unary_cases:
  obtains (prim) u where "\<And>c. parse_unary_by c env s = parse_primary_by c env u" "length u \<le> length s"
  | (op) f u where "\<And>c. parse_unary_by c env s = ebind (parse_unary_by c env u) (\<lambda>(v, r). ebind (f v) (\<lambda>v'. Inr (v', r)))"
      "length u < length s" "\<And>v. f v \<noteq> Inl NoReturn"
proof (cases "skip_ws s")
  case Nil
  show ?thesis by (rule prim [of "[]"]) (simp_all add: parse_unary_by.simps [of _ _ s] Nil)
next
  case (Cons x u)
  have u: "length u < length s" using skip_ws_less [OF Cons] .
  consider "x = CHR ''!''" | "x = CHR ''~''"
    | "x = CHR ''-''" "u \<noteq> []" "isdigit (hd u) \<or> hd u = CHR ''('' \<or> isalpha (hd u)"
    | "x \<noteq> CHR ''!''" "x \<noteq> CHR ''~''" "\<not> (x = CHR ''-'' \<and> u \<noteq> [] \<and> (isdigit (hd u) \<or> hd u = CHR ''('' \<or> isalpha (hd u)))"
    by blast
  then show ?thesis
  proof cases
    case 1
    show ?thesis
      by (rule op [of u "\<lambda>v. Inr (of_bool_int (v = 0))"])
        (simp_all add: parse_unary_by.simps [of _ _ s] Cons 1 u)
  next
    case 2
    show ?thesis
      by (rule op [of u "\<lambda>v. Inr (NOT v)"]) (simp_all add: parse_unary_by.simps [of _ _ s] Cons 2 u)
  next
    case 3
    show ?thesis
      by (rule op [of u "\<lambda>v. i64 (- v)"]) (simp_all add: parse_unary_by.simps [of _ _ s] Cons 3 u)
  next
    case 4
    show ?thesis
      by (rule prim [of "x # u"]) (use 4 u in \<open>auto simp: parse_unary_by.simps [of _ _ s] Cons\<close>)
  qed
qed

lemma forward_unary: "forward (\<lambda>c. parse_unary_by c env)"
proof (rule forwardI)
  fix c :: "string \<Rightarrow> eval_result"
  assume c: "shrinks c"
  note P = forwardD [OF forward_primary c] and Ps = shrinksD [OF forwardD(1) [OF forward_primary c]]
  have "(\<forall>v r. parse_unary_by c env t = Inr (v, r) \<longrightarrow> length r \<le> length t)
     \<and> (\<forall>d. below t (\<lambda>u. c u = d u) \<longrightarrow> parse_unary_by c env t = parse_unary_by d env t)
     \<and> (below t (\<lambda>u. c u \<noteq> Inl NoReturn) \<longrightarrow> parse_unary_by c env t \<noteq> Inl NoReturn)" for t
  proof (induction t rule: length_induct)
    case (1 t)
    show ?case
    proof (cases t rule: unary_cases [of env])
      case (prim u)
      then show ?thesis using P(2,3) Ps [of env u] below_shorter [OF _ prim(2)] by fastforce
    next
      case (op f u)
      have ih: "parse_unary_by c env u = Inr (v, r) \<Longrightarrow> length r \<le> length u"
        "below u (\<lambda>u. c u = d u) \<Longrightarrow> parse_unary_by c env u = parse_unary_by d env u"
        "below u (\<lambda>u. c u \<noteq> Inl NoReturn) \<Longrightarrow> parse_unary_by c env u \<noteq> Inl NoReturn" for v r d
        using 1 op(2) by blast+
      have b: "below t p \<Longrightarrow> below u p" for p using below_shorter op(2) by simp
      show ?thesis
        using ih b op(2,3) by (fastforce simp: op(1) ebind_eq_Inr ebind_NoReturn)
    qed
  qed
  then show "parse_unary_by c env t = Inr (v, r) \<Longrightarrow> length r \<le> length t"
    "below t (\<lambda>u. c u = d u) \<Longrightarrow> parse_unary_by c env t = parse_unary_by d env t"
    "below t (\<lambda>u. c u \<noteq> Inl NoReturn) \<Longrightarrow> parse_unary_by c env t \<noteq> Inl NoReturn" for t v r d
    by blast+
qed

lemmas level_defs = parse_mul_by_def parse_add_by_def parse_shift_by_def parse_comparison_by_def
  parse_bitand_by_def parse_bitxor_by_def parse_bitor_by_def parse_and_by_def parse_or_by_def

lemma forward_or: "forward (\<lambda>c. parse_or_by c env)"
  unfolding level_defs by (intro forward_level forward_unary consumes_ops)

text \<open>What follows the condition of a conditional expression.\<close>

definition cond_tail :: "(string \<Rightarrow> eval_result) \<Rightarrow> int \<Rightarrow> string \<Rightarrow> eval_result" where
  "cond_tail c v r =
     (let r1 = skip_ws r
      in if r1 \<noteq> [] \<and> hd r1 = CHR ''?'' then
           ebind (c (tl r1)) (\<lambda>(then_v, r2).
             (let r3 = skip_ws r2
              in ebind (c (if r3 \<noteq> [] \<and> hd r3 = CHR '':'' then tl r3 else r3)) (\<lambda>(else_v, r4).
                   Inr (if v \<noteq> 0 then then_v else else_v, r4))))
         else Inr (v, r1))"

lemma parse_cond_body_tail:
  "parse_cond_body env c s = ebind (parse_or_by c env s) (\<lambda>(v, r). cond_tail c v r)"
  by (simp add: parse_cond_body_def cond_tail_def)

lemma cond_tail_forward:
  assumes c: "shrinks c"
  shows "cond_tail c v s = Inr (w, r) \<Longrightarrow> length r \<le> length s"
    and "below s (\<lambda>u. c u = d u) \<Longrightarrow> cond_tail c v s = cond_tail d v s"
    and "below s (\<lambda>u. c u \<noteq> Inl NoReturn) \<Longrightarrow> cond_tail c v s \<noteq> Inl NoReturn"
proof -
  have "(cond_tail c v s = Inr (w, r) \<longrightarrow> length r \<le> length s)
    \<and> (below s (\<lambda>u. c u = d u) \<longrightarrow> cond_tail c v s = cond_tail d v s)
    \<and> (below s (\<lambda>u. c u \<noteq> Inl NoReturn) \<longrightarrow> cond_tail c v s \<noteq> Inl NoReturn)"
  proof (cases "skip_ws s \<noteq> [] \<and> hd (skip_ws s) = CHR ''?''")
    case False
    then show ?thesis using skip_ws_le [of s] by (auto simp: cond_tail_def Let_def)
  next
    case True
    then obtain u where u: "skip_ws s = CHR ''?'' # u" by (cases "skip_ws s") auto
    have us: "length u < length s" using skip_ws_less [OF u] .
    show ?thesis
    proof (cases "c u")
      case (Inl e)
      moreover have "d u = Inl e" if "below s (\<lambda>u. c u = d u)" using belowD [OF that us] Inl by simp
      moreover have "e \<noteq> NoReturn" if "below s (\<lambda>u. c u \<noteq> Inl NoReturn)" using belowD [OF that us] Inl by simp
      ultimately show ?thesis by (auto simp: cond_tail_def u)
    next
      case (Inr a)
      then obtain tv r2 where a: "c u = Inr (tv, r2)" by (cases a) auto
      define u2 where "u2 = (if skip_ws r2 \<noteq> [] \<and> hd (skip_ws r2) = CHR '':'' then tl (skip_ws r2) else skip_ws r2)"
      have "length u2 \<le> length r2" using skip_ws_le [of r2] by (simp add: u2_def)
      then have u2: "length u2 < length s" using shrinksD [OF c a] us by simp
      have t: "cond_tail c v s = ebind (c u2) (\<lambda>(ev, r4). Inr (if v \<noteq> 0 then tv else ev, r4))"
        by (simp add: cond_tail_def u a Let_def u2_def)
      have t': "cond_tail d v s = ebind (d u2) (\<lambda>(ev, r4). Inr (if v \<noteq> 0 then tv else ev, r4))"
        if "below s (\<lambda>u. c u = d u)"
      proof -
        have "d u = Inr (tv, r2)" using belowD [OF that us] a by simp
        then show ?thesis by (simp add: cond_tail_def u Let_def u2_def)
      qed
      have "c u2 = d u2" if "below s (\<lambda>u. c u = d u)" using belowD [OF that u2] .
      moreover have "c u2 \<noteq> Inl NoReturn" if "below s (\<lambda>u. c u \<noteq> Inl NoReturn)" using belowD [OF that u2] .
      moreover have "length r' \<le> length s" if "c u2 = Inr (w', r')" for w' r'
        using shrinksD [OF c that] u2 by simp
      ultimately show ?thesis using t t' by (auto simp: ebind_eq_Inr ebind_NoReturn)
    qed
  qed
  then show "cond_tail c v s = Inr (w, r) \<Longrightarrow> length r \<le> length s"
    and "below s (\<lambda>u. c u = d u) \<Longrightarrow> cond_tail c v s = cond_tail d v s"
    and "below s (\<lambda>u. c u \<noteq> Inl NoReturn) \<Longrightarrow> cond_tail c v s \<noteq> Inl NoReturn"
    by blast+
qed

lemma forward_body: "forward (\<lambda>c. parse_cond_body env c)"
proof (rule forwardI)
  fix c :: "string \<Rightarrow> eval_result" and t v r
  assume c: "shrinks c"
  note P = forwardD [OF forward_or c, of t] and Ps = shrinksD [OF forwardD(1) [OF forward_or c], of env t]
  note T = cond_tail_forward [OF c]
  show "length r \<le> length t" if "parse_cond_body env c t = Inr (v, r)"
    using that Ps T(1) by (fastforce simp: parse_cond_body_tail ebind_eq_Inr)
  show "parse_cond_body env c t = parse_cond_body env d t" if b: "below t (\<lambda>u. c u = d u)" for d
    unfolding parse_cond_body_tail
  proof (rule ebind_cong [OF P(2) [OF b]])
    fix x
    assume x: "parse_or_by d env t = Inr x"
    then have "length (snd x) \<le> length t" using Ps [of "fst x" "snd x"] P(2) [OF b, of env] by simp
    from T(2) [OF below_shorter [OF b this]]
    show "(case x of (v, r) \<Rightarrow> cond_tail c v r) = (case x of (v, r) \<Rightarrow> cond_tail d v r)"
      by (simp add: case_prod_unfold)
  qed
  show "parse_cond_body env c t \<noteq> Inl NoReturn" if b: "below t (\<lambda>u. c u \<noteq> Inl NoReturn)"
    using P(3) [OF b, of env] Ps T(3) below_shorter [OF b] by (auto simp: parse_cond_body_tail ebind_NoReturn)
qed

lemma parse_cond_fuel_shrinks: "shrinks (parse_cond_fuel env n)"
proof (induction n)
  case (Suc n)
  then show ?case using forwardD(1) [OF forward_body Suc] by (simp add: shrinks_def)
qed (simp add: shrinks_def)

lemma parse_cond_fuel_enough:
  "length s < n \<Longrightarrow> length s < m \<Longrightarrow> parse_cond_fuel env n s = parse_cond_fuel env m s"
  "length s < n \<Longrightarrow> parse_cond_fuel env n s \<noteq> Inl NoReturn"
proof -
  show "length s < n \<Longrightarrow> length s < m \<Longrightarrow> parse_cond_fuel env n s = parse_cond_fuel env m s"
  proof (induction n arbitrary: m s)
    case (Suc n)
    obtain k where m: "m = Suc k" using Suc.prems(2) by (cases m) auto
    have "below s (\<lambda>u. parse_cond_fuel env n u = parse_cond_fuel env k u)"
      unfolding below_def
    proof (intro allI impI)
      fix u :: string
      assume "length u < length s"
      then show "parse_cond_fuel env n u = parse_cond_fuel env k u"
        by (intro Suc.IH) (use Suc.prems in \<open>simp_all add: m\<close>)
    qed
    from forwardD(2) [OF forward_body parse_cond_fuel_shrinks this] show ?case by (simp add: m)
  qed simp
  show "length s < n \<Longrightarrow> parse_cond_fuel env n s \<noteq> Inl NoReturn"
  proof (induction n arbitrary: s)
    case (Suc n)
    have "below s (\<lambda>u. parse_cond_fuel env n u \<noteq> Inl NoReturn)"
      unfolding below_def using Suc.IH Suc.prems by simp
    from forwardD(3) [OF forward_body parse_cond_fuel_shrinks this] show ?case by simp
  qed simp
qed

lemma parse_cond_rec: "parse_cond env s = parse_cond_body env (parse_cond env) s"
proof -
  have "below s (\<lambda>u. parse_cond_fuel env (length s) u = parse_cond env u)"
    unfolding below_def parse_cond_def by (intro allI impI parse_cond_fuel_enough(1)) simp_all
  from forwardD(2) [OF forward_body parse_cond_fuel_shrinks this, of env]
  have "parse_cond_body env (parse_cond_fuel env (length s)) s = parse_cond_body env (parse_cond env) s" .
  then show ?thesis by (subst parse_cond_def) simp
qed

end
