(* ===== verification/IfExpr.thy ===== *)
theory IfExpr
  imports IfProps
begin

text \<open>
  Expressions as trees, their text with the parentheses the evaluator's grammar needs, and
  their value: the evaluator computes it.
\<close>

section \<open>Trees, values, texts\<close>

datatype bin_op =
  OpMul | OpDiv | OpMod | OpAdd | OpSub | OpShl | OpShr | OpEq | OpNe | OpLe | OpGe | OpLt | OpGt
  | OpAnd | OpXor | OpOr | OpLand | OpLor

datatype if_expr =
  Num nat | Not if_expr | Compl if_expr | Neg if_expr
  | Bin bin_op if_expr if_expr | Cond if_expr if_expr if_expr

fun op_text :: "bin_op \<Rightarrow> string" where
  "op_text OpMul = ''*''" | "op_text OpDiv = ''/''" | "op_text OpMod = ''%''"
| "op_text OpAdd = ''+''" | "op_text OpSub = ''-''"
| "op_text OpShl = ''<<''" | "op_text OpShr = ''>>''"
| "op_text OpEq = ''==''" | "op_text OpNe = ''!=''"
| "op_text OpLe = ''<=''" | "op_text OpGe = ''>=''" | "op_text OpLt = ''<''" | "op_text OpGt = ''>''"
| "op_text OpAnd = ''&''" | "op_text OpXor = ''^''" | "op_text OpOr = ''|''"
| "op_text OpLand = ''&&''" | "op_text OpLor = ''||''"

fun op_value :: "bin_op \<Rightarrow> int \<Rightarrow> int \<Rightarrow> int cxx" where
  "op_value OpMul a b = i64 (a * b)" | "op_value OpDiv a b = i64_div a b"
| "op_value OpMod a b = i64_mod a b" | "op_value OpAdd a b = i64 (a + b)"
| "op_value OpSub a b = i64 (a - b)" | "op_value OpShl a b = i64_shl a b"
| "op_value OpShr a b = i64_shr a b"
| "op_value OpEq a b = Inr (of_bool_int (a = b))" | "op_value OpNe a b = Inr (of_bool_int (a \<noteq> b))"
| "op_value OpLe a b = Inr (of_bool_int (a \<le> b))" | "op_value OpGe a b = Inr (of_bool_int (a \<ge> b))"
| "op_value OpLt a b = Inr (of_bool_int (a < b))" | "op_value OpGt a b = Inr (of_bool_int (a > b))"
| "op_value OpAnd a b = Inr (a AND b)" | "op_value OpXor a b = Inr (a XOR b)"
| "op_value OpOr a b = Inr (a OR b)"
| "op_value OpLand a b = Inr (of_bool_int (a \<noteq> 0 \<and> b \<noteq> 0))"
| "op_value OpLor a b = Inr (of_bool_int (a \<noteq> 0 \<or> b \<noteq> 0))"

text \<open>Every operand is evaluated, as in the code; the first error wins.\<close>

fun expr_value :: "if_expr \<Rightarrow> int cxx" where
  "expr_value (Num n) = i64 (int n)"
| "expr_value (Not a) = ebind (expr_value a) (\<lambda>v. Inr (of_bool_int (v = 0)))"
| "expr_value (Compl a) = ebind (expr_value a) (\<lambda>v. Inr (NOT v))"
| "expr_value (Neg a) = ebind (expr_value a) (\<lambda>v. i64 (- v))"
| "expr_value (Bin op a b) = ebind (expr_value a) (\<lambda>v. ebind (expr_value b) (\<lambda>w. op_value op v w))"
| "expr_value (Cond c a b) =
     ebind (expr_value c) (\<lambda>v. ebind (expr_value a) (\<lambda>x. ebind (expr_value b) (\<lambda>y.
       Inr (if v \<noteq> 0 then x else y))))"

text \<open>
  The evaluator's levels: 0 a primary, 1 a unary expression, 2 to 10 the binary operators
  from the tightest to the loosest, 11 a conditional expression.  The right operand of a
  shift is a unary expression.
\<close>

fun op_level :: "bin_op \<Rightarrow> nat" where
  "op_level OpMul = 2" | "op_level OpDiv = 2" | "op_level OpMod = 2"
| "op_level OpAdd = 3" | "op_level OpSub = 3" | "op_level OpShl = 4" | "op_level OpShr = 4"
| "op_level OpAnd = 6" | "op_level OpXor = 7" | "op_level OpOr = 8"
| "op_level OpLand = 9" | "op_level OpLor = 10"
| "op_level _ = 5"

definition right_level :: "bin_op \<Rightarrow> nat" where
  "right_level op = (if op_level op = 4 then 1 else op_level op - 1)"

fun expr_level :: "if_expr \<Rightarrow> nat" where
  "expr_level (Num _) = 0"
| "expr_level (Bin op _ _) = op_level op"
| "expr_level (Cond _ _ _) = 11"
| "expr_level _ = 1"

text \<open>\<open>expr_text k e\<close>: the text of \<open>e\<close> where an expression of level \<open>k\<close> is read.\<close>

definition in_parens :: "nat \<Rightarrow> nat \<Rightarrow> string \<Rightarrow> string" where
  "in_parens k l s = (if l \<le> k then s else ''('' @ s @ '')'')"

fun expr_text :: "nat \<Rightarrow> if_expr \<Rightarrow> string" where
  "expr_text k (Num n) = to_string n"
| "expr_text k (Not a) = in_parens k 1 (''!'' @ expr_text 1 a)"
| "expr_text k (Compl a) = in_parens k 1 (''~'' @ expr_text 1 a)"
| "expr_text k (Neg a) = in_parens k 1 (''-'' @ expr_text 0 a)"
| "expr_text k (Bin op a b) =
     in_parens k (op_level op)
       (expr_text (op_level op) a @ '' '' @ op_text op @ '' '' @ expr_text (right_level op) b)"
| "expr_text k (Cond c a b) =
     in_parens k 11 (expr_text 10 c @ '' ? '' @ expr_text 11 a @ '' : '' @ expr_text 11 b)"

section \<open>The levels as one family\<close>

fun ops_at :: "nat \<Rightarrow> op_reader" where
  "ops_at n =
     (if n = 2 then mul_ops else if n = 3 then add_ops else if n = 4 then shift_ops
      else if n = 5 then cmp_ops else if n = 6 then single_op (CHR ''&'') True (AND)
      else if n = 7 then single_op (CHR ''^'') False (XOR)
      else if n = 8 then single_op (CHR ''|'') True (OR)
      else if n = 9 then double_op (CHR ''&'') (\<lambda>a b. a \<noteq> 0 \<and> b \<noteq> 0)
      else double_op (CHR ''|'') (\<lambda>a b. a \<noteq> 0 \<or> b \<noteq> 0))"

declare ops_at.simps [simp del]

fun parse_at :: "pp_env \<Rightarrow> nat \<Rightarrow> string \<Rightarrow> eval_result" where
  "parse_at env 0 = parse_primary_by (parse_cond env) env"
| "parse_at env (Suc 0) = parse_unary_by (parse_cond env) env"
| "parse_at env (Suc (Suc n)) =
     (if n = 9 then parse_cond env
      else parse_level (ops_at (Suc (Suc n))) (parse_at env (Suc n))
             (if n = 2 then parse_at env (Suc 0) else parse_at env (Suc n)))"

lemma parse_at_or: "parse_at env 10 = parse_or_by (parse_cond env) env"
  by (simp add: numeral_eq_Suc ops_at.simps level_defs)

lemma parse_at_11: "parse_at env 11 = parse_cond env"
  by (simp add: numeral_eq_Suc)

lemma parse_at_cond: "parse_at env 11 s = ebind (parse_at env 10 s) (\<lambda>(v, r). cond_tail (parse_cond env) v r)"
proof -
  show ?thesis by (simp add: parse_at_11 parse_at_or parse_cond_rec [of env s] parse_cond_body_tail)
qed

text \<open>The operator's own level reads it; the levels below do not see it.\<close>

lemma op_read:
  "\<exists>f. ops_at (op_level op) (op_text op @ CHR '' '' # t) = Some (f, CHR '' '' # t) \<and> (\<forall>a b. f a b = op_value op a b)"
  by (cases op) (auto simp: ops_at.simps mul_ops_def add_ops_def shift_ops_def cmp_ops_def single_op_def
      double_op_def truth_def)

lemma op_level_le: "op_level op \<le> 10"
  by (cases op) simp_all

lemma op_unseen: "i < op_level op \<Longrightarrow> 2 \<le> i \<Longrightarrow> ops_at i (op_text op @ CHR '' '' # t) = None"
proof -
  assume i: "i < op_level op" "2 \<le> i"
  then have "i \<in> {2, 3, 4, 5, 6, 7, 8, 9}" using op_level_le [of op] by auto
  then show ?thesis
    using i(1) by (cases op; elim insertE emptyE)
      (simp_all add: ops_at.simps mul_ops_def add_ops_def shift_ops_def cmp_ops_def single_op_def double_op_def)
qed

section \<open>Reading at a level\<close>

lemma parse_cond_shrinks: "shrinks (parse_cond env)"
  unfolding shrinks_def parse_cond_def using parse_cond_fuel_shrinks [unfolded shrinks_def] by blast

lemma consumes_ops_at: "consumes (ops_at k)"
  by (simp add: ops_at.simps)

lemma level_loop_props:
  assumes G: "shrinks G" and ops: "consumes ops"
  shows "level_loop n ops G v s = Inr (w, r) \<Longrightarrow> length r \<le> length s"
    and "length s < n \<Longrightarrow> length s < m \<Longrightarrow> level_loop n ops G v s = level_loop m ops G v s"
proof -
  have step: "length q < length s" if "ops (skip_ws s) = Some (f, t)" "G t = Inr (rhs, q)" for s f t rhs q
    using consumesD(1) [OF ops that(1)] shrinksD [OF G that(2)] by simp
  show "level_loop n ops G v s = Inr (w, r) \<Longrightarrow> length r \<le> length s"
  proof (induction n arbitrary: v s)
    case (Suc n)
    then show ?case
      using length_skip_ws [of s] step [of s]
      by (fastforce simp: ebind_eq_Inr split: option.splits)
  qed simp
  show "length s < n \<Longrightarrow> length s < m \<Longrightarrow> level_loop n ops G v s = level_loop m ops G v s"
  proof (induction n arbitrary: v s m)
    case (Suc n)
    obtain k where m: "m = Suc k" using Suc.prems(2) by (cases m) auto
    show ?case
    proof (cases "ops (skip_ws s)")
      case (Some a)
      obtain f t where a: "a = (f, t)" by (cases a)
      show ?thesis
      proof (cases "G t")
        case (Inr b)
        obtain rhs q where b: "b = (rhs, q)" by (cases b)
        have "length q < length s" using step Some Inr by (simp add: a b)
        then have "level_loop n ops G v' q = level_loop k ops G v' q" for v'
          by (intro Suc.IH) (use Suc.prems m in simp_all)
        then show ?thesis by (simp add: m Some a Inr b)
      qed (simp add: m Some a)
    qed (simp add: m)
  qed simp
qed

lemma parse_at_shrinks: "shrinks (parse_at env k)"
proof (induction env k rule: parse_at.induct)
  case (1 env)
  show ?case using forwardD(1) [OF forward_primary parse_cond_shrinks] by simp
next
  case (2 env)
  show ?case using forwardD(1) [OF forward_unary parse_cond_shrinks] by simp
next
  case (3 env n)
  let ?G = "if n = 2 then parse_at env (Suc 0) else parse_at env (Suc n)"
  show ?case
  proof (cases "n = 9")
    case False
    then have F: "shrinks (parse_at env (Suc n))" and G: "shrinks ?G" using 3 by simp_all
    show ?thesis
      using False level_loop_props(1) [OF G consumes_ops_at] shrinksD [OF F]
      by (fastforce simp: shrinks_def parse_level_def ebind_eq_Inr simp del: level_loop.simps dest: le_trans)
  qed (simp add: parse_at_11 parse_cond_shrinks)
qed

text \<open>Leading blanks do not matter.\<close>

lemma parse_level_blanks: "F (skip_ws s) = F s \<Longrightarrow> parse_level ops F G (skip_ws s) = parse_level ops F G s"
  by (simp add: parse_level_def)

lemma parse_unary_blanks: "parse_unary_by c env (skip_ws s) = parse_unary_by c env s"
  by (simp add: parse_unary_by.simps [of _ _ s] parse_unary_by.simps [of _ _ "skip_ws s"])

lemma parse_cond_blanks: "parse_cond env (skip_ws s) = parse_cond env s"
proof -
  have "parse_or_by (parse_cond env) env (skip_ws s) = parse_or_by (parse_cond env) env s"
    unfolding level_defs by (intro parse_level_blanks parse_unary_blanks)
  then show ?thesis
    by (simp add: parse_cond_rec [of env s] parse_cond_rec [of env "skip_ws s"] parse_cond_body_tail)
qed

lemma parse_at_blanks: "parse_at env k (skip_ws s) = parse_at env k s"
proof (induction env k rule: parse_at.induct)
  case (1 env)
  show ?case by (simp add: parse_primary_by_def)
next
  case (2 env)
  show ?case by (simp add: parse_unary_blanks)
next
  case (3 env n)
  then show ?case by (cases "n = 9") (simp_all add: parse_at_11 parse_cond_blanks parse_level_blanks)
qed

lemma parse_at_blank [simp]: "parse_at env k (CHR '' '' # s) = parse_at env k s"
proof -
  have "skip_ws (CHR '' '' # s) = skip_ws s" by (simp add: skip_ws_def blank_tab_def)
  then show ?thesis by (metis parse_at_blanks)
qed

section \<open>What may follow an expression\<close>

definition stops :: "string \<Rightarrow> bool" where
  "stops r \<longleftrightarrow> r = [] \<or> hd r = CHR '' '' \<or> hd r = CHR '')''"

definition quiet :: "nat \<Rightarrow> string \<Rightarrow> bool" where
  "quiet k r \<longleftrightarrow> stops r \<and> (\<forall>i \<in> {2..10}. i \<le> k \<longrightarrow> ops_at i (skip_ws r) = None)
     \<and> (k = 11 \<longrightarrow> first_char (skip_ws r) \<noteq> Some (CHR ''?''))"

definition left_over :: "nat \<Rightarrow> string \<Rightarrow> string" where
  "left_over k r = (if k \<le> 1 then r else skip_ws r)"

lemma quiet_less: "quiet k r \<Longrightarrow> j \<le> k \<Longrightarrow> j \<le> 10 \<Longrightarrow> quiet j r"
  by (auto simp: quiet_def)

lemma ops_at_other:
  "ops_at i (CHR '')'' # r) = None" "ops_at i (CHR ''?'' # r) = None" "ops_at i (CHR '':'' # r) = None"
  "ops_at i [] = None"
  by (simp_all add: ops_at.simps mul_ops_def add_ops_def shift_ops_def cmp_ops_def single_op_def double_op_def)

lemma skip_ws_simps:
  "skip_ws (CHR '' '' # s) = skip_ws s" "c \<noteq> CHR '' '' \<Longrightarrow> c \<noteq> CHR 0x09 \<Longrightarrow> skip_ws (c # s) = c # s" "skip_ws [] = []"
  by (simp_all add: skip_ws_def blank_tab_def)

lemma quiet_other:
  "quiet k (CHR '')'' # r)" "quiet k []" "quiet 10 (CHR '' '' # CHR ''?'' # r)" "quiet k (CHR '' '' # CHR '':'' # r)"
  by (auto simp: quiet_def stops_def skip_ws_simps ops_at_other)

lemma op_text_head: "skip_ws (op_text op @ s) = op_text op @ s"
  by (cases op) (simp_all add: skip_ws_simps)

lemma quiet_op:
  assumes "k < op_level op"
  shows "quiet k (CHR '' '' # op_text op @ CHR '' '' # r)"
proof -
  show ?thesis
    using op_level_le [of op] assms op_unseen [of _ op r] by (auto simp: quiet_def stops_def skip_ws_simps op_text_head)
qed

section \<open>Reading a text at every level\<close>

definition loop_at :: "pp_env \<Rightarrow> nat \<Rightarrow> int \<Rightarrow> string \<Rightarrow> eval_result" where
  "loop_at env k v s =
     level_loop (Suc (length s)) (ops_at k) (parse_at env (if k = 4 then 1 else k - 1)) v s"

lemma parse_at_loop:
  assumes "2 \<le> k" and "k \<le> 10"
  shows "parse_at env k s = ebind (parse_at env (k - 1) s) (\<lambda>(v, r). loop_at env k v r)"
proof -
  obtain n where n: "k = Suc (Suc n)" using assms(1) by (metis Suc_le_D numeral_2_eq_2 Suc_le_mono)
  then have "n \<noteq> 9" using assms(2) by simp
  then show ?thesis by (auto simp: n parse_level_def loop_at_def simp del: level_loop.simps)
qed

lemma loop_at_quiet: "2 \<le> k \<Longrightarrow> k \<le> 10 \<Longrightarrow> quiet k r \<Longrightarrow> loop_at env k v r = Inr (v, skip_ws r)"
  by (simp add: loop_at_def quiet_def)

lemma level_loop_blanks: "level_loop (Suc n) ops G v (skip_ws r) = level_loop (Suc n) ops G v r"
  by (cases "ops (skip_ws r)") simp_all

lemma loop_at_blanks: "loop_at env k v (skip_ws r) = loop_at env k v r"
proof -
  have "level_loop (Suc (length (skip_ws r))) (ops_at k) G v (skip_ws r)
      = level_loop (Suc (length r)) (ops_at k) G v (skip_ws r)" if "shrinks G" for G
    using length_skip_ws [of r] by (intro level_loop_props(2) [OF that consumes_ops_at]) simp_all
  then show ?thesis by (simp only: loop_at_def parse_at_shrinks level_loop_blanks)
qed

text \<open>A round of the loop: the operator, a blank, the right operand.\<close>

lemma loop_at_op:
  assumes operand: "parse_at env (right_level op) (t @ r) = ebind m (\<lambda>w. Inr (w, left_over (right_level op) r))"
  shows "loop_at env (op_level op) v (CHR '' '' # op_text op @ CHR '' '' # t @ r)
    = ebind m (\<lambda>w. ebind (op_value op v w) (\<lambda>v'. loop_at env (op_level op) v' r))"
proof -
  let ?s = "CHR '' '' # op_text op @ CHR '' '' # t @ r" and ?k = "op_level op"
  obtain f where f: "ops_at ?k (op_text op @ CHR '' '' # t @ r) = Some (f, CHR '' '' # t @ r)" "\<And>a b. f a b = op_value op a b"
    using op_read by metis
  have G: "(if ?k = 4 then 1 else ?k - 1) = right_level op" by (simp add: right_level_def)
  have loop: "level_loop (length ?s) (ops_at ?k) (parse_at env (right_level op)) v' (left_over (right_level op) r)
      = loop_at env ?k v' r" for v'
  proof -
    have "length (left_over (right_level op) r) \<le> length r" using length_skip_ws [of r] by (simp add: left_over_def)
    then have "level_loop (length ?s) (ops_at ?k) (parse_at env (right_level op)) v' (left_over (right_level op) r)
        = loop_at env ?k v' (left_over (right_level op) r)"
      unfolding loop_at_def G by (intro level_loop_props(2) [OF parse_at_shrinks consumes_ops_at]) simp_all
    then show ?thesis using loop_at_blanks [of env ?k v' r] by (auto simp: left_over_def)
  qed
  show ?thesis
    unfolding loop_at_def [of env ?k v] G
    using operand f loop by (cases m) (simp_all add: skip_ws_simps op_text_head)
qed

definition reads :: "pp_env \<Rightarrow> nat \<Rightarrow> string \<Rightarrow> int cxx \<Rightarrow> bool" where
  "reads env k s m \<longleftrightarrow> (\<forall>r. quiet k r \<longrightarrow> parse_at env k (s @ r) = ebind m (\<lambda>v. Inr (v, left_over k r)))"

text \<open>Read as the left operand of a level: the level's loop goes on behind it.\<close>

definition reads_left :: "pp_env \<Rightarrow> nat \<Rightarrow> string \<Rightarrow> int cxx \<Rightarrow> bool" where
  "reads_left env k s m \<longleftrightarrow>
     (\<forall>r. quiet (k - 1) r \<longrightarrow> parse_at env k (s @ r) = ebind m (\<lambda>v. loop_at env k v r))"

lemma readsD: "reads env k s m \<Longrightarrow> quiet k r \<Longrightarrow> parse_at env k (s @ r) = ebind m (\<lambda>v. Inr (v, left_over k r))"
  by (simp add: reads_def)

lemma reads_left_up: "2 \<le> k \<Longrightarrow> k \<le> 10 \<Longrightarrow> reads env (k - 1) s m \<Longrightarrow> reads_left env k s m"
  unfolding reads_left_def
  by (cases m) (auto simp: parse_at_loop readsD left_over_def loop_at_blanks)

lemma reads_of_left: "2 \<le> k \<Longrightarrow> k \<le> 10 \<Longrightarrow> reads_left env k s m \<Longrightarrow> reads env k s m"
  unfolding reads_left_def reads_def
  using quiet_less [of k _ "k - 1"] by (cases m) (auto simp: loop_at_quiet left_over_def)

lemma reads_cond: "reads env 10 s m \<Longrightarrow> reads env 11 s m"
  unfolding reads_def
proof (intro allI impI)
  fix r
  assume h: "\<forall>r. quiet 10 r \<longrightarrow> parse_at env 10 (s @ r) = ebind m (\<lambda>v. Inr (v, left_over 10 r))" and q: "quiet 11 r"
  have "parse_at env 10 (s @ r) = ebind m (\<lambda>v. Inr (v, skip_ws r))"
    using h quiet_less [OF q, of 10] by (simp add: left_over_def)
  moreover have "cond_tail (parse_cond env) v (skip_ws r) = Inr (v, skip_ws r)" for v
    using q unfolding cond_tail_def Let_def skip_ws_idem by (cases "skip_ws r") (auto simp: quiet_def)
  ultimately show "parse_at env 11 (s @ r) = ebind m (\<lambda>v. Inr (v, left_over 11 r))"
    by (cases m) (simp_all add: parse_at_cond left_over_def)
qed

lemma reads_unary:
  assumes "reads env 0 s m" and "s \<noteq> []" and "isdigit (hd s) \<or> hd s = CHR ''(''"
  shows "reads env 1 s m"
proof -
  have c: "hd s \<noteq> CHR ''!'' \<and> hd s \<noteq> CHR ''~'' \<and> hd s \<noteq> CHR ''-'' \<and> hd s \<noteq> CHR '' '' \<and> hd s \<noteq> CHR 0x09"
    using assms(3) by (auto simp: isdigit_def)
  obtain x t where s: "s = x # t" using assms(2) by (cases s) auto
  have "parse_at env 1 (s @ r) = parse_at env 0 (s @ r)" for r
    using c by (simp add: parse_unary_by.simps [of _ _ "x # t @ r"] s skip_ws_simps)
  moreover have "quiet 1 r \<Longrightarrow> quiet 0 r" for r by (simp add: quiet_less)
  ultimately show ?thesis using assms(1) by (simp add: reads_def left_over_def)
qed

lemma reads_parens: "reads env 11 s m \<Longrightarrow> reads env 0 (''('' @ s @ '')'') m"
  unfolding reads_def
proof (intro allI impI)
  fix r
  assume h: "\<forall>r. quiet 11 r \<longrightarrow> parse_at env 11 (s @ r) = ebind m (\<lambda>v. Inr (v, left_over 11 r))"
  have "parse_cond env (s @ CHR '')'' # r) = ebind m (\<lambda>v. Inr (v, CHR '')'' # r))"
    using h quiet_other(1) by (simp add: parse_at_11 left_over_def skip_ws_simps)
  then show "parse_at env 0 ((''('' @ s @ '')'') @ r) = ebind m (\<lambda>v. Inr (v, left_over 0 r))"
    by (cases m) (simp_all add: parse_primary_by_def skip_ws_simps left_over_def)
qed

text \<open>From an expression's own level to every level.\<close>

lemma reads_above:
  assumes "reads env l s m" and "l = 0 \<longrightarrow> s \<noteq> [] \<and> (isdigit (hd s) \<or> hd s = CHR ''('')" and "l \<le> k" and "k \<le> 11"
  shows "reads env k s m"
  using assms(3,4)
proof (induction k rule: dec_induct)
  case (step k)
  then have ih: "reads env k s m" by simp
  consider "k = 0" | "k = 10" | "1 \<le> k" "k < 10" using step(4) by linarith
  then show ?case
  proof cases
    case 1
    then show ?thesis using reads_unary ih assms(2) step(1) by auto
  next
    case 2
    then show ?thesis using reads_cond ih by simp
  next
    case 3
    then show ?thesis using reads_of_left [of "Suc k"] reads_left_up [of "Suc k"] ih by simp
  qed
qed (use assms(1) in simp)

section \<open>Numbers\<close>

lemma digits_val_ge: "v \<le> digits_val v ds"
proof (induction ds arbitrary: v)
  case (Cons c ds)
  have "v \<le> v * 10 + digit_val c" by simp
  also have "\<dots> \<le> digits_val (v * 10 + digit_val c) ds" by (rule Cons)
  finally show ?case by (simp add: digits_val_def)
qed (simp add: digits_val_def)

lemma fold_dec_value: "\<forall>c \<in> set ds. isdigit c \<Longrightarrow> v < 2 ^ 63 \<Longrightarrow> fold_dec (int v) ds = i64 (int (digits_val v ds))"
proof (induction ds arbitrary: v)
  case Nil
  then show ?case by (simp add: digits_val_def i64_def)
next
  case (Cons c ds)
  have d: "int (byte c) - 48 = int (digit_val c)" using Cons.prems(1) by (auto simp: isdigit_def digit_val_def)
  have dv: "digits_val v (c # ds) = digits_val (v * 10 + digit_val c) ds" by (simp add: digits_val_def)
  have ge: "v * 10 + digit_val c \<le> digits_val v (c # ds)" unfolding dv by (rule digits_val_ge)
  show ?case
  proof (cases "v * 10 + digit_val c < 2 ^ 63")
    case True
    then have "int v * 10 + int (digit_val c) < 2 ^ 63" "int v * 10 < 2 ^ 63" by simp_all
    then have "fold_dec (int v) (c # ds) = fold_dec (int (v * 10 + digit_val c)) ds" by (simp add: i64_def d)
    also have "\<dots> = i64 (int (digits_val v (c # ds)))"
      unfolding dv by (rule Cons.IH) (use Cons.prems True in simp_all)
    finally show ?thesis .
  next
    case False
    then have big: "i64 (int (digits_val v (c # ds))) = Inl UndefinedBehaviour" using ge by (simp add: i64_def)
    have "\<not> (int v * 10 + int (digit_val c) < 2 ^ 63)" using False by simp
    then show ?thesis unfolding big by (auto simp: i64_def d)
  qed
qed

lemma stops_rest:
  assumes "stops r"
  shows "takeWhile isdigit r = []" "dropWhile isdigit r = r" "dropWhile is_suffix_letter r = r"
  using assms by (cases r; auto simp: stops_def isdigit_def is_suffix_letter_def)+

lemma reads_num: "reads env 0 (to_string n) (i64 (int n))"
  unfolding reads_def
proof (intro allI impI)
  fix r
  assume "quiet 0 r"
  then have st: "stops r" by (simp add: quiet_def)
  obtain c t where ct: "to_string n = c # t" using to_string_nonempty [of n] by (cases "to_string n") auto
  have dig: "\<forall>x \<in> set (to_string n). isdigit x" by (rule to_string_digits)
  then have c: "isdigit c" by (simp add: ct)
  then have ne: "c \<noteq> CHR '' ''" "c \<noteq> CHR 0x09" "c \<noteq> CHR ''(''" "c \<noteq> CHR ''L''" "c \<noteq> CHR 0x27"
    by (auto simp: isdigit_def)
  have t: "(t @ r \<noteq> [] \<and> (hd (t @ r) = CHR ''x'' \<or> hd (t @ r) = CHR ''X'')) = False"
    using dig st by (cases t; cases r) (auto simp: ct isdigit_def stops_def)
  have tw: "takeWhile isdigit (to_string n @ r) = to_string n" "dropWhile isdigit (to_string n @ r) = r"
    using dig stops_rest(1,2) [OF st] by simp_all
  have "parse_at env 0 (to_string n @ r) = number_primary isdigit (fold_dec 0) (to_string n @ r)"
    using c ne by (simp add: parse_primary_by_def ct skip_ws_simps t del: takeWhile.simps dropWhile.simps append_is_Nil_conv)
  also have "\<dots> = ebind (i64 (int n)) (\<lambda>v. Inr (v, left_over 0 r))"
    using fold_dec_value [OF dig, of 0]
    by (simp add: number_primary_def tw stops_rest(3) [OF st] left_over_def digits_val_to_string)
  finally show "parse_at env 0 (to_string n @ r) = ebind (i64 (int n)) (\<lambda>v. Inr (v, left_over 0 r))" .
qed

section \<open>Every expression\<close>

lemma expr_text_shape: "expr_text k e = in_parens k (expr_level e) (expr_text 11 e)"
  by (cases e) (auto simp: in_parens_def le_trans [OF op_level_le])

lemma expr_text_primary: "expr_text 0 e \<noteq> [] \<and> (isdigit (hd (expr_text 0 e)) \<or> hd (expr_text 0 e) = CHR ''('')"
proof (cases "expr_level e = 0")
  case True
  have op: "op_level op \<noteq> 0" for op by (cases op) simp_all
  obtain n where "e = Num n" using True op by (cases e) auto
  then show ?thesis using to_string_digits [of n] to_string_nonempty [of n] by (cases "to_string n") auto
next
  case False
  then show ?thesis by (subst (1 2 3) expr_text_shape) (simp add: in_parens_def)
qed

definition reads_well :: "pp_env \<Rightarrow> if_expr \<Rightarrow> bool" where
  "reads_well env e \<longleftrightarrow>
     (\<forall>k \<le> 11. reads env k (expr_text k e) (expr_value e))
     \<and> (\<forall>k. 2 \<le> k \<and> k \<le> 10 \<longrightarrow> reads_left env k (expr_text k e) (expr_value e))"

lemma reads_wellI:
  assumes own: "reads env (expr_level e) (expr_text 11 e) (expr_value e)"
    and left: "2 \<le> expr_level e \<and> expr_level e \<le> 10 \<longrightarrow> reads_left env (expr_level e) (expr_text 11 e) (expr_value e)"
  shows "reads_well env e"
proof -
  let ?l = "expr_level e"
  have l: "?l \<le> 11" by (cases e) (simp_all add: le_trans [OF op_level_le])
  have hd0: "?l = 0 \<longrightarrow> expr_text 11 e \<noteq> [] \<and> (isdigit (hd (expr_text 11 e)) \<or> hd (expr_text 11 e) = CHR ''('')"
    using expr_text_primary [of e] expr_text_shape [of 0 e] by (auto simp: in_parens_def)
  have all: "reads env k (expr_text k e) (expr_value e)" if "k \<le> 11" for k
  proof (cases "?l \<le> k")
    case True
    then show ?thesis using reads_above [OF own hd0 True that] expr_text_shape [of k e] by (simp add: in_parens_def)
  next
    case False
    have "reads env 0 (''('' @ expr_text 11 e @ '')'') (expr_value e)"
      using reads_parens reads_above [OF own hd0 l] by simp
    from reads_above [OF this _ _ that] show ?thesis
      using False expr_text_shape [of k e] by (simp add: in_parens_def)
  qed
  moreover have "reads_left env k (expr_text k e) (expr_value e)" if k: "2 \<le> k" "k \<le> 10" for k
  proof (cases "k = ?l")
    case True
    then show ?thesis using left k expr_text_shape [of k e] by (simp add: in_parens_def)
  next
    case False
    then have "expr_text (k - 1) e = expr_text k e"
      using expr_text_shape [of k e] expr_text_shape [of "k - 1" e] k by (auto simp: in_parens_def)
    then show ?thesis using reads_left_up [OF k] all [of "k - 1"] k by simp
  qed
  ultimately show ?thesis by (simp add: reads_well_def)
qed

lemma quiet_zero: "quiet 1 r \<Longrightarrow> quiet 0 r"
  by (simp add: quiet_less)

lemma reads_prefix:
  assumes "reads_well env a" and "k \<le> 1" and "ch = CHR ''-'' \<longrightarrow> k = 0"
    and f: "\<And>s. parse_at env 1 (ch # expr_text k a @ s)
      = ebind (parse_at env 1 (expr_text k a @ s)) (\<lambda>(v, r). ebind (f v) (\<lambda>v'. Inr (v', r)))"
  shows "reads env 1 (ch # expr_text k a) (ebind (expr_value a) f)"
  unfolding reads_def
proof (intro allI impI)
  fix r
  assume q: "quiet 1 r"
  have "reads env 1 (expr_text k a) (expr_value a)"
  proof (cases "k = 1")
    case True
    then show ?thesis using assms(1) by (simp add: reads_well_def)
  next
    case False
    then have k: "k = 0" using assms(2) by simp
    then have "reads env 0 (expr_text k a) (expr_value a)" using assms(1) by (simp add: reads_well_def)
    then show ?thesis using reads_unary expr_text_primary [of a] by (simp add: k)
  qed
  from readsD [OF this q] show "parse_at env 1 ((ch # expr_text k a) @ r) = ebind (ebind (expr_value a) f) (\<lambda>v. Inr (v, left_over 1 r))"
    by (cases "expr_value a") (simp_all add: f [simplified])
qed

lemma reads_all: "reads_well env e"
proof (induction e)
  case (Num n)
  show ?case by (rule reads_wellI) (simp_all add: reads_num)
next
  case (Not a)
  have "reads env 1 (CHR ''!'' # expr_text 1 a) (ebind (expr_value a) (\<lambda>v. Inr (of_bool_int (v = 0))))"
    by (rule reads_prefix [OF Not]) (simp_all add: parse_unary_by.simps [of _ _ "CHR ''!'' # _"] skip_ws_simps)
  then show ?case by (intro reads_wellI) (simp_all add: in_parens_def)
next
  case (Compl a)
  have "reads env 1 (CHR ''~'' # expr_text 1 a) (ebind (expr_value a) (\<lambda>v. Inr (NOT v)))"
    by (rule reads_prefix [OF Compl]) (simp_all add: parse_unary_by.simps [of _ _ "CHR ''~'' # _"] skip_ws_simps)
  then show ?case by (intro reads_wellI) (simp_all add: in_parens_def)
next
  case (Neg a)
  have "reads env 1 (CHR ''-'' # expr_text 0 a) (ebind (expr_value a) (\<lambda>v. i64 (- v)))"
  proof (rule reads_prefix [OF Neg])
    fix s
    show "parse_at env 1 (CHR ''-'' # expr_text 0 a @ s)
      = ebind (parse_at env 1 (expr_text 0 a @ s)) (\<lambda>(v, r). ebind (i64 (- v)) (\<lambda>v'. Inr (v', r)))"
      using expr_text_primary [of a]
      by (auto simp: parse_unary_by.simps [of _ _ "CHR ''-'' # _"] skip_ws_simps)
  qed simp_all
  then show ?case by (intro reads_wellI) (simp_all add: in_parens_def)
next
  case (Bin op a b)
  let ?k = "op_level op" and ?r = "right_level op"
  have k: "2 \<le> ?k" "?k \<le> 10" using op_level_le [of op] by (cases op; simp)+
  have rk: "?r < ?k" by (simp add: right_level_def) (use k in linarith)
  have left: "reads_left env ?k (expr_text 11 (Bin op a b)) (expr_value (Bin op a b))"
    unfolding reads_left_def
  proof (intro allI impI)
    fix r
    assume q: "quiet (?k - 1) r"
    let ?r1 = "CHR '' '' # op_text op @ CHR '' '' # expr_text ?r b @ r"
    have "quiet (?k - 1) ?r1" using quiet_op k by simp
    then have A: "parse_at env ?k (expr_text ?k a @ ?r1) = ebind (expr_value a) (\<lambda>v. loop_at env ?k v ?r1)"
      using Bin.IH(1) k by (simp add: reads_well_def reads_left_def)
    have "quiet ?r r" using quiet_less [OF q] rk k by simp
    then have B: "parse_at env ?r (expr_text ?r b @ r) = ebind (expr_value b) (\<lambda>w. Inr (w, left_over ?r r))"
      using Bin.IH(2) readsD rk k by (simp add: reads_well_def)
    show "parse_at env ?k (expr_text 11 (Bin op a b) @ r) = ebind (expr_value (Bin op a b)) (\<lambda>v. loop_at env ?k v r)"
      using A loop_at_op [OF B] k by (cases "expr_value a"; cases "expr_value b") (simp_all add: in_parens_def)
  qed
  show ?case
    by (rule reads_wellI) (use left reads_of_left [OF k left] in simp_all)
next
  case (Cond c a b)
  have "reads env 11 (expr_text 11 (Cond c a b)) (expr_value (Cond c a b))"
    unfolding reads_def
  proof (intro allI impI)
    fix r
    assume q: "quiet 11 r"
    let ?r2 = "CHR '' '' # CHR '':'' # CHR '' '' # expr_text 11 b @ r"
    let ?r1 = "CHR '' '' # CHR ''?'' # CHR '' '' # expr_text 11 a @ ?r2"
    have C: "parse_at env 10 (expr_text 10 c @ ?r1) = ebind (expr_value c) (\<lambda>v. Inr (v, left_over 10 ?r1))"
      using Cond.IH(1) quiet_other(3) readsD by (simp add: reads_well_def)
    have A: "parse_at env 11 (expr_text 11 a @ ?r2) = ebind (expr_value a) (\<lambda>v. Inr (v, left_over 11 ?r2))"
      using Cond.IH(2) quiet_other(4) readsD by (simp add: reads_well_def)
    have B: "parse_at env 11 (expr_text 11 b @ r) = ebind (expr_value b) (\<lambda>v. Inr (v, left_over 11 r))"
      using Cond.IH(3) q readsD by (simp add: reads_well_def)
    have "parse_at env 11 (expr_text 10 c @ ?r1)
        = ebind (expr_value c) (\<lambda>v. cond_tail (parse_at env 11) v (left_over 10 ?r1))"
      unfolding parse_at_cond [of env "expr_text 10 c @ ?r1"] C unfolding parse_at_11 by (cases "expr_value c") simp_all
    also have "\<dots> = ebind (expr_value c) (\<lambda>v. ebind (expr_value a) (\<lambda>x. ebind (expr_value b) (\<lambda>y.
        Inr (if v \<noteq> 0 then x else y, left_over 11 r))))"
      using A B by (cases "expr_value c"; cases "expr_value a"; cases "expr_value b")
        (simp_all add: cond_tail_def left_over_def skip_ws_simps del: parse_at.simps)
    finally show "parse_at env 11 (expr_text 11 (Cond c a b) @ r) = ebind (expr_value (Cond c a b)) (\<lambda>v. Inr (v, left_over 11 r))"
      by (cases "expr_value c"; cases "expr_value a"; cases "expr_value b") (simp_all add: in_parens_def del: parse_at.simps)
  qed
  then show ?case by (intro reads_wellI) simp_all
qed

section \<open>Properties\<close>


text \<open>
  C12: the evaluator returns on every text, and it is the recursive descent of the source: its
  fuel bounds nothing.
\<close>

theorem parse_cond_total:
  "parse_cond env s \<noteq> Inl NoReturn \<and> parse_cond env s = parse_cond_body env (parse_cond env) s"
  using parse_cond_fuel_enough(2) [of s "Suc (length s)" env] parse_cond_rec [of env s]
  by (simp add: parse_cond_def)

text \<open>
  Where the evaluator departs from the C grammar.  A shift takes a unary right operand, so
  what follows it is dropped; a leading zero does not make a number octal; equality and
  relational operators associate as one level; a unary plus ends the expression.
\<close>

theorem if_condition_departures:
  "evaluate_expanded env ''1 << 2 + 3 == 4'' = Inr True \<and>
   evaluate_expanded env ''010 == 10'' = Inr True \<and>
   evaluate_expanded env ''2 == 1 < 2'' = Inr True \<and>
   evaluate_expanded env ''+1'' = Inr False"
  by (intro conjI; code_simp)

text \<open>
  Macro expansion of a condition need not end.  With \<open>A\<close> defined as \<open>f(A)\<close> and
  \<open>f(x)\<close> as \<open>x\<close>, expanding \<open>A\<close> calls itself on \<open>A\<close>: no depth is enough.
\<close>

theorem expand_self_reference:
  assumes "pp_defines env ''A'' = Some ''f(A)''" and "pp_defines env ''f'' = None"
    and "pp_macros env ''f'' = Some \<lparr>md_params = [''x''], md_variadic = False, md_variadic_param = [], md_body = ''x''\<rparr>"
  shows "expandIfMacros n env ''A'' = Inl NoReturn"
proof (induction n)
  case (Suc n)
  let ?m = "\<lparr>md_params = [''x''], md_variadic = False, md_variadic_param = [], md_body = ''x''\<rparr>"
  have t1: "tokenize_macro_spelling ''A'' = [\<lparr>rt_kind = RtIdentifier, rt_begin = 0, rt_end = 1\<rparr>]" by code_simp
  have t2: "tokenize_macro_spelling ''f(A)'' =
    [\<lparr>rt_kind = RtIdentifier, rt_begin = 0, rt_end = 1\<rparr>, \<lparr>rt_kind = RtPunct, rt_begin = 1, rt_end = 2\<rparr>,
     \<lparr>rt_kind = RtIdentifier, rt_begin = 2, rt_end = 3\<rparr>, \<lparr>rt_kind = RtPunct, rt_begin = 3, rt_end = 4\<rparr>]" by code_simp
  have args: "macro_call_args ''f(A)'' (Suc 0) = ([''A''], 4)" by code_simp
  have use: "macro_param_has_expanded_use ?m ''x''" "macro_fixed_param_count ?m = Suc 0" by code_simp+
  have "expand_pass (expandIfMacros n env) env ''A'' (tokenize_macro_spelling ''A'') 0 False [] False = Inr (''f(A)'', True)"
    unfolding t1
    by (simp add: expand_pass.simps if_identifier_def macro_token_text_def substr_def assms has_prefix_def)
  moreover have "expand_pass (expandIfMacros n env) env ''f(A)'' (tokenize_macro_spelling ''f(A)'') 0 False [] False = Inl NoReturn"
    unfolding t2
    by (subst expand_pass.simps)
      (simp add: if_identifier_def macro_token_text_def substr_def assms has_prefix_def call_group_def
        skip_space_def macro_token_space_def args expand_args_def arg_param_def use Suc)
  ultimately show ?case
    by (simp add: numeral_eq_Suc)
qed simp

theorem expand_self_reference_witness:
  "expandIfMacros 100
     \<lparr>pp_defines = [''A'' \<mapsto> ''f(A)''],
      pp_macros = [''f'' \<mapsto> \<lparr>md_params = [''x''], md_variadic = False, md_variadic_param = [], md_body = ''x''\<rparr>],
      pp_header = (\<lambda>_ _ _. False), pp_unsigned_char = False, pp_line = 1, pp_file = ''a.c'', pp_file_base = ''a.c'',
      pp_date = [], pp_time = [], pp_timestamp = []\<rparr> ''A'' = Inl NoReturn"
  by (rule expand_self_reference) simp_all

end
