(* ===== verification/MacroProps.thy ===== *)
theory MacroProps
  imports MacroExpand
begin

text \<open>
  Properties of macro spelling and substitution: the tokens tile the text, a body without
  operators is the concatenation of its tokens with the arguments put in and the spans
  recorded delimit them, and what \<open>##\<close> does to an empty left operand.
\<close>

section \<open>The tokens tile the text\<close>

lemma length_takeWhile_Suc: "length (takeWhile P t) \<le> length t"
  by (rule length_takeWhile_le)

lemma block_comment_len_le: "block_comment_len p t \<le> length t"
  by (induction p t rule: block_comment_len.induct) simp_all

lemma literal_len_le: "literal_len q e t \<le> length t"
  by (induction q e t rule: literal_len.induct) simp_all

lemma pp_number_len_le: "pp_number_len p t \<le> length t"
  by (induction p t rule: pp_number_len.induct) simp_all

lemma pp_literal_start_less: "pp_literal_start s = Some (q, r) \<Longrightarrow> q < length s"
  by (auto simp: pp_literal_start_def Let_def split: if_splits)

lemma find_at_bound: "find_at p s i = Some k \<Longrightarrow> k + length p \<le> i + length s"
  using find_at_Some [of p s i k] by (auto simp: has_prefix_iff dest!: arg_cong [of _ _ length])

lemma str_find_bound: "str_find s p i = Some k \<Longrightarrow> k + length p \<le> length s"
  by (auto simp: str_find_def split: if_splits dest: find_at_bound)

lemma raw_literal_le: "q < length s \<Longrightarrow> snd (raw_literal s q) \<le> length s"
  by (auto simp: raw_literal_def Let_def split: option.splits dest: str_find_bound)

lemma scan_token_le: "snd (scan_token c t) \<le> Suc (length t)"
proof (cases "pp_literal_start (c # t)")
  case (Some a)
  then obtain q r where a: "pp_literal_start (c # t) = Some (q, r)" by (cases a) auto
  have q: "q < Suc (length t)" using pp_literal_start_less [OF a] by simp
  have "snd (raw_literal (c # t) q) \<le> Suc (length t)" using raw_literal_le [of q "c # t"] q by simp
  moreover have "q + 1 + literal_len d False (drop (q + 1) (c # t)) \<le> Suc (length t)" for d
    using literal_len_le [of d False "drop (q + 1) (c # t)"] q by simp
  ultimately show ?thesis
    using a length_takeWhile_Suc [of _ t] length_takeWhile_Suc [of _ "tl t"] block_comment_len_le [of _ "tl t"]
    by (cases t) (auto simp: scan_token_def)
next
  case None
  then show ?thesis
    using length_takeWhile_Suc [of _ t] length_takeWhile_Suc [of _ "tl t"] block_comment_len_le [of _ "tl t"]
      pp_number_len_le [of c t]
    by (cases t) (auto simp: scan_token_def)
qed

definition token_in :: "nat \<Rightarrow> repl_token \<Rightarrow> bool" where
  "token_in n t \<longleftrightarrow> rt_begin t < rt_end t \<and> rt_end t \<le> n"

lemma tokenize_from_tiles:
  "length pre = i \<Longrightarrow>
   concat (map (macro_token_text (pre @ s)) (tokenize_from i s)) = s
   \<and> list_all (token_in (length pre + length s)) (tokenize_from i s)"
proof (induction i s arbitrary: pre rule: tokenize_from.induct)
  case (2 i c t)
  obtain k n where sc: "scan_token c t = (k, n)" by (cases "scan_token c t")
  have n: "0 < n" "n \<le> Suc (length t)" using scan_token_pos [of c t] scan_token_le [of c t] sc by simp_all
  have split: "pre @ c # t = (pre @ take n (c # t)) @ drop n (c # t)" by simp
  have IH: "concat (map (macro_token_text ((pre @ take n (c # t)) @ drop n (c # t))) (tokenize_from (i + n) (drop n (c # t))))
       = drop n (c # t)
     \<and> list_all (token_in (length (pre @ take n (c # t)) + length (drop n (c # t)))) (tokenize_from (i + n) (drop n (c # t)))"
    by (rule "2.IH" [OF sc [symmetric]]) (use 2 n in simp)
  show ?case
  proof -
    have "macro_token_text (pre @ c # t) \<lparr>rt_kind = k, rt_begin = i, rt_end = i + n\<rparr> = take n (c # t)"
      using "2.prems" by (simp add: macro_token_text_def substr_def)
    moreover have "token_in (length pre + length (c # t)) \<lparr>rt_kind = k, rt_begin = i, rt_end = i + n\<rparr>"
      using n "2.prems" by (simp add: token_in_def)
    moreover have "length (pre @ take n (c # t)) + length (drop n (c # t)) = length pre + length (c # t)"
      using n by simp
    ultimately show ?thesis
      using IH n unfolding split [symmetric] tokenize_from.simps sc by (simp add: min_absorb2)
  qed
qed simp

text \<open>The scanner takes the star of an opening for the star of a closing mark.\<close>

lemma tokenize_slash_star_slash:
  "tokenize_macro_spelling (''/*/'' @ s)
   = \<lparr>rt_kind = RtComment, rt_begin = 0, rt_end = 3\<rparr> # tokenize_from 3 s"
  by (simp add: tokenize_macro_spelling_def scan_token_def macro_body_space_def)

section \<open>A body without operators\<close>

definition subst_token :: "macro_def \<Rightarrow> string list \<Rightarrow> string list \<Rightarrow> repl_token \<Rightarrow> string" where
  "subst_token m raw expd t =
     (case name_operand m t of
        Some k \<Rightarrow> expanded_text m raw expd k
      | None \<Rightarrow> if rt_kind t = RtComment then '' '' else macro_token_text (md_body m) t)"

definition param_use :: "macro_def \<Rightarrow> string list \<Rightarrow> string list \<Rightarrow> repl_token \<Rightarrow> (string \<times> string) list" where
  "param_use m raw expd t =
     (case name_operand m t of
        Some k \<Rightarrow> if expanded_text m raw expd k = [] then []
                   else [(macro_token_text (md_body m) t, expanded_text m raw expd k)]
      | None \<Rightarrow> [])"

definition no_operators :: "macro_def \<Rightarrow> bool" where
  "no_operators m \<longleftrightarrow>
     list_all (\<lambda>t. rt_kind t \<noteq> RtHash \<and> rt_kind t \<noteq> RtPaste) (macro_replacement_tokens m)"

definition span_text :: "string \<Rightarrow> arg_span \<Rightarrow> string \<times> string" where
  "span_text s sp = (span_param sp, substr s (span_off sp) (span_len sp))"

definition span_within :: "string \<Rightarrow> arg_span \<Rightarrow> bool" where
  "span_within s sp \<longleftrightarrow> span_off sp + span_len sp \<le> length s"

lemma span_text_append: "span_within s sp \<Longrightarrow> span_text (s @ t) sp = span_text s sp"
  by (simp add: span_text_def span_within_def substr_def)

lemma param_use_is_expanded:
  assumes "list_all (\<lambda>t. rt_kind t \<noteq> RtHash \<and> rt_kind t \<noteq> RtPaste) toks"
  shows "\<not> macro_param_use_is_raw toks i"
proof -
  have ok: "rt_kind t \<noteq> RtHash \<and> rt_kind t \<noteq> RtPaste" if "t \<in> set toks" for t
    using assms that by (simp add: list_all_iff)
  have "rt_kind t \<noteq> RtHash \<and> rt_kind t \<noteq> RtPaste" if "dropWhile macro_token_space (rev (take i toks)) = t # ts" for t ts
  proof -
    have "t \<in> set (dropWhile macro_token_space (rev (take i toks)))" using that by simp
    then have "t \<in> set toks" by (meson in_set_takeD set_dropWhileD set_rev subsetD in_set_conv_decomp set_rev [THEN equalityD1])
    then show ?thesis by (rule ok)
  qed
  then show ?thesis by (auto simp: macro_param_use_is_raw_def Let_def ok split: list.split)
qed

lemma expand_body_go_plain:
  assumes "list_all (\<lambda>t. rt_kind t \<noteq> RtHash \<and> rt_kind t \<noteq> RtPaste) toks"
    and "list_all (span_within acc) spans"
  shows "\<exists>spans'. expand_body_go m raw expd toks i False acc spans
      = (acc @ concat (map (subst_token m raw expd) (drop i toks)), spans')
    \<and> list_all (span_within (acc @ concat (map (subst_token m raw expd) (drop i toks)))) spans'
    \<and> map (span_text (acc @ concat (map (subst_token m raw expd) (drop i toks)))) spans'
      = map (span_text acc) spans @ concat (map (param_use m raw expd) (drop i toks))"
  using assms(2)
proof (induction "length toks - i" arbitrary: i acc spans)
  case 0
  then show ?case by (subst expand_body_go.simps) simp
next
  case (Suc n)
  then have i: "i < length toks" by simp
  let ?t = "toks ! i" and ?w = "subst_token m raw expd (toks ! i)"
  have kind: "rt_kind ?t \<noteq> RtHash" "rt_kind ?t \<noteq> RtPaste" using assms(1) i by (simp_all add: list_all_length)
  let ?sp = "\<lparr>span_off = length acc, span_len = length ?w, span_param = macro_token_text (md_body m) ?t\<rparr>"
  let ?spans = "if name_operand m ?t \<noteq> None \<and> ?w \<noteq> [] then spans @ [?sp] else spans"
  have step: "expand_body_go m raw expd toks i False acc spans = expand_body_go m raw expd toks (i + 1) False (acc @ ?w) ?spans"
    using i kind param_use_is_expanded [OF assms(1), of i]
    by (subst expand_body_go.simps) (auto simp: hash_operand_def subst_token_def Let_def split: option.split)
  have within: "list_all (span_within (acc @ ?w)) ?spans"
    using Suc.prems by (auto simp: list_all_iff span_within_def)
  have "map (span_text (acc @ ?w)) spans = map (span_text acc) spans"
    using Suc.prems by (auto simp: list_all_iff span_text_append)
  moreover have "span_text (acc @ ?w) ?sp = (macro_token_text (md_body m) ?t, ?w)"
    by (simp add: span_text_def substr_def)
  ultimately have texts: "map (span_text (acc @ ?w)) ?spans = map (span_text acc) spans @ param_use m raw expd ?t"
    by (cases "name_operand m ?t") (simp_all add: param_use_def subst_token_def)
  have "n = length toks - (i + 1)" using Suc.hyps by simp
  moreover have "drop i toks = ?t # drop (i + 1) toks" using i by (simp add: Cons_nth_drop_Suc)
  ultimately show ?case
    using Suc.hyps(1) [OF _ within] unfolding step texts by simp
qed

section \<open>Properties\<close>

text \<open>
  The replacement tokens of a text tile it: each is a non-empty stretch inside the text,
  and their spellings in order are the text.
\<close>

theorem macro_tokens_tile_text:
  "concat (map (macro_token_text s) (tokenize_macro_spelling s)) = s
   \<and> list_all (token_in (length s)) (tokenize_macro_spelling s)"
  using tokenize_from_tiles [of "[]" 0 s] by (simp add: tokenize_macro_spelling_def)



text \<open>
  An empty left operand of \<open>##\<close> is lost with the blank before it.  With the body
  \<open>A B ## C\<close> and an empty argument for \<open>B\<close>, the argument of \<open>A\<close> is joined to the token
  \<open>C\<close>, and the blanks it ends in are dropped while its span keeps its length.
\<close>

theorem paste_empty_left_operand:
  "expand_function_macro_body
     \<lparr>md_params = [''A'', ''B''], md_variadic = False, md_variadic_param = [], md_body = ''A B ## C''\<rparr> [x, []] [x, []]
   = (drop_trailing_blank x @ ''C'',
      if x = [] then [] else [\<lparr>span_off = 0, span_len = length x, span_param = ''A''\<rparr>])"
proof -
  let ?m = "\<lparr>md_params = [''A'', ''B''], md_variadic = False, md_variadic_param = [], md_body = ''A B ## C''\<rparr>"
  let ?toks = "[\<lparr>rt_kind = RtIdentifier, rt_begin = 0, rt_end = 1\<rparr>, \<lparr>rt_kind = RtWhitespace, rt_begin = 1, rt_end = 2\<rparr>,
    \<lparr>rt_kind = RtIdentifier, rt_begin = 2, rt_end = 3\<rparr>, \<lparr>rt_kind = RtWhitespace, rt_begin = 3, rt_end = 4\<rparr>,
    \<lparr>rt_kind = RtPaste, rt_begin = 4, rt_end = 6\<rparr>, \<lparr>rt_kind = RtWhitespace, rt_begin = 6, rt_end = 7\<rparr>,
    \<lparr>rt_kind = RtIdentifier, rt_begin = 7, rt_end = 8\<rparr>]"
  have toks: "macro_replacement_tokens ?m = ?toks" by code_simp
  have blanks: "drop_trailing_blank (x @ ''  '') = drop_trailing_blank x"
    "drop_trailing_blank ''  '' = []" "drop_trailing_blank [] = []"
    by (simp_all add: drop_trailing_blank_def macro_body_space_def)
  note eval = expand_body_go.simps hash_operand_def name_operand_def macro_token_text_def substr_def param_of_def
    macro_fixed_param_count_def macro_param_use_is_raw_def skip_space_def macro_token_space_def raw_text_def expanded_text_def
  show ?thesis
    unfolding expand_function_macro_body_def toks
    by (simp add: eval blanks upt_rec)
qed

end
