(* ===== verification/TextBuffer.thy ===== *)
theory TextBuffer
  imports Prelude "HOL-Library.Word"
begin

text \<open>
  The piece table, from \<^verbatim>\<open>include/madcdis/text_buffer.h\<close>: the loaded text and the add buffer,
  the pieces that make up the live document, edits, the lazy newline index, line queries,
  word motion, and undo and redo by snapshots of the pieces.

  Offsets and lengths are natural numbers: every sum the code forms is bounded by the size of
  the document, which fits \<open>size_t\<close>.  The version is the 64-bit counter of the code.  The
  payload of a checkpoint is opaque to the buffer, so its type is a parameter.  A query that
  rebuilds the newline index returns the buffer with the index rebuilt.
\<close>

section \<open>State\<close>

record piece =
  pc_add :: bool
  pc_off :: nat
  pc_len :: nat

record 'm history_entry =
  he_pieces :: "piece list"
  he_size :: nat
  he_meta :: 'm

record 'm text_buffer =
  tb_original :: string
  tb_add :: string
  tb_pieces :: "piece list"
  tb_size :: nat
  tb_nl :: "nat list"
  tb_nl_dirty :: bool
  tb_history :: "'m history_entry list"
  tb_redo :: "'m history_entry list"
  tb_version :: "64 word"

definition text_buffer_new :: "'m text_buffer" where
  "text_buffer_new =
     \<lparr>tb_original = [], tb_add = [], tb_pieces = [], tb_size = 0, tb_nl = [], tb_nl_dirty = True,
      tb_history = [], tb_redo = [], tb_version = 0\<rparr>"

definition buffer_load :: "string \<Rightarrow> 'm text_buffer \<Rightarrow> 'm text_buffer" where
  "buffer_load s b =
     b\<lparr>tb_version := tb_version b + 1, tb_history := [], tb_redo := [], tb_original := s, tb_add := [],
       tb_pieces := (if s = [] then [] else [\<lparr>pc_add = False, pc_off = 0, pc_len = length s\<rparr>]),
       tb_size := length s, tb_nl_dirty := True\<rparr>"

definition piece_source :: "'m text_buffer \<Rightarrow> piece \<Rightarrow> string" where
  "piece_source b p = (if pc_add p then tb_add b else tb_original b)"

definition piece_text :: "'m text_buffer \<Rightarrow> piece \<Rightarrow> string" where
  "piece_text b p = substr (piece_source b p) (pc_off p) (pc_len p)"

definition buffer_text :: "'m text_buffer \<Rightarrow> string" where
  "buffer_text b = concat (map (piece_text b) (tb_pieces b))"

section \<open>Reading a range\<close>

fun slice_go :: "'m text_buffer \<Rightarrow> nat \<Rightarrow> nat \<Rightarrow> nat \<Rightarrow> piece list \<Rightarrow> string" where
  "slice_go b off len pos [] = []"
| "slice_go b off len pos (p # ps) =
     (if len = 0 then []
      else if off < pos + pc_len p
      then
        (let skip = (if off > pos then off - pos else 0);
             take = min (pc_len p - skip) len
         in substr (piece_source b p) (pc_off p + skip) take
            @ slice_go b (off + take) (len - take) (pos + pc_len p) ps)
      else slice_go b off len (pos + pc_len p) ps)"

definition buffer_slice :: "nat \<Rightarrow> nat \<Rightarrow> 'm text_buffer \<Rightarrow> string" where
  "buffer_slice off len b =
     (if tb_size b \<le> off then []
      else slice_go b off (min len (tb_size b - off)) 0 (tb_pieces b))"

section \<open>Edits\<close>

fun insert_go :: "piece \<Rightarrow> nat \<Rightarrow> nat \<Rightarrow> piece list \<Rightarrow> piece list" where
  "insert_go np off pos [] = [np]"
| "insert_go np off pos (p # ps) =
     (if off = pos then np # p # ps
      else if off < pos + pc_len p
      then
        (let head_len = off - pos
         in p\<lparr>pc_len := head_len\<rparr> # np
            # p\<lparr>pc_off := pc_off p + head_len, pc_len := pc_len p - head_len\<rparr> # ps)
      else p # insert_go np off (pos + pc_len p) ps)"

definition buffer_insert :: "nat \<Rightarrow> string \<Rightarrow> 'm text_buffer \<Rightarrow> 'm text_buffer" where
  "buffer_insert off s b =
     (if s = [] then b
      else
        (let np = \<lparr>pc_add = True, pc_off = length (tb_add b), pc_len = length s\<rparr>
         in b\<lparr>tb_nl_dirty := True, tb_version := tb_version b + 1, tb_add := tb_add b @ s,
              tb_pieces := insert_go np (min off (tb_size b)) 0 (tb_pieces b),
              tb_size := tb_size b + length s\<rparr>))"

text \<open>
  The loop of \<open>erase\<close>.  The element the index stands at is the head of the list; the split
  leaves the index at the new tail piece.
\<close>

function erase_go :: "nat \<Rightarrow> nat \<Rightarrow> nat \<Rightarrow> piece list \<Rightarrow> piece list" where
  "erase_go off len pos [] = []"
| "erase_go off len pos (p # ps) =
     (if len = 0 then p # ps
      else if pos + pc_len p \<le> off then p # erase_go off len (pos + pc_len p) ps
      else
        (let skip = (if off > pos then off - pos else 0);
             cut = min (pc_len p - skip) len
         in if skip = 0 \<and> cut = pc_len p then erase_go off (len - cut) pos ps
            else if skip = 0
            then p\<lparr>pc_off := pc_off p + cut, pc_len := pc_len p - cut\<rparr>
                 # erase_go off (len - cut) (pos + (pc_len p - cut)) ps
            else if skip + cut = pc_len p
            then p\<lparr>pc_len := skip\<rparr> # erase_go off (len - cut) (pos + skip) ps
            else p\<lparr>pc_len := skip\<rparr>
                 # erase_go off (len - cut) (pos + skip)
                     (p\<lparr>pc_off := pc_off p + (skip + cut), pc_len := pc_len p - (skip + cut)\<rparr> # ps)))"
  by pat_completeness auto
termination
  by (relation "measure (\<lambda>(off, len, pos, ps). len + length ps)") (auto simp: Let_def split: if_splits)

definition buffer_erase :: "nat \<Rightarrow> nat \<Rightarrow> 'm text_buffer \<Rightarrow> 'm text_buffer" where
  "buffer_erase off len b =
     (if tb_size b \<le> off \<or> len = 0 then b
      else
        (let n = min len (tb_size b - off)
         in b\<lparr>tb_nl_dirty := True, tb_version := tb_version b + 1, tb_size := tb_size b - n,
              tb_pieces := erase_go off n 0 (tb_pieces b)\<rparr>))"

definition buffer_replace :: "nat \<Rightarrow> nat \<Rightarrow> string \<Rightarrow> 'm text_buffer \<Rightarrow> 'm text_buffer" where
  "buffer_replace off len s b =
     (let v = tb_version b;
          b' = buffer_insert off s (buffer_erase off len b)
      in if v < tb_version b' then b'\<lparr>tb_version := v + 1\<rparr> else b')"

section \<open>The newline index\<close>

text \<open>The loop of \<open>index\<close> over one piece, then over the pieces.\<close>

fun piece_newlines :: "nat \<Rightarrow> string \<Rightarrow> nat list" where
  "piece_newlines pos [] = []"
| "piece_newlines pos (c # cs) =
     (if c = CHR 0x0A then pos # piece_newlines (Suc pos) cs else piece_newlines (Suc pos) cs)"

fun index_go :: "'m text_buffer \<Rightarrow> nat \<Rightarrow> piece list \<Rightarrow> nat list" where
  "index_go b pos [] = []"
| "index_go b pos (p # ps) = piece_newlines pos (piece_text b p) @ index_go b (pos + pc_len p) ps"

definition newline_index :: "'m text_buffer \<Rightarrow> 'm text_buffer" where
  "newline_index b =
     (if tb_nl_dirty b then b\<lparr>tb_nl := index_go b 0 (tb_pieces b), tb_nl_dirty := False\<rparr> else b)"

definition trailing_span :: "'m text_buffer \<Rightarrow> bool" where
  "trailing_span b \<longleftrightarrow> 0 < tb_size b \<and> (tb_nl b = [] \<or> last (tb_nl b) \<noteq> tb_size b - 1)"

definition line_count :: "'m text_buffer \<Rightarrow> nat \<times> 'm text_buffer" where
  "line_count b =
     (let b' = newline_index b in (length (tb_nl b') + (if trailing_span b' then 1 else 0), b'))"

definition line_span :: "nat \<Rightarrow> 'm text_buffer \<Rightarrow> (nat \<times> nat) option \<times> 'm text_buffer" where
  "line_span n b =
     (let b' = newline_index b;
          nl = tb_nl b';
          off = (if n = 1 then 0 else nl ! (n - 2) + 1)
      in (if n = 0 \<or> length nl + (if trailing_span b' then 1 else 0) < n then None
          else Some (off, (if n - 1 < length nl then nl ! (n - 1) else tb_size b') - off), b'))"

text \<open>\<open>std::lower_bound\<close> on a sorted vector: the number of elements below the key.\<close>

fun lower_bound :: "nat list \<Rightarrow> nat \<Rightarrow> nat" where
  "lower_bound [] k = 0"
| "lower_bound (x # xs) k = (if x < k then Suc (lower_bound xs k) else 0)"

definition line_of :: "nat \<Rightarrow> 'm text_buffer \<Rightarrow> nat \<times> 'm text_buffer" where
  "line_of off b =
     (let b' = newline_index b in (1 + lower_bound (tb_nl b') (min off (tb_size b')), b'))"

section \<open>Searching and word motion\<close>

text \<open>\<open>None\<close> is \<open>npos\<close>.\<close>

definition buffer_find :: "nat \<Rightarrow> string \<Rightarrow> 'm text_buffer \<Rightarrow> nat option" where
  "buffer_find from needle b =
     (if needle = [] \<or> tb_size b \<le> from then None else str_find (buffer_text b) needle from)"

definition word_byte :: "char \<Rightarrow> bool" where
  "word_byte c \<longleftrightarrow>
     (byte (CHR ''a'') \<le> byte c \<and> byte c \<le> byte (CHR ''z''))
     \<or> (byte (CHR ''A'') \<le> byte c \<and> byte c \<le> byte (CHR ''Z''))
     \<or> (byte (CHR ''0'') \<le> byte c \<and> byte c \<le> byte (CHR ''9''))
     \<or> c = CHR ''_'' \<or> 0x80 \<le> byte c"

definition space_byte :: "char \<Rightarrow> bool" where
  "space_byte c \<longleftrightarrow> c = CHR '' '' \<or> c = CHR 0x09 \<or> c = CHR 0x0A"

text \<open>\<open>while (i < t.size() && P(t[i])) ++i\<close>, and its mirror to the left.\<close>

definition run_right :: "(char \<Rightarrow> bool) \<Rightarrow> string \<Rightarrow> nat \<Rightarrow> nat" where
  "run_right P t i = i + length (takeWhile P (drop i t))"

definition run_left :: "(char \<Rightarrow> bool) \<Rightarrow> string \<Rightarrow> nat \<Rightarrow> nat" where
  "run_left P t i = i - length (takeWhile P (rev (take i t)))"

definition word_right_in :: "string \<Rightarrow> nat \<Rightarrow> nat" where
  "word_right_in t from =
     run_right word_byte t (run_right (\<lambda>c. \<not> word_byte c) t (min from (length t)))"

definition word_left_in :: "string \<Rightarrow> nat \<Rightarrow> nat" where
  "word_left_in t from =
     run_left word_byte t (run_left (\<lambda>c. \<not> word_byte c) t (min from (length t)))"

definition class_run_right_in :: "string \<Rightarrow> nat \<Rightarrow> nat" where
  "class_run_right_in t from =
     (let i = min from (length t)
      in if length t \<le> i then i
         else if word_byte (t ! i) then run_right word_byte t i
         else if space_byte (t ! i) then run_right space_byte t i
         else i + 1)"

definition word_right :: "nat \<Rightarrow> 'm text_buffer \<Rightarrow> nat" where
  "word_right from b = word_right_in (buffer_text b) from"

definition word_left :: "nat \<Rightarrow> 'm text_buffer \<Rightarrow> nat" where
  "word_left from b = word_left_in (buffer_text b) from"

definition class_run_right :: "nat \<Rightarrow> 'm text_buffer \<Rightarrow> nat" where
  "class_run_right from b = class_run_right_in (buffer_text b) from"

section \<open>History\<close>

text \<open>The back of a stack is the end of the list.\<close>

definition push_entry :: "'m \<Rightarrow> 'm text_buffer \<Rightarrow> 'm history_entry list \<Rightarrow> 'm history_entry list" where
  "push_entry meta b st = st @ [\<lparr>he_pieces = tb_pieces b, he_size = tb_size b, he_meta = meta\<rparr>]"

text \<open>\<open>restore_from\<close> a non-empty stack: the document of its back.\<close>

definition restore_entry :: "'m history_entry \<Rightarrow> 'm text_buffer \<Rightarrow> 'm text_buffer" where
  "restore_entry h b =
     b\<lparr>tb_pieces := he_pieces h, tb_size := he_size h, tb_nl_dirty := True, tb_version := tb_version b + 1\<rparr>"

definition buffer_checkpoint :: "'m \<Rightarrow> 'm text_buffer \<Rightarrow> 'm text_buffer" where
  "buffer_checkpoint meta b = b\<lparr>tb_redo := [], tb_history := push_entry meta b (tb_history b)\<rparr>"

text \<open>The payload when there was a step to undo, and the buffer.\<close>

definition buffer_undo_plain :: "'m text_buffer \<Rightarrow> 'm option \<times> 'm text_buffer" where
  "buffer_undo_plain b =
     (let b1 = b\<lparr>tb_redo := []\<rparr>
      in if tb_history b1 = [] then (None, b1)
         else (Some (he_meta (last (tb_history b1))),
               (restore_entry (last (tb_history b1)) b1)\<lparr>tb_history := butlast (tb_history b1)\<rparr>))"

definition buffer_undo :: "'m \<Rightarrow> 'm text_buffer \<Rightarrow> 'm option \<times> 'm text_buffer" where
  "buffer_undo now b =
     (if tb_history b = [] then (None, b)
      else
        (let b1 = b\<lparr>tb_redo := push_entry now b (tb_redo b)\<rparr>
         in (Some (he_meta (last (tb_history b1))),
             (restore_entry (last (tb_history b1)) b1)\<lparr>tb_history := butlast (tb_history b1)\<rparr>)))"

definition buffer_redo :: "'m \<Rightarrow> 'm text_buffer \<Rightarrow> 'm option \<times> 'm text_buffer" where
  "buffer_redo now b =
     (if tb_redo b = [] then (None, b)
      else
        (let b1 = b\<lparr>tb_history := push_entry now b (tb_history b)\<rparr>
         in (Some (he_meta (last (tb_redo b1))),
             (restore_entry (last (tb_redo b1)) b1)\<lparr>tb_redo := butlast (tb_redo b1)\<rparr>)))"

definition history_depth :: "'m text_buffer \<Rightarrow> nat" where
  "history_depth b = length (tb_history b)"

definition redo_depth :: "'m text_buffer \<Rightarrow> nat" where
  "redo_depth b = length (tb_redo b)"

definition piece_count :: "'m text_buffer \<Rightarrow> nat" where
  "piece_count b = length (tb_pieces b)"

end
