(* ===== verification/TextUtf16.thy ===== *)
theory TextUtf16
  imports Prelude
begin

unbundle bit_operations_syntax

text \<open>
  UTF-8 and UTF-16 columns of a line of text, code-point widths and a line's layout on a
  screen, from \<^verbatim>\<open>include/madcdis/text_utf16.h\<close>.

  A scan that walks a byte index over the line is a function of the rest of the line; the
  index is carried where the code returns it.  Counts of columns are bounded by eight times
  the length of the line, so they are natural numbers; a column argument of type \<open>long\<close> is
  an integer.
\<close>

section \<open>UTF-8\<close>

definition utf8_seq_len :: "char \<Rightarrow> nat" where
  "utf8_seq_len lead =
     (if byte lead < 0x80 then 1 else if byte lead < 0xC0 then 1 else if byte lead < 0xE0 then 2
      else if byte lead < 0xF0 then 3 else 4)"

definition u8 :: "char \<Rightarrow> 32 word" where
  "u8 c = of_nat (byte c)"

text \<open>\<open>(c & 0xC0) == 0x80\<close>.\<close>

definition continuation :: "char \<Rightarrow> bool" where
  "continuation c \<longleftrightarrow> u8 c AND 0xC0 = 0x80"

definition push_tail :: "32 word \<Rightarrow> char \<Rightarrow> 32 word" where
  "push_tail v c = push_bit 6 v OR (u8 c AND 0x3F)"

text \<open>The code point at the head of a non-empty text, and the number of bytes it spans.\<close>

definition utf8_decode :: "string \<Rightarrow> 32 word \<times> nat" where
  "utf8_decode s =
     (let b = hd s; n = utf8_seq_len b
      in if n = 1 \<or> length s < n then (u8 b, 1)
         else if \<not> list_all continuation (take (n - 1) (tl s)) then (u8 b, 1)
         else (foldl push_tail (u8 b AND (if n = 2 then 0x1F else if n = 3 then 0x0F else 0x07))
                 (take (n - 1) (tl s)), n))"

definition utf8_decode_at :: "string \<Rightarrow> nat \<Rightarrow> 32 word \<times> nat" where
  "utf8_decode_at t i = utf8_decode (drop i t)"

lemma utf8_seq_len_pos: "0 < utf8_seq_len c" "utf8_seq_len c \<le> 4"
  by (simp_all add: utf8_seq_len_def)

lemma utf8_decode_span: "s \<noteq> [] \<Longrightarrow> 0 < snd (utf8_decode s) \<and> snd (utf8_decode s) \<le> length s"
  by (auto simp: utf8_decode_def Let_def not_less Suc_le_eq utf8_seq_len_pos)

section \<open>UTF-16 columns\<close>

definition seq_units :: "nat \<Rightarrow> int" where
  "seq_units n = (if n = 4 then 2 else 1)"

text \<open>The length of the sequence at the head, cut at the end of the line.\<close>

definition seq_here :: "string \<Rightarrow> nat" where
  "seq_here s = min (utf8_seq_len (hd s)) (length s)"

function col16_to_byte_go :: "int \<Rightarrow> nat \<Rightarrow> int \<Rightarrow> string \<Rightarrow> nat" where
  "col16_to_byte_go col16 i units [] = i"
| "col16_to_byte_go col16 i units (c # cs) =
     (if col16 \<le> units then i
      else
        (let n = seq_here (c # cs); units' = units + seq_units n
         in if units' > col16 then i else col16_to_byte_go col16 (i + n) units' (drop n (c # cs))))"
  by pat_completeness auto
termination
  by (relation "measure (\<lambda>(col16, i, units, s). length s)")
    (auto simp: seq_here_def utf8_seq_len_pos min_def not_le)

definition col16_to_byte :: "string \<Rightarrow> int \<Rightarrow> nat" where
  "col16_to_byte t col16 = (if col16 \<le> 0 then 0 else col16_to_byte_go col16 0 0 t)"

function col16_of_byte_go :: "nat \<Rightarrow> nat \<Rightarrow> int \<Rightarrow> string \<Rightarrow> int" where
  "col16_of_byte_go bytecol i units [] = units"
| "col16_of_byte_go bytecol i units (c # cs) =
     (if bytecol \<le> i then units
      else
        (let n = seq_here (c # cs)
         in if i + n > bytecol then units
            else col16_of_byte_go bytecol (i + n) (units + seq_units n) (drop n (c # cs))))"
  by pat_completeness auto
termination
  by (relation "measure (\<lambda>(bytecol, i, units, s). length s)")
    (auto simp: seq_here_def utf8_seq_len_pos min_def not_le)

definition col16_of_byte :: "string \<Rightarrow> nat \<Rightarrow> int" where
  "col16_of_byte t bytecol = col16_of_byte_go (min bytecol (length t)) 0 0 t"

section \<open>Display columns\<close>

definition wide_ranges :: "(32 word \<times> 32 word) list" where
  "wide_ranges =
     [(0x1100, 0x115F), (0x2329, 0x232A), (0x2E80, 0x303E),
      (0x3040, 0xA4CF), (0xAC00, 0xD7A3), (0xF900, 0xFAFF),
      (0xFE10, 0xFE19), (0xFE30, 0xFE6F), (0xFF00, 0xFF60),
      (0xFFE0, 0xFFE6), (0x1F300, 0x1F64F), (0x1F900, 0x1F9FF),
      (0x20000, 0x2FFFD), (0x30000, 0x3FFFD)]"

definition codepoint_columns :: "32 word \<Rightarrow> nat" where
  "codepoint_columns cp = (if list_ex (\<lambda>(lo, hi). lo \<le> cp \<and> cp \<le> hi) wide_ranges then 2 else 1)"

text \<open>
  The layout of the rest of a line that starts at column \<open>c\<close>, \<open>n\<close> bytes already shown: the
  bytes shown, the column of every byte and of the end, and the offset of every byte's glyph.
\<close>

function layout_go :: "nat \<Rightarrow> nat \<Rightarrow> nat \<Rightarrow> string \<Rightarrow> string \<times> nat list \<times> nat list" where
  "layout_go tabw c n [] = ([], [c], [n])"
| "layout_go tabw c n (b # bs) =
     (if b = CHR 0x09
      then
        (let nx = (c div tabw + 1) * tabw
         in case layout_go tabw nx (n + (nx - c)) bs of
              (s, cols, ats) \<Rightarrow> (replicate (nx - c) CHR '' '' @ s, c # cols, n # ats))
      else if byte b < 0x20 \<or> byte b = 0x7F
      then
        (case layout_go tabw (c + 2) (n + 2) bs of
           (s, cols, ats) \<Rightarrow>
             (CHR ''^'' # (if byte b = 0x7F then CHR ''?'' else char_of (byte b + 0x40)) # s, c # cols, n # ats))
      else
        (case utf8_decode (b # bs) of
           (cp, m) \<Rightarrow>
             (case layout_go tabw (c + codepoint_columns cp) (n + m) (drop m (b # bs)) of
                (s, cols, ats) \<Rightarrow>
                  (take m (b # bs) @ s, replicate m c @ cols, replicate m n @ ats))))"
  by pat_completeness auto
termination
  by (relation "measure (\<lambda>(tabw, c, n, s). length s)") (auto, metis utf8_decode_span list.distinct(1) snd_conv diff_less zero_less_Suc)

definition line_layout :: "string \<Rightarrow> nat \<Rightarrow> nat \<Rightarrow> string \<times> nat list \<times> nat list" where
  "line_layout line origin tabw = layout_go (if tabw < 1 then 8 else tabw) origin 0 line"

definition line_width :: "string \<Rightarrow> nat" where
  "line_width s = (case line_layout s 0 8 of (_, cols, _) \<Rightarrow> last cols)"

text \<open>The window of columns: the loop with its column \<open>c\<close>.\<close>

function line_columns_go :: "nat \<Rightarrow> nat \<Rightarrow> nat \<Rightarrow> string \<Rightarrow> string" where
  "line_columns_go from stop c [] = []"
| "line_columns_go from stop c (b # bs) =
     (if stop \<le> c then []
      else
        (case utf8_decode (b # bs) of
           (cp, n) \<Rightarrow>
             (let w = codepoint_columns cp
              in (if from \<le> c \<and> c + w \<le> stop then take n (b # bs)
                  else replicate (length (filter (\<lambda>k. from \<le> k \<and> k < stop) [c..<c + w])) CHR '' '')
                 @ line_columns_go from stop (c + w) (drop n (b # bs)))))"
  by pat_completeness auto
termination
  by (relation "measure (\<lambda>(from, stop, c, s). length s)") (auto, metis utf8_decode_span list.distinct(1) snd_conv diff_less zero_less_Suc)

definition line_columns :: "string \<Rightarrow> nat \<Rightarrow> nat \<Rightarrow> string" where
  "line_columns shown from width = line_columns_go from (from + width) 0 shown"

end
