(* ===== verification/LineEdit.thy ===== *)
theory LineEdit
  imports TextBuffer TextUtf16
begin

text \<open>
  The line editor's model, from \<^verbatim>\<open>include/madcdis/line_edit.h\<close>: one entry of a prompt with its
  caret, undo stack and kill slot, the history it recalls and searches, the history file's
  records, the completion rule, and the queue of events that \<open>step\<close> uses up.

  An absent position (\<open>npos\<close>) is \<open>None\<close>.  Of an event the model reads the kind, the text of a
  text event and the code of an action; a code is the action it was bound to.  The history is
  the host's list of entries, absent when the host gave none.  The stacks grow at the end.
\<close>

section \<open>History\<close>

definition blank_entry :: "string \<Rightarrow> bool" where
  "blank_entry s \<longleftrightarrow> list_all (\<lambda>c. c = CHR '' '' \<or> c = CHR 0x09 \<or> c = CHR 0x0A) s"

definition history_add :: "string \<Rightarrow> string list \<Rightarrow> bool \<times> string list" where
  "history_add entry h =
     (if blank_entry entry then (False, h)
      else if h \<noteq> [] \<and> last h = entry then (False, h)
      else (True, h @ [entry]))"

primrec prefix_before_go :: "string list \<Rightarrow> string \<Rightarrow> nat \<Rightarrow> nat option" where
  "prefix_before_go h prefix 0 = None"
| "prefix_before_go h prefix (Suc i) =
     (if has_prefix prefix (h ! i) then Some i else prefix_before_go h prefix i)"

definition prefix_before :: "string list \<Rightarrow> string \<Rightarrow> nat \<Rightarrow> nat option" where
  "prefix_before h prefix from = prefix_before_go h prefix (min from (length h))"

definition prefix_after :: "string list \<Rightarrow> string \<Rightarrow> nat \<Rightarrow> nat option" where
  "prefix_after h prefix from = find (\<lambda>i. has_prefix prefix (h ! i)) [from + 1..<length h]"

definition str_rfind :: "string \<Rightarrow> string \<Rightarrow> nat option" where
  "str_rfind s p = find (\<lambda>i. has_prefix p (drop i s)) (rev [0..<Suc (length s)])"

text \<open>The entry found and the byte of the occurrence.\<close>

primrec holding_before_go :: "string list \<Rightarrow> string \<Rightarrow> nat \<Rightarrow> (nat \<times> nat) option" where
  "holding_before_go h needle 0 = None"
| "holding_before_go h needle (Suc i) =
     (case str_rfind (h ! i) needle of Some p \<Rightarrow> Some (i, p) | None \<Rightarrow> holding_before_go h needle i)"

definition holding_before :: "string list \<Rightarrow> string \<Rightarrow> nat \<Rightarrow> (nat \<times> nat) option" where
  "holding_before h needle from =
     (if h = [] then None
      else holding_before_go h needle ((if length h \<le> from then length h - 1 else from) + 1))"

function holding_after :: "string list \<Rightarrow> string \<Rightarrow> nat \<Rightarrow> (nat \<times> nat) option" where
  "holding_after h needle from =
     (if length h \<le> from then None
      else
        (case str_find (h ! from) needle 0 of
           Some p \<Rightarrow> Some (from, p)
         | None \<Rightarrow> holding_after h needle (from + 1)))"
  by pat_completeness auto
termination by (relation "measure (\<lambda>(h, needle, from). length h - from)") auto

declare holding_after.simps [simp del]

section \<open>The history file\<close>

text \<open>The stretches between new-lines, the last one included.\<close>

function split_nl :: "string \<Rightarrow> string list" where
  "split_nl s =
     (let l = takeWhile (\<lambda>c. c \<noteq> CHR 0x0A) s
      in if length l < length s then l # split_nl (drop (length l + 1) s) else [l])"
  by pat_completeness auto
termination by (relation "measure length") auto

declare split_nl.simps [simp del]

definition history_record :: "string \<Rightarrow> string \<Rightarrow> string \<Rightarrow> string" where
  "history_record time_utc mode entry =
     ''# time: '' @ time_utc @ [CHR 0x0A] @ ''# mode: '' @ mode @ [CHR 0x0A]
     @ concat (map (\<lambda>l. CHR 0x09 # l @ [CHR 0x0A]) (split_nl entry))"

record record_scan =
  rs_out :: "(string \<times> string) list"
  rs_open :: bool
  rs_has_line :: bool

definition record_scan_start :: record_scan where
  "record_scan_start = \<lparr>rs_out = [], rs_open = False, rs_has_line = False\<rparr>"

definition drop_cr :: "string \<Rightarrow> string" where
  "drop_cr line = (if line \<noteq> [] \<and> last line = CHR 0x0D then butlast line else line)"

definition record_line :: "string \<Rightarrow> record_scan \<Rightarrow> record_scan" where
  "record_line raw rs =
     (let line = drop_cr raw
      in if has_prefix ''# time:'' line
         then rs\<lparr>rs_out := rs_out rs @ [([], [])], rs_open := True, rs_has_line := False\<rparr>
         else if rs_open rs \<and> has_prefix ''# mode: '' line
         then rs\<lparr>rs_out := butlast (rs_out rs) @ [(drop 8 line, snd (last (rs_out rs)))]\<rparr>
         else if rs_open rs \<and> line \<noteq> [] \<and> hd line = CHR 0x09
         then rs\<lparr>rs_out := butlast (rs_out rs)
                   @ [(fst (last (rs_out rs)),
                       snd (last (rs_out rs)) @ (if rs_has_line rs then [CHR 0x0A] else []) @ tl line)],
                 rs_has_line := True\<rparr>
         else rs)"

function records_go :: "string \<Rightarrow> record_scan \<Rightarrow> record_scan" where
  "records_go s rs =
     (if s = [] then rs
      else
        (let l = takeWhile (\<lambda>c. c \<noteq> CHR 0x0A) s
         in records_go (drop (length l + 1) s) (record_line l rs)))"
  by pat_completeness auto
termination by (relation "measure (\<lambda>(s, rs). length s)") auto

declare records_go.simps [simp del]

definition history_records :: "string \<Rightarrow> (string \<times> string) list" where
  "history_records file = rs_out (records_go file record_scan_start)"

section \<open>Completion\<close>

datatype completion_step = CompletionNone | CompletionInsert string | CompletionList

fun common_prefix :: "string \<Rightarrow> string \<Rightarrow> string" where
  "common_prefix (a # as) (b # bs) = (if a = b then a # common_prefix as bs else [])"
| "common_prefix _ _ = []"

definition complete_word :: "string \<Rightarrow> string list \<Rightarrow> completion_step" where
  "complete_word word candidates =
     (case candidates of
        [] \<Rightarrow> CompletionNone
      | [c] \<Rightarrow> CompletionInsert c
      | c # cs \<Rightarrow>
          (let prefix = foldl common_prefix c cs
           in if length word < length prefix \<and> has_prefix word prefix
              then CompletionInsert prefix else CompletionList))"

section \<open>The model\<close>

datatype line_action =
  LaNone | LaAccept | LaNewline | LaComplete
  | LaBackwardChar | LaForwardChar | LaBackwardWord | LaForwardWord
  | LaLineStart | LaLineEnd | LaPreviousLine | LaNextLine
  | LaDeleteBack | LaDeleteForward | LaDeleteOrEnd
  | LaKillToEnd | LaKillToStart | LaKillSpaceBack | LaKillWordBack
  | LaKillWordForward | LaYank | LaTranspose | LaUndo
  | LaCancel | LaClearScreen | LaSearchBack | LaSearchForward | LaAbort

datatype line_event = EvText string | EvAction line_action | EvOther

datatype outcome = OcIdle | OcEnter | OcComplete | OcDropped | OcEnded

datatype verdict = VTaken | VIncomplete | VExtendable

record snapshot =
  sn_text :: string
  sn_caret :: nat

record line_edit =
  le_prompt :: string
  le_text :: string
  le_caret :: nat
  le_undo :: "snapshot list"
  le_kill :: string
  le_killing :: bool
  le_enters :: "32 word"
  le_extendable :: bool
  le_pasted :: bool
  le_final :: bool
  le_tabs :: "32 word"
  le_goal :: "nat option"
  le_clear :: bool
  le_listed :: "string list"
  le_queue :: "line_event list"
  le_history :: "string list option"
  le_recall :: "nat option"
  le_live :: string
  le_prefix :: string
  le_searching :: bool
  le_search_back :: bool
  le_search_failed :: bool
  le_query :: string
  le_last_query :: string
  le_match :: "nat option"
  le_match_at :: nat
  le_saved :: string
  le_saved_caret :: nat

definition line_edit_new :: "string \<Rightarrow> line_edit" where
  "line_edit_new prompt =
     \<lparr>le_prompt = prompt, le_text = [], le_caret = 0, le_undo = [], le_kill = [], le_killing = False,
      le_enters = 0, le_extendable = False, le_pasted = False, le_final = False, le_tabs = 0,
      le_goal = None, le_clear = False, le_listed = [], le_queue = [], le_history = None,
      le_recall = None, le_live = [], le_prefix = [], le_searching = False, le_search_back = True,
      le_search_failed = False, le_query = [], le_last_query = [], le_match = None, le_match_at = 0,
      le_saved = [], le_saved_caret = 0\<rparr>"

definition set_history :: "string list option \<Rightarrow> line_edit \<Rightarrow> line_edit" where
  "set_history h le = le\<lparr>le_history := h\<rparr>"

definition set_prompt :: "string \<Rightarrow> line_edit \<Rightarrow> line_edit" where
  "set_prompt prompt le = le\<lparr>le_prompt := prompt\<rparr>"

definition line_edit_start :: "line_edit \<Rightarrow> line_edit" where
  "line_edit_start le =
     le\<lparr>le_text := [], le_caret := 0, le_undo := [], le_killing := False, le_enters := 0,
        le_extendable := False, le_pasted := False, le_final := False, le_tabs := 0, le_goal := None,
        le_clear := False, le_listed := [], le_recall := None, le_searching := False\<rparr>"

definition line_edit_feed :: "line_event list \<Rightarrow> line_edit \<Rightarrow> line_edit" where
  "line_edit_feed events le = le\<lparr>le_queue := le_queue le @ events\<rparr>"

section \<open>Positions\<close>

text \<open>The loop of \<open>prev_cp\<close>: back over continuation bytes, to the start of the text at most.\<close>

primrec back_continuation :: "string \<Rightarrow> nat \<Rightarrow> nat" where
  "back_continuation t 0 = 0"
| "back_continuation t (Suc i) = (if continuation (t ! Suc i) then back_continuation t i else Suc i)"

definition prev_cp :: "string \<Rightarrow> nat \<Rightarrow> nat" where
  "prev_cp t i = (if i = 0 then 0 else back_continuation t (i - 1))"

definition next_cp :: "string \<Rightarrow> nat \<Rightarrow> nat" where
  "next_cp t i = (if length t \<le> i then length t else i + snd (utf8_decode_at t i))"

definition line_begin :: "string \<Rightarrow> nat \<Rightarrow> nat" where
  "line_begin t i =
     (case (if i = 0 then None else rfind_char_upto t (CHR 0x0A) (i - 1)) of None \<Rightarrow> 0 | Some nl \<Rightarrow> nl + 1)"

definition line_finish :: "string \<Rightarrow> nat \<Rightarrow> nat" where
  "line_finish t i = (case find_char t (CHR 0x0A) i of None \<Rightarrow> length t | Some nl \<Rightarrow> nl)"

text \<open>The line that starts at \<open>begin\<close>, and the columns of its bytes after the prompt.\<close>

definition line_text_at :: "line_edit \<Rightarrow> nat \<Rightarrow> string" where
  "line_text_at le from = substr (le_text le) from (line_finish (le_text le) from - from)"

definition line_columns_at :: "line_edit \<Rightarrow> nat \<Rightarrow> nat list" where
  "line_columns_at le from =
     (case line_layout (line_text_at le from) (line_width (le_prompt le)) 8 of (_, cols, _) \<Rightarrow> cols)"

definition column_in_line :: "line_edit \<Rightarrow> nat \<Rightarrow> nat \<Rightarrow> nat" where
  "column_in_line le from i = line_columns_at le from ! (i - from)"

definition byte_at_column :: "line_edit \<Rightarrow> nat \<Rightarrow> nat \<Rightarrow> nat" where
  "byte_at_column le from goal =
     (let line = line_text_at le from; cols = line_columns_at le from
      in case find (\<lambda>b. goal \<le> cols ! b \<and> \<not> continuation (line ! b)) [0..<length line] of
           Some b \<Rightarrow> from + b
         | None \<Rightarrow> from + length line)"

section \<open>Edits\<close>

definition le_edit :: "line_edit \<Rightarrow> line_edit" where
  "le_edit le =
     le\<lparr>le_recall := None, le_undo := le_undo le @ [\<lparr>sn_text = le_text le, sn_caret = le_caret le\<rparr>]\<rparr>"

definition insert_text :: "string \<Rightarrow> line_edit \<Rightarrow> line_edit" where
  "insert_text s le =
     le\<lparr>le_text := take (le_caret le) (le_text le) @ s @ drop (le_caret le) (le_text le),
        le_caret := le_caret le + length s\<rparr>"

definition insert_run :: "string \<Rightarrow> line_edit \<Rightarrow> line_edit" where
  "insert_run run le =
     (if run = [] then le
      else insert_text run
             (le_edit (le\<lparr>le_enters := 0, le_tabs := 0, le_killing := False, le_goal := None\<rparr>)))"

definition erase_range :: "nat \<Rightarrow> nat \<Rightarrow> line_edit \<Rightarrow> line_edit" where
  "erase_range from to le =
     (if to \<le> from then le
      else
        (let le1 = le_edit le
         in le1\<lparr>le_text := take from (le_text le1) @ drop to (le_text le1), le_caret := from\<rparr>))"

definition kill_range :: "nat \<Rightarrow> nat \<Rightarrow> bool \<Rightarrow> line_edit \<Rightarrow> line_edit" where
  "kill_range from to backward le =
     (if to \<le> from then le
      else
        (let s = substr (le_text le) from (to - from)
         in erase_range from to
              (le\<lparr>le_kill := (if le_killing le then (if backward then s @ le_kill le else le_kill le @ s)
                             else s)\<rparr>)))"

definition replace_word :: "nat \<Rightarrow> string \<Rightarrow> line_edit \<Rightarrow> line_edit" where
  "replace_word start w le =
     (let le1 = le_edit le
      in le1\<lparr>le_text := take start (le_text le1) @ w @ drop (le_caret le1) (le_text le1),
             le_caret := start + length w\<rparr>)"

definition ask_enter :: "bool \<Rightarrow> line_edit \<Rightarrow> line_edit" where
  "ask_enter pasted le =
     (let t = le_text le;
          begin_last = line_begin t (length t);
          on_last = (begin_last \<le> le_caret le);
          last_blank = list_all space_byte (drop begin_last t)
      in le\<lparr>le_pasted := pasted,
            le_final := (\<not> pasted \<and> le_caret le = length t \<and> 2 \<le> le_enters le)
              \<or> (le_extendable le \<and> on_last \<and> last_blank \<and> 0 < begin_last)\<rparr>)"

definition tab_key :: "line_edit \<Rightarrow> outcome \<times> line_edit" where
  "tab_key le =
     (let from = line_begin (le_text le) (le_caret le);
          blank = list_all space_byte (substr (le_text le) from (le_caret le - from))
      in if \<not> blank then (OcComplete, le)
         else
           (let at = column_in_line le from (le_caret le) - line_width (le_prompt le)
            in (OcIdle, insert_text (replicate (4 - at mod 4) CHR '' '') (le_edit (le\<lparr>le_tabs := 0\<rparr>)))))"

definition entered :: "verdict \<Rightarrow> line_edit \<Rightarrow> line_edit" where
  "entered v le =
     (if v = VTaken then le
      else
        (let le1 = insert_text [CHR 0x0A] (le_edit le)
         in le1\<lparr>le_enters := (if le_pasted le1 then le_enters le1 else le_enters le1 + 1),
                le_extendable := (v = VExtendable)\<rparr>))"

definition completed :: "nat \<Rightarrow> string list \<Rightarrow> line_edit \<Rightarrow> line_edit" where
  "completed start candidates le =
     (let repeats = le_tabs le; le1 = le\<lparr>le_tabs := repeats + 1\<rparr>
      in if le_caret le < start then le1
         else
           (case complete_word (substr (le_text le) start (le_caret le - start)) candidates of
              CompletionInsert w \<Rightarrow>
                (let le2 = replace_word start w le1
                 in if length candidates = 1 then le2\<lparr>le_tabs := 0\<rparr> else le2)
            | CompletionList \<Rightarrow> (if 0 < repeats then le1\<lparr>le_listed := candidates\<rparr> else le1)
            | CompletionNone \<Rightarrow> le1))"

section \<open>Recall\<close>

definition recall_older :: "line_edit \<Rightarrow> line_edit" where
  "recall_older le =
     (case le_history le of
        None \<Rightarrow> le
      | Some h \<Rightarrow>
          (let le1 = (if le_recall le = None
                      then le\<lparr>le_live := le_text le, le_prefix := take (le_caret le) (le_text le)\<rparr> else le)
           in case prefix_before h (le_prefix le1)
                     (case le_recall le1 of None \<Rightarrow> length h | Some i \<Rightarrow> i) of
                None \<Rightarrow> le1
              | Some i \<Rightarrow>
                  le1\<lparr>le_recall := Some i, le_text := h ! i, le_caret := length (le_prefix le1)\<rparr>))"

definition recall_newer :: "line_edit \<Rightarrow> line_edit" where
  "recall_newer le =
     (case (le_history le, le_recall le) of
        (Some h, Some r) \<Rightarrow>
          (let le1 = (case prefix_after h (le_prefix le) r of
                        None \<Rightarrow> le\<lparr>le_text := le_live le, le_recall := None\<rparr>
                      | Some i \<Rightarrow> le\<lparr>le_recall := Some i, le_text := h ! i\<rparr>)
           in le1\<lparr>le_caret := (if length (le_prefix le1) \<le> length (le_text le1) then length (le_prefix le1)
                              else length (le_text le1))\<rparr>)
      | _ \<Rightarrow> le)"

section \<open>Incremental search\<close>

definition begin_search :: "bool \<Rightarrow> line_edit \<Rightarrow> line_edit" where
  "begin_search back le =
     le\<lparr>le_searching := True, le_search_back := back, le_search_failed := False, le_query := [],
        le_match := None, le_match_at := 0, le_saved := le_text le, le_saved_caret := le_caret le\<rparr>"

definition search_hit :: "bool \<Rightarrow> string list \<Rightarrow> line_edit \<Rightarrow> (nat \<times> nat) option" where
  "search_hit again h le =
     (if le_search_back le
      then
        (if again \<and> le_match le = Some 0 then None
         else holding_before h (le_query le)
                (case le_match le of None \<Rightarrow> length h | Some m \<Rightarrow> if again then m - 1 else m))
      else
        (case le_match le of
           None \<Rightarrow> None
         | Some m \<Rightarrow> holding_after h (le_query le) (if again then m + 1 else m)))"

definition search :: "bool \<Rightarrow> line_edit \<Rightarrow> line_edit" where
  "search again le =
     (case le_history le of
        None \<Rightarrow> le\<lparr>le_search_failed := False\<rparr>
      | Some h \<Rightarrow>
          (if le_query le = [] then le\<lparr>le_search_failed := False\<rparr>
           else
             (case search_hit again h le of
                None \<Rightarrow> le\<lparr>le_search_failed := True\<rparr>
              | Some (i, at) \<Rightarrow>
                  le\<lparr>le_search_failed := False, le_match := Some i, le_match_at := at\<rparr>)))"

definition history_at :: "line_edit \<Rightarrow> nat \<Rightarrow> string" where
  "history_at le i = (case le_history le of None \<Rightarrow> [] | Some h \<Rightarrow> h ! i)"

definition end_search :: "bool \<Rightarrow> line_edit \<Rightarrow> line_edit" where
  "end_search keep le =
     (let le1 = le\<lparr>le_searching := False,
                  le_last_query := (if le_query le \<noteq> [] then le_query le else le_last_query le)\<rparr>
      in case (keep, le_match le1) of
           (True, Some m) \<Rightarrow>
             le1\<lparr>le_live := le_saved le1, le_prefix := [], le_recall := Some m,
                 le_text := history_at le1 m, le_caret := le_match_at le1\<rparr>
         | _ \<Rightarrow> le1\<lparr>le_text := le_saved le1, le_caret := le_saved_caret le1\<rparr>)"

definition search_shown :: "line_edit \<Rightarrow> string" where
  "search_shown le = (case le_match le of Some m \<Rightarrow> history_at le m | None \<Rightarrow> le_saved le)"

definition search_caret :: "line_edit \<Rightarrow> nat" where
  "search_caret le = (case le_match le of Some m \<Rightarrow> le_match_at le | None \<Rightarrow> le_saved_caret le)"

definition search_prompt :: "line_edit \<Rightarrow> string" where
  "search_prompt le =
     (if le_search_failed le then ''(failed '' else ''('')
     @ (if le_search_back le then ''reverse-i-search'' else ''i-search'') @ '')'' @ [CHR 0x27]
     @ le_query le @ [CHR 0x27] @ '': ''"

text \<open>
  One event while searching: whether it is used up, the event as it stays queued otherwise,
  and the model.
\<close>

definition search_action :: "line_action \<Rightarrow> line_edit \<Rightarrow> bool \<times> line_edit" where
  "search_action a le =
     (case a of
        LaSearchBack \<Rightarrow>
          (True, let le1 = le\<lparr>le_search_back := True\<rparr>
                 in if le_query le1 = [] then search False (le1\<lparr>le_query := le_last_query le1\<rparr>)
                    else search True le1)
      | LaSearchForward \<Rightarrow>
          (True, let le1 = le\<lparr>le_search_back := False\<rparr>
                 in if le_query le1 = [] then search False (le1\<lparr>le_query := le_last_query le1\<rparr>)
                    else search True le1)
      | LaDeleteBack \<Rightarrow>
          (True, if le_query le = [] then le
                 else
                   (let q = take (back_continuation (le_query le) (length (le_query le) - 1)) (le_query le);
                        le1 = le\<lparr>le_query := q\<rparr>
                    in search False (if le_search_back le1 then le1\<lparr>le_match := None\<rparr> else le1)))
      | LaAccept \<Rightarrow> (True, end_search True le)
      | LaAbort \<Rightarrow> (True, end_search False le)
      | LaCancel \<Rightarrow> (True, end_search False le)
      | _ \<Rightarrow> (False, end_search True le))"

definition search_event :: "line_event \<Rightarrow> line_edit \<Rightarrow> bool \<times> line_event \<times> line_edit" where
  "search_event e le =
     (case e of
        EvText s \<Rightarrow>
          (let l = takeWhile (\<lambda>c. c \<noteq> CHR 0x0A) s;
               le1 = search False (le\<lparr>le_query := le_query le @ l\<rparr>)
           in if length l = length s then (True, e, le1)
              else
                (let rest = drop (length l + 1) s
                 in (rest = [], EvText rest, end_search True le1)))
      | EvAction LaNone \<Rightarrow> (True, e, le)
      | EvAction a \<Rightarrow> (case search_action a le of (used, le1) \<Rightarrow> (used, e, le1))
      | EvOther \<Rightarrow> (True, e, le))"

section \<open>Actions\<close>

definition kill_action :: "line_action \<Rightarrow> bool" where
  "kill_action a \<longleftrightarrow>
     a \<in> {LaKillToEnd, LaKillToStart, LaKillSpaceBack, LaKillWordBack, LaKillWordForward}"

text \<open>What every action resets before it acts.\<close>

definition before_action :: "line_action \<Rightarrow> line_edit \<Rightarrow> line_edit" where
  "before_action a le =
     (let le1 = le\<lparr>le_killing := kill_action a \<and> le_killing le\<rparr>;
          le2 = (if a \<noteq> LaAccept then le1\<lparr>le_enters := 0\<rparr> else le1);
          le3 = (if a \<noteq> LaComplete then le2\<lparr>le_tabs := 0\<rparr> else le2)
      in if a \<noteq> LaPreviousLine \<and> a \<noteq> LaNextLine then le3\<lparr>le_goal := None, le_recall := None\<rparr> else le3)"

definition previous_line :: "line_edit \<Rightarrow> line_edit" where
  "previous_line le =
     (let from = line_begin (le_text le) (le_caret le)
      in if from = 0 then (recall_older le)\<lparr>le_goal := None\<rparr>
         else
           (let goal = (case le_goal le of Some g \<Rightarrow> g | None \<Rightarrow> column_in_line le from (le_caret le))
            in le\<lparr>le_goal := Some goal,
                  le_caret := byte_at_column le (line_begin (le_text le) (from - 1)) goal\<rparr>))"

definition next_line :: "line_edit \<Rightarrow> line_edit" where
  "next_line le =
     (let stop = line_finish (le_text le) (le_caret le)
      in if stop = length (le_text le) then (recall_newer le)\<lparr>le_goal := None\<rparr>
         else
           (let goal = (case le_goal le of
                          Some g \<Rightarrow> g
                        | None \<Rightarrow> column_in_line le (line_begin (le_text le) (le_caret le)) (le_caret le))
            in le\<lparr>le_goal := Some goal, le_caret := byte_at_column le (stop + 1) goal\<rparr>))"

definition kill_to_end :: "line_edit \<Rightarrow> line_edit" where
  "kill_to_end le =
     (let stop = line_finish (le_text le) (le_caret le)
      in (kill_range (le_caret le) (if stop = le_caret le then next_cp (le_text le) (le_caret le) else stop)
            False le)\<lparr>le_killing := True\<rparr>)"

definition space_back :: "string \<Rightarrow> nat \<Rightarrow> nat" where
  "space_back t i = run_left (\<lambda>c. \<not> space_byte c) t (run_left space_byte t i)"

definition transpose_chars :: "line_edit \<Rightarrow> line_edit" where
  "transpose_chars le =
     (let t = le_text le;
          from = line_begin t (le_caret le);
          stop = line_finish t (le_caret le);
          mid = (if le_caret le = stop then prev_cp t (le_caret le) else le_caret le);
          lo = prev_cp t mid;
          hi = next_cp t mid
      in if le_caret le = from \<or> mid = from then le
         else
           (le_edit le)\<lparr>le_text := take lo t @ substr t mid (hi - mid) @ substr t lo (mid - lo) @ drop hi t,
                       le_caret := hi\<rparr>)"

definition undo_action :: "line_edit \<Rightarrow> line_edit" where
  "undo_action le =
     (if le_undo le = [] then le
      else le\<lparr>le_text := sn_text (last (le_undo le)), le_caret := sn_caret (last (le_undo le)),
              le_undo := butlast (le_undo le)\<rparr>)"

fun act :: "line_action \<Rightarrow> line_edit \<Rightarrow> outcome \<times> line_edit" where
  "act LaAccept le = (OcEnter, ask_enter False le)"
| "act LaNewline le = (OcIdle, insert_text [CHR 0x0A] (le_edit le))"
| "act LaComplete le = tab_key le"
| "act LaBackwardChar le = (OcIdle, le\<lparr>le_caret := prev_cp (le_text le) (le_caret le)\<rparr>)"
| "act LaForwardChar le = (OcIdle, le\<lparr>le_caret := next_cp (le_text le) (le_caret le)\<rparr>)"
| "act LaBackwardWord le = (OcIdle, le\<lparr>le_caret := word_left_in (le_text le) (le_caret le)\<rparr>)"
| "act LaForwardWord le = (OcIdle, le\<lparr>le_caret := word_right_in (le_text le) (le_caret le)\<rparr>)"
| "act LaLineStart le = (OcIdle, le\<lparr>le_caret := line_begin (le_text le) (le_caret le)\<rparr>)"
| "act LaLineEnd le = (OcIdle, le\<lparr>le_caret := line_finish (le_text le) (le_caret le)\<rparr>)"
| "act LaPreviousLine le = (OcIdle, previous_line le)"
| "act LaNextLine le = (OcIdle, next_line le)"
| "act LaDeleteBack le = (OcIdle, erase_range (prev_cp (le_text le) (le_caret le)) (le_caret le) le)"
| "act LaDeleteOrEnd le =
     (if le_text le = [] then (OcEnded, le)
      else (OcIdle, erase_range (le_caret le) (next_cp (le_text le) (le_caret le)) le))"
| "act LaDeleteForward le = (OcIdle, erase_range (le_caret le) (next_cp (le_text le) (le_caret le)) le)"
| "act LaKillToEnd le = (OcIdle, kill_to_end le)"
| "act LaKillToStart le =
     (OcIdle, (kill_range (line_begin (le_text le) (le_caret le)) (le_caret le) True le)\<lparr>le_killing := True\<rparr>)"
| "act LaKillSpaceBack le =
     (OcIdle, (kill_range (space_back (le_text le) (le_caret le)) (le_caret le) True le)\<lparr>le_killing := True\<rparr>)"
| "act LaKillWordBack le =
     (OcIdle, (kill_range (word_left_in (le_text le) (le_caret le)) (le_caret le) True le)\<lparr>le_killing := True\<rparr>)"
| "act LaKillWordForward le =
     (OcIdle, (kill_range (le_caret le) (word_right_in (le_text le) (le_caret le)) False le)\<lparr>le_killing := True\<rparr>)"
| "act LaYank le = (OcIdle, if le_kill le = [] then le else insert_text (le_kill le) (le_edit le))"
| "act LaTranspose le = (OcIdle, transpose_chars le)"
| "act LaUndo le = (OcIdle, undo_action le)"
| "act LaCancel le = (OcDropped, le)"
| "act LaClearScreen le = (OcIdle, le\<lparr>le_clear := True\<rparr>)"
| "act LaSearchBack le = (OcIdle, begin_search True le)"
| "act LaSearchForward le = (OcIdle, begin_search False le)"
| "act LaAbort le = (OcIdle, le)"
| "act LaNone le = (OcIdle, le)"

definition apply_action :: "line_action \<Rightarrow> line_edit \<Rightarrow> outcome \<times> line_edit" where
  "apply_action a le = act a (before_action a le)"

section \<open>The queue\<close>

text \<open>What the loop needs to end: an action leaves the queue, and an event that stays queued ends the search.\<close>

lemma edits_keep_queue [simp]:
  "le_queue (le_edit le) = le_queue le" "le_queue (insert_text s le) = le_queue le"
  "le_queue (insert_run s le) = le_queue le" "le_queue (erase_range i j le) = le_queue le"
  "le_queue (kill_range i j b le) = le_queue le" "le_queue (ask_enter p le) = le_queue le"
  "le_queue (recall_older le) = le_queue le" "le_queue (recall_newer le) = le_queue le"
  "le_queue (before_action a le) = le_queue le" "le_queue (search g le) = le_queue le"
  "le_queue (end_search k le) = le_queue le" "le_queue (begin_search k le) = le_queue le"
  "le_searching (end_search k le) = False"
  by (auto simp: le_edit_def insert_text_def insert_run_def erase_range_def kill_range_def ask_enter_def Let_def
      recall_older_def recall_newer_def before_action_def search_def end_search_def begin_search_def
      split: option.split bool.split)

lemma apply_action_queue: "apply_action a le = (oc, le1) \<Longrightarrow> le_queue le1 = le_queue le"
  unfolding apply_action_def
  by (cases a) (auto simp: tab_key_def previous_line_def next_line_def kill_to_end_def transpose_chars_def undo_action_def
      begin_search_def Let_def split: if_splits)

definition event_weight :: "line_event \<Rightarrow> nat" where
  "event_weight e = (case e of EvText s \<Rightarrow> Suc (length s) | _ \<Rightarrow> 1)"

definition queue_weight :: "line_edit \<Rightarrow> nat" where
  "queue_weight le = 2 * sum_list (map event_weight (le_queue le)) + (if le_searching le then 1 else 0)"

lemma search_event_queue:
  assumes "search_event e le = (used, e1, le1)"
  shows "le_queue le1 = le_queue le"
    and "\<not> used \<Longrightarrow> \<not> le_searching le1 \<and> event_weight e1 \<le> event_weight e"
  using assms
  by (auto simp: search_event_def search_action_def event_weight_def Let_def split: line_event.splits line_action.splits if_splits)

lemma event_weight_pos: "0 < event_weight e"
  by (simp add: event_weight_def split: line_event.split)

lemma event_weight_text: "event_weight (EvText s) = Suc (length s)" "event_weight (EvAction a) = 1"
  by (simp_all add: event_weight_def)

function line_edit_step :: "line_edit \<Rightarrow> outcome \<times> line_edit" where
  "line_edit_step le =
     (case le_queue le of
        [] \<Rightarrow> (OcIdle, le)
      | e # q \<Rightarrow>
          (if le_searching le
           then
             (case search_event e le of
                (used, e1, le1) \<Rightarrow> line_edit_step (le1\<lparr>le_queue := (if used then q else e1 # q)\<rparr>))
           else
             (case e of
                EvText s \<Rightarrow>
                  (let l = takeWhile (\<lambda>c. c \<noteq> CHR 0x0A) s; le1 = insert_run l le
                   in if length l = length s then line_edit_step (le1\<lparr>le_queue := q\<rparr>)
                      else
                        (let rest = drop (length l + 1) s
                         in (OcEnter,
                             ask_enter True (le1\<lparr>le_queue := (if rest = [] then q else EvText rest # q)\<rparr>))))
              | EvOther \<Rightarrow> line_edit_step (le\<lparr>le_queue := q\<rparr>)
              | EvAction a \<Rightarrow>
                  (if a = LaNone then line_edit_step (le\<lparr>le_queue := q\<rparr>)
                   else
                     (case apply_action a (le\<lparr>le_queue := q\<rparr>) of
                        (oc, le1) \<Rightarrow> if oc = OcIdle then line_edit_step le1 else (oc, le1))))))"
  by pat_completeness auto
termination
proof (relation "measure queue_weight")
  show "wf (measure queue_weight)" by simp
qed (auto simp: queue_weight_def event_weight_pos event_weight_text
    dest: search_event_queue [OF sym] apply_action_queue [OF sym])

declare line_edit_step.simps [simp del]

section \<open>Views\<close>

record line_mark =
  lm_line :: nat
  lm_from :: nat
  lm_to :: nat
  lm_on :: string

record line_view =
  lv_prompt :: string
  lv_lines :: "string list"
  lv_caret_line :: nat
  lv_caret_byte :: nat
  lv_marks :: "line_mark list"

text \<open>The loop of \<open>make_view\<close> over the lines, the offset of the line carried along.\<close>

fun view_lines :: "nat \<Rightarrow> nat \<Rightarrow> string list \<Rightarrow> line_view \<Rightarrow> line_view" where
  "view_lines caret from [] v = v"
| "view_lines caret from (l # ls) v =
     (let v1 = (if from \<le> caret \<and> caret \<le> from + length l
                then v\<lparr>lv_caret_line := length (lv_lines v), lv_caret_byte := caret - from\<rparr> else v)
      in view_lines caret (from + length l + 1) ls (v1\<lparr>lv_lines := lv_lines v1 @ [l]\<rparr>))"

definition make_view :: "string \<Rightarrow> nat \<Rightarrow> string \<Rightarrow> line_view" where
  "make_view t caret prompt =
     view_lines caret 0 (split_nl t)
       \<lparr>lv_prompt = prompt, lv_lines = [], lv_caret_line = 0, lv_caret_byte = 0, lv_marks = []\<rparr>"

definition line_edit_view :: "line_edit \<Rightarrow> line_view" where
  "line_edit_view le =
     (if le_searching le then make_view (search_shown le) (search_caret le) (search_prompt le)
      else make_view (le_text le) (le_caret le) (le_prompt le))"

definition view_at_end :: "line_edit \<Rightarrow> line_view" where
  "view_at_end le =
     (if le_searching le then make_view (search_shown le) (length (search_shown le)) (search_prompt le)
      else make_view (le_text le) (length (le_text le)) (le_prompt le))"

definition take_clear :: "line_edit \<Rightarrow> bool \<times> line_edit" where
  "take_clear le = (le_clear le, le\<lparr>le_clear := False\<rparr>)"

definition take_listed :: "line_edit \<Rightarrow> string list \<times> line_edit" where
  "take_listed le = (le_listed le, le\<lparr>le_listed := []\<rparr>)"

end
