(* ===== verification/LinePaint.thy ===== *)
theory LinePaint
  imports LineEdit
begin

text \<open>
  The line painter, from \<^verbatim>\<open>include/madcdis/line_edit.h\<close>: the marks around a line's glyphs, the
  bytes of a full refresh of the entry, and the rows it keeps for the next one; a list of
  candidates in columns.
\<close>

section \<open>Marks\<close>

text \<open>
  \<open>mark_line\<close>: the loop over the marks with the offset copied up to and the byte marked up to.
  \<open>at\<close> maps a byte of the line to its offset in the text.
\<close>

fun mark_line_go :: "string \<Rightarrow> nat \<Rightarrow> nat \<Rightarrow> (nat \<Rightarrow> nat) \<Rightarrow> nat \<Rightarrow> nat \<Rightarrow> line_mark list \<Rightarrow> string" where
  "mark_line_go t n index at pos marked [] = drop pos t"
| "mark_line_go t n index at pos marked (m # ms) =
     (if lm_line m \<noteq> index \<or> lm_from m < marked \<or> lm_to m \<le> lm_from m \<or> n \<le> lm_from m
      then mark_line_go t n index at pos marked ms
      else
        (let to = min (lm_to m) n
         in substr t pos (at (lm_from m) - pos) @ lm_on m @ substr t (at (lm_from m)) (at to - at (lm_from m))
            @ CHR 0x1B # ''[0m'' @ mark_line_go t n index at (at to) to ms))"

definition mark_line :: "string \<Rightarrow> nat \<Rightarrow> nat \<Rightarrow> line_mark list \<Rightarrow> nat list option \<Rightarrow> string" where
  "mark_line t n index marks at =
     mark_line_go t n index (case at of None \<Rightarrow> (\<lambda>i. i) | Some v \<Rightarrow> (\<lambda>i. v ! i)) 0 0 marks"

definition marked_layout :: "string \<Rightarrow> nat \<Rightarrow> line_mark list \<Rightarrow> nat \<Rightarrow> string \<times> nat list" where
  "marked_layout line index marks origin =
     (case line_layout line origin 8 of
        (shown, cols, ats) \<Rightarrow> (mark_line shown (length line) index marks (Some ats), cols))"

section \<open>The painter\<close>

record line_painter =
  lp_rows :: nat
  lp_caret_row :: nat

definition painter_new :: line_painter where
  "painter_new = \<lparr>lp_rows = 0, lp_caret_row = 0\<rparr>"

definition painter_reset :: "line_painter \<Rightarrow> line_painter" where
  "painter_reset lp = lp\<lparr>lp_rows := 0, lp_caret_row := 0\<rparr>"

definition csi :: "nat \<Rightarrow> char \<Rightarrow> string" where
  "csi n final_byte = CHR 0x1B # CHR ''['' # to_string n @ [final_byte]"

definition erase_row :: string where
  "erase_row = CHR 0x0D # CHR 0x1B # ''[0K''"

definition fresh_row :: "nat \<Rightarrow> string" where
  "fresh_row cols = replicate (if cols \<noteq> 0 then cols else 1) CHR '' '' @ erase_row"

text \<open>Down to the last row painted, then up to the first, erasing each.\<close>

definition erase_rows :: "line_painter \<Rightarrow> string" where
  "erase_rows lp =
     (if 0 < lp_rows lp
      then
        (let down = lp_rows lp - 1 - lp_caret_row lp
         in (if down \<noteq> 0 then csi down CHR ''B'' else [])
            @ concat (map (\<lambda>r. erase_row @ (if r + 1 < lp_rows lp then csi 1 CHR ''A'' else []))
                [0..<lp_rows lp]))
      else erase_row)"

text \<open>The loop over the lines: the row the next line starts on, the end row, and the caret.\<close>

record paint_state =
  ps_out :: string
  ps_row :: nat
  ps_end_row :: nat
  ps_caret_row :: nat
  ps_caret_col :: nat

definition paint_line :: "line_view \<Rightarrow> nat \<Rightarrow> nat \<Rightarrow> nat \<Rightarrow> paint_state \<Rightarrow> paint_state" where
  "paint_line v cols origin i ps =
     (let line = lv_lines v ! i;
          final = (i + 1 = length (lv_lines v))
      in case marked_layout line i (lv_marks v) origin of
           (shown, col) \<Rightarrow>
             (let w = last col;
                  exact = (0 < w \<and> w mod cols = 0);
                  out = ps_out ps
                    @ (if i = 0 then lv_prompt v else CHR 0x0D # CHR 0x0A # replicate origin CHR '' '') @ shown;
                  c = col ! (if lv_caret_byte v < length line then lv_caret_byte v else length line);
                  caret = (if i = lv_caret_line v
                           then (if c = w \<and> exact \<and> \<not> final then (ps_row ps + c div cols - 1, cols - 1)
                                 else (ps_row ps + c div cols, c mod cols))
                           else (ps_caret_row ps, ps_caret_col ps));
                  end_row = ps_row ps + w div cols
              in if final
                 then \<lparr>ps_out = out @ (if exact then [CHR 0x0D, CHR 0x0A] else []), ps_row = end_row + 1,
                       ps_end_row = end_row, ps_caret_row = fst caret, ps_caret_col = snd caret\<rparr>
                 else \<lparr>ps_out = out, ps_row = ps_row ps + (if exact then w div cols else w div cols + 1),
                       ps_end_row = ps_end_row ps, ps_caret_row = fst caret, ps_caret_col = snd caret\<rparr>))"

definition paint :: "line_view \<Rightarrow> nat \<Rightarrow> line_painter \<Rightarrow> string \<times> line_painter" where
  "paint v cols0 lp =
     (let cols = (if cols0 = 0 then 1 else cols0);
          origin = line_width (lv_prompt v);
          ps = fold (paint_line v cols origin) [0..<length (lv_lines v)]
                 \<lparr>ps_out = erase_rows lp, ps_row = 0, ps_end_row = 0, ps_caret_row = 0, ps_caret_col = origin\<rparr>
      in (ps_out ps
            @ (if ps_caret_row ps < ps_end_row ps then csi (ps_end_row ps - ps_caret_row ps) CHR ''A'' else [])
            @ CHR 0x0D # (if ps_caret_col ps \<noteq> 0 then csi (ps_caret_col ps) CHR ''C'' else []),
          \<lparr>lp_rows = ps_row ps, lp_caret_row = ps_caret_row ps\<rparr>))"

definition paint_finish :: "line_view \<Rightarrow> nat \<Rightarrow> string \<Rightarrow> line_painter \<Rightarrow> string \<times> line_painter" where
  "paint_finish v cols rest lp =
     (let v1 = (if lv_lines v \<noteq> []
                then v\<lparr>lv_caret_line := length (lv_lines v) - 1, lv_caret_byte := length (last (lv_lines v))\<rparr>
                else v)
      in case paint v1 cols lp of (out, lp1) \<Rightarrow> (out @ rest @ [CHR 0x0D, CHR 0x0A], painter_reset lp1))"

definition list_row :: "string list \<Rightarrow> nat \<Rightarrow> nat \<Rightarrow> nat \<Rightarrow> nat \<Rightarrow> string" where
  "list_row items cell per_row rows r =
     concat (map (\<lambda>c. let idx = c * rows + r
                      in items ! idx
                         @ (if (c + 1) * rows + r < length items
                            then replicate (cell - line_width (items ! idx)) CHR '' '' else []))
       (takeWhile (\<lambda>c. c * rows + r < length items) [0..<per_row]))
     @ [CHR 0x0D, CHR 0x0A]"

definition paint_list :: "string list \<Rightarrow> nat \<Rightarrow> string" where
  "paint_list items cols =
     (if items = [] then []
      else
        (let widest = fold (\<lambda>s w. max w (line_width s)) items 0;
             cell = widest + 2;
             per_row = (if (cols + 2) div cell = 0 then 1 else (cols + 2) div cell);
             rows = (length items + per_row - 1) div per_row
         in concat (map (list_row items cell per_row rows) [0..<rows])))"

section \<open>The columns of a layout\<close>

lemma next_tab: "0 < tabw \<Longrightarrow> c < (c div tabw + 1) * tabw" for c tabw :: nat
  using dividend_less_div_times [of tabw c] by (simp add: algebra_simps)

lemma sorted_front: "sorted cols \<Longrightarrow> cols \<noteq> [] \<Longrightarrow> c \<le> hd cols \<Longrightarrow> sorted (replicate m c @ cols)"
  by (cases cols) (auto simp: sorted_append sorted_replicate)

lemma layout_go_columns:
  assumes "0 < tabw" and "layout_go tabw c n s = (shown, cols, ats)"
  shows "length cols = Suc (length s) \<and> sorted cols \<and> hd cols = c"
  using assms
proof (induction tabw c n s arbitrary: shown cols ats rule: layout_go.induct)
  case (2 tabw c n b bs)
  let ?nx = "(c div tabw + 1) * tabw"
  consider (tab) "b = CHR 0x09" | (control) "b \<noteq> CHR 0x09" "byte b < 0x20 \<or> byte b = 0x7F"
    | (glyph) "b \<noteq> CHR 0x09" "\<not> (byte b < 0x20 \<or> byte b = 0x7F)" by blast
  then show ?case
  proof cases
    case tab
    obtain s1 c1 a1 where r: "layout_go tabw ?nx (n + (?nx - c)) bs = (s1, c1, a1)" by (cases "layout_go tabw ?nx (n + (?nx - c)) bs") auto
    have IH: "length c1 = Suc (length bs) \<and> sorted c1 \<and> hd c1 = ?nx"
      using "2.IH"(1) [OF tab refl "2.prems"(1) r] .
    have "cols = c # c1" using "2.prems"(2) r tab by (simp add: Let_def)
    then show ?thesis using IH next_tab [OF "2.prems"(1), of c] sorted_front [of c1 c 1] by (cases c1) auto
  next
    case control
    obtain s1 c1 a1 where r: "layout_go tabw (c + 2) (n + 2) bs = (s1, c1, a1)" by (cases "layout_go tabw (c + 2) (n + 2) bs") auto
    have IH: "length c1 = Suc (length bs) \<and> sorted c1 \<and> hd c1 = c + 2"
      using "2.IH"(2) [OF control "2.prems"(1) r] .
    have "cols = c # c1" using "2.prems"(2) r control by auto
    then show ?thesis using IH sorted_front [of c1 c 1] by (cases c1) auto
  next
    case glyph
    obtain cp m where d: "utf8_decode (b # bs) = (cp, m)" by (cases "utf8_decode (b # bs)")
    have m: "0 < m" "m \<le> Suc (length bs)" using utf8_decode_span [of "b # bs"] d by simp_all
    obtain s1 c1 a1 where r: "layout_go tabw (c + codepoint_columns cp) (n + m) (drop m (b # bs)) = (s1, c1, a1)"
      by (cases "layout_go tabw (c + codepoint_columns cp) (n + m) (drop m (b # bs))") auto
    have IH: "length c1 = Suc (length (drop m (b # bs))) \<and> sorted c1 \<and> hd c1 = c + codepoint_columns cp"
      using "2.IH"(3) [OF glyph d [symmetric] "2.prems"(1) r] .
    have "cols = replicate m c @ c1" using "2.prems"(2) r glyph d by auto
    moreover have "c1 \<noteq> []" using IH by auto
    ultimately show ?thesis using IH m sorted_front [of c1 c m] by (cases m) auto
  qed
qed auto

lemma marked_layout_columns:
  assumes "marked_layout line i marks origin = (shown, col)"
  shows "length col = Suc (length line) \<and> sorted col"
proof -
  obtain s ats where "line_layout line origin 8 = (s, col, ats)"
    using assms by (auto simp: marked_layout_def split: prod.splits)
  then show ?thesis using layout_go_columns [of 8 origin 0 line s col ats] by (simp add: line_layout_def)
qed

lemma sorted_last: "sorted xs \<Longrightarrow> k < length xs \<Longrightarrow> xs ! k \<le> last xs"
  by (cases "xs = []") (simp_all add: last_conv_nth sorted_nth_mono)

text \<open>The caret of a line is above the row the next line starts on.\<close>

lemma paint_line_rows:
  assumes "0 < cols" and "ps_caret_row ps \<le> ps_row ps"
    and "lv_caret_line v < i \<Longrightarrow> ps_caret_row ps < ps_row ps"
  shows "ps_caret_row (paint_line v cols origin i ps) \<le> ps_row (paint_line v cols origin i ps)"
    and "lv_caret_line v < Suc i \<Longrightarrow> ps_caret_row (paint_line v cols origin i ps) < ps_row (paint_line v cols origin i ps)"
proof -
  let ?line = "lv_lines v ! i" and ?p = "paint_line v cols origin i ps"
  obtain shown col where L: "marked_layout ?line i (lv_marks v) origin = (shown, col)"
    by (cases "marked_layout ?line i (lv_marks v) origin")
  define w where "w = last col"
  define c where "c = col ! (if lv_caret_byte v < length ?line then lv_caret_byte v else length ?line)"
  have cw: "c \<le> w" using marked_layout_columns [OF L] sorted_last [of col] by (simp add: c_def w_def)
  then have d: "c div cols \<le> w div cols" by (rule div_le_mono)
  have down: "c div cols < w div cols" if "c < w" "w mod cols = 0"
  proof (rule less_mult_imp_div_less)
    show "c < w div cols * cols" using that div_mult_mod_eq [of w cols] by simp
  qed
  have exact: "0 < w \<Longrightarrow> w mod cols = 0 \<Longrightarrow> 0 < w div cols"
    using assms(1) by (auto simp: div_greater_zero_iff mod_eq_self_iff_div_eq_0 not_less)
  have row: "ps_row ?p = ps_row ps + (if i + 1 = length (lv_lines v) then w div cols + 1
      else if 0 < w \<and> w mod cols = 0 then w div cols else w div cols + 1)"
    unfolding paint_line_def Let_def L w_def by simp
  have caret: "ps_caret_row ?p = (if i = lv_caret_line v
      then if c = w \<and> (0 < w \<and> w mod cols = 0) \<and> i + 1 \<noteq> length (lv_lines v) then ps_row ps + c div cols - 1
           else ps_row ps + c div cols
      else ps_caret_row ps)"
    unfolding paint_line_def Let_def L w_def c_def by (simp only: prod.case if_distrib [of ps_caret_row] paint_state.simps if_distrib [of fst] fst_conv) simp
  have here: "i = lv_caret_line v \<Longrightarrow> ps_caret_row ?p < ps_row ?p"
    using d down exact cw unfolding row caret
    by (cases "i + 1 = length (lv_lines v)"; cases "0 < w \<and> w mod cols = 0"; cases "c = w") auto
  show "ps_caret_row ?p \<le> ps_row ?p" using here row caret assms(2) by (cases "i = lv_caret_line v") simp_all
  show "ps_caret_row ?p < ps_row ?p" if "lv_caret_line v < Suc i"
    using here row caret assms(3) that by (cases "i = lv_caret_line v") auto
qed

end
