(* ===== verification/TextBufferProps.thy ===== *)
theory TextBufferProps
  imports TextBuffer
begin

text \<open>
  The piece table implements the text: every edit acts on the document as the same edit acts
  on a string, the line queries answer as the lines of the string do, undo and redo walk the
  documents of the checkpoints, and the version tells documents apart.
\<close>

section \<open>Pieces\<close>

definition piece_ok :: "'m text_buffer \<Rightarrow> piece \<Rightarrow> bool" where
  "piece_ok b p \<longleftrightarrow> 0 < pc_len p \<and> pc_off p + pc_len p \<le> length (piece_source b p)"

definition pieces_text :: "'m text_buffer \<Rightarrow> piece list \<Rightarrow> string" where
  "pieces_text b ps = concat (map (piece_text b) ps)"

definition pieces_size :: "piece list \<Rightarrow> nat" where
  "pieces_size ps = sum_list (map pc_len ps)"

lemma pieces_simps [simp]:
  "pieces_text b [] = []" "pieces_text b (p # ps) = piece_text b p @ pieces_text b ps"
  "pieces_text b (ps @ qs) = pieces_text b ps @ pieces_text b qs"
  "pieces_size [] = 0" "pieces_size (p # ps) = pc_len p + pieces_size ps"
  by (simp_all add: pieces_text_def pieces_size_def)

lemma piece_text_length [simp]: "piece_ok b p \<Longrightarrow> length (piece_text b p) = pc_len p"
  by (auto simp: piece_ok_def piece_text_def substr_def min_def)

declare erase_go.simps(2) [simp del]

lemma pieces_text_length: "list_all (piece_ok b) ps \<Longrightarrow> length (pieces_text b ps) = pieces_size ps"
  by (induction ps) simp_all

lemma piece_text_split:
  "k \<le> pc_len p \<Longrightarrow> piece_text b (p\<lparr>pc_len := k\<rparr>) = take k (piece_text b p)"
  "piece_text b (p\<lparr>pc_off := pc_off p + k, pc_len := pc_len p - k\<rparr>) = drop k (piece_text b p)"
  by (simp_all add: piece_text_def piece_source_def substr_def min_absorb1 drop_take add.commute)

lemma piece_ok_split:
  "piece_ok b p \<Longrightarrow> 0 < k \<Longrightarrow> k \<le> pc_len p \<Longrightarrow> piece_ok b (p\<lparr>pc_len := k\<rparr>)"
  "piece_ok b p \<Longrightarrow> k < pc_len p \<Longrightarrow> piece_ok b (p\<lparr>pc_off := pc_off p + k, pc_len := pc_len p - k\<rparr>)"
  by (auto simp: piece_ok_def piece_source_def)

lemmas piece_split = piece_text_split piece_ok_split

text \<open>Appending to the add buffer moves nothing.\<close>

definition same_sources :: "'m text_buffer \<Rightarrow> 'm text_buffer \<Rightarrow> bool" where
  "same_sources b b' \<longleftrightarrow> tb_original b' = tb_original b \<and> (\<exists>s. tb_add b' = tb_add b @ s)"

lemma same_sources_piece:
  assumes "same_sources b b'" and "piece_ok b p"
  shows "piece_ok b' p \<and> piece_text b' p = piece_text b p"
  using assms by (auto simp: same_sources_def piece_ok_def piece_text_def piece_source_def substr_def)

lemma same_sources_pieces:
  assumes "same_sources b b'" and "list_all (piece_ok b) ps"
  shows "list_all (piece_ok b') ps \<and> pieces_text b' ps = pieces_text b ps"
  using assms(2) by (induction ps) (simp_all add: same_sources_piece [OF assms(1)])

section \<open>The loops on the pieces\<close>

lemma insert_go_text:
  assumes "list_all (piece_ok b) ps" and "piece_ok b np" and "pos \<le> off" and "off \<le> pos + pieces_size ps"
  shows "pieces_text b (insert_go np off pos ps)
      = take (off - pos) (pieces_text b ps) @ piece_text b np @ drop (off - pos) (pieces_text b ps)
    \<and> list_all (piece_ok b) (insert_go np off pos ps)
    \<and> pieces_size (insert_go np off pos ps) = pc_len np + pieces_size ps"
  using assms
proof (induction np off pos ps rule: insert_go.induct)
  case (2 np off pos p ps)
  define k where "k = off - pos"
  consider "off = pos" | "pos < off" "off < pos + pc_len p" | "pos < off" "pos + pc_len p \<le> off"
    using 2 by linarith
  then show ?case
  proof cases
    case 2
    then have k: "0 < k" "k < pc_len p" by (auto simp: k_def)
    then have "insert_go np off pos (p # ps)
      = p\<lparr>pc_len := k\<rparr> # np # p\<lparr>pc_off := pc_off p + k, pc_len := pc_len p - k\<rparr> # ps"
      using 2 by (simp add: k_def)
    moreover have "piece_ok b p" "list_all (piece_ok b) ps" "piece_ok b np" using "2.prems" by simp_all
    ultimately show ?thesis using k by (simp add: k_def [symmetric] piece_split)
  next
    case 3
    then show ?thesis using 2 by simp
  qed (use 2 in simp)
qed simp

lemma erase_go_text:
  assumes "list_all (piece_ok b) ps" and "off - pos + len \<le> pieces_size ps"
  shows "pieces_text b (erase_go off len pos ps)
      = take (off - pos) (pieces_text b ps) @ drop (off - pos + len) (pieces_text b ps)
    \<and> list_all (piece_ok b) (erase_go off len pos ps)
    \<and> pieces_size (erase_go off len pos ps) = pieces_size ps - len"
  using assms
proof (induction off len pos ps rule: erase_go.induct)
  case (2 off len pos p ps)
  have p: "piece_ok b p" "list_all (piece_ok b) ps" using "2.prems" by simp_all
  consider "len = 0" | "len \<noteq> 0" "pos + pc_len p \<le> off" | "len \<noteq> 0" "off < pos + pc_len p" by linarith
  then show ?case
  proof cases
    case 2
    then have "off - pos = pc_len p + (off - (pos + pc_len p))" by simp
    then show ?thesis using 2 "2.IH"(1) "2.prems" p by (simp add: erase_go.simps(2) [of off len pos p ps])
  next
    case 3
    define skip where "skip = (if off > pos then off - pos else 0)"
    define cut where "cut = min (pc_len p - skip) len"
    have skip: "skip = off - pos" "skip < pc_len p" using 3 p by (auto simp: skip_def piece_ok_def)
    have cut: "0 < cut" "cut \<le> len" "skip + cut \<le> pc_len p" using skip 3(1) by (auto simp: cut_def)
    let ?tail = "p\<lparr>pc_off := pc_off p + (skip + cut), pc_len := pc_len p - (skip + cut)\<rparr>"
    have eq: "erase_go off len pos (p # ps) =
        (if skip = 0 \<and> cut = pc_len p then erase_go off (len - cut) pos ps
         else if skip = 0
         then p\<lparr>pc_off := pc_off p + cut, pc_len := pc_len p - cut\<rparr> # erase_go off (len - cut) (pos + (pc_len p - cut)) ps
         else if skip + cut = pc_len p then p\<lparr>pc_len := skip\<rparr> # erase_go off (len - cut) (pos + skip) ps
         else p\<lparr>pc_len := skip\<rparr> # erase_go off (len - cut) (pos + skip) (?tail # ps))"
      using 3 unfolding skip_def cut_def by (simp add: erase_go.simps(2) [of off len pos p ps] Let_def)
    have last_cut: "cut = len" if "skip + cut \<noteq> pc_len p" using that skip by (auto simp: cut_def)
    have none: "erase_go off 0 q qs = qs" for q qs by (cases qs) (simp_all add: erase_go.simps(2))
    have sz: "len \<le> pc_len p - skip + pieces_size ps" using "2.prems" skip by simp
    have IHw: ?thesis if w: "skip = 0" "cut = pc_len p"
    proof -
      have len: "pc_len p \<le> len" using cut w by simp
      have "len - cut \<le> pieces_size ps" using sz w by simp
      then have "pieces_text b (erase_go off (len - cut) pos ps) = drop (len - cut) (pieces_text b ps)
          \<and> list_all (piece_ok b) (erase_go off (len - cut) pos ps)
          \<and> pieces_size (erase_go off (len - cut) pos ps) = pieces_size ps - (len - cut)"
        using "2.IH"(2) [OF 3(1) _ skip_def cut_def] 3 p w skip(1) by simp
      then show ?thesis using w len p by (simp add: eq skip(1) [symmetric])
    qed
    have IHb: ?thesis if w: "skip \<noteq> 0" "skip + cut = pc_len p"
    proof -
      have len: "pc_len p - skip \<le> len" "off - (pos + skip) = 0" using cut w skip by auto
      have "len - cut \<le> pieces_size ps" using sz w by simp
      then have "pieces_text b (erase_go off (len - cut) (pos + skip) ps) = drop (len - cut) (pieces_text b ps)
          \<and> list_all (piece_ok b) (erase_go off (len - cut) (pos + skip) ps)
          \<and> pieces_size (erase_go off (len - cut) (pos + skip) ps) = pieces_size ps - (len - cut)"
        using "2.IH"(4) [OF 3(1) _ skip_def cut_def] 3 p w len(2) by simp
      moreover have "erase_go off len pos (p # ps) = p\<lparr>pc_len := skip\<rparr> # erase_go off (len - cut) (pos + skip) ps"
        using eq w by simp
      moreover have "piece_text b (p\<lparr>pc_len := skip\<rparr>) = take skip (piece_text b p)" "piece_ok b (p\<lparr>pc_len := skip\<rparr>)"
        using p w skip by (simp_all add: piece_split)
      moreover have "skip + len - pc_len p = len - cut" "pc_len p \<le> skip + len" using w len by linarith+
      moreover have "pieces_size (p # ps) - len = skip + (pieces_size ps - (len - cut))"
        using w len cut sz by simp
      ultimately show ?thesis using p skip(2) by (simp add: skip(1) [symmetric])
    qed
    consider "skip + cut \<noteq> pc_len p" "skip = 0" | "skip + cut \<noteq> pc_len p" "skip \<noteq> 0" | "skip + cut = pc_len p"
      by blast
    then show ?thesis
    proof cases
      case 1
      then show ?thesis using last_cut cut p by (simp add: eq none piece_split skip(1) [symmetric])
    next
      case 2
      then show ?thesis using last_cut cut p by (simp add: eq none piece_split skip(1) [symmetric])
    next
      case 3
      then show ?thesis using IHw IHb by (cases "skip = 0") simp_all
    qed
  qed (use "2.prems" in \<open>simp add: erase_go.simps(2) del: take_append drop_append\<close>)
qed simp

lemma slice_go_text:
  assumes "list_all (piece_ok b) ps"
  shows "slice_go b off len pos ps = take len (drop (off - pos) (pieces_text b ps))"
  using assms
proof (induction b off len pos ps rule: slice_go.induct)
  case (2 b off len pos p ps)
  have p: "piece_ok b p" "list_all (piece_ok b) ps" using "2.prems" by simp_all
  show ?case
  proof (cases "len \<noteq> 0 \<and> off < pos + pc_len p")
    case True
    define skip where "skip = (if off > pos then off - pos else 0)"
    define cut where "cut = min (pc_len p - skip) len"
    have skip: "skip = off - pos" "skip < pc_len p" using True p by (auto simp: skip_def piece_ok_def)
    have head: "substr (piece_source b p) (pc_off p + skip) cut = take cut (drop skip (piece_text b p))"
      using skip by (simp add: piece_text_def substr_def cut_def drop_take add.commute min.commute)
    have IH: "slice_go b (off + cut) (len - cut) (pos + pc_len p) ps
        = take (len - cut) (drop (off + cut - (pos + pc_len p)) (pieces_text b ps))"
      using "2.IH"(1) [OF _ _ skip_def cut_def] True p by simp
    have "slice_go b off len pos (p # ps) = take cut (drop skip (piece_text b p))
        @ take (len - cut) (drop (off + cut - (pos + pc_len p)) (pieces_text b ps))"
      using True by (simp add: skip_def [symmetric] cut_def [symmetric] Let_def head IH)
    moreover have "off + cut - (pos + pc_len p) = 0"
      using skip by (auto simp: cut_def)
    ultimately have "slice_go b off len pos (p # ps) = take cut (drop skip (piece_text b p)) @ take (len - cut) (pieces_text b ps)"
      by simp
    moreover have "take len (drop skip (piece_text b p @ pieces_text b ps))
        = take len (drop skip (piece_text b p)) @ take (len - (pc_len p - skip)) (pieces_text b ps)"
      using skip p by simp
    moreover have "take cut (drop skip (piece_text b p)) = take len (drop skip (piece_text b p))"
      using p by (simp add: cut_def min_def)
    moreover have "len - cut = len - (pc_len p - skip)" by (simp add: cut_def min_def)
    ultimately show ?thesis by (simp add: skip(1) [symmetric])
  next
    case False
    show ?thesis
    proof (cases "len = 0")
      case False
      then have "off - pos = pc_len p + (off - (pos + pc_len p))" using \<open>\<not> (len \<noteq> 0 \<and> off < pos + pc_len p)\<close> by simp
      then show ?thesis using False \<open>\<not> (len \<noteq> 0 \<and> off < pos + pc_len p)\<close> "2.IH"(2) p by simp
    qed simp
  qed
qed simp

section \<open>Texts that are edited\<close>

text \<open>The contract of an editable text: an invariant, the text, insertion and deletion.\<close>

locale edit_text =
  fixes valid :: "'s \<Rightarrow> bool"
    and content :: "'s \<Rightarrow> string"
    and ins :: "nat \<Rightarrow> string \<Rightarrow> 's \<Rightarrow> 's"
    and del :: "nat \<Rightarrow> nat \<Rightarrow> 's \<Rightarrow> 's"
  assumes inv_ins: "valid s \<Longrightarrow> valid (ins off w s)"
    and inv_del: "valid s \<Longrightarrow> valid (del off n s)"
    and txt_ins: "valid s \<Longrightarrow> content (ins off w s) = take off (content s) @ w @ drop off (content s)"
    and txt_del: "valid s \<Longrightarrow> content (del off n s) = take off (content s) @ drop (off + n) (content s)"
begin

lemma del_ins_same: "valid s \<Longrightarrow> off \<le> length (content s) \<Longrightarrow> content (del off (length w) (ins off w s)) = content s"
  by (simp add: txt_del txt_ins inv_ins)

lemma ins_del_same:
  assumes "valid s"
  shows "content (ins off (take n (drop off (content s))) (del off n s)) = content s"
proof -
  have "take n (drop off (content s)) @ drop (off + n) (content s) = drop off (content s)"
    by (metis append_take_drop_id drop_drop add.commute)
  then show ?thesis
    using assms by (cases "off \<le> length (content s)") (simp_all add: txt_ins txt_del inv_del)
qed

lemma replace_text:
  assumes "valid s"
  shows "content (ins off w (del off n s)) = take off (content s) @ w @ drop (off + n) (content s)"
  using assms by (cases "off \<le> length (content s)") (simp_all add: txt_ins txt_del inv_del)

lemma replace_inv: "valid s \<Longrightarrow> valid (ins off w (del off n s))"
  by (intro inv_ins inv_del)

end

section \<open>The newline index\<close>

lemma piece_newlines_append:
  "piece_newlines pos (s @ t) = piece_newlines pos s @ piece_newlines (pos + length s) t"
  by (induction pos s rule: piece_newlines.induct) simp_all

lemma index_go_text:
  "list_all (piece_ok b) ps \<Longrightarrow> index_go b pos ps = piece_newlines pos (pieces_text b ps)"
  by (induction b pos ps rule: index_go.induct) (simp_all add: piece_newlines_append)

lemma piece_newlines_none: "CHR 0x0A \<notin> set s \<Longrightarrow> piece_newlines pos s = []"
  by (induction pos s rule: piece_newlines.induct) auto

lemma piece_newlines_range: "x \<in> set (piece_newlines pos s) \<Longrightarrow> pos \<le> x \<and> x < pos + length s"
  by (induction pos s rule: piece_newlines.induct) (auto split: if_splits)

text \<open>The lines of a text: a trailing unterminated stretch is a line.\<close>

function lines_of :: "string \<Rightarrow> string list" where
  "lines_of s =
     (if s = [] then []
      else takeWhile (\<lambda>c. c \<noteq> CHR 0x0A) s
           # lines_of (drop (Suc (length (takeWhile (\<lambda>c. c \<noteq> CHR 0x0A) s))) s))"
  by pat_completeness auto
termination by (relation "measure length") auto

declare lines_of.simps [simp del]

definition line_start :: "string list \<Rightarrow> nat \<Rightarrow> nat" where
  "line_start ls n = sum_list (map (\<lambda>l. Suc (length l)) (take n ls))"

lemma first_line [consumes 1, case_names ended unended]:
  assumes "s \<noteq> []"
  obtains (ended) l r where "s = l @ CHR 0x0A # r" "CHR 0x0A \<notin> set l" "lines_of s = l # lines_of r"
    "piece_newlines pos s = (pos + length l) # piece_newlines (pos + length l + 1) r"
  | (unended) "CHR 0x0A \<notin> set s" "lines_of s = [s]" "piece_newlines pos s = []"
proof (cases "CHR 0x0A \<in> set s")
  case True
  then obtain l r where s: "s = l @ CHR 0x0A # r" "CHR 0x0A \<notin> set l" by (meson split_list_first)
  have "takeWhile (\<lambda>c. c \<noteq> CHR 0x0A) s = l" using s by (subst s(1)) (auto simp: takeWhile_append)
  then have "lines_of s = l # lines_of (drop (Suc (length l)) s)" using assms by (subst lines_of.simps) simp
  then have "lines_of s = l # lines_of r" by (simp add: s(1))
  then show ?thesis using s ended by (simp add: piece_newlines_append piece_newlines_none)
next
  case False
  then have "takeWhile (\<lambda>c. c \<noteq> CHR 0x0A) s = s" by (auto simp: takeWhile_eq_all_conv)
  moreover from this have "drop (Suc (length (takeWhile (\<lambda>c. c \<noteq> CHR 0x0A) s))) s = []" by (metis drop_all le_SucI order_refl)
  ultimately have "lines_of s = [s]" using assms by (subst lines_of.simps) (simp only: lines_of.simps [of "[]"] if_True if_False simp_thms)
  then show ?thesis using False unended by (simp add: piece_newlines_none)
qed

lemma lines_of_count:
  "length (lines_of s) = length (piece_newlines pos s)
     + (if s \<noteq> [] \<and> (piece_newlines pos s = [] \<or> last (piece_newlines pos s) \<noteq> pos + length s - 1) then 1 else 0)"
proof (induction s arbitrary: pos rule: lines_of.induct)
  case (1 s)
  show ?case
  proof (cases "s = []")
    case False
    then show ?thesis
    proof (cases rule: first_line [where pos = pos])
      case (ended l r)
      have "takeWhile (\<lambda>c. c \<noteq> CHR 0x0A) s = l" using ended by (auto simp: takeWhile_append)
      then have dr: "drop (Suc (length (takeWhile (\<lambda>c. c \<noteq> CHR 0x0A) s))) s = r" using ended(1) by simp
      have IH: "length (lines_of r) = length (piece_newlines (pos + length l + 1) r)
          + (if r \<noteq> [] \<and> (piece_newlines (pos + length l + 1) r = []
              \<or> last (piece_newlines (pos + length l + 1) r) \<noteq> pos + length l + 1 + length r - 1) then 1 else 0)"
        using 1 [OF False, of "pos + length l + 1", unfolded dr] .
      have "s \<noteq> [] \<and> (piece_newlines pos s = [] \<or> last (piece_newlines pos s) \<noteq> pos + length s - 1)
        \<longleftrightarrow> r \<noteq> [] \<and> (piece_newlines (pos + length l + 1) r = []
              \<or> last (piece_newlines (pos + length l + 1) r) \<noteq> pos + length l + 1 + length r - 1)"
        using ended(1,4) by (cases "r = []") auto
      then show ?thesis using IH ended(3,4) by simp
    qed (use False in simp)
  qed (simp add: lines_of.simps)
qed

text \<open>Where a line begins and how long it is, read off the newline offsets.\<close>

lemma lines_of_span:
  assumes "n < length (lines_of s)"
  shows "(if n = 0 then pos else piece_newlines pos s ! (n - 1) + 1) = pos + line_start (lines_of s) n
    \<and> (if n < length (piece_newlines pos s) then piece_newlines pos s ! n else pos + length s)
      = pos + line_start (lines_of s) n + length (lines_of s ! n)"
  using assms
proof (induction s arbitrary: pos n rule: lines_of.induct)
  case (1 s)
  have s: "s \<noteq> []" using "1.prems" by (auto simp: lines_of.simps)
  then show ?case
  proof (cases rule: first_line [where pos = pos])
    case (ended l r)
    have tw: "takeWhile (\<lambda>c. c \<noteq> CHR 0x0A) s = l" using ended by (auto simp: takeWhile_append)
    show ?thesis
    proof (cases n)
      case 0
      then show ?thesis using ended by (simp add: line_start_def)
    next
      case (Suc m)
      have dr: "drop (Suc (length (takeWhile (\<lambda>c. c \<noteq> CHR 0x0A) s))) s = r" using ended(1) tw by simp
      have "m < length (lines_of r)" using "1.prems" ended(3) Suc by simp
      then have IH: "(if m = 0 then pos + length l + 1 else piece_newlines (pos + length l + 1) r ! (m - 1) + 1)
            = pos + length l + 1 + line_start (lines_of r) m
          \<and> (if m < length (piece_newlines (pos + length l + 1) r) then piece_newlines (pos + length l + 1) r ! m
             else pos + length l + 1 + length r)
            = pos + length l + 1 + line_start (lines_of r) m + length (lines_of r ! m)"
        using 1(1) [OF s, of m "pos + length l + 1", unfolded dr] by simp
      have "line_start (lines_of s) n = length l + 1 + line_start (lines_of r) m"
        using ended(3) Suc by (simp add: line_start_def)
      moreover have "length s = length l + 1 + length r" using ended(1) by simp
      ultimately show ?thesis
        using IH unfolding ended(3,4) Suc by (cases m) (auto simp del: lines_of.simps split: if_splits)
    qed
  next
    case unended
    then show ?thesis using "1.prems" by (simp add: line_start_def)
  qed
qed

lemma lower_bound_below: "lower_bound (piece_newlines pos s) (pos + k) = length (piece_newlines pos (take k s))"
proof (induction s arbitrary: pos k)
  case (Cons c s)
  show ?case
  proof (cases k)
    case 0
    then show ?thesis using piece_newlines_range [of _ pos "c # s"]
      by (cases "piece_newlines pos (c # s)") force+
  next
    case (Suc m)
    then show ?thesis using Cons.IH [of "Suc pos" m] by simp
  qed
qed simp

end
