(* ===== verification/TextDocument.thy ===== *)
theory TextDocument
  imports TextBufferProps
begin

text \<open>
  The abstract document behind the piece table: its text and the documents of its checkpoints.
  Every call of the buffer's interface acts on it as the call acts on the document, and
  answers what the document answers.
\<close>

section \<open>Well-formed buffers\<close>

definition entry_ok :: "'m text_buffer \<Rightarrow> 'm history_entry \<Rightarrow> bool" where
  "entry_ok b h \<longleftrightarrow> list_all (piece_ok b) (he_pieces h) \<and> he_size h = pieces_size (he_pieces h)"

definition buffer_wf :: "'m text_buffer \<Rightarrow> bool" where
  "buffer_wf b \<longleftrightarrow>
     list_all (piece_ok b) (tb_pieces b) \<and> tb_size b = pieces_size (tb_pieces b)
     \<and> (tb_nl_dirty b \<or> tb_nl b = piece_newlines 0 (buffer_text b))
     \<and> list_all (entry_ok b) (tb_history b) \<and> list_all (entry_ok b) (tb_redo b)"

lemma buffer_text_pieces: "buffer_text b = pieces_text b (tb_pieces b)"
  by (simp add: buffer_text_def pieces_text_def)

lemma buffer_wf_size: "buffer_wf b \<Longrightarrow> length (buffer_text b) = tb_size b"
  by (simp add: buffer_wf_def buffer_text_pieces pieces_text_length)

lemma buffer_wfD:
  assumes "buffer_wf b"
  shows "list_all (piece_ok b) (tb_pieces b)" "tb_size b = pieces_size (tb_pieces b)"
    "list_all (entry_ok b) (tb_history b)" "list_all (entry_ok b) (tb_redo b)"
  using assms by (simp_all add: buffer_wf_def)

text \<open>What the pieces denote depends on the two sources only.\<close>

lemma same_sources_refl: "same_sources b b"
  by (simp add: same_sources_def)

lemma same_sources_entries:
  assumes "same_sources b b'" and "list_all (entry_ok b) hs"
  shows "list_all (entry_ok b') hs"
    and "map (\<lambda>h. (pieces_text b' (he_pieces h), he_meta h)) hs = map (\<lambda>h. (pieces_text b (he_pieces h), he_meta h)) hs"
  using assms(2) same_sources_pieces [OF assms(1)]
  by (induction hs) (simp_all add: entry_ok_def)

lemma equal_sources:
  assumes "tb_original b' = tb_original b" and "tb_add b' = tb_add b"
  shows "piece_ok b' = piece_ok b" "pieces_text b' = pieces_text b" "entry_ok b' = entry_ok b"
proof -
  have "piece_text b' = piece_text b" using assms by (simp add: fun_eq_iff piece_text_def piece_source_def)
  then show "pieces_text b' = pieces_text b" by (simp add: pieces_text_def [abs_def])
  show "piece_ok b' = piece_ok b" using assms by (simp add: fun_eq_iff piece_ok_def piece_source_def)
  show "entry_ok b' = entry_ok b" using \<open>piece_ok b' = piece_ok b\<close> by (simp add: entry_ok_def [abs_def])
qed

section \<open>The document\<close>

record 'm document =
  doc_text :: string
  doc_undo :: "(string \<times> 'm) list"
  doc_redo :: "(string \<times> 'm) list"

definition entry_docs :: "'m text_buffer \<Rightarrow> 'm history_entry list \<Rightarrow> (string \<times> 'm) list" where
  "entry_docs b hs = map (\<lambda>h. (pieces_text b (he_pieces h), he_meta h)) hs"

definition buffer_doc :: "'m text_buffer \<Rightarrow> 'm document" where
  "buffer_doc b =
     \<lparr>doc_text = buffer_text b, doc_undo = entry_docs b (tb_history b), doc_redo = entry_docs b (tb_redo b)\<rparr>"

datatype 'm buffer_op =
  BLoad string | BInsert nat string | BErase nat nat | BReplace nat nat string
  | BCheckpoint 'm | BUndoPlain | BUndo 'm | BRedo 'm
  | BSlice nat nat | BFind nat string | BLineCount | BLineSpan nat | BLineOf nat

datatype 'm buffer_answer =
  ANone | AText string | AMeta "'m option" | ANat nat | ASpan "(nat \<times> nat) option" | AFind "nat option"

fun buffer_step :: "'m buffer_op \<Rightarrow> 'm text_buffer \<Rightarrow> 'm buffer_answer \<times> 'm text_buffer" where
  "buffer_step (BLoad s) b = (ANone, buffer_load s b)"
| "buffer_step (BInsert off s) b = (ANone, buffer_insert off s b)"
| "buffer_step (BErase off n) b = (ANone, buffer_erase off n b)"
| "buffer_step (BReplace off n s) b = (ANone, buffer_replace off n s b)"
| "buffer_step (BCheckpoint m) b = (ANone, buffer_checkpoint m b)"
| "buffer_step BUndoPlain b = map_prod AMeta id (buffer_undo_plain b)"
| "buffer_step (BUndo m) b = map_prod AMeta id (buffer_undo m b)"
| "buffer_step (BRedo m) b = map_prod AMeta id (buffer_redo m b)"
| "buffer_step (BSlice off n) b = (AText (buffer_slice off n b), b)"
| "buffer_step (BFind from w) b = (AFind (buffer_find from w b), b)"
| "buffer_step BLineCount b = map_prod ANat id (line_count b)"
| "buffer_step (BLineSpan n) b = map_prod ASpan id (line_span n b)"
| "buffer_step (BLineOf off) b = map_prod ANat id (line_of off b)"

text \<open>The same calls on the document.\<close>

definition pop_doc :: "'m document \<Rightarrow> (string \<times> 'm) list \<Rightarrow> 'm buffer_answer" where
  "pop_doc d st = AMeta (if st = [] then None else Some (snd (last st)))"

fun doc_step :: "'m buffer_op \<Rightarrow> 'm document \<Rightarrow> 'm buffer_answer \<times> 'm document" where
  "doc_step (BLoad s) d = (ANone, \<lparr>doc_text = s, doc_undo = [], doc_redo = []\<rparr>)"
| "doc_step (BInsert off s) d = (ANone, d\<lparr>doc_text := take off (doc_text d) @ s @ drop off (doc_text d)\<rparr>)"
| "doc_step (BErase off n) d = (ANone, d\<lparr>doc_text := take off (doc_text d) @ drop (off + n) (doc_text d)\<rparr>)"
| "doc_step (BReplace off n s) d =
     (ANone, d\<lparr>doc_text := take off (doc_text d) @ s @ drop (off + n) (doc_text d)\<rparr>)"
| "doc_step (BCheckpoint m) d = (ANone, d\<lparr>doc_undo := doc_undo d @ [(doc_text d, m)], doc_redo := []\<rparr>)"
| "doc_step BUndoPlain d =
     (pop_doc d (doc_undo d),
      if doc_undo d = [] then d\<lparr>doc_redo := []\<rparr>
      else \<lparr>doc_text = fst (last (doc_undo d)), doc_undo = butlast (doc_undo d), doc_redo = []\<rparr>)"
| "doc_step (BUndo m) d =
     (pop_doc d (doc_undo d),
      if doc_undo d = [] then d
      else \<lparr>doc_text = fst (last (doc_undo d)), doc_undo = butlast (doc_undo d),
            doc_redo = doc_redo d @ [(doc_text d, m)]\<rparr>)"
| "doc_step (BRedo m) d =
     (pop_doc d (doc_redo d),
      if doc_redo d = [] then d
      else \<lparr>doc_text = fst (last (doc_redo d)), doc_undo = doc_undo d @ [(doc_text d, m)],
            doc_redo = butlast (doc_redo d)\<rparr>)"
| "doc_step (BSlice off n) d = (AText (take n (drop off (doc_text d))), d)"
| "doc_step (BFind from w) d =
     (AFind (if w = [] \<or> length (doc_text d) \<le> from then None else str_find (doc_text d) w from), d)"
| "doc_step BLineCount d = (ANat (length (lines_of (doc_text d))), d)"
| "doc_step (BLineSpan n) d =
     (let ls = lines_of (doc_text d)
      in (ASpan (if n = 0 \<or> length ls < n then None else Some (line_start ls (n - 1), length (ls ! (n - 1)))), d))"
| "doc_step (BLineOf off) d = (ANat (1 + length (filter (\<lambda>c. c = CHR 0x0A) (take off (doc_text d)))), d)"

section \<open>Edits\<close>

lemma buffer_load_doc: "buffer_wf (buffer_load s b) \<and> buffer_doc (buffer_load s b) = \<lparr>doc_text = s, doc_undo = [], doc_redo = []\<rparr>"
  by (simp add: buffer_wf_def buffer_load_def buffer_doc_def entry_docs_def buffer_text_pieces
      piece_ok_def piece_source_def piece_text_def substr_def)

lemma buffer_insert_doc:
  assumes "buffer_wf b"
  shows "buffer_wf (buffer_insert off s b)
    \<and> buffer_doc (buffer_insert off s b)
      = (buffer_doc b)\<lparr>doc_text := take off (buffer_text b) @ s @ drop off (buffer_text b)\<rparr>"
proof (cases "s = []")
  case False
  let ?np = "\<lparr>pc_add = True, pc_off = length (tb_add b), pc_len = length s\<rparr>"
  let ?b = "buffer_insert off s b"
  have src: "same_sources b ?b" by (simp add: same_sources_def buffer_insert_def Let_def)
  have np: "piece_ok ?b ?np" "piece_text ?b ?np = s"
    using False by (simp_all add: piece_ok_def piece_text_def piece_source_def substr_def buffer_insert_def Let_def)
  have ok: "list_all (piece_ok ?b) (tb_pieces b)" "pieces_text ?b (tb_pieces b) = buffer_text b"
    using same_sources_pieces [OF src] buffer_wfD(1) [OF assms] by (simp_all add: buffer_text_pieces)
  have pieces: "tb_pieces ?b = insert_go ?np (min off (tb_size b)) 0 (tb_pieces b)"
    using False by (simp add: buffer_insert_def Let_def)
  note I = insert_go_text [OF ok(1) np(1), of 0 "min off (tb_size b)"]
  have "length (buffer_text b) = tb_size b" by (rule buffer_wf_size [OF assms])
  then have tx: "buffer_text ?b = take off (buffer_text b) @ s @ drop off (buffer_text b)"
    using I buffer_wfD(2) [OF assms] unfolding buffer_text_pieces [of ?b] pieces ok(2) np(2)
    by (cases "off \<le> tb_size b") (simp_all add: min_absorb1 min_absorb2)
  show ?thesis
    using I tx same_sources_entries [OF src buffer_wfD(3) [OF assms]] same_sources_entries [OF src buffer_wfD(4) [OF assms]]
      buffer_wfD(2) [OF assms] False
    by (simp add: buffer_wf_def buffer_doc_def entry_docs_def pieces) (simp add: buffer_insert_def Let_def)
qed (simp add: buffer_insert_def assms buffer_doc_def)

lemma buffer_erase_doc:
  assumes "buffer_wf b"
  shows "buffer_wf (buffer_erase off n b)
    \<and> buffer_doc (buffer_erase off n b)
      = (buffer_doc b)\<lparr>doc_text := take off (buffer_text b) @ drop (off + n) (buffer_text b)\<rparr>"
proof (cases "tb_size b \<le> off \<or> n = 0")
  case True
  then show ?thesis using assms buffer_wf_size [OF assms] by (auto simp: buffer_erase_def buffer_doc_def)
next
  case False
  let ?b = "buffer_erase off n b" and ?n = "min n (tb_size b - off)"
  note src = equal_sources [of ?b b]
  have same: "tb_original ?b = tb_original b" "tb_add ?b = tb_add b" "tb_history ?b = tb_history b" "tb_redo ?b = tb_redo b"
    and pieces: "tb_pieces ?b = erase_go off ?n 0 (tb_pieces b)" and sz: "tb_size ?b = tb_size b - ?n" and dirty: "tb_nl_dirty ?b"
    using False by (simp_all add: buffer_erase_def Let_def)
  have E: "pieces_text b (erase_go off ?n 0 (tb_pieces b)) = take off (buffer_text b) @ drop (off + ?n) (buffer_text b)
    \<and> list_all (piece_ok b) (erase_go off ?n 0 (tb_pieces b))
    \<and> pieces_size (erase_go off ?n 0 (tb_pieces b)) = tb_size b - ?n"
  proof -
    have "off - 0 + ?n \<le> pieces_size (tb_pieces b)" using False buffer_wfD(2) [OF assms] by (auto simp: min_def)
    from erase_go_text [OF buffer_wfD(1) [OF assms] this] show ?thesis
      using buffer_wfD(2) [OF assms] by (simp add: buffer_text_pieces)
  qed
  have "drop (off + ?n) (buffer_text b) = drop (off + n) (buffer_text b)"
    using buffer_wf_size [OF assms] by (auto simp: min_def)
  then have tx: "buffer_text ?b = take off (buffer_text b) @ drop (off + n) (buffer_text b)"
    using E unfolding buffer_text_pieces [of ?b] src(2) [OF same(1,2)] pieces by simp
  show ?thesis
    using E tx assms
    by (simp add: buffer_wf_def buffer_doc_def entry_docs_def src [OF same(1,2)] same(3,4) pieces sz dirty)
qed

text \<open>The piece table is an editable text.\<close>

interpretation pt: edit_text buffer_wf buffer_text buffer_insert buffer_erase
proof
  fix b :: "'m text_buffer" and off n :: nat and w :: string
  assume b: "buffer_wf b"
  show "buffer_wf (buffer_insert off w b)" "buffer_wf (buffer_erase off n b)"
    using buffer_insert_doc [OF b] buffer_erase_doc [OF b] by simp_all
  show "buffer_text (buffer_insert off w b) = take off (buffer_text b) @ w @ drop off (buffer_text b)"
    using buffer_insert_doc [OF b, of off w] by (simp add: buffer_doc_def)
  show "buffer_text (buffer_erase off n b) = take off (buffer_text b) @ drop (off + n) (buffer_text b)"
    using buffer_erase_doc [OF b, of off n] by (simp add: buffer_doc_def)
qed


lemma buffer_replace_doc:
  assumes "buffer_wf b"
  shows "buffer_wf (buffer_replace off n w b)
    \<and> buffer_doc (buffer_replace off n w b)
      = (buffer_doc b)\<lparr>doc_text := take off (buffer_text b) @ w @ drop (off + n) (buffer_text b)\<rparr>"
proof -
  let ?b = "buffer_insert off w (buffer_erase off n b)" and ?r = "buffer_replace off n w b"
  have eq: "tb_original ?r = tb_original ?b" "tb_add ?r = tb_add ?b" "tb_pieces ?r = tb_pieces ?b" "tb_size ?r = tb_size ?b"
    "tb_nl ?r = tb_nl ?b" "tb_nl_dirty ?r = tb_nl_dirty ?b" "tb_history ?r = tb_history ?b" "tb_redo ?r = tb_redo ?b"
    by (simp_all add: buffer_replace_def Let_def)
  have "buffer_wf ?b" by (rule pt.replace_inv [OF assms])
  moreover have "buffer_text ?b = take off (buffer_text b) @ w @ drop (off + n) (buffer_text b)"
    by (rule pt.replace_text [OF assms])
  moreover have "buffer_doc ?b = (buffer_doc b)\<lparr>doc_text := buffer_text ?b\<rparr>"
    using buffer_insert_doc [OF pt.inv_del [OF assms, of off n], of off w] buffer_erase_doc [OF assms, of off n]
    by (auto simp: buffer_doc_def)
  ultimately show ?thesis
    by (simp add: buffer_wf_def buffer_doc_def entry_docs_def buffer_text_pieces eq equal_sources [OF eq(1,2)])
qed

section \<open>History\<close>

lemma restore_entry_doc:
  assumes "list_all (piece_ok b) (tb_pieces b)" and "entry_ok b h"
    and "list_all (entry_ok b) hs" and "list_all (entry_ok b) rs"
  shows "buffer_wf ((restore_entry h b)\<lparr>tb_history := hs, tb_redo := rs\<rparr>)
    \<and> buffer_doc ((restore_entry h b)\<lparr>tb_history := hs, tb_redo := rs\<rparr>)
      = \<lparr>doc_text = pieces_text b (he_pieces h), doc_undo = entry_docs b hs, doc_redo = entry_docs b rs\<rparr>"
proof -
  let ?r = "(restore_entry h b)\<lparr>tb_history := hs, tb_redo := rs\<rparr>"
  have src: "tb_original ?r = tb_original b" "tb_add ?r = tb_add b" by (simp_all add: restore_entry_def)
  show ?thesis
    using assms by (simp add: buffer_wf_def buffer_doc_def entry_docs_def buffer_text_pieces equal_sources [OF src])
      (simp add: restore_entry_def entry_ok_def)
qed

lemma pushed_entry:
  assumes "buffer_wf b"
  shows "list_all (entry_ok b) hs \<Longrightarrow> list_all (entry_ok b) (push_entry m b hs)"
    and "entry_docs b (push_entry m b hs) = entry_docs b hs @ [(buffer_text b, m)]"
  using buffer_wfD(1,2) [OF assms] by (simp_all add: push_entry_def entry_ok_def entry_docs_def buffer_text_pieces)

lemma entry_docs_last:
  assumes "hs \<noteq> []"
  shows "entry_docs b hs \<noteq> []" "fst (last (entry_docs b hs)) = pieces_text b (he_pieces (last hs))"
    "snd (last (entry_docs b hs)) = he_meta (last hs)" "butlast (entry_docs b hs) = entry_docs b (butlast hs)"
  using assms by (simp_all add: entry_docs_def last_map map_butlast)

lemma list_all_last: "list_all P xs \<Longrightarrow> xs \<noteq> [] \<Longrightarrow> P (last xs) \<and> list_all P (butlast xs)"
  by (auto simp: list_all_iff dest: in_set_butlastD)

lemma buffer_checkpoint_doc:
  assumes "buffer_wf b"
  shows "buffer_wf (buffer_checkpoint m b)
    \<and> buffer_doc (buffer_checkpoint m b) = (buffer_doc b)\<lparr>doc_undo := doc_undo (buffer_doc b) @ [(buffer_text b, m)], doc_redo := []\<rparr>"
proof -
  let ?r = "buffer_checkpoint m b"
  have src: "tb_original ?r = tb_original b" "tb_add ?r = tb_add b" by (simp_all add: buffer_checkpoint_def)
  have H: "tb_history ?r = push_entry m b (tb_history b)" "tb_redo ?r = []" "tb_pieces ?r = tb_pieces b" "tb_size ?r = tb_size b"
    "tb_nl ?r = tb_nl b" "tb_nl_dirty ?r = tb_nl_dirty b"
    by (simp_all add: buffer_checkpoint_def)
  show ?thesis
    using assms pushed_entry [OF assms] unfolding buffer_wf_def buffer_doc_def buffer_text_pieces H equal_sources [OF src]
    by (simp add: entry_docs_def equal_sources [OF src])
qed

text \<open>The three ways back and forth, over the stack popped and the stack pushed on.\<close>

lemma buffer_undo_plain_doc:
  assumes "buffer_wf b"
  shows "case buffer_undo_plain b of (a, b') \<Rightarrow> buffer_wf b' \<and> doc_step BUndoPlain (buffer_doc b) = (AMeta a, buffer_doc b')"
proof (cases "tb_history b = []")
  case True
  have src: "tb_original (b\<lparr>tb_redo := []\<rparr>) = tb_original b" "tb_add (b\<lparr>tb_redo := []\<rparr>) = tb_add b" by simp_all
  show ?thesis
    using True assms by (simp add: buffer_undo_plain_def Let_def buffer_wf_def buffer_doc_def buffer_text_pieces
        entry_docs_def equal_sources [OF src] pop_doc_def)
next
  case False
  let ?b = "b\<lparr>tb_redo := []\<rparr>" and ?h = "last (tb_history b)"
  have src: "tb_original ?b = tb_original b" "tb_add ?b = tb_add b" by simp_all
  have R: "(restore_entry ?h ?b)\<lparr>tb_history := butlast (tb_history b)\<rparr>
      = (restore_entry ?h b)\<lparr>tb_history := butlast (tb_history b), tb_redo := []\<rparr>"
    by (simp add: restore_entry_def)
  have L: "entry_ok b ?h" "list_all (entry_ok b) (butlast (tb_history b))"
    using list_all_last [OF buffer_wfD(3) [OF assms] False] by simp_all
  note restore_entry_doc [OF buffer_wfD(1) [OF assms] L, of "[]"]
  then show ?thesis
    using False unfolding buffer_undo_plain_def by (simp add: R pop_doc_def buffer_doc_def entry_docs_last)
      (simp add: entry_docs_def)
qed

lemma buffer_undo_doc:
  assumes "buffer_wf b"
  shows "case buffer_undo m b of (a, b') \<Rightarrow> buffer_wf b' \<and> doc_step (BUndo m) (buffer_doc b) = (AMeta a, buffer_doc b')"
proof (cases "tb_history b = []")
  case False
  let ?h = "last (tb_history b)" and ?rs = "push_entry m b (tb_redo b)"
  have R: "(restore_entry ?h (b\<lparr>tb_redo := ?rs\<rparr>))\<lparr>tb_history := butlast (tb_history b)\<rparr>
      = (restore_entry ?h b)\<lparr>tb_history := butlast (tb_history b), tb_redo := ?rs\<rparr>"
    by (simp add: restore_entry_def)
  have L: "entry_ok b ?h" "list_all (entry_ok b) (butlast (tb_history b))"
    using list_all_last [OF buffer_wfD(3) [OF assms] False] by simp_all
  note restore_entry_doc [OF buffer_wfD(1) [OF assms] L pushed_entry(1) [OF assms buffer_wfD(4) [OF assms]], of m]
  then show ?thesis
    using False unfolding buffer_undo_def
    by (simp add: R pop_doc_def buffer_doc_def entry_docs_last pushed_entry(2) [OF assms])
qed (simp add: buffer_undo_def assms pop_doc_def buffer_doc_def entry_docs_def)

lemma buffer_redo_doc:
  assumes "buffer_wf b"
  shows "case buffer_redo m b of (a, b') \<Rightarrow> buffer_wf b' \<and> doc_step (BRedo m) (buffer_doc b) = (AMeta a, buffer_doc b')"
proof (cases "tb_redo b = []")
  case False
  let ?h = "last (tb_redo b)" and ?hs = "push_entry m b (tb_history b)"
  have R: "(restore_entry ?h (b\<lparr>tb_history := ?hs\<rparr>))\<lparr>tb_redo := butlast (tb_redo b)\<rparr>
      = (restore_entry ?h b)\<lparr>tb_history := ?hs, tb_redo := butlast (tb_redo b)\<rparr>"
    by (simp add: restore_entry_def)
  have L: "entry_ok b ?h" "list_all (entry_ok b) (butlast (tb_redo b))"
    using list_all_last [OF buffer_wfD(4) [OF assms] False] by simp_all
  note restore_entry_doc [OF buffer_wfD(1) [OF assms] L(1) pushed_entry(1) [OF assms buffer_wfD(3) [OF assms], of m] L(2)]
  then show ?thesis
    using False unfolding buffer_redo_def
    by (simp add: R pop_doc_def buffer_doc_def entry_docs_last pushed_entry(2) [OF assms])
qed (simp add: buffer_redo_def assms pop_doc_def buffer_doc_def entry_docs_def)

section \<open>Queries\<close>

lemma buffer_slice_text:
  assumes "buffer_wf b"
  shows "buffer_slice off n b = take n (drop off (buffer_text b))"
proof (cases "tb_size b \<le> off")
  case False
  then show ?thesis
    using slice_go_text [OF buffer_wfD(1) [OF assms], of off "min n (tb_size b - off)" 0] buffer_wf_size [OF assms]
    by (auto simp: buffer_slice_def buffer_text_pieces min_def)
qed (simp add: buffer_slice_def buffer_wf_size [OF assms])

lemma newline_index_doc:
  assumes "buffer_wf b"
  shows "buffer_wf (newline_index b)" "buffer_doc (newline_index b) = buffer_doc b"
    "tb_nl (newline_index b) = piece_newlines 0 (buffer_text b)" "tb_size (newline_index b) = length (buffer_text b)"
    "tb_version (newline_index b) = tb_version b"
proof -
  let ?i = "newline_index b"
  have src: "tb_original ?i = tb_original b" "tb_add ?i = tb_add b" by (simp_all add: newline_index_def)
  have H: "tb_history ?i = tb_history b" "tb_redo ?i = tb_redo b" "tb_pieces ?i = tb_pieces b" "tb_size ?i = tb_size b"
    by (simp_all add: newline_index_def)
  show nl: "tb_nl ?i = piece_newlines 0 (buffer_text b)"
    using assms index_go_text [OF buffer_wfD(1) [OF assms], of 0]
    by (auto simp: newline_index_def buffer_wf_def buffer_text_pieces)
  show "buffer_wf ?i" "buffer_doc ?i = buffer_doc b"
    using assms nl by (simp_all add: buffer_wf_def buffer_doc_def buffer_text_pieces entry_docs_def H equal_sources [OF src])
  show "tb_size ?i = length (buffer_text b)" using H(4) buffer_wf_size [OF assms] by simp
  show "tb_version ?i = tb_version b" by (simp add: newline_index_def)
qed

lemma line_count_text:
  assumes "buffer_wf b"
  shows "line_count b = (length (lines_of (buffer_text b)), newline_index b)"
  using lines_of_count [of "buffer_text b" 0]
  by (auto simp: line_count_def Let_def trailing_span_def newline_index_doc(3,4) [OF assms])

lemma line_span_text:
  assumes "buffer_wf b"
  shows "line_span n b =
    (if n = 0 \<or> length (lines_of (buffer_text b)) < n then None
     else Some (line_start (lines_of (buffer_text b)) (n - 1), length (lines_of (buffer_text b) ! (n - 1))), newline_index b)"
proof -
  let ?t = "buffer_text b" and ?nl = "piece_newlines 0 (buffer_text b)"
  have count: "length ?nl + (if trailing_span (newline_index b) then 1 else 0) = length (lines_of ?t)"
    using lines_of_count [of ?t 0] by (auto simp: trailing_span_def newline_index_doc(3,4) [OF assms])
  have "Some (if n = 1 then 0 else ?nl ! (n - 2) + 1,
       (if n - 1 < length ?nl then ?nl ! (n - 1) else length ?t) - (if n = 1 then 0 else ?nl ! (n - 2) + 1))
     = Some (line_start (lines_of ?t) (n - 1), length (lines_of ?t ! (n - 1)))" if k: "n \<noteq> 0" "n \<le> length (lines_of ?t)"
  proof -
    obtain m where m: "n = Suc m" using k(1) by (cases n) auto
    have "m - Suc 0 = n - 2" using m by simp
    then show ?thesis using lines_of_span [of m ?t 0] k(2) m by auto
  qed
  then show ?thesis
    unfolding line_span_def Let_def count newline_index_doc(3,4) [OF assms] by auto
qed

lemma piece_newlines_count: "length (piece_newlines pos s) = length (filter (\<lambda>c. c = CHR 0x0A) s)"
  by (induction pos s rule: piece_newlines.induct) simp_all

lemma line_of_text:
  assumes "buffer_wf b"
  shows "line_of off b = (1 + length (filter (\<lambda>c. c = CHR 0x0A) (take off (buffer_text b))), newline_index b)"
  using lower_bound_below [of 0 "buffer_text b" "min off (length (buffer_text b))"]
    take_take [of off "length (buffer_text b)" "buffer_text b"]
  by (simp add: line_of_def Let_def newline_index_doc(3,4) [OF assms] piece_newlines_count min.commute del: take_take)

section \<open>Runs\<close>

definition buffer_run :: "'m buffer_op list \<Rightarrow> 'm text_buffer \<Rightarrow> 'm text_buffer" where
  "buffer_run cs b = foldl (\<lambda>b c. snd (buffer_step c b)) b cs"

definition doc_run :: "'m buffer_op list \<Rightarrow> 'm document \<Rightarrow> 'm document" where
  "doc_run cs d = foldl (\<lambda>d c. snd (doc_step c d)) d cs"

text \<open>The calls that leave the stacks alone.\<close>

definition edits_only :: "'m buffer_op \<Rightarrow> bool" where
  "edits_only c \<longleftrightarrow>
     (case c of BLoad _ \<Rightarrow> False | BCheckpoint _ \<Rightarrow> False | BUndoPlain \<Rightarrow> False | BUndo _ \<Rightarrow> False
      | BRedo _ \<Rightarrow> False | _ \<Rightarrow> True)"

lemma buffer_step_doc:
  assumes "buffer_wf b"
  shows "buffer_wf (snd (buffer_step c b))
    \<and> doc_step c (buffer_doc b) = (fst (buffer_step c b), buffer_doc (snd (buffer_step c b)))"
proof -
  have tx: "doc_text (buffer_doc b) = buffer_text b" by (simp add: buffer_doc_def)
  show ?thesis
  proof (cases c)
    case BUndoPlain
    then show ?thesis using buffer_undo_plain_doc [OF assms] by (auto split: prod.splits)
  next
    case (BUndo m)
    then show ?thesis using buffer_undo_doc [OF assms, of m] by (auto split: prod.splits)
  next
    case (BRedo m)
    then show ?thesis using buffer_redo_doc [OF assms, of m] by (auto split: prod.splits)
  next
    case (BLineSpan n)
    then show ?thesis by (simp add: line_span_text [OF assms] newline_index_doc [OF assms] Let_def tx)
  qed (simp_all add: tx assms buffer_load_doc buffer_insert_doc buffer_erase_doc buffer_replace_doc buffer_checkpoint_doc
      buffer_slice_text buffer_find_def buffer_wf_size line_count_text line_of_text newline_index_doc)
qed

lemma buffer_step_cases:
  assumes "buffer_wf b"
  shows "buffer_wf (snd (buffer_step c b))" "buffer_doc (snd (buffer_step c b)) = snd (doc_step c (buffer_doc b))"
  using buffer_step_doc [OF assms, of c] by simp_all

lemma buffer_run_refines:
  assumes "buffer_wf b"
  shows "buffer_wf (buffer_run cs b) \<and> buffer_doc (buffer_run cs b) = doc_run cs (buffer_doc b)"
  using assms
proof (induction cs arbitrary: b)
  case (Cons c cs)
  from Cons.IH [OF buffer_step_cases(1) [OF Cons.prems, of c]] show ?case
    by (simp add: buffer_run_def doc_run_def buffer_step_cases(2) [OF Cons.prems])
qed (simp add: buffer_run_def doc_run_def)

primrec buffer_answers :: "'m buffer_op list \<Rightarrow> 'm text_buffer \<Rightarrow> 'm buffer_answer list" where
  "buffer_answers [] b = []"
| "buffer_answers (c # cs) b = fst (buffer_step c b) # buffer_answers cs (snd (buffer_step c b))"

primrec doc_answers :: "'m buffer_op list \<Rightarrow> 'm document \<Rightarrow> 'm buffer_answer list" where
  "doc_answers [] d = []"
| "doc_answers (c # cs) d = fst (doc_step c d) # doc_answers cs (snd (doc_step c d))"

lemma buffer_answers_doc: "buffer_wf b \<Longrightarrow> buffer_answers cs b = doc_answers cs (buffer_doc b)"
proof (induction cs arbitrary: b)
  case (Cons c cs)
  then show ?case using buffer_step_doc [OF Cons.prems, of c] by simp
qed simp

lemma buffer_new_doc:
  "buffer_wf text_buffer_new" "buffer_doc text_buffer_new = \<lparr>doc_text = [], doc_undo = [], doc_redo = []\<rparr>"
  by (simp_all add: buffer_wf_def buffer_doc_def text_buffer_new_def buffer_text_def entry_docs_def)

lemma edits_keep_stacks:
  "list_all edits_only cs \<Longrightarrow> doc_undo (doc_run cs d) = doc_undo d \<and> doc_redo (doc_run cs d) = doc_redo d"
proof (induction cs arbitrary: d)
  case (Cons c cs)
  have "doc_undo (snd (doc_step c d)) = doc_undo d \<and> doc_redo (snd (doc_step c d)) = doc_redo d"
    using Cons.prems by (cases c) (simp_all add: edits_only_def Let_def)
  then show ?case using Cons by (simp add: doc_run_def)
qed (simp add: doc_run_def)

text \<open>A step moves the version by at most two, and leaves the text when it leaves the version.\<close>

lemma buffer_step_version:
  assumes "buffer_wf b"
  shows "\<exists>k \<le> 2. tb_version (snd (buffer_step c b)) = tb_version b + of_nat k
    \<and> (k = 0 \<longrightarrow> buffer_text (snd (buffer_step c b)) = buffer_text b)"
proof -
  have ins: "buffer_insert off w x = x \<or> tb_version (buffer_insert off w x) = tb_version x + 1" for off w and x :: "'a text_buffer"
    by (simp add: buffer_insert_def Let_def)
  have del: "buffer_erase off n x = x \<or> tb_version (buffer_erase off n x) = tb_version x + 1" for off n and x :: "'a text_buffer"
    by (simp add: buffer_erase_def Let_def)
  have same: "?thesis" if "tb_version (snd (buffer_step c b)) = tb_version b" "buffer_text (snd (buffer_step c b)) = buffer_text b"
    using that by (intro exI [of _ 0]) simp
  have one: "?thesis" if "tb_version (snd (buffer_step c b)) = tb_version b + 1"
    using that by (intro exI [of _ 1]) simp
  have two: "?thesis" if "tb_version (snd (buffer_step c b)) = tb_version b + 2"
    using that by (intro exI [of _ 2]) simp
  have index: "buffer_text (newline_index b) = buffer_text b" "tb_version (newline_index b) = tb_version b"
    using newline_index_doc [OF assms] by (simp_all add: buffer_doc_def)
  have redo_text: "buffer_text (b\<lparr>tb_redo := r\<rparr>) = buffer_text b" "buffer_text (b\<lparr>tb_redo := r, tb_history := h\<rparr>) = buffer_text b" for r h
    using equal_sources(2) [of "b\<lparr>tb_redo := r\<rparr>" b] equal_sources(2) [of "b\<lparr>tb_redo := r, tb_history := h\<rparr>" b]
    by (simp_all add: buffer_text_pieces)
  have steps_back: "tb_version (snd (buffer_undo_plain b)) = tb_version b + 1 \<or> snd (buffer_undo_plain b) = b\<lparr>tb_redo := []\<rparr>"
    "tb_version (snd (buffer_undo m b)) = tb_version b + 1 \<or> snd (buffer_undo m b) = b"
    "tb_version (snd (buffer_redo m b)) = tb_version b + 1 \<or> snd (buffer_redo m b) = b" for m
    by (simp_all add: buffer_undo_plain_def buffer_undo_def buffer_redo_def restore_entry_def Let_def)
  show ?thesis
  proof (cases c)
    case (BReplace off n w)
    show ?thesis
    proof (cases "buffer_erase off n b = b \<and> buffer_insert off w b = b")
      case True
      then show ?thesis by (intro same) (simp_all add: BReplace buffer_replace_def)
    next
      case False
      then have "tb_version (snd (buffer_step c b)) = tb_version b + 1 \<or> tb_version (snd (buffer_step c b)) = tb_version b + 2"
        using del [of off n b] ins [of off w "buffer_erase off n b"]
        by (auto simp: BReplace buffer_replace_def Let_def add.assoc)
      then show ?thesis using one two by blast
    qed
  next
    case (BInsert off w)
    then show ?thesis using ins [of off w b] one same by auto
  next
    case (BErase off n)
    then show ?thesis using del [of off n b] one same by auto
  next
    case (BLoad s)
    then show ?thesis by (intro one) (simp add: buffer_load_def)
  next
    case (BCheckpoint m)
    then show ?thesis by (intro same) (simp_all add: buffer_checkpoint_def redo_text)
  next
    case BUndoPlain
    then show ?thesis using steps_back(1) one same redo_text(1) by fastforce
  next
    case (BUndo m)
    then show ?thesis using steps_back(2) [of m] one same by fastforce
  next
    case (BRedo m)
    then show ?thesis using steps_back(3) [of m] one same by fastforce
  qed (auto intro: same simp: Let_def line_count_def line_span_def line_of_def index)
qed

lemma buffer_run_version:
  assumes "buffer_wf b"
  shows "\<exists>k \<le> 2 * length cs. tb_version (buffer_run cs b) = tb_version b + of_nat k
    \<and> (k = 0 \<longrightarrow> buffer_text (buffer_run cs b) = buffer_text b)"
  using assms
proof (induction cs arbitrary: b)
  case (Cons c cs)
  let ?b = "snd (buffer_step c b)"
  obtain j where j: "j \<le> 2" "tb_version ?b = tb_version b + of_nat j" "j = 0 \<Longrightarrow> buffer_text ?b = buffer_text b"
    using buffer_step_version [OF Cons.prems, of c] by blast
  obtain k where k: "k \<le> 2 * length cs" "tb_version (buffer_run cs ?b) = tb_version ?b + of_nat k"
    "k = 0 \<Longrightarrow> buffer_text (buffer_run cs ?b) = buffer_text ?b"
    using Cons.IH [OF buffer_step_cases(1) [OF Cons.prems, of c]] by blast
  show ?case
    using j k by (intro exI [of _ "j + k"]) (simp add: buffer_run_def)
qed (simp add: buffer_run_def)

section \<open>Properties\<close>

text \<open>
  C13: the piece table refines the document.  Whatever is called on a new buffer, each call
  answers what it answers on the document, and in the end the buffer is the document's.
\<close>

theorem buffer_refines_document:
  "buffer_answers cs (text_buffer_new :: 'm text_buffer) = doc_answers cs \<lparr>doc_text = [], doc_undo = [], doc_redo = []\<rparr>
   \<and> buffer_doc (buffer_run cs (text_buffer_new :: 'm text_buffer)) = doc_run cs \<lparr>doc_text = [], doc_undo = [], doc_redo = []\<rparr>"
  using buffer_answers_doc [OF buffer_new_doc(1), of cs] buffer_run_refines [OF buffer_new_doc(1), of cs]
  by (simp add: buffer_new_doc(2))

text \<open>
  C16: undo and redo.  After a checkpoint and any edits and queries, undo brings back the text
  and the payload of the checkpoint, and redo then brings back the edited text with the payload
  it was left with.
\<close>

theorem buffer_undo_redo:
  assumes "buffer_wf b" and "list_all edits_only cs"
    and "edited = buffer_run cs (buffer_checkpoint m b)"
  shows "fst (buffer_undo now edited) = Some m
    \<and> buffer_text (snd (buffer_undo now edited)) = buffer_text b
    \<and> fst (buffer_redo later (snd (buffer_undo now edited))) = Some now
    \<and> buffer_text (snd (buffer_redo later (snd (buffer_undo now edited)))) = buffer_text edited"
proof -
  let ?u = "buffer_undo now edited" and ?d = "buffer_doc edited"
  have wf: "buffer_wf edited"
    and d: "?d = doc_run cs ((buffer_doc b)\<lparr>doc_undo := doc_undo (buffer_doc b) @ [(buffer_text b, m)], doc_redo := []\<rparr>)"
    using buffer_run_refines [of "buffer_checkpoint m b" cs] buffer_checkpoint_doc [OF assms(1), of m] assms(3) by simp_all
  have st: "doc_undo ?d = doc_undo (buffer_doc b) @ [(buffer_text b, m)]" "doc_redo ?d = []"
    using edits_keep_stacks [OF assms(2)] by (simp_all add: d)
  have U: "buffer_wf (snd ?u)" "doc_step (BUndo now) ?d = (AMeta (fst ?u), buffer_doc (snd ?u))"
    using buffer_undo_doc [OF wf, of now] by (simp_all add: case_prod_beta)
  then have u: "fst ?u = Some m" "buffer_doc (snd ?u) = \<lparr>doc_text = buffer_text b, doc_undo = doc_undo (buffer_doc b),
      doc_redo = [(buffer_text edited, now)]\<rparr>"
    by (auto simp: st pop_doc_def) (simp add: buffer_doc_def)
  have "doc_step (BRedo later) (buffer_doc (snd ?u))
      = (AMeta (fst (buffer_redo later (snd ?u))), buffer_doc (snd (buffer_redo later (snd ?u))))"
    using buffer_redo_doc [OF U(1), of later] by (simp add: case_prod_beta)
  then show ?thesis using u by (auto simp: pop_doc_def) (auto simp: buffer_doc_def)
qed

theorem buffer_undo_redo_witness:
  "fst (buffer_undo (7::nat) (buffer_run [BInsert 1 ''b'', BErase 0 1] (buffer_checkpoint 5 (buffer_load ''ac'' (text_buffer_new :: nat text_buffer))))) = Some 5
   \<and> buffer_text (snd (buffer_undo 7 (buffer_run [BInsert 1 ''b'', BErase 0 1] (buffer_checkpoint 5 (buffer_load ''ac'' (text_buffer_new :: nat text_buffer)))))) = ''ac''"
proof -
  let ?b = "buffer_load ''ac'' (text_buffer_new :: nat text_buffer)"
  have b: "buffer_wf ?b" "buffer_text ?b = ''ac''"
    using buffer_load_doc [of "''ac''" "text_buffer_new :: nat text_buffer"] by (simp_all add: buffer_doc_def)
  have "list_all edits_only [BInsert 1 ''b'', BErase 0 1 :: nat buffer_op]" by (simp add: edits_only_def)
  from buffer_undo_redo [OF b(1) this refl, of 7 5 0] show ?thesis by (simp add: b(2))
qed

text \<open>
  The version tells documents apart.  While fewer than \<open>2 ^ 63\<close> calls have been made, a
  mirror that finds the version it was made from finds the text it was made from.
\<close>

theorem buffer_version_in_sync:
  assumes "buffer_wf b" and "length cs < 2 ^ 63" and "tb_version (buffer_run cs b) = tb_version b"
  shows "buffer_text (buffer_run cs b) = buffer_text b"
proof -
  obtain k where k: "k \<le> 2 * length cs" "tb_version (buffer_run cs b) = tb_version b + of_nat k"
    "k = 0 \<Longrightarrow> buffer_text (buffer_run cs b) = buffer_text b"
    using buffer_run_version [OF assms(1), of cs] by blast
  have "(of_nat k :: 64 word) = 0" using k(2) assms(3) by simp
  then have "2 ^ 64 dvd k" by (simp add: word_of_nat_eq_0_iff)
  moreover have "k < 2 ^ 64" using k(1) assms(2) by simp
  ultimately have "k = 0" by (metis nat_dvd_not_less gr0I)
  then show ?thesis by (rule k(3))
qed

theorem buffer_version_in_sync_witness:
  "buffer_text (buffer_run [BErase 9 1, BInsert 0 [], BLineCount] (buffer_load ''ac'' (text_buffer_new :: nat text_buffer))) = ''ac''"
proof -
  let ?b = "buffer_load ''ac'' (text_buffer_new :: nat text_buffer)"
  let ?cs = "[BErase 9 1, BInsert 0 [], BLineCount :: nat buffer_op]"
  have b: "buffer_wf ?b" "buffer_text ?b = ''ac''"
    using buffer_load_doc [of "''ac''" "text_buffer_new :: nat text_buffer"] by (simp_all add: buffer_doc_def)
  have "tb_version (buffer_run ?cs ?b) = tb_version ?b"
    by (simp add: buffer_run_def buffer_load_def buffer_erase_def buffer_insert_def line_count_def newline_index_def Let_def)
  then show ?thesis using buffer_version_in_sync [OF b(1), of ?cs] by (simp add: b(2))
qed

text \<open>
  The lines of a buffer.  The line an offset belongs to contains it: the line exists, and
  the offset is in its span or at the new-line that ends it.
\<close>

lemma newlines_before_line:
  "off < length s \<Longrightarrow> \<exists>n < length (lines_of s). length (filter (\<lambda>c. c = CHR 0x0A) (take off s)) = n
     \<and> line_start (lines_of s) n \<le> off \<and> off \<le> line_start (lines_of s) n + length (lines_of s ! n)"
proof (induction s arbitrary: off rule: lines_of.induct)
  case (1 s)
  have s: "s \<noteq> []" using "1.prems" by auto
  then show ?case
  proof (cases rule: first_line [where pos = 0])
    case (ended l r)
    have none: "filter (\<lambda>c. c = CHR 0x0A) l = []" using ended(2) by (auto simp: filter_empty_conv)
    show ?thesis
    proof (cases "off \<le> length l")
      case True
      then have "filter (\<lambda>c. c = CHR 0x0A) (take off s) = []"
        using ended(2) by (auto simp: ended(1) filter_empty_conv dest: in_set_takeD)
      then show ?thesis using True by (intro exI [of _ 0]) (simp add: ended(3) line_start_def)
    next
      case False
      have dr: "drop (Suc (length (takeWhile (\<lambda>c. c \<noteq> CHR 0x0A) s))) s = r"
        using ended(1,2) by (simp add: takeWhile_append) 
      define k where "k = off - length l - 1"
      have k: "off = length l + 1 + k" using False by (simp add: k_def)
      have "k < length r" using 1(2) by (simp add: ended(1) k)
      then obtain n where n: "n < length (lines_of r)"
        "length (filter (\<lambda>c. c = CHR 0x0A) (take (k) r)) = n"
        "line_start (lines_of r) n \<le> k"
        "k \<le> line_start (lines_of r) n + length (lines_of r ! n)"
        using 1(1) [OF s, unfolded dr] by blast
      have "take off s = l @ CHR 0x0A # take (k) r"
        by (simp add: ended(1) k)
      then have "length (filter (\<lambda>c. c = CHR 0x0A) (take off s)) = Suc n" using n(2) none by simp
      moreover have "line_start (lines_of s) (Suc n) = length l + 1 + line_start (lines_of r) n"
        by (simp add: ended(3) line_start_def)
      ultimately show ?thesis using n unfolding ended(3) k by (intro exI [of _ "Suc n"]) simp
    qed
  next
    case unended
    have "filter (\<lambda>c. c = CHR 0x0A) (take off s) = []"
      using unended(1) by (auto simp: filter_empty_conv dest: in_set_takeD)
    then show ?thesis using "1.prems" by (intro exI [of _ 0]) (simp add: unended(2) line_start_def)
  qed
qed

theorem line_of_span:
  assumes "buffer_wf b" and "off < length (buffer_text b)"
  shows "\<exists>from n. fst (line_span (fst (line_of off b)) b) = Some (from, n) \<and> from \<le> off \<and> off \<le> from + n"
  using newlines_before_line [OF assms(2)] by (auto simp: line_of_text [OF assms(1)] line_span_text [OF assms(1)])

theorem line_of_span_witness:
  "\<exists>from n. fst (line_span (fst (line_of 3 (buffer_load ''a\<newline>bcd'' (text_buffer_new :: nat text_buffer))))
     (buffer_load ''a\<newline>bcd'' (text_buffer_new :: nat text_buffer))) = Some (from, n) \<and> from \<le> 3 \<and> 3 \<le> from + n"
proof -
  let ?b = "buffer_load ''a\<newline>bcd'' (text_buffer_new :: nat text_buffer)"
  have b: "buffer_wf ?b" "buffer_text ?b = ''a\<newline>bcd''"
    using buffer_load_doc [of "''a\<newline>bcd''" "text_buffer_new :: nat text_buffer"] by (simp_all add: buffer_doc_def)
  show ?thesis by (rule line_of_span [OF b(1)]) (simp add: b(2))
qed

end
