(* ===== verification/Utf8Text.thy ===== *)
theory Utf8Text
  imports TextUtf16 TextDocument
begin

text \<open>
  Texts that are sequences of whole UTF-8 sequences, the offsets between them, and what the
  scans of \<^verbatim>\<open>text_utf16.h\<close> and the word motions of \<^verbatim>\<open>text_buffer.h\<close> do on them.
\<close>

section \<open>Whole sequences\<close>

lemma byte_cases_256: "(\<forall>n \<in> set [0..<256]. P n) \<Longrightarrow> P (byte c)"
  using byte_less [of c] by simp

lemma continuation_iff: "continuation c \<longleftrightarrow> 0x80 \<le> byte c \<and> byte c < 0xC0"
proof -
  have "\<forall>n \<in> set [0..<256]. ((of_nat n :: 32 word) AND 0xC0 = 0x80) = (0x80 \<le> n \<and> n < 0xC0)"
    by code_simp
  then show ?thesis unfolding continuation_def u8_def by (rule byte_cases_256)
qed

definition seq_ok :: "string \<Rightarrow> bool" where
  "seq_ok q \<longleftrightarrow> q \<noteq> [] \<and> \<not> continuation (hd q) \<and> length q = utf8_seq_len (hd q) \<and> list_all continuation (tl q)"

function utf8_ok :: "string \<Rightarrow> bool" where
  "utf8_ok [] = True"
| "utf8_ok (c # cs) =
     (let n = utf8_seq_len c
      in \<not> continuation c \<and> n \<le> Suc (length cs) \<and> list_all continuation (take (n - 1) cs)
         \<and> utf8_ok (drop (n - 1) cs))"
  by pat_completeness auto
termination by (relation "measure length") auto

lemma seq_len_Suc: "utf8_seq_len c = Suc (utf8_seq_len c - 1)"
  using utf8_seq_len_pos [of c] by simp

lemma utf8_ok_seq: "seq_ok q \<Longrightarrow> utf8_ok (q @ s) = utf8_ok s"
  using seq_len_Suc [of "hd q"] by (cases q) (auto simp: seq_ok_def Let_def)

lemma utf8_ok_head:
  assumes "utf8_ok s" and "s \<noteq> []"
  obtains q r where "s = q @ r" "seq_ok q" "utf8_ok r"
proof -
  obtain c cs where s: "s = c # cs" using assms(2) by (cases s) auto
  let ?q = "take (utf8_seq_len c) s"
  have "seq_ok ?q"
    using assms(1) seq_len_Suc [of c] by (cases "utf8_seq_len c") (auto simp: s seq_ok_def Let_def)
  moreover have "utf8_ok (drop (utf8_seq_len c) s)"
    using assms(1) seq_len_Suc [of c] by (cases "utf8_seq_len c") (auto simp: s Let_def)
  ultimately show ?thesis using that [of ?q "drop (utf8_seq_len c) s"] by simp
qed

lemma utf8_induct [consumes 1, case_names Nil seq]:
  assumes "utf8_ok s" and "P []" and "\<And>q s. seq_ok q \<Longrightarrow> utf8_ok s \<Longrightarrow> P s \<Longrightarrow> P (q @ s)"
  shows "P s"
  using assms(1)
proof (induction "length s" arbitrary: s rule: less_induct)
  case less
  show ?case
  proof (cases "s = []")
    case False
    then obtain q r where s: "s = q @ r" "seq_ok q" "utf8_ok r" using utf8_ok_head [OF less.prems] by blast
    have "q \<noteq> []" using s(2) by (simp add: seq_ok_def)
    then have "length r < length s" using s(1) by simp
    then show ?thesis using assms(3) [OF s(2,3) less.hyps] s by simp
  qed (simp add: assms(2))
qed

lemma utf8_ok_append: "utf8_ok a \<Longrightarrow> utf8_ok (a @ b) = utf8_ok b"
  by (induction a rule: utf8_induct) (simp_all add: utf8_ok_seq)

lemma utf8_ok_appendI [intro]: "utf8_ok a \<Longrightarrow> utf8_ok b \<Longrightarrow> utf8_ok (a @ b)"
  by (simp add: utf8_ok_append)

lemma utf8_ok_ascii: "list_all (\<lambda>c. byte c < 0x80) s \<Longrightarrow> utf8_ok s"
  by (induction s) (simp_all add: utf8_seq_len_def continuation_iff)

section \<open>Offsets between sequences\<close>

definition cp_at :: "string \<Rightarrow> nat \<Rightarrow> bool" where
  "cp_at t i \<longleftrightarrow> i \<le> length t \<and> utf8_ok (take i t) \<and> utf8_ok (drop i t)"

lemma cp_at_split: "cp_at (a @ b) (length a) \<longleftrightarrow> utf8_ok a \<and> utf8_ok b"
  by (simp add: cp_at_def)

lemma cp_at_ok: "cp_at t i \<Longrightarrow> utf8_ok t"
  unfolding cp_at_def by (metis append_take_drop_id utf8_ok_appendI)

lemma cp_at_ends [simp]: "cp_at t 0 = utf8_ok t" "cp_at t (length t) = utf8_ok t"
  by (simp_all add: cp_at_def)

lemma seq_ok_tail: "seq_ok q \<Longrightarrow> 0 < i \<Longrightarrow> i < length q \<Longrightarrow> continuation (q ! i)"
  by (cases q) (auto simp: seq_ok_def list_all_length nth_Cons split: nat.split)

lemma cp_atI:
  assumes "utf8_ok t" and "i \<le> length t" and "i < length t \<Longrightarrow> \<not> continuation (t ! i)"
  shows "cp_at t i"
  using assms
proof (induction t arbitrary: i rule: utf8_induct)
  case (seq q s)
  consider "i = 0" | "0 < i" "i < length q" | "length q \<le> i" by linarith
  then show ?case
  proof cases
    case 1
    then show ?thesis using seq utf8_ok_seq by simp
  next
    case 2
    then show ?thesis using seq.prems seq_ok_tail [OF seq.hyps(1)] by (simp add: nth_append)
  next
    case 3
    have "cp_at s (i - length q)"
      using 3 seq.prems by (intro seq.IH) (auto simp: nth_append)
    then show ?thesis using 3 seq.prems seq.hyps by (auto simp: cp_at_def utf8_ok_seq)
  qed
qed simp

lemma cp_atD: "cp_at t i \<Longrightarrow> i < length t \<Longrightarrow> \<not> continuation (t ! i)"
proof -
  assume "cp_at t i" "i < length t"
  then have "utf8_ok (t ! i # drop (Suc i) t)" by (simp add: cp_at_def Cons_nth_drop_Suc)
  then show ?thesis by (simp add: Let_def)
qed

lemma cp_at_iff: "utf8_ok t \<Longrightarrow> cp_at t i \<longleftrightarrow> i \<le> length t \<and> (i < length t \<longrightarrow> \<not> continuation (t ! i))"
  by (metis cp_atI cp_atD cp_at_def)

lemma cp_at_ascii: "utf8_ok t \<Longrightarrow> i < length t \<Longrightarrow> byte (t ! i) < 0x80 \<Longrightarrow> cp_at t i \<and> cp_at t (Suc i)"
proof -
  assume t: "utf8_ok t" "i < length t" "byte (t ! i) < 0x80"
  have at: "cp_at t i" using t by (intro cp_atI) (simp_all add: continuation_iff)
  have "drop i t = t ! i # drop (Suc i) t" using t(2) by (simp add: Cons_nth_drop_Suc)
  then have "utf8_ok (drop (Suc i) t)" using at t(3) by (simp add: cp_at_def utf8_seq_len_def Let_def)
  moreover have "take (Suc i) t = take i t @ [t ! i]" using t(2) by (simp add: take_Suc_conv_app_nth)
  moreover have "utf8_ok [t ! i]" using t(3) by (intro utf8_ok_ascii) simp
  ultimately show ?thesis using at t(2) by (auto simp: cp_at_def)
qed

text \<open>Cutting and joining at such offsets.\<close>

lemma cp_at_insert: "cp_at t i \<Longrightarrow> utf8_ok w \<Longrightarrow> cp_at (take i t @ w @ drop i t) (i + length w)"
  by (auto simp: cp_at_def min_def)

lemma cp_at_ordered: "cp_at t i \<Longrightarrow> cp_at t j \<Longrightarrow> i \<le> j \<Longrightarrow> utf8_ok (take (j - i) (drop i t))"
proof -
  assume a: "cp_at t i" "cp_at t j" "i \<le> j"
  have "cp_at (drop i t) (j - i)"
    using a cp_atD [OF a(2)] by (intro cp_atI) (auto simp: cp_at_def)
  then show ?thesis by (simp add: cp_at_def)
qed

lemma cp_at_erase: "cp_at t i \<Longrightarrow> cp_at t j \<Longrightarrow> i \<le> j \<Longrightarrow> cp_at (take i t @ drop j t) i"
  by (auto simp: cp_at_def)

section \<open>Scans\<close>

lemma utf8_decode_seq:
  assumes "seq_ok q"
  shows "snd (utf8_decode (q @ s)) = length q" and "seq_here (q @ s) = length q"
proof -
  obtain c cs where q: "q = c # cs" using assms by (cases q) (auto simp: seq_ok_def)
  have "utf8_seq_len c = Suc (length cs)" "list_all continuation cs" using assms by (simp_all add: q seq_ok_def)
  then show "snd (utf8_decode (q @ s)) = length q" "seq_here (q @ s) = length q"
    by (simp_all add: q utf8_decode_def Let_def seq_here_def)
qed

lemma cp_at_next:
  assumes "cp_at t i" and "i < length t"
  shows "cp_at t (i + snd (utf8_decode_at t i))"
proof -
  have "drop i t \<noteq> []" "utf8_ok (drop i t)" using assms by (simp_all add: cp_at_def)
  then obtain q r where q: "drop i t = q @ r" "seq_ok q" "utf8_ok r" using utf8_ok_head by blast
  have t: "t = take i t @ q @ r" by (metis q(1) append_take_drop_id)
  have "utf8_ok (take i t @ q)" using assms(1) utf8_ok_seq [OF q(2), of "[]"] by (auto simp: cp_at_def)
  moreover have "i + length q = length (take i t @ q)" using assms(2) by simp
  ultimately have "cp_at ((take i t @ q) @ r) (i + length q)" using q(3) by (simp only: cp_at_split)
  then show ?thesis using t utf8_decode_seq(1) [OF q(2), of r] by (simp add: utf8_decode_at_def q(1))
qed

lemma run_right_bounds:
  assumes "i \<le> length t"
  shows "i \<le> run_right P t i" "run_right P t i \<le> length t"
    and "run_right P t i < length t \<Longrightarrow> \<not> P (t ! run_right P t i)"
    and "i < run_right P t i \<Longrightarrow> P (t ! (run_right P t i - 1))"
proof -
  let ?w = "takeWhile P (drop i t)"
  have len: "length ?w \<le> length t - i" using length_takeWhile_le [of P "drop i t"] by simp
  show "i \<le> run_right P t i" "run_right P t i \<le> length t" using len assms by (simp_all add: run_right_def)
  show "\<not> P (t ! run_right P t i)" if "run_right P t i < length t"
    using nth_length_takeWhile [of P "drop i t"] that by (simp add: run_right_def)
  show "P (t ! (run_right P t i - 1))" if "i < run_right P t i"
  proof -
    have k: "length ?w - 1 < length ?w" using that by (simp add: run_right_def)
    have "P (?w ! (length ?w - 1))" using nth_mem [OF k] set_takeWhileD by metis
    moreover have "?w ! (length ?w - 1) = drop i t ! (length ?w - 1)" by (rule takeWhile_nth [OF k])
    moreover have "i + (length ?w - 1) = run_right P t i - 1" using that by (cases ?w) (simp_all add: run_right_def)
    then have "drop i t ! (length ?w - 1) = t ! (run_right P t i - 1)" using len assms by simp
    ultimately show ?thesis by simp
  qed
qed

lemma run_left_bounds:
  assumes "i \<le> length t"
  shows "run_left P t i \<le> i" and "0 < run_left P t i \<Longrightarrow> \<not> P (t ! (run_left P t i - 1))"
proof -
  let ?w = "takeWhile P (rev (take i t))"
  show "run_left P t i \<le> i" by (simp add: run_left_def)
  show "\<not> P (t ! (run_left P t i - 1))" if "0 < run_left P t i"
  proof -
    have k: "length ?w < length (rev (take i t))" using that assms by (simp add: run_left_def)
    have "\<not> P (rev (take i t) ! length ?w)" by (rule nth_length_takeWhile [OF k])
    moreover have "i - Suc (length ?w) < i" "length (take i t) = i" using k assms by auto
    then have "rev (take i t) ! length ?w = t ! (run_left P t i - 1)"
      using k by (simp add: rev_nth run_left_def)
    ultimately show ?thesis by simp
  qed
qed

lemma word_byte_high: "\<not> word_byte c \<Longrightarrow> byte c < 0x80"
  by (simp add: word_byte_def)

lemma space_byte_low: "space_byte c \<Longrightarrow> byte c < 0x80"
  by (auto simp: space_byte_def)

lemma word_right_bounds: "min from (length t) \<le> word_right_in t from \<and> word_right_in t from \<le> length t"
  unfolding word_right_in_def
  using run_right_bounds(1,2) [of "min from (length t)" t] run_right_bounds(1,2) [of _ t word_byte]
  by (meson le_trans min.cobounded2)

lemma word_left_bounds: "word_left_in t from \<le> min from (length t)"
  unfolding word_left_in_def
  using run_left_bounds(1) [of "min from (length t)" t] run_left_bounds(1) [of _ t word_byte]
  by (meson le_trans min.cobounded2)

lemma word_stops:
  assumes "utf8_ok t"
  shows "cp_at t (word_right_in t from)" "cp_at t (word_left_in t from)"
proof -
  let ?i = "run_right (\<lambda>c. \<not> word_byte c) t (min from (length t))"
  have "?i \<le> length t" by (intro run_right_bounds(2)) simp
  then show "cp_at t (word_right_in t from)"
    using assms run_right_bounds(2,3) [of ?i t word_byte] unfolding word_right_in_def
    by (intro cp_atI) (auto simp: continuation_iff dest: word_byte_high)
  let ?j = "run_left (\<lambda>c. \<not> word_byte c) t (min from (length t))"
  have j: "?j \<le> length t" using run_left_bounds(1) [of "min from (length t)" t] by (meson le_trans min.cobounded2)
  then have l: "run_left word_byte t ?j \<le> length t" using run_left_bounds(1) [of ?j t word_byte] by simp
  show "cp_at t (word_left_in t from)"
  proof (cases "run_left word_byte t ?j")
    case (Suc k)
    then have "byte (t ! k) < 0x80" using run_left_bounds(2) [OF j, of word_byte] by (simp add: word_byte_high)
    then show ?thesis using cp_at_ascii [OF assms, of k] Suc l by (simp add: word_left_in_def)
  qed (simp add: word_left_in_def assms)
qed

lemma class_run_stops:
  assumes "utf8_ok t"
  shows "cp_at t (class_run_right_in t from)"
proof -
  define i where "i = min from (length t)"
  have le: "i \<le> length t" by (simp add: i_def)
  note run = class_run_right_in_def [of t "from", folded i_def]
  show ?thesis
  proof (cases "length t \<le> i")
    case False
    then have i: "i < length t" by simp
    show ?thesis
    proof (cases "word_byte (t ! i)")
      case True
      then show ?thesis
        using False assms run_right_bounds(2,3) [OF le, of word_byte] word_byte_high [of "t ! run_right word_byte t i"]
        by (auto simp: run Let_def continuation_iff intro!: cp_atI dest: word_byte_high)
    next
      case word: False
      show ?thesis
      proof (cases "space_byte (t ! i)")
        case True
        let ?j = "run_right space_byte t i"
        have j: "i \<le> ?j" "?j \<le> length t" "?j < length t \<Longrightarrow> \<not> space_byte (t ! ?j)" "i < ?j \<Longrightarrow> space_byte (t ! (?j - 1))"
          using run_right_bounds [OF le, of space_byte] by simp_all
        then have "i < ?j" using True i by (metis le_neq_implies_less)
        then have "byte (t ! (?j - 1)) < 0x80" "?j - 1 < length t" using j space_byte_low by auto
        then have "cp_at t (Suc (?j - 1))" using cp_at_ascii [OF assms] by blast
        then show ?thesis using \<open>i < ?j\<close> False word True by (simp add: run Let_def)
      next
        case False
        then show ?thesis
          using word i cp_at_ascii [OF assms i] word_byte_high [OF word] by (simp add: run Let_def)
      qed
    qed
  qed (use le assms cp_at_ends(2) [of t] in \<open>simp add: run Let_def\<close>)
qed

section \<open>UTF-16 columns\<close>

function units16 :: "string \<Rightarrow> int" where
  "units16 [] = 0"
| "units16 (c # cs) = seq_units (seq_here (c # cs)) + units16 (drop (seq_here (c # cs)) (c # cs))"
  by pat_completeness auto
termination by (relation "measure length") (auto simp: seq_here_def utf8_seq_len_pos min_def)

lemma seq_ok_cons: "seq_ok q \<Longrightarrow> \<exists>c cs. q = c # cs"
  by (cases q) (auto simp: seq_ok_def)

lemma units16_seq: "seq_ok q \<Longrightarrow> units16 (q @ s) = seq_units (length q) + units16 s"
  using seq_ok_cons [of q] utf8_decode_seq(2) [of q s] by auto

lemma seq_units_pos: "0 < seq_units n"
  by (simp add: seq_units_def)

lemma units16_nonneg: "utf8_ok s \<Longrightarrow> 0 \<le> units16 s"
proof (induction s rule: utf8_induct)
  case (seq q s)
  then show ?case using seq_units_pos [of "length q"] by (simp add: units16_seq)
qed simp

lemma col16_of_byte_go_seq:
  assumes "seq_ok q"
  shows "col16_of_byte_go k i u (q @ s) =
    (if k \<le> i then u else if i + length q > k then u else col16_of_byte_go k (i + length q) (u + seq_units (length q)) s)"
proof -
  obtain c cs where q: "q = c # cs" using seq_ok_cons [OF assms] by blast
  then show ?thesis using utf8_decode_seq(2) [OF assms, of s] by (simp add: Let_def)
qed

lemma col16_to_byte_go_seq:
  assumes "seq_ok q"
  shows "col16_to_byte_go col i u (q @ s) =
    (if col \<le> u then i else if u + seq_units (length q) > col then i
     else col16_to_byte_go col (i + length q) (u + seq_units (length q)) s)"
proof -
  obtain c cs where q: "q = c # cs" using seq_ok_cons [OF assms] by blast
  then show ?thesis using utf8_decode_seq(2) [OF assms, of s] by (simp add: Let_def)
qed

lemma col16_of_byte_go_units: "utf8_ok a \<Longrightarrow> utf8_ok b \<Longrightarrow> col16_of_byte_go (i + length a) i u (a @ b) = u + units16 a"
proof (induction a arbitrary: i u rule: utf8_induct)
  case Nil
  then show ?case by (cases b) simp_all
next
  case (seq q s)
  have "q \<noteq> []" using seq.hyps(1) by (simp add: seq_ok_def)
  then show ?case
    using seq.IH [OF seq.prems, of "i + length q" "u + seq_units (length q)"] seq.hyps(1)
    by (simp add: col16_of_byte_go_seq units16_seq add.assoc)
qed

lemma col16_to_byte_go_units: "utf8_ok a \<Longrightarrow> utf8_ok b \<Longrightarrow> col16_to_byte_go (u + units16 a) i u (a @ b) = i + length a"
proof (induction a arbitrary: i u rule: utf8_induct)
  case Nil
  then show ?case by (cases b) simp_all
next
  case (seq q s)
  have "0 < seq_units (length q)" "0 \<le> units16 s" using seq.hyps units16_nonneg seq_units_pos by simp_all
  then show ?case
    using seq.IH [OF seq.prems, of "u + seq_units (length q)" "i + length q"] seq.hyps(1)
    by (simp add: col16_to_byte_go_seq units16_seq add.assoc)
qed

lemma col16_to_byte_go_stops:
  "utf8_ok s \<Longrightarrow> \<exists>k \<le> length s. col16_to_byte_go col i u s = i + k \<and> cp_at s k"
proof (induction s arbitrary: i u rule: utf8_induct)
  case (seq q s)
  have ok: "utf8_ok (q @ s)" using seq.hyps by (simp add: utf8_ok_seq)
  obtain k where k: "k \<le> length s" "col16_to_byte_go col (i + length q) (u + seq_units (length q)) s = i + length q + k" "cp_at s k"
    using seq.IH by blast
  have "cp_at (q @ s) (length q + k)" using k(3) seq.hyps(1) by (simp add: cp_at_def utf8_ok_seq)
  then show ?case
    using k ok col16_to_byte_go_seq [OF seq.hyps(1), of col i u s]
    by (cases "col \<le> u \<or> u + seq_units (length q) > col")
      (auto intro: exI [of _ 0] exI [of _ "length q + k"])
qed simp

section \<open>Properties\<close>

text \<open>
  Word motion never stops inside a code point.  In a text of whole UTF-8 sequences the word
  to the right, the word to the left and the deletion extent end between code points, wherever
  they start, and the motions do not move backwards and forwards respectively.
\<close>

theorem word_motion_stops_between_code_points:
  assumes "utf8_ok (buffer_text b)"
  shows "cp_at (buffer_text b) (word_right i b) \<and> cp_at (buffer_text b) (word_left i b)
    \<and> cp_at (buffer_text b) (class_run_right i b)
    \<and> word_left i b \<le> min i (length (buffer_text b)) \<and> min i (length (buffer_text b)) \<le> word_right i b"
  using word_stops [OF assms, of i] class_run_stops [OF assms, of i] word_left_bounds [of "buffer_text b" i]
    word_right_bounds [of i "buffer_text b"]
  by (simp add: word_right_def word_left_def class_run_right_def)

theorem word_motion_stops_between_code_points_witness:
  "utf8_ok (buffer_text (buffer_load [CHR ''a'', CHR 0xC3, CHR 0xA9, CHR '' '', CHR ''b''] (text_buffer_new :: nat text_buffer)))
   \<and> cp_at (buffer_text (buffer_load [CHR ''a'', CHR 0xC3, CHR 0xA9, CHR '' '', CHR ''b''] (text_buffer_new :: nat text_buffer)))
      (word_right 2 (buffer_load [CHR ''a'', CHR 0xC3, CHR 0xA9, CHR '' '', CHR ''b''] (text_buffer_new :: nat text_buffer)))"
proof -
  let ?t = "[CHR ''a'', CHR 0xC3, CHR 0xA9, CHR '' '', CHR ''b'']"
  have "buffer_text (buffer_load ?t (text_buffer_new :: nat text_buffer)) = ?t"
    using buffer_load_doc [of ?t "text_buffer_new :: nat text_buffer"] by (simp add: buffer_doc_def)
  moreover have "utf8_ok ?t" by code_simp
  ultimately show ?thesis
    using word_motion_stops_between_code_points [of "buffer_load ?t (text_buffer_new :: nat text_buffer)" 2] by simp
qed



end
