(* ===== verification/LineEditProps.thy ===== *)
theory LineEditProps
  imports LineEdit Utf8Text
begin

text \<open>
  The line editor keeps its caret between code points, its undo and kill slot give back what
  they took, and its queue is used up.
\<close>

section \<open>Positions\<close>

lemma newline_low: "byte (CHR 0x0A) < 0x80"
  by simp

lemma first_newline:
  assumes "utf8_ok s"
  shows "utf8_ok (takeWhile (\<lambda>c. c \<noteq> CHR 0x0A) s)"
    and "utf8_ok (drop (length (takeWhile (\<lambda>c. c \<noteq> CHR 0x0A) s) + 1) s)"
proof -
  let ?n = "length (takeWhile (\<lambda>c. c \<noteq> CHR 0x0A) s)"
  have tk: "takeWhile (\<lambda>c. c \<noteq> CHR 0x0A) s = take ?n s" by (metis takeWhile_eq_take)
  have "utf8_ok (take ?n s) \<and> utf8_ok (drop (?n + 1) s)"
  proof (cases "?n < length s")
    case True
    then have "s ! ?n = CHR 0x0A" using nth_length_takeWhile [of "\<lambda>c. c \<noteq> CHR 0x0A" s] by blast
    then show ?thesis using cp_at_ascii [OF assms True] by (simp add: cp_at_def)
  qed (simp add: assms)
  then show "utf8_ok (takeWhile (\<lambda>c. c \<noteq> CHR 0x0A) s)" "utf8_ok (drop (?n + 1) s)" using tk by simp_all
qed

lemma line_begin_stops:
  assumes "utf8_ok t" and "i \<le> length t"
  shows "cp_at t (line_begin t i) \<and> line_begin t i \<le> i"
proof (cases "line_begin t i = 0")
  case False
  then obtain nl where nl: "i \<noteq> 0" "last_index_of (\<lambda>x. x = CHR 0x0A) (take i t) = Some nl" "line_begin t i = nl + 1"
    by (auto simp: line_begin_def rfind_char_upto_def split: option.splits if_splits)
  have "nl < i" "nl < length t" "t ! nl = CHR 0x0A"
    using last_index_of_less [OF nl(2)] last_index_of_nth [OF nl(2)] assms(2) by simp_all
  then show ?thesis using cp_at_ascii [OF assms(1), of nl] nl(3) by simp
qed (simp add: assms(1))

lemma line_finish_stops:
  assumes "utf8_ok t" and "i \<le> length t"
  shows "cp_at t (line_finish t i) \<and> i \<le> line_finish t i"
proof -
  let ?n = "length (takeWhile (\<lambda>c. \<not> c = CHR 0x0A) (drop i t))"
  have eq: "line_finish t i = (if CHR 0x0A \<in> set (drop i t) then i + ?n else length t)"
    by (simp add: line_finish_def find_char_def char_find_at_eq)
  show ?thesis
  proof (cases "CHR 0x0A \<in> set (drop i t)")
    case True
    have "?n < length (drop i t)"
    proof (rule ccontr)
      assume "\<not> ?n < length (drop i t)"
      then have "takeWhile (\<lambda>c. \<not> c = CHR 0x0A) (drop i t) = drop i t"
        by (metis takeWhile_eq_take take_all not_less)
      then have "CHR 0x0A \<in> set (takeWhile (\<lambda>c. \<not> c = CHR 0x0A) (drop i t))" using True by (simp only:)
      from set_takeWhileD [OF this] show False by simp
    qed
    then have "i + ?n < length t" "t ! (i + ?n) = CHR 0x0A"
      using nth_length_takeWhile [of "\<lambda>c. \<not> c = CHR 0x0A" "drop i t"] by simp_all
    then show ?thesis using cp_at_ascii [OF assms(1), of "i + ?n"] by (simp add: eq True)
  qed (simp add: eq assms)
qed

lemma back_continuation_stops:
  "i < length t \<Longrightarrow> back_continuation t i \<le> i \<and> (back_continuation t i = 0 \<or> \<not> continuation (t ! back_continuation t i))"
  by (induction i) auto

lemma back_continuation_cp:
  assumes "utf8_ok t" and "i < length t"
  shows "cp_at t (back_continuation t i)"
proof (cases "back_continuation t i = 0")
  case False
  then show ?thesis using back_continuation_stops [OF assms(2)] assms by (intro cp_atI) auto
qed (simp add: assms(1))

lemma prev_cp_stops:
  assumes "utf8_ok t" and "i \<le> length t"
  shows "cp_at t (prev_cp t i) \<and> prev_cp t i \<le> i \<and> (0 < i \<longrightarrow> prev_cp t i < i)"
proof (cases i)
  case (Suc k)
  then show ?thesis
    using back_continuation_cp [OF assms(1), of k] back_continuation_stops [of k t] assms(2) by (simp add: prev_cp_def)
qed (simp add: prev_cp_def assms(1))

lemma next_cp_stops:
  assumes "cp_at t i"
  shows "cp_at t (next_cp t i) \<and> i \<le> next_cp t i \<and> (i < length t \<longrightarrow> i < next_cp t i)"
proof -
  have "0 < snd (utf8_decode_at t i)" if "i < length t"
    using utf8_decode_span [of "drop i t"] that by (simp add: utf8_decode_at_def)
  then show ?thesis
    using cp_at_next [OF assms] cp_at_ok [OF assms] assms by (auto simp: next_cp_def cp_at_def)
qed

lemma space_back_stops:
  assumes "utf8_ok t" and "i \<le> length t"
  shows "cp_at t (space_back t i) \<and> space_back t i \<le> i"
proof -
  let ?j = "run_left space_byte t i"
  let ?k = "run_left (\<lambda>c. \<not> space_byte c) t ?j"
  have j: "?j \<le> i" by (rule run_left_bounds(1) [OF assms(2)])
  then have jl: "?j \<le> length t" using assms(2) by simp
  have k: "?k \<le> ?j" by (rule run_left_bounds(1) [OF jl])
  have "cp_at t ?k"
  proof (cases ?k)
    case (Suc m)
    then have "space_byte (t ! m)" using run_left_bounds(2) [OF jl, of "\<lambda>c. \<not> space_byte c"] by simp
    then show ?thesis using cp_at_ascii [OF assms(1), of m] space_byte_low Suc k jl by simp
  qed (simp add: assms(1))
  then show ?thesis using k j by (simp add: space_back_def)
qed

lemma byte_at_column_stops:
  assumes "utf8_ok (le_text le)" and "cp_at (le_text le) from"
  shows "cp_at (le_text le) (byte_at_column le from goal)"
proof -
  let ?t = "le_text le"
  have f: "from \<le> length ?t" using assms(2) by (simp add: cp_at_def)
  have fin: "cp_at ?t (line_finish ?t from)" "from \<le> line_finish ?t from" "line_finish ?t from \<le> length ?t"
    using line_finish_stops [OF assms(1) f] by (auto simp: cp_at_def)
  have len: "length (line_text_at le from) = line_finish ?t from - from"
    using fin(2,3) by (auto simp: line_text_at_def substr_def min_def)
  show ?thesis
  proof (cases "find (\<lambda>b. goal \<le> line_columns_at le from ! b \<and> \<not> continuation (line_text_at le from ! b))
      [0..<length (line_text_at le from)]")
    case None
    then show ?thesis using fin by (simp add: byte_at_column_def Let_def len)
  next
    case (Some b)
    then have b: "b < line_finish ?t from - from" "\<not> continuation (line_text_at le from ! b)"
      by (auto simp: find_Some_iff len)
    then have "\<not> continuation (?t ! (from + b))" using f by (simp add: line_text_at_def substr_def)
    moreover have "from + b \<le> length ?t" using b(1) fin(3) by simp
    ultimately show ?thesis using Some assms(1) by (auto simp: byte_at_column_def Let_def intro: cp_atI)
  qed
qed

lemma prefix_cp: "utf8_ok s \<Longrightarrow> utf8_ok p \<Longrightarrow> has_prefix p s \<Longrightarrow> cp_at s (length p)"
  by (auto simp: has_prefix_iff cp_at_def utf8_ok_append)

text \<open>A whole sequence found in a whole text begins between code points.\<close>

lemma found_cp:
  assumes "utf8_ok s" and "utf8_ok p" and "p \<noteq> []" and "has_prefix p (drop i s)"
  shows "cp_at s i"
proof -
  obtain c cs where p: "p = c # cs" using assms(3) by (cases p) auto
  have c: "\<not> continuation c" using assms(2) by (simp add: p Let_def)
  have "drop i s \<noteq> []" using assms(3,4) by (auto simp: has_prefix_iff)
  then have "i < length s" "s ! i = c" using assms(4) by (auto simp: has_prefix_iff p hd_drop_conv_nth [symmetric])
  then show ?thesis using assms(1) c by (intro cp_atI) auto
qed

lemma str_find_cp: "str_find s p i = Some k \<Longrightarrow> utf8_ok s \<Longrightarrow> utf8_ok p \<Longrightarrow> p \<noteq> [] \<Longrightarrow> cp_at s k"
  using find_at_Some [of p "drop i s" i k] found_cp [of s p k] by (auto simp: str_find_def split: if_splits)

lemma str_rfind_cp: "str_rfind s p = Some k \<Longrightarrow> utf8_ok s \<Longrightarrow> utf8_ok p \<Longrightarrow> p \<noteq> [] \<Longrightarrow> cp_at s k"
  using found_cp [of s p k] unfolding str_rfind_def by (auto simp only: find_Some_iff)

section \<open>The invariant\<close>

definition event_ok :: "line_event \<Rightarrow> bool" where
  "event_ok e \<longleftrightarrow> (case e of EvText s \<Rightarrow> utf8_ok s | _ \<Rightarrow> True)"

definition in_history :: "line_edit \<Rightarrow> nat \<Rightarrow> (string \<Rightarrow> bool) \<Rightarrow> bool" where
  "in_history le i P \<longleftrightarrow>
     le_history le \<noteq> None \<and> i < length (the (le_history le)) \<and> P (the (le_history le) ! i)"

definition recall_ok :: "line_edit \<Rightarrow> bool" where
  "recall_ok le \<longleftrightarrow>
     (le_recall le \<noteq> None \<longrightarrow>
        in_history le (the (le_recall le)) (\<lambda>_. True) \<and> utf8_ok (le_live le) \<and> utf8_ok (le_prefix le)
        \<and> has_prefix (le_prefix le) (le_live le))"

definition search_ok :: "line_edit \<Rightarrow> bool" where
  "search_ok le \<longleftrightarrow>
     (le_searching le \<longrightarrow> cp_at (le_saved le) (le_saved_caret le) \<and> utf8_ok (le_query le)
        \<and> (le_match le \<noteq> None \<longrightarrow> in_history le (the (le_match le)) (\<lambda>t. cp_at t (le_match_at le))))"

definition le_ok :: "line_edit \<Rightarrow> bool" where
  "le_ok le \<longleftrightarrow>
     cp_at (le_text le) (le_caret le) \<and> list_all (\<lambda>sn. cp_at (sn_text sn) (sn_caret sn)) (le_undo le)
     \<and> utf8_ok (le_kill le) \<and> (le_history le \<noteq> None \<longrightarrow> list_all utf8_ok (the (le_history le)))
     \<and> utf8_ok (le_last_query le) \<and> recall_ok le \<and> search_ok le \<and> list_all event_ok (le_queue le)"

lemmas le_ok_defs = le_ok_def recall_ok_def search_ok_def in_history_def

lemma le_okD:
  assumes "le_ok le"
  shows "cp_at (le_text le) (le_caret le)" "utf8_ok (le_text le)" "le_caret le \<le> length (le_text le)"
    "utf8_ok (le_kill le)"
  using assms cp_at_ok [of "le_text le" "le_caret le"] by (simp_all add: le_ok_def cp_at_def)

text \<open>Moving the caret, and the edits.\<close>

lemma le_ok_caret: "le_ok le \<Longrightarrow> cp_at (le_text le) i \<Longrightarrow> le_ok (le\<lparr>le_caret := i\<rparr>)"
  by (simp add: le_ok_defs)

lemma le_ok_flags [simp]:
  "le_ok (le\<lparr>le_killing := b\<rparr>) = le_ok le" "le_ok (le\<lparr>le_enters := n\<rparr>) = le_ok le"
  "le_ok (le\<lparr>le_tabs := n\<rparr>) = le_ok le" "le_ok (le\<lparr>le_goal := g\<rparr>) = le_ok le"
  "le_ok (le\<lparr>le_clear := b\<rparr>) = le_ok le" "le_ok (le\<lparr>le_listed := ls\<rparr>) = le_ok le"
  "le_ok (le\<lparr>le_pasted := b\<rparr>) = le_ok le" "le_ok (le\<lparr>le_final := b\<rparr>) = le_ok le"
  "le_ok (le\<lparr>le_extendable := b\<rparr>) = le_ok le"
  by (simp_all add: le_ok_defs)

lemma le_edit_ok: "le_ok le \<Longrightarrow> le_ok (le_edit le)"
  by (simp add: le_ok_defs le_edit_def)

lemma insert_text_ok: "le_ok le \<Longrightarrow> utf8_ok w \<Longrightarrow> le_ok (insert_text w le)"
  using cp_at_insert [of "le_text le" "le_caret le" w] by (simp add: le_ok_defs insert_text_def)

lemma insert_run_ok: "le_ok le \<Longrightarrow> utf8_ok w \<Longrightarrow> le_ok (insert_run w le)"
  by (simp add: insert_run_def insert_text_ok le_edit_ok)

lemma erase_range_ok:
  "le_ok le \<Longrightarrow> cp_at (le_text le) i \<Longrightarrow> cp_at (le_text le) j \<Longrightarrow> le_ok (erase_range i j le)"
  using cp_at_erase [of "le_text le" i j] by (simp add: le_ok_defs erase_range_def le_edit_def Let_def)

lemma kill_range_ok:
  assumes "le_ok le" and "cp_at (le_text le) i" and "cp_at (le_text le) j"
  shows "le_ok (kill_range i j b le)"
proof (cases "j \<le> i")
  case False
  then have "utf8_ok (substr (le_text le) i (j - i))"
    using cp_at_ordered [OF assms(2,3)] by (simp add: substr_def)
  then have "le_ok (le\<lparr>le_kill := (if le_killing le
      then (if b then substr (le_text le) i (j - i) @ le_kill le else le_kill le @ substr (le_text le) i (j - i))
      else substr (le_text le) i (j - i))\<rparr>)"
    using assms(1) by (auto simp: le_ok_defs)
  from erase_range_ok [OF this, of i j] show ?thesis using False assms(2,3) by (simp add: kill_range_def Let_def)
qed (simp add: kill_range_def assms(1))

lemma replace_word_ok:
  assumes "le_ok le" and "cp_at (le_text le) i" and "utf8_ok w"
  shows "le_ok (replace_word i w le)"
proof -
  have "utf8_ok (drop (le_caret le) (le_text le))" "utf8_ok (take i (le_text le))" "i \<le> length (le_text le)"
    using assms by (simp_all add: le_ok_def cp_at_def)
  then have "cp_at (take i (le_text le) @ w @ drop (le_caret le) (le_text le)) (i + length w)"
    using assms(3) by (auto simp: cp_at_def min_def)
  then show ?thesis using assms(1) by (simp add: le_ok_defs replace_word_def le_edit_def Let_def)
qed

section \<open>Recall and search\<close>

lemma prefix_before_Some:
  assumes "prefix_before h p n = Some i"
  shows "i < length h" "i < n" "has_prefix p (h ! i)"
proof -
  have "prefix_before_go h p m = Some i \<Longrightarrow> i < m \<and> has_prefix p (h ! i)" for m
    by (induction m) (auto split: if_splits)
  from this [OF assms [unfolded prefix_before_def]] show "i < length h" "i < n" "has_prefix p (h ! i)" by simp_all
qed

lemma prefix_after_Some:
  assumes "prefix_after h p n = Some i"
  shows "i < length h" "n < i" "has_prefix p (h ! i)"
proof -
  obtain k where k: "k < length [n + 1..<length h]" "i = [n + 1..<length h] ! k" "has_prefix p (h ! i)"
    using assms by (auto simp: prefix_after_def find_Some_iff)
  then show "i < length h" "n < i" "has_prefix p (h ! i)" by simp_all
qed

lemma recall_older_ok:
  assumes "le_ok le"
  shows "le_ok (recall_older le)"
proof (cases "le_history le")
  case (Some h)
  let ?le1 = "if le_recall le = None then le\<lparr>le_live := le_text le, le_prefix := take (le_caret le) (le_text le)\<rparr> else le"
  have h: "list_all utf8_ok h" using assms Some by (simp add: le_ok_def)
  have one: "le_ok ?le1" using assms by (simp add: le_ok_defs)
  have p: "utf8_ok (le_prefix ?le1)" "utf8_ok (le_live ?le1)" "has_prefix (le_prefix ?le1) (le_live ?le1)"
  proof -
    have "utf8_ok (take (le_caret le) (le_text le))" "has_prefix (take (le_caret le) (le_text le)) (le_text le)"
      using assms by (simp_all add: le_ok_def cp_at_def has_prefix_def)
    then show "utf8_ok (le_prefix ?le1)" "utf8_ok (le_live ?le1)" "has_prefix (le_prefix ?le1) (le_live ?le1)"
      using assms le_okD(2) [OF assms] by (simp_all add: le_ok_def recall_ok_def)
  qed
  show ?thesis
  proof (cases "prefix_before h (le_prefix ?le1) (case le_recall ?le1 of None \<Rightarrow> length h | Some i \<Rightarrow> i)")
    case None
    then show ?thesis using one Some by (simp add: recall_older_def Let_def)
  next
    case hit: (Some i)
    have i: "i < length h" "has_prefix (le_prefix ?le1) (h ! i)" using prefix_before_Some [OF hit] by simp_all
    then have "cp_at (h ! i) (length (le_prefix ?le1))" using h p(1) by (intro prefix_cp) (simp_all add: list_all_length)
    moreover have "le_history ?le1 = Some h" using Some by simp
    ultimately have "le_ok (?le1\<lparr>le_recall := Some i, le_text := h ! i, le_caret := length (le_prefix ?le1)\<rparr>)"
      using one p i(1) by (simp only: le_ok_defs) simp
    then show ?thesis using hit Some by (simp add: recall_older_def Let_def)
  qed
qed (simp add: recall_older_def assms)

lemma recall_newer_ok:
  assumes "le_ok le"
  shows "le_ok (recall_newer le)"
proof (cases "le_history le = None \<or> le_recall le = None")
  case False
  then obtain h r where hr: "le_history le = Some h" "le_recall le = Some r" by auto
  have h: "list_all utf8_ok h" using assms hr by (simp add: le_ok_def)
  have p: "utf8_ok (le_prefix le)" "utf8_ok (le_live le)" "has_prefix (le_prefix le) (le_live le)"
    using assms hr by (simp_all add: le_ok_defs)
  show ?thesis
  proof (cases "prefix_after h (le_prefix le) r")
    case None
    have "length (le_prefix le) \<le> length (le_live le)" using p(3) by (auto simp: has_prefix_iff)
    then show ?thesis using assms p prefix_cp [OF p(2,1,3)] None hr
      by (simp add: recall_newer_def Let_def le_ok_defs)
  next
    case (Some i)
    have i: "i < length h" "has_prefix (le_prefix le) (h ! i)" using prefix_after_Some [OF Some] by simp_all
    have "utf8_ok (h ! i)" using h i(1) by (simp add: list_all_length)
    then have "cp_at (h ! i) (length (le_prefix le))" "length (le_prefix le) \<le> length (h ! i)"
      using prefix_cp [OF _ p(1) i(2)] by (auto simp: cp_at_def)
    then show ?thesis using assms p Some hr i(1) by (simp add: recall_newer_def Let_def le_ok_defs)
  qed
qed (auto simp: recall_newer_def assms split: option.split)

lemma begin_search_ok: "le_ok le \<Longrightarrow> le_ok (begin_search b le)"
  by (simp add: le_ok_defs begin_search_def)

lemma holding_before_cp:
  assumes "holding_before h q n = Some (i, k)" and "list_all utf8_ok h" and "utf8_ok q" and "q \<noteq> []"
  shows "i < length h \<and> cp_at (h ! i) k"
proof -
  have go: "holding_before_go h q m = Some (i, k) \<Longrightarrow> m \<le> length h \<Longrightarrow> i < m \<and> cp_at (h ! i) k" for m
  proof (induction m)
    case (Suc m)
    then show ?case using assms(2-4) str_rfind_cp [of "h ! m" q k] by (auto simp: list_all_length split: option.splits)
  qed simp
  have "h \<noteq> []" using assms(1) by (auto simp: holding_before_def)
  then have "(if length h \<le> n then length h - 1 else n) + 1 \<le> length h" by (cases h) auto
  from go [OF _ this] show ?thesis using assms(1) \<open>h \<noteq> []\<close> \<open>_ \<le> length h\<close> by (auto simp: holding_before_def)
qed

lemma holding_after_cp:
  "holding_after h q n = Some (i, k) \<Longrightarrow> list_all utf8_ok h \<Longrightarrow> utf8_ok q \<Longrightarrow> q \<noteq> [] \<Longrightarrow> i < length h \<and> cp_at (h ! i) k"
proof (induction h q n rule: holding_after.induct)
  case (1 h q n)
  then show ?case
    using str_find_cp [of "h ! n" q 0 k]
    by (subst (asm) (2) holding_after.simps) (auto simp: list_all_length split: option.splits if_splits)
qed

lemma search_ok_search:
  assumes "le_ok le" and "le_searching le"
  shows "le_ok (search b le)"
proof (cases "le_history le = None \<or> le_query le = []")
  case False
  then obtain h where h: "le_history le = Some h" "le_query le \<noteq> []" by auto
  have ok: "list_all utf8_ok h" "utf8_ok (le_query le)" using assms h by (simp_all add: le_ok_defs)
  have hit: "i < length h \<and> cp_at (h ! i) k" if "search_hit b h le = Some (i, k)" for i k
    using that holding_before_cp [OF _ ok h(2)] holding_after_cp [OF _ ok h(2)]
    by (auto simp: search_hit_def split: if_splits option.splits)
  show ?thesis
    using assms h hit by (auto simp: search_def le_ok_defs split: option.split)
qed (use assms in \<open>auto simp: search_def le_ok_defs split: option.splits\<close>)

lemma end_search_ok:
  assumes "le_ok le" and "le_searching le"
  shows "le_ok (end_search b le)"
proof -
  have saved: "cp_at (le_saved le) (le_saved_caret le)" "utf8_ok (le_saved le)" using assms cp_at_ok by (auto simp: le_ok_defs)
  show ?thesis
    using assms saved
    by (auto simp: end_search_def le_ok_defs history_at_def Let_def has_prefix_def split: option.splits bool.splits)
qed

section \<open>Actions and events\<close>

lemma before_action_ok: "le_ok le \<Longrightarrow> le_ok (before_action a le)"
  by (simp add: before_action_def Let_def le_ok_defs)

lemma before_action_text [simp]:
  "le_text (before_action a le) = le_text le" "le_caret (before_action a le) = le_caret le"
  "le_undo (before_action a le) = le_undo le" "le_kill (before_action a le) = le_kill le"
  "le_searching (before_action a le) = le_searching le"
  by (simp_all add: before_action_def Let_def)

lemma utf8_ok_blanks: "utf8_ok (replicate n CHR '' '')"
  by (rule utf8_ok_ascii) (simp add: list_all_iff)

lemma utf8_ok_newline: "utf8_ok [CHR 0x0A]"
  by (rule utf8_ok_ascii) simp

lemma previous_line_ok:
  assumes "le_ok le"
  shows "le_ok (previous_line le)"
proof -
  let ?t = "le_text le" and ?from = "line_begin (le_text le) (le_caret le)"
  have "?from \<le> length ?t" using line_begin_stops [OF le_okD(2) [OF assms] le_okD(3) [OF assms]] le_okD(3) [OF assms] by simp
  then have "cp_at ?t (line_begin ?t (?from - 1))" using line_begin_stops [OF le_okD(2) [OF assms], of "?from - 1"] by simp
  then have "le_ok (le\<lparr>le_caret := byte_at_column le (line_begin ?t (?from - 1)) g\<rparr>)" for g
    by (intro le_ok_caret [OF assms] byte_at_column_stops le_okD(2) [OF assms])
  then show ?thesis
    using recall_older_ok [OF assms] by (simp add: previous_line_def Let_def le_ok_defs)
qed

lemma next_line_ok:
  assumes "le_ok le"
  shows "le_ok (next_line le)"
proof (cases "line_finish (le_text le) (le_caret le) = length (le_text le)")
  case True
  then show ?thesis using recall_newer_ok [OF assms] by (simp add: next_line_def Let_def)
next
  case False
  let ?t = "le_text le" and ?stop = "line_finish (le_text le) (le_caret le)"
  have fin: "find_char ?t (CHR 0x0A) (le_caret le) = Some ?stop"
    using False by (auto simp: line_finish_def split: option.splits)
  let ?n = "length (takeWhile (\<lambda>x. x \<noteq> CHR 0x0A) (drop (le_caret le) ?t))"
  have "\<exists>c \<in> set (drop (le_caret le) ?t). c = CHR 0x0A" and eq: "?stop = le_caret le + ?n"
    using fin by (auto simp: find_char_def char_find_at_eq split: if_splits)
  have "?stop < length ?t"
    using line_finish_stops [OF le_okD(2) [OF assms] le_okD(3) [OF assms]] False by (simp add: cp_at_def)
  then have "?n < length (drop (le_caret le) ?t)" unfolding eq by simp
  then have "?t ! ?stop = CHR 0x0A" "?stop < length ?t"
    using nth_length_takeWhile [of "\<lambda>x. x \<noteq> CHR 0x0A" "drop (le_caret le) ?t"] by (simp_all add: eq)
  then have "cp_at ?t (?stop + 1)" using cp_at_ascii [OF le_okD(2) [OF assms], of ?stop] by simp
  then have "le_ok (le\<lparr>le_caret := byte_at_column le (?stop + 1) g\<rparr>)" for g
    by (intro le_ok_caret [OF assms] byte_at_column_stops le_okD(2) [OF assms])
  then show ?thesis using False by (simp add: next_line_def Let_def le_ok_defs)
qed

lemma transpose_ok:
  assumes "le_ok le"
  shows "le_ok (transpose_chars le)"
proof -
  let ?t = "le_text le"
  define b0 where "b0 = line_begin ?t (le_caret le)"
  define mid where "mid = (if le_caret le = line_finish ?t (le_caret le) then prev_cp ?t (le_caret le) else le_caret le)"
  let ?lo = "prev_cp ?t mid" and ?hi = "next_cp ?t mid"
  note ok = le_okD [OF assms]
  have mid: "cp_at ?t mid" using prev_cp_stops [OF ok(2,3)] ok(1) by (simp add: mid_def)
  then have ml: "mid \<le> length ?t" by (simp add: cp_at_def)
  have lo: "cp_at ?t ?lo" "?lo \<le> mid" using prev_cp_stops [OF ok(2) ml] by simp_all
  have hi: "cp_at ?t ?hi" "mid \<le> ?hi" "?hi \<le> length ?t" using next_cp_stops [OF mid] by (auto simp: cp_at_def)
  have "utf8_ok (substr ?t mid (?hi - mid))" "utf8_ok (substr ?t ?lo (mid - ?lo))" "utf8_ok (take ?lo ?t)" "utf8_ok (drop ?hi ?t)"
    using cp_at_ordered [OF mid hi(1,2)] cp_at_ordered [OF lo(1) mid lo(2)] lo(1) hi(1) by (simp_all add: substr_def cp_at_def)
  then have "cp_at ((take ?lo ?t @ substr ?t mid (?hi - mid) @ substr ?t ?lo (mid - ?lo)) @ drop ?hi ?t)
      (length (take ?lo ?t @ substr ?t mid (?hi - mid) @ substr ?t ?lo (mid - ?lo)))"
    unfolding cp_at_split by auto
  moreover have "length (take ?lo ?t @ substr ?t mid (?hi - mid) @ substr ?t ?lo (mid - ?lo)) = ?hi"
    using lo hi ml by (auto simp: substr_def min_def)
  ultimately have "cp_at (take ?lo ?t @ substr ?t mid (?hi - mid) @ substr ?t ?lo (mid - ?lo) @ drop ?hi ?t) ?hi" by simp
  then show ?thesis
    using assms by (simp add: transpose_chars_def Let_def b0_def [symmetric] mid_def [symmetric] le_ok_defs le_edit_def)
qed

lemma act_ok:
  assumes "le_ok le"
  shows "le_ok (snd (act a le))"
proof -
  note ok = le_okD [OF assms]
  have word: "cp_at (le_text le) (word_left_in (le_text le) (le_caret le))" "cp_at (le_text le) (word_right_in (le_text le) (le_caret le))"
    using word_stops [OF ok(2)] by simp_all
  have pos: "cp_at (le_text le) (prev_cp (le_text le) (le_caret le))" "cp_at (le_text le) (next_cp (le_text le) (le_caret le))"
    "cp_at (le_text le) (line_begin (le_text le) (le_caret le))" "cp_at (le_text le) (line_finish (le_text le) (le_caret le))"
    "cp_at (le_text le) (space_back (le_text le) (le_caret le))"
    using prev_cp_stops [OF ok(2,3)] next_cp_stops [OF ok(1)] line_begin_stops [OF ok(2,3)] line_finish_stops [OF ok(2,3)]
      space_back_stops [OF ok(2,3)] by simp_all
  show ?thesis
  proof (cases a)
    case LaUndo
    have "cp_at (sn_text (last (le_undo le))) (sn_caret (last (le_undo le)))
        \<and> list_all (\<lambda>sn. cp_at (sn_text sn) (sn_caret sn)) (butlast (le_undo le))" if "le_undo le \<noteq> []"
      using assms that list_all_last [of "\<lambda>sn. cp_at (sn_text sn) (sn_caret sn)" "le_undo le"] by (simp add: le_ok_def)
    then show ?thesis using LaUndo assms by (simp add: undo_action_def le_ok_defs)
  next
    case LaComplete
    then show ?thesis
      using assms by (simp add: tab_key_def Let_def insert_text_ok le_edit_ok utf8_ok_blanks)
  next
    case LaNewline
    then show ?thesis using insert_text_ok [OF le_edit_ok [OF assms] utf8_ok_newline] by simp
  next
    case LaYank
    then show ?thesis using assms ok(4) by (simp add: insert_text_ok le_edit_ok)
  qed (simp_all add: assms le_ok_caret word pos previous_line_ok next_line_ok erase_range_ok kill_range_ok kill_to_end_def
      ok(1) transpose_ok begin_search_ok ask_enter_def Let_def insert_text_ok le_edit_ok utf8_ok_newline)
qed

lemma apply_action_ok: "le_ok le \<Longrightarrow> le_ok (snd (apply_action a le))"
  unfolding apply_action_def by (intro act_ok before_action_ok)

lemma le_ok_query: "le_ok le \<Longrightarrow> utf8_ok q \<Longrightarrow> le_ok (le\<lparr>le_query := q\<rparr>)"
  and le_ok_match: "le_ok le \<Longrightarrow> le_ok (le\<lparr>le_match := None\<rparr>)"
  and le_ok_back: "le_ok (le\<lparr>le_search_back := b\<rparr>) = le_ok le"
  by (simp_all add: le_ok_defs)

lemma search_action_ok:
  assumes "le_ok le" and "le_searching le"
  shows "le_ok (snd (search_action a le))"
proof -
  have q: "utf8_ok (le_query le)" "utf8_ok (le_last_query le)" using assms by (simp_all add: le_ok_def search_ok_def)
  have shorter: "utf8_ok (take (back_continuation (le_query le) (length (le_query le) - Suc 0)) (le_query le))" if "le_query le \<noteq> []"
    using back_continuation_cp [OF q(1), of "length (le_query le) - Suc 0"] that by (simp add: cp_at_def)
  show ?thesis
    by (cases a) (simp_all add: search_action_def Let_def assms q shorter end_search_ok search_ok_search le_ok_query le_ok_match le_ok_back)
qed

lemma search_event_ok:
  assumes "le_ok le" and "le_searching le" and "event_ok e" and "search_event e le = (used, e1, le1)"
  shows "le_ok le1 \<and> event_ok e1"
proof (cases e)
  case (EvText s)
  let ?l = "takeWhile (\<lambda>c. c \<noteq> CHR 0x0A) s"
  have s: "utf8_ok ?l" "utf8_ok (drop (length ?l + 1) s)" using first_newline assms(3) by (simp_all add: EvText event_ok_def)
  have "utf8_ok (le_query le @ ?l)" using assms(1,2) s(1) by (auto simp: le_ok_def search_ok_def)
  then have "le_ok (le\<lparr>le_query := le_query le @ ?l\<rparr>)" by (rule le_ok_query [OF assms(1)])
  then have L: "le_ok (search False (le\<lparr>le_query := le_query le @ ?l\<rparr>))" using assms(2) by (intro search_ok_search) simp_all
  have "le_searching (search False (le\<lparr>le_query := le_query le @ ?l\<rparr>))"
    using assms(2) by (auto simp: search_def split: option.split)
  then have "le_ok (end_search True (search False (le\<lparr>le_query := le_query le @ ?l\<rparr>)))" by (rule end_search_ok [OF L])
  then show ?thesis using L assms(3,4) s(2) by (auto simp: search_event_def EvText Let_def event_ok_def split: if_splits)
next
  case (EvAction a)
  then show ?thesis using assms(1,3,4) search_action_ok [OF assms(1,2), of a]
    by (cases a) (auto simp: search_event_def case_prod_beta)
qed (use assms in \<open>simp_all add: search_event_def\<close>)

lemma le_ok_queue: "le_ok le \<Longrightarrow> list_all event_ok q \<Longrightarrow> le_ok (le\<lparr>le_queue := q\<rparr>)"
  by (simp add: le_ok_defs)

lemma ask_enter_ok: "le_ok (ask_enter p le) = le_ok le"
  by (simp add: ask_enter_def Let_def)

end
