(* ===== verification/LineEditRuns.thy ===== *)
theory LineEditRuns
  imports LineEditProps
begin

text \<open>
  Runs of the line editor: the states its interface reaches, what undo, yank and recall give
  back, and the history file.
\<close>

section \<open>The queue is used up\<close>

lemma line_edit_step_cons:
  assumes "le_queue le = e # q"
  shows "line_edit_step le =
     (if le_searching le
      then (case search_event e le of
              (used, e1, le1) \<Rightarrow> line_edit_step (le1\<lparr>le_queue := (if used then q else e1 # q)\<rparr>))
      else (case e of
              EvText s \<Rightarrow>
                (let l = takeWhile (\<lambda>c. c \<noteq> CHR 0x0A) s; le1 = insert_run l le
                 in if length l = length s then line_edit_step (le1\<lparr>le_queue := q\<rparr>)
                    else (let rest = drop (length l + 1) s
                          in (OcEnter, ask_enter True (le1\<lparr>le_queue := (if rest = [] then q else EvText rest # q)\<rparr>))))
            | EvOther \<Rightarrow> line_edit_step (le\<lparr>le_queue := q\<rparr>)
            | EvAction a \<Rightarrow>
                (if a = LaNone then line_edit_step (le\<lparr>le_queue := q\<rparr>)
                 else (case apply_action a (le\<lparr>le_queue := q\<rparr>) of
                         (oc, le1) \<Rightarrow> if oc = OcIdle then line_edit_step le1 else (oc, le1)))))"
  using assms by (subst line_edit_step.simps) simp

text \<open>The loop by cases: it ends, or goes on with a smaller queue.\<close>

lemma line_edit_step_induct [consumes 0, case_names empty go stop]:
  assumes empty: "\<And>le. le_queue le = [] \<Longrightarrow> P le (OcIdle, le)"
    and go: "\<And>le le1. queue_weight le1 < queue_weight le \<Longrightarrow> (le_ok le \<Longrightarrow> le_ok le1) \<Longrightarrow> P le1 (line_edit_step le1)
      \<Longrightarrow> P le (line_edit_step le1)"
    and stop: "\<And>le oc le1. oc \<noteq> OcIdle \<Longrightarrow> queue_weight le1 < queue_weight le \<Longrightarrow> (le_ok le \<Longrightarrow> le_ok le1) \<Longrightarrow> P le (oc, le1)"
  shows "P le (line_edit_step le)"
proof (induction "queue_weight le" arbitrary: le rule: less_induct)
  case less
  have goes: "P le (line_edit_step le1)" if "queue_weight le1 < queue_weight le" "le_ok le \<Longrightarrow> le_ok le1" for le1
    using go [OF that less.hyps [OF that(1)]] .
  show ?case
  proof (cases "le_queue le")
    case Nil
    then show ?thesis using empty by (simp add: line_edit_step.simps)
  next
    case (Cons e q)
    have q: "le_ok le \<Longrightarrow> event_ok e \<and> list_all event_ok q" using Cons by (simp add: le_ok_def)
    show ?thesis
    proof (cases "le_searching le")
      case True
      obtain used e1 le1 where s: "search_event e le = (used, e1, le1)" by (cases "search_event e le") auto
      let ?n = "le1\<lparr>le_queue := (if used then q else e1 # q)\<rparr>"
      have "queue_weight ?n < queue_weight le"
        using search_event_queue [OF s] Cons True event_weight_pos [of e] by (cases used) (auto simp: queue_weight_def)
      moreover have "le_ok le \<Longrightarrow> le_ok ?n"
        using search_event_ok [OF _ True _ s] q by (intro le_ok_queue) auto
      ultimately show ?thesis using goes by (simp add: line_edit_step_cons [OF Cons] True s)
    next
      case idle: False
      have w: "queue_weight le = 2 * (event_weight e + sum_list (map event_weight q))" using Cons idle by (simp add: queue_weight_def)
      show ?thesis
      proof (cases e)
        case (EvText s)
        let ?l = "takeWhile (\<lambda>c. c \<noteq> CHR 0x0A) s" and ?r = "drop (length (takeWhile (\<lambda>c. c \<noteq> CHR 0x0A) s) + 1) s"
        have ins: "le_ok le \<Longrightarrow> le_ok (insert_run ?l le)" "le_ok le \<Longrightarrow> utf8_ok ?r"
          using q insert_run_ok first_newline [of s] by (auto simp: EvText event_ok_def)
        have srch: "le_searching (insert_run ?l le) = False" "le_searching (ask_enter True le1) = le_searching le1" for le1
          using idle by (simp_all add: insert_run_def insert_text_def le_edit_def ask_enter_def Let_def)
        show ?thesis
        proof (cases "length ?l = length s")
          case True
          have "P le (line_edit_step ((insert_run ?l le)\<lparr>le_queue := q\<rparr>))"
            using ins q srch Cons idle by (intro goes le_ok_queue) (simp_all add: queue_weight_def EvText event_weight_def)
          then show ?thesis using True idle by (simp add: line_edit_step_cons [OF Cons] EvText Let_def)
        next
          case False
          then have len: "length ?r < length s" using length_takeWhile_le [of "\<lambda>c. c \<noteq> CHR 0x0A" s] by simp
          define q1 where "q1 = (if ?r = [] then q else EvText ?r # q)"
          define n where "n = (insert_run ?l le)\<lparr>le_queue := q1\<rparr>"
          have "list_all event_ok q1" if "le_ok le" using q [OF that] ins(2) [OF that] by (simp add: q1_def event_ok_def)
          then have ok: "le_ok le \<Longrightarrow> le_ok (ask_enter True n)"
            unfolding ask_enter_ok n_def by (intro le_ok_queue ins(1))
          have "sum_list (map event_weight q1) \<le> length s + sum_list (map event_weight q)"
            using len unfolding q1_def by (auto simp: event_weight_text simp del: length_drop)
          moreover have "queue_weight (ask_enter True n) = 2 * sum_list (map event_weight q1)"
            by (simp add: queue_weight_def srch n_def)
          ultimately have "queue_weight (ask_enter True n) < queue_weight le"
            by (simp add: w EvText event_weight_text)
          from stop [OF _ this ok] have "P le (OcEnter, ask_enter True n)" by simp
          then show ?thesis using False idle by (cases "?r = []") (simp_all add: line_edit_step_cons [OF Cons] EvText Let_def n_def q1_def)
        qed
      next
        case EvOther
        have "P le (line_edit_step (le\<lparr>le_queue := q\<rparr>))"
          using q idle Cons by (intro goes le_ok_queue) (simp_all add: queue_weight_def event_weight_pos)
        then show ?thesis using idle by (simp add: line_edit_step_cons [OF Cons] EvOther)
      next
        case (EvAction a)
        have skip: "P le (line_edit_step (le\<lparr>le_queue := q\<rparr>))"
          using q idle Cons by (intro goes le_ok_queue) (simp_all add: queue_weight_def EvAction event_weight_def)
        obtain oc le1 where a: "apply_action a (le\<lparr>le_queue := q\<rparr>) = (oc, le1)" by (cases "apply_action a (le\<lparr>le_queue := q\<rparr>)")
        have smaller: "queue_weight le1 < queue_weight le"
          using apply_action_queue [OF a] Cons idle by (simp add: queue_weight_def EvAction event_weight_def)
        have ok: "le_ok le \<Longrightarrow> le_ok le1"
          using apply_action_ok [OF le_ok_queue, of le q a] q by (simp add: a)
        show ?thesis
          using skip goes [OF smaller ok] stop [OF _ smaller ok, of oc] idle
          by (simp add: line_edit_step_cons [OF Cons] EvAction a)
      qed
    qed
  qed
qed

lemma line_edit_step_ok: "le_ok le \<Longrightarrow> le_ok (snd (line_edit_step le))"
  by (rule line_edit_step_induct [where P = "\<lambda>le r. le_ok le \<longrightarrow> le_ok (snd r)", rule_format]) auto

lemma line_edit_step_weight:
  "(fst (line_edit_step le) = OcIdle \<longrightarrow> le_queue (snd (line_edit_step le)) = [])
   \<and> (le_queue le \<noteq> [] \<longrightarrow> queue_weight (snd (line_edit_step le)) < queue_weight le)
   \<and> queue_weight (snd (line_edit_step le)) \<le> queue_weight le"
  by (rule line_edit_step_induct [where P = "\<lambda>le r. (fst r = OcIdle \<longrightarrow> le_queue (snd r) = [])
      \<and> (le_queue le \<noteq> [] \<longrightarrow> queue_weight (snd r) < queue_weight le) \<and> queue_weight (snd r) \<le> queue_weight le"]) auto

section \<open>Reachable states\<close>

text \<open>
  What a host may do with the model.  The history it gives only grows.  A completion is left out
  when what it would put into the entry is not whole UTF-8 sequences: \<open>complete_word\<close> cuts the
  common prefix of several candidates by bytes, so candidates that are whole are not enough.
\<close>

definition completion_whole :: "nat \<Rightarrow> string list \<Rightarrow> line_edit \<Rightarrow> bool" where
  "completion_whole i cs le \<longleftrightarrow> i \<le> le_caret le \<longrightarrow>
     (case complete_word (substr (le_text le) i (le_caret le - i)) cs of CompletionInsert p \<Rightarrow> utf8_ok p | _ \<Rightarrow> True)"

inductive le_reach :: "line_edit \<Rightarrow> bool" where
  start_new: "le_reach (line_edit_new prompt)"
| start_entry: "le_reach le \<Longrightarrow> le_reach (line_edit_start le)"
| feed: "le_reach le \<Longrightarrow> list_all event_ok es \<Longrightarrow> le_reach (line_edit_feed es le)"
| step: "le_reach le \<Longrightarrow> le_reach (snd (line_edit_step le))"
| answer_enter: "le_reach le \<Longrightarrow> le_reach (entered v le)"
| answer_tab: "le_reach le \<Longrightarrow> cp_at (le_text le) i \<Longrightarrow> completion_whole i cs le \<Longrightarrow> le_reach (completed i cs le)"
| history: "le_reach le \<Longrightarrow> list_all utf8_ok h \<Longrightarrow>
    (case le_history le of None \<Rightarrow> True | Some h0 \<Rightarrow> take (length h0) h = h0) \<Longrightarrow> le_reach (set_history (Some h) le)"
| prompt: "le_reach le \<Longrightarrow> le_reach (set_prompt p le)"
| cleared: "le_reach le \<Longrightarrow> le_reach (snd (take_clear le))"
| listed: "le_reach le \<Longrightarrow> le_reach (snd (take_listed le))"

lemma completed_ok:
  assumes "le_ok le" and "cp_at (le_text le) i" and "completion_whole i cs le"
  shows "le_ok (completed i cs le)"
proof (cases "complete_word (substr (le_text le) i (le_caret le - i)) cs")
  case (CompletionInsert p)
  have "le_ok (replace_word i p (le\<lparr>le_tabs := le_tabs le + 1\<rparr>))" if "i \<le> le_caret le"
    using assms that CompletionInsert by (intro replace_word_ok) (simp_all add: completion_whole_def)
  then show ?thesis using assms CompletionInsert by (simp add: completed_def Let_def)
qed (use assms in \<open>simp_all add: completed_def Let_def\<close>)

text \<open>Whether the caret stands between code points after a completion depends on nothing else.\<close>

lemma completed_cp_at:
  assumes "le_ok le" and "cp_at (le_text le) i"
  shows "cp_at (le_text (completed i cs le)) (le_caret (completed i cs le)) \<longleftrightarrow> completion_whole i cs le"
proof (cases "completion_whole i cs le")
  case True
  then show ?thesis using le_okD(1) [OF completed_ok [OF assms True]] by simp
next
  case False
  then obtain p where p: "complete_word (substr (le_text le) i (le_caret le - i)) cs = CompletionInsert p"
      "i \<le> le_caret le" "\<not> utf8_ok p"
    by (auto simp: completion_whole_def split: completion_step.splits)
  have i: "utf8_ok (take i (le_text le))" "i \<le> length (le_text le)" using assms(2) by (simp_all add: cp_at_def)
  have "\<not> cp_at (take i (le_text le) @ p @ drop (le_caret le) (le_text le)) (i + length p)"
    using p(3) i by (simp add: cp_at_def utf8_ok_append min_def)
  then show ?thesis using False p(1,2) by (simp add: completed_def replace_word_def le_edit_def Let_def)
qed

text \<open>Candidates of ASCII bytes, such as C identifiers, always leave whole sequences.\<close>

lemma common_prefix_subset: "set (common_prefix a b) \<subseteq> set a"
  by (induction a b rule: common_prefix.induct) auto

lemma common_prefixes_subset: "set (foldl common_prefix a cs) \<subseteq> set a"
  by (induction cs arbitrary: a) (use common_prefix_subset in \<open>fastforce+\<close>)

lemma ascii_completion_whole:
  assumes "\<forall>c \<in> set cs. list_all (\<lambda>x. byte x < 0x80) c"
  shows "completion_whole i cs le"
proof -
  have "utf8_ok p" if "complete_word w cs = CompletionInsert p" for w p
  proof -
    have "\<exists>c \<in> set cs. set p \<subseteq> set c"
      using that common_prefixes_subset [of "hd cs" "tl cs"]
      by (auto simp: complete_word_def Let_def simp del: foldl_Cons split: list.splits if_splits)
    then show ?thesis using assms by (intro utf8_ok_ascii) (auto simp: list_all_iff)
  qed
  then show ?thesis by (simp add: completion_whole_def split: completion_step.split)
qed

lemma entered_ok: "le_ok le \<Longrightarrow> le_ok (entered v le)"
  using insert_text_ok [OF le_edit_ok utf8_ok_newline, of le] by (simp add: entered_def Let_def)

lemma grown_history: "take (length h0) h = h0 \<Longrightarrow> i < length h0 \<Longrightarrow> i < length h \<and> h ! i = h0 ! i"
  by (metis nth_take length_take min.strict_boundedE)

lemma set_history_ok:
  assumes "le_ok le" and "list_all utf8_ok h"
    and "case le_history le of None \<Rightarrow> True | Some h0 \<Rightarrow> take (length h0) h = h0"
  shows "le_ok (set_history (Some h) le)"
proof (cases "le_history le")
  case None
  then show ?thesis using assms by (simp add: le_ok_defs set_history_def)
next
  case (Some h0)
  then have g: "\<And>i. i < length h0 \<Longrightarrow> i < length h \<and> h ! i = h0 ! i" using assms(3) grown_history by simp
  show ?thesis
    using assms(1,2) Some g [of "the (le_recall le)"] g [of "the (le_match le)"]
    by (simp add: le_ok_defs set_history_def)
qed

lemma le_reach_ok: "le_reach le \<Longrightarrow> le_ok le"
proof (induction rule: le_reach.induct)
  case (history le h)
  then show ?case by (intro set_history_ok)
qed (simp_all add: line_edit_step_ok completed_ok entered_ok, simp_all add: le_ok_defs line_edit_new_def line_edit_start_def
    line_edit_feed_def set_prompt_def take_clear_def take_listed_def)

text \<open>A several-candidate prefix that is no text: what \<open>completion_whole\<close> rules out.\<close>

lemma completed_inside_code_point:
  "complete_word [] [[CHR 0xC3, CHR 0xA8], [CHR 0xC3, CHR 0xA9]] = CompletionInsert [CHR 0xC3]
   \<and> \<not> utf8_ok [CHR 0xC3]"
  by code_simp

section \<open>Undo and yank\<close>

lemma erase_range_undo:
  "erase_range i j le = le \<or> le_undo (erase_range i j le) = le_undo le @ [\<lparr>sn_text = le_text le, sn_caret = le_caret le\<rparr>]"
  by (simp add: erase_range_def le_edit_def Let_def)

lemma kill_range_undo:
  "kill_range i j b le = le \<or> le_undo (kill_range i j b le) = le_undo le @ [\<lparr>sn_text = le_text le, sn_caret = le_caret le\<rparr>]"
  by (simp add: kill_range_def erase_range_def le_edit_def Let_def)

lemma act_undo:
  assumes "a \<notin> {LaUndo, LaPreviousLine, LaNextLine}" and "le_text (snd (act a le)) \<noteq> le_text le"
  shows "le_undo (snd (act a le)) = le_undo le @ [\<lparr>sn_text = le_text le, sn_caret = le_caret le\<rparr>]"
  using assms
proof (cases a)
  case LaKillToEnd
  then show ?thesis
    using assms(2) kill_range_undo [of "le_caret le" "if line_finish (le_text le) (le_caret le) = le_caret le
        then next_cp (le_text le) (le_caret le) else line_finish (le_text le) (le_caret le)" False le]
    by (auto simp: kill_to_end_def Let_def)
next
  case LaDeleteBack
  then show ?thesis using assms(2) erase_range_undo [of "prev_cp (le_text le) (le_caret le)" "le_caret le" le] by auto
next
  case LaDeleteForward
  then show ?thesis using assms(2) erase_range_undo [of "le_caret le" "next_cp (le_text le) (le_caret le)" le] by auto
next
  case LaDeleteOrEnd
  then show ?thesis using assms(2) erase_range_undo [of "le_caret le" "next_cp (le_text le) (le_caret le)" le]
    by (cases "le_text le = []") auto
next
  case LaKillToStart
  then show ?thesis using assms(2) kill_range_undo [of "line_begin (le_text le) (le_caret le)" "le_caret le" True le] by auto
next
  case LaKillSpaceBack
  then show ?thesis using assms(2) kill_range_undo [of "space_back (le_text le) (le_caret le)" "le_caret le" True le] by auto
next
  case LaKillWordBack
  then show ?thesis using assms(2) kill_range_undo [of "word_left_in (le_text le) (le_caret le)" "le_caret le" True le] by auto
next
  case LaKillWordForward
  then show ?thesis using assms(2) kill_range_undo [of "le_caret le" "word_right_in (le_text le) (le_caret le)" False le] by auto
qed (auto simp: ask_enter_def tab_key_def transpose_chars_def begin_search_def insert_text_def le_edit_def Let_def split: if_splits)

lemma undo_action_last:
  "le_undo le = us @ [sn] \<Longrightarrow> le_text (undo_action le) = sn_text sn \<and> le_caret (undo_action le) = sn_caret sn"
  by (simp add: undo_action_def)

lemma kill_range_yank:
  assumes "le_text (kill_range i j b le) \<noteq> le_text le" and "\<not> le_killing le"
  shows "le_text (snd (act LaYank (kill_range i j b le))) = le_text le"
proof -
  let ?t = "le_text le"
  have i: "i < j" using assms(1) by (auto simp: kill_range_def split: if_splits)
  have il: "i < length ?t"
  proof (rule ccontr)
    assume "\<not> i < length ?t"
    then have "take i ?t @ drop j ?t = ?t" using i by simp
    then show False using assms(1) i by (simp add: kill_range_def erase_range_def le_edit_def Let_def)
  qed
  have "take i ?t @ substr ?t i (j - i) @ drop j ?t = ?t"
  proof -
    have "substr ?t i (j - i) @ drop j ?t = drop i ?t"
      using i append_take_drop_id [of "j - i" "drop i ?t"] by (simp add: substr_def)
    then show ?thesis by simp
  qed
  moreover have "substr ?t i (j - i) \<noteq> []" using i il by (simp add: substr_def)
  ultimately show ?thesis
    using i il assms(2) by (simp add: kill_range_def erase_range_def le_edit_def insert_text_def Let_def min_def)
qed

lemma act_kill: "kill_action a \<Longrightarrow> \<exists>i j b. act a le = (OcIdle, (kill_range i j b le)\<lparr>le_killing := True\<rparr>)"
  unfolding kill_action_def by (elim insertE emptyE) (simp_all add: kill_to_end_def Let_def, blast+)

section \<open>The history file\<close>

lemma records_go_line:
  "CHR 0x0A \<notin> set l \<Longrightarrow> records_go (l @ CHR 0x0A # s) rs = records_go s (record_line l rs)"
proof -
  assume l: "CHR 0x0A \<notin> set l"
  then have "takeWhile (\<lambda>c. c \<noteq> CHR 0x0A) (l @ CHR 0x0A # s) = l" by (auto simp: takeWhile_append)
  then show ?thesis by (subst records_go.simps) (simp add: Let_def)
qed

lemma records_go_lines:
  "list_all (\<lambda>l. CHR 0x0A \<notin> set l) ls \<Longrightarrow>
   records_go (concat (map (\<lambda>l. l @ [CHR 0x0A]) ls) @ s) rs = records_go s (fold record_line ls rs)"
  by (induction ls arbitrary: rs) (simp_all add: records_go_line)

fun join_lines :: "string list \<Rightarrow> string" where
  "join_lines [] = []"
| "join_lines [l] = l"
| "join_lines (l # ls) = l @ CHR 0x0A # join_lines ls"

text \<open>A text begins with an ended line, or is one line.\<close>

lemma split_nl_cases:
  obtains (ended) l r where "s = l @ CHR 0x0A # r" "CHR 0x0A \<notin> set l" "split_nl s = l # split_nl r"
  | (one) "CHR 0x0A \<notin> set s" "split_nl s = [s]"
proof (cases "CHR 0x0A \<in> set s")
  case True
  then obtain l r where s: "s = l @ CHR 0x0A # r" "CHR 0x0A \<notin> set l" by (meson split_list_first)
  have "takeWhile (\<lambda>c. c \<noteq> CHR 0x0A) s = l" using s by (subst s(1)) (auto simp: takeWhile_append)
  then have "split_nl s = l # split_nl (drop (Suc (length l)) s)" using s(1) by (subst split_nl.simps) (simp add: Let_def)
  then show ?thesis using ended [OF s] by (simp add: s(1))
next
  case False
  then have "takeWhile (\<lambda>c. c \<noteq> CHR 0x0A) s = s" by (auto simp: takeWhile_eq_all_conv)
  then have "split_nl s = [s]" by (subst split_nl.simps) (simp only: Let_def less_irrefl if_False)
  then show ?thesis using one False by simp
qed

lemma split_nl_induct [case_names ended one]:
  assumes "\<And>l r. CHR 0x0A \<notin> set l \<Longrightarrow> split_nl (l @ CHR 0x0A # r) = l # split_nl r \<Longrightarrow> P r \<Longrightarrow> P (l @ CHR 0x0A # r)"
    and "\<And>s. CHR 0x0A \<notin> set s \<Longrightarrow> split_nl s = [s] \<Longrightarrow> P s"
  shows "P s"
proof (induction "length s" arbitrary: s rule: less_induct)
  case less
  show ?case
  proof (cases s rule: split_nl_cases)
    case (ended l r)
    then show ?thesis using assms(1) [of l r] less [of r] by simp
  next
    case one
    then show ?thesis by (rule assms(2))
  qed
qed

lemma split_nl_lines: "list_all (\<lambda>l. CHR 0x0A \<notin> set l \<and> set l \<subseteq> set s) (split_nl s) \<and> split_nl s \<noteq> []"
  by (induction s rule: split_nl_induct) (auto simp: list_all_iff)

lemma join_split_nl: "join_lines (split_nl s) = s"
proof (induction s rule: split_nl_induct)
  case (ended l r)
  then show ?case using split_nl_lines [of r] by (cases "split_nl r") simp_all
qed simp

text \<open>The lines of one entry, read into the record that is open.\<close>

lemma record_line_entry:
  assumes "CHR 0x0D \<notin> set l"
  shows "record_line (CHR 0x09 # l) \<lparr>rs_out = out @ [(m, t)], rs_open = True, rs_has_line = h\<rparr>
    = \<lparr>rs_out = out @ [(m, t @ (if h then [CHR 0x0A] else []) @ l)], rs_open = True, rs_has_line = True\<rparr>"
  using assms by (auto simp: record_line_def drop_cr_def Let_def has_prefix_def dest: last_in_set)

lemma record_lines_entry:
  "list_all (\<lambda>l. CHR 0x0D \<notin> set l) ls \<Longrightarrow> ls \<noteq> [] \<Longrightarrow>
   fold record_line (map ((#) CHR 0x09) ls) \<lparr>rs_out = out @ [(m, t)], rs_open = True, rs_has_line = h\<rparr>
    = \<lparr>rs_out = out @ [(m, t @ (if h then [CHR 0x0A] else []) @ join_lines ls)], rs_open = True, rs_has_line = True\<rparr>"
proof (induction ls arbitrary: t h rule: join_lines.induct)
  case (3 l l' ls)
  then show ?case
    using "3.IH" [of "t @ (if h then [CHR 0x0A] else []) @ l" True] by (simp add: record_line_entry)
qed (simp_all add: record_line_entry)

definition record_plain :: "string \<times> string \<times> string \<Rightarrow> bool" where
  "record_plain r \<longleftrightarrow>
     (case r of (time, mode, entry) \<Rightarrow>
        CHR 0x0A \<notin> set time \<and> CHR 0x0A \<notin> set mode \<and> CHR 0x0D \<notin> set mode \<and> CHR 0x0D \<notin> set entry)"

lemma record_read:
  assumes "record_plain (time, mode, entry)"
  shows "\<exists>rs'. records_go (history_record time mode entry @ s) rs = records_go s rs'
    \<and> rs_out rs' = rs_out rs @ [(mode, entry)]"
proof -
  let ?ls = "split_nl entry"
  have nl: "CHR 0x0A \<notin> set time" "CHR 0x0A \<notin> set mode" "CHR 0x0D \<notin> set mode" "CHR 0x0D \<notin> set entry"
    using assms by (simp_all add: record_plain_def)
  have text_eq: "history_record time mode entry @ s
      = concat (map (\<lambda>l. l @ [CHR 0x0A]) ((''# time: '' @ time) # (''# mode: '' @ mode) # map ((#) CHR 0x09) ?ls)) @ s"
    by (simp add: history_record_def comp_def)
  have lines: "list_all (\<lambda>l. CHR 0x0A \<notin> set l) ((''# time: '' @ time) # (''# mode: '' @ mode) # map ((#) CHR 0x09) ?ls)"
    using nl split_nl_lines [of entry] by (auto simp: list_all_iff)
  have t: "record_line (''# time: '' @ time) rs = \<lparr>rs_out = rs_out rs @ [([], [])], rs_open = True, rs_has_line = False\<rparr>"
    by (cases "time") (auto simp: record_line_def drop_cr_def has_prefix_def Let_def butlast_append)
  have m: "record_line (''# mode: '' @ mode) \<lparr>rs_out = rs_out rs @ [([], [])], rs_open = True, rs_has_line = False\<rparr>
      = \<lparr>rs_out = rs_out rs @ [(mode, [])], rs_open = True, rs_has_line = False\<rparr>"
    using nl(3) by (auto simp: record_line_def drop_cr_def has_prefix_def Let_def dest: last_in_set)
  have "list_all (\<lambda>l. CHR 0x0D \<notin> set l) ?ls" using nl(4) split_nl_lines [of entry] by (auto simp: list_all_iff)
  from record_lines_entry [OF this, of "rs_out rs" mode "[]" False] split_nl_lines [of entry]
  have "fold record_line (map ((#) CHR 0x09) ?ls) \<lparr>rs_out = rs_out rs @ [(mode, [])], rs_open = True, rs_has_line = False\<rparr>
      = \<lparr>rs_out = rs_out rs @ [(mode, entry)], rs_open = True, rs_has_line = True\<rparr>"
    by (simp add: join_split_nl)
  then show ?thesis
    unfolding text_eq records_go_lines [OF lines]
    by (intro exI [of _ "\<lparr>rs_out = rs_out rs @ [(mode, entry)], rs_open = True, rs_has_line = True\<rparr>"])
      (simp add: t [simplified] m [simplified])
qed

section \<open>Properties\<close>

text \<open>
  C14: the caret stands between code points.  In every state the host can bring the model to with
  texts and history entries of whole UTF-8 sequences, and with completions that begin between code
  points and put whole sequences into the entry, the text is such a text and the caret stands
  between code points.  The condition on completions cannot be dropped: from such a state, a
  completion leaves the caret between code points exactly when what it puts into the entry is
  whole sequences, which the longest common prefix of two candidates need not be.
\<close>

theorem caret_between_code_points:
  assumes "le_reach le"
  shows "utf8_ok (le_text le) \<and> cp_at (le_text le) (le_caret le)
    \<and> (\<forall>i cs. cp_at (le_text le) i \<longrightarrow>
        cp_at (le_text (completed i cs le)) (le_caret (completed i cs le)) = completion_whole i cs le)"
  using le_okD [OF le_reach_ok [OF assms]] completed_cp_at [OF le_reach_ok [OF assms]] by simp

theorem caret_between_code_points_witness:
  "\<exists>le. le_reach le \<and> le_text le = [CHR 0xC3, CHR 0xA9, CHR ''b''] \<and> le_caret le = 2
     \<and> cp_at (le_text le) (le_caret le)
     \<and> (let le' = completed 2 [[CHR 0xC3, CHR 0xA8], [CHR 0xC3, CHR 0xA9]] le in \<not> cp_at (le_text le') (le_caret le'))
     \<and> (let le' = completed 2 [''abd'', ''abc''] le in cp_at (le_text le') (le_caret le'))"
proof -
  let ?le = "snd (line_edit_step (line_edit_feed [EvText [CHR 0xC3, CHR 0xA9, CHR ''b''], EvAction LaBackwardChar] (line_edit_new ''> '')))"
  have "list_all event_ok [EvText [CHR 0xC3, CHR 0xA9, CHR ''b''], EvAction LaBackwardChar]" by code_simp
  then have r: "le_reach ?le" by (intro le_reach.step le_reach.feed le_reach.start_new)
  have t: "le_text ?le = [CHR 0xC3, CHR 0xA9, CHR ''b''] \<and> le_caret ?le = 2" by code_simp
  have a: "cp_at (le_text ?le) 2" using caret_between_code_points [OF r] t by simp
  have "\<not> completion_whole 2 [[CHR 0xC3, CHR 0xA8], [CHR 0xC3, CHR 0xA9]] ?le" by code_simp
  moreover have "completion_whole 2 [''abd'', ''abc''] ?le" by code_simp
  ultimately show ?thesis using r t a caret_between_code_points [OF r] unfolding Let_def by blast
qed

text \<open>
  The queue is used up.  \<open>step\<close> returns idle only when no event is left, and when there
  were events it leaves less to do: a host that answers and calls again comes to the end.
\<close>

theorem line_edit_step_uses_queue:
  "(fst (line_edit_step le) = OcIdle \<longrightarrow> le_queue (snd (line_edit_step le)) = [])
   \<and> (le_queue le \<noteq> [] \<longrightarrow> queue_weight (snd (line_edit_step le)) < queue_weight le)"
  using line_edit_step_weight [of le] by simp

theorem line_edit_step_uses_queue_witness:
  "queue_weight (snd (line_edit_step (line_edit_feed [EvText ''a'', EvAction LaAccept, EvText ''b''] (line_edit_new []))))
     < queue_weight (line_edit_feed [EvText ''a'', EvAction LaAccept, EvText ''b''] (line_edit_new []))
   \<and> le_queue (snd (line_edit_step (line_edit_feed [EvOther] (line_edit_new [])))) = []"
proof -
  have "le_queue (line_edit_feed [EvText ''a'', EvAction LaAccept, EvText ''b''] (line_edit_new [])) \<noteq> []"
    by (simp add: line_edit_feed_def)
  moreover have "fst (line_edit_step (line_edit_feed [EvOther] (line_edit_new []))) = OcIdle" by code_simp
  ultimately show ?thesis
    using line_edit_step_uses_queue [of "line_edit_feed [EvText ''a'', EvAction LaAccept, EvText ''b''] (line_edit_new [])"]
      line_edit_step_uses_queue [of "line_edit_feed [EvOther] (line_edit_new [])"] by blast
qed

text \<open>
  Undo takes back the last change.  When an action other than undo and the line motions
  (which recall history) changes the text, undo right after it restores the text and the
  caret; so it does after a typed run.
\<close>

theorem undo_reverts:
  assumes "a \<notin> {LaUndo, LaPreviousLine, LaNextLine}"
    and "le_text (snd (apply_action a le)) \<noteq> le_text le" and "run \<noteq> []"
  shows "le_text (snd (apply_action LaUndo (snd (apply_action a le)))) = le_text le
    \<and> le_caret (snd (apply_action LaUndo (snd (apply_action a le)))) = le_caret le
    \<and> le_text (snd (apply_action LaUndo (insert_run run le))) = le_text le
    \<and> le_caret (snd (apply_action LaUndo (insert_run run le))) = le_caret le"
proof -
  have "le_undo (snd (act a (before_action a le))) = le_undo le @ [\<lparr>sn_text = le_text le, sn_caret = le_caret le\<rparr>]"
    using act_undo [OF assms(1), of "before_action a le"] assms(2) by (simp add: apply_action_def)
  moreover have "le_undo (insert_run run le) = le_undo le @ [\<lparr>sn_text = le_text le, sn_caret = le_caret le\<rparr>]"
    using assms(3) by (simp add: insert_run_def insert_text_def le_edit_def)
  ultimately show ?thesis
    using undo_action_last [of "before_action LaUndo (snd (act a (before_action a le)))" "le_undo le"]
      undo_action_last [of "before_action LaUndo (insert_run run le)" "le_undo le"]
    by (simp add: apply_action_def)
qed

theorem undo_reverts_witness:
  "le_text (snd (apply_action LaUndo (snd (apply_action LaKillWordBack (insert_run ''ls -l'' (line_edit_new [])))))) = ''ls -l''
   \<and> le_text (snd (apply_action LaKillWordBack (insert_run ''ls -l'' (line_edit_new [])))) = ''ls -''"
proof -
  have k: "le_text (snd (apply_action LaKillWordBack (insert_run ''ls -l'' (line_edit_new [])))) = ''ls -''"
    "le_text (insert_run ''ls -l'' (line_edit_new [])) = ''ls -l''" by code_simp+
  show ?thesis using undo_reverts [of LaKillWordBack "insert_run ''ls -l'' (line_edit_new [])" "''x''"] k by simp
qed

text \<open>
  Yank gives back what a kill took: a kill that starts a new slot, followed by a yank,
  leaves the text as it was.
\<close>

theorem kill_then_yank:
  assumes "kill_action a" and "\<not> le_killing le" and "le_text (snd (apply_action a le)) \<noteq> le_text le"
  shows "le_text (snd (apply_action LaYank (snd (apply_action a le)))) = le_text le"
proof -
  let ?le = "before_action a le"
  have k: "\<not> le_killing ?le" using assms(2) by (simp add: before_action_def Let_def)
  have y: "le_text (snd (apply_action LaYank (le1\<lparr>le_killing := b\<rparr>))) = le_text (snd (act LaYank le1))" for le1 b
    by (auto simp: apply_action_def before_action_def insert_text_def le_edit_def Let_def)
  have range: "le_text (snd (apply_action LaYank ((kill_range i j b ?le)\<lparr>le_killing := True\<rparr>))) = le_text le"
    if "le_text (kill_range i j b ?le) \<noteq> le_text le" for i j b
    using kill_range_yank [of i j b ?le] that k by (simp add: y)
  obtain i j b where "act a ?le = (OcIdle, (kill_range i j b ?le)\<lparr>le_killing := True\<rparr>)"
    using act_kill [OF assms(1)] by blast
  then show ?thesis using range [of i j b] assms(3) by (simp add: apply_action_def [of a])
qed

theorem kill_then_yank_witness:
  "le_text (snd (apply_action LaYank (snd (apply_action LaKillToStart (insert_run ''make all'' (line_edit_new [])))))) = ''make all''"
proof -
  have k: "le_text (snd (apply_action LaKillToStart (insert_run ''make all'' (line_edit_new [])))) = []"
    "le_text (insert_run ''make all'' (line_edit_new [])) = ''make all''"
    "\<not> le_killing (insert_run ''make all'' (line_edit_new []))" "kill_action LaKillToStart" by code_simp+
  show ?thesis using kill_then_yank [OF k(4,3)] k by simp
qed

text \<open>
  C18: round trip of the history file.  Records written one after another are read back as
  their modes and entries in order, whatever the lines of the entries look like, when no mode
  or entry has a carriage return and no time or mode a new-line.
\<close>

theorem history_file_roundtrip:
  assumes "list_all record_plain rs"
  shows "history_records (concat (map (\<lambda>(time, mode, entry). history_record time mode entry) rs))
    = map (\<lambda>(time, mode, entry). (mode, entry)) rs"
proof -
  have "\<exists>st'. records_go (concat (map (\<lambda>(time, mode, entry). history_record time mode entry) rs)) st = st'
      \<and> rs_out st' = rs_out st @ map (\<lambda>(time, mode, entry). (mode, entry)) rs" for st
    using assms
  proof (induction rs arbitrary: st)
    case Nil
    then show ?case by (simp add: records_go.simps)
  next
    case (Cons r rs)
    obtain t m e where r: "r = (t, m, e)" by (cases r) auto
    then obtain st1 where st1: "records_go (history_record t m e @ concat (map (\<lambda>(time, mode, entry). history_record time mode entry) rs)) st
        = records_go (concat (map (\<lambda>(time, mode, entry). history_record time mode entry) rs)) st1"
      "rs_out st1 = rs_out st @ [(m, e)]"
      using record_read [of t m e] Cons.prems by (simp add: r) blast
    then show ?case using Cons.IH [of st1] Cons.prems by (simp add: r)
  qed
  then show ?thesis by (simp add: history_records_def record_scan_start_def)
qed

theorem history_file_roundtrip_witness:
  "history_records (history_record ''t'' ''madc'' [CHR ''a'', CHR 0x0A, CHR ''#''] @ history_record ''u'' ''ex'' ''b'')
     = [(''madc'', [CHR ''a'', CHR 0x0A, CHR ''#'']), (''ex'', ''b'')]"
proof -
  have "list_all record_plain [(''t'', ''madc'', [CHR ''a'', CHR 0x0A, CHR ''#'']), (''u'', ''ex'', ''b'')]" by code_simp
  from history_file_roundtrip [OF this] show ?thesis by simp
qed

end
