(* ===== verification/PaintProps.thy ===== *)
theory PaintProps
  imports LinePaint LineEditRuns
begin

text \<open>
  The views of the line editor and the rows of the painter: a view shows the entry's lines
  with the caret in one of them, and the painter always knows a row of its own to climb from.
\<close>

section \<open>Views\<close>

lemma view_lines_lines: "lv_lines (view_lines caret i ls v) = lv_lines v @ ls"
  by (induction caret i ls v rule: view_lines.induct) (simp_all add: Let_def)

lemma view_lines_prompt: "lv_prompt (view_lines caret i ls v) = lv_prompt v"
  by (induction caret i ls v rule: view_lines.induct) (simp_all add: Let_def)

lemma view_lines_before: "caret < i \<Longrightarrow> lv_caret_line (view_lines caret i ls v) = lv_caret_line v
    \<and> lv_caret_byte (view_lines caret i ls v) = lv_caret_byte v"
  by (induction caret i ls v rule: view_lines.induct) (simp_all add: Let_def)

lemma view_lines_caret:
  assumes "i \<le> caret" and "caret \<le> i + length (join_lines ls)" and "ls \<noteq> []"
  shows "\<exists>k < length ls. lv_caret_line (view_lines caret i ls v) = length (lv_lines v) + k
    \<and> lv_caret_byte (view_lines caret i ls v) \<le> length (ls ! k)
    \<and> caret = i + line_start ls k + lv_caret_byte (view_lines caret i ls v)"
  using assms
proof (induction caret i ls v rule: view_lines.induct)
  case (2 caret i l ls v)
  let ?v1 = "if i \<le> caret \<and> caret \<le> i + length l
      then v\<lparr>lv_caret_line := length (lv_lines v), lv_caret_byte := caret - i\<rparr> else v"
  show ?case
  proof (cases "caret \<le> i + length l")
    case True
    then show ?thesis
      using "2.prems"(1) by (intro exI [of _ 0]) (simp add: Let_def view_lines_before line_start_def)
  next
    case False
    have "ls \<noteq> []" using False "2.prems" by (cases ls) auto
    moreover from this have "caret \<le> i + length l + 1 + length (join_lines ls)" using "2.prems"(2) by (cases ls) auto
    ultimately obtain k where k: "k < length ls"
      "lv_caret_line (view_lines caret (i + length l + 1) ls (v\<lparr>lv_lines := lv_lines v @ [l]\<rparr>)) = length (lv_lines v) + Suc k"
      "lv_caret_byte (view_lines caret (i + length l + 1) ls (v\<lparr>lv_lines := lv_lines v @ [l]\<rparr>)) \<le> length (ls ! k)"
      "caret = i + length l + 1 + line_start ls k
        + lv_caret_byte (view_lines caret (i + length l + 1) ls (v\<lparr>lv_lines := lv_lines v @ [l]\<rparr>))"
      using "2.IH" [OF refl] False by (auto simp: Let_def)
    then show ?thesis
      using False by (intro exI [of _ "Suc k"]) (simp add: Let_def line_start_def)
  qed
qed simp

lemma make_view_caret:
  assumes "caret \<le> length t"
  shows "lv_lines (make_view t caret p) = split_nl t \<and> lv_caret_line (make_view t caret p) < length (split_nl t)
    \<and> caret = line_start (split_nl t) (lv_caret_line (make_view t caret p)) + lv_caret_byte (make_view t caret p)
    \<and> lv_caret_byte (make_view t caret p) \<le> length (split_nl t ! lv_caret_line (make_view t caret p))"
  using view_lines_caret [of 0 caret "split_nl t"
      "\<lparr>lv_prompt = p, lv_lines = [], lv_caret_line = 0, lv_caret_byte = 0, lv_marks = []\<rparr>"] assms split_nl_lines [of t]
  by (auto simp: make_view_def join_split_nl view_lines_lines)

lemma search_caret_ok: "le_ok le \<Longrightarrow> le_searching le \<Longrightarrow> search_caret le \<le> length (search_shown le)"
  by (auto simp: le_ok_def search_ok_def in_history_def search_caret_def search_shown_def history_at_def cp_at_def
      split: option.splits)

lemma line_edit_view_caret:
  assumes "le_ok le"
  shows "lv_caret_line (line_edit_view le) < length (lv_lines (line_edit_view le))"
proof -
  have "lv_caret_line (make_view t c p) < length (lv_lines (make_view t c p))" if "c \<le> length t" for t c p
    using make_view_caret [OF that, of p] by simp
  then show ?thesis
    using le_okD(3) [OF assms] search_caret_ok [OF assms] by (simp add: line_edit_view_def)
qed

section \<open>Rows\<close>

definition painter_ok :: "line_painter \<Rightarrow> bool" where
  "painter_ok lp \<longleftrightarrow> (if lp_rows lp = 0 then lp_caret_row lp = 0 else lp_caret_row lp < lp_rows lp)"

lemma paint_lines_rows:
  assumes "0 < cols" and "ps_caret_row ps0 = 0"
  shows "ps_caret_row (fold (paint_line v cols origin) [0..<n] ps0) \<le> ps_row (fold (paint_line v cols origin) [0..<n] ps0)
    \<and> (lv_caret_line v < n \<longrightarrow>
        ps_caret_row (fold (paint_line v cols origin) [0..<n] ps0) < ps_row (fold (paint_line v cols origin) [0..<n] ps0))"
  using assms(2)
proof (induction n)
  case (Suc n)
  then show ?case
    using paint_line_rows [OF assms(1), of "fold (paint_line v cols origin) [0..<n] ps0" v n origin] by simp
qed simp

lemma paint_ok:
  assumes "lv_caret_line v < length (lv_lines v)"
  shows "painter_ok (snd (paint v cols lp))"
  using paint_lines_rows [of "if cols = 0 then 1 else cols"
      "\<lparr>ps_out = erase_rows lp, ps_row = 0, ps_end_row = 0, ps_caret_row = 0, ps_caret_col = line_width (lv_prompt v)\<rparr>"
      v "line_width (lv_prompt v)" "length (lv_lines v)"] assms
  by (auto simp: paint_def Let_def painter_ok_def)

text \<open>What a host does with a painter: forget, paint the entry as it is, end the entry.\<close>

inductive painter_reach :: "line_painter \<Rightarrow> bool" where
  new: "painter_reach painter_new"
| reset: "painter_reach lp \<Longrightarrow> painter_reach (painter_reset lp)"
| paint: "painter_reach lp \<Longrightarrow> le_reach le \<Longrightarrow> painter_reach (snd (paint (line_edit_view le) cols lp))"
| finish: "painter_reach lp \<Longrightarrow> painter_reach (snd (paint_finish v cols rest lp))"

section \<open>Properties\<close>

text \<open>
  The painter's rows.  Whatever was painted, at whatever widths, the row the cursor was left
  on is one of the rows painted, so the climb of the next paint - the rows painted less one
  less the caret's row - is never negative.
\<close>

theorem painter_rows_bound:
  assumes "painter_reach lp"
  shows "lp_rows lp = 0 \<and> lp_caret_row lp = 0 \<or> lp_caret_row lp \<le> lp_rows lp - 1 \<and> 0 < lp_rows lp"
proof -
  have "painter_ok lp"
    using assms
  proof (induction rule: painter_reach.induct)
    case (paint lp le cols)
    show ?case by (rule paint_ok [OF line_edit_view_caret [OF le_reach_ok [OF paint.hyps(2)]]])
  next
    case (finish lp v cols rest)
    show ?case by (simp add: paint_finish_def painter_reset_def painter_ok_def Let_def case_prod_beta)
  qed (simp_all add: painter_new_def painter_reset_def painter_ok_def)
  then show ?thesis by (auto simp: painter_ok_def split: if_splits)
qed

theorem painter_rows_bound_witness:
  "lp_rows (snd (paint (line_edit_view (line_edit_new ''> '')) 80 painter_new)) = 1
   \<and> lp_caret_row (snd (paint (line_edit_view (line_edit_new ''> '')) 80 painter_new)) = 0"
proof -
  have r: "painter_reach (snd (paint (line_edit_view (line_edit_new ''> '')) 80 painter_new))"
    by (intro painter_reach.paint painter_reach.new le_reach.start_new)
  have "lp_rows (snd (paint (line_edit_view (line_edit_new ''> '')) 80 painter_new)) = 1" by code_simp
  then show ?thesis using painter_rows_bound [OF r] by simp
qed

text \<open>
  A view shows the entry.  Its lines joined by new-lines are the text, and the caret's line
  and byte in it are the caret.
\<close>

theorem view_shows_entry:
  assumes "le_reach le" and "le_searching le = False"
  shows "join_lines (lv_lines (line_edit_view le)) = le_text le
    \<and> le_caret le = line_start (lv_lines (line_edit_view le)) (lv_caret_line (line_edit_view le)) + lv_caret_byte (line_edit_view le)
    \<and> lv_caret_byte (line_edit_view le) \<le> length (lv_lines (line_edit_view le) ! lv_caret_line (line_edit_view le))"
  using make_view_caret [OF le_okD(3) [OF le_reach_ok [OF assms(1)]], of "le_prompt le"] assms(2) join_split_nl [of "le_text le"]
  by (simp add: line_edit_view_def)

theorem view_shows_entry_witness:
  "join_lines (lv_lines (line_edit_view (snd (line_edit_step (line_edit_feed [EvText ''ab''] (line_edit_new [])))))) = ''ab''"
proof -
  let ?le = "snd (line_edit_step (line_edit_feed [EvText ''ab''] (line_edit_new [])))"
  have "list_all event_ok [EvText ''ab'']" by code_simp
  then have r: "le_reach ?le" by (intro le_reach.step le_reach.feed le_reach.start_new)
  have t: "le_text ?le = ''ab''" "le_searching ?le = False" by code_simp+
  show ?thesis using view_shows_entry [OF r t(2)] t(1) by simp
qed

end
