(* ===== verification/Interner.thy ===== *)
theory Interner
  imports Prelude
begin

text \<open>
  The interface of an interning table: what the compiler relies on when it stands a small
  handle for a spelling and compares handles instead of bytes.  The theory
  \<open>InternRuns\<close> interprets the locale on the model of \<open>intern_table\<close>, the index-linked table of one
  program; the process-wide table under \<open>istring\<close> is not modelled.

  Before the locale stands \<open>resize\<close>, the member of \<open>std::vector\<close> that the transactions of the
  tables use.
\<close>

definition resize :: "nat \<Rightarrow> 'a \<Rightarrow> 'a list \<Rightarrow> 'a list" where
  "resize n x xs = take n xs @ replicate (n - length xs) x"

lemma length_resize [simp]: "length (resize n x xs) = n"
  by (simp add: resize_def)

lemma resize_shrink: "n \<le> length xs \<Longrightarrow> resize n x xs = take n xs"
  by (simp add: resize_def)

lemma nth_resize: "i < n \<Longrightarrow> resize n x xs ! i = (if i < length xs then xs ! i else x)"
  by (auto simp: resize_def nth_append)

lemma nth_list_update_if: "xs[i := x] ! j = (if j = i \<and> i < length xs then x else xs ! j)"
  by (cases "i < length xs") (auto simp: nth_list_update list_update_beyond)

section \<open>The interface\<close>

text \<open>
  \<open>intern s t\<close> answers a handle and the table after it, or \<open>None\<close> when its search does not
  return.  \<open>spelling t i\<close> is the spelling a handle of the table stands for, \<open>ok\<close> the table's
  invariant and \<open>room s t\<close> says that the table's index type still has a value for one more
  spelling.
\<close>

locale interner =
  fixes intern :: "string \<Rightarrow> 't \<Rightarrow> ('i \<times> 't) option"
    and spelling :: "'t \<Rightarrow> 'i \<Rightarrow> string option"
    and ok :: "'t \<Rightarrow> bool"
    and room :: "string \<Rightarrow> 't \<Rightarrow> bool"
  assumes intern_total: "ok t \<Longrightarrow> room s t \<Longrightarrow> \<exists>i t'. intern s t = Some (i, t')"
    and intern_ok: "ok t \<Longrightarrow> room s t \<Longrightarrow> intern s t = Some (i, t') \<Longrightarrow> ok t'"
    and intern_spells: "ok t \<Longrightarrow> room s t \<Longrightarrow> intern s t = Some (i, t') \<Longrightarrow> spelling t' i = Some s"
    and intern_keeps: "ok t \<Longrightarrow> room s t \<Longrightarrow> intern s t = Some (i, t') \<Longrightarrow> spelling t j = Some r \<Longrightarrow> spelling t' j = Some r"
    and spelling_inj: "ok t \<Longrightarrow> spelling t i = Some s \<Longrightarrow> spelling t j = Some s \<Longrightarrow> i = j"
begin

text \<open>A run of interns: the handles in order and the table in the end.\<close>

fun intern_all :: "string list \<Rightarrow> 't \<Rightarrow> ('i list \<times> 't) option" where
  "intern_all [] t = Some ([], t)" |
  "intern_all (s # ss) t =
     (case intern s t of None \<Rightarrow> None
      | Some (i, t') \<Rightarrow> (case intern_all ss t' of None \<Rightarrow> None | Some (is, t'') \<Rightarrow> Some (i # is, t'')))"

fun roomy :: "string list \<Rightarrow> 't \<Rightarrow> bool" where
  "roomy [] t = True" |
  "roomy (s # ss) t = (room s t \<and> (\<forall>i t'. intern s t = Some (i, t') \<longrightarrow> roomy ss t'))"

lemma intern_all_spells:
  assumes "ok t" and "roomy ss t"
  shows "\<exists>is t'. intern_all ss t = Some (is, t') \<and> ok t' \<and> length is = length ss
    \<and> (\<forall>k < length ss. spelling t' (is ! k) = Some (ss ! k))
    \<and> (\<forall>j r. spelling t j = Some r \<longrightarrow> spelling t' j = Some r)"
  using assms
proof (induction ss arbitrary: t)
  case Nil
  then show ?case by simp
next
  case (Cons s ss)
  obtain i t1 where i: "intern s t = Some (i, t1)" using intern_total [of t s] Cons.prems by auto
  have ok1: "ok t1" and r1: "roomy ss t1" using intern_ok [OF _ _ i] Cons.prems i by auto
  obtain "is" t2 where ih: "intern_all ss t1 = Some (is, t2)" "ok t2" "length is = length ss"
    "\<And>k. k < length ss \<Longrightarrow> spelling t2 (is ! k) = Some (ss ! k)"
    "\<And>j r. spelling t1 j = Some r \<Longrightarrow> spelling t2 j = Some r"
    using Cons.IH [OF ok1 r1] by blast
  have keep: "spelling t1 j = Some r" if "spelling t j = Some r" for j r
    using intern_keeps [OF _ _ i that] Cons.prems by simp
  have "spelling t1 i = Some s" using intern_spells [OF _ _ i] Cons.prems by simp
  then have "spelling t2 ((i # is) ! k) = Some ((s # ss) ! k)" if "k < length (s # ss)" for k
    using that ih(4,5) by (cases k) auto
  then show ?case using i ih(1-3) ih(5) keep by auto
qed

text \<open>Handles are equal exactly when the spellings are: the reason to intern.\<close>

lemma handles_equal_iff:
  assumes "ok t" and "roomy ss t"
  shows "\<exists>is t'. intern_all ss t = Some (is, t') \<and> length is = length ss
    \<and> (\<forall>j < length ss. \<forall>k < length ss. is ! j = is ! k \<longleftrightarrow> ss ! j = ss ! k)"
proof -
  obtain "is" t' where r: "intern_all ss t = Some (is, t')" "ok t'" "length is = length ss"
    "\<And>k. k < length ss \<Longrightarrow> spelling t' (is ! k) = Some (ss ! k)"
    using intern_all_spells [OF assms] by blast
  have "is ! j = is ! k \<longleftrightarrow> ss ! j = ss ! k" if "j < length ss" "k < length ss" for j k
    using r(4) [OF that(1)] r(4) [OF that(2)] spelling_inj [OF r(2)] by (metis option.inject)
  then show ?thesis using r(1,3) by blast
qed

text \<open>Interning a spelling that the table holds answers its handle.\<close>

lemma intern_again:
  assumes "ok t" and "room s t" and "spelling t i = Some s"
  shows "\<exists>t'. intern s t = Some (i, t')"
proof -
  obtain j t' where j: "intern s t = Some (j, t')" using intern_total assms by blast
  have "spelling t' j = Some s" "spelling t' i = Some s" "ok t'"
    using intern_spells [OF assms(1,2) j] intern_keeps [OF assms(1,2) j assms(3)] intern_ok [OF assms(1,2) j] by auto
  then show ?thesis using spelling_inj [of t' i s j] j by auto
qed

end

end
