(* ===== verification/InternTable.thy ===== *)
theory InternTable
  imports Interner
begin

unbundle bit_operations_syntax

text \<open>
  The compiler's interning table and its frozen form, from
  \<^verbatim>\<open>include/madcdis/intern_table.h\<close>: classes \<open>intern_table\<close> and \<open>frozen_intern_table\<close>.

  The three blocks of the table - the byte arena, the entry arena and the bucket array - are
  lists; offsets, lengths, hashes and ids keep their width of 32 bits, and the casts of the
  arenas' sizes to \<open>uint32_t\<close> are written as \<^const>\<open>of_nat\<close>.  The search along a hash chain
  follows the \<open>next\<close> words until it meets the end mark, so it is a partial function: \<open>None\<close>
  is a search that does not return.  \<open>reserve\<close> of a vector changes no element and is left out.
  Sizes passed to \<open>reserve\<close> are below \<open>2 ^ 63\<close>, so the doubling of the bucket count does not
  leave \<open>size_t\<close>.
\<close>

section \<open>Hash\<close>

definition hash_init :: "32 word" where
  "hash_init = 1"

definition hash_step :: "32 word \<Rightarrow> char \<Rightarrow> 32 word" where
  "hash_step h c = h + push_bit 5 h + drop_bit 27 h + of_nat (byte c)"

definition hash_bytes :: "string \<Rightarrow> 32 word" where
  "hash_bytes s = foldl hash_step hash_init s"

section \<open>The table\<close>

record intern_entry =
  ie_off :: "32 word"
  ie_len :: "32 word"
  ie_hash :: "32 word"
  ie_next :: "32 word"

record intern_table =
  it_bytes :: string
  it_entries :: "intern_entry list"
  it_buckets :: "32 word list"
  it_names :: "string list"

definition chain_end :: "32 word" where
  "chain_end = 0xFFFFFFFF"

definition bucket_of :: "32 word \<Rightarrow> nat \<Rightarrow> nat" where
  "bucket_of h nbuckets = unat (h AND (of_nat nbuckets - 1))"

definition link_entry :: "nat \<Rightarrow> intern_table \<Rightarrow> intern_table" where
  "link_entry i t =
     (let e = it_entries t ! i; b = bucket_of (ie_hash e) (length (it_buckets t))
      in t\<lparr>it_entries := (it_entries t)[i := e\<lparr>ie_next := it_buckets t ! b\<rparr>],
           it_buckets := (it_buckets t)[b := of_nat i]\<rparr>)"

definition rehash :: "nat \<Rightarrow> intern_table \<Rightarrow> intern_table" where
  "rehash nbuckets t =
     fold link_entry [1..<length (it_entries t)] (t\<lparr>it_buckets := replicate nbuckets chain_end\<rparr>)"

text \<open>\<open>nb = 1024; while ( nb < nentries ) nb <<= 1;\<close>\<close>

function grow_pow2 :: "nat \<Rightarrow> nat \<Rightarrow> nat" where
  "grow_pow2 nb nentries = (if 0 < nb \<and> nb < nentries then grow_pow2 (2 * nb) nentries else nb)"
  by auto
termination by (relation "measure (\<lambda>(nb, n). n - nb)") auto

declare grow_pow2.simps [simp del]

definition intern_reserve :: "nat \<Rightarrow> intern_table \<Rightarrow> intern_table" where
  "intern_reserve nentries t =
     (let nb = grow_pow2 1024 nentries
      in if length (it_buckets t) < nb
         then if length (it_entries t) \<le> 1 then t\<lparr>it_buckets := replicate nb chain_end\<rparr> else rehash nb t
         else t)"

definition intern_table_new :: intern_table where
  "intern_table_new =
     (let t = intern_reserve 4096 \<lparr>it_bytes = [], it_entries = [], it_buckets = [], it_names = []\<rparr>;
          t = t\<lparr>it_bytes := [CHR 0x00], it_entries := [\<lparr>ie_off = 0, ie_len = 0, ie_hash = 0, ie_next = chain_end\<rparr>]\<rparr>
      in if it_buckets t = [] then t\<lparr>it_buckets := replicate 1024 chain_end\<rparr> else t)"

text \<open>\<open>memcmp(&_bytes[e.off], s, len) == 0\<close>, behind the tests of the hash and the length.\<close>

definition entry_is :: "intern_table \<Rightarrow> string \<Rightarrow> 32 word \<Rightarrow> intern_entry \<Rightarrow> bool" where
  "entry_is t s h e \<longleftrightarrow> ie_hash e = h \<and> ie_len e = of_nat (length s)
     \<and> take (length s) (drop (unat (ie_off e)) (it_bytes t)) = s"

partial_function (option) chain_find :: "intern_table \<Rightarrow> string \<Rightarrow> 32 word \<Rightarrow> 32 word \<Rightarrow> 32 word option" where
  "chain_find t s h i =
     (if i = chain_end then Some chain_end
      else if entry_is t s h (it_entries t ! unat i) then Some i
      else chain_find t s h (ie_next (it_entries t ! unat i)))"

declare chain_find.simps [code]

definition find_hashed :: "string \<Rightarrow> 32 word \<Rightarrow> intern_table \<Rightarrow> 32 word option" where
  "find_hashed s h t =
     (if s = [] then Some 0
      else chain_find t s h (it_buckets t ! bucket_of h (length (it_buckets t))))"

definition append_entry :: "string \<Rightarrow> 32 word \<Rightarrow> intern_table \<Rightarrow> 32 word \<times> intern_table" where
  "append_entry s h t =
     (let b = bucket_of h (length (it_buckets t)); id = of_nat (length (it_entries t));
          e = \<lparr>ie_off = of_nat (length (it_bytes t)), ie_len = of_nat (length s), ie_hash = h,
               ie_next = it_buckets t ! b\<rparr>
      in (id, t\<lparr>it_bytes := it_bytes t @ s @ [CHR 0x00], it_entries := it_entries t @ [e],
                it_buckets := (it_buckets t)[b := id]\<rparr>))"

definition intern_hashed :: "string \<Rightarrow> 32 word \<Rightarrow> intern_table \<Rightarrow> (32 word \<times> intern_table) option" where
  "intern_hashed s h t =
     (case find_hashed s h t of
        None \<Rightarrow> None
      | Some i \<Rightarrow>
          if i \<noteq> chain_end then Some (i, t)
          else Some (append_entry s h
                 (if length (it_buckets t) < length (it_entries t)
                  then rehash (length (it_buckets t) * 2) t else t)))"

definition intern_string :: "string \<Rightarrow> intern_table \<Rightarrow> (32 word \<times> intern_table) option" where
  "intern_string s t = (if s = [] then Some (0, t) else intern_hashed s (hash_bytes s) t)"

definition find_string :: "string \<Rightarrow> intern_table \<Rightarrow> 32 word option" where
  "find_string s t = (if s = [] then Some 0 else find_hashed s (hash_bytes s) t)"

text \<open>Reading an id: \<open>c_str\<close> with \<open>length\<close>, the memoized name, the count.\<close>

definition entry_text :: "intern_table \<Rightarrow> 32 word \<Rightarrow> string" where
  "entry_text t i =
     (let e = it_entries t ! unat i in take (unat (ie_len e)) (drop (unat (ie_off e)) (it_bytes t)))"

definition grow_names :: "nat \<Rightarrow> intern_table \<Rightarrow> intern_table" where
  "grow_names i t =
     (if length (it_names t) \<le> i then t\<lparr>it_names := resize (length (it_entries t)) [] (it_names t)\<rparr> else t)"

definition name_slow :: "32 word \<Rightarrow> intern_table \<Rightarrow> string \<times> intern_table" where
  "name_slow i t =
     (if i = 0 then ([], t)
      else let t = grow_names (unat i) t;
               n = (if it_names t ! unat i = [] then entry_text t i else it_names t ! unat i)
           in (n, t\<lparr>it_names := (it_names t)[unat i := n]\<rparr>))"

definition intern_name :: "32 word \<Rightarrow> intern_table \<Rightarrow> string \<times> intern_table" where
  "intern_name i t =
     (if unat i < length (it_names t) \<and> it_names t ! unat i \<noteq> [] then (it_names t ! unat i, t)
      else name_slow i t)"

definition intern_count :: "intern_table \<Rightarrow> nat" where
  "intern_count t = length (it_entries t) - 1"

section \<open>Transactions\<close>

record intern_mark =
  im_bytes :: nat
  im_entries :: nat

definition intern_begin :: "intern_table \<Rightarrow> intern_mark" where
  "intern_begin t = \<lparr>im_bytes = length (it_bytes t), im_entries = length (it_entries t)\<rparr>"

definition intern_rollback :: "intern_mark \<Rightarrow> intern_table \<Rightarrow> intern_table" where
  "intern_rollback m t =
     rehash (length (it_buckets t))
       (t\<lparr>it_bytes := resize (im_bytes m) (CHR 0x00) (it_bytes t),
          it_entries := resize (im_entries m) \<lparr>ie_off = 0, ie_len = 0, ie_hash = 0, ie_next = 0\<rparr> (it_entries t),
          it_names := (if im_entries m < length (it_names t) then resize (im_entries m) [] (it_names t) else it_names t)\<rparr>)"

section \<open>The frozen table\<close>

text \<open>A length as LEB128: seven bits a byte, the low ones first, the high bit on all but the last.\<close>

function leb128 :: "32 word \<Rightarrow> string" where
  "leb128 n =
     (let rest = drop_bit 7 n
      in if rest = 0 then [char_of (unat (n AND 0x7F))] else char_of (unat ((n AND 0x7F) OR 0x80)) # leb128 rest)"
  by auto
termination
proof (relation "measure unat")
  fix n rest :: "32 word"
  assume "rest = drop_bit 7 n" and r: "rest \<noteq> 0"
  then have "unat rest = unat n div 128" by (simp add: drop_bit_eq_div unat_div)
  moreover have "unat rest \<noteq> 0" using r by (simp add: unat_eq_zero)
  ultimately show "(rest, n) \<in> measure unat" by simp
qed simp

declare leb128.simps [simp del]

text \<open>\<open>frozen_blocks\<close>: the records and the offset of each, closed by the records' size.\<close>

definition frozen_record :: "intern_table \<Rightarrow> intern_entry \<Rightarrow> string" where
  "frozen_record t e =
     leb128 (ie_len e) @ take (unat (ie_len e)) (drop (unat (ie_off e)) (it_bytes t)) @ [CHR 0x00]"

fun frozen_go :: "intern_table \<Rightarrow> string \<Rightarrow> intern_entry list \<Rightarrow> string \<times> 32 word list" where
  "frozen_go t bytes [] = (bytes, [of_nat (length bytes)])" |
  "frozen_go t bytes (e # es) =
     (let (bytes', offs) = frozen_go t (bytes @ frozen_record t e) es in (bytes', of_nat (length bytes) # offs))"

definition frozen_blocks :: "intern_table \<Rightarrow> string \<times> 32 word list" where
  "frozen_blocks t = frozen_go t [] (it_entries t)"

text \<open>
  The read-only view.  \<open>fz_ensure off len\<close> is \<open>lazy_ensure\<close> of the block source: it says whether
  the range can be made readable.  A read outside a block is undefined behaviour.
\<close>

record frozen_table =
  fz_bytes :: string
  fz_offsets :: "32 word list"
  fz_ensure :: "nat \<Rightarrow> nat \<Rightarrow> bool"

definition block_read :: "'a list \<Rightarrow> nat \<Rightarrow> 'a cxx" where
  "block_read xs i = (if i < length xs then Inr (xs ! i) else Inl UndefinedBehaviour)"

function length_go :: "frozen_table \<Rightarrow> nat \<Rightarrow> nat \<Rightarrow> 32 word \<Rightarrow> (32 word \<times> nat) option cxx" where
  "length_go f sh at n =
     (if 28 < sh \<or> length (fz_bytes f) \<le> at \<or> \<not> fz_ensure f at 1 then Inr None
      else ebind (block_read (fz_bytes f) at) (\<lambda>c.
        let b = of_nat (byte c) :: 32 word; n = n OR push_bit sh (b AND 0x7F)
        in if b AND 0x80 = 0 then Inr (Some (n, at + 1)) else length_go f (sh + 7) (at + 1) n))"
  by auto
termination by (relation "measure (\<lambda>(f, sh, at, n). 35 - sh)") auto

declare length_go.simps [simp del]

definition frozen_spelling :: "32 word \<Rightarrow> frozen_table \<Rightarrow> string option cxx" where
  "frozen_spelling i f =
     (if length (fz_offsets f) \<le> unat i + 1 then Inr None
      else ebind (block_read (fz_offsets f) (unat i)) (\<lambda>off.
        ebind (length_go f 0 (unat off) 0) (\<lambda>r. case r of
          None \<Rightarrow> Inr None
        | Some (n, at) \<Rightarrow>
            if length (fz_bytes f) - at \<le> unat n \<or> \<not> fz_ensure f at (unat n + 1) then Inr None
            else ebind (block_read (fz_bytes f) (at + unat n)) (\<lambda>c.
              if c \<noteq> CHR 0x00 then Inr None
              else Inr (Some (take (unat n) (drop at (fz_bytes f))))))))"

definition frozen_valid :: "frozen_table \<Rightarrow> bool" where
  "frozen_valid f \<longleftrightarrow> fz_bytes f \<noteq> [] \<and> 2 \<le> length (fz_offsets f) \<and> fz_offsets f ! 0 = 0
     \<and> unat (fz_offsets f ! (length (fz_offsets f) - 1)) = length (fz_bytes f)"

definition frozen_str :: "32 word \<Rightarrow> frozen_table \<Rightarrow> string cxx" where
  "frozen_str i f = ebind (frozen_spelling i f) (\<lambda>r. Inr (case r of None \<Rightarrow> [] | Some s \<Rightarrow> s))"

definition frozen_count :: "frozen_table \<Rightarrow> nat" where
  "frozen_count f = (if 2 \<le> length (fz_offsets f) then length (fz_offsets f) - 2 else 0)"

end
