(* ===== verification/InternProps.thy ===== *)
theory InternProps
  imports InternTable
begin

unbundle bit_operations_syntax

text \<open>
  Correctness of the interning table: its hash chains hold every entry of a bucket in
  descending order, so a search returns and finds exactly what was interned; the table
  refines the list of the distinct spellings in the order of their ids; rolling back is
  cutting that list.  The frozen form reads back every spelling and never reads outside its
  blocks.
\<close>

section \<open>Hash chains\<close>

text \<open>The greatest index below \<open>n\<close>, other than 0, that satisfies \<open>P\<close>, as an id.\<close>

primrec latest :: "(nat \<Rightarrow> bool) \<Rightarrow> nat \<Rightarrow> 32 word" where
  "latest P 0 = chain_end" |
  "latest P (Suc k) = (if k \<noteq> 0 \<and> P k then of_nat k else latest P k)"

lemma latest_cong: "(\<And>i. i < n \<Longrightarrow> i \<noteq> 0 \<Longrightarrow> P i = Q i) \<Longrightarrow> latest P n = latest Q n"
  by (induction n) auto

lemma latest_none: "(\<And>i. i < n \<Longrightarrow> i \<noteq> 0 \<Longrightarrow> \<not> P i) \<Longrightarrow> latest P n = chain_end"
  by (induction n) auto

lemma latest_eq: "k < n \<Longrightarrow> k \<noteq> 0 \<Longrightarrow> latest (\<lambda>i. i = k) n = of_nat k"
  by (induction n) auto

lemma latest_unique:
  assumes "k < n" and "k \<noteq> 0" and "\<And>i. i < n \<Longrightarrow> i \<noteq> 0 \<Longrightarrow> P i \<longleftrightarrow> i = k"
  shows "latest P n = of_nat k"
  using latest_cong [of n P "\<lambda>i. i = k"] assms(3) latest_eq [OF assms(1,2)] by simp

lemma unat_of_small: "n < 2 ^ 32 \<Longrightarrow> unat (of_nat n :: 32 word) = n"
  by (simp add: unat_of_nat take_bit_nat_eq_self)

lemma id_not_end:
  assumes "Suc k < 2 ^ 32"
  shows "of_nat k \<noteq> chain_end"
proof -
  have "unat (of_nat k :: 32 word) = k" using assms by (simp add: unat_of_small)
  moreover have "unat chain_end = 2 ^ 32 - 1" by (simp add: chain_end_def)
  ultimately show ?thesis using assms by auto
qed

definition hash_of :: "intern_table \<Rightarrow> nat \<Rightarrow> 32 word" where
  "hash_of t i = ie_hash (it_entries t ! i)"

abbreviation bucket_at :: "intern_table \<Rightarrow> nat \<Rightarrow> nat" where
  "bucket_at t i \<equiv> bucket_of (hash_of t i) (length (it_buckets t))"

definition chains_upto :: "nat \<Rightarrow> intern_table \<Rightarrow> bool" where
  "chains_upto n t \<longleftrightarrow>
     (\<forall>b < length (it_buckets t). it_buckets t ! b = latest (\<lambda>i. bucket_at t i = b) n)
     \<and> (\<forall>i < n. i \<noteq> 0 \<longrightarrow> ie_next (it_entries t ! i) = latest (\<lambda>j. bucket_at t j = bucket_at t i) i)"

lemma bucket_of_less:
  assumes "nb = 2 ^ k"
  shows "bucket_of h nb < nb"
proof -
  have "(of_nat nb :: 32 word) - 1 = mask k"
    by (simp add: assms mask_eq_exp_minus_1)
  then have "bucket_of h nb = unat (take_bit k h)"
    by (simp add: bucket_of_def take_bit_eq_mask)
  also have "\<dots> < 2 ^ k"
    by (simp add: unsigned_take_bit_eq)
  finally show ?thesis by (simp add: assms)
qed

text \<open>Linking changes the chain words only.\<close>

definition core :: "intern_entry \<Rightarrow> 32 word \<times> 32 word \<times> 32 word" where
  "core e = (ie_off e, ie_len e, ie_hash e)"

lemma core_update [simp]: "core (e\<lparr>ie_next := n\<rparr>) = core e"
  by (simp add: core_def)

lemma link_entry_frame [simp]:
  "it_bytes (link_entry i t) = it_bytes t" "it_names (link_entry i t) = it_names t"
  "length (it_buckets (link_entry i t)) = length (it_buckets t)"
  "length (it_entries (link_entry i t)) = length (it_entries t)"
  by (simp_all add: link_entry_def Let_def)

lemma link_entry_core: "map core (it_entries (link_entry i t)) = map core (it_entries t)"
proof (cases "i < length (it_entries t)")
  case True
  then have "(map core (it_entries t))[i := core (it_entries t ! i)] = map core (it_entries t)"
    by (intro list_update_same_conv [THEN iffD2]) simp_all
  then show ?thesis by (simp add: link_entry_def Let_def map_update)
qed (simp add: link_entry_def Let_def list_update_beyond)

lemma hash_of_core: "map core (it_entries t) = map core (it_entries t') \<Longrightarrow> i < length (it_entries t) \<Longrightarrow> hash_of t i = hash_of t' i"
  by (metis core_def hash_of_def length_map nth_map prod.inject)

lemma link_entry_hash: "i < length (it_entries t) \<Longrightarrow> hash_of (link_entry n t) i = hash_of t i"
  using hash_of_core [of "link_entry n t" t i] link_entry_core by simp

lemma link_entry_chains:
  assumes "chains_upto n t" and "n \<noteq> 0" and "n < length (it_entries t)"
    and "length (it_buckets t) = 2 ^ k"
  shows "chains_upto (Suc n) (link_entry n t)"
proof -
  let ?t = "link_entry n t" and ?B = "bucket_at t n"
  have B: "?B < length (it_buckets t)" using bucket_of_less [OF assms(4)] by simp
  have h: "bucket_at ?t i = bucket_at t i" if "i < length (it_entries t)" for i
    using link_entry_hash [OF that] by simp
  have bs: "it_buckets ?t = (it_buckets t)[?B := of_nat n]"
    by (simp add: link_entry_def hash_of_def Let_def)
  have nx: "ie_next (it_entries ?t ! i) = (if i = n then it_buckets t ! ?B else ie_next (it_entries t ! i))"
    if "i \<le> n" for i
    using that assms(3) by (auto simp: link_entry_def hash_of_def Let_def nth_list_update)
  have lat: "latest (\<lambda>j. bucket_at ?t j = b) m = latest (\<lambda>j. bucket_at t j = b) m" if "m \<le> n" for b m
    using that assms(3) h by (intro latest_cong) simp
  have ch: "it_buckets t ! b = latest (\<lambda>i. bucket_at t i = b) n" if "b < length (it_buckets t)" for b
    using assms(1) that by (simp add: chains_upto_def)
  show ?thesis
    unfolding chains_upto_def
  proof (intro conjI allI impI)
    fix b assume b: "b < length (it_buckets ?t)"
    show "it_buckets ?t ! b = latest (\<lambda>i. bucket_at ?t i = b) (Suc n)"
      using b ch [of b] assms(2) lat [of n b] h [OF assms(3)] by (auto simp: bs nth_list_update B)
  next
    fix i assume i: "i < Suc n" "i \<noteq> 0"
    show "ie_next (it_entries ?t ! i) = latest (\<lambda>j. bucket_at ?t j = bucket_at ?t i) i"
    proof (cases "i = n")
      case True
      then show ?thesis using nx [of n] ch [OF B] lat [of n ?B] h [OF assms(3)] by simp
    next
      case False
      then have "i < n" using i by simp
      then have "ie_next (it_entries t ! i) = latest (\<lambda>j. bucket_at t j = bucket_at t i) i"
        using assms(1) i(2) by (simp add: chains_upto_def)
      then show ?thesis using nx [of i] False \<open>i < n\<close> lat [of i "bucket_at t i"] h [of i] assms(3) by simp
    qed
  qed
qed

lemma rehash_go:
  assumes "length (it_buckets t) = 2 ^ k" and "n \<le> length (it_entries t)" and "0 < n" and "chains_upto 1 t"
  shows "chains_upto n (fold link_entry [1..<n] t)
    \<and> map core (it_entries (fold link_entry [1..<n] t)) = map core (it_entries t)
    \<and> length (it_buckets (fold link_entry [1..<n] t)) = length (it_buckets t)
    \<and> it_bytes (fold link_entry [1..<n] t) = it_bytes t \<and> it_names (fold link_entry [1..<n] t) = it_names t"
  using assms(2,3)
proof (induction n)
  case (Suc n)
  show ?case
  proof (cases "n = 0")
    case True
    then show ?thesis using assms(4) by simp
  next
    case False
    let ?t = "fold link_entry [1..<n] t"
    have ih: "chains_upto n ?t" "map core (it_entries ?t) = map core (it_entries t)"
      "length (it_buckets ?t) = length (it_buckets t)" "it_bytes ?t = it_bytes t" "it_names ?t = it_names t"
      using Suc.IH Suc.prems False by auto
    have len: "length (it_entries ?t) = length (it_entries t)" using ih(2) map_eq_imp_length_eq by blast
    have "fold link_entry [1..<Suc n] t = link_entry n ?t" using False by simp
    then show ?thesis
      using link_entry_chains [of n ?t k] ih Suc.prems False len assms(1) link_entry_core by simp
  qed
qed simp

lemma rehash_props:
  assumes "nb = 2 ^ k" and "it_entries t \<noteq> []"
  shows "chains_upto (length (it_entries t)) (rehash nb t)"
    and "map core (it_entries (rehash nb t)) = map core (it_entries t)"
    and "length (it_buckets (rehash nb t)) = nb"
    and "it_bytes (rehash nb t) = it_bytes t" and "it_names (rehash nb t) = it_names t"
proof -
  let ?t = "t\<lparr>it_buckets := replicate nb chain_end\<rparr>"
  have "chains_upto 1 ?t" by (simp add: chains_upto_def)
  then have "chains_upto (length (it_entries t)) (fold link_entry [1..<length (it_entries t)] ?t)
    \<and> map core (it_entries (fold link_entry [1..<length (it_entries t)] ?t)) = map core (it_entries ?t)
    \<and> length (it_buckets (fold link_entry [1..<length (it_entries t)] ?t)) = length (it_buckets ?t)
    \<and> it_bytes (fold link_entry [1..<length (it_entries t)] ?t) = it_bytes ?t
    \<and> it_names (fold link_entry [1..<length (it_entries t)] ?t) = it_names ?t"
    using assms by (intro rehash_go [where k = k]) auto
  then show "chains_upto (length (it_entries t)) (rehash nb t)"
    and "map core (it_entries (rehash nb t)) = map core (it_entries t)"
    and "length (it_buckets (rehash nb t)) = nb"
    and "it_bytes (rehash nb t) = it_bytes t" and "it_names (rehash nb t) = it_names t"
    by (simp_all add: rehash_def)
qed

text \<open>A search of a chain answers the latest entry of the bucket that is the one sought.\<close>

lemma chain_find_latest:
  assumes "chains_upto (length (it_entries t)) t" and "length (it_entries t) < 2 ^ 32" and "n \<le> length (it_entries t)"
  shows "chain_find t s h (latest (\<lambda>i. bucket_at t i = b) n)
    = Some (latest (\<lambda>i. bucket_at t i = b \<and> entry_is t s h (it_entries t ! i)) n)"
  using assms(3)
proof (induction n)
  case 0
  then show ?case by (simp add: chain_find.simps)
next
  case (Suc n)
  note ih = Suc.IH [OF Suc_leD [OF Suc.prems]]
  show ?case
  proof (cases "n \<noteq> 0 \<and> bucket_at t n = b")
    case False
    then show ?thesis using ih by auto
  next
    case True
    have n: "of_nat n \<noteq> chain_end" "unat (of_nat n :: 32 word) = n"
      using id_not_end [of n] Suc.prems assms(2) by (simp_all add: unat_of_small)
    have "ie_next (it_entries t ! n) = latest (\<lambda>j. bucket_at t j = b) n"
      using assms(1) Suc.prems True by (simp add: chains_upto_def)
    then show ?thesis using True n ih by (simp add: chain_find.simps [of t s h "of_nat n"])
  qed
qed

section \<open>The table as a list of spellings\<close>

definition arena :: "string list \<Rightarrow> string" where
  "arena ss = concat (map (\<lambda>s. s @ [CHR 0x00]) ss)"

lemma arena_simps [simp]: "arena [] = []" "arena (s # ss) = s @ CHR 0x00 # arena ss" "arena (ss @ rs) = arena ss @ arena rs"
  by (simp_all add: arena_def)

lemma length_le_arena: "length ss \<le> length (arena ss)"
  by (induction ss) auto

lemma arena_split: "i < length ss \<Longrightarrow> arena ss = arena (take i ss) @ ss ! i @ CHR 0x00 # arena (drop (Suc i) ss)"
  using id_take_nth_drop [of i ss] by (metis arena_simps(2,3))

lemma arena_at: "i < length ss \<Longrightarrow> take (length (ss ! i)) (drop (length (arena (take i ss))) (arena ss)) = ss ! i"
  by (simp add: arena_split)

lemma arena_bound: "i < length ss \<Longrightarrow> length (arena (take i ss)) + length (ss ! i) < length (arena ss)"
  by (simp add: arena_split)

definition core_at :: "string list \<Rightarrow> nat \<Rightarrow> 32 word \<times> 32 word \<times> 32 word" where
  "core_at ss i = (of_nat (length (arena (take i ss))), of_nat (length (ss ! i)), if i = 0 then 0 else hash_bytes (ss ! i))"

text \<open>\<open>table_of ss t\<close>: the table \<open>t\<close> holds the spellings \<open>ss\<close>, the empty one first, id by id.\<close>

definition table_of :: "string list \<Rightarrow> intern_table \<Rightarrow> bool" where
  "table_of ss t \<longleftrightarrow> ss \<noteq> [] \<and> ss ! 0 = [] \<and> distinct ss \<and> length (arena ss) < 2 ^ 32
     \<and> it_bytes t = arena ss \<and> map core (it_entries t) = map (core_at ss) [0..<length ss]
     \<and> (\<exists>k. length (it_buckets t) = 2 ^ k) \<and> chains_upto (length ss) t
     \<and> length (it_names t) \<le> length ss \<and> (\<forall>i < length (it_names t). it_names t ! i \<in> {[], ss ! i})"

lemma table_ofD:
  assumes "table_of ss t"
  shows "ss \<noteq> []" "ss ! 0 = []" "distinct ss" "length (arena ss) < 2 ^ 32" "it_bytes t = arena ss"
    "map core (it_entries t) = map (core_at ss) [0..<length ss]" "\<exists>k. length (it_buckets t) = 2 ^ k"
    "chains_upto (length ss) t" "length (it_names t) \<le> length ss"
    "\<And>i. i < length (it_names t) \<Longrightarrow> it_names t ! i = [] \<or> it_names t ! i = ss ! i"
    "length (it_entries t) = length ss" "length ss < 2 ^ 32"
proof -
  show l: "length (it_entries t) = length ss"
    using assms map_eq_imp_length_eq by (fastforce simp: table_of_def)
  show "length ss < 2 ^ 32"
    using assms length_le_arena [of ss] by (simp add: table_of_def)
qed (use assms in \<open>auto simp: table_of_def\<close>)

lemma table_entry:
  assumes "table_of ss t" and "i < length ss"
  shows "unat (ie_off (it_entries t ! i)) = length (arena (take i ss))"
    and "unat (ie_len (it_entries t ! i)) = length (ss ! i)"
    and "i \<noteq> 0 \<Longrightarrow> hash_of t i = hash_bytes (ss ! i)"
    and "ie_len (it_entries t ! i) = of_nat (length (ss ! i))"
proof -
  note d = table_ofD [OF assms(1)]
  have c: "core (it_entries t ! i) = core_at ss i"
    using arg_cong [OF d(6), of "\<lambda>xs. xs ! i"] assms(2) d(11) by simp
  have "length (arena (take i ss)) < 2 ^ 32" "length (ss ! i) < 2 ^ 32"
    using arena_bound [OF assms(2)] d(4) by simp_all
  then show "unat (ie_off (it_entries t ! i)) = length (arena (take i ss))"
    and "unat (ie_len (it_entries t ! i)) = length (ss ! i)"
    and "ie_len (it_entries t ! i) = of_nat (length (ss ! i))"
    using c by (simp_all add: core_def core_at_def unat_of_small)
  show "i \<noteq> 0 \<Longrightarrow> hash_of t i = hash_bytes (ss ! i)"
    using c by (simp add: core_def core_at_def hash_of_def)
qed

lemma table_text: "table_of ss t \<Longrightarrow> i < length ss \<Longrightarrow> entry_text t (of_nat i) = ss ! i"
  using table_entry [of ss t i] table_ofD(4,5,12) [of ss t]
  by (simp add: entry_text_def unat_of_small arena_at)

lemma table_entry_is:
  assumes "table_of ss t" and "i < length ss" and "i \<noteq> 0" and "length s < 2 ^ 32"
  shows "entry_is t s (hash_bytes s) (it_entries t ! i) \<longleftrightarrow> ss ! i = s"
proof
  note e = table_entry [OF assms(1,2)]
  assume a: "entry_is t s (hash_bytes s) (it_entries t ! i)"
  then have "length (ss ! i) = length s"
    using e(2) assms(4) by (simp add: entry_is_def unat_of_small)
  then show "ss ! i = s"
    using a e(1) arena_at [OF assms(2)] table_ofD(5) [OF assms(1)] by (simp add: entry_is_def)
next
  assume "ss ! i = s"
  then show "entry_is t s (hash_bytes s) (it_entries t ! i)"
    using table_entry [OF assms(1,2)] assms(3) arena_at [OF assms(2)] table_ofD(5) [OF assms(1)]
    by (simp add: entry_is_def hash_of_def)
qed

text \<open>The search finds the id of a spelling the table holds, and the end mark for one it does not.\<close>

lemma find_string_table:
  assumes "table_of ss t" and "length s < 2 ^ 32"
  shows "i < length ss \<Longrightarrow> ss ! i = s \<Longrightarrow> find_string s t = Some (of_nat i)"
    and "s \<notin> set ss \<Longrightarrow> find_string s t = Some chain_end"
proof -
  note d = table_ofD [OF assms(1)]
  let ?b = "bucket_of (hash_bytes s) (length (it_buckets t))"
  let ?P = "\<lambda>i. bucket_at t i = ?b \<and> entry_is t s (hash_bytes s) (it_entries t ! i)"
  have b: "?b < length (it_buckets t)" using d(7) bucket_of_less by blast
  have P: "?P j \<longleftrightarrow> ss ! j = s" if "j < length ss" "j \<noteq> 0" for j
    using table_entry_is [OF assms(1) that assms(2)] table_entry(3) [OF assms(1) that] by auto
  have "it_buckets t ! ?b = latest (\<lambda>i. bucket_at t i = ?b) (length ss)"
    using d(8) b by (simp add: chains_upto_def)
  then have f: "find_string s t = Some (latest ?P (length ss))" if "s \<noteq> []"
    using chain_find_latest [of t "length ss" s "hash_bytes s" ?b] d(8,11,12) that
    by (simp add: find_string_def find_hashed_def)
  show "find_string s t = Some (of_nat i)" if "i < length ss" "ss ! i = s"
  proof (cases "s = []")
    case True
    then have "i = 0" using that d(1-3) by (metis distinct_conv_nth length_greater_0_conv)
    then show ?thesis using True by (simp add: find_string_def)
  next
    case False
    then have "i \<noteq> 0" using that d(2) by metis
    moreover have "?P j \<longleftrightarrow> j = i" if "j < length ss" "j \<noteq> 0" for j
      using P [OF that] \<open>ss ! i = s\<close> \<open>i < length ss\<close> d(3) that(1) nth_eq_iff_index_eq by blast
    ultimately show ?thesis using f [OF False] latest_unique [of i "length ss" ?P] that(1) by simp
  qed
  show "find_string s t = Some chain_end" if "s \<notin> set ss"
  proof -
    have "s \<noteq> []" using that d(1,2) by (metis nth_mem length_greater_0_conv)
    moreover have "\<not> ?P j" if "j < length ss" "j \<noteq> 0" for j
      using P [OF that] \<open>s \<notin> set ss\<close> that(1) nth_mem by blast
    ultimately show ?thesis using f latest_none [of "length ss" ?P] by simp
  qed
qed

section \<open>Interning, growing and rolling back\<close>

lemma chains_upto_cong:
  assumes "chains_upto n t" and "it_buckets t' = it_buckets t" and "it_entries t' = it_entries t"
  shows "chains_upto n t'"
  using assms by (simp add: chains_upto_def hash_of_def)

lemma rehash_table:
  assumes "ss \<noteq> []" "ss ! 0 = []" "distinct ss" "length (arena ss) < 2 ^ 32"
    and "it_bytes t = arena ss" "map core (it_entries t) = map (core_at ss) [0..<length ss]"
    and "length (it_names t) \<le> length ss" "\<forall>i < length (it_names t). it_names t ! i \<in> {[], ss ! i}"
  shows "table_of ss (rehash (2 ^ k) t)"
proof -
  have l: "length (it_entries t) = length ss" using assms(6) map_eq_imp_length_eq by fastforce
  then have "it_entries t \<noteq> []" using assms(1) by auto
  note r = rehash_props [OF refl this, of k]
  show ?thesis using r assms l by (auto simp: table_of_def)
qed

lemma table_rehash: "table_of ss t \<Longrightarrow> table_of ss (rehash (2 ^ k) t)"
  by (rule rehash_table) (auto simp: table_of_def)

lemma latest_append: "n \<le> length xs \<Longrightarrow> latest (\<lambda>i. P ((xs @ ys) ! i)) n = latest (\<lambda>i. P (xs ! i)) n"
  by (rule latest_cong) (simp add: nth_append)

lemma append_entry_table:
  assumes t: "table_of ss t" and s: "s \<noteq> []" "s \<notin> set ss" and room: "length (arena ss) + length s + 1 < 2 ^ 32"
  shows "fst (append_entry s (hash_bytes s) t) = of_nat (length ss)"
    and "table_of (ss @ [s]) (snd (append_entry s (hash_bytes s) t))"
proof -
  note d = table_ofD [OF t]
  let ?t = "snd (append_entry s (hash_bytes s) t)" and ?n = "length ss" and ?h = "hash_bytes s"
  let ?B = "bucket_of ?h (length (it_buckets t))"
  define e where "e = \<lparr>ie_off = of_nat (length (arena ss)), ie_len = of_nat (length s), ie_hash = ?h, ie_next = it_buckets t ! ?B\<rparr>"
  then have e: "core e = (of_nat (length (arena ss)), of_nat (length s), ?h)" "ie_next e = it_buckets t ! ?B"
    "ie_hash e = ?h" "it_entries ?t = it_entries t @ [e]" "it_buckets ?t = (it_buckets t)[?B := of_nat ?n]"
    "it_bytes ?t = arena (ss @ [s])" "it_names ?t = it_names t"
    by (simp_all add: append_entry_def Let_def core_def d(5,11))
  show "fst (append_entry s ?h t) = of_nat ?n" by (simp add: append_entry_def Let_def d(11))
  have B: "?B < length (it_buckets t)" using d(7) bucket_of_less by blast
  have h: "bucket_at ?t i = bucket_at t i" if "i < ?n" for i
    using that d(11) by (simp add: hash_of_def e nth_append)
  have hn: "bucket_at ?t ?n = ?B" using d(11) by (simp add: hash_of_def e nth_append)
  have lat: "latest (\<lambda>j. bucket_at ?t j = b) m = latest (\<lambda>j. bucket_at t j = b) m" if "m \<le> ?n" for b m
    using that h by (intro latest_cong) simp
  have n0: "?n \<noteq> 0" using d(1) by simp
  have ch: "it_buckets t ! b = latest (\<lambda>i. bucket_at t i = b) ?n" if "b < length (it_buckets t)" for b
    using d(8) that by (simp add: chains_upto_def)
  have "chains_upto (Suc ?n) ?t"
    unfolding chains_upto_def
  proof (intro conjI allI impI)
    fix b assume "b < length (it_buckets ?t)"
    then show "it_buckets ?t ! b = latest (\<lambda>i. bucket_at ?t i = b) (Suc ?n)"
      using ch [of b] lat [of ?n b] n0 hn B by (auto simp: e(5) nth_list_update)
  next
    fix i assume i: "i < Suc ?n" "i \<noteq> 0"
    show "ie_next (it_entries ?t ! i) = latest (\<lambda>j. bucket_at ?t j = bucket_at ?t i) i"
    proof (cases "i = ?n")
      case True
      then show ?thesis using ch [OF B] lat [of ?n ?B] hn d(11) by (simp add: e(2,4) nth_append)
    next
      case False
      then have "i < ?n" using i by simp
      then have "ie_next (it_entries t ! i) = latest (\<lambda>j. bucket_at t j = bucket_at t i) i"
        using d(8) i(2) by (simp add: chains_upto_def)
      then show ?thesis using lat [of i "bucket_at t i"] h [OF \<open>i < ?n\<close>] \<open>i < ?n\<close> d(11) by (simp add: e(4) nth_append)
    qed
  qed
  moreover have "map (core_at (ss @ [s])) [0..<?n] = map (core_at ss) [0..<?n]"
    by (intro map_cong) (auto simp: core_at_def nth_append)
  then have "map core (it_entries ?t) = map (core_at (ss @ [s])) [0..<Suc ?n]"
    using d(6) n0 by (simp add: e(1,4)) (simp add: core_at_def nth_append)
  moreover have "\<forall>i < length (it_names ?t). it_names ?t ! i \<in> {[], (ss @ [s]) ! i}"
    using d(9,10) by (auto simp: e(7) nth_append)
  ultimately show "table_of (ss @ [s]) ?t"
    using d(1-5,7,9) s room by (auto simp: table_of_def e(5,6,7) nth_append)
qed

text \<open>What interning answers and leaves.\<close>

definition spell_intern :: "string \<Rightarrow> string list \<Rightarrow> string list" where
  "spell_intern s ss = (if s \<in> set ss then ss else ss @ [s])"

lemma intern_string_table:
  assumes t: "table_of ss t" and room: "length (arena ss) + length s + 1 < 2 ^ 32"
  shows "\<exists>i t'. intern_string s t = Some (of_nat i, t') \<and> table_of (spell_intern s ss) t'
    \<and> i < length (spell_intern s ss) \<and> spell_intern s ss ! i = s"
proof (cases "s \<in> set ss")
  case True
  then obtain i where i: "i < length ss" "ss ! i = s" by (auto simp: in_set_conv_nth)
  then have f: "find_string s t = Some (of_nat i)" using find_string_table(1) [OF t] room by simp
  have "Suc i < 2 ^ 32" using i(1) table_ofD(12) [OF t] by simp
  then have "(of_nat i :: 32 word) \<noteq> chain_end" by (rule id_not_end)
  then have "intern_string s t = Some (of_nat i, t)"
    using f by (auto simp: intern_string_def find_string_def intern_hashed_def split: if_splits)
  then show ?thesis using True t i by (auto simp: spell_intern_def)
next
  case False
  note d = table_ofD [OF t]
  have s: "s \<noteq> []" using False d(1,2) by (metis nth_mem length_greater_0_conv)
  have f: "find_hashed s (hash_bytes s) t = Some chain_end"
    using find_string_table(2) [OF t _ False] room s by (simp add: find_string_def)
  obtain k where k: "length (it_buckets t) = 2 ^ k" using d(7) by blast
  define g where "g = (if length (it_buckets t) < length (it_entries t) then rehash (length (it_buckets t) * 2) t else t)"
  have "table_of ss g" using t table_rehash [OF t, of "Suc k"] by (simp add: k mult.commute g_def)
  note a = append_entry_table [OF this s False room]
  have "intern_string s t = Some (append_entry s (hash_bytes s) g)"
    using s f by (simp add: intern_string_def intern_hashed_def g_def)
  also have "\<dots> = Some (of_nat (length ss), snd (append_entry s (hash_bytes s) g))"
    using a(1) by (cases "append_entry s (hash_bytes s) g") simp
  finally have "intern_string s t = Some (of_nat (length ss), snd (append_entry s (hash_bytes s) g))" .
  moreover have "spell_intern s ss = ss @ [s]" using False by (simp add: spell_intern_def)
  ultimately show ?thesis using a(2) by (intro exI [of _ "length ss"] exI [of _ "snd (append_entry s (hash_bytes s) g)"]) simp
qed

lemma spell_intern_nth: "i < length ss \<Longrightarrow> spell_intern s ss ! i = ss ! i" "length ss \<le> length (spell_intern s ss)"
  by (simp_all add: spell_intern_def nth_append)

lemma grow_pow2_power: "\<exists>k. grow_pow2 (2 ^ j) n = 2 ^ k"
proof (induction "2 ^ j :: nat" n arbitrary: j rule: grow_pow2.induct)
  case (1 n)
  show ?case
  proof (cases "2 ^ j < n")
    case True
    then have "\<exists>k. grow_pow2 (2 ^ Suc j) n = 2 ^ k" using 1 [of "Suc j"] by simp
    then show ?thesis using True by (simp add: grow_pow2.simps [of "2 ^ j"])
  next
    case False
    then show ?thesis by (auto simp: grow_pow2.simps [of "2 ^ j"])
  qed
qed

lemma grow_pow2_1024: "\<exists>k. grow_pow2 1024 n = 2 ^ k"
  using grow_pow2_power [of 10 n] by simp

lemma reserve_table:
  assumes "table_of ss t"
  shows "table_of ss (intern_reserve n t)"
proof -
  obtain k where k: "grow_pow2 1024 n = 2 ^ k" using grow_pow2_1024 by blast
  note d = table_ofD [OF assms]
  have "rehash (2 ^ k) t = t\<lparr>it_buckets := replicate (2 ^ k) chain_end\<rparr>" if "length (it_entries t) \<le> 1"
    using that by (simp add: rehash_def)
  then show ?thesis using assms table_rehash [OF assms, of k] k by (auto simp: intern_reserve_def Let_def)
qed

lemma intern_table_new_table: "table_of [[]] intern_table_new"
proof -
  obtain k where k: "grow_pow2 1024 4096 = 2 ^ k" using grow_pow2_1024 by blast
  have eq: "intern_table_new = \<lparr>it_bytes = [CHR 0x00], it_entries = [\<lparr>ie_off = 0, ie_len = 0, ie_hash = 0, ie_next = chain_end\<rparr>],
      it_buckets = replicate (2 ^ k) chain_end, it_names = []\<rparr>"
    by (simp add: intern_table_new_def intern_reserve_def k)
  show ?thesis unfolding eq by (auto simp: table_of_def chains_upto_def core_def core_at_def)
qed

lemma name_table:
  assumes t: "table_of ss t" and i: "i < length ss"
  shows "fst (intern_name (of_nat i) t) = ss ! i" and "table_of ss (snd (intern_name (of_nat i) t))"
proof -
  note d = table_ofD [OF t]
  have u: "unat (of_nat i :: 32 word) = i" using i d(12) by (simp add: unat_of_small)
  have keep: "table_of ss (t\<lparr>it_names := ns\<rparr>)"
    if "length ns \<le> length ss" "\<And>j. j < length ns \<Longrightarrow> ns ! j = [] \<or> ns ! j = ss ! j" for ns
    using t that by (auto simp: table_of_def intro: chains_upto_cong)
  have "fst (intern_name (of_nat i) t) = ss ! i \<and> table_of ss (snd (intern_name (of_nat i) t))"
  proof (cases "i < length (it_names t) \<and> it_names t ! i \<noteq> []")
    case True
    then show ?thesis using t d(10) [of i] by (simp add: intern_name_def u)
  next
    case False
    then have n: "intern_name (of_nat i) t = name_slow (of_nat i) t"
      unfolding intern_name_def u by (rule if_not_P)
    show ?thesis
    proof (cases "i = 0")
      case True
      then show ?thesis unfolding n using t d(2) by (simp add: name_slow_def)
    next
      case False
      then have z: "(of_nat i :: 32 word) \<noteq> 0" using u by auto
      have memo: "\<forall>j < length (it_names t). it_names t ! j = [] \<or> it_names t ! j = ss ! j" using d(10) by blast
      define ns where "ns = (if length (it_names t) \<le> i then resize (length ss) [] (it_names t) else it_names t)"
      have ns: "i < length ns" "length ns \<le> length ss" using i d(9) by (auto simp: ns_def)
      have ns3: "ns ! j = [] \<or> ns ! j = ss ! j" if "j < length ns" for j
        using that memo [rule_format, of j] by (cases "j < length (it_names t)") (auto simp: ns_def nth_resize split: if_splits)
      have "(if ns ! i = [] then entry_text (t\<lparr>it_names := ns\<rparr>) (of_nat i) else ns ! i) = ss ! i"
        using ns3 [OF ns(1)] table_text [OF t i] by (auto simp: entry_text_def)
      moreover have "grow_names i t = t\<lparr>it_names := ns\<rparr>"
        by (simp add: ns_def grow_names_def d(11))
      moreover have "ns[i := ss ! i] = ns" if "ns ! i = ss ! i" using that by (metis list_update_id)
      ultimately have "name_slow (of_nat i) t = (ss ! i, t\<lparr>it_names := ns[i := ss ! i]\<rparr>)"
        using z by (cases "ns ! i = []") (auto simp: name_slow_def u Let_def)
      moreover have "table_of ss (t\<lparr>it_names := ns[i := ss ! i]\<rparr>)"
        using ns ns3 by (intro keep) (auto simp: nth_list_update)
      ultimately show ?thesis by (simp add: n)
    qed
  qed
  then show "fst (intern_name (of_nat i) t) = ss ! i" and "table_of ss (snd (intern_name (of_nat i) t))" by simp_all
qed

definition mark_at :: "nat \<Rightarrow> string list \<Rightarrow> intern_mark" where
  "mark_at k ss = \<lparr>im_bytes = length (arena (take k ss)), im_entries = k\<rparr>"

lemma begin_table: "table_of ss t \<Longrightarrow> intern_begin t = mark_at (length ss) ss"
  using table_ofD(5,11) by (simp add: intern_begin_def mark_at_def)

lemma mark_at_keep: "k \<le> length ss \<Longrightarrow> mark_at k (ss @ rs) = mark_at k ss"
  "k \<le> n \<Longrightarrow> mark_at k (take n ss) = mark_at k ss"
  by (simp_all add: mark_at_def min_def)

lemma rollback_table:
  assumes t: "table_of ss t" and k: "0 < k" "k \<le> length ss"
  shows "table_of (take k ss) (intern_rollback (mark_at k ss) t)"
proof -
  note d = table_ofD [OF t]
  obtain b where b: "length (it_buckets t) = 2 ^ b" using d(7) by blast
  let ?ss = "take k ss" and ?m = "mark_at k ss"
  let ?t = "t\<lparr>it_bytes := resize (im_bytes ?m) (CHR 0x00) (it_bytes t),
    it_entries := resize (im_entries ?m) \<lparr>ie_off = 0, ie_len = 0, ie_hash = 0, ie_next = 0\<rparr> (it_entries t),
    it_names := (if im_entries ?m < length (it_names t) then resize (im_entries ?m) [] (it_names t) else it_names t)\<rparr>"
  have a: "arena ss = arena ?ss @ arena (drop k ss)" by (metis append_take_drop_id arena_simps(3))
  have cores: "map core (it_entries ?t) = map (core_at ?ss) [0..<length ?ss]"
  proof -
    have "map core (it_entries ?t) = take k (map core (it_entries t))"
      using k d(11) by (simp add: mark_at_def resize_shrink take_map)
    also have "\<dots> = map (core_at ss) [0..<k]" using k by (simp add: d(6) take_map take_upt)
    also have "\<dots> = map (core_at ?ss) [0..<k]" by (intro map_cong) (auto simp: core_at_def min_def)
    finally show ?thesis using k by (simp add: min_def)
  qed
  have "table_of ?ss (rehash (2 ^ b) ?t)"
  proof (rule rehash_table)
    show "?ss \<noteq> []" "?ss ! 0 = []" using d(1,2) k by auto
    show "distinct ?ss" using d(3) by simp
    show "length (arena ?ss) < 2 ^ 32" using d(4) a by simp
    show "it_bytes ?t = arena ?ss" using a d(5) by (simp add: mark_at_def resize_def)
    show "map core (it_entries ?t) = map (core_at ?ss) [0..<length ?ss]" by (rule cores)
    show "length (it_names ?t) \<le> length ?ss" using d(9) k by (simp add: mark_at_def)
    show "\<forall>i < length (it_names ?t). it_names ?t ! i \<in> {[], ?ss ! i}"
      using t by (auto simp: table_of_def mark_at_def nth_resize)
  qed
  then show ?thesis by (simp add: intern_rollback_def b)
qed

end
