(* ===== verification/InternRuns.thy ===== *)
theory InternRuns
  imports InternProps
begin

unbundle bit_operations_syntax

text \<open>
  Runs of calls on the interning table against the list of its spellings, the table as an
  instance of \<open>interner\<close>, and the frozen blocks: their round trip and the safety of reading
  them.
\<close>

section \<open>The table is an interner\<close>

definition table_ok :: "intern_table \<Rightarrow> bool" where
  "table_ok t \<longleftrightarrow> (\<exists>ss. table_of ss t)"

definition table_spelling :: "intern_table \<Rightarrow> 32 word \<Rightarrow> string option" where
  "table_spelling t i = (if unat i < length (it_entries t) then Some (entry_text t i) else None)"

definition table_room :: "string \<Rightarrow> intern_table \<Rightarrow> bool" where
  "table_room s t \<longleftrightarrow> length (it_bytes t) + length s + 1 < 2 ^ 32"

lemma table_spelling_of:
  assumes "table_of ss t"
  shows "table_spelling t i = Some s \<longleftrightarrow> unat i < length ss \<and> ss ! unat i = s"
  using table_text [OF assms, of "unat i"] table_ofD(11) [OF assms] by (auto simp: table_spelling_def)

lemma intern_string_of:
  assumes "table_of ss t" and "table_room s t" and "intern_string s t = Some (i, t')"
  shows "table_of (spell_intern s ss) t'" "unat i < length (spell_intern s ss)" "spell_intern s ss ! unat i = s"
proof -
  have "length (arena ss) + length s + 1 < 2 ^ 32" using assms(1,2) table_ofD(5) by (simp add: table_room_def)
  then obtain j t2 where j: "intern_string s t = Some (of_nat j, t2)" "table_of (spell_intern s ss) t2"
    "j < length (spell_intern s ss)" "spell_intern s ss ! j = s"
    using intern_string_table [OF assms(1)] by blast
  then have "unat i = j" "t' = t2" using assms(3) table_ofD(12) [OF j(2)] by (auto simp: unat_of_small)
  then show "table_of (spell_intern s ss) t'" "unat i < length (spell_intern s ss)" "spell_intern s ss ! unat i = s"
    using j by auto
qed

interpretation it: interner intern_string table_spelling table_ok table_room
proof
  fix t s i t' j r
  assume ok: "table_ok t"
  then obtain ss where ss: "table_of ss t" by (auto simp: table_ok_def)
  show "\<exists>i t'. intern_string s t = Some (i, t')" if "table_room s t"
    using intern_string_table [OF ss, of s] that table_ofD(5) [OF ss] by (auto simp: table_room_def)
  show "table_spelling t i = Some s \<Longrightarrow> table_spelling t j = Some s \<Longrightarrow> i = j"
    using table_ofD(3) [OF ss] by (auto simp: table_spelling_of [OF ss] nth_eq_iff_index_eq word_unat_eq_iff)
  assume "table_room s t" "intern_string s t = Some (i, t')"
  note r = intern_string_of [OF ss this]
  show "table_ok t'" "table_spelling t' i = Some s" using r by (auto simp: table_ok_def table_spelling_of)
  show "table_spelling t j = Some r \<Longrightarrow> table_spelling t' j = Some r"
    using spell_intern_nth(1) [of "unat j" ss s] spell_intern_nth(2) [of ss s]
    by (auto simp: table_spelling_of [OF ss] table_spelling_of [OF r(1)] intro: order.strict_trans2)
qed

lemma roomy_table:
  assumes "table_of rs t" and "length (arena rs) + length (arena ss) < 2 ^ 32"
  shows "it.roomy ss t"
  using assms
proof (induction ss arbitrary: rs t)
  case (Cons s ss)
  have room: "table_room s t" using Cons.prems table_ofD(5) [OF Cons.prems(1)] by (simp add: table_room_def)
  moreover have "it.roomy ss t'" if i: "intern_string s t = Some (i, t')" for i t'
  proof (rule Cons.IH)
    show "table_of (spell_intern s rs) t'" by (rule intern_string_of [OF Cons.prems(1) room i])
    show "length (arena (spell_intern s rs)) + length (arena ss) < 2 ^ 32"
      using Cons.prems(2) by (auto simp: spell_intern_def)
  qed
  ultimately show ?case by simp
qed simp

section \<open>Runs of calls\<close>

datatype intern_op = TIntern string | TFind string | TName nat | TReserve nat | TBegin | TCommit | TRollback

datatype intern_answer = AnsId "32 word" | AnsName string | AnsNone

text \<open>
  One call on a table with the stack of its open transactions, innermost last; \<open>None\<close> when
  the search of a call does not return.
\<close>

fun table_call :: "intern_op \<Rightarrow> intern_table \<times> intern_mark list \<Rightarrow> (intern_answer \<times> intern_table \<times> intern_mark list) option" where
  "table_call (TIntern s) (t, ms) = (case intern_string s t of None \<Rightarrow> None | Some (i, t') \<Rightarrow> Some (AnsId i, t', ms))" |
  "table_call (TFind s) (t, ms) = (case find_string s t of None \<Rightarrow> None | Some i \<Rightarrow> Some (AnsId i, t, ms))" |
  "table_call (TName i) (t, ms) = (let (n, t') = intern_name (of_nat i) t in Some (AnsName n, t', ms))" |
  "table_call (TReserve n) (t, ms) = Some (AnsNone, intern_reserve n t, ms)" |
  "table_call TBegin (t, ms) = Some (AnsNone, t, ms @ [intern_begin t])" |
  "table_call TCommit (t, ms) = Some (AnsNone, t, butlast ms)" |
  "table_call TRollback (t, ms) = Some (AnsNone, intern_rollback (last ms) t, butlast ms)"

text \<open>The specification: the spellings in the order of their ids, and the count at each begin.\<close>

definition spell_id :: "string \<Rightarrow> string list \<Rightarrow> nat" where
  "spell_id s ss = length (takeWhile (\<lambda>r. r \<noteq> s) ss)"

fun spell_call :: "intern_op \<Rightarrow> string list \<times> nat list \<Rightarrow> intern_answer \<times> string list \<times> nat list" where
  "spell_call (TIntern s) (ss, ks) = (AnsId (of_nat (spell_id s ss)), spell_intern s ss, ks)" |
  "spell_call (TFind s) (ss, ks) = (AnsId (if s \<in> set ss then of_nat (spell_id s ss) else chain_end), ss, ks)" |
  "spell_call (TName i) (ss, ks) = (AnsName (ss ! i), ss, ks)" |
  "spell_call (TReserve n) (ss, ks) = (AnsNone, ss, ks)" |
  "spell_call TBegin (ss, ks) = (AnsNone, ss, ks @ [length ss])" |
  "spell_call TCommit (ss, ks) = (AnsNone, ss, butlast ks)" |
  "spell_call TRollback (ss, ks) = (AnsNone, take (last ks) ss, butlast ks)"

text \<open>What a caller may ask: room for a new spelling, an id of the table, an open transaction.\<close>

fun call_allowed :: "intern_op \<Rightarrow> string list \<times> nat list \<Rightarrow> bool" where
  "call_allowed (TIntern s) (ss, ks) \<longleftrightarrow> length (arena ss) + length s + 1 < 2 ^ 32" |
  "call_allowed (TFind s) (ss, ks) \<longleftrightarrow> length s < 2 ^ 32" |
  "call_allowed (TName i) (ss, ks) \<longleftrightarrow> i < length ss" |
  "call_allowed TCommit (ss, ks) \<longleftrightarrow> ks \<noteq> []" |
  "call_allowed TRollback (ss, ks) \<longleftrightarrow> ks \<noteq> []" |
  "call_allowed _ (ss, ks) \<longleftrightarrow> True"

fun table_run :: "intern_op list \<Rightarrow> intern_table \<times> intern_mark list \<Rightarrow> (intern_answer list \<times> intern_table \<times> intern_mark list) option" where
  "table_run [] st = Some ([], st)" |
  "table_run (c # cs) st = (case table_call c st of None \<Rightarrow> None
     | Some (a, st') \<Rightarrow> (case table_run cs st' of None \<Rightarrow> None | Some (as, st'') \<Rightarrow> Some (a # as, st'')))"

fun spell_run :: "intern_op list \<Rightarrow> string list \<times> nat list \<Rightarrow> intern_answer list \<times> string list \<times> nat list" where
  "spell_run [] st = ([], st)" |
  "spell_run (c # cs) st = (let (a, st') = spell_call c st; (as, st'') = spell_run cs st' in (a # as, st''))"

fun calls_allowed :: "intern_op list \<Rightarrow> string list \<times> nat list \<Rightarrow> bool" where
  "calls_allowed [] st \<longleftrightarrow> True" |
  "calls_allowed (c # cs) st \<longleftrightarrow> call_allowed c st \<and> calls_allowed cs (snd (spell_call c st))"

text \<open>The open transactions, seen from the spellings.\<close>

definition marks_of :: "nat list \<Rightarrow> string list \<Rightarrow> intern_mark list \<Rightarrow> bool" where
  "marks_of ks ss ms \<longleftrightarrow> sorted ks \<and> (\<forall>k \<in> set ks. 0 < k \<and> k \<le> length ss) \<and> ms = map (\<lambda>k. mark_at k ss) ks"

definition refines_spellings :: "string list \<times> nat list \<Rightarrow> intern_table \<times> intern_mark list \<Rightarrow> bool" where
  "refines_spellings a c \<longleftrightarrow> table_of (fst a) (fst c) \<and> marks_of (snd a) (fst a) (snd c)"

lemma spell_id_eq:
  assumes "distinct ss" and "i < length ss"
  shows "spell_id (ss ! i) ss = i"
proof -
  have "takeWhile (\<lambda>r. r \<noteq> ss ! i) ss = take i ss"
    using assms by (intro takeWhile_eq_take_P_nth) (auto simp: nth_eq_iff_index_eq)
  then show ?thesis using assms(2) by (simp add: spell_id_def)
qed

lemma spell_id_new: "s \<notin> set ss \<Longrightarrow> spell_id s ss = length ss"
  unfolding spell_id_def by (induction ss) auto

lemma spell_id_intern: "spell_id s (spell_intern s ss) = spell_id s ss"
proof (cases "s \<in> set ss")
  case False
  then have "takeWhile (\<lambda>r. r \<noteq> s) (ss @ [s]) = ss" by (subst takeWhile_append2) auto
  then show ?thesis using False spell_id_new [OF False] by (simp add: spell_intern_def) (simp add: spell_id_def)
qed (simp add: spell_intern_def)

lemma marks_of_grow: "marks_of ks ss ms \<Longrightarrow> marks_of ks (ss @ rs) ms"
  by (auto simp: marks_of_def mark_at_keep)

lemma marks_of_intern: "marks_of ks ss ms \<Longrightarrow> marks_of ks (spell_intern s ss) ms"
  by (simp add: spell_intern_def marks_of_grow)

lemma marks_of_pop:
  assumes "marks_of ks ss ms" and "ks \<noteq> []"
  shows "marks_of (butlast ks) ss (butlast ms)"
    and "marks_of (butlast ks) (take (last ks) ss) (butlast ms)"
    and "last ms = mark_at (last ks) ss" and "0 < last ks" and "last ks \<le> length ss"
proof -
  have m: "sorted ks" "\<And>k. k \<in> set ks \<Longrightarrow> 0 < k \<and> k \<le> length ss" "ms = map (\<lambda>k. mark_at k ss) ks"
    using assms(1) by (auto simp: marks_of_def)
  have ks: "ks = butlast ks @ [last ks]" using assms(2) by simp
  have below: "k \<le> last ks" if "k \<in> set (butlast ks)" for k
    using m(1) that by (subst (asm) ks) (simp add: sorted_append)
  have s: "sorted (butlast ks)" using m(1) by (subst (asm) ks) (simp add: sorted_append)
  show "last ms = mark_at (last ks) ss" using m(3) assms(2) by (simp add: last_map)
  show l: "0 < last ks" "last ks \<le> length ss" using m(2) assms(2) by simp_all
  show "marks_of (butlast ks) ss (butlast ms)"
    using s m by (auto simp: marks_of_def map_butlast dest: in_set_butlastD)
  show "marks_of (butlast ks) (take (last ks) ss) (butlast ms)"
    using s m l below by (auto simp: marks_of_def map_butlast [symmetric] mark_at_keep dest: in_set_butlastD)
qed

lemma table_call_refines:
  assumes "refines_spellings a c" and "call_allowed q a"
  shows "\<exists>c'. table_call q c = Some (fst (spell_call q a), c') \<and> refines_spellings (snd (spell_call q a)) c'"
proof -
  obtain ss ks t ms where ac: "a = (ss, ks)" "c = (t, ms)" by (cases a, cases c) auto
  have t: "table_of ss t" and m: "marks_of ks ss ms" using assms(1) by (simp_all add: refines_spellings_def ac)
  note d = table_ofD [OF t]
  show ?thesis
  proof (cases q)
    case (TIntern s)
    then obtain i t' where i: "intern_string s t = Some (of_nat i, t')" "table_of (spell_intern s ss) t'"
      "i < length (spell_intern s ss)" "spell_intern s ss ! i = s"
      using intern_string_table [OF t, of s] assms(2) by (auto simp: ac)
    have "spell_id s (spell_intern s ss) = i"
      using spell_id_eq [OF table_ofD(3) [OF i(2)] i(3)] i(4) by simp
    then have "spell_id s ss = i" by (simp add: spell_id_intern)
    then show ?thesis using TIntern i m by (simp add: ac refines_spellings_def marks_of_intern)
  next
    case (TFind s)
    have "find_string s t = Some (if s \<in> set ss then of_nat (spell_id s ss) else chain_end)"
    proof (cases "s \<in> set ss")
      case True
      then obtain i where "i < length ss" "ss ! i = s" by (auto simp: in_set_conv_nth)
      then show ?thesis using find_string_table(1) [OF t, of s i] spell_id_eq [OF d(3), of i] True assms(2) by (simp add: ac TFind)
    qed (use find_string_table(2) [OF t, of s] assms(2) in \<open>simp add: ac TFind\<close>)
    then show ?thesis using TFind t m by (simp add: ac refines_spellings_def)
  next
    case (TName i)
    then show ?thesis using name_table [OF t, of i] assms(2) m by (auto simp: ac refines_spellings_def case_prod_beta)
  next
    case (TReserve n)
    then show ?thesis using reserve_table [OF t] m by (simp add: ac refines_spellings_def)
  next
    case TBegin
    have "marks_of (ks @ [length ss]) ss (ms @ [intern_begin t])"
      using m d(1) by (auto simp: marks_of_def sorted_append begin_table [OF t])
    then show ?thesis using TBegin t by (simp add: ac refines_spellings_def)
  next
    case TCommit
    then show ?thesis using t marks_of_pop [OF m] assms(2) by (simp add: ac refines_spellings_def)
  next
    case TRollback
    then have ks: "ks \<noteq> []" using assms(2) by (simp add: ac)
    note p = marks_of_pop [OF m ks]
    have "table_of (take (last ks) ss) (intern_rollback (last ms) t)"
      unfolding p(3) using rollback_table [OF t p(4,5)] .
    then show ?thesis using TRollback p(2) by (simp add: ac refines_spellings_def)
  qed
qed

lemma table_run_refines:
  "refines_spellings a c \<Longrightarrow> calls_allowed qs a \<Longrightarrow>
    \<exists>c'. table_run qs c = Some (fst (spell_run qs a), c') \<and> refines_spellings (snd (spell_run qs a)) c'"
proof (induction qs arbitrary: a c)
  case (Cons q qs)
  obtain c1 where c1: "table_call q c = Some (fst (spell_call q a), c1)" "refines_spellings (snd (spell_call q a)) c1"
    using table_call_refines Cons.prems by fastforce
  then obtain c2 where "table_run qs c1 = Some (fst (spell_run qs (snd (spell_call q a))), c2)"
    "refines_spellings (snd (spell_run qs (snd (spell_call q a)))) c2"
    using Cons.IH [OF c1(2)] Cons.prems(2) by auto
  then show ?case using c1(1) by (simp add: case_prod_beta)
qed simp

section \<open>The frozen blocks\<close>

text \<open>The bits a length byte carries and the bit that says another follows.\<close>

lemma seven_mask: "(0x7F :: 32 word) = mask 7"
  by (simp add: mask_eq_exp_minus_1)

lemma leb_join: "(m AND 0x7F) OR push_bit 7 (drop_bit 7 m) = m" for m :: "32 word"
proof (rule bit_word_eqI)
  fix n assume "n < LENGTH(32)"
  then show "bit ((m AND 0x7F) OR push_bit 7 (drop_bit 7 m)) n = bit m n"
    unfolding seven_mask by (cases "n < 7") (auto simp: bit_simps)
qed

lemma low_seven: "unat (m AND 0x7F) < 128" for m :: "32 word"
  using take_bit_nat_less_exp [of 7 "unat m"] unfolding seven_mask by (simp add: take_bit_eq_mask [symmetric] unsigned_take_bit_eq)

lemma top_bit: "bit (0x80 :: 32 word) n \<longleftrightarrow> n = 7"
proof -
  have "(0x80 :: 32 word) = 2 ^ 7" by simp
  then show ?thesis by (simp only: bit_exp_iff) (auto simp: possible_bit_def)
qed

lemma leb_last: "(m AND 0x7F) AND 0x7F = m AND 0x7F" "(m AND 0x7F) AND 0x80 = 0" for m :: "32 word"
proof -
  show "(m AND 0x7F) AND 0x7F = m AND 0x7F" by (simp add: and.assoc)
  show "(m AND 0x7F) AND 0x80 = 0"
    unfolding seven_mask by (rule bit_word_eqI) (auto simp: bit_simps top_bit simp del: bit_numeral_word_iff)
qed

lemma leb_more: "((m AND 0x7F) OR 0x80) AND 0x7F = m AND 0x7F" "((m AND 0x7F) OR 0x80) AND 0x80 \<noteq> 0"
  "unat ((m AND 0x7F) OR 0x80) < 256" for m :: "32 word"
proof -
  show "((m AND 0x7F) OR 0x80) AND 0x7F = m AND 0x7F"
    unfolding seven_mask by (rule bit_word_eqI) (auto simp: bit_simps top_bit simp del: bit_numeral_word_iff)
  have "((m AND 0x7F) OR 0x80) AND 0x80 = 0x80"
    unfolding seven_mask by (rule bit_word_eqI) (auto simp: bit_simps top_bit simp del: bit_numeral_word_iff)
  then show "((m AND 0x7F) OR 0x80) AND 0x80 \<noteq> 0" by simp
  have b: "take_bit 8 ((m AND 0x7F) OR 0x80) = (m AND 0x7F) OR 0x80"
    unfolding seven_mask by (rule bit_word_eqI) (auto simp: bit_simps top_bit simp del: bit_numeral_word_iff)
  have "unat (take_bit 8 ((m AND 0x7F) OR 0x80)) < 2 ^ 8"
    by (simp only: unsigned_take_bit_eq take_bit_nat_less_exp)
  then show "unat ((m AND 0x7F) OR 0x80) < 256" unfolding b by simp
qed

definition resident :: "frozen_table \<Rightarrow> bool" where
  "resident f \<longleftrightarrow> (\<forall>off len. off + len \<le> length (fz_bytes f) \<longrightarrow> fz_ensure f off len)"

lemma length_go_step:
  assumes "resident f" and "sh \<le> 28" and "drop at (fz_bytes f) = c # r"
  shows "length_go f sh at n =
    (let b = of_nat (byte c) :: 32 word; n = n OR push_bit sh (b AND 0x7F)
     in if b AND 0x80 = 0 then Inr (Some (n, at + 1)) else length_go f (sh + 7) (at + 1) n)"
proof -
  have at: "at < length (fz_bytes f)" using assms(3) by (metis drop_all list.distinct(1) not_le)
  then have "fz_bytes f ! at = c" using assms(3) by (metis Cons_nth_drop_Suc list.inject)
  then show ?thesis
    using at assms(1,2) by (simp add: length_go.simps [of f sh at n] block_read_def resident_def)
qed

lemma length_go_leb:
  assumes "resident f" and "drop at (fz_bytes f) = leb128 m @ r" and "7 dvd sh" and "sh \<le> 28"
    and "unat m < 2 ^ (32 - sh)"
  shows "length_go f sh at n = Inr (Some (n OR push_bit sh m, at + length (leb128 m)))"
  using assms(2-5)
proof (induction m arbitrary: sh at n rule: leb128.induct)
  case (1 m)
  let ?low = "m AND 0x7F" and ?rest = "drop_bit 7 m"
  have low: "of_nat (byte (char_of (unat ?low))) = ?low" using low_seven [of m] by simp
  have more: "of_nat (byte (char_of (unat (?low OR 0x80)))) = ?low OR 0x80" using leb_more(3) [of m] by simp
  show ?case
  proof (cases "?rest = 0")
    case True
    have m: "?low = m" using leb_join [of m] True by simp
    have l: "leb128 m = [char_of (unat ?low)]" using True by (simp add: leb128.simps)
    then have "drop at (fz_bytes f) = char_of (unat ?low) # r" using "1.prems"(1) by simp
    from length_go_step [OF assms(1) "1.prems"(3) this, of n, unfolded low Let_def leb_last]
    show ?thesis by (simp add: l m)
  next
    case False
    have l: "leb128 m = char_of (unat (?low OR 0x80)) # leb128 ?rest" using False by (subst leb128.simps) (simp add: Let_def)
    then have d: "drop at (fz_bytes f) = char_of (unat (?low OR 0x80)) # leb128 ?rest @ r" using "1.prems"(1) by simp
    have div: "unat ?rest = unat m div 128" by (simp add: drop_bit_eq_div unat_div)
    have "unat ?rest \<noteq> 0" using False by (simp add: unat_eq_zero)
    then have "128 \<le> unat m" using div by (metis div_less not_le)
    then have "(2::nat) ^ 7 < 2 ^ (32 - sh)" using "1.prems"(4) by simp
    then have "7 < 32 - sh" by (subst (asm) power_strict_increasing_iff) simp_all
    then have sh: "sh + 7 \<le> 28" using "1.prems"(2) by (auto elim!: dvdE)
    have "32 - sh = (32 - (sh + 7)) + 7" using sh by simp
    then have "(2::nat) ^ (32 - sh) = 2 ^ (32 - (sh + 7)) * 128" by (simp only: power_add) simp
    then have "unat m < 2 ^ (32 - (sh + 7)) * 128" using "1.prems"(4) by metis
    then have r: "unat ?rest < 2 ^ (32 - (sh + 7))" unfolding div by (rule less_mult_imp_div_less)
    have "drop (at + 1) (fz_bytes f) = leb128 ?rest @ r" using arg_cong [OF d, of tl] by (simp add: tl_drop drop_Suc)
    then have "length_go f (sh + 7) (at + 1) (n OR push_bit sh ?low)
        = Inr (Some (n OR push_bit sh ?low OR push_bit (sh + 7) ?rest, at + 1 + length (leb128 ?rest)))"
      using "1.IH" [OF refl False _ _ sh r] "1.prems"(2) by (simp add: or.assoc)
    moreover have "push_bit sh ?low OR push_bit (sh + 7) ?rest = push_bit sh m"
      by (subst (3) leb_join [symmetric]) (simp add: push_bit_or push_bit_push_bit add.commute)
    ultimately show ?thesis
      using length_go_step [OF assms(1) "1.prems"(3) d, of n, unfolded more Let_def leb_more(1)] leb_more(2) [of m]
      by (simp add: l or.assoc)
  qed
qed

lemma frozen_go_eq:
  "frozen_go t bytes es = (bytes @ concat (map (frozen_record t) es),
     map (\<lambda>i. of_nat (length bytes + length (concat (map (frozen_record t) (take i es))))) [0..<Suc (length es)])"
proof (induction es arbitrary: bytes)
  case (Cons e es)
  have "[0..<Suc (length (e # es))] = 0 # map Suc [0..<Suc (length es)]"
    by (simp add: map_Suc_upt upt_conv_Cons del: upt_Suc)
  then show ?case using Cons [of "bytes @ frozen_record t e"] by (simp add: add.assoc comp_def del: upt_Suc)
qed simp

lemma frozen_blocks_eq:
  "fst (frozen_blocks t) = concat (map (frozen_record t) (it_entries t))"
  "length (snd (frozen_blocks t)) = Suc (length (it_entries t))"
  "i \<le> length (it_entries t) \<Longrightarrow> snd (frozen_blocks t) ! i = of_nat (length (concat (map (frozen_record t) (take i (it_entries t)))))"
  by (auto simp: frozen_blocks_def frozen_go_eq less_Suc_eq_le simp del: upt_Suc)

lemma frozen_record_of:
  assumes "table_of ss t" and "i < length ss"
  shows "frozen_record t (it_entries t ! i) = leb128 (of_nat (length (ss ! i))) @ ss ! i @ [CHR 0x00]"
proof -
  note e = table_entry [OF assms]
  have "take (unat (ie_len (it_entries t ! i))) (drop (unat (ie_off (it_entries t ! i))) (it_bytes t)) = ss ! i"
    unfolding e(1,2) table_ofD(5) [OF assms(1)] by (rule arena_at [OF assms(2)])
  then show ?thesis unfolding frozen_record_def e(4) [symmetric] by simp
qed

lemma concat_map_split:
  "i < length xs \<Longrightarrow> concat (map f xs) = concat (map f (take i xs)) @ f (xs ! i) @ concat (map f (drop (Suc i) xs))"
  using id_take_nth_drop [of i xs] by (metis concat.simps(2) concat_append list.simps(9) map_append)

lemma frozen_spelling_of:
  assumes t: "table_of ss t" and f: "resident f" "fz_bytes f = fst (frozen_blocks t)" "fz_offsets f = snd (frozen_blocks t)"
    and fits: "length (fst (frozen_blocks t)) < 2 ^ 32" and i: "i < length ss"
  shows "frozen_spelling (of_nat i) f = Inr (Some (ss ! i))"
proof -
  note d = table_ofD [OF t]
  define off where "off = length (concat (map (frozen_record t) (take i (it_entries t))))"
  define len where "len = (of_nat (length (ss ! i)) :: 32 word)"
  obtain r where bytes: "fz_bytes f = concat (map (frozen_record t) (take i (it_entries t))) @ leb128 len @ ss ! i @ CHR 0x00 # r"
    using concat_map_split [of i "it_entries t" "frozen_record t"] frozen_record_of [OF t i] i d(11)
    by (simp add: f(2) frozen_blocks_eq(1) len_def)
  have u: "unat (of_nat i :: 32 word) = i" "unat len = length (ss ! i)"
    using i d(12) arena_bound [OF i] d(4) by (simp_all add: unat_of_small len_def)
  have off: "unat (of_nat off :: 32 word) = off"
    using fits bytes f(2) by (simp add: off_def unat_of_small)
  have drop: "drop off (fz_bytes f) = leb128 len @ ss ! i @ CHR 0x00 # r" by (simp add: bytes off_def)
  have go: "length_go f 0 off 0 = Inr (Some (len, off + length (leb128 len)))"
    using length_go_leb [OF f(1) drop, of 0 0] unsigned_less [of len] by simp
  have at: "off + length (leb128 len) + length (ss ! i) < length (fz_bytes f)"
    "drop (off + length (leb128 len)) (fz_bytes f) = ss ! i @ CHR 0x00 # r"
    by (simp_all add: bytes off_def)
  then have nul: "fz_bytes f ! (off + length (leb128 len) + length (ss ! i)) = CHR 0x00"
    by (metis add.commute nth_append_length nth_drop less_imp_le_nat add_leE)
  have o: "block_read (fz_offsets f) i = Inr (of_nat off)" "\<not> length (fz_offsets f) \<le> i + 1"
    using i d(11) by (simp_all add: block_read_def f(3) frozen_blocks_eq(2,3) off_def)
  have "fz_ensure f (off + length (leb128 len)) (length (ss ! i) + 1)" using f(1) at(1) by (simp add: resident_def)
  moreover have "\<not> length (fz_bytes f) - (off + length (leb128 len)) \<le> length (ss ! i)" using at(1) by simp
  ultimately show ?thesis
    using o at by (simp add: frozen_spelling_def u off go nul block_read_def [of "fz_bytes f"])
qed

lemma length_go_in_bounds: "\<exists>r. length_go f sh at n = Inr r \<and> (\<forall>m at'. r = Some (m, at') \<longrightarrow> at' \<le> length (fz_bytes f))"
proof (induction f sh at n rule: length_go.induct)
  case (1 f sh at n)
  show ?case
  proof (cases "28 < sh \<or> length (fz_bytes f) \<le> at \<or> \<not> fz_ensure f at 1")
    case True
    then show ?thesis by (subst length_go.simps) auto
  next
    case False
    then show ?thesis using 1 by (subst length_go.simps) (auto simp: block_read_def Let_def)
  qed
qed

section \<open>Properties\<close>

text \<open>
  C19: the interning table refines the list of its spellings.  Any calls a compiler may make on a
  new table - interning, searching, naming, growing, nested transactions committed or rolled
  back - return, and answer what they answer on the list of the distinct spellings in the order
  of their ids; rolling back cuts that list to its length at the begin, and no memoized name
  survives it.
\<close>

theorem intern_table_refines:
  assumes "calls_allowed qs ([[]], [])"
  shows "\<exists>c. table_run qs (intern_table_new, []) = Some (fst (spell_run qs ([[]], [])), c)
    \<and> table_of (fst (snd (spell_run qs ([[]], [])))) (fst c)"
proof -
  have "refines_spellings ([[]], []) (intern_table_new, [])"
    by (simp add: refines_spellings_def marks_of_def intern_table_new_table)
  from table_run_refines [OF this assms] show ?thesis by (auto simp: refines_spellings_def)
qed

theorem intern_table_refines_witness:
  "\<exists>c. table_run [TIntern ''x'', TBegin, TIntern ''tmp'', TName 2, TRollback, TFind ''tmp'', TIntern ''y'', TName 2, TIntern ''x'']
       (intern_table_new, [])
     = Some ([AnsId 1, AnsNone, AnsId 2, AnsName ''tmp'', AnsNone, AnsId chain_end, AnsId 2, AnsName ''y'', AnsId 1], c)"
proof -
  let ?qs = "[TIntern ''x'', TBegin, TIntern ''tmp'', TName 2, TRollback, TFind ''tmp'', TIntern ''y'', TName 2, TIntern ''x'']"
  have a: "calls_allowed ?qs ([[]], [])" by (simp add: spell_intern_def)
  have v: "fst (spell_run ?qs ([[]], []))
    = [AnsId 1, AnsNone, AnsId 2, AnsName ''tmp'', AnsNone, AnsId chain_end, AnsId 2, AnsName ''y'', AnsId 1]"
    by code_simp
  from intern_table_refines [OF a] obtain c
    where "table_run ?qs (intern_table_new, []) = Some (fst (spell_run ?qs ([[]], [])), c)" by blast
  then show ?thesis unfolding v by blast
qed

text \<open>
  Two ids of a table are equal exactly when the interned spellings are, so the compiler may
  compare ids for names.
\<close>

theorem interned_ids_equal_iff:
  assumes "length (arena ss) < 2 ^ 32 - 1"
  shows "\<exists>ids t. it.intern_all ss intern_table_new = Some (ids, t) \<and> length ids = length ss
    \<and> (\<forall>j < length ss. \<forall>k < length ss. ids ! j = ids ! k \<longleftrightarrow> ss ! j = ss ! k)"
  using it.handles_equal_iff [of intern_table_new ss] roomy_table [OF intern_table_new_table, of ss]
    intern_table_new_table assms by (auto simp: table_ok_def)

theorem interned_ids_equal_iff_witness:
  "\<exists>ids t. it.intern_all [''int'', ''x'', ''int''] intern_table_new = Some (ids, t) \<and> ids ! 0 = ids ! 2 \<and> ids ! 0 \<noteq> ids ! 1"
proof -
  have "length (arena [''int'', ''x'', ''int'']) < 2 ^ 32 - 1" by simp
  from interned_ids_equal_iff [OF this] obtain ids t
    where r: "it.intern_all [''int'', ''x'', ''int''] intern_table_new = Some (ids, t)"
      "\<And>j k. j < 3 \<Longrightarrow> k < 3 \<Longrightarrow> ids ! j = ids ! k \<longleftrightarrow> [''int'', ''x'', ''int''] ! j = [''int'', ''x'', ''int''] ! k"
    by auto
  then show ?thesis using r(2) [of 0 2] r(2) [of 0 1] by auto
qed

text \<open>
  C21: round trip of the frozen table.  The blocks written from a table, bound where every range
  can be made readable, pass the load gate, count the table's spellings and read each id back to
  its spelling; any other id reads as absent.
\<close>

theorem frozen_table_roundtrip:
  assumes "table_of ss t" and "length (fst (frozen_blocks t)) < 2 ^ 32"
    and "resident f" and "fz_bytes f = fst (frozen_blocks t)" and "fz_offsets f = snd (frozen_blocks t)"
  shows "frozen_valid f \<and> frozen_count f = intern_count t
    \<and> (\<forall>i. frozen_spelling i f = Inr (if unat i < length ss then Some (ss ! unat i) else None))"
proof -
  note d = table_ofD [OF assms(1)]
  have n: "length (it_entries t) = length ss" "0 < length ss" using d(1,11) by simp_all
  have "fz_bytes f \<noteq> []"
    using concat_map_split [of 0 "it_entries t" "frozen_record t"] frozen_record_of [OF assms(1), of 0] n
    by (simp add: assms(4) frozen_blocks_eq(1))
  moreover have "fz_offsets f ! 0 = 0" "unat (fz_offsets f ! length ss) = length (fz_bytes f)"
    using assms(2) n by (simp_all add: assms(4,5) frozen_blocks_eq unat_of_small)
  ultimately have "frozen_valid f" using n by (simp add: frozen_valid_def assms(5) frozen_blocks_eq(2) Suc_le_eq)
  moreover have "frozen_count f = intern_count t"
    using n by (simp add: frozen_count_def intern_count_def assms(5) frozen_blocks_eq(2))
  moreover have "frozen_spelling i f = Inr (if unat i < length ss then Some (ss ! unat i) else None)" for i
  proof (cases "unat i < length ss")
    case True
    then show ?thesis using frozen_spelling_of [OF assms(1,3,4,5,2), of "unat i"] by simp
  next
    case False
    then show ?thesis using n by (simp add: frozen_spelling_def assms(5) frozen_blocks_eq(2))
  qed
  ultimately show ?thesis by blast
qed

theorem frozen_table_roundtrip_witness:
  "\<exists>t. table_of [[], ''ab''] t \<and> frozen_spelling 1 \<lparr>fz_bytes = fst (frozen_blocks t), fz_offsets = snd (frozen_blocks t), fz_ensure = \<lambda>off len. True\<rparr>
     = Inr (Some ''ab'')"
proof -
  obtain i t where t: "table_of (spell_intern ''ab'' [[]]) t"
    using intern_string_table [OF intern_table_new_table, of "''ab''"] by auto
  then have ss: "table_of [[], ''ab''] t" by (simp add: spell_intern_def)
  have "map (frozen_record t) (it_entries t) = [frozen_record t (it_entries t ! 0), frozen_record t (it_entries t ! 1)]"
    using table_ofD(11) [OF ss] by (cases "it_entries t") (auto simp: length_Suc_conv)
  then have "length (fst (frozen_blocks t)) < 2 ^ 32"
    using frozen_record_of [OF ss, of 0] frozen_record_of [OF ss, of 1]
    by (simp add: frozen_blocks_eq(1) leb128.simps drop_bit_eq_div)
  from frozen_table_roundtrip [OF ss this, of "\<lparr>fz_bytes = fst (frozen_blocks t), fz_offsets = snd (frozen_blocks t), fz_ensure = \<lambda>off len. True\<rparr>"]
  show ?thesis using ss by (auto simp: resident_def)
qed

text \<open>
  C22: reading a frozen table stays inside its blocks.  Whatever the bytes and the offsets are -
  corrupt, truncated, only partly decodable - a read of any id is a spelling cut from the block
  or absent, never an access outside it.
\<close>

theorem frozen_reads_in_bounds:
  "case frozen_spelling i f of
     Inl e \<Rightarrow> False
   | Inr None \<Rightarrow> True
   | Inr (Some s) \<Rightarrow> \<exists>u v. fz_bytes f = u @ s @ CHR 0x00 # v"
proof -
  have cut: "\<exists>u v. bs = u @ take n (drop at bs) @ CHR 0x00 # v" if "at + n < length bs" "bs ! (at + n) = CHR 0x00"
    for bs :: string and at n
    using that id_take_nth_drop [of "at + n" bs] by (metis append.assoc take_add)
  show ?thesis
  proof (cases "length (fz_offsets f) \<le> unat i + 1")
    case False
    define off where "off = unat (fz_offsets f ! unat i)"
    obtain r where r: "length_go f 0 off 0 = Inr r" "\<And>m at. r = Some (m, at) \<Longrightarrow> at \<le> length (fz_bytes f)"
      using length_go_in_bounds [of f 0 off 0] by blast
    have o: "block_read (fz_offsets f) (unat i) = Inr (fz_offsets f ! unat i)"
      using False by (simp add: block_read_def)
    show ?thesis
    proof (cases r)
      case None
      then show ?thesis using False o r(1) by (simp add: frozen_spelling_def off_def)
    next
      case (Some p)
      obtain n at where p: "p = (n, at)" by (cases p)
      then show ?thesis
        using False o r(1) Some cut [of at "unat n" "fz_bytes f"]
        by (simp add: frozen_spelling_def off_def block_read_def [of "fz_bytes f"]) linarith
    qed
  qed (simp add: frozen_spelling_def)
qed

end
