(* ===== verification/Transactions.thy ===== *)
theory Transactions
  imports Prelude
begin

text \<open>
  The interface of a store with nested transactions, as the tables of the compiler share it:
  a trial parse opens a transaction on every table, works on them, and commits or rolls all of
  them back.  The lemma proved here once is what the trial parse relies on: whatever is done
  between a begin and its rollback, nested transactions included, leaves no trace.
\<close>

datatype 'op txn_call = TxCall 'op | TxBegin | TxCommit | TxRollback

text \<open>
  \<open>levels n cs = Some k\<close>: run with \<open>n\<close> transactions of its own open, \<open>cs\<close> closes none but its
  own and leaves \<open>k\<close> of them open.
\<close>

fun levels :: "nat \<Rightarrow> 'op txn_call list \<Rightarrow> nat option" where
  "levels n [] = Some n" |
  "levels n (TxCall q # cs) = levels n cs" |
  "levels n (TxBegin # cs) = levels (Suc n) cs" |
  "levels n (TxCommit # cs) = (if n = 0 then None else levels (n - 1) cs)" |
  "levels n (TxRollback # cs) = (if n = 0 then None else levels (n - 1) cs)"

text \<open>
  \<open>step\<close> is a call that is no transaction, \<open>allowed\<close> what a caller may ask, \<open>same\<close> when two
  states hold the same content, and \<open>inv m ms\<close> the invariant of a state \<open>m\<close> whose open
  transactions began in the states \<open>ms\<close>, innermost first.
\<close>

locale transactional =
  fixes begin_tx :: "'m \<Rightarrow> 'm"
    and commit_tx :: "'m \<Rightarrow> 'm"
    and rollback_tx :: "'m \<Rightarrow> 'm"
    and step :: "'op \<Rightarrow> 'm \<Rightarrow> 'm"
    and allowed :: "'op \<Rightarrow> 'm \<Rightarrow> bool"
    and same :: "'m \<Rightarrow> 'm \<Rightarrow> bool"
    and tx_inv :: "'m \<Rightarrow> 'm list \<Rightarrow> bool"
  assumes begin_inv: "tx_inv m ms \<Longrightarrow> tx_inv (begin_tx m) (m # ms)"
    and step_inv: "tx_inv m ms \<Longrightarrow> allowed q m \<Longrightarrow> tx_inv (step q m) ms"
    and commit_inv: "tx_inv m (m1 # ms) \<Longrightarrow> tx_inv (commit_tx m) ms"
    and rollback_inv: "tx_inv m (m1 # ms) \<Longrightarrow> tx_inv (rollback_tx m) ms"
    and rollback_same: "tx_inv m (m1 # ms) \<Longrightarrow> same (rollback_tx m) m1"
begin

fun tx_step :: "'op txn_call \<Rightarrow> 'm \<Rightarrow> 'm" where
  "tx_step (TxCall q) m = step q m" |
  "tx_step TxBegin m = begin_tx m" |
  "tx_step TxCommit m = commit_tx m" |
  "tx_step TxRollback m = rollback_tx m"

fun tx_run :: "'op txn_call list \<Rightarrow> 'm \<Rightarrow> 'm" where
  "tx_run [] m = m" |
  "tx_run (c # cs) m = tx_run cs (tx_step c m)"

fun tx_allowed :: "'op txn_call list \<Rightarrow> 'm \<Rightarrow> bool" where
  "tx_allowed [] m \<longleftrightarrow> True" |
  "tx_allowed (c # cs) m \<longleftrightarrow> (case c of TxCall q \<Rightarrow> allowed q m | _ \<Rightarrow> True) \<and> tx_allowed cs (tx_step c m)"

lemma tx_run_inv:
  "tx_inv m (xs @ ms) \<Longrightarrow> levels (length xs) cs = Some k \<Longrightarrow> tx_allowed cs m \<Longrightarrow>
    \<exists>ys. length ys = k \<and> tx_inv (tx_run cs m) (ys @ ms)"
proof (induction cs arbitrary: m xs)
  case Nil
  then show ?case by auto
next
  case (Cons c cs)
  show ?case
  proof (cases c)
    case (TxCall q)
    then show ?thesis using Cons.IH [OF step_inv [OF Cons.prems(1), of q]] Cons.prems by simp
  next
    case TxBegin
    then show ?thesis using Cons.IH [of "begin_tx m" "m # xs"] begin_inv [OF Cons.prems(1)] Cons.prems by simp
  next
    case TxCommit
    then obtain x ys where xs: "xs = x # ys" using Cons.prems(2) by (cases xs) auto
    then show ?thesis using Cons.IH [of "commit_tx m" ys] commit_inv [of m x "ys @ ms"] Cons.prems TxCommit by simp
  next
    case TxRollback
    then obtain x ys where xs: "xs = x # ys" using Cons.prems(2) by (cases xs) auto
    then show ?thesis using Cons.IH [of "rollback_tx m" ys] rollback_inv [of m x "ys @ ms"] Cons.prems TxRollback by simp
  qed
qed

lemma tx_run_append: "tx_run (cs @ ds) m = tx_run ds (tx_run cs m)"
  by (induction cs arbitrary: m) auto

text \<open>A transaction that is rolled back leaves no trace.\<close>

lemma rolled_back_same:
  assumes "tx_inv m ms" and "levels 0 cs = Some 0" and "tx_allowed cs (begin_tx m)"
  shows "same (tx_run (TxBegin # cs @ [TxRollback]) m) m
    \<and> tx_inv (tx_run (TxBegin # cs @ [TxRollback]) m) ms"
proof -
  obtain ys where "length ys = 0" "tx_inv (tx_run cs (begin_tx m)) (ys @ m # ms)"
    using tx_run_inv [of "begin_tx m" "[]" "m # ms" cs 0] begin_inv [OF assms(1)] assms(2,3) by auto
  then show ?thesis using rollback_same rollback_inv by (simp add: tx_run_append)
qed

end

end
