(* ===== verification/KeyedMap.thy ===== *)
theory KeyedMap
  imports Transactions InternTable
begin

text \<open>
  The map keyed by interned ids, from \<^verbatim>\<open>include/madcdis/intern_table.h\<close>: class
  \<open>intern_keyed_map<V>\<close>, its nested transactions included.

  A transaction's record lives with its caller and points to the enclosing one; the map holds
  the innermost.  The model keeps the records themselves as a stack, innermost first.  \<open>find\<close>
  and \<open>operator[]\<close> give a pointer to the value; a caller that writes through it is \<open>km_store\<close>
  and \<open>km_put\<close>.  The default value \<open>V()\<close> is an argument.  The map holds fewer than \<open>2 ^ 31\<close>
  values, so an index survives the cast to \<open>int32_t\<close>.
\<close>

record 'v saved_value =
  sv_id :: nat
  sv_slot :: int
  sv_value :: 'v

record 'v map_txn =
  mt_slot_size :: nat
  mt_vals_size :: nat
  mt_live :: nat
  mt_saved :: "'v saved_value list"
  mt_inserted :: "nat list"

record 'v keyed_map =
  km_slot :: "int list"
  km_vals :: "'v list"
  km_live :: nat
  km_txns :: "'v map_txn list"

definition keyed_map_new :: "'v keyed_map" where
  "keyed_map_new = \<lparr>km_slot = [], km_vals = [], km_live = 0, km_txns = []\<rparr>"

definition saved_id :: "nat \<Rightarrow> 'v map_txn \<Rightarrow> bool" where
  "saved_id i t \<longleftrightarrow> list_ex (\<lambda>s. sv_id s = i) (mt_saved t)"

definition in_map :: "nat \<Rightarrow> 'v keyed_map \<Rightarrow> bool" where
  "in_map i m \<longleftrightarrow> i < length (km_slot m) \<and> 0 \<le> km_slot m ! i"

abbreviation slot_at :: "'v keyed_map \<Rightarrow> nat \<Rightarrow> nat" where
  "slot_at m i \<equiv> nat (km_slot m ! i)"

definition save_value :: "nat \<Rightarrow> 'v keyed_map \<Rightarrow> 'v keyed_map" where
  "save_value i m =
     (case km_txns m of
        [] \<Rightarrow> m
      | t # ts \<Rightarrow>
          if \<not> in_map i m \<or> mt_vals_size t \<le> slot_at m i \<or> saved_id i t then m
          else m\<lparr>km_txns := t\<lparr>mt_saved := mt_saved t @
                   [\<lparr>sv_id = i, sv_slot = km_slot m ! i, sv_value = km_vals m ! slot_at m i\<rparr>]\<rparr> # ts\<rparr>)"

section \<open>Transactions\<close>

definition km_begin :: "'v keyed_map \<Rightarrow> 'v keyed_map" where
  "km_begin m =
     m\<lparr>km_txns := \<lparr>mt_slot_size = length (km_slot m), mt_vals_size = length (km_vals m), mt_live = km_live m,
                   mt_saved = [], mt_inserted = []\<rparr> # km_txns m\<rparr>"

text \<open>What a commit hands the enclosing transaction: saved values one by one, then the inserted keys.\<close>

fun hand_saved :: "'v saved_value list \<Rightarrow> 'v map_txn \<Rightarrow> 'v map_txn" where
  "hand_saved [] t = t" |
  "hand_saved (s # ss) t =
     hand_saved ss (if nat (sv_slot s) < mt_vals_size t \<and> \<not> saved_id (sv_id s) t
                    then t\<lparr>mt_saved := mt_saved t @ [s]\<rparr> else t)"

definition hand_over :: "'v map_txn \<Rightarrow> 'v map_txn \<Rightarrow> 'v map_txn" where
  "hand_over t u =
     (let u = hand_saved (mt_saved t) u in u\<lparr>mt_inserted := mt_inserted u @ mt_inserted t\<rparr>)"

definition km_commit :: "'v keyed_map \<Rightarrow> 'v keyed_map" where
  "km_commit m =
     (case km_txns m of
        [] \<Rightarrow> m
      | [t] \<Rightarrow> m\<lparr>km_txns := []\<rparr>
      | t # u # ts \<Rightarrow> m\<lparr>km_txns := hand_over t u # ts\<rparr>)"

definition restore_saved :: "'v saved_value \<Rightarrow> 'v keyed_map \<Rightarrow> 'v keyed_map" where
  "restore_saved s m =
     m\<lparr>km_vals := (km_vals m)[nat (sv_slot s) := sv_value s], km_slot := (km_slot m)[sv_id s := sv_slot s]\<rparr>"

definition drop_inserted :: "nat \<Rightarrow> int list \<Rightarrow> int list" where
  "drop_inserted i slots = (if i < length slots then slots[i := -1] else slots)"

definition km_rollback :: "'v \<Rightarrow> 'v keyed_map \<Rightarrow> 'v keyed_map" where
  "km_rollback dflt m =
     (case km_txns m of
        [] \<Rightarrow> m
      | t # ts \<Rightarrow>
          (fold restore_saved (mt_saved t)
             (m\<lparr>km_vals := resize (mt_vals_size t) dflt (km_vals m),
                km_slot := fold drop_inserted (mt_inserted t) (resize (mt_slot_size t) (-1) (km_slot m))\<rparr>))
          \<lparr>km_live := mt_live t, km_txns := ts\<rparr>)"

section \<open>Entries\<close>

definition km_reserve :: "nat \<Rightarrow> 'v keyed_map \<Rightarrow> 'v keyed_map" where
  "km_reserve max_id m =
     (if max_id \<noteq> 0 \<and> length (km_slot m) < max_id + 1 then m\<lparr>km_slot := resize (max_id + 1) (-1) (km_slot m)\<rparr> else m)"

definition km_find_readonly :: "nat \<Rightarrow> 'v keyed_map \<Rightarrow> 'v option" where
  "km_find_readonly i m = (if in_map i m then Some (km_vals m ! slot_at m i) else None)"

definition km_count :: "nat \<Rightarrow> 'v keyed_map \<Rightarrow> nat" where
  "km_count i m = (if in_map i m then 1 else 0)"

definition km_find :: "nat \<Rightarrow> 'v keyed_map \<Rightarrow> 'v option \<times> 'v keyed_map" where
  "km_find i m = (if in_map i m then (Some (km_vals m ! slot_at m i), save_value i m) else (None, m))"

definition km_write :: "nat \<Rightarrow> 'v \<Rightarrow> 'v keyed_map \<Rightarrow> 'v keyed_map" where
  "km_write i v m = m\<lparr>km_vals := (km_vals m)[slot_at m i := v]\<rparr>"

definition km_store :: "nat \<Rightarrow> 'v \<Rightarrow> 'v keyed_map \<Rightarrow> 'v keyed_map" where
  "km_store i v m = (case km_find i m of (None, m) \<Rightarrow> m | (Some w, m) \<Rightarrow> km_write i v m)"

text \<open>\<open>find_for_subvalue_write\<close> gives the pointer without saving the value: its write is journaled elsewhere.\<close>

definition km_subvalue_store :: "nat \<Rightarrow> 'v \<Rightarrow> 'v keyed_map \<Rightarrow> 'v keyed_map" where
  "km_subvalue_store i v m = (if in_map i m then km_write i v m else m)"

definition km_index :: "'v \<Rightarrow> nat \<Rightarrow> 'v keyed_map \<Rightarrow> 'v keyed_map" where
  "km_index dflt i m =
     (let m = save_value i m;
          m = (if length (km_slot m) \<le> i then m\<lparr>km_slot := resize (i + 1) (-1) (km_slot m)\<rparr> else m)
      in if km_slot m ! i < 0
         then m\<lparr>km_txns := (case km_txns m of [] \<Rightarrow> [] | t # ts \<Rightarrow> t\<lparr>mt_inserted := mt_inserted t @ [i]\<rparr> # ts),
                km_slot := (km_slot m)[i := int (length (km_vals m))],
                km_vals := km_vals m @ [dflt], km_live := km_live m + 1\<rparr>
         else m)"

definition km_put :: "'v \<Rightarrow> nat \<Rightarrow> 'v \<Rightarrow> 'v keyed_map \<Rightarrow> 'v keyed_map" where
  "km_put dflt i v m = km_write i v (km_index dflt i m)"

definition km_erase :: "'v \<Rightarrow> nat \<Rightarrow> 'v keyed_map \<Rightarrow> nat \<times> 'v keyed_map" where
  "km_erase dflt i m =
     (if in_map i m
      then let m = save_value i m
           in (1, m\<lparr>km_vals := (km_vals m)[slot_at m i := dflt], km_slot := (km_slot m)[i := -1], km_live := km_live m - 1\<rparr>)
      else (0, m))"

definition km_clear :: "'v keyed_map \<Rightarrow> 'v keyed_map" where
  "km_clear m =
     (if km_txns m = [] then m else fold save_value (filter (\<lambda>i. 0 \<le> km_slot m ! i) [0..<length (km_slot m)]) m)
     \<lparr>km_slot := [], km_vals := [], km_live := 0\<rparr>"

definition km_copy :: "'v keyed_map \<Rightarrow> 'v keyed_map" where
  "km_copy m = m\<lparr>km_txns := []\<rparr>"

text \<open>
  \<open>for_each\<close>: the callback \<open>fn\<close> reads a key and a value, answers whether to stop and what it left
  in the value.
\<close>

primrec for_each_go :: "(nat \<Rightarrow> 'v \<Rightarrow> bool \<times> 'v) \<Rightarrow> nat list \<Rightarrow> 'v keyed_map \<Rightarrow> 'v keyed_map" where
  "for_each_go fn [] m = m" |
  "for_each_go fn (i # is) m =
     (if 0 \<le> km_slot m ! i
      then let m = save_value i m; (stop, v) = fn i (km_vals m ! slot_at m i); m = km_write i v m
           in if stop then m else for_each_go fn is m
      else for_each_go fn is m)"

definition km_for_each :: "(nat \<Rightarrow> 'v \<Rightarrow> bool \<times> 'v) \<Rightarrow> 'v keyed_map \<Rightarrow> 'v keyed_map" where
  "km_for_each fn m = for_each_go fn [0..<length (km_slot m)] m"

definition km_entries :: "'v keyed_map \<Rightarrow> (nat \<times> 'v) list" where
  "km_entries m = map (\<lambda>i. (i, km_vals m ! slot_at m i)) (filter (\<lambda>i. in_map i m) [0..<length (km_slot m)])"

section \<open>Keys by spelling\<close>

text \<open>
  The overloads that take a string ask the pool for the id: a lookup searches, an insertion
  interns.  \<open>None\<close> is a search of the pool that does not return.
\<close>

definition km_find_str :: "intern_table \<Rightarrow> string \<Rightarrow> 'v keyed_map \<Rightarrow> ('v option \<times> 'v keyed_map) option" where
  "km_find_str pool k m = (case find_string k pool of None \<Rightarrow> None | Some i \<Rightarrow> Some (km_find (unat i) m))"

definition km_find_readonly_str :: "intern_table \<Rightarrow> string \<Rightarrow> 'v keyed_map \<Rightarrow> 'v option option" where
  "km_find_readonly_str pool k m = (case find_string k pool of None \<Rightarrow> None | Some i \<Rightarrow> Some (km_find_readonly (unat i) m))"

definition km_put_str :: "'v \<Rightarrow> string \<Rightarrow> 'v \<Rightarrow> intern_table \<times> 'v keyed_map \<Rightarrow> (intern_table \<times> 'v keyed_map) option" where
  "km_put_str dflt k v st =
     (case intern_string k (fst st) of None \<Rightarrow> None | Some (i, pool) \<Rightarrow> Some (pool, km_put dflt (unat i) v (snd st)))"

definition km_erase_str :: "'v \<Rightarrow> intern_table \<Rightarrow> string \<Rightarrow> 'v keyed_map \<Rightarrow> (nat \<times> 'v keyed_map) option" where
  "km_erase_str dflt pool k m = (case find_string k pool of None \<Rightarrow> None | Some i \<Rightarrow> Some (km_erase dflt (unat i) m))"

end
