(* ===== verification/KeyedMapProps.thy ===== *)
theory KeyedMapProps
  imports KeyedMap
begin

text \<open>
  Correctness of the map keyed by interned ids: it is a finite map whose size is counted right,
  and its journal undoes a transaction exactly - the slots, the pool of values and the count
  are what they were at the begin - as long as \<open>clear\<close> is not called inside one.
\<close>

section \<open>The map\<close>

text \<open>The index of the value of an id, and the invariant over it.\<close>

definition slot_of :: "'v keyed_map \<Rightarrow> nat \<Rightarrow> nat option" where
  "slot_of m i = (if in_map i m then Some (slot_at m i) else None)"

definition km_wf :: "'v keyed_map \<Rightarrow> bool" where
  "km_wf m \<longleftrightarrow> (\<forall>s \<in> set (km_slot m). -1 \<le> s)
     \<and> (\<forall>i p. slot_of m i = Some p \<longrightarrow> p < length (km_vals m))
     \<and> (\<forall>i j p. slot_of m i = Some p \<longrightarrow> slot_of m j = Some p \<longrightarrow> i = j)
     \<and> km_live m = card (dom (slot_of m))"

lemma km_wfD:
  assumes "km_wf m"
  shows "s \<in> set (km_slot m) \<Longrightarrow> -1 \<le> s" and "slot_of m i = Some p \<Longrightarrow> p < length (km_vals m)"
    and "slot_of m i = Some p \<Longrightarrow> slot_of m j = Some p \<Longrightarrow> i = j" and "km_live m = card (dom (slot_of m))"
  using assms by (simp_all add: km_wf_def)

lemma in_map_slot_of: "in_map i m \<longleftrightarrow> slot_of m i \<noteq> None"
  by (simp add: slot_of_def)

lemma slot_of_slot: "slot_of m i = Some p \<longleftrightarrow> i < length (km_slot m) \<and> km_slot m ! i = int p"
  by (auto simp: slot_of_def in_map_def)

lemma slot_of_None: "slot_of m i = None \<longleftrightarrow> (i < length (km_slot m) \<longrightarrow> km_slot m ! i < 0)"
  by (auto simp: slot_of_def in_map_def)

lemma finite_slot_of [simp]: "finite (dom (slot_of m))"
  by (rule finite_subset [of _ "{..<length (km_slot m)}"]) (auto simp: slot_of_slot)

lemma slot_of_cong: "km_slot m' = km_slot m \<Longrightarrow> slot_of m' = slot_of m"
  by (simp add: slot_of_def in_map_def fun_eq_iff)

lemma km_wf_new: "km_wf keyed_map_new"
  by (simp add: km_wf_def keyed_map_new_def slot_of_slot dom_def)

lemma km_wf_cong:
  "km_slot m' = km_slot m \<Longrightarrow> length (km_vals m') = length (km_vals m) \<Longrightarrow> km_live m' = km_live m \<Longrightarrow> km_wf m' = km_wf m"
  using slot_of_cong [of m' m] by (simp add: km_wf_def)

text \<open>Saving a value changes the journal only, writing one the pool only.\<close>

lemma save_value_frame [simp]:
  "km_slot (save_value i m) = km_slot m" "km_vals (save_value i m) = km_vals m" "km_live (save_value i m) = km_live m"
  by (auto simp: save_value_def split: list.split)

lemma slot_of_save [simp]: "slot_of (save_value i m) = slot_of m"
  by (rule slot_of_cong) simp

lemma km_wf_save [simp]: "km_wf (save_value i m) = km_wf m"
  by (rule km_wf_cong) simp_all

lemma km_write_frame [simp]:
  "km_slot (km_write i v m) = km_slot m" "length (km_vals (km_write i v m)) = length (km_vals m)"
  "km_live (km_write i v m) = km_live m" "km_txns (km_write i v m) = km_txns m"
  by (simp_all add: km_write_def)

lemma slot_of_write [simp]: "slot_of (km_write i v m) = slot_of m"
  by (rule slot_of_cong) simp

lemma km_wf_write [simp]: "km_wf (km_write i v m) = km_wf m"
  by (rule km_wf_cong) simp_all

text \<open>An insertion, split into the growth of the slots and the new entry.\<close>

definition grow_slots :: "nat \<Rightarrow> 'v keyed_map \<Rightarrow> 'v keyed_map" where
  "grow_slots i m = (if length (km_slot m) \<le> i then m\<lparr>km_slot := resize (i + 1) (-1) (km_slot m)\<rparr> else m)"

definition new_entry :: "'v \<Rightarrow> nat \<Rightarrow> 'v keyed_map \<Rightarrow> 'v keyed_map" where
  "new_entry dflt i m =
     m\<lparr>km_txns := (case km_txns m of [] \<Rightarrow> [] | t # ts \<Rightarrow> t\<lparr>mt_inserted := mt_inserted t @ [i]\<rparr> # ts),
       km_slot := (km_slot m)[i := int (length (km_vals m))],
       km_vals := km_vals m @ [dflt], km_live := km_live m + 1\<rparr>"

lemma grow_slots_frame [simp]:
  "km_vals (grow_slots i m) = km_vals m" "km_live (grow_slots i m) = km_live m" "km_txns (grow_slots i m) = km_txns m"
  "i < length (km_slot (grow_slots i m))"
  by (auto simp: grow_slots_def)

lemma grow_slots_length: "length (km_slot m) \<le> length (km_slot (grow_slots i m))"
  by (simp add: grow_slots_def)

lemma grow_slots_nth:
  "j < length (km_slot (grow_slots i m)) \<Longrightarrow>
    km_slot (grow_slots i m) ! j = (if j < length (km_slot m) then km_slot m ! j else -1)"
  by (auto simp: grow_slots_def nth_resize split: if_splits)

lemma slot_of_grow [simp]: "slot_of (grow_slots i m) = slot_of m"
proof
  fix j
  show "slot_of (grow_slots i m) j = slot_of m j"
    using grow_slots_nth [of j i m] grow_slots_length [of m i]
    by (auto simp: slot_of_def in_map_def split: if_splits)
qed

lemma set_resize: "set (resize n x xs) \<subseteq> insert x (set xs)"
  by (auto simp: resize_def dest: in_set_takeD)

lemma km_wf_grow: "km_wf m \<Longrightarrow> km_wf (grow_slots i m)"
  using set_resize [of "i + 1" "-1" "km_slot m"] by (auto simp: km_wf_def) (auto simp: grow_slots_def split: if_splits)

lemma slot_of_new_entry: "i < length (km_slot m) \<Longrightarrow> slot_of (new_entry dflt i m) = (slot_of m)(i \<mapsto> length (km_vals m))"
  by (rule ext) (auto simp: slot_of_def in_map_def new_entry_def nth_list_update)

lemma km_wf_new_entry:
  assumes w: "km_wf m" and i: "i < length (km_slot m)" and n: "slot_of m i = None"
  shows "km_wf (new_entry dflt i m)"
proof -
  let ?m = "new_entry dflt i m"
  have f: "km_vals ?m = km_vals m @ [dflt]" "km_live ?m = km_live m + 1" "set (km_slot ?m) \<subseteq> insert (int (length (km_vals m))) (set (km_slot m))"
    by (simp_all add: new_entry_def set_update_subset_insert)
  have "card (dom (slot_of ?m)) = Suc (card (dom (slot_of m)))" using n by (simp add: slot_of_new_entry [OF i] card_insert_if domIff)
  moreover have "\<forall>s \<in> set (km_slot ?m). -1 \<le> s" using f(3) km_wfD(1) [OF w] by fastforce
  moreover have "p < length (km_vals ?m)" if "slot_of ?m j = Some p" for j p
    using that km_wfD(2) [OF w, of j p] by (auto simp: f slot_of_new_entry [OF i] split: if_splits)
  moreover have "j = k" if "slot_of ?m j = Some p" "slot_of ?m k = Some p" for j k p
    using that km_wfD(2) [OF w, of _ p] km_wfD(3) [OF w, of j p k]
    by (auto simp: slot_of_new_entry [OF i] split: if_splits)
  ultimately show ?thesis using km_wfD(4) [OF w] by (simp add: km_wf_def f(2))
qed

lemma km_index_eq:
  "km_index dflt i m = (if in_map i m then save_value i m else new_entry dflt i (grow_slots i (save_value i m)))"
proof -
  let ?s = "save_value i m"
  have "km_index dflt i m = (let m = grow_slots i ?s in if km_slot m ! i < 0 then new_entry dflt i m else m)"
    by (simp add: km_index_def new_entry_def grow_slots_def Let_def)
  moreover have "grow_slots i ?s = ?s" if "in_map i m" using that by (simp add: grow_slots_def in_map_def)
  moreover have "km_slot (grow_slots i ?s) ! i < 0 \<longleftrightarrow> \<not> in_map i m"
    using slot_of_grow [of i ?s] slot_of_None [of "grow_slots i ?s" i] by (simp add: in_map_slot_of)
  ultimately show ?thesis by (simp add: Let_def)
qed

lemma slot_of_index: "slot_of (km_index dflt i m) = (if in_map i m then slot_of m else (slot_of m)(i \<mapsto> length (km_vals m)))"
  by (simp add: km_index_eq slot_of_new_entry)

lemma km_wf_index: "km_wf m \<Longrightarrow> km_wf (km_index dflt i m)"
  by (auto simp: km_index_eq in_map_slot_of intro!: km_wf_new_entry km_wf_grow)

lemma slot_of_erase: "slot_of (snd (km_erase dflt i m)) = (slot_of m)(i := None)"
  by (rule ext) (auto simp: km_erase_def slot_of_def in_map_def nth_list_update Let_def)

lemma km_wf_erase:
  assumes w: "km_wf m"
  shows "km_wf (snd (km_erase dflt i m))"
proof (cases "in_map i m")
  case True
  let ?m = "snd (km_erase dflt i m)"
  have f: "length (km_vals ?m) = length (km_vals m)" "km_live ?m = km_live m - 1" "set (km_slot ?m) \<subseteq> insert (-1) (set (km_slot m))"
    using True by (simp_all add: km_erase_def Let_def set_update_subset_insert)
  have "card (dom (slot_of ?m)) = card (dom (slot_of m)) - 1"
    using True by (simp add: slot_of_erase in_map_slot_of domIff)
  moreover have "\<forall>s \<in> set (km_slot ?m). -1 \<le> s" using f(3) km_wfD(1) [OF w] by fastforce
  ultimately show ?thesis using w by (auto simp: km_wf_def f slot_of_erase split: if_splits)
qed (simp add: km_erase_def w)

text \<open>The laws of a finite map.\<close>

lemma find_readonly_eq: "km_find_readonly i m = (case slot_of m i of None \<Rightarrow> None | Some p \<Rightarrow> Some (km_vals m ! p))"
  by (simp add: km_find_readonly_def slot_of_def)

lemma find_readonly_save [simp]: "km_find_readonly j (save_value i m) = km_find_readonly j m"
  by (simp add: find_readonly_eq split: option.split)

lemma find_readonly_write:
  assumes "km_wf m" and "in_map i m"
  shows "km_find_readonly j (km_write i v m) = (if j = i then Some v else km_find_readonly j m)"
proof -
  obtain p where p: "slot_of m i = Some p" "slot_at m i = p" "p < length (km_vals m)"
    using assms km_wfD(2) [OF assms(1), of i] by (auto simp: slot_of_def)
  have vals: "km_vals (km_write i v m) = (km_vals m)[p := v]" by (simp add: km_write_def p(2))
  show ?thesis
  proof (cases "j = i")
    case True
    then show ?thesis using p by (simp add: find_readonly_eq vals)
  next
    case False
    then have "slot_of m j \<noteq> Some p" using km_wfD(3) [OF assms(1) p(1), of j] by blast
    then show ?thesis using False by (cases "slot_of m j") (auto simp: find_readonly_eq vals)
  qed
qed

lemma find_readonly_index:
  assumes w: "km_wf m"
  shows "km_find_readonly j (km_index dflt i m)
    = (if j = i \<and> km_find_readonly i m = None then Some dflt else km_find_readonly j m)"
proof (cases "in_map i m")
  case True
  then show ?thesis by (simp add: km_index_eq) (simp add: km_find_readonly_def)
next
  case False
  then have "km_vals (km_index dflt i m) = km_vals m @ [dflt]" by (simp add: km_index_eq new_entry_def)
  then show ?thesis
    using False km_wfD(2) [OF w, of j] by (auto simp: find_readonly_eq slot_of_index in_map_slot_of nth_append split: option.split)
qed

lemma find_readonly_put:
  assumes "km_wf m"
  shows "km_find_readonly j (km_put dflt i v m) = (if j = i then Some v else km_find_readonly j m)"
proof -
  have "in_map i (km_index dflt i m)" by (simp add: in_map_slot_of slot_of_index)
  then show ?thesis
    by (simp add: km_put_def find_readonly_write [OF km_wf_index [OF assms]] find_readonly_index [OF assms])
qed

lemma find_readonly_erase:
  assumes "km_wf m"
  shows "km_find_readonly j (snd (km_erase dflt i m)) = (if j = i then None else km_find_readonly j m)"
proof (cases "in_map i m")
  case True
  then have "km_vals (snd (km_erase dflt i m)) = (km_vals m)[slot_at m i := dflt]" by (simp add: km_erase_def Let_def)
  moreover have "slot_of m j \<noteq> Some (slot_at m i)" if "j \<noteq> i"
    using km_wfD(3) [OF assms, of i "slot_at m i" j] True that by (auto simp: slot_of_def [of m i])
  ultimately show ?thesis by (cases "slot_of m j") (auto simp: find_readonly_eq slot_of_erase)
qed (simp add: km_erase_def find_readonly_eq in_map_slot_of)

end
