(* ===== verification/KeyedMapRuns.thy ===== *)
theory KeyedMapRuns
  imports KeyedMapProps
begin

text \<open>
  The journal of a transaction of the map keyed by ids, and the map as an instance of
  \<open>transactional\<close>: a rollback restores the very state of the begin.
\<close>

section \<open>The journal\<close>

text \<open>
  \<open>journal t m m0\<close>: the record \<open>t\<close> of a transaction that began in \<open>m0\<close> undoes what led to \<open>m\<close>.
  Values saved are those of \<open>m0\<close>; a slot neither saved nor inserted is unchanged; an index into
  the old part of the pool belongs to the id it belonged to; a value changed there was saved.
\<close>

definition journal :: "'v map_txn \<Rightarrow> 'v keyed_map \<Rightarrow> 'v keyed_map \<Rightarrow> bool" where
  "journal t m m0 \<longleftrightarrow>
     mt_slot_size t = length (km_slot m0) \<and> mt_vals_size t = length (km_vals m0) \<and> mt_live t = km_live m0
     \<and> length (km_slot m0) \<le> length (km_slot m) \<and> length (km_vals m0) \<le> length (km_vals m)
     \<and> (\<forall>s \<in> set (mt_saved t). in_map (sv_id s) m0 \<and> sv_slot s = km_slot m0 ! sv_id s
          \<and> sv_value s = km_vals m0 ! slot_at m0 (sv_id s))
     \<and> (\<forall>i < length (km_slot m0). \<not> saved_id i t \<longrightarrow>
          (if i \<in> set (mt_inserted t) then km_slot m0 ! i = -1 else km_slot m ! i = km_slot m0 ! i))
     \<and> (\<forall>i p. slot_of m i = Some p \<longrightarrow> p < length (km_vals m0) \<longrightarrow> slot_of m0 i = Some p)
     \<and> (\<forall>p < length (km_vals m0). km_vals m ! p \<noteq> km_vals m0 ! p \<longrightarrow> (\<exists>i. saved_id i t \<and> slot_of m0 i = Some p))"

lemma journalD:
  assumes "journal t m m0"
  shows "mt_slot_size t = length (km_slot m0)" "mt_vals_size t = length (km_vals m0)" "mt_live t = km_live m0"
    "length (km_slot m0) \<le> length (km_slot m)" "length (km_vals m0) \<le> length (km_vals m)"
    "\<And>s. s \<in> set (mt_saved t) \<Longrightarrow> in_map (sv_id s) m0 \<and> sv_slot s = km_slot m0 ! sv_id s
      \<and> sv_value s = km_vals m0 ! slot_at m0 (sv_id s)"
    "\<And>i. i < length (km_slot m0) \<Longrightarrow> \<not> saved_id i t \<Longrightarrow> i \<in> set (mt_inserted t) \<Longrightarrow> km_slot m0 ! i = -1"
    "\<And>i. i < length (km_slot m0) \<Longrightarrow> \<not> saved_id i t \<Longrightarrow> i \<notin> set (mt_inserted t) \<Longrightarrow> km_slot m ! i = km_slot m0 ! i"
    "\<And>i p. slot_of m i = Some p \<Longrightarrow> p < length (km_vals m0) \<Longrightarrow> slot_of m0 i = Some p"
    "\<And>p. p < length (km_vals m0) \<Longrightarrow> km_vals m ! p \<noteq> km_vals m0 ! p \<Longrightarrow> \<exists>i. saved_id i t \<and> slot_of m0 i = Some p"
  using assms by (auto simp: journal_def)

lemma saved_id_in: "saved_id i t \<longleftrightarrow> (\<exists>s \<in> set (mt_saved t). sv_id s = i)"
  by (auto simp: saved_id_def list_ex_iff)

lemma journal_begin: "journal (hd (km_txns (km_begin m))) (km_begin m) m"
  by (simp add: journal_def km_begin_def saved_id_def slot_of_def in_map_def)

text \<open>What a rollback leaves.\<close>

lemma fold_drop_inserted:
  "length (fold drop_inserted is xs) = length xs"
  "i < length xs \<Longrightarrow> fold drop_inserted is xs ! i = (if i \<in> set is then -1 else xs ! i)"
  by (induction "is" arbitrary: xs) (auto simp: drop_inserted_def nth_list_update)

lemma fold_restore:
  assumes "\<forall>s \<in> set ss. sv_slot s = int (f (sv_id s)) \<and> sv_value s = g (f (sv_id s))"
  shows "length (km_slot (fold restore_saved ss m)) = length (km_slot m)"
    "length (km_vals (fold restore_saved ss m)) = length (km_vals m)"
    "i < length (km_slot m) \<Longrightarrow> km_slot (fold restore_saved ss m) ! i = (if i \<in> sv_id ` set ss then int (f i) else km_slot m ! i)"
    "p < length (km_vals m) \<Longrightarrow> km_vals (fold restore_saved ss m) ! p = (if p \<in> f ` sv_id ` set ss then g p else km_vals m ! p)"
    "km_live (fold restore_saved ss m) = km_live m" "km_txns (fold restore_saved ss m) = km_txns m"
  using assms
  by (induction ss arbitrary: m) (auto simp: restore_saved_def nth_list_update)

lemma journal_rollback:
  assumes j: "journal t m m0" and w: "km_wf m0" and t: "km_txns m = t # km_txns m0"
  shows "km_rollback dflt m = m0"
proof -
  note J = journalD [OF j]
  define f where "f i = slot_at m0 i" for i
  define g where "g p = km_vals m0 ! p" for p
  have f: "\<forall>s \<in> set (mt_saved t). sv_slot s = int (f (sv_id s)) \<and> sv_value s = g (f (sv_id s))"
    using J(6) by (auto simp: f_def g_def in_map_def)
  let ?m = "m\<lparr>km_vals := resize (mt_vals_size t) dflt (km_vals m),
    km_slot := fold drop_inserted (mt_inserted t) (resize (mt_slot_size t) (-1) (km_slot m))\<rparr>"
  let ?r = "fold restore_saved (mt_saved t) ?m"
  note R = fold_restore [OF f, where m = ?m]
  have rb: "km_rollback dflt m = ?r\<lparr>km_live := km_live m0, km_txns := km_txns m0\<rparr>"
    by (simp add: km_rollback_def t J(3))
  have "km_slot ?r = km_slot m0"
  proof (rule nth_equalityI)
    show len: "length (km_slot ?r) = length (km_slot m0)" using R(1) by (simp add: fold_drop_inserted J(1))
    fix i assume "i < length (km_slot ?r)"
    then have i: "i < length (km_slot m0)" using len by simp
    have base: "km_slot ?m ! i = (if i \<in> set (mt_inserted t) then -1 else km_slot m ! i)"
      using i J(4) by (simp add: fold_drop_inserted J(1) nth_resize)
    show "km_slot ?r ! i = km_slot m0 ! i"
    proof (cases "saved_id i t")
      case True
      then have "i \<in> sv_id ` set (mt_saved t)" "in_map i m0" using J(6) by (auto simp: saved_id_in)
      then show ?thesis using R(3) [of i] i by (simp add: fold_drop_inserted J(1) f_def in_map_def)
    next
      case False
      then have "i \<notin> sv_id ` set (mt_saved t)" by (auto simp: saved_id_in)
      then have "km_slot ?r ! i = km_slot ?m ! i" using R(3) [of i] i by (simp add: fold_drop_inserted J(1))
      then show ?thesis using base J(7,8) [OF i False] by auto
    qed
  qed
  moreover have "km_vals ?r = km_vals m0"
  proof (rule nth_equalityI)
    show len: "length (km_vals ?r) = length (km_vals m0)" using R(2) by (simp add: J(2))
    fix p assume "p < length (km_vals ?r)"
    then have p: "p < length (km_vals m0)" using len by simp
    have "km_vals ?r ! p = (if p \<in> f ` sv_id ` set (mt_saved t) then g p else km_vals m ! p)"
      using R(4) [of p] p J(5) by (simp add: J(2) nth_resize)
    moreover have "km_vals m ! p = km_vals m0 ! p" if "p \<notin> f ` sv_id ` set (mt_saved t)"
    proof (rule ccontr)
      assume "km_vals m ! p \<noteq> km_vals m0 ! p"
      then obtain i where "saved_id i t" "slot_of m0 i = Some p" using J(10) [OF p] by blast
      then show False using that by (auto simp: saved_id_in f_def slot_of_slot image_iff)
    qed
    ultimately show "km_vals ?r ! p = km_vals m0 ! p" by (simp add: g_def)
  qed
  ultimately show ?thesis unfolding rb by simp
qed

text \<open>
  Steps that keep a journal.  After \<open>save_value i\<close> the value of \<open>i\<close> may be overwritten: if it is
  in the old part of the pool it is saved.
\<close>

lemma save_value_journal:
  assumes j: "journal t m m0" and w: "km_wf m0" and t: "km_txns m = t # ts"
  obtains t' where "km_txns (save_value i m) = t' # ts" "journal t' (save_value i m) m0"
    "mt_inserted t' = mt_inserted t"
    "\<And>p. slot_of m i = Some p \<Longrightarrow> p < length (km_vals m0) \<Longrightarrow> saved_id i t'"
proof (cases "\<not> in_map i m \<or> mt_vals_size t \<le> slot_at m i \<or> saved_id i t")
  case True
  then have s: "save_value i m = m" by (simp add: save_value_def t)
  show ?thesis
    by (rule that [of t]) (use s t j True journalD(2) [OF j] in \<open>auto simp: slot_of_def split: if_splits\<close>)
next
  case False
  note J = journalD [OF j]
  let ?s = "\<lparr>sv_id = i, sv_slot = km_slot m ! i, sv_value = km_vals m ! slot_at m i\<rparr>"
  let ?t = "t\<lparr>mt_saved := mt_saved t @ [?s]\<rparr>"
  have tx: "km_txns (save_value i m) = ?t # ts" using False by (simp add: save_value_def t)
  define p where "p = slot_at m i"
  have p: "slot_of m i = Some p" "p < length (km_vals m0)" using False J(2) by (auto simp: slot_of_def p_def)
  then have m0: "slot_of m0 i = Some p" using J(9) by blast
  have "km_vals m ! p = km_vals m0 ! p"
    using J(10) [OF p(2)] km_wfD(3) [OF w m0] False by blast
  then have "in_map i m0 \<and> km_slot m ! i = km_slot m0 ! i \<and> km_vals m ! slot_at m i = km_vals m0 ! slot_at m0 i"
    using m0 p(1) by (auto simp: slot_of_slot in_map_def)
  moreover have "saved_id k ?t \<longleftrightarrow> saved_id k t \<or> k = i" for k by (auto simp: saved_id_in)
  ultimately have "journal ?t (save_value i m) m0"
    using j unfolding journal_def by auto
  then show ?thesis using that [of ?t] tx by (simp add: saved_id_in)
qed

lemma journal_write:
  assumes "journal t m m0" and "\<And>p. slot_of m i = Some p \<Longrightarrow> p < length (km_vals m0) \<Longrightarrow> saved_id i t" and "in_map i m"
  shows "journal t (km_write i v m) m0"
proof -
  note J = journalD [OF assms(1)]
  obtain p where p: "slot_of m i = Some p" "slot_at m i = p" using assms(3) by (auto simp: slot_of_def)
  have v: "km_vals (km_write i v m) = (km_vals m)[p := v]" by (simp add: km_write_def p(2))
  have "\<exists>k. saved_id k t \<and> slot_of m0 k = Some q"
    if "q < length (km_vals m0)" "(km_vals m)[p := v] ! q \<noteq> km_vals m0 ! q" for q
  proof (cases "q = p")
    case True
    then show ?thesis using assms(2) [OF p(1)] J(9) [OF p(1)] that(1) by auto
  next
    case False
    then show ?thesis using J(10) [OF that(1)] that(2) by simp
  qed
  then show ?thesis using assms(1) unfolding journal_def by (auto simp: v)
qed

section \<open>Calls inside a transaction\<close>

text \<open>\<open>keeps m m'\<close>: going from \<open>m\<close> to \<open>m'\<close> keeps every journal the innermost record may be of.\<close>

definition keeps :: "'v keyed_map \<Rightarrow> 'v keyed_map \<Rightarrow> bool" where
  "keeps m m' \<longleftrightarrow> (km_txns m = [] \<longrightarrow> km_txns m' = [])
     \<and> (\<forall>t m0. km_wf m0 \<longrightarrow> km_txns m = t # km_txns m0 \<longrightarrow> journal t m m0 \<longrightarrow>
          (\<exists>t'. km_txns m' = t' # km_txns m0 \<and> journal t' m' m0))"

lemma keeps_refl [simp]: "keeps m m"
  by (simp add: keeps_def)

lemma keeps_trans [trans]: "keeps m m1 \<Longrightarrow> keeps m1 m2 \<Longrightarrow> keeps m m2"
  unfolding keeps_def by blast

lemma keeps_save: "keeps m (save_value i m)"
  unfolding keeps_def
proof (intro conjI allI impI)
  fix t m0
  assume "km_wf m0" "km_txns m = t # km_txns m0" "journal t m m0"
  then obtain t' where "km_txns (save_value i m) = t' # km_txns m0" "journal t' (save_value i m) m0"
    using save_value_journal by blast
  then show "\<exists>t'. km_txns (save_value i m) = t' # km_txns m0 \<and> journal t' (save_value i m) m0" by blast
qed (simp add: save_value_def)

lemma keeps_store:
  assumes "in_map i m"
  shows "keeps m (km_write i v (save_value i m))"
  unfolding keeps_def
proof (intro conjI allI impI)
  fix t m0
  assume "km_wf m0" "km_txns m = t # km_txns m0" "journal t m m0"
  then obtain t' where t': "km_txns (save_value i m) = t' # km_txns m0" "journal t' (save_value i m) m0"
    "\<And>p. slot_of m i = Some p \<Longrightarrow> p < length (km_vals m0) \<Longrightarrow> saved_id i t'"
    using save_value_journal by blast
  have "journal t' (km_write i v (save_value i m)) m0"
    by (rule journal_write [OF t'(2)]) (use t'(3) assms in \<open>auto simp: in_map_slot_of\<close>)
  then show "\<exists>t'. km_txns (km_write i v (save_value i m)) = t' # km_txns m0 \<and> journal t' (km_write i v (save_value i m)) m0"
    using t'(1) by auto
qed (simp add: save_value_def)

lemma keeps_grow: "keeps m (grow_slots i m)"
proof -
  have "journal t (grow_slots i m) m0" if j: "journal t m m0" for t m0
  proof -
    note J = journalD [OF j]
    have "km_slot (grow_slots i m) ! k = km_slot m ! k" if "k < length (km_slot m0)" for k
      using that J(4) grow_slots_length [of m i] grow_slots_nth [of k i m] by simp
    then show ?thesis
      using j grow_slots_length [of m i] unfolding journal_def by auto
  qed
  then show ?thesis by (simp add: keeps_def)
qed

lemma keeps_new_entry:
  assumes w: "km_wf m" and i: "i < length (km_slot m)" and n: "slot_of m i = None"
  shows "keeps m (new_entry dflt i m)"
proof -
  have neg: "km_slot m ! i = -1"
    using n i km_wfD(1) [OF w nth_mem [OF i]] by (simp add: slot_of_None)
  let ?n = "new_entry dflt i m"
  have f: "km_slot ?n = (km_slot m)[i := int (length (km_vals m))]" "km_vals ?n = km_vals m @ [dflt]"
    by (simp_all add: new_entry_def)
  have "journal (t\<lparr>mt_inserted := mt_inserted t @ [i]\<rparr>) ?n m0" if j: "journal t m m0" for t m0
  proof -
    note J = journalD [OF j]
    let ?t = "t\<lparr>mt_inserted := mt_inserted t @ [i]\<rparr>"
    have s: "saved_id k ?t = saved_id k t" for k by (simp add: saved_id_def)
    have "if k \<in> set (mt_inserted ?t) then km_slot m0 ! k = -1 else km_slot ?n ! k = km_slot m0 ! k"
      if "k < length (km_slot m0)" "\<not> saved_id k t" for k
      using J(7) [OF that] J(8) [OF that] neg by (cases "i \<in> set (mt_inserted t)"; cases "k = i") (auto simp: f)
    moreover have "slot_of m0 k = Some p" if "slot_of ?n k = Some p" "p < length (km_vals m0)" for k p
      using that J(5,9) by (auto simp: slot_of_new_entry [OF i] split: if_splits)
    moreover have "km_vals ?n ! p = km_vals m ! p" if "p < length (km_vals m0)" for p
      using that J(5) by (simp add: f nth_append)
    ultimately show ?thesis using j unfolding journal_def by (auto simp: f s)
  qed
  moreover have "km_txns ?n = t\<lparr>mt_inserted := mt_inserted t @ [i]\<rparr> # ts" if "km_txns m = t # ts" for t ts
    using that by (simp add: new_entry_def)
  moreover have "km_txns ?n = []" if "km_txns m = []" using that by (simp add: new_entry_def)
  ultimately show ?thesis unfolding keeps_def by blast
qed

lemma keeps_index:
  assumes "km_wf m"
  shows "keeps m (km_index dflt i m)"
proof (cases "in_map i m")
  case True
  then show ?thesis by (simp add: km_index_eq keeps_save)
next
  case False
  have "keeps m (save_value i m)" by (rule keeps_save)
  also have "keeps (save_value i m) (grow_slots i (save_value i m))" by (rule keeps_grow)
  also have "keeps (grow_slots i (save_value i m)) (km_index dflt i m)"
    using False assms by (auto simp: km_index_eq in_map_slot_of intro!: keeps_new_entry km_wf_grow)
  finally show ?thesis .
qed

text \<open>Writing through \<open>operator[]\<close>: the value was saved by the call, or is a new one.\<close>

lemma keeps_put:
  assumes w: "km_wf m"
  shows "keeps m (km_put dflt i v m)"
proof (cases "in_map i m")
  case True
  then show ?thesis using keeps_store by (simp add: km_put_def km_index_eq)
next
  case False
  let ?m = "km_index dflt i m"
  have new: "slot_of ?m i = Some (length (km_vals m))" using False by (simp add: slot_of_index)
  have "keeps m ?m" using keeps_index [OF w] .
  moreover have "keeps m (km_put dflt i v m)" if k: "keeps m ?m"
    unfolding keeps_def
  proof (intro conjI allI impI)
    fix t m0
    assume a: "km_wf m0" "km_txns m = t # km_txns m0" "journal t m m0"
    then obtain t' where t': "km_txns ?m = t' # km_txns m0" "journal t' ?m m0" using k unfolding keeps_def by blast
    have "journal t' (km_put dflt i v m) m0"
      unfolding km_put_def
      by (rule journal_write [OF t'(2)]) (use new journalD(5) [OF a(3)] in \<open>auto simp: in_map_slot_of\<close>)
    then show "\<exists>t'. km_txns (km_put dflt i v m) = t' # km_txns m0 \<and> journal t' (km_put dflt i v m) m0"
      using t'(1) by (simp add: km_put_def)
  qed (use k in \<open>simp add: keeps_def km_put_def\<close>)
  ultimately show ?thesis by blast
qed

lemma keeps_erase:
  assumes "km_wf m"
  shows "keeps m (snd (km_erase dflt i m))"
proof (cases "in_map i m")
  case True
  let ?w = "km_write i dflt (save_value i m)" and ?e = "snd (km_erase dflt i m)"
  have f: "km_slot ?e = (km_slot m)[i := -1]" "km_vals ?e = km_vals ?w" "km_txns ?e = km_txns ?w"
    using True by (simp_all add: km_erase_def km_write_def Let_def)
  have "\<exists>t'. km_txns ?e = t' # km_txns m0 \<and> journal t' ?e m0"
    if a: "km_wf m0" "km_txns m = t # km_txns m0" "journal t m m0" for t m0
  proof -
    obtain t' where t': "km_txns (save_value i m) = t' # km_txns m0" "journal t' (save_value i m) m0"
      "\<And>p. slot_of m i = Some p \<Longrightarrow> p < length (km_vals m0) \<Longrightarrow> saved_id i t'"
      using save_value_journal [OF a(3,1,2)] by blast
    have "journal t' ?w m0"
      by (rule journal_write [OF t'(2)]) (use t'(3) True in \<open>auto simp: in_map_slot_of\<close>)
    note J = journalD [OF this]
    have "km_slot m0 ! i = -1 \<or> saved_id i t'" if "i < length (km_slot m0)" "i \<notin> set (mt_inserted t')"
    proof (rule disjCI)
      assume u: "\<not> saved_id i t'"
      then have "km_slot m ! i = km_slot m0 ! i" using J(8) [OF that(1) u that(2)] by simp
      then have "slot_of m i = Some (slot_at m i)" "slot_of m0 i = Some (slot_at m i)"
        using True that(1) by (simp_all add: slot_of_def in_map_def)
      then show "km_slot m0 ! i = -1" using t'(3) u km_wfD(2) [OF a(1)] by blast
    qed
    then have "if k \<in> set (mt_inserted t') then km_slot m0 ! k = -1 else (km_slot m)[i := -1] ! k = km_slot m0 ! k"
      if "k < length (km_slot m0)" "\<not> saved_id k t'" for k
      using J(7) [OF that] J(8) [OF that] J(4) that by (cases "k = i") (auto simp: f)
    moreover have "slot_of m0 k = Some p" if "slot_of ?e k = Some p" "p < length (km_vals m0)" for k p
      using that J(9) [of k p] by (simp add: slot_of_erase split: if_splits)
    ultimately have "journal t' ?e m0"
      using \<open>journal t' ?w m0\<close> unfolding journal_def by (auto simp: f)
    then show ?thesis using t'(1) by (simp add: f)
  qed
  moreover have "km_txns ?e = []" if "km_txns m = []" using that by (simp add: f save_value_def)
  ultimately show ?thesis unfolding keeps_def by blast
qed (simp add: km_erase_def)

lemma for_each_go_props:
  "km_wf m \<Longrightarrow> \<forall>i \<in> set is. i < length (km_slot m) \<Longrightarrow>
    keeps m (for_each_go fn is m) \<and> km_wf (for_each_go fn is m)"
proof (induction "is" arbitrary: m)
  case (Cons i "is")
  show ?case
  proof (cases "0 \<le> km_slot m ! i")
    case True
    obtain b v where fv: "fn i (km_vals m ! slot_at m i) = (b, v)" by (cases "fn i (km_vals m ! slot_at m i)")
    let ?m = "km_write i v (save_value i m)"
    have k: "keeps m ?m" using True Cons.prems(2) by (intro keeps_store) (simp add: in_map_def)
    have "keeps ?m (for_each_go fn is ?m) \<and> km_wf (for_each_go fn is ?m)"
      using Cons.IH [of ?m] Cons.prems by simp
    then show ?thesis using True fv k Cons.prems(1) keeps_trans [OF k] by (simp add: Let_def)
  qed (use Cons in simp)
qed simp

section \<open>The map is transactional\<close>

datatype 'v km_op =
  KmFind nat | KmStore nat 'v | KmPut nat 'v | KmErase nat | KmForEach "nat \<Rightarrow> 'v \<Rightarrow> bool \<times> 'v"
| KmReserve nat | KmClear

fun km_step :: "'v \<Rightarrow> 'v km_op \<Rightarrow> 'v keyed_map \<Rightarrow> 'v keyed_map" where
  "km_step dflt (KmFind i) m = snd (km_find i m)" |
  "km_step dflt (KmStore i v) m = km_store i v m" |
  "km_step dflt (KmPut i v) m = km_put dflt i v m" |
  "km_step dflt (KmErase i) m = snd (km_erase dflt i m)" |
  "km_step dflt (KmForEach fn) m = km_for_each fn m" |
  "km_step dflt (KmReserve n) m = km_reserve n m" |
  "km_step dflt KmClear m = km_clear m"

text \<open>\<open>clear\<close> is for a map without an open transaction.\<close>

definition km_allowed :: "'v km_op \<Rightarrow> 'v keyed_map \<Rightarrow> bool" where
  "km_allowed q m \<longleftrightarrow> km_txns m = [] \<or> (case q of KmClear \<Rightarrow> False | _ \<Rightarrow> True)"

fun km_inv :: "'v keyed_map \<Rightarrow> 'v keyed_map list \<Rightarrow> bool" where
  "km_inv m [] \<longleftrightarrow> km_wf m \<and> km_txns m = []" |
  "km_inv m (m0 # ms) \<longleftrightarrow> km_wf m \<and> (\<exists>t. km_txns m = t # km_txns m0 \<and> journal t m m0) \<and> km_inv m0 ms"

lemma km_inv_wf: "km_inv m ms \<Longrightarrow> km_wf m"
  by (cases ms) auto

lemma km_inv_keeps: "km_inv m ms \<Longrightarrow> keeps m m' \<Longrightarrow> km_wf m' \<Longrightarrow> km_inv m' ms"
  by (cases ms) (auto simp: keeps_def dest: km_inv_wf)

lemma km_reserve_grow: "km_reserve n m = (if n \<noteq> 0 then grow_slots n m else m)"
  by (simp add: km_reserve_def grow_slots_def)

lemma km_wf_clear: "km_wf (km_clear m)"
  by (simp add: km_wf_def km_clear_def slot_of_slot dom_def)

lemma km_store_eq: "km_store i v m = (if in_map i m then km_write i v (save_value i m) else m)"
  by (simp add: km_store_def km_find_def)

lemma km_step_inv:
  assumes i: "km_inv m ms" and a: "km_allowed q m"
  shows "km_inv (km_step dflt q m) ms"
proof -
  note w = km_inv_wf [OF i]
  have "keeps m (km_step dflt q m) \<and> km_wf (km_step dflt q m)"
  proof (cases q)
    case (KmForEach fn)
    then show ?thesis using for_each_go_props [OF w, of "[0..<length (km_slot m)]" fn] by (simp add: km_for_each_def)
  next
    case KmClear
    then have "km_txns m = []" using a by (simp add: km_allowed_def)
    then show ?thesis using KmClear km_wf_clear [of m] by (simp add: keeps_def km_clear_def)
  next
    case (KmPut i v)
    then show ?thesis using keeps_put [OF w] km_wf_index [OF w] by (simp add: km_put_def)
  next
    case (KmErase i)
    then show ?thesis using keeps_erase [OF w] km_wf_erase [OF w] by simp
  qed (use w in \<open>auto simp: km_find_def keeps_save km_store_eq keeps_store km_reserve_grow keeps_grow km_wf_grow\<close>)
  then show ?thesis using km_inv_keeps [OF i] by blast
qed

lemma km_begin_inv: "km_inv m ms \<Longrightarrow> km_inv (km_begin m) (m # ms)"
  using journal_begin [of m] km_inv_wf [of m ms] km_wf_cong [of "km_begin m" m]
  by (auto simp: km_begin_def)

lemma km_rollback_eq: "km_inv m (m0 # ms) \<Longrightarrow> km_rollback dflt m = m0"
  using journal_rollback km_inv_wf by fastforce

text \<open>A commit inside a transaction: the enclosing record takes over what it needs.\<close>

lemma saved_id_append: "saved_id i (t\<lparr>mt_saved := mt_saved t @ [s]\<rparr>) \<longleftrightarrow> saved_id i t \<or> sv_id s = i"
  by (auto simp: saved_id_in)

lemma hand_saved_frame [simp]:
  "mt_vals_size (hand_saved ss u) = mt_vals_size u" "mt_slot_size (hand_saved ss u) = mt_slot_size u"
  "mt_live (hand_saved ss u) = mt_live u" "mt_inserted (hand_saved ss u) = mt_inserted u"
  by (induction ss arbitrary: u) auto

lemma hand_saved_ids:
  "saved_id i (hand_saved ss u) \<longleftrightarrow> saved_id i u \<or> (\<exists>s \<in> set ss. sv_id s = i \<and> nat (sv_slot s) < mt_vals_size u)"
  by (induction ss arbitrary: u) (auto simp: saved_id_append)

lemma hand_saved_in:
  "s \<in> set (mt_saved (hand_saved ss u)) \<Longrightarrow>
    s \<in> set (mt_saved u) \<or> s \<in> set ss \<and> nat (sv_slot s) < mt_vals_size u \<and> \<not> saved_id (sv_id s) u"
proof (induction ss arbitrary: u)
  case (Cons r ss)
  show ?case
  proof (cases "nat (sv_slot r) < mt_vals_size u \<and> \<not> saved_id (sv_id r) u")
    case True
    then have "s \<in> set (mt_saved (u\<lparr>mt_saved := mt_saved u @ [r]\<rparr>))
      \<or> s \<in> set ss \<and> nat (sv_slot s) < mt_vals_size (u\<lparr>mt_saved := mt_saved u @ [r]\<rparr>)
        \<and> \<not> saved_id (sv_id s) (u\<lparr>mt_saved := mt_saved u @ [r]\<rparr>)"
      using Cons.prems by (intro Cons.IH) simp
    then show ?thesis using True by (auto simp: saved_id_append)
  qed (use Cons.IH [of u] Cons.prems in auto)
qed simp

lemma journal_hand_over:
  assumes jt: "journal t m m0" and ju: "journal u m0 m1" and w0: "km_wf m0" and w1: "km_wf m1"
  shows "journal (hand_over t u) m m1"
proof -
  note T = journalD [OF jt] and U = journalD [OF ju]
  let ?h = "hand_over t u"
  have h: "mt_slot_size ?h = mt_slot_size u" "mt_vals_size ?h = mt_vals_size u" "mt_live ?h = mt_live u"
    "mt_saved ?h = mt_saved (hand_saved (mt_saved t) u)" "set (mt_inserted ?h) = set (mt_inserted u) \<union> set (mt_inserted t)"
    by (simp_all add: hand_over_def Let_def)
  have hs: "saved_id i ?h \<longleftrightarrow> saved_id i u \<or> saved_id i t \<and> slot_at m0 i < length (km_vals m1)" for i
    using hand_saved_ids [of i "mt_saved t" u] T(6) U(2) by (auto simp: saved_id_in h(4))
  have tin: "slot_of m0 i = Some (slot_at m0 i)" if "saved_id i t" for i
    using that T(6) by (auto simp: saved_id_in slot_of_def)
  have valid: "in_map (sv_id s) m1 \<and> sv_slot s = km_slot m1 ! sv_id s \<and> sv_value s = km_vals m1 ! slot_at m1 (sv_id s)"
    if s: "s \<in> set (mt_saved ?h)" for s
  proof (cases "s \<in> set (mt_saved u)")
    case False
    then have s: "s \<in> set (mt_saved t)" "nat (sv_slot s) < length (km_vals m1)" "\<not> saved_id (sv_id s) u"
      using hand_saved_in s U(2) by (fastforce simp: h(4))+
    define i p where "i = sv_id s" and "p = slot_at m0 i"
    have m0: "slot_of m0 i = Some p" "p < length (km_vals m1)" "sv_slot s = km_slot m0 ! i" "sv_value s = km_vals m0 ! p"
      using T(6) [OF s(1)] s(2) by (auto simp: i_def p_def slot_of_def)
    have m1: "slot_of m1 i = Some p" using U(9) [OF m0(1,2)] .
    have "km_vals m0 ! p = km_vals m1 ! p"
      using U(10) [OF m0(2)] km_wfD(3) [OF w1 m1] s(3) by (auto simp: i_def)
    then show ?thesis using m0 m1 by (auto simp: slot_of_slot i_def in_map_def)
  qed (use U(6) in blast)
  have slots: "if i \<in> set (mt_inserted ?h) then km_slot m1 ! i = -1 else km_slot m ! i = km_slot m1 ! i"
    if i: "i < length (km_slot m1)" "\<not> saved_id i ?h" for i
  proof (cases "i \<in> set (mt_inserted u)")
    case True
    then show ?thesis using U(7) [of i] i by (simp add: h(5) hs)
  next
    case False
    then have u: "km_slot m0 ! i = km_slot m1 ! i" using U(8) [of i] i by (simp add: hs)
    have "\<not> saved_id i t"
    proof
      assume t: "saved_id i t"
      then have "slot_of m1 i = Some (slot_at m0 i)" using tin [OF t] i(1) u by (auto simp: slot_of_slot)
      then show False using km_wfD(2) [OF w1] i(2) t by (auto simp: hs)
    qed
    then show ?thesis using T(7) [of i] T(8) [of i] i U(4) u False by (auto simp: h(5))
  qed
  have vals: "\<exists>i. saved_id i ?h \<and> slot_of m1 i = Some p"
    if p: "p < length (km_vals m1)" "km_vals m ! p \<noteq> km_vals m1 ! p" for p
  proof (cases "km_vals m ! p = km_vals m0 ! p")
    case True
    then show ?thesis using U(10) [OF p(1)] p(2) by (auto simp: hs)
  next
    case False
    then obtain i where i: "saved_id i t" "slot_of m0 i = Some p" using T(10) [of p] p(1) U(5) by auto
    then have "saved_id i ?h" using p(1) tin [OF i(1)] by (simp add: hs)
    then show ?thesis using U(9) [OF i(2) p(1)] by blast
  qed
  have older: "slot_of m1 i = Some p" if "slot_of m i = Some p" "p < length (km_vals m1)" for i p
    using that T(9) [of i p] U(5) U(9) [of i p] by auto
  show ?thesis
    unfolding journal_def h(1-3) saved_id_def [symmetric]
    using U(1-5) T(4,5) valid slots vals older by auto
qed

lemma km_commit_inv:
  assumes "km_inv m (m0 # ms)"
  shows "km_inv (km_commit m) ms"
proof -
  obtain t where t: "km_txns m = t # km_txns m0" "journal t m m0" "km_wf m" "km_inv m0 ms" using assms by auto
  show ?thesis
  proof (cases ms)
    case Nil
    then have c: "km_commit m = m\<lparr>km_txns := []\<rparr>" using t by (simp add: km_commit_def)
    then show ?thesis using t(3) Nil km_wf_cong [of "km_commit m" m] by simp
  next
    case (Cons m1 ms')
    then obtain u where u: "km_txns m0 = u # km_txns m1" "journal u m0 m1" "km_inv m1 ms'" using t(4) by auto
    have c: "km_commit m = m\<lparr>km_txns := hand_over t u # km_txns m1\<rparr>" using t(1) u(1) by (simp add: km_commit_def)
    have "journal (hand_over t u) m m1" by (rule journal_hand_over [OF t(2) u(2) km_inv_wf [OF t(4)] km_inv_wf [OF u(3)]])
    then have "journal (hand_over t u) (km_commit m) m1"
      unfolding c journal_def slot_of_def in_map_def by simp
    then show ?thesis using Cons t(3) u(3) km_wf_cong [of "km_commit m" m] by (simp add: c)
  qed
qed

interpretation km: transactional km_begin km_commit "km_rollback dflt" "km_step dflt" km_allowed "(=)" km_inv
  for dflt :: 'v
  by unfold_locales (auto simp: km_begin_inv km_step_inv km_commit_inv km_rollback_eq simp del: km_inv.simps,
      auto simp: km_rollback_eq)

text \<open>
  \<open>clear\<close> inside a transaction: the pool starts again at index 0, so a key inserted after it looks
  like one from before the begin, is saved when it is read, and its value is written over the
  restored one.
\<close>

lemma clear_inside_transaction:
  "km_find_readonly 1 (km.tx_run 0 [TxCall (KmPut 1 10), TxBegin, TxCall KmClear, TxCall (KmPut 2 20), TxCall (KmFind 2), TxRollback]
     (keyed_map_new :: nat keyed_map)) = Some 20"
  by (simp only: km.tx_run.simps km.tx_step.simps) code_simp

section \<open>Properties\<close>

lemma reachable_wf: "km.tx_allowed dflt cs keyed_map_new \<Longrightarrow> levels 0 cs = Some n \<Longrightarrow> km_wf (km.tx_run dflt cs keyed_map_new)"
  using km.tx_run_inv [of keyed_map_new "[]" "[]" cs n dflt] km_wf_new
  by (auto simp: keyed_map_new_def intro: km_inv_wf)

text \<open>
  A keyed map is a finite map.  Whatever was called on it, inside transactions or not, an
  insertion maps its key and only its key to the value, an erasure takes its key away and only
  it, and the size is the number of keys.
\<close>

theorem keyed_map_laws:
  assumes "km.tx_allowed dflt cs keyed_map_new" and "levels 0 cs = Some n"
    and "m = km.tx_run dflt cs keyed_map_new"
  shows "km_find_readonly j (km_put dflt i v m) = (if j = i then Some v else km_find_readonly j m)
    \<and> km_find_readonly j (snd (km_erase dflt i m)) = (if j = i then None else km_find_readonly j m)
    \<and> fst (km_find j m) = km_find_readonly j m \<and> km_find_readonly j (snd (km_find i m)) = km_find_readonly j m
    \<and> km_live m = card {k. km_find_readonly k m \<noteq> None}"
proof -
  have w: "km_wf m" using reachable_wf [OF assms(1,2)] assms(3) by simp
  have "{k. km_find_readonly k m \<noteq> None} = dom (slot_of m)" by (auto simp: find_readonly_eq split: option.splits)
  then show ?thesis
    using find_readonly_put [OF w] find_readonly_erase [OF w] km_wfD(4) [OF w]
    by (simp add: km_find_def km_find_readonly_def [of j m])
qed

theorem keyed_map_laws_witness:
  "km_find_readonly 3 (km_put 0 5 (8::nat) (km.tx_run 0 [TxCall (KmPut 3 7), TxBegin] keyed_map_new)) = Some 7
   \<and> km_find_readonly 5 (km_put 0 5 (8::nat) (km.tx_run 0 [TxCall (KmPut 3 7), TxBegin] keyed_map_new)) = Some 8"
proof -
  have a: "km.tx_allowed (0::nat) [TxCall (KmPut 3 7), TxBegin] keyed_map_new" by (simp add: km_allowed_def keyed_map_new_def)
  have l: "levels 0 [TxCall (KmPut 3 (7::nat)), TxBegin] = Some 1" by simp
  have v: "km_find_readonly 3 (km.tx_run (0::nat) [TxCall (KmPut 3 7), TxBegin] keyed_map_new) = Some 7"
    by (simp only: km.tx_run.simps km.tx_step.simps) code_simp
  show ?thesis using keyed_map_laws [OF a l refl, of _ 5 8] v by auto
qed

text \<open>
  C20: a rolled-back transaction leaves no trace.  Whatever is done to a map between a begin and
  its rollback - keys inserted, overwritten through a pointer, erased and inserted again,
  enumerated, inner transactions committed or rolled back, but no \<open>clear\<close> - the state after the
  rollback is the state at the begin, down to the slots, the pool and the outer journals.
\<close>

theorem keyed_map_rollback:
  assumes "km.tx_allowed dflt ds keyed_map_new" and "levels 0 ds = Some n" and "m = km.tx_run dflt ds keyed_map_new"
    and "levels 0 cs = Some 0" and "km.tx_allowed dflt cs (km_begin m)"
  shows "km.tx_run dflt (TxBegin # cs @ [TxRollback]) m = m"
proof -
  have "km_inv keyed_map_new []" by (simp add: km_wf_new) (simp add: keyed_map_new_def)
  then obtain ms where "km_inv m ms"
    using km.tx_run_inv [of keyed_map_new "[]" "[]" ds n dflt] assms(1-3) by auto
  from km.rolled_back_same [OF this assms(4,5)] show ?thesis by simp
qed

theorem keyed_map_rollback_witness:
  "km.tx_run 0 (TxBegin # [TxCall (KmStore 1 (99::nat)), TxBegin, TxCall (KmErase 1), TxCall (KmPut 4 40), TxCommit, TxCall (KmPut 1 11)] @ [TxRollback])
     (km.tx_run 0 [TxCall (KmPut 1 10)] keyed_map_new)
   = km.tx_run 0 [TxCall (KmPut 1 10)] keyed_map_new"
proof -
  let ?cs = "[TxCall (KmStore 1 (99::nat)), TxBegin, TxCall (KmErase 1), TxCall (KmPut 4 40), TxCommit, TxCall (KmPut 1 11)]"
  have a: "km.tx_allowed (0::nat) [TxCall (KmPut 1 10)] keyed_map_new" "levels 0 [TxCall (KmPut 1 (10::nat))] = Some 0"
    by (simp_all add: km_allowed_def)
  have c: "levels 0 ?cs = Some 0" by simp
  have d: "km.tx_allowed (0::nat) ?cs (km_begin m)" for m by (simp add: km_allowed_def)
  show ?thesis by (rule keyed_map_rollback [OF a refl c d])
qed

end
