(* ===== verification/IdTable.thy ===== *)
theory IdTable
  imports Transactions Interner
begin

text \<open>
  The segmented table of stable ids, from \<^verbatim>\<open>include/madcdis/id_table.h\<close>: class \<open>id_table<T>\<close>,
  behind the type table of the compiler.

  An object is a pointer the table does not own; \<open>get\<close> answers none where the code answers a
  null pointer.  The records of the open transactions are a stack, innermost first, as for the
  map keyed by ids.
\<close>

section \<open>The table\<close>

record 'p saved_object =
  so_index :: nat
  so_value :: 'p

record 'p id_txn =
  xt_size :: nat
  xt_saved :: "'p saved_object list"
  xt_touched :: "nat set"

record 'p id_table =
  xi_objs :: "'p list"
  xi_base :: "32 word"
  xi_txns :: "'p id_txn list"

definition id_table_new :: "32 word \<Rightarrow> 'p id_table" where
  "id_table_new base = \<lparr>xi_objs = [], xi_base = base, xi_txns = []\<rparr>"

definition id_table_copy :: "'p id_table \<Rightarrow> 'p id_table" where
  "id_table_copy t = t\<lparr>xi_txns := []\<rparr>"

definition id_add :: "'p \<Rightarrow> 'p id_table \<Rightarrow> 32 word \<times> 'p id_table" where
  "id_add obj t =
     (let t = t\<lparr>xi_objs := xi_objs t @ [obj]\<rparr> in (xi_base t + of_nat (length (xi_objs t) - 1), t))"

definition id_at_index :: "nat \<Rightarrow> 'p id_table \<Rightarrow> 'p option" where
  "id_at_index i t = (if i < length (xi_objs t) then Some (xi_objs t ! i) else None)"

definition id_get :: "32 word \<Rightarrow> 'p id_table \<Rightarrow> 'p option" where
  "id_get i t =
     (if i < xi_base t then None
      else let idx = unat (i - xi_base t) in if idx < length (xi_objs t) then Some (xi_objs t ! idx) else None)"

definition touch :: "nat \<Rightarrow> 'p id_table \<Rightarrow> 'p id_table" where
  "touch idx t =
     (case xi_txns t of
        [] \<Rightarrow> t
      | x # xs \<Rightarrow>
          if idx \<in> xt_touched x then t
          else t\<lparr>xi_txns := x\<lparr>xt_touched := insert idx (xt_touched x),
                              xt_saved := xt_saved x @ [\<lparr>so_index = idx, so_value = xi_objs t ! idx\<rparr>]\<rparr> # xs\<rparr>)"

definition id_set :: "32 word \<Rightarrow> 'p \<Rightarrow> 'p id_table \<Rightarrow> bool \<times> 'p id_table" where
  "id_set i obj t =
     (if i < xi_base t then (False, t)
      else let idx = unat (i - xi_base t)
           in if length (xi_objs t) \<le> idx then (False, t)
              else let t = touch idx t in (True, t\<lparr>xi_objs := (xi_objs t)[idx := obj]\<rparr>))"

definition id_size :: "'p id_table \<Rightarrow> nat" where
  "id_size t = length (xi_objs t)"

section \<open>Transactions\<close>

definition id_begin :: "'p id_table \<Rightarrow> 'p id_table" where
  "id_begin t = t\<lparr>xi_txns := \<lparr>xt_size = length (xi_objs t), xt_saved = [], xt_touched = {}\<rparr> # xi_txns t\<rparr>"

fun hand_touched :: "'p saved_object list \<Rightarrow> 'p id_txn \<Rightarrow> 'p id_txn" where
  "hand_touched [] u = u" |
  "hand_touched (s # ss) u =
     hand_touched ss (if so_index s < xt_size u \<and> so_index s \<notin> xt_touched u
                      then u\<lparr>xt_touched := insert (so_index s) (xt_touched u), xt_saved := xt_saved u @ [s]\<rparr> else u)"

definition id_commit :: "'p id_table \<Rightarrow> 'p id_table" where
  "id_commit t =
     (case xi_txns t of
        [] \<Rightarrow> t
      | [x] \<Rightarrow> t\<lparr>xi_txns := []\<rparr>
      | x # u # xs \<Rightarrow> t\<lparr>xi_txns := hand_touched (xt_saved x) u # xs\<rparr>)"

definition id_rollback :: "'p \<Rightarrow> 'p id_table \<Rightarrow> 'p id_table" where
  "id_rollback null t =
     (case xi_txns t of
        [] \<Rightarrow> t
      | x # xs \<Rightarrow>
          t\<lparr>xi_objs := resize (xt_size x) null
                        (foldr (\<lambda>s objs. objs[so_index s := so_value s]) (xt_saved x) (xi_objs t)),
            xi_txns := xs\<rparr>)"

text \<open>
  The loop of the rollback runs over the saved slots from the last to the first, which is what
  \<^const>\<open>foldr\<close> does.
\<close>

section \<open>Its journal\<close>

definition id_journal :: "'p id_txn \<Rightarrow> 'p list \<Rightarrow> 'p list \<Rightarrow> bool" where
  "id_journal x objs objs0 \<longleftrightarrow>
     xt_size x = length objs0 \<and> length objs0 \<le> length objs
     \<and> xt_touched x = so_index ` set (xt_saved x)
     \<and> (\<forall>s \<in> set (xt_saved x). so_index s < length objs0 \<longrightarrow> so_value s = objs0 ! so_index s)
     \<and> (\<forall>i < length objs0. objs ! i \<noteq> objs0 ! i \<longrightarrow> i \<in> xt_touched x)"

fun id_inv :: "'p id_table \<Rightarrow> 'p id_table list \<Rightarrow> bool" where
  "id_inv t [] \<longleftrightarrow> xi_txns t = []" |
  "id_inv t (t0 # ts) \<longleftrightarrow>
     (\<exists>x. xi_txns t = x # xi_txns t0 \<and> id_journal x (xi_objs t) (xi_objs t0)) \<and> xi_base t = xi_base t0 \<and> id_inv t0 ts"

lemma foldr_restore:
  assumes "\<forall>s \<in> set ss. so_index s < length ys \<longrightarrow> so_value s = ys ! so_index s" and "length ys \<le> length xs" and "i < length ys"
  shows "length (foldr (\<lambda>s objs. objs[so_index s := so_value s]) ss xs) = length xs"
    and "foldr (\<lambda>s objs. objs[so_index s := so_value s]) ss xs ! i = (if i \<in> so_index ` set ss then ys ! i else xs ! i)"
  using assms by (induction ss) (auto simp: nth_list_update_if)

lemma id_rollback_eq:
  assumes "id_inv t (t0 # ts)"
  shows "id_rollback null t = t0"
proof -
  obtain x where x: "xi_txns t = x # xi_txns t0" "id_journal x (xi_objs t) (xi_objs t0)" "xi_base t = xi_base t0"
    using assms by auto
  let ?f = "foldr (\<lambda>s objs. objs[so_index s := so_value s]) (xt_saved x) (xi_objs t)"
  have J: "xt_size x = length (xi_objs t0)" "length (xi_objs t0) \<le> length (xi_objs t)"
    "\<forall>s \<in> set (xt_saved x). so_index s < length (xi_objs t0) \<longrightarrow> so_value s = xi_objs t0 ! so_index s"
    "\<And>i. i < length (xi_objs t0) \<Longrightarrow> i \<notin> so_index ` set (xt_saved x) \<Longrightarrow> xi_objs t ! i = xi_objs t0 ! i"
    using x(2) by (auto simp: id_journal_def)
  have "resize (length (xi_objs t0)) null ?f = xi_objs t0"
  proof (rule nth_equalityI)
    fix i assume "i < length (resize (length (xi_objs t0)) null ?f)"
    then have i: "i < length (xi_objs t0)" by simp
    note R = foldr_restore [OF J(3,2) i]
    show "resize (length (xi_objs t0)) null ?f ! i = xi_objs t0 ! i"
      using R J(2) J(4) [OF i] i by (simp add: nth_resize)
  qed simp
  then show ?thesis using x by (simp add: id_rollback_def J(1))
qed

lemma touch_frame [simp]: "xi_objs (touch i t) = xi_objs t" "xi_base (touch i t) = xi_base t"
  by (auto simp: touch_def split: list.split)

lemma id_add_inv: "id_inv t ts \<Longrightarrow> id_inv (snd (id_add obj t)) ts"
  by (cases ts) (auto simp: id_add_def Let_def id_journal_def nth_append)

lemma id_set_inv:
  assumes "id_inv t ts"
  shows "id_inv (snd (id_set i obj t)) ts"
proof -
  define idx where "idx = unat (i - xi_base t)"
  show ?thesis
  proof (cases "i < xi_base t \<or> length (xi_objs t) \<le> idx")
    case True
    then show ?thesis using assms by (auto simp: id_set_def Let_def idx_def)
  next
    case False
    then have s: "snd (id_set i obj t) = (touch idx t)\<lparr>xi_objs := (xi_objs t)[idx := obj]\<rparr>"
      by (simp add: id_set_def Let_def idx_def)
    show ?thesis
    proof (cases ts)
      case Nil
      then show ?thesis using assms by (simp add: s touch_def)
    next
      case (Cons t0 ts')
      then obtain x where x: "xi_txns t = x # xi_txns t0" "id_journal x (xi_objs t) (xi_objs t0)" "xi_base t = xi_base t0" "id_inv t0 ts'"
        using assms by auto
      define y where "y = (if idx \<in> xt_touched x then x else x\<lparr>xt_touched := insert idx (xt_touched x),
        xt_saved := xt_saved x @ [\<lparr>so_index = idx, so_value = xi_objs t ! idx\<rparr>]\<rparr>)"
      have "xi_txns (touch idx t) = y # xi_txns t0" by (simp add: touch_def x(1) y_def)
      moreover have "id_journal y ((xi_objs t)[idx := obj]) (xi_objs t0)"
        using x(2) unfolding id_journal_def y_def by (auto simp: nth_list_update_if split: if_splits)
      ultimately show ?thesis using x Cons by (simp add: s)
    qed
  qed
qed

lemma hand_touched_props:
  "xt_size (hand_touched ss u) = xt_size u"
  "xt_touched (hand_touched ss u) = xt_touched u \<union> {i \<in> so_index ` set ss. i < xt_size u}"
  by (induction ss arbitrary: u) auto

lemma hand_touched_saved:
  "xt_touched u = so_index ` set (xt_saved u) \<Longrightarrow>
    xt_touched (hand_touched ss u) = so_index ` set (xt_saved (hand_touched ss u))"
  by (induction ss arbitrary: u) auto

lemma hand_touched_in:
  "s \<in> set (xt_saved (hand_touched ss u)) \<Longrightarrow>
    s \<in> set (xt_saved u) \<or> s \<in> set ss \<and> so_index s < xt_size u \<and> so_index s \<notin> xt_touched u"
proof (induction ss arbitrary: u)
  case (Cons r ss)
  show ?case
  proof (cases "so_index r < xt_size u \<and> so_index r \<notin> xt_touched u")
    case True
    from Cons.IH [of "u\<lparr>xt_touched := insert (so_index r) (xt_touched u), xt_saved := xt_saved u @ [r]\<rparr>"]
    show ?thesis using True Cons.prems by auto
  qed (use Cons.IH [of u] Cons.prems in auto)
qed simp

lemma id_commit_inv:
  assumes "id_inv t (t0 # ts)"
  shows "id_inv (id_commit t) ts"
proof -
  obtain x where x: "xi_txns t = x # xi_txns t0" "id_journal x (xi_objs t) (xi_objs t0)" "xi_base t = xi_base t0" "id_inv t0 ts"
    using assms by auto
  show ?thesis
  proof (cases ts)
    case Nil
    then show ?thesis using x by (simp add: id_commit_def)
  next
    case (Cons t1 ts')
    then obtain u where u: "xi_txns t0 = u # xi_txns t1" "id_journal u (xi_objs t0) (xi_objs t1)" "xi_base t0 = xi_base t1" "id_inv t1 ts'"
      using x(4) by auto
    let ?h = "hand_touched (xt_saved x) u"
    have J: "length (xi_objs t1) \<le> length (xi_objs t0)" "xt_touched u = so_index ` set (xt_saved u)"
      "xt_touched x = so_index ` set (xt_saved x)" "xt_size u = length (xi_objs t1)"
      using x(2) u(2) by (auto simp: id_journal_def)
    have val: "so_value s = xi_objs t1 ! so_index s" if "s \<in> set (xt_saved ?h)" "so_index s < length (xi_objs t1)" for s
    proof (cases "s \<in> set (xt_saved u)")
      case False
      then have "s \<in> set (xt_saved x)" "so_index s \<notin> xt_touched u" using hand_touched_in that(1) by fastforce+
      then show ?thesis using x(2) u(2) that(2) J(1) by (auto simp: id_journal_def)
    qed (use u(2) that in \<open>auto simp: id_journal_def\<close>)
    have diff: "i \<in> xt_touched ?h" if "i < length (xi_objs t1)" "xi_objs t ! i \<noteq> xi_objs t1 ! i" for i
    proof (cases "xi_objs t ! i = xi_objs t0 ! i")
      case True
      then show ?thesis using u(2) that by (auto simp: id_journal_def hand_touched_props)
    next
      case False
      then have "i \<in> so_index ` set (xt_saved x)" using x(2) that(1) J(1,3) by (auto simp: id_journal_def)
      then show ?thesis using that(1) J(4) by (simp add: hand_touched_props)
    qed
    have "id_journal ?h (xi_objs t) (xi_objs t1)"
      unfolding id_journal_def
      using val diff hand_touched_saved [OF J(2)] J(1,4) x(2)
      by (auto simp: hand_touched_props(1)) (auto simp: id_journal_def)
    then show ?thesis using x u Cons by (simp add: id_commit_def)
  qed
qed

datatype 'p id_op = IdAdd 'p | IdSet "32 word" 'p

fun id_step :: "'p id_op \<Rightarrow> 'p id_table \<Rightarrow> 'p id_table" where
  "id_step (IdAdd obj) t = snd (id_add obj t)" |
  "id_step (IdSet i obj) t = snd (id_set i obj t)"

interpretation xi: transactional id_begin id_commit "id_rollback null" id_step "\<lambda>q t. True" "(=)" id_inv
  for null :: 'p
proof
  fix t :: "'p id_table" and ts q t1
  show "id_inv t ts \<Longrightarrow> id_inv (id_begin t) (t # ts)" by (simp add: id_begin_def id_journal_def)
  show "id_inv t ts \<Longrightarrow> True \<Longrightarrow> id_inv (id_step q t) ts" by (cases q) (simp_all add: id_add_inv id_set_inv)
  show "id_inv t (t1 # ts) \<Longrightarrow> id_inv (id_commit t) ts" by (rule id_commit_inv)
  show "id_inv t (t1 # ts) \<Longrightarrow> id_inv (id_rollback null t) ts"
    using id_rollback_eq [of t t1 ts null] by auto
  show "id_inv t (t1 # ts) \<Longrightarrow> id_rollback null t = t1" by (rule id_rollback_eq)
qed

section \<open>Properties\<close>

text \<open>
  Ids are stable.  Whatever state a table is in, as long as its ids fit 32 bits, adding an
  object gives an id that answers that object and was unassigned, and leaves what every other id
  answers; repointing an assigned id changes that id only, at any depth of open transactions, and
  an id the table never assigned is refused and leaves the table as it was.
\<close>

theorem id_table_laws:
  assumes "unat (xi_base t) + length (xi_objs t) < 2 ^ 32"
  shows "id_get j (snd (id_add obj t)) = (if j = fst (id_add obj t) then Some obj else id_get j t)
    \<and> id_get (fst (id_add obj t)) t = None
    \<and> (case id_get i t of
         None \<Rightarrow> id_set i obj t = (False, t)
       | Some _ \<Rightarrow> fst (id_set i obj t) \<and> id_get j (snd (id_set i obj t)) = (if j = i then Some obj else id_get j t))"
proof -
  let ?n = "length (xi_objs t)"
  have n: "unat (xi_base t + of_nat ?n) = unat (xi_base t) + ?n"
    using assms by (simp add: unat_word_ariths unat_of_nat)
  have u: "unat (k - xi_base t) = unat k - unat (xi_base t)" "unat (xi_base t) \<le> unat k" if "\<not> k < xi_base t" for k
    using that by (simp_all add: unat_sub_if' word_le_nat_alt word_less_nat_alt)
  have new: "\<not> xi_base t + of_nat ?n < xi_base t" using n by (simp add: word_less_nat_alt)
  have idx: "unat (j - xi_base t) = ?n \<longleftrightarrow> j = xi_base t + of_nat ?n" if "\<not> j < xi_base t"
    using u [OF that] n by (auto simp: word_unat_eq_iff)
  have get_add: "id_get j (snd (id_add obj t)) = (if j = fst (id_add obj t) then Some obj else id_get j t)"
    using idx new by (auto simp: id_get_def id_add_def Let_def nth_append less_Suc_eq)
  have diff: "unat (j - xi_base t) = unat (i - xi_base t) \<longleftrightarrow> j = i" by (simp add: word_unat_eq_iff [symmetric])
  show ?thesis
    using get_add u(1) [OF new] n diff new
    by (auto simp: id_add_def Let_def id_get_def id_set_def nth_list_update_if split: option.split)
qed

theorem id_table_laws_witness:
  "id_get 7 (snd (id_add ''c'' (snd (id_add ''b'' (id_table_new 7))))) = Some ''b''"
  using id_table_laws [of "snd (id_add ''b'' (id_table_new 7))" 7 "''c''"]
  by (simp add: id_add_def id_table_new_def id_get_def)

text \<open>
  C23: a rolled-back transaction leaves the table as it was at its begin, the journals of the
  transactions around it included: the objects added in between are cut off, every repointed id
  answers its old object again, and inner transactions may have been committed or rolled back.
\<close>

theorem id_table_rollback:
  assumes "levels 0 ds = Some n" and "t = xi.tx_run null ds (id_table_new base)" and "levels 0 cs = Some 0"
  shows "xi.tx_run null (TxBegin # cs @ [TxRollback]) t = t"
proof -
  have ok: "xi.tx_allowed null cs t" for cs t
    by (induction cs arbitrary: t) (auto split: txn_call.split)
  have "id_inv (id_table_new base) ([] @ [])" by (simp add: id_table_new_def)
  then obtain ts where "id_inv t ts"
    using xi.tx_run_inv [of "id_table_new base" "[]" "[]" ds n null] assms(1,2) ok by auto
  from xi.rolled_back_same [OF this assms(3) ok] show ?thesis by simp
qed

theorem id_table_rollback_witness:
  "xi.tx_run [] (TxBegin # [TxCall (IdSet 7 ''x''), TxBegin, TxCall (IdSet 8 ''y''), TxCall (IdAdd ''z''), TxCommit] @ [TxRollback])
     (xi.tx_run [] [TxCall (IdAdd ''a''), TxCall (IdAdd ''b'')] (id_table_new 7))
   = xi.tx_run [] [TxCall (IdAdd ''a''), TxCall (IdAdd ''b'')] (id_table_new 7)"
  by (rule id_table_rollback [where n = 0, OF _ refl]) simp_all

end
