(* ===== verification/TaskChannels.thy ===== *)
theory TaskChannels
  imports Prelude
begin

text \<open>
  The waitables of the cooperative tasks, from \<^verbatim>\<open>src/madc_task_chan.cpp\<close>: value channels
  (\<open>chan_make\<close>, \<open>chan_send\<close>, \<open>chan_recv\<close>, \<open>chan_try_recv\<close>, \<open>chan_close\<close>, \<open>chan_len\<close>), the fan-in
  \<open>chan_select\<close> over channels and byte endpoints, the registry of the tasks that wait for a
  handle, and the part of the scheduler they use: the ready queue, park and unpark, the
  cancellation of a task.

  One task runs at a time, from one park to the next.  A verb that parks is therefore two
  definitions: what it does up to the park, and what it does when its task gets the CPU again;
  the frame it left on the parked stack says which verb to go on with.  The waiter records live
  on that stack, so a record's address is its task and its place in the frame: \<open>(t, 0)\<close> for a
  plain verb, \<open>(t, i)\<close> for case \<open>i\<close> of a select, \<open>(t, k)\<close> for the \<open>k\<close>-th handle it waits for.  Its
  task pointer is the task of the address and its slot is that task's result variable.  When the
  verb returns or throws, the frame and its records are gone, and reading one through an address
  left in a queue would be undefined behaviour (\<^const>\<open>the\<close> of nothing).

  The payload is a type parameter, and its null value an argument.  A handle is a value with its
  kind; kinds are numbers, and only \<open>handle_closing\<close> reads them on the modelled platform.
\<close>

type_synonym waiter_ref = "nat \<times> nat"

type_synonym poll_handle = "int \<times> nat"

section \<open>State\<close>

record 'v chan_waiter =
  cw_val :: 'v
  cw_ok :: bool
  cw_woken_closed :: bool
  cw_grouped :: bool

text \<open>\<open>fired_index\<close>, \<open>-1\<close> in the code while the group is armed, is an option.\<close>

record select_group =
  sg_fired :: "nat option"
  sg_woken :: bool

record io_waiter =
  iw_handle :: poll_handle
  iw_grouped :: bool
  iw_index :: nat
  iw_fired :: bool

record 'v madc_chan =
  mc_q :: "'v list"
  mc_cap :: int
  mc_closed :: bool
  mc_recv :: "waiter_ref list"
  mc_send :: "waiter_ref list"

text \<open>An entry of the handle registry: a channel, or a source of readiness (a byte endpoint or a source resolved by id).\<close>

datatype 'v chan_entry = ValueChan "'v madc_chan" | Readiness

datatype wait_frame = InSend int | InRecv int | InSelect "int list" | InWait poll_handle

record 'v tasks =
  tk_current :: "nat option"
  tk_ready :: "nat list"
  tk_cancel :: "nat set"
  tk_frames :: "nat \<Rightarrow> wait_frame option"
  tk_waiters :: "waiter_ref \<Rightarrow> 'v chan_waiter option"
  tk_groups :: "nat \<Rightarrow> select_group option"
  tk_ios :: "waiter_ref \<Rightarrow> io_waiter option"
  tk_io_list :: "waiter_ref list"
  tk_entries :: "int \<Rightarrow> 'v chan_entry option"
  tk_next :: int
  tk_out :: "nat \<Rightarrow> 'v"

datatype chan_result = Returned int | Threw string | Parked

text \<open>
  What the world outside answers during one step: whether a read of a handle would make progress,
  the state of a source at the scan of a select (none when it is gone) and again at its
  registration, and the handles the source waits for.
\<close>

record outside =
  os_readable :: "poll_handle \<Rightarrow> bool"
  os_scan :: "int \<Rightarrow> int option"
  os_park :: "int \<Rightarrow> int"
  os_handles :: "int \<Rightarrow> poll_handle list"

section \<open>Scheduler\<close>

definition task_enqueue :: "nat \<Rightarrow> 'v tasks \<Rightarrow> 'v tasks" where
  "task_enqueue t w = (if t \<in> set (tk_ready w) then w else w\<lparr>tk_ready := tk_ready w @ [t]\<rparr>)"

definition cancel_request :: "nat \<Rightarrow> 'v tasks \<Rightarrow> 'v tasks" where
  "cancel_request t w =
     (let w = w\<lparr>tk_cancel := insert t (tk_cancel w)\<rparr> in if tk_current w = Some t then w else task_enqueue t w)"

definition cancelled_text :: string where
  "cancelled_text = ''madc: task cancelled''"

text \<open>The park of task \<open>t\<close> in a verb, and the return from it: the frame and its records are gone.\<close>

definition park_in :: "wait_frame \<Rightarrow> nat \<Rightarrow> 'v tasks \<Rightarrow> chan_result \<times> 'v tasks" where
  "park_in f t w = (Parked, w\<lparr>tk_frames := (tk_frames w)(t := Some f), tk_current := None\<rparr>)"

definition unwind :: "nat \<Rightarrow> 'v tasks \<Rightarrow> 'v tasks" where
  "unwind t w =
     w\<lparr>tk_frames := (tk_frames w)(t := None), tk_groups := (tk_groups w)(t := None),
       tk_waiters := (\<lambda>r. if fst r = t then None else tk_waiters w r),
       tk_ios := (\<lambda>r. if fst r = t then None else tk_ios w r)\<rparr>"

section \<open>Waking\<close>

definition set_woken :: "nat \<Rightarrow> 'v tasks \<Rightarrow> 'v tasks" where
  "set_woken t w = w\<lparr>tk_groups := (tk_groups w)(t := map_option (\<lambda>g. g\<lparr>sg_woken := True\<rparr>) (tk_groups w t))\<rparr>"

abbreviation group_woken :: "nat \<Rightarrow> 'v tasks \<Rightarrow> bool" where
  "group_woken t w \<equiv> sg_woken (the (tk_groups w t))"

definition wake_recv_waiter :: "waiter_ref \<Rightarrow> 'v tasks \<Rightarrow> 'v tasks" where
  "wake_recv_waiter r w =
     (if cw_grouped (the (tk_waiters w r))
      then if group_woken (fst r) w then w else task_enqueue (fst r) (set_woken (fst r) w)
      else task_enqueue (fst r) w)"

definition select_fire :: "bool \<Rightarrow> nat \<Rightarrow> nat \<Rightarrow> 'v tasks \<Rightarrow> bool \<times> 'v tasks" where
  "select_fire grouped i t w =
     (if grouped
      then let w = w\<lparr>tk_groups := (tk_groups w)(t := map_option (\<lambda>g. g\<lparr>sg_fired := Some i\<rparr>) (tk_groups w t))\<rparr>
           in if group_woken t w then (False, w) else (True, task_enqueue t (set_woken t w))
      else (True, task_enqueue t w))"

section \<open>Waiters for a handle\<close>

definition io_register :: "waiter_ref \<Rightarrow> io_waiter \<Rightarrow> 'v tasks \<Rightarrow> 'v tasks" where
  "io_register r i w = w\<lparr>tk_ios := (tk_ios w)(r := Some i), tk_io_list := r # tk_io_list w\<rparr>"

definition io_unregister :: "waiter_ref \<Rightarrow> 'v tasks \<Rightarrow> 'v tasks" where
  "io_unregister r w = w\<lparr>tk_io_list := remove1 r (tk_io_list w)\<rparr>"

definition set_io_fired :: "waiter_ref \<Rightarrow> 'v tasks \<Rightarrow> 'v tasks" where
  "set_io_fired r w = w\<lparr>tk_ios := (tk_ios w)(r := map_option (\<lambda>i. i\<lparr>iw_fired := True\<rparr>) (tk_ios w r))\<rparr>"

abbreviation group_fired :: "nat \<Rightarrow> 'v tasks \<Rightarrow> bool" where
  "group_fired t w \<equiv> sg_fired (the (tk_groups w t)) \<noteq> None"

definition io_fire_waiter :: "waiter_ref \<Rightarrow> 'v tasks \<Rightarrow> bool \<times> 'v tasks" where
  "io_fire_waiter r w =
     (let i = the (tk_ios w r)
      in if iw_fired i \<or> (iw_grouped i \<and> group_fired (fst r) w) then (False, w)
         else select_fire (iw_grouped i) (iw_index i) (fst r) (set_io_fired r w))"

fun io_probe_from :: "(poll_handle \<Rightarrow> bool) \<Rightarrow> waiter_ref list \<Rightarrow> 'v tasks \<Rightarrow> nat \<times> 'v tasks" where
  "io_probe_from readable [] w = (0, w)" |
  "io_probe_from readable (r # rs) w =
     (if \<not> iw_fired (the (tk_ios w r)) \<and> readable (iw_handle (the (tk_ios w r)))
      then let (woke, w) = io_fire_waiter r w; (n, w) = io_probe_from readable rs w
           in ((if woke then 1 else 0) + n, w)
      else io_probe_from readable rs w)"

definition io_probe_and_fire :: "(poll_handle \<Rightarrow> bool) \<Rightarrow> 'v tasks \<Rightarrow> nat \<times> 'v tasks" where
  "io_probe_and_fire readable w = io_probe_from readable (tk_io_list w) w"

definition close_waiter :: "poll_handle \<Rightarrow> waiter_ref \<Rightarrow> 'v tasks \<Rightarrow> 'v tasks" where
  "close_waiter p r w =
     (let i = the (tk_ios w r)
      in if iw_fired i \<or> iw_handle i \<noteq> p then w
         else let w = set_io_fired r w
              in if iw_grouped i
                 then if group_fired (fst r) w \<or> group_woken (fst r) w then w
                      else task_enqueue (fst r) (set_woken (fst r) w)
                 else task_enqueue (fst r) w)"

definition handle_closing :: "poll_handle \<Rightarrow> 'v tasks \<Rightarrow> 'v tasks" where
  "handle_closing p w = fold (close_waiter p) (tk_io_list w) w"

definition wait_readable :: "outside \<Rightarrow> nat \<Rightarrow> poll_handle \<Rightarrow> 'v tasks \<Rightarrow> chan_result \<times> 'v tasks" where
  "wait_readable e t p w =
     (if t \<in> tk_cancel w then (Threw cancelled_text, w)
      else if os_readable e p then (Returned 0, w)
      else park_in (InWait p) t
             (io_register (t, 0) \<lparr>iw_handle = p, iw_grouped = False, iw_index = 0, iw_fired = False\<rparr> w))"

definition resume_wait :: "nat \<Rightarrow> 'v tasks \<Rightarrow> chan_result \<times> 'v tasks" where
  "resume_wait t w =
     (let fired = iw_fired (the (tk_ios w (t, 0))); w = unwind t (io_unregister (t, 0) w)
      in (if \<not> fired \<and> t \<in> tk_cancel w then Threw cancelled_text else Returned 0, w))"

section \<open>Channels\<close>

definition chan_at :: "int \<Rightarrow> 'v tasks \<Rightarrow> 'v madc_chan option" where
  "chan_at h w = (case tk_entries w h of Some (ValueChan c) \<Rightarrow> Some c | _ \<Rightarrow> None)"

definition set_chan :: "int \<Rightarrow> 'v madc_chan \<Rightarrow> 'v tasks \<Rightarrow> 'v tasks" where
  "set_chan h c w = w\<lparr>tk_entries := (tk_entries w)(h := Some (ValueChan c))\<rparr>"

definition set_waiter :: "waiter_ref \<Rightarrow> 'v chan_waiter \<Rightarrow> 'v tasks \<Rightarrow> 'v tasks" where
  "set_waiter r m w = w\<lparr>tk_waiters := (tk_waiters w)(r := Some m)\<rparr>"

definition set_ok :: "waiter_ref \<Rightarrow> 'v tasks \<Rightarrow> 'v tasks" where
  "set_ok r w = set_waiter r ((the (tk_waiters w r))\<lparr>cw_ok := True\<rparr>) w"

definition set_woken_closed :: "waiter_ref \<Rightarrow> 'v tasks \<Rightarrow> 'v tasks" where
  "set_woken_closed r w = set_waiter r ((the (tk_waiters w r))\<lparr>cw_woken_closed := True\<rparr>) w"

definition set_out :: "nat \<Rightarrow> 'v \<Rightarrow> 'v tasks \<Rightarrow> 'v tasks" where
  "set_out t v w = w\<lparr>tk_out := (tk_out w)(t := v)\<rparr>"

text \<open>The first deliverable receiver of a queue, and the queue after it; a husk is discarded.\<close>

fun pop_recv_waiter :: "'v tasks \<Rightarrow> waiter_ref list \<Rightarrow> waiter_ref option \<times> waiter_ref list" where
  "pop_recv_waiter w [] = (None, [])" |
  "pop_recv_waiter w (r # rs) =
     (if cw_grouped (the (tk_waiters w r)) \<and> group_fired (fst r) w then pop_recv_waiter w rs else (Some r, rs))"

lemma pop_recv_waiter_shorter: "(Some r, rs') = pop_recv_waiter w rs \<Longrightarrow> length rs' < length rs"
  by (induction w rs rule: pop_recv_waiter.induct) (auto split: if_splits)

definition chan_poll_recv :: "nat \<Rightarrow> int \<Rightarrow> 'v madc_chan \<Rightarrow> 'v tasks \<Rightarrow> int \<times> 'v tasks" where
  "chan_poll_recv t h c w =
     (case (mc_q c, mc_send c) of
        (v # q, []) \<Rightarrow> (1, set_chan h (c\<lparr>mc_q := q\<rparr>) (set_out t v w))
      | (v # q, r # rs) \<Rightarrow>
          (1, task_enqueue (fst r) (set_ok r
                (set_chan h (c\<lparr>mc_q := q @ [cw_val (the (tk_waiters w r))], mc_send := rs\<rparr>) (set_out t v w))))
      | ([], r # rs) \<Rightarrow>
          (1, task_enqueue (fst r) (set_ok r
                (set_chan h (c\<lparr>mc_send := rs\<rparr>) (set_out t (cw_val (the (tk_waiters w r))) w))))
      | ([], []) \<Rightarrow> (if mc_closed c then -1 else 0, w))"

definition chan_make :: "int \<Rightarrow> 'v tasks \<Rightarrow> chan_result \<times> 'v tasks" where
  "chan_make capacity w =
     (if capacity < 0 then (Threw ''chan_make: negative capacity'', w)
      else (Returned (tk_next w),
            (set_chan (tk_next w) \<lparr>mc_q = [], mc_cap = capacity, mc_closed = False, mc_recv = [], mc_send = []\<rparr> w)
            \<lparr>tk_next := tk_next w + 1\<rparr>))"

definition plain_waiter :: "'v \<Rightarrow> 'v chan_waiter" where
  "plain_waiter v = \<lparr>cw_val = v, cw_ok = False, cw_woken_closed = False, cw_grouped = False\<rparr>"

definition chan_send :: "nat \<Rightarrow> int \<Rightarrow> 'v \<Rightarrow> 'v tasks \<Rightarrow> chan_result \<times> 'v tasks" where
  "chan_send t h v w =
     (if t \<in> tk_cancel w then (Threw cancelled_text, w)
      else case chan_at h w of
        None \<Rightarrow> (Threw ''chan_send: bad channel handle'', w)
      | Some c \<Rightarrow>
          if mc_closed c then (Threw ''send on closed channel'', w)
          else (case pop_recv_waiter w (mc_recv c) of
            (Some r, rs) \<Rightarrow>
              (Returned 1, snd (select_fire (cw_grouped (the (tk_waiters w r))) (snd r) (fst r)
                 (set_ok r (set_out (fst r) v (set_chan h (c\<lparr>mc_recv := rs\<rparr>) w)))))
          | (None, rs) \<Rightarrow>
              if int (length (mc_q c)) < mc_cap c
              then (Returned 1, set_chan h (c\<lparr>mc_recv := rs, mc_q := mc_q c @ [v]\<rparr>) w)
              else park_in (InSend h) t
                     (set_waiter (t, 0) (plain_waiter v)
                       (set_chan h (c\<lparr>mc_recv := rs, mc_send := mc_send c @ [(t, 0)]\<rparr>) w))))"

text \<open>\<open>remove_waiter\<close> takes the record off its queue if it is still there.\<close>

definition drop_sender :: "int \<Rightarrow> waiter_ref \<Rightarrow> 'v tasks \<Rightarrow> 'v tasks" where
  "drop_sender h r w =
     (case chan_at h w of None \<Rightarrow> w | Some c \<Rightarrow> set_chan h (c\<lparr>mc_send := remove1 r (mc_send c)\<rparr>) w)"

definition drop_receiver :: "int \<Rightarrow> waiter_ref \<Rightarrow> 'v tasks \<Rightarrow> 'v tasks" where
  "drop_receiver h r w =
     (case chan_at h w of None \<Rightarrow> w | Some c \<Rightarrow> set_chan h (c\<lparr>mc_recv := remove1 r (mc_recv c)\<rparr>) w)"

definition resume_send :: "nat \<Rightarrow> int \<Rightarrow> 'v tasks \<Rightarrow> chan_result \<times> 'v tasks" where
  "resume_send t h w =
     (let me = the (tk_waiters w (t, 0))
      in if cw_ok me then (Returned 1, unwind t w)
         else if t \<in> tk_cancel w then (Threw cancelled_text, unwind t (drop_sender h (t, 0) w))
         else if cw_woken_closed me then (Threw ''send on closed channel'', unwind t w)
         else (Returned 1, unwind t w))"

definition chan_recv :: "'v \<Rightarrow> nat \<Rightarrow> int \<Rightarrow> 'v tasks \<Rightarrow> chan_result \<times> 'v tasks" where
  "chan_recv null t h w =
     (if t \<in> tk_cancel w then (Threw cancelled_text, w)
      else case chan_at h w of
        None \<Rightarrow> (Threw ''chan_recv: bad channel handle'', w)
      | Some c \<Rightarrow>
          let (r, w) = chan_poll_recv t h c w
          in if r = 1 then (Returned 1, w)
             else if r = -1 then (Returned 0, set_out t null w)
             else park_in (InRecv h) t
                    (set_waiter (t, 0) (plain_waiter null) (set_chan h (c\<lparr>mc_recv := mc_recv c @ [(t, 0)]\<rparr>) w)))"

definition resume_recv :: "'v \<Rightarrow> nat \<Rightarrow> int \<Rightarrow> 'v tasks \<Rightarrow> chan_result \<times> 'v tasks" where
  "resume_recv null t h w =
     (let me = the (tk_waiters w (t, 0))
      in if cw_ok me then (Returned 1, unwind t w)
         else if t \<in> tk_cancel w then (Threw cancelled_text, unwind t (drop_receiver h (t, 0) w))
         else if cw_woken_closed me then (Returned 0, set_out t null (unwind t w))
         else (Returned 1, unwind t w))"

function wake_receivers :: "waiter_ref list \<Rightarrow> 'v tasks \<Rightarrow> 'v tasks" where
  "wake_receivers rs w =
     (case pop_recv_waiter w rs of
        (None, rs') \<Rightarrow> w
      | (Some r, rs') \<Rightarrow> wake_receivers rs' (wake_recv_waiter r (set_woken_closed r w)))"
  by auto
termination by (relation "measure (\<lambda>(rs, w). length rs)") (auto simp: pop_recv_waiter_shorter)

declare wake_receivers.simps [simp del]

fun wake_senders :: "waiter_ref list \<Rightarrow> 'v tasks \<Rightarrow> 'v tasks" where
  "wake_senders [] w = w" |
  "wake_senders (r # rs) w = wake_senders rs (task_enqueue (fst r) (set_woken_closed r w))"

text \<open>The two loops of \<open>chan_close\<close> empty the queues, and nothing in them reads a queue.\<close>

definition chan_close :: "int \<Rightarrow> 'v tasks \<Rightarrow> chan_result \<times> 'v tasks" where
  "chan_close h w =
     (case chan_at h w of
        None \<Rightarrow> (Threw ''chan_close: bad channel handle'', w)
      | Some c \<Rightarrow>
          if mc_closed c then (Threw ''close of closed channel'', w)
          else (Returned 0, wake_senders (mc_send c) (wake_receivers (mc_recv c)
                 (set_chan h (c\<lparr>mc_closed := True, mc_recv := [], mc_send := []\<rparr>) w))))"

definition chan_len :: "int \<Rightarrow> 'v tasks \<Rightarrow> chan_result" where
  "chan_len h w =
     (case chan_at h w of None \<Rightarrow> Threw ''chan_len: bad channel handle'' | Some c \<Rightarrow> Returned (int (length (mc_q c))))"

definition chan_try_recv :: "'v \<Rightarrow> nat \<Rightarrow> int \<Rightarrow> 'v tasks \<Rightarrow> chan_result \<times> 'v tasks" where
  "chan_try_recv null t h w =
     (case chan_at h w of
        None \<Rightarrow> (Threw ''chan_try_recv: bad channel handle'', w)
      | Some c \<Rightarrow>
          let (r, w) = chan_poll_recv t h c w
          in (Returned r, if r = -1 then set_out t null w else w))"

section \<open>Select\<close>

text \<open>The scan: the lowest case that is ready, or whether some case is open.\<close>

fun select_scan :: "'v \<Rightarrow> outside \<Rightarrow> nat \<Rightarrow> nat \<Rightarrow> int list \<Rightarrow> bool \<Rightarrow> 'v tasks \<Rightarrow> nat option \<times> bool \<times> 'v tasks" where
  "select_scan null e t i [] any_open w = (None, any_open, w)" |
  "select_scan null e t i (h # hs) any_open w =
     (case chan_at h w of
        Some c \<Rightarrow>
          (let (r, w) = chan_poll_recv t h c w
           in if r = 1 then (Some i, any_open, w) else select_scan null e t (i + 1) hs (any_open \<or> r = 0) w)
      | None \<Rightarrow>
          (let r = (case os_scan e h of None \<Rightarrow> -1 | Some x \<Rightarrow> x)
           in if r = 1 then (Some i, any_open, set_out t null w)
              else select_scan null e t (i + 1) hs (any_open \<or> r = 0) w))"

fun register_cases :: "'v \<Rightarrow> outside \<Rightarrow> nat \<Rightarrow> nat \<Rightarrow> int list \<Rightarrow> 'v tasks \<Rightarrow> (nat \<times> poll_handle) list \<times> 'v tasks" where
  "register_cases null e t i [] w = ([], w)" |
  "register_cases null e t i (h # hs) w =
     (case chan_at h w of
        Some c \<Rightarrow>
          register_cases null e t (i + 1) hs
            (if mc_closed c then w
             else set_waiter (t, i) ((plain_waiter null)\<lparr>cw_grouped := True\<rparr>)
                    (set_chan h (c\<lparr>mc_recv := mc_recv c @ [(t, i)]\<rparr>) w))
      | None \<Rightarrow>
          (let (want, w) = register_cases null e t (i + 1) hs w
           in (if os_scan e h = None \<or> os_park e h < 0 then want
               else map (Pair i) (filter (\<lambda>p. 0 \<le> fst p) (os_handles e h)) @ want, w)))"

fun register_ios :: "nat \<Rightarrow> nat \<Rightarrow> (nat \<times> poll_handle) list \<Rightarrow> 'v tasks \<Rightarrow> 'v tasks" where
  "register_ios t k [] w = w" |
  "register_ios t k ((i, p) # want) w =
     register_ios t (k + 1) want (io_register (t, k) \<lparr>iw_handle = p, iw_grouped = True, iw_index = i, iw_fired = False\<rparr> w)"

definition select_pass :: "'v \<Rightarrow> outside \<Rightarrow> nat \<Rightarrow> int list \<Rightarrow> 'v tasks \<Rightarrow> chan_result \<times> 'v tasks" where
  "select_pass null e t hs w =
     (case select_scan null e t 0 hs False w of
        (Some i, any_open, w) \<Rightarrow> (Returned (int i), w)
      | (None, any_open, w) \<Rightarrow>
          if \<not> any_open then (Returned (-1), set_out t null w)
          else let w = w\<lparr>tk_groups := (tk_groups w)(t := Some \<lparr>sg_fired = None, sg_woken = False\<rparr>)\<rparr>;
                   (want, w) = register_cases null e t 0 hs w
               in park_in (InSelect hs) t (register_ios t 0 want w))"

text \<open>\<open>cases\<close> is none when the argument is not an array.\<close>

definition chan_select :: "'v \<Rightarrow> outside \<Rightarrow> nat \<Rightarrow> int list option \<Rightarrow> 'v tasks \<Rightarrow> chan_result \<times> 'v tasks" where
  "chan_select null e t cases w =
     (case cases of
        None \<Rightarrow> (Threw ''chan_select: cases must be an array of channel handles'', w)
      | Some hs \<Rightarrow>
          if hs = [] then (Threw ''chan_select: empty case list'', w)
          else if list_ex (\<lambda>h. tk_entries w h = None) hs then (Threw ''chan_select: bad channel handle'', w)
          else select_pass null e t hs w)"

fun drop_cases :: "nat \<Rightarrow> nat \<Rightarrow> int list \<Rightarrow> 'v tasks \<Rightarrow> 'v tasks" where
  "drop_cases t i [] w = w" |
  "drop_cases t i (h # hs) w =
     drop_cases t (i + 1) hs
       (case chan_at h w of None \<Rightarrow> w | Some c \<Rightarrow> set_chan h (c\<lparr>mc_recv := filter (\<lambda>r. r \<noteq> (t, i)) (mc_recv c)\<rparr>) w)"

text \<open>Every record of the select is taken off its registry, so the frame can go.\<close>

definition leave_select :: "nat \<Rightarrow> int list \<Rightarrow> 'v tasks \<Rightarrow> 'v tasks" where
  "leave_select t hs w =
     (let w = drop_cases t 0 hs w in unwind t (w\<lparr>tk_io_list := filter (\<lambda>r. fst r \<noteq> t) (tk_io_list w)\<rparr>))"

definition resume_select :: "'v \<Rightarrow> outside \<Rightarrow> nat \<Rightarrow> int list \<Rightarrow> 'v tasks \<Rightarrow> chan_result \<times> 'v tasks" where
  "resume_select null e t hs w =
     (let fired = sg_fired (the (tk_groups w t)); w = leave_select t hs w
      in case fired of
           Some i \<Rightarrow> (Returned (int i), if chan_at (hs ! i) w = None then set_out t null w else w)
         | None \<Rightarrow> if t \<in> tk_cancel w then (Threw cancelled_text, w) else select_pass null e t hs w)"

text \<open>\<open>chan_readable\<close> of an endpoint with the given read handle, and \<open>chan_readiness\<close>.\<close>

definition add_readiness :: "'v tasks \<Rightarrow> chan_result \<times> 'v tasks" where
  "add_readiness w =
     (Returned (tk_next w), w\<lparr>tk_entries := (tk_entries w)(tk_next w := Some Readiness), tk_next := tk_next w + 1\<rparr>)"

definition chan_readable :: "int \<Rightarrow> 'v tasks \<Rightarrow> chan_result \<times> 'v tasks" where
  "chan_readable handle w =
     (if handle < 0 then (Threw ''chan_readable: channel is not waitable (no readable poll handle)'', w)
      else add_readiness w)"

end
