(* ===== verification/ChannelProps.thy ===== *)
theory ChannelProps
  imports TaskChannels
begin

text \<open>
  The invariant of the tasks and their channels.  Every address in a queue is the record of a
  parked task whose frame says so, a task that is parked and not ready is on the queues of what
  it waits for and could not go on, and a task that is ready again has a reason.

  The steps of a verb break the last two parts for the tasks they are about to wake, so the
  invariant carries the set \<open>T\<close> of the tasks it does not speak of.
\<close>

section \<open>Frame lemmas\<close>

named_theorems tk_simps

lemma set_chan_simps [tk_simps]:
  "tk_current (set_chan h c w) = tk_current w" "tk_ready (set_chan h c w) = tk_ready w"
  "tk_cancel (set_chan h c w) = tk_cancel w" "tk_frames (set_chan h c w) = tk_frames w"
  "tk_waiters (set_chan h c w) = tk_waiters w" "tk_groups (set_chan h c w) = tk_groups w"
  "tk_ios (set_chan h c w) = tk_ios w" "tk_io_list (set_chan h c w) = tk_io_list w"
  "tk_entries (set_chan h c w) j = (if j = h then Some (ValueChan c) else tk_entries w j)"
  "chan_at j (set_chan h c w) = (if j = h then Some c else chan_at j w)"
  by (auto simp: set_chan_def chan_at_def)

lemma set_waiter_simps [tk_simps]:
  "tk_current (set_waiter r m w) = tk_current w" "tk_ready (set_waiter r m w) = tk_ready w"
  "tk_cancel (set_waiter r m w) = tk_cancel w" "tk_frames (set_waiter r m w) = tk_frames w"
  "tk_waiters (set_waiter r m w) q = (if q = r then Some m else tk_waiters w q)" "tk_groups (set_waiter r m w) = tk_groups w"
  "tk_ios (set_waiter r m w) = tk_ios w" "tk_io_list (set_waiter r m w) = tk_io_list w"
  "tk_entries (set_waiter r m w) = tk_entries w" "chan_at j (set_waiter r m w) = chan_at j w"
  by (auto simp: set_waiter_def chan_at_def)

lemma set_out_simps [tk_simps]:
  "tk_current (set_out t v w) = tk_current w" "tk_ready (set_out t v w) = tk_ready w"
  "tk_cancel (set_out t v w) = tk_cancel w" "tk_frames (set_out t v w) = tk_frames w"
  "tk_waiters (set_out t v w) = tk_waiters w" "tk_groups (set_out t v w) = tk_groups w"
  "tk_ios (set_out t v w) = tk_ios w" "tk_io_list (set_out t v w) = tk_io_list w"
  "tk_entries (set_out t v w) = tk_entries w" "chan_at j (set_out t v w) = chan_at j w"
  by (auto simp: set_out_def chan_at_def)

lemma task_enqueue_simps [tk_simps]:
  "tk_current (task_enqueue t w) = tk_current w" "set (tk_ready (task_enqueue t w)) = insert t (set (tk_ready w))"
  "distinct (tk_ready (task_enqueue t w)) = distinct (tk_ready w)"
  "tk_cancel (task_enqueue t w) = tk_cancel w" "tk_frames (task_enqueue t w) = tk_frames w"
  "tk_waiters (task_enqueue t w) = tk_waiters w" "tk_groups (task_enqueue t w) = tk_groups w"
  "tk_ios (task_enqueue t w) = tk_ios w" "tk_io_list (task_enqueue t w) = tk_io_list w"
  "tk_entries (task_enqueue t w) = tk_entries w" "chan_at j (task_enqueue t w) = chan_at j w"
  by (auto simp: task_enqueue_def chan_at_def)

lemma set_io_fired_simps [tk_simps]:
  "tk_current (set_io_fired r w) = tk_current w" "tk_ready (set_io_fired r w) = tk_ready w"
  "tk_cancel (set_io_fired r w) = tk_cancel w" "tk_frames (set_io_fired r w) = tk_frames w"
  "tk_waiters (set_io_fired r w) = tk_waiters w" "tk_groups (set_io_fired r w) = tk_groups w"
  "tk_ios (set_io_fired r w) q =
     (if q = r then map_option (\<lambda>i. i\<lparr>iw_fired := True\<rparr>) (tk_ios w r) else tk_ios w q)"
  "tk_io_list (set_io_fired r w) = tk_io_list w"
  "tk_entries (set_io_fired r w) = tk_entries w" "chan_at j (set_io_fired r w) = chan_at j w"
  by (auto simp: set_io_fired_def chan_at_def)

lemma unwind_simps [tk_simps]:
  "tk_current (unwind t w) = tk_current w" "tk_ready (unwind t w) = tk_ready w"
  "tk_cancel (unwind t w) = tk_cancel w" "tk_frames (unwind t w) u = (if u = t then None else tk_frames w u)"
  "tk_waiters (unwind t w) r = (if fst r = t then None else tk_waiters w r)"
  "tk_groups (unwind t w) u = (if u = t then None else tk_groups w u)"
  "tk_ios (unwind t w) r = (if fst r = t then None else tk_ios w r)" "tk_io_list (unwind t w) = tk_io_list w"
  "tk_entries (unwind t w) = tk_entries w" "chan_at j (unwind t w) = chan_at j w"
  by (auto simp: unwind_def chan_at_def)

section \<open>The invariant\<close>

text \<open>What the address of a receiver in the queue of channel \<open>h\<close> must be, and of a sender, and of a waiter for a handle.\<close>

definition recv_ref :: "'v tasks \<Rightarrow> int \<Rightarrow> waiter_ref \<Rightarrow> bool" where
  "recv_ref w h r \<longleftrightarrow> (\<exists>m. tk_waiters w r = Some m \<and> \<not> cw_ok m \<and> \<not> cw_woken_closed m
     \<and> (if cw_grouped m
        then \<exists>hs. tk_frames w (fst r) = Some (InSelect hs) \<and> snd r < length hs \<and> hs ! snd r = h
        else snd r = 0 \<and> tk_frames w (fst r) = Some (InRecv h)))"

definition send_ref :: "'v tasks \<Rightarrow> int \<Rightarrow> waiter_ref \<Rightarrow> bool" where
  "send_ref w h r \<longleftrightarrow> (\<exists>m. tk_waiters w r = Some m \<and> \<not> cw_ok m \<and> \<not> cw_woken_closed m \<and> \<not> cw_grouped m)
     \<and> snd r = 0 \<and> tk_frames w (fst r) = Some (InSend h)"

definition io_ref :: "'v tasks \<Rightarrow> waiter_ref \<Rightarrow> bool" where
  "io_ref w r \<longleftrightarrow> (\<exists>i. tk_ios w r = Some i
     \<and> (if iw_grouped i then \<exists>hs. tk_frames w (fst r) = Some (InSelect hs) \<and> iw_index i < length hs
        else snd r = 0 \<and> tk_frames w (fst r) = Some (InWait (iw_handle i))))"

text \<open>A channel by itself.\<close>

definition chan_shape :: "'v madc_chan \<Rightarrow> bool" where
  "chan_shape c \<longleftrightarrow> int (length (mc_q c)) \<le> mc_cap c \<and> distinct (mc_recv c) \<and> distinct (mc_send c)
     \<and> (mc_recv c \<noteq> [] \<longrightarrow> mc_q c = [] \<and> mc_send c = [])
     \<and> (mc_send c \<noteq> [] \<longrightarrow> int (length (mc_q c)) = mc_cap c)
     \<and> (mc_closed c \<longrightarrow> mc_recv c = [] \<and> mc_send c = [])"

definition chan_ok :: "'v tasks \<Rightarrow> int \<Rightarrow> 'v madc_chan \<Rightarrow> bool" where
  "chan_ok w h c \<longleftrightarrow> chan_shape c \<and> (\<forall>r \<in> set (mc_recv c). recv_ref w h r) \<and> (\<forall>r \<in> set (mc_send c). send_ref w h r)"

text \<open>What the frame of a parked task holds.\<close>

fun frame_base :: "'v tasks \<Rightarrow> nat \<Rightarrow> wait_frame \<Rightarrow> bool" where
  "frame_base w t (InSend h) \<longleftrightarrow> chan_at h w \<noteq> None \<and> (\<exists>m. tk_waiters w (t, 0) = Some m \<and> \<not> cw_grouped m)" |
  "frame_base w t (InRecv h) \<longleftrightarrow> chan_at h w \<noteq> None \<and> (\<exists>m. tk_waiters w (t, 0) = Some m \<and> \<not> cw_grouped m)" |
  "frame_base w t (InSelect hs) \<longleftrightarrow> (\<forall>h \<in> set hs. tk_entries w h \<noteq> None)
     \<and> (\<exists>g. tk_groups w t = Some g \<and> (\<forall>k. sg_fired g = Some k \<longrightarrow> k < length hs))" |
  "frame_base w t (InWait p) \<longleftrightarrow> (\<exists>i. tk_ios w (t, 0) = Some i \<and> iw_handle i = p \<and> \<not> iw_grouped i)"

text \<open>Why a parked task that is ready again may go on.\<close>

fun woken_for :: "'v tasks \<Rightarrow> nat \<Rightarrow> wait_frame \<Rightarrow> bool" where
  "woken_for w t (InSend h) \<longleftrightarrow> cw_ok (the (tk_waiters w (t, 0))) \<or> cw_woken_closed (the (tk_waiters w (t, 0))) \<or> t \<in> tk_cancel w" |
  "woken_for w t (InRecv h) \<longleftrightarrow> cw_ok (the (tk_waiters w (t, 0))) \<or> cw_woken_closed (the (tk_waiters w (t, 0))) \<or> t \<in> tk_cancel w" |
  "woken_for w t (InSelect hs) \<longleftrightarrow> group_woken t w \<or> t \<in> tk_cancel w" |
  "woken_for w t (InWait p) \<longleftrightarrow> iw_fired (the (tk_ios w (t, 0))) \<or> t \<in> tk_cancel w"

text \<open>What a parked task that is not ready is registered on.\<close>

fun waits_on :: "'v tasks \<Rightarrow> nat \<Rightarrow> wait_frame \<Rightarrow> bool" where
  "waits_on w t (InSend h) \<longleftrightarrow> t \<notin> tk_cancel w \<and> (\<exists>c. chan_at h w = Some c \<and> (t, 0) \<in> set (mc_send c))" |
  "waits_on w t (InRecv h) \<longleftrightarrow> t \<notin> tk_cancel w \<and> (\<exists>c. chan_at h w = Some c \<and> (t, 0) \<in> set (mc_recv c))" |
  "waits_on w t (InSelect hs) \<longleftrightarrow> \<not> group_woken t w
     \<and> (\<forall>k < length hs. \<forall>c. chan_at (hs ! k) w = Some c \<longrightarrow> (t, k) \<in> set (mc_recv c) \<or> (mc_closed c \<and> mc_q c = []))
     \<and> (\<forall>k i. tk_ios w (t, k) = Some i \<longrightarrow> (t, k) \<in> set (tk_io_list w) \<and> \<not> iw_fired i)" |
  "waits_on w t (InWait p) \<longleftrightarrow> t \<notin> tk_cancel w \<and> (t, 0) \<in> set (tk_io_list w) \<and> \<not> iw_fired (the (tk_ios w (t, 0)))"

definition frame_live :: "'v tasks \<Rightarrow> nat \<Rightarrow> wait_frame \<Rightarrow> bool" where
  "frame_live w t f \<longleftrightarrow> (if t \<in> set (tk_ready w) then woken_for w t f else waits_on w t f)
     \<and> (\<forall>hs. f = InSelect hs \<longrightarrow> (group_fired t w \<longrightarrow> group_woken t w))"

definition ok_but :: "nat set \<Rightarrow> 'v tasks \<Rightarrow> bool" where
  "ok_but T w \<longleftrightarrow>
     (distinct (tk_ready w) \<and> distinct (tk_io_list w))
     \<and> (\<forall>t. tk_current w = Some t \<longrightarrow> t \<notin> set (tk_ready w) \<and> (t \<notin> T \<longrightarrow> tk_frames w t = None))
     \<and> (\<forall>h c. chan_at h w = Some c \<longrightarrow> chan_ok w h c)
     \<and> (\<forall>r \<in> set (tk_io_list w). io_ref w r)
     \<and> (\<forall>t f. tk_frames w t = Some f \<longrightarrow> frame_base w t f \<and> (t \<notin> T \<longrightarrow> frame_live w t f))
     \<and> (\<forall>t. tk_frames w t = None \<longrightarrow> tk_groups w t = None \<and> (\<forall>k. tk_waiters w (t, k) = None \<and> tk_ios w (t, k) = None))
     \<and> (\<forall>h \<ge> tk_next w. tk_entries w h = None)"

abbreviation tasks_ok :: "'v tasks \<Rightarrow> bool" where
  "tasks_ok w \<equiv> ok_but {} w"

lemma set_next_simps [tk_simps]:
  "tk_next (set_chan h c w) = tk_next w" "tk_next (set_waiter r m w) = tk_next w" "tk_next (set_out t v w) = tk_next w"
  "tk_next (task_enqueue t w) = tk_next w" "tk_next (set_io_fired r w) = tk_next w" "tk_next (unwind t w) = tk_next w"
  by (auto simp: set_chan_def set_waiter_def set_out_def task_enqueue_def set_io_fired_def unwind_def)

lemma ok_butD:
  assumes "ok_but T w"
  shows "distinct (tk_ready w)" and "distinct (tk_io_list w)"
    and "tk_current w = Some t \<Longrightarrow> t \<notin> set (tk_ready w) \<and> (t \<notin> T \<longrightarrow> tk_frames w t = None)"
    and "chan_at h w = Some c \<Longrightarrow> chan_ok w h c"
    and "r \<in> set (tk_io_list w) \<Longrightarrow> io_ref w r"
    and "tk_frames w t = Some f \<Longrightarrow> frame_base w t f"
    and "tk_frames w t = Some f \<Longrightarrow> t \<notin> T \<Longrightarrow> frame_live w t f"
    and "tk_frames w t = None \<Longrightarrow> tk_groups w t = None \<and> (\<forall>k. tk_waiters w (t, k) = None \<and> tk_ios w (t, k) = None)"
    and "tk_next w \<le> h \<Longrightarrow> tk_entries w h = None"
  using assms by (auto simp: ok_but_def)

lemma ok_butI:
  assumes "distinct (tk_ready w)" and "distinct (tk_io_list w)"
    and "\<And>t. tk_current w = Some t \<Longrightarrow> t \<notin> set (tk_ready w) \<and> (t \<notin> T \<longrightarrow> tk_frames w t = None)"
    and "\<And>h c. chan_at h w = Some c \<Longrightarrow> chan_ok w h c"
    and "\<And>r. r \<in> set (tk_io_list w) \<Longrightarrow> io_ref w r"
    and "\<And>t f. tk_frames w t = Some f \<Longrightarrow> frame_base w t f"
    and "\<And>t f. tk_frames w t = Some f \<Longrightarrow> t \<notin> T \<Longrightarrow> frame_live w t f"
    and "\<And>t k. tk_frames w t = None \<Longrightarrow> tk_groups w t = None \<and> tk_waiters w (t, k) = None \<and> tk_ios w (t, k) = None"
    and "\<And>h. tk_next w \<le> h \<Longrightarrow> tk_entries w h = None"
  shows "ok_but T w"
  using assms unfolding ok_but_def by blast

lemma ok_but_mono: "ok_but T w \<Longrightarrow> T \<subseteq> U \<Longrightarrow> ok_but U w"
  unfolding ok_but_def by (elim conjE, intro conjI) (blast | simp)+

lemma chan_at_entry: "chan_at h w = Some c \<Longrightarrow> tk_entries w h = Some (ValueChan c)"
  by (auto simp: chan_at_def split: option.splits chan_entry.splits)

lemma chan_at_next: "ok_but T w \<Longrightarrow> chan_at h w = Some c \<Longrightarrow> h < tk_next w"
  using ok_butD(9) [of T w h] chan_at_entry [of h w c] by (cases "tk_next w \<le> h") auto


section \<open>Steps on one channel and one record\<close>

text \<open>
  A queue is changed: addresses leave it only for tasks of \<open>T\<close> or ready ones, and only known
  addresses stay.
\<close>

lemma recv_ref_set_chan [tk_simps]: "recv_ref (set_chan h c w) = recv_ref w"
  by (simp add: fun_eq_iff recv_ref_def tk_simps)

lemma send_ref_set_chan [tk_simps]: "send_ref (set_chan h c w) = send_ref w"
  by (simp add: fun_eq_iff send_ref_def tk_simps)

lemma io_ref_set_chan [tk_simps]: "io_ref (set_chan h c w) = io_ref w"
  by (simp add: fun_eq_iff io_ref_def tk_simps)

lemma frame_base_set_chan: "frame_base w t f \<Longrightarrow> frame_base (set_chan h c w) t f"
  by (cases f) (auto simp: tk_simps)

lemma woken_for_set_chan [tk_simps]: "woken_for (set_chan h c w) t f = woken_for w t f"
  by (cases f) (auto simp: tk_simps)

lemma set_chan_ok:
  assumes ok: "ok_but T w" and c: "chan_at h w = Some c" and c': "chan_ok w h c'"
    and recv: "\<And>r. r \<in> set (mc_recv c) \<Longrightarrow> fst r \<notin> T \<Longrightarrow> fst r \<notin> set (tk_ready w) \<Longrightarrow> r \<in> set (mc_recv c')"
    and send: "\<And>r. r \<in> set (mc_send c) \<Longrightarrow> fst r \<notin> T \<Longrightarrow> fst r \<notin> set (tk_ready w) \<Longrightarrow> r \<in> set (mc_send c')"
    and dead: "mc_closed c \<Longrightarrow> mc_q c = [] \<Longrightarrow> mc_closed c' \<and> mc_q c' = []"
  shows "ok_but T (set_chan h c' w)"
proof -
  have live: "frame_live (set_chan h c' w) t f" if "frame_live w t f" "t \<notin> T" for t f
  proof (cases "t \<in> set (tk_ready w)")
    case True
    then show ?thesis using that by (simp add: frame_live_def tk_simps)
  next
    case False
    have "waits_on (set_chan h c' w) t f" if "waits_on w t f"
      using that c recv [of "(t, 0)"] send [of "(t, 0)"] \<open>t \<notin> T\<close> False
    proof (cases f)
      case (InSelect hs)
      have "(t, k) \<in> set (mc_recv c') \<or> mc_closed c' \<and> mc_q c' = []" if "k < length hs" "hs ! k = h" for k
        using \<open>waits_on w t f\<close> InSelect that c recv [of "(t, k)"] dead \<open>t \<notin> T\<close> False by auto
      then show ?thesis using \<open>waits_on w t f\<close> InSelect by (auto simp: tk_simps)
    qed (auto simp: tk_simps)
    then show ?thesis using that False by (simp add: frame_live_def tk_simps)
  qed
  have "chan_ok (set_chan h c' w) j d" if "chan_at j (set_chan h c' w) = Some d" for j d
    using that c' ok_butD(4) [OF ok, of j d] by (auto simp: tk_simps chan_ok_def split: if_splits)
  moreover have "tk_entries (set_chan h c' w) j = None" if "tk_next w \<le> j" for j
    using ok_butD(9) [OF ok that] chan_at_next [OF ok c] that by (auto simp: tk_simps)
  moreover note D = ok_butD [OF ok]
  ultimately show ?thesis
    by (intro ok_butI) (use D live in \<open>auto simp: tk_simps intro: frame_base_set_chan\<close>)
qed

text \<open>A record that is in no queue may be marked, when its task is in \<open>T\<close>.\<close>

definition in_no_queue :: "'v tasks \<Rightarrow> waiter_ref \<Rightarrow> bool" where
  "in_no_queue w r \<longleftrightarrow> (\<forall>h c. chan_at h w = Some c \<longrightarrow> r \<notin> set (mc_recv c) \<and> r \<notin> set (mc_send c))"

lemma refs_set_waiter:
  "q \<noteq> r \<Longrightarrow> recv_ref (set_waiter r m w) h q = recv_ref w h q"
  "q \<noteq> r \<Longrightarrow> send_ref (set_waiter r m w) h q = send_ref w h q"
  "io_ref (set_waiter r m w) = io_ref w"
  by (simp_all add: recv_ref_def send_ref_def io_ref_def tk_simps fun_eq_iff)

lemma set_waiter_live: "t \<noteq> fst r \<Longrightarrow> frame_live (set_waiter r m w) t f = frame_live w t f"
  by (cases f) (auto simp: frame_live_def tk_simps)

lemma set_waiter_ok:
  assumes ok: "ok_but T w" and r: "in_no_queue w r" "fst r \<in> T" "tk_waiters w r = Some old" "cw_grouped m = cw_grouped old"
  shows "ok_but T (set_waiter r m w)"
proof -
  have ch: "chan_ok (set_waiter r m w) h c" if "chan_at h w = Some c" for h c
  proof -
    have "q \<noteq> r" if "q \<in> set (mc_recv c) \<union> set (mc_send c)" for q
      using that r(1) \<open>chan_at h w = Some c\<close> by (auto simp: in_no_queue_def)
    then show ?thesis using ok_butD(4) [OF ok that] by (auto simp: chan_ok_def refs_set_waiter)
  qed
  have base: "frame_base (set_waiter r m w) t f" if "frame_base w t f" for t f
    using that r(3,4) by (cases f) (auto simp: tk_simps)
  have live: "t \<noteq> fst r" if "t \<notin> T" for t using that r(2) by auto
  have some: "tk_frames w (fst r) \<noteq> None"
    using ok_butD(8) [OF ok, of "fst r"] r(3) by (metis option.distinct(1) prod.collapse)
  then have none: "(t, k) \<noteq> r" if "tk_frames w t = None" for t k using that by auto
  note D = ok_butD [OF ok]
  show ?thesis
    by (intro ok_butI) (use D ch base live none in \<open>auto simp: tk_simps refs_set_waiter set_waiter_live\<close>)
qed

lemma set_out_ok [simp]: "ok_but T (set_out t v w) = ok_but T w"
proof -
  have "recv_ref (set_out t v w) = recv_ref w" "send_ref (set_out t v w) = send_ref w" "io_ref (set_out t v w) = io_ref w"
    by (simp_all add: fun_eq_iff recv_ref_def send_ref_def io_ref_def tk_simps)
  moreover have "frame_base (set_out t v w) u f = frame_base w u f" "frame_live (set_out t v w) u f = frame_live w u f" for u f
    by (cases f; simp add: frame_live_def tk_simps)+
  ultimately show ?thesis by (simp add: ok_but_def chan_ok_def tk_simps)
qed

text \<open>A task of \<open>T\<close> with a reason to go on is put on the ready queue.\<close>

lemma woken_for_enqueue [tk_simps]: "woken_for (task_enqueue u w) t f = woken_for w t f"
  by (cases f) (simp_all add: tk_simps)

lemma waits_on_enqueue [tk_simps]: "waits_on (task_enqueue u w) t f = waits_on w t f"
  by (cases f) (simp_all add: tk_simps)

lemma frame_base_enqueue [tk_simps]: "frame_base (task_enqueue u w) t f = frame_base w t f"
  by (cases f) (simp_all add: tk_simps)

lemma refs_enqueue [tk_simps]:
  "recv_ref (task_enqueue u w) = recv_ref w" "send_ref (task_enqueue u w) = send_ref w" "io_ref (task_enqueue u w) = io_ref w"
  by (simp_all add: fun_eq_iff recv_ref_def send_ref_def io_ref_def tk_simps)

lemma enqueue_ok:
  assumes ok: "ok_but (insert u T) w" and cur: "tk_current w \<noteq> Some u"
    and why: "\<And>f. tk_frames w u = Some f \<Longrightarrow> woken_for w u f \<and> (\<forall>hs. f = InSelect hs \<longrightarrow> group_fired u w \<longrightarrow> group_woken u w)"
  shows "ok_but T (task_enqueue u w)"
proof -
  have live: "frame_live (task_enqueue u w) t f" if "tk_frames w t = Some f" "t \<notin> T" for t f
    using why that ok_butD(7) [OF ok that(1)] by (cases "t = u") (auto simp: frame_live_def tk_simps)
  have "tk_current w = Some t \<Longrightarrow> t \<notin> T \<Longrightarrow> tk_frames w t = None" for t
    using cur ok_butD(3) [OF ok, of t] by auto
  moreover note D = ok_butD [OF ok]
  ultimately show ?thesis
    by (intro ok_butI) (use D live cur in \<open>auto simp: tk_simps chan_ok_def\<close>)
qed


lemma live_again:
  assumes "ok_but (insert u T) w" and "tk_current w \<noteq> Some u" and "u \<in> set (tk_ready w)"
    and "\<And>f. tk_frames w u = Some f \<Longrightarrow> woken_for w u f \<and> (\<forall>hs. f = InSelect hs \<longrightarrow> group_fired u w \<longrightarrow> group_woken u w)"
  shows "ok_but T w"
  using enqueue_ok [OF assms(1,2,4)] assms(3) by (simp add: task_enqueue_def)

text \<open>The group of a task of \<open>T\<close> is written.\<close>

definition set_group :: "nat \<Rightarrow> select_group \<Rightarrow> 'v tasks \<Rightarrow> 'v tasks" where
  "set_group u g w = w\<lparr>tk_groups := (tk_groups w)(u := Some g)\<rparr>"

lemma set_group_simps [tk_simps]:
  "tk_current (set_group u g w) = tk_current w" "tk_ready (set_group u g w) = tk_ready w"
  "tk_cancel (set_group u g w) = tk_cancel w" "tk_frames (set_group u g w) = tk_frames w"
  "tk_waiters (set_group u g w) = tk_waiters w" "tk_groups (set_group u g w) t = (if t = u then Some g else tk_groups w t)"
  "tk_ios (set_group u g w) = tk_ios w" "tk_io_list (set_group u g w) = tk_io_list w"
  "tk_entries (set_group u g w) = tk_entries w" "chan_at j (set_group u g w) = chan_at j w" "tk_next (set_group u g w) = tk_next w"
  by (auto simp: set_group_def chan_at_def)

lemma set_group_ok:
  assumes ok: "ok_but T w" and u: "u \<in> T" "tk_frames w u = Some (InSelect hs)" and g: "\<And>k. sg_fired g = Some k \<Longrightarrow> k < length hs"
  shows "ok_but T (set_group u g w)"
proof -
  have refs: "recv_ref (set_group u g w) = recv_ref w" "send_ref (set_group u g w) = send_ref w" "io_ref (set_group u g w) = io_ref w"
    by (simp_all add: fun_eq_iff recv_ref_def send_ref_def io_ref_def tk_simps)
  have base: "frame_base (set_group u g w) t f" if "frame_base w t f" "tk_frames w t = Some f" for t f
    using that u g by (cases f) (auto simp: tk_simps)
  have live: "frame_live (set_group u g w) t f = frame_live w t f" if "t \<notin> T" for t f
    using that u(1) by (cases f; cases "t = u") (simp_all add: frame_live_def tk_simps)
  note D = ok_butD [OF ok]
  show ?thesis
    by (intro ok_butI) (use D base live u in \<open>auto simp: tk_simps refs chan_ok_def\<close>)
qed

lemma select_fire_grouped:
  "tk_groups w u = Some g \<Longrightarrow> snd (select_fire True i u w) =
     (if sg_woken g then set_group u (g\<lparr>sg_fired := Some i\<rparr>) w
      else task_enqueue u (set_group u \<lparr>sg_fired = Some i, sg_woken = True\<rparr> w))"
  by (cases g) (simp add: select_fire_def Let_def set_group_def set_woken_def)

lemma select_fire_plain: "snd (select_fire False i u w) = task_enqueue u w"
  by (simp add: select_fire_def)

lemma fire_ok:
  assumes ok: "ok_but (insert u T) w" and cur: "tk_current w \<noteq> Some u" and f: "tk_frames w u = Some f"
    and grouped: "grouped \<Longrightarrow> \<exists>hs. f = InSelect hs \<and> i < length hs \<and> (group_woken u w \<longrightarrow> u \<in> set (tk_ready w))"
    and plain: "\<not> grouped \<Longrightarrow> woken_for w u f \<and> (\<forall>hs. f \<noteq> InSelect hs)"
  shows "ok_but T (snd (select_fire grouped i u w))"
proof (cases grouped)
  case True
  then obtain hs where hs: "f = InSelect hs" "i < length hs" "group_woken u w \<longrightarrow> u \<in> set (tk_ready w)" using grouped by auto
  then obtain g where g: "tk_groups w u = Some g" using ok_butD(6) [OF ok f] by auto
  have F: "ok_but (insert u T) (set_group u (g\<lparr>sg_fired := Some i\<rparr>) w)" "ok_but (insert u T) (set_group u \<lparr>sg_fired = Some i, sg_woken = True\<rparr> w)"
    by (rule set_group_ok [OF ok _ f [unfolded hs(1)]]; use hs(2) in simp)+
  show ?thesis
  proof (cases "sg_woken g")
    case woken: True
    have "ok_but T (set_group u (g\<lparr>sg_fired := Some i\<rparr>) w)"
      by (rule live_again [OF F(1)]) (use cur f hs g woken in \<open>auto simp: tk_simps\<close>)
    then show ?thesis using woken True by (simp add: select_fire_grouped [OF g])
  next
    case False
    have "ok_but T (task_enqueue u (set_group u \<lparr>sg_fired = Some i, sg_woken = True\<rparr> w))"
      by (rule enqueue_ok [OF F(2)]) (use cur f hs in \<open>auto simp: tk_simps\<close>)
    then show ?thesis using False True by (simp add: select_fire_grouped [OF g])
  qed
next
  case False
  then have "ok_but T (task_enqueue u w)"
    by (intro enqueue_ok [OF ok cur]) (use f plain in auto)
  then show ?thesis using False by (simp add: select_fire_plain)
qed

lemma parked_not_current: "tasks_ok w \<Longrightarrow> tk_frames w u = Some f \<Longrightarrow> tk_current w \<noteq> Some u"
  using ok_butD(3) [of "{}" w u] by auto

lemma recv_ref_frame: "recv_ref w h r \<Longrightarrow> \<exists>f. tk_frames w (fst r) = Some f"
  by (auto simp: recv_ref_def split: if_splits)

text \<open>A receiver or sender is in one queue only.\<close>

lemma recv_ref_unique: "recv_ref w h r \<Longrightarrow> recv_ref w j r \<Longrightarrow> j = h"
  by (auto simp: recv_ref_def split: if_splits)

lemma recv_ref_send_ref: "recv_ref w h r \<Longrightarrow> \<not> send_ref w j r"
  by (auto simp: recv_ref_def send_ref_def split: if_splits)

lemma send_ref_unique: "send_ref w h r \<Longrightarrow> send_ref w j r \<Longrightarrow> j = h"
  by (auto simp: send_ref_def)

lemma popped_receiver:
  assumes ok: "ok_but T w" and r: "recv_ref w h r" and c: "r \<notin> set (mc_recv c')" "r \<notin> set (mc_send c')"
  shows "in_no_queue (set_chan h c' w) r"
proof -
  have "r \<notin> set (mc_recv d) \<and> r \<notin> set (mc_send d)" if "chan_at j w = Some d" "j \<noteq> h" for j d
    using ok_butD(4) [OF ok that(1)] that(2) recv_ref_unique [OF r] recv_ref_send_ref [OF r] by (auto simp: chan_ok_def)
  then show ?thesis using c by (auto simp: in_no_queue_def tk_simps)
qed

lemma popped_sender:
  assumes ok: "ok_but T w" and r: "send_ref w h r" and c: "r \<notin> set (mc_recv c')" "r \<notin> set (mc_send c')"
  shows "in_no_queue (set_chan h c' w) r"
proof -
  have "r \<notin> set (mc_recv d) \<and> r \<notin> set (mc_send d)" if "chan_at j w = Some d" "j \<noteq> h" for j d
  proof -
    have "\<not> recv_ref w j r" using recv_ref_send_ref r by blast
    then show ?thesis using ok_butD(4) [OF ok that(1)] that(2) send_ref_unique [OF r] by (auto simp: chan_ok_def)
  qed
  then show ?thesis using c by (auto simp: in_no_queue_def tk_simps)
qed

lemma pop_recv_waiter_split:
  "pop_recv_waiter w rs = (ro, rs') \<Longrightarrow>
    \<exists>husks. rs = husks @ (case ro of None \<Rightarrow> [] | Some r \<Rightarrow> [r]) @ rs' \<and> (ro = None \<longrightarrow> rs' = [])
      \<and> (\<forall>q \<in> set husks. cw_grouped (the (tk_waiters w q)) \<and> group_fired (fst q) w)
      \<and> (\<forall>r. ro = Some r \<longrightarrow> \<not> (cw_grouped (the (tk_waiters w r)) \<and> group_fired (fst r) w))"
proof (induction w rs rule: pop_recv_waiter.induct)
  case (2 w r rs)
  show ?case
  proof (cases "cw_grouped (the (tk_waiters w r)) \<and> group_fired (fst r) w")
    case True
    then obtain husks where "rs = husks @ (case ro of None \<Rightarrow> [] | Some r \<Rightarrow> [r]) @ rs' \<and> (ro = None \<longrightarrow> rs' = [])
      \<and> (\<forall>q \<in> set husks. cw_grouped (the (tk_waiters w q)) \<and> group_fired (fst q) w)
      \<and> (\<forall>r. ro = Some r \<longrightarrow> \<not> (cw_grouped (the (tk_waiters w r)) \<and> group_fired (fst r) w))"
      using 2 by auto
    then show ?thesis using True by (intro exI [of _ "r # husks"]) auto
  qed (use 2 in auto)
qed simp

lemma woken_ready:
  assumes "ok_but T w" and "tk_frames w u = Some (InSelect hs)" and "u \<notin> T" and "group_woken u w \<or> group_fired u w"
  shows "u \<in> set (tk_ready w)"
  using ok_butD(7) [OF assms(1-3)] assms(4) by (auto simp: frame_live_def split: if_splits)

lemma husk_ready:
  assumes ok: "tasks_ok w" and c: "chan_at h w = Some c" "q \<in> set (mc_recv c)"
    and husk: "cw_grouped (the (tk_waiters w q))" "group_fired (fst q) w"
  shows "fst q \<in> set (tk_ready w)"
proof -
  have "recv_ref w h q" using ok_butD(4) [OF ok c(1)] c(2) by (auto simp: chan_ok_def)
  then obtain hs where "tk_frames w (fst q) = Some (InSelect hs)" using husk(1) by (auto simp: recv_ref_def split: if_splits)
  then show ?thesis using woken_ready [OF ok] husk(2) by auto
qed

section \<open>A value reaches a receiver, or leaves a sender\<close>

lemma deliver_ok:
  assumes ok: "tasks_ok w" and c: "chan_at h w = Some c" and pop: "pop_recv_waiter w (mc_recv c) = (Some r, rs)"
  shows "tasks_ok (snd (select_fire (cw_grouped (the (tk_waiters w r))) (snd r) (fst r)
           (set_ok r (set_out (fst r) v (set_chan h (c\<lparr>mc_recv := rs\<rparr>) w)))))"
proof -
  obtain husks where h: "mc_recv c = husks @ r # rs" "\<forall>q \<in> set husks. cw_grouped (the (tk_waiters w q)) \<and> group_fired (fst q) w"
    using pop_recv_waiter_split [OF pop] by auto
  note C = ok_butD(4) [OF ok c]
  have r: "recv_ref w h r" using C h(1) by (simp add: chan_ok_def)
  let ?c = "c\<lparr>mc_recv := rs\<rparr>" and ?u = "fst r"
  have husks: "fst q \<in> set (tk_ready w)" if "q \<in> set husks" for q
    using husk_ready [OF ok c] that h by auto
  have "chan_ok w h ?c" using C h(1) by (auto simp: chan_ok_def chan_shape_def)
  then have w1: "ok_but {?u} (set_chan h ?c w)"
    using C h husks by (intro set_chan_ok [OF ok_but_mono [OF ok] c]) (auto simp: chan_ok_def chan_shape_def)
  have nq: "in_no_queue (set_chan h ?c w) r"
    using C h(1) by (intro popped_receiver [OF ok r]) (auto simp: chan_ok_def chan_shape_def)
  obtain m where m: "tk_waiters w r = Some m" using r by (auto simp: recv_ref_def)
  let ?w = "set_ok r (set_out ?u v (set_chan h ?c w))"
  have w2: "ok_but {?u} ?w" unfolding set_ok_def
    by (rule set_waiter_ok [where old = m]) (use w1 nq m in \<open>auto simp: tk_simps in_no_queue_def\<close>)
  obtain f where f: "tk_frames w ?u = Some f" using recv_ref_frame [OF r] by auto
  have "ok_but {} (snd (select_fire (cw_grouped m) (snd r) ?u ?w))"
  proof (rule fire_ok [OF w2])
    show "tk_current ?w \<noteq> Some ?u" using parked_not_current [OF ok f] by (simp add: set_ok_def tk_simps)
    show "tk_frames ?w ?u = Some f" using f by (simp add: set_ok_def tk_simps)
    show "\<exists>hs. f = InSelect hs \<and> snd r < length hs \<and> (group_woken ?u ?w \<longrightarrow> ?u \<in> set (tk_ready ?w))" if "cw_grouped m"
      using that r m f woken_ready [OF ok] by (auto simp: recv_ref_def set_ok_def tk_simps)
    show "woken_for ?w ?u f \<and> (\<forall>hs. f \<noteq> InSelect hs)" if "\<not> cw_grouped m"
      using that r m f by (cases r) (auto simp: recv_ref_def set_ok_def tk_simps)
  qed
  then show ?thesis using m by simp
qed

lemma take_sender_ok:
  assumes ok: "tasks_ok w" and c: "chan_at h w = Some c" and s: "mc_send c = r # rs" and q: "length q = length (mc_q c)"
  shows "tasks_ok (task_enqueue (fst r) (set_ok r (set_chan h (c\<lparr>mc_q := q, mc_send := rs\<rparr>) w)))"
proof -
  note C = ok_butD(4) [OF ok c]
  have r: "send_ref w h r" using C s by (simp add: chan_ok_def)
  let ?c = "c\<lparr>mc_q := q, mc_send := rs\<rparr>" and ?u = "fst r"
  have "chan_ok w h ?c" using C s q by (auto simp: chan_ok_def chan_shape_def)
  then have w1: "ok_but {?u} (set_chan h ?c w)"
    using C s q by (intro set_chan_ok [OF ok_but_mono [OF ok] c]) (auto simp: chan_ok_def chan_shape_def)
  have nq: "in_no_queue (set_chan h ?c w) r"
    using C s by (intro popped_sender [OF ok r]) (auto simp: chan_ok_def chan_shape_def)
  obtain m where m: "tk_waiters w r = Some m" "tk_frames w ?u = Some (InSend h)" "snd r = 0" using r by (auto simp: send_ref_def)
  have w2: "ok_but {?u} (set_ok r (set_chan h ?c w))" unfolding set_ok_def
    by (rule set_waiter_ok [where old = m]) (use w1 nq m in \<open>auto simp: tk_simps in_no_queue_def\<close>)
  show ?thesis
    by (rule enqueue_ok [OF w2])
      (use parked_not_current [OF ok m(2)] m in \<open>cases r; auto simp: set_ok_def tk_simps\<close>)+
qed

end
