(* ===== verification/ChannelVerbs.thy ===== *)
theory ChannelVerbs
  imports ChannelProps
begin

text \<open>Every verb of the channels, up to its park and after it, keeps the invariant.\<close>

section \<open>Parking\<close>

definition enter :: "nat \<Rightarrow> wait_frame \<Rightarrow> 'v tasks \<Rightarrow> 'v tasks" where
  "enter t f w = w\<lparr>tk_frames := (tk_frames w)(t := Some f), tk_current := None\<rparr>"

lemma park_in_enter: "park_in f t w = (Parked, enter t f w)"
  by (simp add: park_in_def enter_def)

lemma enter_simps [tk_simps]:
  "tk_current (enter t f w) = None" "tk_ready (enter t f w) = tk_ready w"
  "tk_cancel (enter t f w) = tk_cancel w" "tk_frames (enter t f w) u = (if u = t then Some f else tk_frames w u)"
  "tk_waiters (enter t f w) = tk_waiters w" "tk_groups (enter t f w) = tk_groups w"
  "tk_ios (enter t f w) = tk_ios w" "tk_io_list (enter t f w) = tk_io_list w"
  "tk_entries (enter t f w) = tk_entries w" "chan_at j (enter t f w) = chan_at j w" "tk_next (enter t f w) = tk_next w"
  by (auto simp: enter_def chan_at_def)

lemma enter_commute:
  "enter t f (set_chan h c w) = set_chan h c (enter t f w)"
  "enter t f (set_waiter r m w) = set_waiter r m (enter t f w)"
  "enter t f (set_group u g w) = set_group u g (enter t f w)"
  "enter t f (io_register r i w) = io_register r i (enter t f w)"
  "set_waiter r m (set_chan h c w) = set_chan h c (set_waiter r m w)"
  by (simp_all add: enter_def set_chan_def set_waiter_def set_group_def io_register_def)

text \<open>Nothing in the state mentions a running task.\<close>

lemma running_unseen:
  assumes ok: "tasks_ok w" and t: "tk_frames w t = None"
  shows "chan_at h w = Some c \<Longrightarrow> (t, k) \<notin> set (mc_recv c) \<and> (t, k) \<notin> set (mc_send c)"
    and "(t, k) \<notin> set (tk_io_list w)"
  using ok_butD(4) [OF ok, of h c] ok_butD(5) [OF ok, of "(t, k)"] t
  by (auto simp: chan_ok_def recv_ref_def send_ref_def io_ref_def split: if_splits)

lemma enter_refs:
  assumes "tk_frames w t = None"
  shows "recv_ref w h r \<Longrightarrow> recv_ref (enter t f w) h r" and "send_ref w h r \<Longrightarrow> send_ref (enter t f w) h r"
    and "io_ref w r \<Longrightarrow> io_ref (enter t f w) r"
proof -
  have "recv_ref (enter t f w) h r = recv_ref w h r" "send_ref (enter t f w) h r = send_ref w h r"
    "io_ref (enter t f w) r = io_ref w r" if "fst r \<noteq> t"
    using that by (simp_all add: recv_ref_def send_ref_def io_ref_def tk_simps)
  moreover have "recv_ref w h r \<Longrightarrow> fst r \<noteq> t" "send_ref w h r \<Longrightarrow> fst r \<noteq> t" "io_ref w r \<Longrightarrow> fst r \<noteq> t"
    using assms recv_ref_frame by (fastforce simp: send_ref_def io_ref_def split: if_splits)+
  ultimately show "recv_ref w h r \<Longrightarrow> recv_ref (enter t f w) h r" and "send_ref w h r \<Longrightarrow> send_ref (enter t f w) h r"
    and "io_ref w r \<Longrightarrow> io_ref (enter t f w) r" by simp_all
qed

lemma enter_frames:
  "frame_base w u g \<Longrightarrow> frame_base (enter t f w) u g" "frame_live w u g \<Longrightarrow> frame_live (enter t f w) u g"
  by (cases g; auto simp: frame_live_def tk_simps split: if_splits)+

text \<open>A task parks with a plain record.\<close>

lemma enter_plain_ok:
  assumes ok: "tasks_ok w" and t: "tk_current w = Some t" and f: "f = InSend h \<or> f = InRecv h" "chan_at h w \<noteq> None"
    and m: "\<not> cw_grouped m"
  shows "ok_but {t} (set_waiter (t, 0) m (enter t f w))" (is "ok_but _ ?w")
proof -
  have none: "tk_frames w t = None" "t \<notin> set (tk_ready w)" using ok_butD(3) [OF ok t] by auto
  note D = ok_butD [OF ok] and U = running_unseen [OF ok none(1)]
  have ch: "chan_ok (set_waiter (t, 0) m (enter t f w)) j c" if "chan_at j w = Some c" for j c
  proof -
    have "q \<noteq> (t, 0)" if "q \<in> set (mc_recv c) \<union> set (mc_send c)" for q
      using U(1) [OF \<open>chan_at j w = Some c\<close>] that by auto
    then show ?thesis using D(4) [OF that] enter_refs [OF none(1)] by (auto simp: chan_ok_def refs_set_waiter)
  qed
  have base: "frame_base (set_waiter (t, 0) m (enter t f w)) u g" if "frame_base w u g" "u \<noteq> t" for u g
    using that by (cases g) (auto simp: tk_simps)
  have "frame_base (set_waiter (t, 0) m (enter t f w)) t f" using f m by (auto simp: tk_simps)
  moreover have "frame_live (set_waiter (t, 0) m (enter t f w)) u g = frame_live (enter t f w) u g" if "u \<noteq> t" for u g
    using that by (simp add: set_waiter_live)
  ultimately have fr: "frame_base ?w u g \<and> (u \<notin> {t} \<longrightarrow> frame_live ?w u g)" if "tk_frames ?w u = Some g" for u g
    using that base [of u] D(6,7) [of u] enter_frames(2) [of w u] by (cases "u = t") (simp_all only: tk_simps refl simp_thms if_True if_False option.inject insert_iff empty_iff not_False_eq_True)
  show ?thesis
  proof (rule ok_butI)
    show "io_ref ?w r" if "r \<in> set (tk_io_list ?w)" for r
      using that D(5) enter_refs(3) [OF none(1)] by (simp add: tk_simps refs_set_waiter)
    show "tk_groups ?w u = None \<and> tk_waiters ?w (u, k) = None \<and> tk_ios ?w (u, k) = None" if "tk_frames ?w u = None" for u k
      using that D(8) [of u] by (auto simp: tk_simps split: if_splits)
  qed (use ch fr D(1,2,9) in \<open>simp_all add: tk_simps\<close>)
qed

text \<open>A task parks with a group, and with a wait for a handle.\<close>

lemma enter_select_ok:
  assumes ok: "tasks_ok w" and t: "tk_current w = Some t" and hs: "\<And>h. h \<in> set hs \<Longrightarrow> tk_entries w h \<noteq> None"
  shows "ok_but {t} (set_group t \<lparr>sg_fired = None, sg_woken = False\<rparr> (enter t (InSelect hs) w))" (is "ok_but _ ?w")
proof -
  let ?g = "\<lparr>sg_fired = None, sg_woken = False\<rparr>" and ?f = "InSelect hs"
  have none: "tk_frames w t = None" "t \<notin> set (tk_ready w)" using ok_butD(3) [OF ok t] by auto
  note D = ok_butD [OF ok] and U = running_unseen [OF ok none(1)]
  have refs: "recv_ref (set_group u g w) = recv_ref w" "send_ref (set_group u g w) = send_ref w" "io_ref (set_group u g w) = io_ref w"
    for u g and w :: "'a tasks"
    by (simp_all add: fun_eq_iff recv_ref_def send_ref_def io_ref_def tk_simps)
  have ch: "chan_ok (set_group t ?g (enter t ?f w)) j c" if "chan_at j w = Some c" for j c
    using D(4) [OF that] enter_refs [OF none(1)] by (auto simp: chan_ok_def refs)
  have base: "frame_base (set_group t ?g (enter t ?f w)) u f" if "frame_base w u f" "u \<noteq> t" for u f
    using that by (cases f) (auto simp: tk_simps)
  have "frame_base (set_group t ?g (enter t ?f w)) t ?f" using hs by (auto simp: tk_simps)
  moreover have "frame_live (set_group t ?g (enter t ?f w)) u f = frame_live (enter t ?f w) u f" if "u \<noteq> t" for u f
    using that by (cases f) (simp_all add: frame_live_def tk_simps)
  ultimately have fr: "frame_base ?w u f \<and> (u \<notin> {t} \<longrightarrow> frame_live ?w u f)" if "tk_frames ?w u = Some f" for u f
    using that base [of u] D(6,7) [of u] enter_frames(2) [of w u] by (cases "u = t") (simp_all only: tk_simps refl simp_thms if_True if_False option.inject insert_iff empty_iff not_False_eq_True)
  show ?thesis
  proof (rule ok_butI)
    show "io_ref ?w r" if "r \<in> set (tk_io_list ?w)" for r
      using that D(5) enter_refs(3) [OF none(1)] by (simp add: tk_simps refs)
    show "tk_groups ?w u = None \<and> tk_waiters ?w (u, k) = None \<and> tk_ios ?w (u, k) = None" if "tk_frames ?w u = None" for u k
      using that D(8) [of u] by (auto simp: tk_simps split: if_splits)
  qed (use ch fr D(1,2,9) in \<open>simp_all add: tk_simps\<close>)
qed

lemma live_now: "ok_but {t} w \<Longrightarrow> tk_current w = None \<Longrightarrow> (\<And>f. tk_frames w t = Some f \<Longrightarrow> frame_live w t f) \<Longrightarrow> tasks_ok w"
  by (intro ok_butI) (auto dest: ok_butD)


lemma waits_on_enter: "waits_on (enter t f w) u g = waits_on w u g" "woken_for (enter t f w) u g = woken_for w u g"
  by (cases g; simp add: tk_simps)+

section \<open>Receive at once, send and receive\<close>

lemma chan_poll_recv_ok:
  assumes ok: "tasks_ok w" and c: "chan_at h w = Some c" and p: "chan_poll_recv t h c w = (r, w')"
  shows "tasks_ok w'" and "tk_current w' = tk_current w"
    and "r = 1 \<or> w' = w \<and> mc_q c = [] \<and> mc_send c = [] \<and> r = (if mc_closed c then -1 else 0)"
proof -
  have w0: "tasks_ok (set_out t v w)" "chan_at h (set_out t v w) = Some c" for v
    using ok c by (simp_all add: tk_simps)
  have shape: "chan_shape c" using ok_butD(4) [OF ok c] by (simp add: chan_ok_def)
  have "tasks_ok w' \<and> tk_current w' = tk_current w
    \<and> (r = 1 \<or> w' = w \<and> mc_q c = [] \<and> mc_send c = [] \<and> r = (if mc_closed c then -1 else 0))"
  proof (cases "mc_send c")
    case Nil
    show ?thesis
    proof (cases "mc_q c")
      case (Cons v q)
      have "tasks_ok (set_chan h (c\<lparr>mc_q := q\<rparr>) (set_out t v w))"
        using shape Nil Cons by (intro set_chan_ok [OF w0]) (auto simp: chan_ok_def chan_shape_def)
      then show ?thesis using p Nil Cons by (auto simp: chan_poll_recv_def tk_simps)
    qed (use p ok Nil in \<open>auto simp: chan_poll_recv_def\<close>)
  next
    case (Cons s ss)
    show ?thesis
    proof (cases "mc_q c")
      case (Cons v q)
      have "tasks_ok (task_enqueue (fst s) (set_ok s (set_chan h
          (c\<lparr>mc_q := q @ [cw_val (the (tk_waiters w s))], mc_send := ss\<rparr>) (set_out t v w))))"
        by (rule take_sender_ok [OF w0 \<open>mc_send c = s # ss\<close>]) (simp add: Cons)
      then show ?thesis using p Cons \<open>mc_send c = s # ss\<close> by (auto simp: chan_poll_recv_def set_ok_def tk_simps)
    next
      case Nil
      have "c\<lparr>mc_q := mc_q c, mc_send := ss\<rparr> = c\<lparr>mc_send := ss\<rparr>" by (cases c) simp
      then have "tasks_ok (task_enqueue (fst s) (set_ok s (set_chan h
          (c\<lparr>mc_send := ss\<rparr>) (set_out t (cw_val (the (tk_waiters w s))) w))))"
        using take_sender_ok [OF w0 \<open>mc_send c = s # ss\<close> refl] by simp
      then show ?thesis using p Nil \<open>mc_send c = s # ss\<close> by (auto simp: chan_poll_recv_def set_ok_def tk_simps)
    qed
  qed
  then show "tasks_ok w'" and "tk_current w' = tk_current w"
    and "r = 1 \<or> w' = w \<and> mc_q c = [] \<and> mc_send c = [] \<and> r = (if mc_closed c then -1 else 0)" by auto
qed

lemma pop_no_receiver:
  assumes ok: "tasks_ok w" and c: "chan_at h w = Some c" and pop: "pop_recv_waiter w (mc_recv c) = (None, rs)"
  shows "rs = []" and "r \<in> set (mc_recv c) \<Longrightarrow> fst r \<in> set (tk_ready w)"
  using pop_recv_waiter_split [OF pop] husk_ready [OF ok c, of r] by auto

lemma chan_send_ok:
  assumes ok: "tasks_ok w" and t: "tk_current w = Some t"
  shows "tasks_ok (snd (chan_send t h v w))"
proof (cases "t \<in> tk_cancel w \<or> chan_at h w = None \<or> mc_closed (the (chan_at h w))")
  case True
  then show ?thesis using ok by (auto simp: chan_send_def split: option.split)
next
  case False
  then obtain c where c: "chan_at h w = Some c" "\<not> mc_closed c" "t \<notin> tk_cancel w" by auto
  obtain ro rs where pop: "pop_recv_waiter w (mc_recv c) = (ro, rs)" by fastforce
  note C = ok_butD(4) [OF ok c(1)]
  show ?thesis
  proof (cases ro)
    case (Some r)
    then show ?thesis using deliver_ok [OF ok c(1)] pop c by (simp add: chan_send_def)
  next
    case None
    note husks = pop_no_receiver [OF ok c(1) pop [unfolded None]]
    show ?thesis
    proof (cases "int (length (mc_q c)) < mc_cap c")
      case True
      have "tasks_ok (set_chan h (c\<lparr>mc_recv := rs, mc_q := mc_q c @ [v]\<rparr>) w)"
        using C husks True c(2) by (intro set_chan_ok [OF ok c(1)]) (auto simp: chan_ok_def chan_shape_def)
      then show ?thesis using pop None c True by (simp add: chan_send_def)
    next
      case False
      let ?c = "c\<lparr>mc_recv := rs, mc_send := mc_send c @ [(t, 0)]\<rparr>" and ?w = "set_waiter (t, 0) (plain_waiter v) (enter t (InSend h) w)"
      have none: "tk_frames w t = None" "t \<notin> set (tk_ready w)" using ok_butD(3) [OF ok t] by auto
      have w1: "ok_but {t} ?w" by (rule enter_plain_ok [OF ok t]) (use c in \<open>auto simp: plain_waiter_def\<close>)
      have c1: "chan_at h ?w = Some c" using c by (simp add: tk_simps)
      have "send_ref ?w h (t, 0)" by (simp add: send_ref_def tk_simps plain_waiter_def)
      then have "chan_ok ?w h ?c"
        using ok_butD(4) [OF w1 c1] running_unseen(1) [OF ok none(1) c(1)] husks(1) False c(2)
        by (auto simp: chan_ok_def chan_shape_def)
      then have "ok_but {t} (set_chan h ?c ?w)"
        using husks c(2) by (intro set_chan_ok [OF w1 c1]) (auto simp: tk_simps)
      then have "tasks_ok (set_chan h ?c ?w)"
        by (rule live_now) (use none c in \<open>auto simp: frame_live_def tk_simps\<close>)
      then show ?thesis using pop None c False by (simp add: chan_send_def park_in_enter enter_commute)
    qed
  qed
qed

lemma chan_recv_ok:
  assumes ok: "tasks_ok w" and t: "tk_current w = Some t"
  shows "tasks_ok (snd (chan_recv null t h w))"
proof (cases "t \<in> tk_cancel w \<or> chan_at h w = None")
  case True
  then show ?thesis using ok by (auto simp: chan_recv_def split: option.split)
next
  case False
  then obtain c where c: "chan_at h w = Some c" "t \<notin> tk_cancel w" by auto
  obtain r w' where p: "chan_poll_recv t h c w = (r, w')" by fastforce
  note P = chan_poll_recv_ok [OF ok c(1) p]
  show ?thesis
  proof (cases "r = 1 \<or> r = -1")
    case True
    then show ?thesis using c p P(1) by (auto simp: chan_recv_def)
  next
    case False
    then have e: "w' = w" "mc_q c = []" "mc_send c = []" "\<not> mc_closed c" using P(3) by (auto split: if_splits)
    let ?c = "c\<lparr>mc_recv := mc_recv c @ [(t, 0)]\<rparr>" and ?w = "set_waiter (t, 0) (plain_waiter null) (enter t (InRecv h) w)"
    have none: "tk_frames w t = None" "t \<notin> set (tk_ready w)" using ok_butD(3) [OF ok t] by auto
    have w1: "ok_but {t} ?w" by (rule enter_plain_ok [OF ok t]) (use c in \<open>auto simp: plain_waiter_def\<close>)
    have c1: "chan_at h ?w = Some c" using c by (simp add: tk_simps)
    have "recv_ref ?w h (t, 0)" by (simp add: recv_ref_def tk_simps plain_waiter_def)
    then have "chan_ok ?w h ?c"
      using ok_butD(4) [OF w1 c1] running_unseen(1) [OF ok none(1) c(1)] e by (auto simp: chan_ok_def chan_shape_def)
    then have "ok_but {t} (set_chan h ?c ?w)"
      using e by (intro set_chan_ok [OF w1 c1]) auto
    then have "tasks_ok (set_chan h ?c ?w)"
      by (rule live_now) (use none c in \<open>auto simp: frame_live_def tk_simps\<close>)
    then show ?thesis using c p False e(1) by (simp add: chan_recv_def park_in_enter enter_commute)
  qed
qed

lemma chan_try_recv_ok: "tasks_ok w \<Longrightarrow> tasks_ok (snd (chan_try_recv null t h w))"
proof (cases "chan_at h w")
  case (Some c)
  assume ok: "tasks_ok w"
  obtain r w' where p: "chan_poll_recv t h c w = (r, w')" by fastforce
  show ?thesis using chan_poll_recv_ok(1) [OF ok Some p] Some p by (simp add: chan_try_recv_def)
qed (simp add: chan_try_recv_def)


section \<open>Close\<close>

lemma wake_recv_waiter_ok:
  assumes ok: "ok_but (insert u T) w" and r: "fst r = u" "tk_waiters w r = Some m"
    and cur: "tk_current w \<noteq> Some u" and f: "tk_frames w u = Some f"
    and grouped: "cw_grouped m \<Longrightarrow> (\<exists>hs. f = InSelect hs) \<and> (group_woken u w \<longrightarrow> u \<in> set (tk_ready w))"
    and plain: "\<not> cw_grouped m \<Longrightarrow> woken_for w u f \<and> (\<forall>hs. f \<noteq> InSelect hs)"
  shows "ok_but T (wake_recv_waiter r w)"
proof (cases "cw_grouped m")
  case True
  then obtain hs where hs: "f = InSelect hs" "group_woken u w \<longrightarrow> u \<in> set (tk_ready w)" using grouped by auto
  then obtain g where g: "tk_groups w u = Some g" "\<And>k. sg_fired g = Some k \<Longrightarrow> k < length hs" using ok_butD(6) [OF ok f] by auto
  show ?thesis
  proof (cases "sg_woken g")
    case woken: True
    have "ok_but T w" by (rule live_again [OF ok cur]) (use f hs g woken in auto)
    then show ?thesis using True woken g r by (simp add: wake_recv_waiter_def)
  next
    case False
    have "ok_but (insert u T) (set_group u (g\<lparr>sg_woken := True\<rparr>) w)"
      by (rule set_group_ok [OF ok _ f [unfolded hs(1)]]) (use g in auto)
    then have "ok_but T (task_enqueue u (set_group u (g\<lparr>sg_woken := True\<rparr>) w))"
      by (rule enqueue_ok) (use cur f hs in \<open>auto simp: tk_simps\<close>)
    moreover have "set_woken u w = set_group u (g\<lparr>sg_woken := True\<rparr>) w" using g by (simp add: set_woken_def set_group_def)
    ultimately show ?thesis using True False g r by (simp add: wake_recv_waiter_def)
  qed
next
  case False
  then have "ok_but T (task_enqueue u w)" by (intro enqueue_ok [OF ok cur]) (use f plain in auto)
  then show ?thesis using False r by (simp add: wake_recv_waiter_def)
qed

lemma wake_senders_ok:
  assumes "ok_but (fst ` set rs \<union> T) w" and "distinct rs"
    and "\<forall>r \<in> set rs. in_no_queue w r \<and> send_ref w h r \<and> tk_current w \<noteq> Some (fst r)"
  shows "ok_but T (wake_senders rs w)"
  using assms
proof (induction rs arbitrary: w)
  case (Cons r rs)
  let ?u = "fst r" and ?w = "set_woken_closed r w"
  obtain m where m: "tk_waiters w r = Some m" "\<not> cw_grouped m" "tk_frames w ?u = Some (InSend h)" "snd r = 0"
    using Cons.prems(3) by (auto simp: send_ref_def)
  have q: "fst q \<noteq> ?u" if "q \<in> set rs" for q
  proof
    assume "fst q = ?u"
    moreover have "snd q = 0" using that Cons.prems(3) by (auto simp: send_ref_def)
    ultimately have "q = r" using m(4) by (simp add: prod_eq_iff)
    then show False using that Cons.prems(2) by simp
  qed
  have "ok_but (insert ?u (fst ` set rs \<union> T)) ?w" unfolding set_woken_closed_def
    by (rule set_waiter_ok [where old = m]) (use Cons.prems m in auto)
  then have "ok_but (fst ` set rs \<union> T) (task_enqueue ?u ?w)"
    by (rule enqueue_ok) (use Cons.prems m in \<open>cases r; auto simp: set_woken_closed_def tk_simps\<close>)+
  moreover have "send_ref (task_enqueue ?u ?w) h q" if "q \<in> set rs" for q
    using Cons.prems(3) that q [OF that] by (auto simp: send_ref_def set_woken_closed_def tk_simps)
  ultimately show ?case
    using Cons.prems by (auto intro!: Cons.IH simp: in_no_queue_def set_woken_closed_def tk_simps)
qed simp

definition husk :: "'v tasks \<Rightarrow> waiter_ref \<Rightarrow> bool" where
  "husk w r \<longleftrightarrow> cw_grouped (the (tk_waiters w r)) \<and> group_fired (fst r) w"

lemma wake_keeps:
  assumes "tk_groups w (fst r) \<noteq> None \<or> \<not> cw_grouped (the (tk_waiters w r))" and "tk_waiters w r \<noteq> None"
  shows "husk (wake_recv_waiter r (set_woken_closed r w)) q = husk w q"
    and "chan_at h (wake_recv_waiter r (set_woken_closed r w)) = chan_at h w"
    and "tk_frames (wake_recv_waiter r (set_woken_closed r w)) = tk_frames w"
    and "tk_current (wake_recv_waiter r (set_woken_closed r w)) = tk_current w"
    and "q \<noteq> r \<Longrightarrow> tk_waiters (wake_recv_waiter r (set_woken_closed r w)) q = tk_waiters w q"
    and "tk_next (wake_recv_waiter r (set_woken_closed r w)) = tk_next w"
    and "set (tk_ready w) \<subseteq> set (tk_ready (wake_recv_waiter r (set_woken_closed r w)))"
    and "group_woken u (wake_recv_waiter r (set_woken_closed r w)) \<Longrightarrow>
      group_woken u w \<or> u \<in> set (tk_ready (wake_recv_waiter r (set_woken_closed r w)))"
  using assms
  by (auto simp: husk_def wake_recv_waiter_def set_woken_closed_def set_woken_def tk_simps chan_at_def
      task_enqueue_def set_waiter_def split: if_splits)


lemma wake_receivers_ok:
  assumes "ok_but (fst ` {r \<in> set rs. \<not> husk w r} \<union> T) w" and "distinct rs"
    and "\<forall>r \<in> set rs. in_no_queue w r \<and> recv_ref w h r \<and> tk_current w \<noteq> Some (fst r)
      \<and> (group_woken (fst r) w \<longrightarrow> cw_grouped (the (tk_waiters w r)) \<longrightarrow> fst r \<in> set (tk_ready w))"
  shows "ok_but T (wake_receivers rs w)"
  using assms
proof (induction rs w rule: wake_receivers.induct)
  case (1 rs w)
  obtain ro rs' where pop: "pop_recv_waiter w rs = (ro, rs')" by fastforce
  obtain hks where rs: "rs = hks @ (case ro of None \<Rightarrow> [] | Some r \<Rightarrow> [r]) @ rs'" "ro = None \<longrightarrow> rs' = []"
    and hk: "\<forall>q \<in> set hks. husk w q" "\<forall>r. ro = Some r \<longrightarrow> \<not> husk w r"
    using pop_recv_waiter_split [OF pop] by (auto simp: husk_def)
  show ?case
  proof (cases ro)
    case None
    then have e: "{r \<in> set rs. \<not> husk w r} = {}" using rs hk by auto
    have "ok_but T w" using "1.prems"(1) unfolding e by simp
    then show ?thesis using None by (subst wake_receivers.simps) (simp add: pop)
  next
    case (Some r)
    let ?u = "fst r" and ?marked = "set_woken_closed r w"
    let ?w = "wake_recv_waiter r ?marked"
    let ?N = "fst ` {q \<in> set rs'. \<not> husk w q}"
    have r: "in_no_queue w r" "recv_ref w h r" "tk_current w \<noteq> Some ?u" "r \<notin> set rs'"
      "group_woken ?u w \<longrightarrow> cw_grouped (the (tk_waiters w r)) \<longrightarrow> ?u \<in> set (tk_ready w)"
      using "1.prems"(2,3) rs Some by auto
    obtain m where m: "tk_waiters w r = Some m" using r(2) by (auto simp: recv_ref_def)
    obtain f where f: "tk_frames w ?u = Some f" using recv_ref_frame [OF r(2)] by auto
    have "fst ` {r \<in> set rs. \<not> husk w r} \<union> T = insert ?u (?N \<union> T)" using rs hk Some by auto
    then have w0: "ok_but (insert ?u (?N \<union> T)) ?marked"
      using "1.prems"(1) unfolding set_woken_closed_def by (intro set_waiter_ok [where old = m]) (use r m in auto)
    have w: "ok_but (?N \<union> T) ?w"
    proof (rule wake_recv_waiter_ok [OF w0 refl])
      show "tk_waiters ?marked r = Some (m\<lparr>cw_woken_closed := True\<rparr>)" using m by (simp add: set_woken_closed_def tk_simps)
      show "tk_frames ?marked ?u = Some f" using f by (simp add: set_woken_closed_def tk_simps)
    qed (use r m f in \<open>cases r; auto simp: recv_ref_def set_woken_closed_def tk_simps\<close>)+
    have g: "tk_groups w ?u \<noteq> None \<or> \<not> cw_grouped (the (tk_waiters w r))"
      using ok_butD(6) [OF "1.prems"(1) f] r(2) m f by (auto simp: recv_ref_def split: if_splits)
    have "tk_waiters w r \<noteq> None" using m by simp
    note K = wake_keeps [OF g this]
    have rest: "in_no_queue ?w q \<and> recv_ref ?w h q \<and> tk_current ?w \<noteq> Some (fst q)
      \<and> (group_woken (fst q) ?w \<longrightarrow> cw_grouped (the (tk_waiters ?w q)) \<longrightarrow> fst q \<in> set (tk_ready ?w))" if "q \<in> set rs'" for q
    proof -
      have "q \<noteq> r" using that r(4) by auto
      moreover have "in_no_queue w q \<and> recv_ref w h q \<and> tk_current w \<noteq> Some (fst q)
        \<and> (group_woken (fst q) w \<longrightarrow> cw_grouped (the (tk_waiters w q)) \<longrightarrow> fst q \<in> set (tk_ready w))"
        using "1.prems"(3) that rs Some by auto
      ultimately show ?thesis
        using K(7) K(8) [of "fst q"] by (auto simp: in_no_queue_def recv_ref_def K(2-5))
    qed
    have "ok_but T (wake_receivers rs' ?w)"
      by (rule "1.IH" [OF pop [symmetric] Some])
        (use w rest K(1) "1.prems"(2) rs in auto)
    then show ?thesis using Some by (subst wake_receivers.simps) (simp add: pop)
  qed
qed


lemma chan_close_ok:
  assumes ok: "tasks_ok w" and t: "tk_current w = Some t"
  shows "tasks_ok (snd (chan_close h w))"
proof (cases "chan_at h w = None \<or> mc_closed (the (chan_at h w))")
  case True
  then show ?thesis using ok by (auto simp: chan_close_def split: option.split)
next
  case False
  then obtain c where c: "chan_at h w = Some c" "\<not> mc_closed c" by auto
  note C = ok_butD(4) [OF ok c(1)]
  let ?c = "c\<lparr>mc_closed := True, mc_recv := [], mc_send := []\<rparr>"
  let ?w = "set_chan h ?c w" and ?N = "fst ` {r \<in> set (mc_recv c). \<not> husk w r}"
  have cur: "tk_current w \<noteq> Some u" if "tk_frames w u = Some f" for u f using parked_not_current [OF ok that] .
  have w1: "ok_but (?N \<union> fst ` set (mc_send c)) ?w"
  proof (rule set_chan_ok [OF ok_but_mono [OF ok] c(1)])
    show "chan_ok w h ?c" using C by (auto simp: chan_ok_def chan_shape_def)
    show "r \<in> set (mc_recv ?c)"
      if "r \<in> set (mc_recv c)" "fst r \<notin> ?N \<union> fst ` set (mc_send c)" "fst r \<notin> set (tk_ready w)" for r
    proof -
      have "\<not> husk w r" using that(3) husk_ready [OF ok c(1) that(1)] unfolding husk_def by blast
      then show ?thesis using that(1,2) by blast
    qed
  qed (use c in auto)
  show ?thesis
  proof (cases "mc_recv c")
    case Nil
    have "ok_but {} (wake_senders (mc_send c) ?w)"
    proof (rule wake_senders_ok [where h = h])
      show "ok_but (fst ` set (mc_send c) \<union> {}) ?w" using w1 Nil by simp
      show "\<forall>r \<in> set (mc_send c). in_no_queue ?w r \<and> send_ref ?w h r \<and> tk_current ?w \<noteq> Some (fst r)"
        using C cur popped_sender [OF ok] by (auto simp: chan_ok_def tk_simps send_ref_def)
    qed (use C in \<open>simp add: chan_ok_def chan_shape_def\<close>)
    then show ?thesis using c Nil by (simp add: chan_close_def wake_receivers.simps [of "[]"])
  next
    case (Cons r0 rs0)
    then have s: "mc_send c = []" using C by (simp add: chan_ok_def chan_shape_def)
    have hk: "husk ?w = husk w" by (simp add: fun_eq_iff husk_def tk_simps)
    have "ok_but {} (wake_receivers (mc_recv c) ?w)"
    proof (rule wake_receivers_ok [where h = h])
      show "ok_but (fst ` {r \<in> set (mc_recv c). \<not> husk ?w r} \<union> {}) ?w" using w1 s by (simp add: hk)
      show "\<forall>r \<in> set (mc_recv c). in_no_queue ?w r \<and> recv_ref ?w h r \<and> tk_current ?w \<noteq> Some (fst r)
        \<and> (group_woken (fst r) ?w \<longrightarrow> cw_grouped (the (tk_waiters ?w r)) \<longrightarrow> fst r \<in> set (tk_ready ?w))"
      proof
        fix r assume "r \<in> set (mc_recv c)"
        then have r: "recv_ref w h r" using C by (simp add: chan_ok_def)
        then obtain f where "tk_frames w (fst r) = Some f" using recv_ref_frame by blast
        then have "tk_current w \<noteq> Some (fst r)" by (rule cur)
        moreover have "fst r \<in> set (tk_ready w)" if "group_woken (fst r) w" "cw_grouped (the (tk_waiters w r))"
          using that r woken_ready [OF ok] by (auto simp: recv_ref_def split: if_splits)
        moreover have "in_no_queue ?w r" by (rule popped_receiver [OF ok r]) auto
        ultimately show "in_no_queue ?w r \<and> recv_ref ?w h r \<and> tk_current ?w \<noteq> Some (fst r)
          \<and> (group_woken (fst r) ?w \<longrightarrow> cw_grouped (the (tk_waiters ?w r)) \<longrightarrow> fst r \<in> set (tk_ready ?w))"
          using r by (simp add: tk_simps)
      qed
    qed (use C in \<open>simp add: chan_ok_def chan_shape_def\<close>)
    then show ?thesis using c s by (simp add: chan_close_def)
  qed
qed

section \<open>Registering entries\<close>

lemma new_entry_ok:
  assumes ok: "tasks_ok w" and e: "\<And>c. e = ValueChan c \<Longrightarrow> chan_ok w (tk_next w) c \<and> mc_recv c = [] \<and> mc_send c = []"
  shows "tasks_ok (w\<lparr>tk_entries := (tk_entries w)(tk_next w := Some e), tk_next := tk_next w + 1\<rparr>)" (is "tasks_ok ?w")
proof -
  note D = ok_butD [OF ok]
  have ch: "chan_at h ?w = (if h = tk_next w then case e of ValueChan c \<Rightarrow> Some c | Readiness \<Rightarrow> None else chan_at h w)" for h
    by (auto simp: chan_at_def)
  have old: "h \<noteq> tk_next w" if "chan_at h w = Some c" for h c using chan_at_next [OF ok that] by auto
  have refs: "recv_ref ?w = recv_ref w" "send_ref ?w = send_ref w" "io_ref ?w = io_ref w"
    by (simp_all add: fun_eq_iff recv_ref_def send_ref_def io_ref_def)
  have chans: "chan_ok ?w h c" if "chan_at h ?w = Some c" for h c
    using that D(4) e by (auto simp: ch chan_ok_def refs split: if_splits chan_entry.splits)
  have base: "frame_base ?w t f" if "frame_base w t f" for t f
  proof (cases f)
    case (InSelect hs)
    then show ?thesis using that by auto
  qed (use that old in \<open>auto simp: ch\<close>)
  have live: "frame_live ?w t f" if "frame_live w t f" "frame_base w t f" for t f
  proof (cases f)
    case (InSelect hs)
    have "hs ! k \<noteq> tk_next w" if "k < length hs" for k
      using \<open>frame_base w t f\<close> InSelect D(9) [of "hs ! k"] nth_mem [OF that] by fastforce
    then show ?thesis using that InSelect by (cases "t \<in> set (tk_ready w)"; simp add: frame_live_def ch)
  qed (use that old in \<open>auto simp: frame_live_def ch\<close>)
  show ?thesis
    by (intro ok_butI) (use D chans base live in \<open>simp_all add: refs\<close>)
qed

lemma chan_make_ok:
  assumes ok: "tasks_ok w"
  shows "tasks_ok (snd (chan_make capacity w))"
proof (cases "capacity < 0")
  case False
  let ?c = "\<lparr>mc_q = [], mc_cap = capacity, mc_closed = False, mc_recv = [], mc_send = []\<rparr>"
  have "tasks_ok (w\<lparr>tk_entries := (tk_entries w)(tk_next w := Some (ValueChan ?c)), tk_next := tk_next w + 1\<rparr>)"
    by (rule new_entry_ok [OF ok]) (use False in \<open>auto simp: chan_ok_def chan_shape_def\<close>)
  then show ?thesis using False by (simp add: chan_make_def set_chan_def)
qed (use ok in \<open>simp add: chan_make_def\<close>)

lemma add_readiness_ok: "tasks_ok w \<Longrightarrow> tasks_ok (snd (add_readiness w))"
  using new_entry_ok [of w Readiness] by (simp add: add_readiness_def)

end
