(* ===== verification/ChannelRuns.thy ===== *)
theory ChannelRuns
  imports ChannelVerbs
begin

text \<open>Waiting for a handle, coming back from a park, select, and the steps of the whole system.\<close>

section \<open>Waiters for a handle\<close>

lemma io_register_simps [tk_simps]:
  "tk_current (io_register r i w) = tk_current w" "tk_ready (io_register r i w) = tk_ready w"
  "tk_cancel (io_register r i w) = tk_cancel w" "tk_frames (io_register r i w) = tk_frames w"
  "tk_waiters (io_register r i w) = tk_waiters w" "tk_groups (io_register r i w) = tk_groups w"
  "tk_ios (io_register r i w) q = (if q = r then Some i else tk_ios w q)" "tk_io_list (io_register r i w) = r # tk_io_list w"
  "tk_entries (io_register r i w) = tk_entries w" "chan_at j (io_register r i w) = chan_at j w" "tk_next (io_register r i w) = tk_next w"
  by (auto simp: io_register_def chan_at_def)

lemma refs_io:
  "recv_ref (io_register r i w) = recv_ref w" "send_ref (io_register r i w) = send_ref w"
  "q \<noteq> r \<Longrightarrow> io_ref (io_register r i w) q = io_ref w q"
  "recv_ref (set_io_fired r w) = recv_ref w" "send_ref (set_io_fired r w) = send_ref w"
  by (simp_all add: fun_eq_iff recv_ref_def send_ref_def io_ref_def tk_simps)

lemma io_ref_fired: "io_ref w q \<Longrightarrow> io_ref (set_io_fired r w) q"
  by (auto simp: io_ref_def tk_simps split: if_splits)

text \<open>An io record of a task of \<open>T\<close> is marked.\<close>

lemma set_io_fired_ok:
  assumes ok: "ok_but T w" and r: "fst r \<in> T"
  shows "ok_but T (set_io_fired r w)"
proof -
  note D = ok_butD [OF ok]
  have base: "frame_base (set_io_fired r w) t f" if "frame_base w t f" for t f
    using that by (cases f) (auto simp: tk_simps)
  have live: "frame_live (set_io_fired r w) t f = frame_live w t f" if "t \<notin> T" for t f
  proof -
    have "t \<noteq> fst r" using that r by auto
    then show ?thesis by (cases f) (auto simp: frame_live_def tk_simps)
  qed
  have gone: "tk_ios (set_io_fired r w) (t, k) = None" if "tk_frames w t = None" for t k
    using D(8) [OF that] by (auto simp: tk_simps)
  have refs: "io_ref (set_io_fired r w) q" if "q \<in> set (tk_io_list w)" for q
    using io_ref_fired [OF D(5) [OF that]] .
  show ?thesis
    by (intro ok_butI) (use D base live gone refs in \<open>simp_all add: tk_simps chan_ok_def refs_io\<close>)
qed

lemma io_ref_frame: "io_ref w r \<Longrightarrow> \<exists>f. tk_frames w (fst r) = Some f"
  by (auto simp: io_ref_def split: if_splits)

lemma select_fire_frame:
  "tk_io_list (snd (select_fire grouped i u w)) = tk_io_list w" "tk_ios (snd (select_fire grouped i u w)) = tk_ios w"
  "tk_frames (snd (select_fire grouped i u w)) = tk_frames w" "tk_current (snd (select_fire grouped i u w)) = tk_current w"
  by (auto simp: select_fire_def Let_def task_enqueue_def set_woken_def)

lemma io_fire_waiter_ok:
  assumes ok: "tasks_ok w" and r: "r \<in> set (tk_io_list w)"
  shows "tasks_ok (snd (io_fire_waiter r w))" and "tk_io_list (snd (io_fire_waiter r w)) = tk_io_list w"
    and "tk_current (snd (io_fire_waiter r w)) = tk_current w"
proof -
  have ref: "io_ref w r" using ok_butD(5) [OF ok r] .
  then obtain i f where i: "tk_ios w r = Some i" and f: "tk_frames w (fst r) = Some f" using io_ref_frame [OF ref] ref by (auto simp: io_ref_def)
  let ?u = "fst r" and ?w = "set_io_fired r w"
  have "tasks_ok (snd (select_fire (iw_grouped i) (iw_index i) ?u ?w))"
  proof (rule fire_ok)
    show "ok_but (insert ?u {}) ?w" by (rule set_io_fired_ok [OF ok_but_mono [OF ok]]) auto
    show "tk_current ?w \<noteq> Some ?u" using parked_not_current [OF ok f] by (simp add: tk_simps)
    show "tk_frames ?w ?u = Some f" using f by (simp add: tk_simps)
    show "\<exists>hs. f = InSelect hs \<and> iw_index i < length hs \<and> (group_woken ?u ?w \<longrightarrow> ?u \<in> set (tk_ready ?w))" if "iw_grouped i"
      using that ref i f woken_ready [OF ok] by (auto simp: io_ref_def tk_simps)
    show "woken_for ?w ?u f \<and> (\<forall>hs. f \<noteq> InSelect hs)" if "\<not> iw_grouped i"
      using that ref i f by (cases r) (auto simp: io_ref_def tk_simps)
  qed
  then show "tasks_ok (snd (io_fire_waiter r w))" using ok i by (simp add: io_fire_waiter_def)
  show "tk_io_list (snd (io_fire_waiter r w)) = tk_io_list w" "tk_current (snd (io_fire_waiter r w)) = tk_current w"
    by (simp_all add: io_fire_waiter_def Let_def select_fire_frame tk_simps)
qed

lemma io_probe_from_ok:
  "tasks_ok w \<Longrightarrow> set rs \<subseteq> set (tk_io_list w) \<Longrightarrow>
    tasks_ok (snd (io_probe_from readable rs w)) \<and> tk_current (snd (io_probe_from readable rs w)) = tk_current w"
proof (induction readable rs w rule: io_probe_from.induct)
  case (2 readable r rs w)
  note F = io_fire_waiter_ok [OF "2.prems"(1), of r]
  show ?case
  proof (cases "\<not> iw_fired (the (tk_ios w r)) \<and> readable (iw_handle (the (tk_ios w r)))")
    case True
    obtain woke w' where w': "io_fire_waiter r w = (woke, w')" by fastforce
    have "tasks_ok (snd (io_probe_from readable rs w')) \<and> tk_current (snd (io_probe_from readable rs w')) = tk_current w'"
      by (rule "2.IH"(1) [OF True w' [symmetric] refl]) (use F "2.prems"(2) w' in auto)
    then show ?thesis using True w' F "2.prems"(2) by (auto split: prod.splits)
  qed (use 2 in auto)
qed simp

lemma io_probe_and_fire_ok:
  "tasks_ok w \<Longrightarrow> tasks_ok (snd (io_probe_and_fire readable w)) \<and> tk_current (snd (io_probe_and_fire readable w)) = tk_current w"
  using io_probe_from_ok [of w "tk_io_list w"] by (simp add: io_probe_and_fire_def)

lemma close_waiter_ok:
  assumes ok: "tasks_ok w" and r: "r \<in> set (tk_io_list w)"
  shows "tasks_ok (close_waiter p r w)" and "tk_io_list (close_waiter p r w) = tk_io_list w"
proof -
  have ref: "io_ref w r" using ok_butD(5) [OF ok r] .
  then obtain i f where i: "tk_ios w r = Some i" and f: "tk_frames w (fst r) = Some f" using io_ref_frame [OF ref] ref by (auto simp: io_ref_def)
  let ?u = "fst r" and ?w = "set_io_fired r w"
  have w1: "ok_but (insert ?u {}) ?w" by (rule set_io_fired_ok [OF ok_but_mono [OF ok]]) auto
  have cur: "tk_current ?w \<noteq> Some ?u" using parked_not_current [OF ok f] by (simp add: tk_simps)
  show "tasks_ok (close_waiter p r w)"
  proof (cases "iw_fired i \<or> iw_handle i \<noteq> p")
    case False
    show ?thesis
    proof (cases "iw_grouped i")
      case True
      then obtain hs where hs: "f = InSelect hs" using ref i f by (auto simp: io_ref_def)
      then obtain g where g: "tk_groups w ?u = Some g" "\<And>k. sg_fired g = Some k \<Longrightarrow> k < length hs"
        using ok_butD(6) [OF ok f] by auto
      show ?thesis
      proof (cases "sg_fired g \<noteq> None \<or> sg_woken g")
        case woken: True
        have "sg_woken g" using woken ok_butD(7) [OF ok f] hs g by (auto simp: frame_live_def)
        moreover have "?u \<in> set (tk_ready w)" using woken_ready [OF ok f [unfolded hs]] woken g by auto
        ultimately have "ok_but {} ?w" by (intro live_again [OF w1 cur]) (use f hs g in \<open>auto simp: tk_simps\<close>)
        then show ?thesis using False True woken i g by (auto simp: close_waiter_def Let_def tk_simps)
      next
        case fresh: False
        have "ok_but (insert ?u {}) (set_group ?u (g\<lparr>sg_woken := True\<rparr>) ?w)"
          by (rule set_group_ok [OF w1]) (use f hs g in \<open>auto simp: tk_simps\<close>)
        then have "ok_but {} (task_enqueue ?u (set_group ?u (g\<lparr>sg_woken := True\<rparr>) ?w))"
          by (rule enqueue_ok) (use cur f hs in \<open>auto simp: tk_simps\<close>)
        moreover have "set_woken ?u ?w = set_group ?u (g\<lparr>sg_woken := True\<rparr>) ?w"
          using g by (simp add: set_woken_def set_group_def tk_simps)
        ultimately show ?thesis using False True fresh i g by (auto simp: close_waiter_def Let_def tk_simps)
      qed
    next
      case plain: False
      have "ok_but {} (task_enqueue ?u ?w)"
        by (rule enqueue_ok [OF w1 cur]) (use plain ref i f in \<open>cases r; auto simp: io_ref_def tk_simps\<close>)
      then show ?thesis using False plain i by (simp add: close_waiter_def)
    qed
  qed (use ok i in \<open>simp add: close_waiter_def\<close>)
  show "tk_io_list (close_waiter p r w) = tk_io_list w"
    by (auto simp: close_waiter_def Let_def task_enqueue_def set_woken_def set_io_fired_def)
qed

lemma fold_close_waiter_ok:
  "tasks_ok w \<Longrightarrow> set rs \<subseteq> set (tk_io_list w) \<Longrightarrow> tasks_ok (fold (close_waiter p) rs w)"
  by (induction rs arbitrary: w) (simp_all add: close_waiter_ok)

lemma handle_closing_ok: "tasks_ok w \<Longrightarrow> tasks_ok (handle_closing p w)"
  by (simp add: handle_closing_def fold_close_waiter_ok)


lemma wait_readable_ok:
  assumes ok: "tasks_ok w" and t: "tk_current w = Some t"
  shows "tasks_ok (snd (wait_readable e t p w))"
proof (cases "t \<in> tk_cancel w \<or> os_readable e p")
  case False
  let ?i = "\<lparr>iw_handle = p, iw_grouped = False, iw_index = 0, iw_fired = False\<rparr>"
  let ?v = "enter t (InWait p) w"
  let ?w = "io_register (t, 0) ?i ?v"
  have none: "tk_frames w t = None" "t \<notin> set (tk_ready w)" using ok_butD(3) [OF ok t] by auto
  note D = ok_butD [OF ok] and U = running_unseen [OF ok none(1)] and R = enter_refs [OF none(1)]
  have live: "frame_live ?w u f" if "tk_frames ?w u = Some f" for u f
  proof (cases "u = t")
    case True
    then show ?thesis using that none False by (auto simp: frame_live_def tk_simps)
  next
    case u: False
    then have "frame_live ?v u f" using D(7) that by (intro enter_frames(2)) (simp add: tk_simps)
    moreover have "woken_for ?w u f = woken_for ?v u f" "waits_on ?w u f = waits_on ?v u f"
      using u by (cases f; simp add: tk_simps)+
    ultimately show ?thesis by (simp add: frame_live_def tk_simps)
  qed
  have base: "frame_base ?w u f" if "tk_frames ?w u = Some f" for u f
  proof (cases "u = t")
    case True
    then show ?thesis using that by (auto simp: tk_simps)
  next
    case u: False
    then show ?thesis using D(6) [of u f] that by (cases f) (auto simp: tk_simps)
  qed
  have refs: "io_ref ?w r" if "r \<in> set (tk_io_list ?w)" for r
  proof (cases "r = (t, 0)")
    case True
    then show ?thesis by (simp add: io_ref_def tk_simps)
  next
    case False
    then show ?thesis using that D(5) R(3) by (simp add: tk_simps refs_io)
  qed
  have gone: "tk_groups ?w u = None \<and> tk_waiters ?w (u, k) = None \<and> tk_ios ?w (u, k) = None" if "tk_frames ?w u = None" for u k
    using that D(8) [of u] by (auto simp: tk_simps split: if_splits)
  have chans: "chan_ok ?w h c" if "chan_at h ?w = Some c" for h c
    using that D(4) [of h c] R(1,2) by (simp add: tk_simps chan_ok_def refs_io)
  have "tasks_ok ?w"
    by (rule ok_butI) (use D(1,2,9) U(2) chans refs base live gone in \<open>simp_all add: tk_simps\<close>)
  then show ?thesis using False by (simp add: wait_readable_def park_in_enter enter_commute)
qed (use ok in \<open>auto simp: wait_readable_def\<close>)

section \<open>Back from a park\<close>

text \<open>The frame of a task nothing refers to is unwound.\<close>

lemma unwind_ok:
  assumes ok: "ok_but {t} w" and q: "\<And>k. in_no_queue w (t, k)" and io: "\<And>k. (t, k) \<notin> set (tk_io_list w)"
  shows "tasks_ok (unwind t w)"
proof -
  note D = ok_butD [OF ok]
  have refs: "recv_ref (unwind t w) h r = recv_ref w h r" "send_ref (unwind t w) h r = send_ref w h r"
    "io_ref (unwind t w) r = io_ref w r" if "fst r \<noteq> t" for h r
    using that by (simp_all add: recv_ref_def send_ref_def io_ref_def tk_simps)
  have chans: "chan_ok (unwind t w) h c" if "chan_at h (unwind t w) = Some c" for h c
  proof -
    have c: "chan_at h w = Some c" using that by (simp add: tk_simps)
    have "fst r \<noteq> t" if "r \<in> set (mc_recv c) \<union> set (mc_send c)" for r
      using that c q [of "snd r"] by (cases r) (auto simp: in_no_queue_def)
    then show ?thesis using D(4) [OF c] refs(1,2) by (auto simp: chan_ok_def)
  qed
  have ios: "io_ref (unwind t w) r" if "r \<in> set (tk_io_list w)" for r
  proof -
    have "fst r \<noteq> t" using that io [of "snd r"] by (cases r) auto
    then show ?thesis using D(5) [OF that] refs(3) by simp
  qed
  have fr: "frame_base (unwind t w) u f \<and> frame_live (unwind t w) u f" if "tk_frames (unwind t w) u = Some f" for u f
  proof -
    have u: "u \<noteq> t" "tk_frames w u = Some f" using that by (auto simp: tk_simps split: if_splits)
    have "frame_base (unwind t w) u f = frame_base w u f" "frame_live (unwind t w) u f = frame_live w u f"
      using u(1) by (cases f; simp add: frame_live_def tk_simps)+
    then show ?thesis using D(6,7) u by simp
  qed
  have gone: "tk_groups (unwind t w) u = None \<and> tk_waiters (unwind t w) (u, k) = None \<and> tk_ios (unwind t w) (u, k) = None"
    if "tk_frames (unwind t w) u = None" for u k
    using that D(8) [of u] by (auto simp: tk_simps split: if_splits)
  show ?thesis
    by (rule ok_butI) (use D(1-3,9) chans ios fr gone in \<open>simp_all add: tk_simps\<close>)
qed

lemma dispatch_ok:
  assumes ok: "tasks_ok w" and t: "tk_ready w = t # ts"
  shows "ok_but {t} (w\<lparr>tk_current := Some t, tk_ready := ts\<rparr>)" (is "ok_but _ ?w")
    and "tk_frames w t = Some f \<Longrightarrow> woken_for (w\<lparr>tk_current := Some t, tk_ready := ts\<rparr>) t f"
proof -
  note D = ok_butD [OF ok]
  have ch: "chan_at h ?w = chan_at h w" for h by (simp add: chan_at_def)
  have refs: "recv_ref ?w = recv_ref w" "send_ref ?w = send_ref w" "io_ref ?w = io_ref w"
    by (simp_all add: fun_eq_iff recv_ref_def send_ref_def io_ref_def)
  have fb: "frame_base ?w u f = frame_base w u f" "woken_for ?w u f = woken_for w u f" "waits_on ?w u f = waits_on w u f" for u f
    by (cases f; simp add: ch)+
  have live: "frame_live ?w u f" if "frame_live w u f" "u \<noteq> t" for u f
    using that t fb by (simp add: frame_live_def)
  show "ok_but {t} ?w"
    by (intro ok_butI) (use D live t in \<open>auto simp: ch refs fb chan_ok_def\<close>)
  show "woken_for ?w t f" if "tk_frames w t = Some f"
    using D(7) [OF that] t fb by (simp add: frame_live_def)
qed

lemma resumed_plain:
  assumes ok: "ok_but {t} w" and f: "tk_frames w t = Some f" "f = InSend h \<or> f = InRecv h"
  shows "(t, k) \<notin> set (tk_io_list w)"
    and "cw_ok (the (tk_waiters w (t, 0))) \<or> cw_woken_closed (the (tk_waiters w (t, 0))) \<Longrightarrow> in_no_queue w (t, k)"
    and "chan_at j w = Some c \<Longrightarrow> (t, k) \<in> set (mc_recv c) \<Longrightarrow> k = 0 \<and> f = InRecv j"
    and "chan_at j w = Some c \<Longrightarrow> (t, k) \<in> set (mc_send c) \<Longrightarrow> k = 0 \<and> f = InSend j"
proof -
  show "(t, k) \<notin> set (tk_io_list w)" using ok_butD(5) [OF ok, of "(t, k)"] f by (auto simp: io_ref_def split: if_splits)
  show R: "k = 0 \<and> f = InRecv j" if "chan_at j w = Some c" "(t, k) \<in> set (mc_recv c)" for j c k
    using ok_butD(4) [OF ok that(1)] that(2) f by (auto simp: chan_ok_def recv_ref_def split: if_splits)
  show S: "k = 0 \<and> f = InSend j" if "chan_at j w = Some c" "(t, k) \<in> set (mc_send c)" for j c k
    using ok_butD(4) [OF ok that(1)] that(2) f by (auto simp: chan_ok_def send_ref_def)
  show "in_no_queue w (t, k)" if "cw_ok (the (tk_waiters w (t, 0))) \<or> cw_woken_closed (the (tk_waiters w (t, 0)))"
    unfolding in_no_queue_def
  proof (intro allI impI conjI notI)
    fix j c assume c: "chan_at j w = Some c"
    show False if "(t, k) \<in> set (mc_recv c)"
      using R [OF c that] ok_butD(4) [OF ok c] that \<open>cw_ok _ \<or> _\<close> by (auto simp: chan_ok_def recv_ref_def)
    show False if "(t, k) \<in> set (mc_send c)"
      using S [OF c that] ok_butD(4) [OF ok c] that \<open>cw_ok _ \<or> _\<close> by (auto simp: chan_ok_def send_ref_def)
  qed
qed

lemma resume_send_ok:
  assumes ok: "ok_but {t} w" and f: "tk_frames w t = Some (InSend h)" and why: "woken_for w t (InSend h)"
  shows "tasks_ok (snd (resume_send t h w))"
proof -
  note P = resumed_plain [OF ok f disjI1 [OF refl]]
  let ?me = "the (tk_waiters w (t, 0))"
  show ?thesis
  proof (cases "cw_ok ?me \<or> t \<notin> tk_cancel w \<and> cw_woken_closed ?me")
    case True
    then have "tasks_ok (unwind t w)" using P by (intro unwind_ok [OF ok]) auto
    then show ?thesis by (simp add: resume_send_def Let_def True) (use True in auto)
  next
    case False
    then have c: "t \<in> tk_cancel w" "\<not> cw_ok ?me" using why by auto
    obtain ch where ch: "chan_at h w = Some ch" using ok_butD(6) [OF ok f] by auto
    let ?ch = "ch\<lparr>mc_send := remove1 (t, 0) (mc_send ch)\<rparr>"
    have d: "distinct (mc_send ch)" using ok_butD(4) [OF ok ch] by (simp add: chan_ok_def chan_shape_def)
    have w1: "ok_but {t} (set_chan h ?ch w)"
      using ok_butD(4) [OF ok ch] d by (intro set_chan_ok [OF ok ch]) (auto simp: chan_ok_def chan_shape_def)
    have "tasks_ok (unwind t (set_chan h ?ch w))"
    proof (rule unwind_ok [OF w1])
      show "in_no_queue (set_chan h ?ch w) (t, k)" for k
        unfolding in_no_queue_def
      proof (intro allI impI)
        fix j c assume "chan_at j (set_chan h ?ch w) = Some c"
        then consider "j = h" "c = ?ch" | "j \<noteq> h" "chan_at j w = Some c" by (cases "j = h") (simp_all add: tk_simps)
        then show "(t, k) \<notin> set (mc_recv c) \<and> (t, k) \<notin> set (mc_send c)"
        proof cases
          case 1
          then show ?thesis using P(3) [OF ch, of k] P(4) [OF ch, of k] d by auto
        next
          case 2
          then show ?thesis using P(3) [of j c k] P(4) [of j c k] by auto
        qed
      qed
    qed (use P(1) in \<open>simp add: tk_simps\<close>)
    then show ?thesis using c ch by (simp add: resume_send_def drop_sender_def Let_def)
  qed
qed

lemma resume_recv_ok:
  assumes ok: "ok_but {t} w" and f: "tk_frames w t = Some (InRecv h)" and why: "woken_for w t (InRecv h)"
  shows "tasks_ok (snd (resume_recv null t h w))"
proof -
  note P = resumed_plain [OF ok f disjI2 [OF refl]]
  let ?me = "the (tk_waiters w (t, 0))"
  show ?thesis
  proof (cases "cw_ok ?me \<or> t \<notin> tk_cancel w \<and> cw_woken_closed ?me")
    case True
    then have "tasks_ok (unwind t w)" using P by (intro unwind_ok [OF ok]) auto
    then show ?thesis by (simp add: resume_recv_def Let_def True) (use True in auto)
  next
    case False
    then have c: "t \<in> tk_cancel w" "\<not> cw_ok ?me" using why by auto
    obtain ch where ch: "chan_at h w = Some ch" using ok_butD(6) [OF ok f] by auto
    let ?ch = "ch\<lparr>mc_recv := remove1 (t, 0) (mc_recv ch)\<rparr>"
    have d: "distinct (mc_recv ch)" using ok_butD(4) [OF ok ch] by (simp add: chan_ok_def chan_shape_def)
    have w1: "ok_but {t} (set_chan h ?ch w)"
      using ok_butD(4) [OF ok ch] d by (intro set_chan_ok [OF ok ch]) (auto simp: chan_ok_def chan_shape_def)
    have "tasks_ok (unwind t (set_chan h ?ch w))"
    proof (rule unwind_ok [OF w1])
      show "in_no_queue (set_chan h ?ch w) (t, k)" for k
        unfolding in_no_queue_def
      proof (intro allI impI)
        fix j c assume "chan_at j (set_chan h ?ch w) = Some c"
        then consider "j = h" "c = ?ch" | "j \<noteq> h" "chan_at j w = Some c" by (cases "j = h") (simp_all add: tk_simps)
        then show "(t, k) \<notin> set (mc_recv c) \<and> (t, k) \<notin> set (mc_send c)"
        proof cases
          case 1
          then show ?thesis using P(3) [OF ch, of k] P(4) [OF ch, of k] d by auto
        next
          case 2
          then show ?thesis using P(3) [of j c k] P(4) [of j c k] by auto
        qed
      qed
    qed (use P(1) in \<open>simp add: tk_simps\<close>)
    then show ?thesis using c ch by (simp add: resume_recv_def drop_receiver_def Let_def)
  qed
qed

end
