(* ===== verification/ChannelSelect.thy ===== *)
theory ChannelSelect
  imports ChannelRuns
begin

text \<open>The select: its scan, its registration, and its return from a park keep the invariant.\<close>

section \<open>Records of handles leave the registry\<close>

definition set_io_list :: "waiter_ref list \<Rightarrow> 'v tasks \<Rightarrow> 'v tasks" where
  "set_io_list rs w = w\<lparr>tk_io_list := rs\<rparr>"

lemma set_io_list_simps [tk_simps]:
  "tk_current (set_io_list rs w) = tk_current w" "tk_ready (set_io_list rs w) = tk_ready w"
  "tk_cancel (set_io_list rs w) = tk_cancel w" "tk_frames (set_io_list rs w) = tk_frames w"
  "tk_waiters (set_io_list rs w) = tk_waiters w" "tk_groups (set_io_list rs w) = tk_groups w"
  "tk_ios (set_io_list rs w) = tk_ios w" "tk_io_list (set_io_list rs w) = rs"
  "tk_entries (set_io_list rs w) = tk_entries w" "chan_at j (set_io_list rs w) = chan_at j w" "tk_next (set_io_list rs w) = tk_next w"
  by (auto simp: set_io_list_def chan_at_def)

lemma set_io_list_ok:
  assumes ok: "ok_but {t} w" and rs: "distinct rs" "set rs \<subseteq> set (tk_io_list w)"
    "\<And>u k. u \<noteq> t \<Longrightarrow> (u, k) \<in> set (tk_io_list w) \<Longrightarrow> (u, k) \<in> set rs"
  shows "ok_but {t} (set_io_list rs w)"
proof -
  note D = ok_butD [OF ok]
  have refs: "recv_ref (set_io_list rs w) = recv_ref w" "send_ref (set_io_list rs w) = send_ref w" "io_ref (set_io_list rs w) = io_ref w"
    by (simp_all add: fun_eq_iff recv_ref_def send_ref_def io_ref_def tk_simps)
  have base: "frame_base (set_io_list rs w) u f = frame_base w u f" for u f
    by (cases f) (simp_all add: tk_simps)
  have mem: "(u, k) \<in> set rs \<longleftrightarrow> (u, k) \<in> set (tk_io_list w)" if "u \<noteq> t" for u k
    using that rs(2,3) by blast
  have "woken_for (set_io_list rs w) u f = woken_for w u f" "waits_on (set_io_list rs w) u f = waits_on w u f" if "u \<noteq> t" for u f
    by (cases f; simp add: tk_simps mem [OF that])+
  then have live: "frame_live (set_io_list rs w) u f = frame_live w u f" if "u \<noteq> t" for u f
    using that by (simp add: frame_live_def tk_simps)
  have ios: "io_ref w r" if "r \<in> set rs" for r using D(5) rs(2) that by blast
  show ?thesis
    by (rule ok_butI) (use D live base ios rs in \<open>simp_all add: tk_simps refs chan_ok_def\<close>)
qed

lemma resume_wait_ok:
  assumes ok: "ok_but {t} w" and f: "tk_frames w t = Some (InWait p)"
  shows "tasks_ok (snd (resume_wait t w))"
proof -
  let ?w = "set_io_list (remove1 (t, 0) (tk_io_list w)) w"
  note D = ok_butD [OF ok]
  have k0: "k = 0" if "(t, k) \<in> set (tk_io_list w)" for k
    using D(5) [OF that] f by (auto simp: io_ref_def split: if_splits)
  have "ok_but {t} ?w"
    using D(2) by (intro set_io_list_ok [OF ok]) (auto dest: in_set_remove1 notin_set_remove1)
  then have "tasks_ok (unwind t ?w)"
  proof (rule unwind_ok)
    have "\<not> recv_ref w j (t, k)" "\<not> send_ref w j (t, k)" for j k
      using f by (auto simp: recv_ref_def send_ref_def)
    then show "in_no_queue ?w (t, k)" for k
      using D(4) unfolding in_no_queue_def chan_ok_def tk_simps by blast
    show "(t, k) \<notin> set (tk_io_list ?w)" for k
      using k0 [of k] D(2) by (auto simp: tk_simps)
  qed
  moreover have "io_unregister (t, 0) w = ?w" by (simp add: io_unregister_def set_io_list_def)
  ultimately show ?thesis by (simp add: resume_wait_def Let_def)
qed

section \<open>The scan\<close>

lemma select_scan_ok:
  "tasks_ok w \<Longrightarrow> select_scan null e t i hs any_open w = (ro, op, w') \<Longrightarrow>
    tasks_ok w' \<and> tk_current w' = tk_current w
    \<and> (ro = None \<longrightarrow> w' = w \<and> (\<forall>h \<in> set hs. \<forall>c. chan_at h w = Some c \<longrightarrow> mc_q c = [] \<and> mc_send c = []))"
proof (induction null e t i hs any_open w arbitrary: ro op w' rule: select_scan.induct)
  case (2 null e t i h hs any_open w)
  show ?case
  proof (cases "chan_at h w")
    case (Some c)
    obtain r v where p: "chan_poll_recv t h c w = (r, v)" by fastforce
    note P = chan_poll_recv_ok [OF "2.prems"(1) Some p]
    show ?thesis
    proof (cases "r = 1")
      case True
      then show ?thesis using "2.prems"(2) Some p P by auto
    next
      case False
      then have v: "v = w" "mc_q c = []" "mc_send c = []" using P(3) by auto
      have "select_scan null e t (i + 1) hs (any_open \<or> r = 0) w = (ro, op, w')"
        using "2.prems"(2) Some p v False by simp
      from "2.IH"(2) [OF Some p [symmetric] refl False, unfolded v(1), OF "2.prems"(1) this]
      show ?thesis using Some v by auto
    qed
  next
    case None
    let ?r = "case os_scan e h of None \<Rightarrow> -1 | Some x \<Rightarrow> x"
    show ?thesis
    proof (cases "?r = 1")
      case True
      then show ?thesis using "2.prems" None by (auto simp: tk_simps)
    next
      case False
      have "select_scan null e t (i + 1) hs (any_open \<or> ?r = 0) w = (ro, op, w')"
        using "2.prems"(2) None False by (simp add: Let_def)
      from "2.IH"(1) [OF None refl False "2.prems"(1) this] show ?thesis using None by auto
    qed
  qed
qed auto

section \<open>The registration\<close>

text \<open>A record for a case of a select that is entering its park, and its place in the queue.\<close>

lemma new_waiter_ok:
  assumes ok: "ok_but {t} w" and t: "tk_frames w t = Some (InSelect hs)" and r: "in_no_queue w (t, i)"
  shows "ok_but {t} (set_waiter (t, i) m w)"
proof -
  note D = ok_butD [OF ok]
  have ch: "chan_ok (set_waiter (t, i) m w) h c" if "chan_at h w = Some c" for h c
  proof -
    have "q \<noteq> (t, i)" if "q \<in> set (mc_recv c) \<union> set (mc_send c)" for q
      using that r \<open>chan_at h w = Some c\<close> by (auto simp: in_no_queue_def)
    then show ?thesis using D(4) [OF that] by (auto simp: chan_ok_def refs_set_waiter)
  qed
  have base: "frame_base (set_waiter (t, i) m w) u f" if "tk_frames w u = Some f" for u f
    using D(6) [OF that] that t by (cases "u = t"; cases f) (auto simp: tk_simps)
  have live: "frame_live (set_waiter (t, i) m w) u f" if "tk_frames w u = Some f" "u \<noteq> t" for u f
    using D(7) that by (simp add: set_waiter_live)
  have gone: "tk_waiters (set_waiter (t, i) m w) (u, k) = None" if "tk_frames w u = None" for u k
    using D(8) [OF that] that t by (auto simp: tk_simps)
  show ?thesis
    by (rule ok_butI) (use D ch base live gone in \<open>simp_all add: tk_simps refs_set_waiter\<close>)
qed

text \<open>What the registration of the cases changes: records and queue places of the selecting task.\<close>

definition grown :: "'v tasks \<Rightarrow> 'v tasks \<Rightarrow> bool" where
  "grown w w' \<longleftrightarrow> tk_current w' = tk_current w \<and> tk_ready w' = tk_ready w \<and> tk_frames w' = tk_frames w
     \<and> tk_groups w' = tk_groups w \<and> tk_ios w' = tk_ios w \<and> tk_io_list w' = tk_io_list w \<and> tk_cancel w' = tk_cancel w
     \<and> (\<forall>h c. chan_at h w = Some c \<longrightarrow> (\<exists>c'. chan_at h w' = Some c' \<and> set (mc_recv c) \<subseteq> set (mc_recv c')
          \<and> mc_q c' = mc_q c \<and> mc_send c' = mc_send c \<and> mc_closed c' = mc_closed c))
     \<and> (\<forall>h. chan_at h w = None \<longrightarrow> chan_at h w' = None)"

lemma grown_refl: "grown w w"
  by (simp add: grown_def)

lemma grown_trans:
  assumes "grown w v" and "grown v u"
  shows "grown w u"
proof -
  have "\<exists>c'. chan_at h u = Some c' \<and> set (mc_recv c) \<subseteq> set (mc_recv c') \<and> mc_q c' = mc_q c
      \<and> mc_send c' = mc_send c \<and> mc_closed c' = mc_closed c" if c: "chan_at h w = Some c" for h c
  proof -
    obtain d where d: "chan_at h v = Some d" "set (mc_recv c) \<subseteq> set (mc_recv d)" "mc_q d = mc_q c" "mc_send d = mc_send c" "mc_closed d = mc_closed c"
      using assms(1) c unfolding grown_def by blast
    moreover obtain g where "chan_at h u = Some g" "set (mc_recv d) \<subseteq> set (mc_recv g)" "mc_q g = mc_q d" "mc_send g = mc_send d" "mc_closed g = mc_closed d"
      using assms(2) d(1) unfolding grown_def by blast
    ultimately show ?thesis by auto
  qed
  then show ?thesis using assms unfolding grown_def by simp
qed

lemma grownD:
  "grown w w' \<Longrightarrow> chan_at h w = Some c \<Longrightarrow> chan_at h w' = Some c' \<Longrightarrow>
    set (mc_recv c) \<subseteq> set (mc_recv c') \<and> mc_q c' = mc_q c \<and> mc_closed c' = mc_closed c"
  unfolding grown_def by fastforce

lemma add_case_ok:
  assumes ok: "ok_but {t} w" and t: "tk_frames w t = Some (InSelect all)" "t \<notin> set (tk_ready w)" and c: "chan_at h w = Some c" "\<not> mc_closed c"
    and i: "i < length all" "all ! i = h" and free: "\<And>j d. chan_at j w = Some d \<Longrightarrow> (t, i) \<notin> set (mc_recv d)"
    and empty: "mc_q c = []" "mc_send c = []"
  shows "ok_but {t} (set_waiter (t, i) ((plain_waiter null)\<lparr>cw_grouped := True\<rparr>) (set_chan h (c\<lparr>mc_recv := mc_recv c @ [(t, i)]\<rparr>) w))"
    and "grown w (set_waiter (t, i) ((plain_waiter null)\<lparr>cw_grouped := True\<rparr>) (set_chan h (c\<lparr>mc_recv := mc_recv c @ [(t, i)]\<rparr>) w))"
proof -
  let ?m = "(plain_waiter null)\<lparr>cw_grouped := True\<rparr>" and ?c = "c\<lparr>mc_recv := mc_recv c @ [(t, i)]\<rparr>"
  have "in_no_queue w (t, i)"
    using free ok_butD(4) [OF ok] t(1) by (fastforce simp: in_no_queue_def chan_ok_def send_ref_def)
  then have w1: "ok_but {t} (set_waiter (t, i) ?m w)" by (rule new_waiter_ok [OF ok t(1)])
  have c1: "chan_at h (set_waiter (t, i) ?m w) = Some c" using c by (simp add: tk_simps)
  have "recv_ref (set_waiter (t, i) ?m w) h (t, i)" using t i by (simp add: recv_ref_def tk_simps plain_waiter_def)
  then have "chan_ok (set_waiter (t, i) ?m w) h ?c"
    using ok_butD(4) [OF w1 c1] free [OF c(1)] empty c(2) by (auto simp: chan_ok_def chan_shape_def)
  then have "ok_but {t} (set_chan h ?c (set_waiter (t, i) ?m w))"
    by (rule set_chan_ok [OF w1 c1]) (use c(2) in auto)
  then show "ok_but {t} (set_waiter (t, i) ?m (set_chan h ?c w))" by (simp add: enter_commute)
  show "grown w (set_waiter (t, i) ?m (set_chan h ?c w))" using c by (auto simp: grown_def tk_simps)
qed

lemma register_cases_ok:
  assumes "ok_but {t} w" and "tk_frames w t = Some (InSelect all)" and "t \<notin> set (tk_ready w)" and "all = done_cases @ hs" and "length done_cases = i"
    and "\<forall>h \<in> set hs. \<forall>c. chan_at h w = Some c \<longrightarrow> mc_q c = [] \<and> mc_send c = []"
    and "\<forall>h c k. chan_at h w = Some c \<longrightarrow> i \<le> k \<longrightarrow> (t, k) \<notin> set (mc_recv c)"
    and "register_cases null e t i hs w = (want, w')"
  shows "ok_but {t} w' \<and> grown w w' \<and> (\<forall>p \<in> set want. fst p < length all)
    \<and> (\<forall>k c. i \<le> k \<longrightarrow> k < length all \<longrightarrow> chan_at (all ! k) w' = Some c \<longrightarrow> (t, k) \<in> set (mc_recv c) \<or> mc_closed c \<and> mc_q c = [])"
  using assms
proof (induction null e t i hs w arbitrary: done_cases want w' rule: register_cases.induct)
  case (1 null e t i w)
  then show ?case by (auto simp: grown_refl)
next
  case (2 null e t i h hs w)
  have i: "i < length all" "all ! i = h" using "2.prems"(4,5) by (auto simp: nth_append)
  have split: "all = (done_cases @ [h]) @ hs" "length (done_cases @ [h]) = i + 1" using "2.prems"(4,5) by auto
  show ?case
  proof (cases "chan_at h w")
    case (Some c)
    have empty: "mc_q c = []" "mc_send c = []" using "2.prems"(6) Some by auto
    define v where "v = (if mc_closed c then w else set_waiter (t, i) ((plain_waiter null)\<lparr>cw_grouped := True\<rparr>)
                    (set_chan h (c\<lparr>mc_recv := mc_recv c @ [(t, i)]\<rparr>) w))"
    have run: "register_cases null e t (i + 1) hs v = (want, w')"
      using "2.prems"(8) Some by (simp add: v_def)
    have free: "(t, i) \<notin> set (mc_recv d)" if "chan_at j w = Some d" for j d using "2.prems"(7) that by auto
    have v: "ok_but {t} v \<and> grown w v"
      using "2.prems"(1) add_case_ok [OF "2.prems"(1,2,3) Some _ i free empty] by (auto simp: v_def grown_refl)
    have chv: "\<exists>c'. chan_at j w = Some c' \<and> mc_q d = mc_q c' \<and> mc_send d = mc_send c' \<and> set (mc_recv d) \<subseteq> insert (t, i) (set (mc_recv c'))"
      if "chan_at j v = Some d" for j d
      using that Some by (auto simp: v_def tk_simps split: if_splits)
    have IH: "ok_but {t} w' \<and> grown v w' \<and> (\<forall>p \<in> set want. fst p < length all)
      \<and> (\<forall>k c. i + 1 \<le> k \<longrightarrow> k < length all \<longrightarrow> chan_at (all ! k) w' = Some c \<longrightarrow> (t, k) \<in> set (mc_recv c) \<or> mc_closed c \<and> mc_q c = [])"
    proof (rule "2.IH"(2) [OF Some, folded v_def, OF _ _ _ split _ _ run])
      show "tk_frames v t = Some (InSelect all)" "t \<notin> set (tk_ready v)" using v "2.prems"(2,3) by (auto simp: grown_def)
      show "\<forall>h \<in> set hs. \<forall>c. chan_at h v = Some c \<longrightarrow> mc_q c = [] \<and> mc_send c = []" using chv "2.prems"(6) by fastforce
      show "\<forall>j d k. chan_at j v = Some d \<longrightarrow> i + 1 \<le> k \<longrightarrow> (t, k) \<notin> set (mc_recv d)"
        using chv "2.prems"(7) by fastforce
    qed (use v in auto)
    have "(t, i) \<in> set (mc_recv d) \<or> mc_closed d \<and> mc_q d = []" if d: "chan_at h w' = Some d" for d
    proof -
      obtain c' where c': "chan_at h v = Some c'" "mc_closed c' \<longrightarrow> mc_q c' = []" "mc_closed c' \<or> (t, i) \<in> set (mc_recv c')"
        using Some empty by (cases "mc_closed c") (auto simp: v_def tk_simps)
      have "set (mc_recv c') \<subseteq> set (mc_recv d) \<and> mc_q d = mc_q c' \<and> mc_closed d = mc_closed c'"
        using IH grownD [OF _ c'(1) d] by blast
      then show ?thesis using c'(2,3) by auto
    qed
    then have here: "(t, k) \<in> set (mc_recv d) \<or> mc_closed d \<and> mc_q d = []"
      if "i \<le> k" "k < length all" "chan_at (all ! k) w' = Some d" for k d
      using IH that i(2) by (cases "k = i") auto
    show ?thesis using IH v grown_trans here by blast
  next
    case None
    obtain want' where run: "register_cases null e t (i + 1) hs w = (want', w')"
      and want: "want = (if os_scan e h = None \<or> os_park e h < 0 then want' else map (Pair i) (filter (\<lambda>p. 0 \<le> fst p) (os_handles e h)) @ want')"
      using "2.prems"(8) None by (auto simp: Let_def split: prod.splits)
    have IH: "ok_but {t} w' \<and> grown w w' \<and> (\<forall>p \<in> set want'. fst p < length all)
      \<and> (\<forall>k c. i + 1 \<le> k \<longrightarrow> k < length all \<longrightarrow> chan_at (all ! k) w' = Some c \<longrightarrow> (t, k) \<in> set (mc_recv c) \<or> mc_closed c \<and> mc_q c = [])"
      by (rule "2.IH"(1) [OF None _ _ _ split _ _ run]) (use "2.prems" in auto)
    moreover have "chan_at h w' = None" using IH None by (auto simp: grown_def)
    then have "(t, k) \<in> set (mc_recv d) \<or> mc_closed d \<and> mc_q d = []"
      if "i \<le> k" "k < length all" "chan_at (all ! k) w' = Some d" for k d
      using IH that i(2) by (cases "k = i") auto
    ultimately show ?thesis using want i(1) by auto
  qed
qed


lemma register_ios_frame:
  "tk_current (register_ios t k want w) = tk_current w" "tk_ready (register_ios t k want w) = tk_ready w"
  "tk_frames (register_ios t k want w) = tk_frames w" "tk_groups (register_ios t k want w) = tk_groups w"
  "chan_at h (register_ios t k want w) = chan_at h w" "tk_cancel (register_ios t k want w) = tk_cancel w"
  by (induction t k want w rule: register_ios.induct) (simp_all add: tk_simps)

lemma register_ios_ok:
  assumes "ok_but {t} w" and "tk_frames w t = Some (InSelect all)" and "\<forall>p \<in> set want. fst p < length all"
    and "\<forall>j \<ge> k. (t, j) \<notin> set (tk_io_list w)"
    and "\<forall>j i. tk_ios w (t, j) = Some i \<longrightarrow> (t, j) \<in> set (tk_io_list w) \<and> \<not> iw_fired i"
  shows "ok_but {t} (register_ios t k want w)
    \<and> (\<forall>j i. tk_ios (register_ios t k want w) (t, j) = Some i \<longrightarrow> (t, j) \<in> set (tk_io_list (register_ios t k want w)) \<and> \<not> iw_fired i)"
  using assms
proof (induction t k want w rule: register_ios.induct)
  case (2 t k i p want w)
  let ?i = "\<lparr>iw_handle = p, iw_grouped = True, iw_index = i, iw_fired = False\<rparr>"
  let ?w = "io_register (t, k) ?i w"
  note D = ok_butD [OF "2.prems"(1)]
  have base: "frame_base ?w u f" if "tk_frames w u = Some f" for u f
    using D(6) [OF that] that "2.prems"(2) by (cases "u = t"; cases f) (auto simp: tk_simps)
  have live: "frame_live ?w u f" if "tk_frames w u = Some f" "u \<noteq> t" for u f
  proof -
    have "woken_for ?w u f = woken_for w u f" "waits_on ?w u f = waits_on w u f"
      using that(2) by (cases f; simp add: tk_simps)+
    then show ?thesis using D(7) [OF that(1)] that(2) by (simp add: frame_live_def tk_simps)
  qed
  have refs: "io_ref ?w r" if "r \<in> set (tk_io_list ?w)" for r
  proof (cases "r = (t, k)")
    case True
    then show ?thesis using "2.prems"(2,3) by (simp add: io_ref_def tk_simps)
  next
    case False
    then show ?thesis using that D(5) by (simp add: tk_simps refs_io)
  qed
  have gone: "tk_groups ?w u = None \<and> tk_waiters ?w (u, j) = None \<and> tk_ios ?w (u, j) = None" if "tk_frames w u = None" for u j
    using D(8) [OF that] that "2.prems"(2) by (auto simp: tk_simps)
  have w: "ok_but {t} ?w"
    by (rule ok_butI) (use D(1-4,9) "2.prems"(4) refs base live gone in \<open>simp_all add: tk_simps refs_io chan_ok_def\<close>)
  have "ok_but {t} (register_ios t (k + 1) want ?w)
    \<and> (\<forall>j i. tk_ios (register_ios t (k + 1) want ?w) (t, j) = Some i \<longrightarrow>
          (t, j) \<in> set (tk_io_list (register_ios t (k + 1) want ?w)) \<and> \<not> iw_fired i)"
    by (rule "2.IH" [OF w]) (use "2.prems" in \<open>auto simp: tk_simps\<close>)
  then show ?case by simp
qed simp

lemma register_enter:
  "register_cases null e t i hs (enter u f w) =
     (fst (register_cases null e t i hs w), enter u f (snd (register_cases null e t i hs w)))"
  by (induction null e t i hs w rule: register_cases.induct)
    (auto simp: tk_simps enter_commute [symmetric] split: option.split prod.split)

lemma register_ios_enter: "register_ios t k want (enter u f w) = enter u f (register_ios t k want w)"
  by (induction t k want w rule: register_ios.induct) (simp_all add: enter_commute [symmetric])

lemma select_pass_ok:
  assumes ok: "tasks_ok w" and t: "tk_current w = Some t" and hs: "\<And>h. h \<in> set hs \<Longrightarrow> tk_entries w h \<noteq> None"
  shows "tasks_ok (snd (select_pass null e t hs w))"
proof -
  obtain ro op w' where s: "select_scan null e t 0 hs False w = (ro, op, w')" by (cases "select_scan null e t 0 hs False w") auto
  note S = select_scan_ok [OF ok s]
  show ?thesis
  proof (cases "ro = None \<and> op")
    case False
    then show ?thesis using s S by (auto simp: select_pass_def split: option.split)
  next
    case True
    then have w': "w' = w" "\<forall>h \<in> set hs. \<forall>c. chan_at h w = Some c \<longrightarrow> mc_q c = [] \<and> mc_send c = []" using S by auto
    let ?g = "\<lparr>sg_fired = None, sg_woken = False\<rparr>" and ?f = "InSelect hs"
    let ?v = "set_group t ?g (enter t ?f w)"
    have none: "tk_frames w t = None" "t \<notin> set (tk_ready w)" using ok_butD(3) [OF ok t] by auto
    note U = running_unseen [OF ok none(1)]
    obtain want u where reg: "register_cases null e t 0 hs ?v = (want, u)" by fastforce
    have R: "ok_but {t} u \<and> grown ?v u \<and> (\<forall>p \<in> set want. fst p < length hs)
      \<and> (\<forall>k c. 0 \<le> k \<longrightarrow> k < length hs \<longrightarrow> chan_at (hs ! k) u = Some c \<longrightarrow> (t, k) \<in> set (mc_recv c) \<or> mc_closed c \<and> mc_q c = [])"
      by (rule register_cases_ok [where done_cases = "[]", OF enter_select_ok [OF ok t hs] _ _ _ _ _ _ reg])
        (use w'(2) none U in \<open>auto simp: tk_simps\<close>)
    have ios: "tk_ios w (t, k) = None" for k using ok_butD(8) [OF ok none(1)] by simp
    have F: "tk_frames u t = Some ?f" "tk_io_list u = tk_io_list w" "tk_ios u = tk_ios w" "tk_groups u t = Some ?g"
      "tk_ready u = tk_ready w" "tk_current u = None"
      using R by (auto simp: grown_def tk_simps)
    have I: "ok_but {t} (register_ios t 0 want u)
      \<and> (\<forall>j i. tk_ios (register_ios t 0 want u) (t, j) = Some i \<longrightarrow> (t, j) \<in> set (tk_io_list (register_ios t 0 want u)) \<and> \<not> iw_fired i)"
      by (rule register_ios_ok) (use R F U ios in auto)
    then have "tasks_ok (register_ios t 0 want u)"
      by (intro live_now) (use R F none in \<open>auto simp: frame_live_def register_ios_frame\<close>)
    moreover have "select_pass null e t hs w = (Parked, register_ios t 0 want u)"
    proof -
      have g: "set_group t ?g w = w\<lparr>tk_groups := (tk_groups w)(t := Some ?g)\<rparr>" by (simp add: set_group_def)
      have v: "?v = enter t ?f (set_group t ?g w)" by (simp add: enter_commute)
      obtain u' where u': "register_cases null e t 0 hs (set_group t ?g w) = (want, u')" "u = enter t ?f u'"
        using reg unfolding v register_enter by (cases "register_cases null e t 0 hs (set_group t ?g w)") auto
      then show ?thesis
        using s True w'(1) by (simp add: select_pass_def Let_def g [symmetric] park_in_enter register_ios_enter)
    qed
    ultimately show ?thesis by simp
  qed
qed

lemma chan_select_ok:
  assumes "tasks_ok w" and "tk_current w = Some t"
  shows "tasks_ok (snd (chan_select null e t cases w))"
proof -
  have "tasks_ok (snd (select_pass null e t hs w))" if "\<not> list_ex (\<lambda>h. tk_entries w h = None) hs" for hs
    using that by (intro select_pass_ok assms) (auto simp: list_ex_iff)
  then show ?thesis using assms(1) by (auto simp: chan_select_def split: option.split)
qed

section \<open>The return of a select\<close>

lemma drop_cases_frame:
  "tk_current (drop_cases t i hs w) = tk_current w" "tk_frames (drop_cases t i hs w) = tk_frames w"
  "tk_io_list (drop_cases t i hs w) = tk_io_list w" "tk_groups (drop_cases t i hs w) = tk_groups w"
  by (induction t i hs w rule: drop_cases.induct) (auto simp: tk_simps split: option.split)

lemma drop_cases_entries: "tk_entries (drop_cases t i hs w) h = None \<longleftrightarrow> tk_entries w h = None"
  by (induction t i hs w rule: drop_cases.induct) (auto simp: tk_simps dest: chan_at_entry split: option.split)

lemma drop_cases_ok:
  assumes "ok_but {t} w"
  shows "ok_but {t} (drop_cases t i hs w)"
  using assms
proof (induction t i hs w rule: drop_cases.induct)
  case (2 t i h hs w)
  show ?case
  proof (cases "chan_at h w")
    case (Some c)
    let ?c = "c\<lparr>mc_recv := filter (\<lambda>r. r \<noteq> (t, i)) (mc_recv c)\<rparr>"
    have "ok_but {t} (set_chan h ?c w)"
      using ok_butD(4) [OF "2.prems" Some]
      by (intro set_chan_ok [OF "2.prems" Some]) (auto simp: chan_ok_def chan_shape_def)
    then show ?thesis using "2.IH" Some by simp
  qed (use 2 in simp)
qed simp

lemma drop_cases_gone:
  "chan_at j (drop_cases t i hs w) = Some c \<Longrightarrow>
    \<exists>d. chan_at j w = Some d \<and> mc_send c = mc_send d
      \<and> set (mc_recv c) \<subseteq> {r \<in> set (mc_recv d). \<forall>k < length hs. hs ! k = j \<longrightarrow> r \<noteq> (t, i + k)}"
proof (induction t i hs w arbitrary: c rule: drop_cases.induct)
  case (2 t i h hs w)
  let ?v = "case chan_at h w of None \<Rightarrow> w | Some c \<Rightarrow> set_chan h (c\<lparr>mc_recv := filter (\<lambda>r. r \<noteq> (t, i)) (mc_recv c)\<rparr>) w"
  from "2.prems" obtain d where d: "chan_at j ?v = Some d" "mc_send c = mc_send d"
    "set (mc_recv c) \<subseteq> {r \<in> set (mc_recv d). \<forall>k < length hs. hs ! k = j \<longrightarrow> r \<noteq> (t, i + 1 + k)}"
    using "2.IH" by auto
  obtain g where g: "chan_at j w = Some g" "mc_send d = mc_send g" "set (mc_recv d) \<subseteq> set (mc_recv g)" "h = j \<longrightarrow> (t, i) \<notin> set (mc_recv d)"
    using d(1) by (cases "h = j") (auto simp: tk_simps split: option.splits if_splits)
  have "r \<noteq> (t, i + k)" if "r \<in> set (mc_recv c)" "k < length (h # hs)" "(h # hs) ! k = j" for r k
    using that d(3) g(4) by (cases k) auto
  then show ?case using d g by fastforce
qed auto

lemma leave_select_ok:
  assumes ok: "ok_but {t} w" and f: "tk_frames w t = Some (InSelect hs)"
  shows "tasks_ok (leave_select t hs w)"
proof -
  let ?v = "drop_cases t 0 hs w"
  let ?w = "set_io_list (filter (\<lambda>r. fst r \<noteq> t) (tk_io_list ?v)) ?v"
  have v: "ok_but {t} ?v" by (rule drop_cases_ok [OF ok])
  have "ok_but {t} ?w" using ok_butD(2) [OF v] by (intro set_io_list_ok [OF v]) auto
  then have "tasks_ok (unwind t ?w)"
  proof (rule unwind_ok)
    show "in_no_queue ?w (t, k)" for k
      unfolding in_no_queue_def tk_simps
    proof (intro allI impI)
      fix j c assume c: "chan_at j ?v = Some c"
      obtain d where d: "chan_at j w = Some d" "mc_send c = mc_send d"
        "set (mc_recv c) \<subseteq> {r \<in> set (mc_recv d). \<forall>k < length hs. hs ! k = j \<longrightarrow> r \<noteq> (t, 0 + k)}"
        using drop_cases_gone [OF c] by blast
      have "\<not> send_ref w j (t, k)" using f by (simp add: send_ref_def)
      moreover have "recv_ref w j (t, k) \<Longrightarrow> k < length hs \<and> hs ! k = j" using f by (auto simp: recv_ref_def split: if_splits)
      ultimately show "(t, k) \<notin> set (mc_recv c) \<and> (t, k) \<notin> set (mc_send c)"
        using d ok_butD(4) [OF ok d(1)] by (auto simp: chan_ok_def)
    qed
  qed (simp add: tk_simps)
  then show ?thesis by (simp add: leave_select_def Let_def set_io_list_def)
qed

lemma leave_select_frame:
  "tk_current (leave_select t hs w) = tk_current w" "tk_entries (leave_select t hs w) h = None \<longleftrightarrow> tk_entries w h = None"
  by (simp_all add: leave_select_def Let_def unwind_def drop_cases_frame drop_cases_entries)

lemma resume_select_ok:
  assumes ok: "ok_but {t} w" and t: "tk_current w = Some t" and f: "tk_frames w t = Some (InSelect hs)"
  shows "tasks_ok (snd (resume_select null e t hs w))"
proof -
  have l: "tasks_ok (leave_select t hs w)" by (rule leave_select_ok [OF ok f])
  have "tasks_ok (snd (select_pass null e t hs (leave_select t hs w)))"
    by (rule select_pass_ok [OF l]) (use t ok_butD(6) [OF ok f] in \<open>auto simp: leave_select_frame\<close>)
  then show ?thesis using l by (auto simp: resume_select_def Let_def split: option.split)
qed

end
