(* ===== verification/ChannelSystem.thy ===== *)
theory ChannelSystem
  imports ChannelSelect
begin

text \<open>
  The tasks as a transition system.  The running task calls a verb, gives up the CPU, spawns or
  cancels another task or ends; the scheduler gives the CPU to the head of the ready queue; the
  handles that have become readable wake their waiters.  Every state it reaches satisfies the
  invariant, and the properties are read off it.
\<close>

section \<open>Steps\<close>

datatype 'v verb = Send int 'v | Recv int | TryRecv int | Select "int list option" | Close int | Len int | Make int
  | Readable int | NewReadiness | Wait poll_handle

fun call :: "'v \<Rightarrow> outside \<Rightarrow> nat \<Rightarrow> 'v verb \<Rightarrow> 'v tasks \<Rightarrow> chan_result \<times> 'v tasks" where
  "call null e t (Send h v) w = chan_send t h v w" |
  "call null e t (Recv h) w = chan_recv null t h w" |
  "call null e t (TryRecv h) w = chan_try_recv null t h w" |
  "call null e t (Select cases) w = chan_select null e t cases w" |
  "call null e t (Close h) w = chan_close h w" |
  "call null e t (Len h) w = (chan_len h w, w)" |
  "call null e t (Make capacity) w = chan_make capacity w" |
  "call null e t (Readable p) w = chan_readable p w" |
  "call null e t NewReadiness w = add_readiness w" |
  "call null e t (Wait p) w = wait_readable e t p w"

text \<open>The second half of the verb a task is parked in; a task without a frame just runs.\<close>

definition resume :: "'v \<Rightarrow> outside \<Rightarrow> nat \<Rightarrow> 'v tasks \<Rightarrow> chan_result \<times> 'v tasks" where
  "resume null e t w =
     (case tk_frames w t of
        None \<Rightarrow> (Returned 0, w)
      | Some (InSend h) \<Rightarrow> resume_send t h w
      | Some (InRecv h) \<Rightarrow> resume_recv null t h w
      | Some (InSelect hs) \<Rightarrow> resume_select null e t hs w
      | Some (InWait p) \<Rightarrow> resume_wait t w)"

text \<open>\<open>task_switch\<close> to the head of the ready queue.\<close>

definition dispatch :: "'v \<Rightarrow> outside \<Rightarrow> 'v tasks \<Rightarrow> chan_result \<times> 'v tasks" where
  "dispatch null e w =
     (case tk_ready w of
        [] \<Rightarrow> (Returned 0, w)
      | t # ts \<Rightarrow> resume null e t (w\<lparr>tk_current := Some t, tk_ready := ts\<rparr>))"

text \<open>\<open>__madc_yield\<close>: what is due joins the queue first, and the only runner keeps going.\<close>

definition yield :: "outside \<Rightarrow> nat \<Rightarrow> 'v tasks \<Rightarrow> 'v tasks" where
  "yield e t w =
     (let w = snd (io_probe_and_fire (os_readable e) w)
      in if tk_ready w = [] then w else (task_enqueue t w)\<lparr>tk_current := None\<rparr>)"

definition tk_init :: "'v \<Rightarrow> 'v tasks" where
  "tk_init null =
     \<lparr>tk_current = Some 0, tk_ready = [], tk_cancel = {}, tk_frames = (\<lambda>_. None), tk_waiters = (\<lambda>_. None),
      tk_groups = (\<lambda>_. None), tk_ios = (\<lambda>_. None), tk_io_list = [], tk_entries = (\<lambda>_. None), tk_next = 1,
      tk_out = (\<lambda>_. null)\<rparr>"

definition is_live :: "nat \<Rightarrow> 'v tasks \<Rightarrow> bool" where
  "is_live u w \<longleftrightarrow> tk_current w = Some u \<or> u \<in> set (tk_ready w) \<or> tk_frames w u \<noteq> None"

datatype 'v action = Call "'v verb" | Dispatch | Yield | Spawn nat | Exit | Cancel nat | IoPass | Closing poll_handle

inductive tk_step :: "'v \<Rightarrow> outside \<Rightarrow> 'v action \<Rightarrow> 'v tasks \<Rightarrow> 'v tasks \<Rightarrow> bool" where
  call: "tk_current w = Some t \<Longrightarrow> tk_step null e (Call q) w (snd (call null e t q w))" |
  dispatch: "tk_current w = None \<Longrightarrow> tk_step null e Dispatch w (snd (dispatch null e w))" |
  yield: "tk_current w = Some t \<Longrightarrow> tk_step null e Yield w (yield e t w)" |
  spawn: "tk_current w = Some t \<Longrightarrow> \<not> is_live u w \<Longrightarrow> u \<notin> tk_cancel w \<Longrightarrow> tk_step null e (Spawn u) w (task_enqueue u w)" |
  exit: "tk_current w = Some t \<Longrightarrow> tk_step null e Exit w (w\<lparr>tk_current := None\<rparr>)" |
  cancel: "tk_current w = Some t \<Longrightarrow> is_live u w \<Longrightarrow> tk_step null e (Cancel u) w (cancel_request u w)" |
  io_pass: "tk_step null e IoPass w (snd (io_probe_and_fire (os_readable e) w))" |
  closing: "tk_current w = Some t \<Longrightarrow> tk_step null e (Closing p) w (handle_closing p w)"

inductive_cases tk_step_callE: "tk_step null e (Call q) w w'"
inductive_cases tk_step_dispatchE: "tk_step null e Dispatch w w'"
inductive_simps tk_step_exit_iff: "tk_step null e Exit w w'"

text \<open>A run, with the actions it took, the last one first.\<close>

inductive tk_run :: "'v \<Rightarrow> (outside \<times> 'v action) list \<Rightarrow> 'v tasks \<Rightarrow> bool" for null where
  start: "tk_run null [] (tk_init null)" |
  more: "tk_run null as w \<Longrightarrow> tk_step null e a w w' \<Longrightarrow> tk_run null ((e, a) # as) w'"

section \<open>Every step keeps the invariant\<close>

lemma tk_init_ok: "tasks_ok (tk_init null)"
  by (rule ok_butI) (auto simp: tk_init_def chan_at_def)

lemma call_ok:
  assumes "tasks_ok w" and "tk_current w = Some t"
  shows "tasks_ok (snd (call null e t q w))"
  using assms
  by (cases q)
    (simp_all add: chan_send_ok chan_recv_ok chan_try_recv_ok chan_select_ok chan_close_ok chan_make_ok
      add_readiness_ok wait_readable_ok chan_readable_def)

lemma running_exempt:
  assumes ok: "ok_but {t} w" and t: "tk_frames w t = None"
  shows "tasks_ok w"
proof -
  note D = ok_butD [OF ok]
  have "tk_frames w u = None" if "tk_current w = Some u" for u
    using D(3) [OF that] t by (cases "u = t") auto
  moreover have "frame_live w u f" if "tk_frames w u = Some f" for u f
    using D(7) [OF that] t that by (cases "u = t") auto
  ultimately show ?thesis
    by (intro ok_butI) (use D(1-6,8,9) in simp_all)
qed

lemma resume_ok:
  assumes "ok_but {t} w" and "tk_current w = Some t" and "\<And>f. tk_frames w t = Some f \<Longrightarrow> woken_for w t f"
  shows "tasks_ok (snd (resume null e t w))"
proof (cases "tk_frames w t")
  case None
  then have "tasks_ok w" by (rule running_exempt [OF assms(1)])
  then show ?thesis using None by (simp add: resume_def)
next
  case (Some f)
  then show ?thesis
    using resume_send_ok [OF assms(1)] resume_recv_ok [OF assms(1)] resume_wait_ok [OF assms(1)]
      resume_select_ok [OF assms(1,2)] assms(3)
    by (cases f) (simp_all add: resume_def)
qed

lemma dispatch_step_ok:
  assumes ok: "tasks_ok w"
  shows "tasks_ok (snd (dispatch null e w))"
proof (cases "tk_ready w")
  case (Cons t ts)
  have "tasks_ok (snd (resume null e t (w\<lparr>tk_current := Some t, tk_ready := ts\<rparr>)))"
    by (rule resume_ok [OF dispatch_ok(1) [OF ok Cons]]) (use dispatch_ok(2) [OF ok Cons] in auto)
  then show ?thesis using Cons by (simp add: dispatch_def)
qed (use ok in \<open>simp add: dispatch_def\<close>)

lemma set_current_ok: "tasks_ok w \<Longrightarrow> tasks_ok (w\<lparr>tk_current := None\<rparr>)"
proof -
  assume ok: "tasks_ok w"
  let ?w = "w\<lparr>tk_current := None\<rparr>"
  have ch: "chan_at h ?w = chan_at h w" for h by (simp add: chan_at_def)
  have refs: "recv_ref ?w = recv_ref w" "send_ref ?w = send_ref w" "io_ref ?w = io_ref w"
    by (simp_all add: fun_eq_iff recv_ref_def send_ref_def io_ref_def)
  have fb: "frame_base ?w u f = frame_base w u f" "woken_for ?w u f = woken_for w u f" "waits_on ?w u f = waits_on w u f" for u f
    by (cases f; simp add: ch)+
  show "tasks_ok ?w"
    by (rule ok_butI) (use ok_butD [OF ok] in \<open>simp_all add: ch refs fb chan_ok_def frame_live_def\<close>)
qed

lemma spawn_ok:
  assumes ok: "tasks_ok w" and u: "\<not> is_live u w"
  shows "tasks_ok (task_enqueue u w)"
  by (rule enqueue_ok [OF ok_but_mono [OF ok]]) (use u in \<open>auto simp: is_live_def\<close>)

lemma yield_ok:
  assumes ok: "tasks_ok w" and t: "tk_current w = Some t"
  shows "tasks_ok (yield e t w)"
proof -
  let ?v = "snd (io_probe_and_fire (os_readable e) w)"
  have v: "tasks_ok ?v" "tk_current ?v = Some t" using io_probe_and_fire_ok [OF ok] t by simp_all
  have "tasks_ok (?v\<lparr>tk_current := None\<rparr>)" by (rule set_current_ok [OF v(1)])
  then have "tasks_ok (task_enqueue t (?v\<lparr>tk_current := None\<rparr>))"
    using ok_butD(3) [OF v(1,2)] by (intro enqueue_ok [OF ok_but_mono]) auto
  moreover have "task_enqueue t (?v\<lparr>tk_current := None\<rparr>) = (task_enqueue t ?v)\<lparr>tk_current := None\<rparr>"
    by (simp add: task_enqueue_def)
  ultimately show ?thesis using v by (simp add: yield_def Let_def)
qed

lemma cancel_request_ok:
  assumes ok: "tasks_ok w" and t: "tk_current w = Some t"
  shows "tasks_ok (cancel_request u w)"
proof -
  let ?w = "w\<lparr>tk_cancel := insert u (tk_cancel w)\<rparr>"
  note D = ok_butD [OF ok]
  have ch: "chan_at h ?w = chan_at h w" for h by (simp add: chan_at_def)
  have refs: "recv_ref ?w = recv_ref w" "send_ref ?w = send_ref w" "io_ref ?w = io_ref w"
    by (simp_all add: fun_eq_iff recv_ref_def send_ref_def io_ref_def)
  have base: "frame_base ?w x f = frame_base w x f" for x f
    by (cases f; simp add: ch)
  have same: "woken_for ?w x f = woken_for w x f" "waits_on ?w x f = waits_on w x f" if "x \<noteq> u" for x f
    using that by (cases f; simp add: ch)+
  have live: "frame_live ?w x f = frame_live w x f" if "x \<noteq> u" for x f
    using same [OF that] by (simp add: frame_live_def)
  have w: "ok_but {u} ?w"
    by (rule ok_butI) (use D live in \<open>simp_all add: ch refs base chan_ok_def\<close>)
  have fired: "group_fired u w \<longrightarrow> group_woken u w" if "tk_frames w u = Some (InSelect hs)" for hs
    using D(7) [OF that] by (simp add: frame_live_def)
  show ?thesis
  proof (cases "t = u")
    case True
    then have "tk_frames w u = None" using D(3) [OF t] by simp
    then have "tasks_ok ?w" by (intro running_exempt [OF w]) simp
    then show ?thesis using t True by (simp add: cancel_request_def Let_def)
  next
    case False
    have "woken_for ?w u f" for f by (cases f) auto
    then have "tasks_ok (task_enqueue u ?w)"
      using w t False fired by (intro enqueue_ok) auto
    then show ?thesis using t False by (simp add: cancel_request_def Let_def)
  qed
qed

lemma tk_step_ok: "tk_step null e a w w' \<Longrightarrow> tasks_ok w \<Longrightarrow> tasks_ok w'"
  by (induction rule: tk_step.induct)
    (simp_all add: call_ok dispatch_step_ok yield_ok spawn_ok set_current_ok cancel_request_ok io_probe_and_fire_ok handle_closing_ok)

lemma tk_run_ok: "tk_run null as w \<Longrightarrow> tasks_ok w"
  by (induction rule: tk_run.induct) (auto intro: tk_init_ok tk_step_ok)


section \<open>Handles that have become readable\<close>

definition handle_settled :: "(poll_handle \<Rightarrow> bool) \<Rightarrow> 'v tasks \<Rightarrow> waiter_ref \<Rightarrow> bool" where
  "handle_settled readable w r \<longleftrightarrow> (let i = the (tk_ios w r)
     in iw_fired i \<or> \<not> readable (iw_handle i) \<or> iw_grouped i \<and> group_fired (fst r) w)"

lemma select_fire_groups:
  "tk_groups w u \<noteq> None \<Longrightarrow> group_fired t w \<Longrightarrow> group_fired t (snd (select_fire grouped i u w))"
  by (auto simp: select_fire_def Let_def set_woken_def tk_simps)

lemma io_fire_waiter_settled:
  assumes ok: "tasks_ok w" and r: "r \<in> set (tk_io_list w)"
  shows "handle_settled readable w q \<Longrightarrow> handle_settled readable (snd (io_fire_waiter r w)) q"
    and "handle_settled readable (snd (io_fire_waiter r w)) r"
proof -
  have ref: "io_ref w r" using ok_butD(5) [OF ok r] .
  then obtain i f where i: "tk_ios w r = Some i" and f: "tk_frames w (fst r) = Some f" using io_ref_frame [OF ref] by (auto simp: io_ref_def)
  have g: "iw_grouped i \<Longrightarrow> tk_groups w (fst r) \<noteq> None"
    using ref i f ok_butD(6) [OF ok f] by (auto simp: io_ref_def)
  let ?w = "snd (select_fire (iw_grouped i) (iw_index i) (fst r) (set_io_fired r w))"
  have eq: "snd (io_fire_waiter r w) = (if iw_fired i \<or> (iw_grouped i \<and> group_fired (fst r) w) then w else ?w)"
    using i by (cases "iw_fired i \<or> (iw_grouped i \<and> group_fired (fst r) w)") (auto simp: io_fire_waiter_def)
  have groups: "group_fired t w \<Longrightarrow> group_fired t ?w" for t
    using g select_fire_groups [of "set_io_fired r w" "fst r" t True] by (cases "iw_grouped i") (auto simp: tk_simps select_fire_plain)
  show "handle_settled readable w q \<Longrightarrow> handle_settled readable (snd (io_fire_waiter r w)) q"
    using i groups by (auto simp: eq handle_settled_def Let_def select_fire_frame tk_simps)
  show "handle_settled readable (snd (io_fire_waiter r w)) r"
    using i by (auto simp: eq handle_settled_def Let_def select_fire_frame tk_simps)
qed

lemma io_probe_from_settled:
  "tasks_ok w \<Longrightarrow> set rs \<subseteq> set (tk_io_list w) \<Longrightarrow>
    (\<forall>r \<in> set rs. handle_settled readable (snd (io_probe_from readable rs w)) r)
    \<and> (\<forall>q. handle_settled readable w q \<longrightarrow> handle_settled readable (snd (io_probe_from readable rs w)) q)
    \<and> tk_io_list (snd (io_probe_from readable rs w)) = tk_io_list w"
proof (induction readable rs w rule: io_probe_from.induct)
  case (2 readable r rs w)
  note F = io_fire_waiter_ok [OF "2.prems"(1), of r] and S = io_fire_waiter_settled [OF "2.prems"(1), of r readable]
  have r: "r \<in> set (tk_io_list w)" using "2.prems"(2) by simp
  show ?case
  proof (cases "\<not> iw_fired (the (tk_ios w r)) \<and> readable (iw_handle (the (tk_ios w r)))")
    case True
    obtain woke v where v: "io_fire_waiter r w = (woke, v)" by fastforce
    have v_ok: "tasks_ok v" "set rs \<subseteq> set (tk_io_list v)" "handle_settled readable v r" "tk_io_list v = tk_io_list w"
      "\<And>q. handle_settled readable w q \<Longrightarrow> handle_settled readable v q"
      using F [OF r] S [OF r] v "2.prems"(2) by auto
    note IH = "2.IH"(1) [OF True v [symmetric] refl v_ok(1,2)]
    have e: "snd (io_probe_from readable (r # rs) w) = snd (io_probe_from readable rs v)"
      using True v by (simp split: prod.splits)
    show ?thesis unfolding e using IH v_ok by (auto simp del: split_paired_All)
  next
    case False
    then have "handle_settled readable w r" by (auto simp: handle_settled_def Let_def)
    then show ?thesis using "2.IH"(2) [OF False "2.prems"(1)] "2.prems"(2) False by (auto simp del: split_paired_All)
  qed
qed simp

section \<open>Properties\<close>

text \<open>A world in which no handle is readable and no source answers.\<close>

definition quiet_outside :: outside where
  "quiet_outside = \<lparr>os_readable = (\<lambda>_. False), os_scan = (\<lambda>_. None), os_park = (\<lambda>_. 0), os_handles = (\<lambda>_. [])\<rparr>"

text \<open>A channel of capacity one with one value in it, and a second sender parked on it.\<close>

definition one_parked :: "nat tasks" where
  "one_parked = snd (call 0 quiet_outside 0 (Send 1 6) (snd (call 0 quiet_outside 0 (Send 1 5) (snd (call 0 quiet_outside 0 (Make 1) (tk_init 0))))))"

lemma call_run: "\<exists>as. tk_run null as w \<Longrightarrow> tk_current w = Some t \<Longrightarrow> \<exists>as. tk_run null as (snd (call null e t q w))"
  by (elim exE, rule exI, rule tk_run.more [OF _ tk_step.call])

lemma start_run: "\<exists>as. tk_run null as (tk_init null)"
  by (rule exI, rule tk_run.start)

lemma one_parked_run: "\<exists>as. tk_run 0 as one_parked"
  unfolding one_parked_def
  by (intro call_run start_run) code_simp+

text \<open>
  C26: no queue holds a dangling address.  Whatever the tasks did, every address in the queue of a
  channel or in the registry of handles is the record of a task that is parked in the very verb
  the queue belongs to, and no address is there twice.
\<close>

theorem waiter_addresses_live:
  assumes "tk_run null as w" and "chan_at h w = Some c"
  shows "distinct (mc_recv c) \<and> distinct (mc_send c) \<and> distinct (tk_io_list w)
    \<and> (\<forall>r \<in> set (mc_recv c). tk_waiters w r \<noteq> None
         \<and> (tk_frames w (fst r) = Some (InRecv h) \<or> (\<exists>hs. tk_frames w (fst r) = Some (InSelect hs) \<and> hs ! snd r = h)))
    \<and> (\<forall>r \<in> set (mc_send c). tk_waiters w r \<noteq> None \<and> tk_frames w (fst r) = Some (InSend h))
    \<and> (\<forall>r \<in> set (tk_io_list w). tk_ios w r \<noteq> None \<and> tk_frames w (fst r) \<noteq> None)"
proof -
  note ok = tk_run_ok [OF assms(1)]
  have c: "chan_ok w h c" by (rule ok_butD(4) [OF ok assms(2)])
  have "tk_ios w r \<noteq> None \<and> tk_frames w (fst r) \<noteq> None" if "r \<in> set (tk_io_list w)" for r
    using ok_butD(5) [OF ok that] by (auto simp: io_ref_def split: if_splits)
  moreover have "tk_waiters w r \<noteq> None
      \<and> (tk_frames w (fst r) = Some (InRecv h) \<or> (\<exists>hs. tk_frames w (fst r) = Some (InSelect hs) \<and> hs ! snd r = h))"
    if "r \<in> set (mc_recv c)" for r
    using c that by (auto simp: chan_ok_def recv_ref_def split: if_splits)
  moreover have "tk_waiters w r \<noteq> None \<and> tk_frames w (fst r) = Some (InSend h)" if "r \<in> set (mc_send c)" for r
    using c that by (auto simp: chan_ok_def send_ref_def)
  ultimately show ?thesis using c ok_butD(2) [OF ok] by (simp add: chan_ok_def chan_shape_def)
qed

theorem waiter_addresses_live_witness:
  "tk_waiters one_parked (0, 0) \<noteq> None \<and> tk_frames one_parked 0 = Some (InSend 1)"
proof -
  obtain as where run: "tk_run 0 as one_parked" using one_parked_run by blast
  have c: "chan_at 1 one_parked = Some \<lparr>mc_q = [5], mc_cap = 1, mc_closed = False, mc_recv = [], mc_send = [(0, 0)]\<rparr>"
    by code_simp
  show ?thesis using waiter_addresses_live [OF run c] by simp
qed

text \<open>
  C27: the type of a channel.  In every reachable state a channel buffers no more values than its
  capacity, a receiver waits only at a channel that is empty and has no waiting sender, a sender
  only at a full one, and no one at a closed one.
\<close>

theorem channel_well_formed:
  assumes "tk_run null as w" and "chan_at h w = Some c"
  shows "int (length (mc_q c)) \<le> mc_cap c
    \<and> (mc_recv c = [] \<or> mc_q c = [] \<and> mc_send c = [])
    \<and> (mc_send c = [] \<or> int (length (mc_q c)) = mc_cap c)
    \<and> (mc_closed c = False \<or> mc_recv c = [] \<and> mc_send c = [])"
  using ok_butD(4) [OF tk_run_ok [OF assms(1)] assms(2)] by (auto simp: chan_ok_def chan_shape_def)

theorem channel_well_formed_witness:
  "\<exists>c. chan_at 1 one_parked = Some c \<and> mc_send c \<noteq> [] \<and> int (length (mc_q c)) = mc_cap c"
proof -
  obtain as where run: "tk_run 0 as one_parked" using one_parked_run by blast
  have c: "chan_at 1 one_parked = Some \<lparr>mc_q = [5], mc_cap = 1, mc_closed = False, mc_recv = [], mc_send = [(0, 0)]\<rparr>"
    by code_simp
  show ?thesis using channel_well_formed [OF run c] c by simp
qed

text \<open>
  The pass over the registry wakes everyone it can.  After it, no handle that is readable
  has a waiter whose task is still parked and not ready.
\<close>

theorem io_pass_wakes:
  assumes "tk_run null as w" and "v = snd (io_probe_and_fire readable w)"
    and "r \<in> set (tk_io_list v)" and "fst r \<notin> set (tk_ready v)"
  shows "\<not> readable (iw_handle (the (tk_ios v r)))"
proof -
  note ok = tk_run_ok [OF assms(1)]
  have v: "tasks_ok v" using io_probe_and_fire_ok [OF ok] assms(2) by simp
  have s: "handle_settled readable v r"
    using io_probe_from_settled [OF ok order_refl, of readable] assms(2,3) by (auto simp: io_probe_and_fire_def)
  have ref: "io_ref v r" using ok_butD(5) [OF v assms(3)] .
  then obtain i where i: "tk_ios v r = Some i" by (auto simp: io_ref_def)
  show ?thesis
  proof (cases "iw_grouped i")
    case True
    then obtain hs where hs: "tk_frames v (fst r) = Some (InSelect hs)" using ref i by (auto simp: io_ref_def)
    have "waits_on v (fst r) (InSelect hs)" using ok_butD(7) [OF v hs] assms(4) by (simp add: frame_live_def)
    then have "\<not> iw_fired i" using i by (cases r) auto
    moreover have "\<not> group_fired (fst r) v" using woken_ready [OF v hs] assms(4) by blast
    ultimately show ?thesis using s i by (auto simp: handle_settled_def)
  next
    case False
    then have f: "tk_frames v (fst r) = Some (InWait (iw_handle i))" "snd r = 0" using ref i by (auto simp: io_ref_def)
    have "waits_on v (fst r) (InWait (iw_handle i))" using ok_butD(7) [OF v f(1)] assms(4) by (simp add: frame_live_def)
    then have "\<not> iw_fired i" using i f(2) by (cases r) auto
    then show ?thesis using s i False by (auto simp: handle_settled_def)
  qed
qed

theorem io_pass_wakes_witness:
  "\<not> os_readable quiet_outside (iw_handle (the (tk_ios (snd (io_probe_and_fire (\<lambda>_. False)
      (snd (call (0::nat) quiet_outside 0 (Wait (3, 0)) (tk_init 0))))) (0, 0))))"
proof -
  let ?w = "snd (call (0::nat) quiet_outside 0 (Wait (3, 0)) (tk_init 0))"
  have "tk_current (tk_init (0::nat)) = Some 0" by code_simp
  then obtain as where run: "tk_run 0 as ?w" using call_run [OF start_run, of 0 0 quiet_outside "Wait (3, 0)"] by auto
  have "(0, 0) \<in> set (tk_io_list (snd (io_probe_and_fire (\<lambda>_. False) ?w)))"
    "fst (0::nat, 0::nat) \<notin> set (tk_ready (snd (io_probe_and_fire (\<lambda>_. False) ?w)))" by code_simp+
  from io_pass_wakes [OF run refl this] show ?thesis by (simp add: quiet_outside_def)
qed

end
