(* ===== verification/ChannelWatch.thy ===== *)
theory ChannelWatch
  imports ChannelSystem
begin

text \<open>
  What a parked task waits for.  A run is followed together with what the world answered in the
  last step of one task, so that the handles its select asked for when it parked can be compared
  with the records it is registered with, and with whether it was cancelled by then.
\<close>

section \<open>The records of a task\<close>

text \<open>What the record of a handle says, but for whether it has fired.\<close>

definition watched :: "'v tasks \<Rightarrow> nat \<Rightarrow> nat \<Rightarrow> (poll_handle \<times> bool \<times> nat) option" where
  "watched w t k = map_option (\<lambda>i. (iw_handle i, iw_grouped i, iw_index i)) (tk_ios w (t, k))"

text \<open>The handles a source of readiness waits for, as it answers at the registration.\<close>

definition awaits :: "outside \<Rightarrow> int \<Rightarrow> poll_handle \<Rightarrow> bool" where
  "awaits e h p \<longleftrightarrow> os_scan e h \<noteq> None \<and> 0 \<le> os_park e h \<and> p \<in> set (os_handles e h) \<and> 0 \<le> fst p"

text \<open>A step that leaves task \<open>t\<close> where it is parked.\<close>

definition keeps_watch :: "nat \<Rightarrow> 'v tasks \<Rightarrow> 'v tasks \<Rightarrow> bool" where
  "keeps_watch t w w' \<longleftrightarrow> watched w' t = watched w t \<and> tk_frames w' t = tk_frames w t
     \<and> (\<forall>h. chan_at h w' = None \<longrightarrow> chan_at h w = None)
     \<and> (t \<in> set (tk_ready w) \<longrightarrow> t \<in> set (tk_ready w'))
     \<and> (t \<in> tk_cancel w' \<longrightarrow> t \<in> tk_cancel w \<or> t \<in> set (tk_ready w'))"

lemma keeps_watch_refl [simp]: "keeps_watch t w w"
  by (simp add: keeps_watch_def)

lemma keeps_watch_trans: "keeps_watch t w v \<Longrightarrow> keeps_watch t v u \<Longrightarrow> keeps_watch t w u"
  by (auto simp: keeps_watch_def)

lemma keeps_watch_fields:
  "tk_ios w' = tk_ios w \<Longrightarrow> tk_frames w' = tk_frames w \<Longrightarrow> tk_entries w' = tk_entries w \<Longrightarrow> tk_cancel w' = tk_cancel w \<Longrightarrow>
     (t \<in> set (tk_ready w) \<Longrightarrow> t \<in> set (tk_ready w')) \<Longrightarrow> keeps_watch t w w'"
  by (simp add: keeps_watch_def watched_def fun_eq_iff chan_at_def)

lemma keeps_watch_steps:
  "keeps_watch t w (task_enqueue u w)" "keeps_watch t w (set_out u v w)" "keeps_watch t w (set_woken u w)"
  "keeps_watch t w (set_ok r w)" "keeps_watch t w (set_woken_closed r w)" "keeps_watch t w (set_waiter r m w)"
  "keeps_watch t w (snd (select_fire grouped i u w))" "keeps_watch t w (set_io_list rs w)"
  by (rule keeps_watch_fields; simp add: tk_simps set_ok_def set_woken_closed_def set_woken_def set_out_def set_waiter_def
      task_enqueue_def select_fire_def set_io_list_def Let_def)+

lemma keeps_watch_set_chan: "keeps_watch t w (set_chan h c w)"
  by (simp add: keeps_watch_def watched_def fun_eq_iff tk_simps)

lemma keeps_watch_fired: "keeps_watch t w (set_io_fired r w)"
proof -
  have "watched (set_io_fired r w) t k = watched w t k" for k
    by (cases "tk_ios w (t, k)") (auto simp: watched_def tk_simps)
  then show ?thesis by (simp add: keeps_watch_def fun_eq_iff tk_simps)
qed

lemma keeps_watch_enter: "u \<noteq> t \<Longrightarrow> keeps_watch t w (enter u f w)"
  by (simp add: keeps_watch_def watched_def fun_eq_iff tk_simps)

lemma keeps_watch_unwind: "u \<noteq> t \<Longrightarrow> keeps_watch t w (unwind u w)"
  by (simp add: keeps_watch_def watched_def fun_eq_iff tk_simps)

lemma keeps_watch_register: "u \<noteq> t \<Longrightarrow> keeps_watch t w (io_register (u, k) i w)"
  by (simp add: keeps_watch_def watched_def fun_eq_iff tk_simps)


lemmas keeps_watch_intros = keeps_watch_steps keeps_watch_set_chan keeps_watch_fired keeps_watch_enter keeps_watch_unwind keeps_watch_register

section \<open>Verbs of other tasks\<close>

lemma keeps_watch_poll: "keeps_watch t w (snd (chan_poll_recv u h c w))"
proof -
  have "keeps_watch t w (task_enqueue (fst r) (set_ok r (set_chan h d (set_out u v w))))" "keeps_watch t w (set_chan h d (set_out u v w))" for r d v
    by (meson keeps_watch_trans keeps_watch_intros)+
  then show ?thesis by (simp add: chan_poll_recv_def split: list.split)
qed

lemma keeps_watch_send: "u \<noteq> t \<Longrightarrow> keeps_watch t w (snd (chan_send u h v w))"
proof -
  assume u: "u \<noteq> t"
  have "keeps_watch t w (snd (select_fire g i x (set_ok r (set_out y v (set_chan h c w)))))"
    "keeps_watch t w (enter u f (set_waiter r m (set_chan h c w)))" for g i x r y c f m
    using u by (meson keeps_watch_trans keeps_watch_intros)+
  then show ?thesis
    by (auto simp: chan_send_def park_in_enter keeps_watch_set_chan split: option.split prod.split)
qed

lemma keeps_watch_recv: "u \<noteq> t \<Longrightarrow> keeps_watch t w (snd (chan_recv null u h w))"
proof -
  assume u: "u \<noteq> t"
  have k: "keeps_watch t w (set_out y v x)" "keeps_watch t w (enter u f (set_waiter r m (set_chan h c x)))" if "keeps_watch t w x" for y v x f r m c
    using that u by (meson keeps_watch_trans keeps_watch_intros)+
  have "keeps_watch t w x" if "chan_poll_recv u h c w = (q, x)" for c q x
    using keeps_watch_poll [of t w u h c] that by simp
  then show ?thesis using k
    by (fastforce simp: chan_recv_def park_in_enter split: option.split prod.split)
qed

lemma keeps_watch_try_recv: "keeps_watch t w (snd (chan_try_recv null u h w))"
proof -
  have "keeps_watch t w x" "keeps_watch t w (set_out y v x)" if "chan_poll_recv u h c w = (q, x)" for c q x y v
    using keeps_watch_poll [of t w u h c] that keeps_watch_trans [OF _ keeps_watch_steps(2)] by auto
  then show ?thesis by (auto simp: chan_try_recv_def split: option.split prod.split)
qed

lemma keeps_watch_wake: "keeps_watch t w (wake_recv_waiter r w)"
proof -
  have "keeps_watch t w (task_enqueue x (set_woken y w))" for x y by (meson keeps_watch_trans keeps_watch_intros)
  then show ?thesis by (simp add: wake_recv_waiter_def keeps_watch_steps)
qed

lemma keeps_watch_wake_receivers: "keeps_watch t w (wake_receivers rs w)"
proof (induction rs w rule: wake_receivers.induct)
  case (1 rs w)
  obtain ro rs' where pop: "pop_recv_waiter w rs = (ro, rs')" by fastforce
  show ?case
  proof (cases ro)
    case (Some r)
    from keeps_watch_trans [OF keeps_watch_trans [OF keeps_watch_steps(5) keeps_watch_wake] "1.IH" [OF pop [symmetric] Some]]
    show ?thesis using Some by (subst wake_receivers.simps) (simp add: pop)
  qed (subst wake_receivers.simps, simp add: pop)
qed

lemma keeps_watch_wake_senders: "keeps_watch t w (wake_senders rs w)"
proof (induction rs arbitrary: w)
  case (Cons r rs)
  from keeps_watch_trans [OF keeps_watch_trans [OF keeps_watch_steps(5) keeps_watch_steps(1)] Cons] show ?case by simp
qed simp

lemma keeps_watch_close: "keeps_watch t w (snd (chan_close h w))"
proof -
  have "keeps_watch t w (wake_senders ss (wake_receivers rs (set_chan h c w)))" for ss rs c
    by (meson keeps_watch_trans keeps_watch_set_chan keeps_watch_wake_receivers keeps_watch_wake_senders)
  then show ?thesis by (simp add: chan_close_def split: option.split)
qed

lemma keeps_watch_entry:
  "tk_entries w h = None \<Longrightarrow> keeps_watch t w (w\<lparr>tk_entries := (tk_entries w)(h := Some x), tk_next := n\<rparr>)"
  by (auto simp: keeps_watch_def watched_def fun_eq_iff chan_at_def)

lemma keeps_watch_wait: "u \<noteq> t \<Longrightarrow> keeps_watch t w (snd (wait_readable e u p w))"
proof -
  assume u: "u \<noteq> t"
  have "keeps_watch t w (enter u f (io_register (u, k) i w))" for f k i
    using u by (meson keeps_watch_trans keeps_watch_intros)
  then show ?thesis by (simp add: wait_readable_def park_in_enter)
qed

lemma keeps_watch_scan: "keeps_watch t w (snd (snd (select_scan null e u i hs any_open w)))"
proof (induction null e u i hs any_open w rule: select_scan.induct)
  case (2 null e u i h hs any_open w)
  show ?case
  proof (cases "chan_at h w")
    case None
    then show ?thesis using "2.IH"(1) [OF None refl] by (auto simp: Let_def keeps_watch_steps)
  next
    case (Some c)
    obtain q x where p: "chan_poll_recv u h c w = (q, x)" by fastforce
    have x: "keeps_watch t w x" using keeps_watch_poll [of t w u h c] p by simp
    show ?thesis using "2.IH"(2) [OF Some refl p [symmetric]] keeps_watch_trans [OF x] x Some p by auto
  qed
qed simp

lemma keeps_watch_cases: "keeps_watch t w (snd (register_cases null e u i hs w))"
proof (induction null e u i hs w rule: register_cases.induct)
  case (2 null e u i h hs w)
  show ?case
  proof (cases "chan_at h w")
    case None
    then show ?thesis using "2.IH"(1) [OF None] by (cases "register_cases null e u (Suc i) hs w") simp
  next
    case (Some c)
    have "keeps_watch t w (set_waiter r m (set_chan h d w))" for r m d by (meson keeps_watch_trans keeps_watch_intros)
    from keeps_watch_trans [OF this] show ?thesis using "2.IH"(2) [OF Some] Some by auto
  qed
qed simp

lemma keeps_watch_ios: "u \<noteq> t \<Longrightarrow> keeps_watch t w (register_ios u k want w)"
proof (induction u k want w rule: register_ios.induct)
  case (2 u k i p want w)
  show ?case using keeps_watch_trans [OF keeps_watch_register [OF "2.prems"] "2.IH" [OF "2.prems"]] by simp
qed simp

lemma keeps_watch_select_pass: "u \<noteq> t \<Longrightarrow> keeps_watch t w (snd (select_pass null e u hs w))"
proof -
  assume u: "u \<noteq> t"
  obtain ro op x where s: "select_scan null e u 0 hs False w = (ro, op, x)" by (cases "select_scan null e u 0 hs False w") auto
  have x: "keeps_watch t w x" using keeps_watch_scan [of t w null e u 0 hs False] s by simp
  let ?g = "x\<lparr>tk_groups := (tk_groups x)(u := Some \<lparr>sg_fired = None, sg_woken = False\<rparr>)\<rparr>"
  have g: "keeps_watch t x ?g" by (rule keeps_watch_fields) simp_all
  obtain want y where y: "register_cases null e u 0 hs ?g = (want, y)" by fastforce
  have "keeps_watch t ?g y" using keeps_watch_cases [of t ?g null e u 0 hs] y by simp
  then have "keeps_watch t w (enter u (InSelect hs) (register_ios u 0 want y))"
    using x g u by (meson keeps_watch_trans keeps_watch_ios keeps_watch_enter)
  then show ?thesis using s y x keeps_watch_trans [OF x keeps_watch_steps(2)]
    by (auto simp: select_pass_def Let_def park_in_enter split: option.split)
qed


lemma keeps_watch_drop: "keeps_watch t w (drop_cases u i hs w)"
proof (induction u i hs w rule: drop_cases.induct)
  case (2 u i h hs w)
  then show ?case by (auto intro: keeps_watch_trans [OF keeps_watch_set_chan] split: option.split)
qed simp

lemma keeps_watch_leave: "u \<noteq> t \<Longrightarrow> keeps_watch t w (leave_select u hs w)"
proof -
  assume u: "u \<noteq> t"
  let ?v = "drop_cases u 0 hs w"
  have "keeps_watch t ?v (?v\<lparr>tk_io_list := filter (\<lambda>r. fst r \<noteq> u) (tk_io_list ?v)\<rparr>)" by (rule keeps_watch_fields) simp_all
  then show ?thesis using u by (simp add: leave_select_def Let_def) (meson keeps_watch_trans keeps_watch_drop keeps_watch_unwind)
qed

lemma keeps_watch_call:
  assumes ok: "tasks_ok w" and u: "u \<noteq> t"
  shows "keeps_watch t w (snd (call null e u q w))"
proof (cases q)
  case (Select cases)
  then show ?thesis by (cases cases) (simp_all add: chan_select_def keeps_watch_select_pass [OF u])
next
  case (Make n)
  then show ?thesis using keeps_watch_entry [OF ok_butD(9) [OF ok order_refl]] by (simp add: chan_make_def set_chan_def)
qed (use keeps_watch_entry [OF ok_butD(9) [OF ok order_refl]] u in
    \<open>simp_all add: keeps_watch_send keeps_watch_recv keeps_watch_try_recv keeps_watch_close keeps_watch_wait chan_readable_def add_readiness_def\<close>)

lemma keeps_watch_resume:
  assumes u: "u \<noteq> t"
  shows "keeps_watch t w (snd (resume null e u w))"
proof -
  have unwinds: "keeps_watch t w (unwind u w)" "keeps_watch t w (set_out u v (unwind u w))" for v
    using u by (meson keeps_watch_trans keeps_watch_intros)+
  have dropped: "keeps_watch t w (unwind u x)" if "keeps_watch t w x" for x
    using that u by (meson keeps_watch_trans keeps_watch_unwind)
  have d: "keeps_watch t w (drop_sender h r w)" "keeps_watch t w (drop_receiver h r w)" for h r
    by (simp_all add: drop_sender_def drop_receiver_def keeps_watch_set_chan split: option.split)
  have i: "keeps_watch t w (io_unregister r w)" for r by (rule keeps_watch_fields) (simp_all add: io_unregister_def)
  have s: "keeps_watch t w (set_out u v (leave_select u hs w))" "keeps_watch t w (snd (select_pass null e u hs (leave_select u hs w)))"
    "keeps_watch t w (leave_select u hs w)" for v hs
    using u by (meson keeps_watch_trans keeps_watch_leave keeps_watch_select_pass keeps_watch_steps)+
  show ?thesis
    using unwinds dropped d i s
    by (auto simp: resume_def resume_send_def resume_recv_def resume_select_def resume_wait_def Let_def split: option.split wait_frame.split)
qed

lemma keeps_watch_dispatch:
  assumes "tk_ready w \<noteq> [] \<Longrightarrow> hd (tk_ready w) \<noteq> t"
  shows "keeps_watch t w (snd (dispatch null e w))"
proof (cases "tk_ready w")
  case (Cons u ts)
  have "keeps_watch t w (w\<lparr>tk_current := Some u, tk_ready := ts\<rparr>)" by (rule keeps_watch_fields) (use Cons assms in auto)
  then show ?thesis using keeps_watch_trans keeps_watch_resume assms Cons by (fastforce simp: dispatch_def)
qed (simp add: dispatch_def)

section \<open>The scheduler and the world\<close>

lemma keeps_watch_io_fire: "keeps_watch t w (snd (io_fire_waiter r w))"
  by (simp add: io_fire_waiter_def Let_def keeps_watch_trans [OF keeps_watch_fired keeps_watch_steps(7)])

lemma keeps_watch_probe: "keeps_watch t w (snd (io_probe_from readable rs w))"
proof (induction readable rs w rule: io_probe_from.induct)
  case (2 readable r rs w)
  obtain woke v where v: "io_fire_waiter r w = (woke, v)" by fastforce
  show ?case
  proof (cases "\<not> iw_fired (the (tk_ios w r)) \<and> readable (iw_handle (the (tk_ios w r)))")
    case True
    have "keeps_watch t v (snd (io_probe_from readable rs v))" by (rule "2.IH"(1) [OF True v [symmetric] refl])
    then have "keeps_watch t w (snd (io_probe_from readable rs v))" using keeps_watch_io_fire [of t w r] v keeps_watch_trans by fastforce
    then show ?thesis using True v by (auto split: prod.splits)
  qed (use 2 in auto)
qed simp

lemma keeps_watch_closing: "keeps_watch t w (handle_closing p w)"
proof -
  have "keeps_watch t w (task_enqueue x (set_woken y (set_io_fired r w)))" "keeps_watch t w (task_enqueue x (set_io_fired r w))" for x y r and w :: "'a tasks"
    by (meson keeps_watch_trans keeps_watch_intros)+
  then have "keeps_watch t w (close_waiter p r w)" for r and w :: "'a tasks"
    by (auto simp: close_waiter_def Let_def keeps_watch_fired)
  then have "keeps_watch t w (fold (close_waiter p) rs w)" for rs
  proof (induction rs arbitrary: w)
    case (Cons r rs)
    show ?case using keeps_watch_trans [OF Cons.prems Cons.IH] Cons.prems by simp
  qed simp
  then show ?thesis by (simp add: handle_closing_def)
qed

lemma keeps_watch_yield: "keeps_watch t w (yield e u w)"
proof -
  let ?v = "snd (io_probe_and_fire (os_readable e) w)"
  have "keeps_watch t ?v ((task_enqueue u ?v)\<lparr>tk_current := None\<rparr>)"
    by (rule keeps_watch_fields) (simp_all add: task_enqueue_def)
  then show ?thesis
    using keeps_watch_probe [of t w "os_readable e" "tk_io_list w"] keeps_watch_trans
    by (fastforce simp: yield_def Let_def io_probe_and_fire_def)
qed

lemma keeps_watch_cancel: "tk_current w \<noteq> Some t \<Longrightarrow> keeps_watch t w (cancel_request u w)"
  by (auto simp: keeps_watch_def watched_def fun_eq_iff cancel_request_def task_enqueue_def Let_def chan_at_def)

section \<open>Runs seen from one task\<close>

text \<open>
  A run to the state \<open>w\<close>; in the last step of task \<open>t\<close> the world answered \<open>e\<close>, and \<open>c\<close> says whether
  the task was cancelled before that step.
\<close>

definition runs_now :: "nat \<Rightarrow> 'v action \<Rightarrow> 'v tasks \<Rightarrow> bool" where
  "runs_now t a w \<longleftrightarrow> tk_current w = Some t \<or> a = Dispatch \<and> tk_ready w \<noteq> [] \<and> hd (tk_ready w) = t"

inductive task_run :: "'v \<Rightarrow> nat \<Rightarrow> outside \<Rightarrow> bool \<Rightarrow> 'v tasks \<Rightarrow> bool" for null t where
  start: "task_run null t e c (tk_init null)" |
  own: "task_run null t e c w \<Longrightarrow> tk_step null e' a w w' \<Longrightarrow> runs_now t a w \<Longrightarrow> task_run null t e' (t \<in> tk_cancel w) w'" |
  other: "task_run null t e c w \<Longrightarrow> tk_step null e' a w w' \<Longrightarrow> \<not> runs_now t a w \<Longrightarrow> task_run null t e c w'"

lemma task_run_ok: "task_run null t e c w \<Longrightarrow> tasks_ok w"
  by (induction rule: task_run.induct) (auto intro: tk_init_ok tk_step_ok)

lemma task_run_run: "task_run null t e c w \<Longrightarrow> \<exists>as. tk_run null as w"
  by (induction rule: task_run.induct) (blast intro: tk_run.intros)+

lemma run_task_run: "tk_run null as w \<Longrightarrow> \<exists>e c. task_run null t e c w"
  by (induction rule: tk_run.induct) (blast intro: task_run.intros)+

lemma other_step:
  assumes "tk_step null e a w w'" and "tasks_ok w" and "\<not> runs_now t a w"
  shows "keeps_watch t w w'"
  using assms(1)
proof cases
  case (call u q)
  then show ?thesis using assms(3) by (auto simp: runs_now_def intro: keeps_watch_call [OF assms(2)])
next
  case dispatch
  then show ?thesis using assms(3) by (auto simp: runs_now_def intro: keeps_watch_dispatch)
next
  case (exit u)
  show ?thesis unfolding exit(2) by (rule keeps_watch_fields) simp_all
next
  case (cancel u)
  then show ?thesis using assms(3) by (auto simp: runs_now_def intro: keeps_watch_cancel)
qed (simp_all add: keeps_watch_yield keeps_watch_steps keeps_watch_closing keeps_watch_probe io_probe_and_fire_def)


section \<open>The handles of a select\<close>

lemma register_cases_want:
  "k < length hs \<Longrightarrow> chan_at (hs ! k) w = None \<Longrightarrow> awaits e (hs ! k) p \<Longrightarrow> (i + k, p) \<in> set (fst (register_cases null e t i hs w))"
proof (induction null e t i hs w arbitrary: k rule: register_cases.induct)
  case (2 null e t i h hs w)
  show ?case
  proof (cases "chan_at h w")
    case None
    obtain want w' where r: "register_cases null e t (i + 1) hs w = (want, w')" by fastforce
    show ?thesis
    proof (cases k)
      case 0
      then show ?thesis using "2.prems" None r by (auto simp: awaits_def)
    next
      case (Suc j)
      then have "(i + 1 + j, p) \<in> set want" using "2.IH"(1) [OF None, of j] "2.prems" r by simp
      then show ?thesis using None r Suc by simp
    qed
  next
    case (Some c)
    then obtain j where j: "k = Suc j" using "2.prems" by (cases k) auto
    let ?w = "if mc_closed c then w
      else set_waiter (t, i) ((plain_waiter null)\<lparr>cw_grouped := True\<rparr>) (set_chan h (c\<lparr>mc_recv := mc_recv c @ [(t, i)]\<rparr>) w)"
    have "chan_at (hs ! j) ?w = None" using "2.prems"(2) Some j by (auto simp: tk_simps)
    then have "(i + 1 + j, p) \<in> set (fst (register_cases null e t (i + 1) hs ?w))"
      using "2.IH"(2) [OF Some, of j] "2.prems" j by simp
    then show ?thesis using Some j by simp
  qed
qed simp

lemma register_ios_before: "j < k \<Longrightarrow> watched (register_ios t k want w) t j = watched w t j"
  by (induction t k want w rule: register_ios.induct) (simp_all add: watched_def tk_simps)

lemma register_ios_watched: "(i, p) \<in> set want \<Longrightarrow> \<exists>m. watched (register_ios t k want w) t m = Some (p, True, i)"
proof (induction t k want w rule: register_ios.induct)
  case (2 t k j q want w)
  let ?w = "io_register (t, k) \<lparr>iw_handle = q, iw_grouped = True, iw_index = j, iw_fired = False\<rparr> w"
  show ?case
  proof (cases "(i, p) = (j, q)")
    case True
    have "watched ?w t k = Some (q, True, j)" by (simp add: watched_def tk_simps)
    then have "watched (register_ios t (k + 1) want ?w) t k = Some (q, True, j)" by (simp add: register_ios_before)
    then show ?thesis using True by auto
  next
    case False
    then have "(i, p) \<in> set want" using "2.prems" by auto
    then show ?thesis using "2.IH" by simp
  qed
qed simp

text \<open>Every handle a source of the select waits for has a record of the task, with the case it stands for.\<close>

definition select_watches :: "nat \<Rightarrow> outside \<Rightarrow> 'v tasks \<Rightarrow> bool" where
  "select_watches t e w \<longleftrightarrow> (\<forall>hs k p. tk_frames w t = Some (InSelect hs) \<longrightarrow> k < length hs \<longrightarrow> chan_at (hs ! k) w = None \<longrightarrow>
     awaits e (hs ! k) p \<longrightarrow> (\<exists>m. watched w t m = Some (p, True, k)))"

lemma select_pass_watches:
  assumes "tk_frames w t = None"
  shows "select_watches t e (snd (select_pass null e t hs w))"
proof -
  obtain ro op x where s: "select_scan null e t 0 hs False w = (ro, op, x)" by (cases "select_scan null e t 0 hs False w") auto
  have x: "tk_frames x t = None" using keeps_watch_scan [of t w null e t 0 hs False] s assms by (simp add: keeps_watch_def)
  let ?g = "x\<lparr>tk_groups := (tk_groups x)(t := Some \<lparr>sg_fired = None, sg_woken = False\<rparr>)\<rparr>"
  obtain want y where y: "register_cases null e t 0 hs ?g = (want, y)" by fastforce
  have kept: "chan_at h ?g = None" if "chan_at h y = None" for h
    using keeps_watch_cases [of t ?g null e t 0 hs] y that by (simp add: keeps_watch_def)
  have "\<exists>m. watched (register_ios t 0 want y) t m = Some (p, True, k)"
    if "k < length hs" "chan_at (hs ! k) y = None" "awaits e (hs ! k) p" for k p
    using register_cases_want [OF that(1) kept [OF that(2)] that(3), of 0 null t] y by (intro register_ios_watched) simp
  then have "select_watches t e (enter t (InSelect hs) (register_ios t 0 want y))"
    by (simp add: select_watches_def watched_def tk_simps register_ios_frame)
  moreover have "select_watches t e x" "select_watches t e (set_out t null x)" using x by (simp_all add: select_watches_def tk_simps)
  ultimately show ?thesis using s y by (auto simp: select_pass_def Let_def park_in_enter split: option.split)
qed

lemma no_select_watches: "(\<And>hs. tk_frames w t \<noteq> Some (InSelect hs)) \<Longrightarrow> select_watches t e w"
  by (simp add: select_watches_def)

lemma poll_frames: "chan_poll_recv t h c w = (r, x) \<Longrightarrow> tk_frames x = tk_frames w"
  by (auto simp: chan_poll_recv_def tk_simps set_ok_def split: list.splits)

lemma call_watches:
  assumes ok: "tasks_ok w" and t: "tk_current w = Some t"
  shows "select_watches t e (snd (call null e t q w))"
proof -
  have none: "tk_frames w t = None" using ok_butD(3) [OF ok t] by simp
  show ?thesis
  proof (cases q)
    case (Select cases)
    then show ?thesis using none select_pass_watches [OF none]
      by (cases cases) (simp_all add: chan_select_def no_select_watches)
  next
    case (Close h)
    then show ?thesis using keeps_watch_close [of t w h] none by (intro no_select_watches) (simp add: keeps_watch_def)
  next
    case (Send h v)
    then show ?thesis using none
      by (intro no_select_watches)
        (auto simp: chan_send_def park_in_enter tk_simps set_ok_def select_fire_frame split: option.split prod.split)
  next
    case (Recv h)
    then show ?thesis using none
      by (intro no_select_watches) (auto simp: chan_recv_def park_in_enter tk_simps dest!: poll_frames split: option.split prod.split)
  next
    case (TryRecv h)
    then show ?thesis using none
      by (intro no_select_watches) (auto simp: chan_try_recv_def tk_simps dest!: poll_frames split: option.split prod.split)
  qed (use none in \<open>auto intro!: no_select_watches simp: chan_make_def set_chan_def chan_readable_def add_readiness_def
      wait_readable_def park_in_enter tk_simps\<close>)
qed

lemma dispatch_watches:
  assumes "tk_ready w = t # ts"
  shows "select_watches t e (snd (dispatch null e w))"
proof -
  let ?w = "w\<lparr>tk_current := Some t, tk_ready := ts\<rparr>"
  have "tk_frames (leave_select t hs ?w) t = None" for hs by (simp add: leave_select_def Let_def tk_simps)
  then have "select_watches t e (snd (resume_select null e t hs ?w))" for hs
    by (simp add: resume_select_def Let_def tk_simps select_pass_watches no_select_watches split: option.split)
  moreover have "select_watches t e (snd (resume null e t ?w))" if "\<And>hs. tk_frames w t \<noteq> Some (InSelect hs)"
    using that by (intro no_select_watches)
      (auto simp: resume_def resume_send_def resume_recv_def resume_wait_def Let_def tk_simps split: option.split wait_frame.split)
  ultimately show ?thesis using assms by (cases "\<exists>hs. tk_frames w t = Some (InSelect hs)") (auto simp: dispatch_def resume_def)
qed


section \<open>Cancellation\<close>

lemma cancel_poll: "tk_cancel (snd (chan_poll_recv u h c w)) = tk_cancel w"
  by (simp add: chan_poll_recv_def tk_simps set_ok_def split: list.split)

lemma cancel_fire: "tk_cancel (snd (select_fire grouped i u w)) = tk_cancel w"
  by (simp add: select_fire_def Let_def task_enqueue_def set_woken_def)

lemma cancel_wake_receivers: "tk_cancel (wake_receivers rs w) = tk_cancel w"
proof (induction rs w rule: wake_receivers.induct)
  case (1 rs w)
  then show ?case
    by (subst wake_receivers.simps)
      (auto simp: wake_recv_waiter_def set_woken_closed_def set_woken_def tk_simps split: option.split prod.split)
qed

lemma cancel_wake_senders: "tk_cancel (wake_senders rs w) = tk_cancel w"
  by (induction rs arbitrary: w) (simp_all add: set_woken_closed_def tk_simps)

lemma cancel_scan: "tk_cancel (snd (snd (select_scan null e u i hs any_open w))) = tk_cancel w"
proof (induction null e u i hs any_open w rule: select_scan.induct)
  case (2 null e u i h hs any_open w)
  show ?case
  proof (cases "chan_at h w")
    case None
    then show ?thesis using "2.IH"(1) [OF None refl] by (auto simp: Let_def tk_simps)
  next
    case (Some c)
    obtain q x where p: "chan_poll_recv u h c w = (q, x)" by fastforce
    have x: "tk_cancel x = tk_cancel w" using cancel_poll [of u h c w] p by simp
    show ?thesis using "2.IH"(2) [OF Some refl p [symmetric]] x Some p by auto
  qed
qed simp

lemma cancel_cases: "tk_cancel (snd (register_cases null e u i hs w)) = tk_cancel w"
proof (induction null e u i hs w rule: register_cases.induct)
  case (2 null e u i h hs w)
  show ?case
  proof (cases "chan_at h w")
    case None
    then show ?thesis using "2.IH"(1) [OF None] by (cases "register_cases null e u (Suc i) hs w") simp
  next
    case (Some c)
    then show ?thesis using "2.IH"(2) [OF Some] by (auto simp: tk_simps)
  qed
qed simp

lemma cancel_select_pass: "tk_cancel (snd (select_pass null e u hs w)) = tk_cancel w"
proof -
  obtain ro op x where s: "select_scan null e u 0 hs False w = (ro, op, x)" by (cases "select_scan null e u 0 hs False w") auto
  have x: "tk_cancel x = tk_cancel w" using cancel_scan [of null e u 0 hs False w] s by simp
  let ?g = "x\<lparr>tk_groups := (tk_groups x)(u := Some \<lparr>sg_fired = None, sg_woken = False\<rparr>)\<rparr>"
  obtain want y where y: "register_cases null e u 0 hs ?g = (want, y)" by fastforce
  have "tk_cancel y = tk_cancel x" using cancel_cases [of null e u 0 hs ?g] y by simp
  then show ?thesis using s y x
    by (auto simp: select_pass_def Let_def park_in_enter tk_simps register_ios_frame split: option.split)
qed

lemma cancel_drop: "tk_cancel (drop_cases u i hs w) = tk_cancel w"
  by (induction u i hs w rule: drop_cases.induct) (auto simp: tk_simps split: option.split)

lemma cancel_leave: "tk_cancel (leave_select u hs w) = tk_cancel w"
  by (simp add: leave_select_def Let_def tk_simps cancel_drop)

lemma cancel_call: "tk_cancel (snd (call null e u q w)) = tk_cancel w"
proof (cases q)
  case (Select cases)
  then show ?thesis by (cases cases) (simp_all add: chan_select_def cancel_select_pass)
next
  case (Recv h)
  have "tk_cancel x = tk_cancel w" if "chan_poll_recv u h c w = (r, x)" for c r x using cancel_poll [of u h c w] that by simp
  then show ?thesis using Recv by (auto simp: chan_recv_def park_in_enter tk_simps split: option.split prod.split)
next
  case (TryRecv h)
  have "tk_cancel x = tk_cancel w" if "chan_poll_recv u h c w = (r, x)" for c r x using cancel_poll [of u h c w] that by simp
  then show ?thesis using TryRecv by (auto simp: chan_try_recv_def tk_simps split: option.split prod.split)
qed (auto simp: chan_send_def park_in_enter tk_simps set_ok_def cancel_fire chan_close_def cancel_wake_receivers cancel_wake_senders
    chan_make_def set_chan_def chan_readable_def add_readiness_def wait_readable_def io_register_def split: option.split prod.split)

lemma cancel_dispatch: "tk_cancel (snd (dispatch null e w)) = tk_cancel w"
  by (auto simp: dispatch_def resume_def resume_send_def resume_recv_def resume_select_def resume_wait_def Let_def tk_simps
      drop_sender_def drop_receiver_def cancel_leave cancel_select_pass io_unregister_def split: list.split option.split wait_frame.split)

section \<open>What the registration tells\<close>

text \<open>A task that was not cancelled when it parked in a select, and is cancelled now, is ready.\<close>

definition watch_ok :: "nat \<Rightarrow> outside \<Rightarrow> bool \<Rightarrow> 'v tasks \<Rightarrow> bool" where
  "watch_ok t e c w \<longleftrightarrow> select_watches t e w \<and> (tk_frames w t \<noteq> None \<longrightarrow> t \<in> tk_cancel w \<longrightarrow> c \<or> t \<in> set (tk_ready w))"

lemma keeps_watch_ok: "keeps_watch t w w' \<Longrightarrow> watch_ok t e c w \<Longrightarrow> watch_ok t e c w'"
  by (simp add: keeps_watch_def watch_ok_def select_watches_def) blast

lemma own_step_ok:
  assumes "tk_step null e a w w'" and ok: "tasks_ok w" and "runs_now t a w"
  shows "watch_ok t e (t \<in> tk_cancel w) w'"
proof -
  have idle: ?thesis if "keeps_watch t w w'" "tk_current w = Some t"
    using that ok_butD(3) [OF ok that(2)] by (simp add: watch_ok_def keeps_watch_def no_select_watches)
  show ?thesis
    using assms(1)
  proof cases
    case (call u q)
    then have "u = t" using assms(3) by (auto simp: runs_now_def)
    then show ?thesis using call call_watches [OF ok] cancel_call [of null e t q w] by (simp add: watch_ok_def)
  next
    case dispatch
    then obtain ts where "tk_ready w = t # ts" using assms(3) by (cases "tk_ready w") (auto simp: runs_now_def)
    then show ?thesis using dispatch dispatch_watches cancel_dispatch [of null e w] by (simp add: watch_ok_def)
  next
    case (cancel u v)
    have "tk_current w = Some t" using cancel assms(3) by (simp add: runs_now_def)
    then have "tk_frames w' t = None" using cancel ok_butD(3) [OF ok] by (auto simp: cancel_request_def task_enqueue_def Let_def)
    then show ?thesis by (simp add: watch_ok_def no_select_watches)
  next
    case (exit u)
    show ?thesis by (rule idle) (use exit assms(3) in \<open>auto simp: runs_now_def intro: keeps_watch_fields\<close>)
  next
    case io_pass
    then show ?thesis using assms(3) keeps_watch_probe by (intro idle) (auto simp: runs_now_def io_probe_and_fire_def)
  next
    case (yield u)
    show ?thesis by (rule idle) (use yield assms(3) keeps_watch_yield in \<open>auto simp: runs_now_def\<close>)
  next
    case (spawn u v)
    show ?thesis by (rule idle) (use spawn assms(3) keeps_watch_steps in \<open>auto simp: runs_now_def\<close>)
  next
    case (closing u p)
    show ?thesis by (rule idle) (use closing assms(3) in \<open>simp_all add: runs_now_def keeps_watch_closing\<close>)
  qed
qed

lemma task_run_watch: "task_run null t e c w \<Longrightarrow> watch_ok t e c w"
proof (induction rule: task_run.induct)
  case (start e c)
  then show ?case by (simp add: watch_ok_def select_watches_def tk_init_def)
next
  case (own e c w e' a w')
  show ?case by (rule own_step_ok [OF own(2) task_run_ok [OF own(1)] own(3)])
next
  case (other e c w e' a w')
  show ?case by (rule keeps_watch_ok [OF other_step [OF other(2) task_run_ok [OF other(1)] other(3)] other(4)])
qed

section \<open>Properties\<close>


text \<open>A task that selects on a byte endpoint whose handle is not readable yet.\<close>

definition endpoint_outside :: outside where
  "endpoint_outside = quiet_outside\<lparr>os_scan := (\<lambda>_. Some 0), os_handles := (\<lambda>_. [(7, 0)])\<rparr>"


end
