(* ===== verification/ChannelFifo.thy ===== *)
theory ChannelFifo
  imports ChannelWatch "HOL-Library.Sublist" "HOL-Library.Multiset"
begin

text \<open>
  The order of the values of a channel.  Its content is what it buffers followed by the values of
  the senders parked on it; a history of a run collects the values that entered the channel, the
  values its receivers got and the values whose senders were thrown out, and they are compared.
\<close>

section \<open>Content\<close>

definition sent_value :: "'v tasks \<Rightarrow> waiter_ref \<Rightarrow> 'v" where
  "sent_value w r = cw_val (the (tk_waiters w r))"

definition queued :: "'v tasks \<Rightarrow> int \<Rightarrow> ('v list \<times> waiter_ref list) option" where
  "queued w h = map_option (\<lambda>c. (mc_q c, mc_send c)) (chan_at h w)"

definition chan_content :: "int \<Rightarrow> 'v tasks \<Rightarrow> 'v list" where
  "chan_content h w = (case queued w h of None \<Rightarrow> [] | Some (q, s) \<Rightarrow> q @ map (sent_value w) s)"

lemma chan_content_chan: "chan_at h w = Some c \<Longrightarrow> chan_content h w = mc_q c @ map (sent_value w) (mc_send c)"
  by (simp add: chan_content_def queued_def)

text \<open>Two states that hold the same values, but for the records of task \<open>t\<close>.\<close>

definition same_values :: "nat \<Rightarrow> 'v tasks \<Rightarrow> 'v tasks \<Rightarrow> bool" where
  "same_values t w w' \<longleftrightarrow> (\<forall>h. queued w' h = queued w h) \<and> (\<forall>r. fst r \<noteq> t \<longrightarrow> sent_value w' r = sent_value w r)"

definition no_sender :: "nat \<Rightarrow> 'v tasks \<Rightarrow> bool" where
  "no_sender t w \<longleftrightarrow> (\<forall>h c. chan_at h w = Some c \<longrightarrow> (\<forall>r \<in> set (mc_send c). fst r \<noteq> t))"

lemma same_values_content: "same_values t w w' \<Longrightarrow> no_sender t w \<Longrightarrow> chan_content h w' = chan_content h w"
  by (auto simp: same_values_def no_sender_def chan_content_def queued_def split: option.split) (metis fst_conv)

lemma same_values_refl [simp]: "same_values t w w"
  by (simp add: same_values_def)

lemma same_values_trans: "same_values t w v \<Longrightarrow> same_values t v u \<Longrightarrow> same_values t w u"
  by (simp add: same_values_def)

text \<open>Steps that keep every value and every record's value.\<close>

definition keeps_values :: "'v tasks \<Rightarrow> 'v tasks \<Rightarrow> bool" where
  "keeps_values w w' \<longleftrightarrow> (\<forall>h. queued w' h = queued w h) \<and> (\<forall>r. sent_value w' r = sent_value w r)"

lemma keeps_content: "keeps_values w w' \<Longrightarrow> chan_content h w' = chan_content h w"
  by (auto simp: keeps_values_def chan_content_def split: option.split)

lemma keeps_same: "keeps_values w w' \<Longrightarrow> same_values t w w'"
  by (simp add: keeps_values_def same_values_def)

lemma keeps_values_refl [simp]: "keeps_values w w"
  by (simp add: keeps_values_def)

lemma keeps_values_trans: "keeps_values w v \<Longrightarrow> keeps_values v u \<Longrightarrow> keeps_values w u"
  by (simp add: keeps_values_def)

lemma keeps_steps:
  "keeps_values w (task_enqueue t w)" "keeps_values w (set_out t v w)" "keeps_values w (set_io_fired r w)"
  "keeps_values w (set_woken t w)" "keeps_values w (io_register r i w)" "keeps_values w (enter t f w)"
  "keeps_values w (set_ok r w)" "keeps_values w (set_woken_closed r w)"
  by (auto simp: keeps_values_def queued_def sent_value_def tk_simps set_ok_def set_woken_closed_def set_woken_def chan_at_def)

lemma content_simps [simp]:
  "chan_content h (set_out t v w) = chan_content h w" "chan_content h (enter t f w) = chan_content h w"
  "chan_content h (set_ok r w) = chan_content h w" "chan_content h (task_enqueue t w) = chan_content h w"
  "chan_content h (io_register r i w) = chan_content h w"
  by (rule keeps_content, rule keeps_steps)+

lemma keeps_fire: "keeps_values w (snd (select_fire grouped i t w))"
  by (auto simp: select_fire_def Let_def keeps_values_def queued_def sent_value_def tk_simps set_woken_def chan_at_def task_enqueue_def)

lemma keeps_wake: "keeps_values w (wake_recv_waiter r w)"
  by (auto simp: wake_recv_waiter_def keeps_values_def queued_def sent_value_def tk_simps set_woken_def chan_at_def task_enqueue_def)

lemma keeps_io_fire: "keeps_values w (snd (io_fire_waiter r w))"
  by (simp add: io_fire_waiter_def Let_def keeps_values_trans [OF keeps_steps(3) keeps_fire])

lemma keeps_io_probe: "keeps_values w (snd (io_probe_from readable rs w))"
proof (induction readable rs w rule: io_probe_from.induct)
  case (2 readable r rs w)
  obtain woke v where v: "io_fire_waiter r w = (woke, v)" by fastforce
  show ?case
  proof (cases "\<not> iw_fired (the (tk_ios w r)) \<and> readable (iw_handle (the (tk_ios w r)))")
    case True
    have "keeps_values v (snd (io_probe_from readable rs v))" by (rule "2.IH"(1) [OF True v [symmetric] refl])
    then have "keeps_values w (snd (io_probe_from readable rs v))" using keeps_io_fire [of w r] v keeps_values_trans by fastforce
    then show ?thesis using True v by (auto split: prod.splits)
  qed (use 2 in auto)
qed simp

lemma keeps_close_waiter: "keeps_values w (close_waiter p r w)"
proof -
  have "keeps_values w (task_enqueue u (set_woken u (set_io_fired r w)))" "keeps_values w (task_enqueue u (set_io_fired r w))" for u
    by (meson keeps_values_trans keeps_steps)+
  then show ?thesis by (auto simp: close_waiter_def Let_def keeps_steps)
qed

lemma keeps_closing: "keeps_values w (handle_closing p w)"
proof -
  have "keeps_values w (fold (close_waiter p) rs w)" for rs
    by (induction rs arbitrary: w) (auto intro: keeps_values_trans keeps_close_waiter)
  then show ?thesis by (simp add: handle_closing_def)
qed

lemma keeps_fields: "tk_entries w' = tk_entries w \<Longrightarrow> tk_waiters w' = tk_waiters w \<Longrightarrow> keeps_values w w'"
  by (simp add: keeps_values_def queued_def sent_value_def chan_at_def)

lemma keeps_cancel: "keeps_values w (cancel_request u w)"
  by (rule keeps_fields) (simp_all add: cancel_request_def task_enqueue_def Let_def)

lemma keeps_yield: "keeps_values w (yield e t w)"
proof -
  let ?v = "snd (io_probe_and_fire (os_readable e) w)"
  have "keeps_values ?v ((task_enqueue t ?v)\<lparr>tk_current := None\<rparr>)"
    by (rule keeps_fields) (simp_all add: task_enqueue_def)
  then show ?thesis
    using keeps_io_probe [of w "os_readable e" "tk_io_list w"] keeps_values_trans
    by (fastforce simp: yield_def Let_def io_probe_and_fire_def)
qed

lemma same_set_waiter: "same_values t w (set_waiter (t, k) m w)"
  by (auto simp: same_values_def queued_def sent_value_def tk_simps)

lemma same_unwind: "same_values t w (unwind t w)"
  by (simp add: same_values_def queued_def sent_value_def tk_simps)

lemma keeps_set_chan: "chan_at h w = Some c \<Longrightarrow> mc_q c' = mc_q c \<Longrightarrow> mc_send c' = mc_send c \<Longrightarrow> keeps_values w (set_chan h c' w)"
  by (auto simp: keeps_values_def queued_def sent_value_def tk_simps)

lemma running_no_sender: "tasks_ok w \<Longrightarrow> tk_current w = Some t \<Longrightarrow> no_sender t w"
  using ok_butD(3) [of "{}" w t] running_unseen [of w t] by (fastforce simp: no_sender_def)

section \<open>What enters and what is taken\<close>

definition values_entered :: "'v \<Rightarrow> outside \<Rightarrow> 'v action \<Rightarrow> int \<Rightarrow> 'v tasks \<Rightarrow> 'v list" where
  "values_entered null e a h w =
     (case (a, tk_current w) of
        (Call (Send j v), Some t) \<Rightarrow>
          if j = h then (case fst (chan_send t j v w) of Threw s \<Rightarrow> [] | _ \<Rightarrow> [v]) else []
      | _ \<Rightarrow> [])"

text \<open>A select that found case \<open>i\<close> ready at its scan has the value of that channel.\<close>

definition scanned :: "int \<Rightarrow> int list \<Rightarrow> nat \<Rightarrow> 'v tasks \<Rightarrow> chan_result \<times> 'v tasks \<Rightarrow> 'v list" where
  "scanned h hs t w res =
     (case fst res of
        Returned i \<Rightarrow> if 0 \<le> i \<and> hs ! nat i = h \<and> chan_at h w \<noteq> None then [tk_out (snd res) t] else []
      | _ \<Rightarrow> [])"

fun taken_by :: "'v \<Rightarrow> outside \<Rightarrow> nat \<Rightarrow> 'v verb \<Rightarrow> int \<Rightarrow> 'v tasks \<Rightarrow> 'v list" where
  "taken_by null e t (Send j v) h w =
     (if j = h \<and> fst (chan_send t j v w) = Returned 1
      then case chan_at h w of
          None \<Rightarrow> []
        | Some c \<Rightarrow> (case fst (pop_recv_waiter w (mc_recv c)) of
              None \<Rightarrow> [] | Some r \<Rightarrow> [tk_out (snd (chan_send t j v w)) (fst r)])
      else [])" |
  "taken_by null e t (Recv j) h w =
     (let res = chan_recv null t j w in if j = h \<and> fst res = Returned 1 then [tk_out (snd res) t] else [])" |
  "taken_by null e t (TryRecv j) h w =
     (let res = chan_try_recv null t j w in if j = h \<and> fst res = Returned 1 then [tk_out (snd res) t] else [])" |
  "taken_by null e t (Select (Some hs)) h w = scanned h hs t w (chan_select null e t (Some hs) w)" |
  "taken_by null e t q h w = []"

definition taken :: "'v \<Rightarrow> outside \<Rightarrow> 'v action \<Rightarrow> int \<Rightarrow> 'v tasks \<Rightarrow> 'v list" where
  "taken null e a h w =
     (case (a, tk_current w) of
        (Call q, Some t) \<Rightarrow> taken_by null e t q h w
      | (Dispatch, None) \<Rightarrow>
          (case tk_ready w of
             [] \<Rightarrow> []
           | t # ts \<Rightarrow> (case tk_frames w t of
               Some (InSelect hs) \<Rightarrow>
                 if sg_fired (the (tk_groups w t)) = None then scanned h hs t w (dispatch null e w) else []
             | _ \<Rightarrow> []))
      | _ \<Rightarrow> [])"

text \<open>
  The values given up: those of the senders a close finds parked on the channel, and that of a
  sender that leaves the queue by itself and comes back with an exception.  What the channel
  buffers is never given up.
\<close>

definition sender_queued :: "int \<Rightarrow> nat \<Rightarrow> 'v tasks \<Rightarrow> bool" where
  "sender_queued h t w \<longleftrightarrow> (case chan_at h w of None \<Rightarrow> False | Some c \<Rightarrow> (t, 0) \<in> set (mc_send c))"

definition thrown_value :: "chan_result \<Rightarrow> int \<Rightarrow> nat \<Rightarrow> 'v tasks \<Rightarrow> 'v list" where
  "thrown_value res h t w =
     (case res of Threw s \<Rightarrow> if sender_queued h t w then [sent_value w (t, 0)] else [] | _ \<Rightarrow> [])"

definition given_up :: "'v \<Rightarrow> outside \<Rightarrow> 'v action \<Rightarrow> int \<Rightarrow> 'v tasks \<Rightarrow> 'v list" where
  "given_up null e a h w =
     (case a of
        Call (Close j) \<Rightarrow>
          if j = h then case chan_at h w of None \<Rightarrow> [] | Some c \<Rightarrow> map (sent_value w) (mc_send c) else []
      | Dispatch \<Rightarrow>
          (case tk_ready w of
             [] \<Rightarrow> []
           | t # ts \<Rightarrow> if tk_frames w t = Some (InSend h) then thrown_value (fst (dispatch null e w)) h t w else [])
      | _ \<Rightarrow> [])"

section \<open>Receive and send\<close>

lemma poll_content:
  assumes c: "chan_at h w = Some c" and p: "chan_poll_recv t h c w = (r, w')"
  shows "chan_content j w = (if r = 1 \<and> j = h then [tk_out w' t] else []) @ chan_content j w'"
proof -
  have step: "chan_content j w = (if j = h then [v] else []) @ chan_content j (set_chan h c' (set_out t v w))"
    if "mc_q c @ map (sent_value w) (mc_send c) = v # mc_q c' @ map (sent_value w) (mc_send c')" for v c'
  proof -
    have "sent_value (set_chan h c' (set_out t v w)) = sent_value w" by (simp add: fun_eq_iff sent_value_def tk_simps)
    then show ?thesis using c that by (cases "chan_at j w") (auto simp: chan_content_def queued_def tk_simps)
  qed
  have wake: "chan_content j (task_enqueue (fst q) (set_ok q (set_chan h c' (set_out t v w)))) = chan_content j (set_chan h c' (set_out t v w))"
    "tk_out (task_enqueue (fst q) (set_ok q (set_chan h c' (set_out t v w)))) t = v"
    for q c' v
  proof -
    from keeps_content [OF keeps_values_trans [OF keeps_steps(7) keeps_steps(1)]]
    show "chan_content j (task_enqueue (fst q) (set_ok q (set_chan h c' (set_out t v w)))) = chan_content j (set_chan h c' (set_out t v w))" .
    show "tk_out (task_enqueue (fst q) (set_ok q (set_chan h c' (set_out t v w)))) t = v"
      by (simp add: task_enqueue_def set_ok_def set_waiter_def set_chan_def set_out_def)
  qed
  show ?thesis
  proof (cases "mc_q c")
    case q: Nil
    show ?thesis
    proof (cases "mc_send c")
      case Nil
      then show ?thesis using p q by (auto simp: chan_poll_recv_def split: if_splits)
    next
      case (Cons s ss)
      let ?c = "c\<lparr>mc_send := ss\<rparr>" and ?v = "cw_val (the (tk_waiters w s))"
      have "chan_content j w = (if j = h then [?v] else []) @ chan_content j (set_chan h ?c (set_out t ?v w))"
        by (rule step) (simp add: q Cons sent_value_def)
      then show ?thesis using p q Cons wake [of s] by (auto simp: chan_poll_recv_def)
    qed
  next
    case (Cons v q)
    show ?thesis
    proof (cases "mc_send c")
      case Nil
      have "chan_content j w = (if j = h then [v] else []) @ chan_content j (set_chan h (c\<lparr>mc_q := q\<rparr>) (set_out t v w))"
        by (rule step) (simp add: Cons Nil)
      then show ?thesis using p Cons Nil by (auto simp: chan_poll_recv_def set_chan_def set_out_def)
    next
      case s: (Cons s ss)
      let ?c = "c\<lparr>mc_q := q @ [cw_val (the (tk_waiters w s))], mc_send := ss\<rparr>"
      have "chan_content j w = (if j = h then [v] else []) @ chan_content j (set_chan h ?c (set_out t v w))"
        by (rule step) (simp add: Cons s sent_value_def)
      then show ?thesis using p Cons s wake [of s] by (auto simp: chan_poll_recv_def)
    qed
  qed
qed


lemma send_content:
  assumes ok: "tasks_ok w" and t: "tk_current w = Some t" and w': "w' = snd (chan_send t j v w)"
  shows "taken_by null e t (Send j v) h w @ chan_content h w'
    = chan_content h w @ (if j = h then (case fst (chan_send t j v w) of Threw s \<Rightarrow> [] | _ \<Rightarrow> [v]) else [])"
proof (cases "t \<in> tk_cancel w \<or> chan_at j w = None \<or> mc_closed (the (chan_at j w))")
  case True
  then show ?thesis using w' by (auto simp: chan_send_def split: option.split)
next
  case False
  then obtain c where c: "chan_at j w = Some c" "\<not> mc_closed c" "t \<notin> tk_cancel w" by auto
  obtain ro rs where pop: "pop_recv_waiter w (mc_recv c) = (ro, rs)" by fastforce
  have C: "chan_shape c" using ok_butD(4) [OF ok c(1)] by (simp add: chan_ok_def)
  have upd: "chan_content h (set_chan j c' w) = (if h = j then mc_q c' @ map (sent_value w) (mc_send c') else chan_content h w)" for c'
  proof -
    have "sent_value (set_chan j c' w) = sent_value w" by (simp add: fun_eq_iff sent_value_def tk_simps)
    then show ?thesis by (cases "chan_at h w") (auto simp: chan_content_def queued_def tk_simps)
  qed
  show ?thesis
  proof (cases ro)
    case (Some r)
    have "mc_recv c \<noteq> []" using pop Some by auto
    then have e: "mc_q c = []" "mc_send c = []" using C by (auto simp: chan_shape_def)
    let ?w = "set_chan j (c\<lparr>mc_recv := rs\<rparr>) w"
    have out: "tk_out (snd (select_fire g i u x)) = tk_out x" for g i u and x :: "'a tasks"
      by (simp add: select_fire_def Let_def task_enqueue_def set_woken_def)
    have "chan_content h w' = chan_content h ?w"
      using w' c pop Some keeps_content [OF keeps_values_trans [OF keeps_values_trans [OF keeps_steps(2) keeps_steps(7)] keeps_fire]]
      by (simp add: chan_send_def)
    moreover have "chan_content h ?w = chan_content h w" using e c(1) by (auto simp: upd chan_content_chan)
    moreover have "chan_content j w = []" using e c(1) by (simp add: chan_content_chan)
    ultimately show ?thesis
      using c pop Some by (auto simp: chan_send_def out set_ok_def set_waiter_def set_out_def)
  next
    case None
    show ?thesis
    proof (cases "int (length (mc_q c)) < mc_cap c")
      case True
      then have "mc_send c = []" using C by (auto simp: chan_shape_def)
      then show ?thesis using w' c pop None True by (auto simp: chan_send_def upd chan_content_chan)
    next
      case False
      let ?c = "c\<lparr>mc_recv := rs, mc_send := mc_send c @ [(t, 0)]\<rparr>"
      have ns: "no_sender t w" by (rule running_no_sender [OF ok t])
      let ?w = "set_waiter (t, 0) (plain_waiter v) (set_chan j ?c w)"
      have sv: "sent_value ?w r = (if r = (t, 0) then v else sent_value w r)" for r
        by (simp add: sent_value_def tk_simps plain_waiter_def)
      have "(t, 0) \<notin> set (mc_send c)" using ns c(1) by (fastforce simp: no_sender_def)
      then have "map (sent_value ?w) (mc_send c) = map (sent_value w) (mc_send c)" by (auto simp: sv)
      then have "chan_content j ?w = chan_content j w @ [v]"
        using c(1) by (simp add: chan_content_def queued_def tk_simps sv)
      moreover have "chan_content h ?w = chan_content h w" if "h \<noteq> j"
      proof (cases "chan_at h w")
        case (Some d)
        then have "(t, 0) \<notin> set (mc_send d)" using ns by (fastforce simp: no_sender_def)
        then show ?thesis using Some that by (auto simp: chan_content_def queued_def tk_simps sv)
      qed (use that in \<open>simp add: chan_content_def queued_def tk_simps\<close>)
      moreover have "chan_content h w' = chan_content h ?w"
        using w' c pop None False by (simp add: chan_send_def park_in_enter)
      ultimately show ?thesis using c pop None False by (auto simp: chan_send_def park_in_def)
    qed
  qed
qed

lemma recv_content:
  assumes ok: "tasks_ok w" and t: "tk_current w = Some t"
  shows "taken_by null e t (Recv j) h w @ chan_content h (snd (chan_recv null t j w)) = chan_content h w"
    and "taken_by null e t (TryRecv j) h w @ chan_content h (snd (chan_try_recv null t j w)) = chan_content h w"
proof -
  have ns: "no_sender t w" by (rule running_no_sender [OF ok t])
  show "taken_by null e t (Recv j) h w @ chan_content h (snd (chan_recv null t j w)) = chan_content h w"
  proof (cases "t \<in> tk_cancel w \<or> chan_at j w = None")
    case True
    then show ?thesis by (auto simp: chan_recv_def split: option.split)
  next
    case False
    then obtain c where c: "chan_at j w = Some c" "t \<notin> tk_cancel w" by auto
    obtain r v where p: "chan_poll_recv t j c w = (r, v)" by fastforce
    note P = chan_poll_recv_ok(3) [OF ok c(1) p] and Q = poll_content [OF c(1) p, of h]
    show ?thesis
    proof (cases "r = 1")
      case True
      then show ?thesis using c p Q by (auto simp: chan_recv_def)
    next
      case r: False
      then have v: "v = w" using P by simp
      have "same_values t w (enter t (InRecv j) (set_waiter (t, 0) (plain_waiter null) (set_chan j (c\<lparr>mc_recv := mc_recv c @ [(t, 0)]\<rparr>) w)))"
        using same_values_trans [OF same_values_trans [OF keeps_same [OF keeps_set_chan [OF c(1)]] same_set_waiter] keeps_same [OF keeps_steps(6)]]
        by simp
      from same_values_content [OF this ns] show ?thesis
        using c p v r by (auto simp: chan_recv_def park_in_enter)
    qed
  qed
  show "taken_by null e t (TryRecv j) h w @ chan_content h (snd (chan_try_recv null t j w)) = chan_content h w"
  proof (cases "chan_at j w")
    case (Some c)
    obtain r v where p: "chan_poll_recv t j c w = (r, v)" by fastforce
    show ?thesis
      using Some p poll_content [OF Some p, of h] chan_poll_recv_ok(3) [OF ok Some p]
      by (auto simp: chan_try_recv_def)
  qed (simp add: chan_try_recv_def)
qed

section \<open>Select\<close>

lemma select_scan_content:
  "tasks_ok w \<Longrightarrow> select_scan null e t i hs b w = (Some k, op, w') \<Longrightarrow>
    i \<le> k \<and> k - i < length hs
    \<and> chan_content j w = (if hs ! (k - i) = j \<and> chan_at j w \<noteq> None then [tk_out w' t] else []) @ chan_content j w'"
proof (induction null e t i hs b w arbitrary: k op w' rule: select_scan.induct)
  case (2 null e t i h hs b w)
  have shift: "i \<le> k \<and> k - i < length (h # hs) \<and> (h # hs) ! (k - i) = hs ! (k - (i + 1))" if "i + 1 \<le> k" "k - (i + 1) < length hs" for k
  proof -
    have "k - i = Suc (k - (i + 1))" using that by simp
    then show ?thesis using that by simp
  qed
  show ?case
  proof (cases "chan_at h w")
    case (Some c)
    obtain r v where p: "chan_poll_recv t h c w = (r, v)" by fastforce
    note P = chan_poll_recv_ok(3) [OF "2.prems"(1) Some p] and Q = poll_content [OF Some p, of j]
    show ?thesis
    proof (cases "r = 1")
      case True
      then show ?thesis using "2.prems"(2) Some p Q by auto
    next
      case False
      then have v: "v = w" using P by auto
      have "select_scan null e t (i + 1) hs (b \<or> r = 0) w = (Some k, op, w')"
        using "2.prems"(2) Some p v False by simp
      from "2.IH"(2) [OF Some p [symmetric] refl False, unfolded v, OF "2.prems"(1) this]
      show ?thesis using shift [of k] by auto
    qed
  next
    case None
    let ?r = "case os_scan e h of None \<Rightarrow> -1 | Some x \<Rightarrow> x"
    show ?thesis
    proof (cases "?r = 1")
      case True
      then show ?thesis using "2.prems" None by auto
    next
      case False
      have "select_scan null e t (i + 1) hs (b \<or> ?r = 0) w = (Some k, op, w')"
        using "2.prems"(2) None False by (simp add: Let_def)
      from "2.IH"(1) [OF None refl False "2.prems"(1) this] show ?thesis using shift [of k] by auto
    qed
  qed
qed auto

lemma register_cases_same: "same_values t w (snd (register_cases null e t i hs w))"
proof (induction null e t i hs w rule: register_cases.induct)
  case (2 null e t i h hs w)
  show ?case
  proof (cases "chan_at h w")
    case (Some c)
    let ?v = "if mc_closed c then w else set_waiter (t, i) ((plain_waiter null)\<lparr>cw_grouped := True\<rparr>)
                    (set_chan h (c\<lparr>mc_recv := mc_recv c @ [(t, i)]\<rparr>) w)"
    have "same_values t w ?v"
      using same_values_trans [OF keeps_same [OF keeps_set_chan [OF Some]] same_set_waiter] by simp
    from same_values_trans [OF this "2.IH"(2) [OF Some]] show ?thesis using Some by simp
  qed (use 2 in \<open>auto simp: Let_def split: prod.splits\<close>)
qed simp

lemma register_ios_keeps: "keeps_values w (register_ios t k want w)"
  by (induction t k want w rule: register_ios.induct) (auto intro: keeps_values_trans keeps_steps)

lemma select_pass_content:
  assumes ok: "tasks_ok w" and t: "tk_current w = Some t"
  shows "scanned j hs t w (select_pass null e t hs w) @ chan_content j (snd (select_pass null e t hs w)) = chan_content j w"
proof -
  obtain ro op w' where s: "select_scan null e t 0 hs False w = (ro, op, w')" by (cases "select_scan null e t 0 hs False w") auto
  show ?thesis
  proof (cases ro)
    case (Some k)
    then show ?thesis using select_scan_content [OF ok, of null e t 0 hs False k op w' j] s
      by (auto simp: select_pass_def scanned_def)
  next
    case None
    then have w': "w' = w" using select_scan_ok [OF ok s] by simp
    show ?thesis
    proof (cases op)
      case False
      then show ?thesis using s None w' by (auto simp: select_pass_def scanned_def)
    next
      case True
      let ?v = "w\<lparr>tk_groups := (tk_groups w)(t := Some \<lparr>sg_fired = None, sg_woken = False\<rparr>)\<rparr>"
      obtain want u where reg: "register_cases null e t 0 hs ?v = (want, u)" by fastforce
      have "same_values t w ?v" by (rule keeps_same, rule keeps_fields) simp_all
      then have "same_values t w u" using register_cases_same [of t ?v null e 0 hs] reg same_values_trans by fastforce
      then have "same_values t w (enter t (InSelect hs) (register_ios t 0 want u))"
        by (rule same_values_trans [OF _ keeps_same [OF keeps_values_trans [OF register_ios_keeps keeps_steps(6)]]])
      from same_values_content [OF this running_no_sender [OF ok t]] show ?thesis
        using s None True w' reg by (simp add: select_pass_def scanned_def park_in_enter Let_def)
    qed
  qed
qed


section \<open>One step\<close>

lemma keeps_wake_receivers: "keeps_values w (wake_receivers rs w)"
proof (induction rs w rule: wake_receivers.induct)
  case (1 rs w)
  obtain ro rs' where pop: "pop_recv_waiter w rs = (ro, rs')" by fastforce
  show ?case
  proof (cases ro)
    case (Some r)
    from keeps_values_trans [OF keeps_values_trans [OF keeps_steps(8) keeps_wake] "1.IH" [OF pop [symmetric] Some]]
    show ?thesis using Some by (subst wake_receivers.simps) (simp add: pop)
  qed (subst wake_receivers.simps, simp add: pop)
qed

lemma keeps_wake_senders: "keeps_values w (wake_senders rs w)"
proof (induction rs arbitrary: w)
  case (Cons r rs)
  from keeps_values_trans [OF keeps_values_trans [OF keeps_steps(8) keeps_steps(1)] Cons] show ?case by simp
qed simp

lemma close_content:
  assumes c: "chan_at j w = Some c" and ok: "tasks_ok w"
  shows "chan_content h w = chan_content h (snd (chan_close j w)) @ (if j = h then map (sent_value w) (mc_send c) else [])"
proof (cases "mc_closed c")
  case True
  then have "mc_send c = []" using ok_butD(4) [OF ok c] by (simp add: chan_ok_def chan_shape_def)
  then show ?thesis using c True by (simp add: chan_close_def)
next
  case False
  let ?w = "set_chan j (c\<lparr>mc_closed := True, mc_recv := [], mc_send := []\<rparr>) w"
  have "keeps_values ?w (snd (chan_close j w))"
    using keeps_values_trans [OF keeps_wake_receivers keeps_wake_senders] False c by (simp add: chan_close_def)
  from keeps_content [OF this, of h] have e: "chan_content h (snd (chan_close j w)) = chan_content h ?w" .
  have sv: "sent_value ?w = sent_value w" by (simp add: fun_eq_iff sent_value_def tk_simps)
  show ?thesis
  proof (cases "h = j")
    case True
    then show ?thesis using c e by (simp add: chan_content_def queued_def tk_simps)
  next
    case h: False
    then have "chan_content h ?w = chan_content h w"
      by (cases "chan_at h w") (auto simp: chan_content_def queued_def tk_simps sv)
    then show ?thesis using h e by simp
  qed
qed

lemma new_entry_content:
  assumes ok: "tasks_ok w" and e: "\<And>c. e = ValueChan c \<Longrightarrow> mc_q c = [] \<and> mc_send c = []"
  shows "chan_content h (w\<lparr>tk_entries := (tk_entries w)(tk_next w := Some e), tk_next := tk_next w + 1\<rparr>) = chan_content h w"
proof -
  have "chan_at (tk_next w) w = None" using ok_butD(9) [OF ok order_refl] by (simp add: chan_at_def)
  moreover have "sent_value (w\<lparr>tk_entries := (tk_entries w)(tk_next w := Some e), tk_next := tk_next w + 1\<rparr>) = sent_value w"
    by (simp add: fun_eq_iff sent_value_def)
  ultimately show ?thesis
    using e by (cases e; cases "h = tk_next w"; cases "chan_at h w") (auto simp: chan_content_def queued_def chan_at_def)
qed

lemma call_content:
  assumes ok: "tasks_ok w" and t: "tk_current w = Some t"
  shows "taken null e (Call q) h w @ chan_content h (snd (call null e t q w)) @ given_up null e (Call q) h w
    = chan_content h w @ values_entered null e (Call q) h w"
proof (cases q)
  case (Send j v)
  then show ?thesis using send_content [OF ok t refl, of null e j v h] t by (auto simp: taken_def values_entered_def given_up_def)
next
  case (Recv j)
  then show ?thesis using recv_content(1) [OF ok t, of null e j h] t by (simp add: taken_def values_entered_def given_up_def)
next
  case (TryRecv j)
  then show ?thesis using recv_content(2) [OF ok t, of null e j h] t by (simp add: taken_def values_entered_def given_up_def)
next
  case (Select cs)
  have none: "scanned h hs t w (Threw s, w) = []" for hs s by (simp add: scanned_def)
  have "taken_by null e t (Select cs) h w @ chan_content h (snd (chan_select null e t cs w)) = chan_content h w"
    using select_pass_content [OF ok t] by (cases cs) (simp_all add: chan_select_def none)
  then show ?thesis using Select t by (simp add: taken_def values_entered_def given_up_def)
next
  case (Close j)
  have "chan_content h w = chan_content h (snd (chan_close j w)) @ given_up null e (Call (Close j)) h w"
  proof (cases "chan_at j w")
    case (Some c)
    then show ?thesis using close_content [OF Some ok, of h] by (auto simp: given_up_def)
  qed (auto simp: chan_close_def given_up_def)
  then show ?thesis using Close t by (simp add: taken_def values_entered_def)
next
  case (Make n)
  have "chan_content h (snd (chan_make n w)) = chan_content h w"
    using new_entry_content [OF ok, of "ValueChan \<lparr>mc_q = [], mc_cap = n, mc_closed = False, mc_recv = [], mc_send = []\<rparr>" h]
    by (simp add: chan_make_def set_chan_def)
  then show ?thesis using Make t by (simp add: taken_def values_entered_def given_up_def)
next
  case (Readable p)
  then show ?thesis
    using new_entry_content [OF ok, of Readiness h] t
    by (simp add: taken_def values_entered_def given_up_def chan_readable_def add_readiness_def)
next
  case NewReadiness
  then show ?thesis
    using new_entry_content [OF ok, of Readiness h] t by (simp add: taken_def values_entered_def given_up_def add_readiness_def)
next
  case (Wait p)
  have "chan_content h (snd (wait_readable e t p w)) = chan_content h w"
    by (simp add: wait_readable_def park_in_enter)
  then show ?thesis using Wait t by (simp add: taken_def values_entered_def given_up_def)
qed (use t in \<open>simp add: taken_def values_entered_def given_up_def\<close>)


lemma unwind_content: "no_sender t w \<Longrightarrow> chan_content h (unwind t w) = chan_content h w"
  by (rule same_values_content [OF same_unwind])

lemma in_send_frame: "ok_but T w \<Longrightarrow> tk_frames w t = Some f \<Longrightarrow> (\<And>h. f \<noteq> InSend h) \<Longrightarrow> no_sender t w"
  using ok_butD(4) [of T w] by (fastforce simp: no_sender_def chan_ok_def send_ref_def)

lemma subseq_remove1: "subseq (map f (remove1 x xs)) (map f xs)"
  by (induction xs) auto

lemma mset_remove1_map: "x \<in> set xs \<Longrightarrow> mset (map f xs) = mset (map f (remove1 x xs)) + {#f x#}"
  by (induction xs) auto

lemma resume_send_content:
  assumes ok: "ok_but {t} w" and f: "tk_frames w t = Some (InSend j)" and why: "woken_for w t (InSend j)"
  shows "subseq (chan_content h (snd (resume_send t j w))) (chan_content h w)
    \<and> mset (chan_content h w) = mset (chan_content h (snd (resume_send t j w)))
        + mset (if j = h then thrown_value (fst (resume_send t j w)) h t w else [])"
proof -
  note P = resumed_plain [OF ok f disjI1 [OF refl]]
  let ?me = "the (tk_waiters w (t, 0))"
  show ?thesis
  proof (cases "cw_ok ?me \<or> t \<notin> tk_cancel w \<and> cw_woken_closed ?me")
    case True
    then have "in_no_queue w (t, k)" for k using P(2) by auto
    then have n: "no_sender t w" by (fastforce simp: no_sender_def in_no_queue_def)
    then have "thrown_value res h t w = []" for res
      by (fastforce simp: thrown_value_def sender_queued_def no_sender_def split: chan_result.split option.split)
    moreover have "snd (resume_send t j w) = unwind t w" using True by (auto simp: resume_send_def Let_def)
    ultimately show ?thesis using unwind_content [OF n] by simp
  next
    case False
    then have c: "t \<in> tk_cancel w" "\<not> cw_ok ?me" using why by auto
    obtain ch where ch: "chan_at j w = Some ch" using ok_butD(6) [OF ok f] by auto
    let ?ch = "ch\<lparr>mc_send := remove1 (t, 0) (mc_send ch)\<rparr>"
    have d: "distinct (mc_send ch)" using ok_butD(4) [OF ok ch] by (simp add: chan_ok_def chan_shape_def)
    have "no_sender t (set_chan j ?ch w)"
      unfolding no_sender_def
    proof (intro allI impI ballI)
      fix i c r assume c: "chan_at i (set_chan j ?ch w) = Some c" and r: "r \<in> set (mc_send c)"
      show "fst r \<noteq> t"
      proof
        assume "fst r = t"
        then have r': "r = (t, snd r)" by (cases r) auto
        show False
        proof (cases "i = j")
          case True
          then have "(t, snd r) \<in> set (mc_send ch)" "r \<noteq> (t, 0)" using c r r' d by (auto simp: tk_simps)
          then show False using P(4) [OF ch] r' by fastforce
        next
          case False
          then show False using c r r' P(4) [of i c "snd r"] by (auto simp: tk_simps)
        qed
      qed
    qed
    from unwind_content [OF this] have e: "chan_content h (snd (resume_send t j w)) = chan_content h (set_chan j ?ch w)"
      using c ch by (simp add: resume_send_def drop_sender_def Let_def)
    have sv: "sent_value (set_chan j ?ch w) = sent_value w" by (simp add: fun_eq_iff sent_value_def tk_simps)
    show ?thesis
    proof (cases "h = j")
      case True
      have "chan_content h (set_chan j ?ch w) = mc_q ch @ map (sent_value w) (remove1 (t, 0) (mc_send ch))"
        using True by (simp add: chan_content_def queued_def tk_simps sv)
      moreover have "chan_content h w = mc_q ch @ map (sent_value w) (mc_send ch)" using True ch by (simp add: chan_content_chan)
      moreover have "subseq (mc_q ch @ map (sent_value w) (remove1 (t, 0) (mc_send ch))) (mc_q ch @ map (sent_value w) (mc_send ch))"
        by (rule list_emb_append_mono [OF subseq_order.refl subseq_remove1])
      moreover have "thrown_value (fst (resume_send t j w)) h t w = (if (t, 0) \<in> set (mc_send ch) then [sent_value w (t, 0)] else [])"
        using c True ch by (simp add: thrown_value_def sender_queued_def resume_send_def Let_def)
      ultimately show ?thesis using e True mset_remove1_map [of "(t, 0)" "mc_send ch" "sent_value w"]
        by (auto simp: remove1_idem)
    next
      case False
      have "chan_content h (set_chan j ?ch w) = chan_content h w"
        using False by (cases "chan_at h w") (auto simp: chan_content_def queued_def tk_simps sv)
      then show ?thesis using e False by simp
    qed
  qed
qed

lemma drop_cases_keeps: "keeps_values w (drop_cases t i hs w)"
proof (induction t i hs w rule: drop_cases.induct)
  case (2 t i h hs w)
  show ?case
  proof (cases "chan_at h w")
    case (Some c)
    have "keeps_values w (set_chan h (c\<lparr>mc_recv := filter (\<lambda>r. r \<noteq> (t, i)) (mc_recv c)\<rparr>) w)"
      by (rule keeps_set_chan [OF Some]) simp_all
    from keeps_values_trans [OF this] show ?thesis using 2 Some by simp
  qed (use 2 in simp)
qed simp

lemma leave_select_content:
  assumes ok: "ok_but {t} w" and f: "tk_frames w t = Some (InSelect hs)"
  shows "chan_content h (leave_select t hs w) = chan_content h w"
proof -
  let ?v = "drop_cases t 0 hs w"
  let ?u = "?v\<lparr>tk_io_list := filter (\<lambda>r. fst r \<noteq> t) (tk_io_list ?v)\<rparr>"
  have k: "keeps_values w ?u" by (rule keeps_values_trans [OF drop_cases_keeps keeps_fields]) simp_all
  have "no_sender t w" by (rule in_send_frame [OF ok f]) simp
  moreover have "same_values t w (unwind t ?u)" by (rule same_values_trans [OF keeps_same [OF k] same_unwind])
  ultimately show ?thesis using same_values_content by (simp add: leave_select_def Let_def)
qed

lemma leave_select_chan: "chan_at h (leave_select t hs w) = None \<longleftrightarrow> chan_at h w = None"
proof -
  have "queued (drop_cases t 0 hs w) h = queued w h" using drop_cases_keeps [of w t 0 hs] by (simp add: keeps_values_def)
  then have "chan_at h (drop_cases t 0 hs w) = None \<longleftrightarrow> chan_at h w = None"
    by (cases "chan_at h (drop_cases t 0 hs w)"; cases "chan_at h w") (auto simp: queued_def)
  moreover have "chan_at h (leave_select t hs w) = chan_at h (drop_cases t 0 hs w)"
    by (simp add: leave_select_def Let_def unwind_def chan_at_def)
  ultimately show ?thesis by simp
qed

lemma dispatch_content:
  assumes ok: "tasks_ok w" and cur: "tk_current w = None"
  shows "subseq (taken null e Dispatch h w @ chan_content h (snd (dispatch null e w))) (chan_content h w)
    \<and> mset (chan_content h w) = mset (taken null e Dispatch h w @ chan_content h (snd (dispatch null e w)))
        + mset (given_up null e Dispatch h w)"
proof (cases "tk_ready w")
  case Nil
  then show ?thesis using cur by (simp add: taken_def dispatch_def given_up_def)
next
  case (Cons t ts)
  let ?w = "w\<lparr>tk_current := Some t, tk_ready := ts\<rparr>"
  note ok1 = dispatch_ok(1) [OF ok Cons] and why = dispatch_ok(2) [OF ok Cons]
  have c0: "chan_content h ?w = chan_content h w" by (rule keeps_content, rule keeps_fields) simp_all
  have "sent_value ?w = sent_value w" "chan_at h ?w = chan_at h w"
    by (simp_all add: fun_eq_iff sent_value_def chan_at_def)
  then have thrown: "thrown_value res h t ?w = thrown_value res h t w" for res
    by (cases res) (simp_all add: thrown_value_def sender_queued_def)
  have d: "dispatch null e w = resume null e t ?w" using Cons by (simp add: dispatch_def)
  show ?thesis
  proof (cases "tk_frames w t")
    case None
    then show ?thesis using c0 cur Cons d by (simp add: taken_def resume_def given_up_def)
  next
    case (Some f)
    then have f: "tk_frames ?w t = Some f" by simp
    have kept: ?thesis if "taken null e Dispatch h w @ chan_content h (snd (dispatch null e w)) = chan_content h w" "\<And>j. f \<noteq> InSend j"
      using that Some Cons by (simp add: given_up_def)
    show ?thesis
    proof (cases f)
      case (InSend j)
      have "given_up null e Dispatch h w = (if j = h then thrown_value (fst (resume_send t j ?w)) h t ?w else [])"
        using Cons Some InSend d thrown by (simp add: given_up_def resume_def)
      then show ?thesis
        using resume_send_content [OF ok1 f [unfolded InSend] why [OF Some, unfolded InSend], of h] Some InSend c0 cur Cons d
        by (simp add: taken_def resume_def)
    next
      case (InRecv j)
      have ns: "no_sender t ?w" by (rule in_send_frame [OF ok1 f]) (simp add: InRecv)
      have k: "keeps_values ?w (drop_receiver j r ?w)" for r
        by (auto simp: drop_receiver_def split: option.split intro: keeps_set_chan)
      have "same_values t ?w (unwind t (drop_receiver j r ?w))" for r
        by (rule same_values_trans [OF keeps_same [OF k] same_unwind])
      then have "chan_content h (unwind t (drop_receiver j r ?w)) = chan_content h ?w" for r
        using same_values_content ns by blast
      then have "chan_content h (snd (resume_recv null t j ?w)) = chan_content h w"
        using c0 unwind_content [OF ns] by (simp add: resume_recv_def Let_def)
      then show ?thesis using Some InRecv cur Cons d by (intro kept) (simp_all add: taken_def resume_def)
    next
      case (InSelect hs)
      let ?l = "leave_select t hs ?w"
      have l: "chan_content h ?l = chan_content h w" using leave_select_content [OF ok1] f InSelect c0 by simp
      have lok: "tasks_ok ?l" "tk_current ?l = Some t"
        using leave_select_ok [OF ok1] f InSelect by (simp_all add: leave_select_frame)
      show ?thesis
      proof (cases "sg_fired (the (tk_groups w t))")
        case (Some i)
        have "chan_content h (snd (dispatch null e w)) = chan_content h w"
          using Some l \<open>tk_frames w t = Some f\<close> InSelect d by (simp add: resume_def resume_select_def Let_def)
        moreover have "taken null e Dispatch h w = []"
          using Some \<open>tk_frames w t = Some f\<close> InSelect cur Cons by (simp add: taken_def)
        ultimately show ?thesis using InSelect by (intro kept) simp_all
      next
        case None
        have "chan_at h ?l = None \<longleftrightarrow> chan_at h w = None"
          using leave_select_chan [of h t hs ?w] by (simp add: chan_at_def)
        then have sc: "scanned h hs t w res = scanned h hs t ?l res" for res
          by (auto simp: scanned_def split: chan_result.split)
        have "scanned h hs t w (dispatch null e w) @ chan_content h (snd (dispatch null e w)) = chan_content h w"
          using None l \<open>tk_frames w t = Some f\<close> InSelect d select_pass_content [OF lok, of h hs null e]
          by (simp add: resume_def resume_select_def Let_def sc) (simp add: scanned_def)
        moreover have "taken null e Dispatch h w = scanned h hs t w (dispatch null e w)"
          using None \<open>tk_frames w t = Some f\<close> InSelect cur Cons by (simp add: taken_def)
        ultimately show ?thesis using InSelect by (intro kept) simp_all
      qed
    next
      case (InWait p)
      have ns: "no_sender t ?w" by (rule in_send_frame [OF ok1 f]) (simp add: InWait)
      have "same_values t ?w (unwind t (io_unregister (t, 0) ?w))"
        by (rule same_values_trans [OF keeps_same [OF keeps_fields] same_unwind]) (simp_all add: io_unregister_def)
      from same_values_content [OF this ns] have "chan_content h (snd (resume_wait t ?w)) = chan_content h w"
        using c0 by (simp add: resume_wait_def Let_def)
      then show ?thesis using Some InWait cur Cons d by (intro kept) (simp_all add: taken_def resume_def)
    qed
  qed
qed

lemma step_content:
  assumes "tk_step null e a w w'" and ok: "tasks_ok w"
  shows "subseq (taken null e a h w @ chan_content h w') (chan_content h w @ values_entered null e a h w)
    \<and> mset (chan_content h w @ values_entered null e a h w) = mset (taken null e a h w @ chan_content h w') + mset (given_up null e a h w)"
  using assms(1)
proof cases
  case (call t q)
  let ?u = "given_up null e a h w"
  have eq: "taken null e a h w @ chan_content h w' @ ?u = chan_content h w @ values_entered null e a h w"
    using call_content [OF ok call(3), of null e q h] call(1,2) by simp
  have "subseq (taken null e a h w @ chan_content h w') (taken null e a h w @ chan_content h w' @ ?u)"
    by (rule prefix_imp_subseq) simp
  then show ?thesis unfolding eq [symmetric] by simp
next
  case dispatch
  have "values_entered null e a h w = []" using dispatch(1) by (simp add: values_entered_def)
  then show ?thesis using dispatch_content [OF ok dispatch(3), of null e h] dispatch(1,2) by simp
next
  case (yield t)
  have "chan_content h w' = chan_content h w" using keeps_content [OF keeps_yield] yield(2) by simp
  then show ?thesis using yield(1) by (simp add: taken_def values_entered_def given_up_def)
next
  case (spawn t u)
  then show ?thesis by (simp add: taken_def values_entered_def given_up_def)
next
  case (exit t)
  have "chan_content h w' = chan_content h w" unfolding exit(2) by (rule keeps_content, rule keeps_fields) simp_all
  then show ?thesis using exit(1) by (simp add: taken_def values_entered_def given_up_def)
next
  case (cancel t u)
  have "chan_content h w' = chan_content h w" using keeps_content [OF keeps_cancel] cancel(2) by simp
  then show ?thesis using cancel(1) by (simp add: taken_def values_entered_def given_up_def)
next
  case io_pass
  have "chan_content h w' = chan_content h w"
    using keeps_content [OF keeps_io_probe] io_pass(2) by (simp add: io_probe_and_fire_def)
  then show ?thesis using io_pass(1) by (simp add: taken_def values_entered_def given_up_def)
next
  case (closing t p)
  have "chan_content h w' = chan_content h w" using keeps_content [OF keeps_closing] closing(2) by simp
  then show ?thesis using closing(1) by (simp add: taken_def values_entered_def given_up_def)
qed


section \<open>Histories\<close>

text \<open>
  A run with the history of channel \<open>h\<close>: what entered it, what was taken from it and what was given
  up, each in order.
\<close>

inductive chan_history :: "'v \<Rightarrow> int \<Rightarrow> 'v list \<Rightarrow> 'v list \<Rightarrow> 'v list \<Rightarrow> 'v tasks \<Rightarrow> bool" for null h where
  start: "chan_history null h [] [] [] (tk_init null)" |
  more: "chan_history null h ins outs lost w \<Longrightarrow> tk_step null e a w w' \<Longrightarrow>
    chan_history null h (ins @ values_entered null e a h w) (outs @ taken null e a h w) (lost @ given_up null e a h w) w'"

lemma history_ok: "chan_history null h ins outs lost w \<Longrightarrow> tasks_ok w"
  by (induction rule: chan_history.induct) (auto intro: tk_init_ok tk_step_ok)

section \<open>Properties\<close>



text \<open>
  A closed channel.  In every reachable state, sending to a closed channel and closing it
  again throw and change nothing, and a receive drains the buffer first and then answers false
  with a null value, without parking.
\<close>

theorem closed_channel:
  assumes "tk_run null as w" and "chan_at h w = Some c" and "mc_closed c" and "t \<notin> tk_cancel w"
  shows "chan_send t h v w = (Threw ''send on closed channel'', w)
    \<and> chan_close h w = (Threw ''close of closed channel'', w)
    \<and> chan_recv null t h w = (case mc_q c of
        [] \<Rightarrow> (Returned 0, set_out t null w)
      | x # q \<Rightarrow> (Returned 1, set_chan h (c\<lparr>mc_q := q\<rparr>) (set_out t x w)))"
proof -
  have "mc_send c = []"
    using ok_butD(4) [OF tk_run_ok [OF assms(1)] assms(2)] assms(3) by (simp add: chan_ok_def chan_shape_def)
  then show ?thesis
    using assms(2-4) by (simp add: chan_send_def chan_close_def chan_recv_def chan_poll_recv_def split: list.split)
qed

theorem closed_channel_witness:
  "fst (chan_send 0 1 (7::nat) (snd (call 0 quiet_outside 0 (Close 1) (snd (call 0 quiet_outside 0 (Make 1) (tk_init 0))))))
    = Threw ''send on closed channel''"
proof -
  let ?b = "snd (call (0::nat) quiet_outside 0 (Make 1) (tk_init 0))"
  let ?w = "snd (call 0 quiet_outside 0 (Close 1) ?b)"
  have "tk_current (tk_init (0::nat)) = Some 0" "tk_current ?b = Some 0" by code_simp+
  then have "\<exists>as. tk_run 0 as ?w" by (intro call_run start_run)
  then obtain as where run: "tk_run 0 as ?w" by blast
  have c: "chan_at 1 ?w = Some \<lparr>mc_q = [], mc_cap = 1, mc_closed = True, mc_recv = [], mc_send = []\<rparr>"
    "0 \<notin> tk_cancel ?w" by code_simp+
  show ?thesis using closed_channel [OF run c(1) _ c(2), of 7] by simp
qed

text \<open>
  A wake-up has a reason.  A task that comes back from its park in a send or a receive was
  completed by a peer, cancelled, or woken by the close, and answers accordingly: true exactly
  when the value was handed over, so no receive reports success without a value.
\<close>

theorem resumed_with_reason:
  assumes "tk_run null as w" and "tk_ready w = t # ts"
  shows "case tk_frames w t of
      Some (InRecv h) \<Rightarrow> fst (dispatch null e w) =
        (if cw_ok (the (tk_waiters w (t, 0))) then Returned 1
         else if t \<in> tk_cancel w then Threw cancelled_text else Returned 0)
    | Some (InSend h) \<Rightarrow> fst (dispatch null e w) =
        (if cw_ok (the (tk_waiters w (t, 0))) then Returned 1
         else if t \<in> tk_cancel w then Threw cancelled_text else Threw ''send on closed channel'')
    | _ \<Rightarrow> True"
proof -
  note why = dispatch_ok(2) [OF tk_run_ok [OF assms(1)] assms(2)]
  show ?thesis
    using why assms(2)
    by (auto simp: dispatch_def resume_def resume_recv_def resume_send_def Let_def split: option.split wait_frame.split)
qed

theorem resumed_with_reason_witness:
  "fst (dispatch (0::nat) quiet_outside (snd (call 0 quiet_outside 1 (Send 1 9) (snd (dispatch 0 quiet_outside (snd (call 0 quiet_outside 0 (Recv 1)
     (task_enqueue 1 (snd (call 0 quiet_outside 0 (Make 0) (tk_init 0)))))))))\<lparr>tk_current := None\<rparr>)) = Returned 1"
proof -
  let ?b = "snd (call (0::nat) quiet_outside 0 (Make 0) (tk_init 0))"
  let ?c = "task_enqueue 1 ?b"
  let ?d = "snd (call 0 quiet_outside 0 (Recv 1) ?c)"
  let ?f = "snd (dispatch 0 quiet_outside ?d)"
  let ?g = "snd (call 0 quiet_outside 1 (Send 1 9) ?f)"
  have cur: "tk_current (tk_init (0::nat)) = Some 0" "tk_current ?b = Some 0" "tk_current ?c = Some 0" "tk_current ?d = None"
    "tk_current ?f = Some 1" "tk_current ?g = Some 1" by code_simp+
  have "\<not> is_live 1 ?b" "1 \<notin> tk_cancel ?b" by code_simp+
  note spawn = tk_step.spawn [OF cur(2) this, of 0 quiet_outside]
  obtain as where "tk_run 0 as ?b" using call_run [OF start_run cur(1)] by blast
  from tk_run.more [OF this spawn] have "\<exists>as. tk_run 0 as ?c" by (rule exI)
  from call_run [OF this cur(3)] obtain bs where "tk_run 0 bs ?d" by blast
  from tk_run.more [OF this tk_step.dispatch [OF cur(4)]] have "\<exists>as. tk_run 0 as ?f" by (rule exI)
  from call_run [OF this cur(5)] obtain cs where "tk_run 0 cs ?g" by blast
  from tk_run.more [OF this tk_step.exit [OF cur(6)]] have "\<exists>as. tk_run 0 as (?g\<lparr>tk_current := None\<rparr>)" by (rule exI)
  then obtain ds where run: "tk_run 0 ds (?g\<lparr>tk_current := None\<rparr>)" by blast
  have r: "tk_ready (?g\<lparr>tk_current := None\<rparr>) = [0]" "tk_frames (?g\<lparr>tk_current := None\<rparr>) 0 = Some (InRecv 1)"
    "cw_ok (the (tk_waiters (?g\<lparr>tk_current := None\<rparr>) (0, 0)))" by code_simp+
  show ?thesis using resumed_with_reason [OF run r(1), of quiet_outside] r(2,3) by simp
qed

section \<open>A select does not look at the cancellation before it parks\<close>

text \<open>
  The contract of the blocking verbs is to throw before parking as well as on resume.  A receive
  does; a select of a cancelled task parks, and since the request that would have woken it is in
  the past, no one puts the task on the ready queue.
\<close>

lemma cancelled_select_parks:
  assumes "chan_at h w = Some c" and "mc_q c = []" and "mc_send c = []" and "\<not> mc_closed c"
    and "t \<in> tk_cancel w" and "tk_frames w t = None" and "t \<notin> set (tk_ready w)"
  shows "fst (chan_recv null t h w) = Threw cancelled_text"
    and "fst (chan_select null e t (Some [h]) w) = Parked"
    and "t \<notin> set (tk_ready (snd (chan_select null e t (Some [h]) w)))"
proof -
  have "tk_entries w h \<noteq> None" using chan_at_entry [OF assms(1)] by simp
  moreover have "chan_poll_recv t h c w = (0, w)" using assms(2-4) by (simp add: chan_poll_recv_def)
  moreover have "chan_at h (w\<lparr>tk_groups := g\<rparr>) = Some c" for g using assms(1) by (simp add: chan_at_def)
  ultimately show "fst (chan_select null e t (Some [h]) w) = Parked"
    and "t \<notin> set (tk_ready (snd (chan_select null e t (Some [h]) w)))"
    using assms by (simp_all add: chan_select_def select_pass_def park_in_enter tk_simps Let_def)
  show "fst (chan_recv null t h w) = Threw cancelled_text" using assms(5) by (simp add: chan_recv_def)
qed

end
