(* ===== verification/KeyNames.thy ===== *)
theory KeyNames
  imports Prelude
begin

text \<open>
  The key vocabulary and its spelling, from \<^verbatim>\<open>include/madcdis/keys.h\<close> (\<open>tui_keyev\<close>,
  \<open>key_normalized\<close>, \<open>key_lookups\<close>, \<open>tui_key_name\<close>, \<open>tui_key_from_name\<close>) over the enumerations of
  \<^verbatim>\<open>include/madc/bits/ui_enums\<close>.  The modifiers of a key are the bits of an unsigned char.  A
  \<open>char\<close> that the code compares with a letter or a digit is a byte; the comparisons it makes have
  the same outcome for a signed \<open>char\<close>.  The primary modifier is that of a platform other than macOS.
\<close>

unbundle bit_operations_syntax

section \<open>Keys\<close>

datatype tui_key = KNone | KCh | KCtrl | KEnter | KTab | KBackspace | KEsc | KUp | KDown | KLeft | KRight
  | KHome | KEnd | KPgup | KPgdn | KDel | KIns | KResize | KWake | KFkey | KPointer

datatype tui_button = ButtonLeft | ButtonMiddle | ButtonRight | WheelUp | WheelDown

datatype pointer_phase = PhaseDown | PhaseDrag | PhaseUp

type_synonym key_mods = "8 word"

definition mod_shift :: key_mods where "mod_shift = 1"
definition mod_alt :: key_mods where "mod_alt = 2"
definition mod_ctrl :: key_mods where "mod_ctrl = 4"
definition mod_cmd :: key_mods where "mod_cmd = 8"

lemmas mod_defs = mod_shift_def mod_alt_def mod_ctrl_def mod_cmd_def

record tui_keyev =
  key_kind :: tui_key
  key_ch :: char
  key_mods :: key_mods
  key_row :: "16 word"
  key_col :: "16 word"
  key_button :: tui_button
  key_phase :: pointer_phase

definition no_char :: char where
  "no_char = CHR 0x00"

definition keyev :: "tui_key \<Rightarrow> char \<Rightarrow> key_mods \<Rightarrow> tui_keyev" where
  "keyev k c m = \<lparr>key_kind = k, key_ch = c, key_mods = m, key_row = 0, key_col = 0,
     key_button = ButtonLeft, key_phase = PhaseDown\<rparr>"

lemma keyev_simps [simp]:
  "key_kind (keyev k c m) = k" "key_ch (keyev k c m) = c" "key_mods (keyev k c m) = m"
  "(keyev k c m)\<lparr>key_kind := k'\<rparr> = keyev k' c m"
  "(keyev k c m)\<lparr>key_ch := c'\<rparr> = keyev k c' m"
  "(keyev k c m)\<lparr>key_mods := m'\<rparr> = keyev k c m'"
  "keyev k c m = keyev k' c' m' \<longleftrightarrow> k = k' \<and> c = c' \<and> m = m'"
  by (simp_all add: keyev_def)

section \<open>Modifiers\<close>

definition holds_mod :: "key_mods \<Rightarrow> key_mods \<Rightarrow> bool" where
  "holds_mod m b \<longleftrightarrow> m AND b \<noteq> 0"

definition key_holds_chord_mods :: "tui_keyev \<Rightarrow> bool" where
  "key_holds_chord_mods k \<longleftrightarrow> key_kind k = KCtrl \<or> holds_mod (key_mods k) (mod_alt OR mod_ctrl OR mod_cmd)"

definition key_types :: "tui_keyev \<Rightarrow> bool" where
  "key_types k \<longleftrightarrow> key_kind k = KCh \<and> \<not> key_holds_chord_mods k"

definition key_unmodified :: "tui_keyev \<Rightarrow> tui_keyev" where
  "key_unmodified k = keyev (key_kind k) (key_ch k) 0"

definition key_without_shift :: "tui_keyev \<Rightarrow> tui_keyev" where
  "key_without_shift k = keyev (key_kind k) (key_ch k) (key_mods k AND NOT mod_shift)"

definition key_lookups :: "tui_keyev \<Rightarrow> tui_keyev list" where
  "key_lookups k =
     (let out = (if holds_mod (key_mods k) mod_shift then [k, key_without_shift k] else [k])
      in if key_mods k \<noteq> 0 \<and> key_mods (last out) \<noteq> 0 then out @ [key_unmodified k] else out)"

definition key_primary_mod :: key_mods where
  "key_primary_mod = mod_ctrl"

definition to_lower :: "char \<Rightarrow> char" where
  "to_lower c = (if isupper c then char_of (byte c + 32) else c)"

definition ctrl_punct :: "char \<Rightarrow> bool" where
  "ctrl_punct c \<longleftrightarrow> c = CHR 0x5C \<or> c = CHR '']'' \<or> c = CHR ''^'' \<or> c = CHR ''_''"

definition key_normalized :: "tui_keyev \<Rightarrow> tui_keyev" where
  "key_normalized k =
     (let k = (if key_kind k = KCtrl then k\<lparr>key_mods := key_mods k AND NOT mod_ctrl\<rparr> else k);
          k = (if key_kind k = KCh \<and> holds_mod (key_mods k) mod_ctrl
               then let c = to_lower (key_ch k)
                    in if islower c \<or> ctrl_punct c
                       then k\<lparr>key_kind := KCtrl, key_ch := c, key_mods := key_mods k AND NOT mod_ctrl\<rparr> else k
               else k);
          k = (if key_kind k = KCh \<and> key_holds_chord_mods k \<and> isupper (key_ch k)
               then k\<lparr>key_ch := to_lower (key_ch k)\<rparr> else k)
      in if key_kind k = KCh \<and> key_mods k = mod_shift then k\<lparr>key_mods := 0\<rparr> else k)"

section \<open>From a key to its spelling\<close>

fun named_key :: "tui_key \<Rightarrow> string" where
  "named_key KEnter = ''enter''" |
  "named_key KTab = ''tab''" |
  "named_key KBackspace = ''backspace''" |
  "named_key KEsc = ''esc''" |
  "named_key KUp = ''up''" |
  "named_key KDown = ''down''" |
  "named_key KLeft = ''left''" |
  "named_key KRight = ''right''" |
  "named_key KHome = ''home''" |
  "named_key KEnd = ''end''" |
  "named_key KPgup = ''pgup''" |
  "named_key KPgdn = ''pgdn''" |
  "named_key KDel = ''del''" |
  "named_key KIns = ''ins''" |
  "named_key _ = ''''"

text \<open>A function key's number is a \<open>char\<close>.\<close>

definition fkey_number :: "char \<Rightarrow> bool" where
  "fkey_number c \<longleftrightarrow> 1 \<le> byte c \<and> byte c \<le> 12"

definition tui_key_base_name :: "tui_keyev \<Rightarrow> string" where
  "tui_key_base_name k =
     (case key_kind k of
        KCh \<Rightarrow> (if key_ch k = CHR '' '' then ''space'' else [key_ch k])
      | KCtrl \<Rightarrow> [CHR ''^'', key_ch k]
      | KFkey \<Rightarrow> (if fkey_number (key_ch k) then CHR ''f'' # to_string (byte (key_ch k)) else '''')
      | n \<Rightarrow> named_key n)"

definition mod_words :: "tui_keyev \<Rightarrow> string" where
  "mod_words k =
     (if key_kind k = KCtrl \<or> holds_mod (key_mods k) mod_ctrl then ''ctrl+'' else '''')
     @ (if holds_mod (key_mods k) mod_shift then ''shift+'' else '''')
     @ (if holds_mod (key_mods k) mod_alt then ''alt+'' else '''')
     @ (if holds_mod (key_mods k) mod_cmd then ''cmd+'' else '''')"

definition tui_key_name :: "tui_keyev \<Rightarrow> string" where
  "tui_key_name k =
     (if key_mods k = 0 then tui_key_base_name k
      else let base = (if key_kind k = KCtrl then [key_ch k]
                       else if key_kind k = KCh \<and> key_ch k = CHR ''+'' then ''plus''
                       else tui_key_base_name (key_unmodified k))
           in if base = '''' then '''' else mod_words k @ base)"

section \<open>From a spelling to its key\<close>

definition key_rows :: "(string \<times> tui_key) list" where
  "key_rows = [(''space'', KCh), (''enter'', KEnter), (''tab'', KTab), (''backspace'', KBackspace), (''esc'', KEsc),
     (''up'', KUp), (''down'', KDown), (''left'', KLeft), (''right'', KRight), (''home'', KHome), (''end'', KEnd),
     (''pgup'', KPgup), (''pgdn'', KPgdn), (''del'', KDel), (''ins'', KIns)]"

definition printable :: "char \<Rightarrow> bool" where
  "printable c \<longleftrightarrow> 32 \<le> byte c \<and> byte c \<le> 126"

definition fkey_spelling :: "string \<Rightarrow> bool" where
  "fkey_spelling s \<longleftrightarrow> (length s = 2 \<or> length s = 3) \<and> s ! 0 = CHR ''f''
     \<and> 49 \<le> byte (s ! 1) \<and> byte (s ! 1) \<le> 57 \<and> (length s = 2 \<or> isdigit (s ! 2))"

definition tui_key_base_from_name :: "string \<Rightarrow> tui_keyev option" where
  "tui_key_base_from_name s =
     (if s = '''' then None
      else if length s = 2 \<and> s ! 0 = CHR ''^''
      then let c = to_lower (s ! 1)
           in if islower c \<or> ctrl_punct c then Some (keyev KCtrl c 0) else None
      else if length s = 1 \<and> printable (s ! 0) then Some (keyev KCh (s ! 0) 0)
      else if fkey_spelling s
      then let n = digits_val 0 (tl s) in if n < 1 \<or> 12 < n then None else Some (keyev KFkey (char_of n) 0)
      else case map_of key_rows s of
          Some k \<Rightarrow> Some (keyev k (if k = KCh then CHR '' '' else no_char) 0)
        | None \<Rightarrow> None)"

definition key_mod_of_word :: "string \<Rightarrow> key_mods" where
  "key_mod_of_word w =
     (let w = map to_lower w
      in if w = ''ctrl'' then mod_ctrl
         else if w = ''shift'' then mod_shift
         else if w = ''alt'' then mod_alt
         else if w = ''cmd'' then mod_cmd
         else if w = ''primary'' then key_primary_mod
         else 0)"

text \<open>The loop over the modifier words: what it read and the text it stopped at.\<close>

function read_mod_words :: "key_mods \<Rightarrow> string \<Rightarrow> key_mods \<times> string" where
  "read_mod_words m s =
     (case find_char s (CHR ''+'') 0 of
        None \<Rightarrow> (m, s)
      | Some n \<Rightarrow>
          if n = 0 then (m, s)
          else let b = key_mod_of_word (take n s)
               in if b = 0 then (m, s) else read_mod_words (m OR b) (drop (n + 1) s))"
  by auto
termination
  by (relation "measure (length \<circ> snd)") (auto simp: find_char_def char_find_at_eq dest: length_pos_if_in_set split: if_splits)

declare read_mod_words.simps [simp del]

definition tui_key_from_name :: "string \<Rightarrow> tui_keyev option" where
  "tui_key_from_name s =
     (let (m, base) = read_mod_words 0 s
      in if m = 0 then tui_key_base_from_name s
         else map_option (\<lambda>k. key_normalized (k\<lparr>key_mods := key_mods k OR m\<rparr>))
                (if base = ''plus'' \<or> base = ''+'' then Some (keyev KCh (CHR ''+'') 0)
                 else tui_key_base_from_name base))"

end
