(* ===== verification/KeyNameProps.thy ===== *)
theory KeyNameProps
  imports KeyNames
begin

text \<open>
  The spelling of keys: what a spelling reads as is a key in canonical form, and the name of a
  canonical key reads as that key.
\<close>

section \<open>Canonical keys\<close>

definition key_canonical :: "tui_keyev \<Rightarrow> bool" where
  "key_canonical k \<longleftrightarrow> k = keyev (key_kind k) (key_ch k) (key_mods k) \<and> key_mods k < 16
     \<and> (case key_kind k of
          KCh \<Rightarrow> printable (key_ch k) \<and> key_mods k \<noteq> mod_shift
            \<and> (key_holds_chord_mods k \<longrightarrow> \<not> isupper (key_ch k))
            \<and> (holds_mod (key_mods k) mod_ctrl \<longrightarrow> \<not> islower (key_ch k) \<and> \<not> ctrl_punct (key_ch k))
        | KCtrl \<Rightarrow> (islower (key_ch k) \<or> ctrl_punct (key_ch k)) \<and> \<not> holds_mod (key_mods k) mod_ctrl
        | KFkey \<Rightarrow> fkey_number (key_ch k)
        | n \<Rightarrow> named_key n \<noteq> '''' \<and> key_ch k = no_char)"

lemma mods_cases:
  assumes "(m :: key_mods) < 16"
  shows "m \<in> {0, 1, 2, 3, 4, 5, 6, 7, 8, 9, 10, 11, 12, 13, 14, 15}"
proof -
  have "unat m < 16" using assms by (simp add: word_less_nat_alt)
  then have "unat m \<in> {0, 1, 2, 3, 4, 5, 6, 7, 8, 9, 10, 11, 12, 13, 14, 15}" by (simp add: eval_nat_numeral less_Suc_eq)
  then have "word_of_nat (unat m) \<in> (word_of_nat :: nat \<Rightarrow> key_mods) ` {0, 1, 2, 3, 4, 5, 6, 7, 8, 9, 10, 11, 12, 13, 14, 15}"
    by (rule imageI)
  then show ?thesis by simp
qed

lemma to_lower_letter: "islower (to_lower c) \<longleftrightarrow> islower c \<or> isupper c"
  using byte_less [of c] by (auto simp: to_lower_def ctype_defs of_char_of)

lemma to_lower_id: "\<not> isupper c \<Longrightarrow> to_lower c = c"
  by (simp add: to_lower_def)

lemma not_upper_to_lower: "\<not> isupper (to_lower c)"
  using byte_less [of c] by (auto simp: to_lower_def ctype_defs of_char_of)

lemma islower_not_upper: "islower c \<Longrightarrow> \<not> isupper c"
  by (auto simp: ctype_defs)

lemma ctrl_punct_not_upper: "ctrl_punct c \<Longrightarrow> \<not> isupper c \<and> \<not> islower c"
  by (auto simp: ctrl_punct_def ctype_defs)

lemma letter_printable: "islower c \<or> isupper c \<or> ctrl_punct c \<Longrightarrow> printable c"
  by (auto simp: printable_def ctrl_punct_def ctype_defs)

section \<open>The modifier words\<close>

lemma read_word:
  assumes "CHR ''+'' \<notin> set w" and "w \<noteq> ''''" and "key_mod_of_word w = b" and "b \<noteq> 0"
  shows "read_mod_words m (w @ CHR ''+'' # r) = read_mod_words (m OR b) r"
proof -
  have "takeWhile (\<lambda>c. c \<noteq> CHR ''+'') (w @ CHR ''+'' # r) = w"
    using assms(1) by (simp add: takeWhile_append)
  then have "find_char (w @ CHR ''+'' # r) (CHR ''+'') 0 = Some (length w)"
    by (simp add: find_char_def char_find_at_eq)
  then show ?thesis using assms(2-4) by (subst read_mod_words.simps) simp
qed

lemma read_stop: "CHR ''+'' \<notin> set s \<Longrightarrow> read_mod_words m s = (m, s)"
  by (subst read_mod_words.simps) (auto simp: find_char_def char_find_at_eq)

lemma mod_of_word:
  "key_mod_of_word ''ctrl'' = 4" "key_mod_of_word ''shift'' = 1" "key_mod_of_word ''alt'' = 2" "key_mod_of_word ''cmd'' = 8"
  by code_simp+

lemma read_ctrl [simp]: "read_mod_words m (CHR ''c'' # CHR ''t'' # CHR ''r'' # CHR ''l'' # CHR ''+'' # r) = read_mod_words (m OR 4) r"
  using read_word [of "''ctrl''" 4 m r] by (simp add: mod_of_word)

lemma read_shift [simp]:
  "read_mod_words m (CHR ''s'' # CHR ''h'' # CHR ''i'' # CHR ''f'' # CHR ''t'' # CHR ''+'' # r) = read_mod_words (m OR 1) r"
  using read_word [of "''shift''" 1 m r] by (simp add: mod_of_word)

lemma read_alt [simp]: "read_mod_words m (CHR ''a'' # CHR ''l'' # CHR ''t'' # CHR ''+'' # r) = read_mod_words (m OR 2) r"
  using read_word [of "''alt''" 2 m r] by (simp add: mod_of_word)

lemma read_cmd [simp]: "read_mod_words m (CHR ''c'' # CHR ''m'' # CHR ''d'' # CHR ''+'' # r) = read_mod_words (m OR 8) r"
  using read_word [of "''cmd''" 8 m r] by (simp add: mod_of_word)

text \<open>The words of a key's modifiers read as these modifiers, Ctrl included for a control key.\<close>

lemma read_mod_words_of:
  assumes "key_mods k < 16" and "CHR ''+'' \<notin> set base"
  shows "read_mod_words 0 (mod_words k @ base) = (key_mods k OR (if key_kind k = KCtrl then mod_ctrl else 0), base)"
  using mods_cases [OF assms(1)] assms(2)
  by (auto simp: mod_words_def holds_mod_def mod_defs read_stop)

section \<open>Base names\<close>

lemma to_string_small:
  assumes "1 \<le> n" and "n \<le> 12"
  shows "to_string n = (if n < 10 then [digit_char n] else [CHR ''1'', digit_char (n - 10)])"
proof -
  have "n mod 10 = n - 10" "to_string (n div 10) = [CHR ''1'']" if "\<not> n < 10"
  proof -
    have "n div 10 = 1" using assms that by simp
    moreover have "to_string 1 = [CHR ''1'']" by code_simp
    ultimately show "to_string (n div 10) = [CHR ''1'']" by simp
    show "n mod 10 = n - 10" using assms that by (simp add: mod_if)
  qed
  then show ?thesis by (subst to_string.simps) simp
qed

lemma fkey_name:
  assumes "fkey_number c"
  shows "fkey_spelling (CHR ''f'' # to_string (byte c))"
    and "digits_val 0 (to_string (byte c)) = byte c"
    and "CHR ''+'' \<notin> set (to_string (byte c))"
proof -
  have c: "1 \<le> byte c" "byte c \<le> 12" using assms by (auto simp: fkey_number_def)
  show "fkey_spelling (CHR ''f'' # to_string (byte c))"
    using c by (auto simp: fkey_spelling_def to_string_small byte_digit_char digit_char_props)
  show "CHR ''+'' \<notin> set (to_string (byte c))"
    using to_string_digits [of "byte c"] by (auto simp: isdigit_def)
qed (rule digits_val_to_string)

lemma base_fkey: "fkey_number c \<Longrightarrow> tui_key_base_from_name (CHR ''f'' # to_string (byte c)) = Some (keyev KFkey c 0)"
  using fkey_name [of c] to_string_nonempty [of "byte c"]
  by (auto simp: tui_key_base_from_name_def fkey_number_def fkey_spelling_def)

lemma base_char: "printable c \<Longrightarrow> tui_key_base_from_name [c] = Some (keyev KCh c 0)"
  by (simp add: tui_key_base_from_name_def)

lemma base_named:
  assumes "named_key n \<noteq> ''''"
  shows "tui_key_base_from_name (named_key n) = Some (keyev n no_char 0)" and "CHR ''+'' \<notin> set (named_key n)"
  using assms by (cases n; simp; code_simp)+

lemma base_space: "tui_key_base_from_name ''space'' = Some (keyev KCh (CHR '' '') 0)"
  by code_simp

lemma base_ctrl: "islower c \<or> ctrl_punct c \<Longrightarrow> tui_key_base_from_name [CHR ''^'', c] = Some (keyev KCtrl c 0)"
  using ctrl_punct_not_upper [of c] islower_not_upper [of c]
  by (auto simp: tui_key_base_from_name_def to_lower_id)

text \<open>The base of a modified key, read with its modifiers.\<close>

definition key_base :: "tui_keyev \<Rightarrow> string" where
  "key_base k = (if key_kind k = KCtrl then [key_ch k]
     else if key_kind k = KCh \<and> key_ch k = CHR ''+'' then ''plus''
     else tui_key_base_name (key_unmodified k))"

definition read_base :: "string \<Rightarrow> tui_keyev option" where
  "read_base s = (if s = ''plus'' \<or> s = ''+'' then Some (keyev KCh (CHR ''+'') 0) else tui_key_base_from_name s)"

lemma canonical_base:
  assumes "key_canonical k"
  shows "key_base k \<noteq> '''' \<and> CHR ''+'' \<notin> set (key_base k)
    \<and> read_base (key_base k) = Some (keyev (if key_kind k = KCtrl then KCh else key_kind k) (key_ch k) 0)"
proof -
  have named: "key_base k = named_key (key_kind k) \<and> key_ch k = no_char \<and> named_key (key_kind k) \<noteq> ''''"
    if "key_kind k \<noteq> KCh" "key_kind k \<noteq> KCtrl" "key_kind k \<noteq> KFkey"
    using assms that by (cases "key_kind k") (simp_all add: key_canonical_def key_base_def tui_key_base_name_def key_unmodified_def)
  have plus: "named_key (key_kind k) \<noteq> ''plus''" "named_key (key_kind k) \<noteq> ''+''" by (cases "key_kind k"; simp)+
  consider "key_kind k = KCh" | "key_kind k = KCtrl" | "key_kind k = KFkey"
    | "key_kind k \<noteq> KCh" "key_kind k \<noteq> KCtrl" "key_kind k \<noteq> KFkey" by blast
  then show ?thesis
  proof cases
    case 1
    then have "printable (key_ch k)" using assms by (simp add: key_canonical_def)
    then show ?thesis
      using 1 base_char base_space by (auto simp: key_base_def read_base_def tui_key_base_name_def key_unmodified_def)
  next
    case 2
    then have l: "islower (key_ch k) \<or> ctrl_punct (key_ch k)" using assms by (simp add: key_canonical_def)
    then have "key_ch k \<noteq> CHR ''+''" by (auto simp: ctype_defs ctrl_punct_def)
    then show ?thesis using 2 l letter_printable [of "key_ch k"] base_char by (auto simp: key_base_def read_base_def)
  next
    case 3
    then have f: "fkey_number (key_ch k)" using assms by (simp add: key_canonical_def)
    show ?thesis
      using 3 f base_fkey [OF f] fkey_name(3) [OF f]
      by (auto simp: key_base_def read_base_def tui_key_base_name_def key_unmodified_def)
  next
    case 4
    then show ?thesis using named base_named [of "key_kind k"] plus by (simp add: read_base_def)
  qed
qed

section \<open>Reading\<close>

lemma name_of_modified:
  assumes "key_canonical k" and "key_mods k \<noteq> 0"
  shows "tui_key_name k = mod_words k @ key_base k"
  using canonical_base [OF assms(1)] assms(2) by (simp add: tui_key_name_def key_base_def)

lemma normalized_canonical:
  assumes "key_canonical (keyev n c m)" and "m \<noteq> 0"
  shows "key_normalized (keyev (if n = KCtrl then KCh else n) c (m OR (if n = KCtrl then mod_ctrl else 0))) = keyev n c m"
proof -
  have m: "m < 16" using assms(1) by (simp add: key_canonical_def)
  have up: "n = KCtrl \<Longrightarrow> \<not> isupper c"
    using assms(1) ctrl_punct_not_upper islower_not_upper by (auto simp: key_canonical_def)
  note N = key_normalized_def Let_def key_holds_chord_mods_def holds_mod_def mod_defs to_lower_id
  consider "n = KCtrl" | "n = KCh" | "n \<noteq> KCtrl" "n \<noteq> KCh" by blast
  then show ?thesis
  proof cases
    case 1
    have l: "islower c \<or> ctrl_punct c" "\<not> holds_mod m mod_ctrl" using assms(1) 1 by (simp_all add: key_canonical_def)
    show ?thesis using mods_cases [OF m] l(2) 1 by (elim insertE emptyE) (use l(1) up in \<open>simp_all add: N\<close>)
  next
    case 2
    have l: "m \<noteq> mod_shift" "key_holds_chord_mods (keyev KCh c m) \<longrightarrow> \<not> isupper c"
      "holds_mod m mod_ctrl \<longrightarrow> \<not> islower c \<and> \<not> ctrl_punct c" using assms(1) 2 by (simp_all add: key_canonical_def)
    show ?thesis using mods_cases [OF m] assms(2) 2 by (elim insertE emptyE) (use l in \<open>simp_all add: N\<close>)
  next
    case 3
    then show ?thesis by (simp add: key_normalized_def)
  qed
qed

lemma canonical_keyev: "key_canonical k \<Longrightarrow> \<exists>n c m. k = keyev n c m"
  by (auto simp: key_canonical_def)

text \<open>The name of a canonical key reads as the key.\<close>

lemma name_roundtrip:
  assumes "key_canonical k"
  shows "tui_key_from_name (tui_key_name k) = Some k"
proof -
  obtain n c m where k: "k = keyev n c m" using canonical_keyev [OF assms] by blast
  have "m < 16" using assms k by (simp add: key_canonical_def)
  note B = canonical_base [OF assms, unfolded k keyev_simps]
  show ?thesis
  proof (cases "m = 0")
    case True
    have e: "tui_key_name k = tui_key_base_name k" using True k by (simp add: tui_key_name_def)
    show ?thesis
    proof (cases "n = KCtrl \<or> n = KCh \<and> c = CHR ''+''")
      case False
      have "tui_key_base_name k = key_base k"
        using False k True by (simp add: key_base_def tui_key_base_name_def key_unmodified_def)
      moreover have "key_base k \<noteq> ''plus''" "key_base k \<noteq> ''+''"
        using B False k by (auto simp: read_base_def)
      ultimately show ?thesis
        using B e read_stop [of "key_base k" 0] False True k by (simp add: tui_key_from_name_def read_base_def)
    next
      case True
      show ?thesis
      proof (cases "n = KCtrl")
        case True
        then have l: "islower c \<or> ctrl_punct c" using assms k by (simp add: key_canonical_def)
        then have "c \<noteq> CHR ''+''" by (auto simp: ctype_defs ctrl_punct_def)
        then show ?thesis
          using e k \<open>m = 0\<close> True base_ctrl [OF l] read_stop [of "[CHR ''^'', c]" 0]
          by (simp add: tui_key_base_name_def tui_key_from_name_def)
      next
        case False
        have "tui_key_from_name ''+'' = Some (keyev KCh (CHR ''+'') 0)" by code_simp
        then show ?thesis
          using e k \<open>m = 0\<close> False True by (simp add: tui_key_base_name_def)
      qed
    qed
  next
    case False
    have "read_mod_words 0 (tui_key_name k) = (m OR (if n = KCtrl then mod_ctrl else 0), key_base k)"
      using name_of_modified [OF assms] read_mod_words_of [of k "key_base k"] B False k \<open>m < 16\<close> by simp
    moreover have "m OR (if n = KCtrl then mod_ctrl else 0) \<noteq> 0" using False by (simp add: or_eq_0_iff)
    ultimately show ?thesis
      using B normalized_canonical [of n c m] assms False k
      by (simp add: tui_key_from_name_def read_base_def [symmetric] split del: if_split)
  qed
qed

text \<open>Whatever a spelling reads as is canonical.\<close>

lemma map_of_range: "map_of xs s = Some k \<Longrightarrow> k \<in> snd ` set xs"
  by (force dest: map_of_SomeD)

lemma base_canonical:
  assumes "tui_key_base_from_name s = Some k"
  shows "key_canonical k \<and> key_mods k = 0"
proof -
  consider c where "k = keyev KCtrl c 0" "islower c \<or> ctrl_punct c"
    | c where "k = keyev KCh c 0" "printable c"
    | n where "k = keyev KFkey (char_of n) 0" "1 \<le> n" "n \<le> (12::nat)"
    | n where "map_of key_rows s = Some n" "k = keyev n (if n = KCh then CHR '' '' else no_char) 0"
    using assms by (auto simp: tui_key_base_from_name_def Let_def split: if_splits option.splits)
  then show ?thesis
  proof cases
    case (4 n)
    then have "n \<in> {KCh, KEnter, KTab, KBackspace, KEsc, KUp, KDown, KLeft, KRight, KHome, KEnd, KPgup, KPgdn, KDel, KIns}"
      using map_of_range [OF 4(1)] by (simp add: key_rows_def)
    then show ?thesis using 4(2) by (auto simp: key_canonical_def key_holds_chord_mods_def holds_mod_def mod_defs printable_def)
  qed (simp_all add: key_canonical_def key_holds_chord_mods_def holds_mod_def fkey_number_def of_char_of mod_defs)
qed

lemma mod_of_word_small: "key_mod_of_word w < 16"
  by (simp add: key_mod_of_word_def Let_def mod_defs key_primary_mod_def)

lemma read_mod_words_small: "m < 16 \<Longrightarrow> fst (read_mod_words m s) < 16"
proof (induction m s rule: read_mod_words.induct)
  case (1 m s)
  have or16: "a OR b < 16" if "a < 16" "b < 16" for a b :: key_mods
    using OR_upper [of "uint a" 4 "uint b"] that by (simp add: word_less_alt uint_or)
  show ?case
    using 1 or16 [OF "1.prems" mod_of_word_small] by (subst read_mod_words.simps) (simp add: Let_def split: option.split)
qed

lemma canonical_normalized:
  assumes "key_canonical (keyev n c 0)" and "m < 16"
  shows "key_canonical (key_normalized (keyev n c m))"
proof -
  note N = key_canonical_def key_normalized_def Let_def key_holds_chord_mods_def holds_mod_def mod_defs
  consider "n = KCtrl" | "n = KCh" | "n \<noteq> KCtrl" "n \<noteq> KCh" by blast
  then show ?thesis
  proof cases
    case 1
    show ?thesis using mods_cases [OF assms(2)] by (elim insertE emptyE) (use assms(1) 1 in \<open>simp_all add: N\<close>)
  next
    case 2
    have c: "printable c" using assms(1) 2 by (simp add: key_canonical_def)
    have l: "\<not> isupper (to_lower c)" "isupper c \<longrightarrow> islower (to_lower c)" "\<not> isupper c \<longrightarrow> to_lower c = c"
      using not_upper_to_lower to_lower_letter to_lower_id by auto
    have p: "printable (to_lower c)" using c l letter_printable by (cases "isupper c") auto
    show ?thesis
      using mods_cases [OF assms(2)] by (elim insertE emptyE) (use 2 c l p in \<open>auto simp: N\<close>)
  next
    case 3
    then show ?thesis using assms by (cases n) (simp_all add: key_canonical_def key_normalized_def)
  qed
qed

lemma from_name_canonical:
  assumes "tui_key_from_name s = Some k"
  shows "key_canonical k"
proof -
  obtain m base where m: "read_mod_words 0 s = (m, base)" by fastforce
  have small: "m < 16" using read_mod_words_small [of 0 s] m by simp
  show ?thesis
  proof (cases "m = 0")
    case True
    then show ?thesis using assms m base_canonical by (simp add: tui_key_from_name_def)
  next
    case False
    then obtain b where b: "read_base base = Some b" "k = key_normalized (b\<lparr>key_mods := key_mods b OR m\<rparr>)"
      using assms m by (auto simp: tui_key_from_name_def read_base_def [symmetric])
    have bc: "key_canonical b \<and> key_mods b = 0"
    proof (cases "base = ''plus'' \<or> base = ''+''")
      case True
      then have "b = keyev KCh (CHR ''+'') 0" using b(1) by (auto simp: read_base_def)
      then show ?thesis by (simp add: key_canonical_def key_holds_chord_mods_def holds_mod_def mod_defs printable_def)
    next
      case False
      then show ?thesis using b(1) base_canonical by (simp add: read_base_def)
    qed
    then obtain n c where "b = keyev n c 0" using canonical_keyev by fastforce
    then show ?thesis using b(2) bc canonical_normalized [OF _ small] by simp
  qed
qed

end
