(* ===== verification/KeyBindings.thy ===== *)
theory KeyBindings
  imports KeyNameProps "HOL-Library.Char_ord" "HOL-Library.List_Lexorder"
begin

text \<open>
  The table of key bindings and the resolver of chords, from \<^verbatim>\<open>include/madcdis/keys.h\<close>: classes
  \<open>tui_bindings\<close> and \<open>key_resolver\<close>.  The map of the bound sequences, which the code walks in the
  order of its keys' bytes, is an association list kept in that order.
\<close>

section \<open>The table\<close>

record tui_binding =
  tb_name :: string
  tb_code :: int

record tui_bindings =
  kb_actions :: "(string \<times> tui_binding) list"
  kb_prefixes :: "string set"

definition no_bindings :: tui_bindings where
  "no_bindings = \<lparr>kb_actions = [], kb_prefixes = {}\<rparr>"

fun put_action :: "string \<Rightarrow> tui_binding \<Rightarrow> (string \<times> tui_binding) list \<Rightarrow> (string \<times> tui_binding) list" where
  "put_action s a [] = [(s, a)]" |
  "put_action s a ((s', a') # as) =
     (if s = s' then (s, a) # as else if s < s' then (s, a) # (s', a') # as else (s', a') # put_action s a as)"

definition seq_spelling :: "tui_keyev \<Rightarrow> string" where
  "seq_spelling k =
     (if key_kind k = KCh \<and> key_mods k = 0 \<and> isupper (key_ch k) then [to_lower (key_ch k)] else tui_key_name k)"

definition cont_spelling :: "tui_keyev \<Rightarrow> string" where
  "cont_spelling k = (if key_kind k = KCtrl \<and> islower (key_ch k) then [key_ch k] else seq_spelling k)"

abbreviation blank :: char where
  "blank \<equiv> CHR '' ''"

function key_words :: "string \<Rightarrow> string list" where
  "key_words s =
     (let s = dropWhile (\<lambda>c. c = blank) s
      in if s = '''' then [] else takeWhile (\<lambda>c. c \<noteq> blank) s # key_words (dropWhile (\<lambda>c. c \<noteq> blank) s))"
  by auto
termination
proof (relation "measure length")
  fix s x
  assume "x = dropWhile (\<lambda>c. c = blank) s" and "x \<noteq> ''''"
  then have "hd x \<noteq> blank" "length x \<le> length s"
    using hd_dropWhile [of "\<lambda>c. c = blank" s] by (simp_all add: length_dropWhile_le)
  then show "(dropWhile (\<lambda>c. c \<noteq> blank) x, s) \<in> measure length"
    using \<open>x \<noteq> ''''\<close> length_dropWhile_le [of "\<lambda>c. c \<noteq> blank" "tl x"] by (cases x) auto
qed simp

declare key_words.simps [simp del]

fun canon_words :: "string \<Rightarrow> string list \<Rightarrow> string option" where
  "canon_words canon [] = Some canon" |
  "canon_words canon (w # ws) =
     (case tui_key_from_name w of
        None \<Rightarrow> None
      | Some k \<Rightarrow> canon_words (if canon = '''' then canon @ seq_spelling k else canon @ blank # cont_spelling k) ws)"

definition bind_seq :: "string \<Rightarrow> string \<Rightarrow> int \<Rightarrow> tui_bindings \<Rightarrow> bool \<times> tui_bindings" where
  "bind_seq s action code b =
     (case canon_words '''' (key_words s) of
        None \<Rightarrow> (False, b)
      | Some canon \<Rightarrow>
          if canon = '''' then (False, b)
          else (True, b\<lparr>kb_actions := put_action canon \<lparr>tb_name = action, tb_code = code\<rparr> (kb_actions b)\<rparr>))"

section \<open>Validation\<close>

definition space_cuts :: "string \<Rightarrow> string list" where
  "space_cuts s = map (\<lambda>i. take i s) (filter (\<lambda>i. s ! i = blank) [0..<length s])"

text \<open>The proper prefixes of a sequence join the prefix set until one of them is bound.\<close>

fun add_prefixes :: "(string \<times> tui_binding) list \<Rightarrow> string list \<Rightarrow> string set \<Rightarrow> bool \<times> string set" where
  "add_prefixes acts [] ps = (True, ps)" |
  "add_prefixes acts (p # cuts) ps = (if map_of acts p \<noteq> None then (False, ps) else add_prefixes acts cuts (insert p ps))"

definition head_types :: "string \<Rightarrow> bool" where
  "head_types s = (case tui_key_from_name (takeWhile (\<lambda>c. c \<noteq> blank) s) of None \<Rightarrow> False | Some k \<Rightarrow> key_types k)"

fun finalize_go :: "(string \<times> tui_binding) list \<Rightarrow> string list \<Rightarrow> string set \<Rightarrow> string option \<times> string set" where
  "finalize_go acts [] ps = (None, ps)" |
  "finalize_go acts (s # seqs) ps =
     (if head_types s then (Some (''printable-headed sequence: '' @ s), ps)
      else let (fine, ps) = add_prefixes acts (space_cuts s) ps
           in if fine then finalize_go acts seqs ps else (Some (''sequence shadows a shorter binding: '' @ s), ps))"

definition finalize :: "tui_bindings \<Rightarrow> string option \<times> tui_bindings" where
  "finalize b = (let (err, ps) = finalize_go (kb_actions b) (map fst (kb_actions b)) {} in (err, b\<lparr>kb_prefixes := ps\<rparr>))"

section \<open>Lookup\<close>

definition bound :: "tui_bindings \<Rightarrow> string \<Rightarrow> bool" where
  "bound b s \<longleftrightarrow> map_of (kb_actions b) s \<noteq> None"

definition chord_prefix :: "tui_bindings \<Rightarrow> string \<Rightarrow> bool" where
  "chord_prefix b s \<longleftrightarrow> s \<in> kb_prefixes b"

definition action_of :: "tui_bindings \<Rightarrow> string \<Rightarrow> tui_binding" where
  "action_of b s = (case map_of (kb_actions b) s of None \<Rightarrow> \<lparr>tb_name = '''', tb_code = 0\<rparr> | Some a \<Rightarrow> a)"

definition seq_keys :: "string \<Rightarrow> nat" where
  "seq_keys s = 1 + length (filter (\<lambda>c. c = blank) s)"

text \<open>The loop of \<open>seq_for_action\<close> and \<open>seq_for_code\<close>, which differ in the test.\<close>

fun best_seq :: "(tui_binding \<Rightarrow> bool) \<Rightarrow> (string \<times> tui_binding) list \<Rightarrow> string \<Rightarrow> nat \<Rightarrow> string" where
  "best_seq P [] best keys = best" |
  "best_seq P ((s, a) # as) best keys =
     (if P a \<and> (best = '''' \<or> seq_keys s < keys \<or> seq_keys s = keys \<and> length s < length best)
      then best_seq P as s (seq_keys s) else best_seq P as best keys)"

definition seq_for_action :: "tui_bindings \<Rightarrow> string \<Rightarrow> string" where
  "seq_for_action b action = best_seq (\<lambda>a. tb_name a = action) (kb_actions b) '''' 0"

definition seq_for_code :: "tui_bindings \<Rightarrow> int \<Rightarrow> string" where
  "seq_for_code b code = (if code = 0 then '''' else best_seq (\<lambda>a. tb_code a = code) (kb_actions b) '''' 0)"

definition chord_for :: "tui_bindings \<Rightarrow> int \<Rightarrow> string \<Rightarrow> string" where
  "chord_for b code action = (let s = seq_for_code b code in if s = '''' then seq_for_action b action else s)"

section \<open>The resolver\<close>

datatype step_kind = Passthrough | Pending | Cancelled | ActionStep | Transparent

record key_step =
  ks_kind :: step_kind
  ks_name :: string
  ks_seq :: string
  ks_code :: int
  ks_mods :: key_mods

definition plain_step :: key_step where
  "plain_step = \<lparr>ks_kind = Passthrough, ks_name = '''', ks_seq = '''', ks_code = 0, ks_mods = 0\<rparr>"

record key_resolver =
  kr_bindings :: tui_bindings
  kr_pending :: string

definition set_bindings :: "tui_bindings \<Rightarrow> key_resolver \<Rightarrow> key_resolver" where
  "set_bindings b r = r\<lparr>kr_bindings := b, kr_pending := ''''\<rparr>"

definition fire :: "tui_bindings \<Rightarrow> string \<Rightarrow> key_step" where
  "fire b s = plain_step\<lparr>ks_kind := ActionStep, ks_name := tb_name (action_of b s), ks_seq := s, ks_code := tb_code (action_of b s)\<rparr>"

fun pick_candidate :: "tui_bindings \<Rightarrow> string \<Rightarrow> string \<Rightarrow> tui_keyev list \<Rightarrow> string" where
  "pick_candidate b pending cand [] = cand" |
  "pick_candidate b pending cand (k # ks) =
     (if chord_prefix b cand \<or> bound b cand then cand
      else pick_candidate b pending (pending @ blank # cont_spelling k) ks)"

definition head_step :: "tui_keyev \<Rightarrow> key_resolver \<Rightarrow> (key_step \<times> key_resolver) option" where
  "head_step k r =
     (let head = seq_spelling k
      in if bound (kr_bindings r) head then Some (fire (kr_bindings r) head, r)
         else if chord_prefix (kr_bindings r) head
         then Some (plain_step\<lparr>ks_kind := Pending\<rparr>, r\<lparr>kr_pending := head\<rparr>)
         else None)"

text \<open>The loop over the lookups of a head; \<open>first\<close> says that the key itself is looked up.\<close>

fun try_heads :: "key_mods \<Rightarrow> bool \<Rightarrow> tui_keyev list \<Rightarrow> key_resolver \<Rightarrow> key_step \<times> key_resolver" where
  "try_heads m first [] r = (plain_step, r)" |
  "try_heads m first (k # ks) r =
     (if \<not> first \<and> key_types k then try_heads m False ks r
      else case head_step k r of
          Some (s, r') \<Rightarrow> (s\<lparr>ks_mods := m\<rparr>, r')
        | None \<Rightarrow> try_heads m False ks r)"

definition resolver_step :: "tui_keyev \<Rightarrow> key_resolver \<Rightarrow> key_step \<times> key_resolver" where
  "resolver_step k r =
     (if kr_pending r \<noteq> '''' then
        if key_kind k = KResize \<or> key_kind k = KWake then (plain_step\<lparr>ks_kind := Transparent\<rparr>, r)
        else if key_kind k = KEsc then (plain_step\<lparr>ks_kind := Cancelled\<rparr>, r\<lparr>kr_pending := ''''\<rparr>)
        else let b = kr_bindings r;
                 look = key_lookups k;
                 cand = pick_candidate b (kr_pending r) (kr_pending r @ blank # cont_spelling k) (tl look)
             in if chord_prefix b cand then (plain_step\<lparr>ks_kind := Pending\<rparr>, r\<lparr>kr_pending := cand\<rparr>)
                else ((fire b cand)\<lparr>ks_mods := key_mods k\<rparr>, r\<lparr>kr_pending := ''''\<rparr>)
      else if key_types k then (plain_step, r)
      else if kb_actions (kr_bindings r) \<noteq> [] \<and> key_kind k \<noteq> KResize \<and> key_kind k \<noteq> KWake
      then try_heads (key_mods k) True (key_lookups k) r
      else (plain_step, r))"

end
