(* ===== verification/KeyBindingProps.thy ===== *)
theory KeyBindingProps
  imports KeyBindings
begin

text \<open>
  Correctness of the bindings and of the resolver: the validation accepts exactly the tables in
  which no sequence starts with typing or continues another, and in such a table every bound
  sequence fires when its keys are pressed, unless it holds esc after its first key.
\<close>

section \<open>Spellings are words\<close>

lemma name_no_blank:
  assumes "key_canonical k"
  shows "tui_key_name k \<noteq> '''' \<and> blank \<notin> set (tui_key_name k)"
proof -
  obtain n c m where k: "k = keyev n c m" using canonical_keyev [OF assms] by blast
  have named: "blank \<notin> set (named_key n)" for n by (cases n) simp_all
  have fk: "blank \<notin> set (to_string i)" for i using to_string_digits [of i] by (auto simp: isdigit_def)
  have ctrl: "c \<noteq> blank" if "islower c \<or> ctrl_punct c" using that by (auto simp: ctype_defs ctrl_punct_def)
  have base: "tui_key_base_name (keyev n c i) \<noteq> '''' \<and> blank \<notin> set (tui_key_base_name (keyev n c i))" for i
    using assms named [of n] fk [of "byte c"] ctrl
    by (cases n) (simp_all add: k tui_key_base_name_def key_canonical_def)
  have words: "blank \<notin> set (mod_words k)" by (simp add: mod_words_def)
  show ?thesis
  proof (cases "m = 0")
    case True
    then show ?thesis using base by (simp add: k tui_key_name_def)
  next
    case False
    have "blank \<notin> set (key_base k)"
      using assms base ctrl by (auto simp: k key_base_def key_unmodified_def key_canonical_def)
    then show ?thesis using name_of_modified [OF assms] canonical_base [OF assms] words False by (simp add: k)
  qed
qed

text \<open>The key whose exact name is the spelling in a sequence.\<close>

definition seq_key :: "tui_keyev \<Rightarrow> tui_keyev" where
  "seq_key k = (if key_kind k = KCh \<and> key_mods k = 0 \<and> isupper (key_ch k) then k\<lparr>key_ch := to_lower (key_ch k)\<rparr> else k)"

definition cont_key :: "tui_keyev \<Rightarrow> tui_keyev" where
  "cont_key k = (if key_kind k = KCtrl \<and> islower (key_ch k) then keyev KCh (key_ch k) 0 else seq_key k)"

lemma seq_key_canonical:
  assumes "key_canonical k"
  shows "key_canonical (seq_key k)"
proof -
  obtain n c m where k: "k = keyev n c m" using canonical_keyev [OF assms] by blast
  show ?thesis
    using assms letter_printable [of "to_lower c"] to_lower_letter [of c] not_upper_to_lower [of c]
    by (auto simp: k seq_key_def key_canonical_def key_holds_chord_mods_def holds_mod_def)
qed

lemma cont_key_canonical:
  assumes "key_canonical k"
  shows "key_canonical (cont_key k)"
  using seq_key_canonical [OF assms] letter_printable [of "key_ch k"]
  by (simp add: cont_key_def) (simp add: key_canonical_def key_holds_chord_mods_def holds_mod_def mod_shift_def)

lemma seq_spelling_name: "key_canonical k \<Longrightarrow> seq_spelling k = tui_key_name (seq_key k)"
  using canonical_keyev [of k] not_upper_to_lower [of "key_ch k"] to_lower_letter [of "key_ch k"]
  by (auto simp: seq_spelling_def seq_key_def tui_key_name_def tui_key_base_name_def ctype_defs)

lemma cont_spelling_name: "key_canonical k \<Longrightarrow> cont_spelling k = tui_key_name (cont_key k)"
  using seq_spelling_name [of k] by (auto simp: cont_spelling_def cont_key_def tui_key_name_def tui_key_base_name_def ctype_defs)

lemma seq_key_idem [simp]: "seq_key (seq_key k) = seq_key k"
  using not_upper_to_lower [of "key_ch k"] by (auto simp: seq_key_def)

lemma cont_key_idem [simp]: "cont_key (cont_key k) = cont_key k"
proof (cases "key_kind k = KCtrl \<and> islower (key_ch k)")
  case True
  then show ?thesis by (simp add: cont_key_def seq_key_def islower_not_upper)
next
  case False
  have "key_kind (seq_key k) = key_kind k" "key_kind k = KCtrl \<Longrightarrow> seq_key k = k" by (simp_all add: seq_key_def)
  then show ?thesis using False by (auto simp: cont_key_def)
qed

lemma spelling_word:
  assumes "key_canonical k"
  shows "seq_spelling k \<noteq> '''' \<and> blank \<notin> set (seq_spelling k)" and "cont_spelling k \<noteq> '''' \<and> blank \<notin> set (cont_spelling k)"
  using name_no_blank [OF seq_key_canonical [OF assms]] name_no_blank [OF cont_key_canonical [OF assms]] assms
  by (simp_all add: seq_spelling_name cont_spelling_name)

lemma spelling_reads:
  assumes "key_canonical k"
  shows "tui_key_from_name (seq_spelling k) = Some (seq_key k)" and "tui_key_from_name (cont_spelling k) = Some (cont_key k)"
  using name_roundtrip [OF seq_key_canonical [OF assms]] name_roundtrip [OF cont_key_canonical [OF assms]] assms
  by (simp_all add: seq_spelling_name cont_spelling_name)

section \<open>Sequences of keys\<close>

fun spell_keys :: "tui_keyev list \<Rightarrow> string" where
  "spell_keys [] = ''''" |
  "spell_keys (k # ks) = seq_spelling k @ concat (map (\<lambda>k. blank # cont_spelling k) ks)"

lemma spell_keys_snoc: "ks \<noteq> [] \<Longrightarrow> spell_keys (ks @ [k]) = spell_keys ks @ blank # cont_spelling k"
  by (cases ks) simp_all

lemma key_words_blank: "key_words (blank # s) = key_words s"
  by (subst (1 2) key_words.simps) simp

lemma key_words_one: "w \<noteq> '''' \<Longrightarrow> blank \<notin> set w \<Longrightarrow> key_words w = [w]"
proof -
  assume w: "w \<noteq> ''''" "blank \<notin> set w"
  have "dropWhile (\<lambda>c. c = blank) w = w" using w by (cases w) auto
  moreover have "takeWhile (\<lambda>c. c \<noteq> blank) w = w" "dropWhile (\<lambda>c. c \<noteq> blank) w = ''''" using w by (auto simp: takeWhile_eq_all_conv)
  moreover have "key_words '''' = []" by (simp add: key_words.simps)
  ultimately show "key_words w = [w]" using w by (simp add: key_words.simps [of w] del: dropWhile_eq_Nil_conv)
qed

lemma key_words_cons:
  assumes "w \<noteq> ''''" and "blank \<notin> set w"
  shows "key_words (w @ blank # r) = w # key_words r"
proof -
  have "dropWhile (\<lambda>c. c = blank) (w @ blank # r) = w @ blank # r" using assms by (cases w) auto
  moreover have "takeWhile (\<lambda>c. c \<noteq> blank) (w @ blank # r) = w" "dropWhile (\<lambda>c. c \<noteq> blank) (w @ blank # r) = blank # r"
    using assms by (auto simp: takeWhile_append dropWhile_append)
  ultimately show ?thesis using assms by (simp add: key_words.simps [of "w @ blank # r"] key_words_blank)
qed

lemma key_words_conts:
  "\<forall>k \<in> set ks. key_canonical k \<Longrightarrow> w \<noteq> '''' \<Longrightarrow> blank \<notin> set w \<Longrightarrow>
    key_words (w @ concat (map (\<lambda>k. blank # cont_spelling k) ks)) = w # map cont_spelling ks"
proof (induction ks arbitrary: w)
  case (Cons k ks)
  have "key_words (cont_spelling k @ concat (map (\<lambda>k. blank # cont_spelling k) ks)) = cont_spelling k # map cont_spelling ks"
    using Cons.prems(1) spelling_word(2) [of k] by (intro Cons.IH) auto
  then show ?case using Cons.prems by (simp add: key_words_cons)
qed (simp add: key_words_one)

text \<open>The keys of a sequence as the profile writes it.\<close>

definition seq_keys_of :: "string \<Rightarrow> tui_keyev list option" where
  "seq_keys_of s = those (map tui_key_from_name (key_words s))"

lemma those_Cons: "those (x # xs) = (case x of None \<Rightarrow> None | Some y \<Rightarrow> map_option (Cons y) (those xs))"
  by (simp split: option.split)

lemma canon_words_conts:
  "canon \<noteq> '''' \<Longrightarrow> canon_words canon ws = Some c \<Longrightarrow>
    \<exists>ks. those (map tui_key_from_name ws) = Some ks \<and> c = canon @ concat (map (\<lambda>k. blank # cont_spelling k) ks)"
proof (induction ws arbitrary: canon)
  case (Cons w ws)
  obtain k where k: "tui_key_from_name w = Some k" "canon_words (canon @ blank # cont_spelling k) ws = Some c"
    using Cons.prems by (auto split: option.splits)
  then show ?case using Cons.IH [OF _ k(2)] by (auto simp: those_Cons)
qed simp

lemma those_canonical: "those (map tui_key_from_name ws) = Some ks \<Longrightarrow> \<forall>k \<in> set ks. key_canonical k"
  by (induction ws arbitrary: ks) (auto simp: those_Cons from_name_canonical split: option.splits)

lemma canon_words_spell:
  assumes "canon_words '''' (key_words s) = Some c" and "c \<noteq> ''''"
  shows "\<exists>ks. seq_keys_of s = Some ks \<and> c = spell_keys ks \<and> ks \<noteq> [] \<and> (\<forall>k \<in> set ks. key_canonical k)"
proof (cases "key_words s")
  case Nil
  then show ?thesis using assms by simp
next
  case (Cons w ws)
  obtain k where k: "tui_key_from_name w = Some k" "canon_words (seq_spelling k) ws = Some c"
    using assms Cons by (auto split: option.splits)
  have kc: "key_canonical k" using from_name_canonical k(1) by blast
  then have "seq_spelling k \<noteq> ''''" using spelling_word by blast
  from canon_words_conts [OF this k(2)] obtain ks where
    ks: "those (map tui_key_from_name ws) = Some ks" "c = seq_spelling k @ concat (map (\<lambda>k. blank # cont_spelling k) ks)" by blast
  then show ?thesis using Cons k kc those_canonical [OF ks(1)] by (auto simp: seq_keys_of_def those_Cons)
qed

lemma words_of_spelling:
  assumes "\<forall>k \<in> set (k # ks). key_canonical k"
  shows "key_words (spell_keys (k # ks)) = seq_spelling k # map cont_spelling ks"
    and "seq_keys_of (spell_keys (k # ks)) = Some (seq_key k # map cont_key ks)"
proof -
  show w: "key_words (spell_keys (k # ks)) = seq_spelling k # map cont_spelling ks"
    using key_words_conts [of ks "seq_spelling k"] assms spelling_word(1) [of k] by simp
  have "those (map tui_key_from_name (map cont_spelling ks)) = Some (map cont_key ks)"
    using assms by (induction ks) (simp_all add: spelling_reads)
  then show "seq_keys_of (spell_keys (k # ks)) = Some (seq_key k # map cont_key ks)"
    using assms by (simp add: seq_keys_of_def w spelling_reads those_Cons del: spell_keys.simps)
qed

section \<open>The validation\<close>

lemma map_of_put: "map_of (put_action s a as) = (map_of as)(s \<mapsto> a)"
  by (induction s a as rule: put_action.induct) (auto simp: fun_eq_iff)

definition bound_seqs :: "tui_bindings \<Rightarrow> string set" where
  "bound_seqs b = fst ` set (kb_actions b)"

lemma bound_iff: "bound b s \<longleftrightarrow> s \<in> bound_seqs b"
  by (simp add: bound_def bound_seqs_def map_of_eq_None_iff)

lemma set_space_cuts: "set (space_cuts s) = {p. \<exists>r. s = p @ blank # r}"
proof -
  have "(\<exists>i < length s. s ! i = blank \<and> p = take i s) \<longleftrightarrow> (\<exists>r. s = p @ blank # r)" for p
  proof
    assume "\<exists>i < length s. s ! i = blank \<and> p = take i s"
    then show "\<exists>r. s = p @ blank # r" using id_take_nth_drop by metis
  next
    assume "\<exists>r. s = p @ blank # r"
    then show "\<exists>i < length s. s ! i = blank \<and> p = take i s" by (auto intro: exI [of _ "length p"])
  qed
  then show ?thesis by (auto simp: space_cuts_def)
qed

lemma add_prefixes_eq:
  "add_prefixes acts cuts ps = (True, ps') \<longleftrightarrow> (\<forall>p \<in> set cuts. map_of acts p = None) \<and> ps' = ps \<union> set cuts"
  by (induction acts cuts ps rule: add_prefixes.induct) auto

lemma finalize_go_None:
  "finalize_go acts seqs ps = (None, ps') \<longleftrightarrow>
    (\<forall>s \<in> set seqs. \<not> head_types s \<and> (\<forall>p \<in> set (space_cuts s). map_of acts p = None))
    \<and> ps' = ps \<union> (\<Union>s \<in> set seqs. set (space_cuts s))"
proof (induction acts seqs ps rule: finalize_go.induct)
  case (2 acts s seqs ps)
  obtain fine qs where a: "add_prefixes acts (space_cuts s) ps = (fine, qs)" by fastforce
  show ?case
  proof (cases fine)
    case True
    then have "(\<forall>p \<in> set (space_cuts s). map_of acts p = None) \<and> qs = ps \<union> set (space_cuts s)"
      using a add_prefixes_eq [of acts "space_cuts s" ps qs] by simp
    then show ?thesis using 2 [OF _ a [symmetric]] a True by (auto simp: Un_assoc)
  next
    case False
    then have "\<not> (\<forall>p \<in> set (space_cuts s). map_of acts p = None)"
      using a add_prefixes_eq [of acts "space_cuts s" ps "ps \<union> set (space_cuts s)"] by auto
    then show ?thesis using a False by auto
  qed
qed auto

text \<open>A table without typing heads in which no bound sequence goes on after another bound one.\<close>

definition well_bound :: "tui_bindings \<Rightarrow> bool" where
  "well_bound b \<longleftrightarrow> (\<forall>s \<in> bound_seqs b. \<not> head_types s \<and> (\<forall>p r. s = p @ blank # r \<longrightarrow> p \<notin> bound_seqs b))"

lemma finalize_iff:
  "finalize b = (None, b') \<longleftrightarrow>
    well_bound b \<and> b' = b\<lparr>kb_prefixes := {p. \<exists>r. p @ blank # r \<in> bound_seqs b}\<rparr>"
proof -
  let ?seqs = "map fst (kb_actions b)"
  have u: "(\<Union>s \<in> set ?seqs. set (space_cuts s)) = {p. \<exists>r. p @ blank # r \<in> bound_seqs b}"
    by (auto simp: set_space_cuts bound_seqs_def) force+
  have w: "(\<forall>s \<in> set ?seqs. \<not> head_types s \<and> (\<forall>p \<in> set (space_cuts s). map_of (kb_actions b) p = None)) \<longleftrightarrow> well_bound b"
    by (simp add: well_bound_def set_space_cuts bound_seqs_def map_of_eq_None_iff)
  have "finalize b = (None, b') \<longleftrightarrow> (\<exists>ps. finalize_go (kb_actions b) ?seqs {} = (None, ps) \<and> b' = b\<lparr>kb_prefixes := ps\<rparr>)"
    by (auto simp: finalize_def split: prod.splits)
  then show ?thesis unfolding finalize_go_None u w by simp
qed

section \<open>Pressing keys\<close>

fun press :: "tui_keyev list \<Rightarrow> key_resolver \<Rightarrow> key_step list \<times> key_resolver" where
  "press [] r = ([], r)" |
  "press (k # ks) r = (let (s, r) = resolver_step k r; (ss, r) = press ks r in (s # ss, r))"

definition pending_step :: key_step where
  "pending_step = plain_step\<lparr>ks_kind := Pending\<rparr>"

lemma lookups_head: "\<exists>ls. key_lookups k = k # ls"
  by (simp add: key_lookups_def Let_def)

lemma pick_first: "chord_prefix b cand \<or> bound b cand \<Longrightarrow> pick_candidate b p cand ks = cand"
  by (cases ks) auto

lemma conts_fire:
  assumes "finalize b = (None, b')"
  shows "kr_bindings r = b' \<Longrightarrow> kr_pending r = p \<Longrightarrow> p \<noteq> '''' \<Longrightarrow> ks \<noteq> [] \<Longrightarrow>
    \<forall>k \<in> set ks. key_kind k \<notin> {KEsc, KResize, KWake} \<Longrightarrow>
    s = p @ concat (map (\<lambda>k. blank # cont_spelling k) ks) \<Longrightarrow> bound b s \<Longrightarrow>
    press ks r = (replicate (length ks - 1) pending_step @ [(fire b s)\<lparr>ks_mods := key_mods (last ks)\<rparr>], r\<lparr>kr_pending := ''''\<rparr>)"
proof (induction ks arbitrary: r p)
  case (Cons k ks)
  have b': "well_bound b" "b' = b\<lparr>kb_prefixes := {p. \<exists>r. p @ blank # r \<in> bound_seqs b}\<rparr>"
    using assms by (simp_all add: finalize_iff)
  have same: "bound b' = bound b" "fire b' = fire b"
    by (simp_all add: b'(2) bound_def fire_def action_of_def fun_eq_iff)
  obtain ls where ls: "key_lookups k = k # ls" using lookups_head by blast
  let ?cand = "p @ blank # cont_spelling k"
  have k: "key_kind k \<noteq> KEsc" "key_kind k \<noteq> KResize" "key_kind k \<noteq> KWake" using Cons.prems(5) by auto
  show ?case
  proof (cases ks)
    case Nil
    then have s: "s = ?cand" using Cons.prems(6) by simp
    have "\<not> chord_prefix b' ?cand"
      using b' Cons.prems(7) s by (auto simp: chord_prefix_def well_bound_def bound_iff)
    then have "resolver_step k r = ((fire b s)\<lparr>ks_mods := key_mods k\<rparr>, r\<lparr>kr_pending := ''''\<rparr>)"
      using Cons.prems(1-3,7) k ls s same by (simp add: resolver_step_def pick_first Let_def)
    then show ?thesis using Nil by simp
  next
    case (Cons k' ks')
    have pre: "chord_prefix b' ?cand"
      using Cons.prems(6,7) Cons b'(2) by (auto simp: chord_prefix_def bound_iff)
    then have step: "resolver_step k r = (pending_step, r\<lparr>kr_pending := ?cand\<rparr>)"
      using Cons.prems(1-3) k ls same by (simp add: resolver_step_def pick_first Let_def pending_step_def)
    have "press ks (r\<lparr>kr_pending := ?cand\<rparr>) =
        (replicate (length ks - 1) pending_step @ [(fire b s)\<lparr>ks_mods := key_mods (last ks)\<rparr>], r\<lparr>kr_pending := ''''\<rparr>)"
      using Cons.IH [of "r\<lparr>kr_pending := ?cand\<rparr>" ?cand] Cons.prems Cons by simp
    then show ?thesis using step Cons by simp
  qed
qed simp

lemma types_seq_key:
  assumes "key_canonical k"
  shows "key_types (seq_key k) = key_types k"
  using assms by (auto simp: seq_key_def key_types_def key_holds_chord_mods_def)

lemma head_of_spelling:
  assumes "key_canonical k"
  shows "takeWhile (\<lambda>c. c \<noteq> blank) (spell_keys (k # ks)) = seq_spelling k"
    and "head_types (spell_keys (k # ks)) = key_types k"
proof -
  have w: "blank \<notin> set (seq_spelling k)" using spelling_word [OF assms] by blast
  then have "takeWhile (\<lambda>c. c \<noteq> blank) (seq_spelling k @ concat (map (\<lambda>k. blank # cont_spelling k) ks)) = seq_spelling k"
    by (cases ks) (auto simp: takeWhile_append takeWhile_eq_all_conv)
  then show t: "takeWhile (\<lambda>c. c \<noteq> blank) (spell_keys (k # ks)) = seq_spelling k" by simp
  show "head_types (spell_keys (k # ks)) = key_types k"
    unfolding head_types_def t using assms by (simp add: spelling_reads types_seq_key)
qed

text \<open>
  In a finalized table every bound sequence fires: its keys but the last leave a pending chord,
  the last one fires the action.
\<close>

lemma bound_fires:
  assumes fin: "finalize b = (None, b')" and r: "kr_bindings r = b'" "kr_pending r = ''''"
    and canon: "\<forall>k \<in> set (k # ks). key_canonical k" and esc: "\<forall>k \<in> set ks. key_kind k \<noteq> KEsc"
    and bnd: "bound b (spell_keys (k # ks))"
  shows "\<exists>ss. press (k # ks) r = (ss @ [(fire b (spell_keys (k # ks)))\<lparr>ks_mods := key_mods (last (k # ks))\<rparr>], r)
    \<and> length ss = length ks \<and> (\<forall>s \<in> set ss. ks_kind s = Pending)"
proof -
  let ?s = "spell_keys (k # ks)"
  have b': "well_bound b" "b' = b\<lparr>kb_prefixes := {p. \<exists>r. p @ blank # r \<in> bound_seqs b}\<rparr>"
    using fin by (simp_all add: finalize_iff)
  have same: "bound b' = bound b" "fire b' = fire b"
    by (simp_all add: b'(2) bound_def fire_def action_of_def fun_eq_iff)
  have kc: "key_canonical k" using canon by simp
  have nt: "\<not> key_types k"
    using b'(1) bnd head_of_spelling(2) [OF kc] by (auto simp: well_bound_def bound_iff simp del: spell_keys.simps)
  have kinds: "key_kind k \<noteq> KResize" "key_kind k \<noteq> KWake" "\<And>j. j \<in> set ks \<Longrightarrow> key_kind j \<noteq> KResize \<and> key_kind j \<noteq> KWake"
    using canon by (auto simp: key_canonical_def)
  have ne: "kb_actions b' \<noteq> []" using bnd by (auto simp: bound_def b'(2))
  obtain ls where ls: "key_lookups k = k # ls" using lookups_head by blast
  have step: "resolver_step k r = try_heads (key_mods k) True (k # ls) r"
    using r nt kinds ne ls by (simp add: resolver_step_def)
  have w: "seq_spelling k \<noteq> ''''" using spelling_word [OF kc] by blast
  have pend: "r\<lparr>kr_pending := ''''\<rparr> = r" using r(2) by simp
  show ?thesis
  proof (cases ks)
    case Nil
    then have "head_step k r = Some (fire b ?s, r)" using bnd r same by (simp add: head_step_def)
    then show ?thesis using step Nil by simp
  next
    case (Cons j js)
    have "?s = seq_spelling k @ blank # (cont_spelling j @ concat (map (\<lambda>k. blank # cont_spelling k) js))" using Cons by simp
    then have p: "\<not> bound b (seq_spelling k)" "chord_prefix b' (seq_spelling k)"
      using b' bnd by (auto simp: well_bound_def bound_iff chord_prefix_def)
    then have "head_step k r = Some (pending_step, r\<lparr>kr_pending := seq_spelling k\<rparr>)"
      using r same by (simp add: head_step_def pending_step_def)
    then have s1: "resolver_step k r = (pending_step\<lparr>ks_mods := key_mods k\<rparr>, r\<lparr>kr_pending := seq_spelling k\<rparr>)"
      using step by simp
    have "press ks (r\<lparr>kr_pending := seq_spelling k\<rparr>) =
        (replicate (length ks - 1) pending_step @ [(fire b ?s)\<lparr>ks_mods := key_mods (last ks)\<rparr>], r\<lparr>kr_pending := seq_spelling k\<rparr>\<lparr>kr_pending := ''''\<rparr>)"
      by (rule conts_fire [OF fin]) (use r w Cons esc kinds bnd in auto)
    then have "press (k # ks) r = ((pending_step\<lparr>ks_mods := key_mods k\<rparr> # replicate (length ks - 1) pending_step)
        @ [(fire b ?s)\<lparr>ks_mods := key_mods (last (k # ks))\<rparr>], r)"
      using s1 Cons pend by simp
    then show ?thesis using Cons by (intro exI conjI) (auto simp: pending_step_def)
  qed
qed

end
