(* ===== verification/KeyBindingRuns.thy ===== *)
theory KeyBindingRuns
  imports KeyBindingProps
begin

text \<open>What the spelling, the validation, the lookup and the resolver of keys promise.\<close>

section \<open>Tables built by binding\<close>

inductive table_built :: "tui_bindings \<Rightarrow> bool" where
  empty: "table_built no_bindings" |
  bind: "table_built b \<Longrightarrow> table_built (snd (bind_seq s action code b))"

lemma set_put_action: "fst ` set (put_action s a as) = insert s (fst ` set as)"
  by (induction s a as rule: put_action.induct) auto

lemma sorted_put_action: "sorted_wrt (<) (map fst as) \<Longrightarrow> sorted_wrt (<) (map fst (put_action s a as))"
proof (induction s a as rule: put_action.induct)
  case (2 s a s' a' as)
  have "set (map fst (put_action s a as)) = insert s (fst ` set as)" by (simp add: set_put_action)
  then show ?case using 2 by auto
qed simp

lemma table_built_sorted:
  "table_built b \<Longrightarrow> sorted_wrt (<) (map fst (kb_actions b)) \<and> '''' \<notin> fst ` set (kb_actions b)"
  by (induction rule: table_built.induct)
    (auto simp: no_bindings_def bind_seq_def sorted_put_action set_put_action split: option.splits)

section \<open>The sequence shown beside a command\<close>

definition shown_before :: "string \<Rightarrow> string \<Rightarrow> bool" where
  "shown_before s s' \<longleftrightarrow> seq_keys s < seq_keys s' \<or> seq_keys s = seq_keys s' \<and> (length s < length s' \<or> length s = length s' \<and> s \<le> s')"

lemma shown_before_trans: "shown_before s t \<Longrightarrow> shown_before t u \<Longrightarrow> shown_before s u"
  by (auto simp: shown_before_def)

lemma shown_before_refl [simp]: "shown_before s s"
  by (simp add: shown_before_def)

lemma best_seq_min:
  assumes "sorted_wrt (<) (map fst as)" and "'''' \<notin> fst ` set as"
    and "best = '''' \<or> keys = seq_keys best \<and> (\<forall>s \<in> fst ` set as. best < s)"
  shows "let s = best_seq P as best keys in
      (s = '''' \<longleftrightarrow> best = '''' \<and> (\<forall>(t, a) \<in> set as. \<not> P a))
      \<and> (s \<noteq> '''' \<longrightarrow> (s = best \<or> (\<exists>a. (s, a) \<in> set as \<and> P a))
         \<and> (best \<noteq> '''' \<longrightarrow> shown_before s best) \<and> (\<forall>(t, a) \<in> set as. P a \<longrightarrow> shown_before s t))"
  using assms
proof (induction P as best keys rule: best_seq.induct)
  case (2 P t a as best keys)
  have t: "t \<noteq> ''''" "\<forall>s \<in> fst ` set as. t < s" "sorted_wrt (<) (map fst as)" "'''' \<notin> fst ` set as"
    using "2.prems" by auto
  show ?case
  proof (cases "P a \<and> (best = '''' \<or> seq_keys t < keys \<or> seq_keys t = keys \<and> length t < length best)")
    case True
    have b: "best \<noteq> '''' \<Longrightarrow> shown_before t best" using True "2.prems"(3) by (auto simp: shown_before_def)
    have "t = '''' \<or> seq_keys t = seq_keys t \<and> (\<forall>s \<in> fst ` set as. t < s)" using t by blast
    note IH = "2.IH"(1) [OF True t(3,4) this]
    show ?thesis using IH True t(1) b by (auto simp: Let_def intro: shown_before_trans)
  next
    case False
    have inv: "best = '''' \<or> keys = seq_keys best \<and> (\<forall>s \<in> fst ` set as. best < s)" using "2.prems"(3) by auto
    note IH = "2.IH"(2) [OF False t(3,4) inv]
    have b: "P a \<Longrightarrow> best \<noteq> '''' \<and> shown_before best t"
      using False "2.prems"(3) by (auto simp: shown_before_def not_less)
    show ?thesis using IH False b by (auto simp: Let_def intro: shown_before_trans)
  qed
qed simp

section \<open>The pending chord\<close>

inductive resolver_reach :: "tui_bindings \<Rightarrow> key_resolver \<Rightarrow> bool" for b where
  start: "resolver_reach b (set_bindings b r)" |
  step: "resolver_reach b r \<Longrightarrow> resolver_reach b (snd (resolver_step k r))"

lemma head_step_pending:
  "head_step k r = Some (s, r') \<Longrightarrow> kr_bindings r' = kr_bindings r \<and> (kr_pending r' = kr_pending r \<or> chord_prefix (kr_bindings r) (kr_pending r'))"
  by (auto simp: head_step_def Let_def split: if_splits)

lemma try_heads_pending:
  "kr_bindings (snd (try_heads m f ks r)) = kr_bindings r
    \<and> (kr_pending (snd (try_heads m f ks r)) = kr_pending r \<or> chord_prefix (kr_bindings r) (kr_pending (snd (try_heads m f ks r))))"
  by (induction m f ks r rule: try_heads.induct) (auto split: option.splits dest: head_step_pending)

lemma resolver_step_pending:
  assumes "r' = snd (resolver_step k r)"
  shows "kr_bindings r' = kr_bindings r
    \<and> (kr_pending r' = '''' \<or> kr_pending r' = kr_pending r \<or> chord_prefix (kr_bindings r) (kr_pending r'))"
  using try_heads_pending [of "key_mods k" True "key_lookups k" r] unfolding assms
  by (simp add: resolver_step_def Let_def) auto

lemma resolver_reach_pending:
  "resolver_reach b r \<Longrightarrow> kr_bindings r = b \<and> (kr_pending r = '''' \<or> chord_prefix b (kr_pending r))"
proof (induction rule: resolver_reach.induct)
  case (step r k)
  then show ?case using resolver_step_pending [OF refl, of k r] by auto
qed (simp add: set_bindings_def)

section \<open>Properties\<close>

text \<open>
  C30: one spelling of keys.  Whatever a spelling reads as, its name reads as the same key, so the
  name an event carries is one a table can bind; keys with the same name are the same.
\<close>

theorem key_spelling_roundtrip:
  assumes "tui_key_from_name s = Some k" and "tui_key_from_name t = Some j"
  shows "tui_key_from_name (tui_key_name k) = Some k \<and> (tui_key_name j = tui_key_name k \<longleftrightarrow> j = k)"
  using name_roundtrip [OF from_name_canonical [OF assms(1)]] name_roundtrip [OF from_name_canonical [OF assms(2)]]
  by auto

theorem key_spelling_roundtrip_witness:
  "tui_key_from_name (tui_key_name (keyev KCtrl (CHR ''s'') 1)) = Some (keyev KCtrl (CHR ''s'') 1)"
proof -
  have "tui_key_from_name ''Shift+CTRL+S'' = Some (keyev KCtrl (CHR ''s'') 1)" "tui_key_from_name ''^s'' = Some (keyev KCtrl (CHR ''s'') 0)"
    by code_simp+
  from key_spelling_roundtrip [OF this] show ?thesis by blast
qed


text \<open>
  C28: a bound sequence fires.  When a table that the validation accepts binds the canonical form
  of a sequence, pressing the keys of the sequence, in any of its spellings, leaves a pending
  chord after each key but the last, and the last one fires the action with its code and leaves
  no chord.  The exception are sequences with esc after their first key.
\<close>

theorem bound_sequence_fires:
  assumes "finalize b = (None, b')" and "kr_bindings r = b'" and "kr_pending r = ''''"
    and "canon_words '''' (key_words s) = Some c" and "map_of (kb_actions b) c = Some a" and "c \<noteq> ''''"
    and "seq_keys_of s = Some ks" and "list_all (\<lambda>k. key_kind k \<noteq> KEsc) (tl ks)"
  shows "\<exists>ss st. press ks r = (ss @ [st], r) \<and> list_all (\<lambda>s. ks_kind s = Pending) ss
    \<and> ks_kind st = ActionStep \<and> ks_name st = tb_name a \<and> ks_code st = tb_code a \<and> ks_seq st = c"
proof -
  obtain j js where ks: "ks = j # js" "c = spell_keys ks" "\<forall>k \<in> set ks. key_canonical k"
    using canon_words_spell [OF assms(4,6)] assms(7) by (metis list.exhaust option.inject)
  have "bound b (spell_keys (j # js))" using assms(5) ks by (simp add: bound_def del: spell_keys.simps)
  then obtain ss where "press ks r = (ss @ [(fire b c)\<lparr>ks_mods := key_mods (last ks)\<rparr>], r)" "\<forall>s \<in> set ss. ks_kind s = Pending"
    using bound_fires [OF assms(1-3), of j js] assms(8) ks by (auto simp: list_all_iff simp del: spell_keys.simps)
  then show ?thesis using assms(5) by (auto simp: fire_def action_of_def list_all_iff)
qed

definition save_table :: tui_bindings where
  "save_table = snd (bind_seq ''^k s'' ''save'' 7 no_bindings)"


theorem bound_sequence_fires_witness:
  "\<exists>ss st. press [keyev KCtrl (CHR ''k'') 0, keyev KCtrl (CHR ''s'') 0] \<lparr>kr_bindings = snd (finalize save_table), kr_pending = ''''\<rparr>
      = (ss @ [st], \<lparr>kr_bindings = snd (finalize save_table), kr_pending = ''''\<rparr>) \<and> ks_name st = ''save'' \<and> ks_code st = 7"
proof -
  let ?r = "\<lparr>kr_bindings = snd (finalize save_table), kr_pending = ''''\<rparr>"
  have fin: "finalize save_table = (None, snd (finalize save_table))"
    by code_simp
  have e: "canon_words '''' (key_words ''Ctrl+K  ^s'') = Some ''^k s''" "map_of (kb_actions save_table) ''^k s'' = Some \<lparr>tb_name = ''save'', tb_code = 7\<rparr>"
    "seq_keys_of ''Ctrl+K  ^s'' = Some [keyev KCtrl (CHR ''k'') 0, keyev KCtrl (CHR ''s'') 0]" by code_simp+
  show ?thesis using bound_sequence_fires [OF fin _ _ e(1,2) _ e(3), of ?r] by (auto simp: keyev_def)
qed

text \<open>
  C33: a pending chord can be completed.  In every state the resolver reaches over an accepted
  table, the pending chord, when there is one, is the beginning of a bound sequence.
\<close>

theorem pending_chord_bound:
  assumes "finalize b = (None, b')" and "resolver_reach b' r"
  shows "kr_bindings r = b' \<and> (kr_pending r = '''' \<or> (\<exists>rest. kr_pending r @ blank # rest \<in> bound_seqs b))"
proof -
  have "kb_prefixes b' = {p. \<exists>r. p @ blank # r \<in> bound_seqs b}" using assms(1) by (simp add: finalize_iff)
  then show ?thesis using resolver_reach_pending [OF assms(2)] by (auto simp: chord_prefix_def)
qed

theorem pending_chord_bound_witness:
  "\<exists>rest. ''^k'' @ blank # rest \<in> bound_seqs save_table"
proof -
  have fin: "finalize save_table = (None, snd (finalize save_table))" by code_simp
  let ?r = "set_bindings (snd (finalize save_table)) \<lparr>kr_bindings = no_bindings, kr_pending = ''''\<rparr>"
  have "resolver_reach (snd (finalize save_table)) (snd (resolver_step (keyev KCtrl (CHR ''k'') 0) ?r))"
    by (intro resolver_reach.intros)
  note P = pending_chord_bound [OF fin this]
  have "kr_pending (snd (resolver_step (keyev KCtrl (CHR ''k'') 0) ?r)) = ''^k''" by code_simp
  then show ?thesis using P by auto
qed

text \<open>
  The sequence shown for an action.  In every table built by binding it is empty exactly when
  the action is unbound; otherwise it is bound to the action and has the fewest keys of all that
  are, the shortest spelling of those, and the first in byte order.
\<close>

theorem seq_for_action_first:
  assumes "table_built b"
  shows "(seq_for_action b action = '''' \<longleftrightarrow> (\<forall>(t, a) \<in> set (kb_actions b). tb_name a \<noteq> action))
    \<and> (seq_for_action b action = '''' \<or>
        (\<exists>a. (seq_for_action b action, a) \<in> set (kb_actions b) \<and> tb_name a = action)
        \<and> (\<forall>(t, a) \<in> set (kb_actions b). tb_name a = action \<longrightarrow> shown_before (seq_for_action b action) t))"
  using best_seq_min [of "kb_actions b" "''''" 0 "\<lambda>a. tb_name a = action"] table_built_sorted [OF assms]
  by (auto simp: seq_for_action_def Let_def)

theorem seq_for_action_first_witness:
  "shown_before (seq_for_action (snd (bind_seq ''f2'' ''save'' 7 save_table)) ''save'') ''^k s''"
proof -
  have "table_built (snd (bind_seq ''f2'' ''save'' 7 save_table))"
    unfolding save_table_def by (intro table_built.intros)
  moreover have "(''^k s'', \<lparr>tb_name = ''save'', tb_code = 7\<rparr>) \<in> set (kb_actions (snd (bind_seq ''f2'' ''save'' 7 save_table)))"
    by code_simp
  moreover have "seq_for_action (snd (bind_seq ''f2'' ''save'' 7 save_table)) ''save'' \<noteq> ''''" by code_simp
  ultimately show ?thesis using seq_for_action_first [of "snd (bind_seq ''f2'' ''save'' 7 save_table)" "''save''"] by fastforce
qed

section \<open>Esc after the first key\<close>

text \<open>
  A sequence with esc after its first key is bound and validated without complaint, and can never
  fire: the resolver gives every esc of a pending chord to the cancellation.
\<close>

lemma esc_continuation_never_fires:
  "fst (bind_seq ''^k esc'' ''leave'' 3 no_bindings)"
  "fst (finalize (snd (bind_seq ''^k esc'' ''leave'' 3 no_bindings))) = None"
  "kr_pending r \<noteq> '''' \<Longrightarrow> key_kind k = KEsc \<Longrightarrow> ks_kind (fst (resolver_step k r)) = Cancelled"
  by (code_simp, code_simp, simp add: resolver_step_def plain_step_def)

end
