(* ===== verification/KeyParse.thy ===== *)
theory KeyParse
  imports KeyNameProps
begin

text \<open>
  Terminal bytes to keys and back, from \<^verbatim>\<open>include/madcdis/tui_keyparse.h\<close>: the tilde codes of the
  function keys, class \<open>tui_keyparse\<close> and \<open>tui_key_bytes\<close>.  A call that appends keys to \<open>out\<close>
  returns what it appends.  \<open>atoi\<close> on a number that is not an \<open>int\<close>, whose result the standard
  leaves open, is the low 32 bits.
\<close>

section \<open>Function keys\<close>

definition fkey_codes :: "nat list" where
  "fkey_codes = [0, 11, 12, 13, 14, 15, 17, 18, 19, 20, 21, 23, 24]"

definition fkey_tilde_code :: "nat \<Rightarrow> nat" where
  "fkey_tilde_code n = (if 1 \<le> n \<and> n \<le> 12 then fkey_codes ! n else 0)"

definition fkey_of_tilde_code :: "int \<Rightarrow> nat" where
  "fkey_of_tilde_code code =
     (case find (\<lambda>n. int (fkey_tilde_code n) = code) [1..<13] of None \<Rightarrow> 0 | Some n \<Rightarrow> n)"

section \<open>Control sequences\<close>

definition emit :: "tui_key \<Rightarrow> char \<Rightarrow> key_mods \<Rightarrow> tui_keyev list" where
  "emit k c m = [key_normalized (keyev k c m)]"

definition emit_code :: "int \<Rightarrow> key_mods \<Rightarrow> tui_keyev list" where
  "emit_code code m =
     (if code = 9 then emit KTab no_char m
      else if code = 13 then emit KEnter no_char m
      else if code = 27 then emit KEsc no_char m
      else if code = 8 \<or> code = 127 then emit KBackspace no_char m
      else if 32 \<le> code \<and> code \<le> 126 then emit KCh (char_of (nat code)) m
      else [])"

definition atoi :: "string \<Rightarrow> int" where
  "atoi s =
     (let s1 = dropWhile isspace s;
          neg = (s1 \<noteq> [] \<and> hd s1 = CHR ''-'');
          s2 = (if s1 \<noteq> [] \<and> (hd s1 = CHR ''-'' \<or> hd s1 = CHR ''+'') then tl s1 else s1);
          v = int (digits_val 0 (takeWhile isdigit s2))
      in signed_take_bit 31 (if neg then - v else v))"

text \<open>The numbers before, between and after the first semicolons, at most \<open>n\<close> of them.\<close>

fun csi_numbers :: "nat \<Rightarrow> string \<Rightarrow> int list" where
  "csi_numbers 0 s = []" |
  "csi_numbers (Suc n) s =
     (case find_char s (CHR '';'') 0 of
        None \<Rightarrow> [atoi s]
      | Some i \<Rightarrow> atoi (take i s) # csi_numbers n (drop (i + 1) s))"

definition number_at :: "int list \<Rightarrow> nat \<Rightarrow> int" where
  "number_at ps i = (if i < length ps then ps ! i else 0)"

definition sgr_event :: "int \<Rightarrow> int \<Rightarrow> int \<Rightarrow> char \<Rightarrow> tui_keyev list" where
  "sgr_event b x y final =
     (let m = (if bit b 2 then mod_shift else 0) OR (if bit b 3 then mod_alt else 0) OR (if bit b 4 then mod_ctrl else 0);
          k = (keyev KPointer no_char m)\<lparr>key_col := word_of_int (x - 1), key_row := word_of_int (y - 1)\<rparr>
      in if bit b 6
         then if final = CHR ''m'' then []
              else [k\<lparr>key_button := if bit b 0 then WheelDown else WheelUp\<rparr>]
         else let which = b mod 4
              in if which = 3 then []
                 else [k\<lparr>key_button := if which = 0 then ButtonLeft else if which = 1 then ButtonMiddle else ButtonRight,
                         key_phase := if final = CHR ''m'' then PhaseUp else if bit b 5 then PhaseDrag else PhaseDown\<rparr>])"

text \<open>A mouse report, or none when the sequence is no such report.\<close>

definition resolve_sgr_mouse :: "string \<Rightarrow> char \<Rightarrow> tui_keyev list option" where
  "resolve_sgr_mouse params final =
     (if params = '''' \<or> params ! 0 \<noteq> CHR ''<'' \<or> (final \<noteq> CHR ''M'' \<and> final \<noteq> CHR ''m'') then None
      else let ps = csi_numbers 3 (tl params)
           in if length ps < 3 \<or> number_at ps 1 < 1 \<or> number_at ps 2 < 1 then Some []
              else Some (sgr_event (number_at ps 0) (number_at ps 1) (number_at ps 2) final))"

definition resolve_tilde :: "int list \<Rightarrow> key_mods \<Rightarrow> tui_keyev list" where
  "resolve_tilde ps m =
     (let p = number_at ps 0
      in if p = 1 \<or> p = 7 then emit KHome no_char m
         else if p = 4 \<or> p = 8 then emit KEnd no_char m
         else if p = 2 then emit KIns no_char m
         else if p = 3 then emit KDel no_char m
         else if p = 5 then emit KPgup no_char m
         else if p = 6 then emit KPgdn no_char m
         else if p = 27 then emit_code (number_at ps 2) m
         else let n = fkey_of_tilde_code p in if n = 0 then [] else emit KFkey (char_of n) m)"

definition cursor_final :: "char \<Rightarrow> tui_key option" where
  "cursor_final f = map_of [(CHR ''A'', KUp), (CHR ''B'', KDown), (CHR ''C'', KRight), (CHR ''D'', KLeft), (CHR ''H'', KHome), (CHR ''F'', KEnd)] f"

definition fkey_final :: "char \<Rightarrow> bool" where
  "fkey_final f \<longleftrightarrow> 80 \<le> byte f \<and> byte f \<le> 83"

definition resolve_csi :: "string \<Rightarrow> char \<Rightarrow> tui_keyev list" where
  "resolve_csi params final =
     (case resolve_sgr_mouse params final of
        Some out \<Rightarrow> out
      | None \<Rightarrow>
          let ps = csi_numbers 3 params;
              m = (if 1 < number_at ps 1 then word_of_int (number_at ps 1 - 1) else 0)
          in case cursor_final final of
               Some k \<Rightarrow> emit k no_char m
             | None \<Rightarrow>
                 if fkey_final final then emit KFkey (char_of (byte final - 80 + 1)) m
                 else if final = CHR ''Z'' then emit KTab no_char (m OR mod_shift)
                 else if final = CHR ''u'' then emit_code (number_at ps 0) m
                 else if final = CHR ''~'' then resolve_tilde ps m
                 else [])"

section \<open>The parser\<close>

datatype parse_state = PsNormal | PsEsc | PsCsi | PsSs3 | PsConsoleFkey | PsPaste

record tui_keyparse =
  kp_state :: parse_state
  kp_params :: string
  kp_paste_end :: string
  kp_paste_cr :: bool

definition keyparse_new :: tui_keyparse where
  "keyparse_new = \<lparr>kp_state = PsNormal, kp_params = '''', kp_paste_end = '''', kp_paste_cr = False\<rparr>"

definition esc_byte :: char where
  "esc_byte = CHR 0x1B"

definition end_marker :: string where
  "end_marker = esc_byte # ''[201~''"

definition paste_byte :: "char \<Rightarrow> tui_keyparse \<Rightarrow> tui_keyev list \<times> tui_keyparse" where
  "paste_byte b p =
     (let p' = p\<lparr>kp_paste_cr := (b = CHR 0x0D)\<rparr>
      in if b = CHR 0x0A \<and> kp_paste_cr p then ([], p')
         else (emit KCh (if b = CHR 0x0D then CHR 0x0A else b) 0, p'))"

fun paste_bytes :: "string \<Rightarrow> tui_keyparse \<Rightarrow> tui_keyev list \<times> tui_keyparse" where
  "paste_bytes [] p = ([], p)" |
  "paste_bytes (b # bs) p =
     (let q = paste_byte b p; r = paste_bytes bs (snd q) in (fst q @ fst r, snd r))"

definition feed_normal :: "char \<Rightarrow> tui_keyparse \<Rightarrow> tui_keyev list \<times> tui_keyparse" where
  "feed_normal b p =
     (if b = esc_byte then ([], p\<lparr>kp_state := PsEsc\<rparr>)
      else (if b = CHR 0x0D \<or> b = CHR 0x0A then emit KEnter no_char 0
            else if b = CHR 0x09 then emit KTab no_char 0
            else if b = CHR 0x7F \<or> b = CHR 0x08 then emit KBackspace no_char 0
            else if 1 \<le> byte b \<and> byte b \<le> 26 then emit KCtrl (char_of (97 + byte b - 1)) 0
            else if 28 \<le> byte b \<and> byte b \<le> 31 then emit KCtrl (char_of (byte b + 64)) 0
            else if 32 \<le> byte b then emit KCh b 0
            else if byte b = 0 then emit KCh (CHR '' '') mod_ctrl
            else [], p))"

definition feed_ss3 :: "char \<Rightarrow> tui_keyev list" where
  "feed_ss3 b =
     (case cursor_final b of
        Some k \<Rightarrow> emit k no_char 0
      | None \<Rightarrow> if fkey_final b then emit KFkey (char_of (byte b - 80 + 1)) 0 else [])"

definition feed_csi :: "char \<Rightarrow> tui_keyparse \<Rightarrow> tui_keyev list \<times> tui_keyparse" where
  "feed_csi b p =
     (if b = CHR ''['' \<and> kp_params p = '''' then ([], p\<lparr>kp_state := PsConsoleFkey\<rparr>)
      else if 64 \<le> byte b \<and> byte b \<le> 126
      then if b = CHR ''~'' \<and> kp_params p = ''200''
           then ([], p\<lparr>kp_state := PsPaste, kp_paste_end := '''', kp_paste_cr := False\<rparr>)
           else (resolve_csi (kp_params p) b, p\<lparr>kp_state := PsNormal\<rparr>)
      else if length (kp_params p) < 16 then ([], p\<lparr>kp_params := kp_params p @ [b]\<rparr>)
      else ([], p\<lparr>kp_state := PsNormal\<rparr>))"

lemma paste_byte_frame: "kp_state (snd (paste_byte b p)) = kp_state p" "kp_paste_end (snd (paste_byte b p)) = kp_paste_end p"
    "kp_params (snd (paste_byte b p)) = kp_params p"
  by (simp_all add: paste_byte_def Let_def)

lemma paste_bytes_frame: "kp_state (snd (paste_bytes bs p)) = kp_state p" "kp_paste_end (snd (paste_bytes bs p)) = kp_paste_end p"
    "kp_params (snd (paste_bytes bs p)) = kp_params p"
  by (induction bs p rule: paste_bytes.induct) (simp_all add: paste_byte_frame Let_def)

function feed_byte :: "char \<Rightarrow> tui_keyparse \<Rightarrow> tui_keyev list \<times> tui_keyparse" where
  "feed_byte b p =
     (case kp_state p of
        PsPaste \<Rightarrow>
          if b = (end_marker @ [CHR 0x00]) ! length (kp_paste_end p)
          then let held = kp_paste_end p @ [b]
               in if length held = length end_marker then ([], p\<lparr>kp_paste_end := '''', kp_state := PsNormal\<rparr>)
                  else ([], p\<lparr>kp_paste_end := held\<rparr>)
          else if kp_paste_end p \<noteq> ''''
          then let q = paste_bytes (kp_paste_end p) (p\<lparr>kp_paste_end := ''''\<rparr>);
                   r = feed_byte b (snd q)
               in (fst q @ fst r, snd r)
          else paste_byte b p
      | PsEsc \<Rightarrow>
          if b = CHR ''['' then ([], p\<lparr>kp_state := PsCsi, kp_params := ''''\<rparr>)
          else if b = CHR ''O'' then ([], p\<lparr>kp_state := PsSs3\<rparr>)
          else if printable b then (emit KCh b mod_alt, p\<lparr>kp_state := PsNormal\<rparr>)
          else let r = feed_byte b (p\<lparr>kp_state := PsNormal\<rparr>) in (emit KEsc no_char 0 @ fst r, snd r)
      | PsCsi \<Rightarrow> feed_csi b p
      | PsSs3 \<Rightarrow> (feed_ss3 b, p\<lparr>kp_state := PsNormal\<rparr>)
      | PsConsoleFkey \<Rightarrow>
          (if 65 \<le> byte b \<and> byte b \<le> 69 then emit KFkey (char_of (byte b - 65 + 1)) 0 else [], p\<lparr>kp_state := PsNormal\<rparr>)
      | PsNormal \<Rightarrow> feed_normal b p)"
  by pat_completeness auto

termination
  by (relation "measure (\<lambda>(b, p). length (kp_paste_end p) + (if kp_state p = PsEsc then 1 else 0))")
    (simp_all add: paste_bytes_frame)

declare feed_byte.simps [simp del]

fun feed :: "string \<Rightarrow> tui_keyparse \<Rightarrow> tui_keyev list \<times> tui_keyparse" where
  "feed [] p = ([], p)" |
  "feed (b # bs) p = (let q = feed_byte b p; r = feed bs (snd q) in (fst q @ fst r, snd r))"

definition pending :: "tui_keyparse \<Rightarrow> bool" where
  "pending p \<longleftrightarrow> kp_state p \<noteq> PsNormal \<and> kp_state p \<noteq> PsPaste"

definition flush :: "tui_keyparse \<Rightarrow> tui_keyev list \<times> tui_keyparse" where
  "flush p =
     (if kp_state p = PsPaste then ([], p)
      else (if kp_state p = PsEsc then emit KEsc no_char 0 else [], p\<lparr>kp_state := PsNormal, kp_params := ''''\<rparr>))"

section \<open>Keys to bytes\<close>

definition tui_key_base_bytes :: "tui_keyev \<Rightarrow> string" where
  "tui_key_base_bytes k =
     (case key_kind k of
        KCh \<Rightarrow> [key_ch k]
      | KCtrl \<Rightarrow> (if islower (key_ch k) then [char_of (byte (key_ch k) - 97 + 1)]
                  else if 92 \<le> byte (key_ch k) \<and> byte (key_ch k) \<le> 95 then [char_of (byte (key_ch k) - 64)] else [])
      | KEnter \<Rightarrow> [CHR 0x0D]
      | KTab \<Rightarrow> [CHR 0x09]
      | KBackspace \<Rightarrow> [CHR 0x7F]
      | KEsc \<Rightarrow> [esc_byte]
      | KUp \<Rightarrow> esc_byte # ''[A''
      | KDown \<Rightarrow> esc_byte # ''[B''
      | KRight \<Rightarrow> esc_byte # ''[C''
      | KLeft \<Rightarrow> esc_byte # ''[D''
      | KHome \<Rightarrow> esc_byte # ''[H''
      | KEnd \<Rightarrow> esc_byte # ''[F''
      | KIns \<Rightarrow> esc_byte # ''[2~''
      | KDel \<Rightarrow> esc_byte # ''[3~''
      | KPgup \<Rightarrow> esc_byte # ''[5~''
      | KPgdn \<Rightarrow> esc_byte # ''[6~''
      | KFkey \<Rightarrow>
          (let n = byte (key_ch k)
           in if 1 \<le> n \<and> n \<le> 4 then [esc_byte, CHR ''O'', char_of (80 + n - 1)]
              else if 5 \<le> n \<and> n \<le> 12 then esc_byte # CHR ''['' # to_string (fkey_tilde_code n) @ ''~''
              else [])
      | _ \<Rightarrow> [])"

definition tui_key_bytes :: "tui_keyev \<Rightarrow> string" where
  "tui_key_bytes k =
     (if key_mods k = 0 then tui_key_base_bytes k
      else let mods = (if key_kind k = KCtrl then key_mods k OR mod_ctrl else key_mods k);
               m = to_string (1 + unat mods);
               cursor = (\<lambda>f. esc_byte # ''[1;'' @ m @ [f]);
               tilde = (\<lambda>n. esc_byte # CHR ''['' # to_string n @ '';'' @ m @ ''~'');
               other = (\<lambda>n. esc_byte # ''[27;'' @ m @ '';'' @ to_string n @ ''~'')
           in case key_kind k of
                KUp \<Rightarrow> cursor (CHR ''A'')
              | KDown \<Rightarrow> cursor (CHR ''B'')
              | KRight \<Rightarrow> cursor (CHR ''C'')
              | KLeft \<Rightarrow> cursor (CHR ''D'')
              | KHome \<Rightarrow> cursor (CHR ''H'')
              | KEnd \<Rightarrow> cursor (CHR ''F'')
              | KIns \<Rightarrow> tilde 2
              | KDel \<Rightarrow> tilde 3
              | KPgup \<Rightarrow> tilde 5
              | KPgdn \<Rightarrow> tilde 6
              | KFkey \<Rightarrow>
                  (let n = byte (key_ch k)
                   in if 1 \<le> n \<and> n \<le> 4 then cursor (char_of (80 + n - 1))
                      else if 5 \<le> n \<and> n \<le> 12 then tilde (fkey_tilde_code n) else [])
              | KTab \<Rightarrow> (if key_mods k = mod_shift then esc_byte # ''[Z'' else other 9)
              | KEnter \<Rightarrow> other 13
              | KEsc \<Rightarrow> other 27
              | KBackspace \<Rightarrow> other 127
              | KCh \<Rightarrow>
                  (if key_ch k = CHR '' '' \<and> key_mods k = mod_ctrl then [CHR 0x00]
                   else if key_mods k = mod_alt \<and> printable (key_ch k) then [esc_byte, key_ch k]
                   else other (byte (key_ch k)))
              | KCtrl \<Rightarrow>
                  other (byte (if holds_mod (key_mods k) mod_shift \<and> islower (key_ch k)
                               then char_of (byte (key_ch k) - 97 + 65) else key_ch k))
              | _ \<Rightarrow> [])"

end
