(* ===== verification/KeyParseProps.thy ===== *)
theory KeyParseProps
  imports KeyParse
begin

text \<open>
  Correctness of the key parser: a bracketed paste is its text whatever the text holds, and the
  bytes written for a key are read as that key.
\<close>

section \<open>Feeding\<close>

lemma feed_append:
  "feed (s @ t) p = (fst (feed s p) @ fst (feed t (snd (feed s p))), snd (feed t (snd (feed s p))))"
  by (induction s p rule: feed.induct) (simp_all add: Let_def)

lemma emit_plain [simp]: "emit k c 0 = [keyev k c 0]"
  by (cases "k = KCtrl") (simp_all add: emit_def key_normalized_def holds_mod_def key_holds_chord_mods_def mod_shift_def)

section \<open>Pasted text\<close>

fun paste_text :: "bool \<Rightarrow> string \<Rightarrow> string" where
  "paste_text cr [] = []" |
  "paste_text cr (b # bs) =
     (if b = CHR 0x0A \<and> cr then paste_text False bs
      else (if b = CHR 0x0D then CHR 0x0A else b) # paste_text (b = CHR 0x0D) bs)"

definition cr_after :: "bool \<Rightarrow> string \<Rightarrow> bool" where
  "cr_after cr s = (if s = [] then cr else last s = CHR 0x0D)"

abbreviation typed :: "char \<Rightarrow> tui_keyev" where
  "typed c \<equiv> keyev KCh c 0"

lemma paste_text_append: "paste_text cr (s @ t) = paste_text cr s @ paste_text (cr_after cr s) t"
  by (induction cr s rule: paste_text.induct) (auto simp: cr_after_def)

lemma cr_after_append: "cr_after cr (s @ t) = cr_after (cr_after cr s) t"
  by (simp add: cr_after_def)

lemma paste_bytes_text:
  "paste_bytes s p = (map typed (paste_text (kp_paste_cr p) s), p\<lparr>kp_paste_cr := cr_after (kp_paste_cr p) s\<rparr>)"
  by (induction s p rule: paste_bytes.induct) (auto simp: paste_byte_def Let_def cr_after_def)

lemma paste_byte_text:
  "paste_byte b p = (map typed (paste_text (kp_paste_cr p) [b]), p\<lparr>kp_paste_cr := (b = CHR 0x0D)\<rparr>)"
  by (simp add: paste_byte_def Let_def)

definition pasting :: "string \<Rightarrow> bool \<Rightarrow> tui_keyparse \<Rightarrow> tui_keyparse" where
  "pasting held cr p = p\<lparr>kp_state := PsPaste, kp_paste_end := held, kp_paste_cr := cr\<rparr>"

lemma pasting_simps [simp]:
  "kp_state (pasting h cr p) = PsPaste" "kp_paste_end (pasting h cr p) = h" "kp_paste_cr (pasting h cr p) = cr"
  "(pasting h cr p)\<lparr>kp_paste_end := h'\<rparr> = pasting h' cr p" "(pasting h cr p)\<lparr>kp_paste_cr := cr'\<rparr> = pasting h cr' p"
  by (simp_all add: pasting_def)

definition marker_at :: "nat \<Rightarrow> char" where
  "marker_at n = (end_marker @ [CHR 0x00]) ! n"

lemma length_marker [simp]: "length end_marker = 6"
  by (simp add: end_marker_def)

lemma marker_esc: "n < 6 \<Longrightarrow> marker_at n = esc_byte \<longleftrightarrow> n = 0"
  by (auto simp: marker_at_def end_marker_def esc_byte_def less_Suc_eq numeral_eq_Suc)

lemma marker_take: "n < 6 \<Longrightarrow> take (Suc n) end_marker = take n end_marker @ [marker_at n]"
  by (simp add: marker_at_def take_Suc_conv_app_nth nth_append)

text \<open>One byte of a paste, by how far the end marker has come.\<close>

lemma paste_match:
  assumes "n < 6" and "h = take n end_marker"
  shows "feed_byte (marker_at n) (pasting h cr p) =
    (if n = 5 then ([], (pasting '''' cr p)\<lparr>kp_state := PsNormal\<rparr>) else ([], pasting (take (Suc n) end_marker) cr p))"
proof -
  have l: "length h = n" using assms by simp
  show ?thesis using assms l marker_take [of n] by (subst feed_byte.simps) (simp add: marker_at_def [symmetric])
qed

lemma paste_other_plain: "b \<noteq> esc_byte \<Longrightarrow> feed_byte b (pasting '''' cr p) = paste_byte b (pasting '''' cr p)"
  by (subst feed_byte.simps) (simp add: end_marker_def)

lemma paste_other:
  assumes "0 < n" and "n < 6" and "h = take n end_marker" and "b \<noteq> marker_at n"
  shows "feed_byte b (pasting h cr p) =
    (map typed (paste_text cr h) @ fst (feed_byte b (pasting '''' (cr_after cr h) p)), snd (feed_byte b (pasting '''' (cr_after cr h) p)))"
proof -
  have "length h = n" "h \<noteq> ''''" using assms by (auto simp: end_marker_def)
  then show ?thesis using assms by (subst feed_byte.simps) (simp add: marker_at_def [symmetric] paste_bytes_text Let_def)
qed

text \<open>The end marker, however much of it was held back before.\<close>

lemma feed_marker_rest:
  "n \<le> 6 \<Longrightarrow> 0 < n \<Longrightarrow> feed (drop n end_marker) (if n = 6 then (pasting '''' cr p)\<lparr>kp_state := PsNormal\<rparr> else pasting (take n end_marker) cr p)
    = ([], (pasting '''' cr p)\<lparr>kp_state := PsNormal\<rparr>)"
proof (induction "6 - n" arbitrary: n)
  case (Suc d)
  then have n: "n < 6" by simp
  have d: "drop n end_marker = marker_at n # drop (Suc n) end_marker"
    using n by (simp add: marker_at_def nth_append Cons_nth_drop_Suc)
  show ?case using Suc.hyps(1) [of "Suc n"] Suc.hyps(2) n d paste_match [OF n refl, of cr p] by (cases "n = 5") (simp_all add: Let_def)
qed simp

lemma feed_marker: "feed end_marker (pasting [] cr p) = ([], (pasting [] cr p)\<lparr>kp_state := PsNormal\<rparr>)"
proof -
  have m: "end_marker = marker_at 0 # drop 1 end_marker" by (simp add: marker_at_def end_marker_def)
  have s: "feed_byte (marker_at 0) (pasting [] cr p) = ([], pasting (take 1 end_marker) cr p)"
    using paste_match [of 0 "[]" cr p] by simp
  have "feed end_marker (pasting [] cr p) = feed (marker_at 0 # drop 1 end_marker) (pasting [] cr p)"
    using m by (rule arg_cong [where f = "\<lambda>s. feed s (pasting [] cr p)"])
  then show ?thesis using feed_marker_rest [of 1 cr p] by (simp add: s Let_def)
qed

text \<open>A text without the end marker in it, the part of the marker held back put before it.\<close>

definition no_marker :: "string \<Rightarrow> bool" where
  "no_marker s \<longleftrightarrow> \<not> (\<exists>u v. s = u @ end_marker @ v)"

lemma no_marker_suffix: "no_marker (u @ s) \<Longrightarrow> no_marker s"
  unfolding no_marker_def by (metis append.assoc)

lemma feed_paste:
  assumes "n < 6" and "no_marker (take n end_marker @ t)"
  shows "feed (t @ end_marker) (pasting (take n end_marker) cr p) =
    (map typed (paste_text cr (take n end_marker @ t)),
     (pasting [] (cr_after cr (take n end_marker @ t)) p)\<lparr>kp_state := PsNormal\<rparr>)"
  using assms
proof (induction t arbitrary: n cr)
  case Nil
  show ?case
  proof (cases "n = 0")
    case True
    then show ?thesis by (simp add: feed_marker cr_after_def)
  next
    case False
    have m: "end_marker = esc_byte # drop 1 end_marker" by (simp add: end_marker_def)
    let ?cr = "cr_after cr (take n end_marker)"
    have o: "esc_byte \<noteq> marker_at n" using marker_esc [of n] Nil.prems(1) False by auto
    have F: "feed (esc_byte # drop 1 end_marker) (pasting (take n end_marker) cr p) =
        (map typed (paste_text cr (take n end_marker)) @ fst (feed (esc_byte # drop 1 end_marker) (pasting [] ?cr p)),
         snd (feed (esc_byte # drop 1 end_marker) (pasting [] ?cr p)))"
      using paste_other [OF _ Nil.prems(1) refl o, of cr p] False by (simp add: Let_def)
    show ?thesis using F [folded m] feed_marker [of ?cr p] by simp
  qed
next
  case (Cons b t)
  let ?h = "take n end_marker" and ?rest = "t @ end_marker"
  have fresh: "feed ((b # t) @ end_marker) (pasting [] cr' p) =
      (map typed (paste_text cr' (b # t)), (pasting [] (cr_after cr' (b # t)) p)\<lparr>kp_state := PsNormal\<rparr>)"
    if nm: "no_marker (b # t)" for cr'
  proof (cases "b = esc_byte")
    case True
    then have b: "b = marker_at 0" "take 1 end_marker = [b]" by (simp_all add: marker_at_def end_marker_def)
    then have "feed_byte b (pasting [] cr' p) = ([], pasting (take 1 end_marker) cr' p)"
      using paste_match [of 0 "[]" cr' p] by simp
    then show ?thesis using Cons.IH [of 1 cr'] b nm by (simp add: Let_def)
  next
    case False
    have "feed (t @ end_marker) (pasting [] (b = CHR 0x0D) p) = (map typed (paste_text (b = CHR 0x0D) t),
        (pasting [] (cr_after (b = CHR 0x0D) t) p)\<lparr>kp_state := PsNormal\<rparr>)"
      using Cons.IH [of 0 "b = CHR 0x0D"] no_marker_suffix [of "[b]" t] nm by simp
    moreover have "cr_after (b = CHR 0x0D) t = cr_after cr' (b # t)" by (simp add: cr_after_def)
    ultimately show ?thesis
      using paste_other_plain [OF False, of cr' p] paste_text_append [of cr' "[b]" t]
      by (simp add: Let_def paste_byte_text cr_after_def)
  qed
  show ?case
  proof (cases "b = marker_at n")
    case True
    have h: "?h @ b # t = take (Suc n) end_marker @ t" using marker_take [OF Cons.prems(1)] True by simp
    have n: "n \<noteq> 5"
    proof
      assume "n = 5"
      then have "take (Suc n) end_marker = end_marker" by (simp add: end_marker_def)
      then have "take n end_marker @ b # t = [] @ end_marker @ t" using h by simp
      then show False using Cons.prems(2) unfolding no_marker_def by blast
    qed
    have F: "feed ((b # t) @ end_marker) (pasting ?h cr p) = feed ?rest (pasting (take (Suc n) end_marker) cr p)"
      using paste_match [OF Cons.prems(1) refl, of cr p] True n by (simp add: Let_def)
    have "no_marker (take (Suc n) end_marker @ t)" using Cons.prems(2) unfolding h .
    then show ?thesis unfolding F h using Cons.prems(1) n by (intro Cons.IH) simp_all
  next
    case False
    have nm: "no_marker (b # t)" using no_marker_suffix Cons.prems(2) by blast
    show ?thesis
    proof (cases "n = 0")
      case True
      then show ?thesis using fresh [OF nm, of cr] by simp
    next
      case n: False
      let ?cr = "cr_after cr ?h"
      have "feed ((b # t) @ end_marker) (pasting ?h cr p) =
          (map typed (paste_text cr ?h) @ fst (feed ((b # t) @ end_marker) (pasting [] ?cr p)), snd (feed ((b # t) @ end_marker) (pasting [] ?cr p)))"
        using paste_other [OF _ Cons.prems(1) refl False, of cr p] n by (simp add: Let_def)
      then show ?thesis using fresh [OF nm, of ?cr] by (simp add: paste_text_append cr_after_append)
    qed
  qed
qed

section \<open>Pastes in pieces\<close>

text \<open>
  What the host does with its reads: each one is fed, and after those that were followed by a
  pause the parser is flushed.
\<close>

fun feed_reads :: "(string \<times> bool) list \<Rightarrow> tui_keyparse \<Rightarrow> tui_keyev list \<times> tui_keyparse" where
  "feed_reads [] p = ([], p)"
| "feed_reads ((s, pause) # rs) p =
     (let (ks, p) = feed s p; (js, p) = (if pause then flush p else ([], p)); (is, p) = feed_reads rs p in (ks @ js @ is, p))"

lemma feed_reads_unpaused: "feed_reads (map (\<lambda>s. (s, False)) ss) p = feed (concat ss) p"
  by (induction ss arbitrary: p) (simp_all add: feed_append split: prod.split)

lemma feed_reads_append:
  "feed_reads (rs @ qs) p = (let (ks, p) = feed_reads rs p; (js, p) = feed_reads qs p in (ks @ js, p))"
  by (induction rs arbitrary: p) (auto split: prod.splits)

lemma feed_text_inside:
  "n < 6 \<Longrightarrow> no_marker (take n end_marker @ t) \<Longrightarrow> kp_state (snd (feed t (pasting (take n end_marker) cr p))) = PsPaste"
proof (induction t arbitrary: n cr)
  case (Cons b t)
  have fresh: "kp_state (snd (feed (b # t) (pasting [] cr' p))) = PsPaste" if nm: "no_marker (b # t)" for cr'
  proof (cases "b = esc_byte")
    case True
    then have b: "b = marker_at 0" "take 1 end_marker = [b]" by (simp_all add: marker_at_def end_marker_def)
    then have "feed_byte b (pasting [] cr' p) = ([], pasting (take 1 end_marker) cr' p)"
      using paste_match [of 0 "[]" cr' p] by simp
    then show ?thesis using Cons.IH [of 1 cr'] b nm by (simp add: Let_def)
  next
    case False
    have "kp_state (snd (feed t (pasting [] (b = CHR 0x0D) p))) = PsPaste"
      using Cons.IH [of 0 "b = CHR 0x0D"] no_marker_suffix [of "[b]" t] nm by simp
    then show ?thesis using paste_other_plain [OF False, of cr' p] by (simp add: Let_def paste_byte_text)
  qed
  show ?case
  proof (cases "b = marker_at n")
    case True
    have h: "take n end_marker @ b # t = take (Suc n) end_marker @ t" using marker_take [OF Cons.prems(1)] True by simp
    have n: "n \<noteq> 5"
    proof
      assume "n = 5"
      then have "take (Suc n) end_marker = end_marker" by (simp add: end_marker_def)
      then have "take n end_marker @ b # t = [] @ end_marker @ t" using h by simp
      then show False using Cons.prems(2) unfolding no_marker_def by blast
    qed
    have "feed (b # t) (pasting (take n end_marker) cr p) = feed t (pasting (take (Suc n) end_marker) cr p)"
      using paste_match [OF Cons.prems(1) refl, of cr p] True n by (simp add: Let_def)
    then show ?thesis using Cons.IH [of "Suc n" cr] Cons.prems n h by simp
  next
    case False
    have nm: "no_marker (b # t)" using no_marker_suffix Cons.prems(2) by blast
    show ?thesis
    proof (cases "n = 0")
      case True
      then show ?thesis using fresh [OF nm, of cr] by simp
    next
      case n: False
      have "snd (feed (b # t) (pasting (take n end_marker) cr p)) = snd (feed (b # t) (pasting [] (cr_after cr (take n end_marker)) p))"
        using paste_other [OF _ Cons.prems(1) refl False, of cr p] n by (simp add: Let_def)
      then show ?thesis using fresh [OF nm] by simp
    qed
  qed
qed simp

text \<open>The end marker does not overlap itself, so no part of it makes one with the text before it.\<close>

lemma no_marker_part:
  assumes "no_marker t" and "k < 6"
  shows "no_marker (t @ take k end_marker)"
  unfolding no_marker_def
proof
  assume "\<exists>u v. t @ take k end_marker = u @ end_marker @ v"
  then obtain u v where eq: "t @ take k end_marker = u @ end_marker @ v" by blast
  have len: "length end_marker = 6" by (simp add: end_marker_def)
  have l: "length t + k = length u + 6 + length v" using arg_cong [OF eq, of length] assms(2) len by simp
  show False
  proof (cases "length u + 6 \<le> length t")
    case True
    then have "t = take (length t) (u @ end_marker @ v)" unfolding eq [symmetric] by simp
    then have "t = u @ end_marker @ take (length t - (length u + 6)) v" using True len by simp
    then show False using assms(1) unfolding no_marker_def by blast
  next
    case False
    let ?j = "length t - length u"
    have j: "0 < ?j" "?j < 6" "0 < k" using False l assms(2) by auto
    have "(t @ take k end_marker) ! length t = end_marker ! 0" using j(3) len by (simp add: nth_append)
    moreover have "(u @ end_marker @ v) ! length t = end_marker ! ?j" using j len by (simp add: nth_append)
    ultimately have "end_marker ! ?j = esc_byte" using eq by (simp add: end_marker_def)
    then show False using marker_esc [OF j(2)] j(1,2) len by (simp add: marker_at_def nth_append)
  qed
qed

lemma paste_prefix_inside:
  assumes "no_marker t" and "t @ end_marker = x @ y" and "y \<noteq> []"
  shows "kp_state (snd (feed x (pasting [] cr p))) = PsPaste"
proof -
  have "no_marker x"
  proof (cases "length x \<le> length t")
    case True
    have "t = take (length t) (t @ end_marker)" by simp
    then have "t = x @ take (length t - length x) y" using True unfolding assms(2) by simp
    then show ?thesis using assms(1) unfolding no_marker_def by (metis append.assoc)
  next
    case False
    have l: "length x + length y = length t + 6" using arg_cong [OF assms(2), of length] by (simp add: end_marker_def)
    have "x = take (length x) (t @ end_marker)" using assms(2) by simp
    then have "x = t @ take (length x - length t) end_marker" using False by simp
    moreover have "length x - length t < 6" using l assms(3) by (cases y) auto
    ultimately show ?thesis using no_marker_part [OF assms(1)] by metis
  qed
  then show ?thesis using feed_text_inside [of 0 x cr p] by simp
qed

lemma feed_reads_paste:
  assumes "\<And>x y. concat (map fst rs) = x @ y \<Longrightarrow> y \<noteq> [] \<Longrightarrow> kp_state (snd (feed x p)) = PsPaste"
    and "kp_state (snd (feed (concat (map fst rs)) p)) = PsNormal"
  shows "fst (feed_reads rs p) = fst (feed (concat (map fst rs)) p) \<and> kp_state (snd (feed_reads rs p)) = PsNormal"
  using assms
proof (induction rs arbitrary: p)
  case (Cons r rs)
  obtain s pause where r: "r = (s, pause)" by (cases r)
  obtain ks q where q: "feed s p = (ks, q)" by fastforce
  let ?rest = "concat (map fst rs)"
  have whole: "feed (concat (map fst (r # rs))) p = (ks @ fst (feed ?rest q), snd (feed ?rest q))" by (simp add: r feed_append q)
  define q' where "q' = (if pause then snd (flush q) else q)"
  have q': "(if pause then flush q else ([], q)) = ([], q') \<and> fst (feed ?rest q') = fst (feed ?rest q)
      \<and> kp_state (snd (feed ?rest q')) = PsNormal \<and> (\<forall>x y. ?rest = x @ y \<longrightarrow> y \<noteq> [] \<longrightarrow> kp_state (snd (feed x q')) = PsPaste)"
  proof (cases "?rest = []")
    case True
    have "kp_state (snd (feed ?rest q)) = PsNormal" using Cons.prems(2) whole by simp
    then have n: "kp_state q = PsNormal" unfolding True by simp
    show ?thesis unfolding True using n by (auto simp: q'_def flush_def)
  next
    case False
    have "concat (map fst (r # rs)) = s @ ?rest" by (simp add: r)
    from Cons.prems(1) [OF this False] have "kp_state (snd (feed s p)) = PsPaste" .
    then have "q' = q" "(if pause then flush q else ([], q)) = ([], q)" using q by (simp_all add: q'_def flush_def)
    moreover have "kp_state (snd (feed x q)) = PsPaste" if "?rest = x @ y" "y \<noteq> []" for x y
      using Cons.prems(1) [of "s @ x" y] that by (simp add: r feed_append q)
    ultimately show ?thesis using Cons.prems(2) whole by simp
  qed
  have "fst (feed_reads rs q') = fst (feed ?rest q') \<and> kp_state (snd (feed_reads rs q')) = PsNormal"
    by (rule Cons.IH) (use q' in blast)+
  then show ?case using q' whole by (cases "feed_reads rs q'") (simp add: r q)
qed simp

section \<open>Parameters\<close>

lemma feed_params:
  "length (kp_params p) + length s \<le> 16 \<Longrightarrow> kp_state p = PsCsi \<Longrightarrow> \<forall>c \<in> set s. byte c < 64 \<Longrightarrow>
    feed s p = ([], p\<lparr>kp_params := kp_params p @ s\<rparr>)"
proof (induction s arbitrary: p)
  case (Cons c s)
  have "feed_byte c p = ([], p\<lparr>kp_params := kp_params p @ [c]\<rparr>)"
    using Cons.prems by (subst feed_byte.simps) (auto simp: feed_csi_def)
  then show ?case using Cons.IH [of "p\<lparr>kp_params := kp_params p @ [c]\<rparr>"] Cons.prems by (simp add: Let_def)
qed simp

lemma feed_paste_start:
  assumes "kp_state p = PsNormal"
  shows "feed (esc_byte # ''[200~'') p = ([], pasting [] False (p\<lparr>kp_params := ''200''\<rparr>))"
proof -
  let ?q = "p\<lparr>kp_state := PsCsi, kp_params := []\<rparr>"
  have e: "feed_byte esc_byte p = ([], p\<lparr>kp_state := PsEsc\<rparr>)"
    using assms by (subst feed_byte.simps) (simp add: feed_normal_def)
  have b: "feed_byte (CHR ''['') (p\<lparr>kp_state := PsEsc\<rparr>) = ([], ?q)"
    by (subst feed_byte.simps) simp
  have s: "feed ''200'' ?q = ([], ?q\<lparr>kp_params := ''200''\<rparr>)" using feed_params [of ?q "''200''"] by simp
  have t: "feed_byte (CHR ''~'') (?q\<lparr>kp_params := ''200''\<rparr>) = ([], pasting [] False (p\<lparr>kp_params := ''200''\<rparr>))"
    by (subst feed_byte.simps) (simp add: feed_csi_def pasting_def)
  have split: "esc_byte # ''[200~'' = [esc_byte, CHR ''[''] @ ''200'' @ ''~''" by simp
  have "feed [esc_byte, CHR ''[''] p = ([], ?q)" by (simp add: e b Let_def)
  moreover have "feed (''200'' @ ''~'') ?q = ([], pasting [] False (p\<lparr>kp_params := ''200''\<rparr>))"
    unfolding feed_append s using t by (simp add: Let_def)
  ultimately show ?thesis unfolding split feed_append by simp
qed

text \<open>A control sequence with its parameters and its final byte.\<close>

lemma feed_csi_seq:
  assumes "kp_state p = PsNormal" and "length s \<le> 16" and "\<forall>c \<in> set s. byte c < 64"
    and "64 \<le> byte f" and "byte f \<le> 126" and "f \<noteq> CHR ''['' \<or> s \<noteq> ''''" and "f \<noteq> CHR ''~'' \<or> s \<noteq> ''200''"
  shows "feed (esc_byte # CHR ''['' # s @ [f]) p = (resolve_csi s f, p\<lparr>kp_params := s\<rparr>)"
proof -
  let ?q = "p\<lparr>kp_state := PsCsi, kp_params := ''''\<rparr>"
  have e: "feed_byte esc_byte p = ([], p\<lparr>kp_state := PsEsc\<rparr>)"
    using assms by (subst feed_byte.simps) (simp add: feed_normal_def)
  have b: "feed_byte (CHR ''['') (p\<lparr>kp_state := PsEsc\<rparr>) = ([], ?q)"
    by (subst feed_byte.simps) simp
  have s: "feed s ?q = ([], ?q\<lparr>kp_params := s\<rparr>)" using feed_params [of ?q s] assms by simp
  have "feed_byte f (?q\<lparr>kp_params := s\<rparr>) = (resolve_csi s f, (?q\<lparr>kp_params := s\<rparr>)\<lparr>kp_state := PsNormal\<rparr>)"
    using assms by (subst feed_byte.simps) (auto simp: feed_csi_def)
  moreover have "(?q\<lparr>kp_params := s\<rparr>)\<lparr>kp_state := PsNormal\<rparr> = p\<lparr>kp_params := s\<rparr>" using assms(1) by simp
  ultimately show ?thesis using s by (simp add: e b Let_def feed_append)
qed

lemma to_string_plain: "c \<in> set (to_string n) \<Longrightarrow> byte c < 64 \<and> c \<noteq> CHR '';'' \<and> c \<noteq> CHR ''<'' \<and> isdigit c \<and> \<not> isspace c"
  using to_string_digits [of n] by (auto simp: isdigit_def isspace_def)

lemma atoi_to_string:
  assumes "n < 2 ^ 31"
  shows "atoi (to_string n) = int n"
proof -
  obtain c r where s: "to_string n = c # r" using to_string_nonempty [of n] by (cases "to_string n") auto
  then have c: "\<not> isspace c" "c \<noteq> CHR ''-''" "c \<noteq> CHR ''+''"
    using to_string_plain [of c n] by (auto simp: isdigit_def)
  have d: "takeWhile isdigit (to_string n) = to_string n" using to_string_digits [of n] by (simp add: takeWhile_eq_all_conv)
  have "dropWhile isspace (to_string n) = to_string n" using s c by simp
  moreover have "signed_take_bit 31 (int n) = int n" using assms by (simp add: signed_take_bit_int_eq_self)
  ultimately show ?thesis using s c d digits_val_to_string [of n] by (simp add: atoi_def Let_def)
qed

lemma numbers_last: "CHR '';'' \<notin> set s \<Longrightarrow> csi_numbers (Suc n) s = [atoi s]"
  by (auto simp: find_char_def char_find_at_eq)

lemma numbers_more: "CHR '';'' \<notin> set s \<Longrightarrow> csi_numbers (Suc n) (s @ CHR '';'' # t) = atoi s # csi_numbers n t"
proof -
  assume s: "CHR '';'' \<notin> set s"
  then have "takeWhile (\<lambda>c. c \<noteq> CHR '';'') (s @ CHR '';'' # t) = s" by (auto simp: takeWhile_append)
  then show ?thesis using s by (simp add: find_char_def char_find_at_eq)
qed

section \<open>The bytes of a key\<close>

lemma numbers_of:
  assumes "a < 2 ^ 31" and "b < 2 ^ 31" and "c < 2 ^ 31"
  shows "csi_numbers 3 (to_string a) = [int a]"
    and "csi_numbers 3 (to_string a @ CHR '';'' # to_string b) = [int a, int b]"
    and "csi_numbers 3 (to_string a @ CHR '';'' # to_string b @ CHR '';'' # to_string c) = [int a, int b, int c]"
proof -
  have semi: "CHR '';'' \<notin> set (to_string n)" for n using to_string_plain [of "CHR '';''" n] by blast
  have three: "3 = Suc (Suc (Suc 0))" by simp
  note N = atoi_to_string [OF assms(1)] atoi_to_string [OF assms(2)] atoi_to_string [OF assms(3)]
  show "csi_numbers 3 (to_string a) = [int a]" unfolding three numbers_last [OF semi] by (simp add: N)
  show "csi_numbers 3 (to_string a @ CHR '';'' # to_string b) = [int a, int b]"
    unfolding three numbers_more [OF semi] numbers_last [OF semi] by (simp add: N)
  show "csi_numbers 3 (to_string a @ CHR '';'' # to_string b @ CHR '';'' # to_string c) = [int a, int b, int c]"
    unfolding three numbers_more [OF semi] numbers_last [OF semi] by (simp add: N)
qed

lemma no_mouse_report: "resolve_sgr_mouse (to_string a @ s) f = None"
proof -
  obtain c r where s: "to_string a = c # r" using to_string_nonempty [of a] by (cases "to_string a") auto
  then have "c \<noteq> CHR ''<''" using to_string_plain [of c a] by auto
  then show ?thesis using s by (simp add: resolve_sgr_mouse_def)
qed

definition resolve_with :: "int list \<Rightarrow> key_mods \<Rightarrow> char \<Rightarrow> tui_keyev list" where
  "resolve_with ps m f =
     (case cursor_final f of
        Some k \<Rightarrow> emit k no_char m
      | None \<Rightarrow>
          if fkey_final f then emit KFkey (char_of (byte f - 80 + 1)) m
          else if f = CHR ''Z'' then emit KTab no_char (m OR mod_shift)
          else if f = CHR ''u'' then emit_code (number_at ps 0) m
          else if f = CHR ''~'' then resolve_tilde ps m
          else [])"

text \<open>The parameter of a set of modifiers.\<close>

definition mod_number :: "nat \<Rightarrow> key_mods \<Rightarrow> bool" where
  "mod_number b m \<longleftrightarrow> 1 < b \<and> b < 1000 \<and> word_of_int (int b - 1) = m"

lemma mod_number_unat:
  assumes "m \<noteq> 0"
  shows "mod_number (1 + unat m) m"
proof -
  have u: "word_of_int (int (unat m)) = m" by simp
  have "unat m \<noteq> 0"
  proof
    assume z: "unat m = 0"
    have "m = word_of_int (int (unat m))" by (rule u [symmetric])
    then show False using assms unfolding z by simp
  qed
  moreover have "unat m < 256" using unsigned_less [where ?'a = nat, of m] by simp
  ultimately show ?thesis using u by (simp add: mod_number_def)
qed

lemma length_to_string: "n < 10 ^ Suc k \<Longrightarrow> length (to_string n) \<le> Suc k"
proof (induction k arbitrary: n)
  case (Suc k)
  have "n div 10 < 10 ^ Suc k" using Suc.prems by (simp add: less_mult_imp_div_less mult.commute)
  then show ?case using Suc.IH [of "n div 10"] by (subst to_string.simps) simp
qed (subst to_string.simps, simp)

lemma resolve_csi_numbers:
  assumes "a < 1000" and "c < 1000" and "mod_number b m"
  shows "resolve_csi (to_string a) f = resolve_with [int a] 0 f"
    and "resolve_csi (to_string a @ CHR '';'' # to_string b) f = resolve_with [int a, int b] m f"
    and "resolve_csi (to_string a @ CHR '';'' # to_string b @ CHR '';'' # to_string c) f = resolve_with [int a, int b, int c] m f"
proof -
  have b: "a < 2 ^ 31" "b < 2 ^ 31" "c < 2 ^ 31" using assms by (auto simp: mod_number_def)
  note N = numbers_of [OF b]
  have r: "1 < number_at (x # int b # xs) 1" "word_of_int (number_at (x # int b # xs) 1 - 1) = m" for x xs
    using assms(3) by (simp_all add: number_at_def mod_number_def)
  show "resolve_csi (to_string a) f = resolve_with [int a] 0 f"
    using no_mouse_report [of a "[]" f] by (simp add: resolve_csi_def resolve_with_def N number_at_def Let_def)
  show "resolve_csi (to_string a @ CHR '';'' # to_string b) f = resolve_with [int a, int b] m f"
    unfolding resolve_csi_def no_mouse_report N Let_def option.case r(2) if_P [OF r(1)] resolve_with_def ..
  show "resolve_csi (to_string a @ CHR '';'' # to_string b @ CHR '';'' # to_string c) f = resolve_with [int a, int b, int c] m f"
    unfolding resolve_csi_def no_mouse_report N Let_def option.case r(2) if_P [OF r(1)] resolve_with_def ..
qed

definition final_byte :: "char \<Rightarrow> bool" where
  "final_byte f \<longleftrightarrow> 64 \<le> byte f \<and> byte f \<le> 126 \<and> f \<noteq> CHR ''[''"

text \<open>What a key sends is read as the key, up to the next pause.\<close>

definition reads_as :: "tui_keyev list \<Rightarrow> string \<Rightarrow> tui_keyparse \<Rightarrow> bool" where
  "reads_as ks s p \<longleftrightarrow> fst (feed s p) @ fst (flush (snd (feed s p))) = ks \<and> kp_state (snd (flush (snd (feed s p)))) = PsNormal"

lemma reads_asI: "feed s p = (ks, q) \<Longrightarrow> kp_state q = PsNormal \<Longrightarrow> reads_as ks s p"
  by (simp add: reads_as_def flush_def)

lemma reads_numbers:
  assumes "kp_state p = PsNormal" and "a < 1000" and "a \<noteq> 200" and "c < 1000" and "mod_number b m" and "final_byte f"
  shows "reads_as (resolve_with [int a] 0 f) (esc_byte # CHR ''['' # to_string a @ [f]) p"
    and "reads_as (resolve_with [int a, int b] m f) (esc_byte # CHR ''['' # (to_string a @ CHR '';'' # to_string b) @ [f]) p"
    and "reads_as (resolve_with [int a, int b, int c] m f)
      (esc_byte # CHR ''['' # (to_string a @ CHR '';'' # to_string b @ CHR '';'' # to_string c) @ [f]) p"
proof -
  have len: "length (to_string n) \<le> 3" if "n < 1000" for n
    using length_to_string [of n 2] that by simp
  have l: "length (to_string a) \<le> 3" "length (to_string b) \<le> 3" "length (to_string c) \<le> 3"
    using assms by (auto simp: mod_number_def intro: len)
  have f: "64 \<le> byte f" "byte f \<le> 126" "f \<noteq> CHR ''[''" using assms(6) by (auto simp: final_byte_def)
  have d: "\<forall>c \<in> set (to_string n). byte c < 64" for n using to_string_plain [of _ n] by blast
  have "digits_val 0 (to_string a) \<noteq> 200" using assms(3) by (simp add: digits_val_to_string)
  then have s200: "to_string a \<noteq> ''200''" by (auto simp: digits_val_def digit_val_def)
  have semi: "u @ CHR '';'' # v \<noteq> ''200''" for u v
  proof
    assume "u @ CHR '';'' # v = ''200''"
    then have "CHR '';'' \<in> set ''200''" by (metis in_set_conv_decomp)
    then show False by simp
  qed
  note R = resolve_csi_numbers [OF assms(2,4,5), where f = f]
  note F = feed_csi_seq [OF assms(1) _ _ f(1,2)] and S = s200 semi
  show "reads_as (resolve_with [int a] 0 f) (esc_byte # CHR ''['' # to_string a @ [f]) p"
    by (rule reads_asI [OF F [of "to_string a", unfolded R]]) (use l d f S assms(1) in simp_all)
  show "reads_as (resolve_with [int a, int b] m f) (esc_byte # CHR ''['' # (to_string a @ CHR '';'' # to_string b) @ [f]) p"
    by (rule reads_asI [OF F [of "to_string a @ CHR '';'' # to_string b", unfolded R]]) (use l d f S assms(1) in \<open>simp_all add: ball_Un\<close>)
  show "reads_as (resolve_with [int a, int b, int c] m f)
      (esc_byte # CHR ''['' # (to_string a @ CHR '';'' # to_string b @ CHR '';'' # to_string c) @ [f]) p"
    by (rule reads_asI [OF F [of "to_string a @ CHR '';'' # to_string b @ CHR '';'' # to_string c", unfolded R]])
      (use l d f S assms(1) in \<open>simp_all add: ball_Un\<close>)
qed

end
