(* ===== verification/KeyRoundtrip.thy ===== *)
theory KeyRoundtrip
  imports KeyParseProps
begin

text \<open>
  The bytes written for a key are read as the key.  The keys are those the parser can yield from
  keys pressed, less the few whose bytes mean something else.
\<close>

section \<open>Keys that can be sent\<close>

text \<open>
  Left out: Alt and the opening bracket, whose bytes open a control sequence, and the control
  letters h, i, j and m without a modifier, whose bytes are backspace, tab and enter.
\<close>

definition key_sent :: "tui_keyev \<Rightarrow> bool" where
  "key_sent k \<longleftrightarrow> k = keyev (key_kind k) (key_ch k) (key_mods k) \<and> key_normalized k = k
     \<and> (case key_kind k of
          KCh \<Rightarrow> (if key_mods k = 0 then 32 \<le> byte (key_ch k) \<and> key_ch k \<noteq> CHR 0x7F
                  else printable (key_ch k) \<and> \<not> (key_mods k = mod_alt \<and> key_ch k = CHR ''[''))
        | KCtrl \<Rightarrow> (islower (key_ch k) \<or> ctrl_punct (key_ch k)) \<and> (key_mods k = 0 \<longrightarrow> key_ch k \<notin> set ''hijm'')
        | KFkey \<Rightarrow> fkey_number (key_ch k)
        | n \<Rightarrow> named_key n \<noteq> '''' \<and> key_ch k = no_char)"

lemma mods_or_clear: "m AND b = 0 \<Longrightarrow> (m OR b) AND NOT b = (m :: key_mods)"
  by (auto simp: bit_eq_iff bit_simps)

lemma mods_or_holds: "b \<noteq> 0 \<Longrightarrow> holds_mod (m OR b) b"
proof -
  have "(m OR b) AND b = (b :: key_mods)" by (auto simp: bit_eq_iff bit_simps)
  then show "b \<noteq> 0 \<Longrightarrow> holds_mod (m OR b) b" by (simp add: holds_mod_def)
qed

lemma normalized_ctrl:
  assumes "islower (to_lower c) \<or> ctrl_punct (to_lower c)" and "\<not> holds_mod m mod_ctrl"
  shows "key_normalized (keyev KCh c (m OR mod_ctrl)) = keyev KCtrl (to_lower c) m"
proof -
  have "(m OR mod_ctrl) AND NOT mod_ctrl = m" using assms(2) by (intro mods_or_clear) (simp add: holds_mod_def)
  moreover have "holds_mod (m OR mod_ctrl) mod_ctrl" by (rule mods_or_holds) (simp add: mod_ctrl_def)
  ultimately show ?thesis using assms(1) by (simp add: key_normalized_def Let_def)
qed

lemma sent_ctrl_mods:
  assumes "key_normalized (keyev KCtrl c m) = keyev KCtrl c m"
  shows "\<not> holds_mod m mod_ctrl"
proof -
  have "m AND NOT mod_ctrl = m" using assms by (simp add: key_normalized_def)
  then have "m AND mod_ctrl = 0" by (metis and.assoc and_zero_eq bit.conj_cancel_left)
  then show ?thesis by (simp add: holds_mod_def)
qed

section \<open>Keys without modifiers\<close>

lemma reads_normal: "kp_state p = PsNormal \<Longrightarrow> b \<noteq> esc_byte \<Longrightarrow> feed_normal b p = (ks, p) \<Longrightarrow> reads_as ks [b] p"
  by (rule reads_asI [of _ _ _ p]) (simp_all add: feed_byte.simps Let_def)

lemma reads_csi:
  assumes "kp_state p = PsNormal" and "length s \<le> 16" and "\<forall>c \<in> set s. byte c < 64" and "final_byte f" and "f \<noteq> CHR ''~'' \<or> s \<noteq> ''200''"
  shows "reads_as (resolve_csi s f) (esc_byte # CHR ''['' # s @ [f]) p"
  using assms by (intro reads_asI [OF feed_csi_seq]) (auto simp: final_byte_def)

lemma reads_ss3:
  assumes "kp_state p = PsNormal"
  shows "reads_as (feed_ss3 b) [esc_byte, CHR ''O'', b] p"
proof -
  have e: "feed_byte esc_byte p = ([], p\<lparr>kp_state := PsEsc\<rparr>)"
    using assms by (subst feed_byte.simps) (simp add: feed_normal_def)
  show ?thesis by (rule reads_asI [of _ _ _ p]) (use assms in \<open>simp_all add: e feed_byte.simps [of "CHR ''O''"] feed_byte.simps [of b] Let_def\<close>)
qed

lemma reads_esc: "kp_state p = PsNormal \<Longrightarrow> reads_as [keyev KEsc no_char 0] [esc_byte] p"
  by (simp add: reads_as_def feed_byte.simps feed_normal_def Let_def flush_def)

lemma base_cursor:
  assumes "cursor_final f = Some k"
  shows "final_byte f" and "resolve_csi [] f = [keyev k no_char 0]"
proof -
  have f: "f \<in> set ''ABCDHF''" using assms by (auto simp: cursor_final_def split: if_splits)
  then show "final_byte f" by (auto simp: final_byte_def)
  have "csi_numbers 3 [] = [0]" by code_simp
  then show "resolve_csi [] f = [keyev k no_char 0]"
    using assms by (simp add: resolve_csi_def resolve_sgr_mouse_def number_at_def)
qed

lemma base_ctrl_bytes:
  assumes "islower c \<or> ctrl_punct c" and "c \<notin> set ''hijm''" and "kp_state p = PsNormal"
  shows "reads_as [keyev KCtrl c 0] (tui_key_base_bytes (keyev KCtrl c 0)) p"
proof (cases "islower c")
  case True
  let ?b = "char_of (byte c - 97 + 1) :: char"
  have c: "97 \<le> byte c" "byte c \<le> 122" using True by (auto simp: ctype_defs)
  then have b: "byte ?b = byte c - 96" by (simp add: of_char_of)
  have "byte c \<notin> {104, 105, 106, 109}" using assms(2) by (auto simp: char_eq_byte)
  then have n: "byte ?b \<notin> {8, 9, 10, 13, 27, 127}" "1 \<le> byte ?b" "byte ?b \<le> 26" using b c by auto
  have again: "97 + byte ?b - 1 = byte c" using b c by simp
  have "feed_normal ?b p = ([keyev KCtrl c 0], p)"
    unfolding feed_normal_def char_eq_byte esc_byte_def again using n by (simp add: again [simplified])
  moreover have "?b \<noteq> esc_byte" using n unfolding char_eq_byte esc_byte_def by simp
  ultimately show ?thesis using True assms(3) by (auto simp: tui_key_base_bytes_def intro: reads_normal)
next
  case False
  then have "c \<in> {CHR 0x5C, CHR '']'', CHR ''^'', CHR ''_''}" using assms(1) by (simp add: ctrl_punct_def)
  then show ?thesis
    using assms(3) False
    by (elim insertE emptyE) (simp_all add: tui_key_base_bytes_def char_of_def, (rule reads_normal; simp add: esc_byte_def feed_normal_def; code_simp)+)
qed

lemma fkey_cases:
  "fkey_number c \<Longrightarrow> c \<in> {CHR 0x01, CHR 0x02, CHR 0x03, CHR 0x04, CHR 0x05, CHR 0x06, CHR 0x07, CHR 0x08, CHR 0x09, CHR 0x0A, CHR 0x0B, CHR 0x0C}"
proof -
  assume "fkey_number c"
  then have "1 \<le> byte c" "byte c \<le> 12" by (auto simp: fkey_number_def)
  then have "byte c = 1 \<or> byte c = 2 \<or> byte c = 3 \<or> byte c = 4 \<or> byte c = 5 \<or> byte c = 6 \<or> byte c = 7 \<or> byte c = 8
    \<or> byte c = 9 \<or> byte c = 10 \<or> byte c = 11 \<or> byte c = 12" by presburger
  then show ?thesis by (elim disjE) (simp_all add: char_eq_byte)
qed

lemma base_fkey_bytes:
  assumes "fkey_number c" and "kp_state p = PsNormal"
  shows "reads_as [keyev KFkey c 0] (tui_key_base_bytes (keyev KFkey c 0)) p"
proof -
  let ?ss3 = "\<lambda>b. [esc_byte, CHR ''O'', b]" and ?csi = "\<lambda>s. esc_byte # CHR ''['' # s @ ''~''"
  have low: "reads_as [keyev KFkey c 0] (?ss3 b) p" if "feed_ss3 b = [keyev KFkey c 0]" for b
    using reads_ss3 [OF assms(2), of b] that by simp
  have high: "reads_as [keyev KFkey c 0] (?csi s) p"
    if "resolve_csi s (CHR ''~'') = [keyev KFkey c 0]" "length s \<le> 16" "\<forall>c \<in> set s. byte c < 64" "s \<noteq> ''200''" for s
    using reads_csi [OF assms(2) that(2,3), of "CHR ''~''"] that(1,4) by (simp add: final_byte_def)
  have bytes: "tui_key_base_bytes (keyev KFkey c 0) =
      (if byte c \<le> 4 then ?ss3 (char_of (80 + byte c - 1)) else ?csi (to_string (fkey_tilde_code (byte c))))"
    using assms(1) by (auto simp: tui_key_base_bytes_def fkey_number_def)
  show ?thesis
  proof (cases "byte c \<le> 4")
    case True
    have "feed_ss3 (char_of (80 + byte c - 1)) = [keyev KFkey c 0]"
      using fkey_cases [OF assms(1)] True by (elim insertE emptyE) (simp_all, code_simp+)
    then show ?thesis using bytes True low by simp
  next
    case False
    have "resolve_csi (to_string (fkey_tilde_code (byte c))) (CHR ''~'') = [keyev KFkey c 0]
        \<and> length (to_string (fkey_tilde_code (byte c))) \<le> 16 \<and> to_string (fkey_tilde_code (byte c)) \<noteq> ''200''"
      using fkey_cases [OF assms(1)] False by (elim insertE emptyE) (simp_all, code_simp+)
    moreover have "\<forall>x \<in> set (to_string (fkey_tilde_code (byte c))). byte x < 64" using to_string_plain by blast
    ultimately show ?thesis using bytes False high by simp
  qed
qed

lemma plain_key_bytes:
  assumes "key_sent (keyev n c 0)" and "kp_state p = PsNormal"
  shows "reads_as [keyev n c 0] (tui_key_base_bytes (keyev n c 0)) p"
proof -
  note R = reads_normal [OF assms(2)]
  have cursor: "reads_as [keyev k no_char 0] (esc_byte # [CHR ''['', f]) p" if "cursor_final f = Some k" for f k
    using reads_csi [OF assms(2), of "[]" f] base_cursor [OF that] by (auto simp: final_byte_def)
  have tilde: "reads_as [keyev k no_char 0] (esc_byte # [CHR ''['', d, CHR ''~'']) p"
    if "resolve_csi [d] (CHR ''~'') = [keyev k no_char 0]" "byte d < 64" for d k
    using reads_csi [OF assms(2), of "[d]" "CHR ''~''"] that by (simp add: final_byte_def)
  have named: "n = KEnter \<or> n = KTab \<or> n = KBackspace \<or> n = KEsc \<or> n = KUp \<or> n = KDown \<or> n = KLeft \<or> n = KRight \<or> n = KHome
      \<or> n = KEnd \<or> n = KPgup \<or> n = KPgdn \<or> n = KDel \<or> n = KIns" "c = no_char"
    if "n \<noteq> KCh" "n \<noteq> KCtrl" "n \<noteq> KFkey"
    using assms(1) that by (cases n; simp add: key_sent_def)+
  consider "n = KCh" | "n = KCtrl" | "n = KFkey" | "n \<noteq> KCh" "n \<noteq> KCtrl" "n \<noteq> KFkey" by blast
  then show ?thesis
  proof cases
    case 1
    then have c: "32 \<le> byte c" "c \<noteq> CHR 0x7F" using assms(1) by (simp_all add: key_sent_def)
    then have "feed_normal c p = ([keyev KCh c 0], p)" "c \<noteq> esc_byte"
      by (auto simp: feed_normal_def esc_byte_def)
    then show ?thesis using R 1 by (simp add: tui_key_base_bytes_def)
  next
    case 2
    then show ?thesis using base_ctrl_bytes [OF _ _ assms(2)] assms(1) by (simp add: key_sent_def)
  next
    case 3
    then show ?thesis using base_fkey_bytes [OF _ assms(2)] assms(1) by (simp add: key_sent_def)
  next
    case 4
    have r: "resolve_csi ''2'' (CHR ''~'') = [keyev KIns no_char 0]" "resolve_csi ''3'' (CHR ''~'') = [keyev KDel no_char 0]"
      "resolve_csi ''5'' (CHR ''~'') = [keyev KPgup no_char 0]" "resolve_csi ''6'' (CHR ''~'') = [keyev KPgdn no_char 0]"
      by code_simp+
    have f: "feed_normal (CHR 0x0D) p = ([keyev KEnter no_char 0], p)" "feed_normal (CHR 0x09) p = ([keyev KTab no_char 0], p)"
      "feed_normal (CHR 0x7F) p = ([keyev KBackspace no_char 0], p)"
      "CHR 0x0D \<noteq> esc_byte" "CHR 0x09 \<noteq> esc_byte" "CHR 0x7F \<noteq> esc_byte"
      by (simp_all add: feed_normal_def esc_byte_def)
    show ?thesis
      using named [OF 4] reads_esc [OF assms(2)]
      by (elim disjE) (simp_all add: tui_key_base_bytes_def cursor cursor_final_def tilde r R f)
  qed
qed

section \<open>Keys with modifiers\<close>

lemma strings_small: "to_string 1 = ''1''" "to_string 2 = ''2''" "to_string 3 = ''3''" "to_string 5 = ''5''" "to_string 6 = ''6''"
    "to_string 9 = ''9''" "to_string 13 = ''13''" "to_string 27 = ''27''" "to_string 127 = ''127''"
  by code_simp+

lemma cursor_bytes:
  assumes "kp_state p = PsNormal" and "mod_number b m" and "final_byte f" and "resolve_with [1, int b] m f = ks"
  shows "reads_as ks (esc_byte # CHR ''['' # CHR ''1'' # CHR '';'' # to_string b @ [f]) p"
  using reads_numbers(2) [OF assms(1) _ _ _ assms(2,3), of 1 0] assms(4) by (simp add: strings_small [simplified])

lemma tilde_bytes:
  assumes "kp_state p = PsNormal" and "mod_number b m" and "a < 200" and "resolve_tilde [int a, int b] m = ks"
  shows "reads_as ks (esc_byte # CHR ''['' # to_string a @ CHR '';'' # to_string b @ ''~'') p"
proof -
  have "resolve_with [int a, int b] m (CHR ''~'') = ks"
    using assms(4) by (simp add: resolve_with_def cursor_final_def fkey_final_def)
  then show ?thesis
    using reads_numbers(2) [OF assms(1) _ _ _ assms(2), of a 0 "CHR ''~''"] assms(3) by (simp add: final_byte_def)
qed

lemma other_bytes:
  assumes "kp_state p = PsNormal" and "mod_number b m" and "c < 200" and "emit_code (int c) m = ks"
  shows "reads_as ks (esc_byte # CHR ''['' # CHR ''2'' # CHR ''7'' # CHR '';'' # to_string b @ CHR '';'' # to_string c @ ''~'') p"
proof -
  have "resolve_with [27, int b, int c] m (CHR ''~'') = ks"
    using assms(4) by (simp add: resolve_with_def cursor_final_def fkey_final_def resolve_tilde_def number_at_def)
  then show ?thesis
    using reads_numbers(3) [OF assms(1) _ _ _ assms(2), of 27 c "CHR ''~''"] assms(3)
    by (simp add: final_byte_def strings_small)
qed

lemma alt_bytes:
  assumes "kp_state p = PsNormal" and "printable c" and "c \<noteq> CHR ''[''" and "c \<noteq> CHR ''O''"
  shows "reads_as (emit KCh c mod_alt) [esc_byte, c] p"
proof -
  have e: "feed_byte esc_byte p = ([], p\<lparr>kp_state := PsEsc\<rparr>)"
    using assms by (subst feed_byte.simps) (simp add: feed_normal_def)
  show ?thesis by (rule reads_asI [of _ _ _ p]) (use assms in \<open>simp_all add: e feed_byte.simps [of c] Let_def\<close>)
qed

lemma emit_sent: "key_normalized (keyev n c m) = keyev n c m \<Longrightarrow> emit n c m = [keyev n c m]"
  by (simp add: emit_def)

lemma emit_named: "n \<noteq> KCh \<Longrightarrow> n \<noteq> KCtrl \<Longrightarrow> emit n c m = [keyev n c m]"
  by (simp add: emit_def key_normalized_def)

lemma ctrl_mod_bytes:
  assumes "key_sent (keyev KCtrl c m)" and "m \<noteq> 0" and "kp_state p = PsNormal"
  shows "reads_as [keyev KCtrl c m] (tui_key_bytes (keyev KCtrl c m)) p"
proof -
  let ?m = "m OR mod_ctrl"
  let ?c = "if holds_mod m mod_shift \<and> islower c then char_of (byte c - 97 + 65) else c"
  have c: "islower c \<or> ctrl_punct c" and n: "key_normalized (keyev KCtrl c m) = keyev KCtrl c m"
    using assms(1) by (simp_all add: key_sent_def)
  have "?m \<noteq> 0" using assms(2) by (simp add: or_eq_0_iff)
  then have num: "mod_number (1 + unat ?m) ?m" by (rule mod_number_unat)
  have C: "to_lower ?c = c" "printable ?c"
  proof -
    have up: "to_lower (char_of (byte c - 97 + 65)) = c \<and> printable (char_of (byte c - 97 + 65))" if "islower c"
      using that by (auto simp: to_lower_def ctype_defs of_char_of printable_def)
    show "to_lower ?c = c" using up c islower_not_upper ctrl_punct_not_upper by (auto simp: to_lower_id)
    show "printable ?c" using up c letter_printable [of c] by auto
  qed
  have "emit KCh ?c ?m = [keyev KCtrl c m]"
    using normalized_ctrl [of ?c m] C(1) c sent_ctrl_mods [OF n] by (simp add: emit_def split del: if_split)
  then have "emit_code (int (byte ?c)) ?m = [keyev KCtrl c m]"
    using C(2) by (simp add: emit_code_def printable_def split del: if_split)
  moreover have "byte ?c < 200" using C(2) by (simp add: printable_def split del: if_split)
  ultimately have "reads_as [keyev KCtrl c m]
      (esc_byte # CHR ''['' # CHR ''2'' # CHR ''7'' # CHR '';'' # to_string (1 + unat ?m) @ CHR '';'' # to_string (byte ?c) @ ''~'') p"
    by (intro other_bytes [OF assms(3) num])
  then show ?thesis using assms(2) by (simp add: tui_key_bytes_def Let_def split del: if_split cong: if_cong)
qed

lemma char_mod_bytes:
  assumes "key_sent (keyev KCh c m)" and "m \<noteq> 0" and "kp_state p = PsNormal"
  shows "reads_as [keyev KCh c m] (tui_key_bytes (keyev KCh c m)) p"
proof -
  have c: "printable c" "\<not> (m = mod_alt \<and> c = CHR ''['')" and n: "key_normalized (keyev KCh c m) = keyev KCh c m"
    using assms(1,2) by (auto simp: key_sent_def)
  consider "c = CHR '' ''" "m = mod_ctrl" | "m = mod_alt" | "\<not> (c = CHR '' '' \<and> m = mod_ctrl)" "m \<noteq> mod_alt" by blast
  then show ?thesis
  proof cases
    case 1
    have "feed_normal (CHR 0x00) p = ([keyev KCh c m], p)"
      using emit_sent [OF n] 1 by (simp add: feed_normal_def esc_byte_def)
    then have "reads_as [keyev KCh c m] [CHR 0x00] p"
      by (intro reads_normal [OF assms(3)]) (simp_all add: esc_byte_def)
    then show ?thesis using 1 assms(2) by (simp add: tui_key_bytes_def)
  next
    case 2
    have "c \<noteq> CHR ''O''"
    proof
      assume o: "c = CHR ''O''"
      have "key_normalized (keyev KCh (CHR ''O'') 2) = keyev KCh (CHR ''o'') 2" by code_simp
      then show False using n o 2 by (simp add: mod_alt_def)
    qed
    then show ?thesis
      using alt_bytes [OF assms(3) c(1)] c 2 emit_sent [OF n] assms(2) by (simp add: tui_key_bytes_def mod_alt_def mod_ctrl_def Let_def)
  next
    case 3
    have "emit_code (int (byte c)) m = [keyev KCh c m]" "byte c < 200"
      using c(1) emit_sent [OF n] by (simp_all add: emit_code_def printable_def)
    then have "reads_as [keyev KCh c m]
        (esc_byte # CHR ''['' # CHR ''2'' # CHR ''7'' # CHR '';'' # to_string (1 + unat m) @ CHR '';'' # to_string (byte c) @ ''~'') p"
      by (intro other_bytes [OF assms(3) mod_number_unat [OF assms(2)]])
    then show ?thesis using 3 assms(2) by (auto simp: tui_key_bytes_def Let_def)
  qed
qed

lemma fkey_mod_bytes:
  assumes "fkey_number c" and "m \<noteq> 0" and "kp_state p = PsNormal"
  shows "reads_as [keyev KFkey c m] (tui_key_bytes (keyev KFkey c m)) p"
proof -
  note num = mod_number_unat [OF assms(2)]
  let ?b = "1 + unat m" and ?f = "char_of (80 + byte c - 1) :: char"
  have e: "emit KFkey d m = [keyev KFkey d m]" for d by (rule emit_named) simp_all
  show ?thesis
  proof (cases "byte c \<le> 4")
    case True
    have "final_byte ?f \<and> cursor_final ?f = None \<and> fkey_final ?f \<and> char_of (byte ?f - 80 + 1) = c"
      using fkey_cases [OF assms(1)] True by (elim insertE emptyE) (simp_all, code_simp+)
    then have "reads_as [keyev KFkey c m] (esc_byte # CHR ''['' # CHR ''1'' # CHR '';'' # to_string ?b @ [?f]) p"
      by (intro cursor_bytes [OF assms(3) num]) (simp_all add: resolve_with_def e)
    then show ?thesis using assms(1,2) True by (simp add: tui_key_bytes_def Let_def fkey_number_def)
  next
    case False
    let ?a = "fkey_tilde_code (byte c)"
    have a: "?a < 200 \<and> ?a \<notin> {1, 2, 3, 4, 5, 6, 7, 8, 27} \<and> fkey_of_tilde_code (int ?a) = byte c"
      using fkey_cases [OF assms(1)] False by (elim insertE emptyE) (simp_all, code_simp+)
    have "resolve_tilde [int ?a, int ?b] m = [keyev KFkey c m]"
      using a False by (auto simp: resolve_tilde_def number_at_def Let_def e)
    then have "reads_as [keyev KFkey c m] (esc_byte # CHR ''['' # to_string ?a @ CHR '';'' # to_string ?b @ ''~'') p"
      by (intro tilde_bytes [OF assms(3) num]) (use a in simp_all)
    then show ?thesis using assms(1,2) False by (simp add: tui_key_bytes_def Let_def fkey_number_def)
  qed
qed

lemma named_mod_bytes:
  assumes "named_key n \<noteq> ''''" and "m \<noteq> 0" and "kp_state p = PsNormal"
  shows "reads_as [keyev n no_char m] (tui_key_bytes (keyev n no_char m)) p"
proof -
  note num = mod_number_unat [OF assms(2)]
  let ?b = "1 + unat m"
  have e: "n \<noteq> KCh \<Longrightarrow> n \<noteq> KCtrl \<Longrightarrow> emit n no_char m = [keyev n no_char m]" by (rule emit_named)
  have cursor: "reads_as [keyev n no_char m] (esc_byte # CHR ''['' # CHR ''1'' # CHR '';'' # to_string ?b @ [f]) p"
    if "cursor_final f = Some n" "n \<noteq> KCh" "n \<noteq> KCtrl" for f
    using that base_cursor(1) [OF that(1)] e by (intro cursor_bytes [OF assms(3) num]) (simp_all add: resolve_with_def)
  have tilde: "reads_as [keyev n no_char m] (esc_byte # CHR ''['' # to_string a @ CHR '';'' # to_string ?b @ ''~'') p"
    if "resolve_tilde [int a, int ?b] m = emit n no_char m" "a < 200" "n \<noteq> KCh" "n \<noteq> KCtrl" for a
    using that e by (intro tilde_bytes [OF assms(3) num]) simp_all
  have other: "reads_as [keyev n no_char m]
      (esc_byte # CHR ''['' # CHR ''2'' # CHR ''7'' # CHR '';'' # to_string ?b @ CHR '';'' # to_string a @ ''~'') p"
    if "emit_code (int a) m = emit n no_char m" "a < 200" "n \<noteq> KCh" "n \<noteq> KCtrl" for a
    using that e by (intro other_bytes [OF assms(3) num]) simp_all
  show ?thesis
  proof (cases "n = KTab \<and> m = mod_shift")
    case True
    have "resolve_csi [] (CHR ''Z'') = [keyev KTab no_char 1]" by code_simp
    then have "reads_as [keyev KTab no_char 1] (esc_byte # CHR ''['' # [] @ ''Z'') p"
      using reads_csi [OF assms(3), of "[]" "CHR ''Z''"] by (simp add: final_byte_def)
    then show ?thesis using True by (simp add: tui_key_bytes_def mod_shift_def Let_def)
  next
    case False
    have t: "resolve_tilde [2, x] m = emit KIns no_char m" "resolve_tilde [3, x] m = emit KDel no_char m"
      "resolve_tilde [5, x] m = emit KPgup no_char m" "resolve_tilde [6, x] m = emit KPgdn no_char m" for x
      by (simp_all add: resolve_tilde_def number_at_def)
    have o: "emit_code 9 m = emit KTab no_char m" "emit_code 13 m = emit KEnter no_char m"
      "emit_code 27 m = emit KEsc no_char m" "emit_code 127 m = emit KBackspace no_char m"
      by (simp_all add: emit_code_def)
    note T = tilde [of 2] tilde [of 3] tilde [of 5] tilde [of 6] other [of 9] other [of 13] other [of 27] other [of 127]
      cursor [of "CHR ''A''"] cursor [of "CHR ''B''"] cursor [of "CHR ''C''"] cursor [of "CHR ''D''"] cursor [of "CHR ''H''"] cursor [of "CHR ''F''"]
    show ?thesis
      using assms(1,2) False T
      by (cases n) (simp_all add: tui_key_bytes_def Let_def cursor_final_def t o)
  qed
qed

section \<open>What every key satisfies\<close>

lemma clear_ctrl: "\<not> holds_mod (m AND NOT mod_ctrl) mod_ctrl" "(m AND NOT mod_ctrl) AND NOT mod_ctrl = m AND NOT mod_ctrl"
proof -
  have "(m AND NOT mod_ctrl) AND mod_ctrl = 0" by (simp add: bit_eq_iff bit_simps)
  then show "\<not> holds_mod (m AND NOT mod_ctrl) mod_ctrl" by (simp add: holds_mod_def)
qed (simp add: and.assoc)

lemma normalized_ctrl_key: "key_normalized (keyev KCtrl c m) = keyev KCtrl c (m AND NOT mod_ctrl)"
  by (simp add: key_normalized_def)

lemma normalized_idem: "key_normalized (key_normalized (keyev n c m)) = key_normalized (keyev n c m)"
proof -
  consider "n = KCtrl" | "n = KCh" | "n \<noteq> KCtrl" "n \<noteq> KCh" by blast
  then show ?thesis
  proof cases
    case 1
    then show ?thesis by (simp add: normalized_ctrl_key clear_ctrl)
  next
    case 2
    let ?a = "holds_mod m mod_ctrl \<and> (islower (to_lower c) \<or> ctrl_punct (to_lower c))"
    let ?chord = "holds_mod m (mod_alt OR mod_ctrl OR mod_cmd)"
    show ?thesis
    proof (cases ?a)
      case True
      then have "key_normalized (keyev n c m) = keyev KCtrl (to_lower c) (m AND NOT mod_ctrl)"
        using 2 by (simp add: key_normalized_def Let_def)
      then show ?thesis by (simp add: normalized_ctrl_key clear_ctrl)
    next
      case False
      let ?c = "if ?chord \<and> isupper c then to_lower c else c"
      have e: "key_normalized (keyev KCh d m) = keyev KCh (if ?chord \<and> isupper d then to_lower d else d) (if m = mod_shift then 0 else m)"
        if "\<not> (holds_mod m mod_ctrl \<and> (islower (to_lower d) \<or> ctrl_punct (to_lower d)))" for d
        using that by (auto simp: key_normalized_def Let_def key_holds_chord_mods_def)
      have c: "to_lower ?c = to_lower c" "?chord \<and> isupper ?c \<Longrightarrow> False"
        using not_upper_to_lower [of c] by (auto simp: to_lower_id split: if_splits)
      have z: "key_normalized (keyev KCh d 0) = keyev KCh d 0" for d
        by (simp add: key_normalized_def key_holds_chord_mods_def holds_mod_def mod_shift_def)
      have "key_normalized (keyev KCh ?c m) = keyev KCh ?c (if m = mod_shift then 0 else m)"
        using e [of ?c] False c by (simp split del: if_split) (auto simp: to_lower_id)
      then show ?thesis using e [OF False] 2 z by (cases "m = mod_shift") simp_all
    qed
  next
    case 3
    then show ?thesis by (simp add: key_normalized_def)
  qed
qed

definition key_settled :: "tui_keyev \<Rightarrow> bool" where
  "key_settled k \<longleftrightarrow> key_kind k = KPointer \<or> key_normalized k = k"

lemma emit_settled: "k \<in> set (emit n c m) \<Longrightarrow> key_settled k"
  by (simp add: emit_def key_settled_def normalized_idem)

lemma plain_settled [simp]: "key_settled (keyev n c 0)"
  using emit_settled [of "keyev n c 0" n c 0] by simp

lemma emit_code_settled: "k \<in> set (emit_code code m) \<Longrightarrow> key_settled k"
  by (auto simp: emit_code_def intro: emit_settled split: if_splits)

lemma sgr_settled: "k \<in> set (sgr_event b x y f) \<Longrightarrow> key_settled k"
  by (auto simp: sgr_event_def Let_def key_settled_def split: if_splits)

lemma tilde_settled: "k \<in> set (resolve_tilde ps m) \<Longrightarrow> key_settled k"
  by (auto simp: resolve_tilde_def Let_def intro: emit_settled emit_code_settled split: if_splits)

lemma csi_settled: "k \<in> set (resolve_csi s f) \<Longrightarrow> key_settled k"
  by (auto simp: resolve_csi_def resolve_sgr_mouse_def Let_def
      intro: emit_settled emit_code_settled tilde_settled sgr_settled split: if_splits option.splits)

text \<open>The bounds of the parser's buffers.\<close>

definition parser_ok :: "tui_keyparse \<Rightarrow> bool" where
  "parser_ok p \<longleftrightarrow> length (kp_params p) \<le> 16 \<and> (\<exists>n < 6. kp_paste_end p = take n end_marker)
     \<and> (kp_state p = PsPaste \<or> kp_paste_end p = [])"

lemma parser_okI: "length (kp_params p) \<le> 16 \<Longrightarrow> kp_paste_end p = [] \<Longrightarrow> parser_ok p"
  by (auto simp: parser_ok_def intro: exI [of _ 0])

lemma feed_byte_ok:
  "parser_ok p \<Longrightarrow> parser_ok (snd (feed_byte b p)) \<and> (\<forall>k \<in> set (fst (feed_byte b p)). key_settled k)"
proof (induction b p rule: feed_byte.induct)
  case (1 b p)
  have par: "length (kp_params p) \<le> 16" using "1.prems" by (simp add: parser_ok_def)
  have empty: "kp_state p \<noteq> PsPaste \<Longrightarrow> kp_paste_end p = []" using "1.prems" by (auto simp: parser_ok_def)
  have pb: "\<forall>k \<in> set (map typed s). key_settled k" for s
    using emit_settled [of _ KCh _ 0] by auto
  show ?case
  proof (cases "kp_state p")
    case PsPaste
    obtain n where n: "n < 6" "kp_paste_end p = take n end_marker" using "1.prems" by (auto simp: parser_ok_def)
    then have p: "p = pasting (take n end_marker) (kp_paste_cr p) p" using PsPaste by (simp add: pasting_def)
    have ok0: "parser_ok (pasting [] cr p)" for cr using par by (simp add: pasting_def parser_okI)
    show ?thesis
    proof (cases "b = marker_at n")
      case True
      have "feed_byte b p = (if n = 5 then ([], (pasting [] (kp_paste_cr p) p)\<lparr>kp_state := PsNormal\<rparr>)
          else ([], pasting (take (Suc n) end_marker) (kp_paste_cr p) p))"
        using paste_match [OF n(1) refl, of "kp_paste_cr p" p] p True by metis
      moreover have "parser_ok (pasting (take (Suc n) end_marker) (kp_paste_cr p) p)" if "n \<noteq> 5"
        using n par that unfolding parser_ok_def by (auto simp: pasting_def intro!: exI [of _ "Suc n"])
      moreover have "parser_ok ((pasting [] (kp_paste_cr p) p)\<lparr>kp_state := PsNormal\<rparr>)"
        using par by (simp add: parser_okI pasting_def)
      ultimately show ?thesis by simp
    next
      case False
      show ?thesis
      proof (cases "n = 0")
        case True
        then have "b \<noteq> esc_byte" "kp_paste_end p = []" using False n by (simp_all add: marker_at_def end_marker_def)
        then have "feed_byte b p = paste_byte b p" using PsPaste by (subst feed_byte.simps) (simp add: end_marker_def)
        then show ?thesis using par pb \<open>kp_paste_end p = []\<close> by (auto simp: paste_byte_text intro!: parser_okI)
      next
        case nz: False
        let ?q = "snd (paste_bytes (kp_paste_end p) (p\<lparr>kp_paste_end := []\<rparr>))"
        have ne: "kp_paste_end p \<noteq> []" using n nz by (auto simp: end_marker_def)
        have nb: "b \<noteq> (end_marker @ [CHR 0x00]) ! length (kp_paste_end p)" using False n by (simp add: marker_at_def)
        have "parser_ok ?q" using par by (intro parser_okI) (simp_all add: paste_bytes_frame)
        note IH = "1.IH"(2) [OF PsPaste nb ne refl this]
        have "feed_byte b p = (map typed (paste_text (kp_paste_cr p) (kp_paste_end p)) @ fst (feed_byte b ?q), snd (feed_byte b ?q))"
          using PsPaste nb ne by (subst feed_byte.simps) (simp add: Let_def paste_bytes_text)
        then show ?thesis using IH pb by auto
      qed
    qed
  next
    case PsEsc
    have en: "kp_paste_end p = []" using empty PsEsc by simp
    show ?thesis
    proof (cases "b = CHR ''['' \<or> b = CHR ''O'' \<or> printable b")
      case True
      then show ?thesis
        using PsEsc par en by (subst (1 2) feed_byte.simps) (auto intro: parser_okI emit_settled)
    next
      case False
      have "parser_ok (p\<lparr>kp_state := PsNormal\<rparr>)" using par en by (simp add: parser_okI)
      note IH = "1.IH"(1) [OF PsEsc _ _ _ this]
      show ?thesis using PsEsc IH False by (subst (1 2) feed_byte.simps) (auto simp: Let_def dest: emit_settled)
    qed
  next
    case PsCsi
    then show ?thesis
      using par empty by (subst (1 2) feed_byte.simps) (auto simp: feed_csi_def parser_okI dest: csi_settled)
  next
    case PsSs3
    then show ?thesis
      using par empty by (subst (1 2) feed_byte.simps) (auto simp: feed_ss3_def intro: parser_okI dest: emit_settled split: option.splits if_splits)
  next
    case PsConsoleFkey
    then show ?thesis
      using par empty by (subst (1 2) feed_byte.simps) (auto intro: parser_okI dest: emit_settled)
  next
    case PsNormal
    then show ?thesis
      using par empty by (subst (1 2) feed_byte.simps) (auto simp: feed_normal_def intro: parser_okI dest: emit_settled split: if_splits)
  qed
qed

lemma feed_ok: "parser_ok p \<Longrightarrow> parser_ok (snd (feed s p)) \<and> (\<forall>k \<in> set (fst (feed s p)). key_settled k)"
  using feed_byte_ok by (induction s p rule: feed.induct) (fastforce simp: Let_def)+

section \<open>Properties\<close>

text \<open>
  C29: keys to bytes and back.  The bytes written for a key are read as that key alone once the
  input pauses, and leave the parser at rest.
\<close>

theorem key_bytes_roundtrip:
  assumes "key_sent k" and "kp_state p = PsNormal"
  shows "fst (feed (tui_key_bytes k) p) @ fst (flush (snd (feed (tui_key_bytes k) p))) = [k]
    \<and> kp_state (snd (flush (snd (feed (tui_key_bytes k) p)))) = PsNormal"
proof -
  obtain n c m where k: "k = keyev n c m" using assms(1) by (auto simp: key_sent_def)
  have "reads_as [k] (tui_key_bytes k) p"
  proof (cases "m = 0")
    case True
    then show ?thesis using plain_key_bytes [OF _ assms(2)] assms(1) k by (simp add: tui_key_bytes_def)
  next
    case False
    have "n = KFkey \<Longrightarrow> fkey_number c" "n \<noteq> KCh \<and> n \<noteq> KCtrl \<and> n \<noteq> KFkey \<Longrightarrow> named_key n \<noteq> [] \<and> c = no_char"
      using assms(1) k by (simp_all add: key_sent_def split: tui_key.splits)
    then show ?thesis
      using ctrl_mod_bytes [OF _ False assms(2)] char_mod_bytes [OF _ False assms(2)] fkey_mod_bytes [OF _ False assms(2)]
        named_mod_bytes [OF _ False assms(2)] assms(1) k
      by (cases "n = KCh \<or> n = KCtrl \<or> n = KFkey") auto
  qed
  then show ?thesis by (simp add: reads_as_def)
qed

theorem key_bytes_roundtrip_witness:
  "fst (feed (esc_byte # ''[27;6;83~'') keyparse_new) @ fst (flush (snd (feed (esc_byte # ''[27;6;83~'') keyparse_new)))
    = [keyev KCtrl (CHR ''s'') 1]"
proof -
  have "tui_key_bytes (keyev KCtrl (CHR ''s'') 1) = esc_byte # ''[27;6;83~''" by code_simp
  moreover have "key_sent (keyev KCtrl (CHR ''s'') 1)" by code_simp
  moreover have "kp_state keyparse_new = PsNormal" by (simp add: keyparse_new_def)
  ultimately show ?thesis using key_bytes_roundtrip by metis
qed

text \<open>
  C31: a bracketed paste is its text.  Take a text that does not hold the end marker, and let the
  terminal send the start marker, the text and the end marker in reads cut anywhere, with a pause
  after any read but for one inside the start marker.  Then every byte of the text is typed text,
  whatever it holds: control bytes, escape sequences, beginnings of the end marker; only line
  breaks are made one.  The parser is then at rest.
\<close>

theorem paste_is_text:
  assumes "kp_state p = PsNormal" and "no_marker t"
    and "concat ss = esc_byte # ''[200~''" and "concat (map fst rs) = t @ end_marker"
  shows "fst (feed_reads (map (\<lambda>s. (s, False)) ss @ rs) p) = map typed (paste_text False t)
    \<and> kp_state (snd (feed_reads (map (\<lambda>s. (s, False)) ss @ rs) p)) = PsNormal"
proof -
  let ?q = "pasting [] False (p\<lparr>kp_params := ''200''\<rparr>)"
  have s: "feed_reads (map (\<lambda>s. (s, False)) ss) p = ([], ?q)"
    unfolding feed_reads_unpaused assms(3) by (rule feed_paste_start [OF assms(1)])
  have t: "feed (t @ end_marker) ?q =
      (map typed (paste_text False t), (pasting [] (cr_after False t) (p\<lparr>kp_params := ''200''\<rparr>))\<lparr>kp_state := PsNormal\<rparr>)"
    using feed_paste [of 0 t False "p\<lparr>kp_params := ''200''\<rparr>"] assms(2) by simp
  have "fst (feed_reads rs ?q) = fst (feed (concat (map fst rs)) ?q) \<and> kp_state (snd (feed_reads rs ?q)) = PsNormal"
  proof (rule feed_reads_paste)
    show "kp_state (snd (feed x ?q)) = PsPaste" if "concat (map fst rs) = x @ y" "y \<noteq> []" for x y
      using paste_prefix_inside [OF assms(2) _ that(2)] that(1) assms(4) by simp
    show "kp_state (snd (feed (concat (map fst rs)) ?q)) = PsNormal" by (simp add: assms(4) t)
  qed
  then show ?thesis by (simp add: feed_reads_append s assms(4) t split: prod.split)
qed

text \<open>The start marker in two reads, a pause in the text and one in the end marker.\<close>

theorem paste_is_text_witness:
  "fst (feed_reads [([esc_byte, CHR ''[''], False), (''200~'', False), ([CHR ''a'', CHR 0x0D], True), ([CHR 0x0A, esc_byte, CHR ''['', CHR ''2'', esc_byte], True), (drop 1 end_marker, False)] keyparse_new)
    = map typed [CHR ''a'', CHR 0x0A, esc_byte, CHR ''['', CHR ''2'']"
proof -
  let ?t = "[CHR ''a'', CHR 0x0D, CHR 0x0A, esc_byte, CHR ''['', CHR ''2'']"
  let ?rs = "[([CHR ''a'', CHR 0x0D], True), ([CHR 0x0A, esc_byte, CHR ''['', CHR ''2'', esc_byte], True), (drop 1 end_marker, False)]"
  have n: "kp_state keyparse_new = PsNormal" by (simp add: keyparse_new_def)
  have m: "no_marker ?t"
    by (auto simp: no_marker_def end_marker_def esc_byte_def append_eq_Cons_conv Cons_eq_append_conv)
  have s: "concat [[esc_byte, CHR ''[''], ''200~''] = esc_byte # ''[200~''" by simp
  have r: "concat (map fst ?rs) = ?t @ end_marker" by (simp add: end_marker_def)
  have x: "paste_text False ?t = [CHR ''a'', CHR 0x0A, esc_byte, CHR ''['', CHR ''2'']" by code_simp
  show ?thesis using paste_is_text [OF n m s r] x by (simp only: list.map append.simps)
qed

text \<open>
  C34: bounds of the parser.  Whatever bytes come in, in whatever portions, the parameters stay
  within sixteen bytes, what is held back of the end marker is a beginning of it that is not all
  of it, nothing is held back outside a paste, and every key but a pointer report comes out in
  canonical form.
\<close>

theorem parser_bounded:
  "length (kp_params (snd (feed s keyparse_new))) \<le> 16
    \<and> (\<exists>n < 6. kp_paste_end (snd (feed s keyparse_new)) = take n end_marker)
    \<and> (kp_state (snd (feed s keyparse_new)) = PsPaste \<or> kp_paste_end (snd (feed s keyparse_new)) = [])
    \<and> list_all (\<lambda>k. key_kind k = KPointer \<or> key_normalized k = k) (fst (feed s keyparse_new))"
proof -
  have "parser_ok keyparse_new" by (rule parser_okI) (simp_all add: keyparse_new_def)
  then have "parser_ok (snd (feed s keyparse_new)) \<and> (\<forall>k \<in> set (fst (feed s keyparse_new)). key_settled k)" by (rule feed_ok)
  then show ?thesis by (auto simp: parser_ok_def key_settled_def list_all_iff)
qed

section \<open>Keys whose bytes are another key's\<close>

text \<open>
  The parser yields Alt and the opening bracket from its modified report; the bytes written for it
  open a control sequence and no key comes back.  Ctrl and i, reported that way, comes back as tab.
\<close>

lemma key_bytes_ambiguous:
  "fst (feed (esc_byte # ''[27;3;91~'') keyparse_new) = [keyev KCh (CHR ''['') 2]"
  "feed (tui_key_bytes (keyev KCh (CHR ''['') 2)) keyparse_new = ([], keyparse_new\<lparr>kp_state := PsCsi\<rparr>)"
  "fst (feed (esc_byte # ''[27;5;105~'') keyparse_new) = [keyev KCtrl (CHR ''i'') 0]"
  "fst (feed (tui_key_bytes (keyev KCtrl (CHR ''i'') 0)) keyparse_new) = [keyev KTab no_char 0]"
  by code_simp+

end
