(* ===== verification/MessageStream.thy ===== *)
theory MessageStream
  imports Prelude
begin

text \<open>
  Messages over a byte stream: the interface between the framers (\<^verbatim>\<open>src/madc_websocket_channel.cpp\<close>,
  \<^verbatim>\<open>src/madc_header_channel.cpp\<close>) and the channel object that reads from them
  (\<^verbatim>\<open>src/madc_channel_object.cpp\<close>).  A framer decodes what it was fed so far; the channel feeds it
  what each read of its endpoint gives.  The locale states when the cut of the stream into reads
  cannot be seen in the messages, and proves it.
\<close>

section \<open>What a framer answers\<close>

text \<open>
  The outcome of \<open>next_message\<close>: a message, more bytes are needed, the stream is over (with the
  reason, if it was refused), an exception.  Beside it the bytes to be written back and the state.
\<close>

datatype next_outcome = Message string | NeedMore | Ended string | Threw cxx_error

section \<open>A connection\<close>

text \<open>
  A channel with its framer, and its endpoint: what the reads will answer (\<open>None\<close> an error,
  \<open>Some ''''\<close> the end of the stream, no more answers: the task stays parked), whether writes
  succeed, and what was written.
\<close>

record 's conn =
  cn_framer :: 's
  cn_open :: bool
  cn_pending :: string
  cn_eof :: bool
  cn_failed :: bool
  cn_error :: string
  cn_reads :: "string option list"
  cn_write_ok :: bool
  cn_sent :: string

datatype recv_result = Received string | NotReceived | Parked | Raised cxx_error

definition set_state_error :: "string \<Rightarrow> 's conn \<Rightarrow> 's conn" where
  "set_state_error msg c = c\<lparr>cn_failed := True, cn_error := msg\<rparr>"

text \<open>
  One receive: pull from the framer, write back what it answers, read on when it needs more.
\<close>

fun recv_loop :: "('s \<Rightarrow> next_outcome \<times> string \<times> 's) \<Rightarrow> (string \<Rightarrow> 's \<Rightarrow> 's) \<Rightarrow> string option list \<Rightarrow> 's conn
    \<Rightarrow> recv_result \<times> 's conn" where
  "recv_loop next feed reads c =
     (let (out, reply, s) = next (cn_framer c);
          c = c\<lparr>cn_framer := s, cn_reads := reads\<rparr>;
          d = c\<lparr>cn_sent := cn_sent c @ reply\<rparr>
      in case out of
           Threw e \<Rightarrow> (Raised e, c)
         | _ \<Rightarrow>
             if reply \<noteq> '''' \<and> \<not> cn_write_ok c then (NotReceived, c\<lparr>cn_failed := True\<rparr>)
             else case out of
                 Message m \<Rightarrow> (Received m, d)
               | Ended why \<Rightarrow>
                   (NotReceived, let d = d\<lparr>cn_eof := True\<rparr>
                      in if why = '''' then d else set_state_error (''framed read failed: '' @ why) d)
               | _ \<Rightarrow>
                   (case reads of
                      [] \<Rightarrow> (Parked, d)
                    | None # rs \<Rightarrow> (NotReceived, d\<lparr>cn_failed := True, cn_reads := rs\<rparr>)
                    | Some [] # rs \<Rightarrow> (NotReceived, d\<lparr>cn_eof := True, cn_reads := rs\<rparr>)
                    | Some chunk # rs \<Rightarrow> recv_loop next feed rs (d\<lparr>cn_framer := feed chunk s\<rparr>)))"

declare recv_loop.simps [simp del]

definition recv :: "('s \<Rightarrow> next_outcome \<times> string \<times> 's) \<Rightarrow> (string \<Rightarrow> 's \<Rightarrow> 's) \<Rightarrow> 's conn \<Rightarrow> recv_result \<times> 's conn" where
  "recv next feed c = (if cn_failed c \<or> cn_eof c then (NotReceived, c) else recv_loop next feed (cn_reads c) c)"

text \<open>What an application reads: the messages up to the first receive without one, and that receive.\<close>

fun receive :: "nat \<Rightarrow> ('s conn \<Rightarrow> recv_result \<times> 's conn) \<Rightarrow> 's conn \<Rightarrow> string list \<times> recv_result option \<times> 's conn" where
  "receive 0 rcv c = ([], None, c)"
| "receive (Suc n) rcv c =
     (case rcv c of
        (Received m, d) \<Rightarrow> let (ms, r, e) = receive n rcv d in (m # ms, r, e)
      | (r, d) \<Rightarrow> ([], Some r, d))"

section \<open>The stream of a connection\<close>

text \<open>The reads that carry data, the bytes they carry together, and a connection that got them at once.\<close>

definition data_read :: "string option \<Rightarrow> bool" where
  "data_read r \<longleftrightarrow> r \<noteq> None \<and> r \<noteq> Some ''''"

definition stream_ahead :: "string option list \<Rightarrow> string" where
  "stream_ahead reads = concat (map the (takeWhile data_read reads))"

definition gathered :: "(string \<Rightarrow> 's \<Rightarrow> 's) \<Rightarrow> 's conn \<Rightarrow> 's conn" where
  "gathered feed c = c\<lparr>cn_framer := feed (stream_ahead (cn_reads c)) (cn_framer c), cn_reads := dropWhile data_read (cn_reads c)\<rparr>"

lemma gathered_fields [simp]:
  "cn_eof (gathered feed c) = cn_eof c" "cn_failed (gathered feed c) = cn_failed c"
  "cn_error (gathered feed c) = cn_error c" "cn_sent (gathered feed c) = cn_sent c" "cn_write_ok (gathered feed c) = cn_write_ok c"
  by (simp_all add: gathered_def)

lemma data_read_simps [simp]: "\<not> data_read None" "data_read (Some s) \<longleftrightarrow> s \<noteq> ''''"
  by (auto simp: data_read_def)

lemma stream_ahead_simps [simp]:
  "stream_ahead [] = ''''" "stream_ahead (None # rs) = ''''" "stream_ahead (Some [] # rs) = ''''"
  "stream_ahead (Some (c # cs) # rs) = c # cs @ stream_ahead rs"
  by (simp_all add: stream_ahead_def)

lemma takeWhile_dropWhile_Nil [simp]: "takeWhile P (dropWhile P xs) = []"
  by (induction xs) auto

lemma stream_ahead_chunks: "'''' \<notin> set cs \<Longrightarrow> stream_ahead (map Some cs @ rs) = concat cs @ stream_ahead rs"
proof (induction cs)
  case (Cons c cs)
  then show ?case by (cases c) auto
qed simp


text \<open>A connection whose peer sends some bytes, in whatever portions, and then closes.\<close>

definition peer_sends :: "string list \<Rightarrow> 's conn \<Rightarrow> bool" where
  "peer_sends chunks c \<longleftrightarrow> '''' \<notin> set chunks \<and> cn_reads c = map Some chunks @ [Some ''''] \<and> cn_write_ok c
     \<and> \<not> cn_failed c \<and> \<not> cn_eof c"

lemma peer_sends_gathered:
  "peer_sends chunks c \<Longrightarrow>
    gathered feed c = c\<lparr>cn_framer := feed (concat chunks) (cn_framer c), cn_reads := [Some '''']\<rparr>"
proof -
  assume a: "peer_sends chunks c"
  have "dropWhile data_read (map Some chunks @ [Some '''']) = dropWhile data_read [Some '''']"
    using a by (intro dropWhile_append2) (auto simp: peer_sends_def)
  then show ?thesis using a by (simp add: peer_sends_def gathered_def stream_ahead_chunks)
qed

section \<open>The interface of framers\<close>

text \<open>
  What is decoded from the bytes so far stays when more come; a framer that needs more has kept
  all that the rest of the stream depends on.
\<close>

locale framer =
  fixes nxt :: "'s \<Rightarrow> next_outcome \<times> string \<times> 's" and feed :: "string \<Rightarrow> 's \<Rightarrow> 's"
  assumes feed_Nil [simp]: "feed '''' x = x"
    and feed_feed [simp]: "feed t (feed s x) = feed (s @ t) x"
    and next_done: "nxt x = (out, r, y) \<Longrightarrow> out \<noteq> NeedMore \<Longrightarrow> nxt (feed t x) = (out, r, feed t y)"
    and next_more: "nxt x = (NeedMore, r, y) \<Longrightarrow> nxt (feed t y) = (out, r', z) \<Longrightarrow> nxt (feed t x) = (out, r @ r', z)"
begin

lemma gathered_gathered: "gathered feed (gathered feed c) = gathered feed c"
  by (simp add: gathered_def stream_ahead_def)

lemma gathered_again:
  "stream_ahead (cn_reads c) = '''' \<Longrightarrow> dropWhile data_read (cn_reads c) = cn_reads c \<Longrightarrow> gathered feed c = c"
  by (simp add: gathered_def)

definition agree :: "recv_result \<times> 's conn \<Rightarrow> recv_result \<times> 's conn \<Rightarrow> bool" where
  "agree p q \<longleftrightarrow> fst p = fst q \<and> ((\<exists>e. fst p = Raised e) \<or> gathered feed (snd p) = gathered feed (snd q))"

lemma agree_refl: "agree p p"
  by (simp add: agree_def)

lemma agree_sym: "agree p q \<Longrightarrow> agree q p"
  unfolding agree_def by metis

lemma agree_trans: "agree p q \<Longrightarrow> agree q r \<Longrightarrow> agree p r"
  unfolding agree_def by metis

lemma no_data_cases:
  obtains "dropWhile data_read rs = []" | rs' where "dropWhile data_read rs = None # rs'" | rs' where "dropWhile data_read rs = Some [] # rs'"
proof (cases "dropWhile data_read rs")
  case (Cons r rs')
  then have "\<not> data_read r" by (simp add: dropWhile_eq_Cons_conv)
  then show ?thesis using Cons that by (auto simp: data_read_def)
qed (use that in auto)

lemma recv_loop_more:
  assumes "nxt (cn_framer c) = (NeedMore, r, y)" and "cn_write_ok c"
  shows "agree (recv_loop nxt feed (dropWhile data_read rs) (c\<lparr>cn_framer := feed t (cn_framer c)\<rparr>))
    (recv_loop nxt feed (dropWhile data_read rs) (c\<lparr>cn_framer := feed t y, cn_reads := qs, cn_sent := cn_sent c @ r\<rparr>))"
proof -
  obtain out r' z where n: "nxt (feed t y) = (out, r', z)" by (cases "nxt (feed t y)")
  note S = n next_more [OF assms(1) n] assms(2) agree_def Let_def recv_loop.simps
  show ?thesis
  proof (rule no_data_cases [of rs])
    assume d: "dropWhile data_read rs = []"
    show ?thesis unfolding d by (cases out) (simp_all add: S)
  next
    fix rs' assume d: "dropWhile data_read rs = None # rs'"
    show ?thesis unfolding d by (cases out) (simp_all add: S)
  next
    fix rs' assume d: "dropWhile data_read rs = Some [] # rs'"
    show ?thesis unfolding d by (cases out) (simp_all add: S)
  qed
qed

lemma recv_loop_gathers:
  assumes "cn_write_ok c"
  shows "agree (recv_loop nxt feed rs c)
    (recv_loop nxt feed (dropWhile data_read rs) (c\<lparr>cn_framer := feed (stream_ahead rs) (cn_framer c)\<rparr>))"
  using assms
proof (induction rs arbitrary: c)
  case (Cons a rs)
  show ?case
  proof (cases "data_read a")
    case False
    then show ?thesis by (cases a) (auto simp: agree_refl)
  next
    case True
    then obtain b bs where a: "a = Some (b # bs)" by (cases a; cases "the a") auto
    let ?t = "stream_ahead (a # rs)"
    obtain out r y where n: "nxt (cn_framer c) = (out, r, y)" by (cases "nxt (cn_framer c)")
    show ?thesis
    proof (cases "out = NeedMore")
      case False
      have "nxt (feed ?t (cn_framer c)) = (out, r, feed ?t y)" by (rule next_done [OF n False])
      then show ?thesis using False Cons.prems True
        by (cases out) (simp_all add: recv_loop.simps n agree_def gathered_def Let_def set_state_error_def a stream_ahead_def)
    next
      case more: True
      let ?d = "c\<lparr>cn_framer := feed (b # bs) y, cn_reads := a # rs, cn_sent := cn_sent c @ r\<rparr>"
      have d: "c\<lparr>cn_reads := a # rs, cn_sent := cn_sent c @ r, cn_framer := feed (b # bs) y\<rparr> = ?d" by simp
      have "recv_loop nxt feed (a # rs) c
          = recv_loop nxt feed rs (c\<lparr>cn_reads := a # rs, cn_sent := cn_sent c @ r, cn_framer := feed (b # bs) y\<rparr>)"
        using Cons.prems by (subst recv_loop.simps) (simp add: n more a Let_def)
      note 1 = this [unfolded d]
      have 2: "agree (recv_loop nxt feed rs ?d)
          (recv_loop nxt feed (dropWhile data_read rs) (?d\<lparr>cn_framer := feed (stream_ahead rs) (cn_framer ?d)\<rparr>))"
        by (rule Cons.IH) (use Cons.prems in simp)
      have 3: "?d\<lparr>cn_framer := feed (stream_ahead rs) (cn_framer ?d)\<rparr> = c\<lparr>cn_framer := feed ?t y, cn_reads := a # rs, cn_sent := cn_sent c @ r\<rparr>"
        by (simp add: a)
      have 4: "agree (recv_loop nxt feed (dropWhile data_read (a # rs)) (c\<lparr>cn_framer := feed ?t (cn_framer c)\<rparr>))
          (recv_loop nxt feed (dropWhile data_read rs) (c\<lparr>cn_framer := feed ?t y, cn_reads := a # rs, cn_sent := cn_sent c @ r\<rparr>))"
        using recv_loop_more [of c r y rs ?t "a # rs"] n more Cons.prems True by simp
      show ?thesis unfolding 1 by (rule agree_trans [OF 2 [unfolded 3] agree_sym [OF 4]])
    qed
  qed
qed (simp add: agree_refl)

lemma recv_agrees:
  assumes "gathered feed c = gathered feed d" and "cn_write_ok c"
  shows "agree (recv nxt feed c) (recv nxt feed d)"
proof -
  have fields: "cn_failed c = cn_failed d" "cn_eof c = cn_eof d" "cn_write_ok c = cn_write_ok d"
    using arg_cong [OF assms(1), of cn_failed] arg_cong [OF assms(1), of cn_eof] arg_cong [OF assms(1), of cn_write_ok]
    by simp_all
  have all: "agree (recv nxt feed e) (recv_loop nxt feed (cn_reads (gathered feed e)) (gathered feed e))"
    if "cn_write_ok e" "\<not> (cn_failed e \<or> cn_eof e)" for e
  proof -
    have "recv_loop nxt feed rs (x\<lparr>cn_reads := qs\<rparr>) = recv_loop nxt feed rs x" for rs qs x
      by (subst (1 2) recv_loop.simps) (simp add: Let_def)
    then show ?thesis using recv_loop_gathers [OF that(1), of "cn_reads e"] that(2)
      by (simp add: recv_def gathered_def)
  qed
  show ?thesis
  proof (cases "cn_failed c \<or> cn_eof c")
    case True
    then show ?thesis using assms(1) fields by (simp add: recv_def agree_def)
  next
    case False
    then show ?thesis using all [of c] all [of d] assms fields by (metis agree_sym agree_trans)
  qed
qed

lemma recv_write_ok: "recv nxt feed c = (r, d) \<Longrightarrow> cn_write_ok d = cn_write_ok c"
proof -
  have "cn_write_ok (snd (recv_loop nxt feed rs c)) = cn_write_ok c" for rs
  proof (induction rs arbitrary: c)
    case (Cons a rs)
    then show ?case
      by (subst recv_loop.simps) (auto simp: Let_def set_state_error_def split: next_outcome.splits option.splits list.splits prod.splits)
  qed (subst recv_loop.simps, auto simp: Let_def set_state_error_def split: next_outcome.splits prod.splits)
  then show "recv nxt feed c = (r, d) \<Longrightarrow> cn_write_ok d = cn_write_ok c"
    by (metis recv_def snd_conv)
qed

text \<open>Two connections with the same stream ahead give the same messages, however it is cut.\<close>

lemma receive_agrees:
  assumes "gathered feed c = gathered feed d" and "cn_write_ok c"
    and "receive n (recv nxt feed) c = (ms, r, c')" and "receive n (recv nxt feed) d = (ms', r', d')"
  shows "ms = ms' \<and> r = r' \<and> ((\<exists>e. r = Some (Raised e)) \<or> gathered feed c' = gathered feed d')"
  using assms
proof (induction n arbitrary: c d ms ms')
  case (Suc n)
  obtain q x where c: "recv nxt feed c = (q, x)" by (cases "recv nxt feed c")
  obtain q' y where d: "recv nxt feed d = (q', y)" by (cases "recv nxt feed d")
  have a: "q = q'" "(\<exists>e. q = Raised e) \<or> gathered feed x = gathered feed y"
    using recv_agrees [OF Suc.prems(1,2)] c d by (auto simp: agree_def)
  show ?case
  proof (cases "\<exists>m. q = Received m")
    case True
    then obtain m where q: "q = Received m" ..
    obtain ns ns' where "receive n (recv nxt feed) x = (ns, r, c')" "ms = m # ns"
        "receive n (recv nxt feed) y = (ns', r', d')" "ms' = m # ns'"
      using Suc.prems(3,4) c d q a(1) by (auto simp: Let_def split: prod.splits)
    moreover have "cn_write_ok x" using recv_write_ok [OF c] Suc.prems(2) by simp
    ultimately show ?thesis using Suc.IH [of x y ns ns'] a q by auto
  next
    case False
    then show ?thesis using Suc.prems(3,4) c d a by (auto split: recv_result.splits)
  qed
qed auto

lemma receive_stream:
  assumes "peer_sends chunks c"
    and "receive n (recv nxt feed) (c\<lparr>cn_framer := feed (concat chunks) (cn_framer c), cn_reads := [Some '''']\<rparr>) = (ms, r, e)"
    and "\<nexists>x. r = Some (Raised x)"
  shows "\<exists>d. receive n (recv nxt feed) c = (ms, r, d) \<and> cn_eof d = cn_eof e \<and> cn_failed d = cn_failed e
    \<and> cn_error d = cn_error e \<and> cn_sent d = cn_sent e"
proof -
  obtain ns r' d where rc: "receive n (recv nxt feed) c = (ns, r', d)" by (cases "receive n (recv nxt feed) c") auto
  have "gathered feed c = gathered feed (gathered feed c)" by (rule gathered_gathered [symmetric])
  then have eq: "gathered feed c = gathered feed (c\<lparr>cn_framer := feed (concat chunks) (cn_framer c), cn_reads := [Some '''']\<rparr>)"
    by (simp only: peer_sends_gathered [OF assms(1)])
  have "ns = ms \<and> r' = r \<and> gathered feed d = gathered feed e"
    using receive_agrees [OF eq _ rc assms(2)] assms(1,3) by (auto simp: peer_sends_def)
  then have *: "ns = ms" "r' = r" "gathered feed d = gathered feed e" by auto
  have "cn_eof d = cn_eof e \<and> cn_failed d = cn_failed e \<and> cn_error d = cn_error e \<and> cn_sent d = cn_sent e"
    by (metis *(3) gathered_fields(1-4))
  then show ?thesis using rc * by simp
qed

end

end
