(* ===== verification/WebSocket.thy ===== *)
theory WebSocket
  imports MessageStream "HOL-Library.Word"
begin

text \<open>
  The WebSocket framer, from \<^verbatim>\<open>src/madc_websocket_channel.cpp\<close>, and the reader of header blocks it
  shares with the other framer, from \<^verbatim>\<open>include/madcdis/header_channel.h\<close>: SHA-1, base64, the
  handshake of both roles, the frames.  The clock that seeds the nonces is an argument.  Sizes are
  natural numbers, but the end of a frame is computed in 64 bits as the code does, since the
  length comes from the peer.
\<close>

unbundle bit_operations_syntax

section \<open>Bytes\<close>

text \<open>An integer as its bytes, the most significant first, and back.\<close>

definition be_bytes :: "nat \<Rightarrow> nat \<Rightarrow> string" where
  "be_bytes n v = map (\<lambda>i. char_of (v div 256 ^ i)) (rev [0..<n])"

definition be_value :: "string \<Rightarrow> nat" where
  "be_value s = foldl (\<lambda>a c. a * 256 + byte c) 0 s"

definition xor_byte :: "char \<Rightarrow> char \<Rightarrow> char" where
  "xor_byte a b = char_of (byte a XOR byte b)"

section \<open>SHA-1\<close>

definition rol32 :: "nat \<Rightarrow> 32 word \<Rightarrow> 32 word" where
  "rol32 b v = push_bit b v OR drop_bit (32 - b) v"

definition sha1_padded :: "string \<Rightarrow> string" where
  "sha1_padded msg = msg @ [CHR 0x80] @ replicate ((119 - length msg mod 64) mod 64) (CHR 0x00) @ be_bytes 8 (length msg * 8)"

definition sha1_word :: "string \<Rightarrow> nat \<Rightarrow> 32 word" where
  "sha1_word p i = push_bit 24 (of_char (p ! i)) OR push_bit 16 (of_char (p ! (i + 1)))
     OR push_bit 8 (of_char (p ! (i + 2))) OR of_char (p ! (i + 3))"

definition sha1_schedule :: "string \<Rightarrow> 32 word list" where
  "sha1_schedule p = foldl (\<lambda>w i. w @ [rol32 1 (w ! (i - 3) XOR w ! (i - 8) XOR w ! (i - 14) XOR w ! (i - 16))])
     (map (\<lambda>i. sha1_word p (i * 4)) [0..<16]) [16..<80]"

type_synonym sha1_state = "32 word \<times> 32 word \<times> 32 word \<times> 32 word \<times> 32 word"

definition sha1_round :: "32 word list \<Rightarrow> sha1_state \<Rightarrow> nat \<Rightarrow> sha1_state" where
  "sha1_round w s i =
     (case s of (a, b, c, d, e) \<Rightarrow>
        let (f, k) = (if i < 20 then ((b AND c) OR (NOT b AND d), 0x5A827999)
                      else if i < 40 then (b XOR c XOR d, 0x6ED9EBA1)
                      else if i < 60 then ((b AND c) OR (b AND d) OR (c AND d), 0x8F1BBCDC)
                      else (b XOR c XOR d, 0xCA62C1D6))
        in (rol32 5 a + f + e + k + w ! i, a, rol32 30 b, c, d))"

definition sha1_block :: "string \<Rightarrow> sha1_state \<Rightarrow> sha1_state" where
  "sha1_block p h =
     (case (h, foldl (sha1_round (sha1_schedule p)) h [0..<80]) of
        ((h0, h1, h2, h3, h4), (a, b, c, d, e)) \<Rightarrow> (h0 + a, h1 + b, h2 + c, h3 + d, h4 + e))"

definition sha1 :: "string \<Rightarrow> string" where
  "sha1 msg =
     (let p = sha1_padded msg
      in case foldl (\<lambda>h n. sha1_block (drop (n * 64) p) h) (0x67452301, 0xEFCDAB89, 0x98BADCFE, 0x10325476, 0xC3D2E1F0)
                [0..<length p div 64]
         of (a, b, c, d, e) \<Rightarrow> concat (map (\<lambda>v. be_bytes 4 (unat v)) [a, b, c, d, e]))"

section \<open>Base64\<close>

definition b64_chars :: string where
  "b64_chars = ''ABCDEFGHIJKLMNOPQRSTUVWXYZabcdefghijklmnopqrstuvwxyz0123456789+/''"

text \<open>One group: how many bytes remain, and the three bytes of the group.\<close>

definition b64_group :: "nat \<Rightarrow> nat \<Rightarrow> nat \<Rightarrow> nat \<Rightarrow> string" where
  "b64_group remain b0 b1 b2 =
     [b64_chars ! (drop_bit 2 b0 AND 0x3F),
      b64_chars ! (push_bit 4 (b0 AND 0x03) OR (drop_bit 4 b1 AND 0x0F)),
      if 1 < remain then b64_chars ! (push_bit 2 (b1 AND 0x0F) OR (drop_bit 6 b2 AND 0x03)) else CHR ''='',
      if 2 < remain then b64_chars ! (b2 AND 0x3F) else CHR ''='']"

fun base64_encode :: "string \<Rightarrow> string" where
  "base64_encode [] = ''''"
| "base64_encode [a] = b64_group 1 (byte a) 0 0"
| "base64_encode [a, b] = b64_group 2 (byte a) (byte b) 0"
| "base64_encode (a # b # c # rest) = b64_group (3 + length rest) (byte a) (byte b) (byte c) @ base64_encode rest"

section \<open>Header blocks\<close>

definition crlf :: string where
  "crlf = [CHR 0x0D, CHR 0x0A]"

definition tolower :: "char \<Rightarrow> char" where
  "tolower c = (if isupper c then char_of (byte c + 32) else c)"

definition header_trim :: "string \<Rightarrow> string" where
  "header_trim s = strip isspace s"

definition header_iequals :: "string \<Rightarrow> string \<Rightarrow> bool" where
  "header_iequals a b \<longleftrightarrow> list_all2 (\<lambda>x y. tolower x = tolower y) a b"

definition line_end :: "string \<Rightarrow> nat" where
  "line_end block = (case str_find block crlf 0 of None \<Rightarrow> length block | Some i \<Rightarrow> i)"

text \<open>The value a line gives for a name, when it is a line for that name.\<close>

definition header_line :: "string \<Rightarrow> string \<Rightarrow> string option" where
  "header_line name line =
     (case find_char line (CHR '':'') 0 of
        None \<Rightarrow> None
      | Some i \<Rightarrow> if header_iequals (header_trim (take i line)) name then Some (header_trim (drop (i + 1) line)) else None)"

function header_value :: "string \<Rightarrow> string \<Rightarrow> string option" where
  "header_value block name =
     (if block = '''' then None
      else case header_line name (take (line_end block) block) of
          Some v \<Rightarrow> Some v
        | None \<Rightarrow> header_value (drop (line_end block + 2) block) name)"
  by auto
termination
  by (relation "measure (length \<circ> fst)") auto

declare header_value.simps [simp del]

definition first_line :: "string \<Rightarrow> string" where
  "first_line block = take (line_end block) block"

section \<open>The handshake\<close>

definition ws_guid :: string where
  "ws_guid = ''258EAFA5-E914-47DA-95CA-C5AB0DC85B11''"

definition websocket_accept_token :: "string \<Rightarrow> string" where
  "websocket_accept_token key = base64_encode (sha1 (key @ ws_guid))"

definition switch_response :: "string \<Rightarrow> string" where
  "switch_response token = ''HTTP/1.1 101 Switching Protocols'' @ crlf
     @ ''Upgrade: websocket'' @ crlf
     @ ''Connection: Upgrade'' @ crlf
     @ ''Sec-WebSocket-Accept: '' @ token @ crlf @ crlf"

text \<open>The response, or the reason of the refusal.\<close>

definition websocket_server_handshake :: "string \<Rightarrow> string + string" where
  "websocket_server_handshake request =
     (case header_value request ''upgrade'' of
        None \<Rightarrow> Inl ''not a WebSocket upgrade (missing Upgrade: websocket)''
      | Some upgrade \<Rightarrow>
          if \<not> header_iequals (header_trim upgrade) ''websocket''
          then Inl ''not a WebSocket upgrade (missing Upgrade: websocket)''
          else case header_value request ''sec-websocket-key'' of
              None \<Rightarrow> Inl ''missing Sec-WebSocket-Key''
            | Some key \<Rightarrow>
                if header_trim key = '''' then Inl ''missing Sec-WebSocket-Key''
                else Inr (switch_response (websocket_accept_token (header_trim key))))"

text \<open>The generator of nonces and masks: the bytes drawn and the state after them.\<close>

definition lcg :: "32 word \<Rightarrow> 32 word" where
  "lcg s = s * 1664525 + 1013904223"

fun lcg_bytes :: "nat \<Rightarrow> 32 word \<Rightarrow> string \<times> 32 word" where
  "lcg_bytes 0 s = ('''', s)"
| "lcg_bytes (Suc n) s = (let s = lcg s; r = lcg_bytes n s in (char_of (unat (drop_bit 24 s)) # fst r, snd r))"

text \<open>The request, its key, and the counter of requests after it.\<close>

definition websocket_client_request :: "32 word \<Rightarrow> 32 word \<Rightarrow> string \<Rightarrow> string \<Rightarrow> string \<times> string \<times> 32 word" where
  "websocket_client_request now counter resource host =
     (let counter = counter + 0x9E3779B9;
          key = base64_encode (fst (lcg_bytes 16 (now XOR counter)));
          r = (if resource = '''' then ''/'' else resource);
          h = (if host = '''' then ''localhost'' else host)
      in (''GET '' @ r @ '' HTTP/1.1'' @ crlf
          @ ''Host: '' @ h @ crlf
          @ ''Upgrade: websocket'' @ crlf
          @ ''Connection: Upgrade'' @ crlf
          @ ''Sec-WebSocket-Key: '' @ key @ crlf
          @ ''Sec-WebSocket-Version: 13'' @ crlf @ crlf, key, counter))"

text \<open>The reason a response is refused, if it is.\<close>

definition websocket_client_validate :: "string \<Rightarrow> string \<Rightarrow> string option" where
  "websocket_client_validate response key =
     (if str_find (first_line response) '' 101'' 0 = None then Some ''server did not switch protocols (no 101)''
      else case header_value response ''sec-websocket-accept'' of
          None \<Rightarrow> Some ''missing Sec-WebSocket-Accept''
        | Some accept \<Rightarrow>
            if header_trim accept \<noteq> websocket_accept_token key then Some ''Sec-WebSocket-Accept token mismatch'' else None)"


section \<open>The framer\<close>

record ws =
  ws_client :: bool
  ws_inbuf :: string
  ws_fragment :: string
  ws_frag_opcode :: nat
  ws_close_sent :: bool
  ws_mask_state :: "32 word"

definition ws_new :: "bool \<Rightarrow> 32 word \<Rightarrow> string \<Rightarrow> ws" where
  "ws_new client now leftover = \<lparr>ws_client = client, ws_inbuf = leftover, ws_fragment = '''', ws_frag_opcode = 0,
     ws_close_sent = False, ws_mask_state = now XOR 0xC5AB0DC8\<rparr>"

definition ws_feed :: "string \<Rightarrow> ws \<Rightarrow> ws" where
  "ws_feed data w = w\<lparr>ws_inbuf := ws_inbuf w @ data\<rparr>"

subsection \<open>Encoding\<close>

definition masked_with :: "string \<Rightarrow> string \<Rightarrow> string" where
  "masked_with mk data = map (\<lambda>i. xor_byte (data ! i) (mk ! (i AND 3))) [0..<length data]"

definition length_bytes :: "nat \<Rightarrow> nat \<Rightarrow> string" where
  "length_bytes b1 n =
     (if n < 126 then [char_of (b1 OR n)]
      else if n < 65536 then char_of (b1 OR 126) # be_bytes 2 n
      else char_of (b1 OR 127) # be_bytes 8 n)"

definition encode_frame :: "nat \<Rightarrow> string \<Rightarrow> ws \<Rightarrow> string \<times> ws" where
  "encode_frame opcode data w =
     (let b0 = char_of (0x80 OR (opcode AND 0x0F))
      in if ws_client w
         then let (mk, s) = lcg_bytes 4 (ws_mask_state w)
              in (b0 # length_bytes 0x80 (length data) @ mk @ masked_with mk data, w\<lparr>ws_mask_state := s\<rparr>)
         else (b0 # length_bytes 0 (length data) @ data, w))"

definition encode_text :: "string \<Rightarrow> ws \<Rightarrow> string \<times> ws" where
  "encode_text data w = encode_frame 1 data w"

subsection \<open>Decoding\<close>

text \<open>
  The head of the frame at the front of the buffer, once all of it is there: final bit, opcode,
  mask, length of the payload, and where it starts.
\<close>

record frame_head =
  fh_fin :: bool
  fh_opcode :: nat
  fh_mask :: "string option"
  fh_len :: nat
  fh_pos :: nat

text \<open>How many bytes of an extended length follow a seven-bit one.\<close>

definition wide_bytes :: "nat \<Rightarrow> nat" where
  "wide_bytes short = (if short = 126 then 2 else if short = 127 then 8 else 0)"

definition read_head :: "string \<Rightarrow> frame_head option" where
  "read_head buf =
     (if length buf < 2 then None
      else let b0 = byte (buf ! 0); b1 = byte (buf ! 1); short = b1 AND 0x7F;
               wide = wide_bytes short
      in if length buf < 2 + wide then None
         else let len = (if wide = 0 then short else be_value (take wide (drop 2 buf)));
                  pos = 2 + wide
              in if \<not> bit b1 7 then Some \<lparr>fh_fin = bit b0 7, fh_opcode = b0 AND 0x0F, fh_mask = None, fh_len = len, fh_pos = pos\<rparr>
                 else if length buf < pos + 4 then None
                 else Some \<lparr>fh_fin = bit b0 7, fh_opcode = b0 AND 0x0F, fh_mask = Some (take 4 (drop pos buf)),
                        fh_len = len, fh_pos = pos + 4\<rparr>)"

text \<open>The largest size a \<open>std::string\<close> takes; resizing past it throws.\<close>

definition string_max_size :: nat where
  "string_max_size = 2 ^ 63 - 1"

datatype frame_read = FrameMore | FrameThrow | Frame frame_head string string

definition read_frame :: "string \<Rightarrow> frame_read" where
  "read_frame buf =
     (case read_head buf of
        None \<Rightarrow> FrameMore
      | Some h \<Rightarrow>
          if length buf < (fh_pos h + fh_len h) mod 2 ^ 64 then FrameMore
          else if string_max_size < fh_len h then FrameThrow
          else let raw = take (fh_len h) (drop (fh_pos h) buf)
               in Frame h (case fh_mask h of None \<Rightarrow> raw | Some mk \<Rightarrow> masked_with mk raw) (drop (fh_pos h + fh_len h) buf))"

text \<open>One frame of the loop of \<open>next_message\<close>: a message, an answer, nothing to tell, the close.\<close>

datatype ws_event = WsData string | WsReply string | WsQuiet | WsClose string

definition ws_handle :: "frame_head \<Rightarrow> string \<Rightarrow> ws \<Rightarrow> ws_event \<times> ws" where
  "ws_handle h payload w =
     (let op = fh_opcode h
      in if op = 8
         then if ws_close_sent w then (WsClose '''', w)
              else let (f, w) = encode_frame 8 '''' w in (WsClose f, w\<lparr>ws_close_sent := True\<rparr>)
         else if op = 9 then let (f, w) = encode_frame 10 payload w in (WsReply f, w)
         else if op = 10 then (WsQuiet, w)
         else if op = 0
         then if fh_fin h then (WsData (ws_fragment w @ payload), w\<lparr>ws_fragment := '''', ws_frag_opcode := 0\<rparr>)
              else (WsQuiet, w\<lparr>ws_fragment := ws_fragment w @ payload\<rparr>)
         else if fh_fin h then (WsData payload, w)
         else (WsQuiet, w\<lparr>ws_fragment := payload, ws_frag_opcode := op\<rparr>))"

lemma wide_bytes_le: "wide_bytes n \<le> 8"
  by (simp add: wide_bytes_def)

lemma read_head_pos: "read_head buf = Some h \<Longrightarrow> 2 \<le> fh_pos h \<and> fh_pos h \<le> 14 \<and> fh_pos h \<le> length buf"
  using wide_bytes_le [of "byte (buf ! 1) AND 0x7F"] by (auto simp: read_head_def Let_def split: if_splits)

lemma read_frame_shorter: "read_frame buf = Frame h p rest \<Longrightarrow> length rest < length buf"
  using read_head_pos [of buf] by (fastforce simp: read_frame_def Let_def split: option.splits if_splits)

lemma ws_handle_inbuf: "ws_inbuf (snd (ws_handle h p w)) = ws_inbuf w"
  by (simp add: ws_handle_def encode_frame_def Let_def split: prod.splits)

function ws_next_from :: "string \<Rightarrow> ws \<Rightarrow> next_outcome \<times> string \<times> ws" where
  "ws_next_from reply w =
     (case read_frame (ws_inbuf w) of
        FrameMore \<Rightarrow> (NeedMore, reply, w)
      | FrameThrow \<Rightarrow> (Threw (Thrown ''length_error''), reply, w)
      | Frame h payload rest \<Rightarrow>
          let r = ws_handle h payload (w\<lparr>ws_inbuf := rest\<rparr>)
          in case fst r of
               WsData m \<Rightarrow> (Message m, reply, snd r)
             | WsClose f \<Rightarrow> (Ended '''', reply @ f, snd r)
             | WsReply f \<Rightarrow> ws_next_from (reply @ f) (snd r)
             | WsQuiet \<Rightarrow> ws_next_from reply (snd r))"
  by auto
termination
  by (relation "measure (\<lambda>(_, w). length (ws_inbuf w))") (auto simp: ws_handle_inbuf read_frame_shorter)

declare ws_next_from.simps [simp del]

definition ws_next :: "ws \<Rightarrow> next_outcome \<times> string \<times> ws" where
  "ws_next w = ws_next_from '''' w"

definition ws_recv :: "ws conn \<Rightarrow> recv_result \<times> ws conn" where
  "ws_recv c = recv ws_next ws_feed c"

text \<open>A courteous end of writing: what is written before the end, and the state.\<close>

definition ws_close_write :: "ws \<Rightarrow> string \<times> ws" where
  "ws_close_write w =
     (if ws_close_sent w then ('''', w) else let (f, w) = encode_frame 8 '''' w in (f, w\<lparr>ws_close_sent := True\<rparr>))"

end
