(* ===== verification/HeaderFramer.thy ===== *)
theory HeaderFramer
  imports WebSocket
begin

text \<open>
  The framer of messages with a \<open>Content-Length\<close> header, from \<^verbatim>\<open>src/madc_header_channel.cpp\<close>, and
  that it and the WebSocket framer keep the interface of \<^verbatim>\<open>MessageStream\<close>: neither shows how the
  bytes were cut into reads.
\<close>

section \<open>The framer\<close>

record hdr_framer =
  hf_inbuf :: string
  hf_broken :: bool

definition hdr_new :: "string \<Rightarrow> hdr_framer" where
  "hdr_new leftover = \<lparr>hf_inbuf = leftover, hf_broken = False\<rparr>"

definition hdr_feed :: "string \<Rightarrow> hdr_framer \<Rightarrow> hdr_framer" where
  "hdr_feed data h = h\<lparr>hf_inbuf := hf_inbuf h @ data\<rparr>"

text \<open>\<open>std::strtoll\<close> in base ten, saturating, with the text it stopped at; none without a digit.\<close>

definition strtoll :: "string \<Rightarrow> (int \<times> string) option" where
  "strtoll s =
     (let s1 = dropWhile isspace s;
          neg = (s1 \<noteq> [] \<and> hd s1 = CHR ''-'');
          s2 = (if s1 \<noteq> [] \<and> (hd s1 = CHR ''-'' \<or> hd s1 = CHR ''+'') then tl s1 else s1);
          ds = takeWhile isdigit s2;
          v = (if neg then - int (digits_val 0 ds) else int (digits_val 0 ds))
      in if ds = [] then None else Some (max (- (2 ^ 63)) (min (2 ^ 63 - 1) v), dropWhile isdigit s2))"

text \<open>The length a header gives, read as a C string.\<close>

definition content_length :: "string \<Rightarrow> nat option" where
  "content_length s =
     (case strtoll (takeWhile (\<lambda>c. c \<noteq> CHR 0x00) s) of
        None \<Rightarrow> None
      | Some (v, stop) \<Rightarrow> if stop \<noteq> '''' \<or> v < 0 then None else Some (nat v))"

definition hdr_refuse :: "string \<Rightarrow> hdr_framer \<Rightarrow> next_outcome \<times> string \<times> hdr_framer" where
  "hdr_refuse why h = (Ended why, '''', h\<lparr>hf_broken := True\<rparr>)"

definition hdr_next :: "hdr_framer \<Rightarrow> next_outcome \<times> string \<times> hdr_framer" where
  "hdr_next h =
     (if hf_broken h then (Ended '''', '''', h)
      else case str_find (hf_inbuf h) (crlf @ crlf) 0 of
          None \<Rightarrow> (NeedMore, '''', h)
        | Some e \<Rightarrow>
            (case header_value (take (e + 2) (hf_inbuf h)) ''content-length'' of
               None \<Rightarrow> hdr_refuse ''no Content-Length header in the message block'' h
             | Some text \<Rightarrow>
                 (case content_length text of
                    None \<Rightarrow> hdr_refuse (''Content-Length is not a length: `'' @ text @ ''`'') h
                  | Some n \<Rightarrow>
                      if length (hf_inbuf h) - (e + 4) < n then (NeedMore, '''', h)
                      else (Message (take n (drop (e + 4) (hf_inbuf h))), '''', h\<lparr>hf_inbuf := drop (e + 4 + n) (hf_inbuf h)\<rparr>))))"

definition hdr_recv :: "hdr_framer conn \<Rightarrow> recv_result \<times> hdr_framer conn" where
  "hdr_recv c = recv hdr_next hdr_feed c"

definition encode_message :: "string \<Rightarrow> string" where
  "encode_message data = ''Content-Length: '' @ to_string (length data) @ crlf @ crlf @ data"

section \<open>Searching\<close>

lemma find_at_append: "find_at p s i = Some k \<Longrightarrow> find_at p (s @ t) i = Some k"
proof (induction p s i rule: find_at.induct)
  case (1 p i)
  then show ?case by (cases t) (auto simp: has_prefix_def split: if_splits)
next
  case (2 p c cs i)
  show ?case
  proof (cases "has_prefix p (c # cs)")
    case True
    then have "has_prefix p (c # cs @ t)" by (auto simp: has_prefix_iff) (metis append.assoc append_Cons)
    then show ?thesis using 2 True by simp
  next
    case False
    then have k: "find_at p cs (Suc i) = Some k" using 2 by simp
    from find_at_Some [OF this] have "length p \<le> length cs" by (auto simp: has_prefix_def) (metis length_drop length_take min.bounded_iff diff_le_self le_trans nat_le_linear take_all)
    then have "\<not> has_prefix p (c # cs @ t)" using False by (simp add: has_prefix_def take_Cons' split: if_splits)
    then show ?thesis using 2 False k by simp
  qed
qed

lemma str_find_append: "str_find s p 0 = Some k \<Longrightarrow> str_find (s @ t) p 0 = Some k"
  by (simp add: str_find_def find_at_append)

lemma str_find_at:
  assumes "str_find s p 0 = Some k"
  shows "k + length p \<le> length s"
proof -
  obtain r where "drop k s = p @ r" "k \<le> length s"
    using find_at_Some [of p s 0 k] assms by (auto simp: str_find_def has_prefix_iff)
  from arg_cong [OF this(1), of length] this(2) show ?thesis by simp
qed

lemma find_at_clean: "c \<notin> set u \<Longrightarrow> find_at (c # p) (u @ c # p @ v) i = Some (i + length u)"
proof (induction u arbitrary: i)
  case Nil
  then show ?case by (simp add: has_prefix_def)
qed (auto simp: has_prefix_def)

section \<open>The interface\<close>

lemma hdr_feed_hdr_feed: "hdr_feed t (hdr_feed s h) = hdr_feed (s @ t) h"
  by (simp add: hdr_feed_def)

lemma hdr_next_done:
  assumes "hdr_next h = (out, r, g)" and "out \<noteq> NeedMore"
  shows "hdr_next (hdr_feed t h) = (out, r, hdr_feed t g)"
proof (cases "hf_broken h")
  case True
  then show ?thesis using assms by (auto simp: hdr_next_def hdr_feed_def)
next
  case False
  with assms obtain e where e: "str_find (hf_inbuf h) (crlf @ crlf) 0 = Some e"
    by (auto simp: hdr_next_def split: option.splits)
  have le: "e + 4 \<le> length (hf_inbuf h)" using str_find_at [OF e] by (simp add: crlf_def)
  have e': "str_find (hf_inbuf h @ t) (crlf @ crlf) 0 = Some e" by (rule str_find_append [OF e])
  show ?thesis
    using assms False le
    by (auto simp: hdr_next_def hdr_feed_def hdr_refuse_def e e' split: option.splits if_splits)
qed

lemma hdr_next_more:
  assumes "hdr_next h = (NeedMore, r, g)" and "hdr_next (hdr_feed t g) = (out, r', k)"
  shows "hdr_next (hdr_feed t h) = (out, r @ r', k)"
proof -
  have "r = '''' \<and> g = h" using assms(1) by (auto simp: hdr_next_def hdr_refuse_def split: option.splits if_splits)
  then show ?thesis using assms(2) by simp
qed

interpretation hdr: framer hdr_next hdr_feed
proof
  show "hdr_feed '''' h = h" for h by (simp add: hdr_feed_def)
qed (fact hdr_feed_hdr_feed hdr_next_done hdr_next_more)+

section \<open>The WebSocket framer\<close>

lemma read_head_append:
  assumes "read_head buf = Some h"
  shows "read_head (buf @ t) = Some h"
proof -
  have le: "2 \<le> length buf" "2 + wide_bytes (byte (buf ! 1) AND 0x7F) \<le> length buf"
    using assms by (simp_all add: read_head_def Let_def split: if_split_asm)
  then have same: "(buf @ t) ! 0 = buf ! 0" "(buf @ t) ! 1 = buf ! 1" by (auto simp: nth_append)
  show ?thesis using assms le unfolding read_head_def same Let_def by (simp split: if_split_asm)
qed

lemma read_frame_append:
  assumes "read_frame buf \<noteq> FrameMore"
  shows "read_frame (buf @ t) = (case read_frame buf of Frame h p rest \<Rightarrow> Frame h p (rest @ t) | f \<Rightarrow> f)"
proof -
  obtain h where h: "read_head buf = Some h" and fits: "(fh_pos h + fh_len h) mod 2 ^ 64 \<le> length buf"
    using assms by (auto simp: read_frame_def split: option.splits if_splits)
  show ?thesis
  proof (cases "string_max_size < fh_len h")
    case True
    then show ?thesis using fits by (simp add: read_frame_def h read_head_append)
  next
    case False
    then have "fh_pos h + fh_len h < 2 ^ 64" using read_head_pos [OF h] by (simp add: string_max_size_def)
    then have "fh_pos h + fh_len h \<le> length buf" "(fh_pos h + fh_len h) mod 2 ^ 64 = fh_pos h + fh_len h"
      using fits by simp_all
    then show ?thesis using False by (simp add: read_frame_def h read_head_append Let_def)
  qed
qed


lemma ws_feed_ws_feed: "ws_feed t (ws_feed s w) = ws_feed (s @ t) w"
  by (simp add: ws_feed_def)

lemma ws_handle_feed:
  "ws_handle h p (ws_feed t w) = (fst (ws_handle h p w), ws_feed t (snd (ws_handle h p w)))"
  by (simp add: ws_handle_def encode_frame_def ws_feed_def Let_def split: prod.splits)

lemma ws_next_from_reply: "ws_next_from (r @ s) w = (let (out, r', y) = ws_next_from s w in (out, r @ r', y))"
proof (induction s w arbitrary: r rule: ws_next_from.induct)
  case (1 s w)
  show ?case
    by (subst (1 2) ws_next_from.simps)
      (auto simp: Let_def 1 split: frame_read.splits ws_event.splits prod.splits)
qed

lemma ws_next_from_done:
  "ws_next_from s w = (out, r, y) \<Longrightarrow> out \<noteq> NeedMore \<Longrightarrow> ws_next_from s (ws_feed t w) = (out, r, ws_feed t y)"
proof (induction s w rule: ws_next_from.induct)
  case (1 s w)
  show ?case
  proof (cases "read_frame (ws_inbuf w)")
    case FrameMore
    then show ?thesis using 1 by (subst (asm) ws_next_from.simps) simp
  next
    case FrameThrow
    then show ?thesis using 1 read_frame_append [of "ws_inbuf w" t]
      by (subst (asm) ws_next_from.simps, subst ws_next_from.simps) (auto simp: ws_feed_def)
  next
    case (Frame h p rest)
    have f: "read_frame (ws_inbuf (ws_feed t w)) = Frame h p (rest @ t)"
      using read_frame_append [of "ws_inbuf w" t] Frame by (simp add: ws_feed_def)
    have g: "ws_feed t w\<lparr>ws_inbuf := rest @ t\<rparr> = ws_feed t (w\<lparr>ws_inbuf := rest\<rparr>)" by (simp add: ws_feed_def)
    show ?thesis using "1.prems" "1.IH" [OF Frame refl]
      by (subst (asm) (1) ws_next_from.simps, subst ws_next_from.simps)
        (auto simp: Frame f g ws_handle_feed Let_def split: ws_event.splits)
  qed
qed

lemma ws_next_from_more:
  assumes "ws_next_from s w = (NeedMore, r, y)" and "ws_next_from r (ws_feed t y) = q"
  shows "ws_next_from s (ws_feed t w) = q"
  using assms
proof (induction s w rule: ws_next_from.induct)
  case (1 s w)
  show ?case
  proof (cases "read_frame (ws_inbuf w)")
    case FrameMore
    then show ?thesis using 1 by (subst (asm) (1) ws_next_from.simps) simp
  next
    case FrameThrow
    then show ?thesis using 1 by (subst (asm) (1) ws_next_from.simps) simp
  next
    case (Frame h p rest)
    have f: "read_frame (ws_inbuf (ws_feed t w)) = Frame h p (rest @ t)"
      using read_frame_append [of "ws_inbuf w" t] Frame by (simp add: ws_feed_def)
    have g: "ws_feed t w\<lparr>ws_inbuf := rest @ t\<rparr> = ws_feed t (w\<lparr>ws_inbuf := rest\<rparr>)" by (simp add: ws_feed_def)
    show ?thesis using "1.prems" "1.IH" [OF Frame refl]
      by (subst (asm) (1) ws_next_from.simps, subst ws_next_from.simps)
        (auto simp: Frame f g ws_handle_feed Let_def split: ws_event.splits)
  qed
qed

interpretation ws: framer ws_next ws_feed
proof
  show "ws_feed '''' w = w" for w by (simp add: ws_feed_def)
  show "ws_feed t (ws_feed s w) = ws_feed (s @ t) w" for t s w by (rule ws_feed_ws_feed)
  show "ws_next w = (out, r, y) \<Longrightarrow> out \<noteq> NeedMore \<Longrightarrow> ws_next (ws_feed t w) = (out, r, ws_feed t y)" for w out r y t
    unfolding ws_next_def by (rule ws_next_from_done)
  show "ws_next (ws_feed t w) = (out, r @ r', z)"
    if "ws_next w = (NeedMore, r, y)" "ws_next (ws_feed t y) = (out, r', z)" for t w out r r' y z
    using ws_next_from_more [of "''''" w r y t] ws_next_from_reply [of r "''''" "ws_feed t y"] that by (simp add: ws_next_def)
qed

end
