(* ===== verification/FramerProps.thy ===== *)
theory FramerProps
  imports HeaderFramer
begin

text \<open>
  Properties of the two framers: what is encoded is decoded, in whatever pieces it arrives;
  fragments of a message are put together around the control frames between them; both roles of
  the WebSocket handshake agree.
\<close>

unbundle bit_operations_syntax

section \<open>Bytes\<close>

lemma length_be_bytes [simp]: "length (be_bytes n v) = n"
  by (simp add: be_bytes_def)

lemma be_bytes_eq_Nil [simp]: "be_bytes n v = [] \<longleftrightarrow> n = 0"
  by (simp add: be_bytes_def)

lemma be_bytes_Suc: "be_bytes (Suc n) v = char_of (v div 256 ^ n) # be_bytes n v"
  by (simp add: be_bytes_def)

lemma foldl_be: "foldl (\<lambda>a c. a * 256 + byte c) acc (be_bytes n v) = acc * 256 ^ n + v mod 256 ^ n"
proof (induction n arbitrary: acc)
  case 0
  then show ?case by (simp add: be_bytes_def)
next
  case (Suc n)
  have "v mod 256 ^ Suc n = v div 256 ^ n mod 256 * 256 ^ n + v mod 256 ^ n"
    by (metis add.commute mod_mult2_eq mult.commute power_Suc2)
  then show ?case using Suc by (simp add: be_bytes_Suc algebra_simps)
qed

lemma be_value_be_bytes: "v < 256 ^ n \<Longrightarrow> be_value (be_bytes n v) = v"
  by (simp add: be_value_def foldl_be)

lemma nat_xor_less: "(a::nat) < 256 \<Longrightarrow> b < 256 \<Longrightarrow> a XOR b < 256"
proof -
  assume "a < 256" "b < 256"
  then have "take_bit 8 (a XOR b) = a XOR b" by (simp add: take_bit_xor take_bit_nat_eq_self)
  then show ?thesis using take_bit_nat_less_exp [of 8 "a XOR b"] by (simp del: take_bit_xor)
qed

lemma xor_byte_xor_byte [simp]: "xor_byte (xor_byte a b) b = a"
proof -
  have "byte (xor_byte a b) = byte a XOR byte b"
    using nat_xor_less [OF byte_less byte_less] by (simp add: xor_byte_def of_char_of)
  then show ?thesis by (simp add: xor_byte_def xor.assoc)
qed

lemma length_masked_with [simp]: "length (masked_with mk data) = length data"
  by (simp add: masked_with_def)

lemma masked_with_masked_with [simp]: "masked_with mk (masked_with mk data) = data"
  by (rule nth_equalityI) (simp_all add: masked_with_def)


section \<open>Heads of frames\<close>

lemma low_bits: "(n::nat) < 128 \<Longrightarrow> bit n k \<Longrightarrow> k < 7"
  using take_bit_nat_eq_self [of n 7] bit_take_bit_iff [of 7 n k] by simp

lemma bit_128: "bit (128::nat) k \<longleftrightarrow> k = 7"
  using bit_exp_iff [of 7 k, where 'a = nat] by simp

lemma bit_127: "bit (127::nat) k \<longleftrightarrow> k < 7"
  using bit_mask_iff [of 7 k, where 'a = nat] by (simp add: mask_eq_exp_minus_1)

lemma bit_15: "bit (15::nat) k \<longleftrightarrow> k < 4"
  using bit_mask_iff [of 4 k, where 'a = nat] by (simp add: mask_eq_exp_minus_1)

lemma flagged_byte:
  assumes "(n::nat) < 128" and "f = 0 \<or> f = 128"
  shows "byte (char_of (f OR n)) = f OR n" "(f OR n) AND 127 = n" "bit (f OR n) 7 \<longleftrightarrow> f = 128"
proof -

  show "(f OR n) AND 127 = n" using assms low_bits [OF assms(1)]
    by (intro bit_eqI) (auto simp: bit_and_iff bit_or_iff bit_128 bit_127)
  show "bit (f OR n) 7 \<longleftrightarrow> f = 128" using assms low_bits [OF assms(1), of 7]
    by (auto simp: bit_or_iff bit_128 bit_0)
  have "take_bit 8 (f OR n) = f OR n" using assms by (auto simp: take_bit_or take_bit_nat_eq_self)
  then show "byte (char_of (f OR n)) = f OR n" by (simp add: of_char_of take_bit_eq_mod)
qed


text \<open>A frame as a peer writes it: \<open>encode_frame\<close> writes the final ones.\<close>

definition peer_frame :: "bool \<Rightarrow> nat \<Rightarrow> string option \<Rightarrow> string \<Rightarrow> string" where
  "peer_frame fin opcode key data =
     char_of ((if fin then 0x80 else 0) OR opcode)
     # length_bytes (if key = None then 0 else 0x80) (length data)
     @ (case key of None \<Rightarrow> data | Some mk \<Rightarrow> mk @ masked_with mk data)"

definition mask_key :: "string option \<Rightarrow> bool" where
  "mask_key key \<longleftrightarrow> (\<forall>mk. key = Some mk \<longrightarrow> length mk = 4)"

lemma length_lcg_bytes: "length (fst (lcg_bytes n s)) = n"
  by (induction n arbitrary: s) (simp_all add: Let_def)

lemma encode_frame_peer:
  assumes "opcode < 16"
  shows "fst (encode_frame opcode data w) =
    peer_frame True opcode (if ws_client w then Some (fst (lcg_bytes 4 (ws_mask_state w))) else None) data"
proof -
  have "opcode AND 15 = opcode" using assms take_bit_nat_eq_self [of opcode 4] by (simp add: take_bit_eq_mask mask_eq_exp_minus_1)
  then show ?thesis by (simp add: encode_frame_def peer_frame_def Let_def split: prod.split)
qed

lemma length_length_bytes: "length (length_bytes b1 n) = 1 + (if n < 126 then 0 else if n < 65536 then 2 else 8)"
  by (simp add: length_bytes_def)

lemma read_head_peer:
  assumes op: "opcode < 16" and key: "mask_key key" and len: "length data < 2 ^ 63"
  shows "\<exists>p. read_head (peer_frame fin opcode key data @ rest) =
      Some \<lparr>fh_fin = fin, fh_opcode = opcode, fh_mask = key, fh_len = length data, fh_pos = p\<rparr>
    \<and> drop p (peer_frame fin opcode key data @ rest) = (case key of None \<Rightarrow> data | Some mk \<Rightarrow> masked_with mk data) @ rest"
proof -
  let ?n = "length data" and ?f = "if key = None then 0 else 0x80 :: nat"
  define short where "short = (if ?n < 126 then ?n else if ?n < 65536 then 126 else 127)"
  define ext where "ext = (if ?n < 126 then '''' else if ?n < 65536 then be_bytes 2 ?n else be_bytes 8 ?n)"
  have lb: "length_bytes ?f ?n = char_of (?f OR short) # ext"
    by (simp add: length_bytes_def short_def ext_def)
  have wide: "wide_bytes short = length ext" "length ext = 0 \<longleftrightarrow> ?n < 126"
    by (auto simp: wide_bytes_def short_def ext_def)
  have ext_value: "length ext \<noteq> 0 \<Longrightarrow> be_value ext = ?n"
    using len by (auto simp: ext_def be_value_be_bytes)
  have short: "short < 128" "length ext = 0 \<Longrightarrow> short = ?n" using wide(2) by (auto simp: short_def)
  have b1: "byte (char_of (?f OR short)) = ?f OR short" "(?f OR short) AND 127 = short" "bit (?f OR short) 7 \<longleftrightarrow> key \<noteq> None"
    using flagged_byte [OF short(1), of ?f] by auto
  have b0: "byte (char_of ((if fin then 0x80 else 0) OR opcode)) = (if fin then 0x80 else 0) OR opcode"
      "bit ((if fin then 0x80 else 0 :: nat) OR opcode) 7 \<longleftrightarrow> fin"
    using flagged_byte [of opcode "if fin then 0x80 else 0"] op by auto
  have op15: "((if fin then 0x80 else 0) OR opcode) AND 15 = opcode"
  proof (rule bit_eqI)
    fix k
    have "bit opcode k \<Longrightarrow> k < 4" using take_bit_nat_eq_self [of opcode 4] op bit_take_bit_iff [of 4 opcode k] by simp
    then show "bit (((if fin then 0x80 else 0) OR opcode) AND 15) k = bit opcode k"
      by (auto simp: bit_and_iff bit_or_iff bit_128 bit_15)
  qed
  have frame: "peer_frame fin opcode key data @ rest =
      char_of ((if fin then 0x80 else 0) OR opcode) # char_of (?f OR short) # ext
        @ (case key of None \<Rightarrow> data | Some mk \<Rightarrow> mk @ masked_with mk data) @ rest"
    by (simp add: peer_frame_def lb)
  show ?thesis
  proof (cases key)
    case None
    then show ?thesis unfolding frame
      using b1 b0 op15 wide ext_value short
      by (intro exI [of _ "2 + length ext"]) (auto simp: read_head_def Let_def)
  next
    case (Some mk)
    then have mk: "length mk = 4" using key by (simp add: mask_key_def)
    then have "drop (6 + length ext) (a # b # ext @ mk @ r) = r" for a b r by (simp add: drop_Cons')
    then show ?thesis unfolding frame
      using Some mk b1 b0 op15 wide ext_value short
      by (intro exI [of _ "2 + length ext + 4"]) (auto simp: read_head_def Let_def)
  qed
qed


lemma read_frame_peer:
  assumes "opcode < 16" and "mask_key key" and "length data < 2 ^ 63"
  shows "\<exists>h. read_frame (peer_frame fin opcode key data @ rest) = Frame h data rest \<and> fh_fin h = fin \<and> fh_opcode h = opcode"
proof -
  define buf where "buf = peer_frame fin opcode key data @ rest"
  obtain p where h: "read_head buf = Some \<lparr>fh_fin = fin, fh_opcode = opcode, fh_mask = key, fh_len = length data, fh_pos = p\<rparr>"
    and d: "drop p buf = (case key of None \<Rightarrow> data | Some mk \<Rightarrow> masked_with mk data) @ rest"
    using read_head_peer [OF assms] unfolding buf_def by blast
  have p: "p \<le> 14" "p \<le> length buf" using read_head_pos [OF h] by simp_all
  have "length (drop p buf) = length data + length rest" unfolding d by (simp split: option.split)
  then have l: "p + length data \<le> length buf" using p(2) by simp
  have m: "(p + length data) mod 2 ^ 64 = p + length data" using p(1) assms(3) by simp
  have "drop (length data) (drop p buf) = rest" unfolding d by (simp split: option.split)
  then have dd: "drop (p + length data) buf = rest" by (simp add: add.commute)
  show ?thesis unfolding buf_def [symmetric]
    using assms(3) l dd m by (simp add: read_frame_def h d string_max_size_def Let_def split: option.split)
qed

section \<open>Messages\<close>

text \<open>What a sender writes for a list of messages.\<close>

fun sent_texts :: "string list \<Rightarrow> ws \<Rightarrow> string" where
  "sent_texts [] w = ''''"
| "sent_texts (m # ms) w = (let r = encode_text m w in fst r @ sent_texts ms (snd r))"

lemma ws_next_peer:
  assumes "opcode < 16" and "mask_key key" and "length data < 2 ^ 63"
  shows "\<exists>h. fh_fin h = fin \<and> fh_opcode h = opcode \<and>
    ws_next_from s (w\<lparr>ws_inbuf := peer_frame fin opcode key data @ rest\<rparr>) =
      (let r = ws_handle h data (w\<lparr>ws_inbuf := rest\<rparr>)
       in case fst r of WsData m \<Rightarrow> (Message m, s, snd r) | WsClose f \<Rightarrow> (Ended '''', s @ f, snd r)
          | WsReply f \<Rightarrow> ws_next_from (s @ f) (snd r) | WsQuiet \<Rightarrow> ws_next_from s (snd r))"
proof -
  obtain h where "read_frame (peer_frame fin opcode key data @ rest) = Frame h data rest" "fh_fin h = fin" "fh_opcode h = opcode"
    using read_frame_peer [OF assms] by blast
  then show ?thesis by (intro exI [of _ h]) (subst ws_next_from.simps, simp add: Let_def)
qed

lemma ws_next_text:
  assumes "length m < 2 ^ 63"
  shows "ws_next (w\<lparr>ws_inbuf := fst (encode_text m v) @ rest\<rparr>) = (Message m, '''', w\<lparr>ws_inbuf := rest\<rparr>)"
proof -
  let ?key = "if ws_client v then Some (fst (lcg_bytes 4 (ws_mask_state v))) else None"
  have k: "mask_key ?key" by (simp add: mask_key_def length_lcg_bytes)
  show ?thesis
    using ws_next_peer [OF _ k assms, where opcode = 1 and fin = True and s = "''''" and w = w and rest = rest]
    by (auto simp: ws_next_def encode_text_def encode_frame_peer ws_handle_def Let_def)
qed

lemma ws_next_empty: "ws_inbuf w = '''' \<Longrightarrow> ws_next w = (NeedMore, '''', w)"
  by (simp add: ws_next_def ws_next_from.simps read_frame_def read_head_def)

section \<open>Receiving what was sent\<close>

lemma recv_Message:
  "nxt (cn_framer c) = (Message m, '''', y) \<Longrightarrow> \<not> cn_failed c \<Longrightarrow> \<not> cn_eof c \<Longrightarrow>
    recv nxt feed c = (Received m, c\<lparr>cn_framer := y\<rparr>)"
  by (simp add: recv_def) (subst recv_loop.simps, simp add: Let_def)

lemma recv_at_end:
  "nxt (cn_framer c) = (NeedMore, '''', cn_framer c) \<Longrightarrow> cn_reads c = [Some ''''] \<Longrightarrow> \<not> cn_failed c \<Longrightarrow> \<not> cn_eof c \<Longrightarrow>
    recv nxt feed c = (NotReceived, c\<lparr>cn_eof := True, cn_reads := []\<rparr>)"
  by (simp add: recv_def) (subst recv_loop.simps, simp add: Let_def)

lemma ws_receive_gathered:
  assumes "\<forall>m \<in> set ms. length m < 2 ^ 63" and "\<not> cn_failed c" and "\<not> cn_eof c" and "cn_reads c = [Some '''']"
    and "ws_inbuf (cn_framer c) = sent_texts ms v"
  shows "receive (Suc (length ms)) (recv ws_next ws_feed) c =
    (ms, Some NotReceived, c\<lparr>cn_framer := (cn_framer c)\<lparr>ws_inbuf := ''''\<rparr>, cn_eof := True, cn_reads := []\<rparr>)"
  using assms
proof (induction ms arbitrary: c v)
  case Nil
  then have "(cn_framer c)\<lparr>ws_inbuf := ''''\<rparr> = cn_framer c" by simp
  then show ?case using recv_at_end [of ws_next c ws_feed] ws_next_empty [of "cn_framer c"] Nil by simp
next
  case (Cons m ms)
  obtain f u where e: "encode_text m v = (f, u)" by (cases "encode_text m v")
  let ?y = "(cn_framer c)\<lparr>ws_inbuf := sent_texts ms u\<rparr>"
  have "cn_framer c = (cn_framer c)\<lparr>ws_inbuf := fst (encode_text m v) @ sent_texts ms u\<rparr>" using Cons.prems(5) e by simp
  then have "ws_next (cn_framer c) = (Message m, '''', ?y)"
    using ws_next_text [where m = m and w = "cn_framer c" and v = v] Cons.prems(1) by (metis list.set_intros(1))
  from recv_Message [of ws_next, OF this Cons.prems(2,3)]
  have r: "recv ws_next ws_feed c = (Received m, c\<lparr>cn_framer := ?y\<rparr>)" .
  have "receive (Suc (length ms)) (recv ws_next ws_feed) (c\<lparr>cn_framer := ?y\<rparr>)
      = (ms, Some NotReceived, c\<lparr>cn_framer := (cn_framer c)\<lparr>ws_inbuf := ''''\<rparr>, cn_eof := True, cn_reads := []\<rparr>)"
    using Cons.IH [of "c\<lparr>cn_framer := ?y\<rparr>" u] Cons.prems by simp
  then show ?case by (simp only: length_Cons) (subst receive.simps, simp only: r, simp)
qed


lemma ws_stream_received:
  assumes "peer_sends chunks c" and "ws_inbuf (cn_framer c) @ concat chunks = sent_texts ms v" and "\<forall>m \<in> set ms. length m < 2 ^ 63"
  shows "\<exists>d. receive (Suc (length ms)) ws_recv c = (ms, Some NotReceived, d) \<and> cn_eof d \<and> \<not> cn_failed d \<and> cn_sent d = cn_sent c"
proof -
  let ?g = "c\<lparr>cn_framer := ws_feed (concat chunks) (cn_framer c), cn_reads := [Some '''']\<rparr>"
  have "receive (Suc (length ms)) (recv ws_next ws_feed) ?g =
      (ms, Some NotReceived, ?g\<lparr>cn_framer := (cn_framer ?g)\<lparr>ws_inbuf := ''''\<rparr>, cn_eof := True, cn_reads := []\<rparr>)"
    by (rule ws_receive_gathered [of ms _ v]) (use assms in \<open>auto simp: peer_sends_def ws_feed_def\<close>)
  from ws.receive_stream [OF assms(1) this] show ?thesis
    using assms(1) by (auto simp: ws_recv_def [abs_def] peer_sends_def)
qed

text \<open>
  WebSocket messages arrive.  The messages a sender of either role encodes one after another
  are received as they are and in order, however the bytes are cut into reads; then the closed
  stream ends the receiving without an error, and nothing was written back.
\<close>

theorem ws_messages_received:
  assumes "peer_sends chunks c" and "ws_inbuf (cn_framer c) @ concat chunks = sent_texts ms v" and "\<forall>m \<in> set ms. length m < 2 ^ 63"
  shows "\<exists>d. receive (Suc (length ms)) ws_recv c = (ms, Some NotReceived, d) \<and> cn_eof d \<and> \<not> cn_failed d \<and> cn_sent d = cn_sent c"
  by (rule ws_stream_received [OF assms])

definition sample_conn :: "'s \<Rightarrow> string list \<Rightarrow> 's conn" where
  "sample_conn x chunks = \<lparr>cn_framer = x, cn_open = True, cn_pending = '''', cn_eof = False, cn_failed = False, cn_error = '''',
     cn_reads = map Some chunks @ [Some ''''], cn_write_ok = True, cn_sent = ''''\<rparr>"

lemma sample_conn: "'''' \<notin> set chunks \<Longrightarrow> peer_sends chunks (sample_conn x chunks)"
  by (simp add: peer_sends_def sample_conn_def)

theorem ws_messages_received_witness:
  "\<exists>d. receive 3 ws_recv (sample_conn (ws_new True 3 '''') [[CHR 0x81], CHR 0x02 # ''h'', CHR ''i'' # [CHR 0x81, CHR 0x00]])
    = ([''hi'', ''''], Some NotReceived, d) \<and> cn_eof d"
proof -
  let ?cs = "[[CHR 0x81], CHR 0x02 # ''h'', CHR ''i'' # [CHR 0x81, CHR 0x00]]"
  have s: "ws_inbuf (cn_framer (sample_conn (ws_new True 3 '''') ?cs)) @ concat ?cs = sent_texts [''hi'', ''''] (ws_new False 7 '''')" by code_simp
  have p: "peer_sends ?cs (sample_conn (ws_new True 3 '''') ?cs)" by (rule sample_conn) simp
  have f: "\<forall>m \<in> set [''hi'', '''']. length m < 2 ^ 63" by simp
  have n: "Suc (length [''hi'', '''']) = 3" by simp
  show ?thesis using ws_messages_received [OF p s f, unfolded n] by blast
qed


section \<open>Header blocks\<close>

lemma crlf_simps [simp]: "length crlf = 2" "crlf \<noteq> ''''"
  by (simp_all add: crlf_def)

lemma line_end_clean: "CHR 0x0D \<notin> set u \<Longrightarrow> line_end (u @ crlf @ v) = length u"
  using find_at_clean [of "CHR 0x0D" u "[CHR 0x0A]" v 0] by (simp add: line_end_def str_find_def crlf_def)

lemma header_value_line:
  assumes "CHR 0x0D \<notin> set u"
  shows "header_value (u @ crlf @ v) name = (case header_line name u of Some x \<Rightarrow> Some x | None \<Rightarrow> header_value v name)"
  by (subst header_value.simps) (simp add: line_end_clean [OF assms] cong: option.case_cong)

lemma header_iequals_refl [simp]: "header_iequals s s"
  by (simp add: header_iequals_def list.rel_refl)

lemma header_line_named:
  assumes "header_trim u = u" and "CHR '':'' \<notin> set u" and "header_iequals u name"
  shows "header_line name (u @ CHR '':'' # v) = Some (header_trim v)"
proof -
  have "takeWhile (\<lambda>c. c \<noteq> CHR '':'') (u @ CHR '':'' # v) = u" using assms(2) by (induction u) auto
  then have "find_char (u @ CHR '':'' # v) (CHR '':'') 0 = Some (length u)"
    by (simp add: find_char_def char_find_at_eq)
  then show ?thesis using assms by (simp add: header_line_def)
qed

lemma strip_Cons: "\<not> P c \<Longrightarrow> \<exists>t. strip P (c # s) = c # t"
  by (simp add: strip_def dropWhile_append3)

lemma header_trim_blank: "\<forall>c \<in> set s. \<not> isspace c \<Longrightarrow> header_trim s = s"
  unfolding header_trim_def by (rule strip_id) (metis hd_in_set last_in_set)

lemma header_trim_space:
  assumes "\<forall>c \<in> set s. \<not> isspace c"
  shows "header_trim (CHR '' '' # s) = s"
proof -
  have "isspace (CHR '' '')" by code_simp
  then have "header_trim (CHR '' '' # s) = header_trim s" by (simp add: header_trim_def strip_def)
  then show ?thesis using header_trim_blank [OF assms] by simp
qed

text \<open>A line whose name begins with another letter is not a line for the name.\<close>

lemma header_line_other:
  assumes "\<not> isspace c" and "c \<noteq> CHR '':''" and "tolower c \<noteq> tolower n"
  shows "header_line (n # name) (c # u) = None"
proof (cases "find_char (c # u) (CHR '':'') 0")
  case (Some i)
  then obtain j where i: "i = Suc j" using assms(2) by (auto simp: find_char_def char_find_at_eq split: if_splits)
  obtain t where "header_trim (take i (c # u)) = c # t"
    using strip_Cons [of isspace c "take j u"] assms(1) i by (auto simp: header_trim_def)
  then show ?thesis using Some assms(3) by (simp add: header_line_def header_iequals_def)
qed (simp add: header_line_def)

section \<open>Messages with a length header\<close>

lemma content_length_to_string:
  assumes "n < 2 ^ 63"
  shows "content_length (to_string n) = Some n"
proof -
  have d: "\<forall>c \<in> set (to_string n). isdigit c" by (rule to_string_digits)
  obtain c cs where s: "to_string n = c # cs" using to_string_nonempty [of n] by (cases "to_string n") auto
  have "\<not> isspace c \<and> c \<noteq> CHR ''-'' \<and> c \<noteq> CHR ''+''" using d s by (auto simp: isdigit_def isspace_def)
  moreover have "takeWhile (\<lambda>c. c \<noteq> CHR 0x00) (to_string n) = to_string n" using d by (auto simp: takeWhile_eq_all_conv isdigit_def)
  moreover have "takeWhile isdigit (to_string n) = to_string n" "dropWhile isdigit (to_string n) = ''''" using d by (auto simp: takeWhile_eq_all_conv dropWhile_eq_Nil_conv)
  ultimately show ?thesis using assms digits_val_to_string [of n] s
    by (simp add: content_length_def strtoll_def Let_def)
qed


lemma find_block_end:
  "CHR 0x0D \<notin> set u \<Longrightarrow> str_find (u @ crlf @ crlf @ v) (crlf @ crlf) 0 = Some (length u)"
  using find_at_clean [of "CHR 0x0D" u "CHR 0x0A # crlf" v 0] by (simp add: str_find_def crlf_def)

lemma hdr_next_block:
  assumes "CHR 0x0D \<notin> set u"
  shows "hdr_next (h\<lparr>hf_inbuf := u @ crlf @ crlf @ v, hf_broken := False\<rparr>) =
    (case header_line ''content-length'' u of
       None \<Rightarrow> hdr_refuse ''no Content-Length header in the message block'' (h\<lparr>hf_inbuf := u @ crlf @ crlf @ v, hf_broken := False\<rparr>)
     | Some text \<Rightarrow>
         (case content_length text of
            None \<Rightarrow> hdr_refuse (''Content-Length is not a length: `'' @ text @ ''`'') (h\<lparr>hf_inbuf := u @ crlf @ crlf @ v, hf_broken := False\<rparr>)
          | Some n \<Rightarrow> if length v < n then (NeedMore, '''', h\<lparr>hf_inbuf := u @ crlf @ crlf @ v, hf_broken := False\<rparr>)
              else (Message (take n v), '''', h\<lparr>hf_inbuf := drop n v, hf_broken := False\<rparr>)))"
proof -
  have "take (length u + 2) (u @ crlf @ crlf @ v) = u @ crlf" by simp
  moreover have "header_value '''' n = None" for n by (subst header_value.simps) simp
  then have "header_value (u @ crlf) ''content-length'' = header_line ''content-length'' u"
    using header_value_line [OF assms, of "''''" "''content-length''"] by (simp split: option.splits)
  ultimately show ?thesis
    by (simp add: hdr_next_def find_block_end [OF assms] hdr_refuse_def split: option.split)
qed

lemma hdr_next_encoded:
  assumes "length m < 2 ^ 63"
  shows "hdr_next (h\<lparr>hf_inbuf := encode_message m @ rest, hf_broken := False\<rparr>) = (Message m, '''', h\<lparr>hf_inbuf := rest, hf_broken := False\<rparr>)"
proof -
  let ?u = "''Content-Length: '' @ to_string (length m)"
  have d: "\<forall>c \<in> set (to_string (length m)). isdigit c" by (rule to_string_digits)
  then have clean: "CHR 0x0D \<notin> set ?u" and nospace: "\<forall>c \<in> set (to_string (length m)). \<not> isspace c"
    by (auto simp: isdigit_def isspace_def)
  have name: "header_trim ''Content-Length'' = ''Content-Length''" "header_iequals ''Content-Length'' ''content-length''" by code_simp+
  have "header_line ''content-length'' (''Content-Length'' @ CHR '':'' # CHR '' '' # to_string (length m)) = Some (to_string (length m))"
    using header_line_named [OF name(1) _ name(2), of "CHR '' '' # to_string (length m)"] header_trim_space [OF nospace] by simp
  then show ?thesis
    using hdr_next_block [OF clean, where h = h and v = "m @ rest"] content_length_to_string [OF assms] by (simp add: encode_message_def)
qed


lemma hdr_receive:
  assumes "\<forall>m \<in> set ms. length m < 2 ^ 63" and "\<not> cn_failed c" and "\<not> cn_eof c"
    and "cn_framer c = \<lparr>hf_inbuf = concat (map encode_message ms) @ rest, hf_broken = False\<rparr>"
  shows "receive (length ms + n) (recv hdr_next hdr_feed) c =
    (let (ns, r, d) = receive n (recv hdr_next hdr_feed) (c\<lparr>cn_framer := \<lparr>hf_inbuf = rest, hf_broken = False\<rparr>\<rparr>) in (ms @ ns, r, d))"
  using assms
proof (induction ms arbitrary: c)
  case Nil
  then have "c\<lparr>cn_framer := \<lparr>hf_inbuf = rest, hf_broken = False\<rparr>\<rparr> = c" by simp
  then show ?case by simp
next
  case (Cons m ms)
  let ?y = "\<lparr>hf_inbuf = concat (map encode_message ms) @ rest, hf_broken = False\<rparr>"
  have "hdr_next (cn_framer c) = (Message m, '''', ?y)"
    using hdr_next_encoded [where m = m and h = "cn_framer c" and rest = "concat (map encode_message ms) @ rest"] Cons.prems by simp
  from recv_Message [of hdr_next, OF this Cons.prems(2,3)]
  have r: "recv hdr_next hdr_feed c = (Received m, c\<lparr>cn_framer := ?y\<rparr>)" .
  have "receive (length ms + n) (recv hdr_next hdr_feed) (c\<lparr>cn_framer := ?y\<rparr>) =
      (let (ns, r, d) = receive n (recv hdr_next hdr_feed) (c\<lparr>cn_framer := \<lparr>hf_inbuf = rest, hf_broken = False\<rparr>\<rparr>) in (ms @ ns, r, d))"
    using Cons.IH [of "c\<lparr>cn_framer := ?y\<rparr>"] Cons.prems by simp
  then show ?case by (simp add: r split: prod.splits)
qed

text \<open>
  C38: framed messages arrive.  Bodies sent with a length header one after another are received as
  they are and in order, empty ones included, however the bytes are cut into reads; then the closed
  stream ends the receiving without an error.
\<close>

theorem hdr_messages_received:
  assumes "peer_sends chunks c" and "concat chunks = concat (map encode_message ms)"
    and "\<forall>m \<in> set ms. length m < 2 ^ 63" and "cn_framer c = hdr_new ''''"
  shows "\<exists>d. receive (length ms + 1) hdr_recv c = (ms, Some NotReceived, d) \<and> cn_eof d \<and> \<not> cn_failed d"
proof -
  let ?g = "c\<lparr>cn_framer := hdr_feed (concat chunks) (cn_framer c), cn_reads := [Some '''']\<rparr>"
  let ?e = "?g\<lparr>cn_framer := hdr_new ''''\<rparr>"
  have c: "\<not> cn_failed c" "\<not> cn_eof c" using assms(1) by (simp_all add: peer_sends_def)
  have "hdr_next (hdr_new '''') = (NeedMore, '''', hdr_new '''')" by code_simp
  then have e: "receive 1 (recv hdr_next hdr_feed) ?e = ([], Some NotReceived, ?e\<lparr>cn_eof := True, cn_reads := []\<rparr>)"
    using recv_at_end [of hdr_next ?e hdr_feed] c by simp
  have "receive (length ms + 1) (recv hdr_next hdr_feed) ?g = (ms, Some NotReceived, ?e\<lparr>cn_eof := True, cn_reads := []\<rparr>)"
    using hdr_receive [of ms ?g "''''" 1] e assms c by (simp add: hdr_feed_def hdr_new_def)
  from hdr.receive_stream [OF assms(1) this] show ?thesis using c by (auto simp: hdr_recv_def [abs_def])
qed

theorem hdr_messages_received_witness:
  "\<exists>d. receive 3 hdr_recv (sample_conn (hdr_new '''') [''Content-Length: 2'' @ [CHR 0x0D], [CHR 0x0A, CHR 0x0D, CHR 0x0A] @ ''{'', ''}Content-Length: 0'' @ crlf @ crlf])
    = ([''{}'', ''''], Some NotReceived, d) \<and> cn_eof d \<and> \<not> cn_failed d"
proof -
  let ?cs = "[''Content-Length: 2'' @ [CHR 0x0D], [CHR 0x0A, CHR 0x0D, CHR 0x0A] @ ''{'', ''}Content-Length: 0'' @ crlf @ crlf]"
  have s: "concat ?cs = concat (map encode_message [''{}'', ''''])" by code_simp
  have p: "peer_sends ?cs (sample_conn (hdr_new '''') ?cs)" by (rule sample_conn) simp
  have f: "\<forall>m \<in> set [''{}'', '''']. length m < 2 ^ 63" "cn_framer (sample_conn (hdr_new '''') ?cs) = hdr_new ''''"
    by (simp_all add: sample_conn_def)
  have n: "length [''{}'', ''''] + 1 = 3" by simp
  show ?thesis using hdr_messages_received [OF p s f, unfolded n] .
qed

section \<open>Header blocks of several lines\<close>

definition header_lines :: "string list \<Rightarrow> string" where
  "header_lines ls = concat (map (\<lambda>l. l @ crlf) ls)"

lemma find_at_skip: "c \<notin> set u \<Longrightarrow> find_at (c # p) (u @ s) i = find_at (c # p) s (i + length u)"
  by (induction u arbitrary: i) (auto simp: has_prefix_def)

lemma header_lines_find:
  assumes "\<forall>l \<in> set ls. CHR 0x0D \<notin> set l \<and> l \<noteq> ''''" and "ls \<noteq> []"
  shows "find_at (crlf @ crlf) (header_lines ls @ crlf @ v) i = Some (i + length (header_lines ls) - 2)"
  using assms
proof (induction ls arbitrary: i)
  case (Cons l ls)
  have l: "CHR 0x0D \<notin> set l" using Cons.prems by simp
  have skip: "find_at (crlf @ crlf) (l @ s) i = find_at (crlf @ crlf) s (i + length l)" for s
    using find_at_skip [OF l, of "CHR 0x0A # crlf" s i] by (simp add: crlf_def)
  show ?case
  proof (cases ls)
    case Nil
    then show ?thesis by (simp add: header_lines_def skip) (simp add: crlf_def has_prefix_def)
  next
    case (Cons k ks)
    then obtain c cs where k: "k = c # cs" "c \<noteq> CHR 0x0D" using Cons.prems by (cases k) auto
    have "header_lines ls @ crlf @ v = c # cs @ crlf @ header_lines ks @ crlf @ v" by (simp add: header_lines_def Cons k)
    then have "find_at (crlf @ crlf) (crlf @ header_lines ls @ crlf @ v) j = find_at (crlf @ crlf) (header_lines ls @ crlf @ v) (j + 2)" for j
      using k(2) by (simp add: crlf_def has_prefix_def)
    then show ?thesis using Cons.IH [of "i + length l + 2"] Cons.prems Cons skip [of "crlf @ header_lines ls @ crlf @ v"]
      by (simp add: header_lines_def)
  qed
qed simp

text \<open>
  A header as its peer writes it: a name and, after a colon, a value; without a value it is a line
  without a colon.  The length of a block is the value of its first header with that name, in any
  case and with any blanks around it.  A value is a length when, but for the blanks around it and
  what follows a NUL, it is a decimal numeral with at most a sign, and not below zero.
\<close>

fun header_text :: "string \<times> string option \<Rightarrow> string" where
  "header_text (n, None) = n"
| "header_text (n, Some v) = n @ CHR '':'' # v"

definition header_ok :: "string \<times> string option \<Rightarrow> bool" where
  "header_ok x \<longleftrightarrow> CHR '':'' \<notin> set (fst x) \<and> CHR 0x0D \<notin> set (header_text x) \<and> header_text x \<noteq> ''''"

fun length_header :: "(string \<times> string option) list \<Rightarrow> string option" where
  "length_header [] = None"
| "length_header ((n, None) # hs) = length_header hs"
| "length_header ((n, Some v) # hs) = (if map tolower (strip isspace n) = ''content-length'' then Some v else length_header hs)"

definition is_length :: "string \<Rightarrow> bool" where
  "is_length v =
     (case takeWhile (\<lambda>c. c \<noteq> CHR 0x00) (strip isspace v) of
        [] \<Rightarrow> False
      | c # ds \<Rightarrow>
          if c = CHR ''-'' then ds \<noteq> '''' \<and> list_all (\<lambda>d. d = CHR ''0'') ds
          else if c = CHR ''+'' then ds \<noteq> '''' \<and> list_all isdigit ds
          else isdigit c \<and> list_all isdigit ds)"

lemma header_iequals_lower: "header_iequals a b \<longleftrightarrow> map tolower a = map tolower b"
proof -
  have "list_all2 (=) (map tolower a) (map tolower b) \<longleftrightarrow> header_iequals a b"
    by (simp only: header_iequals_def list_all2_map1 list_all2_map2)
  then show ?thesis by (simp only: list.rel_eq)
qed

lemma header_line_text:
  assumes "header_ok x"
  shows "header_line ''content-length'' (header_text x) = map_option header_trim (length_header [x])"
proof -
  obtain n v where x: "x = (n, v)" by (cases x)
  have n: "CHR '':'' \<notin> set n" using assms x by (simp add: header_ok_def)
  show ?thesis
  proof (cases v)
    case None
    have "find_char n (CHR '':'') 0 = None" using n by (auto simp: find_char_def char_find_at_eq)
    then show ?thesis using None x by (simp add: header_line_def)
  next
    case (Some s)
    have "takeWhile (\<lambda>c. c \<noteq> CHR '':'') (n @ CHR '':'' # s) = n" using n by (induction n) auto
    then have f: "find_char (n @ CHR '':'' # s) (CHR '':'') 0 = Some (length n)"
      by (simp add: find_char_def char_find_at_eq)
    have "map tolower ''content-length'' = ''content-length''" by code_simp
    then show ?thesis using Some x f
      by (simp only: header_line_def header_text.simps f option.case header_iequals_lower) (simp add: header_trim_def)
  qed
qed

lemma header_value_lines:
  assumes "\<forall>x \<in> set hs. header_ok x"
  shows "header_value (header_lines (map header_text hs)) ''content-length'' = map_option header_trim (length_header hs)"
  using assms
proof (induction hs)
  case Nil
  then show ?case by (subst header_value.simps) (simp add: header_lines_def)
next
  case (Cons x hs)
  have x: "header_ok x" and cr: "CHR 0x0D \<notin> set (header_text x)" using Cons.prems by (auto simp: header_ok_def)
  have "header_lines (map header_text (x # hs)) = header_text x @ crlf @ header_lines (map header_text hs)"
    by (simp add: header_lines_def)
  moreover have "length_header (x # hs) = (case length_header [x] of None \<Rightarrow> length_header hs | Some v \<Rightarrow> Some v)"
    by (cases x; cases "snd x") auto
  ultimately show ?case using header_value_line [OF cr] header_line_text [OF x] Cons by (simp split: option.split)
qed

lemma digits_val_zero: "\<forall>c \<in> set ds. isdigit c \<Longrightarrow> digits_val 0 ds = 0 \<Longrightarrow> c \<in> set ds \<Longrightarrow> c = CHR ''0''"
proof -
  have pos: "digits_val acc ds \<noteq> 0" if "acc \<noteq> 0" for acc ds
    using that by (induction ds arbitrary: acc) (simp_all add: digits_val_def)
  have zero: "\<forall>c \<in> set ds. isdigit c \<Longrightarrow> digits_val 0 ds = 0 \<Longrightarrow> \<forall>c \<in> set ds. digit_val c = 0" for ds
  proof (induction ds)
    case (Cons d ds)
    have "digits_val 0 (d # ds) = digits_val (digit_val d) ds" by (simp add: digits_val_def)
    then have "digit_val d = 0" using Cons.prems pos by metis
    then show ?case using Cons by (simp add: digits_val_def)
  qed simp
  assume a: "\<forall>c \<in> set ds. isdigit c" "digits_val 0 ds = 0" "c \<in> set ds"
  then have "digit_val c = 0" "isdigit c" using zero by blast+
  then have "byte c = byte (CHR ''0'')" by (simp add: digit_val_def isdigit_def)
  then show "c = CHR ''0''" by (simp only: of_char_eq_iff)
qed

lemma content_length_refused:
  assumes "\<not> is_length v"
  shows "content_length (header_trim v) = None"
proof -
  define u where "u = takeWhile (\<lambda>c. c \<noteq> CHR 0x00) (strip isspace v)"
  show ?thesis
  proof (cases u)
    case Nil
    then show ?thesis by (simp add: content_length_def strtoll_def header_trim_def flip: u_def)
  next
    case (Cons c ds)
    have "strip isspace v \<noteq> ''''" and c: "hd (strip isspace v) = c" using Cons u_def by (cases "strip isspace v"; auto split: if_splits)+
    then have sp: "\<not> isspace c" using strip_hd_last [of isspace v] by simp
    define s2 where "s2 = (if c = CHR ''-'' \<or> c = CHR ''+'' then ds else c # ds)"
    let ?v = "if c = CHR ''-'' then - int (digits_val 0 (takeWhile isdigit s2)) else int (digits_val 0 (takeWhile isdigit s2))"
    have st: "strtoll u = (if takeWhile isdigit s2 = [] then None
        else Some (max (- (2 ^ 63)) (min (2 ^ 63 - 1) ?v), dropWhile isdigit s2))"
      using sp by (simp add: strtoll_def Cons Let_def s2_def)
    have cl: "content_length (header_trim v) = (case strtoll u of None \<Rightarrow> None | Some (x, stop) \<Rightarrow> if stop \<noteq> '''' \<or> x < 0 then None else Some (nat x))"
      by (simp add: content_length_def header_trim_def u_def)
    show ?thesis
    proof (cases "s2 \<noteq> '''' \<and> (\<forall>d \<in> set s2. isdigit d)")
      case False
      then show ?thesis by (auto simp: cl st dropWhile_eq_Nil_conv takeWhile_eq_all_conv)
    next
      case True
      then have tw: "takeWhile isdigit s2 = s2" "dropWhile isdigit s2 = ''''" by (auto simp: takeWhile_eq_all_conv)
      have neg: "c = CHR ''-''" and nz: "\<not> list_all (\<lambda>d. d = CHR ''0'') ds"
        using assms True unfolding is_length_def u_def [symmetric] Cons
        by (auto simp: s2_def list_all_iff split: if_splits)
      have "ds = s2" using neg by (simp add: s2_def)
      then have "digits_val 0 s2 \<noteq> 0" using digits_val_zero [of s2] True nz by (auto simp: list_all_iff)
      then show ?thesis using neg True by (simp add: cl st tw)
    qed
  qed
qed

lemma hdr_next_refused:
  assumes ok: "\<forall>x \<in> set hs. header_ok x" and ne: "hs \<noteq> []"
    and bad: "case length_header hs of None \<Rightarrow> True | Some v \<Rightarrow> \<not> is_length v"
    and h: "h = \<lparr>hf_inbuf = header_lines (map header_text hs) @ crlf @ junk, hf_broken = False\<rparr>"
  shows "\<exists>why. hdr_next h = hdr_refuse why h \<and> why \<noteq> ''''"
proof -
  let ?b = "header_lines (map header_text hs)"
  have "\<forall>l \<in> set (map header_text hs). CHR 0x0D \<notin> set l \<and> l \<noteq> ''''" using ok by (auto simp: header_ok_def)
  then have f: "str_find (hf_inbuf h) (crlf @ crlf) 0 = Some (length ?b - 2)"
    using header_lines_find [of "map header_text hs" junk 0] ne h by (simp add: str_find_def)
  have "2 \<le> length ?b" using ne by (cases hs) (simp_all add: header_lines_def)
  then have t: "take (length ?b - 2 + 2) (hf_inbuf h) = ?b" using h by simp
  have b: "hf_broken h = False" using h by simp
  show ?thesis
  proof (cases "length_header hs")
    case None
    have "hdr_next h = hdr_refuse ''no Content-Length header in the message block'' h"
      by (simp only: hdr_next_def f t b None header_value_lines [OF ok] option.case option.map if_False)
    then show ?thesis by blast
  next
    case (Some v)
    have r: "content_length (header_trim v) = None" using bad Some content_length_refused by simp
    have "hdr_next h = hdr_refuse (''Content-Length is not a length: `'' @ header_trim v @ ''`'') h"
      by (simp only: hdr_next_def f t b Some r header_value_lines [OF ok] option.case option.map if_False)
    then show ?thesis by blast
  qed
qed

text \<open>
  C39: a header block without a usable length ends the stream.  Whatever lines the block has, if
  none of them is a length header or the first that is has no length as its value, what was sent
  before the block is still received; then the receiving fails with the reason, and nothing after
  it is ever taken for a message.
\<close>

theorem hdr_refused_block_ends:
  assumes "peer_sends chunks c" and "concat chunks = concat (map encode_message ms) @ header_lines (map header_text hs) @ crlf @ junk"
    and "\<forall>m \<in> set ms. length m < 2 ^ 63" and "cn_framer c = hdr_new ''''"
    and "\<forall>x \<in> set hs. header_ok x" and "hs \<noteq> []"
    and "case length_header hs of None \<Rightarrow> True | Some v \<Rightarrow> \<not> is_length v"
  shows "\<exists>d why. receive (length ms + Suc n) hdr_recv c = (ms, Some NotReceived, d) \<and> cn_failed d
    \<and> cn_error d = ''framed read failed: '' @ why \<and> why \<noteq> '''' \<and> hdr_recv d = (NotReceived, d)"
proof -
  let ?b = "header_lines (map header_text hs) @ crlf @ junk"
  let ?g = "c\<lparr>cn_framer := hdr_feed (concat chunks) (cn_framer c), cn_reads := [Some '''']\<rparr>"
  let ?h = "\<lparr>hf_inbuf = ?b, hf_broken = False\<rparr>"
  let ?e = "?g\<lparr>cn_framer := ?h\<rparr>"
  have c: "\<not> cn_failed c" "\<not> cn_eof c" using assms(1) by (simp_all add: peer_sends_def)
  obtain why where h: "hdr_next ?h = hdr_refuse why ?h" and why: "why \<noteq> ''''"
    using hdr_next_refused [OF assms(5-7) refl, of junk] by blast
  let ?d = "set_state_error (''framed read failed: '' @ why) (?e\<lparr>cn_framer := ?h\<lparr>hf_broken := True\<rparr>, cn_eof := True\<rparr>)"
  have "recv hdr_next hdr_feed ?e = (NotReceived, ?d)"
    using c h why by (simp add: recv_def) (subst recv_loop.simps, simp add: hdr_refuse_def set_state_error_def)
  then have e: "receive (Suc n) (recv hdr_next hdr_feed) ?e = ([], Some NotReceived, ?d)" by simp
  have stuck: "recv hdr_next hdr_feed d = (NotReceived, d)" if "cn_failed d" for d by (simp add: recv_def that)
  have "receive (length ms + Suc n) (recv hdr_next hdr_feed) ?g = (ms, Some NotReceived, ?d)"
    using hdr_receive [of ms ?g ?b "Suc n"] e assms c by (simp add: hdr_feed_def hdr_new_def)
  from hdr.receive_stream [OF assms(1) this] show ?thesis using why stuck by (auto simp: hdr_recv_def [abs_def] set_state_error_def)
qed

theorem hdr_refused_block_ends_witness:
  "\<exists>d. receive 2 hdr_recv (sample_conn (hdr_new '''') [''Content-Length: 1'' @ crlf @ crlf @ ''x'',
      ''Content-Type: text'' @ crlf @ '' CONTENT-length : -1'' @ crlf @ crlf @ ''y''])
    = ([''x''], Some NotReceived, d) \<and> cn_failed d"
proof -
  let ?cs = "[''Content-Length: 1'' @ crlf @ crlf @ ''x'', ''Content-Type: text'' @ crlf @ '' CONTENT-length : -1'' @ crlf @ crlf @ ''y'']"
  let ?hs = "[(''Content-Type'', Some '' text''), ('' CONTENT-length '', Some '' -1'')]"
  have s: "concat ?cs = concat (map encode_message [''x'']) @ header_lines (map header_text ?hs) @ crlf @ ''y''" by code_simp
  have p: "peer_sends ?cs (sample_conn (hdr_new '''') ?cs)" by (rule sample_conn) simp
  have f: "\<forall>m \<in> set [''x'']. length m < 2 ^ 63" "cn_framer (sample_conn (hdr_new '''') ?cs) = hdr_new ''''"
    by (simp_all add: sample_conn_def)
  have h: "\<forall>x \<in> set ?hs. header_ok x" "?hs \<noteq> []" by (simp_all add: header_ok_def)
  have bad: "case length_header ?hs of None \<Rightarrow> True | Some v \<Rightarrow> \<not> is_length v" by code_simp
  have n: "length [''x''] + Suc 0 = 2" by simp
  show ?thesis using hdr_refused_block_ends [OF p s f h bad, of 0, unfolded n] by blast
qed

end
