(* ===== verification/WebSocketRuns.thy ===== *)
theory WebSocketRuns
  imports FramerProps
begin

text \<open>
  More of the WebSocket framer: messages in fragments with control frames between them, the
  frames whose length is beyond memory, and the handshake of client and server.
\<close>

unbundle bit_operations_syntax

section \<open>Fragments\<close>

text \<open>What may stand between the first and the last fragment of a message, each with its mask.\<close>

datatype frame_part = Piece string | Ping string | Pong string

fun part_frame :: "string option \<times> frame_part \<Rightarrow> string" where
  "part_frame (key, Piece p) = peer_frame False 0 key p"
| "part_frame (key, Ping p) = peer_frame True 9 key p"
| "part_frame (key, Pong p) = peer_frame True 10 key p"

fun part_data :: "frame_part \<Rightarrow> string" where
  "part_data (Piece p) = p" | "part_data (Ping p) = p" | "part_data (Pong p) = p"

definition parts_ok :: "(string option \<times> frame_part) list \<Rightarrow> bool" where
  "parts_ok ps \<longleftrightarrow> (\<forall>(key, p) \<in> set ps. mask_key key \<and> length (part_data p) < 2 ^ 63)"

definition pieces :: "(string option \<times> frame_part) list \<Rightarrow> string" where
  "pieces ps = concat (map (\<lambda>(_, p). case p of Piece s \<Rightarrow> s | _ \<Rightarrow> '''') ps)"

text \<open>
  The answers to the pings: a final frame with the payload, masked by a client with the next four
  bytes of its generator, and unmasked by a server; and the generator after them.
\<close>

fun pongs :: "bool \<Rightarrow> 32 word \<Rightarrow> (string option \<times> frame_part) list \<Rightarrow> string" where
  "pongs client g [] = ''''"
| "pongs client g ((_, Ping d) # ps) =
     (if client then peer_frame True 10 (Some (fst (lcg_bytes 4 g))) d @ pongs client (snd (lcg_bytes 4 g)) ps
      else peer_frame True 10 None d @ pongs client g ps)"
| "pongs client g (_ # ps) = pongs client g ps"

fun mask_after :: "bool \<Rightarrow> 32 word \<Rightarrow> (string option \<times> frame_part) list \<Rightarrow> 32 word" where
  "mask_after client g [] = g"
| "mask_after client g ((_, Ping d) # ps) = mask_after client (if client then snd (lcg_bytes 4 g) else g) ps"
| "mask_after client g (_ # ps) = mask_after client g ps"

lemma pongs_Cons:
  "pongs client g ((key, p) # ps) = pongs client g [(key, p)] @ pongs client (mask_after client g [(key, p)]) ps"
  "mask_after client g ((key, p) # ps) = mask_after client (mask_after client g [(key, p)]) ps"
  by (cases p; simp del: lcg_bytes.simps)+

lemma encode_pong:
  "encode_frame 10 d w = (pongs (ws_client w) (ws_mask_state w) [(key, Ping d)],
     w\<lparr>ws_mask_state := mask_after (ws_client w) (ws_mask_state w) [(key, Ping d)]\<rparr>)"
proof -
  have "snd (encode_frame 10 d w) = w\<lparr>ws_mask_state := mask_after (ws_client w) (ws_mask_state w) [(key, Ping d)]\<rparr>"
    by (simp add: encode_frame_def Let_def del: lcg_bytes.simps split: prod.split)
  then show ?thesis using encode_frame_peer [of 10 d w] by (cases "encode_frame 10 d w") (simp del: lcg_bytes.simps)
qed

lemma ws_next_parts:
  assumes "parts_ok ps"
  shows "ws_next_from s (w\<lparr>ws_inbuf := concat (map part_frame ps) @ rest\<rparr>)
    = ws_next_from (s @ pongs (ws_client w) (ws_mask_state w) ps)
        (w\<lparr>ws_inbuf := rest, ws_fragment := ws_fragment w @ pieces ps, ws_mask_state := mask_after (ws_client w) (ws_mask_state w) ps\<rparr>)"
  using assms
proof (induction ps arbitrary: s w)
  case Nil
  then show ?case by (simp add: pieces_def)
next
  case (Cons a ps)
  obtain key p where a: "a = (key, p)" by (cases a)
  have k: "mask_key key" and l: "length (part_data p) < 2 ^ 63" and ps: "parts_ok ps" using Cons.prems a by (auto simp: parts_ok_def)
  let ?rest = "concat (map part_frame ps) @ rest" and ?client = "ws_client w" and ?g = "ws_mask_state w"
  let ?w = "w\<lparr>ws_fragment := ws_fragment w @ pieces [a], ws_mask_state := mask_after ?client ?g [a]\<rparr>"
  have "ws_next_from s (w\<lparr>ws_inbuf := part_frame a @ ?rest\<rparr>) = ws_next_from (s @ pongs ?client ?g [a]) (?w\<lparr>ws_inbuf := ?rest\<rparr>)"
  proof (cases p)
    case (Piece d)
    have order: "w\<lparr>ws_inbuf := x, ws_fragment := y\<rparr> = w\<lparr>ws_fragment := y, ws_inbuf := x\<rparr>" for x y by simp
    from Piece show ?thesis
      using ws_next_peer [OF _ k, where opcode = 0 and data = d and fin = False and s = s and w = w and rest = ?rest] l a
      by (auto simp: ws_handle_def pieces_def Let_def order)
  next
    case (Ping d)
    have order: "w\<lparr>ws_inbuf := x, ws_mask_state := y\<rparr> = w\<lparr>ws_mask_state := y, ws_inbuf := x\<rparr>" for x y by simp
    from Ping show ?thesis
      using ws_next_peer [OF _ k, where opcode = 9 and data = d and fin = True and s = s and w = w and rest = ?rest] l a
      by (auto simp: ws_handle_def pieces_def encode_pong [of d _ key] Let_def order simp del: lcg_bytes.simps)
  next
    case (Pong d)
    then show ?thesis
      using ws_next_peer [OF _ k, where opcode = 10 and data = d and fin = True and s = s and w = w and rest = ?rest] l a
      by (auto simp: ws_handle_def pieces_def Let_def)
  qed
  also have "\<dots> = ws_next_from (s @ pongs ?client ?g (a # ps))
      (w\<lparr>ws_inbuf := rest, ws_fragment := ws_fragment w @ pieces (a # ps), ws_mask_state := mask_after ?client ?g (a # ps)\<rparr>)"
    unfolding a pongs_Cons(1) [of ?client ?g key p ps] pongs_Cons(2) [of ?client ?g key p ps]
    by (subst Cons.IH [OF ps]) (simp add: pieces_def del: pongs.simps mask_after.simps)
  finally show ?case by simp
qed

text \<open>
  C37: a message in fragments, for a client and for a server.  The fragments of a message are put
  together in order, pings and pongs between them notwithstanding; each ping is answered by a pong
  with its payload, masked by a client with the next key of its generator and unmasked by a server;
  and the framer is ready for the next message.
\<close>

theorem ws_fragments_assembled:
  assumes "parts_ok ps" and "mask_key k0" and "mask_key k1"
    and "length d0 < 2 ^ 63" and "length d1 < 2 ^ 63" and "opcode = 1 \<or> opcode = 2"
  shows "ws_next (w\<lparr>ws_inbuf := peer_frame False opcode k0 d0 @ concat (map part_frame ps) @ peer_frame True 0 k1 d1 @ rest\<rparr>)
    = (Message (d0 @ pieces ps @ d1), pongs (ws_client w) (ws_mask_state w) ps,
       w\<lparr>ws_inbuf := rest, ws_fragment := '''', ws_frag_opcode := 0, ws_mask_state := mask_after (ws_client w) (ws_mask_state w) ps\<rparr>)"
proof -
  let ?r1 = "peer_frame True 0 k1 d1 @ rest" and ?r0 = "concat (map part_frame ps) @ peer_frame True 0 k1 d1 @ rest"
  let ?w = "w\<lparr>ws_fragment := d0, ws_frag_opcode := opcode\<rparr>"
  let ?out = "pongs (ws_client w) (ws_mask_state w) ps" and ?g = "mask_after (ws_client w) (ws_mask_state w) ps"
  have "ws_next (w\<lparr>ws_inbuf := peer_frame False opcode k0 d0 @ ?r0\<rparr>)
      = ws_next_from '''' (w\<lparr>ws_inbuf := ?r0, ws_fragment := d0, ws_frag_opcode := opcode\<rparr>)"
    using ws_next_peer [OF _ assms(2), where opcode = opcode and data = d0 and fin = False and s = "''''" and w = w and rest = ?r0] assms(4,6)
    by (auto simp: ws_next_def ws_handle_def Let_def)
  also have "w\<lparr>ws_inbuf := ?r0, ws_fragment := d0, ws_frag_opcode := opcode\<rparr> = ?w\<lparr>ws_inbuf := ?r0\<rparr>" by simp
  also have "ws_next_from '''' \<dots> = ws_next_from ?out (?w\<lparr>ws_inbuf := ?r1, ws_fragment := d0 @ pieces ps, ws_mask_state := ?g\<rparr>)"
    using ws_next_parts [OF assms(1), where w = ?w and s = "''''" and rest = ?r1] by simp
  also have "?w\<lparr>ws_inbuf := ?r1, ws_fragment := d0 @ pieces ps, ws_mask_state := ?g\<rparr>
      = ?w\<lparr>ws_fragment := d0 @ pieces ps, ws_mask_state := ?g, ws_inbuf := ?r1\<rparr>" by simp
  also have "ws_next_from ?out \<dots> = (Message (d0 @ pieces ps @ d1), ?out, w\<lparr>ws_inbuf := rest, ws_fragment := '''', ws_frag_opcode := 0, ws_mask_state := ?g\<rparr>)"
    using ws_next_peer [OF _ assms(3), where opcode = 0 and data = d1 and fin = True and s = ?out
        and w = "?w\<lparr>ws_fragment := d0 @ pieces ps, ws_mask_state := ?g\<rparr>" and rest = rest] assms(5)
    by (auto simp: ws_handle_def Let_def)
  finally show ?thesis .
qed

text \<open>A server and a client that get fragments around a ping.\<close>

theorem ws_fragments_assembled_witness:
  "ws_next (ws_new False 7 (peer_frame False 1 None ''ab'' @ part_frame (None, Ping ''p'') @ part_frame (None, Piece ''cd'') @ peer_frame True 0 None ''e'' @ ''''))
    = (Message ''abcde'', peer_frame True 10 None ''p'', ws_new False 7 '''')
  \<and> fst (snd (ws_next (ws_new True 7 (peer_frame False 1 None ''ab'' @ part_frame (None, Ping ''p'') @ peer_frame True 0 None ''e'' @ ''''))))
    = peer_frame True 10 (Some (fst (lcg_bytes 4 (ws_mask_state (ws_new True 7 ''''))))) ''p''"
proof
  have ok: "parts_ok [(None, Ping ''p''), (None, Piece ''cd'')]" "parts_ok [(None, Ping ''p'')]"
    by (simp_all add: parts_ok_def mask_key_def)
  show "ws_next (ws_new False 7 (peer_frame False 1 None ''ab'' @ part_frame (None, Ping ''p'') @ part_frame (None, Piece ''cd'') @ peer_frame True 0 None ''e'' @ ''''))
    = (Message ''abcde'', peer_frame True 10 None ''p'', ws_new False 7 '''')"
    using ws_fragments_assembled [OF ok(1), where w = "ws_new False 7 ''''" and ?k0.0 = None and ?k1.0 = None
        and ?d0.0 = "''ab''" and ?d1.0 = "''e''" and opcode = 1 and rest = "''''"]
    by (simp add: ws_new_def mask_key_def pieces_def)
  show "fst (snd (ws_next (ws_new True 7 (peer_frame False 1 None ''ab'' @ part_frame (None, Ping ''p'') @ peer_frame True 0 None ''e'' @ ''''))))
    = peer_frame True 10 (Some (fst (lcg_bytes 4 (ws_mask_state (ws_new True 7 ''''))))) ''p''"
    using ws_fragments_assembled [OF ok(2), where w = "ws_new True 7 ''''" and ?k0.0 = None and ?k1.0 = None
        and ?d0.0 = "''ab''" and ?d1.0 = "''e''" and opcode = 1 and rest = "''''"]
    by (simp add: ws_new_def mask_key_def pieces_def del: lcg_bytes.simps)
qed

section \<open>Lengths beyond memory\<close>

text \<open>
  The end of a frame is computed in 64 bits.  A length close to \<open>2 ^ 64\<close> wraps around to the
  front of the buffer, the test that waits for the payload passes, and making room for it throws:
  ten bytes of a peer raise an exception in the reader.
\<close>

lemma huge_length_throws:
  assumes "2 ^ 64 - 10 \<le> n" and "n < 2 ^ 64"
  shows "ws_next (ws_new False t (CHR 0x82 # CHR 0x7F # be_bytes 8 n)) =
    (Threw (Thrown ''length_error''), '''', ws_new False t (CHR 0x82 # CHR 0x7F # be_bytes 8 n))"
proof -
  let ?buf = "CHR 0x82 # CHR 0x7F # be_bytes 8 n"
  have b: "(127::nat) AND 127 = 127" "\<not> bit (127::nat) 7" "bit (130::nat) 7" "(130::nat) AND 15 = 2" by code_simp+
  have "be_value (be_bytes 8 n) = n" by (rule be_value_be_bytes) (use assms in simp)
  then have "read_head ?buf = Some \<lparr>fh_fin = True, fh_opcode = 2, fh_mask = None, fh_len = n, fh_pos = 10\<rparr>"
    using b by (simp add: read_head_def wide_bytes_def)
  moreover have "\<not> length ?buf < (10 + n) mod 2 ^ 64" "string_max_size < n"
    using assms by (simp_all add: string_max_size_def mod_if) linarith
  ultimately have "read_frame ?buf = FrameThrow" by (simp add: read_frame_def)
  then show ?thesis by (simp add: ws_next_def ws_new_def ws_next_from.simps)
qed


section \<open>The handshake\<close>

lemma low_less: "(x::nat) AND 0x3F < 64" "(x::nat) AND 0x0F < 16" "(x::nat) AND 0x03 < 4"
  using take_bit_nat_less_exp [of 6 x] take_bit_nat_less_exp [of 4 x] take_bit_nat_less_exp [of 2 x]
  by (simp_all add: take_bit_eq_mask mask_eq_exp_minus_1)

lemma or_less_64: "(x::nat) < 64 \<Longrightarrow> y < 64 \<Longrightarrow> x OR y < 64"
proof -
  assume "x < 64" "y < 64"
  then have "take_bit 6 (x OR y) = x OR y" by (simp add: take_bit_nat_eq_self)
  then show ?thesis using take_bit_nat_less_exp [of 6 "x OR y"] by (simp del: take_bit_or)
qed

definition b64_text :: "string \<Rightarrow> bool" where
  "b64_text s \<longleftrightarrow> set s \<subseteq> set b64_chars \<union> {CHR ''=''}"

lemma b64_nth: "i < 64 \<Longrightarrow> b64_chars ! i \<in> set b64_chars"
  by (rule nth_mem) (simp add: b64_chars_def)

lemma b64_group_text: "b64_text (b64_group r x y z)"
proof -
  have "push_bit 4 (x AND 0x03) < 64" "push_bit 2 (y AND 0x0F) < 64" using low_less(3) [of x] low_less(2) [of y] by (simp_all add: push_bit_eq_mult)
  moreover have "drop_bit 4 y AND 0x0F < 64" "drop_bit 6 z AND 0x03 < 64" using low_less(2,3) by (meson less_trans numeral_less_iff semiring_norm)+
  ultimately show ?thesis using low_less(1) or_less_64 by (simp add: b64_text_def b64_group_def b64_nth)
qed

lemma base64_text: "b64_text (base64_encode s)"
  by (induction s rule: base64_encode.induct) (use b64_group_text in \<open>auto simp: b64_text_def\<close>)

lemma base64_nonempty: "base64_encode (c # s) \<noteq> ''''"
  by (cases s; cases "tl s") (auto simp: b64_group_def)

lemma b64_clean: "b64_text s \<Longrightarrow> \<forall>c \<in> set s. \<not> isspace c"
proof -
  have "\<forall>c \<in> set b64_chars. \<not> isspace c" "\<not> isspace (CHR ''='')" by code_simp+
  then show "b64_text s \<Longrightarrow> \<forall>c \<in> set s. \<not> isspace c" by (auto simp: b64_text_def)
qed

lemma no_space_no_cr: "\<forall>c \<in> set s. \<not> isspace c \<Longrightarrow> CHR 0x0D \<notin> set s"
proof -
  have "isspace (CHR 0x0D)" by code_simp
  then show "\<forall>c \<in> set s. \<not> isspace c \<Longrightarrow> CHR 0x0D \<notin> set s" by blast
qed

lemma skip_line:
  assumes "CHR 0x0D \<notin> set u" and "\<not> isspace c" and "c \<noteq> CHR '':''" and "tolower c \<noteq> tolower n" and "c \<noteq> CHR 0x0D"
  shows "header_value (c # u @ crlf @ v) (n # name) = header_value v (n # name)"
  using header_value_line [of "c # u" v "n # name"] header_line_other [OF assms(2-4), of name u] assms(1,5) by simp

lemma take_line:
  assumes "header_trim u = u" and "CHR '':'' \<notin> set u" and "CHR 0x0D \<notin> set u" and "header_iequals u name" and "\<forall>c \<in> set x. \<not> isspace c"
  shows "header_value (u @ CHR '':'' # CHR '' '' # x @ crlf @ v) name = Some x"
  using header_value_line [of "u @ CHR '':'' # CHR '' '' # x" v name] header_line_named [OF assms(1,2,4), of "CHR '' '' # x"]
    header_trim_space [OF assms(5)] assms(3) no_space_no_cr [OF assms(5)] by simp

lemmas ctype_eval = isspace_def tolower_def isupper_def header_trim_def header_iequals_def strip_def

lemma handshake_roles:
  assumes "websocket_client_request now counter resource host = (request, key, counter')"
    and "CHR 0x0D \<notin> set resource" and "CHR 0x0D \<notin> set host"
  shows "\<exists>response. websocket_server_handshake request = Inr response \<and> websocket_client_validate response key = None"
proof -
  let ?r = "if resource = '''' then ''/'' else resource" and ?h = "if host = '''' then ''localhost'' else host"
  obtain c cs where n: "fst (lcg_bytes 16 (now XOR (counter + 0x9E3779B9))) = c # cs" by (simp add: numeral_eq_Suc Let_def)
  have key: "key = base64_encode (c # cs)" using assms(1) n by (auto simp: websocket_client_request_def Let_def)
  have kc: "\<forall>c \<in> set key. \<not> isspace c" "key \<noteq> ''''" using b64_clean [OF base64_text] base64_nonempty key by simp_all
  let ?tail = "''Sec-WebSocket-Version: 13'' @ crlf @ crlf"
  let ?k = "''Sec-WebSocket-Key'' @ CHR '':'' # CHR '' '' # key @ crlf @ ?tail"
  have req: "request = CHR ''G'' # (''ET '' @ ?r @ '' HTTP/1.1'') @ crlf @ CHR ''H'' # (''ost: '' @ ?h) @ crlf
      @ ''Upgrade'' @ CHR '':'' # CHR '' '' # ''websocket'' @ crlf @ CHR ''C'' # ''onnection: Upgrade'' @ crlf @ ?k"
    using assms(1) n key by (auto simp: websocket_client_request_def Let_def)
  have G: "header_value (CHR ''G'' # (''ET '' @ ?r @ '' HTTP/1.1'') @ crlf @ v) (n # name) = header_value v (n # name)"
    if "tolower (CHR ''G'') \<noteq> tolower n" for n name v
    by (rule skip_line [OF _ _ _ that]) (use assms(2) in \<open>simp_all add: ctype_eval\<close>)
  have H: "header_value (CHR ''H'' # (''ost: '' @ ?h) @ crlf @ v) (n # name) = header_value v (n # name)"
    if "tolower (CHR ''H'') \<noteq> tolower n" for n name v
    by (rule skip_line [OF _ _ _ that]) (use assms(3) in \<open>simp_all add: ctype_eval\<close>)
  have C: "header_value (CHR ''C'' # ''onnection: Upgrade'' @ crlf @ v) (n # name) = header_value v (n # name)"
    if "tolower (CHR ''C'') \<noteq> tolower n" for n name v
    by (rule skip_line [OF _ _ _ that]) (simp_all add: ctype_eval)
  have U: "header_value (''Upgrade'' @ CHR '':'' # CHR '' '' # ''websocket'' @ crlf @ v) ''upgrade'' = Some ''websocket''" for v
    by (rule take_line) code_simp+
  have U': "header_value (CHR ''U'' # ''pgrade: websocket'' @ crlf @ v) (n # name) = header_value v (n # name)"
    if "tolower (CHR ''U'') \<noteq> tolower n" for n name v
    by (rule skip_line [OF _ _ _ that]) (simp_all add: ctype_eval)
  have U'': "header_value (''Upgrade'' @ CHR '':'' # CHR '' '' # ''websocket'' @ crlf @ v) (n # name) = header_value v (n # name)"
    if "tolower (CHR ''U'') \<noteq> tolower n" for n name v
    using U' [OF that] by simp
  have K: "header_value ?k ''sec-websocket-key'' = Some key"
    by (rule take_line [OF _ _ _ _ kc(1)]) code_simp+
  have up: "header_value request ''upgrade'' = Some ''websocket''"
    unfolding req by (subst G, code_simp, subst H, code_simp, rule U)
  have ks: "header_value request ''sec-websocket-key'' = Some key"
    unfolding req by (subst G, code_simp, subst H, code_simp, subst U'', code_simp, subst C, code_simp, rule K)
  let ?resp = "CHR ''H'' # ''TTP/1.1 101 Switching Protocols'' @ crlf @ CHR ''U'' # ''pgrade: websocket'' @ crlf @ CHR ''C'' # ''onnection: Upgrade'' @ crlf
      @ ''Sec-WebSocket-Accept'' @ CHR '':'' # CHR '' '' # websocket_accept_token key @ crlf @ crlf"
  have trim: "header_trim key = key" by (rule header_trim_blank [OF kc(1)])
  have resp: "websocket_server_handshake request = Inr ?resp"
  proof -
    have "header_iequals (header_trim ''websocket'') ''websocket''" by code_simp
    then show ?thesis using kc(2) by (simp add: websocket_server_handshake_def switch_response_def up ks trim)
  qed
  have tc: "\<forall>c \<in> set (websocket_accept_token key). \<not> isspace c"
    unfolding websocket_accept_token_def by (rule b64_clean [OF base64_text])
  have S: "header_value (CHR ''H'' # ''TTP/1.1 101 Switching Protocols'' @ crlf @ v) ''sec-websocket-accept'' = header_value v ''sec-websocket-accept''" for v
    by (rule skip_line) code_simp+
  have A: "header_value (''Sec-WebSocket-Accept'' @ CHR '':'' # CHR '' '' # websocket_accept_token key @ crlf @ crlf) ''sec-websocket-accept''
      = Some (websocket_accept_token key)"
    by (rule take_line [OF _ _ _ _ tc]) code_simp+
  have "header_value ?resp ''sec-websocket-accept'' = Some (websocket_accept_token key)"
    by (subst S, subst U', code_simp, subst C, code_simp, rule A)
  moreover have "first_line ?resp = ''HTTP/1.1 101 Switching Protocols''"
    using line_end_clean [of "''HTTP/1.1 101 Switching Protocols''"] by (simp add: first_line_def)
  moreover have "str_find ''HTTP/1.1 101 Switching Protocols'' '' 101'' 0 \<noteq> None" by code_simp
  ultimately have "websocket_client_validate ?resp key = None"
    using header_trim_blank [OF tc] by (simp add: websocket_client_validate_def)
  then show ?thesis using resp by blast
qed

text \<open>
  C36: the handshake of the two roles agrees.  The server takes every request a client composes
  for a resource and a host without a carriage return, and the client takes the response of the
  server to it.
\<close>

theorem handshake_agrees:
  assumes "websocket_client_request now counter resource host = (request, key, counter')"
    and "CHR 0x0D \<notin> set resource" and "CHR 0x0D \<notin> set host"
  shows "\<exists>response. websocket_server_handshake request = Inr response \<and> websocket_client_validate response key = None"
  by (rule handshake_roles [OF assms])


theorem handshake_agrees_witness:
  "\<exists>response. websocket_server_handshake (fst (websocket_client_request 5 9 ''/x'' ''h'')) = Inr response
    \<and> websocket_client_validate response (fst (snd (websocket_client_request 5 9 ''/x'' ''h''))) = None"
proof -
  let ?q = "websocket_client_request 5 9 ''/x'' ''h''"
  have q: "?q = (fst ?q, fst (snd ?q), snd (snd ?q))" by simp
  show ?thesis by (rule handshake_agrees [OF q]) simp_all
qed

end
