(* ===== verification/ChannelObject.thy ===== *)
theory ChannelObject
  imports WebSocketRuns
begin

text \<open>
  The channel object, from \<^verbatim>\<open>src/madc_channel_object.cpp\<close>: one endpoint read and written as bytes,
  as lines, as WebSocket messages or as messages with a length header.  The endpoint is the list
  of what its reads will answer and the bytes written to it (\<^verbatim>\<open>MessageStream\<close>); a call that waits
  for more than there is answers \<open>Park\<close>, with the state it waits in.
\<close>

section \<open>The state\<close>

text \<open>
  The typed aliases of the framer.  At most one is meant to be set, but an upgrade to WebSocket does
  not look at the other (\<open>upgrade_keeps_header_framing\<close>).
\<close>

record framing =
  fr_ws :: "ws option"
  fr_hdr :: "hdr_framer option"

type_synonym chan = "framing conn"

datatype 'a io = Ret 'a | Park

definition no_framing :: framing where
  "no_framing = \<lparr>fr_ws = None, fr_hdr = None\<rparr>"

definition reframed :: "'a \<Rightarrow> 'b conn \<Rightarrow> 'a conn" where
  "reframed x c = \<lparr>cn_framer = x, cn_open = cn_open c, cn_pending = cn_pending c, cn_eof = cn_eof c, cn_failed = cn_failed c,
     cn_error = cn_error c, cn_reads = cn_reads c, cn_write_ok = cn_write_ok c, cn_sent = cn_sent c\<rparr>"

section \<open>The endpoint\<close>

text \<open>
  One read of the endpoint with room for \<open>cap\<close> bytes, or for whatever there is; one write of all
  of some bytes.  The loops below, whose buffers have 4096 bytes, take an answer of the endpoint
  whole: how the bytes are cut into answers is an argument.
\<close>

definition read_endpoint :: "nat option \<Rightarrow> 's conn \<Rightarrow> string option io \<times> 's conn" where
  "read_endpoint cap c =
     (case cn_reads c of
        [] \<Rightarrow> (Park, c)
      | None # rs \<Rightarrow> (Ret None, c\<lparr>cn_reads := rs, cn_failed := True\<rparr>)
      | Some chunk # rs \<Rightarrow>
          (case cap of
             None \<Rightarrow> (Ret (Some chunk), c\<lparr>cn_reads := rs\<rparr>)
           | Some n \<Rightarrow> (Ret (Some (take n chunk)), c\<lparr>cn_reads := (if length chunk \<le> n then rs else Some (drop n chunk) # rs)\<rparr>)))"

definition write_endpoint :: "string \<Rightarrow> 's conn \<Rightarrow> bool \<times> 's conn" where
  "write_endpoint data c =
     (if cn_write_ok c then (True, c\<lparr>cn_sent := cn_sent c @ data\<rparr>) else (False, c\<lparr>cn_failed := True\<rparr>))"

definition fill_pending :: "'s conn \<Rightarrow> bool io \<times> 's conn" where
  "fill_pending c =
     (case read_endpoint (Some 4096) c of
        (Park, d) \<Rightarrow> (Park, d)
      | (Ret None, d) \<Rightarrow> (Ret False, d)
      | (Ret (Some s), d) \<Rightarrow> (Ret True, if s = '''' then d\<lparr>cn_eof := True\<rparr> else d\<lparr>cn_pending := cn_pending d @ s\<rparr>))"

section \<open>Handshakes\<close>

text \<open>The headers up to the blank line, and what was read past it.\<close>

fun http_headers_loop :: "string \<Rightarrow> string option list \<Rightarrow> 's conn \<Rightarrow> (string \<times> string) option io \<times> 's conn" where
  "http_headers_loop buf reads c =
     (let c = c\<lparr>cn_reads := reads\<rparr>
      in case str_find buf (crlf @ crlf) 0 of
           Some e \<Rightarrow> (Ret (Some (take (e + 4) buf, drop (e + 4) buf)), c)
         | None \<Rightarrow>
             if 65536 < length buf then (Ret None, set_state_error ''websocket handshake: header too large'' c)
             else case reads of
                 [] \<Rightarrow> (Park, c)
               | None # rs \<Rightarrow> (Ret None, c\<lparr>cn_failed := True, cn_reads := rs\<rparr>)
               | Some [] # rs \<Rightarrow> (Ret None, set_state_error ''websocket handshake: EOF before headers'' (c\<lparr>cn_reads := rs\<rparr>))
               | Some chunk # rs \<Rightarrow> http_headers_loop (buf @ chunk) rs c)"

declare http_headers_loop.simps [simp del]

definition read_http_headers :: "'s conn \<Rightarrow> (string \<times> string) option io \<times> 's conn" where
  "read_http_headers c = http_headers_loop (cn_pending c) (cn_reads c) (c\<lparr>cn_pending := ''''\<rparr>)"

definition to_ws :: "bool \<Rightarrow> 32 word \<Rightarrow> string \<Rightarrow> chan \<Rightarrow> chan" where
  "to_ws client now leftover c = c\<lparr>cn_framer := (cn_framer c)\<lparr>fr_ws := Some (ws_new client now leftover)\<rparr>\<rparr>"

definition upgrade_websocket :: "32 word \<Rightarrow> chan \<Rightarrow> bool io \<times> chan" where
  "upgrade_websocket now c =
     (if fr_ws (cn_framer c) \<noteq> None then (Ret True, c)
      else if \<not> cn_open c then (Ret False, set_state_error ''upgrade_websocket on a channel with no endpoint'' c)
      else case read_http_headers c of
          (Park, d) \<Rightarrow> (Park, d)
        | (Ret None, d) \<Rightarrow> (Ret False, d)
        | (Ret (Some (headers, leftover)), d) \<Rightarrow>
            (case websocket_server_handshake headers of
               Inl reason \<Rightarrow> (Ret False, set_state_error (''upgrade_websocket: '' @ reason) d)
             | Inr response \<Rightarrow>
                 let (sent, d) = write_endpoint response d
                 in if sent then (Ret True, to_ws False now leftover d) else (Ret False, d)))"

text \<open>Beside the answer, the counter of requests.\<close>

definition connect_websocket :: "32 word \<Rightarrow> 32 word \<Rightarrow> string \<Rightarrow> chan \<Rightarrow> bool io \<times> 32 word \<times> chan" where
  "connect_websocket now counter resource c =
     (if fr_ws (cn_framer c) \<noteq> None then (Ret True, counter, c)
      else if \<not> cn_open c then (Ret False, counter, set_state_error ''connect_websocket on a channel with no endpoint'' c)
      else let (request, key, counter) = websocket_client_request now counter resource '''';
               (sent, d) = write_endpoint request c
           in if \<not> sent then (Ret False, counter, d)
              else case read_http_headers d of
                  (Park, e) \<Rightarrow> (Park, counter, e)
                | (Ret None, e) \<Rightarrow> (Ret False, counter, e)
                | (Ret (Some (headers, leftover)), e) \<Rightarrow>
                    (case websocket_client_validate headers key of
                       Some reason \<Rightarrow> (Ret False, counter, set_state_error (''connect_websocket: '' @ reason) e)
                     | None \<Rightarrow> (Ret True, counter, to_ws True now leftover e)))"

definition frame_headers :: "chan \<Rightarrow> bool \<times> chan" where
  "frame_headers c =
     (if fr_hdr (cn_framer c) \<noteq> None then (True, c)
      else if fr_ws (cn_framer c) \<noteq> None
      then (False, set_state_error ''frame_headers on a WebSocket channel: a channel speaks one framing'' c)
      else if \<not> cn_open c then (False, set_state_error ''frame_headers on a channel with no endpoint'' c)
      else (True, c\<lparr>cn_framer := (cn_framer c)\<lparr>fr_hdr := Some (hdr_new (cn_pending c))\<rparr>, cn_pending := ''''\<rparr>))"

definition page_response :: "string \<Rightarrow> string" where
  "page_response body =
     ''HTTP/1.1 200 OK'' @ crlf @ ''Content-Type: text/html; charset=utf-8'' @ crlf
     @ ''Content-Length: '' @ to_string (length body) @ crlf @ ''Connection: close'' @ crlf @ crlf @ body"

definition serve_http :: "32 word \<Rightarrow> string \<Rightarrow> chan \<Rightarrow> int io \<times> chan" where
  "serve_http now page c =
     (case read_http_headers c of
        (Park, d) \<Rightarrow> (Park, d)
      | (Ret None, d) \<Rightarrow> (Ret (- 1), d)
      | (Ret (Some (request, leftover)), d) \<Rightarrow>
          (case websocket_server_handshake request of
             Inr response \<Rightarrow>
               let (sent, d) = write_endpoint response d
               in if sent then (Ret 1, to_ws False now leftover d) else (Ret (- 1), d)
           | Inl _ \<Rightarrow> let (sent, d) = write_endpoint (page_response page) d in if sent then (Ret 0, d) else (Ret (- 1), d)))"

definition serve_web :: "32 word \<Rightarrow> string \<Rightarrow> chan \<Rightarrow> int io \<times> chan" where
  "serve_web now page c =
     (if fr_ws (cn_framer c) \<noteq> None then (Ret 1, c)
      else if \<not> cn_open c then (Ret (- 1), set_state_error ''serve_web on a channel with no endpoint'' c)
      else let (got, c) = (if cn_pending c = '''' then fill_pending c else (Ret True, c))
           in case got of
                Park \<Rightarrow> (Park, c)
              | Ret False \<Rightarrow> (Ret (- 1), c)
              | Ret True \<Rightarrow>
                  if cn_pending c = '''' then (Ret (- 1), c)
                  else if cn_pending c ! 0 = CHR ''{'' \<or> cn_pending c ! 0 = CHR ''['' then (Ret 2, c)
                  else serve_http now page c)"

section \<open>Reading and writing\<close>

definition chan_ws_recv :: "ws \<Rightarrow> chan \<Rightarrow> recv_result \<times> chan" where
  "chan_ws_recv w c = (let (r, d) = ws_recv (reframed w c) in (r, reframed ((cn_framer c)\<lparr>fr_ws := Some (cn_framer d)\<rparr>) d))"

definition chan_hdr_recv :: "hdr_framer \<Rightarrow> chan \<Rightarrow> recv_result \<times> chan" where
  "chan_hdr_recv h c = (let (r, d) = hdr_recv (reframed h c) in (r, reframed ((cn_framer c)\<lparr>fr_hdr := Some (cn_framer d)\<rparr>) d))"

fun line_loop :: "string option list \<Rightarrow> 's conn \<Rightarrow> recv_result \<times> 's conn" where
  "line_loop reads c =
     (let c = c\<lparr>cn_reads := reads\<rparr>; p = cn_pending c
      in case find_char p (CHR 0x0A) 0 of
           Some n \<Rightarrow>
             (Received (take (if n \<noteq> 0 \<and> p ! (n - 1) = CHR 0x0D then n - 1 else n) p), c\<lparr>cn_pending := drop (n + 1) p\<rparr>)
         | None \<Rightarrow>
             if \<not> cn_open c \<or> cn_eof c
             then if p = '''' then (NotReceived, c) else (Received p, c\<lparr>cn_pending := ''''\<rparr>)
             else case reads of
                 [] \<Rightarrow> (Parked, c)
               | None # rs \<Rightarrow> (NotReceived, c\<lparr>cn_failed := True, cn_reads := rs\<rparr>)
               | Some [] # rs \<Rightarrow> line_loop rs (c\<lparr>cn_eof := True\<rparr>)
               | Some chunk # rs \<Rightarrow> line_loop rs (c\<lparr>cn_pending := p @ chunk\<rparr>))"

declare line_loop.simps [simp del]

text \<open>Everything up to the end, but for a framed channel.\<close>

fun readall_loop :: "string option list \<Rightarrow> 's conn \<Rightarrow> recv_result \<times> 's conn" where
  "readall_loop reads c =
     (let c = c\<lparr>cn_reads := reads\<rparr>
      in if \<not> cn_open c \<or> cn_eof c then (Received (cn_pending c), c\<lparr>cn_pending := ''''\<rparr>)
         else case reads of
             [] \<Rightarrow> (Parked, c)
           | None # rs \<Rightarrow> (NotReceived, c\<lparr>cn_failed := True, cn_reads := rs\<rparr>)
           | Some chunk # rs \<Rightarrow>
               readall_loop rs (if chunk = '''' then c\<lparr>cn_eof := True\<rparr> else c\<lparr>cn_pending := cn_pending c @ chunk\<rparr>))"

declare readall_loop.simps [simp del]

definition readline :: "chan \<Rightarrow> recv_result \<times> chan" where
  "readline c =
     (case fr_ws (cn_framer c) of
        Some w \<Rightarrow> chan_ws_recv w c
      | None \<Rightarrow>
          (case fr_hdr (cn_framer c) of
             Some h \<Rightarrow> chan_hdr_recv h c
           | None \<Rightarrow> if cn_failed c then (NotReceived, c) else line_loop (cn_reads c) c))"

definition message_oriented :: "chan \<Rightarrow> bool" where
  "message_oriented c \<longleftrightarrow> fr_ws (cn_framer c) \<noteq> None \<or> fr_hdr (cn_framer c) \<noteq> None"

definition use_readline :: string where
  "use_readline = ''this channel is message-oriented; use readline()''"

definition readall :: "chan \<Rightarrow> recv_result \<times> chan" where
  "readall c =
     (if message_oriented c then (NotReceived, set_state_error use_readline c)
      else if cn_failed c then (NotReceived, c) else readall_loop (cn_reads c) c)"

text \<open>The bytes read, or the error; an empty text is the end.\<close>

definition read_bytes :: "int \<Rightarrow> chan \<Rightarrow> string option io \<times> chan" where
  "read_bytes capacity c =
     (if capacity \<le> 0 then (Ret (Some ''''), c)
      else if message_oriented c then (Ret None, set_state_error use_readline c)
      else if cn_pending c \<noteq> ''''
      then (Ret (Some (take (nat capacity) (cn_pending c))), c\<lparr>cn_pending := drop (nat capacity) (cn_pending c)\<rparr>)
      else if cn_failed c then (Ret None, c)
      else if \<not> cn_open c then (Ret None, set_state_error ''channel is closed'' c)
      else if cn_eof c then (Ret (Some ''''), c)
      else case read_endpoint (Some (nat capacity)) c of
          (Ret (Some s), d) \<Rightarrow> (Ret (Some s), if s = '''' then d\<lparr>cn_eof := True\<rparr> else d)
        | (q, d) \<Rightarrow> (q, d))"

definition write_text :: "string \<Rightarrow> chan \<Rightarrow> bool \<times> chan" where
  "write_text data c =
     (if \<not> cn_open c then (False, set_state_error ''channel is closed'' c)
      else if data = '''' then (True, c)
      else case fr_hdr (cn_framer c) of
          Some h \<Rightarrow> write_endpoint (encode_message data) c
        | None \<Rightarrow>
            (case fr_ws (cn_framer c) of
               Some w \<Rightarrow>
                 let (frame, w) = encode_text data w
                 in write_endpoint frame (c\<lparr>cn_framer := (cn_framer c)\<lparr>fr_ws := Some w\<rparr>\<rparr>)
             | None \<Rightarrow> write_endpoint data c))"

section \<open>Readiness\<close>

text \<open>
  Whether a read makes progress now (1), would wait (0) or is over (-1).  Whether the endpoint can
  be polled, and whether it is readable, are answers from outside.
\<close>

definition poll_state :: "bool option \<Rightarrow> 's conn \<Rightarrow> int" where
  "poll_state readable c =
     (if cn_pending c \<noteq> '''' then 1
      else if cn_failed c then - 1
      else if \<not> cn_open c \<or> cn_eof c then - 1
      else case readable of None \<Rightarrow> 1 | Some r \<Rightarrow> if r then 1 else 0)"

end
