(* ===== verification/ChannelObjectProps.thy ===== *)
theory ChannelObjectProps
  imports ChannelObject
begin

text \<open>
  Properties of the channel object: a whole WebSocket session over two endpoints, the lines of a
  byte stream, and that none of it depends on how the bytes are cut into reads.
\<close>

section \<open>Where a header block ends\<close>

definition block_of :: "string \<Rightarrow> bool" where
  "block_of blk \<longleftrightarrow> 4 \<le> length blk \<and> str_find blk (crlf @ crlf) 0 = Some (length blk - 4)"

lemma header_lines_block:
  assumes "\<forall>l \<in> set ls. CHR 0x0D \<notin> set l \<and> l \<noteq> ''''" and "ls \<noteq> []"
  shows "block_of (header_lines ls @ crlf)"
proof -
  have "2 \<le> length (header_lines ls)" using assms(2) by (cases ls) (simp_all add: header_lines_def)
  then show ?thesis using header_lines_find [OF assms, of "''''" 0] by (simp add: block_of_def str_find_def)
qed

section \<open>Reading the headers\<close>

lemma append_prefix:
  assumes "buf @ x = blk @ rest" and "length blk \<le> length buf"
  obtains y where "buf = blk @ y" "y @ x = rest"
proof -
  have "take (length blk) (buf @ x) = blk" using assms(1) by simp
  then have "buf = blk @ drop (length blk) buf" using assms(2) by (metis append_take_drop_id diff_is_0_eq' take0 take_append append_Nil2)
  then show ?thesis using assms(1) that by (metis append.assoc same_append_eq)
qed

lemma http_headers_read:
  assumes "block_of blk" and "length blk \<le> 65536" and "buf @ concat cs = blk @ rest" and "'''' \<notin> set cs"
  shows "\<exists>leftover ds. http_headers_loop buf (map Some cs @ after) c = (Ret (Some (blk, leftover)), c\<lparr>cn_reads := map Some ds @ after\<rparr>)
    \<and> leftover @ concat ds = rest \<and> '''' \<notin> set ds"
  using assms(3,4)
proof (induction cs arbitrary: buf c)
  case Nil
  then have "str_find buf (crlf @ crlf) 0 = Some (length blk - 4)"
    using assms(1) str_find_append [of blk "crlf @ crlf" "length blk - 4" rest] by (simp add: block_of_def)
  then show ?case using assms(1) Nil by (intro exI [of _ rest] exI [of _ "[]"]) (subst http_headers_loop.simps, simp add: block_of_def)
next
  case (Cons ch cs)
  show ?case
  proof (cases "str_find buf (crlf @ crlf) 0")
    case (Some e)
    have "str_find (buf @ concat (ch # cs)) (crlf @ crlf) 0 = Some e" by (rule str_find_append [OF Some])
    then have e: "e = length blk - 4"
      using assms(1) str_find_append [of blk "crlf @ crlf" "length blk - 4" rest] Cons.prems(1) by (simp add: block_of_def)
    have le: "length blk \<le> length buf" using str_find_at [OF Some] assms(1) e by (simp add: block_of_def)
    then obtain y where y: "buf = blk @ y" "y @ concat (ch # cs) = rest" using append_prefix [OF Cons.prems(1)] by blast
    have b: "4 \<le> length blk" using assms(1) by (simp add: block_of_def)
    have "http_headers_loop buf (map Some (ch # cs) @ after) c = (Ret (Some (take (e + 4) buf, drop (e + 4) buf)), c\<lparr>cn_reads := map Some (ch # cs) @ after\<rparr>)"
      by (subst http_headers_loop.simps) (simp add: Some)
    then show ?thesis using y e b Cons.prems(2) by (intro exI [of _ y] exI [of _ "ch # cs"]) simp
  next
    case None
    have "length buf < length blk"
    proof (rule ccontr)
      assume "\<not> length buf < length blk"
      then obtain x where "buf = blk @ x" using append_prefix [OF Cons.prems(1)] by (metis not_less)
      then show False using None assms(1) str_find_append [of blk "crlf @ crlf" "length blk - 4" x] by (simp add: block_of_def)
    qed
    then have small: "\<not> 65536 < length buf" using assms(2) by simp
    obtain b bs where ch: "ch = b # bs" using Cons.prems(2) by (cases ch) auto
    have "http_headers_loop buf (map Some (ch # cs) @ after) c = http_headers_loop (buf @ ch) (map Some cs @ after) (c\<lparr>cn_reads := Some ch # map Some cs @ after\<rparr>)"
      by (subst http_headers_loop.simps) (simp add: None small ch)
    then show ?thesis using Cons.IH [of "buf @ ch" "c\<lparr>cn_reads := Some ch # map Some cs @ after\<rparr>"] Cons.prems by auto
  qed
qed


section \<open>The texts of the handshake\<close>

lemma length_sha1: "length (sha1 s) = 20"
  by (simp add: sha1_def Let_def split: prod.splits)

lemma length_base64: "length (base64_encode s) = 4 * ((length s + 2) div 3)"
proof -
  have "Suc (Suc (Suc (Suc (Suc n)))) div 3 = Suc (Suc (Suc n) div 3)" for n :: nat by presburger
  then show ?thesis by (induction s rule: base64_encode.induct) (simp_all add: b64_group_def)
qed

lemma token_clean: "\<forall>c \<in> set (websocket_accept_token key). \<not> isspace c" "length (websocket_accept_token key) = 28"
  unfolding websocket_accept_token_def by (rule b64_clean [OF base64_text]) (simp add: length_base64 length_sha1)

lemma request_block:
  assumes "websocket_client_request now counter resource host = (request, key, counter')"
    and "CHR 0x0D \<notin> set resource" and "CHR 0x0D \<notin> set host"
  shows "block_of request"
proof -
  let ?key = "base64_encode (fst (lcg_bytes 16 (now XOR (counter + 0x9E3779B9))))"
  let ?ls = "[''GET '' @ (if resource = '''' then ''/'' else resource) @ '' HTTP/1.1'', ''Host: '' @ (if host = '''' then ''localhost'' else host),
      ''Upgrade: websocket'', ''Connection: Upgrade'', ''Sec-WebSocket-Key: '' @ ?key, ''Sec-WebSocket-Version: 13'']"
  have "CHR 0x0D \<notin> set ?key" by (rule no_space_no_cr [OF b64_clean [OF base64_text]])
  then have "\<forall>l \<in> set ?ls. CHR 0x0D \<notin> set l \<and> l \<noteq> ''''" using assms(2,3) by simp
  moreover have "request = header_lines ?ls @ crlf"
    using assms(1) by (auto simp: websocket_client_request_def header_lines_def Let_def)
  ultimately show ?thesis using header_lines_block [of ?ls] by simp
qed

lemma response_block:
  assumes "websocket_server_handshake request = Inr response"
  shows "block_of response \<and> length response \<le> 65536"
proof -
  obtain key where r: "response = switch_response (websocket_accept_token key)"
    using assms by (auto simp: websocket_server_handshake_def split: option.splits if_splits)
  let ?ls = "[''HTTP/1.1 101 Switching Protocols'', ''Upgrade: websocket'', ''Connection: Upgrade'', ''Sec-WebSocket-Accept: '' @ websocket_accept_token key]"
  have "CHR 0x0D \<notin> set (websocket_accept_token key)" by (rule no_space_no_cr [OF token_clean(1)])
  then have "\<forall>l \<in> set ?ls. CHR 0x0D \<notin> set l \<and> l \<noteq> ''''" by simp
  moreover have "response = header_lines ?ls @ crlf" by (simp add: r switch_response_def header_lines_def)
  moreover have "length response \<le> 65536" by (simp add: r switch_response_def token_clean(2))
  ultimately show ?thesis using header_lines_block [of ?ls] by simp
qed

section \<open>Receiving over a framed channel\<close>

lemma reframed_reframed [simp]: "reframed x (reframed y c) = reframed x c" "reframed (cn_framer c) c = c"
    "cn_framer (reframed x c) = x"
  by (simp_all add: reframed_def)

lemma receive_readline_ws:
  "fr_ws (cn_framer c) = Some w \<Longrightarrow> receive n readline c =
    (let (ms, r, d) = receive n ws_recv (reframed w c) in (ms, r, reframed ((cn_framer c)\<lparr>fr_ws := Some (cn_framer d)\<rparr>) d))"
proof (induction n arbitrary: c w)
  case 0
  then have "(cn_framer c)\<lparr>fr_ws := Some w\<rparr> = cn_framer c" by simp
  then show ?case by simp
next
  case (Suc n)
  obtain q d where q: "ws_recv (reframed w c) = (q, d)" by (cases "ws_recv (reframed w c)")
  let ?c = "reframed ((cn_framer c)\<lparr>fr_ws := Some (cn_framer d)\<rparr>) d"
  have r: "readline c = (q, ?c)" using Suc.prems q by (simp add: readline_def chan_ws_recv_def)
  show ?case using Suc.IH [of ?c "cn_framer d"] by (simp add: r q split: recv_result.split prod.split)
qed


section \<open>A WebSocket session\<close>

text \<open>A byte channel, just opened, whose peer sends some bytes and closes.\<close>

definition byte_channel :: "string list \<Rightarrow> chan \<Rightarrow> bool" where
  "byte_channel chunks c \<longleftrightarrow> cn_framer c = no_framing \<and> cn_open c \<and> cn_pending c = '''' \<and> peer_sends chunks c"

lemma byte_channel_headers:
  assumes "byte_channel chunks c" and "concat chunks = blk @ rest" and "block_of blk" and "length blk \<le> 65536"
  shows "\<exists>leftover ds. read_http_headers c = (Ret (Some (blk, leftover)), c\<lparr>cn_reads := map Some ds @ [Some '''']\<rparr>)
    \<and> leftover @ concat ds = rest \<and> '''' \<notin> set ds"
proof -
  have c: "cn_pending c = ''''" "cn_reads c = map Some chunks @ [Some '''']" "'''' \<notin> set chunks" "c\<lparr>cn_pending := ''''\<rparr> = c"
    using assms(1) by (simp_all add: byte_channel_def peer_sends_def)
  have "read_http_headers c = http_headers_loop '''' (map Some chunks @ [Some '''']) c"
    by (simp only: read_http_headers_def c(1,2,4))
  then show ?thesis
    using http_headers_read [OF assms(3,4), of "''''" chunks rest "[Some '''']" c] assms(2) c(3) by simp
qed

lemma session_receives:
  assumes "cn_framer c = no_framing" and "cn_write_ok c" and "\<not> cn_failed c" and "\<not> cn_eof c"
    and "cn_reads c = map Some ds @ [Some '''']" and "'''' \<notin> set ds"
    and "leftover @ concat ds = sent_texts ms v" and "\<forall>m \<in> set ms. length m < 2 ^ 63"
  shows "\<exists>e. receive (Suc (length ms)) readline (to_ws client now leftover c) = (ms, Some NotReceived, e)
    \<and> cn_eof e \<and> \<not> cn_failed e \<and> cn_sent e = cn_sent c"
proof -
  let ?c = "to_ws client now leftover c" and ?w = "ws_new client now leftover"
  have p: "peer_sends ds (reframed ?w ?c)" using assms(2-6) by (simp add: peer_sends_def reframed_def to_ws_def)
  have s: "ws_inbuf (cn_framer (reframed ?w ?c)) @ concat ds = sent_texts ms v" using assms(7) by (simp add: reframed_def ws_new_def)
  obtain d where d: "receive (Suc (length ms)) ws_recv (reframed ?w ?c) = (ms, Some NotReceived, d)" "cn_eof d" "\<not> cn_failed d"
      "cn_sent d = cn_sent (reframed ?w ?c)"
    using ws_stream_received [OF p s assms(8)] by blast
  have "fr_ws (cn_framer ?c) = Some ?w" by (simp add: to_ws_def)
  from receive_readline_ws [OF this, of "Suc (length ms)"] d show ?thesis
    by (auto simp: reframed_def to_ws_def simp del: receive.simps)
qed

text \<open>
  What \<open>write\<close> puts on the wire of a WebSocket channel: the frames of the messages, one after another;
  an empty message is dropped before it reaches the framer.
\<close>

fun write_texts :: "string list \<Rightarrow> chan \<Rightarrow> chan" where
  "write_texts [] c = c"
| "write_texts (m # ms) c = write_texts ms (snd (write_text m c))"

lemma write_texts_sent:
  assumes "cn_open c" and "cn_write_ok c" and "fr_ws (cn_framer c) = Some w" and "fr_hdr (cn_framer c) = None"
  shows "cn_sent (write_texts ms c) = cn_sent c @ sent_texts (filter (\<lambda>m. m \<noteq> '''') ms) w"
  using assms
proof (induction ms arbitrary: c w)
  case (Cons m ms)
  obtain f u where e: "encode_text m w = (f, u)" by (cases "encode_text m w")
  show ?case
  proof (cases "m = ''''")
    case True
    then show ?thesis using Cons by (simp add: write_text_def)
  next
    case False
    let ?d = "c\<lparr>cn_framer := (cn_framer c)\<lparr>fr_ws := Some u\<rparr>, cn_sent := cn_sent c @ f\<rparr>"
    have "snd (write_text m c) = ?d" using False Cons.prems e by (simp add: write_text_def write_endpoint_def)
    then show ?thesis using Cons.IH [of ?d u] Cons.prems False e by simp
  qed
qed simp

text \<open>
  C35: a WebSocket session.  A client connects, the server upgrades, and each then receives the
  messages the other sends, in order and as they are.  It does not matter how either stream is
  cut into reads: the first messages may arrive with the headers.  The bytes each sends are the
  frames of its messages, which are those \<open>write\<close> sends (\<open>write_texts_sent\<close>, for messages that are not
  empty).
\<close>

theorem websocket_session:
  assumes "websocket_client_request now counter resource '''' = (request, key, counter')" and "CHR 0x0D \<notin> set resource"
    and "length request \<le> 65536" and "websocket_server_handshake request = Inr response"
    and "byte_channel to_server s" and "concat to_server = request @ sent_texts ms v" and "\<forall>m \<in> set ms. length m < 2 ^ 63"
    and "byte_channel to_client c" and "concat to_client = response @ sent_texts ns u" and "\<forall>m \<in> set ns. length m < 2 ^ 63"
  shows "\<exists>s' s'' c' c''.
    upgrade_websocket t s = (Ret True, s') \<and> cn_sent s' = cn_sent s @ response
    \<and> receive (Suc (length ms)) readline s' = (ms, Some NotReceived, s'') \<and> cn_eof s'' \<and> \<not> cn_failed s''
    \<and> connect_websocket now counter resource c = (Ret True, counter', c') \<and> cn_sent c' = cn_sent c @ request
    \<and> receive (Suc (length ns)) readline c' = (ns, Some NotReceived, c'') \<and> cn_eof c'' \<and> \<not> cn_failed c''"
proof -
  obtain l ds where s: "read_http_headers s = (Ret (Some (request, l)), s\<lparr>cn_reads := map Some ds @ [Some '''']\<rparr>)"
      "l @ concat ds = sent_texts ms v" "'''' \<notin> set ds"
    using byte_channel_headers [OF assms(5,6) request_block [OF assms(1,2)] assms(3)] by auto
  let ?s = "s\<lparr>cn_reads := map Some ds @ [Some ''''], cn_sent := cn_sent s @ response\<rparr>"
  have su: "upgrade_websocket t s = (Ret True, to_ws False t l ?s)"
    using assms(4,5) s by (simp add: upgrade_websocket_def byte_channel_def peer_sends_def no_framing_def write_endpoint_def)
  obtain s'' where sr: "receive (Suc (length ms)) readline (to_ws False t l ?s) = (ms, Some NotReceived, s'')" "cn_eof s''" "\<not> cn_failed s''"
    using session_receives [of ?s ds l ms v False t] assms(5,7) s by (auto simp: byte_channel_def peer_sends_def simp del: receive.simps)
  let ?c0 = "c\<lparr>cn_sent := cn_sent c @ request\<rparr>"
  have b: "byte_channel to_client ?c0" using assms(8) by (simp add: byte_channel_def peer_sends_def)
  obtain k es where c: "read_http_headers ?c0 = (Ret (Some (response, k)), ?c0\<lparr>cn_reads := map Some es @ [Some '''']\<rparr>)"
      "k @ concat es = sent_texts ns u" "'''' \<notin> set es"
    using byte_channel_headers [OF b assms(9)] response_block [OF assms(4)] by auto
  let ?c = "?c0\<lparr>cn_reads := map Some es @ [Some '''']\<rparr>"
  obtain r where "websocket_server_handshake request = Inr r" "websocket_client_validate r key = None"
    using handshake_roles [OF assms(1,2)] by auto
  then have val: "websocket_client_validate response key = None" using assms(4) by simp
  have cu: "connect_websocket now counter resource c = (Ret True, counter', to_ws True now k ?c)"
    using assms(1,8) c val by (simp add: connect_websocket_def byte_channel_def peer_sends_def no_framing_def write_endpoint_def)
  obtain c'' where cr: "receive (Suc (length ns)) readline (to_ws True now k ?c) = (ns, Some NotReceived, c'')" "cn_eof c''" "\<not> cn_failed c''"
    using session_receives [of ?c es k ns u True now] assms(8,10) c by (auto simp: byte_channel_def peer_sends_def simp del: receive.simps)
  show ?thesis using su sr cu cr by (auto simp: to_ws_def simp del: receive.simps)
qed


theorem websocket_session_witness:
  "\<exists>response s' s''. websocket_server_handshake (fst (websocket_client_request 5 9 ''/x'' '''')) = Inr response
    \<and> upgrade_websocket 1 (sample_conn no_framing [fst (websocket_client_request 5 9 ''/x'' '''') @ sent_texts [''hi''] (ws_new True 3 '''')]) = (Ret True, s')
    \<and> cn_sent s' = response \<and> receive 2 readline s' = ([''hi''], Some NotReceived, s'')"
proof -
  let ?q = "websocket_client_request 5 9 ''/x'' ''''"
  have q: "?q = (fst ?q, fst (snd ?q), snd (snd ?q))" by simp
  have len: "length (fst ?q) \<le> 65536"
    by (simp add: websocket_client_request_def Let_def length_base64 length_lcg_bytes)
  obtain r where r: "websocket_server_handshake (fst ?q) = Inr r" using handshake_roles [OF q] by auto
  have ne: "fst ?q \<noteq> ''''" by (simp add: websocket_client_request_def Let_def)
  have rne: "r \<noteq> ''''" using response_block [OF r] by (auto simp: block_of_def)
  have s: "byte_channel [fst ?q @ sent_texts [''hi''] (ws_new True 3 '''')] (sample_conn no_framing [fst ?q @ sent_texts [''hi''] (ws_new True 3 '''')])"
    unfolding byte_channel_def using sample_conn ne by (simp add: sample_conn_def peer_sends_def)
  have c: "byte_channel [r] (sample_conn no_framing [r])"
    unfolding byte_channel_def using rne by (simp add: sample_conn_def peer_sends_def)
  have n: "Suc (length [''hi'']) = 2" by simp
  have z: "cn_sent (sample_conn x y) = ''''" for x :: framing and y by (simp add: sample_conn_def)
  show ?thesis
    using websocket_session [OF q _ len r s _ _ c, where ms = "[''hi'']" and ns = "[]" and v = "ws_new True 3 ''''" and t = 1, unfolded n z] r
    by (simp del: receive.simps) blast
qed

section \<open>Readiness and messages at hand\<close>

text \<open>
  \<open>poll_state\<close> looks at the bytes of the channel object and at the endpoint, not at what the framer
  already holds.  When two messages arrived in one read, the second is there for the next
  \<open>readline\<close>, while a task that asks first is told to wait.
\<close>

lemma poll_state_overlooks_framed:
  assumes "fr_ws (cn_framer c) = Some (w\<lparr>ws_inbuf := fst (encode_text m v) @ rest\<rparr>)" and "length m < 2 ^ 63"
    and "cn_pending c = ''''" and "cn_open c" and "\<not> cn_eof c" and "\<not> cn_failed c"
  shows "poll_state (Some False) c = 0" and "fst (readline c) = Received m"
proof -
  show "poll_state (Some False) c = 0" using assms(3-6) by (simp add: poll_state_def)
  let ?d = "reframed (w\<lparr>ws_inbuf := fst (encode_text m v) @ rest\<rparr>) c"
  have "ws_next (cn_framer ?d) = (Message m, '''', w\<lparr>ws_inbuf := rest\<rparr>)"
    by (simp add: ws_next_text [OF assms(2)])
  then obtain e where "recv ws_next ws_feed ?d = (Received m, e)"
    using recv_Message [of ws_next ?d] assms(5,6) by (simp add: reframed_def)
  then show "fst (readline c) = Received m" by (simp add: readline_def assms(1) chan_ws_recv_def ws_recv_def)
qed

section \<open>Lines\<close>

text \<open>A line as a peer ends it, with or without a carriage return.\<close>

fun ended_line :: "string \<times> bool \<Rightarrow> string" where
  "ended_line (l, cr) = l @ (if cr then crlf else [CHR 0x0A])"

definition plain_line :: "string \<times> bool \<Rightarrow> bool" where
  "plain_line x \<longleftrightarrow> CHR 0x0A \<notin> set (fst x) \<and> (snd x \<or> fst x = '''' \<or> last (fst x) \<noteq> CHR 0x0D)"

lemma find_newline:
  "CHR 0x0A \<notin> set u \<Longrightarrow> find_char (u @ CHR 0x0A # v) (CHR 0x0A) 0 = Some (length u)"
proof -
  assume "CHR 0x0A \<notin> set u"
  then have "takeWhile (\<lambda>c. c \<noteq> CHR 0x0A) (u @ CHR 0x0A # v) = u" by (induction u) auto
  then show ?thesis by (simp add: find_char_def char_find_at_eq)
qed

lemma find_newline_None: "find_char u (CHR 0x0A) 0 = None \<longleftrightarrow> CHR 0x0A \<notin> set u"
  by (auto simp: find_char_def char_find_at_eq)

definition without_cr :: "string \<Rightarrow> string" where
  "without_cr u = (if u \<noteq> '''' \<and> last u = CHR 0x0D then butlast u else u)"

lemma line_loop_newline:
  assumes "CHR 0x0A \<notin> set u" and "cn_pending c = u @ CHR 0x0A # v"
  shows "line_loop rs c = (Received (without_cr u), c\<lparr>cn_reads := rs, cn_pending := v\<rparr>)"
proof -
  have "take (if length u \<noteq> 0 \<and> (u @ CHR 0x0A # v) ! (length u - 1) = CHR 0x0D then length u - 1 else length u) (u @ CHR 0x0A # v) = without_cr u"
    by (cases u rule: rev_cases) (auto simp: without_cr_def nth_append)
  then show ?thesis using find_newline [OF assms(1)] assms(2) by (subst line_loop.simps) (simp add: Let_def)
qed

lemma line_loop_reads:
  assumes "CHR 0x0A \<notin> set u" and "cn_open c" and "\<not> cn_eof c"
    and "cn_pending c @ concat cs = u @ CHR 0x0A # rest" and "'''' \<notin> set cs"
  shows "\<exists>p ds. line_loop (map Some cs @ after) c = (Received (without_cr u), c\<lparr>cn_reads := map Some ds @ after, cn_pending := p\<rparr>)
    \<and> p @ concat ds = rest \<and> '''' \<notin> set ds"
  using assms(2-5)
proof (induction cs arbitrary: c)
  case Nil
  then show ?case using line_loop_newline [OF assms(1), of c rest "map Some [] @ after"]
    by (intro exI [of _ rest] exI [of _ "[]"]) simp
next
  case (Cons ch cs)
  show ?case
  proof (cases "length (u @ [CHR 0x0A]) \<le> length (cn_pending c)")
    case True
    have "cn_pending c @ concat (ch # cs) = (u @ [CHR 0x0A]) @ rest" using Cons.prems(3) by simp
    from append_prefix [OF this True] obtain y where y: "cn_pending c = (u @ [CHR 0x0A]) @ y" "y @ concat (ch # cs) = rest" by blast
    then show ?thesis using line_loop_newline [OF assms(1), of c y "map Some (ch # cs) @ after"] Cons.prems(4)
      by (intro exI [of _ y] exI [of _ "ch # cs"]) simp
  next
    case False
    have "take (length (cn_pending c)) (cn_pending c @ concat (ch # cs)) = cn_pending c" by simp
    then have "cn_pending c = take (length (cn_pending c)) u" using False unfolding Cons.prems(3) by simp
    then have "CHR 0x0A \<notin> set (cn_pending c)" using assms(1) by (metis in_set_takeD)
    then have no: "find_char (cn_pending c) (CHR 0x0A) 0 = None" by (simp add: find_newline_None)
    obtain b bs where ch: "ch = b # bs" using Cons.prems(4) by (cases ch) auto
    let ?c = "c\<lparr>cn_reads := map Some (ch # cs) @ after, cn_pending := cn_pending c @ ch\<rparr>"
    have "line_loop (map Some (ch # cs) @ after) c = line_loop (map Some cs @ after) ?c"
      using Cons.prems(1,2) by (subst line_loop.simps) (simp add: no ch Let_def)
    then show ?thesis using Cons.IH [of ?c] Cons.prems by auto
  qed
qed


lemma line_loop_tail:
  assumes "CHR 0x0A \<notin> set u" and "cn_open c" and "\<not> cn_eof c" and "cn_pending c @ concat cs = u" and "'''' \<notin> set cs"
  shows "line_loop (map Some cs @ [Some '''']) c =
    (if u = '''' then NotReceived else Received u, c\<lparr>cn_reads := [], cn_pending := '''', cn_eof := True\<rparr>)"
  using assms(2-5)
proof (induction cs arbitrary: c)
  case Nil
  have no: "find_char u (CHR 0x0A) 0 = None" using assms(1) by (simp add: find_newline_None)
  have p: "cn_pending c = u" using Nil.prems by simp
  let ?d = "c\<lparr>cn_reads := [Some ''''], cn_eof := True\<rparr>"
  have e: "line_loop [] ?d = (if u = '''' then NotReceived else Received u, c\<lparr>cn_reads := [], cn_pending := '''', cn_eof := True\<rparr>)"
    by (subst line_loop.simps) (use p in \<open>auto simp: Let_def no\<close>)
  have "line_loop [Some ''''] c = line_loop [] ?d"
    using Nil.prems by (subst line_loop.simps) (simp add: Let_def no p)
  then show ?case using e by simp
next
  case (Cons ch cs)
  have "CHR 0x0A \<notin> set (cn_pending c)" using assms(1) Cons.prems(3) by (metis Un_iff set_append)
  then have no: "find_char (cn_pending c) (CHR 0x0A) 0 = None" by (simp add: find_newline_None)
  obtain b bs where ch: "ch = b # bs" using Cons.prems(4) by (cases ch) auto
  let ?c = "c\<lparr>cn_reads := map Some (ch # cs) @ [Some ''''], cn_pending := cn_pending c @ ch\<rparr>"
  have "line_loop (map Some (ch # cs) @ [Some '''']) c = line_loop (map Some cs @ [Some '''']) ?c"
    using Cons.prems(1,2) by (subst line_loop.simps) (simp add: no ch Let_def)
  then show ?case using Cons.IH [of ?c] Cons.prems by simp
qed

lemma line_of_ended:
  assumes "plain_line x"
  obtains u where "ended_line x = u @ [CHR 0x0A]" "CHR 0x0A \<notin> set u" "without_cr u = fst x"
proof (cases x)
  case (Pair l cr)
  show thesis
  proof (cases cr)
    case True
    then show thesis using that [of "l @ [CHR 0x0D]"] assms by (simp add: Pair plain_line_def crlf_def without_cr_def)
  next
    case False
    then show thesis using that [of l] assms by (auto simp: Pair plain_line_def without_cr_def)
  qed
qed

lemma lines_stream:
  assumes "cn_framer c = no_framing" and "cn_open c" and "\<not> cn_eof c" and "\<not> cn_failed c"
    and "cn_reads c = map Some cs @ [Some '''']" and "'''' \<notin> set cs"
    and "cn_pending c @ concat cs = concat (map ended_line ls) @ rest" and "\<forall>x \<in> set ls. plain_line x" and "CHR 0x0A \<notin> set rest"
  shows "receive (length ls + 2) readline c =
    (map fst ls @ (if rest = '''' then [] else [rest]), Some NotReceived, c\<lparr>cn_reads := [], cn_pending := '''', cn_eof := True\<rparr>)"
  using assms
proof (induction ls arbitrary: c cs)
  case Nil
  have r: "readline d = line_loop (cn_reads d) d" if "cn_framer d = no_framing" "\<not> cn_failed d" for d :: chan
    using that by (simp add: readline_def no_framing_def)
  let ?d = "c\<lparr>cn_reads := [], cn_pending := '''', cn_eof := True\<rparr>"
  have 1: "readline c = (if rest = '''' then NotReceived else Received rest, ?d)"
    using line_loop_tail [OF Nil(9,2,3) _ Nil(6)] Nil by (simp add: r)
  have "find_char '''' (CHR 0x0A) 0 = None" by (simp add: find_newline_None)
  then have "line_loop [] ?d = (NotReceived, ?d)" by (subst line_loop.simps) (simp add: Let_def)
  then have 2: "readline ?d = (NotReceived, ?d)" using Nil by (simp add: r)
  show ?case by (simp add: numeral_2_eq_2 1 2)
next
  case (Cons x ls)
  obtain u where u: "ended_line x = u @ [CHR 0x0A]" "CHR 0x0A \<notin> set u" "without_cr u = fst x"
    using line_of_ended [of x] Cons.prems(8) by auto
  have "cn_pending c @ concat cs = u @ CHR 0x0A # concat (map ended_line ls) @ rest" using Cons.prems(7) u(1) by simp
  from line_loop_reads [OF u(2) Cons.prems(2,3) this Cons.prems(6)]
  obtain p ds where l: "line_loop (map Some cs @ [Some '''']) c = (Received (without_cr u), c\<lparr>cn_reads := map Some ds @ [Some ''''], cn_pending := p\<rparr>)"
      "p @ concat ds = concat (map ended_line ls) @ rest" "'''' \<notin> set ds" by blast
  let ?d = "c\<lparr>cn_reads := map Some ds @ [Some ''''], cn_pending := p\<rparr>"
  have r: "readline c = (Received (fst x), ?d)" using l(1) u(3) Cons.prems by (simp add: readline_def no_framing_def)
  have "receive (length ls + 2) readline ?d = (map fst ls @ (if rest = '''' then [] else [rest]), Some NotReceived,
      c\<lparr>cn_reads := [], cn_pending := '''', cn_eof := True\<rparr>)"
    using Cons.IH [of ?d ds] Cons.prems l by simp
  then show ?case by (simp add: r)
qed

text \<open>
  C40: lines over a byte channel.  The lines a peer writes, each ended by a line feed or by carriage
  return and line feed, are read back in order without their ends, then what follows the last end,
  then the end of the stream; it does not matter how the bytes are cut into reads.
\<close>

theorem lines_received:
  assumes "byte_channel chunks c" and "concat chunks = concat (map ended_line ls) @ rest"
    and "\<forall>x \<in> set ls. plain_line x" and "CHR 0x0A \<notin> set rest"
  shows "receive (length ls + 2) readline c =
    (map fst ls @ (if rest = '''' then [] else [rest]), Some NotReceived, c\<lparr>cn_reads := [], cn_pending := '''', cn_eof := True\<rparr>)"
  using lines_stream [of c chunks ls rest] assms by (simp add: byte_channel_def peer_sends_def del: receive.simps)

theorem lines_received_witness:
  "receive 4 readline (sample_conn no_framing [''ab'', crlf @ ''c'', [CHR 0x0A] @ ''d''])
    = ([''ab'', ''c'', ''d''], Some NotReceived, (sample_conn no_framing [])\<lparr>cn_reads := [], cn_eof := True\<rparr>)"
proof -
  let ?chunks = "[''ab'', crlf @ ''c'', [CHR 0x0A] @ ''d'']"
  have "byte_channel ?chunks (sample_conn no_framing ?chunks)"
    unfolding byte_channel_def using sample_conn [of ?chunks no_framing] by (simp add: sample_conn_def crlf_def)
  from lines_received [OF this, of "[(''ab'', True), (''c'', False)]" "''d''"]
  show ?thesis by (simp add: plain_line_def sample_conn_def eval_nat_numeral del: receive.simps)
qed


section \<open>One framing at a time\<close>

text \<open>
  A channel is meant to speak one framing.  The upgrade to WebSocket only asks whether the channel
  is one already: on a channel with length headers it succeeds, and then what is read are WebSocket
  messages and what is written are length headers.
\<close>

lemma http_headers_keep_framer: "cn_framer (snd (http_headers_loop buf reads c)) = cn_framer c"
  by (induction buf reads c rule: http_headers_loop.induct)
    (subst http_headers_loop.simps, auto simp: Let_def set_state_error_def split: option.splits list.splits)

lemma upgrade_keeps_header_framing:
  assumes "upgrade_websocket t c = (Ret True, d)" and "fr_ws (cn_framer c) = None" and "fr_hdr (cn_framer c) = Some h"
  shows "fr_ws (cn_framer d) \<noteq> None" and "fr_hdr (cn_framer d) = Some h"
    and "cn_open d \<Longrightarrow> data \<noteq> '''' \<Longrightarrow> write_text data d = write_endpoint (encode_message data) d"
proof -
  have f: "cn_framer (snd (read_http_headers c)) = cn_framer c" by (simp add: read_http_headers_def http_headers_keep_framer)
  then have d: "fr_ws (cn_framer d) \<noteq> None \<and> fr_hdr (cn_framer d) = Some h"
    using assms by (auto simp: upgrade_websocket_def write_endpoint_def to_ws_def split: if_splits io.splits option.splits prod.splits sum.splits)
  then show "fr_ws (cn_framer d) \<noteq> None" "fr_hdr (cn_framer d) = Some h" by blast+
  show "cn_open d \<Longrightarrow> data \<noteq> '''' \<Longrightarrow> write_text data d = write_endpoint (encode_message data) d"
    using d by (simp add: write_text_def)
qed

end
