(* ===== verification/Spec2Isabelle.thy ===== *)
theory Spec2Isabelle
  imports MangleParseProps MangleNames MangleState LiteralProps IfExpr MacroProps PaintProps
    InternRuns KeyedMapRuns IdTable ChannelFifo KeyBindingRuns KeyRoundtrip ChannelObjectProps
begin

text \<open>
  A model of the core of the MadC compiler and of the runtime components around it, with the
  theorems that make them correct.

  \<^bold>\<open>The program.\<close>  MadC reads C and C++ sources (\<^verbatim>\<open>include/madc.h\<close>, \<^verbatim>\<open>src/lexer.cpp\<close>), parses and
  lowers them (\<^verbatim>\<open>src/parser.cpp\<close>, \<^verbatim>\<open>src/cir_builder.cpp\<close>) and runs them through the MIR code
  generator.  It interns every spelling it meets and rolls its tables back when a trial parse fails
  (\<^verbatim>\<open>include/madcdis/intern_table.h\<close>, \<^verbatim>\<open>id_table.h\<close>), links against compiled C++ by mangling type
  spellings (\<^verbatim>\<open>src/madc_mangle.cpp\<close>), gives programs cooperative tasks with channels
  (\<^verbatim>\<open>src/madc_task_chan.cpp\<close>, \<^verbatim>\<open>src/rt/rt_task.c\<close>), and comes with an editor and a prompt of its
  own (\<^verbatim>\<open>include/madcdis/text_buffer.h\<close>, \<^verbatim>\<open>text_utf16.h\<close>, \<^verbatim>\<open>line_edit.h\<close>) under one key
  vocabulary (\<^verbatim>\<open>include/madcdis/keys.h\<close>, \<^verbatim>\<open>tui_keyparse.h\<close>).  Programs and the language server
  talk to peers over channels of bytes, of lines, of WebSocket messages or of messages with a length
  header (\<^verbatim>\<open>src/madc_channel_object.cpp\<close>, \<^verbatim>\<open>src/madc_websocket_channel.cpp\<close>,
  \<^verbatim>\<open>src/madc_header_channel.cpp\<close>).

  \<^bold>\<open>The theories.\<close>  Each group states its definitions in one or two theories that follow the code
  function by function, and proves their properties in the theories after it.

  \<^item> \<open>Prelude\<close>: strings of bytes, the members of \<open>std::string\<close> the sources call, decimal numerals,
    exceptions as values of a sum type.  \<open>Reader\<close>, \<open>Interner\<close>, \<open>Transactions\<close>: the interfaces, as
    locales, of a character reader, of an interning table and of a store with nested transactions.

  \<^item> \<open>SourceBuffer\<close>, \<open>SourceProps\<close>: class \<open>Source\<close> - the flat buffer, line splices, the pushback
    frames with the macro names they hide, line and column.  \<open>SourceProps\<close> gives it an abstract
    value, the text still to be read, and shows that \<open>get\<close>, \<open>peek\<close> and the pushbacks act on it as
    on a string; it interprets the reader interface on it.

  \<^item> \<open>Literals\<close>, \<open>SourceLiterals\<close>, \<open>LiteralProps\<close>: UTF-8, escapes, string and character literals,
    the digit loops of integers, as functions over any reader and then on the source.

  \<^item> \<open>PpGroup\<close>, \<open>MacroSpelling\<close>, \<open>MacroExpand\<close>, \<open>MacroProps\<close>: the balanced group scan, the tokens of
    a replacement list, substitution of a macro body with its paint spans.

  \<^item> \<open>IfCondition\<close>, \<open>IfProps\<close>, \<open>IfExpr\<close>: the condition of \<open>#if\<close> and its evaluator.  \<open>IfExpr\<close> states
    the value of an expression as a recursive function on trees, prints trees to text, and shows
    that the evaluator computes that value from the text.

  \<^item> \<open>SpellingDelim\<close>, \<open>MangleParse\<close>, \<open>MangleParseProps\<close>: splitting and parsing type spellings.
    \<open>MangleEncode\<close>, \<open>MangleSubst\<close>: the Itanium encoder with its substitution table, whose interface
    is a locale interpreted on the table.  \<open>MangleNames\<close>: the decoder of function symbols.
    \<open>MangleState\<close>: the process-wide flavour, its generation stamp, and the caches that follow it.

  \<^item> \<open>InternTable\<close>, \<open>InternProps\<close>, \<open>InternRuns\<close>: the interning table, which refines the list of the
    distinct spellings, and its frozen form.  \<open>KeyedMap\<close>, \<open>KeyedMapProps\<close>, \<open>KeyedMapRuns\<close>: the map
    keyed by interned ids.  \<open>IdTable\<close>: the segmented table of stable ids.  Both stores interpret the
    interface of transactions: a rollback restores the state of the begin.

  \<^item> \<open>TextBuffer\<close>, \<open>TextBufferProps\<close>, \<open>TextDocument\<close>: the piece table, which refines a plain string
    with undo and redo stacks.  \<open>TextUtf16\<close>, \<open>Utf8Text\<close>: code points, UTF-16 columns and the layout
    of a line.  \<open>LineEdit\<close>, \<open>LineEditProps\<close>, \<open>LineEditRuns\<close>: the prompt's model on top of both.
    \<open>LinePaint\<close>, \<open>PaintProps\<close>: the painter of its views.

  \<^item> \<open>KeyNames\<close>, \<open>KeyNameProps\<close>: keys, their canonical form and their spelling in both directions.
    \<open>KeyBindings\<close>, \<open>KeyBindingProps\<close>, \<open>KeyBindingRuns\<close>: the table of bound sequences, its validation,
    and the state machine of the pending chord.  \<open>KeyParse\<close>, \<open>KeyParseProps\<close>, \<open>KeyRoundtrip\<close>: the
    parser of a terminal's bytes, mouse reports and bracketed pastes included, and its inverse.

  \<^item> \<open>TaskChannels\<close>: channels, select and the registry of handles.  \<open>ChannelProps\<close>, \<open>ChannelVerbs\<close>,
    \<open>ChannelRuns\<close>, \<open>ChannelSelect\<close>: an invariant of all tasks and channels, kept by each verb up to
    its park and after it.  \<open>ChannelSystem\<close>: the tasks as a transition system, and what the invariant
    gives for every reachable state.  \<open>ChannelWatch\<close>: what a parked task has registered, against the
    answers of its last step, and that no wake-up is lost.  \<open>ChannelFifo\<close>: the order of the values,
    against a history of what was sent, taken and given up.

  \<^item> \<open>MessageStream\<close>: a connection, the loop that receives one message, and the interface of a
    framer as a locale, in which the cut of the stream into reads is shown not to matter.
    \<open>WebSocket\<close>: SHA-1, base64, the two handshakes, the frames of RFC 6455 and their decoder.
    \<open>HeaderFramer\<close>: messages with a length header; both framers interpret the interface.
    \<open>FramerProps\<close>, \<open>WebSocketRuns\<close>: what is sent is received, fragments are assembled, both roles of
    the handshake agree.  \<open>ChannelObject\<close>, \<open>ChannelObjectProps\<close>: the channel object that reads and
    writes through them, a session from connect to close, and the reading of lines.

  This theory adds what spans the mangler and the decoder: a symbol the one mints, the other reads.

  \<^bold>\<open>How the code is modelled.\<close>  A function of the code is a function on the state it reads, a class
  a record, a handler a function returning the new record.  Exceptions, failed conversions and
  undefined behaviour are values of \<open>cxx_error\<close>.  Integers have the width of the code where the
  width matters: the generation stamp, the ids and the hashes are 32-bit words, the conditions
  64-bit signed values, the digit loops 128-bit words; offsets into texts are natural numbers,
  where no offset of a text in memory reaches the width.  The table of interned strings is
  compared with its list as long as there are fewer spellings and bytes than 32-bit ids, which is a
  hypothesis of its properties.

  \<^bold>\<open>Fuel.\<close>  The type parser recurses with one more unit of fuel than the spelling has characters, and
  more fuel changes nothing (\<open>parse_type_recursion\<close>); the spellings on which it never returns are
  those with a stray closing bracket (\<open>parse_type_stray_bracket\<close>).  The evaluator of conditions has
  the length of the text as its fuel, and that is always enough (\<open>parse_cond_total\<close>).  The macro
  expansion of a condition nests to no bounded depth in the code: its depth is an argument, and
  running out of it is the error value \<open>NoReturn\<close>.

  \<^bold>\<open>Parameters.\<close>  What is outside the sources or answers from outside the process is an argument: the
  header search behind \<open>__has_include\<close>, the lazy decoder behind the frozen blocks, the readiness of
  handles, the metadata a host keeps with an undo step, the payload of channels, the clock that seeds
  the masks of a WebSocket client, the answers of an endpoint to reads and writes.

  \<^bold>\<open>Not modelled.\<close>  The parser and the semantic analysis, the CIR builder and its passes, the runtime
  values and the code generator work on one mutable graph of nodes shared by files of tens of
  thousands of lines, and a slice of them would have to stub most of what it calls.  Sessions,
  sockets, storage drivers and the terminal are operating-system calls.  Of the modelled parts,
  raw strings, floating literals and integer suffixes of the lexer are left out, and so are the
  timers, scopes and blocking wait of the task scheduler, the key table of the prompt, and of the
  channel object its opening, accepting and closing and the registries of detached and shared
  channels.  A task is cancelled by a request to it, not through the scopes around it.  The loops of
  the channel object take an answer of the endpoint whole instead of in buffers of 4096 bytes.  A
  \<open>$T\<close> placeholder with a negative index, undefined in the encoder, has an empty encoding.
\<close>

section \<open>Mangling and reading back\<close>

lemma mangle_component_identifiers:
  assumes "\<forall>q \<in> set quals. cxx_identifier q"
  shows "traverse (parse_component m) quals = Inr (map plain_component quals)"
  using assms by (intro traverse_Inr) (simp add: parse_component_def parse_component_identifier)

text \<open>
  C1: round trip of function symbols.  When the mangler makes a symbol for a function whose scopes
  are plain identifiers (none of them a template-id, the first one not \<open>std\<close>) and whose name is an
  identifier or an operator of the C++ language, whatever its parameters and linkage, the decoder of
  \<open>itanium_function_name\<close> reads back exactly the scopes and the function's name.  The decoder is
  meant to answer false for other shapes, such as scopes in \<open>std\<close>, template-ids and the vendor
  operators \<open>===\<close> and \<open>!==\<close>, and they are not part of the statement.
\<close>

theorem mangle_function_name_roundtrip:
  assumes "itanium_mangle_nested_sub m quals fname params il = Inr s" and "s \<noteq> []"
    and "\<forall>q \<in> set quals. cxx_identifier q" and "quals = [] \<or> hd quals \<noteq> ''std''"
    and "decodable_name fname"
  shows "itanium_function_name (Some s) = Some (join ''::'' quals, fname)"
proof (cases "quals = []")
  case True
  then obtain ps where "s = ''_Z'' @ unqualified_name fname (length params) il @ ps"
    using assms(1,2)
    by (auto simp: itanium_mangle_nested_sub_def mangle_nested_function_def ebind_eq_Inr settled_def
        Let_def split: if_splits)
  then show ?thesis using decode_global [OF assms(5)] True by simp
next
  case False
  obtain st where n: "encode_name (map plain_component quals) False mangler_reset
      = (concat (map source_name quals), st)"
    using encode_name_plain assms(3,4) False by blast
  have "quals \<noteq> [''std'']" using assms(4) False by auto
  then obtain ps where
    "s = ''_ZN'' @ concat (map source_name quals) @ unqualified_name fname (length params) il @ ''E'' @ ps"
    using assms(1,2) False mangle_component_identifiers [OF assms(3), of m] n
    by (auto simp: itanium_mangle_nested_sub_def mangle_nested_function_def ebind_eq_Inr settled_def
        Let_def split: if_splits)
  then show ?thesis using decode_nested [OF assms(3) False assms(5)] by simp
qed

theorem mangle_function_name_roundtrip_witness:
  "itanium_function_name (Some ''_ZN1a2bcplEic'') = Some (''a::bc'', ''operator+'')"
proof -
  have s: "itanium_mangle_nested_sub LP64 [''a'', ''bc''] ''operator+'' [''int'', ''char''] False
      = Inr ''_ZN1a2bcplEic''" by code_simp
  have "cxx_identifier ''a''" "cxx_identifier ''bc''" by (simp_all add: cxx_identifier_def ctype_defs)
  moreover have "decodable_op ''+''" by code_simp
  then have "decodable_name ''operator+''" by (simp add: decodable_name_def has_prefix_def)
  ultimately show ?thesis
    using mangle_function_name_roundtrip [OF s] by simp
qed

end
